(* ===== verification/Prelude.thy ===== *)
theory Prelude
  imports Main "HOL-Library.Word" "HOL-Library.Char_ord" "HOL-Library.List_Lexorder"
    "HOL-Library.Code_Target_Numeral"
begin

text \<open>
  The shared base of the development: the widths of Rust's integers, bytes and their big-endian
  encodings (\<open>to_be_bytes\<close> / \<open>from_be_bytes\<close>), Rust strings as the bytes of their UTF-8
  form with the standard library's validity check, decimal printing and parsing of \<open>u64\<close>,
  \<open>BTreeMap\<close> as a key-sorted association list, and the generic list lemmas the components use.

  A Rust \<open>str\<close> is an Isabelle \<^typ>\<open>string\<close>: a \<^typ>\<open>char\<close> is one byte, so \<open>length\<close> counts
  bytes as \<open>str::len\<close> does, and the order of strings is the byte order of \<open>str\<close>. That the
  bytes are valid UTF-8 is the predicate \<open>utf8\<close>. \<open>usize\<close> is 64 bits wide.
\<close>

section \<open>Collections of rewrite rules\<close>

named_theorems be_simps \<open>big-endian encoding and decoding\<close>
named_theorems bt_simps \<open>key-sorted association lists\<close>

section \<open>Machine integers and bytes\<close>

type_synonym u8 = "8 word"
type_synonym u16 = "16 word"
type_synonym u32 = "32 word"
type_synonym u64 = "64 word"
type_synonym u128 = "128 word"
type_synonym i8 = "8 word"
type_synonym i16 = "16 word"
type_synonym i32 = "32 word"
type_synonym i64 = "64 word"
type_synonym i128 = "128 word"
type_synonym bytes = "u8 list"

text \<open>The largest \<open>usize\<close> plus one, the bound of \<open>usize::checked_add\<close>.\<close>

definition usize_bound :: nat where
  "usize_bound = 2 ^ 64"

text \<open>Big-endian digits in base 256, most significant first.\<close>

primrec to_be :: "nat \<Rightarrow> nat \<Rightarrow> bytes" where
  "to_be 0 n = []"
| "to_be (Suc k) n = to_be k (n div 256) @ [word_of_nat n]"

definition of_be :: "bytes \<Rightarrow> nat" where
  "of_be bs = foldl (\<lambda>a b. a * 256 + unat b) 0 bs"

text \<open>\<open>to_be_bytes\<close> and \<open>from_be_bytes\<close> of every integer width.\<close>

definition be_bytes :: "'a::len word \<Rightarrow> bytes" where
  "be_bytes w = to_be (LENGTH('a) div 8) (unat w)"

definition from_be_bytes :: "bytes \<Rightarrow> 'a::len word" where
  "from_be_bytes bs = word_of_nat (of_be bs)"

section \<open>Strings\<close>

definition as_byte :: "char \<Rightarrow> u8" where
  "as_byte c = word_of_nat (of_char c)"

definition byte_char :: "u8 \<Rightarrow> char" where
  "byte_char b = char_of (unat b)"

definition as_bytes :: "string \<Rightarrow> bytes" where
  "as_bytes s = map as_byte s"

definition utf8_cont :: "u8 \<Rightarrow> bool" where
  "utf8_cont b \<longleftrightarrow> 0x80 \<le> b \<and> b \<le> 0xBF"

text \<open>The validity table of \<open>core::str::from_utf8\<close>: the lead byte fixes the number of
  continuation bytes and the range of the first one (no overlong form, no surrogate, nothing
  above U+10FFFF).\<close>

fun utf8_valid :: "bytes \<Rightarrow> bool" where
  "utf8_valid [] = True"
| "utf8_valid (a # bs) =
     (if a < 0x80 then utf8_valid bs
      else if 0xC2 \<le> a \<and> a \<le> 0xDF then
        (case bs of b # cs \<Rightarrow> utf8_cont b \<and> utf8_valid cs | _ \<Rightarrow> False)
      else if 0xE0 \<le> a \<and> a \<le> 0xEF then
        (case bs of
           b # c # cs \<Rightarrow>
             (if a = 0xE0 then 0xA0 \<le> b \<and> b \<le> 0xBF
              else if a = 0xED then 0x80 \<le> b \<and> b \<le> 0x9F
              else utf8_cont b) \<and> utf8_cont c \<and> utf8_valid cs
         | _ \<Rightarrow> False)
      else if 0xF0 \<le> a \<and> a \<le> 0xF4 then
        (case bs of
           b # c # d # cs \<Rightarrow>
             (if a = 0xF0 then 0x90 \<le> b \<and> b \<le> 0xBF
              else if a = 0xF4 then 0x80 \<le> b \<and> b \<le> 0x8F
              else utf8_cont b) \<and> utf8_cont c \<and> utf8_cont d \<and> utf8_valid cs
         | _ \<Rightarrow> False)
      else False)"

definition utf8 :: "string \<Rightarrow> bool" where
  "utf8 s \<longleftrightarrow> utf8_valid (as_bytes s)"

text \<open>\<open>std::str::from_utf8\<close>: the same bytes read as a string, when they are valid.\<close>

definition from_utf8 :: "bytes \<Rightarrow> string option" where
  "from_utf8 bs = (if utf8_valid bs then Some (map byte_char bs) else None)"

text \<open>\<open>str::split\<close> on one ASCII character: always at least one token.\<close>

fun split_on :: "char \<Rightarrow> string \<Rightarrow> string list" where
  "split_on c [] = [[]]"
| "split_on c (x # xs) =
     (if x = c then [] # split_on c xs
      else (case split_on c xs of t # ts \<Rightarrow> (x # t) # ts | [] \<Rightarrow> [[x]]))"

text \<open>A name between single quotes, as in messages.\<close>

definition quoted :: "string \<Rightarrow> string" where
  "quoted s = [CHR 0x27] @ s @ [CHR 0x27]"

text \<open>\<open>str::find\<close> of one ASCII character.\<close>

fun find_char :: "char \<Rightarrow> string \<Rightarrow> nat option" where
  "find_char c [] = None"
| "find_char c (x # xs) = (if x = c then Some 0 else map_option Suc (find_char c xs))"

section \<open>Decimal numbers\<close>

definition digit_char :: "nat \<Rightarrow> char" where
  "digit_char d = char_of (48 + d)"

definition digit_val :: "char \<Rightarrow> nat" where
  "digit_val c = of_char c - 48"

definition is_digit :: "char \<Rightarrow> bool" where
  "is_digit c \<longleftrightarrow> 48 \<le> (of_char c :: nat) \<and> (of_char c :: nat) \<le> 57"

fun show_nat :: "nat \<Rightarrow> string" where
  "show_nat n =
     (if n < 10 then [digit_char n] else show_nat (n div 10) @ [digit_char (n mod 10)])"

declare show_nat.simps [simp del]

definition digits_val :: "string \<Rightarrow> nat" where
  "digits_val s = foldl (\<lambda>a c. a * 10 + digit_val c) 0 s"

text \<open>\<open>u64::from_str\<close>: an optional leading plus sign, at least one decimal digit and nothing
  else, and no overflow.\<close>

definition parse_u64 :: "string \<Rightarrow> u64 option" where
  "parse_u64 s =
     (let ds = (case s of c # r \<Rightarrow> if c = CHR ''+'' then r else s | [] \<Rightarrow> s)
      in if ds = [] \<or> \<not> list_all is_digit ds then None
         else if digits_val ds < 2 ^ 64 then Some (word_of_nat (digits_val ds))
         else None)"

section \<open>BTreeMap\<close>

text \<open>A \<open>BTreeMap\<close> is the list of its entries in strictly increasing key order, the order in
  which it iterates.\<close>

type_synonym ('k, 'v) btree = "('k \<times> 'v) list"

definition bt_ok :: "('k::linorder, 'v) btree \<Rightarrow> bool" where
  "bt_ok m \<longleftrightarrow> sorted_wrt (<) (map fst m)"

definition bt_get :: "('k, 'v) btree \<Rightarrow> 'k \<Rightarrow> 'v option" where
  "bt_get m k = map_of m k"

fun bt_insert :: "'k::linorder \<Rightarrow> 'v \<Rightarrow> ('k, 'v) btree \<Rightarrow> ('k, 'v) btree" where
  "bt_insert k v [] = [(k, v)]"
| "bt_insert k v (e # m) =
     (if k < fst e then (k, v) # e # m
      else if k = fst e then (k, v) # m
      else e # bt_insert k v m)"

definition bt_remove :: "'k \<Rightarrow> ('k, 'v) btree \<Rightarrow> ('k, 'v) btree" where
  "bt_remove k m = filter (\<lambda>e. fst e \<noteq> k) m"

section \<open>Lists\<close>

lemma sub_append_left [simp]:
  "off + n \<le> length xs \<Longrightarrow> take n (drop off (xs @ ys)) = take n (drop off xs)"
  by simp

lemma drop_at [simp]: "off = length xs \<Longrightarrow> drop off (xs @ ys) = ys"
  by simp

lemma sub_of_sub:
  assumes "take n (drop off xs) = ys" and "i + k \<le> n"
  shows "take k (drop (off + i) xs) = take k (drop i ys)"
  using assms by (simp add: drop_take min_def add.commute flip: assms(1))

section \<open>Big-endian numbers\<close>

lemma length_to_be [simp, be_simps]: "length (to_be k n) = k"
  by (induction k arbitrary: n) auto

lemma of_be_Nil [simp]: "of_be [] = 0"
  by (simp add: of_be_def)

lemma of_be_snoc [simp]: "of_be (bs @ [b]) = of_be bs * 256 + unat b"
  by (simp add: of_be_def)

lemma of_be_append: "of_be (xs @ ys) = of_be xs * 256 ^ length ys + of_be ys"
  by (induction ys rule: rev_induct) (simp_all flip: append_assoc add: algebra_simps)

lemma unat_u8_less [simp]: "unat (b :: u8) < 256"
  using unsigned_less [of b, where ?'a = nat] by simp

lemma of_be_less: "of_be bs < 256 ^ length bs"
proof (induction bs rule: rev_induct)
  case (snoc b bs)
  have "unat b \<le> 255" using unat_u8_less [of b] by linarith
  moreover have "Suc (of_be bs) * 256 \<le> 256 ^ length bs * 256"
    using snoc by (intro mult_right_mono) auto
  ultimately have "of_be bs * 256 + unat b < 256 ^ length bs * 256" by simp
  then show ?case by (simp add: mult.commute)
qed simp

lemma of_be_to_be [be_simps]: "of_be (to_be k n) = n mod 256 ^ k"
proof (induction k arbitrary: n)
  case (Suc k)
  have "of_be (to_be (Suc k) n) = (n div 256 mod 256 ^ k) * 256 + n mod 256"
    by (simp add: Suc unat_of_nat take_bit_eq_mod)
  also have "\<dots> = n mod (256 * 256 ^ k)"
    by (simp add: mod_mult2_eq)
  finally show ?case by (simp add: mult.commute)
qed simp

lemma to_be_of_be [be_simps]: "to_be (length bs) (of_be bs) = bs"
proof (induction bs rule: rev_induct)
  case (snoc b bs)
  have "(of_be bs * 256 + unat b) div 256 = of_be bs"
    using unat_u8_less [of b] by (simp add: div_mult_self3)
  moreover have "(word_of_nat (of_be bs * 256 + unat b) :: u8) = b"
  proof -
    have "(256 :: u8) = 0" by simp
    then have "(word_of_nat (of_be bs * 256) :: u8) = 0" by (simp only: of_nat_mult of_nat_numeral) simp
    then show ?thesis by simp
  qed
  ultimately show ?case using snoc by simp
qed simp

lemma length_be_bytes [simp, be_simps]:
  "length (be_bytes (w :: 'a::len word)) = LENGTH('a) div 8"
  by (simp add: be_bytes_def)

lemma pow256_bytes: "8 dvd n \<Longrightarrow> (256 :: nat) ^ (n div 8) = 2 ^ n"
proof -
  assume "8 dvd n"
  then obtain k where "n = 8 * k" by (auto elim: dvdE)
  moreover have "(256 :: nat) = 2 ^ 8" by simp
  ultimately show ?thesis by (simp only: power_mult) simp
qed

lemma of_be_be_bytes [be_simps]:
  fixes w :: "'a::len word"
  assumes "8 dvd LENGTH('a)"
  shows "of_be (be_bytes w) = unat w"
  using assms unsigned_less [of w, where ?'a = nat]
  by (simp add: be_bytes_def of_be_to_be pow256_bytes)

lemma from_be_be_bytes [be_simps]:
  fixes w :: "'a::len word"
  assumes "8 dvd LENGTH('a)"
  shows "from_be_bytes (be_bytes w) = w"
  using assms by (simp add: from_be_bytes_def of_be_be_bytes)

lemma be_bytes_from_be [be_simps]:
  assumes "length bs = LENGTH('a) div 8" and "8 dvd LENGTH('a)"
  shows "be_bytes (from_be_bytes bs :: 'a::len word) = bs"
proof -
  have "of_be bs < 2 ^ LENGTH('a)"
    using of_be_less [of bs] assms by (simp add: pow256_bytes)
  then have "unat (from_be_bytes bs :: 'a word) = of_be bs"
    by (simp add: from_be_bytes_def unat_of_nat take_bit_nat_eq_self)
  then show ?thesis using assms(1) to_be_of_be [of bs] by (simp add: be_bytes_def)
qed

lemma be_bytes_inj [simp]:
  fixes v w :: "'a::len word"
  assumes "8 dvd LENGTH('a)"
  shows "be_bytes v = be_bytes w \<longleftrightarrow> v = w"
  using from_be_be_bytes [OF assms] by metis

text \<open>Among runs of one length the byte order is the numeric order.\<close>

lemma lex_of_be:
  "length xs = length ys \<Longrightarrow> xs < ys \<longleftrightarrow> of_be xs < of_be ys"
proof (induction xs ys rule: list_induct2)
  case (Cons x xs y ys)
  have xs: "of_be xs < 256 ^ length ys" and ys: "of_be ys < 256 ^ length ys"
    using of_be_less [of xs] of_be_less [of ys] Cons.hyps by auto
  have step: "of_be (b # bs) = unat b * 256 ^ length bs + of_be bs" for b :: u8 and bs
    using of_be_append [of "[b]" bs] by (simp add: of_be_def)
  have mono: "unat a * 256 ^ length ys + m < unat b * 256 ^ length ys + k"
    if "unat a < unat b" "m < 256 ^ length ys" for a b :: u8 and m k :: nat
  proof -
    have "Suc (unat a) * 256 ^ length ys \<le> unat b * 256 ^ length ys"
      using that by (intro mult_right_mono) auto
    with that show ?thesis by simp
  qed
  show ?case
  proof (cases "unat x" "unat y" rule: linorder_cases)
    case less
    then show ?thesis using mono [OF less xs] by (simp add: step Cons.hyps word_less_nat_alt)
  next
    case equal
    then have "x = y" by (simp add: word_unat_eq_iff)
    then show ?thesis using Cons by (simp add: step)
  next
    case greater
    then have "\<not> x < y" and "x \<noteq> y" by (auto simp: word_less_nat_alt)
    then show ?thesis
      using mono [OF greater ys, of "of_be xs"] by (simp add: step Cons.hyps)
  qed
qed simp

lemma be_bytes_less [be_simps]:
  fixes v w :: "'a::len word"
  assumes "8 dvd LENGTH('a)"
  shows "be_bytes v < be_bytes w \<longleftrightarrow> v < w"
  using assms by (simp add: lex_of_be of_be_be_bytes word_less_nat_alt)

section \<open>Lemmas on strings\<close>

lemma byte_char_as_byte [simp]: "byte_char (as_byte c) = c"
  by (simp add: byte_char_def as_byte_def unat_of_nat take_bit_eq_mod)

lemma as_byte_byte_char [simp]: "as_byte (byte_char b) = b"
  by (simp add: byte_char_def as_byte_def)

lemma as_byte_inject [simp]: "as_byte c = as_byte d \<longleftrightarrow> c = d"
  by (metis byte_char_as_byte)

lemma as_bytes_inject [simp]: "as_bytes s = as_bytes t \<longleftrightarrow> s = t"
  by (simp add: as_bytes_def inj_map_eq_map inj_def)

lemma length_as_bytes [simp]: "length (as_bytes s) = length s"
  by (simp add: as_bytes_def)

lemma map_byte_char_as_bytes [simp]: "map byte_char (as_bytes s) = s"
  by (simp add: as_bytes_def comp_def)

lemma as_bytes_map_byte_char [simp]: "as_bytes (map byte_char bs) = bs"
  by (simp add: as_bytes_def comp_def)

lemma from_utf8_as_bytes [simp]: "utf8 s \<Longrightarrow> from_utf8 (as_bytes s) = Some s"
  by (simp add: from_utf8_def utf8_def)

lemma from_utf8_Some: "from_utf8 bs = Some s \<Longrightarrow> utf8 s \<and> as_bytes s = bs"
  by (auto simp: from_utf8_def utf8_def split: if_splits)

lemma as_byte_less: "as_byte c < as_byte d \<longleftrightarrow> c < d"
  by (simp add: as_byte_def word_less_nat_alt unat_of_nat take_bit_eq_mod less_char_def)

text \<open>The order of strings is the order of their bytes.\<close>

lemma as_bytes_less: "as_bytes s < as_bytes t \<longleftrightarrow> s < t"
proof (induction s arbitrary: t)
  case Nil
  then show ?case by (cases t) (auto simp: as_bytes_def)
next
  case (Cons c s)
  then show ?case by (cases t) (auto simp: as_bytes_def as_byte_less)
qed

lemma as_bytes_append [simp]: "as_bytes (s @ t) = as_bytes s @ as_bytes t"
  by (simp add: as_bytes_def)

lemma find_append: "find P (xs @ ys) = (case find P xs of Some x \<Rightarrow> Some x | None \<Rightarrow> find P ys)"
  by (induction xs) auto

lemma split_on_neq_Nil [simp]: "split_on c s \<noteq> []"
  by (induction s) (auto split: list.splits)

lemma split_on_none [simp]: "c \<notin> set s \<Longrightarrow> split_on c s = [s]"
  by (induction s) auto

lemma split_on_append: "c \<notin> set s \<Longrightarrow> split_on c (s @ c # t) = s # split_on c t"
  by (induction s) auto

lemma split_on_tokens: "t \<in> set (split_on c s) \<Longrightarrow> c \<notin> set t \<and> set t \<subseteq> set s"
  by (induction s arbitrary: t) (fastforce split: if_splits list.splits)+

lemma find_char_None [simp]: "c \<notin> set s \<Longrightarrow> find_char c s = None"
  by (induction s) auto

lemma find_char_append [simp]: "c \<notin> set s \<Longrightarrow> find_char c (s @ c # t) = Some (length s)"
  by (induction s) auto

lemma find_char_Some: "find_char c s = Some i \<Longrightarrow> i < length s \<and> s ! i = c \<and> c \<notin> set (take i s)"
  by (induction s arbitrary: i) (auto split: if_splits)

section \<open>Lemmas on decimal numbers\<close>

lemma digit_char_digit [simp]: "d < 10 \<Longrightarrow> is_digit (digit_char d)"
  by (simp add: is_digit_def digit_char_def)

lemma digit_val_char [simp]: "d < 10 \<Longrightarrow> digit_val (digit_char d) = d"
  by (simp add: digit_val_def digit_char_def)

lemma digits_val_snoc [simp]: "digits_val (s @ [c]) = digits_val s * 10 + digit_val c"
  by (simp add: digits_val_def)

lemma digits_val_single [simp]: "digits_val [c] = digit_val c"
  by (simp add: digits_val_def)

lemma show_nat_neq_Nil [simp]: "show_nat n \<noteq> []"
  by (subst show_nat.simps) simp

lemma show_nat_digits: "list_all is_digit (show_nat n)"
proof (induction n rule: show_nat.induct)
  case (1 n)
  then show ?case by (subst show_nat.simps) simp
qed

lemma digits_val_show_nat [simp]: "digits_val (show_nat n) = n"
proof (induction n rule: show_nat.induct)
  case (1 n)
  then show ?case by (subst show_nat.simps) simp
qed

lemma digit_not_special:
  "is_digit c \<Longrightarrow> c \<noteq> CHR ''+'' \<and> c \<noteq> CHR ''/'' \<and> c \<noteq> CHR ''['' \<and> c \<noteq> CHR '']''"
  by (auto simp: is_digit_def)

lemma show_nat_no_special:
  "c \<in> set (show_nat n) \<Longrightarrow> c \<noteq> CHR ''/'' \<and> c \<noteq> CHR ''['' \<and> c \<noteq> CHR '']''"
  using show_nat_digits [of n] digit_not_special by (auto simp: list_all_iff)

lemma parse_show_u64 [simp]: "parse_u64 (show_nat (unat i)) = Some i"
proof -
  obtain c r where cr: "show_nat (unat i) = c # r"
    by (cases "show_nat (unat i)") auto
  then have "c \<noteq> CHR ''+''"
    using show_nat_digits [of "unat i"] digit_not_special by auto
  moreover have "unat i < 2 ^ 64"
    using unsigned_less [of i, where ?'a = nat] by simp
  ultimately show ?thesis
    using show_nat_digits [of "unat i"] digits_val_show_nat [of "unat i"]
    by (simp add: parse_u64_def cr)
qed

section \<open>Lemmas on sorted association lists\<close>

lemma bt_ok_Nil [simp, bt_simps]: "bt_ok []"
  by (simp add: bt_ok_def)

lemma bt_ok_Cons [bt_simps]: "bt_ok (e # m) \<longleftrightarrow> (\<forall>k \<in> fst ` set m. fst e < k) \<and> bt_ok m"
  by (simp add: bt_ok_def)

lemma bt_ok_distinct: "bt_ok m \<Longrightarrow> distinct (map fst m)"
  by (induction m) (auto simp: bt_ok_def)

lemma bt_get_Nil [simp, bt_simps]: "bt_get [] k = None"
  by (simp add: bt_get_def)

lemma bt_get_Cons [bt_simps]: "bt_get (e # m) k = (if k = fst e then Some (snd e) else bt_get m k)"
  by (cases e) (simp add: bt_get_def)

lemma bt_get_single [simp, bt_simps]: "bt_get [(a, v)] k = (if k = a then Some v else None)"
  by (simp add: bt_get_Cons)

lemma fst_set_bt_insert [simp, bt_simps]: "fst ` set (bt_insert k v m) = insert k (fst ` set m)"
  by (induction m) auto

lemma bt_ok_insert [simp, bt_simps]: "bt_ok m \<Longrightarrow> bt_ok (bt_insert k v m)"
  by (induction m) (auto simp: bt_ok_Cons)

lemma bt_get_insert [simp, bt_simps]: "bt_get (bt_insert k v m) x = (if x = k then Some v else bt_get m x)"
  by (induction m) (auto simp: bt_get_def)

lemma bt_ok_remove [simp, bt_simps]: "bt_ok m \<Longrightarrow> bt_ok (bt_remove k m)"
  by (induction m) (auto simp: bt_ok_Cons bt_remove_def)

lemma bt_get_remove [simp, bt_simps]: "bt_get (bt_remove k m) x = (if x = k then None else bt_get m x)"
  by (induction m) (auto simp: bt_get_def bt_remove_def)

lemma bt_get_iff: "bt_ok m \<Longrightarrow> bt_get m k = Some v \<longleftrightarrow> (k, v) \<in> set m"
  by (simp add: bt_get_def bt_ok_distinct)

lemma bt_get_None: "bt_get m k = None \<longleftrightarrow> k \<notin> fst ` set m"
  by (simp add: bt_get_def map_of_eq_None_iff)

lemma bt_get_SomeD: "bt_get m k = Some v \<Longrightarrow> (k, v) \<in> set m"
  by (simp add: bt_get_def map_of_SomeD)

lemma bt_insert_snoc [simp]:
  "(\<forall>x \<in> fst ` set m. x < k) \<Longrightarrow> bt_insert k v m = m @ [(k, v)]"
  by (induction m) auto

text \<open>Collecting the entries of a map into a fresh map gives the map back.\<close>

lemma foldl_bt_insert:
  "bt_ok (acc @ m) \<Longrightarrow> foldl (\<lambda>a e. bt_insert (fst e) (snd e) a) acc m = acc @ m"
proof (induction m arbitrary: acc)
  case (Cons e m)
  have "\<forall>x \<in> fst ` set acc. x < fst e"
    using Cons.prems by (auto simp: bt_ok_def sorted_wrt_append)
  then show ?case using Cons.IH [of "acc @ [e]"] Cons.prems by simp
qed simp

text \<open>Two sorted maps with the same entries are the same list.\<close>

lemma bt_entries_by_key: "bt_ok m \<Longrightarrow> m = map (\<lambda>k. (k, the (bt_get m k))) (map fst m)"
proof -
  assume ok: "bt_ok m"
  have "(k, the (bt_get m k)) = (k, v)" if "(k, v) \<in> set m" for k v
    using that ok by (simp add: bt_get_iff [THEN iffD2])
  then show ?thesis by (auto simp: comp_def split_beta intro!: map_idI [symmetric])
qed

lemma bt_ext:
  assumes ok: "bt_ok m" "bt_ok m'" and eq: "\<And>k. bt_get m k = bt_get m' k"
  shows "m = m'"
proof -
  have "fst ` set m = fst ` set m'"
    using eq by (metis (no_types, lifting) bt_get_None subset_antisym subsetI)
  then have "map fst m = map fst m'"
    using ok by (intro strict_sorted_equal) (auto simp: bt_ok_def)
  moreover have "bt_get m = bt_get m'" using eq by auto
  ultimately show ?thesis using bt_entries_by_key [OF ok(1)] bt_entries_by_key [OF ok(2)] by metis
qed

end
