(* ===== verification/Errors.thy ===== *)
theory Errors
  imports Prelude
begin

text \<open>
  The two path types as data (\<open>path/segment.rs\<close>, \<open>path/v_path.rs\<close>, \<open>path/a_path.rs\<close>), the
  public error enumeration (\<open>error.rs\<close>) and the result type of every fallible operation.

  A result is \<open>Ok\<close> or \<open>Err\<close> as in \<open>AdbResult\<close>; \<open>Panic\<close> is a Rust panic (an index out
  of range, a failed \<open>expect\<close>, a panicking library call), and \<open>Diverge\<close> is a recursion that
  did not return within the fuel a definition was given.
\<close>

section \<open>Paths as data\<close>

datatype segment = Name string | Index u64

text \<open>\<open>VPath { segments }\<close> and \<open>APath { names }\<close> are their only field.\<close>

type_synonym vpath = "segment list"
type_synonym apath = "string list"

section \<open>Errors\<close>

datatype adb_error =
    Engine string
  | InvalidPath string
  | InvalidTableName string
  | ValueNotFound apath
  | PathNotFound vpath
  | UnexpectedNode vpath string string
  | BadKey string
  | TypeMismatch string string
  | IndexOutOfRange vpath u64 u64
  | Corrupt string
  | UniqueViolation string
  | IndexNotFound string
  | IndexArity string nat nat
  | SchemaMismatch string
  | CannotAccess string
  | Conversion string
  | DatabaseProtected
  | FeatureRequired string
  | AuthenticationFailed
  | PermissionDenied string
  | NoPermissions
  | Tampered string
  | Frozen string
  | Serde string

datatype 'a res = Ok 'a | Err adb_error | Panic string | Diverge

text \<open>The \<open>?\<close> operator: the first failure is the result.\<close>

fun andThen :: "'a res \<Rightarrow> ('a \<Rightarrow> 'b res) \<Rightarrow> 'b res" where
  "andThen (Ok x) f = f x"
| "andThen (Err e) f = Err e"
| "andThen (Panic s) f = Panic s"
| "andThen Diverge f = Diverge"

text \<open>\<open>ok_or_else\<close> on an option.\<close>

fun ok_or :: "'a option \<Rightarrow> adb_error \<Rightarrow> 'a res" where
  "ok_or (Some x) e = Ok x"
| "ok_or None e = Err e"

text \<open>Iterating with \<open>?\<close> and collecting, in order: \<open>map(..).collect::<AdbResult<Vec<_>>>()\<close>.\<close>

fun res_map :: "('a \<Rightarrow> 'b res) \<Rightarrow> 'a list \<Rightarrow> 'b list res" where
  "res_map f [] = Ok []"
| "res_map f (x # xs) = andThen (f x) (\<lambda>y. andThen (res_map f xs) (\<lambda>ys. Ok (y # ys)))"

lemma andThen_cong [fundef_cong]:
  "m = m' \<Longrightarrow> (\<And>x. m' = Ok x \<Longrightarrow> f x = f' x) \<Longrightarrow> andThen m f = andThen m' f'"
  by (cases m') auto

lemma res_map_cong [fundef_cong]:
  "xs = ys \<Longrightarrow> (\<And>x. x \<in> set ys \<Longrightarrow> f x = g x) \<Longrightarrow> res_map f xs = res_map g ys"
  by (induction ys arbitrary: xs) auto

lemma andThen_Ok_iff [simp]: "andThen m f = Ok y \<longleftrightarrow> (\<exists>x. m = Ok x \<and> f x = Ok y)"
  by (cases m) auto

lemma andThen_assoc: "andThen (andThen m f) g = andThen m (\<lambda>x. andThen (f x) g)"
  by (cases m) auto

lemma ok_or_Ok [simp]: "ok_or v e = Ok x \<longleftrightarrow> v = Some x"
  by (cases v) auto

lemma res_map_Ok: "res_map f xs = Ok ys \<longleftrightarrow> list_all2 (\<lambda>x y. f x = Ok y) xs ys"
  by (induction xs arbitrary: ys) (auto simp: list_all2_Cons1)

lemma res_map_map: "(\<And>x. x \<in> set xs \<Longrightarrow> f x = Ok (g x)) \<Longrightarrow> res_map f xs = Ok (map g xs)"
  by (induction xs) auto

lemma res_map_nth:
  "length ys = length xs \<Longrightarrow> (\<And>i. i < length xs \<Longrightarrow> f (xs ! i) = Ok (ys ! i)) \<Longrightarrow>
   res_map f xs = Ok ys"
  by (simp add: res_map_Ok list_all2_conv_all_nth)

end
