(* ===== verification/Codec.thy ===== *)
theory Codec
  imports Errors
begin

text \<open>
  The low-level byte helpers (\<open>codec/putters.rs\<close>, \<open>codec/read.rs\<close>, \<open>codec/reader.rs\<close>): appending
  big-endian integers and length-prefixed runs, bounded random-access reads over a blob, and the
  forward-only \<open>Reader\<close>. The locale \<open>codec\<close> states what an encoder and its \<open>Reader\<close> counterpart
  promise each other; every self-delimiting format of the program is an interpretation of it, and
  counted sequences are handled once, inside the locale.
\<close>

section \<open>Writers\<close>

definition put_u32 :: "bytes \<Rightarrow> u32 \<Rightarrow> bytes" where
  "put_u32 buf v = buf @ be_bytes v"

text \<open>\<open>bytes.len() as u32\<close> keeps the low 32 bits.\<close>

definition put_bytes :: "bytes \<Rightarrow> bytes \<Rightarrow> bytes" where
  "put_bytes buf bs = put_u32 buf (word_of_nat (length bs)) @ bs"

section \<open>Random-access reads\<close>

text \<open>\<open>blob.get(off..end)\<close> is \<open>None\<close> exactly when the range runs past the end.\<close>

definition slice :: "bytes \<Rightarrow> nat \<Rightarrow> nat \<Rightarrow> bytes res" where
  "slice blob off len =
     (if off + len \<ge> usize_bound then Err (Corrupt ''offset overflow in blob'')
      else if off + len \<le> length blob then Ok (take len (drop off blob))
      else Err (Corrupt ''blob is truncated''))"

definition read_u8 :: "bytes \<Rightarrow> nat \<Rightarrow> u8 res" where
  "read_u8 blob off = andThen (slice blob off 1) (\<lambda>bs. Ok (bs ! 0))"

definition read_u32 :: "bytes \<Rightarrow> nat \<Rightarrow> u32 res" where
  "read_u32 blob off = andThen (slice blob off 4) (\<lambda>bs. Ok (from_be_bytes bs))"

section \<open>The reader\<close>

record reader =
  rbuf :: bytes
  rpos :: nat

definition reader_new :: "bytes \<Rightarrow> reader" where
  "reader_new b = \<lparr>rbuf = b, rpos = 0\<rparr>"

definition reader_take :: "nat \<Rightarrow> reader \<Rightarrow> (bytes \<times> reader) res" where
  "reader_take n r =
     (if rpos r + n \<ge> usize_bound then Err (Corrupt ''length overflow while decoding'')
      else if rpos r + n > length (rbuf r) then
        Err (Corrupt ''unexpected end of buffer while decoding'')
      else Ok (take n (drop (rpos r) (rbuf r)), r\<lparr>rpos := rpos r + n\<rparr>))"

definition reader_u8 :: "reader \<Rightarrow> (u8 \<times> reader) res" where
  "reader_u8 r = andThen (reader_take 1 r) (\<lambda>(bs, r). Ok (bs ! 0, r))"

definition reader_u32 :: "reader \<Rightarrow> (u32 \<times> reader) res" where
  "reader_u32 r = andThen (reader_take 4 r) (\<lambda>(bs, r). Ok (from_be_bytes bs, r))"

definition reader_u64 :: "reader \<Rightarrow> (u64 \<times> reader) res" where
  "reader_u64 r = andThen (reader_take 8 r) (\<lambda>(bs, r). Ok (from_be_bytes bs, r))"

text \<open>\<open>array::<N>\<close>, and its uses with \<open>from_be_bytes\<close> at an integer width.\<close>

definition reader_array :: "nat \<Rightarrow> reader \<Rightarrow> (bytes \<times> reader) res" where
  "reader_array n r = reader_take n r"

definition reader_word :: "reader \<Rightarrow> ('a::len word \<times> reader) res" where
  "reader_word r =
     andThen (reader_array (LENGTH('a) div 8) r) (\<lambda>(bs, r). Ok (from_be_bytes bs, r))"

definition reader_bytes :: "reader \<Rightarrow> (bytes \<times> reader) res" where
  "reader_bytes r = andThen (reader_u32 r) (\<lambda>(n, r). reader_take (unat n) r)"

definition reader_position :: "reader \<Rightarrow> nat" where
  "reader_position r = rpos r"

text \<open>\<open>for _ in 0..count { .. item(r)? .. }\<close>, collecting the items.\<close>

primrec reader_repeat ::
  "nat \<Rightarrow> (reader \<Rightarrow> ('a \<times> reader) res) \<Rightarrow> reader \<Rightarrow> ('a list \<times> reader) res" where
  "reader_repeat 0 item r = Ok ([], r)"
| "reader_repeat (Suc n) item r =
     andThen (item r) (\<lambda>(x, r). andThen (reader_repeat n item r) (\<lambda>(xs, r). Ok (x # xs, r)))"

text \<open>\<open>b[off..off + bs.len()].copy_from_slice(bs)\<close> within bounds.\<close>

definition overwrite :: "bytes \<Rightarrow> nat \<Rightarrow> bytes \<Rightarrow> bytes" where
  "overwrite b off bs = take off b @ bs @ drop (off + length bs) b"

lemma length_overwrite [simp]: "off + length bs \<le> length b \<Longrightarrow> length (overwrite b off bs) = length b"
  by (simp add: overwrite_def)

lemma overwrite_left: "off + length bs \<le> length a \<Longrightarrow> overwrite (a @ b) off bs = overwrite a off bs @ b"
  by (simp add: overwrite_def)

lemma overwrite_right: "overwrite (a @ b) (length a + off) bs = a @ overwrite b off bs"
  by (simp add: overwrite_def add.commute add.left_commute)

section \<open>Lemmas on random access\<close>

lemma slice_Ok:
  "off + len \<le> length blob \<Longrightarrow> length blob < usize_bound \<Longrightarrow>
   slice blob off len = Ok (take len (drop off blob))"
  by (simp add: slice_def)

lemma slice_length: "slice blob off len = Ok bs \<Longrightarrow> length bs = len"
  by (auto simp: slice_def split: if_splits)

text \<open>\<open>holds blob off bs\<close>: the bytes \<open>bs\<close> stand in \<open>blob\<close> at \<open>off\<close>.\<close>

definition holds :: "bytes \<Rightarrow> nat \<Rightarrow> bytes \<Rightarrow> bool" where
  "holds blob off bs \<longleftrightarrow> off + length bs \<le> length blob \<and> take (length bs) (drop off blob) = bs"

lemma holds_Nil [simp]: "holds blob off [] \<longleftrightarrow> off \<le> length blob"
  by (simp add: holds_def)

lemma holds_append: "holds blob off (xs @ ys) \<longleftrightarrow> holds blob off xs \<and> holds blob (off + length xs) ys"
proof -
  have "take (length xs + length ys) (drop off blob)
      = take (length xs) (drop off blob) @ take (length ys) (drop (off + length xs) blob)"
    by (simp add: take_add add.commute)
  then show ?thesis
    by (auto simp: holds_def append_eq_append_conv)
qed

lemma holds_Cons: "holds blob off (x # xs) \<longleftrightarrow> holds blob off [x] \<and> holds blob (Suc off) xs"
  using holds_append [of blob off "[x]" xs] by simp

lemma holds_extend: "holds blob off bs \<Longrightarrow> holds (blob @ ext) off bs"
  by (simp add: holds_def)

lemma holds_end [simp]: "holds (blob @ bs) (length blob) bs"
  by (simp add: holds_def)

lemma holds_slice:
  "holds blob off bs \<Longrightarrow> length blob < usize_bound \<Longrightarrow> slice blob off (length bs) = Ok bs"
  by (simp add: holds_def slice_def)

lemma holds_read_u8:
  "holds blob off (b # bs) \<Longrightarrow> length blob < usize_bound \<Longrightarrow> read_u8 blob off = Ok b"
  using holds_slice [of blob off "[b]"] by (simp add: holds_Cons [of _ _ _ bs] read_u8_def)

lemma holds_read_u32:
  "holds blob off (be_bytes w @ bs) \<Longrightarrow> length blob < usize_bound \<Longrightarrow> read_u32 blob off = Ok w"
  using holds_slice [of blob off "be_bytes w"]
  by (simp add: holds_append read_u32_def from_be_be_bytes)

lemma holds_shift: "holds b off bs \<Longrightarrow> holds (pre @ b) (length pre + off) bs"
  by (simp add: holds_def)

lemma holds_drop: "holds blob off bs \<Longrightarrow> \<exists>rest. drop off blob = bs @ rest"
  by (metis append_take_drop_id holds_def)

lemma holds_trans: "holds b i bs \<Longrightarrow> holds blob off b \<Longrightarrow> holds blob (off + i) bs"
  by (auto simp: holds_def sub_of_sub)

lemma holds_concat: "i < length xs \<Longrightarrow> holds (concat xs) (length (concat (take i xs))) (xs ! i)"
proof (induction xs arbitrary: i)
  case (Cons x xs)
  then show ?case
  proof (cases i)
    case (Suc j)
    then show ?thesis using Cons holds_shift [of "concat xs" _ "xs ! j" x] by simp
  qed (simp add: holds_def)
qed simp

lemma length_concat_chunks: "(\<And>x. x \<in> set xs \<Longrightarrow> length x = k) \<Longrightarrow> length (concat xs) = k * length xs"
  by (induction xs) auto

lemma holds_chunk:
  assumes "\<And>x. x \<in> set xs \<Longrightarrow> length x = k" "i < length xs"
  shows "holds (pre @ concat xs @ post) (length pre + k * i) (xs ! i)"
proof -
  have "length (concat (take i xs)) = k * i"
    using assms length_concat_chunks [of "take i xs" k] by (auto dest: in_set_takeD)
  then have "holds (concat xs) (k * i) (xs ! i)" using holds_concat [OF assms(2)] by simp
  then show ?thesis using holds_shift [OF holds_extend, of "concat xs" "k * i" "xs ! i" pre post] by simp
qed

section \<open>What an encoder and a decoder promise\<close>

text \<open>The bytes a reader has not consumed.\<close>

definition unread :: "reader \<Rightarrow> bytes" where
  "unread r = drop (rpos r) (rbuf r)"

definition sized :: "reader \<Rightarrow> bool" where
  "sized r \<longleftrightarrow> rpos r \<le> length (rbuf r) \<and> length (rbuf r) < usize_bound"

lemma unread_new [simp]: "unread (reader_new b) = b"
  by (simp add: unread_def reader_new_def)

lemma sized_new [simp]: "sized (reader_new b) \<longleftrightarrow> length b < usize_bound"
  by (simp add: sized_def reader_new_def)

lemma sized_pos [simp]: "sized r \<Longrightarrow> n \<le> length (unread r) \<Longrightarrow> sized (r\<lparr>rpos := rpos r + n\<rparr>)"
  by (auto simp: sized_def unread_def)

lemma unread_pos [simp]: "unread (r\<lparr>rpos := rpos r + n\<rparr>) = drop n (unread r)"
  by (simp add: unread_def add.commute)

lemmas unread_pos' [simp] = unread_pos [unfolded add.commute [of "rpos r" n for r n]]
lemmas sized_pos' [simp] = sized_pos [unfolded add.commute [of "rpos r" n for r n]]

lemma sized_Suc [simp]: "sized r \<Longrightarrow> unread r \<noteq> [] \<Longrightarrow> sized (r\<lparr>rpos := Suc (rpos r)\<rparr>)"
  using sized_pos [of r 1] by (simp add: Suc_le_eq)

lemma unread_Suc [simp]: "unread (r\<lparr>rpos := Suc (rpos r)\<rparr>) = tl (unread r)"
  using unread_pos [of r 1] by (simp add: drop_Suc)

lemma reader_take_unread:
  assumes "unread r = xs @ rest" "length xs = n" "sized r"
  shows "reader_take n r = Ok (xs, r\<lparr>rpos := rpos r + n\<rparr>)"
proof -
  have "length (unread r) = length xs + length rest" using assms(1) by simp
  then have "rpos r + n \<le> length (rbuf r)" using assms(2,3) by (auto simp: unread_def sized_def)
  moreover have "take n (drop (rpos r) (rbuf r)) = xs"
    using assms(1,2) by (simp add: unread_def)
  ultimately show ?thesis using assms(3) by (simp add: reader_take_def sized_def)
qed

text \<open>A reader step that succeeds only moves the position forward, inside the buffer.\<close>

definition forward :: "reader \<Rightarrow> reader \<Rightarrow> bool" where
  "forward r r' \<longleftrightarrow> rbuf r' = rbuf r \<and> rpos r \<le> rpos r' \<and> rpos r' \<le> max (rpos r) (length (rbuf r))"

lemma forward_refl [simp]: "forward r r"
  by (simp add: forward_def)

lemma forward_trans: "forward r s \<Longrightarrow> forward s t \<Longrightarrow> forward r t"
  by (auto simp: forward_def)

text \<open>What a reading step may do with arbitrary bytes: succeed and move forward, or fail with
  \<open>Corrupt\<close>.\<close>

fun reads :: "reader \<Rightarrow> ('a \<times> reader) res \<Rightarrow> bool" where
  "reads r (Ok (x, r')) = forward r r'"
| "reads r (Err (Corrupt m)) = True"
| "reads r _ = False"

lemma reads_Err [simp]: "reads r (Err e) \<longleftrightarrow> (\<exists>m. e = Corrupt m)"
  by (cases e) auto

lemma reads_andThen:
  "reads r m \<Longrightarrow> (\<And>x r'. m = Ok (x, r') \<Longrightarrow> reads r' (f (x, r'))) \<Longrightarrow> reads r (andThen m f)"
  by (cases "(r, m)" rule: reads.cases; cases "andThen m f" rule: res.exhaust)
    (auto elim!: reads.elims(2) [of _ "f _"] intro: forward_trans)

lemma reads_if: "(b \<Longrightarrow> reads r x) \<Longrightarrow> (\<not> b \<Longrightarrow> reads r y) \<Longrightarrow> reads r (if b then x else y)"
  by simp

lemma reads_ok_or: "(\<And>x. v = Some x \<Longrightarrow> reads r (f x)) \<Longrightarrow> reads r (andThen (ok_or v (Corrupt m)) f)"
  by (cases v) auto

lemma reader_take_reads [simp]: "reads r (reader_take n r)"
  by (auto simp: reader_take_def forward_def)

lemma reader_array_reads [simp]: "reads r (reader_array n r)"
  by (simp add: reader_array_def)

lemma reader_u8_reads [simp]: "reads r (reader_u8 r)"
  by (auto simp: reader_u8_def intro!: reads_andThen)

lemma reader_word_reads [simp]: "reads r (reader_word r)"
  by (auto simp: reader_word_def intro!: reads_andThen)

lemma reader_u32_reads [simp]: "reads r (reader_u32 r)"
  by (auto simp: reader_u32_def intro!: reads_andThen)

lemma reader_u64_reads [simp]: "reads r (reader_u64 r)"
  by (auto simp: reader_u64_def intro!: reads_andThen)

lemma reader_bytes_reads [simp]: "reads r (reader_bytes r)"
  by (auto simp: reader_bytes_def intro!: reads_andThen)

lemma reader_repeat_reads: "(\<And>r. reads r (item r)) \<Longrightarrow> reads r (reader_repeat n item r)"
  by (induction n arbitrary: r) (auto intro!: reads_andThen)

text \<open>
  The contract between an encoder and a decoder over a \<open>Reader\<close>: on the encoding of a value the
  decoder accepts, whatever follows it, decoding returns the value and stops right after it.
\<close>

locale codec =
  fixes enc :: "'a \<Rightarrow> bytes" and dec :: "reader \<Rightarrow> ('a \<times> reader) res" and valid :: "'a \<Rightarrow> bool"
  assumes decodes:
    "valid x \<Longrightarrow> unread r = enc x @ rest \<Longrightarrow> sized r \<Longrightarrow>
     dec r = Ok (x, r\<lparr>rpos := rpos r + length (enc x)\<rparr>)"
begin

lemma decodes_all: "valid x \<Longrightarrow> length (enc x) < usize_bound \<Longrightarrow>
  dec (reader_new (enc x)) = Ok (x, \<lparr>rbuf = enc x, rpos = length (enc x)\<rparr>)"
proof -
  assume "valid x" "length (enc x) < usize_bound"
  then have "dec (reader_new (enc x))
      = Ok (x, (reader_new (enc x))\<lparr>rpos := rpos (reader_new (enc x)) + length (enc x)\<rparr>)"
    by (intro decodes [where rest = "[]"]) auto
  then show ?thesis by (simp add: reader_new_def)
qed

lemma repeats:
  assumes "\<forall>x \<in> set xs. valid x" "unread r = concat (map enc xs) @ rest" "sized r"
  shows "reader_repeat (length xs) dec r
    = Ok (xs, r\<lparr>rpos := rpos r + length (concat (map enc xs))\<rparr>)"
  using assms
proof (induction xs arbitrary: r)
  case (Cons x xs)
  let ?r = "r\<lparr>rpos := rpos r + length (enc x)\<rparr>"
  have "dec r = Ok (x, ?r)"
    using Cons.prems by (intro decodes) auto
  moreover have "reader_repeat (length xs) dec ?r
      = Ok (xs, ?r\<lparr>rpos := rpos ?r + length (concat (map enc xs))\<rparr>)"
    using Cons.prems by (intro Cons.IH) auto
  ultimately show ?case by (simp add: add.assoc)
qed simp

text \<open>Two encodings laid end to end are read off one after the other: the encoding of a value is
  never a proper prefix of the encoding of another.\<close>

lemma self_delimiting:
  assumes "valid x" "valid y" "enc x @ s = enc y @ t" "length (enc x @ s) < usize_bound"
  shows "x = y \<and> s = t"
proof -
  let ?r = "reader_new (enc x @ s)"
  have "dec ?r = Ok (x, ?r\<lparr>rpos := rpos ?r + length (enc x)\<rparr>)"
    using assms by (intro decodes [where rest = s]) auto
  moreover have "dec ?r = Ok (y, ?r\<lparr>rpos := rpos ?r + length (enc y)\<rparr>)"
    using assms by (intro decodes [where rest = t]) auto
  ultimately show ?thesis using assms(3) by simp
qed

end

text \<open>The same contract by what is left to read, which chains without arithmetic on positions.\<close>

definition left :: "reader \<Rightarrow> bytes \<Rightarrow> bool" where
  "left r rest \<longleftrightarrow> sized r \<and> unread r = rest"

definition reads_off :: "(reader \<Rightarrow> ('a \<times> reader) res) \<Rightarrow> reader \<Rightarrow> 'a \<Rightarrow> bytes \<Rightarrow> reader \<Rightarrow> bool" where
  "reads_off dec r x rest r' \<longleftrightarrow> dec r = Ok (x, r') \<and> rbuf r' = rbuf r \<and> left r' rest"

lemma left_new [simp]: "left (reader_new b) b \<longleftrightarrow> length b < usize_bound"
  by (simp add: left_def)

lemma left_position:
  assumes "left r (e @ rest)" "rbuf r' = rbuf r" "left r' rest"
  shows "r' = r\<lparr>rpos := rpos r + length e\<rparr>"
proof -
  have "length (rbuf r) - rpos r = length e + length rest" "length (rbuf r') - rpos r' = length rest"
    using assms(1,3) by (auto simp: left_def unread_def dest!: arg_cong [of _ _ length])
  then have "rpos r' = rpos r + length e" using assms by (auto simp: left_def sized_def)
  then show ?thesis using assms(2) by simp
qed

lemma codecI:
  assumes "\<And>x r rest. valid x \<Longrightarrow> left r (enc x @ rest) \<Longrightarrow> \<exists>r'. reads_off dec r x rest r'"
  shows "codec enc dec valid"
proof
  fix x r rest assume "valid x" "unread r = enc x @ rest" "sized r"
  then obtain r' where r': "reads_off dec r x rest r'" using assms [of x r rest] by (auto simp: left_def)
  moreover from this have "r' = r\<lparr>rpos := rpos r + length (enc x)\<rparr>"
    using left_position [of r "enc x" rest r'] \<open>unread r = enc x @ rest\<close> \<open>sized r\<close> by (auto simp: left_def reads_off_def)
  ultimately show "dec r = Ok (x, r\<lparr>rpos := rpos r + length (enc x)\<rparr>)" by (simp add: reads_off_def)
qed

context codec
begin

lemma step: "valid x \<Longrightarrow> left r (enc x @ rest) \<Longrightarrow> \<exists>r'. reads_off dec r x rest r'"
  using decodes [of x r rest] by (auto simp: left_def reads_off_def)

lemma steps:
  assumes "\<forall>x \<in> set xs. valid x" "left r (concat (map enc xs) @ rest)"
  shows "\<exists>r'. reads_off (reader_repeat (length xs) dec) r xs rest r'"
  using repeats [OF assms(1), of r rest] assms(2) by (auto simp: left_def reads_off_def)

end

text \<open>The primitive formats.\<close>

interpretation u8_codec: codec "\<lambda>b. [b]" reader_u8 "\<lambda>_. True"
  by unfold_locales (simp add: reader_u8_def reader_take_unread [where xs = "[_]"])

interpretation u32_codec: codec "put_u32 []" reader_u32 "\<lambda>_. True"
  by unfold_locales
    (simp add: reader_u32_def put_u32_def reader_take_unread [where xs = "be_bytes _"] from_be_be_bytes)

interpretation u64_codec: codec "be_bytes :: u64 \<Rightarrow> bytes" reader_u64 "\<lambda>_. True"
  by unfold_locales
    (simp add: reader_u64_def reader_take_unread [where xs = "be_bytes _"] from_be_be_bytes)

lemma reader_word_codec: "8 dvd LENGTH('a) \<Longrightarrow>
  codec (be_bytes :: 'a::len word \<Rightarrow> bytes) reader_word (\<lambda>_. True)"
  by unfold_locales
    (simp add: reader_word_def reader_array_def reader_take_unread [where xs = "be_bytes _"]
      from_be_be_bytes)

lemma put_u32_append: "put_u32 b v = b @ put_u32 [] v"
  by (simp add: put_u32_def)

lemma length_put_u32 [simp]: "length (put_u32 b v) = length b + 4"
  by (simp add: put_u32_def)

lemma put_bytes_append: "put_bytes b bs = b @ put_bytes [] bs"
  by (simp add: put_bytes_def put_u32_def)

lemma length_put_bytes [simp]: "length (put_bytes b bs) = length b + 4 + length bs"
  by (simp add: put_bytes_def)

interpretation bytes_codec: codec "put_bytes []" reader_bytes "\<lambda>bs. length bs < 2 ^ 32"
proof
  fix x :: bytes and r :: reader and rest :: bytes
  assume len: "length x < 2 ^ 32" and un: "unread r = put_bytes [] x @ rest" and sz: "sized r"
  let ?w = "word_of_nat (length x) :: u32"
  have "reader_u32 r = Ok (?w, r\<lparr>rpos := rpos r + 4\<rparr>)"
    using u32_codec.decodes [where x = ?w and r = r and rest = "x @ rest"] un sz by (simp add: put_bytes_def)
  moreover have "unat ?w = length x"
    using len by (simp add: unat_of_nat take_bit_nat_eq_self)
  moreover have "reader_take (length x) (r\<lparr>rpos := rpos r + 4\<rparr>)
      = Ok (x, (r\<lparr>rpos := rpos r + 4\<rparr>)\<lparr>rpos := rpos r + 4 + length x\<rparr>)"
    using reader_take_unread [of "r\<lparr>rpos := rpos r + 4\<rparr>" x rest "length x"] un sz
    by (simp add: put_bytes_def put_u32_def)
  ultimately show "reader_bytes r = Ok (x, r\<lparr>rpos := rpos r + length (put_bytes [] x)\<rparr>)"
    by (simp add: reader_bytes_def add.assoc)
qed

text \<open>Length-prefixed text: every format that holds strings reads one this way, with a message of its own for bytes that
  are not UTF-8.\<close>

definition text_ok :: "string \<Rightarrow> bool" where
  "text_ok s \<longleftrightarrow> utf8 s \<and> length s < 2 ^ 32"

lemma text_codec: "codec (\<lambda>s. put_bytes [] (as_bytes s))
  (\<lambda>r. andThen (reader_bytes r) (\<lambda>(bs, r). andThen (ok_or (from_utf8 bs) e) (\<lambda>s. Ok (s, r)))) text_ok"
proof (rule codecI)
  fix x r rest assume x: "text_ok x" and l: "left r (put_bytes [] (as_bytes x) @ rest)"
  then obtain r' where "reads_off reader_bytes r (as_bytes x) rest r'"
    using bytes_codec.step [of "as_bytes x" r rest] by (auto simp: text_ok_def)
  then show "\<exists>r'. reads_off (\<lambda>r. andThen (reader_bytes r) (\<lambda>(bs, r). andThen (ok_or (from_utf8 bs) e) (\<lambda>s. Ok (s, r)))) r x rest r'"
    using x by (auto simp: reads_off_def text_ok_def)
qed

end
