(* ===== verification/Scalars.thy ===== *)
theory Scalars
  imports Codec
begin

text \<open>
  Scalars and their exact storage encoding (\<open>data/scalar.rs\<close>, \<open>time.rs\<close>), in the default build:
  the arbitrary-precision variants, which exist only under the \<open>bignum\<close> features, are left out.

  Signed integers are words of their width, read with \<open>sint\<close> where the sign matters; floats are
  their IEEE bit patterns, which is what \<open>to_be_bytes\<close> stores. The calendar types come from the
  \<open>chrono\<close> crate: a value of such a type is what its accessors return, and the crate's partial
  constructors, which decide the accepted range, are the fields of the parameter \<open>chrono\<close>.
\<close>

section \<open>The calendar library\<close>

text \<open>\<open>NaiveDate\<close> by \<open>num_days_from_ce\<close>; \<open>NaiveTime\<close> by \<open>num_seconds_from_midnight\<close> and
  \<open>nanosecond\<close>; \<open>TimeDelta\<close> by \<open>num_seconds\<close> and \<open>subsec_nanos\<close>.\<close>

datatype naive_date = NaiveDate (num_days_from_ce: i32)
datatype naive_time = NaiveTime (num_seconds_from_midnight: u32) (nanosecond: u32)
datatype time_delta = TimeDelta (num_seconds: i64) (subsec_nanos: i32)

text \<open>The constructors the decoder calls. \<open>time_delta\<close> is
  \<open>TimeDelta::seconds(s) + TimeDelta::nanoseconds(n)\<close>, which panics (\<open>None\<close>) out of range.\<close>

record chrono =
  from_num_days_from_ce_opt :: "i32 \<Rightarrow> naive_date option"
  from_num_seconds_from_midnight_opt :: "u32 \<Rightarrow> u32 \<Rightarrow> naive_time option"
  time_delta_of :: "i64 \<Rightarrow> i32 \<Rightarrow> time_delta option"

text \<open>What the crate documents of them: a constructed date or time reads back as the numbers it
  was made of.\<close>

definition chrono_ok :: "chrono \<Rightarrow> bool" where
  "chrono_ok C \<longleftrightarrow>
     (\<forall>n d. from_num_days_from_ce_opt C n = Some d \<longrightarrow> num_days_from_ce d = n) \<and>
     (\<forall>s n t. from_num_seconds_from_midnight_opt C s n = Some t \<longrightarrow>
        num_seconds_from_midnight t = s \<and> nanosecond t = n)"

section \<open>Scalars\<close>

datatype scalar =
    Null
  | Bool bool
  | I8 i8 | I16 i16 | I32 i32 | I64 i64 | I128 i128
  | U8 u8 | U16 u16 | U32 u32 | U64 u64 | U128 u128
  | F32 u32 | F64 u64
  | Str string
  | Bytes bytes
  | Uuid u128
  | Date naive_date
  | Time naive_time
  | DateTime naive_date naive_time
  | Duration time_delta

text \<open>The tags of the storage encoding.\<close>

abbreviation (input) tag_NULL :: u8 where "tag_NULL \<equiv> 0"
abbreviation (input) tag_BOOL :: u8 where "tag_BOOL \<equiv> 1"
abbreviation (input) tag_I8 :: u8 where "tag_I8 \<equiv> 2"
abbreviation (input) tag_I16 :: u8 where "tag_I16 \<equiv> 3"
abbreviation (input) tag_I32 :: u8 where "tag_I32 \<equiv> 4"
abbreviation (input) tag_I64 :: u8 where "tag_I64 \<equiv> 5"
abbreviation (input) tag_I128 :: u8 where "tag_I128 \<equiv> 6"
abbreviation (input) tag_U8 :: u8 where "tag_U8 \<equiv> 7"
abbreviation (input) tag_U16 :: u8 where "tag_U16 \<equiv> 8"
abbreviation (input) tag_U32 :: u8 where "tag_U32 \<equiv> 9"
abbreviation (input) tag_U64 :: u8 where "tag_U64 \<equiv> 10"
abbreviation (input) tag_U128 :: u8 where "tag_U128 \<equiv> 11"
abbreviation (input) tag_F32 :: u8 where "tag_F32 \<equiv> 12"
abbreviation (input) tag_F64 :: u8 where "tag_F64 \<equiv> 13"
abbreviation (input) tag_STR :: u8 where "tag_STR \<equiv> 14"
abbreviation (input) tag_BYTES :: u8 where "tag_BYTES \<equiv> 15"
abbreviation (input) tag_UUID :: u8 where "tag_UUID \<equiv> 16"
abbreviation (input) tag_DATE :: u8 where "tag_DATE \<equiv> 17"
abbreviation (input) tag_TIME :: u8 where "tag_TIME \<equiv> 18"
abbreviation (input) tag_DATETIME :: u8 where "tag_DATETIME \<equiv> 19"
abbreviation (input) tag_DURATION :: u8 where "tag_DURATION \<equiv> 20"

fun type_str :: "scalar \<Rightarrow> string" where
  "type_str Null = ''null''"
| "type_str (Bool _) = ''bool''"
| "type_str (I8 _) = ''i8''"
| "type_str (I16 _) = ''i16''"
| "type_str (I32 _) = ''i32''"
| "type_str (I64 _) = ''i64''"
| "type_str (I128 _) = ''i128''"
| "type_str (U8 _) = ''u8''"
| "type_str (U16 _) = ''u16''"
| "type_str (U32 _) = ''u32''"
| "type_str (U64 _) = ''u64''"
| "type_str (U128 _) = ''u128''"
| "type_str (F32 _) = ''f32''"
| "type_str (F64 _) = ''f64''"
| "type_str (Str _) = ''str''"
| "type_str (Bytes _) = ''bytes''"
| "type_str (Uuid _) = ''uuid''"
| "type_str (Date _) = ''date''"
| "type_str (Time _) = ''time''"
| "type_str (DateTime _ _) = ''datetime''"
| "type_str (Duration _) = ''duration''"

text \<open>\<open>Scalar::encode\<close> appends to the buffer.\<close>

fun scalar_encode :: "bytes \<Rightarrow> scalar \<Rightarrow> bytes" where
  "scalar_encode buf Null = buf @ [tag_NULL]"
| "scalar_encode buf (Bool v) = (buf @ [tag_BOOL]) @ [of_bool v]"
| "scalar_encode buf (I8 v) = (buf @ [tag_I8]) @ be_bytes v"
| "scalar_encode buf (I16 v) = (buf @ [tag_I16]) @ be_bytes v"
| "scalar_encode buf (I32 v) = (buf @ [tag_I32]) @ be_bytes v"
| "scalar_encode buf (I64 v) = (buf @ [tag_I64]) @ be_bytes v"
| "scalar_encode buf (I128 v) = (buf @ [tag_I128]) @ be_bytes v"
| "scalar_encode buf (U8 v) = (buf @ [tag_U8]) @ [v]"
| "scalar_encode buf (U16 v) = (buf @ [tag_U16]) @ be_bytes v"
| "scalar_encode buf (U32 v) = (buf @ [tag_U32]) @ be_bytes v"
| "scalar_encode buf (U64 v) = (buf @ [tag_U64]) @ be_bytes v"
| "scalar_encode buf (U128 v) = (buf @ [tag_U128]) @ be_bytes v"
| "scalar_encode buf (F32 v) = (buf @ [tag_F32]) @ be_bytes v"
| "scalar_encode buf (F64 v) = (buf @ [tag_F64]) @ be_bytes v"
| "scalar_encode buf (Str v) = put_bytes (buf @ [tag_STR]) (as_bytes v)"
| "scalar_encode buf (Bytes v) = put_bytes (buf @ [tag_BYTES]) v"
| "scalar_encode buf (Uuid v) = (buf @ [tag_UUID]) @ be_bytes v"
| "scalar_encode buf (Date v) = (buf @ [tag_DATE]) @ be_bytes (num_days_from_ce v)"
| "scalar_encode buf (Time v) =
     ((buf @ [tag_TIME]) @ be_bytes (num_seconds_from_midnight v)) @ be_bytes (nanosecond v)"
| "scalar_encode buf (DateTime d t) =
     (((buf @ [tag_DATETIME]) @ be_bytes (num_days_from_ce d))
        @ be_bytes (num_seconds_from_midnight t)) @ be_bytes (nanosecond t)"
| "scalar_encode buf (Duration v) =
     ((buf @ [tag_DURATION]) @ be_bytes (num_seconds v)) @ be_bytes (subsec_nanos v)"

text \<open>\<open>time.rs: decode_time\<close>.\<close>

definition decode_time :: "chrono \<Rightarrow> reader \<Rightarrow> (naive_time \<times> reader) res" where
  "decode_time C r =
     andThen (reader_u32 r) (\<lambda>(secs, r).
     andThen (reader_u32 r) (\<lambda>(nanos, r).
     andThen (ok_or (from_num_seconds_from_midnight_opt C secs nanos)
                (Corrupt ''out-of-range time scalar'')) (\<lambda>t. Ok (t, r))))"

text \<open>A variant's constructor over a decoded payload.\<close>

definition scalar_of :: "('a \<Rightarrow> scalar) \<Rightarrow> ('a \<times> reader) res \<Rightarrow> (scalar \<times> reader) res" where
  "scalar_of f m = andThen m (\<lambda>(v, r). Ok (f v, r))"

definition scalar_decode :: "chrono \<Rightarrow> reader \<Rightarrow> (scalar \<times> reader) res" where
  "scalar_decode C r =
     andThen (reader_u8 r) (\<lambda>(tag, r).
       if tag = tag_NULL then Ok (Null, r)
       else if tag = tag_BOOL then scalar_of (\<lambda>b. Bool (b \<noteq> 0)) (reader_u8 r)
       else if tag = tag_I8 then scalar_of I8 (reader_word r)
       else if tag = tag_I16 then scalar_of I16 (reader_word r)
       else if tag = tag_I32 then scalar_of I32 (reader_word r)
       else if tag = tag_I64 then scalar_of I64 (reader_word r)
       else if tag = tag_I128 then scalar_of I128 (reader_word r)
       else if tag = tag_U8 then scalar_of U8 (reader_u8 r)
       else if tag = tag_U16 then scalar_of U16 (reader_word r)
       else if tag = tag_U32 then scalar_of U32 (reader_u32 r)
       else if tag = tag_U64 then scalar_of U64 (reader_u64 r)
       else if tag = tag_U128 then scalar_of U128 (reader_word r)
       else if tag = tag_F32 then scalar_of F32 (reader_word r)
       else if tag = tag_F64 then scalar_of F64 (reader_word r)
       else if tag = tag_STR then
         andThen (reader_bytes r) (\<lambda>(bs, r).
         andThen (ok_or (from_utf8 bs) (Corrupt ''invalid utf-8 in string scalar'')) (\<lambda>s.
         Ok (Str s, r)))
       else if tag = tag_BYTES then scalar_of Bytes (reader_bytes r)
       else if tag = tag_UUID then scalar_of Uuid (reader_word r)
       else if tag = tag_DATE then
         andThen (reader_word r) (\<lambda>(days, r).
         andThen (ok_or (from_num_days_from_ce_opt C days) (Corrupt ''out-of-range date scalar''))
           (\<lambda>date. Ok (Date date, r)))
       else if tag = tag_TIME then scalar_of Time (decode_time C r)
       else if tag = tag_DATETIME then
         andThen (reader_word r) (\<lambda>(days, r).
         andThen (ok_or (from_num_days_from_ce_opt C days) (Corrupt ''out-of-range datetime scalar''))
           (\<lambda>date. scalar_of (DateTime date) (decode_time C r)))
       else if tag = tag_DURATION then
         andThen (reader_word r) (\<lambda>(secs, r).
         andThen (reader_word r) (\<lambda>(nanos, r).
         case time_delta_of C secs nanos of
           Some d \<Rightarrow> Ok (Duration d, r)
         | None \<Rightarrow> Panic ''TimeDelta out of bounds''))
       else Err (Corrupt (''unknown scalar tag '' @ show_nat (unat tag))))"

section \<open>The round trip\<close>

text \<open>A scalar the program can hold: strings are UTF-8, a run's length fits the 32-bit prefix, and
  a calendar value is one its constructor gives back from the numbers its accessors return.\<close>

definition date_ok :: "chrono \<Rightarrow> naive_date \<Rightarrow> bool" where
  "date_ok C d \<longleftrightarrow> from_num_days_from_ce_opt C (num_days_from_ce d) = Some d"

definition time_ok :: "chrono \<Rightarrow> naive_time \<Rightarrow> bool" where
  "time_ok C t \<longleftrightarrow>
     from_num_seconds_from_midnight_opt C (num_seconds_from_midnight t) (nanosecond t) = Some t"

fun scalar_ok :: "chrono \<Rightarrow> scalar \<Rightarrow> bool" where
  "scalar_ok C (Str s) = (utf8 s \<and> length s < 2 ^ 32)"
| "scalar_ok C (Bytes bs) = (length bs < 2 ^ 32)"
| "scalar_ok C (Date d) = date_ok C d"
| "scalar_ok C (Time t) = time_ok C t"
| "scalar_ok C (DateTime d t) = (date_ok C d \<and> time_ok C t)"
| "scalar_ok C (Duration v) = (time_delta_of C (num_seconds v) (subsec_nanos v) = Some v)"
| "scalar_ok C _ = True"

lemma scalar_encode_append: "scalar_encode buf s = buf @ scalar_encode [] s"
  by (cases s) (simp_all add: put_bytes_append [of "buf @ [_]"] put_bytes_append [of "[_]"])

lemma scalar_encode_Cons: "\<exists>t body. scalar_encode [] s = t # body"
  by (cases s) (simp_all add: put_bytes_def put_u32_def)

lemma reader_u8_unread:
  "unread r = b # rest \<Longrightarrow> sized r \<Longrightarrow> reader_u8 r = Ok (b, r\<lparr>rpos := rpos r + 1\<rparr>)"
  using u8_codec.decodes [of r b rest] by simp

lemma reader_word_unread:
  "8 dvd LENGTH('a) \<Longrightarrow> unread r = be_bytes (w :: 'a::len word) @ rest \<Longrightarrow> sized r \<Longrightarrow>
   reader_word r = Ok (w, r\<lparr>rpos := rpos r + LENGTH('a) div 8\<rparr>)"
  using codec.decodes [OF reader_word_codec, of r w rest] by simp

lemma reader_u32_word: "reader_u32 r = (reader_word r :: (u32 \<times> reader) res)"
  by (simp add: reader_u32_def reader_word_def reader_array_def)

lemma reader_u64_word: "reader_u64 r = (reader_word r :: (u64 \<times> reader) res)"
  by (simp add: reader_u64_def reader_word_def reader_array_def)

lemma reader_bytes_unread:
  "length x < 2 ^ 32 \<Longrightarrow> unread r = put_bytes [] x @ rest \<Longrightarrow> sized r \<Longrightarrow>
   reader_bytes r = Ok (x, r\<lparr>rpos := rpos r + 4 + length x\<rparr>)"
  using bytes_codec.decodes [of x r rest] by (simp add: add.assoc)

lemma decode_time_unread:
  assumes "time_ok C t" "sized r"
    "unread r = be_bytes (num_seconds_from_midnight t) @ be_bytes (nanosecond t) @ rest"
  shows "decode_time C r = Ok (t, r\<lparr>rpos := rpos r + 8\<rparr>)"
proof -
  have "reader_u32 r = Ok (num_seconds_from_midnight t, r\<lparr>rpos := rpos r + 4\<rparr>)"
    using assms by (simp add: reader_u32_word reader_word_unread)
  moreover have "reader_u32 (r\<lparr>rpos := rpos r + 4\<rparr>) = Ok (nanosecond t, r\<lparr>rpos := rpos r + 8\<rparr>)"
    using assms reader_word_unread [of "r\<lparr>rpos := rpos r + 4\<rparr>" "nanosecond t" rest]
    by (simp add: reader_u32_word)
  ultimately show ?thesis using assms(1) by (simp add: decode_time_def time_ok_def)
qed

lemma scalar_decode_unread:
  assumes "scalar_ok C s" "unread r = scalar_encode [] s @ rest" "sized r"
  shows "scalar_decode C r = Ok (s, r\<lparr>rpos := rpos r + length (scalar_encode [] s)\<rparr>)"
proof -
  obtain r' where tag: "reader_u8 r = Ok (hd (scalar_encode [] s), r')"
    and un: "unread r' = tl (scalar_encode [] s) @ rest" and sz: "sized r'"
    and null: "r' = r\<lparr>rpos := Suc (rpos r)\<rparr>"
    and p: "rpos r' = Suc (rpos r)" "\<And>n. r'\<lparr>rpos := n\<rparr> = r\<lparr>rpos := n\<rparr>"
    using assms scalar_encode_Cons [of s] by (auto simp: reader_u8_unread)
  note step = tag sz p scalar_decode_def scalar_of_def reader_u32_word reader_u64_word
    reader_word_unread reader_u8_unread put_bytes_append [of "[_]"] reader_bytes_unread
    decode_time_unread date_ok_def
  show ?thesis
  proof (cases s)
    case (Str x)
    then have "reader_bytes r' = Ok (as_bytes x, r'\<lparr>rpos := rpos r' + 4 + length x\<rparr>)"
      using assms(1) un sz reader_bytes_unread [of "as_bytes x" r' rest] by (simp add: step)
    then show ?thesis using assms(1) Str by (simp add: step)
  next
    case (DateTime d t)
    then have "decode_time C (r\<lparr>rpos := 5 + rpos r\<rparr>) = Ok (t, r\<lparr>rpos := rpos r + 13\<rparr>)"
      using assms decode_time_unread [of C t "r\<lparr>rpos := 5 + rpos r\<rparr>" rest]
      by (simp add: add.commute [of _ "rpos r"])
    then show ?thesis using assms(1) un DateTime by (simp add: step)
  next
    case (Duration v)
    then have "reader_word (r\<lparr>rpos := 9 + rpos r\<rparr>) = Ok (subsec_nanos v, r\<lparr>rpos := rpos r + 13\<rparr>)"
      using assms reader_word_unread [of "r\<lparr>rpos := 9 + rpos r\<rparr>" "subsec_nanos v" rest]
      by (simp add: add.commute [of _ "rpos r"])
    then show ?thesis using assms(1) un Duration by (simp add: step)
  qed (use assms(1) un in \<open>simp_all add: step null [symmetric]\<close>)
qed

interpretation scalar: codec "scalar_encode []" "scalar_decode C" "scalar_ok C" for C
  by unfold_locales (rule scalar_decode_unread)

section \<open>Decoding arbitrary bytes\<close>

lemma decode_time_reads [simp]: "reads r (decode_time C r)"
  by (auto simp: decode_time_def intro!: reads_andThen reads_ok_or)

lemma scalar_of_reads [simp]: "reads r m \<Longrightarrow> reads r (scalar_of f m)"
  by (auto simp: scalar_of_def intro!: reads_andThen)

text \<open>The stored durations the library cannot represent: the decoder panics on them.\<close>

definition bad_duration :: "chrono \<Rightarrow> reader \<Rightarrow> bool" where
  "bad_duration C r \<longleftrightarrow>
     (\<exists>r1 secs r2 nanos r3. reader_u8 r = Ok (tag_DURATION, r1) \<and> reader_word r1 = Ok (secs, r2) \<and>
        reader_word r2 = Ok (nanos, r3) \<and> time_delta_of C secs nanos = None)"

lemma scalar_decode_reads:
  assumes "\<not> bad_duration C r"
  shows "reads r (scalar_decode C r)"
proof -
  have "reads r1 (andThen (reader_word r1) (\<lambda>(secs, r). andThen (reader_word r) (\<lambda>(nanos, r).
      case time_delta_of C secs nanos of Some d \<Rightarrow> Ok (Duration d, r)
      | None \<Rightarrow> Panic ''TimeDelta out of bounds'')))"
    if "reader_u8 r = Ok (tag_DURATION, r1)" for r1
    using assms that unfolding bad_duration_def
    by (fastforce intro!: reads_andThen split: option.split)
  then show ?thesis
    unfolding scalar_decode_def
    by (auto intro!: reads_andThen [where m = "reader_u8 r"] reads_if split del: if_split)
      (auto intro!: reads_andThen [where m = "reader_word _"] reads_andThen [where m = "reader_bytes _"]
        reads_ok_or)
qed

section \<open>Properties\<close>

text \<open>An instance of the calendar parameter: the ranges of the crate for dates (in days) and times,
  and durations given by their own parts.\<close>

definition calendar :: chrono where
  "calendar = \<lparr>
     from_num_days_from_ce_opt =
       (\<lambda>n. if - 95745000 \<le> sint n \<and> sint n \<le> 95745000 then Some (NaiveDate n) else None),
     from_num_seconds_from_midnight_opt =
       (\<lambda>s n. if s < 86400 \<and> n < 2000000000 then Some (NaiveTime s n) else None),
     time_delta_of =
       (\<lambda>s n. if - 9223372036854775 \<le> sint s \<and> sint s \<le> 9223372036854775
               then Some (TimeDelta s n) else None)\<rparr>"

lemma calendar_ok: "chrono_ok calendar"
  by (auto simp: chrono_ok_def calendar_def split: if_splits)

text \<open>Decoding the storage encoding of a scalar, whatever bytes follow it, gives the scalar back
  and leaves the reader exactly at the first following byte.\<close>

theorem scalar_roundtrip:
  assumes "scalar_ok C s" and "length (scalar_encode [] s @ rest) < usize_bound"
  shows "scalar_decode C (reader_new (scalar_encode [] s @ rest))
    = Ok (s, \<lparr>rbuf = scalar_encode [] s @ rest, rpos = length (scalar_encode [] s)\<rparr>)"
  using scalar_decode_unread [OF assms(1), of "reader_new (scalar_encode [] s @ rest)" rest] assms(2)
  by (simp add: reader_new_def sized_def unread_def)

theorem scalar_roundtrip_witness:
  "scalar_decode calendar (reader_new (scalar_encode [] (DateTime (NaiveDate 719163) (NaiveTime 3600 5)) @ [7]))
    = Ok (DateTime (NaiveDate 719163) (NaiveTime 3600 5),
        \<lparr>rbuf = scalar_encode [] (DateTime (NaiveDate 719163) (NaiveTime 3600 5)) @ [7], rpos = 13\<rparr>)"
  using scalar_roundtrip [of calendar "DateTime (NaiveDate 719163) (NaiveTime 3600 5)" "[7]"]
  by (simp add: date_ok_def time_ok_def calendar_def usize_bound_def)

text \<open>On arbitrary bytes the scalar decoder either succeeds, moving its reader forward inside the
  buffer, or reports \<open>Corrupt\<close>; the one exception is a stored duration that the calendar library
  cannot represent, on which it panics.\<close>

theorem scalar_decode_arbitrary:
  "reads r (scalar_decode C r) \<or>
   (scalar_decode C r = Panic ''TimeDelta out of bounds'' \<and> bad_duration C r)"
proof (cases "bad_duration C r")
  case True
  then show ?thesis by (auto simp: bad_duration_def scalar_decode_def)
next
  case False
  then show ?thesis by (simp add: scalar_decode_reads)
qed

text \<open>A stored duration of \<open>2\<^sup>63 - 1\<close> seconds, which no \<open>TimeDelta\<close> can hold, makes the decoder
  panic instead of reporting corruption.\<close>

theorem scalar_decode_duration_panics:
  "scalar_decode calendar (reader_new ([20] @ be_bytes (0x7FFFFFFFFFFFFFFF :: u64) @ be_bytes (0 :: u32)))
    = Panic ''TimeDelta out of bounds''"
proof -
  let ?b = "[20] @ be_bytes (0x7FFFFFFFFFFFFFFF :: u64) @ be_bytes (0 :: u32)"
  have "reader_u8 (reader_new ?b) = Ok (20, (reader_new ?b)\<lparr>rpos := 1\<rparr>)"
    by (simp add: reader_u8_unread sized_def reader_new_def unread_def usize_bound_def)
  moreover have "reader_word ((reader_new ?b)\<lparr>rpos := 1\<rparr>)
      = Ok (0x7FFFFFFFFFFFFFFF :: u64, (reader_new ?b)\<lparr>rpos := 9\<rparr>)"
    using reader_word_unread [of "(reader_new ?b)\<lparr>rpos := 1\<rparr>" "0x7FFFFFFFFFFFFFFF :: u64" "be_bytes (0 :: u32)"]
    by (simp add: sized_def reader_new_def unread_def usize_bound_def)
  moreover have "reader_word ((reader_new ?b)\<lparr>rpos := 9\<rparr>) = Ok (0 :: u32, (reader_new ?b)\<lparr>rpos := 13\<rparr>)"
    using reader_word_unread [of "(reader_new ?b)\<lparr>rpos := 9\<rparr>" "0 :: u32" "[]"]
    by (simp add: sized_def reader_new_def unread_def usize_bound_def)
  ultimately show ?thesis by (simp add: scalar_decode_def calendar_def)
qed

end
