(* ===== verification/Paths.thy ===== *)
theory Paths
  imports Errors
begin

text \<open>
  Paths (\<open>path/\<close>): parsing, printing and the operations of \<open>VPath\<close> (names and list indices,
  inside a value) and \<open>APath\<close> (names only, in the virtual filesystem), the conversions
  \<open>IntoArborPath\<close> / \<open>IntoValuePath\<close>, and the path arithmetic of the rooted views
  (\<open>txn/rooted/\<close>). Lemmas: printing and parsing round-trip on well-formed paths, every parsed
  path is well-formed, and a rooted view never leaves its root.
\<close>

section \<open>Token parsing\<close>

definition validate_name :: "string \<Rightarrow> string \<Rightarrow> unit res" where
  "validate_name name full =
     (if CHR ''/'' \<in> set name \<or> CHR ''['' \<in> set name \<or> CHR '']'' \<in> set name then
        Err (InvalidPath (''reserved character in segment '' @ [CHR 0x27] @ name @ [CHR 0x27]
          @ '' of '' @ [CHR 0x27] @ full @ [CHR 0x27]))
      else if name = ''.'' \<or> name = ''..'' then
        Err (InvalidPath (''reserved segment '' @ [CHR 0x27] @ name @ [CHR 0x27]
          @ '' in '' @ [CHR 0x27] @ full @ [CHR 0x27]))
      else Ok ())"

text \<open>The \<open>while\<close> loop of \<open>parse_token\<close> over the bracketed rest of a token.\<close>

function parse_indices :: "string \<Rightarrow> string \<Rightarrow> segment list \<Rightarrow> segment list res" where
  "parse_indices full rest out =
     (if rest = [] then Ok out
      else if hd rest \<noteq> CHR ''['' then
        Err (InvalidPath (''expected '' @ [CHR 0x27, CHR ''['', CHR 0x27] @ '' in segment of ''
          @ [CHR 0x27] @ full @ [CHR 0x27]))
      else
        (case find_char (CHR '']'') rest of
           None \<Rightarrow>
             Err (InvalidPath (''unclosed '' @ [CHR 0x27, CHR ''['', CHR 0x27] @ '' in ''
               @ [CHR 0x27] @ full @ [CHR 0x27]))
         | Some close \<Rightarrow>
             (let digits = take (close - 1) (drop 1 rest)
              in (case parse_u64 digits of
                    None \<Rightarrow>
                      Err (InvalidPath (''invalid index '' @ [CHR 0x27] @ digits @ [CHR 0x27]
                        @ '' in '' @ [CHR 0x27] @ full @ [CHR 0x27]))
                  | Some index \<Rightarrow>
                      parse_indices full (drop (close + 1) rest) (out @ [Index index])))))"
  by pat_completeness auto
termination
  by (relation "measure (\<lambda>(full, rest, out). length rest)") auto

declare parse_indices.simps [simp del]

definition parse_token :: "string \<Rightarrow> string \<Rightarrow> segment list \<Rightarrow> segment list res" where
  "parse_token token full out =
     (case find_char (CHR ''['') token of
        None \<Rightarrow> andThen (validate_name token full) (\<lambda>_. Ok (out @ [Name token]))
      | Some bracket \<Rightarrow>
          (let name = take bracket token
           in andThen
                (if name \<noteq> [] then
                   andThen (validate_name name full) (\<lambda>_. Ok (out @ [Name name]))
                 else Ok out)
                (\<lambda>out. parse_indices full (drop bracket token) out)))"

section \<open>Value paths\<close>

definition vpath_root :: vpath where
  "vpath_root = []"

definition vpath_is_root :: "vpath \<Rightarrow> bool" where
  "vpath_is_root p \<longleftrightarrow> p = []"

definition vpath_last :: "vpath \<Rightarrow> segment option" where
  "vpath_last p = (if p = [] then None else Some (last p))"

text \<open>\<open>push_name\<close>: \<open>SmallVec::pop\<close> on an empty path does nothing, as \<^const>\<open>butlast\<close> does.\<close>

definition vpath_push_name :: "vpath \<Rightarrow> string \<Rightarrow> vpath" where
  "vpath_push_name p name =
     (if name = ''.'' then p else if name = ''..'' then butlast p else p @ [Name name])"

definition vpath_push_index :: "vpath \<Rightarrow> u64 \<Rightarrow> vpath" where
  "vpath_push_index p index = p @ [Index index]"

definition vpath_join :: "vpath \<Rightarrow> vpath \<Rightarrow> vpath" where
  "vpath_join p tail = p @ tail"

definition vpath_parent :: "vpath \<Rightarrow> vpath option" where
  "vpath_parent p = (if p = [] then None else Some (take (length p - 1) p))"

text \<open>The token loop of \<open>VPath::from_str\<close>.\<close>

fun vpath_tokens :: "string \<Rightarrow> string list \<Rightarrow> segment list \<Rightarrow> vpath res" where
  "vpath_tokens s [] segments = Ok segments"
| "vpath_tokens s (token # tokens) segments =
     (if token = [] then
        Err (InvalidPath (''empty segment in '' @ [CHR 0x27] @ s @ [CHR 0x27]))
      else if token = ''.'' then vpath_tokens s tokens segments
      else if token = ''..'' then
        (if segments = [] then
           Err (InvalidPath ([CHR 0x27] @ s @ [CHR 0x27] @ '' rises above the root''))
         else vpath_tokens s tokens (butlast segments))
      else andThen (parse_token token s segments) (\<lambda>segments. vpath_tokens s tokens segments))"

definition vpath_from_str :: "string \<Rightarrow> vpath res" where
  "vpath_from_str s =
     (if s = [] then Ok vpath_root else vpath_tokens s (split_on (CHR ''/'') s) [])"

fun vpath_display_from :: "bool \<Rightarrow> vpath \<Rightarrow> string" where
  "vpath_display_from first [] = []"
| "vpath_display_from first (Name name # ss) =
     (if first then [] else ''/'') @ name @ vpath_display_from False ss"
| "vpath_display_from first (Index index # ss) =
     ''['' @ show_nat (unat index) @ '']'' @ vpath_display_from False ss"

definition vpath_display :: "vpath \<Rightarrow> string" where
  "vpath_display p = vpath_display_from True p"

section \<open>Access paths\<close>

definition apath_root :: apath where
  "apath_root = []"

definition apath_is_root :: "apath \<Rightarrow> bool" where
  "apath_is_root p \<longleftrightarrow> p = []"

definition apath_last :: "apath \<Rightarrow> string option" where
  "apath_last p = (if p = [] then None else Some (last p))"

definition apath_push_name :: "apath \<Rightarrow> string \<Rightarrow> apath" where
  "apath_push_name p name =
     (if name = ''.'' then p else if name = ''..'' then butlast p else p @ [name])"

definition apath_join :: "apath \<Rightarrow> apath \<Rightarrow> apath" where
  "apath_join p tail = p @ tail"

definition apath_parent :: "apath \<Rightarrow> apath option" where
  "apath_parent p = (if p = [] then None else Some (take (length p - 1) p))"

definition apath_split_last :: "apath \<Rightarrow> (apath \<times> string) option" where
  "apath_split_last p = (if p = [] then None else Some (butlast p, last p))"

fun apath_tokens :: "string \<Rightarrow> string list \<Rightarrow> apath \<Rightarrow> apath res" where
  "apath_tokens s [] names = Ok names"
| "apath_tokens s (token # tokens) names =
     (if token = [] then
        Err (InvalidPath (''empty segment in '' @ [CHR 0x27] @ s @ [CHR 0x27]))
      else if token = ''.'' then apath_tokens s tokens names
      else if token = ''..'' then
        (if names = [] then
           Err (InvalidPath ([CHR 0x27] @ s @ [CHR 0x27] @ '' rises above the root''))
         else apath_tokens s tokens (butlast names))
      else andThen (validate_name token s) (\<lambda>_. apath_tokens s tokens (names @ [token])))"

definition apath_from_str :: "string \<Rightarrow> apath res" where
  "apath_from_str s =
     (if s = [] then Ok apath_root else apath_tokens s (split_on (CHR ''/'') s) [])"

fun apath_display_from :: "bool \<Rightarrow> apath \<Rightarrow> string" where
  "apath_display_from first [] = []"
| "apath_display_from first (name # names) =
     (if first then [] else ''/'') @ name @ apath_display_from False names"

definition apath_display :: "apath \<Rightarrow> string" where
  "apath_display p = apath_display_from True p"

section \<open>Path arguments and rooted views\<close>

text \<open>The two forms a path argument takes: an already built path, or a string to parse.\<close>

datatype arbor_arg = ABuilt apath | AStr string

fun into_arbor_path :: "arbor_arg \<Rightarrow> apath res" where
  "into_arbor_path (ABuilt p) = Ok p"
| "into_arbor_path (AStr s) = apath_from_str s"

datatype value_arg = VBuilt vpath | VStr string

fun into_value_path :: "value_arg \<Rightarrow> vpath res" where
  "into_value_path (VBuilt p) = Ok p"
| "into_value_path (VStr s) = vpath_from_str s"

text \<open>\<open>PathTail::append_to\<close>: a path joins segment-wise, a string appends one name.\<close>

fun vpath_append :: "vpath \<Rightarrow> value_arg \<Rightarrow> vpath" where
  "vpath_append p (VBuilt tail) = vpath_join p tail"
| "vpath_append p (VStr name) = vpath_push_name p name"

text \<open>\<open>RootedRead::absolute\<close> / \<open>RootedWrite::absolute\<close>, and \<open>rooted\<close>, which nests a view.\<close>

definition rooted_absolute :: "apath \<Rightarrow> arbor_arg \<Rightarrow> apath res" where
  "rooted_absolute root path =
     andThen (into_arbor_path path) (\<lambda>p. Ok (apath_join root p))"

definition rooted_rooted :: "apath \<Rightarrow> arbor_arg \<Rightarrow> apath res" where
  "rooted_rooted root sub =
     andThen (into_arbor_path sub) (\<lambda>p. Ok (apath_join root p))"

section \<open>Well-formed paths\<close>

text \<open>What parsing guarantees of a name: it is printable as one token.\<close>

definition name_ok :: "string \<Rightarrow> bool" where
  "name_ok n \<longleftrightarrow> n \<noteq> [] \<and> CHR ''/'' \<notin> set n \<and> CHR ''['' \<notin> set n \<and> CHR '']'' \<notin> set n
     \<and> n \<noteq> ''.'' \<and> n \<noteq> ''..''"

fun segment_ok :: "segment \<Rightarrow> bool" where
  "segment_ok (Name n) = name_ok n"
| "segment_ok (Index i) = True"

definition vpath_ok :: "vpath \<Rightarrow> bool" where
  "vpath_ok p \<longleftrightarrow> list_all segment_ok p"

definition apath_ok :: "apath \<Rightarrow> bool" where
  "apath_ok p \<longleftrightarrow> list_all name_ok p"

section \<open>Parsing yields well-formed paths\<close>

lemma validate_name_Ok: "n \<noteq> [] \<Longrightarrow> validate_name n full = Ok () \<longleftrightarrow> name_ok n"
  by (auto simp: validate_name_def name_ok_def)

lemma vpath_ok_simps [simp]:
  "vpath_ok []"
  "vpath_ok (s # p) \<longleftrightarrow> segment_ok s \<and> vpath_ok p"
  "vpath_ok (p @ q) \<longleftrightarrow> vpath_ok p \<and> vpath_ok q"
  by (auto simp: vpath_ok_def)

lemma apath_ok_simps [simp]:
  "apath_ok []"
  "apath_ok (n # p) \<longleftrightarrow> name_ok n \<and> apath_ok p"
  "apath_ok (p @ q) \<longleftrightarrow> apath_ok p \<and> apath_ok q"
  by (auto simp: apath_ok_def)

lemma vpath_ok_butlast [simp]: "vpath_ok p \<Longrightarrow> vpath_ok (butlast p)"
  by (auto simp: vpath_ok_def list_all_iff dest: in_set_butlastD)

lemma apath_ok_butlast [simp]: "apath_ok p \<Longrightarrow> apath_ok (butlast p)"
  by (auto simp: apath_ok_def list_all_iff dest: in_set_butlastD)

lemma parse_indices_ok:
  "vpath_ok out \<Longrightarrow> parse_indices full rest out = Ok p \<Longrightarrow> vpath_ok p"
proof (induction full rest out rule: parse_indices.induct)
  case (1 full rest out)
  from "1.prems" show ?case
    by (subst (asm) parse_indices.simps)
      (auto simp: Let_def split: if_splits option.splits intro: "1.IH")
qed

lemma parse_token_ok:
  assumes "token \<noteq> []" "vpath_ok out" "parse_token token full out = Ok p"
  shows "vpath_ok p"
proof (cases "find_char (CHR ''['') token")
  case None
  with assms show ?thesis by (auto simp: parse_token_def validate_name_Ok)
next
  case (Some b)
  let ?name = "take b token"
  show ?thesis
  proof (cases "?name = []")
    case True
    with Some assms show ?thesis
      by (simp add: parse_token_def Let_def parse_indices_ok [of out])
  next
    case False
    with Some assms(3) have "name_ok ?name"
      and "parse_indices full (drop b token) (out @ [Name ?name]) = Ok p"
      by (auto simp: parse_token_def Let_def validate_name_Ok simp del: take_eq_Nil)
    moreover have "vpath_ok (out @ [Name ?name])" using assms(2) \<open>name_ok ?name\<close> by simp
    ultimately show ?thesis using parse_indices_ok by blast
  qed
qed

lemma vpath_tokens_ok:
  "vpath_ok segments \<Longrightarrow> vpath_tokens s tokens segments = Ok p \<Longrightarrow> vpath_ok p"
proof (induction tokens arbitrary: segments)
  case (Cons t tokens)
  consider "t = ''.''" | "t = ''..''" | "t \<noteq> []" "t \<noteq> ''.''" "t \<noteq> ''..''"
    using Cons.prems by (cases "t = []") auto
  then show ?case
  proof cases
    case 3
    with Cons.prems obtain segs where "parse_token t s segments = Ok segs"
      and "vpath_tokens s tokens segs = Ok p" by auto
    with 3 Cons show ?thesis using parse_token_ok by blast
  qed (use Cons.prems Cons.IH [of segments] Cons.IH [of "butlast segments"] in
      \<open>auto split: if_splits\<close>)
qed simp

lemma apath_tokens_ok:
  "apath_ok names \<Longrightarrow> apath_tokens s tokens names = Ok p \<Longrightarrow> apath_ok p"
proof (induction tokens arbitrary: names)
  case (Cons t tokens)
  then show ?case
    using Cons.IH [of "butlast names"] Cons.IH [of "names @ [t]"]
    by (auto split: if_splits simp: validate_name_Ok)
qed simp

section \<open>Printing then parsing\<close>

definition show_index :: "u64 \<Rightarrow> string" where
  "show_index i = CHR ''['' # show_nat (unat i) @ '']''"

lemma find_char_Cons_append [simp]:
  "c \<noteq> x \<Longrightarrow> c \<notin> set s \<Longrightarrow> find_char c (x # s @ c # t) = Some (Suc (length s))"
  by simp

lemma parse_indices_show:
  "parse_indices full (concat (map show_index is)) out = Ok (out @ map Index is)"
proof (induction "is" arbitrary: out)
  case Nil
  then show ?case by (simp add: parse_indices.simps)
next
  case (Cons i "is")
  have no: "CHR '']'' \<notin> set (show_nat (unat i))"
    using show_nat_no_special by blast
  have "parse_indices full (concat (map show_index (i # is))) out
      = parse_indices full (concat (map show_index is)) (out @ [Index i])"
    by (subst parse_indices.simps) (simp add: show_index_def no)
  then show ?case using Cons.IH by simp
qed

lemma show_indices_no_slash: "CHR ''/'' \<notin> set (concat (map show_index is))"
  by (auto simp: show_index_def dest: show_nat_no_special)

text \<open>One printed token: a name (or none) followed by the indices bound to it.\<close>

definition token_segments :: "string \<Rightarrow> u64 list \<Rightarrow> segment list" where
  "token_segments n is = (if n = [] then [] else [Name n]) @ map Index is"

lemma parse_token_show:
  assumes "n = [] \<and> is \<noteq> [] \<or> name_ok n"
  shows "parse_token (n @ concat (map show_index is)) full out = Ok (out @ token_segments n is)"
proof (cases "is")
  case Nil
  with assms show ?thesis
    by (auto simp: parse_token_def token_segments_def validate_name_Ok name_ok_def)
next
  case (Cons i js)
  have nb: "CHR ''['' \<notin> set n" using assms by (auto simp: name_ok_def)
  have tok: "n @ concat (map show_index is)
      = n @ CHR ''['' # (show_nat (unat i) @ '']'' @ concat (map show_index js))"
    by (simp add: Cons show_index_def)
  have find: "find_char (CHR ''['') (n @ concat (map show_index is)) = Some (length n)"
    unfolding tok by (rule find_char_append [OF nb])
  show ?thesis
    using assms
    by (auto simp: parse_token_def find Let_def validate_name_Ok parse_indices_show
        token_segments_def name_ok_def)
qed

lemma token_not_special:
  assumes "n = [] \<and> is \<noteq> [] \<or> name_ok n"
  shows "n @ concat (map show_index is) \<noteq> []
    \<and> n @ concat (map show_index is) \<noteq> ''.''
    \<and> n @ concat (map show_index is) \<noteq> ''..''
    \<and> CHR ''/'' \<notin> set (n @ concat (map show_index is))"
proof (cases "is")
  case Nil
  with assms show ?thesis by (auto simp: name_ok_def)
next
  case (Cons i js)
  then have "CHR ''['' \<in> set (n @ concat (map show_index is))"
    by (auto simp: show_index_def)
  then have "n @ concat (map show_index is) \<notin> {[], ''.'', ''..''}"
    by (auto simp del: set_append set_concat concat_eq_Nil_conv)
  moreover have "CHR ''/'' \<notin> set n" using assms by (auto simp: name_ok_def)
  ultimately show ?thesis using show_indices_no_slash [of "is"] by simp
qed

lemma vpath_tokens_show:
  assumes "n = [] \<and> is \<noteq> [] \<or> name_ok n" "vpath_ok ss"
  shows "vpath_tokens s (split_on (CHR ''/'') (n @ concat (map show_index is) @
      vpath_display_from False ss)) out = Ok (out @ token_segments n is @ ss)"
  using assms
proof (induction ss arbitrary: n "is" out)
  case Nil
  then show ?case
    using token_not_special [OF Nil.prems(1)] by (simp add: parse_token_show)
next
  case (Cons x ss)
  show ?case
  proof (cases x)
    case (Index i)
    have "vpath_tokens s (split_on (CHR ''/'') (n @ concat (map show_index (is @ [i])) @
        vpath_display_from False ss)) out = Ok (out @ token_segments n (is @ [i]) @ ss)"
      using Cons.prems by (intro Cons.IH) auto
    moreover have "concat (map show_index (is @ [i])) @ vpath_display_from False ss
        = concat (map show_index is) @ vpath_display_from False (x # ss)"
      by (simp add: Index show_index_def [of i])
    ultimately show ?thesis by (simp add: Index token_segments_def)
  next
    case (Name m)
    have rest: "vpath_tokens s (split_on (CHR ''/'') (m @ concat (map show_index []) @
        vpath_display_from False ss)) (out @ token_segments n is)
      = Ok ((out @ token_segments n is) @ token_segments m [] @ ss)"
      using Cons.prems Name by (intro Cons.IH) auto
    have "name_ok m" using Cons.prems Name by simp
    then show ?thesis
      using token_not_special [OF Cons.prems(1)] rest Cons.prems(1)
      by (simp add: Name split_on_append [of _ "n @ concat (map show_index is)", simplified]
          parse_token_show token_segments_def name_ok_def)
  qed
qed

lemma vpath_display_parse: "vpath_ok p \<Longrightarrow> vpath_from_str (vpath_display p) = Ok p"
proof (cases p)
  case Nil
  then show ?thesis by (simp add: vpath_from_str_def vpath_display_def vpath_root_def)
next
  case (Cons x ss)
  assume ok: "vpath_ok p"
  show ?thesis
  proof (cases x)
    case (Name n)
    with ok Cons have n: "name_ok n" "vpath_ok ss" by auto
    then have "n \<noteq> []" by (simp add: name_ok_def)
    with n show ?thesis
      using vpath_tokens_show [of n "[]" ss _ "[]"]
      by (simp add: Cons Name vpath_from_str_def vpath_display_def token_segments_def)
  next
    case (Index i)
    with ok Cons show ?thesis
      using vpath_tokens_show [of "[]" "[i]" ss _ "[]"]
      by (simp add: Cons Index vpath_from_str_def vpath_display_def token_segments_def show_index_def)
  qed
qed

lemma apath_tokens_show:
  assumes "name_ok n" "apath_ok ns"
  shows "apath_tokens s (split_on (CHR ''/'') (n @ apath_display_from False ns)) out
    = Ok (out @ n # ns)"
  using assms
proof (induction ns arbitrary: n out)
  case Nil
  then show ?case by (simp add: name_ok_def validate_name_def)
next
  case (Cons m ns)
  have "CHR ''/'' \<notin> set n" using Cons.prems by (simp add: name_ok_def)
  then have "split_on (CHR ''/'') (n @ CHR ''/'' # m @ apath_display_from False ns)
      = n # split_on (CHR ''/'') (m @ apath_display_from False ns)"
    by (rule split_on_append)
  with Cons show ?case by (simp add: name_ok_def validate_name_def)
qed

lemma apath_display_parse: "apath_ok p \<Longrightarrow> apath_from_str (apath_display p) = Ok p"
proof (cases p)
  case Nil
  then show ?thesis by (simp add: apath_from_str_def apath_display_def apath_root_def)
next
  case (Cons n ns)
  assume "apath_ok p"
  with Cons have ok: "name_ok n" "apath_ok ns" by auto
  then have "n \<noteq> []" by (simp add: name_ok_def)
  with ok show ?thesis
    using apath_tokens_show [OF ok, of _ "[]"]
    by (simp add: Cons apath_from_str_def apath_display_def)
qed

lemma vpath_from_str_ok: "vpath_from_str s = Ok p \<Longrightarrow> vpath_ok p"
  using vpath_tokens_ok [of "[]" s] by (auto simp: vpath_from_str_def vpath_root_def split: if_splits)

lemma apath_from_str_ok: "apath_from_str s = Ok p \<Longrightarrow> apath_ok p"
  using apath_tokens_ok [of "[]" s] by (auto simp: apath_from_str_def apath_root_def split: if_splits)

section \<open>Properties\<close>

text \<open>C29: parsing inverts printing on well-formed paths, and only well-formed paths come out of parsing. A path of either
  kind whose names are not empty, are neither of the navigation tokens and have none of the reserved
  characters prints to a string that parses back to it, and what any string parses to is such a path.
  The condition is needed: \<open>push_name\<close> and \<open>child_name\<close> do not check the name they append, so that a path built by
  \<open>child_name("a/b")\<close> prints as a path of two names.\<close>

theorem path_roundtrip:
  "(vpath_ok p \<longrightarrow> vpath_from_str (vpath_display p) = Ok p) \<and>
   (apath_ok q \<longrightarrow> apath_from_str (apath_display q) = Ok q) \<and>
   (vpath_from_str s = Ok p \<longrightarrow> vpath_ok p) \<and> (apath_from_str s = Ok q \<longrightarrow> apath_ok q)"
  using vpath_display_parse apath_display_parse vpath_from_str_ok apath_from_str_ok by blast

theorem path_roundtrip_witness:
  "vpath_from_str (vpath_display [Name ''a'', Index 7, Index 0, Name ''b'']) = Ok [Name ''a'', Index 7, Index 0, Name ''b''] \<and>
   apath_from_str (apath_display [''users'', ''ann'']) = Ok [''users'', ''ann'']"
  using path_roundtrip [of "[Name ''a'', Index 7, Index 0, Name ''b'']" "[''users'', ''ann'']"]
  by (simp add: name_ok_def)

text \<open>A rooted view never leaves its root. Whatever path a caller passes, parsed from a string
  with any number of \<open>..\<close> tokens or already built, an absolute path the view produces extends the
  root of the view, and nested views extend the root of the outer one; a string that would rise above
  the root is an error.\<close>

theorem rooted_never_escapes:
  "(rooted_absolute root arg = Ok p \<longrightarrow> (\<exists>tail. p = root @ tail \<and> into_arbor_path arg = Ok tail)) \<and>
   (rooted_rooted root sub = Ok root' \<longrightarrow> rooted_absolute root' arg = Ok p \<longrightarrow>
      (\<exists>tail. p = root @ tail)) \<and>
   (\<exists>m. rooted_absolute root (AStr ''../x'') = Err (InvalidPath m))"
  by (auto simp: rooted_absolute_def rooted_rooted_def apath_join_def apath_from_str_def)

theorem rooted_never_escapes_witness:
  "\<exists>tail. [''home'', ''b''] = [''home''] @ tail \<and> into_arbor_path (AStr ''a/../b'') = Ok tail"
proof -
  have "rooted_absolute [''home''] (AStr ''a/../b'') = Ok [''home'', ''b'']" by code_simp
  then show ?thesis
    using rooted_never_escapes [of "[''home'']" "AStr ''a/../b''" "[''home'', ''b'']"] by blast
qed

end
