(* ===== verification/Values.thy ===== *)
theory Values
  imports Scalars Paths
begin

text \<open>
  The dynamic document \<open>Value\<close> (\<open>value.rs\<close>): a tree of scalar leaves, lists and named maps, its
  accessors, its in-place operations (returning the updated value), and the path-addressed
  \<open>get_value\<close> / \<open>set_value\<close> / \<open>remove_value\<close>.

  A method that takes \<open>&mut self\<close> returns the updated document. A mutable borrow into a document
  (\<open>descend_mut\<close>) is a function from the update made through it to the updated document. The lemmas
  give the laws of path-addressed reading and writing: what is read after a write, at the path and
  away from it, and that a refused write changes nothing.
\<close>

section \<open>Documents\<close>

datatype vnode = Leaf scalar | List "vnode list" | Node "(string, vnode) btree"

datatype node_kind = KLeaf | KList | KObject

fun value_leaf :: "vnode \<Rightarrow> scalar option" where
  "value_leaf (Leaf s) = Some s"
| "value_leaf _ = None"

fun value_list :: "vnode \<Rightarrow> vnode list option" where
  "value_list (List l) = Some l"
| "value_list _ = None"

fun value_node :: "vnode \<Rightarrow> (string, vnode) btree option" where
  "value_node (Node m) = Some m"
| "value_node _ = None"

definition nth_opt :: "'a list \<Rightarrow> nat \<Rightarrow> 'a option" where
  "nth_opt xs i = (if i < length xs then Some (xs ! i) else None)"

fun value_at :: "vnode \<Rightarrow> nat \<Rightarrow> vnode option" where
  "value_at (List l) i = nth_opt l i"
| "value_at _ i = None"

fun value_contains_key :: "vnode \<Rightarrow> string \<Rightarrow> bool" where
  "value_contains_key (Node m) k = (bt_get m k \<noteq> None)"
| "value_contains_key _ k = False"

fun value_get :: "vnode \<Rightarrow> string \<Rightarrow> vnode option" where
  "value_get (Node m) k = bt_get m k"
| "value_get _ k = None"

fun value_node_kind :: "vnode \<Rightarrow> node_kind" where
  "value_node_kind (Leaf _) = KLeaf"
| "value_node_kind (List _) = KList"
| "value_node_kind (Node _) = KObject"

fun value_len :: "vnode \<Rightarrow> nat" where
  "value_len (Leaf _) = 0"
| "value_len (List l) = length l"
| "value_len (Node m) = length m"

definition value_is_empty :: "vnode \<Rightarrow> bool" where
  "value_is_empty v \<longleftrightarrow> value_len v = 0"

fun value_keys :: "vnode \<Rightarrow> string list" where
  "value_keys (Node m) = map fst m"
| "value_keys _ = []"

definition value_default :: vnode where
  "value_default = Leaf Null"

section \<open>In-place operations\<close>

fun value_clear :: "vnode \<Rightarrow> vnode" where
  "value_clear (Leaf _) = Leaf Null"
| "value_clear (List _) = List []"
| "value_clear (Node _) = Node []"

fun value_push :: "vnode \<Rightarrow> vnode \<Rightarrow> vnode" where
  "value_push (List l) v = List (l @ [v])"
| "value_push t v = t"

fun value_insert :: "vnode \<Rightarrow> string \<Rightarrow> vnode \<Rightarrow> vnode" where
  "value_insert (Node m) k v = Node (bt_insert k v m)"
| "value_insert t k v = t"

text \<open>\<open>Vec::remove\<close> within bounds.\<close>

definition list_remove :: "'a list \<Rightarrow> nat \<Rightarrow> 'a list" where
  "list_remove l i = take i l @ drop (Suc i) l"

fun value_remove_at :: "vnode \<Rightarrow> nat \<Rightarrow> vnode res" where
  "value_remove_at (List l) i =
     (if i < length l then Ok (List (list_remove l i)) else Panic ''removal index out of bounds'')"
| "value_remove_at t i = Ok t"

fun value_remove_key :: "vnode \<Rightarrow> string \<Rightarrow> vnode" where
  "value_remove_key (Node m) k = Node (bt_remove k m)"
| "value_remove_key t k = t"

text \<open>\<open>BTreeMap::extend\<close> inserts in iteration order.\<close>

definition bt_extend :: "('k::linorder, 'v) btree \<Rightarrow> ('k, 'v) btree \<Rightarrow> ('k, 'v) btree" where
  "bt_extend m n = foldl (\<lambda>a e. bt_insert (fst e) (snd e) a) m n"

fun value_merge :: "vnode \<Rightarrow> vnode \<Rightarrow> vnode" where
  "value_merge (Leaf _) w = w"
| "value_merge (List l) (List wl) = List (l @ wl)"
| "value_merge (List l) w = List (l @ [w])"
| "value_merge (Node m) (Node wm) = Node (bt_extend m wm)"
| "value_merge (Node m) w = w"

section \<open>Path-addressed access\<close>

text \<open>\<open>*index as usize\<close> keeps a 64-bit index.\<close>

fun step :: "vnode \<Rightarrow> segment \<Rightarrow> vnode option" where
  "step v (Name n) = value_get v n"
| "step v (Index i) = value_at v (unat i)"

fun subtree :: "vnode \<Rightarrow> vpath \<Rightarrow> vnode option" where
  "subtree v [] = Some v"
| "subtree v (s # p) = Option.bind (step v s) (\<lambda>c. subtree c p)"

definition get_value :: "vnode \<Rightarrow> value_arg \<Rightarrow> vnode option" where
  "get_value v path = (case into_value_path path of Ok p \<Rightarrow> subtree v p | _ \<Rightarrow> None)"

fun build_fresh :: "vpath \<Rightarrow> vnode \<Rightarrow> vnode option" where
  "build_fresh [] value = Some value"
| "build_fresh (Name n # rest) value =
     map_option (\<lambda>c. Node (bt_insert n c [])) (build_fresh rest value)"
| "build_fresh (Index i # rest) value =
     (if i = 0 then map_option (\<lambda>c. List [c]) (build_fresh rest value) else None)"

text \<open>The flag is the returned \<open>bool\<close>, the document the target as the call leaves it.\<close>

fun set_in :: "vnode \<Rightarrow> vpath \<Rightarrow> vnode \<Rightarrow> bool \<times> vnode" where
  "set_in target [] value = (True, value)"
| "set_in (Node m) (Name n # rest) value =
     (case bt_get m n of
        Some child \<Rightarrow> (case set_in child rest value of (ok, c) \<Rightarrow> (ok, Node (bt_insert n c m)))
      | None \<Rightarrow>
          (case build_fresh rest value of
             Some sub \<Rightarrow> (True, Node (bt_insert n sub m))
           | None \<Rightarrow> (False, Node m)))"
| "set_in (List l) (Index i # rest) value =
     (let index = unat i
      in if index < length l then
           (case set_in (l ! index) rest value of (ok, c) \<Rightarrow> (ok, List (l[index := c])))
         else if index = length l then
           (case build_fresh rest value of
              Some sub \<Rightarrow> (True, List (l @ [sub]))
            | None \<Rightarrow> (False, List l))
         else (False, List l))"
| "set_in target (s # rest) value = (False, target)"

definition set_value :: "vnode \<Rightarrow> value_arg \<Rightarrow> vnode \<Rightarrow> bool \<times> vnode" where
  "set_value v path value =
     (case into_value_path path of Ok p \<Rightarrow> set_in v p value | _ \<Rightarrow> (False, v))"

text \<open>\<open>descend_mut(current, segments)\<close> together with the update \<open>f\<close> made through the borrow.\<close>

fun descend_mut :: "vnode \<Rightarrow> vpath \<Rightarrow> (vnode \<Rightarrow> 'a \<times> vnode) \<Rightarrow> ('a \<times> vnode) option" where
  "descend_mut v [] f = Some (f v)"
| "descend_mut (Node m) (Name n # p) f =
     (case bt_get m n of
        Some c \<Rightarrow> map_option (\<lambda>(x, c). (x, Node (bt_insert n c m))) (descend_mut c p f)
      | None \<Rightarrow> None)"
| "descend_mut (List l) (Index i # p) f =
     (if unat i < length l then
        map_option (\<lambda>(x, c). (x, List (l[unat i := c]))) (descend_mut (l ! unat i) p f)
      else None)"
| "descend_mut v (s # p) f = None"

fun remove_last :: "segment \<Rightarrow> vnode \<Rightarrow> bool \<times> vnode" where
  "remove_last (Name n) (Node m) = (bt_get m n \<noteq> None, Node (bt_remove n m))"
| "remove_last (Index i) (List l) =
     (if unat i < length l then (True, List (list_remove l (unat i))) else (False, List l))"
| "remove_last s parent = (False, parent)"

definition remove_in :: "vnode \<Rightarrow> vpath \<Rightarrow> bool \<times> vnode" where
  "remove_in target segments =
     (if segments = [] then (True, value_default)
      else case descend_mut target (butlast segments) (remove_last (last segments)) of
             None \<Rightarrow> (False, target)
           | Some r \<Rightarrow> r)"

definition remove_value :: "vnode \<Rightarrow> value_arg \<Rightarrow> bool \<times> vnode" where
  "remove_value v path =
     (case into_value_path path of Ok p \<Rightarrow> remove_in v p | _ \<Rightarrow> (False, v))"

section \<open>Well-formed documents\<close>

text \<open>A document the program can hold and store: maps are sorted, keys are UTF-8, and every count
  fits the 32-bit fields of the storage format.\<close>

fun value_ok :: "chrono \<Rightarrow> vnode \<Rightarrow> bool" where
  "value_ok C (Leaf s) = scalar_ok C s"
| "value_ok C (List l) = (length l < 2 ^ 32 \<and> (\<forall>v \<in> set l. value_ok C v))"
| "value_ok C (Node m) =
     (bt_ok m \<and> length m < 2 ^ 32 \<and>
      (\<forall>e \<in> set m. utf8 (fst e) \<and> length (fst e) < 2 ^ 32 \<and> value_ok C (snd e)))"

section \<open>Laws of path-addressed access\<close>

lemma step_Leaf [simp]: "step (Leaf a) s = None"
  by (cases s) auto

lemma nth_opt_update:
  "nth_opt (l[i := x]) j = (if i = j \<and> j < length l then Some x else nth_opt l j)"
  by (auto simp: nth_opt_def)

lemma nth_opt_snoc:
  "nth_opt (l @ [x]) j = (if j = length l then Some x else nth_opt l j)"
  by (auto simp: nth_opt_def nth_append)

lemma subtree_append: "subtree v (p @ q) = Option.bind (subtree v p) (\<lambda>c. subtree c q)"
  by (induction p arbitrary: v) (auto split: bind_splits)

lemma build_fresh_get: "build_fresh p x = Some v \<Longrightarrow> subtree v p = Some x"
  by (induction p x arbitrary: v rule: build_fresh.induct) (auto split: if_splits simp: nth_opt_def)

text \<open>Two paths diverge when neither leads through the other.\<close>

fun diverge :: "vpath \<Rightarrow> vpath \<Rightarrow> bool" where
  "diverge (s # p) (t # q) = (s \<noteq> t \<or> diverge p q)"
| "diverge _ _ = False"

lemma build_fresh_frame: "build_fresh p x = Some v \<Longrightarrow> diverge p q \<Longrightarrow> subtree v q = None"
proof (induction p x arbitrary: v q rule: build_fresh.induct)
  case (2 n rest x)
  then show ?case by (cases "(Name n # rest, q)" rule: diverge.cases; cases "hd q") auto
next
  case (3 i rest x)
  then show ?case
    by (cases "(Index i # rest, q)" rule: diverge.cases; cases "hd q")
      (auto split: if_splits simp: nth_opt_def unat_eq_0)
qed simp

lemma set_in_get: "set_in v p x = (True, w) \<Longrightarrow> subtree w p = Some x"
  by (induction v p x arbitrary: w rule: set_in.induct)
    (auto simp: Let_def build_fresh_get nth_opt_def split: option.splits prod.splits if_splits)

lemma bt_insert_same: "bt_ok m \<Longrightarrow> bt_get m k = Some v \<Longrightarrow> bt_insert k v m = m"
  by (rule bt_ext) auto

text \<open>Every map of a document is sorted: the invariant of \<open>BTreeMap\<close> alone.\<close>

fun value_sorted :: "vnode \<Rightarrow> bool" where
  "value_sorted (Leaf s) = True"
| "value_sorted (List l) = (\<forall>v \<in> set l. value_sorted v)"
| "value_sorted (Node m) = (bt_ok m \<and> (\<forall>e \<in> set m. value_sorted (snd e)))"

lemma value_ok_sorted: "value_ok C v \<Longrightarrow> value_sorted v"
  by (induction v rule: value_sorted.induct) auto

lemma bt_get_snd: "bt_get m n = Some c \<Longrightarrow> c \<in> snd ` set m"
  by (force dest: bt_get_SomeD)

lemma value_sorted_get: "value_sorted (Node m) \<Longrightarrow> bt_get m n = Some c \<Longrightarrow> value_sorted c"
  by (auto dest: bt_get_snd)

lemma set_in_False: "value_sorted v \<Longrightarrow> set_in v p x = (False, w) \<Longrightarrow> w = v"
proof (induction v p x arbitrary: w rule: set_in.induct)
  case (2 m n rest x)
  show ?case
  proof (cases "bt_get m n")
    case (Some c)
    with "2.prems" obtain c' where "set_in c rest x = (False, c')" "w = Node (bt_insert n c' m)"
      by (auto split: prod.splits)
    moreover from this have "c' = c"
      using "2.IH" [OF Some] value_sorted_get [OF "2.prems"(1) Some] by simp
    ultimately show ?thesis using Some "2.prems"(1) by (simp add: bt_insert_same)
  qed (use "2.prems" in \<open>auto split: option.splits\<close>)
next
  case (3 l i rest x)
  then show ?case
    by (auto simp: Let_def split: option.splits prod.splits if_splits)
qed auto

lemma set_in_frame:
  "set_in v p x = (ok, w) \<Longrightarrow> diverge p q \<Longrightarrow> subtree w q = subtree v q"
proof (induction v p x arbitrary: w q rule: set_in.induct)
  case (2 m n rest x)
  then obtain t q' where q: "q = t # q'" by (cases q) auto
  show ?case
  proof (cases "t = Name n")
    case True
    with "2.prems" q have "diverge rest q'" by simp
    with True q "2.prems" "2.IH" show ?thesis
      by (auto split: option.splits prod.splits dest: build_fresh_frame)
  next
    case False
    with q "2.prems"(1) show ?thesis
      by (cases t) (auto split: option.splits prod.splits)
  qed
next
  case (3 l i rest x)
  then obtain t q' where q: "q = t # q'" by (cases q) auto
  show ?case
  proof (cases "t = Index i")
    case True
    with "3.prems" q have "diverge rest q'" by simp
    with True q "3.prems" "3.IH" [OF refl] show ?thesis
      by (auto simp: Let_def nth_opt_def split: option.splits prod.splits if_splits
          dest: build_fresh_frame)
  next
    case False
    with q "3.prems"(1) show ?thesis
      by (cases t) (auto simp: Let_def nth_opt_update nth_opt_snoc word_unat_eq_iff
          split: option.splits prod.splits if_splits)
  qed
qed auto

lemma bt_insert_mem: "e \<in> set (bt_insert k v m) \<Longrightarrow> e = (k, v) \<or> e \<in> set m"
  by (induction m) (auto split: if_splits)

lemma bt_remove_mem: "e \<in> set (bt_remove k m) \<Longrightarrow> e \<in> set m"
  by (auto simp: bt_remove_def)

lemma list_remove_mem: "x \<in> set (list_remove l i) \<Longrightarrow> x \<in> set l"
  by (auto simp: list_remove_def dest: in_set_takeD in_set_dropD)

lemma build_fresh_sorted: "value_sorted x \<Longrightarrow> build_fresh p x = Some v \<Longrightarrow> value_sorted v"
  by (induction p x arbitrary: v rule: build_fresh.induct)
    (auto split: if_splits simp: bt_ok_Cons)

lemma value_sorted_insert:
  "value_sorted (Node m) \<Longrightarrow> value_sorted c \<Longrightarrow> value_sorted (Node (bt_insert n c m))"
  by (auto dest!: bt_insert_mem)

lemma set_in_sorted:
  "value_sorted v \<Longrightarrow> value_sorted x \<Longrightarrow> set_in v p x = (ok, w) \<Longrightarrow> value_sorted w"
proof (induction v p x arbitrary: ok w rule: set_in.induct)
  case (2 m n rest x)
  show ?case
  proof (cases "bt_get m n")
    case (Some c)
    with "2.prems" obtain c' where "set_in c rest x = (ok, c')" "w = Node (bt_insert n c' m)"
      by (auto split: prod.splits)
    moreover from this have "value_sorted c'"
      using "2.IH" [OF Some] value_sorted_get [OF "2.prems"(1) Some] "2.prems"(2) by simp
    ultimately show ?thesis using "2.prems"(1) by (simp only: value_sorted_insert)
  next
    case None
    then show ?thesis
      using "2.prems" value_sorted_insert [OF "2.prems"(1)] build_fresh_sorted [OF "2.prems"(2)]
      by (auto simp del: value_sorted.simps split: option.splits)
  qed
next
  case (3 l i rest x)
  then show ?case
    by (auto simp: Let_def split: option.splits prod.splits if_splits
        dest: build_fresh_sorted dest!: set_update_subset_insert [THEN subsetD])
qed auto

section \<open>Laws of removal\<close>

lemma descend_mut_subtree:
  "descend_mut v p f = None \<longleftrightarrow> subtree v p = None"
  by (induction v p f rule: descend_mut.induct) (auto simp: nth_opt_def split: option.splits)

lemma descend_mut_result:
  "descend_mut v p f = Some (y, w) \<Longrightarrow>
   \<exists>c. subtree v p = Some c \<and> y = fst (f c) \<and> subtree w p = Some (snd (f c))"
  by (induction v p f arbitrary: w rule: descend_mut.induct)
    (auto simp: nth_opt_def split: option.splits if_splits)

lemma remove_last_step: "fst (remove_last s c) \<longleftrightarrow> step c s \<noteq> None"
  by (cases "(s, c)" rule: remove_last.cases) (auto simp: nth_opt_def)

lemma remove_in_present: "p \<noteq> [] \<Longrightarrow> fst (remove_in v p) \<longleftrightarrow> subtree v p \<noteq> None"
proof -
  assume "p \<noteq> []"
  then have p: "subtree v p = Option.bind (subtree v (butlast p)) (\<lambda>c. step c (last p))"
    using subtree_append [of v "butlast p" "[last p]"] by simp
  show ?thesis
  proof (cases "descend_mut v (butlast p) (remove_last (last p))")
    case None
    then show ?thesis
      using p \<open>p \<noteq> []\<close> descend_mut_subtree [of v "butlast p" "remove_last (last p)"]
      by (simp add: remove_in_def)
  next
    case (Some r)
    then show ?thesis
      using p \<open>p \<noteq> []\<close> descend_mut_result [of v "butlast p" _ "fst r" "snd r"]
      by (fastforce simp: remove_in_def remove_last_step)
  qed
qed

lemma remove_in_name: "remove_in v (p @ [Name n]) = (ok, w) \<Longrightarrow> subtree w (p @ [Name n]) = None"
proof (cases "descend_mut v p (remove_last (Name n))")
  case None
  moreover assume "remove_in v (p @ [Name n]) = (ok, w)"
  ultimately show ?thesis
    using descend_mut_subtree [of v p "remove_last (Name n)"] by (auto simp: remove_in_def subtree_append)
next
  case (Some r)
  moreover assume "remove_in v (p @ [Name n]) = (ok, w)"
  ultimately obtain c where "subtree w p = Some (snd (remove_last (Name n) c))"
    using descend_mut_result [of v p _ ok w] by (auto simp: remove_in_def)
  then show ?thesis by (cases c) (auto simp: subtree_append)
qed

lemma remove_in_index:
  assumes "remove_in v (p @ [Index i]) = (True, w)"
  shows "\<exists>l. subtree v p = Some (List l) \<and> unat i < length l \<and>
    subtree w p = Some (List (list_remove l (unat i)))"
proof (cases "descend_mut v p (remove_last (Index i))")
  case None
  with assms show ?thesis by (simp add: remove_in_def)
next
  case (Some r)
  with assms obtain c where "subtree v p = Some c" "fst (remove_last (Index i) c)"
    "subtree w p = Some (snd (remove_last (Index i) c))"
    using descend_mut_result [of v p _ True w] by (auto simp: remove_in_def)
  then show ?thesis by (cases c) (auto split: if_splits)
qed

lemma bt_get_extend: "bt_ok n \<Longrightarrow> bt_get (bt_extend m n) k =
  (case bt_get n k of Some v \<Rightarrow> Some v | None \<Rightarrow> bt_get m k)"
  unfolding bt_extend_def
proof (induction n arbitrary: m)
  case (Cons e n)
  then have "bt_get n (fst e) = None" by (auto simp: bt_ok_Cons bt_get_None)
  then show ?case using Cons by (auto simp: bt_ok_Cons bt_get_Cons split: option.split)
qed simp

section \<open>Properties\<close>

text \<open>\<open>set_value\<close> stores at the path and nowhere else, or does nothing. When it reports success,
  reading the path back gives the new subtree; when it reports failure, the document is unchanged;
  either way every path that diverges from the written one reads as before.\<close>

theorem set_value_laws:
  assumes "value_sorted v" and "set_value v path x = (ok, w)"
  shows "(ok \<longrightarrow> get_value w path = Some x) \<and> (\<not> ok \<longrightarrow> w = v) \<and>
    (\<forall>p q. into_value_path path = Ok p \<longrightarrow> diverge p q \<longrightarrow> subtree w q = subtree v q)"
  using assms set_in_get [of v _ x w] set_in_False [of v _ x w] set_in_frame [of v _ x _ w]
  by (auto simp: set_value_def get_value_def split: res.splits)

definition sample_doc :: vnode where
  "sample_doc = Node [(''name'', Leaf (Str ''Ann'')), (''tags'', List [Leaf (U8 1)])]"

theorem set_value_laws_witness:
  "get_value (snd (set_value sample_doc (VBuilt [Name ''tags'', Index 1]) (Leaf Null)))
     (VBuilt [Name ''tags'', Index 1]) = Some (Leaf Null) \<and>
   snd (set_value sample_doc (VBuilt [Name ''name'', Name ''x'']) (Leaf Null)) = sample_doc \<and>
   subtree (snd (set_value sample_doc (VBuilt [Name ''tags'', Index 1]) (Leaf Null))) [Name ''name'']
     = subtree sample_doc [Name ''name'']"
proof -
  let ?p = "VBuilt [Name ''tags'', Index 1]" and ?q = "VBuilt [Name ''name'', Name ''x'']"
  have ok: "value_sorted sample_doc" by code_simp
  have set: "set_value sample_doc ?p (Leaf Null) = (True, snd (set_value sample_doc ?p (Leaf Null)))"
    by code_simp
  have refused: "set_value sample_doc ?q (Leaf Null) = (False, snd (set_value sample_doc ?q (Leaf Null)))"
    by code_simp
  show ?thesis
    using set_value_laws [OF ok set] set_value_laws [OF ok refused]
    by (auto simp del: subtree.simps)
qed

text \<open>Removal. Removing a non-root path reports success exactly when something was there; a
  removed name is gone afterwards, and removing a list index closes the gap it leaves.\<close>

theorem remove_value_laws:
  assumes "into_value_path path = Ok (p @ [s])" and "remove_value v path = (ok, w)"
  shows "(ok \<longleftrightarrow> get_value v path \<noteq> None) \<and>
    (\<forall>n. s = Name n \<longrightarrow> get_value w path = None) \<and>
    (\<forall>i. s = Index i \<longrightarrow> ok \<longrightarrow> (\<exists>l. subtree v p = Some (List l) \<and> unat i < length l \<and>
       subtree w p = Some (List (take (unat i) l @ drop (Suc (unat i)) l))))"
  using assms remove_in_present [of "p @ [s]" v] remove_in_name [of v p _ ok w]
    remove_in_index [of v p _ w]
  by (auto simp: remove_value_def get_value_def list_remove_def)

theorem remove_value_laws_witness:
  "fst (remove_value sample_doc (VBuilt [Name ''tags'', Index 0])) \<and>
   get_value (snd (remove_value sample_doc (VBuilt [Name ''name'']))) (VBuilt [Name ''name'']) = None \<and>
   (\<exists>l. subtree sample_doc [Name ''tags''] = Some (List l) \<and> unat (0 :: u64) < length l \<and>
      subtree (snd (remove_value sample_doc (VBuilt [Name ''tags'', Index 0]))) [Name ''tags'']
        = Some (List (take (unat (0 :: u64)) l @ drop (Suc (unat (0 :: u64))) l)))"
proof -
  let ?p = "VBuilt [Name ''tags'', Index 0]" and ?q = "VBuilt [Name ''name'']"
  have p: "remove_value sample_doc ?p = (True, snd (remove_value sample_doc ?p))" by code_simp
  have q: "remove_value sample_doc ?q = (True, snd (remove_value sample_doc ?q))" by code_simp
  have "fst (remove_value sample_doc ?p)" by code_simp
  then show ?thesis
    using remove_value_laws [OF _ p, of "[Name ''tags'']" "Index 0"]
      remove_value_laws [OF _ q, of "[]" "Name ''name''"] by simp
qed

end
