(* ===== verification/Name_Table.thy ===== *)
theory Name_Table
  imports Codec
begin

text \<open>
  The name-sorted table shared by the object nodes of a value blob (\<open>codec/archived.rs\<close>) and by
  directory blobs (\<open>codec/dir.rs\<close>): the binary-search loop the two \<open>get\<close> functions contain, with
  the two readers of a table entry as its arguments, and the locale \<open>name_table\<close>, which states what a
  stored table promises. The search lemma is proved once, in the locale; the two formats interpret it.
\<close>

text \<open>\<open>entry_name_bytes\<close>, the same code in both formats.\<close>

definition entry_name_bytes :: "bytes \<Rightarrow> nat \<Rightarrow> bytes res" where
  "entry_name_bytes blob entry =
     andThen (read_u32 blob entry) (\<lambda>name_off.
     andThen (read_u32 blob (entry + 4)) (\<lambda>name_len.
     slice blob (unat name_off) (unat name_len)))"

text \<open>\<open>while lo < hi\<close> over the entry table: \<open>name_at i\<close> reads the name bytes of entry \<open>i\<close>,
  \<open>item_at i\<close> what the entry holds.\<close>

function name_search ::
  "(nat \<Rightarrow> bytes res) \<Rightarrow> (nat \<Rightarrow> 'a res) \<Rightarrow> bytes \<Rightarrow> nat \<Rightarrow> nat \<Rightarrow> 'a option res" where
  "name_search name_at item_at needle lo hi =
     (if lo < hi then
        (let mid = lo + (hi - lo) div 2
         in andThen (name_at mid) (\<lambda>entry_name.
              if entry_name < needle then name_search name_at item_at needle (mid + 1) hi
              else if needle < entry_name then name_search name_at item_at needle lo mid
              else andThen (item_at mid) (\<lambda>x. Ok (Some x))))
      else Ok None)"
  by pat_completeness auto
termination
  by (relation "measure (\<lambda>(_, _, _, lo, hi). hi - lo)") auto

declare name_search.simps [simp del]

lemma u32_small: "n < 2 ^ 32 \<Longrightarrow> unat (word_of_nat n :: u32) = n"
  by (simp add: unat_of_nat take_bit_nat_eq_self)

lemma u32_usize: "(n :: nat) < 2 ^ 32 \<Longrightarrow> n < usize_bound"
  by (simp add: usize_bound_def)

lemma as_bytes_sorted: "bt_ok m \<Longrightarrow> sorted_wrt (<) (map (as_bytes \<circ> fst) m)"
  by (simp add: bt_ok_def sorted_wrt_map as_bytes_less)

lemma map_of_as_bytes: "map_of (map (\<lambda>(n, k). (as_bytes n, k)) m) (as_bytes name) = map_of m name"
  by (induction m) auto

text \<open>
  A family of stored tables \<open>t\<close>: \<open>entries t\<close> is the association list a well-formed table stands
  for, in strictly increasing order of the name bytes, and the two readers return its entries.
\<close>

locale name_table =
  fixes ok :: "'t \<Rightarrow> bool" and entries :: "'t \<Rightarrow> (bytes \<times> 'a) list"
    and name_at :: "'t \<Rightarrow> nat \<Rightarrow> bytes res" and item_at :: "'t \<Rightarrow> nat \<Rightarrow> 'a res"
  assumes sorted: "ok t \<Longrightarrow> sorted_wrt (<) (map fst (entries t))"
    and name: "ok t \<Longrightarrow> i < length (entries t) \<Longrightarrow> name_at t i = Ok (fst (entries t ! i))"
    and item: "ok t \<Longrightarrow> i < length (entries t) \<Longrightarrow> item_at t i = Ok (snd (entries t ! i))"
begin

lemma name_less: "ok t \<Longrightarrow> i < j \<Longrightarrow> j < length (entries t) \<Longrightarrow>
  fst (entries t ! i) < fst (entries t ! j)"
  using sorted_wrt_nth_less [OF sorted, of t i j] by simp

text \<open>What lies outside \<open>lo..hi\<close> is not the wanted name, so the search inside decides.\<close>

lemma search_range:
  assumes "ok t" "hi \<le> length (entries t)"
    and "\<And>i. i < lo \<Longrightarrow> i < length (entries t) \<Longrightarrow> fst (entries t ! i) < needle"
    and "\<And>i. hi \<le> i \<Longrightarrow> i < length (entries t) \<Longrightarrow> needle < fst (entries t ! i)"
  shows "name_search (name_at t) (item_at t) needle lo hi = Ok (map_of (entries t) needle)"
  using assms(2-)
proof (induction "name_at t" "item_at t" needle lo hi rule: name_search.induct)
  case (1 needle lo hi)
  show ?case
  proof (cases "lo < hi")
    case False
    have "fst (entries t ! i) \<noteq> needle" if "i < length (entries t)" for i
      using "1.prems"(2,3) [of i] that False by (cases "i < lo") auto
    then have "needle \<notin> fst ` set (entries t)" by (force simp: in_set_conv_nth)
    then show ?thesis using False
      by (subst name_search.simps) (simp add: map_of_eq_None_iff [THEN iffD2])
  next
    case True
    define mid where "mid = lo + (hi - lo) div 2"
    have mid: "lo \<le> mid" "mid < hi" using True by (auto simp: mid_def)
    then have in_range: "mid < length (entries t)" using "1.prems"(1) by simp
    note at = name [OF assms(1) in_range] item [OF assms(1) in_range]
    consider "fst (entries t ! mid) < needle" | "needle < fst (entries t ! mid)"
      | "fst (entries t ! mid) = needle" by fastforce
    then show ?thesis
    proof cases
      case 1
      have "fst (entries t ! i) < needle" if "i < mid + 1" for i
        using name_less [OF assms(1), of i mid] in_range 1 that by (cases "i = mid") auto
      then have "name_search (name_at t) (item_at t) needle (mid + 1) hi
          = Ok (map_of (entries t) needle)"
        using "1.hyps"(1) [OF True mid_def at(1)] 1 "1.prems" by simp
      with 1 True show ?thesis
        by (subst name_search.simps) (simp add: at Let_def flip: mid_def)
    next
      case 2
      have "needle < fst (entries t ! i)" if "mid \<le> i" "i < length (entries t)" for i
        using name_less [OF assms(1), of mid i] 2 that by (cases "i = mid") auto
      then have "name_search (name_at t) (item_at t) needle lo mid = Ok (map_of (entries t) needle)"
        using "1.hyps"(2) [OF True mid_def at(1)] 2 "1.prems" in_range by (simp add: not_less_iff_gr_or_eq)
      with 2 True show ?thesis
        by (subst name_search.simps) (auto simp: at Let_def dest: less_asym simp flip: mid_def)
    next
      case 3
      have "distinct (map fst (entries t))"
        using sorted [OF assms(1)] by (simp add: strict_sorted_iff)
      then have "map_of (entries t) needle = Some (snd (entries t ! mid))"
        using in_range 3 by (metis map_of_eq_Some_iff nth_mem prod.collapse)
      with 3 True show ?thesis
        by (subst name_search.simps) (simp add: at Let_def flip: mid_def)
    qed
  qed
qed

lemma search: "ok t \<Longrightarrow>
  name_search (name_at t) (item_at t) needle 0 (length (entries t)) = Ok (map_of (entries t) needle)"
  by (rule search_range) auto

end

end
