(* ===== verification/Archived.thy ===== *)
theory Archived
  imports Values Name_Table
begin

text \<open>
  The value blob (\<open>codec/archived.rs\<close>): a version byte, the offset of the root, and the nodes of the
  document, children first, each node naming its children by absolute offset. The writer
  (\<open>encode\<close>, \<open>push_value\<close>), the zero-copy reader (\<open>ArchivedValue\<close>, \<open>ArchivedNode\<close>) and the
  in-place overwrite of a scalar (\<open>patch_scalar\<close> of \<open>txn/context/table.rs\<close>, on the payload).

  An \<open>ArchivedNode\<close> is its blob and its offset. \<open>to_value\<close> recurses along offsets read from the
  blob, which a damaged blob can make cyclic: it takes fuel and returns \<open>Diverge\<close> without. Decoding
  gives it one more than the length of the blob; a chain of distinct offsets is no longer than that.
\<close>

section \<open>Writing\<close>

abbreviation (input) FORMAT_VERSION :: u8 where "FORMAT_VERSION \<equiv> 1"
abbreviation (input) HEADER_LEN :: nat where "HEADER_LEN \<equiv> 5"
abbreviation (input) LEAF :: u8 where "LEAF \<equiv> 0"
abbreviation (input) LIST :: u8 where "LIST \<equiv> 1"
abbreviation (input) NODE :: u8 where "NODE \<equiv> 2"

text \<open>\<open>buf.len() as u32\<close>.\<close>

definition offset :: "bytes \<Rightarrow> u32" where
  "offset buf = word_of_nat (length buf)"

definition begin_blob :: bytes where
  "begin_blob = [FORMAT_VERSION] @ be_bytes (0 :: u32)"

definition patch_root :: "bytes \<Rightarrow> u32 \<Rightarrow> bytes" where
  "patch_root buf root = take 1 buf @ be_bytes root @ drop HEADER_LEN buf"

definition push_leaf :: "bytes \<Rightarrow> scalar \<Rightarrow> bytes \<times> u32" where
  "push_leaf buf scalar = (scalar_encode (buf @ [LEAF]) scalar, offset buf)"

definition push_list :: "bytes \<Rightarrow> u32 list \<Rightarrow> bytes \<times> u32" where
  "push_list buf children =
     (foldl put_u32 (put_u32 (buf @ [LIST]) (word_of_nat (length children))) children, offset buf)"

fun push_names :: "(string \<times> u32) list \<Rightarrow> bytes \<Rightarrow> bytes \<times> (u32 \<times> u32 \<times> u32) list" where
  "push_names [] buf = (buf, [])"
| "push_names ((name, child_off) # entries) buf =
     (let name_off = offset buf;
          (buf, records) = push_names entries (buf @ as_bytes name)
      in (buf, (name_off, word_of_nat (length name), child_off) # records))"

definition put_record :: "bytes \<Rightarrow> u32 \<times> u32 \<times> u32 \<Rightarrow> bytes" where
  "put_record buf = (\<lambda>(name_off, name_len, child_off).
     put_u32 (put_u32 (put_u32 buf name_off) name_len) child_off)"

definition push_object :: "bytes \<Rightarrow> (string \<times> u32) list \<Rightarrow> bytes \<times> u32" where
  "push_object buf entries =
     (let (buf, records) = push_names entries buf;
          off = offset buf;
          buf = put_u32 (buf @ [NODE]) (word_of_nat (length records))
      in (foldl put_record buf records, off))"

function push_value :: "vnode \<Rightarrow> bytes \<Rightarrow> bytes \<times> u32"
  and push_values :: "vnode list \<Rightarrow> bytes \<Rightarrow> bytes \<times> u32 list"
  and push_entries :: "(string, vnode) btree \<Rightarrow> bytes \<Rightarrow> bytes \<times> (string \<times> u32) list" where
  "push_value (Leaf scalar) buf = push_leaf buf scalar"
| "push_value (List items) buf =
     (let (buf, child_offsets) = push_values items buf in push_list buf child_offsets)"
| "push_value (Node m) buf =
     (let (buf, entries) = push_entries m buf in push_object buf entries)"
| "push_values [] buf = (buf, [])"
| "push_values (item # items) buf =
     (let (buf, off) = push_value item buf; (buf, offs) = push_values items buf in (buf, off # offs))"
| "push_entries [] buf = (buf, [])"
| "push_entries ((name, child) # m) buf =
     (let (buf, child_off) = push_value child buf;
          (buf, entries) = push_entries m buf
      in (buf, (name, child_off) # entries))"
  by pat_completeness auto
termination
  by (relation "measure (\<lambda>x. case x of Inl (v, _) \<Rightarrow> size v
    | Inr (Inl (vs, _)) \<Rightarrow> size_list size vs
    | Inr (Inr (m, _)) \<Rightarrow> size_list (size_prod (\<lambda>_. 0) size) m)") auto

definition blob_encode :: "vnode \<Rightarrow> bytes" where
  "blob_encode v = (let (buf, root) = push_value v begin_blob in patch_root buf root)"

section \<open>Reading\<close>

text \<open>\<open>blob.get(off..)\<close>.\<close>

definition rest_from :: "bytes \<Rightarrow> nat \<Rightarrow> bytes res" where
  "rest_from blob off =
     (if off \<le> length blob then Ok (drop off blob) else Err (Corrupt ''value blob is truncated''))"

definition archived_new :: "bytes \<Rightarrow> (bytes \<times> u32) res" where
  "archived_new blob =
     (case blob of
        [] \<Rightarrow> Err (Corrupt ''empty value blob'')
      | version # _ \<Rightarrow>
          if version \<noteq> FORMAT_VERSION then
            Err (SchemaMismatch (''value blob format version '' @ show_nat (unat version)
              @ '', expected '' @ show_nat (unat FORMAT_VERSION)))
          else andThen (read_u32 blob 1) (\<lambda>root. Ok (blob, root)))"

definition node_kind_of :: "bytes \<Rightarrow> u32 \<Rightarrow> node_kind res" where
  "node_kind_of blob off =
     andThen (read_u8 blob (unat off)) (\<lambda>t.
       if t = LEAF then Ok KLeaf
       else if t = LIST then Ok KList
       else if t = NODE then Ok KObject
       else Err (Corrupt (''unknown value vnode tag '' @ show_nat (unat t))))"

definition node_scalar :: "chrono \<Rightarrow> bytes \<Rightarrow> u32 \<Rightarrow> scalar res" where
  "node_scalar C blob off =
     andThen (read_u8 blob (unat off)) (\<lambda>t.
       if t \<noteq> LEAF then Err (Corrupt ''a scalar was read from a non-leaf vnode'')
       else andThen (rest_from blob (unat off + 1)) (\<lambda>body.
            andThen (scalar_decode C (reader_new body)) (\<lambda>(s, _). Ok s)))"

definition node_scalar_if_leaf :: "chrono \<Rightarrow> bytes \<Rightarrow> u32 \<Rightarrow> scalar option res" where
  "node_scalar_if_leaf C blob off =
     andThen (read_u8 blob (unat off)) (\<lambda>t.
       if t \<noteq> LEAF then Ok None
       else andThen (rest_from blob (unat off + 1)) (\<lambda>body.
            andThen (scalar_decode C (reader_new body)) (\<lambda>(s, _). Ok (Some s))))"

definition node_leaf_scalar_span :: "chrono \<Rightarrow> bytes \<Rightarrow> u32 \<Rightarrow> (nat \<times> nat) option res" where
  "node_leaf_scalar_span C blob off =
     andThen (read_u8 blob (unat off)) (\<lambda>t.
       if t \<noteq> LEAF then Ok None
       else (let scalar_off = unat off + 1 in
             andThen (rest_from blob scalar_off) (\<lambda>body.
             andThen (scalar_decode C (reader_new body)) (\<lambda>(_, r).
             Ok (Some (scalar_off, reader_position r))))))"

definition node_len :: "bytes \<Rightarrow> u32 \<Rightarrow> nat res" where
  "node_len blob off =
     andThen (read_u8 blob (unat off)) (\<lambda>t.
       if t \<noteq> LIST then Err (Corrupt ''the length of a non-list vnode was requested'')
       else andThen (read_u32 blob (unat off + 1)) (\<lambda>n. Ok (unat n)))"

definition node_at :: "bytes \<Rightarrow> u32 \<Rightarrow> nat \<Rightarrow> u32 option res" where
  "node_at blob off index =
     andThen (read_u8 blob (unat off)) (\<lambda>t.
       if t \<noteq> LIST then Ok None
       else andThen (read_u32 blob (unat off + 1)) (\<lambda>count.
         if index \<ge> unat count then Ok None
         else andThen (read_u32 blob (unat off + 5 + index * 4)) (\<lambda>child. Ok (Some child))))"

definition node_get :: "bytes \<Rightarrow> u32 \<Rightarrow> string \<Rightarrow> u32 option res" where
  "node_get blob off name =
     andThen (read_u8 blob (unat off)) (\<lambda>t.
       if t \<noteq> NODE then Ok None
       else andThen (read_u32 blob (unat off + 1)) (\<lambda>count.
         (let table = unat off + 5
          in name_search (\<lambda>mid. entry_name_bytes blob (table + mid * 12))
               (\<lambda>mid. read_u32 blob (table + mid * 12 + 8)) (as_bytes name) 0 (unat count))))"

definition entry_name :: "bytes \<Rightarrow> nat \<Rightarrow> string res" where
  "entry_name blob entry =
     andThen (entry_name_bytes blob entry) (\<lambda>bs.
     ok_or (from_utf8 bs) (Corrupt ''invalid utf-8 in a field name''))"

definition node_entries :: "bytes \<Rightarrow> u32 \<Rightarrow> (string \<times> u32) list res" where
  "node_entries blob off =
     andThen (read_u8 blob (unat off)) (\<lambda>t.
       if t \<noteq> NODE then Err (Corrupt ''the entries of a non-object vnode were requested'')
       else andThen (read_u32 blob (unat off + 1)) (\<lambda>count.
         (let table = unat off + 5
          in res_map (\<lambda>i. andThen (entry_name blob (table + i * 12)) (\<lambda>name.
                          andThen (read_u32 blob (table + i * 12 + 8)) (\<lambda>child.
                          Ok (name, child))))
               [0..<unat count])))"

definition node_object_keys :: "bytes \<Rightarrow> u32 \<Rightarrow> string list res" where
  "node_object_keys blob off = andThen (node_entries blob off) (\<lambda>es. Ok (map fst es))"

fun node_navigate :: "bytes \<Rightarrow> u32 \<Rightarrow> vpath \<Rightarrow> u32 option res" where
  "node_navigate blob off [] = Ok (Some off)"
| "node_navigate blob off (segment # rest) =
     andThen (case segment of
                Name name \<Rightarrow> node_get blob off name
              | Index index \<Rightarrow> node_at blob off (unat index))
       (\<lambda>next. case next of
                Some child \<Rightarrow> node_navigate blob child rest
              | None \<Rightarrow> Ok None)"

fun node_to_value :: "chrono \<Rightarrow> nat \<Rightarrow> bytes \<Rightarrow> u32 \<Rightarrow> vnode res" where
  "node_to_value C 0 blob off = Diverge"
| "node_to_value C (Suc fuel) blob off =
     andThen (node_kind_of blob off) (\<lambda>kind.
       case kind of
         KLeaf \<Rightarrow> andThen (node_scalar C blob off) (\<lambda>s. Ok (Leaf s))
       | KList \<Rightarrow>
           andThen (node_len blob off) (\<lambda>count.
           andThen (res_map (\<lambda>i.
               andThen (node_at blob off i) (\<lambda>child.
               andThen (ok_or child (Corrupt ''list element missing'')) (\<lambda>child.
               node_to_value C fuel blob child))) [0..<count])
             (\<lambda>items. Ok (List items)))
       | KObject \<Rightarrow>
           andThen (node_entries blob off) (\<lambda>entries.
           andThen (res_map (\<lambda>(name, child).
               andThen (node_to_value C fuel blob child) (\<lambda>v. Ok (name, v))) entries)
             (\<lambda>es. Ok (Node (foldl (\<lambda>m e. bt_insert (fst e) (snd e) m) [] es)))))"

definition blob_decode :: "chrono \<Rightarrow> bytes \<Rightarrow> vnode res" where
  "blob_decode C blob =
     andThen (archived_new blob) (\<lambda>(blob, root). node_to_value C (Suc (length blob)) blob root)"

definition leaf_scalar_span :: "chrono \<Rightarrow> bytes \<Rightarrow> u32 \<Rightarrow> vpath \<Rightarrow> (nat \<times> nat) option res" where
  "leaf_scalar_span C blob root at =
     andThen (node_navigate blob root at) (\<lambda>n.
       case n of Some node \<Rightarrow> node_leaf_scalar_span C blob node | None \<Rightarrow> Ok None)"

end
