(* ===== verification/Archived_Layout.thy ===== *)
theory Archived_Layout
  imports Archived
begin

text \<open>
  What the value codec guarantees. \<open>body n v\<close> is the run of bytes \<open>push_value\<close> appends for \<open>v\<close> when
  the buffer is \<open>n\<close> bytes long and \<open>head n v\<close> the offset it returns; from the layout follow the
  round trip of \<open>encode\<close> / \<open>decode\<close>, that navigating a blob is navigating the document, and that
  overwriting a scalar in place gives the very bytes a re-encoding of the updated document would.
\<close>

section \<open>The layout\<close>

abbreviation (input) be32 :: "nat \<Rightarrow> bytes" where "be32 n \<equiv> be_bytes (word_of_nat n :: u32)"

definition record_bytes :: "nat \<times> nat \<times> nat \<Rightarrow> bytes" where
  "record_bytes = (\<lambda>(no, nl, co). be32 no @ be32 nl @ be32 co)"

definition names_of :: "(string, 'a) btree \<Rightarrow> bytes list" where
  "names_of m = map (as_bytes \<circ> fst) m"

fun name_starts :: "nat \<Rightarrow> (string, 'a) btree \<Rightarrow> nat list" where
  "name_starts n [] = []"
| "name_starts n (e # m) = n # name_starts (n + length (fst e)) m"

lemma size_snd_le [termination_simp]: "size_list (size \<circ> snd) m \<le> size_list (size_prod (\<lambda>x. 0) size) m"
  by (induction m) auto

function body :: "nat \<Rightarrow> vnode \<Rightarrow> bytes" and head :: "nat \<Rightarrow> vnode \<Rightarrow> nat"
  and bodies :: "nat \<Rightarrow> vnode list \<Rightarrow> bytes" and heads :: "nat \<Rightarrow> vnode list \<Rightarrow> nat list" where
  "body n (Leaf s) = LEAF # scalar_encode [] s"
| "body n (List l) = bodies n l @ LIST # be32 (length l) @ concat (map be32 (heads n l))"
| "body n (Node m) =
     bodies n (map snd m) @ concat (names_of m) @ NODE # be32 (length m) @
     concat (map record_bytes
       (zip (name_starts (n + length (bodies n (map snd m))) m)
         (zip (map (length \<circ> fst) m) (heads n (map snd m)))))"
| "head n (Leaf s) = n"
| "head n (List l) = n + length (bodies n l)"
| "head n (Node m) = n + length (bodies n (map snd m)) + length (concat (names_of m))"
| "bodies n [] = []"
| "bodies n (v # vs) = body n v @ bodies (n + length (body n v)) vs"
| "heads n [] = []"
| "heads n (v # vs) = head n v # heads (n + length (body n v)) vs"
  by pat_completeness auto
termination
proof (relation "measure (\<lambda>x. case x of Inl (Inl (_, v)) \<Rightarrow> 2 * size v
    | Inl (Inr (_, v)) \<Rightarrow> 2 * size v
    | Inr (Inl (_, vs)) \<Rightarrow> 2 * size_list size vs + 1 | Inr (Inr (_, vs)) \<Rightarrow> 2 * size_list size vs + 1)",
    goal_cases)
qed (auto simp: less_Suc_eq_le intro!: size_snd_le)

lemma length_heads [simp]: "length (heads n vs) = length vs"
  by (induction vs arbitrary: n) auto

lemma length_name_starts [simp]: "length (name_starts n m) = length m"
  by (induction m arbitrary: n) auto

lemma foldl_put_u32: "foldl put_u32 buf ws = buf @ concat (map be_bytes ws)"
  by (induction ws arbitrary: buf) (auto simp: put_u32_def)

lemma push_names_eq:
  "push_names es buf = (buf @ concat (names_of es),
     map (\<lambda>(no, nl, co). (word_of_nat no, word_of_nat nl, co))
       (zip (name_starts (length buf) es) (zip (map (length \<circ> fst) es) (map snd es))))"
  by (induction es buf rule: push_names.induct) (auto simp: offset_def names_of_def split_beta Let_def)

lemma foldl_put_record: "foldl put_record buf rs = buf @ concat (map (put_record []) rs)"
  by (induction rs arbitrary: buf) (auto simp: put_record_def put_u32_def split_beta)

lemma names_of_cong: "map fst es = map fst m \<Longrightarrow> names_of es = names_of m"
  unfolding names_of_def by (metis map_map)

lemma name_starts_cong: "map fst es = map fst m \<Longrightarrow> name_starts n es = name_starts n m"
proof (induction es arbitrary: m n)
  case (Cons e es)
  then show ?case by (cases m) auto
qed simp

text \<open>\<open>push_value\<close> appends the layout.\<close>

lemma push_object_eq:
  assumes "map fst es = map fst m" "map snd es = map word_of_nat hs"
  shows "push_object buf es =
    (buf @ concat (names_of m) @ NODE # be32 (length m) @ concat (map record_bytes
       (zip (name_starts (length buf) m) (zip (map (length \<circ> fst) m) hs))),
     word_of_nat (length buf + length (concat (names_of m))))"
proof -
  have len: "length es = length m" "length hs = length m" using assms by (metis length_map)+
  have lens: "map (length \<circ> fst) es = map (length \<circ> fst) m" using assms(1) by (metis map_map)
  have recs: "map (put_record []) (map (\<lambda>(no, nl, co). (word_of_nat no, word_of_nat nl, co))
      (zip xs (zip ys (map word_of_nat zs)))) = map record_bytes (zip xs (zip ys zs))"
    for xs ys zs :: "nat list"
    by (auto simp: zip_map2 put_record_def record_bytes_def put_u32_def)
  show ?thesis
    unfolding push_object_def push_names_eq names_of_cong [OF assms(1)]
      name_starts_cong [OF assms(1)] lens assms(2) Let_def prod.case foldl_put_record recs
    by (simp add: offset_def put_u32_def len)
qed

lemma push_value_eq:
  "push_value v buf = (buf @ body (length buf) v, word_of_nat (head (length buf) v))"
  "push_values vs buf = (buf @ bodies (length buf) vs, map word_of_nat (heads (length buf) vs))"
  "push_entries m buf = (buf @ bodies (length buf) (map snd m),
     zip (map fst m) (map word_of_nat (heads (length buf) (map snd m))))"
proof (induction v buf and vs buf and m buf rule: push_value_push_values_push_entries.induct)
  case (1 scalar buf)
  then show ?case
    by (simp add: push_leaf_def offset_def scalar_encode_append [of "buf @ [LEAF]"])
next
  case (2 items buf)
  then show ?case
    by (simp add: push_list_def foldl_put_u32 put_u32_def offset_def comp_def)
next
  case (3 m buf)
  then show ?case
    by (simp add: push_object_eq [where m = m and hs = "heads (length buf) (map snd m)"])
qed (simp_all add: Let_def)

lemma head_range: "n \<le> head n v \<and> head n v < n + length (body n v)"
  by (cases v) auto

lemma body_pos: "0 < length (body n v)"
  by (cases v) auto

text \<open>Where each of a run of children starts.\<close>

fun starts :: "nat \<Rightarrow> vnode list \<Rightarrow> nat list" where
  "starts n [] = []"
| "starts n (v # vs) = n # starts (n + length (body n v)) vs"

lemma length_starts [simp]: "length (starts n vs) = length vs"
  by (induction vs arbitrary: n) auto

lemma heads_nth: "i < length vs \<Longrightarrow> heads n vs ! i = head (starts n vs ! i) (vs ! i)"
  by (induction vs arbitrary: n i) (auto simp: nth_Cons split: nat.split)

lemma bodies_holds:
  "holds blob n (bodies n vs) \<Longrightarrow> i < length vs \<Longrightarrow>
   holds blob (starts n vs ! i) (body (starts n vs ! i) (vs ! i))"
  by (induction vs arbitrary: n i) (auto simp: nth_Cons holds_append split: nat.split)

lemma bodies_child_shorter:
  "i < length vs \<Longrightarrow> length (body (starts n vs ! i) (vs ! i)) \<le> length (bodies n vs)"
  by (induction vs arbitrary: n i) (auto simp: nth_Cons trans_le_add2 split: nat.split)

text \<open>A stored document: its layout stands in a blob of at most 4 GiB.\<close>

definition stored :: "bytes \<Rightarrow> nat \<Rightarrow> vnode \<Rightarrow> bool" where
  "stored blob n v \<longleftrightarrow> holds blob n (body n v) \<and> length blob < 2 ^ 32"

lemma stored_usize: "stored blob n v \<Longrightarrow> length blob < usize_bound"
  by (auto simp: stored_def u32_usize)

lemma stored_off: "stored blob n v \<Longrightarrow> unat (word_of_nat (head n v) :: u32) = head n v"
  using head_range [of n v] by (intro u32_small) (auto simp: stored_def holds_def)

lemma stored_child:
  assumes "stored blob n v" "v = List vs \<or> (\<exists>m. v = Node m \<and> vs = map snd m)" "i < length vs"
  shows "stored blob (starts n vs ! i) (vs ! i)"
    and "length (body (starts n vs ! i) (vs ! i)) < length (body n v)"
  using assms bodies_holds [of blob n vs i] bodies_child_shorter [of i vs n]
  by (auto simp: stored_def holds_append)

text \<open>The tag and the count after it.\<close>

lemma stored_tag:
  "stored blob n v \<Longrightarrow> read_u8 blob (head n v) =
     Ok (case v of Leaf _ \<Rightarrow> LEAF | List _ \<Rightarrow> LIST | Node _ \<Rightarrow> NODE)"
  using stored_usize [of blob n v]
  by (cases v) (auto simp: stored_def holds_append add.assoc intro: holds_read_u8)

lemma stored_count:
  "stored blob n v \<Longrightarrow> value_node_kind v \<noteq> KLeaf \<Longrightarrow> read_u32 blob (head n v + 1)
     = Ok (word_of_nat (value_len v))"
  using stored_usize [of blob n v]
  by (cases v) (auto simp: stored_def holds_append holds_Cons [of _ _ _ "_ @ _"] add.assoc
      intro: holds_read_u32 [where bs = "[]", simplified])

lemma length_concat_be32 [simp]: "length (concat (map (\<lambda>x. be32 (f x)) xs)) = 4 * length xs"
  by (induction xs) auto

lemma stored_list_slot:
  assumes "stored blob n (List l)" "i < length l"
  shows "read_u32 blob (head n (List l) + 5 + i * 4) = Ok (word_of_nat (heads n l ! i))"
proof -
  let ?pre = "LIST # be32 (length l)"
  have "holds (?pre @ concat (map be32 (heads n l)) @ []) (length ?pre + 4 * i) (map be32 (heads n l) ! i)"
    using assms(2) by (intro holds_chunk) auto
  then have "holds (?pre @ concat (map be32 (heads n l))) (5 + 4 * i) (be32 (heads n l ! i))"
    using assms(2) by simp
  moreover have "holds blob (head n (List l)) (?pre @ concat (map be32 (heads n l)))"
    using assms(1) by (simp add: stored_def holds_append)
  ultimately have "holds blob (head n (List l) + (5 + 4 * i)) (be32 (heads n l ! i))"
    by (rule holds_trans)
  then show ?thesis
    using holds_read_u32 [where bs = "[]", simplified] stored_usize [OF assms(1)]
    by (simp add: add.assoc mult.commute)
qed

text \<open>The entry table of an object: one twelve-byte record per field, the names before it.\<close>

definition records_of :: "nat \<Rightarrow> (string, vnode) btree \<Rightarrow> (nat \<times> nat \<times> nat) list" where
  "records_of n m = zip (name_starts (n + length (bodies n (map snd m))) m)
     (zip (map (length \<circ> fst) m) (heads n (map snd m)))"

lemma length_records_of [simp]: "length (records_of n m) = length m"
  by (simp add: records_of_def)

lemma records_of_nth: "i < length m \<Longrightarrow> records_of n m ! i =
  (name_starts (n + length (bodies n (map snd m))) m ! i, length (fst (m ! i)), heads n (map snd m) ! i)"
  by (simp add: records_of_def)

lemma record_bytes_length: "x \<in> set (map record_bytes rs) \<Longrightarrow> length x = 12"
  by (auto simp: record_bytes_def)

lemma name_starts_nth: "i < length m \<Longrightarrow> name_starts n m ! i = n + length (concat (take i (names_of m)))"
  by (induction m arbitrary: n i) (auto simp: names_of_def nth_Cons split: nat.split)

lemma stored_record:
  assumes "stored blob n (Node m)" "i < length m"
  shows "holds blob (head n (Node m) + 5 + i * 12) (record_bytes (records_of n m ! i))"
proof -
  let ?pre = "NODE # be32 (length m)" and ?rs = "map record_bytes (records_of n m)"
  have "holds (?pre @ concat ?rs @ []) (length ?pre + 12 * i) (?rs ! i)"
    using assms(2) record_bytes_length by (intro holds_chunk) auto
  then have "holds (?pre @ concat ?rs) (5 + 12 * i) (record_bytes (records_of n m ! i))"
    using assms(2) by simp
  moreover have "holds blob (head n (Node m)) (?pre @ concat ?rs)"
    using assms(1) by (simp add: stored_def holds_append records_of_def add.assoc)
  ultimately have "holds blob (head n (Node m) + (5 + 12 * i)) (record_bytes (records_of n m ! i))"
    by (rule holds_trans)
  then show ?thesis by (simp add: add.assoc mult.commute)
qed

lemma stored_name:
  assumes "stored blob n (Node m)" "i < length m"
  shows "holds blob (fst (records_of n m ! i)) (as_bytes (fst (m ! i)))"
proof -
  have "holds (concat (names_of m)) (length (concat (take i (names_of m)))) (names_of m ! i)"
    using assms(2) by (intro holds_concat) (simp add: names_of_def)
  moreover have "holds blob (n + length (bodies n (map snd m))) (concat (names_of m))"
    using assms(1) by (simp add: stored_def holds_append)
  ultimately have "holds blob (n + length (bodies n (map snd m)) + length (concat (take i (names_of m))))
      (names_of m ! i)"
    by (rule holds_trans)
  then show ?thesis using assms(2) by (simp add: records_of_nth name_starts_nth) (simp add: names_of_def)
qed

lemma stored_entry:
  assumes "stored blob n (Node m)" "i < length m"
  shows "entry_name_bytes blob (head n (Node m) + 5 + i * 12) = Ok (as_bytes (fst (m ! i)))"
    and "read_u32 blob (head n (Node m) + 5 + i * 12 + 8) = Ok (word_of_nat (heads n (map snd m) ! i))"
proof -
  let ?e = "head n (Node m) + 5 + i * 12"
  obtain no nl co where r: "records_of n m ! i = (no, nl, co)" by (cases "records_of n m ! i") auto
  then have nl: "nl = length (fst (m ! i))" and co: "co = heads n (map snd m) ! i"
    using assms(2) by (simp_all add: records_of_nth)
  note sz = stored_usize [OF assms(1)]
  have rec: "holds blob ?e (be32 no @ be32 nl @ be32 co)"
    using stored_record [OF assms] r by (simp add: record_bytes_def)
  have nm: "holds blob no (as_bytes (fst (m ! i)))" using stored_name [OF assms] r by simp
  have "no + length (fst (m ! i)) < 2 ^ 32"
    using nm assms(1) by (simp add: holds_def stored_def)
  then have small: "unat (word_of_nat no :: u32) = no" "unat (word_of_nat nl :: u32) = nl"
    unfolding nl by (auto intro!: u32_small)
  have "read_u32 blob ?e = Ok (word_of_nat no)" using rec sz by (rule holds_read_u32)
  moreover have "read_u32 blob (?e + 4) = Ok (word_of_nat nl)"
    using rec sz unfolding holds_append by (auto intro: holds_read_u32 [where bs = "[]", simplified])
  moreover have "slice blob no nl = Ok (as_bytes (fst (m ! i)))"
    using holds_slice [OF nm sz] nl by simp
  ultimately show "entry_name_bytes blob ?e = Ok (as_bytes (fst (m ! i)))"
    by (simp add: entry_name_bytes_def small)
  show "read_u32 blob (?e + 8) = Ok (word_of_nat (heads n (map snd m) ! i))"
    using rec sz unfolding holds_append co
    by (auto simp: add.assoc intro: holds_read_u32 [where bs = "[]", simplified])
qed

text \<open>A stored object is a name table.\<close>

definition object_ok :: "bytes \<times> nat \<times> (string, vnode) btree \<Rightarrow> bool" where
  "object_ok = (\<lambda>(blob, n, m). stored blob n (Node m) \<and> bt_ok m)"

definition object_entries :: "bytes \<times> nat \<times> (string, vnode) btree \<Rightarrow> (bytes \<times> u32) list" where
  "object_entries = (\<lambda>(blob, n, m). zip (names_of m) (map word_of_nat (heads n (map snd m))))"

interpretation object: name_table object_ok object_entries
  "\<lambda>(blob, n, m) i. entry_name_bytes blob (head n (Node m) + 5 + i * 12)"
  "\<lambda>(blob, n, m) i. read_u32 blob (head n (Node m) + 5 + i * 12 + 8)"
proof (unfold_locales, goal_cases)
  case (1 t)
  then show ?case
    using as_bytes_sorted by (auto simp: object_ok_def object_entries_def names_of_def comp_def)
next
  case (2 t i)
  then show ?case
    by (auto simp: object_ok_def object_entries_def stored_entry names_of_def simp del: head.simps)
next
  case (3 t i)
  then show ?case
    using stored_entry(2) [of "fst t" "fst (snd t)" "snd (snd t)" i]
    by (auto simp: object_ok_def object_entries_def names_of_def simp del: head.simps)
qed

section \<open>Navigation\<close>

text \<open>The child a segment leads to: where its layout starts, and what it is.\<close>

fun child_slot :: "nat \<Rightarrow> vnode \<Rightarrow> segment \<Rightarrow> (nat \<times> vnode) option" where
  "child_slot n (List l) (Index i) =
     (if unat i < length l then Some (starts n l ! unat i, l ! unat i) else None)"
| "child_slot n (Node m) (Name name) = map_of (zip (map fst m) (zip (starts n (map snd m)) (map snd m))) name"
| "child_slot n v s = None"

lemma child_slot_step: "map_option snd (child_slot n v s) = step v s"
proof (cases "(n, v, s)" rule: child_slot.cases)
  case (2 n' m name)
  have "length (starts n (map snd m)) = length m" by simp
  then have "map_option snd (map_of (zip (map fst m) (zip k (map snd m))) name) = map_of m name"
    if "length k = length m" for k :: "nat list"
    using that
  proof (induction m arbitrary: k)
    case (Cons e m)
    then show ?case by (cases k; cases e) auto
  qed simp
  then show ?thesis using 2 by (auto simp: bt_get_def)
qed (auto simp: nth_opt_def)

lemma child_slot_nth:
  assumes "child_slot n v s = Some (k, c)"
  shows "\<exists>vs i. (v = List vs \<or> (\<exists>m. v = Node m \<and> vs = map snd m)) \<and> i < length vs \<and>
    k = starts n vs ! i \<and> c = vs ! i"
proof (cases "(n, v, s)" rule: child_slot.cases)
  case (2 n' m name)
  with assms obtain i where "i < length m" "k = starts n (map snd m) ! i" "c = map snd m ! i"
    by (auto dest!: map_of_SomeD simp: in_set_zip)
  then show ?thesis using 2 by (intro exI [of _ "map snd m"] exI [of _ i]) auto
qed (use assms in \<open>auto split: if_splits\<close>)

lemma stored_slot:
  assumes "stored blob n v" "child_slot n v s = Some (k, c)"
  shows "stored blob k c" and "length (body k c) < length (body n v)"
  using child_slot_nth [OF assms(2)] stored_child [OF assms(1)] by blast+

lemma node_at_stored:
  assumes "stored blob n v" "value_ok C v"
  shows "node_at blob (word_of_nat (head n v)) (unat i)
    = Ok (map_option (\<lambda>(k, c). word_of_nat (head k c)) (child_slot n v (Index i)))"
proof (cases v)
  case (List l)
  have "length l < 2 ^ 32" using assms(2) List by simp
  then have "unat (word_of_nat (length l) :: u32) = length l" by (rule u32_small)
  then show ?thesis
    using assms List stored_count [OF assms(1)] stored_tag [OF assms(1)] stored_list_slot [of blob n l "unat i"]
    by (simp add: node_at_def stored_off [OF assms(1), unfolded List] heads_nth del: head.simps)
qed (use stored_tag [OF assms(1)] stored_off [OF assms(1)] in \<open>simp_all add: node_at_def del: head.simps\<close>)

lemma map_of_names: "length hs = length m \<Longrightarrow>
  map_of (zip (names_of m) hs) (as_bytes name) = map_of (zip (map fst m) hs) name"
proof (induction m arbitrary: hs)
  case (Cons e m)
  then show ?case by (cases hs) (auto simp: names_of_def)
qed (simp add: names_of_def)

lemma map_of_zip_map: "map_of (zip ks (map f xs)) k = map_option f (map_of (zip ks xs) k)"
proof (induction ks arbitrary: xs)
  case (Cons a ks)
  then show ?case by (cases xs) auto
qed simp

lemma heads_starts: "map word_of_nat (heads n vs)
  = map (\<lambda>(k, c). word_of_nat (head k c)) (zip (starts n vs) vs)"
  by (induction vs arbitrary: n) auto

lemma node_get_stored:
  assumes "stored blob n v" "value_ok C v"
  shows "node_get blob (word_of_nat (head n v)) name
    = Ok (map_option (\<lambda>(k, c). word_of_nat (head k c)) (child_slot n v (Name name)))"
proof (cases v)
  case (Node m)
  have ok: "object_ok (blob, n, m)" using assms Node by (simp add: object_ok_def)
  have len: "length (object_entries (blob, n, m)) = length m"
    by (simp add: object_entries_def names_of_def)
  have "length m < 2 ^ 32" using assms(2) Node by simp
  then have "unat (word_of_nat (length m) :: u32) = length m" by (rule u32_small)
  then have "node_get blob (word_of_nat (head n v)) name
      = Ok (map_of (object_entries (blob, n, m)) (as_bytes name))"
    using Node stored_count [OF assms(1)] stored_tag [OF assms(1)] object.search [OF ok, of "as_bytes name"]
    by (simp add: node_get_def stored_off [OF assms(1), unfolded Node] len Let_def del: head.simps)
  also have "map_of (object_entries (blob, n, m)) (as_bytes name)
      = map_option (\<lambda>(k, c). word_of_nat (head k c)) (child_slot n v (Name name))"
    using Node by (simp add: object_entries_def map_of_names heads_starts map_of_zip_map)
  finally show ?thesis .
qed (use stored_tag [OF assms(1)] stored_off [OF assms(1)] in \<open>simp_all add: node_get_def del: head.simps\<close>)

text \<open>Following a path in a document together with its layout.\<close>

fun slot :: "nat \<Rightarrow> vnode \<Rightarrow> vpath \<Rightarrow> (nat \<times> vnode) option" where
  "slot n v [] = Some (n, v)"
| "slot n v (s # p) = Option.bind (child_slot n v s) (\<lambda>(k, c). slot k c p)"

lemma slot_subtree: "map_option snd (slot n v p) = subtree v p"
proof (induction p arbitrary: n v)
  case (Cons s p)
  show ?case
    using child_slot_step [of n v s] Cons.IH
    by (cases "child_slot n v s") (auto split: prod.splits simp flip: child_slot_step [of n v s])
qed simp

lemma value_ok_step: "value_ok C v \<Longrightarrow> step v s = Some c \<Longrightarrow> value_ok C c"
  by (cases v; cases s) (auto simp: nth_opt_def split: if_splits dest: bt_get_snd)

lemma node_navigate_stored:
  "stored blob n v \<Longrightarrow> value_ok C v \<Longrightarrow>
   node_navigate blob (word_of_nat (head n v)) p
     = Ok (map_option (\<lambda>(k, c). word_of_nat (head k c)) (slot n v p)) \<and>
   (\<forall>k c. slot n v p = Some (k, c) \<longrightarrow> stored blob k c \<and> value_ok C c)"
proof (induction p arbitrary: n v)
  case (Cons s p)
  have next': "(case s of Name name \<Rightarrow> node_get blob (word_of_nat (head n v)) name
      | Index i \<Rightarrow> node_at blob (word_of_nat (head n v)) (unat i))
      = Ok (map_option (\<lambda>(k, c). word_of_nat (head k c)) (child_slot n v s))"
    using node_get_stored [OF Cons.prems] node_at_stored [OF Cons.prems] by (cases s) simp_all
  show ?case
  proof (cases "child_slot n v s")
    case (Some kc)
    obtain k c where kc: "kc = (k, c)" by (cases kc)
    with Some have "step v s = Some c" using child_slot_step [of n v s] by simp
    then have "stored blob k c" "value_ok C c"
      using stored_slot [OF Cons.prems(1)] Some kc value_ok_step [OF Cons.prems(2)] by auto
    then show ?thesis using Cons.IH [of k c] Some kc next' by simp
  qed (use next' in simp)
qed simp

section \<open>The round trip\<close>

lemma node_scalar_stored:
  assumes "stored blob n (Leaf s)" "scalar_ok C s"
  shows "\<exists>r. scalar_decode C (reader_new (drop (Suc n) blob)) = Ok (s, r) \<and> reader_position r = length (scalar_encode [] s)"
    and "read_u8 blob n = Ok LEAF" and "Suc n \<le> length blob"
proof -
  have h: "holds blob n (LEAF # scalar_encode [] s)" using assms(1) by (simp add: stored_def)
  then show "Suc n \<le> length blob" by (simp add: holds_def)
  show "read_u8 blob n = Ok LEAF" using stored_tag [OF assms(1)] by simp
  obtain rest where rest: "drop (Suc n) blob = scalar_encode [] s @ rest"
    using h by (auto simp: holds_Cons [of _ _ _ "scalar_encode [] s"] dest: holds_drop)
  have "sized (reader_new (drop (Suc n) blob))"
    using stored_usize [OF assms(1)] by simp
  then show "\<exists>r. scalar_decode C (reader_new (drop (Suc n) blob)) = Ok (s, r) \<and> reader_position r = length (scalar_encode [] s)"
    using scalar_decode_unread [OF assms(2), of "reader_new (drop (Suc n) blob)" rest] rest
    by (auto simp: reader_position_def reader_new_def unread_def)
qed

lemma node_entries_stored:
  assumes "stored blob n (Node m)" "value_ok C (Node m)"
  shows "node_entries blob (word_of_nat (head n (Node m)))
    = Ok (zip (map fst m) (map word_of_nat (heads n (map snd m))))"
proof -
  have "length m < 2 ^ 32" using assms(2) by simp
  then have cnt: "unat (word_of_nat (length m) :: u32) = length m" by (rule u32_small)
  have "utf8 (fst (m ! i))" if "i < length m" for i using assms(2) that by auto
  then have "andThen (entry_name blob (head n (Node m) + 5 + i * 12)) (\<lambda>name.
      andThen (read_u32 blob (head n (Node m) + 5 + i * 12 + 8)) (\<lambda>child. Ok (name, child)))
      = Ok (zip (map fst m) (map word_of_nat (heads n (map snd m))) ! i)" if "i < length m" for i
    using that stored_entry [OF assms(1) that] by (simp add: entry_name_def del: head.simps)
  then have "res_map (\<lambda>i. andThen (entry_name blob (head n (Node m) + 5 + i * 12)) (\<lambda>name.
      andThen (read_u32 blob (head n (Node m) + 5 + i * 12 + 8)) (\<lambda>child. Ok (name, child))))
      [0..<length m] = Ok (zip (map fst m) (map word_of_nat (heads n (map snd m))))"
    by (intro res_map_nth) (simp_all del: head.simps andThen_Ok_iff)
  then show ?thesis
    using stored_count [OF assms(1)] stored_tag [OF assms(1)] cnt
    by (simp add: node_entries_def stored_off [OF assms(1)] Let_def del: head.simps andThen_Ok_iff)
qed

lemma node_to_value_stored:
  "stored blob n v \<Longrightarrow> value_ok C v \<Longrightarrow> length (body n v) \<le> fuel \<Longrightarrow>
   node_to_value C fuel blob (word_of_nat (head n v)) = Ok v"
proof (induction fuel arbitrary: n v)
  case 0
  then show ?case using body_pos [of n v] by simp
next
  case (Suc fuel)
  note off = stored_off [OF Suc.prems(1)] and tag = stored_tag [OF Suc.prems(1)]
  have children: "node_to_value C fuel blob (word_of_nat (heads n vs ! i)) = Ok (vs ! i)"
    if "v = List vs \<or> (\<exists>m. v = Node m \<and> vs = map snd m)" "i < length vs" for vs i
  proof -
    have "vs ! i \<in> set vs" using that(2) by simp
    then have "value_ok C (vs ! i)" using that Suc.prems(2) by auto
    then show ?thesis
      using Suc.IH [OF stored_child(1) [OF Suc.prems(1) that]] stored_child(2) [OF Suc.prems(1) that]
        Suc.prems(3) that(2) by (simp add: heads_nth)
  qed
  show ?case
  proof (cases v)
    case (Leaf s)
    then show ?thesis
      using node_scalar_stored [of blob n s C] Suc.prems off tag
      by (auto simp: node_kind_of_def node_scalar_def rest_from_def)
  next
    case (List l)
    have "length l < 2 ^ 32" using Suc.prems(2) List by simp
    then have cnt: "unat (word_of_nat (length l) :: u32) = length l" by (rule u32_small)
    have "andThen (node_at blob (word_of_nat (head n v)) i) (\<lambda>child.
        andThen (ok_or child (Corrupt ''list element missing'')) (\<lambda>child.
        node_to_value C fuel blob child)) = Ok (l ! i)" if "i < length l" for i
    proof -
      have "unat (word_of_nat i :: u64) = i"
        using that \<open>length l < 2 ^ 32\<close> by (simp add: unat_of_nat take_bit_nat_eq_self)
      then have "node_at blob (word_of_nat (head n v)) i = Ok (Some (word_of_nat (heads n l ! i)))"
        using node_at_stored [OF Suc.prems(1,2), of "word_of_nat i"] that List by (simp add: heads_nth)
      then show ?thesis using children [of l i] List that by simp
    qed
    then have "res_map (\<lambda>i. andThen (node_at blob (word_of_nat (head n v)) i) (\<lambda>child.
        andThen (ok_or child (Corrupt ''list element missing'')) (\<lambda>child.
        node_to_value C fuel blob child))) [0..<length l] = Ok l"
      by (intro res_map_nth) (simp_all del: andThen_Ok_iff)
    then show ?thesis
      using stored_count [OF Suc.prems(1)] off tag cnt List
      by (simp add: node_kind_of_def node_len_def del: head.simps andThen_Ok_iff)
  next
    case (Node m)
    have "res_map (\<lambda>(name, child). andThen (node_to_value C fuel blob child) (\<lambda>v. Ok (name, v)))
        (zip (map fst m) (map word_of_nat (heads n (map snd m)))) = Ok m"
      using children [of "map snd m"] Node by (intro res_map_nth) auto
    moreover have "foldl (\<lambda>m e. bt_insert (fst e) (snd e) m) [] m = m"
      using foldl_bt_insert [of "[]" m] Suc.prems(2) Node by simp
    ultimately show ?thesis
      using node_entries_stored [of blob n m C] Suc.prems off tag Node
      by (simp add: node_kind_of_def del: head.simps andThen_Ok_iff)
  qed
qed

section \<open>Overwriting a scalar in place\<close>

lemma bodies_update:
  assumes "i < length vs" "head (starts n vs ! i) c = head (starts n vs ! i) (vs ! i)"
    "body (starts n vs ! i) c = overwrite (body (starts n vs ! i) (vs ! i)) d xs"
    "d + length xs \<le> length (body (starts n vs ! i) (vs ! i))"
  shows "bodies n (vs[i := c]) = overwrite (bodies n vs) (starts n vs ! i - n + d) xs \<and>
    heads n (vs[i := c]) = heads n vs \<and> n \<le> starts n vs ! i \<and>
    starts n vs ! i - n + length (body (starts n vs ! i) (vs ! i)) \<le> length (bodies n vs)"
  using assms
proof (induction vs arbitrary: n i)
  case (Cons v vs)
  show ?case
  proof (cases i)
    case 0
    then show ?thesis using Cons.prems by (simp add: overwrite_left)
  next
    case (Suc j)
    let ?n = "n + length (body n v)" and ?k = "starts (n + length (body n v)) vs ! j"
    have IH: "bodies ?n (vs[j := c]) = overwrite (bodies ?n vs) (?k - ?n + d) xs"
      "heads ?n (vs[j := c]) = heads ?n vs" "?n \<le> ?k"
      "?k - ?n + length (body ?k (vs ! j)) \<le> length (bodies ?n vs)"
      using Cons.IH [of j ?n] Cons.prems Suc by auto
    have "?k - n + d = length (body n v) + (?k - ?n + d)" using IH(3) by simp
    then have "overwrite (body n v @ bodies ?n vs) (?k - n + d) xs
        = body n v @ overwrite (bodies ?n vs) (?k - ?n + d) xs"
      by (simp only: overwrite_right)
    then show ?thesis using IH Suc by simp
  qed
qed simp

lemma bt_insert_at: "bt_ok m \<Longrightarrow> i < length m \<Longrightarrow> bt_insert (fst (m ! i)) c m = m[i := (fst (m ! i), c)]"
proof (induction m arbitrary: i)
  case (Cons e m)
  show ?case
  proof (cases i)
    case (Suc j)
    then have "m ! j \<in> set m" using Cons.prems(2) by simp
    then have "fst e < fst (m ! j)" using Cons.prems(1) by (simp add: bt_ok_Cons)
    then have "\<not> fst (m ! j) < fst e" "fst (m ! j) \<noteq> fst e" by auto
    then show ?thesis using Cons Suc by (simp add: bt_ok_Cons)
  qed simp
qed simp

lemma child_slot_name:
  assumes "child_slot n (Node m) (Name name) = Some (k, c)"
  shows "\<exists>i < length m. fst (m ! i) = name \<and> k = starts n (map snd m) ! i \<and> c = snd (m ! i)"
  using assms by (auto dest!: map_of_SomeD simp: in_set_zip) blast

lemma slot_patch:
  "slot n v p = Some (k, Leaf s) \<Longrightarrow> value_sorted v \<Longrightarrow>
   length (scalar_encode [] s') = length (scalar_encode [] s) \<Longrightarrow>
   \<exists>w. set_in v p (Leaf s') = (True, w) \<and> head n w = head n v \<and> n \<le> k \<and>
     body n w = overwrite (body n v) (k - n + 1) (scalar_encode [] s') \<and>
     k - n + 1 + length (scalar_encode [] s') \<le> length (body n v)"
proof (induction p arbitrary: n v)
  case Nil
  then show ?case by (auto simp: overwrite_def)
next
  case (Cons t p)
  let ?x = "scalar_encode [] s'"
  from Cons.prems(1) obtain k1 c where slot: "child_slot n v t = Some (k1, c)"
    and rest: "slot k1 c p = Some (k, Leaf s)" by (auto split: bind_splits)
  have update: "bodies n (vs[i := w]) = overwrite (bodies n vs) (k - n + 1) ?x \<and>
      heads n (vs[i := w]) = heads n vs \<and> n \<le> k \<and> k - n + 1 + length ?x \<le> length (bodies n vs)"
    if "i < length vs" "k1 = starts n vs ! i" "c = vs ! i" "head k1 w = head k1 c" "k1 \<le> k"
      "body k1 w = overwrite (body k1 c) (k - k1 + 1) ?x" "k - k1 + 1 + length ?x \<le> length (body k1 c)"
    for vs i w
    using bodies_update [of i vs n w "k - k1 + 1" ?x] that by auto
  show ?case
  proof (cases v)
    case (Leaf a)
    then show ?thesis using slot by (cases t) auto
  next
    case (List l)
    then obtain j where t: "t = Index j" using slot by (cases t) auto
    then have j: "unat j < length l" "k1 = starts n l ! unat j" "c = l ! unat j"
      using slot List by (auto split: if_splits)
    obtain w where w: "set_in c p (Leaf s') = (True, w)" "head k1 w = head k1 c" "k1 \<le> k"
      "body k1 w = overwrite (body k1 c) (k - k1 + 1) ?x" "k - k1 + 1 + length ?x \<le> length (body k1 c)"
      using Cons.IH [OF rest _ Cons.prems(3)] Cons.prems(2) j List by auto
    show ?thesis
      using update [OF j w(2-)] w(1) j List t
      by (auto simp: overwrite_left)
  next
    case (Node m)
    then obtain name where t: "t = Name name" using slot by (cases t) auto
    then obtain i where i: "i < length m" "fst (m ! i) = name" "k1 = starts n (map snd m) ! i" "c = snd (m ! i)"
      using child_slot_name slot Node by blast
    have "m ! i \<in> set m" using i(1) by simp
    then have "value_sorted c" using Cons.prems(2) Node i(4) by simp
    then obtain w where w: "set_in c p (Leaf s') = (True, w)" "head k1 w = head k1 c" "k1 \<le> k"
      "body k1 w = overwrite (body k1 c) (k - k1 + 1) ?x" "k - k1 + 1 + length ?x \<le> length (body k1 c)"
      using Cons.IH [OF rest _ Cons.prems(3)] by auto
    let ?m = "m[i := (name, w)]"
    have get: "bt_get m name = Some c"
      using i Cons.prems(2) Node \<open>m ! i \<in> set m\<close> by (auto simp: bt_get_iff)
    have ins: "bt_insert name w m = ?m" using bt_insert_at [of m i w] i Cons.prems(2) Node by simp
    have snds: "map snd ?m = (map snd m)[i := w]" by (simp add: map_update)
    have fsts: "map fst ?m = map fst m" using i by (simp add: map_update list_update_same_conv)
    have u: "bodies n (map snd ?m) = overwrite (bodies n (map snd m)) (k - n + 1) ?x"
      "heads n (map snd ?m) = heads n (map snd m)" "n \<le> k"
      "k - n + 1 + length ?x \<le> length (bodies n (map snd m))"
      using update [of i "map snd m" w] i w snds by auto
    have "map (length \<circ> fst) ?m = map (length \<circ> fst) m" using fsts by (metis map_map)
    then have "body n (Node ?m) = overwrite (body n (Node m)) (k - n + 1) ?x" "head n (Node ?m) = head n (Node m)"
      using u names_of_cong [OF fsts] name_starts_cong [OF fsts] by (simp_all add: overwrite_left)
    then show ?thesis using w(1) t Node get ins u(3,4) by auto
  qed
qed

section \<open>Whole blobs\<close>

lemma blob_encode_eq: "blob_encode v = [FORMAT_VERSION] @ be32 (head 5 v) @ body 5 v"
  by (simp add: blob_encode_def push_value_eq begin_blob_def patch_root_def)

definition blob_fits :: "vnode \<Rightarrow> bool" where
  "blob_fits v \<longleftrightarrow> length (blob_encode v) < 2 ^ 32"

lemma stored_encode: "blob_fits v \<Longrightarrow> stored (blob_encode v) 5 v"
  using holds_end [of "[FORMAT_VERSION] @ be32 (head 5 v)" "body 5 v"]
  by (simp add: stored_def blob_fits_def blob_encode_eq)

lemma archived_new_encode:
  "blob_fits v \<Longrightarrow> archived_new (blob_encode v) = Ok (blob_encode v, word_of_nat (head 5 v))"
proof -
  assume fits: "blob_fits v"
  then have "holds (blob_encode v) 1 (be32 (head 5 v) @ body 5 v)"
    using holds_end [of "[FORMAT_VERSION]" "be32 (head 5 v) @ body 5 v"] by (simp add: blob_encode_eq)
  then have "read_u32 (blob_encode v) 1 = Ok (word_of_nat (head 5 v))"
    using stored_usize [OF stored_encode [OF fits]] by (rule holds_read_u32)
  then show ?thesis by (simp add: archived_new_def blob_encode_eq)
qed

lemma blob_decode_encode: "value_ok C v \<Longrightarrow> blob_fits v \<Longrightarrow> blob_decode C (blob_encode v) = Ok v"
  using node_to_value_stored [OF stored_encode, of v C "Suc (length (blob_encode v))"]
  by (simp add: blob_decode_def archived_new_encode) (simp add: blob_encode_eq)

text \<open>Reading the subtree a path leads to straight out of a blob: \<open>navigate\<close>, then \<open>to_value\<close>.\<close>

definition blob_subtree :: "chrono \<Rightarrow> bytes \<Rightarrow> vpath \<Rightarrow> vnode option res" where
  "blob_subtree C blob at =
     andThen (archived_new blob) (\<lambda>(blob, root).
     andThen (node_navigate blob root at) (\<lambda>n.
       case n of
         None \<Rightarrow> Ok None
       | Some off \<Rightarrow> andThen (node_to_value C (Suc (length blob)) blob off) (\<lambda>v. Ok (Some v))))"

lemma blob_subtree_encode:
  assumes "value_ok C v" "blob_fits v"
  shows "blob_subtree C (blob_encode v) p = Ok (subtree v p)"
proof -
  note st = stored_encode [OF assms(2)]
  have nav: "node_navigate (blob_encode v) (word_of_nat (head 5 v)) p
      = Ok (map_option (\<lambda>(k, c). word_of_nat (head k c)) (slot 5 v p))"
    and ok: "\<And>k c. slot 5 v p = Some (k, c) \<Longrightarrow> stored (blob_encode v) k c \<and> value_ok C c"
    using node_navigate_stored [OF st assms(1)] by auto
  show ?thesis
  proof (cases "slot 5 v p")
    case None
    then show ?thesis
      using nav slot_subtree [of 5 v p] by (simp add: blob_subtree_def archived_new_encode [OF assms(2)])
  next
    case (Some kc)
    obtain k c where kc: "kc = (k, c)" by (cases kc)
    have "length (body k c) \<le> length (blob_encode v)"
      using ok [of k c] Some kc by (auto simp: stored_def holds_def)
    then have "node_to_value C (Suc (length (blob_encode v))) (blob_encode v) (word_of_nat (head k c)) = Ok c"
      using ok [of k c] Some kc by (intro node_to_value_stored) auto
    then show ?thesis
      using nav Some kc slot_subtree [of 5 v p]
      by (simp add: blob_subtree_def archived_new_encode [OF assms(2)] del: node_to_value.simps)
  qed
qed

lemma leaf_scalar_span_encode:
  assumes "value_ok C v" "blob_fits v"
  shows "leaf_scalar_span C (blob_encode v) (word_of_nat (head 5 v)) p
    = Ok (case slot 5 v p of Some (k, Leaf s) \<Rightarrow> Some (k + 1, length (scalar_encode [] s)) | _ \<Rightarrow> None)"
proof -
  note st = stored_encode [OF assms(2)]
  have nav: "node_navigate (blob_encode v) (word_of_nat (head 5 v)) p
      = Ok (map_option (\<lambda>(k, c). word_of_nat (head k c)) (slot 5 v p))"
    and ok: "\<And>k c. slot 5 v p = Some (k, c) \<Longrightarrow> stored (blob_encode v) k c \<and> value_ok C c"
    using node_navigate_stored [OF st assms(1)] by auto
  show ?thesis
  proof (cases "slot 5 v p")
    case (Some kc)
    obtain k c where kc: "kc = (k, c)" by (cases kc)
    have stc: "stored (blob_encode v) k c" and okc: "value_ok C c" using ok Some kc by auto
    have "node_leaf_scalar_span C (blob_encode v) (word_of_nat (head k c))
        = Ok (case c of Leaf s \<Rightarrow> Some (k + 1, length (scalar_encode [] s)) | _ \<Rightarrow> None)"
    proof (cases c)
      case (Leaf s)
      then show ?thesis
        using node_scalar_stored [of "blob_encode v" k s C] stc okc stored_off [OF stc]
        by (auto simp: node_leaf_scalar_span_def rest_from_def Let_def)
    qed (use stored_tag [OF stc] stored_off [OF stc] in
        \<open>simp_all add: node_leaf_scalar_span_def del: head.simps\<close>)
    then show ?thesis using nav Some kc by (simp add: leaf_scalar_span_def split: vnode.split)
  qed (use nav in \<open>simp add: leaf_scalar_span_def\<close>)
qed

lemma blob_patch_encode:
  assumes "value_sorted v" "slot 5 v p = Some (k, Leaf s)"
    and "length (scalar_encode [] s') = length (scalar_encode [] s)"
  shows "overwrite (blob_encode v) (k + 1) (scalar_encode [] s') = blob_encode (snd (set_in v p (Leaf s')))"
    and "fst (set_in v p (Leaf s'))"
    and "k + 1 + length (scalar_encode [] s') \<le> length (blob_encode v)"
proof -
  obtain w where w: "set_in v p (Leaf s') = (True, w)" "head 5 w = head 5 v" "5 \<le> k"
    "body 5 w = overwrite (body 5 v) (k - 5 + 1) (scalar_encode [] s')"
    "k - 5 + 1 + length (scalar_encode [] s') \<le> length (body 5 v)"
    using slot_patch [OF assms(2,1,3)] by auto
  show "fst (set_in v p (Leaf s'))" using w by simp
  show "k + 1 + length (scalar_encode [] s') \<le> length (blob_encode v)"
    using w(3,5) by (simp add: blob_encode_eq)
  let ?h = "[FORMAT_VERSION] @ be32 (head 5 v)"
  have "k + 1 = length ?h + (k - 5 + 1)" using w(3) by simp
  then have "overwrite (?h @ body 5 v) (k + 1) (scalar_encode [] s') = ?h @ body 5 w"
    using w(4) by (simp only: overwrite_right)
  then show "overwrite (blob_encode v) (k + 1) (scalar_encode [] s') = blob_encode (snd (set_in v p (Leaf s')))"
    using w by (simp add: blob_encode_eq)
qed

section \<open>Properties\<close>

text \<open>C22: storing and loading a document is lossless. The blob \<open>encode\<close> writes decodes, within the
  fuel the decoder is given, to the very document it was made from, as long as the blob stays under
  the 4 GiB that its 32-bit offsets address.\<close>

theorem blob_roundtrip:
  assumes "value_ok C v" and "blob_fits v"
  shows "blob_decode C (blob_encode v) = Ok v"
  using assms by (rule blob_decode_encode)

lemma sample_doc_fits: "blob_fits sample_doc"
  by (simp add: blob_fits_def sample_doc_def blob_encode_eq names_of_def record_bytes_def put_bytes_def
      put_u32_def)

lemma sample_doc_ok: "value_ok calendar sample_doc"
proof -
  have "utf8 ''Ann'' \<and> utf8 ''name'' \<and> utf8 ''tags''" by code_simp
  then show ?thesis by (simp add: sample_doc_def bt_ok_def less_char_def)
qed

theorem blob_roundtrip_witness: "blob_decode calendar (blob_encode sample_doc) = Ok sample_doc"
  using blob_roundtrip [OF sample_doc_ok sample_doc_fits] .

text \<open>Zero-copy navigation refines navigation of the document. Following a path through the
  encoded blob (binary search over field names, offset arithmetic over lists) and materialising what
  is there gives exactly the subtree of the document at that path, or nothing when there is none.\<close>

theorem blob_navigation_refines:
  assumes "value_ok C v" and "blob_fits v"
  shows "blob_subtree C (blob_encode v) p = Ok (subtree v p)"
  using assms by (rule blob_subtree_encode)

theorem blob_navigation_refines_witness:
  "blob_subtree calendar (blob_encode sample_doc) [Name ''tags'', Index 0] = Ok (Some (Leaf (U8 1)))"
  using blob_navigation_refines [OF sample_doc_ok sample_doc_fits, of "[Name ''tags'', Index 0]"]
  by (simp add: sample_doc_def bt_get_def nth_opt_def)

text \<open>C31: the recursion of \<open>to_value\<close> follows offsets read from the blob, and nothing stops a damaged
  blob from naming itself as its own child: on this well-headed blob decoding never returns.\<close>

theorem cyclic_blob_never_decodes:
  "archived_new [1, 0, 0, 0, 5, 1, 0, 0, 0, 1, 0, 0, 0, 5] = Ok ([1, 0, 0, 0, 5, 1, 0, 0, 0, 1, 0, 0, 0, 5], 5) \<and>
   node_to_value C fuel [1, 0, 0, 0, 5, 1, 0, 0, 0, 1, 0, 0, 0, 5] 5 = Diverge"
proof -
  let ?b = "[1, 0, 0, 0, 5, 1, 0, 0, 0, 1, 0, 0, 0, 5] :: bytes"
  have reads: "read_u8 ?b 5 = Ok 1" "read_u32 ?b 1 = Ok 5" "read_u32 ?b 6 = Ok 1" "read_u32 ?b 10 = Ok 5"
    by (simp_all add: read_u8_def read_u32_def slice_def usize_bound_def from_be_bytes_def of_be_def)
  then have "node_kind_of ?b 5 = Ok KList" "node_len ?b 5 = Ok 1" "node_at ?b 5 0 = Ok (Some 5)"
    by (simp_all add: node_kind_of_def node_len_def node_at_def)
  then have "node_to_value C fuel ?b 5 = Diverge" by (induction fuel) simp_all
  then show ?thesis using reads by (simp add: archived_new_def)
qed

end
