(* ===== verification/Readers.thy ===== *)
theory Readers
  imports Archived_Layout
begin

text \<open>
  Field access to one document: the reader over a stored blob (\<open>access/archived.rs\<close>) and the
  in-memory builder (\<open>access/mem.rs\<close>). The locale \<open>value_reader\<close> is the contract of the \<open>Reader\<close> trait
  (\<open>access/reader.rs\<close>): every method answers from the document it shows.
\<close>

section \<open>The archived reader\<close>

record archived_reader =
  ar_entry :: bytes
  ar_offset :: nat
  ar_root :: u32

definition payload_from :: "bytes \<Rightarrow> nat \<Rightarrow> bytes res" where
  "payload_from entry pos =
     (if pos \<le> length entry then Ok (drop pos entry) else Err (Corrupt ''truncated file entry''))"

definition archived_reader_new :: "bytes \<Rightarrow> nat \<Rightarrow> archived_reader res" where
  "archived_reader_new entry pos =
     andThen (payload_from entry pos) (\<lambda>payload.
     andThen (archived_new payload) (\<lambda>(_, root).
     Ok \<lparr>ar_entry = entry, ar_offset = pos, ar_root = root\<rparr>))"

definition reader_view :: "archived_reader \<Rightarrow> (bytes \<times> u32) res" where
  "reader_view r = andThen (payload_from (ar_entry r) (ar_offset r)) (\<lambda>payload. Ok (payload, ar_root r))"

definition reader_node :: "archived_reader \<Rightarrow> vpath \<Rightarrow> (bytes \<times> u32 option) res" where
  "reader_node r at =
     andThen (reader_view r) (\<lambda>(blob, root).
     andThen (node_navigate blob root at) (\<lambda>n. Ok (blob, n)))"

definition ar_scalar_at :: "chrono \<Rightarrow> archived_reader \<Rightarrow> vpath \<Rightarrow> scalar option res" where
  "ar_scalar_at C r at =
     andThen (reader_node r at) (\<lambda>(blob, n).
       case n of Some off \<Rightarrow> node_scalar_if_leaf C blob off | None \<Rightarrow> Ok None)"

definition ar_kind_at :: "archived_reader \<Rightarrow> vpath \<Rightarrow> node_kind option res" where
  "ar_kind_at r at =
     andThen (reader_node r at) (\<lambda>(blob, n).
       case n of Some off \<Rightarrow> andThen (node_kind_of blob off) (\<lambda>k. Ok (Some k)) | None \<Rightarrow> Ok None)"

definition ar_len_at :: "archived_reader \<Rightarrow> vpath \<Rightarrow> nat res" where
  "ar_len_at r at =
     andThen (reader_node r at) (\<lambda>(blob, n).
       case n of Some off \<Rightarrow> node_len blob off | None \<Rightarrow> Err (PathNotFound at))"

definition ar_keys_at :: "archived_reader \<Rightarrow> vpath \<Rightarrow> string list res" where
  "ar_keys_at r at =
     andThen (reader_node r at) (\<lambda>(blob, n).
       case n of Some off \<Rightarrow> node_object_keys blob off | None \<Rightarrow> Err (PathNotFound at))"

definition ar_exists_at :: "archived_reader \<Rightarrow> vpath \<Rightarrow> bool res" where
  "ar_exists_at r at = andThen (reader_node r at) (\<lambda>(_, n). Ok (n \<noteq> None))"

section \<open>The in-memory builder\<close>

text \<open>The value under construction is the whole state of a \<open>MemWriter\<close>.\<close>

definition mem_new :: vnode where
  "mem_new = Node []"

definition mem_scalar_at :: "vnode \<Rightarrow> vpath \<Rightarrow> scalar option res" where
  "mem_scalar_at w at = Ok (Option.bind (subtree w at) value_leaf)"

definition mem_kind_at :: "vnode \<Rightarrow> vpath \<Rightarrow> node_kind option res" where
  "mem_kind_at w at = Ok (map_option value_node_kind (subtree w at))"

definition not_a :: "vpath \<Rightarrow> string \<Rightarrow> adb_error" where
  "not_a at what = CannotAccess ([CHR 0x27] @ vpath_display at @ [CHR 0x27] @ '' is not '' @ what)"

definition mem_len_at :: "vnode \<Rightarrow> vpath \<Rightarrow> nat res" where
  "mem_len_at w at =
     (case subtree w at of
        Some (List l) \<Rightarrow> Ok (length l)
      | Some _ \<Rightarrow> Err (not_a at ''a list'')
      | None \<Rightarrow> Err (PathNotFound at))"

definition mem_keys_at :: "vnode \<Rightarrow> vpath \<Rightarrow> string list res" where
  "mem_keys_at w at =
     (case subtree w at of
        Some (Node m) \<Rightarrow> Ok (map fst m)
      | Some _ \<Rightarrow> Err (not_a at ''an object'')
      | None \<Rightarrow> Err (PathNotFound at))"

definition mem_exists_at :: "vnode \<Rightarrow> vpath \<Rightarrow> bool res" where
  "mem_exists_at w at = Ok (subtree w at \<noteq> None)"

definition mem_put_scalar :: "vpath \<Rightarrow> scalar \<Rightarrow> vnode \<Rightarrow> unit res \<times> vnode" where
  "mem_put_scalar at scalar w = (Ok (), snd (set_in w at (Leaf scalar)))"

definition mem_ensure_container :: "vpath \<Rightarrow> bool \<Rightarrow> vnode \<Rightarrow> unit res \<times> vnode" where
  "mem_ensure_container at as_list w =
     (let fits = (case subtree w at of Some (List _) \<Rightarrow> as_list | Some (Node _) \<Rightarrow> \<not> as_list | _ \<Rightarrow> False)
      in (Ok (), if \<not> fits then snd (set_in w at (if as_list then List [] else Node [])) else w))"

definition mem_remove :: "vpath \<Rightarrow> vnode \<Rightarrow> bool res \<times> vnode" where
  "mem_remove at w = (let (removed, w) = remove_in w at in (Ok removed, w))"

section \<open>The contract of a reader\<close>

locale value_reader =
  fixes scalar_at :: "'r \<Rightarrow> vpath \<Rightarrow> scalar option res"
    and kind_at :: "'r \<Rightarrow> vpath \<Rightarrow> node_kind option res"
    and len_at :: "'r \<Rightarrow> vpath \<Rightarrow> nat res"
    and keys_at :: "'r \<Rightarrow> vpath \<Rightarrow> string list res"
    and exists_at :: "'r \<Rightarrow> vpath \<Rightarrow> bool res"
    and of_doc :: "'r \<Rightarrow> vnode \<Rightarrow> bool"
  assumes scalar_law: "of_doc r v \<Longrightarrow> scalar_at r at = Ok (Option.bind (subtree v at) value_leaf)"
    and kind_law: "of_doc r v \<Longrightarrow> kind_at r at = Ok (map_option value_node_kind (subtree v at))"
    and len_law: "of_doc r v \<Longrightarrow> subtree v at = Some (List l) \<Longrightarrow> len_at r at = Ok (length l)"
    and len_refused: "of_doc r v \<Longrightarrow> (\<And>l. subtree v at \<noteq> Some (List l)) \<Longrightarrow> \<exists>e. len_at r at = Err e"
    and keys_law: "of_doc r v \<Longrightarrow> subtree v at = Some (Node m) \<Longrightarrow> keys_at r at = Ok (map fst m)"
    and keys_refused: "of_doc r v \<Longrightarrow> (\<And>m. subtree v at \<noteq> Some (Node m)) \<Longrightarrow> \<exists>e. keys_at r at = Err e"
    and exists_law: "of_doc r v \<Longrightarrow> exists_at r at = Ok (subtree v at \<noteq> None)"
begin

text \<open>No method panics or diverges, and \<open>exists_at\<close>, \<open>kind_at\<close> and the partial methods agree.\<close>

lemma kind_decides:
  assumes "of_doc r v"
  shows "(exists_at r at = Ok True \<longleftrightarrow> kind_at r at \<noteq> Ok None) \<and>
    ((\<exists>n. len_at r at = Ok n) \<longleftrightarrow> kind_at r at = Ok (Some KList)) \<and>
    ((\<exists>ks. keys_at r at = Ok ks) \<longleftrightarrow> kind_at r at = Ok (Some KObject)) \<and>
    ((\<exists>s. scalar_at r at = Ok (Some s)) \<longleftrightarrow> kind_at r at = Ok (Some KLeaf))"
proof (cases "subtree v at")
  case None
  then show ?thesis
    using scalar_law [OF assms, of at] kind_law [OF assms, of at] exists_law [OF assms, of at]
      len_refused [OF assms, of at] keys_refused [OF assms, of at] by auto
next
  case (Some n)
  then show ?thesis
    using scalar_law [OF assms, of at] kind_law [OF assms, of at] exists_law [OF assms, of at]
      len_refused [OF assms, of at] keys_refused [OF assms, of at] len_law [OF assms, of at] keys_law [OF assms, of at]
    by (cases n) auto
qed

end

interpretation mem: value_reader mem_scalar_at mem_kind_at mem_len_at mem_keys_at mem_exists_at "(=)"
  by unfold_locales
    (auto simp: mem_scalar_at_def mem_kind_at_def mem_len_at_def mem_keys_at_def mem_exists_at_def split: option.split vnode.split)

section \<open>The archived reader keeps the contract\<close>

definition reads_doc :: "chrono \<Rightarrow> archived_reader \<Rightarrow> vnode \<Rightarrow> bool" where
  "reads_doc C r v \<longleftrightarrow> value_ok C v \<and> blob_fits v \<and>
     ar_offset r \<le> length (ar_entry r) \<and> drop (ar_offset r) (ar_entry r) = blob_encode v \<and> ar_root r = word_of_nat (head 5 v)"

lemma reader_node_doc:
  assumes "reads_doc C r v"
  shows "reader_node r at = Ok (blob_encode v, map_option (\<lambda>(k, c). word_of_nat (head k c)) (slot 5 v at))"
    and "slot 5 v at = Some (k, c) \<Longrightarrow> stored (blob_encode v) k c \<and> value_ok C c"
    and "map_option snd (slot 5 v at) = subtree v at"
  using node_navigate_stored [OF stored_encode] assms slot_subtree [of 5 v at]
  by (auto simp: reads_doc_def reader_node_def reader_view_def payload_from_def split: option.splits)

lemma node_reads:
  assumes "stored blob k c" "value_ok C c"
  shows "node_scalar_if_leaf C blob (word_of_nat (head k c)) = Ok (value_leaf c)"
    and "node_kind_of blob (word_of_nat (head k c)) = Ok (value_node_kind c)"
    and "c = List l \<Longrightarrow> node_len blob (word_of_nat (head k c)) = Ok (length l)"
    and "value_node_kind c \<noteq> KList \<Longrightarrow> \<exists>e. node_len blob (word_of_nat (head k c)) = Err e"
    and "c = Node m \<Longrightarrow> node_object_keys blob (word_of_nat (head k c)) = Ok (map fst m)"
    and "value_node_kind c \<noteq> KObject \<Longrightarrow> \<exists>e. node_object_keys blob (word_of_nat (head k c)) = Err e"
proof -
  note tag = stored_tag [OF assms(1)] and off = stored_off [OF assms(1)]
  show "node_scalar_if_leaf C blob (word_of_nat (head k c)) = Ok (value_leaf c)"
  proof (cases c)
    case (Leaf s)
    then show ?thesis
      using node_scalar_stored [of blob k s C] assms off by (auto simp: node_scalar_if_leaf_def rest_from_def)
  qed (use tag off in \<open>simp_all add: node_scalar_if_leaf_def del: head.simps\<close>)
  show "node_kind_of blob (word_of_nat (head k c)) = Ok (value_node_kind c)"
    using tag off by (cases c) (simp_all add: node_kind_of_def del: head.simps)
  show "value_node_kind c \<noteq> KList \<Longrightarrow> \<exists>e. node_len blob (word_of_nat (head k c)) = Err e"
    using tag off by (cases c) (simp_all add: node_len_def del: head.simps)
  show "value_node_kind c \<noteq> KObject \<Longrightarrow> \<exists>e. node_object_keys blob (word_of_nat (head k c)) = Err e"
    using tag off by (cases c) (simp_all add: node_object_keys_def node_entries_def del: head.simps)
  show "node_object_keys blob (word_of_nat (head k c)) = Ok (map fst m)" if "c = Node m"
    using node_entries_stored [of blob k m C] assms unfolding that
    by (simp add: node_object_keys_def map_fst_zip del: head.simps)
  show "node_len blob (word_of_nat (head k c)) = Ok (length l)" if "c = List l"
    using tag off stored_count [OF assms(1)[unfolded that]] assms(2) unfolding that
    by (simp add: node_len_def u32_small del: head.simps)
qed

interpretation archived: value_reader "ar_scalar_at C" ar_kind_at ar_len_at ar_keys_at ar_exists_at "reads_doc C" for C
proof
  fix r v at assume r: "reads_doc C r v"
  note nav = reader_node_doc(1) [OF r, of at] and st = reader_node_doc(2) [OF r, of at] and sub = reader_node_doc(3) [OF r, of at]
  have at: "subtree v at = None \<and> slot 5 v at = None \<or> (\<exists>k c. slot 5 v at = Some (k, c) \<and> subtree v at = Some c)"
    using sub by (cases "slot 5 v at") auto
  show "ar_scalar_at C r at = Ok (Option.bind (subtree v at) value_leaf)"
    using at nav st node_reads(1) [of _ _ _ C] by (auto simp: ar_scalar_at_def)
  show "ar_kind_at r at = Ok (map_option value_node_kind (subtree v at))"
    using at nav st node_reads(2) [of _ _ _ C] by (auto simp: ar_kind_at_def)
  show "ar_exists_at r at = Ok (subtree v at \<noteq> None)"
    using at nav by (auto simp: ar_exists_at_def)
  show "ar_len_at r at = Ok (length l)" if "subtree v at = Some (List l)" for l
    using that at nav st node_reads(3) [of _ _ _ C] by (auto simp: ar_len_at_def simp del: head.simps)
  show "ar_keys_at r at = Ok (map fst m)" if "subtree v at = Some (Node m)" for m
    using that at nav st node_reads(5) [of _ _ _ C] by (auto simp: ar_keys_at_def simp del: head.simps)
  have kind: "value_node_kind c \<noteq> KList \<longleftrightarrow> (\<forall>l. c \<noteq> List l)" "value_node_kind c \<noteq> KObject \<longleftrightarrow> (\<forall>m. c \<noteq> Node m)" for c
    by (cases c; simp)+
  show "\<exists>e. ar_len_at r at = Err e" if "\<And>l. subtree v at \<noteq> Some (List l)"
    using that at nav st node_reads(4) [of _ _ _ C] by (auto simp: ar_len_at_def kind simp del: head.simps)
  show "\<exists>e. ar_keys_at r at = Err e" if "\<And>m. subtree v at \<noteq> Some (Node m)"
    using that at nav st node_reads(6) [of _ _ _ C] by (auto simp: ar_keys_at_def kind simp del: head.simps)
qed

lemma archived_reader_new_doc:
  assumes "value_ok C v" "blob_fits v"
  shows "\<exists>r. archived_reader_new (t # blob_encode v) 1 = Ok r \<and> reads_doc C r v"
  using assms archived_new_encode [OF assms(2)]
  by (auto simp: archived_reader_new_def payload_from_def reads_doc_def)

section \<open>Properties\<close>

text \<open>C32: reading a stored document field by field is reading the document. A reader opened over the stored entry
  answers every question about every path as the in-memory document does: same scalars, same kinds,
  same lengths, same field names in the same order, and the two refuse the same questions.\<close>

theorem readers_agree:
  assumes "value_ok C v" "blob_fits v"
  shows "\<exists>r. archived_reader_new (t # blob_encode v) 1 = Ok r \<and>
    ar_scalar_at C r at = mem_scalar_at v at \<and> ar_kind_at r at = mem_kind_at v at \<and> ar_exists_at r at = mem_exists_at v at \<and>
    (\<forall>n. ar_len_at r at = Ok n \<longleftrightarrow> mem_len_at v at = Ok n) \<and> (\<forall>ks. ar_keys_at r at = Ok ks \<longleftrightarrow> mem_keys_at v at = Ok ks)"
proof -
  obtain r where r: "archived_reader_new (t # blob_encode v) 1 = Ok r" "reads_doc C r v"
    using archived_reader_new_doc [OF assms] by blast
  have "ar_len_at r at = Ok n \<longleftrightarrow> mem_len_at v at = Ok n" for n
    using archived.len_law [OF r(2)] archived.len_refused [OF r(2), of at] mem.len_law [OF refl, of v at] mem.len_refused [OF refl, of v at]
    by (cases "\<exists>l. subtree v at = Some (List l)") auto
  moreover have "ar_keys_at r at = Ok ks \<longleftrightarrow> mem_keys_at v at = Ok ks" for ks
    using archived.keys_law [OF r(2)] archived.keys_refused [OF r(2), of at] mem.keys_law [OF refl, of v at] mem.keys_refused [OF refl, of v at]
    by (cases "\<exists>m. subtree v at = Some (Node m)") auto
  ultimately show ?thesis
    using r(1) archived.scalar_law [OF r(2), of at] archived.kind_law [OF r(2), of at] archived.exists_law [OF r(2), of at]
      mem.scalar_law [OF refl, of v at] mem.kind_law [OF refl, of v at] mem.exists_law [OF refl, of v at] by auto
qed

theorem readers_agree_witness:
  "\<exists>r. archived_reader_new (1 # blob_encode sample_doc) 1 = Ok r \<and>
    ar_scalar_at calendar r [Name ''tags'', Index 0] = Ok (Some (U8 1)) \<and> ar_len_at r [Name ''tags'', Index 0] \<noteq> Ok 1"
  using readers_agree [OF sample_doc_ok sample_doc_fits, of 1 "[Name ''tags'', Index 0]"]
  by (auto simp: mem_scalar_at_def mem_len_at_def sample_doc_def bt_get_def nth_opt_def)

end
