(* ===== verification/Ops.thy ===== *)
theory Ops
  imports Errors
begin

text \<open>
  Fallible operations on a mutable state. A Rust method that mutates shared state and returns a
  \<open>Result\<close> keeps the mutations it made before it failed, so an operation returns its result and the
  state as it leaves it, in the error case too. \<open>bindOp\<close> is the \<open>?\<close> operator for such operations.
\<close>

type_synonym ('s, 'a) op = "'s \<Rightarrow> 'a res \<times> 's"

definition retOp :: "'a \<Rightarrow> ('s, 'a) op" where
  "retOp x s = (Ok x, s)"

definition liftOp :: "'a res \<Rightarrow> ('s, 'a) op" where
  "liftOp r s = (r, s)"

text \<open>A fallible read of the state.\<close>

definition readOp :: "('s \<Rightarrow> 'a res) \<Rightarrow> ('s, 'a) op" where
  "readOp f s = (f s, s)"

definition bindOp :: "('s, 'a) op \<Rightarrow> ('a \<Rightarrow> ('s, 'b) op) \<Rightarrow> ('s, 'b) op" where
  "bindOp m f s =
     (case m s of
        (Ok x, s') \<Rightarrow> f x s'
      | (Err e, s') \<Rightarrow> (Err e, s')
      | (Panic p, s') \<Rightarrow> (Panic p, s')
      | (Diverge, s') \<Rightarrow> (Diverge, s'))"

definition seqOp :: "('s, 'a) op \<Rightarrow> ('s, 'b) op \<Rightarrow> ('s, 'b) op" where
  "seqOp m n = bindOp m (\<lambda>_. n)"

text \<open>\<open>for x in xs { body(x)? }\<close>, and the same collecting the results.\<close>

fun forOp :: "'a list \<Rightarrow> ('a \<Rightarrow> ('s, unit) op) \<Rightarrow> ('s, unit) op" where
  "forOp [] body = retOp ()"
| "forOp (x # xs) body = seqOp (body x) (forOp xs body)"

fun mapOp :: "('a \<Rightarrow> ('s, 'b) op) \<Rightarrow> 'a list \<Rightarrow> ('s, 'b list) op" where
  "mapOp body [] = retOp []"
| "mapOp body (x # xs) = bindOp (body x) (\<lambda>y. bindOp (mapOp body xs) (\<lambda>ys. retOp (y # ys)))"

section \<open>Lemmas\<close>

named_theorems op_simps \<open>evaluating operations on a state\<close>

lemma retOp_apply [simp, op_simps]: "retOp x s = (Ok x, s)"
  by (simp add: retOp_def)

lemma liftOp_apply [simp, op_simps]: "liftOp r s = (r, s)"
  by (simp add: liftOp_def)

lemma readOp_apply [simp, op_simps]: "readOp f s = (f s, s)"
  by (simp add: readOp_def)

lemma bindOp_Ok [simp, op_simps]: "m s = (Ok x, s') \<Longrightarrow> bindOp m f s = f x s'"
  by (simp add: bindOp_def)

lemma bindOp_Err [simp, op_simps]: "m s = (Err e, s') \<Longrightarrow> bindOp m f s = (Err e, s')"
  by (simp add: bindOp_def)

lemma bindOp_Panic [simp, op_simps]: "m s = (Panic e, s') \<Longrightarrow> bindOp m f s = (Panic e, s')"
  by (simp add: bindOp_def)

lemma bindOp_Diverge [simp, op_simps]: "m s = (Diverge, s') \<Longrightarrow> bindOp m f s = (Diverge, s')"
  by (simp add: bindOp_def)

lemma seqOp_Ok [simp, op_simps]: "m s = (Ok x, s') \<Longrightarrow> seqOp m n s = n s'"
  by (simp add: seqOp_def)

lemma bindOp_OkE:
  assumes "bindOp m f s = (Ok y, s2)"
  obtains x s1 where "m s = (Ok x, s1)" "f x s1 = (Ok y, s2)"
  using assms by (auto simp: bindOp_def split: prod.splits res.splits)

lemma bindOp_cong [fundef_cong]:
  "s = s' \<Longrightarrow> m s' = m' s' \<Longrightarrow> (\<And>x s1. m' s' = (Ok x, s1) \<Longrightarrow> f x s1 = f' x s1) \<Longrightarrow>
   bindOp m f s = bindOp m' f' s'"
  by (auto simp: bindOp_def split: prod.splits res.splits)

lemma fst_bind_ret: "fst (bindOp m (\<lambda>x. retOp (f x)) s) = andThen (fst (m s)) (\<lambda>x. Ok (f x))"
  by (cases "m s"; cases "fst (m s)") (auto simp: bindOp_def)

end
