(* ===== verification/Keys.thy ===== *)
theory Keys
  imports Errors
begin

text \<open>
  Arbor-node keys (\<open>key.rs\<close>). An \<open>AKey\<close> wraps a \<open>Uuid\<close>, sixteen bytes read as a big-endian
  128-bit number; the model keeps that number. Fresh keys come from a per-thread splitmix64
  generator, whose state is passed explicitly; its seed (a version 7 UUID) is an argument.
  Lemmas: keys and bytes round-trip, the splitmix64 output function is a bijection, and a
  generator never repeats a key within its period of \<open>2 ^ 63\<close> keys.
\<close>

unbundle bit_operations_syntax

type_synonym akey = u128

definition akey_ROOT :: akey where
  "akey_ROOT = 0"

text \<open>\<open>seed\<close>: both halves of the UUID mixed, with the low bit set.\<close>

definition key_seed :: "u128 \<Rightarrow> u64" where
  "key_seed bits = ((ucast bits :: u64) XOR (ucast (drop_bit 64 bits) :: u64)) OR 1"

definition mix64 :: "u64 \<Rightarrow> u64" where
  "mix64 s =
     (let z = (s XOR drop_bit 30 s) * 0xBF58476D1CE4E5B9;
          z = (z XOR drop_bit 27 z) * 0x94D049BB133111EB
      in z XOR drop_bit 31 z)"

text \<open>One draw: the output and the advanced state.\<close>

definition split_mix64 :: "u64 \<Rightarrow> u64 \<times> u64" where
  "split_mix64 state = (let s = state + 0x9E3779B97F4A7C15 in (mix64 s, s))"

definition akey_generate :: "u64 \<Rightarrow> akey \<times> u64" where
  "akey_generate state =
     (let (hi, s1) = split_mix64 state;
          (lo, s2) = split_mix64 s1
      in (push_bit 64 (ucast hi :: u128) OR (ucast lo :: u128), s2))"

definition akey_into_bytes :: "akey \<Rightarrow> bytes" where
  "akey_into_bytes k = be_bytes k"

text \<open>\<open>from_bytes\<close> takes an array of exactly 16 bytes.\<close>

definition akey_from_bytes :: "bytes \<Rightarrow> akey" where
  "akey_from_bytes bs = from_be_bytes bs"

definition akey_try_from_bytes :: "bytes \<Rightarrow> akey res" where
  "akey_try_from_bytes bs =
     (if length bs \<noteq> 16 then Err (BadKey ''bytes with length different from 16'')
      else Ok (akey_from_bytes bs))"

text \<open>The keys a generator yields, in order.\<close>

primrec generate_many :: "nat \<Rightarrow> u64 \<Rightarrow> akey list" where
  "generate_many 0 state = []"
| "generate_many (Suc n) state =
     (let (k, s) = akey_generate state in k # generate_many n s)"

section \<open>Keys as bytes\<close>

lemma length_akey_into_bytes [simp]: "length (akey_into_bytes k) = 16"
  by (simp add: akey_into_bytes_def)

lemma akey_from_into [simp]: "akey_from_bytes (akey_into_bytes k) = k"
  by (simp add: akey_from_bytes_def akey_into_bytes_def from_be_be_bytes)

lemma akey_into_from: "length bs = 16 \<Longrightarrow> akey_into_bytes (akey_from_bytes bs) = bs"
  by (simp add: akey_from_bytes_def akey_into_bytes_def be_bytes_from_be)

lemma akey_try_from_into [simp]: "akey_try_from_bytes (akey_into_bytes k) = Ok k"
  by (simp add: akey_try_from_bytes_def)

lemma akey_into_bytes_inj [simp]: "akey_into_bytes k = akey_into_bytes l \<longleftrightarrow> k = l"
  by (simp add: akey_into_bytes_def)

section \<open>The output function of splitmix64 is a bijection\<close>

text \<open>A right shift by \<open>n\<close> keeps the top \<open>n\<close> bits, so \<open>z XOR (z >> n)\<close> can be undone from the
  top.\<close>

lemma xorshift_inj:
  fixes v w :: u64
  assumes eq: "v XOR drop_bit n v = w XOR drop_bit n w" and n: "0 < n"
  shows "v = w"
proof (rule bit_word_eqI)
  fix i assume i: "i < LENGTH(64)"
  have step: "bit v j \<noteq> bit v (n + j) \<longleftrightarrow> bit w j \<noteq> bit w (n + j)" if "j < 64" for j
    using arg_cong [OF eq, of "\<lambda>x. bit x j"] that by (simp add: bit_simps)
  from i show "bit v i = bit w i"
  proof (induction "64 - i" arbitrary: i rule: less_induct)
    case less
    show ?case
    proof (cases "n + i < 64")
      case True
      then have "bit v (n + i) = bit w (n + i)" using n less.prems by (intro less.hyps) auto
      then show ?thesis using step [of i] less.prems by auto
    next
      case False
      then have "\<not> bit v (n + i)" "\<not> bit w (n + i)"
        by (auto dest!: bit_imp_le_length)
      then show ?thesis using step [of i] less.prems by auto
    qed
  qed
qed

lemma mult_odd_inj:
  fixes v w :: u64
  assumes "v * c = w * c" and "c * d = 1"
  shows "v = w"
proof -
  have "v * (c * d) = w * (c * d)" using assms(1) by (simp flip: mult.assoc)
  then show ?thesis by (simp add: assms(2))
qed

lemma mix64_inj: "mix64 v = mix64 w \<Longrightarrow> v = w"
proof -
  assume "mix64 v = mix64 w"
  let ?f = "\<lambda>z :: u64. (z XOR drop_bit 30 z) * 0xBF58476D1CE4E5B9"
  let ?g = "\<lambda>z :: u64. (z XOR drop_bit 27 z) * 0x94D049BB133111EB"
  have "?g (?f v) XOR drop_bit 31 (?g (?f v)) = ?g (?f w) XOR drop_bit 31 (?g (?f w))"
    using \<open>mix64 v = mix64 w\<close> unfolding mix64_def Let_def .
  then have "?g (?f v) = ?g (?f w)" by (rule xorshift_inj) simp
  then have "?f v XOR drop_bit 27 (?f v) = ?f w XOR drop_bit 27 (?f w)"
    by (rule mult_odd_inj [where d = "0x319642B2D24D8EC3"]) simp
  then have "?f v = ?f w" by (rule xorshift_inj) simp
  then have "v XOR drop_bit 30 v = w XOR drop_bit 30 w"
    by (rule mult_odd_inj [where d = "0x96DE1B173F119089"]) simp
  then show "v = w" by (rule xorshift_inj) simp
qed

section \<open>Generated keys\<close>

definition gamma :: u64 where
  "gamma = 0x9E3779B97F4A7C15"

lemma akey_generate_eq:
  "akey_generate s =
     (push_bit 64 (ucast (mix64 (s + gamma))) OR ucast (mix64 (s + 2 * gamma)), s + 2 * gamma)"
  by (simp add: akey_generate_def split_mix64_def gamma_def Let_def add.commute)

lemma join_halves_eq:
  fixes a b c d :: u64
  assumes "(push_bit 64 (ucast a) OR ucast b :: u128) = push_bit 64 (ucast c) OR ucast d"
  shows "a = c \<and> b = d"
proof -
  have "bit a i = bit c i \<and> bit b i = bit d i" if "i < 64" for i
    using arg_cong [OF assms, of "\<lambda>x. bit x i"] arg_cong [OF assms, of "\<lambda>x. bit x (64 + i)"] that
    by (auto simp: bit_simps dest: bit_imp_le_length)
  then show ?thesis by (auto intro: bit_word_eqI)
qed

lemma akey_generate_not_root: "fst (akey_generate s) \<noteq> akey_ROOT"
proof
  assume "fst (akey_generate s) = akey_ROOT"
  then have "(push_bit 64 (ucast (mix64 (s + gamma))) OR ucast (mix64 (s + 2 * gamma)) :: u128)
      = push_bit 64 (ucast (0 :: u64)) OR ucast (0 :: u64)"
    by (simp add: akey_generate_eq akey_ROOT_def)
  then have "mix64 (s + gamma) = mix64 (s + 2 * gamma)" using join_halves_eq by metis
  then have "s + gamma = s + 2 * gamma" by (rule mix64_inj)
  then show False by (simp add: gamma_def)
qed

lemma generate_many_nth:
  "i < n \<Longrightarrow> generate_many n s ! i = fst (akey_generate (s + of_nat (2 * i) * gamma))"
proof (induction n arbitrary: s i)
  case (Suc n)
  then show ?case
    by (cases i) (simp_all add: akey_generate_eq Let_def algebra_simps)
qed simp

lemma length_generate_many [simp]: "length (generate_many n s) = n"
  by (induction n arbitrary: s) (simp_all add: akey_generate_eq)

lemma generate_nth_inj:
  assumes "i < 2 ^ 63" "j < 2 ^ 63"
    and "fst (akey_generate (s + of_nat (2 * i) * gamma))
       = fst (akey_generate (s + of_nat (2 * j) * gamma))"
  shows "i = j"
proof -
  from assms(3) have "mix64 (s + of_nat (2 * i) * gamma + gamma)
      = mix64 (s + of_nat (2 * j) * gamma + gamma)"
    by (auto simp: akey_generate_eq dest: join_halves_eq)
  then have "of_nat (2 * i) * gamma = of_nat (2 * j) * gamma"
    using mix64_inj by fastforce
  then have "(of_nat (2 * i) :: u64) = of_nat (2 * j)"
    by (rule mult_odd_inj [where d = "0xF1DE83E19937733D"]) (simp add: gamma_def)
  then have "2 * i = 2 * j"
    using assms(1,2) by (simp add: word_of_nat_eq_iff take_bit_nat_eq_self del: of_nat_mult)
  then show ?thesis by simp
qed

lemma generate_many_distinct:
  assumes "n \<le> 2 ^ 63"
  shows "distinct (generate_many n s)"
proof -
  have "i = j" if "i < n" "j < n" and eq: "generate_many n s ! i = generate_many n s ! j" for i j
    by (rule generate_nth_inj [of _ _ s]) (use that assms in \<open>simp_all add: generate_many_nth\<close>)
  then show ?thesis by (auto simp: distinct_conv_nth)
qed

section \<open>Properties\<close>

text \<open>C30: the keys one generator hands out are pairwise distinct up to its period of \<open>2 ^ 63\<close> keys,
  and none of them is the reserved key of the root directory.\<close>

theorem generated_keys_distinct:
  assumes "n \<le> 2 ^ 63"
  shows "distinct (generate_many n state) \<and> akey_ROOT \<notin> set (generate_many n state)"
proof -
  have "akey_ROOT \<notin> set (generate_many n state)"
    using akey_generate_not_root by (auto simp: in_set_conv_nth generate_many_nth)
  then show ?thesis using generate_many_distinct [OF assms] by simp
qed

theorem generated_keys_distinct_witness:
  "distinct (generate_many 1000 (key_seed 12345)) \<and> akey_ROOT \<notin> set (generate_many 1000 (key_seed 12345))"
  by (rule generated_keys_distinct) simp

end
