(* ===== verification/Typed_Data.thy ===== *)
theory Typed_Data
  imports Readers Ops Keys
begin

text \<open>
  Typed data (\<open>data/\<close>): scalars as Rust values (\<open>AValue\<close>), sequences, string-keyed maps and options (\<open>AData\<close>) with their decomposition into a document, the direct encoder
  (\<open>data/encode.rs\<close>), loading, and the accessors \<open>Leaf\<close>, \<open>Seq\<close>, \<open>Map\<close>, \<open>Opt\<close> with their mutable counterparts. A typed value is data together with its type; the types a
  user derives or writes by hand are not part of the library. A scalar of a Rust type is kept as the \<open>Scalar\<close> it converts to.
\<close>

section \<open>Types and values\<close>

datatype scalar_type =
    T_bool | T_i8 | T_i16 | T_i32 | T_i64 | T_i128 | T_u8 | T_u16 | T_u32 | T_u64 | T_u128 | T_f32 | T_f64 | T_String | T_Bytes | T_Uuid
  | T_NaiveDate | T_NaiveTime | T_DateTime | T_TimeDelta | T_usize | T_isize

primrec type_name :: "scalar_type \<Rightarrow> string" where
  "type_name T_bool = ''bool''" | "type_name T_i8 = ''i8''" | "type_name T_i16 = ''i16''" | "type_name T_i32 = ''i32''" | "type_name T_i64 = ''i64''"
| "type_name T_i128 = ''i128''" | "type_name T_u8 = ''u8''" | "type_name T_u16 = ''u16''" | "type_name T_u32 = ''u32''" | "type_name T_u64 = ''u64''"
| "type_name T_u128 = ''u128''" | "type_name T_f32 = ''f32''" | "type_name T_f64 = ''f64''" | "type_name T_String = ''str''" | "type_name T_Bytes = ''bytes''"
| "type_name T_Uuid = ''uuid''" | "type_name T_NaiveDate = ''date''" | "type_name T_NaiveTime = ''time''" | "type_name T_DateTime = ''datetime''"
| "type_name T_TimeDelta = ''duration''" | "type_name T_usize = ''usize''" | "type_name T_isize = ''isize''"

text \<open>The variant a type converts to; the widths of the platform are normalised to 64 bits.\<close>

primrec variant :: "scalar \<Rightarrow> scalar_type option" where
  "variant Null = None" | "variant (Bool _) = Some T_bool" | "variant (I8 _) = Some T_i8" | "variant (I16 _) = Some T_i16" | "variant (I32 _) = Some T_i32"
| "variant (I64 _) = Some T_i64" | "variant (I128 _) = Some T_i128" | "variant (U8 _) = Some T_u8" | "variant (U16 _) = Some T_u16" | "variant (U32 _) = Some T_u32"
| "variant (U64 _) = Some T_u64" | "variant (U128 _) = Some T_u128" | "variant (F32 _) = Some T_f32" | "variant (F64 _) = Some T_f64" | "variant (Str _) = Some T_String"
| "variant (Bytes _) = Some T_Bytes" | "variant (Uuid _) = Some T_Uuid" | "variant (Date _) = Some T_NaiveDate" | "variant (Time _) = Some T_NaiveTime"
| "variant (DateTime _ _) = Some T_DateTime" | "variant (Duration _) = Some T_TimeDelta"

definition normalised :: "scalar_type \<Rightarrow> scalar_type" where
  "normalised t = (case t of T_usize \<Rightarrow> T_u64 | T_isize \<Rightarrow> T_i64 | _ \<Rightarrow> t)"

definition of_type :: "scalar_type \<Rightarrow> scalar \<Rightarrow> bool" where
  "of_type t s \<longleftrightarrow> variant s = Some (normalised t)"

definition from_scalar :: "scalar_type \<Rightarrow> scalar \<Rightarrow> scalar res" where
  "from_scalar t s = (if of_type t s then Ok s else Err (TypeMismatch (type_name t) (type_str s)))"

text \<open>A key converts from four kinds of scalar.\<close>

definition akey_from_scalar :: "scalar \<Rightarrow> akey res" where
  "akey_from_scalar s =
     (case s of
        Uuid u \<Rightarrow> Ok u
      | Null \<Rightarrow> Ok akey_ROOT
      | Bytes v \<Rightarrow> akey_try_from_bytes v
      | U128 v \<Rightarrow> Ok v
      | _ \<Rightarrow> Err (TypeMismatch ''akey'' (type_str s)))"

definition option_to_scalar :: "scalar option \<Rightarrow> scalar" where
  "option_to_scalar v = (case v of Some v \<Rightarrow> v | None \<Rightarrow> Null)"

definition option_from_scalar :: "scalar_type \<Rightarrow> scalar \<Rightarrow> scalar option res" where
  "option_from_scalar t s = (case s of Null \<Rightarrow> Ok None | _ \<Rightarrow> andThen (from_scalar t s) (\<lambda>v. Ok (Some v)))"

datatype atype = Scalar_Type scalar_type | Vec_Type atype | Map_Type atype | Option_Type atype

datatype adata = Scalar_Data scalar | Vec_Data "adata list" | Map_Data "(string \<times> adata) list" | Option_Data "adata option"

section \<open>Decomposing\<close>

text \<open>The methods of the traits \<open>Reader\<close> and \<open>Writer\<close>.\<close>

record value_source =
  rd_scalar_at :: "vpath \<Rightarrow> scalar option res"
  rd_len_at :: "vpath \<Rightarrow> nat res"
  rd_keys_at :: "vpath \<Rightarrow> string list res"
  rd_exists_at :: "vpath \<Rightarrow> bool res"

record 'w value_sink =
  wr_source :: "'w \<Rightarrow> value_source"
  wr_put_scalar :: "vpath \<Rightarrow> scalar \<Rightarrow> ('w, unit) op"
  wr_ensure_container :: "vpath \<Rightarrow> bool \<Rightarrow> ('w, unit) op"
  wr_remove :: "vpath \<Rightarrow> ('w, bool) op"

fun adata_store :: "'w value_sink \<Rightarrow> adata \<Rightarrow> vpath \<Rightarrow> ('w, unit) op"
  and store_items :: "'w value_sink \<Rightarrow> nat \<Rightarrow> adata list \<Rightarrow> vpath \<Rightarrow> ('w, unit) op"
  and store_fields :: "'w value_sink \<Rightarrow> (string \<times> adata) list \<Rightarrow> vpath \<Rightarrow> ('w, unit) op" where
  "adata_store W (Scalar_Data s) at = wr_put_scalar W at s"
| "adata_store W (Vec_Data items) at = seqOp (wr_ensure_container W at True) (store_items W 0 items at)"
| "adata_store W (Map_Data m) at = seqOp (wr_ensure_container W at False) (store_fields W m at)"
| "adata_store W (Option_Data None) at = wr_put_scalar W at Null"
| "adata_store W (Option_Data (Some d)) at = adata_store W d at"
| "store_items W index [] at = retOp ()"
| "store_items W index (item # items) at =
     seqOp (adata_store W item (vpath_push_index at (word_of_nat index))) (store_items W (Suc index) items at)"
| "store_fields W [] at = retOp ()"
| "store_fields W ((name, d) # m) at = seqOp (adata_store W d (vpath_push_name at name)) (store_fields W m at)"

section \<open>The direct encoder\<close>

fun encode_node :: "adata \<Rightarrow> bytes \<Rightarrow> bytes \<times> u32"
  and encode_items :: "adata list \<Rightarrow> bytes \<Rightarrow> bytes \<times> u32 list"
  and encode_fields :: "(string \<times> adata) list \<Rightarrow> bytes \<Rightarrow> bytes \<times> (string \<times> u32) list" where
  "encode_node (Scalar_Data s) buf = push_leaf buf s"
| "encode_node (Vec_Data items) buf = (let (buf, offsets) = encode_items items buf in push_list buf offsets)"
| "encode_node (Map_Data m) buf = (let (buf, entries) = encode_fields m buf in push_object buf entries)"
| "encode_node (Option_Data None) buf = push_leaf buf Null"
| "encode_node (Option_Data (Some d)) buf = encode_node d buf"
| "encode_items [] buf = (buf, [])"
| "encode_items (item # items) buf =
     (let (buf, off) = encode_node item buf; (buf, offs) = encode_items items buf in (buf, off # offs))"
| "encode_fields [] buf = (buf, [])"
| "encode_fields ((name, d) # m) buf =
     (let (buf, off) = encode_node d buf; (buf, entries) = encode_fields m buf in (buf, (name, off) # entries))"

definition encode_data :: "adata \<Rightarrow> bytes" where
  "encode_data d = (let (buf, root) = encode_node d begin_blob in patch_root buf root)"

section \<open>Loading\<close>

text \<open>\<open>load\<close> of each implementation; the element type of a container comes in as its own \<open>load\<close>.\<close>

definition scalar_load :: "value_source \<Rightarrow> scalar_type \<Rightarrow> vpath \<Rightarrow> adata res" where
  "scalar_load R t at =
     andThen (rd_scalar_at R at) (\<lambda>found.
       case found of
         Some scalar \<Rightarrow> andThen (from_scalar t scalar) (\<lambda>s. Ok (Scalar_Data s))
       | None \<Rightarrow> Err (PathNotFound at))"

definition vec_load :: "value_source \<Rightarrow> (vpath \<Rightarrow> adata res) \<Rightarrow> vpath \<Rightarrow> adata res" where
  "vec_load R load at =
     andThen (rd_len_at R at) (\<lambda>len.
     andThen (res_map (\<lambda>index. load (vpath_push_index at (word_of_nat index))) [0..<len]) (\<lambda>items.
       Ok (Vec_Data items)))"

definition map_load :: "value_source \<Rightarrow> (vpath \<Rightarrow> adata res) \<Rightarrow> vpath \<Rightarrow> adata res" where
  "map_load R load at =
     andThen (rd_keys_at R at) (\<lambda>names.
     andThen (res_map (\<lambda>name. andThen (load (vpath_push_name at name)) (\<lambda>d. Ok (name, d))) names) (\<lambda>es.
       Ok (Map_Data (foldl (\<lambda>m e. bt_insert (fst e) (snd e) m) [] es))))"

definition option_load :: "value_source \<Rightarrow> (vpath \<Rightarrow> adata res) \<Rightarrow> vpath \<Rightarrow> adata res" where
  "option_load R load at =
     andThen (rd_exists_at R at) (\<lambda>found.
       if \<not> found then Ok (Option_Data None)
       else andThen (rd_scalar_at R at) (\<lambda>scalar.
         if scalar = Some Null then Ok (Option_Data None)
         else andThen (load at) (\<lambda>d. Ok (Option_Data (Some d)))))"

primrec adata_load :: "value_source \<Rightarrow> atype \<Rightarrow> vpath \<Rightarrow> adata res" where
  "adata_load R (Scalar_Type t) = scalar_load R t"
| "adata_load R (Vec_Type T) = vec_load R (adata_load R T)"
| "adata_load R (Map_Type T) = map_load R (adata_load R T)"
| "adata_load R (Option_Type T) = option_load R (adata_load R T)"

lemmas load_defs = scalar_load_def vec_load_def map_load_def option_load_def

section \<open>Accessors\<close>

definition leaf_get :: "value_source \<Rightarrow> scalar_type \<Rightarrow> vpath \<Rightarrow> scalar res" where
  "leaf_get R t base =
     andThen (rd_scalar_at R base) (\<lambda>found. case found of Some scalar \<Rightarrow> from_scalar t scalar | None \<Rightarrow> Err (PathNotFound base))"

definition seq_get :: "value_source \<Rightarrow> vpath \<Rightarrow> nat \<Rightarrow> vpath option res" where
  "seq_get R base index =
     andThen (rd_len_at R base) (\<lambda>len. if index \<ge> len then Ok None else Ok (Some (vpath_push_index base (word_of_nat index))))"

definition map_get :: "value_source \<Rightarrow> vpath \<Rightarrow> string \<Rightarrow> vpath option res" where
  "map_get R base name =
     andThen (rd_exists_at R (vpath_push_name base name)) (\<lambda>found. if \<not> found then Ok None else Ok (Some (vpath_push_name base name)))"

definition map_contains_key :: "value_source \<Rightarrow> vpath \<Rightarrow> string \<Rightarrow> bool res" where
  "map_contains_key R base name = rd_exists_at R (vpath_push_name base name)"

definition map_len :: "value_source \<Rightarrow> vpath \<Rightarrow> nat res" where
  "map_len R base = andThen (rd_keys_at R base) (\<lambda>names. Ok (length names))"

definition opt_is_some :: "value_source \<Rightarrow> vpath \<Rightarrow> bool res" where
  "opt_is_some R base =
     andThen (rd_exists_at R base) (\<lambda>found.
       if \<not> found then Ok False else andThen (rd_scalar_at R base) (\<lambda>scalar. Ok (scalar \<noteq> Some Null)))"

definition opt_get :: "value_source \<Rightarrow> vpath \<Rightarrow> vpath option res" where
  "opt_get R base = andThen (opt_is_some R base) (\<lambda>some. Ok (if some then Some base else None))"

definition leaf_set :: "'w value_sink \<Rightarrow> vpath \<Rightarrow> scalar \<Rightarrow> ('w, unit) op" where
  "leaf_set W base s = wr_put_scalar W base s"

definition seq_push :: "'w value_sink \<Rightarrow> vpath \<Rightarrow> adata \<Rightarrow> ('w, unit) op" where
  "seq_push W base d =
     bindOp (readOp (\<lambda>w. rd_len_at (wr_source W w) base)) (\<lambda>index. adata_store W d (vpath_push_index base (word_of_nat index)))"

definition map_insert :: "'w value_sink \<Rightarrow> vpath \<Rightarrow> string \<Rightarrow> adata \<Rightarrow> ('w, unit) op" where
  "map_insert W base name d =
     seqOp (wr_remove W (vpath_push_name base name)) (adata_store W d (vpath_push_name base name))"

definition map_remove :: "'w value_sink \<Rightarrow> vpath \<Rightarrow> string \<Rightarrow> ('w, bool) op" where
  "map_remove W base name = wr_remove W (vpath_push_name base name)"

definition opt_set :: "'w value_sink \<Rightarrow> vpath \<Rightarrow> adata option \<Rightarrow> ('w, unit) op" where
  "opt_set W base d =
     seqOp (wr_remove W base) (case d of None \<Rightarrow> wr_put_scalar W base Null | Some d \<Rightarrow> adata_store W d base)"

definition opt_clear :: "'w value_sink \<Rightarrow> vpath \<Rightarrow> ('w, unit) op" where
  "opt_clear W base = opt_set W base None"

section \<open>The in-memory writer and the reader of a stored entry\<close>

definition mem_source :: "vnode \<Rightarrow> value_source" where
  "mem_source w = \<lparr>rd_scalar_at = mem_scalar_at w, rd_len_at = mem_len_at w, rd_keys_at = mem_keys_at w, rd_exists_at = mem_exists_at w\<rparr>"

definition mem_sink :: "vnode value_sink" where
  "mem_sink = \<lparr>wr_source = mem_source, wr_put_scalar = mem_put_scalar, wr_ensure_container = mem_ensure_container, wr_remove = mem_remove\<rparr>"

definition archived_source :: "chrono \<Rightarrow> archived_reader \<Rightarrow> value_source" where
  "archived_source C r = \<lparr>rd_scalar_at = ar_scalar_at C r, rd_len_at = ar_len_at r, rd_keys_at = ar_keys_at r, rd_exists_at = ar_exists_at r\<rparr>"

text \<open>The default of \<open>encode_node\<close>: decompose into a document in memory and encode that.\<close>

definition encode_by_value :: "adata \<Rightarrow> bytes res" where
  "encode_by_value d = (case adata_store mem_sink d vpath_root mem_new of (r, w) \<Rightarrow> andThen r (\<lambda>_. Ok (blob_encode w)))"

end
