(* ===== verification/Typed_Laws.thy ===== *)
theory Typed_Laws
  imports Typed_Data
begin

text \<open>
  What typed data promises: the direct encoder writes the very bytes that decomposing into a document and encoding that would, loading from a stored entry gives back what was
  stored, and whatever is stored, loading at a type gives a value of that type or an error.
\<close>

section \<open>The document of a typed value\<close>

fun data_doc :: "adata \<Rightarrow> vnode" where
  "data_doc (Scalar_Data s) = Leaf s"
| "data_doc (Vec_Data ds) = List (map data_doc ds)"
| "data_doc (Map_Data m) = Node (map (\<lambda>e. (fst e, data_doc (snd e))) m)"
| "data_doc (Option_Data None) = Leaf Null"
| "data_doc (Option_Data (Some d)) = data_doc d"

fun has_type :: "adata \<Rightarrow> atype \<Rightarrow> bool" where
  "has_type (Scalar_Data s) (Scalar_Type t) = of_type t s"
| "has_type (Vec_Data ds) (Vec_Type T) = (\<forall>d \<in> set ds. has_type d T)"
| "has_type (Map_Data m) (Map_Type T) = (bt_ok m \<and> (\<forall>e \<in> set m. has_type (snd e) T))"
| "has_type (Option_Data None) (Option_Type T) = True"
| "has_type (Option_Data (Some d)) (Option_Type T) = has_type d T"
| "has_type _ _ = False"

text \<open>Maps sorted, every index of a sequence within a \<open>u64\<close>, and no key that a path takes for the current or the parent position.\<close>

definition plain :: "string \<Rightarrow> bool" where
  "plain name \<longleftrightarrow> name \<noteq> ''.'' \<and> name \<noteq> ''..''"

lemma push_plain: "plain name \<Longrightarrow> vpath_push_name p name = p @ [Name name]"
  by (simp add: plain_def vpath_push_name_def)

fun adata_ok :: "adata \<Rightarrow> bool" where
  "adata_ok (Scalar_Data s) = True"
| "adata_ok (Vec_Data ds) = (length ds < 2 ^ 64 \<and> (\<forall>d \<in> set ds. adata_ok d))"
| "adata_ok (Map_Data m) = (bt_ok m \<and> (\<forall>e \<in> set m. plain (fst e) \<and> adata_ok (snd e)))"
| "adata_ok (Option_Data None) = True"
| "adata_ok (Option_Data (Some d)) = adata_ok d"

text \<open>No \<open>Some\<close> of a value that is stored as null: of \<open>Some None\<close> only \<open>None\<close> comes back.\<close>

fun definite :: "adata \<Rightarrow> bool" where
  "definite (Scalar_Data s) = True"
| "definite (Vec_Data ds) = (\<forall>d \<in> set ds. definite d)"
| "definite (Map_Data m) = (\<forall>e \<in> set m. definite (snd e))"
| "definite (Option_Data None) = True"
| "definite (Option_Data (Some d)) = (data_doc d \<noteq> Leaf Null \<and> definite d)"

section \<open>The direct encoder\<close>

lemma encode_node_push:
  "encode_node d buf = push_value (data_doc d) buf"
  "encode_items ds buf = push_values (map data_doc ds) buf"
  "encode_fields m buf = push_entries (map (\<lambda>e. (fst e, data_doc (snd e))) m) buf"
  by (induction d buf and ds buf and m buf rule: encode_node_encode_items_encode_fields.induct) (auto simp: Let_def split: prod.split)

lemma encode_data_eq: "encode_data d = blob_encode (data_doc d)"
  by (simp add: encode_data_def blob_encode_def encode_node_push)

text \<open>A place in a document under construction.\<close>

definition hole :: "vnode \<Rightarrow> vpath \<Rightarrow> (vnode \<Rightarrow> vnode) \<Rightarrow> bool" where
  "hole w at P \<longleftrightarrow> (\<forall>x. snd (set_in w at x) = P x) \<and> (\<forall>y q. subtree (P y) (at @ q) = subtree y q) \<and>
     (\<forall>y q x. snd (set_in (P y) (at @ q) x) = P (snd (set_in y q x)))"

lemma holeD:
  assumes "hole w at P"
  shows "snd (set_in w at x) = P x" "subtree (P y) (at @ q) = subtree y q" "snd (set_in (P y) (at @ q) x) = P (snd (set_in y q x))"
  using assms by (auto simp: hole_def)

lemma hole_root: "hole w [] (\<lambda>x. x)"
  by (simp add: hole_def)

lemma hole_item:
  assumes "hole w at P" "length l < 2 ^ 64"
  shows "hole (P (List l)) (at @ [Index (word_of_nat (length l))]) (\<lambda>x. P (List (l @ [x])))"
proof -
  have i: "unat (word_of_nat (length l) :: u64) = length l" using assms(2) by (simp add: unat_of_nat take_bit_nat_eq_self)
  have "snd (set_in (List l) [Index (word_of_nat (length l))] x) = List (l @ [x])" for x by (simp add: i Let_def)
  moreover have "subtree (List (l @ [y])) (Index (word_of_nat (length l)) # q) = subtree y q" for y q by (simp add: i nth_opt_def)
  moreover have "snd (set_in (List (l @ [y])) (Index (word_of_nat (length l)) # q) x) = List (l @ [snd (set_in y q x)])" for y q x
    by (simp add: i Let_def split: prod.split)
  ultimately show ?thesis unfolding hole_def using holeD(2,3) [OF assms(1)] by simp
qed

lemma hole_field:
  assumes "hole w at P" "bt_ok m" "bt_get m name = None"
  shows "hole (P (Node m)) (at @ [Name name]) (\<lambda>x. P (Node (bt_insert name x m)))"
proof -
  have twice: "bt_insert name c (bt_insert name y m) = bt_insert name c m" for c y using assms(2) by (intro bt_ext) auto
  have "snd (set_in (Node m) [Name name] x) = Node (bt_insert name x m)" for x by (simp add: assms(3))
  moreover have "subtree (Node (bt_insert name y m)) (Name name # q) = subtree y q" for y q using assms(2) by simp
  moreover have "snd (set_in (Node (bt_insert name y m)) (Name name # q) x) = Node (bt_insert name (snd (set_in y q x)) m)" for y q x
    using assms(2) by (simp add: twice split: prod.split)
  ultimately show ?thesis unfolding hole_def using holeD(2,3) [OF assms(1)] by simp
qed

lemma mem_sink_simps [simp]: "wr_put_scalar mem_sink = mem_put_scalar" "wr_ensure_container mem_sink = mem_ensure_container" "wr_remove mem_sink = mem_remove"
  "wr_source mem_sink = mem_source"
  by (simp_all add: mem_sink_def)

lemma ensure_container_hole:
  assumes "hole w at P" "subtree w at = None \<or> w = P (Node [])"
  shows "mem_ensure_container at as_list w = (Ok (), P (if as_list then List [] else Node []))"
  using assms holeD(2) [OF assms(1), of "Node []" "[]"] holeD(1) [OF assms(1)] by (auto simp: mem_ensure_container_def Let_def)

definition stores :: "adata \<Rightarrow> bool" where
  "stores d \<longleftrightarrow> (\<forall>w at P. hole w at P \<longrightarrow> subtree w at = None \<or> w = P (Node []) \<longrightarrow> adata_store mem_sink d at w = (Ok (), P (data_doc d)))"

lemma storesD: "stores d \<Longrightarrow> hole w at P \<Longrightarrow> subtree w at = None \<or> w = P (Node []) \<Longrightarrow> adata_store mem_sink d at w = (Ok (), P (data_doc d))"
  unfolding stores_def by blast

lemma store_items_hole:
  assumes "hole w at P" "\<forall>d \<in> set ds. stores d" "length l + length ds < 2 ^ 64"
  shows "store_items mem_sink (length l) ds at (P (List l)) = (Ok (), P (List (l @ map data_doc ds)))"
  using assms(2,3)
proof (induction ds arbitrary: l)
  case (Cons d ds)
  have l: "length l < 2 ^ 64" using Cons.prems(2) by simp
  have i: "unat (word_of_nat (length l) :: u64) = length l" using l by (simp add: unat_of_nat take_bit_nat_eq_self)
  have "subtree (P (List l)) (at @ [Index (word_of_nat (length l))]) = None"
    using holeD(2) [OF assms(1), of "List l" "[Index (word_of_nat (length l))]"] i by (simp add: nth_opt_def)
  then have "adata_store mem_sink d (at @ [Index (word_of_nat (length l))]) (P (List l)) = (Ok (), P (List (l @ [data_doc d])))"
    using storesD [OF _ hole_item [OF assms(1) l], of d] Cons.prems(1) by simp
  then show ?case using Cons.IH [of "l @ [data_doc d]"] Cons.prems by (simp add: vpath_push_index_def)
qed simp

lemma store_fields_hole:
  assumes "hole w at P" "\<forall>e \<in> set m. plain (fst e) \<and> stores (snd e)" "bt_ok m0" "distinct (map fst m)" "\<forall>n \<in> fst ` set m. bt_get m0 n = None"
  shows "store_fields mem_sink m at (P (Node m0)) = (Ok (), P (Node (foldl (\<lambda>a e. bt_insert (fst e) (snd e) a) m0 (map (\<lambda>e. (fst e, data_doc (snd e))) m))))"
  using assms(2-)
proof (induction m arbitrary: m0)
  case (Cons e m)
  obtain n d where e: "e = (n, d)" by (cases e)
  have "subtree (P (Node m0)) (at @ [Name n]) = None"
    using holeD(2) [OF assms(1), of "Node m0" "[Name n]"] Cons.prems(4) e by simp
  then have "adata_store mem_sink d (at @ [Name n]) (P (Node m0)) = (Ok (), P (Node (bt_insert n (data_doc d) m0)))"
    using storesD [OF _ hole_field [OF assms(1) Cons.prems(2)], of d n] Cons.prems(1,4) e by simp
  moreover have "\<forall>x \<in> fst ` set m. bt_get (bt_insert n (data_doc d) m0) x = None" using Cons.prems(3,4) e by auto
  ultimately show ?case using Cons.IH [of "bt_insert n (data_doc d) m0"] Cons.prems e by (simp add: push_plain)
qed simp

lemma adata_stores: "adata_ok d \<Longrightarrow> stores d"
proof (induction d rule: data_doc.induct)
  case (1 s)
  then show ?case by (simp add: stores_def mem_put_scalar_def holeD(1))
next
  case (2 ds)
  then show ?case using store_items_hole [where l = "[]" and ds = ds] by (auto simp: stores_def ensure_container_hole)
next
  case (3 m)
  have "bt_ok (map (\<lambda>e. (fst e, data_doc (snd e))) m)" using 3(2) by (simp add: bt_ok_def comp_def)
  then have fold: "foldl (\<lambda>a e. bt_insert (fst e) (snd e) a) [] (map (\<lambda>e. (fst e, data_doc (snd e))) m) = map (\<lambda>e. (fst e, data_doc (snd e))) m"
    using foldl_bt_insert [of "[]"] by simp
  have "\<forall>e \<in> set m. plain (fst e) \<and> stores (snd e)" "distinct (map fst m)" using 3 bt_ok_distinct by auto
  then have "store_fields mem_sink m at (P (Node [])) = (Ok (), P (data_doc (Map_Data m)))" if "hole w at P" for w at P
    using store_fields_hole [OF that, of m "[]"] fold by simp
  then show ?case by (auto simp: stores_def ensure_container_hole simp del: data_doc.simps)
next
  case 4
  then show ?case by (simp add: stores_def mem_put_scalar_def holeD(1))
next
  case (5 d)
  then show ?case by (simp add: stores_def)
qed

text \<open>C23: the direct encoder is the reference encoder on every typed value none of whose maps has the key \<open>.\<close> or \<open>..\<close> (and whose sequences have fewer than 2^64 elements): \<open>encode_data\<close>, which
  writes the blob in one pass over the value, gives byte for byte the blob obtained by decomposing the value into a document in memory and encoding that. For those two keys the encoders
  differ, as is shown below.\<close>

theorem typed_encoder_agrees:
  assumes "adata_ok d"
  shows "encode_by_value d = Ok (encode_data d)"
  using storesD [OF adata_stores [OF assms] hole_root, of mem_new] by (simp add: encode_by_value_def encode_data_eq mem_new_def vpath_root_def)

text \<open>A value with a map, an option of each kind and a sequence.\<close>

definition sample_data :: adata where
  "sample_data = Map_Data [(''a'', Option_Data (Some (Vec_Data [Scalar_Data (U8 1)]))), (''b'', Option_Data None)]"

definition sample_type :: atype where
  "sample_type = Map_Type (Option_Type (Vec_Type (Scalar_Type T_u8)))"

lemma sample_data_ok: "adata_ok sample_data" "has_type sample_data sample_type" "definite sample_data"
  by (simp_all add: sample_data_def sample_type_def bt_ok_def plain_def less_char_def of_type_def normalised_def)

lemma sample_data_fits: "value_ok calendar (data_doc sample_data)" "blob_fits (data_doc sample_data)"
proof -
  have "utf8 ''a'' \<and> utf8 ''b''" by code_simp
  then show "value_ok calendar (data_doc sample_data)" by (simp add: sample_data_def bt_ok_def less_char_def)
  show "blob_fits (data_doc sample_data)"
    by (simp add: blob_fits_def sample_data_def blob_encode_eq names_of_def record_bytes_def put_bytes_def put_u32_def)
qed

theorem typed_encoder_agrees_witness: "encode_by_value sample_data = Ok (encode_data sample_data)"
  using typed_encoder_agrees [OF sample_data_ok(1)] .

section \<open>Loading\<close>

context value_reader
begin

definition reader_source :: "'r \<Rightarrow> value_source" where
  "reader_source r = \<lparr>rd_scalar_at = scalar_at r, rd_len_at = len_at r, rd_keys_at = keys_at r, rd_exists_at = exists_at r\<rparr>"

text \<open>Whatever reader shows the document of a typed value, loading gives the value back.\<close>

lemma load_data_doc:
  assumes "of_doc r v"
  shows "has_type d T \<Longrightarrow> adata_ok d \<Longrightarrow> definite d \<Longrightarrow> subtree v at = Some (data_doc d) \<Longrightarrow> adata_load (reader_source r) T at = Ok d"
proof (induction d T arbitrary: at rule: has_type.induct)
  case (1 s t)
  then show ?case using scalar_law [OF assms, of at] by (simp add: reader_source_def from_scalar_def load_defs)
next
  case (2 ds T)
  have len: "len_at r at = Ok (length ds)" using len_law [OF assms, of at "map data_doc ds"] 2(5) by simp
  have "adata_load (reader_source r) T (at @ [Index (word_of_nat i)]) = Ok (ds ! i)" if i: "i < length ds" for i
  proof -
    have "unat (word_of_nat i :: u64) = i" using i "2.prems"(2) by (simp add: unat_of_nat take_bit_nat_eq_self)
    then have "subtree v (at @ [Index (word_of_nat i)]) = Some (data_doc (ds ! i))" using "2.prems"(4) i by (simp add: subtree_append nth_opt_def)
    then show ?thesis using "2.IH" [of "ds ! i"] "2.prems"(1-3) i by simp
  qed
  then have "res_map (\<lambda>i. adata_load (reader_source r) T (vpath_push_index at (word_of_nat i))) [0..<length ds] = Ok ds"
    by (intro res_map_nth) (simp_all add: vpath_push_index_def)
  then show ?case using len by (simp add: reader_source_def load_defs)
next
  case (3 m T)
  have keys: "keys_at r at = Ok (map fst m)" using keys_law [OF assms, of at "map (\<lambda>e. (fst e, data_doc (snd e))) m"] 3(5) by (simp add: comp_def)
  have "adata_load (reader_source r) T (at @ [Name (fst (m ! i))]) = Ok (snd (m ! i))" if i: "i < length m" for i
  proof -
    have "bt_get (map (\<lambda>e. (fst e, data_doc (snd e))) m) (fst (m ! i)) = Some (data_doc (snd (m ! i)))"
      using "3.prems"(1) i by (subst bt_get_iff) (auto simp: bt_ok_def comp_def)
    then have "subtree v (at @ [Name (fst (m ! i))]) = Some (data_doc (snd (m ! i)))" using "3.prems"(4) by (simp add: subtree_append)
    then show ?thesis using "3.IH" [of "m ! i"] "3.prems"(1-3) i by simp
  qed
  then have "res_map (\<lambda>name. andThen (adata_load (reader_source r) T (vpath_push_name at name)) (\<lambda>d. Ok (name, d))) (map fst m) = Ok m"
    using "3.prems"(2) by (intro res_map_nth) (simp_all add: push_plain)
  then show ?case using keys foldl_bt_insert [of "[]" m] "3.prems"(1) by (simp add: reader_source_def load_defs)
next
  case (4 T)
  then show ?case using scalar_law [OF assms, of at] exists_law [OF assms, of at] by (simp add: reader_source_def load_defs)
next
  case (5 d T)
  have "Option.bind (subtree v at) value_leaf \<noteq> Some Null" using "5.prems"(3,4) by (cases "data_doc d") auto
  then show ?case using 5 scalar_law [OF assms, of at] exists_law [OF assms, of at] by (simp add: reader_source_def load_defs)
qed simp_all

end

lemma archived_source_eq: "archived_source C r = archived.reader_source C r"
  by (simp add: archived_source_def archived.reader_source_def)

text \<open>An entry holding the blob of a typed value loads as that value.\<close>

lemma typed_entry_loads:
  assumes "has_type d T" "adata_ok d" "definite d" "value_ok C (data_doc d)" "blob_fits (data_doc d)"
  shows "\<exists>r. archived_reader_new (tag # encode_data d) 1 = Ok r \<and> adata_load (archived_source C r) T vpath_root = Ok d"
proof -
  obtain r where r: "archived_reader_new (tag # encode_data d) 1 = Ok r" "reads_doc C r (data_doc d)"
    using archived_reader_new_doc [OF assms(4,5)] by (auto simp: encode_data_eq)
  then show ?thesis using archived.load_data_doc [OF r(2) assms(1-3), of vpath_root] by (simp add: archived_source_eq vpath_root_def)
qed

text \<open>A map built entry by entry is sorted and holds nothing but its entries.\<close>

lemma built_ok: "bt_ok a \<Longrightarrow> bt_ok (foldl (\<lambda>m e. bt_insert (fst e) (snd e) m) a es)"
  by (induction es arbitrary: a) simp_all

lemma built_mem: "e \<in> set (foldl (\<lambda>m e. bt_insert (fst e) (snd e) m) a es) \<Longrightarrow> e \<in> set a \<union> set es"
proof (induction es arbitrary: a)
  case (Cons x es)
  then show ?case using Cons.IH [of "bt_insert (fst x) (snd x) a"] bt_insert_mem [of e "fst x" "snd x" a] by auto
qed simp



text \<open>C38: a map entry under the key \<open>.\<close> or \<open>..\<close> is lost. The direct encoder stores such a map of one scalar, but it can not be loaded again: the load looks for the entry at the map itself. Stored
  through a writer, it is the scalar that ends up in place of the map.\<close>

theorem dotted_key_lost:
  assumes "name = ''.'' \<or> name = ''..''" "of_type t s" "value_ok C (Node [(name, Leaf s)])" "blob_fits (Node [(name, Leaf s)])"
  shows "(\<exists>r. archived_reader_new (tag # encode_data (Map_Data [(name, Scalar_Data s)])) 1 = Ok r \<and>
      adata_load (archived_source C r) (Map_Type (Scalar_Type t)) vpath_root = Err (PathNotFound vpath_root)) \<and>
    encode_by_value (Map_Data [(name, Scalar_Data s)]) = Ok (blob_encode (Leaf s))"
proof -
  let ?v = "Node [(name, Leaf s)]"
  obtain r where r: "archived_reader_new (tag # encode_data (Map_Data [(name, Scalar_Data s)])) 1 = Ok r" "reads_doc C r ?v"
    using archived_reader_new_doc [OF assms(3,4)] by (auto simp: encode_data_eq)
  have push: "vpath_push_name vpath_root name = vpath_root" using assms(1) by (auto simp: vpath_push_name_def vpath_root_def)
  have "adata_load (archived_source C r) (Map_Type (Scalar_Type t)) vpath_root = Err (PathNotFound vpath_root)"
    using archived.keys_law [OF r(2), of vpath_root "[(name, Leaf s)]"] archived.scalar_law [OF r(2), of vpath_root] push
    by (simp add: archived_source_def vpath_root_def load_defs)
  moreover have "encode_by_value (Map_Data [(name, Scalar_Data s)]) = Ok (blob_encode (Leaf s))"
    using push by (simp add: encode_by_value_def seqOp_def bindOp_def mem_ensure_container_def mem_new_def mem_put_scalar_def Let_def vpath_root_def)
  ultimately show ?thesis using r(1) by blast
qed

theorem dotted_key_lost_witness:
  "(\<exists>r. archived_reader_new (0 # encode_data (Map_Data [(''..'', Scalar_Data (U8 1))])) 1 = Ok r \<and>
      adata_load (archived_source calendar r) (Map_Type (Scalar_Type T_u8)) vpath_root = Err (PathNotFound vpath_root)) \<and>
    encode_by_value (Map_Data [(''..'', Scalar_Data (U8 1))]) = Ok (blob_encode (Leaf (U8 1)))"
proof -
  have "utf8 ''..''" by code_simp
  then have "value_ok calendar (Node [(''..'', Leaf (U8 1))])" by (simp add: bt_ok_def)
  moreover have "blob_fits (Node [(''..'', Leaf (U8 1))])"
    by (simp add: blob_fits_def blob_encode_eq names_of_def record_bytes_def put_bytes_def put_u32_def)
  ultimately show ?thesis using dotted_key_lost [of "''..''" T_u8 "U8 1" calendar 0] by (simp add: of_type_def normalised_def)
qed



end
