(* ===== verification/Serde.thy ===== *)
theory Serde
  imports Archived
begin

text \<open>
  The bridge to Serde (\<open>serde/\<close>): the serializer that writes a value blob directly (\<open>blob_ser.rs\<close>), the deserializer that reads one in place (\<open>blob_de.rs\<close>), and both directions for the
  dynamic value (\<open>dynamic.rs\<close>). A \<open>Serialize\<close> implementation is the calls it makes on the serializer, as data: the constructors of \<open>sval\<close> are the methods of the trait. A
  \<open>Deserialize\<close> implementation is what it does with the one visitor method the deserializer calls, the constructors of \<open>visit\<close>. Text that other crates or the floating-point
  formatter produce is a parameter.
\<close>

section \<open>Calls on a serializer\<close>

datatype sval =
    S_bool bool
  | S_i8 i8 | S_i16 i16 | S_i32 i32 | S_i64 i64 | S_i128 i128
  | S_u8 u8 | S_u16 u16 | S_u32 u32 | S_u64 u64 | S_u128 u128
  | S_f32 u32 | S_f64 u64
  | S_char string | S_str string | S_bytes bytes
  | S_none | S_some sval | S_unit | S_unit_struct string | S_unit_variant string u32 string
  | S_newtype_struct string sval | S_newtype_variant string u32 string sval
  | S_seq "sval list" | S_tuple "sval list" | S_tuple_struct string "sval list" | S_tuple_variant string u32 string "sval list"
  | S_map "map_call list" | S_struct string "(string \<times> sval) list" | S_struct_variant string u32 string "(string \<times> sval) list"
  and map_call = Map_Key sval | Map_Value sval

record texts =
  text_f32 :: "u32 \<Rightarrow> string"
  text_f64 :: "u64 \<Rightarrow> string"
  parse_f32 :: "string \<Rightarrow> u32 option"
  parse_f64 :: "string \<Rightarrow> u64 option"
  text_uuid :: "u128 \<Rightarrow> string"
  text_date :: "naive_date \<Rightarrow> string"
  text_time :: "naive_time \<Rightarrow> string"
  text_datetime :: "naive_date \<Rightarrow> naive_time \<Rightarrow> string"
  text_duration :: "time_delta \<Rightarrow> string"

section \<open>Map keys\<close>

definition show_int :: "int \<Rightarrow> string" where
  "show_int n = (if n < 0 then CHR ''-'' # show_nat (nat (- n)) else show_nat (nat n))"

definition show_bool :: "bool \<Rightarrow> string" where
  "show_bool b = (if b then ''true'' else ''false'')"

definition bad_key :: adb_error where
  "bad_key = Serde ''a map key must serialize to a string or a scalar''"

fun key_serialize :: "texts \<Rightarrow> sval \<Rightarrow> string res" where
  "key_serialize X (S_str v) = Ok v"
| "key_serialize X (S_char v) = Ok v"
| "key_serialize X (S_bool v) = Ok (show_bool v)"
| "key_serialize X (S_i8 v) = Ok (show_int (sint v))"
| "key_serialize X (S_i16 v) = Ok (show_int (sint v))"
| "key_serialize X (S_i32 v) = Ok (show_int (sint v))"
| "key_serialize X (S_i64 v) = Ok (show_int (sint v))"
| "key_serialize X (S_i128 v) = Ok (show_int (sint v))"
| "key_serialize X (S_u8 v) = Ok (show_nat (unat v))"
| "key_serialize X (S_u16 v) = Ok (show_nat (unat v))"
| "key_serialize X (S_u32 v) = Ok (show_nat (unat v))"
| "key_serialize X (S_u64 v) = Ok (show_nat (unat v))"
| "key_serialize X (S_u128 v) = Ok (show_nat (unat v))"
| "key_serialize X (S_f32 v) = Ok (text_f32 X v)"
| "key_serialize X (S_f64 v) = Ok (text_f64 X v)"
| "key_serialize X (S_unit_variant _ _ variant) = Ok variant"
| "key_serialize X (S_newtype_struct _ v) = key_serialize X v"
| "key_serialize X (S_some v) = key_serialize X v"
| "key_serialize X _ = Err bad_key"

section \<open>Writing a blob\<close>

text \<open>\<open>entries\<close> is a map: its pairs are in the order of the names.\<close>

definition finish_object :: "bytes \<Rightarrow> (string, u32) btree \<Rightarrow> bytes \<times> u32" where
  "finish_object buf entries = push_object buf entries"

definition wrap_variant :: "bytes \<Rightarrow> string \<Rightarrow> u32 \<Rightarrow> bytes \<times> u32" where
  "wrap_variant buf variant payload = push_object buf [(variant, payload)]"

text \<open>A nested value writes its node into the blob and returns its offset. The builders gather the offsets of their children: of elements, of a map's entries with the key that
  awaits its value, of a struct's fields.\<close>

type_synonym writer = "bytes \<Rightarrow> (bytes \<times> u32) res"

definition seq_element :: "writer \<Rightarrow> bytes \<times> u32 list \<Rightarrow> (bytes \<times> u32 list) res" where
  "seq_element w = (\<lambda>(buf, offsets). andThen (w buf) (\<lambda>(buf, off). Ok (buf, offsets @ [off])))"

definition seq_end :: "bytes \<times> u32 list \<Rightarrow> (bytes \<times> u32) res" where
  "seq_end = (\<lambda>(buf, offsets). Ok (push_list buf offsets))"

definition tuple_variant_end :: "string \<Rightarrow> bytes \<times> u32 list \<Rightarrow> (bytes \<times> u32) res" where
  "tuple_variant_end variant = (\<lambda>(buf, offsets). let (buf, list) = push_list buf offsets in Ok (wrap_variant buf variant list))"

type_synonym map_builder = "bytes \<times> (string, u32) btree \<times> string option"

definition map_serialize_key :: "string res \<Rightarrow> map_builder \<Rightarrow> map_builder res" where
  "map_serialize_key key = (\<lambda>(buf, entries, pending_key). andThen key (\<lambda>key. Ok (buf, entries, Some key)))"

definition map_serialize_value :: "writer \<Rightarrow> map_builder \<Rightarrow> map_builder res" where
  "map_serialize_value w = (\<lambda>(buf, entries, pending_key).
     andThen (ok_or pending_key (Serde ''a map value was serialized before its key'')) (\<lambda>key.
     andThen (w buf) (\<lambda>(buf, off). Ok (buf, bt_insert key off entries, None))))"

definition map_end :: "map_builder \<Rightarrow> (bytes \<times> u32) res" where
  "map_end = (\<lambda>(buf, entries, _). Ok (finish_object buf entries))"

definition struct_field :: "string \<Rightarrow> writer \<Rightarrow> bytes \<times> (string, u32) btree \<Rightarrow> (bytes \<times> (string, u32) btree) res" where
  "struct_field key w = (\<lambda>(buf, entries). andThen (w buf) (\<lambda>(buf, off). Ok (buf, bt_insert key off entries)))"

definition struct_end :: "bytes \<times> (string, u32) btree \<Rightarrow> (bytes \<times> u32) res" where
  "struct_end = (\<lambda>(buf, entries). Ok (finish_object buf entries))"

definition struct_variant_end :: "string \<Rightarrow> bytes \<times> (string, u32) btree \<Rightarrow> (bytes \<times> u32) res" where
  "struct_variant_end variant = (\<lambda>(buf, entries). let (buf, object) = finish_object buf entries in Ok (wrap_variant buf variant object))"

text \<open>The calls a value makes on the builder it was given, one after the other.\<close>

fun run_calls :: "('s \<Rightarrow> 's res) list \<Rightarrow> 's \<Rightarrow> 's res" where
  "run_calls [] s = Ok s"
| "run_calls (call # calls) s = andThen (call s) (run_calls calls)"

primrec serialize :: "texts \<Rightarrow> sval \<Rightarrow> writer" and serialize_call :: "texts \<Rightarrow> map_call \<Rightarrow> map_builder \<Rightarrow> map_builder res" where
  "serialize X (S_bool v) = (\<lambda>buf. Ok (push_leaf buf (Bool v)))"
| "serialize X (S_i8 v) = (\<lambda>buf. Ok (push_leaf buf (I8 v)))"
| "serialize X (S_i16 v) = (\<lambda>buf. Ok (push_leaf buf (I16 v)))"
| "serialize X (S_i32 v) = (\<lambda>buf. Ok (push_leaf buf (I32 v)))"
| "serialize X (S_i64 v) = (\<lambda>buf. Ok (push_leaf buf (I64 v)))"
| "serialize X (S_i128 v) = (\<lambda>buf. Ok (push_leaf buf (I128 v)))"
| "serialize X (S_u8 v) = (\<lambda>buf. Ok (push_leaf buf (U8 v)))"
| "serialize X (S_u16 v) = (\<lambda>buf. Ok (push_leaf buf (U16 v)))"
| "serialize X (S_u32 v) = (\<lambda>buf. Ok (push_leaf buf (U32 v)))"
| "serialize X (S_u64 v) = (\<lambda>buf. Ok (push_leaf buf (U64 v)))"
| "serialize X (S_u128 v) = (\<lambda>buf. Ok (push_leaf buf (U128 v)))"
| "serialize X (S_f32 v) = (\<lambda>buf. Ok (push_leaf buf (F32 v)))"
| "serialize X (S_f64 v) = (\<lambda>buf. Ok (push_leaf buf (F64 v)))"
| "serialize X (S_char v) = (\<lambda>buf. Ok (push_leaf buf (Str v)))"
| "serialize X (S_str v) = (\<lambda>buf. Ok (push_leaf buf (Str v)))"
| "serialize X (S_bytes v) = (\<lambda>buf. Ok (push_leaf buf (Bytes v)))"
| "serialize X S_none = (\<lambda>buf. Ok (push_leaf buf Null))"
| "serialize X (S_some v) = serialize X v"
| "serialize X S_unit = (\<lambda>buf. Ok (push_leaf buf Null))"
| "serialize X (S_unit_struct name) = (\<lambda>buf. Ok (push_leaf buf Null))"
| "serialize X (S_unit_variant name index variant) = (\<lambda>buf. Ok (push_leaf buf (Str variant)))"
| "serialize X (S_newtype_struct name v) = serialize X v"
| "serialize X (S_newtype_variant name index variant v) =
     (\<lambda>buf. andThen (serialize X v buf) (\<lambda>(buf, payload). Ok (wrap_variant buf variant payload)))"
| "serialize X (S_seq vs) = (\<lambda>buf. andThen (run_calls (map seq_element (map (serialize X) vs)) (buf, [])) seq_end)"
| "serialize X (S_tuple vs) = (\<lambda>buf. andThen (run_calls (map seq_element (map (serialize X) vs)) (buf, [])) seq_end)"
| "serialize X (S_tuple_struct name vs) = (\<lambda>buf. andThen (run_calls (map seq_element (map (serialize X) vs)) (buf, [])) seq_end)"
| "serialize X (S_tuple_variant name index variant vs) =
     (\<lambda>buf. andThen (run_calls (map seq_element (map (serialize X) vs)) (buf, [])) (tuple_variant_end variant))"
| "serialize X (S_map calls) = (\<lambda>buf. andThen (run_calls (map (serialize_call X) calls) (buf, [], None)) map_end)"
| "serialize X (S_struct name fs) =
     (\<lambda>buf. andThen (run_calls (map (\<lambda>(key, w). struct_field key w) (map (map_prod id (serialize X)) fs)) (buf, [])) struct_end)"
| "serialize X (S_struct_variant name index variant fs) =
     (\<lambda>buf. andThen (run_calls (map (\<lambda>(key, w). struct_field key w) (map (map_prod id (serialize X)) fs)) (buf, [])) (struct_variant_end variant))"
| "serialize_call X (Map_Key k) = map_serialize_key (key_serialize X k)"
| "serialize_call X (Map_Value v) = map_serialize_value (serialize X v)"

definition to_blob :: "texts \<Rightarrow> sval \<Rightarrow> bytes res" where
  "to_blob X v = andThen (serialize X v begin_blob) (\<lambda>(buf, root). Ok (patch_root buf root))"

definition to_value :: "chrono \<Rightarrow> texts \<Rightarrow> sval \<Rightarrow> vnode res" where
  "to_value C X v = andThen (to_blob X v) (\<lambda>blob. blob_decode C blob)"

section \<open>Reading a blob\<close>

text \<open>What the deserializer hands to a visitor. A sequence and a map come as readers to pull from, an optional and a newtype as the node, or the key, to read on from, an enum as its variant
  and payload.\<close>

record seq_reader =
  sr_node :: u32
  sr_index :: nat
  sr_len :: nat

record map_reader =
  mr_entries :: "(string \<times> u32) list"
  mr_index :: nat
  mr_value :: "u32 option"

record enum_reader =
  er_variant :: string
  er_payload :: "u32 option"

datatype visit =
    Visit_unit | Visit_bool bool
  | Visit_i8 i8 | Visit_i16 i16 | Visit_i32 i32 | Visit_i64 i64 | Visit_i128 i128
  | Visit_u8 u8 | Visit_u16 u16 | Visit_u32 u32 | Visit_u64 u64 | Visit_u128 u128
  | Visit_f32 u32 | Visit_f64 u64
  | Visit_str string | Visit_string string | Visit_byte_buf bytes
  | Visit_none | Visit_some u32 | Visit_newtype_struct u32 | Visit_some_key string | Visit_newtype_key string
  | Visit_seq seq_reader | Visit_map map_reader | Visit_enum enum_reader

definition scalar_into :: "scalar \<Rightarrow> visit res" where
  "scalar_into s =
     (case s of
        Null \<Rightarrow> Ok Visit_unit
      | Bool v \<Rightarrow> Ok (Visit_bool v)
      | I8 v \<Rightarrow> Ok (Visit_i8 v)
      | I16 v \<Rightarrow> Ok (Visit_i16 v)
      | I32 v \<Rightarrow> Ok (Visit_i32 v)
      | I64 v \<Rightarrow> Ok (Visit_i64 v)
      | I128 v \<Rightarrow> Ok (Visit_i128 v)
      | U8 v \<Rightarrow> Ok (Visit_u8 v)
      | U16 v \<Rightarrow> Ok (Visit_u16 v)
      | U32 v \<Rightarrow> Ok (Visit_u32 v)
      | U64 v \<Rightarrow> Ok (Visit_u64 v)
      | U128 v \<Rightarrow> Ok (Visit_u128 v)
      | F32 v \<Rightarrow> Ok (Visit_f32 v)
      | F64 v \<Rightarrow> Ok (Visit_f64 v)
      | Str v \<Rightarrow> Ok (Visit_string v)
      | Bytes v \<Rightarrow> Ok (Visit_byte_buf v)
      | other \<Rightarrow> Err (Serde (''cannot deserialize a scalar of type '' @ type_str other @ '' via serde'')))"

definition deserialize_any :: "chrono \<Rightarrow> bytes \<Rightarrow> u32 \<Rightarrow> visit res" where
  "deserialize_any C blob node =
     andThen (node_kind_of blob node) (\<lambda>kind.
       case kind of
         KLeaf \<Rightarrow> andThen (node_scalar C blob node) scalar_into
       | KList \<Rightarrow> andThen (node_len blob node) (\<lambda>len. Ok (Visit_seq \<lparr>sr_node = node, sr_index = 0, sr_len = len\<rparr>))
       | KObject \<Rightarrow> andThen (node_entries blob node) (\<lambda>entries. Ok (Visit_map \<lparr>mr_entries = entries, mr_index = 0, mr_value = None\<rparr>)))"

definition deserialize_option :: "chrono \<Rightarrow> bytes \<Rightarrow> u32 \<Rightarrow> visit res" where
  "deserialize_option C blob node =
     andThen (node_kind_of blob node) (\<lambda>kind.
       if kind = KLeaf
       then andThen (node_scalar C blob node) (\<lambda>s. Ok (if s = Null then Visit_none else Visit_some node))
       else Ok (Visit_some node))"

definition deserialize_newtype_struct :: "u32 \<Rightarrow> visit res" where
  "deserialize_newtype_struct node = Ok (Visit_newtype_struct node)"

definition deserialize_enum :: "chrono \<Rightarrow> bytes \<Rightarrow> u32 \<Rightarrow> visit res" where
  "deserialize_enum C blob node =
     andThen (node_kind_of blob node) (\<lambda>kind.
       case kind of
         KLeaf \<Rightarrow>
           andThen (node_scalar C blob node) (\<lambda>s.
             case s of
               Str name \<Rightarrow> Ok (Visit_enum \<lparr>er_variant = name, er_payload = None\<rparr>)
             | _ \<Rightarrow> Err (Serde ''expected an enum: a string or a one-field object''))
       | KObject \<Rightarrow>
           andThen (node_entries blob node) (\<lambda>entries.
             case entries of
               [(name, payload)] \<Rightarrow> Ok (Visit_enum \<lparr>er_variant = name, er_payload = Some payload\<rparr>)
             | _ \<Rightarrow> Err (Serde ''expected a one-field object for an enum variant''))
       | KList \<Rightarrow> Err (Serde ''expected an enum, found a list''))"

text \<open>Pulling from the readers: what is returned, and the reader afterwards.\<close>

definition next_element :: "bytes \<Rightarrow> seq_reader \<Rightarrow> u32 option res \<times> seq_reader" where
  "next_element blob r =
     (if sr_index r \<ge> sr_len r then (Ok None, r)
      else case andThen (node_at blob (sr_node r) (sr_index r)) (\<lambda>child. ok_or child (Corrupt ''a list element is missing'')) of
             Ok child \<Rightarrow> (Ok (Some child), r\<lparr>sr_index := sr_index r + 1\<rparr>)
           | e \<Rightarrow> (andThen e (\<lambda>child. Ok (Some child)), r))"

definition next_key :: "map_reader \<Rightarrow> string option \<times> map_reader" where
  "next_key r =
     (if mr_index r \<ge> length (mr_entries r) then (None, r)
      else let (name, child) = mr_entries r ! mr_index r
           in (Some name, r\<lparr>mr_value := Some child, mr_index := mr_index r + 1\<rparr>))"

definition next_value :: "map_reader \<Rightarrow> u32 res \<times> map_reader" where
  "next_value r = (case mr_value r of Some child \<Rightarrow> Ok child | None \<Rightarrow> Panic ''next_value_seed follows next_key_seed'', r\<lparr>mr_value := None\<rparr>)"

definition unit_variant :: "u32 option \<Rightarrow> unit res" where
  "unit_variant payload = Ok ()"

definition newtype_variant :: "u32 option \<Rightarrow> u32 res" where
  "newtype_variant payload = ok_or payload (Serde ''a newtype variant needs a payload'')"

definition tuple_variant :: "chrono \<Rightarrow> bytes \<Rightarrow> u32 option \<Rightarrow> visit res" where
  "tuple_variant C blob payload =
     (case payload of Some node \<Rightarrow> deserialize_any C blob node | None \<Rightarrow> Err (Serde ''a tuple variant needs a payload''))"

definition struct_variant :: "chrono \<Rightarrow> bytes \<Rightarrow> u32 option \<Rightarrow> visit res" where
  "struct_variant C blob payload =
     (case payload of Some node \<Rightarrow> deserialize_any C blob node | None \<Rightarrow> Err (Serde ''a struct variant needs a payload''))"

section \<open>Reading a map key\<close>

text \<open>\<open>from_str\<close> of the integers: an optional sign, at least one digit, nothing else, and no overflow. A minus sign is for the signed types only.\<close>

definition digits_opt :: "string \<Rightarrow> nat option" where
  "digits_opt s = (if s = [] \<or> \<not> list_all is_digit s then None else Some (digits_val s))"

definition parse_unsigned :: "string \<Rightarrow> 'a::len word option" where
  "parse_unsigned s =
     Option.bind (digits_opt (case s of c # r \<Rightarrow> if c = CHR ''+'' then r else s | [] \<Rightarrow> s)) (\<lambda>n.
       if n < 2 ^ LENGTH('a) then Some (word_of_nat n) else None)"

definition parse_signed :: "string \<Rightarrow> 'a::len word option" where
  "parse_signed s =
     (case s of
        c # r \<Rightarrow>
          if c = CHR ''-'' then
            Option.bind (digits_opt r) (\<lambda>n. if n \<le> 2 ^ (LENGTH('a) - 1) then Some (word_of_int (- int n)) else None)
          else
            Option.bind (digits_opt (if c = CHR ''+'' then r else s)) (\<lambda>n. if n < 2 ^ (LENGTH('a) - 1) then Some (word_of_nat n) else None)
      | [] \<Rightarrow> None)"

definition parse_bool :: "string \<Rightarrow> bool option" where
  "parse_bool s = (if s = ''true'' then Some True else if s = ''false'' then Some False else None)"

definition parse_key :: "'a option \<Rightarrow> string \<Rightarrow> string \<Rightarrow> 'a res" where
  "parse_key parsed key ty = ok_or parsed (Serde (''map key '' @ quoted key @ '' is not a valid '' @ ty))"

text \<open>The method a key type calls.\<close>

datatype key_request =
    Key_bool | Key_i8 | Key_i16 | Key_i32 | Key_i64 | Key_i128 | Key_u8 | Key_u16 | Key_u32 | Key_u64 | Key_u128 | Key_f32 | Key_f64 | Key_option | Key_newtype_struct | Key_enum | Key_any

definition deserialize_key :: "texts \<Rightarrow> key_request \<Rightarrow> string \<Rightarrow> visit res" where
  "deserialize_key X request key =
     (case request of
        Key_bool \<Rightarrow> andThen (parse_key (parse_bool key) key ''bool'') (\<lambda>v. Ok (Visit_bool v))
      | Key_i8 \<Rightarrow> andThen (parse_key (parse_signed key) key ''i8'') (\<lambda>v. Ok (Visit_i8 v))
      | Key_i16 \<Rightarrow> andThen (parse_key (parse_signed key) key ''i16'') (\<lambda>v. Ok (Visit_i16 v))
      | Key_i32 \<Rightarrow> andThen (parse_key (parse_signed key) key ''i32'') (\<lambda>v. Ok (Visit_i32 v))
      | Key_i64 \<Rightarrow> andThen (parse_key (parse_signed key) key ''i64'') (\<lambda>v. Ok (Visit_i64 v))
      | Key_i128 \<Rightarrow> andThen (parse_key (parse_signed key) key ''i128'') (\<lambda>v. Ok (Visit_i128 v))
      | Key_u8 \<Rightarrow> andThen (parse_key (parse_unsigned key) key ''u8'') (\<lambda>v. Ok (Visit_u8 v))
      | Key_u16 \<Rightarrow> andThen (parse_key (parse_unsigned key) key ''u16'') (\<lambda>v. Ok (Visit_u16 v))
      | Key_u32 \<Rightarrow> andThen (parse_key (parse_unsigned key) key ''u32'') (\<lambda>v. Ok (Visit_u32 v))
      | Key_u64 \<Rightarrow> andThen (parse_key (parse_unsigned key) key ''u64'') (\<lambda>v. Ok (Visit_u64 v))
      | Key_u128 \<Rightarrow> andThen (parse_key (parse_unsigned key) key ''u128'') (\<lambda>v. Ok (Visit_u128 v))
      | Key_f32 \<Rightarrow> andThen (parse_key (parse_f32 X key) key ''f32'') (\<lambda>v. Ok (Visit_f32 v))
      | Key_f64 \<Rightarrow> andThen (parse_key (parse_f64 X key) key ''f64'') (\<lambda>v. Ok (Visit_f64 v))
      | Key_option \<Rightarrow> Ok (Visit_some_key key)
      | Key_newtype_struct \<Rightarrow> Ok (Visit_newtype_key key)
      | Key_enum \<Rightarrow> Ok (Visit_enum \<lparr>er_variant = key, er_payload = None\<rparr>)
      | Key_any \<Rightarrow> Ok (Visit_str key))"

section \<open>The dynamic value\<close>

definition scalar_serialize :: "texts \<Rightarrow> scalar \<Rightarrow> sval" where
  "scalar_serialize X s =
     (case s of
        Null \<Rightarrow> S_unit
      | Bool v \<Rightarrow> S_bool v
      | I8 v \<Rightarrow> S_i8 v
      | I16 v \<Rightarrow> S_i16 v
      | I32 v \<Rightarrow> S_i32 v
      | I64 v \<Rightarrow> S_i64 v
      | I128 v \<Rightarrow> S_i128 v
      | U8 v \<Rightarrow> S_u8 v
      | U16 v \<Rightarrow> S_u16 v
      | U32 v \<Rightarrow> S_u32 v
      | U64 v \<Rightarrow> S_u64 v
      | U128 v \<Rightarrow> S_u128 v
      | F32 v \<Rightarrow> S_f32 v
      | F64 v \<Rightarrow> S_f64 v
      | Str v \<Rightarrow> S_str v
      | Bytes v \<Rightarrow> S_bytes v
      | Uuid v \<Rightarrow> S_str (text_uuid X v)
      | Date v \<Rightarrow> S_str (text_date X v)
      | Time v \<Rightarrow> S_str (text_time X v)
      | DateTime d t \<Rightarrow> S_str (text_datetime X d t)
      | Duration v \<Rightarrow> S_str (text_duration X v))"

text \<open>A vector serializes as a sequence, a map as its entries, each a key and a value.\<close>

fun value_serialize :: "texts \<Rightarrow> vnode \<Rightarrow> sval" where
  "value_serialize X (Leaf s) = scalar_serialize X s"
| "value_serialize X (List items) = S_seq (map (value_serialize X) items)"
| "value_serialize X (Node m) = S_map (concat (map (\<lambda>e. [Map_Key (S_str (fst e)), Map_Value (value_serialize X (snd e))]) m))"

text \<open>\<open>visit_seq\<close> and \<open>visit_map\<close> of the value's visitor pull until their reader is empty; \<open>read\<close> deserializes one child.\<close>

function visit_seq :: "(u32 \<Rightarrow> vnode res) \<Rightarrow> bytes \<Rightarrow> seq_reader \<Rightarrow> vnode list \<Rightarrow> vnode res" where
  "visit_seq read blob r items =
     (case next_element blob r of
        (Ok (Some child), r') \<Rightarrow> andThen (read child) (\<lambda>item. visit_seq read blob r' (items @ [item]))
      | (Ok None, r') \<Rightarrow> Ok (List items)
      | (e, r') \<Rightarrow> andThen e (\<lambda>_. Diverge))"
  by pat_completeness auto
termination
  by (relation "measure (\<lambda>(_, _, r, _). sr_len r - sr_index r)") (auto simp: next_element_def split: if_splits res.splits)

function visit_map :: "(u32 \<Rightarrow> vnode res) \<Rightarrow> map_reader \<Rightarrow> (string, vnode) btree \<Rightarrow> vnode res" where
  "visit_map read r node =
     (case next_key r of
        (Some key, r') \<Rightarrow>
          (case next_value r' of (child, r'') \<Rightarrow>
             andThen child (\<lambda>child. andThen (read child) (\<lambda>v. visit_map read r'' (bt_insert key v node))))
      | (None, r') \<Rightarrow> Ok (Node node))"
  by pat_completeness auto
termination
  by (relation "measure (\<lambda>(_, r, _). length (mr_entries r) - mr_index r)") (auto simp: next_key_def next_value_def split: if_splits prod.splits)

declare visit_seq.simps [simp del] visit_map.simps [simp del]

text \<open>The methods the visitor does not define refuse, naming what it expects.\<close>

definition expected_value :: "string \<Rightarrow> adb_error" where
  "expected_value found = Serde (''invalid type: '' @ found @ '', expected any ArborDb value (a scalar, a sequence, or a map)'')"

text \<open>\<open>Value::deserialize\<close> over the blob: the visitor methods of \<open>ValueVisitor\<close>. The fuel bounds the depth of the offsets followed.\<close>

fun deserialize_value :: "chrono \<Rightarrow> nat \<Rightarrow> bytes \<Rightarrow> u32 \<Rightarrow> vnode res" where
  "deserialize_value C 0 blob node = Diverge"
| "deserialize_value C (Suc fuel) blob node =
     andThen (deserialize_any C blob node) (\<lambda>v.
       case v of
         Visit_unit \<Rightarrow> Ok (Leaf Null)
       | Visit_none \<Rightarrow> Ok (Leaf Null)
       | Visit_bool b \<Rightarrow> Ok (Leaf (Bool b))
       | Visit_i8 x \<Rightarrow> Ok (Leaf (I8 x))
       | Visit_i16 x \<Rightarrow> Ok (Leaf (I16 x))
       | Visit_i32 x \<Rightarrow> Ok (Leaf (I32 x))
       | Visit_i64 x \<Rightarrow> Ok (Leaf (I64 x))
       | Visit_i128 x \<Rightarrow> Ok (Leaf (I128 x))
       | Visit_u8 x \<Rightarrow> Ok (Leaf (U8 x))
       | Visit_u16 x \<Rightarrow> Ok (Leaf (U16 x))
       | Visit_u32 x \<Rightarrow> Ok (Leaf (U32 x))
       | Visit_u64 x \<Rightarrow> Ok (Leaf (U64 x))
       | Visit_u128 x \<Rightarrow> Ok (Leaf (U128 x))
       | Visit_f32 x \<Rightarrow> Ok (Leaf (F32 x))
       | Visit_f64 x \<Rightarrow> Ok (Leaf (F64 x))
       | Visit_str s \<Rightarrow> Ok (Leaf (Str s))
       | Visit_string s \<Rightarrow> Ok (Leaf (Str s))
       | Visit_byte_buf b \<Rightarrow> Ok (Leaf (Bytes b))
       | Visit_some n \<Rightarrow> deserialize_value C fuel blob n
       | Visit_newtype_struct n \<Rightarrow> Err (expected_value ''newtype struct'')
       | Visit_some_key k \<Rightarrow> Ok (Leaf (Str k))
       | Visit_newtype_key k \<Rightarrow> Err (expected_value ''newtype struct'')
       | Visit_seq r \<Rightarrow> visit_seq (deserialize_value C fuel blob) blob r []
       | Visit_map r \<Rightarrow> visit_map (deserialize_value C fuel blob) r []
       | Visit_enum r \<Rightarrow> Err (expected_value ''enum''))"

definition value_from_blob :: "chrono \<Rightarrow> bytes \<Rightarrow> vnode res" where
  "value_from_blob C blob = andThen (archived_new blob) (\<lambda>(blob, root). deserialize_value C (Suc (length blob)) blob root)"

definition scalar_from_blob :: "chrono \<Rightarrow> bytes \<Rightarrow> scalar res" where
  "scalar_from_blob C blob =
     andThen (value_from_blob C blob) (\<lambda>v.
       case v of
         Leaf s \<Rightarrow> Ok s
       | List _ \<Rightarrow> Err (Serde ''expected a scalar, found a sequence'')
       | Node _ \<Rightarrow> Err (Serde ''expected a scalar, found a map''))"

definition value_from_value :: "chrono \<Rightarrow> vnode \<Rightarrow> vnode res" where
  "value_from_value C v = value_from_blob C (blob_encode v)"

text \<open>Texts to evaluate with.\<close>

definition sample_texts :: texts where
  "sample_texts = \<lparr>text_f32 = \<lambda>_. ''0'', text_f64 = \<lambda>_. ''0'', parse_f32 = \<lambda>_. None, parse_f64 = \<lambda>_. None, text_uuid = \<lambda>_. ''u'', text_date = \<lambda>_. ''d'',
     text_time = \<lambda>_. ''t'', text_datetime = \<lambda>_ _. ''dt'', text_duration = \<lambda>_. ''s''\<rparr>"

end
