(* ===== verification/Blob_Nodes.thy ===== *)
theory Blob_Nodes
  imports Archived_Layout
begin

text \<open>
  What reading a value blob needs of it, whatever order its nodes were written in: \<open>lies blob off v\<close> says that the node at \<open>off\<close> stands for \<open>v\<close>, its children anywhere before it. It
  is the contract between the writers of blobs, of which the encoder of a document is one, and the readers.
\<close>

section \<open>Nodes\<close>

abbreviation (input) table_bytes :: "(u32 \<times> u32 \<times> u32) list \<Rightarrow> bytes" where
  "table_bytes rs \<equiv> concat (map (put_record []) rs)"

inductive lies :: "bytes \<Rightarrow> u32 \<Rightarrow> vnode \<Rightarrow> bool" for blob where
  lies_leaf: "holds blob (unat off) (LEAF # scalar_encode [] s) \<Longrightarrow> lies blob off (Leaf s)"
| lies_list: "holds blob (unat off) (LIST # be32 (length l) @ concat (map be_bytes os)) \<Longrightarrow>
    list_all2 (\<lambda>c v. c < off \<and> lies blob c v) os l \<Longrightarrow> lies blob off (List l)"
| lies_object: "holds blob (unat off) (NODE # be32 (length m) @ table_bytes rs) \<Longrightarrow>
    list_all2 (\<lambda>r e. holds blob (unat (fst r)) (as_bytes (fst e)) \<and> unat (fst (snd r)) = length (fst e) \<and>
      snd (snd r) < off \<and> lies blob (snd (snd r)) (snd e)) rs m \<Longrightarrow> lies blob off (Node m)"

inductive_cases lies_LeafE: "lies blob off (Leaf s)"
inductive_cases lies_ListE: "lies blob off (List l)"
inductive_cases lies_NodeE: "lies blob off (Node m)"

lemma lies_extend: "lies blob off v \<Longrightarrow> lies (blob @ x) off v"
proof (induction rule: lies.induct)
  case (lies_leaf off s)
  then show ?case by (intro lies.lies_leaf holds_extend)
next
  case (lies_list off l os)
  then show ?case by (intro lies.lies_list [where os = os] holds_extend) (auto elim: list_all2_mono)
next
  case (lies_object off m rs)
  then show ?case by (intro lies.lies_object [where rs = rs] holds_extend) (auto elim!: list_all2_mono intro: holds_extend)
qed

section \<open>Reading\<close>

lemma lies_scalar:
  assumes "lies blob off (Leaf s)" "scalar_ok C s" "length blob < 2 ^ 32"
  shows "node_kind_of blob off = Ok KLeaf" "node_scalar C blob off = Ok s"
proof -
  have "stored blob (unat off) (Leaf s)" using assms(1,3) by (auto simp: stored_def elim: lies_LeafE)
  then show "node_kind_of blob off = Ok KLeaf" "node_scalar C blob off = Ok s"
    using node_scalar_stored [of blob "unat off" s C] assms(2) by (auto simp: node_kind_of_def node_scalar_def rest_from_def)
qed

lemma holds_head:
  assumes "holds blob off (t # be32 n @ bs)" "length blob < 2 ^ 32"
  shows "read_u8 blob off = Ok t" "read_u32 blob (Suc off) = Ok (word_of_nat n)"
proof -
  note sz = u32_usize [OF assms(2)]
  show "read_u8 blob off = Ok t" using holds_read_u8 [OF assms(1) sz] .
  have "holds blob (Suc off) (be32 n @ bs)" using assms(1) holds_Cons [of blob off t "be32 n @ bs"] by simp
  then show "read_u32 blob (Suc off) = Ok (word_of_nat n)" using holds_read_u32 [OF _ sz] by blast
qed

lemma holds_table:
  assumes "holds blob off (t # be32 n @ concat xs)" "\<And>x. x \<in> set xs \<Longrightarrow> length x = k" "i < length xs"
  shows "holds blob (off + 5 + k * i) (xs ! i)"
proof -
  have "holds ((t # be32 n) @ concat xs @ []) (length (t # be32 n) + k * i) (xs ! i)" by (rule holds_chunk [OF assms(2,3)])
  then have "holds (t # be32 n @ concat xs) (5 + k * i) (xs ! i)" by simp
  then show ?thesis using holds_trans [OF _ assms(1)] by (simp add: add.assoc)
qed

lemma lies_list_read:
  assumes "lies blob off (List l)" "length l < 2 ^ 32" "length blob < 2 ^ 32"
  obtains os where "list_all2 (\<lambda>c v. c < off \<and> lies blob c v) os l" "node_kind_of blob off = Ok KList" "node_len blob off = Ok (length l)"
    "\<And>i. node_at blob off i = Ok (nth_opt os i)"
proof -
  obtain os where os: "holds blob (unat off) (LIST # be32 (length l) @ concat (map be_bytes os))" "list_all2 (\<lambda>c v. c < off \<and> lies blob c v) os l"
    using assms(1) by (elim lies_ListE)
  note h = holds_head [OF os(1) assms(3)] and len = list_all2_lengthD [OF os(2)] and cnt = u32_small [OF assms(2)]
  have slot: "read_u32 blob (unat off + 5 + 4 * i) = Ok (os ! i)" if "i < length os" for i
  proof -
    have "holds blob (unat off + 5 + 4 * i) (map be_bytes os ! i)" using that by (intro holds_table [OF os(1)]) auto
    then show ?thesis using that holds_read_u32 [where bs = "[]", simplified, OF _ u32_usize [OF assms(3)]] by simp
  qed
  have "node_at blob off i = Ok (nth_opt os i)" for i using h slot [of i] len cnt by (auto simp: node_at_def nth_opt_def mult.commute)
  then show ?thesis using that [OF os(2)] h cnt by (simp add: node_kind_of_def node_len_def)
qed

text \<open>An object node is a name table.\<close>

definition object_node :: "bytes \<Rightarrow> u32 \<Rightarrow> (u32 \<times> u32 \<times> u32) list \<Rightarrow> (string, vnode) btree \<Rightarrow> bool" where
  "object_node blob off rs m \<longleftrightarrow> holds blob (unat off) (NODE # be32 (length m) @ table_bytes rs) \<and> length blob < 2 ^ 32 \<and>
     list_all2 (\<lambda>r e. holds blob (unat (fst r)) (as_bytes (fst e)) \<and> unat (fst (snd r)) = length (fst e)) rs m"

lemma object_node_entry:
  assumes "object_node blob off rs m" "i < length m"
  shows "entry_name_bytes blob (unat off + 5 + i * 12) = Ok (as_bytes (fst (m ! i)))"
    and "read_u32 blob (unat off + 5 + i * 12 + 8) = Ok (snd (snd (rs ! i)))"
proof -
  obtain no nl co where r: "rs ! i = (no, nl, co)" by (cases "rs ! i") auto
  have o: "holds blob (unat off) (NODE # be32 (length m) @ table_bytes rs)" "length blob < 2 ^ 32"
    "list_all2 (\<lambda>r e. holds blob (unat (fst r)) (as_bytes (fst e)) \<and> unat (fst (snd r)) = length (fst e)) rs m"
    using assms(1) by (auto simp: object_node_def)
  have i: "i < length rs" using assms(2) list_all2_lengthD [OF o(3)] by simp
  note sz = u32_usize [OF o(2)]
  have "holds blob (unat off + 5 + 12 * i) (map (put_record []) rs ! i)"
    using i by (intro holds_table [OF o(1)]) (auto simp: put_record_def put_u32_def)
  then have rec: "holds blob (unat off + 5 + i * 12) (be_bytes no @ be_bytes nl @ be_bytes co)"
    using i r by (simp add: put_record_def put_u32_def mult.commute)
  have nm: "holds blob (unat no) (as_bytes (fst (m ! i)))" "unat nl = length (fst (m ! i))" using list_all2_nthD2 [OF o(3) assms(2)] r by simp_all
  have "read_u32 blob (unat off + 5 + i * 12) = Ok no" using rec sz by (rule holds_read_u32)
  moreover have "read_u32 blob (unat off + 5 + i * 12 + 4) = Ok nl"
    using rec sz unfolding holds_append by (auto intro: holds_read_u32 [where bs = "[]", simplified])
  moreover have "slice blob (unat no) (unat nl) = Ok (as_bytes (fst (m ! i)))" using holds_slice [OF nm(1) sz] nm(2) by simp
  ultimately show "entry_name_bytes blob (unat off + 5 + i * 12) = Ok (as_bytes (fst (m ! i)))" by (simp add: entry_name_bytes_def)
  show "read_u32 blob (unat off + 5 + i * 12 + 8) = Ok (snd (snd (rs ! i)))"
    using rec sz r unfolding holds_append by (auto simp: add.assoc intro: holds_read_u32 [where bs = "[]", simplified])
qed

interpretation object_nodes: name_table "\<lambda>(blob, off, rs, m). object_node blob off rs m \<and> bt_ok m"
  "\<lambda>(blob, off, rs, m). zip (names_of m) (map (snd \<circ> snd) rs)"
  "\<lambda>(blob, off, rs, m) i. entry_name_bytes blob (unat off + 5 + i * 12)" "\<lambda>(blob, off, rs, m) i. read_u32 blob (unat off + 5 + i * 12 + 8)"
proof (unfold_locales, goal_cases)
  case (1 t)
  obtain blob off rs m where t: "t = (blob, off, rs, m)" by (cases t)
  have len: "length rs = length m" using 1 t by (auto simp: object_node_def dest: list_all2_lengthD)
  show ?case using 1 t len as_bytes_sorted [of m] by (simp add: names_of_def)
next
  case (2 t i)
  then show ?case using object_node_entry(1) [of "fst t" "fst (snd t)" "fst (snd (snd t))" "snd (snd (snd t))" i] by (auto simp: names_of_def split: prod.splits)
next
  case (3 t i)
  then show ?case using object_node_entry(2) [of "fst t" "fst (snd t)" "fst (snd (snd t))" "snd (snd (snd t))" i] by (auto simp: names_of_def split: prod.splits)
qed

lemma lies_object_read:
  assumes "lies blob off (Node m)" "value_ok C (Node m)" "length blob < 2 ^ 32"
  shows "\<exists>os. list_all2 (\<lambda>c e. c < off \<and> lies blob c (snd e)) os m \<and> node_kind_of blob off = Ok KObject \<and>
    node_entries blob off = Ok (zip (map fst m) os) \<and> (\<forall>name. node_get blob off name = Ok (map_of (zip (map fst m) os) name))"
proof -
  obtain rs where rs: "holds blob (unat off) (NODE # be32 (length m) @ table_bytes rs)"
    "list_all2 (\<lambda>r e. holds blob (unat (fst r)) (as_bytes (fst e)) \<and> unat (fst (snd r)) = length (fst e) \<and>
      snd (snd r) < off \<and> lies blob (snd (snd r)) (snd e)) rs m"
    using assms(1) by (elim lies_NodeE)
  let ?os = "map (snd \<circ> snd) rs"
  have obj: "object_node blob off rs m" using rs assms(3) by (auto simp: object_node_def elim: list_all2_mono)
  have cnt: "unat (word_of_nat (length m) :: u32) = length m" using assms(2) by (intro u32_small) simp
  note h = holds_head [OF rs(1) assms(3)] and len = list_all2_lengthD [OF rs(2)]
  have children: "list_all2 (\<lambda>c e. c < off \<and> lies blob c (snd e)) ?os m" using rs(2) by (auto simp: list_all2_conv_all_nth)
  have "utf8 (fst (m ! i))" if "i < length m" for i using assms(2) that by auto
  then have "res_map (\<lambda>i. andThen (entry_name blob (unat off + 5 + i * 12)) (\<lambda>name.
      andThen (read_u32 blob (unat off + 5 + i * 12 + 8)) (\<lambda>child. Ok (name, child)))) [0..<length m] = Ok (zip (map fst m) ?os)"
    using len object_node_entry [OF obj] by (intro res_map_nth) (simp_all add: entry_name_def)
  then have entries: "node_entries blob off = Ok (zip (map fst m) ?os)" using h cnt by (simp add: node_entries_def Let_def)
  have "node_get blob off name = Ok (map_of (zip (map fst m) ?os) name)" for name
    using h cnt len object_nodes.search [of "(blob, off, rs, m)" "as_bytes name"] obj assms(2) map_of_names [of ?os m name]
    by (simp add: node_get_def Let_def names_of_def)
  moreover have "node_kind_of blob off = Ok KObject" using h by (simp add: node_kind_of_def)
  ultimately show ?thesis using children entries by blast
qed

lemma lies_to_value:
  "lies blob off v \<Longrightarrow> value_ok C v \<Longrightarrow> length blob < 2 ^ 32 \<Longrightarrow> unat off < fuel \<Longrightarrow> node_to_value C fuel blob off = Ok v"
proof (induction fuel arbitrary: off v)
  case (Suc fuel)
  have child: "node_to_value C fuel blob c = Ok w" if "c < off" "lies blob c w" "value_ok C w" for c w
    using Suc.IH [OF that(2,3) Suc.prems(3)] Suc.prems(4) that(1) by (simp add: word_less_nat_alt)
  show ?case
  proof (cases v)
    case (Leaf s)
    then show ?thesis using lies_scalar [of blob off s C] Suc.prems by simp
  next
    case (List l)
    have "length l < 2 ^ 32" using Suc.prems(2) List by simp
    then obtain os where os: "list_all2 (\<lambda>c v. c < off \<and> lies blob c v) os l" "node_kind_of blob off = Ok KList" "node_len blob off = Ok (length l)"
      "\<And>i. node_at blob off i = Ok (nth_opt os i)" using lies_list_read [of blob off l] Suc.prems List by auto
    have "node_to_value C fuel blob (os ! i) = Ok (l ! i)" if "i < length l" for i
      using child [of "os ! i" "l ! i"] list_all2_nthD2 [OF os(1) that] Suc.prems(2) List that by simp
    then have "res_map (\<lambda>i. andThen (node_at blob off i) (\<lambda>child. andThen (ok_or child (Corrupt ''list element missing'')) (\<lambda>child.
        node_to_value C fuel blob child))) [0..<length l] = Ok l"
      using list_all2_lengthD [OF os(1)] by (intro res_map_nth) (simp_all add: os(4) nth_opt_def del: andThen_Ok_iff)
    then show ?thesis using os(2,3) List by (simp del: andThen_Ok_iff)
  next
    case (Node m)
    obtain os where os: "list_all2 (\<lambda>c e. c < off \<and> lies blob c (snd e)) os m" "node_kind_of blob off = Ok KObject"
      "node_entries blob off = Ok (zip (map fst m) os)" "\<And>name. node_get blob off name = Ok (map_of (zip (map fst m) os) name)"
      using lies_object_read [OF Suc.prems(1-3) [unfolded Node]] by auto
    have "node_to_value C fuel blob (os ! i) = Ok (snd (m ! i))" if "i < length m" for i
      using child [of "os ! i" "snd (m ! i)"] list_all2_nthD2 [OF os(1) that] Suc.prems(2) Node that by simp
    then have "res_map (\<lambda>(name, child). andThen (node_to_value C fuel blob child) (\<lambda>v. Ok (name, v))) (zip (map fst m) os) = Ok m"
      using list_all2_lengthD [OF os(1)] by (intro res_map_nth) simp_all
    moreover have "foldl (\<lambda>m e. bt_insert (fst e) (snd e) m) [] m = m" using foldl_bt_insert [of "[]" m] Suc.prems(2) Node by simp
    ultimately show ?thesis using os(2,3) Node by (simp del: andThen_Ok_iff)
  qed
qed simp

section \<open>Navigation\<close>

lemma lies_step:
  assumes "lies blob off v" "value_ok C v" "length blob < 2 ^ 32"
  shows "\<exists>r. (case s of Name name \<Rightarrow> node_get blob off name | Index index \<Rightarrow> node_at blob off (unat index)) = Ok r \<and>
    rel_option (\<lambda>c w. lies blob c w) r (step v s)"
proof (cases v)
  case (Leaf x)
  have "read_u8 blob (unat off) = Ok LEAF" using assms(1,3) Leaf holds_read_u8 u32_usize by (fastforce elim: lies_LeafE)
  then show ?thesis using Leaf by (cases s) (simp_all add: node_get_def node_at_def)
next
  case (List l)
  have "length l < 2 ^ 32" using assms(2) List by simp
  then obtain os where os: "list_all2 (\<lambda>c v. c < off \<and> lies blob c v) os l" "node_kind_of blob off = Ok KList" "node_len blob off = Ok (length l)"
    "\<And>i. node_at blob off i = Ok (nth_opt os i)" using lies_list_read [of blob off l] assms List by auto
  have "read_u8 blob (unat off) = Ok LIST" using os(2) by (auto simp: node_kind_of_def split: if_splits)
  then show ?thesis
    using List list_all2_lengthD [OF os(1)] list_all2_nthD2 [OF os(1)] by (cases s) (auto simp: node_get_def os(4) nth_opt_def)
next
  case (Node m)
  obtain os where os: "list_all2 (\<lambda>c e. c < off \<and> lies blob c (snd e)) os m" "node_kind_of blob off = Ok KObject"
    "node_entries blob off = Ok (zip (map fst m) os)" "\<And>name. node_get blob off name = Ok (map_of (zip (map fst m) os) name)"
    using lies_object_read [OF assms [unfolded Node]] by auto
  have "read_u8 blob (unat off) = Ok NODE" using os(2) by (auto simp: node_kind_of_def split: if_splits)
  moreover have "rel_option (\<lambda>c w. lies blob c w) (map_of (zip (map fst m) os) name) (map_of m name)" for name
    using os(1) by (induction os m rule: list_all2_induct) auto
  ultimately show ?thesis using Node by (cases s) (auto simp: node_at_def os(4) bt_get_def)
qed

lemma lies_navigate:
  "lies blob off v \<Longrightarrow> value_ok C v \<Longrightarrow> length blob < 2 ^ 32 \<Longrightarrow>
   \<exists>r. node_navigate blob off p = Ok r \<and> rel_option (\<lambda>c w. lies blob c w \<and> value_ok C w) r (subtree v p)"
proof (induction p arbitrary: off v)
  case (Cons s p)
  obtain r where r: "(case s of Name name \<Rightarrow> node_get blob off name | Index index \<Rightarrow> node_at blob off (unat index)) = Ok r"
    "rel_option (\<lambda>c w. lies blob c w) r (step v s)" using lies_step [OF Cons.prems] by blast
  show ?case
  proof (cases "step v s")
    case (Some w)
    then obtain c where "r = Some c" "lies blob c w" using r(2) by (cases r) auto
    then show ?thesis using Cons.IH [OF _ value_ok_step [OF Cons.prems(2) Some] Cons.prems(3), of c] r(1) Some by simp
  qed (use r in auto)
qed simp

text \<open>A blob whose root node lies in it reads as the document, as a whole and at every path.\<close>

lemma lies_blob:
  assumes "archived_new blob = Ok (blob, root)" "lies blob root v" "value_ok C v" "length blob < 2 ^ 32"
  shows "blob_decode C blob = Ok v" "blob_subtree C blob p = Ok (subtree v p)"
proof -
  have in_blob: "unat c < Suc (length blob)" if "lies blob c w" for c w using that by cases (auto simp: holds_def)
  show "blob_decode C blob = Ok v" using assms lies_to_value [OF assms(2-4) in_blob [OF assms(2)]] by (simp add: blob_decode_def del: node_to_value.simps)
  obtain r where r: "node_navigate blob root p = Ok r" "rel_option (\<lambda>c w. lies blob c w \<and> value_ok C w) r (subtree v p)"
    using lies_navigate [OF assms(2-4)] by blast
  show "blob_subtree C blob p = Ok (subtree v p)"
  proof (cases r)
    case (Some c)
    then obtain w where w: "subtree v p = Some w" "lies blob c w" "value_ok C w" using r(2) by (cases "subtree v p") auto
    then show ?thesis using r(1) Some assms(1) lies_to_value [OF w(2,3) assms(4) in_blob [OF w(2)]] by (simp add: blob_subtree_def del: node_to_value.simps)
  qed (use r assms(1) in \<open>auto simp: blob_subtree_def\<close>)
qed

end
