(* ===== verification/Serde_Laws.thy ===== *)
theory Serde_Laws
  imports Serde Blob_Nodes
begin

text \<open>
  What the Serde bridge promises: the blob a value is serialized to is a blob of the document the value stands for, readable as a whole and at every path; map keys come back as the
  keys they were; and the dynamic value comes back from its own serialization.
\<close>

section \<open>The document of a serialized value\<close>

fun res_all :: "'a res list \<Rightarrow> 'a list res" where
  "res_all [] = Ok []"
| "res_all (r # rs) = andThen r (\<lambda>x. andThen (res_all rs) (\<lambda>xs. Ok (x # xs)))"

fun object_of :: "(string \<times> vnode res) list \<Rightarrow> (string, vnode) btree \<Rightarrow> (string, vnode) btree res" where
  "object_of [] m = Ok m"
| "object_of ((k, r) # es) m = andThen r (\<lambda>v. object_of es (bt_insert k v m))"

fun map_of_calls :: "(string res + vnode res) list \<Rightarrow> string option \<Rightarrow> (string, vnode) btree \<Rightarrow> (string, vnode) btree res" where
  "map_of_calls [] p m = Ok m"
| "map_of_calls (Inl k # cs) p m = andThen k (\<lambda>k. map_of_calls cs (Some k) m)"
| "map_of_calls (Inr v # cs) None m = Err (Serde ''a map value was serialized before its key'')"
| "map_of_calls (Inr v # cs) (Some k) m = andThen v (\<lambda>v. map_of_calls cs None (bt_insert k v m))"

definition tagged :: "string \<Rightarrow> vnode \<Rightarrow> vnode res" where
  "tagged variant v = Ok (Node [(variant, v)])"

primrec shape :: "texts \<Rightarrow> sval \<Rightarrow> vnode res" and shape_call :: "texts \<Rightarrow> map_call \<Rightarrow> string res + vnode res" where
  "shape X (S_bool v) = Ok (Leaf (Bool v))"
| "shape X (S_i8 v) = Ok (Leaf (I8 v))"
| "shape X (S_i16 v) = Ok (Leaf (I16 v))"
| "shape X (S_i32 v) = Ok (Leaf (I32 v))"
| "shape X (S_i64 v) = Ok (Leaf (I64 v))"
| "shape X (S_i128 v) = Ok (Leaf (I128 v))"
| "shape X (S_u8 v) = Ok (Leaf (U8 v))"
| "shape X (S_u16 v) = Ok (Leaf (U16 v))"
| "shape X (S_u32 v) = Ok (Leaf (U32 v))"
| "shape X (S_u64 v) = Ok (Leaf (U64 v))"
| "shape X (S_u128 v) = Ok (Leaf (U128 v))"
| "shape X (S_f32 v) = Ok (Leaf (F32 v))"
| "shape X (S_f64 v) = Ok (Leaf (F64 v))"
| "shape X (S_char v) = Ok (Leaf (Str v))"
| "shape X (S_str v) = Ok (Leaf (Str v))"
| "shape X (S_bytes v) = Ok (Leaf (Bytes v))"
| "shape X S_none = Ok (Leaf Null)"
| "shape X (S_some v) = shape X v"
| "shape X S_unit = Ok (Leaf Null)"
| "shape X (S_unit_struct name) = Ok (Leaf Null)"
| "shape X (S_unit_variant name index variant) = Ok (Leaf (Str variant))"
| "shape X (S_newtype_struct name v) = shape X v"
| "shape X (S_newtype_variant name index variant v) = andThen (shape X v) (tagged variant)"
| "shape X (S_seq vs) = andThen (res_all (map (shape X) vs)) (\<lambda>vs. Ok (List vs))"
| "shape X (S_tuple vs) = andThen (res_all (map (shape X) vs)) (\<lambda>vs. Ok (List vs))"
| "shape X (S_tuple_struct name vs) = andThen (res_all (map (shape X) vs)) (\<lambda>vs. Ok (List vs))"
| "shape X (S_tuple_variant name index variant vs) = andThen (res_all (map (shape X) vs)) (\<lambda>vs. tagged variant (List vs))"
| "shape X (S_map calls) = andThen (map_of_calls (map (shape_call X) calls) None []) (\<lambda>m. Ok (Node m))"
| "shape X (S_struct name fs) = andThen (object_of (map (map_prod id (shape X)) fs) []) (\<lambda>m. Ok (Node m))"
| "shape X (S_struct_variant name index variant fs) = andThen (object_of (map (map_prod id (shape X)) fs) []) (\<lambda>m. tagged variant (Node m))"
| "shape_call X (Map_Key k) = Inl (key_serialize X k)"
| "shape_call X (Map_Value v) = Inr (shape X v)"

section \<open>Finishing a node\<close>

text \<open>What a finished node appends depends only on where it stands.\<close>

lemma push_leaf_form: "push_leaf buf s = (buf @ LEAF # scalar_encode [] s, word_of_nat (length buf))"
  by (simp add: push_leaf_def offset_def scalar_encode_append [of "buf @ [LEAF]"])

lemma push_list_form: "push_list buf os = (buf @ LIST # be32 (length os) @ concat (map be_bytes os), word_of_nat (length buf))"
  by (simp add: push_list_def foldl_put_u32 put_u32_def offset_def)

definition object_records :: "nat \<Rightarrow> (string \<times> u32) list \<Rightarrow> (u32 \<times> u32 \<times> u32) list" where
  "object_records n es = map (\<lambda>(no, nl, co). (word_of_nat no, word_of_nat nl, co)) (zip (name_starts n es) (zip (map (length \<circ> fst) es) (map snd es)))"

lemma length_object_records [simp]: "length (object_records n es) = length es"
  by (simp add: object_records_def)

lemma object_records_nth: "i < length es \<Longrightarrow>
  object_records n es ! i = (word_of_nat (name_starts n es ! i), word_of_nat (length (fst (es ! i))), snd (es ! i))"
  by (simp add: object_records_def)

lemma push_object_form:
  "push_object buf es = (buf @ concat (names_of es) @ NODE # be32 (length es) @ table_bytes (object_records (length buf) es),
     word_of_nat (length buf + length (concat (names_of es))))"
  unfolding push_object_def push_names_eq Let_def prod.case foldl_put_record
  by (simp add: offset_def put_u32_def object_records_def)

lemma lies_pushed_leaf: "length buf < 2 ^ 32 \<Longrightarrow> lies (buf @ LEAF # scalar_encode [] s) (word_of_nat (length buf)) (Leaf s)"
  by (intro lies_leaf) (simp add: u32_small)

abbreviation (input) lying :: "bytes \<Rightarrow> u32 list \<Rightarrow> vnode list \<Rightarrow> bool" where
  "lying buf os vs \<equiv> list_all2 (\<lambda>c v. unat c < length buf \<and> lies buf c v) os vs"

lemma lies_pushed_list:
  assumes "lying buf os vs" "length buf < 2 ^ 32"
  shows "lies (buf @ LIST # be32 (length os) @ concat (map be_bytes os)) (word_of_nat (length buf)) (List vs)"
proof (rule lies_list [where os = os])
  show "holds (buf @ LIST # be32 (length os) @ concat (map be_bytes os)) (unat (word_of_nat (length buf) :: u32)) (LIST # be32 (length vs) @ concat (map be_bytes os))"
    using assms(2) list_all2_lengthD [OF assms(1)] by (simp add: u32_small)
  show "list_all2 (\<lambda>c v. c < word_of_nat (length buf) \<and> lies (buf @ LIST # be32 (length os) @ concat (map be_bytes os)) c v) os vs"
    using assms by (auto elim!: list_all2_mono simp: word_less_nat_alt u32_small lies_extend)
qed

abbreviation (input) lying_entries :: "bytes \<Rightarrow> (string, u32) btree \<Rightarrow> (string, vnode) btree \<Rightarrow> bool" where
  "lying_entries buf es m \<equiv> list_all2 (\<lambda>e f. fst e = fst f \<and> unat (snd e) < length buf \<and> lies buf (snd e) (snd f)) es m"

lemma lies_pushed_object:
  fixes buf es
  defines "names \<equiv> concat (names_of es)"
  assumes "lying_entries buf es m" "length buf + length names < 2 ^ 32"
  shows "lies (buf @ names @ NODE # be32 (length es) @ table_bytes (object_records (length buf) es)) (word_of_nat (length buf + length names)) (Node m)"
    (is "lies ?b ?off _")
proof (rule lies_object [where rs = "object_records (length buf) es"])
  have off: "unat ?off = length buf + length names" using assms(3) by (intro u32_small)
  note len = list_all2_lengthD [OF assms(2)]
  show "holds ?b (unat ?off) (NODE # be32 (length m) @ table_bytes (object_records (length buf) es))"
    using holds_end [of "buf @ names"] len off by simp
  have "holds ?b (unat (fst r)) (as_bytes (fst e)) \<and> unat (fst (snd r)) = length (fst e) \<and> snd (snd r) < ?off \<and> lies ?b (snd (snd r)) (snd e)"
    if i: "i < length m" and r: "r = object_records (length buf) es ! i" and e: "e = m ! i" for i r e
  proof -
    have i': "i < length es" using i len by simp
    note at = list_all2_nthD2 [OF assms(2) i]
    have "holds names (length (concat (take i (names_of es)))) (names_of es ! i)" using i' unfolding names_def by (intro holds_concat) (simp add: names_of_def)
    then have name: "holds names (length (concat (take i (names_of es)))) (as_bytes (fst (es ! i)))" using i' by (simp add: names_of_def)
    then have "holds ?b (length buf + length (concat (take i (names_of es)))) (as_bytes (fst (es ! i)))"
      using holds_trans [OF name, of ?b "length buf"] holds_extend [OF holds_end [of buf names]] by simp
    moreover have "length (concat (take i (names_of es))) + length (fst (es ! i)) \<le> length names" using name by (simp add: holds_def)
    ultimately show ?thesis
      using at i' assms(3) off lies_extend [of buf "snd (es ! i)"]
      by (simp add: r e object_records_nth name_starts_nth u32_small word_less_nat_alt del: of_nat_add)
  qed
  then show "list_all2 (\<lambda>r e. holds ?b (unat (fst r)) (as_bytes (fst e)) \<and> unat (fst (snd r)) = length (fst e) \<and>
      snd (snd r) < ?off \<and> lies ?b (snd (snd r)) (snd e)) (object_records (length buf) es) m"
    using len by (simp add: list_all2_conv_all_nth)
qed

section \<open>Writers\<close>

text \<open>\<open>runs n pre f lay r\<close>: on every buffer of \<open>n\<close> bytes, \<open>f\<close> appends the same bytes and gathers the same offsets, and when \<open>pre\<close> holds of the buffer, then in a blob of at most
  4 GiB the gathered offsets are \<open>lay\<close>ing what \<open>r\<close> says; or it is the error \<open>r\<close>.\<close>

definition runs :: "nat \<Rightarrow> (bytes \<Rightarrow> bool) \<Rightarrow> (bytes \<Rightarrow> (bytes \<times> 'b) res) \<Rightarrow> (bytes \<Rightarrow> 'b \<Rightarrow> 'm \<Rightarrow> bool) \<Rightarrow> 'm res \<Rightarrow> bool" where
  "runs n pre f lay r \<longleftrightarrow> (case r of
      Ok m \<Rightarrow> \<exists>x b. \<forall>buf. length buf = n \<longrightarrow> f buf = Ok (buf @ x, b) \<and> (n + length x < 2 ^ 32 \<longrightarrow> pre buf \<longrightarrow> lay (buf @ x) b m)
    | Err e \<Rightarrow> \<forall>buf. length buf = n \<longrightarrow> f buf = Err e
    | _ \<Rightarrow> False)"

abbreviation (input) lying_node :: "bytes \<Rightarrow> u32 \<Rightarrow> vnode \<Rightarrow> bool" where
  "lying_node buf off v \<equiv> unat off < length buf \<and> lies buf off v"

definition writes :: "writer \<Rightarrow> vnode res \<Rightarrow> bool" where
  "writes w r \<longleftrightarrow> (\<forall>n. runs n (\<lambda>_. True) w lying_node r)"

lemma runs_OkI:
  assumes "\<And>buf. length buf = n \<Longrightarrow> f buf = Ok (buf @ x, b)" "\<And>buf. length buf = n \<Longrightarrow> n + length x < 2 ^ 32 \<Longrightarrow> pre buf \<Longrightarrow> lay (buf @ x) b m"
  shows "runs n pre f lay (Ok m)"
  using assms by (auto simp: runs_def)

lemma runs_bind:
  assumes "runs n pre f lay r" "\<And>m n b. r = Ok m \<Longrightarrow> runs n (\<lambda>buf. lay buf b m) (g b) lay' (h m)"
  shows "runs n pre (\<lambda>buf. andThen (f buf) (\<lambda>(buf, b). g b buf)) lay' (andThen r h)"
proof (cases r)
  case (Ok m)
  then obtain x b where f: "\<And>buf. length buf = n \<Longrightarrow> f buf = Ok (buf @ x, b)"
    "\<And>buf. length buf = n \<Longrightarrow> n + length x < 2 ^ 32 \<Longrightarrow> pre buf \<Longrightarrow> lay (buf @ x) b m"
    using assms(1) unfolding runs_def by auto
  note g = assms(2) [OF Ok, of "n + length x" b]
  show ?thesis
  proof (cases "h m")
    case (Ok m')
    then obtain y c where y: "\<And>buf. length buf = n + length x \<Longrightarrow> g b buf = Ok (buf @ y, c)"
      "\<And>buf. length buf = n + length x \<Longrightarrow> n + length x + length y < 2 ^ 32 \<Longrightarrow> lay buf b m \<Longrightarrow> lay' (buf @ y) c m'"
      using g unfolding runs_def by auto
    have "runs n pre (\<lambda>buf. andThen (f buf) (\<lambda>(buf, b). g b buf)) lay' (Ok m')"
    proof (rule runs_OkI [where x = "x @ y" and b = c])
      fix buf :: bytes
      assume n: "length buf = n"
      show "andThen (f buf) (\<lambda>(buf, b). g b buf) = Ok (buf @ x @ y, c)" using f(1) [OF n] y(1) [of "buf @ x"] n by simp
      assume "n + length (x @ y) < 2 ^ 32" "pre buf"
      then show "lay' (buf @ x @ y) c m'" using f(2) [OF n] y(2) [of "buf @ x"] n by simp
    qed
    then show ?thesis using \<open>r = Ok m\<close> Ok by simp
  next
    case (Err e)
    then show ?thesis using g f(1) \<open>r = Ok m\<close> by (simp add: runs_def)
  qed (use g in \<open>simp_all add: runs_def\<close>)
qed (use assms(1) in \<open>simp_all add: runs_def\<close>)

lemma runs_weaken: "runs n pre f lay r \<Longrightarrow> (\<And>buf. length buf = n \<Longrightarrow> pre' buf \<Longrightarrow> pre buf) \<Longrightarrow> runs n pre' f lay r"
  by (auto simp: runs_def split: res.splits)

lemma writes_leaf: "writes (\<lambda>buf. Ok (push_leaf buf s)) (Ok (Leaf s))"
  unfolding writes_def
proof
  show "runs n (\<lambda>_. True) (\<lambda>buf. Ok (push_leaf buf s)) lying_node (Ok (Leaf s))" for n
    by (rule runs_OkI [where x = "LEAF # scalar_encode [] s" and b = "word_of_nat n"]) (auto simp: push_leaf_form u32_small lies_pushed_leaf)
qed

lemma runs_push_list: "runs n (\<lambda>buf. lying buf os vs) (\<lambda>buf. seq_end (buf, os)) lying_node (Ok (List vs))"
  by (rule runs_OkI [where x = "LIST # be32 (length os) @ concat (map be_bytes os)" and b = "word_of_nat n"])
    (auto simp: seq_end_def push_list_form u32_small lies_pushed_list)

lemma runs_push_object: "runs n (\<lambda>buf. lying_entries buf es m) (\<lambda>buf. struct_end (buf, es)) lying_node (Ok (Node m))"
proof (rule runs_OkI [where x = "concat (names_of es) @ NODE # be32 (length es) @ table_bytes (object_records n es)" and b = "word_of_nat (n + length (concat (names_of es)))"])
  fix buf :: bytes
  assume n: "length buf = n"
  show "struct_end (buf, es) = Ok (buf @ concat (names_of es) @ NODE # be32 (length es) @ table_bytes (object_records n es), word_of_nat (n + length (concat (names_of es))))"
    using n by (simp add: struct_end_def finish_object_def push_object_form)
  assume small: "n + length (concat (names_of es) @ NODE # be32 (length es) @ table_bytes (object_records n es)) < 2 ^ 32" and e: "lying_entries buf es m"
  then have "unat (word_of_nat (n + length (concat (names_of es))) :: u32) = n + length (concat (names_of es))" by (intro u32_small) simp
  moreover have "lies (buf @ concat (names_of es) @ NODE # be32 (length es) @ table_bytes (object_records n es)) (word_of_nat (n + length (concat (names_of es)))) (Node m)"
    using lies_pushed_object [OF e] n small by simp
  ultimately show "lying_node (buf @ concat (names_of es) @ NODE # be32 (length es) @ table_bytes (object_records n es)) (word_of_nat (n + length (concat (names_of es)))) (Node m)"
    using n by (simp del: of_nat_add)
qed

text \<open>What was gathered before stays: later nodes only append.\<close>

lemma runs_frame:
  assumes "runs n pre f lay r" "\<And>buf x. K buf \<Longrightarrow> K (buf @ x)"
  shows "runs n (\<lambda>buf. pre buf \<and> K buf) f (\<lambda>buf b m. lay buf b m \<and> K buf) r"
  using assms(1) by (auto simp: runs_def assms(2) split: res.splits)

lemma lying_extend: "lying buf os vs \<Longrightarrow> lying (buf @ x) os vs"
  by (auto elim!: list_all2_mono intro: lies_extend)

lemma lying_entries_extend: "lying_entries buf es m \<Longrightarrow> lying_entries (buf @ x) es m"
  by (auto elim!: list_all2_mono intro: lies_extend)

lemma lying_entries_insert:
  assumes "lying_entries buf es m" "lying_node buf off v"
  shows "lying_entries buf (bt_insert k off es) (bt_insert k v m)"
  using assms(1)
proof (induction es m rule: list_all2_induct)
  case (Cons e es f m)
  then show ?case using assms(2) by auto
qed (use assms(2) in simp)

lemma runs_element:
  assumes "writes w r"
  shows "runs n (\<lambda>buf. lying buf os vs) (\<lambda>buf. seq_element w (buf, os)) lying (andThen r (\<lambda>v. Ok (vs @ [v])))"
proof -
  have "runs n (\<lambda>buf. True \<and> lying buf os vs) w (\<lambda>buf off v. lying_node buf off v \<and> lying buf os vs) r"
    using assms by (intro runs_frame lying_extend) (auto simp: writes_def)
  then have "runs n (\<lambda>buf. True \<and> lying buf os vs) (\<lambda>buf. andThen (w buf) (\<lambda>(buf, off). Ok (buf, os @ [off]))) lying (andThen r (\<lambda>v. Ok (vs @ [v])))"
    by (rule runs_bind) (auto intro!: runs_OkI [where x = "[]"] list_all2_appendI)
  then show ?thesis by (simp add: seq_element_def)
qed

lemma runs_elements:
  assumes "list_all2 writes ws rs"
  shows "runs n (\<lambda>buf. lying buf os vs) (\<lambda>buf. run_calls (map seq_element ws) (buf, os)) lying (andThen (res_all rs) (\<lambda>us. Ok (vs @ us)))"
  using assms
proof (induction ws rs arbitrary: n os vs rule: list_all2_induct)
  case Nil
  show ?case by (auto intro!: runs_OkI [where x = "[]"])
next
  case (Cons w ws r rs)
  have "runs n (\<lambda>buf. lying buf os vs) (\<lambda>buf. andThen (seq_element w (buf, os)) (\<lambda>(buf, os). run_calls (map seq_element ws) (buf, os))) lying
      (andThen (andThen r (\<lambda>v. Ok (vs @ [v]))) (\<lambda>vs. andThen (res_all rs) (\<lambda>us. Ok (vs @ us))))"
    by (rule runs_bind [OF runs_element [OF Cons.hyps(1)] Cons.IH])
  then show ?case by (cases r; cases "res_all rs") (simp_all add: case_prod_unfold)
qed

lemma runs_fields:
  assumes "list_all2 (\<lambda>(k, w) (k', r). k = k' \<and> writes w r) ws rs"
  shows "runs n (\<lambda>buf. lying_entries buf es m) (\<lambda>buf. run_calls (map (\<lambda>(key, w). struct_field key w) ws) (buf, es)) lying_entries (object_of rs m)"
  using assms
proof (induction ws rs arbitrary: n es m rule: list_all2_induct)
  case Nil
  show ?case by (auto intro!: runs_OkI [where x = "[]"])
next
  case (Cons kw ws kr rs)
  obtain k w r where k: "kw = (k, w)" "kr = (k, r)" "writes w r" using Cons.hyps(1) by auto
  have "runs n (\<lambda>buf. True \<and> lying_entries buf es m) w (\<lambda>buf off v. lying_node buf off v \<and> lying_entries buf es m) r"
    using k(3) by (intro runs_frame lying_entries_extend) (auto simp: writes_def)
  then have "runs n (\<lambda>buf. True \<and> lying_entries buf es m) (\<lambda>buf. andThen (w buf) (\<lambda>(buf, off). run_calls (map (\<lambda>(key, w). struct_field key w) ws) (buf, bt_insert k off es)))
      lying_entries (andThen r (\<lambda>v. object_of rs (bt_insert k v m)))"
  proof (rule runs_bind)
    show "runs n (\<lambda>buf. lying_node buf off v \<and> lying_entries buf es m) (\<lambda>buf. run_calls (map (\<lambda>(key, w). struct_field key w) ws) (buf, bt_insert k off es))
        lying_entries (object_of rs (bt_insert k v m))" for n off v
      by (rule runs_weaken [OF Cons.IH]) (auto intro: lying_entries_insert)
  qed
  moreover have "run_calls (map (\<lambda>(key, w). struct_field key w) (kw # ws)) (buf, es) =
      andThen (w buf) (\<lambda>(buf, off). run_calls (map (\<lambda>(key, w). struct_field key w) ws) (buf, bt_insert k off es))" for buf
    using k(1) by (cases "w buf") (auto simp: struct_field_def)
  ultimately show ?case using k(2) by simp
qed

abbreviation (input) lying_map :: "bytes \<Rightarrow> (string, u32) btree \<times> string option \<Rightarrow> (string, vnode) btree \<Rightarrow> bool" where
  "lying_map buf b m \<equiv> lying_entries buf (fst b) m"

lemma runs_map_calls:
  assumes "list_all2 (\<lambda>f r. (\<exists>k. f = map_serialize_key k \<and> r = Inl k \<and> k \<noteq> Diverge \<and> (\<forall>s. k \<noteq> Panic s)) \<or> (\<exists>w v. f = map_serialize_value w \<and> r = Inr v \<and> writes w v)) fs rs"
  shows "runs n (\<lambda>buf. lying_entries buf es m) (\<lambda>buf. run_calls fs (buf, es, p)) lying_map (map_of_calls rs p m)"
  using assms
proof (induction fs rs arbitrary: n es m p rule: list_all2_induct)
  case Nil
  show ?case by (auto intro!: runs_OkI [where x = "[]"])
next
  case (Cons f fs r rs)
  consider (key) k where "f = map_serialize_key k" "r = Inl k" "k \<noteq> Diverge" "\<And>s. k \<noteq> Panic s" | (entry) w v where "f = map_serialize_value w" "r = Inr v" "writes w v"
    using Cons.hyps(1) by blast
  then show ?case
  proof cases
    case key
    have "k \<noteq> Panic s" for s using key(4) .
    then show ?thesis using key(1-3) Cons.IH [of n es m] by (cases k) (auto simp: map_serialize_key_def runs_def)
  next
    case entry
    show ?thesis
    proof (cases p)
      case None
      then show ?thesis using entry by (simp add: map_serialize_value_def runs_def)
    next
      case (Some k)
      have "runs n (\<lambda>buf. True \<and> lying_entries buf es m) w (\<lambda>buf off v. lying_node buf off v \<and> lying_entries buf es m) v"
        using entry(3) by (intro runs_frame lying_entries_extend) (auto simp: writes_def)
      then have "runs n (\<lambda>buf. True \<and> lying_entries buf es m) (\<lambda>buf. andThen (w buf) (\<lambda>(buf, off). run_calls fs (buf, bt_insert k off es, None)))
          lying_map (andThen v (\<lambda>v. map_of_calls rs None (bt_insert k v m)))"
      proof (rule runs_bind)
        show "runs n (\<lambda>buf. lying_node buf off v \<and> lying_entries buf es m) (\<lambda>buf. run_calls fs (buf, bt_insert k off es, None)) lying_map (map_of_calls rs None (bt_insert k v m))" for n off v
          by (rule runs_weaken [OF Cons.IH]) (auto intro: lying_entries_insert)
      qed
      moreover have "run_calls (f # fs) (buf, es, p) = andThen (w buf) (\<lambda>(buf, off). run_calls fs (buf, bt_insert k off es, None))" for buf
        using entry(1) Some by (cases "w buf") (auto simp: map_serialize_value_def)
      ultimately show ?thesis using entry(2) Some by simp
    qed
  qed
qed

section \<open>The serializer\<close>

lemma key_serialize_plain: "key_serialize X k \<noteq> Diverge \<and> key_serialize X k \<noteq> Panic s"
  by (induction X k rule: key_serialize.induct) auto

lemma runs_wrap: "runs n (\<lambda>buf. lying_node buf off v) (\<lambda>buf. Ok (wrap_variant buf variant off)) lying_node (tagged variant v)"
  using runs_push_object [of n "[(variant, off)]" "[(variant, v)]"] by (simp add: wrap_variant_def struct_end_def finish_object_def tagged_def)

lemma writes_bind:
  assumes "\<And>n. runs n (\<lambda>_. True) f lay r" "\<And>n b m. runs n (\<lambda>buf. lay buf b m) (g b) lying_node (h m)"
  shows "writes (\<lambda>buf. andThen (f buf) (\<lambda>(buf, b). g b buf)) (andThen r h)"
  using runs_bind [OF assms(1), of g lying_node h] assms(2) by (simp add: writes_def)

lemma writes_wrapped: "writes w r \<Longrightarrow> writes (\<lambda>buf. andThen (w buf) (\<lambda>(buf, payload). Ok (wrap_variant buf variant payload))) (andThen r (tagged variant))"
  by (rule writes_bind [where lay = lying_node, OF _ runs_wrap]) (simp add: writes_def)

lemma runs_all_elements:
  assumes "list_all2 writes ws rs"
  shows "runs n (\<lambda>_. True) (\<lambda>buf. run_calls (map seq_element ws) (buf, [])) lying (res_all rs)"
proof -
  have "andThen (res_all rs) (\<lambda>us. Ok ([] @ us)) = res_all rs" by (cases "res_all rs") simp_all
  then show ?thesis using runs_weaken [OF runs_elements [OF assms, of n "[]" "[]"], of "\<lambda>_. True"] by simp
qed

lemma writes_list:
  assumes "list_all2 writes ws rs"
  shows "writes (\<lambda>buf. andThen (run_calls (map seq_element ws) (buf, [])) seq_end) (andThen (res_all rs) (\<lambda>vs. Ok (List vs)))"
  using writes_bind [OF runs_all_elements [OF assms] runs_push_list] by (simp add: case_prod_unfold)

lemma writes_struct:
  assumes "list_all2 (\<lambda>(k, w) (k', r). k = k' \<and> writes w r) ws rs"
  shows "writes (\<lambda>buf. andThen (run_calls (map (\<lambda>(key, w). struct_field key w) ws) (buf, [])) struct_end) (andThen (object_of rs []) (\<lambda>m. Ok (Node m)))"
proof -
  have "runs n (\<lambda>_. True) (\<lambda>buf. run_calls (map (\<lambda>(key, w). struct_field key w) ws) (buf, [])) lying_entries (object_of rs [])" for n
    using runs_weaken [OF runs_fields [OF assms, of n "[]" "[]"], of "\<lambda>_. True"] by simp
  from writes_bind [OF this runs_push_object] show ?thesis by (simp add: case_prod_unfold)
qed

lemma writes_map:
  assumes "list_all2 (\<lambda>f r. (\<exists>k. f = map_serialize_key k \<and> r = Inl k \<and> k \<noteq> Diverge \<and> (\<forall>s. k \<noteq> Panic s)) \<or> (\<exists>w v. f = map_serialize_value w \<and> r = Inr v \<and> writes w v)) fs rs"
  shows "writes (\<lambda>buf. andThen (run_calls fs (buf, [], None)) map_end) (andThen (map_of_calls rs None []) (\<lambda>m. Ok (Node m)))"
proof -
  have "runs n (\<lambda>_. True) (\<lambda>buf. run_calls fs (buf, [], None)) lying_map (map_of_calls rs None [])" for n
    using runs_weaken [OF runs_map_calls [OF assms, of n "[]" "[]" None], of "\<lambda>_. True"] by simp
  moreover have "runs n (\<lambda>buf. lying_map buf b m) (\<lambda>buf. map_end (buf, b)) lying_node (Ok (Node m))" for n b m
    using runs_push_object [of n "fst b" m] by (cases b) (simp add: map_end_def struct_end_def)
  ultimately show ?thesis using writes_bind [where lay = lying_map and g = "\<lambda>b buf. map_end (buf, b)" and h = "\<lambda>m. Ok (Node m)"] by (simp add: case_prod_unfold)
qed

text \<open>A tuple or struct variant is the list or object, wrapped.\<close>

lemma tuple_variant_wrapped: "(\<lambda>buf. andThen (f buf) (tuple_variant_end variant)) =
  (\<lambda>buf. andThen (andThen (f buf) seq_end) (\<lambda>(buf, payload). Ok (wrap_variant buf variant payload)))"
proof
  show "andThen (f buf) (tuple_variant_end variant) = andThen (andThen (f buf) seq_end) (\<lambda>(buf, payload). Ok (wrap_variant buf variant payload))" for buf
    by (cases "f buf") (auto simp: tuple_variant_end_def seq_end_def split: prod.split)
qed

lemma struct_variant_wrapped: "(\<lambda>buf. andThen (f buf) (struct_variant_end variant)) =
  (\<lambda>buf. andThen (andThen (f buf) struct_end) (\<lambda>(buf, payload). Ok (wrap_variant buf variant payload)))"
proof
  show "andThen (f buf) (struct_variant_end variant) = andThen (andThen (f buf) struct_end) (\<lambda>(buf, payload). Ok (wrap_variant buf variant payload))" for buf
    by (cases "f buf") (auto simp: struct_variant_end_def struct_end_def split: prod.split)
qed

lemma fields_all2:
  "(\<And>e. e \<in> set fs \<Longrightarrow> P (f (snd e)) (g (snd e))) \<Longrightarrow> list_all2 (\<lambda>(k, w) (k', r). k = k' \<and> P w r) (map (map_prod id f) fs) (map (map_prod id g) fs)"
  by (induction fs) (auto, blast)

lemma serialize_writes:
  "writes (serialize X v) (shape X v)"
  "(\<exists>k. serialize_call X c = map_serialize_key k \<and> shape_call X c = Inl k \<and> k \<noteq> Diverge \<and> (\<forall>s. k \<noteq> Panic s)) \<or>
   (\<exists>w v. serialize_call X c = map_serialize_value w \<and> shape_call X c = Inr v \<and> writes w v)"
proof (induction v and c)
  case (S_newtype_variant name index variant v)
  then show ?case by (simp add: writes_wrapped)
next
  case (S_seq vs)
  then show ?case using writes_list [of "map (serialize X) vs" "map (shape X) vs"] by (simp add: list_all2_conv_all_nth)
next
  case (S_tuple vs)
  then show ?case using writes_list [of "map (serialize X) vs" "map (shape X) vs"] by (simp add: list_all2_conv_all_nth)
next
  case (S_tuple_struct name vs)
  then show ?case using writes_list [of "map (serialize X) vs" "map (shape X) vs"] by (simp add: list_all2_conv_all_nth)
next
  case (S_tuple_variant name index variant vs)
  then have "list_all2 writes (map (serialize X) vs) (map (shape X) vs)" by (simp add: list_all2_conv_all_nth)
  from writes_wrapped [OF writes_list [OF this]] show ?case by (simp add: tuple_variant_wrapped andThen_assoc)
next
  case (S_map calls)
  then show ?case by (auto intro!: writes_map simp: list_all2_conv_all_nth)
next
  case (S_struct name fs)
  then have "list_all2 (\<lambda>(k, w) (k', r). k = k' \<and> writes w r) (map (map_prod id (serialize X)) fs) (map (map_prod id (shape X)) fs)"
    by (intro fields_all2) (simp add: prod_set_defs)
  from writes_struct [OF this] show ?case by simp
next
  case (S_struct_variant name index variant fs)
  then have "list_all2 (\<lambda>(k, w) (k', r). k = k' \<and> writes w r) (map (map_prod id (serialize X)) fs) (map (map_prod id (shape X)) fs)"
    by (intro fields_all2) (simp add: prod_set_defs)
  from writes_wrapped [OF writes_struct [OF this]] show ?case by (simp add: struct_variant_wrapped andThen_assoc)
next
  case (Map_Key k)
  then show ?case using key_serialize_plain by auto
qed (auto simp: writes_leaf)

section \<open>The blob\<close>

lemma patch_root_form: "length h = 5 \<Longrightarrow> hd h = FORMAT_VERSION \<Longrightarrow> patch_root (h @ x) root = ([FORMAT_VERSION] @ be_bytes root) @ x"
  by (cases h) (simp_all add: patch_root_def)

lemma archived_new_form: "length (([FORMAT_VERSION] @ be_bytes root) @ x) < 2 ^ 32 \<Longrightarrow>
  archived_new (([FORMAT_VERSION] @ be_bytes root) @ x) = Ok (([FORMAT_VERSION] @ be_bytes root) @ x, root)"
  using holds_read_u32 [of "[FORMAT_VERSION] @ be_bytes root @ x" 1 root x] holds_end [of "[FORMAT_VERSION]" "be_bytes root @ x"] u32_usize
  by (simp add: archived_new_def)

lemma to_blob_lies:
  assumes "shape X v = Ok d"
  obtains blob root where "to_blob X v = Ok blob" "length blob < 2 ^ 32 \<Longrightarrow> archived_new blob = Ok (blob, root) \<and> lies blob root d"
proof -
  have "runs 5 (\<lambda>_. True) (serialize X v) lying_node (Ok d)" using serialize_writes(1) [of X v] assms by (simp add: writes_def)
  then obtain x root where "\<forall>buf. length buf = 5 \<longrightarrow> serialize X v buf = Ok (buf @ x, root) \<and> (5 + length x < 2 ^ 32 \<longrightarrow> True \<longrightarrow> lying_node (buf @ x) root d)"
    unfolding runs_def res.case by blast
  then have w: "\<And>buf. length buf = 5 \<Longrightarrow> serialize X v buf = Ok (buf @ x, root)"
    "\<And>buf. length buf = 5 \<Longrightarrow> 5 + length x < 2 ^ 32 \<Longrightarrow> lies (buf @ x) root d" by blast+
  let ?blob = "([FORMAT_VERSION] @ be_bytes root) @ x"
  have "to_blob X v = Ok ?blob" using w(1) [of begin_blob] patch_root_form [of begin_blob x root] by (simp add: to_blob_def begin_blob_def)
  then show ?thesis using that [of ?blob root] archived_new_form [of root x] w(2) [of "[FORMAT_VERSION] @ be_bytes root"] by simp
qed

text \<open>C25: the direct serializer writes a blob of the document the value stands for. The calls a value makes on the serializer determine a document, with variants tagged from outside, fields
  sorted, and keys as text; the blob decodes to it and every path leads to the same subtree, although the nodes were written in the order of the calls. When a key is not text or a
  value comes before its key, the serialization is that error.\<close>

theorem serde_blob_shape:
  "case shape X v of
     Ok d \<Rightarrow> \<exists>blob. to_blob X v = Ok blob \<and>
       (length blob < 2 ^ 32 \<longrightarrow> value_ok C d \<longrightarrow> blob_decode C blob = Ok d \<and> (\<forall>p. blob_subtree C blob p = Ok (subtree d p)))
   | Err e \<Rightarrow> to_blob X v = Err e
   | _ \<Rightarrow> False"
proof (cases "shape X v")
  case (Ok d)
  obtain blob root where "to_blob X v = Ok blob" "length blob < 2 ^ 32 \<Longrightarrow> archived_new blob = Ok (blob, root) \<and> lies blob root d"
    using to_blob_lies [OF Ok] by blast
  then show ?thesis using Ok lies_blob [of blob root d C] by auto
next
  case (Err e)
  then have "serialize X v begin_blob = Err e" using serialize_writes(1) [of X v] unfolding writes_def runs_def by simp
  then show ?thesis using Err by (simp add: to_blob_def)
qed (use serialize_writes(1) [of X v] in \<open>simp_all add: writes_def runs_def\<close>)

text \<open>A struct variant whose fields come out of order.\<close>

definition sample_sval :: sval where
  "sample_sval = S_struct_variant ''E'' 0 ''V'' [(''b'', S_seq [S_u8 1, S_none]), (''a'', S_some (S_bool True))]"

definition sample_shape :: vnode where
  "sample_shape = Node [(''V'', Node [(''a'', Leaf (Bool True)), (''b'', List [Leaf (U8 1), Leaf Null])])]"

lemma sample_shape_eq: "shape sample_texts sample_sval = Ok sample_shape"
  by (simp add: sample_sval_def sample_shape_def tagged_def)

lemma sample_shape_ok: "value_ok calendar sample_shape"
proof -
  have "utf8 ''V'' \<and> utf8 ''a'' \<and> utf8 ''b''" by code_simp
  then show ?thesis by (simp add: sample_shape_def bt_ok_def less_char_def)
qed

lemma sample_blob_length: "to_blob sample_texts sample_sval = Ok blob \<Longrightarrow> length blob < 2 ^ 32"
  by (auto simp: to_blob_def sample_sval_def seq_element_def seq_end_def struct_field_def struct_variant_end_def finish_object_def wrap_variant_def
      push_leaf_form push_list_form push_object_form begin_blob_def patch_root_def names_of_def object_records_def put_record_def put_u32_def)

theorem serde_blob_shape_witness:
  "\<exists>blob. to_blob sample_texts sample_sval = Ok blob \<and> blob_decode calendar blob = Ok sample_shape \<and> blob_subtree calendar blob [Name ''V'', Name ''b'', Index 0] = Ok (Some (Leaf (U8 1)))"
proof -
  obtain blob where "to_blob sample_texts sample_sval = Ok blob" "blob_decode calendar blob = Ok sample_shape" "\<forall>p. blob_subtree calendar blob p = Ok (subtree sample_shape p)"
    using serde_blob_shape [of sample_texts sample_sval calendar] sample_blob_length sample_shape_ok by (auto simp: sample_shape_eq)
  then show ?thesis by (auto simp: sample_shape_def bt_get_def nth_opt_def)
qed

section \<open>The dynamic value\<close>

fun native :: "vnode \<Rightarrow> bool" where
  "native (Leaf s) = (\<exists>v. scalar_into s = Ok v)"
| "native (List l) = (\<forall>v \<in> set l. native v)"
| "native (Node m) = (\<forall>e \<in> set m. native (snd e))"

definition textual_scalar :: "texts \<Rightarrow> scalar \<Rightarrow> scalar" where
  "textual_scalar X s =
     (case s of
        Uuid v \<Rightarrow> Str (text_uuid X v)
      | Date v \<Rightarrow> Str (text_date X v)
      | Time v \<Rightarrow> Str (text_time X v)
      | DateTime d t \<Rightarrow> Str (text_datetime X d t)
      | Duration v \<Rightarrow> Str (text_duration X v)
      | _ \<Rightarrow> s)"

text \<open>A value with the scalars Serde has no primitive for in their text form.\<close>

fun textual :: "texts \<Rightarrow> vnode \<Rightarrow> vnode" where
  "textual X (Leaf s) = Leaf (textual_scalar X s)"
| "textual X (List l) = List (map (textual X) l)"
| "textual X (Node m) = Node (map (\<lambda>e. (fst e, textual X (snd e))) m)"

lemma native_textual: "native (textual X v)"
proof (induction v rule: textual.induct)
  case (1 X s)
  then show ?case by (cases s) (simp_all add: textual_scalar_def scalar_into_def)
qed auto

lemma textual_native: "native v \<Longrightarrow> textual X v = v"
proof (induction v rule: textual.induct)
  case (1 X s)
  then show ?case by (cases s) (simp_all add: textual_scalar_def scalar_into_def)
qed (auto simp: map_idI)

lemma res_all_Ok: "res_all (map (\<lambda>x. Ok (f x)) xs) = Ok (map f xs)"
  by (induction xs) simp_all

lemma map_of_calls_entries:
  "map_of_calls (concat (map (\<lambda>e. [Inl (Ok (fst e)), Inr (Ok (f (snd e)))]) m)) p a = Ok (foldl (\<lambda>a e. bt_insert (fst e) (snd e) a) a (map (\<lambda>e. (fst e, f (snd e))) m))"
  by (induction m arbitrary: a p) simp_all

fun sorted_value :: "vnode \<Rightarrow> bool" where
  "sorted_value (Leaf s) = True"
| "sorted_value (List l) = (\<forall>v \<in> set l. sorted_value v)"
| "sorted_value (Node m) = (bt_ok m \<and> (\<forall>e \<in> set m. sorted_value (snd e)))"

lemma textual_sorted: "value_ok C (textual X v) \<Longrightarrow> sorted_value v"
  by (induction v rule: textual.induct) (auto simp: bt_ok_def comp_def)

lemma shape_value: "sorted_value v \<Longrightarrow> shape X (value_serialize X v) = Ok (textual X v)"
proof (induction v rule: textual.induct)
  case (1 X s)
  then show ?case by (cases s) (simp_all add: scalar_serialize_def textual_scalar_def)
next
  case (2 X l)
  then have "map (shape X \<circ> value_serialize X) l = map (\<lambda>v. Ok (textual X v)) l" by auto
  then show ?case by (simp add: res_all_Ok del: map_eq_conv)
next
  case (3 X m)
  have calls: "map (shape_call X) (concat (map (\<lambda>e. [Map_Key (S_str (fst e)), Map_Value (value_serialize X (snd e))]) m)) =
      concat (map (\<lambda>e. [Inl (Ok (fst e)), Inr (Ok (textual X (snd e)))]) m)"
    using 3 by (auto simp: map_concat intro!: arg_cong [where f = concat])
  have "bt_ok (map (\<lambda>e. (fst e, textual X (snd e))) m)" using 3(2) by (simp add: bt_ok_def comp_def)
  then show ?case using foldl_bt_insert [of "[]" "map (\<lambda>e. (fst e, textual X (snd e))) m"] by (simp add: calls map_of_calls_entries)
qed

text \<open>The two pulling loops.\<close>

lemma visit_seq_reads:
  assumes "\<And>i. node_at blob off i = Ok (nth_opt os i)" "list_all2 (\<lambda>c v. read c = Ok v) os l" "i \<le> length l"
  shows "visit_seq read blob \<lparr>sr_node = off, sr_index = i, sr_len = length l\<rparr> items = Ok (List (items @ drop i l))"
  using assms(3)
proof (induction "length l - i" arbitrary: i items)
  case 0
  then show ?case by (subst visit_seq.simps) (simp add: next_element_def)
next
  case (Suc k)
  then have i: "i < length l" by simp
  have "read (os ! i) = Ok (l ! i)" using list_all2_nthD2 [OF assms(2) i] .
  moreover have "nth_opt os i = Some (os ! i)" using i list_all2_lengthD [OF assms(2)] by (simp add: nth_opt_def)
  moreover have "visit_seq read blob \<lparr>sr_node = off, sr_index = Suc i, sr_len = length l\<rparr> (items @ [l ! i]) = Ok (List (items @ drop i l))"
    using Suc(1) [of "Suc i" "items @ [l ! i]"] Suc(2) i by (simp add: Cons_nth_drop_Suc)
  ultimately show ?case using i assms(1) by (subst visit_seq.simps) (simp add: next_element_def)
qed

lemma visit_map_reads:
  assumes "list_all2 (\<lambda>c e. read c = Ok (snd e)) os m" "i \<le> length m"
  shows "visit_map read \<lparr>mr_entries = zip (map fst m) os, mr_index = i, mr_value = None\<rparr> node = Ok (Node (foldl (\<lambda>a e. bt_insert (fst e) (snd e) a) node (drop i m)))"
  using assms(2)
proof (induction "length m - i" arbitrary: i node)
  case 0
  then show ?case using list_all2_lengthD [OF assms(1)] by (subst visit_map.simps) (simp add: next_key_def)
next
  case (Suc k)
  then have i: "i < length m" by simp
  have "read (os ! i) = Ok (snd (m ! i))" using list_all2_nthD2 [OF assms(1) i] .
  moreover have "visit_map read \<lparr>mr_entries = zip (map fst m) os, mr_index = Suc i, mr_value = None\<rparr> (bt_insert (fst (m ! i)) (snd (m ! i)) node) =
      Ok (Node (foldl (\<lambda>a e. bt_insert (fst e) (snd e) a) node (drop i m)))"
    using Suc(1) [of "Suc i" "bt_insert (fst (m ! i)) (snd (m ! i)) node"] Suc(2) i by (simp flip: Cons_nth_drop_Suc)
  ultimately show ?case using i list_all2_lengthD [OF assms(1)] by (subst visit_map.simps) (simp add: next_key_def next_value_def)
qed

lemma lies_deserialize:
  "lies blob off v \<Longrightarrow> value_ok C v \<Longrightarrow> native v \<Longrightarrow> length blob < 2 ^ 32 \<Longrightarrow> unat off < fuel \<Longrightarrow> deserialize_value C fuel blob off = Ok v"
proof (induction fuel arbitrary: off v)
  case (Suc fuel)
  have child: "deserialize_value C fuel blob c = Ok w" if "c < off" "lies blob c w" "value_ok C w" "native w" for c w
    using Suc.IH [OF that(2-4) Suc.prems(4)] Suc.prems(5) that(1) by (simp add: word_less_nat_alt)
  show ?case
  proof (cases v)
    case (Leaf s)
    then have "deserialize_any C blob off = scalar_into s" using lies_scalar [of blob off s C] Suc.prems by (simp add: deserialize_any_def)
    then show ?thesis using Leaf Suc.prems(3) by (cases s) (auto simp: scalar_into_def)
  next
    case (List l)
    have "length l < 2 ^ 32" using Suc.prems(2) List by simp
    then obtain os where os: "list_all2 (\<lambda>c v. c < off \<and> lies blob c v) os l" "node_kind_of blob off = Ok KList" "node_len blob off = Ok (length l)"
      "\<And>i. node_at blob off i = Ok (nth_opt os i)" using lies_list_read [of blob off l] Suc.prems List by auto
    have "list_all2 (\<lambda>c v. deserialize_value C fuel blob c = Ok v) os l"
      using os(1) child Suc.prems(2,3) List by (auto simp: list_all2_conv_all_nth)
    from visit_seq_reads [OF os(4) this, of 0 "[]"] show ?thesis using os(2,3) List by (simp add: deserialize_any_def)
  next
    case (Node m)
    obtain os where os: "list_all2 (\<lambda>c e. c < off \<and> lies blob c (snd e)) os m" "node_kind_of blob off = Ok KObject"
      "node_entries blob off = Ok (zip (map fst m) os)" using lies_object_read [of blob off m C] Suc.prems(1,2,4) Node by auto
    have "list_all2 (\<lambda>c e. deserialize_value C fuel blob c = Ok (snd e)) os m"
      using os(1) child Suc.prems(2,3) Node by (auto simp: list_all2_conv_all_nth)
    from visit_map_reads [OF this, of 0 "[]"] show ?thesis
      using os(2,3) Node Suc.prems(2) foldl_bt_insert [of "[]" m] by (simp add: deserialize_any_def)
  qed
qed simp

text \<open>C26: the dynamic value survives its own Serde representation. Serializing a value and deserializing a value from that blob gives it back, with exactly those scalars that Serde has no
  primitive for, such as a UUID or a date, as the text they were serialized to; a value without them comes back unchanged.\<close>

theorem value_serde_roundtrip:
  assumes "value_ok C (textual X v)" "to_blob X (value_serialize X v) = Ok blob" "length blob < 2 ^ 32"
  shows "value_from_blob C blob = Ok (textual X v) \<and> (native v \<longrightarrow> value_from_blob C blob = Ok v)"
proof -
  obtain b root where "to_blob X (value_serialize X v) = Ok b" "length b < 2 ^ 32 \<Longrightarrow> archived_new b = Ok (b, root) \<and> lies b root (textual X v)"
    using to_blob_lies [OF shape_value [OF textual_sorted [OF assms(1)]]] by blast
  then have b: "archived_new blob = Ok (blob, root)" "lies blob root (textual X v)" using assms(2,3) by auto
  have "unat root < Suc (length blob)" using b(2) by cases (auto simp: holds_def)
  then have "value_from_blob C blob = Ok (textual X v)"
    using b(1) lies_deserialize [OF b(2) assms(1) native_textual assms(3)] by (simp add: value_from_blob_def del: deserialize_value.simps)
  then show ?thesis by (auto simp: textual_native)
qed

theorem value_serde_roundtrip_witness:
  "\<exists>blob. to_blob sample_texts (value_serialize sample_texts (List [Leaf (Uuid 7), Leaf (U8 1)])) = Ok blob \<and>
    value_from_blob calendar blob = Ok (List [Leaf (Str ''u''), Leaf (U8 1)])"
proof -
  let ?v = "List [Leaf (Uuid 7), Leaf (U8 1)]"
  have "utf8 ''u''" by code_simp
  then have ok: "value_ok calendar (textual sample_texts ?v)" by (simp add: textual_scalar_def sample_texts_def)
  obtain blob where blob: "to_blob sample_texts (value_serialize sample_texts ?v) = Ok blob" using to_blob_lies [OF shape_value, of ?v sample_texts] by auto
  then have "length blob < 2 ^ 32"
    by (auto simp: to_blob_def scalar_serialize_def sample_texts_def seq_element_def seq_end_def push_leaf_form push_list_form begin_blob_def patch_root_def put_bytes_def put_u32_def)
  then show ?thesis using value_serde_roundtrip [OF ok blob] blob by (simp add: textual_scalar_def sample_texts_def)
qed

section \<open>Keys\<close>

lemma digits_opt_show: "digits_opt (show_nat n) = Some n"
  using show_nat_digits [of n] by (simp add: digits_opt_def)

lemma show_nat_head: "\<exists>c r. show_nat n = c # r \<and> c \<noteq> CHR ''+'' \<and> c \<noteq> CHR ''-''"
proof -
  obtain c r where cr: "show_nat n = c # r" by (cases "show_nat n") auto
  then have "is_digit c" using show_nat_digits [of n] by simp
  then have "c \<noteq> CHR ''+'' \<and> c \<noteq> CHR ''-''" by (auto simp: is_digit_def)
  then show ?thesis using cr by blast
qed

lemma parse_unsigned_show: "parse_unsigned (show_nat (unat w)) = Some (w :: 'a::len word)"
proof -
  obtain c r where cr: "show_nat (unat w) = c # r" "c \<noteq> CHR ''+''" using show_nat_head by blast
  have "unat w < 2 ^ LENGTH('a)" by (rule unsigned_less)
  then show ?thesis using digits_opt_show [of "unat w"] cr by (simp add: parse_unsigned_def)
qed

lemma parse_signed_show: "parse_signed (show_int (sint w)) = Some (w :: 'a::len word)"
proof (cases "sint w < 0")
  case True
  have "- (2 ^ (LENGTH('a) - 1)) \<le> sint w" by (rule sint_ge)
  then have "nat (- sint w) \<le> 2 ^ (LENGTH('a) - 1)" by (simp add: nat_le_iff)
  then show ?thesis using True digits_opt_show [of "nat (- sint w)"] by (simp add: parse_signed_def show_int_def)
next
  case False
  obtain c r where cr: "show_nat (nat (sint w)) = c # r" "c \<noteq> CHR ''+''" "c \<noteq> CHR ''-''" using show_nat_head by blast
  have "sint w < 2 ^ (LENGTH('a) - 1)" by (rule sint_lt)
  then have "nat (sint w) < 2 ^ (LENGTH('a) - 1)" using False by (simp add: nat_less_iff)
  moreover have "word_of_nat (nat (sint w)) = w" using of_nat_nat [of "sint w", where ?'a = "'a word"] False by (simp add: not_less)
  ultimately show ?thesis using False digits_opt_show [of "nat (sint w)"] cr by (simp add: parse_signed_def show_int_def)
qed

lemmas parse_show = parse_unsigned_show parse_signed_show

text \<open>What a key type asks for, and the visit that is its key.\<close>

fun key_visit :: "sval \<Rightarrow> (key_request \<times> visit) option" where
  "key_visit (S_str v) = Some (Key_any, Visit_str v)"
| "key_visit (S_char v) = Some (Key_any, Visit_str v)"
| "key_visit (S_bool v) = Some (Key_bool, Visit_bool v)"
| "key_visit (S_i8 v) = Some (Key_i8, Visit_i8 v)"
| "key_visit (S_i16 v) = Some (Key_i16, Visit_i16 v)"
| "key_visit (S_i32 v) = Some (Key_i32, Visit_i32 v)"
| "key_visit (S_i64 v) = Some (Key_i64, Visit_i64 v)"
| "key_visit (S_i128 v) = Some (Key_i128, Visit_i128 v)"
| "key_visit (S_u8 v) = Some (Key_u8, Visit_u8 v)"
| "key_visit (S_u16 v) = Some (Key_u16, Visit_u16 v)"
| "key_visit (S_u32 v) = Some (Key_u32, Visit_u32 v)"
| "key_visit (S_u64 v) = Some (Key_u64, Visit_u64 v)"
| "key_visit (S_u128 v) = Some (Key_u128, Visit_u128 v)"
| "key_visit (S_unit_variant _ _ v) = Some (Key_enum, Visit_enum \<lparr>er_variant = v, er_payload = None\<rparr>)"
| "key_visit (S_newtype_struct _ v) = key_visit v"
| "key_visit (S_some v) = key_visit v"
| "key_visit _ = None"

text \<open>C27: map keys come back. A key that serializes as a string, a character, a boolean, an integer of any width up to its extremes, or a unit variant, possibly in an option or a newtype, is
  stored as text from which the deserializer of its type reads the same key.\<close>

theorem serde_key_roundtrip:
  assumes "key_visit k = Some (request, v)"
  shows "\<exists>key. key_serialize X k = Ok key \<and> deserialize_key X request key = Ok v"
  using assms by (induction k rule: key_visit.induct) (auto simp: deserialize_key_def parse_key_def parse_show show_bool_def parse_bool_def)

theorem serde_key_roundtrip_witness:
  "\<exists>key. key_serialize sample_texts (S_newtype_struct ''Id'' (S_i8 (- 128))) = Ok key \<and> deserialize_key sample_texts Key_i8 key = Ok (Visit_i8 (- 128))"
  using serde_key_roundtrip [of "S_newtype_struct ''Id'' (S_i8 (- 128))" Key_i8 "Visit_i8 (- 128)" sample_texts] by simp

end
