(* ===== verification/Dir_Codec.thy ===== *)
theory Dir_Codec
  imports Name_Table Keys
begin

text \<open>
  The directory blob (\<open>codec/dir.rs\<close>): a count, a name-sorted table of fixed-width entries (name
  offset, name length, child key) and the name bytes. Lemmas: reading the entries of an encoded
  directory gives the directory back, and the binary search over the blob is the map lookup.
\<close>

definition ENTRY :: nat where
  "ENTRY = 4 + 4 + 16"

text \<open>The loop of \<open>encode_dir\<close>, with its two growing buffers.\<close>

fun encode_dir_loop ::
  "nat \<Rightarrow> (string, akey) btree \<Rightarrow> bytes \<Rightarrow> bytes \<Rightarrow> bytes \<times> bytes" where
  "encode_dir_loop names_start [] out names = (out, names)"
| "encode_dir_loop names_start ((name, akey) # children) out names =
     (let name_off = word_of_nat (names_start + length names) :: u32;
          out = put_u32 out name_off;
          out = put_u32 out (word_of_nat (length name));
          out = out @ akey_into_bytes akey;
          names = names @ as_bytes name
      in encode_dir_loop names_start children out names)"

definition encode_dir :: "(string, akey) btree \<Rightarrow> bytes" where
  "encode_dir children =
     (let count = length children;
          names_start = 4 + count * ENTRY;
          (out, names) = encode_dir_loop names_start children (put_u32 [] (word_of_nat count)) []
      in out @ names)"

text \<open>\<open>ArchivedDir\<close> is the blob it borrows.\<close>

definition dir_new :: "bytes \<Rightarrow> bytes res" where
  "dir_new blob = andThen (read_u32 blob 0) (\<lambda>_. Ok blob)"

definition dir_len :: "bytes \<Rightarrow> nat res" where
  "dir_len blob = andThen (read_u32 blob 0) (\<lambda>n. Ok (unat n))"

definition dir_entry_name :: "bytes \<Rightarrow> nat \<Rightarrow> string res" where
  "dir_entry_name blob entry =
     andThen (entry_name_bytes blob entry) (\<lambda>bs.
     ok_or (from_utf8 bs) (Corrupt ''invalid utf-8 in a directory name''))"

definition dir_entry_akey :: "bytes \<Rightarrow> nat \<Rightarrow> akey res" where
  "dir_entry_akey blob entry = andThen (slice blob (entry + 8) 16) (\<lambda>bs. Ok (akey_from_bytes bs))"

definition dir_get :: "bytes \<Rightarrow> string \<Rightarrow> akey option res" where
  "dir_get blob name =
     andThen (dir_len blob) (\<lambda>count.
     name_search (\<lambda>mid. entry_name_bytes blob (4 + mid * ENTRY))
       (\<lambda>mid. dir_entry_akey blob (4 + mid * ENTRY)) (as_bytes name) 0 count)"

definition dir_entries :: "bytes \<Rightarrow> (string \<times> akey) list res" where
  "dir_entries blob =
     andThen (dir_len blob) (\<lambda>count.
     res_map (\<lambda>i. andThen (dir_entry_name blob (4 + i * ENTRY)) (\<lambda>name.
                  andThen (dir_entry_akey blob (4 + i * ENTRY)) (\<lambda>akey. Ok (name, akey))))
       [0..<count])"

section \<open>The layout\<close>

text \<open>A directory whose blob fits 32-bit offsets, with UTF-8 names.\<close>

definition names_bytes :: "(string, akey) btree \<Rightarrow> bytes list" where
  "names_bytes m = map (as_bytes \<circ> fst) m"

definition dir_ok :: "(string, akey) btree \<Rightarrow> bool" where
  "dir_ok m \<longleftrightarrow> bt_ok m \<and> (\<forall>e \<in> set m. utf8 (fst e)) \<and>
     4 + length m * ENTRY + length (concat (names_bytes m)) < 2 ^ 32"

definition dir_record :: "nat \<Rightarrow> string \<times> akey \<Rightarrow> bytes" where
  "dir_record name_off e =
     be_bytes (word_of_nat name_off :: u32) @ be_bytes (word_of_nat (length (fst e)) :: u32)
       @ akey_into_bytes (snd e)"

fun dir_records :: "nat \<Rightarrow> (string, akey) btree \<Rightarrow> bytes list" where
  "dir_records name_off [] = []"
| "dir_records name_off (e # m) = dir_record name_off e # dir_records (name_off + length (fst e)) m"

lemma length_dir_records [simp]: "length (dir_records k m) = length m"
  by (induction m arbitrary: k) auto

lemma dir_records_chunk: "r \<in> set (dir_records k m) \<Longrightarrow> length r = ENTRY"
  by (induction m arbitrary: k) (auto simp: dir_record_def ENTRY_def)

lemma dir_records_nth: "i < length m \<Longrightarrow>
  dir_records k m ! i = dir_record (k + length (concat (take i (names_bytes m)))) (m ! i)"
  by (induction m arbitrary: k i) (auto simp: names_bytes_def nth_Cons take_Cons add.assoc split: nat.split)

lemma encode_dir_loop_eq:
  "encode_dir_loop names_start m out names =
     (out @ concat (dir_records (names_start + length names) m), names @ concat (names_bytes m))"
  by (induction names_start m out names rule: encode_dir_loop.induct)
    (simp_all add: Let_def dir_record_def put_u32_def names_bytes_def add.assoc)

lemma encode_dir_eq:
  "encode_dir m = be_bytes (word_of_nat (length m) :: u32)
     @ concat (dir_records (4 + length m * ENTRY) m) @ concat (names_bytes m)"
  by (simp add: encode_dir_def encode_dir_loop_eq put_u32_def Let_def)

lemma length_concat_dir_records [simp]: "length (concat (dir_records k m)) = length m * ENTRY"
  using length_concat_chunks [of "dir_records k m" ENTRY] dir_records_chunk by (auto simp: mult.commute)

lemma length_encode_dir [simp]:
  "length (encode_dir m) = 4 + length m * ENTRY + length (concat (names_bytes m))"
  by (simp add: encode_dir_eq)

lemma dir_ok_size: "dir_ok m \<Longrightarrow> length (encode_dir m) < 2 ^ 32"
  by (simp add: dir_ok_def)

lemma dir_ok_usize: "dir_ok m \<Longrightarrow> length (encode_dir m) < usize_bound"
  using dir_ok_size u32_usize by blast

lemma dir_len_encode: "dir_ok m \<Longrightarrow> dir_len (encode_dir m) = Ok (length m)"
  using holds_read_u32 [of "encode_dir m" 0 "word_of_nat (length m)", OF _ dir_ok_usize]
    holds_end [of "[]" "encode_dir m"] u32_small [of "length m"]
  by (simp add: dir_len_def encode_dir_eq dir_ok_def ENTRY_def)

text \<open>Where entry \<open>i\<close> and its name stand.\<close>

lemma dir_entry_holds:
  assumes "i < length m"
  defines "no \<equiv> 4 + length m * ENTRY + length (concat (take i (names_bytes m)))"
  shows "holds (encode_dir m) (4 + i * ENTRY) (dir_record no (m ! i))"
    and "holds (encode_dir m) no (as_bytes (fst (m ! i)))"
proof -
  have "holds (encode_dir m) (4 + ENTRY * i) (dir_records (4 + length m * ENTRY) m ! i)"
    unfolding encode_dir_eq
    using holds_chunk [of "dir_records (4 + length m * ENTRY) m" ENTRY i "be_bytes (word_of_nat (length m) :: u32)"]
      dir_records_chunk assms(1) by auto
  then show "holds (encode_dir m) (4 + i * ENTRY) (dir_record no (m ! i))"
    using assms(1) by (simp add: dir_records_nth no_def mult.commute)
  let ?pre = "be_bytes (word_of_nat (length m) :: u32) @ concat (dir_records (4 + length m * ENTRY) m)"
  have "holds (concat (names_bytes m)) (length (concat (take i (names_bytes m)))) (names_bytes m ! i)"
    using assms(1) by (intro holds_concat) (simp add: names_bytes_def)
  from holds_shift [OF this, of ?pre] show "holds (encode_dir m) no (as_bytes (fst (m ! i)))"
    using assms(1) by (simp add: encode_dir_eq no_def names_bytes_def)
qed

lemma dir_entry_read:
  assumes "dir_ok m" "i < length m"
  shows "entry_name_bytes (encode_dir m) (4 + i * ENTRY) = Ok (as_bytes (fst (m ! i)))"
    and "dir_entry_akey (encode_dir m) (4 + i * ENTRY) = Ok (snd (m ! i))"
proof -
  let ?b = "encode_dir m" and ?e = "4 + i * ENTRY"
  define no where "no = 4 + length m * ENTRY + length (concat (take i (names_bytes m)))"
  note sz = dir_ok_usize [OF assms(1)]
  have rec: "holds ?b ?e (dir_record no (m ! i))" and nm: "holds ?b no (as_bytes (fst (m ! i)))"
    using dir_entry_holds [OF assms(2)] by (simp_all add: no_def)
  have "no + length (fst (m ! i)) < 2 ^ 32"
    using nm dir_ok_size [OF assms(1)] by (simp add: holds_def)
  then have small: "unat (word_of_nat no :: u32) = no"
    "unat (word_of_nat (length (fst (m ! i))) :: u32) = length (fst (m ! i))"
    by (auto intro!: u32_small)
  have "read_u32 ?b ?e = Ok (word_of_nat no)"
    using rec sz unfolding dir_record_def by (rule holds_read_u32)
  moreover have "read_u32 ?b (?e + 4) = Ok (word_of_nat (length (fst (m ! i))))"
    using rec sz unfolding dir_record_def holds_append by (auto intro: holds_read_u32 [where bs = "[]"])
  moreover have "slice ?b no (length (fst (m ! i))) = Ok (as_bytes (fst (m ! i)))"
    using holds_slice [OF nm sz] by simp
  ultimately show "entry_name_bytes ?b ?e = Ok (as_bytes (fst (m ! i)))"
    by (simp add: entry_name_bytes_def small)
  have "slice ?b (?e + 8) 16 = Ok (akey_into_bytes (snd (m ! i)))"
    using rec holds_slice [OF _ sz, of "?e + 8" "akey_into_bytes (snd (m ! i))"]
    unfolding dir_record_def holds_append by (simp add: add.assoc)
  then show "dir_entry_akey ?b ?e = Ok (snd (m ! i))"
    by (simp add: dir_entry_akey_def)
qed

interpretation dir: name_table dir_ok "map (\<lambda>(n, k). (as_bytes n, k))"
  "\<lambda>m i. entry_name_bytes (encode_dir m) (4 + i * ENTRY)"
  "\<lambda>m i. dir_entry_akey (encode_dir m) (4 + i * ENTRY)"
proof
  fix m :: "(string, akey) btree"
  assume "dir_ok m"
  then show "sorted_wrt (<) (map fst (map (\<lambda>(n, k). (as_bytes n, k)) m))"
    using as_bytes_sorted [of m] by (simp add: dir_ok_def comp_def split_beta)
next
  fix m :: "(string, akey) btree" and i
  assume "dir_ok m" "i < length (map (\<lambda>(n, k). (as_bytes n, k)) m)"
  then show "entry_name_bytes (encode_dir m) (4 + i * ENTRY)
      = Ok (fst (map (\<lambda>(n, k). (as_bytes n, k)) m ! i))"
    and "dir_entry_akey (encode_dir m) (4 + i * ENTRY)
      = Ok (snd (map (\<lambda>(n, k). (as_bytes n, k)) m ! i))"
    by (auto simp: dir_entry_read split_beta)
qed

lemma dir_get_encode: "dir_ok m \<Longrightarrow> dir_get (encode_dir m) name = Ok (bt_get m name)"
  using dir.search [of m "as_bytes name"]
  by (simp add: dir_get_def dir_len_encode map_of_as_bytes bt_get_def)

lemma dir_entries_encode: "dir_ok m \<Longrightarrow> dir_entries (encode_dir m) = Ok m"
proof -
  assume ok: "dir_ok m"
  have "utf8 (fst (m ! i))" if "i < length m" for i using ok that by (auto simp: dir_ok_def)
  then have "andThen (dir_entry_name (encode_dir m) (4 + i * ENTRY)) (\<lambda>name.
      andThen (dir_entry_akey (encode_dir m) (4 + i * ENTRY)) (\<lambda>akey. Ok (name, akey))) = Ok (m ! i)"
    if "i < length m" for i
    using that ok by (simp add: dir_entry_name_def dir_entry_read)
  then show ?thesis
    unfolding dir_entries_def dir_len_encode [OF ok] andThen.simps by (intro res_map_nth) auto
qed

lemma dir_new_encode: "dir_ok m \<Longrightarrow> dir_new (encode_dir m) = Ok (encode_dir m)"
  using dir_len_encode [of m] by (auto simp: dir_new_def dir_len_def)

section \<open>Properties\<close>

text \<open>A directory's children survive the blob: listing an encoded directory gives back its
  name-to-key map, and the zero-copy binary search finds exactly the child the map holds under a
  name, or nothing.\<close>

theorem dir_blob_roundtrip:
  assumes "dir_ok m"
  shows "andThen (dir_new (encode_dir m)) dir_entries = Ok m \<and>
    (\<forall>name. dir_get (encode_dir m) name = Ok (bt_get m name))"
  using assms by (simp add: dir_new_encode dir_entries_encode dir_get_encode)

theorem dir_blob_roundtrip_witness:
  "andThen (dir_new (encode_dir [(''a'', 7), (''bc'', 9)])) dir_entries = Ok [(''a'', 7), (''bc'', 9)] \<and>
   (\<forall>name. dir_get (encode_dir [(''a'', 7), (''bc'', 9)]) name = Ok (bt_get [(''a'', 7), (''bc'', 9)] name))"
proof (rule dir_blob_roundtrip)
  have "utf8 ''a'' \<and> utf8 ''bc''" by code_simp
  then show "dir_ok [(''a'', 7), (''bc'', 9)]"
    by (simp add: dir_ok_def bt_ok_def ENTRY_def names_bytes_def less_char_def)
qed

end
