(* ===== verification/Engine.thy ===== *)
theory Engine
  imports Dir_Codec Scalars
begin

text \<open>
  The storage-engine boundary (\<open>engine/\<close>, \<open>constants.rs\<close>): the tables of the \<open>redb\<close> crate as a
  parameter, the tagged entry blob of an a-node, the directory-tree walk over a table, the record of
  required features, and the bootstrap of the metadata table.

  The crate is not part of the repository: a table is a value of an arbitrary type \<open>'t\<close> and the
  operations on it are the fields of the record \<open>redb\<close>. What the program relies on is \<open>redb_ok\<close>: the
  operations do not fail, a read returns what was last written under that key, and a range lists
  the entries from a key on in key order. \<open>btree_redb\<close> is an instance over sorted association lists.
\<close>

section \<open>Tables\<close>

record ('t, 'k, 'v) redb =
  table_get :: "'t \<Rightarrow> 'k \<Rightarrow> 'v option res"
  table_insert :: "'t \<Rightarrow> 'k \<Rightarrow> 'v \<Rightarrow> 't res"
  table_remove :: "'t \<Rightarrow> 'k \<Rightarrow> 't res"
  table_range :: "'t \<Rightarrow> 'k \<Rightarrow> ('k \<times> 'v) list res"

text \<open>The contents of a table, as its reads show them.\<close>

definition contents :: "('t, 'k, 'v) redb \<Rightarrow> 't \<Rightarrow> 'k \<Rightarrow> 'v option" where
  "contents R t k = (case table_get R t k of Ok v \<Rightarrow> v | _ \<Rightarrow> None)"

definition redb_ok :: "('t, 'k::linorder, 'v) redb \<Rightarrow> bool" where
  "redb_ok R \<longleftrightarrow>
     (\<forall>t k. table_get R t k = Ok (contents R t k)) \<and>
     (\<forall>t k v. \<exists>t'. table_insert R t k v = Ok t' \<and> contents R t' = (contents R t)(k := Some v)) \<and>
     (\<forall>t k. \<exists>t'. table_remove R t k = Ok t' \<and> contents R t' = (contents R t)(k := None)) \<and>
     (\<forall>t k. \<exists>es. table_range R t k = Ok es \<and> bt_ok es \<and>
        (\<forall>j v. (j, v) \<in> set es \<longleftrightarrow> k \<le> j \<and> contents R t j = Some v))"

definition canonical :: "('k::linorder, 'v) btree \<Rightarrow> ('k, 'v) btree" where
  "canonical t = foldr (\<lambda>e m. bt_insert (fst e) (snd e) m) t []"

definition btree_redb :: "(('k::linorder, 'v) btree, 'k, 'v) redb" where
  "btree_redb = \<lparr>
     table_get = (\<lambda>t k. Ok (bt_get t k)),
     table_insert = (\<lambda>t k v. Ok (bt_insert k v t)),
     table_remove = (\<lambda>t k. Ok (bt_remove k t)),
     table_range = (\<lambda>t k. Ok (filter (\<lambda>e. k \<le> fst e) (canonical t)))\<rparr>"

section \<open>Names\<close>

definition is_reserved_table_name :: "string \<Rightarrow> bool" where
  "is_reserved_table_name name \<longleftrightarrow> name \<noteq> [] \<and> hd name = CHR ''$''"

abbreviation (input) META_FORMAT_VERSION_KEY :: string where
  "META_FORMAT_VERSION_KEY \<equiv> ''format_version''"
abbreviation (input) META_INDEX_REGISTRY_KEY :: string where
  "META_INDEX_REGISTRY_KEY \<equiv> ''index_registry''"
abbreviation (input) META_REQUIRED_FEATURES_KEY :: string where
  "META_REQUIRED_FEATURES_KEY \<equiv> ''requirements''"

abbreviation (input) ENGINE_FORMAT_VERSION :: u64 where "ENGINE_FORMAT_VERSION \<equiv> 1"

section \<open>Entries\<close>

abbreviation (input) tag_DIR :: u8 where "tag_DIR \<equiv> 0"
abbreviation (input) tag_FILE :: u8 where "tag_FILE \<equiv> 1"

datatype entry_kind = Dir | File

datatype entry = Entry (ent_name: string) (ent_kind: entry_kind)

definition dir_entry :: "bytes \<Rightarrow> bytes" where
  "dir_entry dir_blob = [tag_DIR] @ dir_blob"

definition file_entry :: "bytes \<Rightarrow> bytes" where
  "file_entry value_blob = [tag_FILE] @ value_blob"

definition get_entry_kind :: "bytes \<Rightarrow> entry_kind res" where
  "get_entry_kind entry =
     (case entry of
        [] \<Rightarrow> Err (Corrupt ''empty a-node entry'')
      | tag # _ \<Rightarrow>
          if tag = tag_DIR then Ok Dir
          else if tag = tag_FILE then Ok File
          else Err (Corrupt (''unknown a-node entry tag '' @ show_nat (unat tag))))"

definition entry_split :: "bytes \<Rightarrow> (entry_kind \<times> bytes) res" where
  "entry_split entry =
     (case entry of
        [] \<Rightarrow> Err (Corrupt ''empty a-node entry'')
      | tag # payload \<Rightarrow>
          if tag = tag_DIR then Ok (Dir, payload)
          else if tag = tag_FILE then Ok (File, payload)
          else Err (Corrupt (''unknown a-node entry tag '' @ show_nat (unat tag))))"

section \<open>Reading the data table\<close>

definition read_entry :: "('t, akey, bytes) redb \<Rightarrow> 't \<Rightarrow> akey \<Rightarrow> bytes option res" where
  "read_entry R table akey = table_get R table akey"

definition fetch_entry_kind :: "('t, akey, bytes) redb \<Rightarrow> 't \<Rightarrow> akey \<Rightarrow> entry_kind option res" where
  "fetch_entry_kind R table akey =
     andThen (table_get R table akey) (\<lambda>g.
       case g of
         Some entry \<Rightarrow> andThen (get_entry_kind entry) (\<lambda>k. Ok (Some k))
       | None \<Rightarrow> Ok None)"

text \<open>The child lookup in a borrowed directory entry, also used by the write context.\<close>

definition entry_child :: "bytes \<Rightarrow> string \<Rightarrow> akey option res" where
  "entry_child entry name =
     andThen (entry_split entry) (\<lambda>(kind, payload).
       if kind \<noteq> Dir then Ok None
       else andThen (dir_new payload) (\<lambda>d. dir_get d name))"

definition child_of :: "('t, akey, bytes) redb \<Rightarrow> 't \<Rightarrow> akey \<Rightarrow> string \<Rightarrow> akey option res" where
  "child_of R table parent name =
     andThen (table_get R table parent) (\<lambda>g.
       case g of None \<Rightarrow> Ok None | Some entry \<Rightarrow> entry_child entry name)"

section \<open>Required features\<close>

text \<open>The compile-time switches of the build.\<close>

record build =
  permissions :: bool
  entry_timestamps :: bool

definition is_compiled :: "build \<Rightarrow> string \<Rightarrow> bool" where
  "is_compiled B name =
     (if name = ''permissions'' then permissions B
      else if name = ''entry-timestamps'' then entry_timestamps B
      else False)"

definition feature_name :: "reader \<Rightarrow> (string \<times> reader) res" where
  "feature_name r =
     andThen (reader_bytes r) (\<lambda>(bs, r).
     andThen (ok_or (from_utf8 bs) (Corrupt ''invalid utf-8 in the required-features record''))
       (\<lambda>name. Ok (name, r)))"

definition features_decode :: "bytes \<Rightarrow> string list res" where
  "features_decode bs =
     andThen (reader_u32 (reader_new bs)) (\<lambda>(count, r).
     andThen (reader_repeat (unat count) feature_name r) (\<lambda>(names, _). Ok names))"

definition features_list :: "('m, string, bytes) redb \<Rightarrow> 'm \<Rightarrow> string list res" where
  "features_list M meta =
     andThen (table_get M meta META_REQUIRED_FEATURES_KEY) (\<lambda>g.
       case g of Some bs \<Rightarrow> features_decode bs | None \<Rightarrow> Ok [])"

fun features_check_names :: "build \<Rightarrow> string list \<Rightarrow> unit res" where
  "features_check_names B [] = Ok ()"
| "features_check_names B (name # names) =
     (if \<not> is_compiled B name then
        (if name = ''permissions'' then Err DatabaseProtected else Err (FeatureRequired name))
      else features_check_names B names)"

definition features_check :: "build \<Rightarrow> ('m, string, bytes) redb \<Rightarrow> 'm \<Rightarrow> unit res" where
  "features_check B M meta = andThen (features_list M meta) (features_check_names B)"

definition features_require :: "('m, string, bytes) redb \<Rightarrow> 'm \<Rightarrow> string \<Rightarrow> 'm res" where
  "features_require M meta name =
     andThen (features_list M meta) (\<lambda>names.
       if name \<in> set names then Ok meta
       else (let names = names @ [name];
                 buf = put_u32 [] (word_of_nat (length names));
                 buf = foldl (\<lambda>b f. put_bytes b (as_bytes f)) buf names
             in table_insert M meta META_REQUIRED_FEATURES_KEY buf))"

section \<open>Bootstrap\<close>

text \<open>The metadata table as committed; an error drops the transaction, so there is no new table.\<close>

definition bootstrap_metadata :: "build \<Rightarrow> ('m, string, bytes) redb \<Rightarrow> 'm \<Rightarrow> 'm res" where
  "bootstrap_metadata B M meta =
     andThen (table_get M meta META_FORMAT_VERSION_KEY) (\<lambda>g.
     andThen (case g of
                Some bs \<Rightarrow>
                  if length bs = 8 then Ok (Some (from_be_bytes bs :: u64))
                  else Err (Corrupt ''invalid on-disk format version'')
              | None \<Rightarrow> Ok None) (\<lambda>current.
     andThen (case current of
                Some version \<Rightarrow>
                  if version > ENGINE_FORMAT_VERSION then
                    Err (SchemaMismatch (''on-disk format version '' @ show_nat (unat version)
                      @ '' is newer than this build's '' @ show_nat (unat ENGINE_FORMAT_VERSION)))
                  else Ok meta
              | None \<Rightarrow> table_insert M meta META_FORMAT_VERSION_KEY (be_bytes ENGINE_FORMAT_VERSION))
       (\<lambda>meta. andThen (features_check B M meta) (\<lambda>_. Ok meta))))"

section \<open>Lemmas on tables\<close>

named_theorems redb_simps \<open>what the program relies on of a table\<close>

lemma redb_get [redb_simps]: "redb_ok R \<Longrightarrow> table_get R t k = Ok (contents R t k)"
  by (simp add: redb_ok_def)

lemma redb_insert:
  assumes "redb_ok R"
  obtains t' where "table_insert R t k v = Ok t'" "contents R t' = (contents R t)(k := Some v)"
  using assms unfolding redb_ok_def by blast

lemma redb_remove:
  assumes "redb_ok R"
  obtains t' where "table_remove R t k = Ok t'" "contents R t' = (contents R t)(k := None)"
  using assms unfolding redb_ok_def by blast

lemma redb_range:
  assumes "redb_ok R"
  obtains es where "table_range R t k = Ok es" "bt_ok es"
    "\<And>j v. (j, v) \<in> set es \<longleftrightarrow> k \<le> j \<and> contents R t j = Some v"
  using assms unfolding redb_ok_def by blast

lemma contents_btree [simp]: "contents btree_redb t = bt_get t"
  by (auto simp: contents_def btree_redb_def)

lemma btree_redb_ops [simp]:
  "table_get btree_redb t k = Ok (bt_get t k)"
  "table_insert btree_redb t k v = Ok (bt_insert k v t)"
  "table_remove btree_redb t k = Ok (bt_remove k t)"
  "table_range btree_redb t k = Ok (filter (\<lambda>e. k \<le> fst e) (canonical t))"
  by (simp_all add: btree_redb_def)

lemma canonical_ok: "bt_ok (canonical t)"
  by (induction t) (auto simp: canonical_def)

lemma canonical_get: "bt_get (canonical t) k = bt_get t k"
  by (induction t) (auto simp: canonical_def bt_get_Cons)

lemma bt_ok_filter: "bt_ok m \<Longrightarrow> bt_ok (filter P m)"
  by (induction m) (auto simp: bt_ok_Cons)

lemma btree_redb_ok: "redb_ok btree_redb"
proof -
  have "bt_ok (filter (\<lambda>e. k \<le> fst e) (canonical t)) \<and>
      (\<forall>j v. (j, v) \<in> set (filter (\<lambda>e. k \<le> fst e) (canonical t)) \<longleftrightarrow> k \<le> j \<and> bt_get t j = Some v)"
    for k :: "'k::linorder" and t :: "('k, 'v) btree"
    using bt_get_iff [OF canonical_ok, of t] by (auto simp: bt_ok_filter canonical_ok canonical_get)
  then show ?thesis by (auto simp: redb_ok_def fun_eq_iff)
qed

section \<open>Lemmas on entries\<close>

lemma entry_split_dir [simp]: "entry_split (dir_entry b) = Ok (Dir, b)"
  by (simp add: entry_split_def dir_entry_def)

lemma entry_split_file [simp]: "entry_split (file_entry b) = Ok (File, b)"
  by (simp add: entry_split_def file_entry_def)

lemma get_entry_kind_split: "get_entry_kind e = andThen (entry_split e) (\<lambda>(k, _). Ok k)"
  by (simp add: get_entry_kind_def entry_split_def split: list.split)

lemma entry_child_dir: "dir_ok m \<Longrightarrow> entry_child (dir_entry (encode_dir m)) name = Ok (bt_get m name)"
  by (simp add: entry_child_def dir_new_encode dir_get_encode)

lemma entry_child_file: "entry_child (file_entry b) name = Ok None"
  by (simp add: entry_child_def)

section \<open>Lemmas on the required features\<close>

interpretation feature: codec "\<lambda>s. put_bytes [] (as_bytes s)" feature_name text_ok
  using text_codec by (simp add: feature_name_def [abs_def])

definition features_bytes :: "string list \<Rightarrow> bytes" where
  "features_bytes names = put_u32 [] (word_of_nat (length names)) @ concat (map (\<lambda>f. put_bytes [] (as_bytes f)) names)"

lemma foldl_put_bytes: "foldl (\<lambda>b f. put_bytes b (as_bytes f)) buf names
  = buf @ concat (map (\<lambda>f. put_bytes [] (as_bytes f)) names)"
proof (induction names arbitrary: buf)
  case (Cons f names)
  then show ?case using put_bytes_append [of buf "as_bytes f"] by simp
qed simp

lemma features_decode_bytes:
  assumes "\<forall>f \<in> set names. text_ok f" "length names < 2 ^ 32" "length (features_bytes names) < usize_bound"
  shows "features_decode (features_bytes names) = Ok names"
proof -
  let ?r = "reader_new (features_bytes names)" and ?n = "word_of_nat (length names) :: u32"
  let ?items = "concat (map (\<lambda>f. put_bytes [] (as_bytes f)) names)"
  have "reader_u32 ?r = Ok (?n, ?r\<lparr>rpos := rpos ?r + length (put_u32 [] ?n)\<rparr>)"
    using assms(3) by (intro u32_codec.decodes [where rest = ?items]) (simp_all add: features_bytes_def)
  moreover have "reader_repeat (length names) feature_name (?r\<lparr>rpos := rpos ?r + length (put_u32 [] ?n)\<rparr>)
      = Ok (names, (?r\<lparr>rpos := rpos ?r + length (put_u32 [] ?n)\<rparr>)\<lparr>rpos :=
          rpos (?r\<lparr>rpos := rpos ?r + length (put_u32 [] ?n)\<rparr>) + length ?items\<rparr>)"
    using assms(1,3) by (intro feature.repeats [where rest = "[]"])
      (auto simp: features_bytes_def put_u32_def)
  ultimately show ?thesis
    using assms(2) by (simp add: features_decode_def u32_small)
qed

lemma features_require_lists:
  assumes "redb_ok M" "features_list M meta = Ok names" "name \<notin> set names"
    and "\<forall>f \<in> set (names @ [name]). text_ok f" "length (names @ [name]) < 2 ^ 32"
    and "length (features_bytes (names @ [name])) < usize_bound"
  obtains meta' where "features_require M meta name = Ok meta'"
    "features_list M meta' = Ok (names @ [name])"
    "contents M meta' = (contents M meta)(META_REQUIRED_FEATURES_KEY := Some (features_bytes (names @ [name])))"
proof -
  obtain meta' where m: "table_insert M meta META_REQUIRED_FEATURES_KEY (features_bytes (names @ [name])) = Ok meta'"
    "contents M meta' = (contents M meta)(META_REQUIRED_FEATURES_KEY := Some (features_bytes (names @ [name])))"
    by (rule redb_insert [OF assms(1)])
  have "features_require M meta name = Ok meta'"
    using assms(2,3) m(1)
    by (simp add: features_require_def foldl_put_bytes features_bytes_def put_bytes_append [of "_ @ _"] Let_def)
  moreover have "features_list M meta' = Ok (names @ [name])"
    using features_decode_bytes [OF assms(4-6)] m(2) by (simp add: features_list_def redb_get [OF assms(1)])
  ultimately show thesis using that m(2) by blast
qed

section \<open>Properties\<close>

text \<open>Once a database records that it needs the permission system, a build without it refuses to
  open it: recording \<open>permissions\<close> in a metadata table that requires nothing yet makes the bootstrap
  of a build without the feature fail with \<open>DatabaseProtected\<close>, and that of a build with it succeed.\<close>

theorem required_feature_protects:
  assumes "redb_ok M" and "contents M meta ''format_version'' = Some (be_bytes (1 :: u64))"
    and "contents M meta ''requirements'' = None"
  shows "\<exists>meta'. features_require M meta ''permissions'' = Ok meta' \<and>
    (\<not> permissions B \<longrightarrow> bootstrap_metadata B M meta' = Err DatabaseProtected) \<and>
    (permissions B \<longrightarrow> bootstrap_metadata B M meta' = Ok meta')"
proof -
  have none: "features_list M meta = Ok []"
    using assms(3) by (simp add: features_list_def redb_get [OF assms(1)])
  have ok: "text_ok ''permissions''"
  proof -
    have "utf8 ''permissions''" by code_simp
    then show ?thesis by (simp add: text_ok_def)
  qed
  obtain meta' where m: "features_require M meta ''permissions'' = Ok meta'"
    "features_list M meta' = Ok [''permissions'']"
    "contents M meta' = (contents M meta)(META_REQUIRED_FEATURES_KEY := Some (features_bytes [''permissions'']))"
    using features_require_lists [OF assms(1) none, of "''permissions''"] ok
    by (auto simp: features_bytes_def usize_bound_def)
  have "contents M meta' ''format_version'' = Some (be_bytes (1 :: u64))" using assms(2) m(3) by simp
  then have "bootstrap_metadata B M meta' = andThen (features_check B M meta') (\<lambda>_. Ok meta')"
    by (simp add: bootstrap_metadata_def redb_get [OF assms(1)] from_be_be_bytes)
  then show ?thesis
    using m(1,2) by (simp add: features_check_def is_compiled_def)
qed

definition default_build :: build where
  "default_build = \<lparr>permissions = False, entry_timestamps = False\<rparr>"

theorem required_feature_protects_witness:
  "\<exists>meta'. features_require btree_redb [(''format_version'', be_bytes (1 :: u64))] ''permissions'' = Ok meta' \<and>
     bootstrap_metadata default_build btree_redb meta' = Err DatabaseProtected"
  using required_feature_protects [OF btree_redb_ok, of "[(''format_version'', be_bytes (1 :: u64))]" default_build]
  by (auto simp: default_build_def)

text \<open>A fresh metadata table is stamped with the current format version, after which the
  bootstrap accepts it and changes nothing; a table written by a newer format is refused.\<close>

theorem bootstrap_versions:
  assumes "redb_ok M" and "contents M meta ''requirements'' = None"
  shows "(contents M meta ''format_version'' = None \<longrightarrow>
      (\<exists>meta'. bootstrap_metadata B M meta = Ok meta' \<and> bootstrap_metadata B M meta' = Ok meta' \<and>
         contents M meta' = (contents M meta)(''format_version'' := Some (be_bytes (1 :: u64))))) \<and>
    (\<forall>v :: u64. contents M meta ''format_version'' = Some (be_bytes v) \<longrightarrow> v > 1 \<longrightarrow>
      (\<exists>m. bootstrap_metadata B M meta = Err (SchemaMismatch m)))"
proof -
  have check: "features_check B M t = Ok ()" if "contents M t ''requirements'' = None" for t
    using that by (simp add: features_check_def features_list_def redb_get [OF assms(1)])
  obtain meta' where m: "table_insert M meta ''format_version'' (be_bytes (1 :: u64)) = Ok meta'"
    "contents M meta' = (contents M meta)(''format_version'' := Some (be_bytes (1 :: u64)))"
    by (rule redb_insert [OF assms(1)])
  have "contents M meta' ''requirements'' = None" using m(2) assms(2) by simp
  then show ?thesis
    using m check assms(2) by (auto simp: bootstrap_metadata_def redb_get [OF assms(1)] from_be_be_bytes)
qed

theorem bootstrap_versions_witness:
  "(\<exists>meta'. bootstrap_metadata default_build btree_redb [] = Ok meta' \<and>
      bootstrap_metadata default_build btree_redb meta' = Ok meta') \<and>
   (\<exists>m. bootstrap_metadata default_build btree_redb [(''format_version'', be_bytes (2 :: u64))]
      = Err (SchemaMismatch m))"
  using bootstrap_versions [OF btree_redb_ok, of "[]" default_build]
    bootstrap_versions [OF btree_redb_ok, of "[(''format_version'', be_bytes (2 :: u64))]" default_build]
  by auto

end
