(* ===== verification/Write_Context.thy ===== *)
theory Write_Context
  imports Engine Ops "HOL-Library.AList"
begin

text \<open>
  The write context of a transaction: the write-back cache of dirty entries
  (\<open>txn/context/write_buffer.rs\<close>) and the operations that read and write a-node entries through it
  (\<open>txn/context/ctx.rs\<close>), in the default build, without access control or timestamps.

  The atomic flags and the mutexes are read and written by the one thread that runs the transaction,
  so they are plain fields. A \<open>HashMap\<close> is an association list with distinct keys, whose order stands for
  the unspecified iteration order. The per-thread key generator is a field of the context, since every
  \<open>AKey::generate\<close> advances it. \<open>view\<close> is the state of the transaction as its own reads see it: the
  buffered entry of an a-node if there is one, its engine entry otherwise. The lemmas show that every
  read is a function of the view and what every write does to it, buffered or not.
\<close>

section \<open>The write buffer\<close>

type_synonym children = "(string, akey) btree"

record write_buffer =
  buffering :: bool
  dirs_dirty :: bool
  dirs :: "(akey \<times> children) list"
  files_dirty :: bool
  files :: "(akey \<times> bytes) list"
  structure_count :: u64

definition wb_new :: "bool \<Rightarrow> write_buffer" where
  "wb_new b = \<lparr>buffering = b, dirs_dirty = False, dirs = [], files_dirty = False, files = [],
     structure_count = 0\<rparr>"

definition wb_active :: "write_buffer \<Rightarrow> bool" where
  "wb_active wb = buffering wb"

definition wb_dirty :: "write_buffer \<Rightarrow> bool" where
  "wb_dirty wb = dirs_dirty wb"

definition wb_read :: "((akey \<times> children) list \<Rightarrow> 'r) \<Rightarrow> write_buffer \<Rightarrow> 'r" where
  "wb_read f wb = f (dirs wb)"

definition wb_write ::
  "((akey \<times> children) list \<Rightarrow> (akey \<times> children) list) \<Rightarrow> write_buffer \<Rightarrow> write_buffer" where
  "wb_write f wb = wb\<lparr>dirs := f (dirs wb), dirs_dirty := True\<rparr>"

definition wb_files_dirty :: "write_buffer \<Rightarrow> bool" where
  "wb_files_dirty wb = files_dirty wb"

definition wb_file_get :: "akey \<Rightarrow> write_buffer \<Rightarrow> bytes option" where
  "wb_file_get akey wb = (if \<not> wb_files_dirty wb then None else map_of (files wb) akey)"

definition wb_file_put :: "akey \<Rightarrow> bytes \<Rightarrow> write_buffer \<Rightarrow> write_buffer" where
  "wb_file_put akey entry wb = wb\<lparr>files := AList.update akey entry (files wb), files_dirty := True\<rparr>"

definition wb_file_forget :: "akey \<Rightarrow> write_buffer \<Rightarrow> write_buffer" where
  "wb_file_forget akey wb =
     (if wb_files_dirty wb then wb\<lparr>files := AList.delete akey (files wb)\<rparr> else wb)"

definition wb_structure_epoch :: "write_buffer \<Rightarrow> u64" where
  "wb_structure_epoch wb = structure_count wb"

text \<open>\<open>fetch_add\<close> wraps around.\<close>

definition wb_bump_structure :: "write_buffer \<Rightarrow> write_buffer" where
  "wb_bump_structure wb = wb\<lparr>structure_count := structure_count wb + 1\<rparr>"

definition wb_forget :: "akey \<Rightarrow> write_buffer \<Rightarrow> write_buffer" where
  "wb_forget akey wb =
     (let wb = (if wb_dirty wb then wb\<lparr>dirs := AList.delete akey (dirs wb)\<rparr> else wb)
      in if wb_files_dirty wb then wb\<lparr>files := AList.delete akey (files wb)\<rparr> else wb)"

definition wb_take ::
  "write_buffer \<Rightarrow> ((akey \<times> children) list \<times> (akey \<times> bytes) list) \<times> write_buffer" where
  "wb_take wb =
     ((dirs wb, files wb), wb\<lparr>dirs_dirty := False, files_dirty := False, dirs := [], files := []\<rparr>)"

definition wb_take_and_disable ::
  "write_buffer \<Rightarrow> ((akey \<times> children) list \<times> (akey \<times> bytes) list) \<times> write_buffer" where
  "wb_take_and_disable wb = wb_take (wb\<lparr>buffering := False\<rparr>)"

section \<open>The context\<close>

record 't ctx =
  ctx_data :: 't
  ctx_buf :: write_buffer
  ctx_rng :: u64

definition set_data :: "'t res \<Rightarrow> ('t ctx, unit) op" where
  "set_data r c =
     (case r of
        Ok t \<Rightarrow> (Ok (), c\<lparr>ctx_data := t\<rparr>)
      | Err e \<Rightarrow> (Err e, c) | Panic p \<Rightarrow> (Panic p, c) | Diverge \<Rightarrow> (Diverge, c))"

definition put_buf :: "(write_buffer \<Rightarrow> write_buffer) \<Rightarrow> ('t ctx, unit) op" where
  "put_buf f c = (Ok (), c\<lparr>ctx_buf := f (ctx_buf c)\<rparr>)"

definition generate_key :: "('t ctx, akey) op" where
  "generate_key c = (let (k, s) = akey_generate (ctx_rng c) in (Ok k, c\<lparr>ctx_rng := s\<rparr>))"

definition put_entry :: "('t, akey, bytes) redb \<Rightarrow> akey \<Rightarrow> bytes \<Rightarrow> ('t ctx, unit) op" where
  "put_entry R akey entry =
     seqOp (\<lambda>c. set_data (table_insert R (ctx_data c) akey entry) c)
       (put_buf (wb_file_forget akey))"

definition ctx_buffering :: "'t ctx \<Rightarrow> bool" where
  "ctx_buffering c = wb_active (ctx_buf c)"

definition put_file_edit :: "('t, akey, bytes) redb \<Rightarrow> akey \<Rightarrow> bytes \<Rightarrow> ('t ctx, unit) op" where
  "put_file_edit R akey entry c =
     (if ctx_buffering c then put_buf (wb_file_put akey entry) c else put_entry R akey entry c)"

definition remove_entry :: "('t, akey, bytes) redb \<Rightarrow> akey \<Rightarrow> ('t ctx, unit) op" where
  "remove_entry R akey =
     seqOp (\<lambda>c. set_data (table_remove R (ctx_data c) akey) c) (put_buf (wb_forget akey))"

definition read_verified :: "('t, akey, bytes) redb \<Rightarrow> 't ctx \<Rightarrow> akey \<Rightarrow> bytes option res" where
  "read_verified R c akey =
     (case wb_file_get akey (ctx_buf c) of
        Some entry \<Rightarrow> Ok (Some entry)
      | None \<Rightarrow> read_entry R (ctx_data c) akey)"

definition buffered_dir :: "'t ctx \<Rightarrow> akey \<Rightarrow> children option" where
  "buffered_dir c akey =
     (if wb_dirty (ctx_buf c) then wb_read (\<lambda>dirs. map_of dirs akey) (ctx_buf c) else None)"

definition has_entry :: "('t, akey, bytes) redb \<Rightarrow> 't ctx \<Rightarrow> akey \<Rightarrow> bool res" where
  "has_entry R c akey =
     (if buffered_dir c akey \<noteq> None then Ok True
      else andThen (table_get R (ctx_data c) akey) (\<lambda>g. Ok (g \<noteq> None)))"

definition with_entry ::
  "('t, akey, bytes) redb \<Rightarrow> 't ctx \<Rightarrow> akey \<Rightarrow> (bytes \<Rightarrow> 'r res) \<Rightarrow> 'r option res" where
  "with_entry R c akey f =
     (case wb_file_get akey (ctx_buf c) of
        Some entry \<Rightarrow> andThen (f entry) (\<lambda>r. Ok (Some r))
      | None \<Rightarrow>
          andThen (table_get R (ctx_data c) akey) (\<lambda>g.
            case g of None \<Rightarrow> Ok None | Some entry \<Rightarrow> andThen (f entry) (\<lambda>r. Ok (Some r))))"

definition ctx_child :: "('t, akey, bytes) redb \<Rightarrow> 't ctx \<Rightarrow> akey \<Rightarrow> string \<Rightarrow> akey option res" where
  "ctx_child R c parent name =
     (case buffered_dir c parent of
        Some children \<Rightarrow> Ok (bt_get children name)
      | None \<Rightarrow>
          andThen (with_entry R c parent (\<lambda>entry. entry_child entry name)) (\<lambda>r.
            Ok (Option.bind r (\<lambda>x. x))))"

definition ctx_kind :: "('t, akey, bytes) redb \<Rightarrow> 't ctx \<Rightarrow> akey \<Rightarrow> entry_kind option res" where
  "ctx_kind R c akey =
     (if buffered_dir c akey \<noteq> None then Ok (Some Dir)
      else with_entry R c akey (\<lambda>entry. andThen (entry_split entry) (\<lambda>(kind, _). Ok kind)))"

text \<open>The listing of a directory entry, collected into a map.\<close>

definition entry_children :: "bytes \<Rightarrow> children res" where
  "entry_children entry =
     andThen (entry_split entry) (\<lambda>(kind, payload).
       if kind \<noteq> Dir then Err (CannotAccess ''a path component is a file, not a directory'')
       else andThen (dir_new payload) (\<lambda>d. andThen (dir_entries d) (\<lambda>es.
              Ok (foldl (\<lambda>m e. bt_insert (fst e) (snd e) m) [] es))))"

definition dir_children :: "('t, akey, bytes) redb \<Rightarrow> 't ctx \<Rightarrow> akey \<Rightarrow> children res" where
  "dir_children R c akey =
     (case buffered_dir c akey of
        Some children \<Rightarrow> Ok children
      | None \<Rightarrow>
          andThen (with_entry R c akey entry_children) (\<lambda>r.
            Ok (case r of Some children \<Rightarrow> children | None \<Rightarrow> [])))"

definition entry_cascade :: "bytes \<Rightarrow> akey list res" where
  "entry_cascade entry =
     andThen (entry_split entry) (\<lambda>(kind, payload).
       case kind of
         File \<Rightarrow> Ok []
       | Dir \<Rightarrow> andThen (dir_new payload) (\<lambda>d. andThen (dir_entries d) (\<lambda>es. Ok (map snd es))))"

definition cascade_children :: "('t, akey, bytes) redb \<Rightarrow> 't ctx \<Rightarrow> akey \<Rightarrow> akey list option res" where
  "cascade_children R c akey =
     (case buffered_dir c akey of
        Some children \<Rightarrow> Ok (Some (map snd children))
      | None \<Rightarrow> with_entry R c akey entry_cascade)"

definition buffer_dir :: "akey \<Rightarrow> children \<Rightarrow> ('t ctx, unit) op" where
  "buffer_dir akey m = put_buf (wb_write (AList.update akey m))"

text \<open>\<open>dirs.entry(parent).or_insert(loaded)\<close>, then the edit \<open>f\<close> of the child map.\<close>

definition edit_dir ::
  "('t, akey, bytes) redb \<Rightarrow> akey \<Rightarrow> (children \<Rightarrow> children) \<Rightarrow> ('t ctx, unit) op" where
  "edit_dir R parent f c =
     (let seed = (if buffered_dir c parent \<noteq> None then Ok None
                  else andThen (dir_children R c parent) (\<lambda>m. Ok (Some m)))
      in bindOp (liftOp seed) (\<lambda>seed c.
           let existing = map_of (dirs (ctx_buf c)) parent in
           case (seed, existing) of
             (None, None) \<Rightarrow> (Panic ''the parent is buffered'', c)
           | (_, Some children) \<Rightarrow> put_buf (wb_write (AList.update parent (f children))) c
           | (Some loaded, None) \<Rightarrow> put_buf (wb_write (AList.update parent (f loaded))) c) c)"

definition dir_link ::
  "('t, akey, bytes) redb \<Rightarrow> akey \<Rightarrow> string \<Rightarrow> akey \<Rightarrow> ('t ctx, unit) op" where
  "dir_link R parent name child = edit_dir R parent (bt_insert name child)"

definition dir_unlink :: "('t, akey, bytes) redb \<Rightarrow> akey \<Rightarrow> string \<Rightarrow> ('t ctx, unit) op" where
  "dir_unlink R parent name = edit_dir R parent (bt_remove name)"

definition ctx_structure_epoch :: "'t ctx \<Rightarrow> u64" where
  "ctx_structure_epoch c = wb_structure_epoch (ctx_buf c)"

definition ctx_bump_structure :: "('t ctx, unit) op" where
  "ctx_bump_structure = put_buf wb_bump_structure"

fun resolve_from :: "('t, akey, bytes) redb \<Rightarrow> 't ctx \<Rightarrow> akey \<Rightarrow> apath \<Rightarrow> akey option res" where
  "resolve_from R c akey [] = Ok (Some akey)"
| "resolve_from R c akey (name # names) =
     andThen (ctx_child R c akey name) (\<lambda>next.
       case next of
         Some child \<Rightarrow> resolve_from R c child names
       | None \<Rightarrow> Ok None)"

definition ctx_resolve :: "('t, akey, bytes) redb \<Rightarrow> 't ctx \<Rightarrow> apath \<Rightarrow> akey option res" where
  "ctx_resolve R c path = resolve_from R c akey_ROOT path"

section \<open>The state a transaction sees\<close>

definition view :: "('t, akey, bytes) redb \<Rightarrow> 't ctx \<Rightarrow> akey \<Rightarrow> bytes option" where
  "view R c k =
     (case map_of (dirs (ctx_buf c)) k of
        Some m \<Rightarrow> Some (dir_entry (encode_dir m))
      | None \<Rightarrow>
          (case map_of (files (ctx_buf c)) k of
             Some e \<Rightarrow> Some e
           | None \<Rightarrow> contents R (ctx_data c) k))"

text \<open>
  The invariant of the write buffer: the keys of each map are distinct; an unset dirty flag means an
  empty map; a buffer that is off holds nothing; buffered directories fit their format; a buffered
  file is a file entry of an a-node that is already a file in the engine, and is not also a buffered directory.
\<close>

definition wb_ok :: "write_buffer \<Rightarrow> bool" where
  "wb_ok wb \<longleftrightarrow>
     distinct (map fst (dirs wb)) \<and> distinct (map fst (files wb)) \<and>
     (dirs_dirty wb \<or> dirs wb = []) \<and> (files_dirty wb \<or> files wb = []) \<and>
     (buffering wb \<or> dirs wb = [] \<and> files wb = []) \<and>
     (\<forall>e \<in> set (dirs wb). dir_ok (snd e)) \<and>
     (\<forall>e \<in> set (files wb). \<exists>b. snd e = file_entry b) \<and>
     fst ` set (dirs wb) \<inter> fst ` set (files wb) = {}"

definition ctx_ok :: "('t, akey, bytes) redb \<Rightarrow> 't ctx \<Rightarrow> bool" where
  "ctx_ok R c \<longleftrightarrow> redb_ok R \<and> wb_ok (ctx_buf c) \<and>
     (\<forall>k \<in> fst ` set (files (ctx_buf c)). \<exists>b. contents R (ctx_data c) k = Some (file_entry b))"

lemma ctx_ok_redb: "ctx_ok R c \<Longrightarrow> redb_ok R"
  by (simp add: ctx_ok_def)

lemma buffered_dir_eq: "ctx_ok R c \<Longrightarrow> buffered_dir c k = map_of (dirs (ctx_buf c)) k"
  by (auto simp: buffered_dir_def wb_dirty_def wb_read_def ctx_ok_def wb_ok_def)

lemma file_get_eq: "ctx_ok R c \<Longrightarrow> wb_file_get k (ctx_buf c) = map_of (files (ctx_buf c)) k"
  by (auto simp: wb_file_get_def wb_files_dirty_def ctx_ok_def wb_ok_def)

lemma buffered_dir_ok: "ctx_ok R c \<Longrightarrow> map_of (dirs (ctx_buf c)) k = Some m \<Longrightarrow> dir_ok m"
  by (force simp: ctx_ok_def wb_ok_def dest: map_of_SomeD)

lemma buffered_file: "ctx_ok R c \<Longrightarrow> map_of (files (ctx_buf c)) k = Some e \<Longrightarrow> \<exists>b. e = file_entry b"
  by (force simp: ctx_ok_def wb_ok_def dest: map_of_SomeD)

lemma with_entry_view:
  assumes "ctx_ok R c" "map_of (dirs (ctx_buf c)) k = None"
  shows "with_entry R c k f = (case view R c k of None \<Rightarrow> Ok None | Some e \<Rightarrow> andThen (f e) (\<lambda>r. Ok (Some r)))"
  using assms by (simp add: with_entry_def file_get_eq view_def redb_get [OF ctx_ok_redb] split: option.split)

text \<open>Every read is a function of the view.\<close>

lemma entry_children_dir: "dir_ok m \<Longrightarrow> entry_children (dir_entry (encode_dir m)) = Ok m"
  using foldl_bt_insert [of "[]" m]
  by (simp add: entry_children_def dir_new_encode dir_entries_encode dir_ok_def)

lemma entry_cascade_dir: "dir_ok m \<Longrightarrow> entry_cascade (dir_entry (encode_dir m)) = Ok (map snd m)"
  by (simp add: entry_cascade_def dir_new_encode dir_entries_encode)

lemma ctx_child_view:
  "ctx_ok R c \<Longrightarrow> ctx_child R c k name =
     (case view R c k of None \<Rightarrow> Ok None | Some e \<Rightarrow> entry_child e name)"
proof (cases "map_of (dirs (ctx_buf c)) k")
  case (Some m)
  assume "ctx_ok R c"
  with Some show ?thesis
    by (simp add: ctx_child_def buffered_dir_eq view_def entry_child_dir buffered_dir_ok)
next
  case None
  assume "ctx_ok R c"
  with None show ?thesis
    by (cases "view R c k"; cases "entry_child (the (view R c k)) name")
      (simp_all add: ctx_child_def buffered_dir_eq with_entry_view)
qed

lemma ctx_kind_view:
  "ctx_ok R c \<Longrightarrow> ctx_kind R c k =
     (case view R c k of None \<Rightarrow> Ok None | Some e \<Rightarrow> andThen (entry_split e) (\<lambda>(kind, _). Ok (Some kind)))"
proof (cases "map_of (dirs (ctx_buf c)) k")
  case None
  assume "ctx_ok R c"
  with None show ?thesis
    by (simp add: ctx_kind_def buffered_dir_eq with_entry_view andThen_assoc case_prod_unfold split: option.split)
qed (simp add: ctx_kind_def buffered_dir_eq view_def)

lemma dir_children_view:
  "ctx_ok R c \<Longrightarrow> dir_children R c k = (case view R c k of None \<Rightarrow> Ok [] | Some e \<Rightarrow> entry_children e)"
proof (cases "map_of (dirs (ctx_buf c)) k")
  case (Some m)
  assume "ctx_ok R c"
  with Some show ?thesis
    by (simp add: dir_children_def buffered_dir_eq view_def entry_children_dir buffered_dir_ok)
next
  case None
  assume "ctx_ok R c"
  with None show ?thesis
    by (cases "view R c k"; cases "entry_children (the (view R c k))")
      (simp_all add: dir_children_def buffered_dir_eq with_entry_view)
qed

lemma cascade_children_view:
  "ctx_ok R c \<Longrightarrow> cascade_children R c k =
     (case view R c k of None \<Rightarrow> Ok None | Some e \<Rightarrow> andThen (entry_cascade e) (\<lambda>ks. Ok (Some ks)))"
proof (cases "map_of (dirs (ctx_buf c)) k")
  case (Some m)
  assume "ctx_ok R c"
  with Some show ?thesis
    by (simp add: cascade_children_def buffered_dir_eq view_def entry_cascade_dir buffered_dir_ok)
next
  case None
  assume "ctx_ok R c"
  with None show ?thesis by (simp add: cascade_children_def buffered_dir_eq with_entry_view)
qed

lemma has_entry_view: "ctx_ok R c \<Longrightarrow> has_entry R c k = Ok (view R c k \<noteq> None)"
proof -
  assume ok: "ctx_ok R c"
  have "contents R (ctx_data c) k \<noteq> None" if "map_of (files (ctx_buf c)) k = Some e" for e
    using ok that by (force simp: ctx_ok_def dest: map_of_SomeD)
  then show ?thesis
    using ok by (auto simp: has_entry_def buffered_dir_eq view_def redb_get [OF ctx_ok_redb] split: option.split)
qed

lemma read_verified_view:
  "ctx_ok R c \<Longrightarrow> map_of (dirs (ctx_buf c)) k = None \<Longrightarrow> read_verified R c k = Ok (view R c k)"
  by (simp add: read_verified_def file_get_eq view_def read_entry_def redb_get [OF ctx_ok_redb] split: option.split)

lemmas ctx_reads = ctx_child_view ctx_kind_view dir_children_view cascade_children_view has_entry_view

text \<open>Resolution over the view alone.\<close>

fun walk :: "(akey \<Rightarrow> bytes option) \<Rightarrow> akey \<Rightarrow> apath \<Rightarrow> akey option res" where
  "walk V k [] = Ok (Some k)"
| "walk V k (name # names) =
     (case V k of
        None \<Rightarrow> Ok None
      | Some e \<Rightarrow> andThen (entry_child e name) (\<lambda>next.
          case next of Some child \<Rightarrow> walk V child names | None \<Rightarrow> Ok None))"

lemma resolve_from_view: "ctx_ok R c \<Longrightarrow> resolve_from R c k p = walk (view R c) k p"
  by (induction p arbitrary: k) (auto simp: ctx_child_view split: option.split intro!: andThen_cong)

section \<open>What the writes do to it\<close>

text \<open>An operation that succeeds, keeps the invariant, and turns the view into \<open>V\<close>.\<close>

definition writes ::
  "('t, akey, bytes) redb \<Rightarrow> 't ctx \<Rightarrow> ('t ctx, 'a) op \<Rightarrow> 'a \<Rightarrow> (akey \<Rightarrow> bytes option) \<Rightarrow> 't ctx \<Rightarrow> bool" where
  "writes R c m x V c' \<longleftrightarrow> m c = (Ok x, c') \<and> ctx_ok R c' \<and> view R c' = V"

lemma map_of_update [simp]: "map_of (AList.update k v al) = (map_of al)(k := Some v)"
  by (rule update_conv')

lemma map_of_delete [simp]: "map_of (AList.delete k al) = (map_of al)(k := None)"
  by (rule AList.delete_conv')

lemma fst_set_update [simp]: "fst ` set (AList.update k v al) = insert k (fst ` set al)"
  by (induction al) auto

lemma set_update_mem: "e \<in> set (AList.update k v al) \<Longrightarrow> e = (k, v) \<or> e \<in> set al"
  by (induction al) (auto split: if_splits)

lemma set_delete_mem: "e \<in> set (AList.delete k al) \<Longrightarrow> e \<in> set al \<and> fst e \<noteq> k"
  by (auto simp: AList.delete_eq)

lemma fst_set_delete [simp]: "fst ` set (AList.delete k al) = fst ` set al - {k}"
  by (auto simp: AList.delete_eq image_iff)

lemma put_entry_writes:
  assumes "ctx_ok R c" "map_of (dirs (ctx_buf c)) k = None"
  shows "\<exists>c'. writes R c (put_entry R k e) () ((view R c)(k := Some e)) c' \<and>
    ctx_buf c' = wb_file_forget k (ctx_buf c) \<and> ctx_rng c' = ctx_rng c"
proof -
  obtain t where t: "table_insert R (ctx_data c) k e = Ok t"
    "contents R t = (contents R (ctx_data c))(k := Some e)"
    by (rule redb_insert [OF ctx_ok_redb [OF assms(1)]])
  let ?c = "c\<lparr>ctx_data := t, ctx_buf := wb_file_forget k (ctx_buf c)\<rparr>"
  have "put_entry R k e c = (Ok (), ?c)"
    by (simp add: put_entry_def t(1) set_data_def put_buf_def)
  moreover have "ctx_ok R ?c"
    using assms(1) t(2)
    by (auto simp: ctx_ok_def wb_ok_def wb_file_forget_def wb_files_dirty_def distinct_delete dest: set_delete_mem)
  moreover have "view R ?c = (view R c)(k := Some e)"
    using assms t(2)
    by (auto simp: fun_eq_iff view_def wb_file_forget_def wb_files_dirty_def ctx_ok_def wb_ok_def
        split: option.split)
  ultimately show ?thesis by (auto simp: writes_def)
qed

lemma remove_entry_writes:
  assumes "ctx_ok R c"
  shows "\<exists>c'. writes R c (remove_entry R k) () ((view R c)(k := None)) c' \<and>
    ctx_rng c' = ctx_rng c \<and> buffering (ctx_buf c') = buffering (ctx_buf c)"
proof -
  obtain t where t: "table_remove R (ctx_data c) k = Ok t"
    "contents R t = (contents R (ctx_data c))(k := None)"
    by (rule redb_remove [OF ctx_ok_redb [OF assms]])
  let ?c = "c\<lparr>ctx_data := t, ctx_buf := wb_forget k (ctx_buf c)\<rparr>"
  have buf: "dirs (wb_forget k (ctx_buf c)) = AList.delete k (dirs (ctx_buf c))"
    "files (wb_forget k (ctx_buf c)) = AList.delete k (files (ctx_buf c))"
    "dirs_dirty (wb_forget k (ctx_buf c)) = dirs_dirty (ctx_buf c)"
    "files_dirty (wb_forget k (ctx_buf c)) = files_dirty (ctx_buf c)"
    "buffering (wb_forget k (ctx_buf c)) = buffering (ctx_buf c)"
    using assms by (auto simp: wb_forget_def wb_dirty_def wb_files_dirty_def ctx_ok_def wb_ok_def Let_def)
  have "remove_entry R k c = (Ok (), ?c)"
    by (simp add: remove_entry_def t(1) set_data_def put_buf_def)
  moreover have "ctx_ok R ?c"
    using assms t(2)
    by (auto simp: ctx_ok_def wb_ok_def buf distinct_delete dest: set_delete_mem)
  moreover have "view R ?c = (view R c)(k := None)"
    using t(2) by (auto simp: fun_eq_iff view_def buf split: option.split)
  ultimately show ?thesis by (auto simp: writes_def buf)
qed

lemma put_file_edit_writes:
  assumes "ctx_ok R c" "map_of (dirs (ctx_buf c)) k = None" "view R c k = Some (file_entry b0)" "e = file_entry b"
  shows "\<exists>c'. writes R c (put_file_edit R k e) () ((view R c)(k := Some e)) c'"
proof (cases "ctx_buffering c")
  case True
  let ?c = "c\<lparr>ctx_buf := wb_file_put k e (ctx_buf c)\<rparr>"
  have "\<exists>b. contents R (ctx_data c) k = Some (file_entry b)"
    using assms(1-3) by (force simp: view_def ctx_ok_def split: option.splits dest: map_of_SomeD)
  moreover have "k \<notin> fst ` set (dirs (ctx_buf c))" using assms(2) by (simp add: map_of_eq_None_iff)
  ultimately have "ctx_ok R ?c"
    using assms(1,4) True
    by (auto simp: ctx_ok_def wb_ok_def wb_file_put_def distinct_update ctx_buffering_def wb_active_def
        dest!: set_update_mem)
  moreover have "view R ?c = (view R c)(k := Some e)"
    using assms(2) by (auto simp: fun_eq_iff view_def wb_file_put_def split: option.split)
  ultimately show ?thesis using True by (auto simp: writes_def put_file_edit_def put_buf_def)
next
  case False
  then show ?thesis
    using put_entry_writes [OF assms(1,2)] by (auto simp: writes_def put_file_edit_def)
qed

text \<open>Buffering a directory: its key must not be that of a buffered file.\<close>

lemma write_dir_writes:
  assumes "ctx_ok R c" "buffering (ctx_buf c)" "map_of (files (ctx_buf c)) k = None" "dir_ok m"
  shows "writes R c (put_buf (wb_write (AList.update k m))) ()
    ((view R c)(k := Some (dir_entry (encode_dir m)))) (c\<lparr>ctx_buf := wb_write (AList.update k m) (ctx_buf c)\<rparr>)"
proof -
  let ?c = "c\<lparr>ctx_buf := wb_write (AList.update k m) (ctx_buf c)\<rparr>"
  have "k \<notin> fst ` set (files (ctx_buf c))" using assms(3) by (simp add: map_of_eq_None_iff)
  then have "ctx_ok R ?c"
    using assms(1,2,4)
    by (auto simp: ctx_ok_def wb_ok_def wb_write_def distinct_update dest!: set_update_mem)
  moreover have "view R ?c = (view R c)(k := Some (dir_entry (encode_dir m)))"
    by (auto simp: fun_eq_iff view_def wb_write_def split: option.split)
  ultimately show ?thesis by (simp add: writes_def put_buf_def)
qed

text \<open>An a-node whose view is not a file entry is not a buffered file.\<close>

lemma not_buffered_file:
  assumes "ctx_ok R c" "map_of (dirs (ctx_buf c)) k = None" "\<And>b. view R c k \<noteq> Some (file_entry b)"
  shows "map_of (files (ctx_buf c)) k = None"
  using assms buffered_file [OF assms(1), of k] by (cases "map_of (files (ctx_buf c)) k") (auto simp: view_def)

lemma not_buffered_file':
  assumes "ctx_ok R c" "\<And>b. view R c k \<noteq> Some (file_entry b)"
  shows "map_of (files (ctx_buf c)) k = None"
proof (cases "map_of (dirs (ctx_buf c)) k")
  case (Some m)
  then have "k \<in> fst ` set (dirs (ctx_buf c))" by (force dest: map_of_SomeD)
  then show ?thesis using assms(1) by (auto simp: ctx_ok_def wb_ok_def map_of_eq_None_iff)
qed (use not_buffered_file [OF assms(1)] assms(2) in blast)

text \<open>A directory edit in the buffer, seeded from whatever the view shows.\<close>

lemma edit_dir_writes:
  assumes "ctx_ok R c" "buffering (ctx_buf c)" "dir_children R c k = Ok m" "dir_ok (f m)"
    "\<And>b. view R c k \<noteq> Some (file_entry b)"
  shows "\<exists>c'. writes R c (edit_dir R k f) () ((view R c)(k := Some (dir_entry (encode_dir (f m))))) c' \<and>
    ctx_rng c' = ctx_rng c \<and> buffering (ctx_buf c')"
proof -
  let ?c = "c\<lparr>ctx_buf := wb_write (AList.update k (f m)) (ctx_buf c)\<rparr>"
  have "edit_dir R k f c = put_buf (wb_write (AList.update k (f m))) c"
  proof (cases "map_of (dirs (ctx_buf c)) k")
    case (Some ch)
    then have "ch = m" using assms(1,3) by (simp add: dir_children_def buffered_dir_eq)
    then show ?thesis using Some assms(1) by (simp add: edit_dir_def buffered_dir_eq Let_def bindOp_def)
  next
    case None
    then show ?thesis using assms(1,3) by (simp add: edit_dir_def buffered_dir_eq Let_def bindOp_def)
  qed
  moreover have "writes R c (put_buf (wb_write (AList.update k (f m)))) ()
      ((view R c)(k := Some (dir_entry (encode_dir (f m))))) ?c"
    using assms not_buffered_file' [OF assms(1,5)] by (intro write_dir_writes) auto
  ultimately show ?thesis using assms(2) by (auto simp: writes_def wb_write_def)
qed

end
