(* ===== verification/Table_Ops.thy ===== *)
theory Table_Ops
  imports Write_Context Archived_Layout
begin

text \<open>
  The mutations of a table (\<open>txn/context/table.rs\<close>) over the write context: storing a file, setting
  a scalar in place, removing, moving and copying subtrees, creating directories, and the flush of
  the write buffer. Deleting and copying a subtree recurse along stored child keys, which nothing
  makes acyclic, so they take fuel, passed down from the operation; out of fuel is \<open>Diverge\<close>.
\<close>

section \<open>Directories\<close>

definition put_dir :: "('t, akey, bytes) redb \<Rightarrow> akey \<Rightarrow> children \<Rightarrow> ('t ctx, unit) op" where
  "put_dir R akey m c =
     (if ctx_buffering c then buffer_dir akey m c
      else put_entry R akey (dir_entry (encode_dir m)) c)"

definition flush_buffered ::
  "('t, akey, bytes) redb \<Rightarrow> (akey \<times> children) list \<Rightarrow> (akey \<times> bytes) list \<Rightarrow> ('t ctx, unit) op" where
  "flush_buffered R ds fs =
     seqOp (forOp ds (\<lambda>(akey, m). put_entry R akey (dir_entry (encode_dir m))))
       (forOp fs (\<lambda>(akey, entry). put_entry R akey entry))"

definition link_child ::
  "('t, akey, bytes) redb \<Rightarrow> akey \<Rightarrow> string \<Rightarrow> akey \<Rightarrow> ('t ctx, unit) op" where
  "link_child R parent name child =
     seqOp ctx_bump_structure (\<lambda>c.
       if ctx_buffering c then dir_link R parent name child c
       else bindOp (readOp (\<lambda>c. dir_children R c parent))
              (\<lambda>m. put_dir R parent (bt_insert name child m)) c)"

definition unlink_child :: "('t, akey, bytes) redb \<Rightarrow> akey \<Rightarrow> string \<Rightarrow> ('t ctx, unit) op" where
  "unlink_child R parent name =
     seqOp ctx_bump_structure (\<lambda>c.
       if ctx_buffering c then dir_unlink R parent name c
       else bindOp (readOp (\<lambda>c. dir_children R c parent))
              (\<lambda>m. put_dir R parent (bt_remove name m)) c)"

definition ensure_root :: "('t, akey, bytes) redb \<Rightarrow> ('t ctx, unit) op" where
  "ensure_root R =
     bindOp (readOp (\<lambda>c. has_entry R c akey_ROOT)) (\<lambda>present.
       if \<not> present then put_dir R akey_ROOT [] else retOp ())"

fun ensure_dir_from :: "('t, akey, bytes) redb \<Rightarrow> akey \<Rightarrow> apath \<Rightarrow> ('t ctx, akey) op" where
  "ensure_dir_from R akey [] = retOp akey"
| "ensure_dir_from R akey (name # names) =
     bindOp (readOp (\<lambda>c. ctx_child R c akey name)) (\<lambda>found.
       case found of
         Some child \<Rightarrow>
           bindOp (readOp (\<lambda>c. ctx_kind R c child)) (\<lambda>kind.
             if kind \<noteq> Some Dir then
               liftOp (Err (CannotAccess (quoted name @ '' is a file, not a directory'')))
             else ensure_dir_from R child names)
       | None \<Rightarrow>
           bindOp generate_key (\<lambda>child.
           seqOp (put_dir R child [])
             (seqOp (link_child R akey name child) (ensure_dir_from R child names))))"

definition ensure_dir :: "('t, akey, bytes) redb \<Rightarrow> apath \<Rightarrow> ('t ctx, akey) op" where
  "ensure_dir R path = seqOp (ensure_root R) (ensure_dir_from R akey_ROOT path)"

section \<open>Subtrees\<close>

primrec cascade_delete :: "nat \<Rightarrow> ('t, akey, bytes) redb \<Rightarrow> akey \<Rightarrow> ('t ctx, unit) op" where
  "cascade_delete 0 R akey = liftOp Diverge"
| "cascade_delete (Suc fuel) R akey =
     bindOp (readOp (\<lambda>c. cascade_children R c akey)) (\<lambda>children.
       case children of
         None \<Rightarrow> retOp ()
       | Some children \<Rightarrow>
           seqOp (forOp children (cascade_delete fuel R)) (remove_entry R akey))"

primrec deep_copy :: "nat \<Rightarrow> ('t, akey, bytes) redb \<Rightarrow> akey \<Rightarrow> ('t ctx, akey) op" where
  "deep_copy 0 R akey = liftOp Diverge"
| "deep_copy (Suc fuel) R akey =
     bindOp generate_key (\<lambda>fresh.
     bindOp (readOp (\<lambda>c. ctx_kind R c akey)) (\<lambda>kind.
     bindOp (liftOp (ok_or kind (Corrupt ''copying a missing a-node''))) (\<lambda>kind.
     seqOp
       (case kind of
          File \<Rightarrow>
            bindOp (readOp (\<lambda>c. read_verified R c akey)) (\<lambda>entry.
            bindOp (liftOp (ok_or entry (Corrupt ''copying a missing a-node''))) (\<lambda>entry.
            put_entry R fresh entry))
        | Dir \<Rightarrow>
            bindOp (readOp (\<lambda>c. dir_children R c akey)) (\<lambda>children.
            bindOp (mapOp (\<lambda>e. bindOp (deep_copy fuel R (snd e)) (\<lambda>k. retOp (fst e, k))) children)
              (\<lambda>copied. put_dir R fresh (foldl (\<lambda>m e. bt_insert (fst e) (snd e) m) [] copied))))
       (retOp fresh))))"

section \<open>Files\<close>

text \<open>\<open>path.split_last().expect(..)\<close>.\<close>

definition split_last_or_panic :: "apath \<Rightarrow> (apath \<times> string) res" where
  "split_last_or_panic path =
     (case apath_split_last path of
        Some r \<Rightarrow> Ok r
      | None \<Rightarrow> Panic ''a non-root path has a parent and a name'')"

definition store_blob_into ::
  "nat \<Rightarrow> ('t, akey, bytes) redb \<Rightarrow> apath \<Rightarrow> bytes \<Rightarrow> ('t ctx, unit) op" where
  "store_blob_into fuel R path value_blob =
     bindOp (liftOp (split_last_or_panic path)) (\<lambda>(parent_path, name).
     bindOp (ensure_dir R parent_path) (\<lambda>parent.
     bindOp (readOp (\<lambda>c. ctx_child R c parent name)) (\<lambda>found.
     bindOp
       (case found of
          Some node \<Rightarrow>
            bindOp (readOp (\<lambda>c. ctx_kind R c node)) (\<lambda>kind.
              if kind = Some File then retOp node
              else seqOp (cascade_delete fuel R node)
                     (bindOp generate_key (\<lambda>fresh. seqOp (link_child R parent name fresh) (retOp fresh))))
        | None \<Rightarrow> bindOp generate_key (\<lambda>fresh. seqOp (link_child R parent name fresh) (retOp fresh)))
       (\<lambda>akey. put_entry R akey (file_entry value_blob)))))"

definition store_value_into ::
  "nat \<Rightarrow> ('t, akey, bytes) redb \<Rightarrow> apath \<Rightarrow> vnode \<Rightarrow> ('t ctx, unit) op" where
  "store_value_into fuel R path v = store_blob_into fuel R path (blob_encode v)"

definition resolve_and_read ::
  "('t, akey, bytes) redb \<Rightarrow> 't ctx \<Rightarrow> apath \<Rightarrow> (akey option \<times> bytes option) res" where
  "resolve_and_read R c path =
     andThen (ctx_resolve R c path) (\<lambda>akey.
     andThen (case akey of Some k \<Rightarrow> read_verified R c k | None \<Rightarrow> Ok None) (\<lambda>entry.
     Ok (akey, entry)))"

definition resolve_target ::
  "('t, akey, bytes) redb \<Rightarrow> 't ctx \<Rightarrow> apath \<Rightarrow> (akey \<times> u64) option
     \<Rightarrow> (akey option \<times> bytes option) res" where
  "resolve_target R c path hint =
     (case hint of
        Some (key, epoch) \<Rightarrow>
          if epoch = ctx_structure_epoch c then
            andThen (read_verified R c key) (\<lambda>entry.
              case entry of
                Some e \<Rightarrow> Ok (Some key, Some e)
              | None \<Rightarrow> resolve_and_read R c path)
          else resolve_and_read R c path
      | None \<Rightarrow> resolve_and_read R c path)"

text \<open>The flag returned and the entry as patched; the slice assignment panics out of range.\<close>

definition patch_scalar :: "chrono \<Rightarrow> bytes \<Rightarrow> vpath \<Rightarrow> scalar \<Rightarrow> (bool \<times> bytes) res" where
  "patch_scalar C entry at scalar =
     (let encoded = scalar_encode [] scalar in
      andThen (entry_split entry) (\<lambda>(kind, payload).
        if kind \<noteq> File then Ok (False, entry)
        else andThen (archived_new payload) (\<lambda>(blob, root).
          andThen (leaf_scalar_span C blob root at) (\<lambda>span.
            case span of
              None \<Rightarrow> Ok (False, entry)
            | Some (scalar_off, current_len) \<Rightarrow>
                if length encoded \<noteq> current_len then Ok (False, entry)
                else (let start = (length entry - length payload) + scalar_off in
                      if start + length encoded \<le> length entry
                      then Ok (True, overwrite entry start encoded)
                      else Panic ''slice index out of range'')))))"

definition put_scalar_into ::
  "nat \<Rightarrow> chrono \<Rightarrow> ('t, akey, bytes) redb \<Rightarrow> apath \<Rightarrow> (akey \<times> u64) option \<Rightarrow> vpath \<Rightarrow> scalar
     \<Rightarrow> ('t ctx, unit) op" where
  "put_scalar_into fuel C R path hint at scalar =
     bindOp (readOp (\<lambda>c. resolve_target R c path hint)) (\<lambda>(akey, entry).
       case (akey, entry) of
         (Some akey, Some entry) \<Rightarrow>
           bindOp (liftOp (patch_scalar C entry at scalar)) (\<lambda>(patched, entry).
             if patched then put_file_edit R akey entry
             else
               bindOp (liftOp (entry_split entry)) (\<lambda>(kind, payload).
               bindOp
                 (case kind of
                    File \<Rightarrow> liftOp (blob_decode C payload)
                  | Dir \<Rightarrow> liftOp (Err (CannotAccess
                      (quoted (apath_display path) @ '' is a directory, not a file''))))
                 (\<lambda>v. let v = snd (set_in v at (Leaf scalar))
                      in put_file_edit R akey (file_entry (blob_encode v)))))
       | _ \<Rightarrow> store_value_into fuel R path (snd (set_in value_default at (Leaf scalar))))"

definition rm_into :: "nat \<Rightarrow> ('t, akey, bytes) redb \<Rightarrow> apath \<Rightarrow> ('t ctx, bool) op" where
  "rm_into fuel R path =
     bindOp (liftOp (split_last_or_panic path)) (\<lambda>(parent_path, name).
     bindOp (readOp (\<lambda>c. ctx_resolve R c parent_path)) (\<lambda>parent.
       case parent of
         None \<Rightarrow> retOp False
       | Some parent \<Rightarrow>
           bindOp (readOp (\<lambda>c. ctx_child R c parent name)) (\<lambda>akey.
             case akey of
               None \<Rightarrow> retOp False
             | Some akey \<Rightarrow>
                 seqOp (cascade_delete fuel R akey)
                   (seqOp (unlink_child R parent name) (retOp True)))))"

text \<open>The replacement of an existing destination, common to \<open>mv_into\<close> and \<open>cp_into\<close>.\<close>

definition clear_destination ::
  "nat \<Rightarrow> ('t, akey, bytes) redb \<Rightarrow> akey \<Rightarrow> string \<Rightarrow> ('t ctx, unit) op" where
  "clear_destination fuel R dst_parent dst_name =
     bindOp (readOp (\<lambda>c. ctx_child R c dst_parent dst_name)) (\<lambda>existing.
       case existing of
         Some existing \<Rightarrow> cascade_delete fuel R existing
       | None \<Rightarrow> retOp ())"

definition mv_into :: "nat \<Rightarrow> ('t, akey, bytes) redb \<Rightarrow> apath \<Rightarrow> apath \<Rightarrow> ('t ctx, unit) op" where
  "mv_into fuel R src dst =
     bindOp (liftOp (split_last_or_panic src)) (\<lambda>(src_parent_path, src_name).
     bindOp (liftOp (split_last_or_panic dst)) (\<lambda>(dst_parent_path, dst_name).
     bindOp (readOp (\<lambda>c. ctx_resolve R c src_parent_path)) (\<lambda>src_parent.
     bindOp (liftOp (ok_or src_parent (ValueNotFound src))) (\<lambda>src_parent.
     bindOp (readOp (\<lambda>c. ctx_child R c src_parent src_name)) (\<lambda>akey.
     bindOp (liftOp (ok_or akey (ValueNotFound src))) (\<lambda>akey.
     bindOp (ensure_dir R dst_parent_path) (\<lambda>dst_parent.
     seqOp (clear_destination fuel R dst_parent dst_name)
       (seqOp (link_child R dst_parent dst_name akey)
         (unlink_child R src_parent src_name)))))))))"

definition cp_into :: "nat \<Rightarrow> ('t, akey, bytes) redb \<Rightarrow> apath \<Rightarrow> apath \<Rightarrow> ('t ctx, unit) op" where
  "cp_into fuel R src dst =
     bindOp (liftOp (split_last_or_panic dst)) (\<lambda>(dst_parent_path, dst_name).
     bindOp (readOp (\<lambda>c. ctx_resolve R c src)) (\<lambda>src_akey.
     bindOp (liftOp (ok_or src_akey (ValueNotFound src))) (\<lambda>src_akey.
     bindOp (ensure_dir R dst_parent_path) (\<lambda>dst_parent.
     seqOp (clear_destination fuel R dst_parent dst_name)
       (bindOp (deep_copy fuel R src_akey) (\<lambda>copy.
          link_child R dst_parent dst_name copy))))))"

section \<open>Composition\<close>

lemma writes_seq: "writes R c m x V c1 \<Longrightarrow> writes R c1 n y W c2 \<Longrightarrow> writes R c (seqOp m n) y W c2"
  by (simp add: writes_def)

lemma writes_ok: "writes R c m x V c' \<Longrightarrow> ctx_ok R c' \<and> view R c' = V"
  by (simp add: writes_def)

lemma view_bump [simp]: "view R (c\<lparr>ctx_buf := wb_bump_structure (ctx_buf c)\<rparr>) = view R c"
  by (auto simp: fun_eq_iff view_def wb_bump_structure_def split: option.split)

lemma ctx_ok_bump [simp]: "ctx_ok R (c\<lparr>ctx_buf := wb_bump_structure (ctx_buf c)\<rparr>) \<longleftrightarrow> ctx_ok R c"
  by (simp add: ctx_ok_def wb_ok_def wb_bump_structure_def)

lemma bump_writes: "ctx_ok R c \<Longrightarrow>
  writes R c ctx_bump_structure () (view R c) (c\<lparr>ctx_buf := wb_bump_structure (ctx_buf c)\<rparr>)"
  by (simp add: writes_def ctx_bump_structure_def put_buf_def)

text \<open>Both ways of writing a directory do the same to the view.\<close>

abbreviation (input) dir_bytes :: "children \<Rightarrow> bytes" where
  "dir_bytes m \<equiv> dir_entry (encode_dir m)"

lemma put_dir_writes:
  assumes "ctx_ok R c" "dir_ok m" "\<And>b. view R c k \<noteq> Some (file_entry b)"
  shows "\<exists>c'. writes R c (put_dir R k m) () ((view R c)(k := Some (dir_bytes m))) c' \<and>
    ctx_rng c' = ctx_rng c"
proof (cases "buffering (ctx_buf c)")
  case True
  then show ?thesis
    using write_dir_writes [OF assms(1) True not_buffered_file' [OF assms(1,3)] assms(2)]
    by (auto simp: writes_def put_dir_def ctx_buffering_def wb_active_def buffer_dir_def)
next
  case False
  then have "map_of (dirs (ctx_buf c)) k = None" using assms(1) by (simp add: ctx_ok_def wb_ok_def)
  then show ?thesis
    using put_entry_writes [OF assms(1), of k "dir_bytes m"] False
    by (auto simp: writes_def put_dir_def ctx_buffering_def wb_active_def)
qed

lemma edit_links:
  assumes "ctx_ok R c" "dir_children R c k = Ok m" "dir_ok (f m)" "\<And>b. view R c k \<noteq> Some (file_entry b)"
  shows "\<exists>c'. writes R c (seqOp ctx_bump_structure (\<lambda>c. if ctx_buffering c then edit_dir R k f c
      else bindOp (readOp (\<lambda>c. dir_children R c k)) (\<lambda>m. put_dir R k (f m)) c)) ()
      ((view R c)(k := Some (dir_bytes (f m)))) c' \<and> ctx_rng c' = ctx_rng c"
proof -
  let ?c = "c\<lparr>ctx_buf := wb_bump_structure (ctx_buf c)\<rparr>"
  have ok: "ctx_ok R ?c" using assms(1) by simp
  have ch: "dir_children R ?c k = Ok m" using assms(1,2) by (simp add: dir_children_view ok)
  have "\<exists>c'. writes R ?c (\<lambda>c. if ctx_buffering c then edit_dir R k f c
      else bindOp (readOp (\<lambda>c. dir_children R c k)) (\<lambda>m. put_dir R k (f m)) c) ()
      ((view R c)(k := Some (dir_bytes (f m)))) c' \<and> ctx_rng c' = ctx_rng c"
  proof (cases "buffering (ctx_buf ?c)")
    case True
    then show ?thesis
      using edit_dir_writes [OF ok True ch, of f] assms(3,4)
      by (auto simp: writes_def ctx_buffering_def wb_active_def)
  next
    case False
    then show ?thesis
      using put_dir_writes [OF ok assms(3), of k] assms(4) ch
      by (auto simp: writes_def ctx_buffering_def wb_active_def bindOp_def)
  qed
  then obtain c' where w: "writes R ?c (\<lambda>c. if ctx_buffering c then edit_dir R k f c
      else bindOp (readOp (\<lambda>c. dir_children R c k)) (\<lambda>m. put_dir R k (f m)) c) ()
      ((view R c)(k := Some (dir_bytes (f m)))) c'" "ctx_rng c' = ctx_rng c" by blast
  from writes_seq [OF bump_writes [OF assms(1)] w(1)] w(2) show ?thesis by blast
qed

lemma link_child_writes:
  assumes "ctx_ok R c" "dir_children R c k = Ok m" "dir_ok (bt_insert name child m)"
    "\<And>b. view R c k \<noteq> Some (file_entry b)"
  shows "\<exists>c'. writes R c (link_child R k name child) () ((view R c)(k := Some (dir_bytes (bt_insert name child m)))) c'
    \<and> ctx_rng c' = ctx_rng c"
  using edit_links [OF assms(1,2), of "bt_insert name child"] assms(3,4)
  unfolding link_child_def dir_link_def by blast

lemma unlink_child_writes:
  assumes "ctx_ok R c" "dir_children R c k = Ok m" "dir_ok (bt_remove name m)"
    "\<And>b. view R c k \<noteq> Some (file_entry b)"
  shows "\<exists>c'. writes R c (unlink_child R k name) () ((view R c)(k := Some (dir_bytes (bt_remove name m)))) c'
    \<and> ctx_rng c' = ctx_rng c"
  using edit_links [OF assms(1,2), of "bt_remove name"] assms(3,4)
  unfolding unlink_child_def dir_unlink_def by blast

section \<open>The flush\<close>

lemma forOp_put_entry:
  assumes "ctx_ok R c" "dirs (ctx_buf c) = []" "files (ctx_buf c) = []" "distinct (map fst kes)"
  shows "\<exists>c'. writes R c (forOp kes (\<lambda>ke. put_entry R (fst ke) (g ke))) ()
      (view R c ++ map_of (map (\<lambda>ke. (fst ke, g ke)) kes)) c' \<and>
    dirs (ctx_buf c') = [] \<and> files (ctx_buf c') = [] \<and> ctx_rng c' = ctx_rng c"
  using assms
proof (induction kes arbitrary: c)
  case Nil
  then show ?case by (simp add: writes_def)
next
  case (Cons ke kes)
  obtain c1 where c1: "writes R c (put_entry R (fst ke) (g ke)) () ((view R c)(fst ke := Some (g ke))) c1"
    "ctx_buf c1 = wb_file_forget (fst ke) (ctx_buf c)" "ctx_rng c1 = ctx_rng c"
    using put_entry_writes [OF Cons.prems(1), of "fst ke" "g ke"] Cons.prems(2) by auto
  have emp: "dirs (ctx_buf c1) = []" "files (ctx_buf c1) = []" and dist: "distinct (map fst kes)"
    using c1(2) Cons.prems(2-4) by (auto simp: wb_file_forget_def)
  obtain c2 where c2: "writes R c1 (forOp kes (\<lambda>ke. put_entry R (fst ke) (g ke))) ()
      (view R c1 ++ map_of (map (\<lambda>ke. (fst ke, g ke)) kes)) c2"
    "dirs (ctx_buf c2) = []" "files (ctx_buf c2) = []" "ctx_rng c2 = ctx_rng c1"
    using Cons.IH [OF _ emp dist] writes_ok [OF c1(1)] by blast
  have "fst ke \<notin> fst ` set kes" using Cons.prems(4) by auto
  then have "map_of (map (\<lambda>ke. (fst ke, g ke)) kes) (fst ke) = None"
    by (induction kes) auto
  then have eq: "view R c1 ++ map_of (map (\<lambda>ke. (fst ke, g ke)) kes)
      = view R c ++ map_of (map (\<lambda>ke. (fst ke, g ke)) (ke # kes))"
    using writes_ok [OF c1(1)] by (auto simp: fun_eq_iff map_add_def split: option.split)
  have "ctx_rng c2 = ctx_rng c" using c2(4) c1(3) by simp
  then show ?case using writes_seq [OF c1(1) c2(1)] c2(2,3) unfolding eq forOp.simps by blast
qed

lemma map_of_map_snd: "map_of (map (\<lambda>ke. (fst ke, h (snd ke))) al) k = map_option h (map_of al k)"
  by (induction al) auto

lemma flush_into_writes:
  assumes "ctx_ok R c" "ds = dirs (ctx_buf c)" "fs = files (ctx_buf c)" "dirs wb = []" "files wb = []"
  shows "\<exists>c'. writes R (c\<lparr>ctx_buf := wb\<rparr>) (flush_buffered R ds fs) () (view R c) c' \<and>
    contents R (ctx_data c') = view R c \<and> ctx_rng c' = ctx_rng c"
proof -
  let ?c = "c\<lparr>ctx_buf := wb\<rparr>"
  note take = assms(2-5)
  have ok: "ctx_ok R ?c" and dd: "distinct (map fst ds)" and df: "distinct (map fst fs)"
    and disj: "fst ` set ds \<inter> fst ` set fs = {}"
    using assms(1) take by (auto simp: ctx_ok_def wb_ok_def)
  have v0: "view R ?c = contents R (ctx_data c)" using take by (auto simp: fun_eq_iff view_def)
  obtain c1 where c1: "writes R ?c (forOp ds (\<lambda>ke. put_entry R (fst ke) (dir_bytes (snd ke)))) ()
      (view R ?c ++ map_of (map (\<lambda>ke. (fst ke, dir_bytes (snd ke))) ds)) c1"
    "dirs (ctx_buf c1) = []" "files (ctx_buf c1) = []" "ctx_rng c1 = ctx_rng c"
    using forOp_put_entry [OF ok _ _ dd, of "\<lambda>ke. dir_bytes (snd ke)"] take by auto
  obtain c2 where c2: "writes R c1 (forOp fs (\<lambda>ke. put_entry R (fst ke) (snd ke))) ()
      (view R c1 ++ map_of (map (\<lambda>ke. (fst ke, snd ke)) fs)) c2"
    "dirs (ctx_buf c2) = []" "files (ctx_buf c2) = []" "ctx_rng c2 = ctx_rng c1"
    using forOp_put_entry [OF _ c1(2,3) df, of R snd] writes_ok [OF c1(1)] by auto
  have "view R c1 ++ map_of (map (\<lambda>ke. (fst ke, snd ke)) fs) = view R c"
  proof (rule ext)
    fix k
    have "map_of fs k = None" if "map_of ds k = Some m" for m
      using that disj by (force simp: map_of_eq_None_iff dest: map_of_SomeD)
    then show "(view R c1 ++ map_of (map (\<lambda>ke. (fst ke, snd ke)) fs)) k = view R c k"
      using writes_ok [OF c1(1)] take(1,2)
      by (auto simp: v0 map_add_def view_def map_of_map_snd [where h = "\<lambda>m. dir_bytes m"] split: option.split)
  qed
  moreover have "contents R (ctx_data c2) = view R c2" using c2(2,3) by (auto simp: fun_eq_iff view_def)
  moreover have "flush_buffered R ds fs = seqOp (forOp ds (\<lambda>ke. put_entry R (fst ke) (dir_bytes (snd ke))))
      (forOp fs (\<lambda>ke. put_entry R (fst ke) (snd ke)))"
    by (simp add: flush_buffered_def case_prod_unfold)
  ultimately show ?thesis using writes_seq [OF c1(1) c2(1)] writes_ok [OF c2(1)] c1(4) c2(4) by auto
qed

lemma flush_writes:
  assumes "ctx_ok R c" "wb_take (ctx_buf c) = ((ds, fs), wb)"
  shows "\<exists>c'. writes R (c\<lparr>ctx_buf := wb\<rparr>) (flush_buffered R ds fs) () (view R c) c' \<and>
    contents R (ctx_data c') = view R c"
  using flush_into_writes [OF assms(1), of ds fs wb] assms(2) by (auto simp: wb_take_def)

end
