(* ===== verification/Ordered.thy ===== *)
theory Ordered
  imports Scalars
begin

text \<open>
  The order-preserving encoding of scalars for index keys (\<open>index/ordered.rs\<close>). The engine compares
  index keys bytewise; an index column may be ascending or descending, and columns are concatenated.
  All this works because two encodings of different values always differ at some byte, neither being
  a prefix of the other, and the first differing byte decides as the values do. That contract is the locale \<open>order_code\<close>; it is
  closed under complementing the bytes (a descending column) and under concatenation (a composite
  key), and it is interpreted for the scalars' encoding.
\<close>

unbundle bit_operations_syntax

section \<open>The encoding\<close>

definition push_signed :: "bytes \<Rightarrow> bytes \<Rightarrow> bytes" where
  "push_signed out be = (case be of b # r \<Rightarrow> (out @ [b XOR 0x80]) @ r | [] \<Rightarrow> out)"

definition signed_be :: "bytes \<Rightarrow> u8 \<Rightarrow> bytes \<Rightarrow> bytes" where
  "signed_be out tag be = push_signed (out @ [tag]) be"

definition unsigned_be :: "bytes \<Rightarrow> u8 \<Rightarrow> bytes \<Rightarrow> bytes" where
  "unsigned_be out tag be = (out @ [tag]) @ be"

definition float64 :: "u64 \<Rightarrow> u64" where
  "float64 bits = (if bits AND push_bit 63 1 \<noteq> 0 then NOT bits else bits OR push_bit 63 1)"

definition float32 :: "u32 \<Rightarrow> u32" where
  "float32 bits = (if bits AND push_bit 31 1 \<noteq> 0 then NOT bits else bits OR push_bit 31 1)"

fun ordered_bytes_loop :: "bytes \<Rightarrow> bytes \<Rightarrow> bytes" where
  "ordered_bytes_loop out [] = out"
| "ordered_bytes_loop out (byte # bytes) =
     ordered_bytes_loop (if byte = 0x00 then (out @ [byte]) @ [0xFF] else out @ [byte]) bytes"

definition ordered_bytes :: "bytes \<Rightarrow> bytes \<Rightarrow> bytes" where
  "ordered_bytes out bytes = (ordered_bytes_loop out bytes @ [0x00]) @ [0x01]"

fun encode_ascending :: "bytes \<Rightarrow> scalar \<Rightarrow> bytes" where
  "encode_ascending out Null = out @ [0]"
| "encode_ascending out (Bool v) = (out @ [1]) @ [of_bool v]"
| "encode_ascending out (I8 v) = signed_be out 2 (be_bytes v)"
| "encode_ascending out (I16 v) = signed_be out 3 (be_bytes v)"
| "encode_ascending out (I32 v) = signed_be out 4 (be_bytes v)"
| "encode_ascending out (I64 v) = signed_be out 5 (be_bytes v)"
| "encode_ascending out (I128 v) = signed_be out 6 (be_bytes v)"
| "encode_ascending out (U8 v) = (out @ [7]) @ [v]"
| "encode_ascending out (U16 v) = unsigned_be out 8 (be_bytes v)"
| "encode_ascending out (U32 v) = unsigned_be out 9 (be_bytes v)"
| "encode_ascending out (U64 v) = unsigned_be out 10 (be_bytes v)"
| "encode_ascending out (U128 v) = unsigned_be out 11 (be_bytes v)"
| "encode_ascending out (F32 v) = unsigned_be out 12 (be_bytes (float32 v))"
| "encode_ascending out (F64 v) = unsigned_be out 13 (be_bytes (float64 v))"
| "encode_ascending out (Str v) = ordered_bytes (out @ [14]) (as_bytes v)"
| "encode_ascending out (Bytes v) = ordered_bytes (out @ [15]) v"
| "encode_ascending out (Uuid v) = (out @ [16]) @ be_bytes v"
| "encode_ascending out (Date v) = signed_be out 17 (be_bytes (num_days_from_ce v))"
| "encode_ascending out (Time v) =
     ((out @ [18]) @ be_bytes (num_seconds_from_midnight v)) @ be_bytes (nanosecond v)"
| "encode_ascending out (DateTime d t) =
     (push_signed (out @ [19]) (be_bytes (num_days_from_ce d))
        @ be_bytes (num_seconds_from_midnight t)) @ be_bytes (nanosecond t)"
| "encode_ascending out (Duration v) =
     signed_be out 20 (be_bytes (scast (num_seconds v) * 1000000000 + scast (subsec_nanos v) :: i128))"

definition encode_scalar :: "bytes \<Rightarrow> scalar \<Rightarrow> bool \<Rightarrow> bytes" where
  "encode_scalar out scalar descending =
     (let start = length out;
          out = encode_ascending out scalar
      in if descending then take start out @ map (\<lambda>byte. NOT byte) (drop start out) else out)"

section \<open>Keys that differ at a byte\<close>

definition precedes :: "bytes \<Rightarrow> bytes \<Rightarrow> bool" where
  "precedes xs ys \<longleftrightarrow> (\<exists>p x y u v. xs = p @ x # u \<and> ys = p @ y # v \<and> x < y)"

lemma precedesI: "x < y \<Longrightarrow> precedes (p @ x # u) (p @ y # v)"
  by (auto simp: precedes_def)

lemma precedes_append: "precedes xs ys \<Longrightarrow> precedes (xs @ u) (ys @ v)"
  unfolding precedes_def by (metis append.assoc append_Cons)

lemma precedes_prefix: "precedes (p @ xs) (p @ ys) \<longleftrightarrow> precedes xs ys"
proof
  show "precedes xs ys \<Longrightarrow> precedes (p @ xs) (p @ ys)"
    unfolding precedes_def by (metis append.assoc)
  show "precedes (p @ xs) (p @ ys) \<Longrightarrow> precedes xs ys"
  proof (induction p)
    case (Cons b p)
    then obtain q x y u v where e: "b # p @ xs = q @ x # u" "b # p @ ys = q @ y # v" "x < y"
      by (auto simp: precedes_def)
    then have "precedes (p @ xs) (p @ ys)" by (cases q) (auto simp: precedes_def)
    then show ?case by (rule Cons.IH)
  qed simp
qed

lemma precedes_Cons [simp]: "precedes (b # xs) (b # ys) \<longleftrightarrow> precedes xs ys"
  using precedes_prefix [of "[b]"] by simp

lemma precedes_head: "x < y \<Longrightarrow> precedes (x # u) (y # v)"
  using precedesI [of x y "[]"] by simp

lemma precedes_less: "precedes xs ys \<Longrightarrow> xs < ys"
proof (unfold precedes_def, elim exE conjE)
  fix p x y u v assume "xs = p @ x # u" "ys = p @ y # v" "x < (y :: u8)"
  then show "xs < ys" by (induction p arbitrary: xs ys) auto
qed

lemma precedes_not_prefix: "precedes xs ys \<Longrightarrow> \<not> (\<exists>z. ys = xs @ z) \<and> \<not> (\<exists>z. xs = ys @ z)"
  by (auto simp: precedes_def)

lemma less_precedes: "length xs = length ys \<Longrightarrow> xs < ys \<Longrightarrow> precedes xs ys"
  by (induction xs ys rule: list_induct2) (auto intro: precedes_head)

lemma not_less_not: "NOT y < NOT x \<longleftrightarrow> x < (y :: 'a::len word)"
proof -
  have "uint (NOT z) = mask LENGTH('a) - uint z" for z :: "'a word"
    by (simp add: unsigned_not_eq take_bit_not_eq_mask_diff take_bit_int_eq_self)
  then show ?thesis by (auto simp: word_less_def)
qed

lemma precedes_complement: "precedes xs ys \<Longrightarrow> precedes (map (\<lambda>b. NOT b) ys) (map (\<lambda>b. NOT b) xs)"
proof -
  assume "precedes xs ys"
  then obtain p x y u v where "xs = p @ x # u" "ys = p @ y # v" "x < y" by (auto simp: precedes_def)
  then show ?thesis using precedesI [of "NOT y" "NOT x"] by (simp add: not_less_not)
qed

section \<open>Order-preserving codes\<close>

text \<open>\<open>less\<close> is the order of the values, possibly of equivalence classes of them.\<close>

locale order_code =
  fixes enc :: "'a \<Rightarrow> bytes" and less :: "'a \<Rightarrow> 'a \<Rightarrow> bool"
  assumes code_less: "less a b \<Longrightarrow> precedes (enc a) (enc b)"
    and code_same: "\<not> less a b \<Longrightarrow> \<not> less b a \<Longrightarrow> enc a = enc b"
begin

lemma order_iff: "enc a < enc b \<longleftrightarrow> less a b"
proof
  assume lt: "enc a < enc b"
  then have "\<not> less b a" using precedes_less [OF code_less, of b a] by auto
  then show "less a b" using code_same [of a b] lt by (metis less_irrefl)
qed (rule precedes_less [OF code_less])

lemma same_iff: "enc a = enc b \<longleftrightarrow> \<not> less a b \<and> \<not> less b a"
  using code_same order_iff by (metis less_irrefl)

lemma prefix_free: "enc a @ u = enc b @ v \<Longrightarrow> enc a = enc b"
proof (rule ccontr)
  assume eq: "enc a @ u = enc b @ v" and ne: "enc a \<noteq> enc b"
  then consider "less a b" | "less b a" using code_same by blast
  then show False
  proof cases
    case 1
    then have "precedes (enc a @ u) (enc b @ v)" using code_less precedes_append by blast
    then show False using eq precedes_less by auto
  next
    case 2
    then have "precedes (enc b @ v) (enc a @ u)" using code_less precedes_append by blast
    then show False using eq precedes_less by auto
  qed
qed

text \<open>A descending column: the complemented code has the converse order.\<close>

lemma complement_code: "order_code (\<lambda>a. map (\<lambda>b. NOT b) (enc a)) (\<lambda>a b. less b a)"
  by unfold_locales (auto intro: precedes_complement code_less dest: code_same)

end

text \<open>Two codes one after the other: the lexicographic order of the pair.\<close>

lemma pair_code:
  assumes "order_code f lf" "order_code g lg"
  shows "order_code (\<lambda>p. f (fst p) @ g (snd p))
    (\<lambda>p q. lf (fst p) (fst q) \<or> \<not> lf (fst q) (fst p) \<and> lg (snd p) (snd q))"
proof
  fix p q assume "lf (fst p) (fst q) \<or> \<not> lf (fst q) (fst p) \<and> lg (snd p) (snd q)"
  then consider "lf (fst p) (fst q)" | "\<not> lf (fst p) (fst q)" "\<not> lf (fst q) (fst p)" "lg (snd p) (snd q)" by blast
  then show "precedes (f (fst p) @ g (snd p)) (f (fst q) @ g (snd q))"
  proof cases
    case 1
    then show ?thesis by (intro precedes_append order_code.code_less [OF assms(1)])
  next
    case 2
    then have "f (fst p) = f (fst q)" by (intro order_code.code_same [OF assms(1)])
    then show ?thesis using order_code.code_less [OF assms(2) 2(3)] by (simp add: precedes_prefix)
  qed
next
  fix p q assume a: "\<not> (lf (fst p) (fst q) \<or> \<not> lf (fst q) (fst p) \<and> lg (snd p) (snd q))"
    "\<not> (lf (fst q) (fst p) \<or> \<not> lf (fst p) (fst q) \<and> lg (snd q) (snd p))"
  then have "f (fst p) = f (fst q)" "g (snd p) = g (snd q)"
    using order_code.code_same [OF assms(1), of "fst p" "fst q"] order_code.code_same [OF assms(2), of "snd p" "snd q"]
    by blast+
  then show "f (fst p) @ g (snd p) = f (fst q) @ g (snd q)" by simp
qed

lemma code_cong: "order_code f less \<Longrightarrow> (\<And>a. f a = g a) \<Longrightarrow> order_code g less"
proof -
  assume f: "order_code f less" and "\<And>a. f a = g a"
  then have "f = g" by blast
  then show ?thesis using f by simp
qed

lemma code_image: "order_code f less \<Longrightarrow> order_code (\<lambda>a. f (h a)) (\<lambda>a b. less (h a) (h b))"
  unfolding order_code_def by blast

section \<open>The codes of the scalar types\<close>

lemma be_code: "8 dvd LENGTH('a) \<Longrightarrow> order_code (be_bytes :: 'a::len word \<Rightarrow> bytes) (<)"
proof
  fix a b :: "'a word" assume d: "8 dvd LENGTH('a)"
  show "a < b \<Longrightarrow> precedes (be_bytes a) (be_bytes b)" using d by (intro less_precedes) (simp_all add: be_bytes_less)
  show "\<not> a < b \<Longrightarrow> \<not> b < a \<Longrightarrow> be_bytes a = be_bytes b" using linorder_neqE [of a b] by blast
qed

text \<open>The top bit of a word, and what changing it does to the number it stands for.\<close>

abbreviation top_bit :: "'a::len word" where
  "top_bit \<equiv> 2 ^ (LENGTH('a) - 1)"

lemma top_bit_set: "w AND top_bit \<noteq> 0 \<longleftrightarrow> sint (w :: 'a::len word) < 0"
  by (simp add: and_exp_eq_0_iff_not_bit bit_last_iff)

lemma xor_top: "w XOR top_bit = w + (top_bit :: 'a::len word)"
proof (cases "bit w (LENGTH('a) - 1)")
  case True
  have "NOT w AND top_bit = 0" using True by (simp add: and_exp_eq_0_iff_not_bit bit_not_iff)
  then have "w - top_bit = w XOR top_bit" by (simp add: disjunctive_diff_eq_and_not disjunctive_diff_eq_xor)
  moreover have "top_bit + top_bit = (0 :: 'a word)"
  proof -
    have "top_bit + top_bit = (2 ^ Suc (LENGTH('a) - 1) :: 'a word)" unfolding power_Suc by simp
    also have "Suc (LENGTH('a) - 1) = LENGTH('a)" by simp
    finally show ?thesis by (simp only: exp_eq_zero_iff [THEN iffD2] order_refl)
  qed
  then have "w - top_bit = w + top_bit" by (simp add: diff_eq_eq add.assoc)
  ultimately show ?thesis by simp
next
  case False
  then have "w AND top_bit = 0" by (simp add: and_exp_eq_0_iff_not_bit)
  then show ?thesis by (simp add: disjunctive_add_eq_xor)
qed

lemma or_top: "0 \<le> sint w \<Longrightarrow> w OR top_bit = w + (top_bit :: 'a::len word)"
  using top_bit_set [of w] by (simp add: disjunctive_add_eq_or)

lemma uint_plus_top: "uint (w + top_bit) = sint w + 2 ^ (LENGTH('a) - 1)" for w :: "'a::len word"
proof -
  have "w + top_bit = word_of_int (sint w + 2 ^ (LENGTH('a) - 1))" by simp
  then have "uint (w + top_bit) = take_bit LENGTH('a) (sint w + 2 ^ (LENGTH('a) - 1))"
    by (simp only: uint_word_of_int take_bit_eq_mod)
  also have "\<dots> = sint w + 2 ^ (LENGTH('a) - 1)"
  proof (rule take_bit_int_eq_self)
    show "0 \<le> sint w + 2 ^ (LENGTH('a) - 1)" using sint_ge [of w] by simp
    have "(2 :: int) ^ LENGTH('a) = 2 ^ (LENGTH('a) - 1) + 2 ^ (LENGTH('a) - 1)"
      by (metis One_nat_def Suc_pred len_gt_0 mult_2 power_Suc)
    then show "sint w + 2 ^ (LENGTH('a) - 1) < 2 ^ LENGTH('a)" using sint_lt [of w] by simp
  qed
  finally show ?thesis .
qed

lemma plus_top_less: "v + top_bit < w + top_bit \<longleftrightarrow> sint v < sint w" for v w :: "'a::len word"
  unfolding word_less_def uint_plus_top by simp

text \<open>A float by its bits: the numeric order of floats, with the sign read as in sign-magnitude numbers.\<close>

definition float_key :: "'a::len word \<Rightarrow> int" where
  "float_key w = (if sint w < 0 then - 1 - (sint w + 2 ^ (LENGTH('a) - 1)) else sint w)"

definition float_bits :: "'a::len word \<Rightarrow> 'a word" where
  "float_bits w = (if w AND top_bit \<noteq> 0 then NOT w else w OR top_bit)"

lemma float_bits_eqs: "float64 = float_bits" "float32 = float_bits"
  by (simp_all add: fun_eq_iff float64_def float32_def float_bits_def push_bit_eq_mult)

lemma uint_float_bits: "uint (float_bits w) = float_key w + 2 ^ (LENGTH('a) - 1)" for w :: "'a::len word"
proof (cases "sint w < 0")
  case True
  have two: "(2 :: int) ^ LENGTH('a) = 2 ^ (LENGTH('a) - 1) + 2 ^ (LENGTH('a) - 1)"
    by (metis One_nat_def Suc_pred len_gt_0 mult_2 power_Suc)
  have "uint w = take_bit LENGTH('a) (sint w)"
    using uint_word_of_int_eq [of "sint w", where 'a = 'a] by simp
  also have "\<dots> = take_bit LENGTH('a) (sint w + 2 ^ LENGTH('a))" by (simp add: take_bit_eq_mod)
  also have "\<dots> = sint w + 2 ^ LENGTH('a)"
    using True sint_ge [of w] two by (intro take_bit_int_eq_self) auto
  finally have "uint w = sint w + 2 ^ LENGTH('a)" .
  moreover have "uint (NOT w) = 2 ^ LENGTH('a) - 1 - uint w"
    by (simp add: unsigned_not_eq take_bit_not_eq_mask_diff take_bit_int_eq_self mask_eq_exp_minus_1)
  moreover have "float_bits w = NOT w" using True unfolding float_bits_def top_bit_set by simp
  ultimately show ?thesis using True two by (simp add: float_key_def)
next
  case False
  then have "float_bits w = w + top_bit" using or_top [of w] unfolding float_bits_def top_bit_set by simp
  then show ?thesis using False uint_plus_top [of w] by (simp add: float_key_def)
qed

lemma float_bits_less: "float_bits v < float_bits w \<longleftrightarrow> float_key v < float_key w"
  by (simp add: word_less_def uint_float_bits)

text \<open>Flipping the top bit of the first byte of a big-endian number flips the top bit of the number.\<close>

lemma push_signed_append: "push_signed out be = out @ push_signed [] be"
  by (simp add: push_signed_def split: list.split)

lemma push_signed_be:
  fixes w :: "'a::len word"
  assumes "8 dvd LENGTH('a)"
  shows "push_signed [] (be_bytes w) = be_bytes (w + top_bit)"
proof -
  obtain k where k: "LENGTH('a) = 8 * Suc k" using assms by (metis dvdE len_not_eq_0 mult_0_right not0_implies_Suc)
  then obtain b r where b: "be_bytes w = b # r" "length r = k"
    using length_be_bytes [of w] by (cases "be_bytes w") auto
  have step: "of_be (x # r) = unat x * 256 ^ k + of_be r" for x using of_be_append [of "[x]" r] b(2) by (simp add: of_be_def)
  have "b XOR (0x80 :: u8) = b + top_bit" using xor_top [of b] by simp
  then have head: "unat (b XOR 0x80) = (unat b + 128) mod 256" by (simp add: unat_word_ariths)
  have M: "(2 :: nat) ^ LENGTH('a) = 256 ^ k * 256" "(2 :: nat) ^ (LENGTH('a) - 1) = 128 * 256 ^ k"
    by (simp_all add: k power_mult power_add)
  have "unat (top_bit :: 'a word) = 128 * 256 ^ k"
  proof -
    have "unat (word_of_nat (128 * 256 ^ k) :: 'a word) = 128 * 256 ^ k"
      using M(1) by (simp add: unat_of_nat take_bit_nat_eq_self del: of_nat_mult)
    moreover have "(word_of_nat (128 * 256 ^ k) :: 'a word) = top_bit"
      unfolding M(2) [symmetric] by (simp only: of_nat_power of_nat_numeral)
    ultimately show ?thesis by simp
  qed
  then have "unat (w + top_bit) = ((unat b + 128) * 256 ^ k + of_be r) mod (256 ^ k * 256)"
  proof -
    have "unat (w + top_bit) = (unat w + unat (top_bit :: 'a word)) mod 2 ^ LENGTH('a)"
      by (rule unat_word_ariths(1))
    moreover have "unat w = unat b * 256 ^ k + of_be r" using of_be_be_bytes [OF assms, of w] b step [of b] by simp
    ultimately show ?thesis using \<open>unat (top_bit :: 'a word) = 128 * 256 ^ k\<close> M(1)
      by (simp only: distrib_right ac_simps)
  qed
  also have "\<dots> = ((unat b + 128) mod 256) * 256 ^ k + of_be r"
    using of_be_less [of r] b(2) by (simp add: mod_mult2_eq)
  finally have "of_be ((b XOR 0x80) # r) = of_be (be_bytes (w + top_bit))"
    unfolding of_be_be_bytes [OF assms] by (simp add: step head)
  moreover have "length ((b XOR 0x80) # r) = length (be_bytes (w + top_bit))" using b k by simp
  ultimately have "(b XOR 0x80) # r = be_bytes (w + top_bit)" by (metis to_be_of_be)
  then show ?thesis by (simp add: push_signed_def b)
qed

lemma signed_code:
  fixes w :: "'a::len word"
  assumes "8 dvd LENGTH('a)"
  shows "order_code (\<lambda>w :: 'a word. push_signed [] (be_bytes w)) (\<lambda>v w. sint v < sint w)"
  using code_image [OF be_code [OF assms], of "\<lambda>w. w + top_bit"]
  unfolding push_signed_be [OF assms] plus_top_less .

lemma float_code: "8 dvd LENGTH('a) \<Longrightarrow>
  order_code (\<lambda>w :: 'a::len word. be_bytes (float_bits w)) (\<lambda>v w. float_key v < float_key w)"
  using code_image [OF be_code, of float_bits] unfolding float_bits_less .

text \<open>Byte strings: escaped and terminated.\<close>

fun escaped :: "bytes \<Rightarrow> bytes" where
  "escaped [] = [0x00, 0x01]"
| "escaped (b # bs) = (if b = 0x00 then [0x00, 0xFF] else [b]) @ escaped bs"

lemma ordered_bytes_eq: "ordered_bytes out bs = out @ escaped bs"
proof -
  have "ordered_bytes_loop out bs @ [0x00, 0x01] = out @ escaped bs"
    by (induction bs arbitrary: out) simp_all
  then show ?thesis by (simp add: ordered_bytes_def)
qed

lemma escaped_code: "order_code escaped (<)"
proof
  show "precedes (escaped xs) (escaped ys)" if "xs < ys" for xs ys
    using that
  proof (induction xs arbitrary: ys)
    case Nil
    then obtain y ys' where "ys = y # ys'" by (cases ys) auto
    then show ?case by (cases "y = 0") (auto intro!: precedes_head simp: word_neq_0_conv)
  next
    case (Cons x xs)
    then obtain y ys' where y: "ys = y # ys'" by (cases ys) auto
    show ?case
    proof (cases "x = y")
      case True
      then show ?thesis using Cons y by (simp add: precedes_prefix [of "[_, _]", simplified])
    next
      case False
      then have "x < y" using Cons.prems y by simp
      then show ?thesis using y by (auto intro!: precedes_head)
    qed
  qed
  show "escaped xs = escaped ys" if "\<not> xs < ys" "\<not> ys < xs" for xs ys
    using that by (simp add: not_less_iff_gr_or_eq)
qed

section \<open>The order of the scalars\<close>

text \<open>What a scalar is sorted by: its type first, then its value, component by component. Floats by
  sign and magnitude, strings and byte strings lexicographically by their bytes, dates and times by
  their parts, durations by their length in nanoseconds.\<close>

fun scalar_key :: "scalar \<Rightarrow> int list" where
  "scalar_key Null = [0]"
| "scalar_key (Bool v) = [1, of_bool v]"
| "scalar_key (I8 v) = [2, sint v]"
| "scalar_key (I16 v) = [3, sint v]"
| "scalar_key (I32 v) = [4, sint v]"
| "scalar_key (I64 v) = [5, sint v]"
| "scalar_key (I128 v) = [6, sint v]"
| "scalar_key (U8 v) = [7, uint v]"
| "scalar_key (U16 v) = [8, uint v]"
| "scalar_key (U32 v) = [9, uint v]"
| "scalar_key (U64 v) = [10, uint v]"
| "scalar_key (U128 v) = [11, uint v]"
| "scalar_key (F32 v) = [12, float_key v]"
| "scalar_key (F64 v) = [13, float_key v]"
| "scalar_key (Str v) = 14 # map uint (as_bytes v)"
| "scalar_key (Bytes v) = 15 # map uint v"
| "scalar_key (Uuid v) = [16, uint v]"
| "scalar_key (Date v) = [17, sint (num_days_from_ce v)]"
| "scalar_key (Time v) = [18, uint (num_seconds_from_midnight v), uint (nanosecond v)]"
| "scalar_key (DateTime d t) =
     [19, sint (num_days_from_ce d), uint (num_seconds_from_midnight t), uint (nanosecond t)]"
| "scalar_key (Duration v) = [20, sint (num_seconds v) * 1000000000 + sint (subsec_nanos v)]"

definition scalar_less :: "scalar \<Rightarrow> scalar \<Rightarrow> bool" where
  "scalar_less a b \<longleftrightarrow> scalar_key a < scalar_key b"

text \<open>Every encoding appends its bytes, the first of which is the type's tag.\<close>

lemma encode_ascending_append: "encode_ascending out s = out @ encode_ascending [] s"
proof -
  have "signed_be out t be = out @ signed_be [] t be" "unsigned_be out t be = out @ unsigned_be [] t be"
    "push_signed (out @ [t]) be = out @ push_signed [t] be" for t be
    by (simp_all add: signed_be_def unsigned_be_def push_signed_append [of "out @ [t]"] push_signed_append [of "[t]"])
  then show ?thesis by (cases s) (simp_all add: ordered_bytes_eq)
qed

lemma encode_ascending_tag: "\<exists>body. encode_ascending [] s = word_of_int (hd (scalar_key s)) # body"
  by (cases s) (simp_all add: signed_be_def unsigned_be_def push_signed_append [of "[_]"] ordered_bytes_eq)

lemma scalar_key_hd: "0 \<le> hd (scalar_key s) \<and> hd (scalar_key s) \<le> 20"
  by (cases s) simp_all

lemma map_uint_less: "map uint xs < map uint ys \<longleftrightarrow> xs < (ys :: bytes)"
proof (induction xs ys rule: list_induct2')
  case (4 x xs y ys)
  have "uint x < uint y \<longleftrightarrow> x < y" by (simp add: word_less_def)
  then show ?case using 4 by (simp only: list.map Cons_less_Cons word_uint_eq_iff [symmetric])
qed simp_all

text \<open>The nanoseconds of a duration cannot overflow 128 bits.\<close>

lemma sint_nanos: "sint (scast (s :: i64) * 1000000000 + scast (n :: i32) :: i128) = sint s * 1000000000 + sint n"
proof -
  let ?v = "sint s * 1000000000 + sint n"
  have "(scast s * 1000000000 + scast n :: i128) = word_of_int ?v"
    unfolding scast_eq of_int_add of_int_mult of_int_numeral ..
  then have "sint (scast s * 1000000000 + scast n :: i128) = signed_take_bit 127 ?v"
    by (simp only: sint_sbintrunc') simp
  also have "\<dots> = ?v"
    using sint_ge [of s] sint_lt [of s] sint_ge [of n] sint_lt [of n]
    by (intro signed_take_bit_int_eq_self) simp_all
  finally show ?thesis .
qed

section \<open>The scalars' code\<close>

text \<open>The bytes after the tag, and the numbers after the type, in step with each other.\<close>

lemma push_signed_tag [simp]: "push_signed [t] be = t # push_signed [] be"
  using push_signed_append [of "[t]" be] by simp

lemma be_precedes: "8 dvd LENGTH('a) \<Longrightarrow> uint v < uint w \<Longrightarrow> precedes (be_bytes v) (be_bytes w)" for v w :: "'a::len word"
  by (rule order_code.code_less [OF be_code]) (simp_all add: word_less_def)

lemma signed_precedes: "8 dvd LENGTH('a) \<Longrightarrow> sint v < sint w \<Longrightarrow>
  precedes (push_signed [] (be_bytes v)) (push_signed [] (be_bytes w))" for v w :: "'a::len word"
  by (rule order_code.code_less [OF signed_code])

lemma float_precedes: "8 dvd LENGTH('a) \<Longrightarrow> float_key v < float_key w \<Longrightarrow>
  precedes (be_bytes (float_bits v)) (be_bytes (float_bits w))" for v w :: "'a::len word"
  by (rule order_code.code_less [OF float_code])

lemma escaped_precedes: "map uint xs < map uint ys \<Longrightarrow> precedes (escaped xs) (escaped ys)"
  by (rule order_code.code_less [OF escaped_code]) (simp only: map_uint_less)

lemmas body_precedes = be_precedes signed_precedes float_precedes escaped_precedes

lemma signed_same: "8 dvd LENGTH('a) \<Longrightarrow> sint v = sint w \<Longrightarrow>
  push_signed [] (be_bytes v) = push_signed [] (be_bytes w)" for v w :: "'a::len word"
  by (rule order_code.code_same [OF signed_code]) simp_all

lemma float_same: "8 dvd LENGTH('a) \<Longrightarrow> float_key v = float_key w \<Longrightarrow>
  be_bytes (float_bits v) = be_bytes (float_bits w)" for v w :: "'a::len word"
  by (rule order_code.code_same [OF float_code]) simp_all

lemmas body_same = signed_same float_same

lemma map_uint_inj: "map uint xs = map uint ys \<Longrightarrow> xs = (ys :: bytes)"
  by (metis map_uint_less less_irrefl not_less_iff_gr_or_eq)

lemmas encode_unfold = signed_be_def unsigned_be_def ordered_bytes_eq float_bits_eqs

lemma same_type_precedes:
  assumes "scalar_key a < scalar_key b" "hd (scalar_key a) = hd (scalar_key b)"
  shows "precedes (encode_ascending [] a) (encode_ascending [] b)"
proof -
  have two: "precedes (f @ u) (g @ v)" if "precedes f g \<or> f = g \<and> precedes u v" for f g u v
    using that precedes_append precedes_prefix by blast
  have bool: "precedes [of_bool v] [of_bool w]" if "(of_bool v :: int) < of_bool w" for v w
    using that by (cases v; cases w) (simp_all add: precedes_head)
  have byte: "precedes [v] [w]" if "uint v < uint w" for v w :: u8
    using that by (simp add: precedes_head word_less_def)
  show ?thesis
    using assms
    by (cases a; cases b)
      (auto simp: encode_unfold bool byte sint_nanos word_uint_eq_iff
        intro!: body_precedes two dest: signed_same [rotated] map_uint_inj)
qed

lemma same_key_same:
  assumes "scalar_key a = scalar_key b"
  shows "encode_ascending [] a = encode_ascending [] b"
proof -
  show ?thesis
    using assms
    by (cases a; cases b)
      (auto simp: encode_unfold word_uint_eq_iff uint_float_bits sint_nanos intro!: body_same
        dest: map_uint_inj signed_same [where 'a = 32, rotated] split: if_splits)
qed

interpretation scalar_order: order_code "encode_ascending []" scalar_less
proof
  fix a b
  show "precedes (encode_ascending [] a) (encode_ascending [] b)" if less: "scalar_less a b"
  proof (cases "hd (scalar_key a) = hd (scalar_key b)")
    case True
    then show ?thesis using same_type_precedes less by (simp add: scalar_less_def)
  next
    case False
    have "scalar_key a \<noteq> []" "scalar_key b \<noteq> []" by (cases a; simp)+ (cases b; simp)+
    then have "hd (scalar_key a) < hd (scalar_key b)"
      using less False by (cases "scalar_key a"; cases "scalar_key b") (auto simp: scalar_less_def)
    then have "(word_of_int (hd (scalar_key a)) :: u8) < word_of_int (hd (scalar_key b))"
      using scalar_key_hd [of a] scalar_key_hd [of b] by (simp add: word_less_def take_bit_int_eq_self uint_word_of_int_eq)
    then show ?thesis
      using encode_ascending_tag [of a] encode_ascending_tag [of b] precedes_head by fastforce
  qed
  show "encode_ascending [] a = encode_ascending [] b" if "\<not> scalar_less a b" "\<not> scalar_less b a"
    using that linorder_neqE [of "scalar_key a" "scalar_key b"] same_key_same unfolding scalar_less_def by blast
qed

text \<open>A column in either direction.\<close>

definition column_code :: "bool \<Rightarrow> scalar \<Rightarrow> bytes" where
  "column_code descending s =
     (if descending then map (\<lambda>b. NOT b) (encode_ascending [] s) else encode_ascending [] s)"

definition column_less :: "bool \<Rightarrow> scalar \<Rightarrow> scalar \<Rightarrow> bool" where
  "column_less descending a b \<longleftrightarrow> (if descending then scalar_less b a else scalar_less a b)"

lemma encode_scalar_eq: "encode_scalar out s descending = out @ column_code descending s"
  using encode_ascending_append [of out s] by (simp add: encode_scalar_def column_code_def Let_def)

interpretation column: order_code "column_code d" "column_less d" for d
proof (cases d)
  case True
  then have "column_code d = (\<lambda>s. map (\<lambda>b. NOT b) (encode_ascending [] s))" "column_less d = (\<lambda>a b. scalar_less b a)"
    by (simp_all add: fun_eq_iff column_code_def column_less_def)
  then show "order_code (column_code d) (column_less d)" using scalar_order.complement_code by simp
next
  case False
  then have "column_code d = encode_ascending []" "column_less d = scalar_less"
    by (simp_all add: fun_eq_iff column_code_def column_less_def)
  then show "order_code (column_code d) (column_less d)" using scalar_order.order_code_axioms by simp
qed

section \<open>Properties\<close>

text \<open>C40: the order of an index column. Compared bytewise, the encodings of two scalars are ordered as
  the scalars are, in reverse for a descending column, whatever bytes follow them in the key; and two
  encodings followed by anything agree only if the scalars are equal in that order, so a column can
  never be read as part of the next.\<close>

theorem scalar_encoding_ordered:
  "(scalar_less a b \<longrightarrow> encode_scalar [] a False @ u < encode_scalar [] b False @ v) \<and>
   (scalar_less a b \<longrightarrow> encode_scalar [] b True @ u < encode_scalar [] a True @ v) \<and>
   (encode_scalar [] a d @ u = encode_scalar [] b d @ v \<longrightarrow> scalar_key a = scalar_key b \<and> u = v)"
proof (intro conjI impI)
  show "encode_scalar [] a False @ u < encode_scalar [] b False @ v" if "scalar_less a b"
    using column.code_less [of False a b] that
    by (auto simp: encode_scalar_eq column_less_def intro!: precedes_less precedes_append)
  show "encode_scalar [] b True @ u < encode_scalar [] a True @ v" if "scalar_less a b"
    using column.code_less [of True b a] that
    by (auto simp: encode_scalar_eq column_less_def intro!: precedes_less precedes_append)
  assume eq: "encode_scalar [] a d @ u = encode_scalar [] b d @ v"
  then have same: "column_code d a = column_code d b" using column.prefix_free by (simp add: encode_scalar_eq)
  then have "\<not> column_less d a b \<and> \<not> column_less d b a" by (simp add: column.same_iff)
  then show "scalar_key a = scalar_key b"
    by (auto simp: column_less_def scalar_less_def not_less_iff_gr_or_eq split: if_splits)
  show "u = v" using eq same by (simp add: encode_scalar_eq)
qed

theorem scalar_encoding_ordered_witness:
  "encode_scalar [] (Str ''b'') True @ [] < encode_scalar [] (Str ''a'') True @ []"
proof -
  have "scalar_less (Str ''a'') (Str ''b'')"
    unfolding scalar_less_def by code_simp
  then show ?thesis using scalar_encoding_ordered [of "Str ''a''" "Str ''b''" "[]" "[]"] by blast
qed

end
