(* ===== verification/Index_Defs.thy ===== *)
theory Index_Defs
  imports Ordered Paths Name_Table
begin

text \<open>
  Secondary-index definitions (\<open>index/definitions/\<close>): columns with their sort direction, the
  registry encoding of a definition with its full and its name-only decoder, and the column part of
  an index key. Lemmas: definitions survive their encoding, the name-only decoder agrees with the full one,
  and the column part of a key sorts as the tuple of column values does.
\<close>

section \<open>Directions and columns\<close>

datatype direction = Asc | Desc

fun direction_to_byte :: "direction \<Rightarrow> u8" where
  "direction_to_byte Asc = 0"
| "direction_to_byte Desc = 1"

definition direction_from_byte :: "u8 \<Rightarrow> direction res" where
  "direction_from_byte byte =
     (if byte = 0 then Ok Asc else if byte = 1 then Ok Desc
      else Err (Corrupt (''unknown index direction '' @ show_nat (unat byte))))"

record index_column =
  col_path :: vpath
  col_direction :: direction

definition column_asc :: "vpath \<Rightarrow> index_column" where
  "column_asc p = \<lparr>col_path = p, col_direction = Asc\<rparr>"

definition column_desc :: "vpath \<Rightarrow> index_column" where
  "column_desc p = \<lparr>col_path = p, col_direction = Desc\<rparr>"

section \<open>Definitions\<close>

record index_def =
  idx_name :: string
  idx_pattern :: string
  idx_columns :: "index_column list"
  idx_unique :: bool

definition index_def_encode :: "bytes \<Rightarrow> index_def \<Rightarrow> bytes" where
  "index_def_encode buf d =
     (let buf = put_bytes buf (as_bytes (idx_name d));
          buf = put_bytes buf (as_bytes (idx_pattern d));
          buf = buf @ [of_bool (idx_unique d)];
          buf = put_u32 buf (word_of_nat (length (idx_columns d)))
      in foldl (\<lambda>buf c. put_bytes buf (as_bytes (vpath_display (col_path c))) @ [direction_to_byte (col_direction c)])
           buf (idx_columns d))"

definition read_string :: "reader \<Rightarrow> (string \<times> reader) res" where
  "read_string r =
     andThen (reader_bytes r) (\<lambda>(bs, r).
     andThen (ok_or (from_utf8 bs) (Corrupt ''invalid utf-8 in index definition'')) (\<lambda>s. Ok (s, r)))"

definition skip_column :: "reader \<Rightarrow> (unit \<times> reader) res" where
  "skip_column r = andThen (reader_bytes r) (\<lambda>(_, r). andThen (reader_u8 r) (\<lambda>(_, r). Ok ((), r)))"

definition decode_name :: "reader \<Rightarrow> (string \<times> reader) res" where
  "decode_name r =
     andThen (read_string r) (\<lambda>(name, r).
     andThen (reader_bytes r) (\<lambda>(_, r).
     andThen (reader_u8 r) (\<lambda>(_, r).
     andThen (reader_u32 r) (\<lambda>(count, r).
     andThen (reader_repeat (unat count) skip_column r) (\<lambda>(_, r). Ok (name, r))))))"

definition decode_column :: "reader \<Rightarrow> (index_column \<times> reader) res" where
  "decode_column r =
     andThen (read_string r) (\<lambda>(s, r).
     andThen (vpath_from_str s) (\<lambda>path.
     andThen (reader_u8 r) (\<lambda>(b, r).
     andThen (direction_from_byte b) (\<lambda>direction.
     Ok (\<lparr>col_path = path, col_direction = direction\<rparr>, r)))))"

definition index_def_decode :: "reader \<Rightarrow> (index_def \<times> reader) res" where
  "index_def_decode r =
     andThen (read_string r) (\<lambda>(name, r).
     andThen (read_string r) (\<lambda>(pattern, r).
     andThen (reader_u8 r) (\<lambda>(unique, r).
     andThen (reader_u32 r) (\<lambda>(count, r).
     andThen (reader_repeat (unat count) decode_column r) (\<lambda>(columns, r).
     Ok (\<lparr>idx_name = name, idx_pattern = pattern, idx_columns = columns, idx_unique = unique \<noteq> 0\<rparr>, r))))))"

text \<open>\<open>values.iter().zip(&self.columns)\<close> stops at the shorter.\<close>

definition encode_columns :: "index_def \<Rightarrow> scalar list \<Rightarrow> bytes" where
  "encode_columns d values =
     foldl (\<lambda>cols (v, c). encode_scalar cols v (col_direction c = Desc)) [] (zip values (idx_columns d))"

section \<open>The registry encoding\<close>

interpretation str_codec: codec "\<lambda>s. put_bytes [] (as_bytes s)" read_string text_ok
  using text_codec by (simp add: read_string_def [abs_def])

definition column_bytes :: "index_column \<Rightarrow> bytes" where
  "column_bytes c = put_bytes [] (as_bytes (vpath_display (col_path c))) @ [direction_to_byte (col_direction c)]"

definition column_ok :: "index_column \<Rightarrow> bool" where
  "column_ok c \<longleftrightarrow> vpath_ok (col_path c) \<and> text_ok (vpath_display (col_path c))"

lemma direction_from_to [simp]: "direction_from_byte (direction_to_byte d) = Ok d"
  by (cases d) (simp_all add: direction_from_byte_def)

interpretation column_codec: codec column_bytes decode_column column_ok
proof (rule codecI)
  fix x r rest assume x: "column_ok x" and l: "left r (column_bytes x @ rest)"
  then obtain r1 where r1: "reads_off read_string r (vpath_display (col_path x)) (direction_to_byte (col_direction x) # rest) r1"
    using str_codec.step [of "vpath_display (col_path x)" r] by (auto simp: column_ok_def column_bytes_def)
  then obtain r2 where r2: "reads_off reader_u8 r1 (direction_to_byte (col_direction x)) rest r2"
    using u8_codec.step [where x = "direction_to_byte (col_direction x)" and r = r1 and rest = rest] by (auto simp: reads_off_def)
  have "vpath_from_str (vpath_display (col_path x)) = Ok (col_path x)" using x by (simp add: column_ok_def vpath_display_parse)
  then show "\<exists>r'. reads_off decode_column r x rest r'"
    using r1 r2 by (auto simp: reads_off_def decode_column_def)
qed

lemma skip_column_step:
  assumes "column_ok c" "left r (column_bytes c @ rest)"
  shows "\<exists>r'. reads_off skip_column r () rest r'"
proof -
  let ?p = "as_bytes (vpath_display (col_path c))"
  obtain r1 where r1: "reads_off reader_bytes r ?p (direction_to_byte (col_direction c) # rest) r1"
    using assms bytes_codec.step [of ?p r] by (auto simp: column_ok_def column_bytes_def text_ok_def)
  then obtain r2 where "reads_off reader_u8 r1 (direction_to_byte (col_direction c)) rest r2"
    using u8_codec.step [where x = "direction_to_byte (col_direction c)" and r = r1 and rest = rest] by (auto simp: reads_off_def)
  then show ?thesis using r1 by (auto simp: reads_off_def skip_column_def)
qed

lemma skip_columns_step:
  assumes "\<forall>c \<in> set cs. column_ok c" "left r (concat (map column_bytes cs) @ rest)"
  shows "\<exists>r' us. reads_off (reader_repeat (length cs) skip_column) r us rest r'"
  using assms
proof (induction cs arbitrary: r)
  case Nil
  then show ?case by (auto simp: reads_off_def)
next
  case (Cons c cs)
  then obtain r1 where r1: "reads_off skip_column r () (concat (map column_bytes cs) @ rest) r1"
    using skip_column_step [of c r "concat (map column_bytes cs) @ rest"] by auto
  then have "left r1 (concat (map column_bytes cs) @ rest)" by (simp add: reads_off_def)
  then obtain r2 us where "reads_off (reader_repeat (length cs) skip_column) r1 us rest r2"
    using Cons.IH [of r1] Cons.prems(1) by auto
  then show ?case using r1 by (auto simp: reads_off_def)
qed

definition index_def_bytes :: "index_def \<Rightarrow> bytes" where
  "index_def_bytes d = put_bytes [] (as_bytes (idx_name d)) @ put_bytes [] (as_bytes (idx_pattern d)) @
     [of_bool (idx_unique d)] @ put_u32 [] (word_of_nat (length (idx_columns d))) @
     concat (map column_bytes (idx_columns d))"

definition index_def_ok :: "index_def \<Rightarrow> bool" where
  "index_def_ok d \<longleftrightarrow> text_ok (idx_name d) \<and> text_ok (idx_pattern d) \<and> length (idx_columns d) < 2 ^ 32 \<and>
     (\<forall>c \<in> set (idx_columns d). column_ok c)"

lemma index_def_encode_eq: "index_def_encode buf d = buf @ index_def_bytes d"
proof -
  have "foldl (\<lambda>buf c. put_bytes buf (as_bytes (vpath_display (col_path c))) @ [direction_to_byte (col_direction c)]) buf cs
      = buf @ concat (map column_bytes cs)" for buf cs
  proof (induction cs arbitrary: buf)
    case (Cons c cs)
    then show ?case using put_bytes_append [of buf] by (simp add: column_bytes_def)
  qed simp
  then show ?thesis
    using put_bytes_append [of buf] put_bytes_append [of "buf @ _"]
    by (simp add: index_def_encode_def index_def_bytes_def Let_def put_u32_def)
qed

text \<open>The bytes of a definition up to its columns, read off.\<close>

lemma index_def_head:
  assumes "index_def_ok d" "left r (index_def_bytes d @ rest)"
  obtains r1 r2 r3 r4 where "reads_off read_string r (idx_name d) (drop (length (put_bytes [] (as_bytes (idx_name d)))) (index_def_bytes d @ rest)) r1"
    "reads_off read_string r1 (idx_pattern d) ([of_bool (idx_unique d)] @ put_u32 [] (word_of_nat (length (idx_columns d))) @ concat (map column_bytes (idx_columns d)) @ rest) r2"
    "reads_off reader_u8 r2 (of_bool (idx_unique d)) (put_u32 [] (word_of_nat (length (idx_columns d))) @ concat (map column_bytes (idx_columns d)) @ rest) r3"
    "reads_off reader_u32 r3 (word_of_nat (length (idx_columns d))) (concat (map column_bytes (idx_columns d)) @ rest) r4"
proof -
  let ?c = "concat (map column_bytes (idx_columns d)) @ rest"
  let ?n = "put_u32 [] (word_of_nat (length (idx_columns d))) @ ?c"
  have ok: "text_ok (idx_name d)" "text_ok (idx_pattern d)" using assms(1) by (simp_all add: index_def_ok_def)
  obtain r1 where r1: "reads_off read_string r (idx_name d) (put_bytes [] (as_bytes (idx_pattern d)) @ [of_bool (idx_unique d)] @ ?n) r1"
    using str_codec.step [OF ok(1), of r] assms(2) by (auto simp: index_def_bytes_def)
  then obtain r2 where r2: "reads_off read_string r1 (idx_pattern d) ([of_bool (idx_unique d)] @ ?n) r2"
    using str_codec.step [OF ok(2), of r1] by (auto simp: reads_off_def)
  then obtain r3 where r3: "reads_off reader_u8 r2 (of_bool (idx_unique d)) ?n r3"
    using u8_codec.step [where x = "of_bool (idx_unique d)" and r = r2 and rest = ?n] by (auto simp: reads_off_def)
  then obtain r4 where r4: "reads_off reader_u32 r3 (word_of_nat (length (idx_columns d))) ?c r4"
    using u32_codec.step [where x = "word_of_nat (length (idx_columns d))" and r = r3 and rest = ?c] by (auto simp: reads_off_def)
  show thesis using that r1 r2 r3 r4 by (simp add: index_def_bytes_def)
qed

interpretation index_def_codec: codec index_def_bytes index_def_decode index_def_ok
proof (rule codecI)
  fix d r rest assume d: "index_def_ok d" "left r (index_def_bytes d @ rest)"
  obtain r1 r2 r3 r4 where h: "reads_off read_string r (idx_name d) (drop (length (put_bytes [] (as_bytes (idx_name d)))) (index_def_bytes d @ rest)) r1"
    "reads_off read_string r1 (idx_pattern d) ([of_bool (idx_unique d)] @ put_u32 [] (word_of_nat (length (idx_columns d))) @ concat (map column_bytes (idx_columns d)) @ rest) r2"
    "reads_off reader_u8 r2 (of_bool (idx_unique d)) (put_u32 [] (word_of_nat (length (idx_columns d))) @ concat (map column_bytes (idx_columns d)) @ rest) r3"
    "reads_off reader_u32 r3 (word_of_nat (length (idx_columns d))) (concat (map column_bytes (idx_columns d)) @ rest) r4"
    using d by (rule index_def_head)
  then obtain r5 where "reads_off (reader_repeat (length (idx_columns d)) decode_column) r4 (idx_columns d) rest r5"
    using column_codec.steps [of "idx_columns d" r4 rest] d(1) by (auto simp: index_def_ok_def reads_off_def)
  moreover have "unat (word_of_nat (length (idx_columns d)) :: u32) = length (idx_columns d)"
    using d(1) by (simp add: index_def_ok_def u32_small)
  ultimately show "\<exists>r'. reads_off index_def_decode r d rest r'"
    using h by (auto simp: reads_off_def index_def_decode_def)
qed

lemma decode_name_step:
  assumes "index_def_ok d" "left r (index_def_bytes d @ rest)"
  shows "\<exists>r'. reads_off decode_name r (idx_name d) rest r'"
proof -
  obtain r1 r2 r3 r4 where h: "reads_off read_string r (idx_name d) (drop (length (put_bytes [] (as_bytes (idx_name d)))) (index_def_bytes d @ rest)) r1"
    "reads_off read_string r1 (idx_pattern d) ([of_bool (idx_unique d)] @ put_u32 [] (word_of_nat (length (idx_columns d))) @ concat (map column_bytes (idx_columns d)) @ rest) r2"
    "reads_off reader_u8 r2 (of_bool (idx_unique d)) (put_u32 [] (word_of_nat (length (idx_columns d))) @ concat (map column_bytes (idx_columns d)) @ rest) r3"
    "reads_off reader_u32 r3 (word_of_nat (length (idx_columns d))) (concat (map column_bytes (idx_columns d)) @ rest) r4"
    using assms by (rule index_def_head)
  then obtain r5 us where "reads_off (reader_repeat (length (idx_columns d)) skip_column) r4 us rest r5"
    using skip_columns_step [of "idx_columns d" r4 rest] assms(1) by (auto simp: index_def_ok_def reads_off_def)
  moreover have "unat (word_of_nat (length (idx_columns d)) :: u32) = length (idx_columns d)"
    using assms(1) by (simp add: index_def_ok_def u32_small)
  moreover obtain bs where "reader_bytes r1 = Ok (bs, r2)"
    using h(2) by (auto simp: reads_off_def read_string_def)
  ultimately show ?thesis using h by (auto simp: reads_off_def decode_name_def)
qed

section \<open>The order of column tuples\<close>

text \<open>Tuples compare column by column, each in its direction.\<close>

fun tuple_less :: "index_column list \<Rightarrow> scalar list \<Rightarrow> scalar list \<Rightarrow> bool" where
  "tuple_less (c # cs) (a # as) (b # bs) \<longleftrightarrow>
     column_less (col_direction c = Desc) a b \<or>
     \<not> column_less (col_direction c = Desc) b a \<and> tuple_less cs as bs"
| "tuple_less _ _ _ \<longleftrightarrow> False"

definition tuple_code :: "index_column list \<Rightarrow> scalar list \<Rightarrow> bytes" where
  "tuple_code cs vs = concat (map (\<lambda>(v, c). column_code (col_direction c = Desc) v) (zip vs cs))"

lemma encode_columns_eq: "encode_columns d vs = tuple_code (idx_columns d) vs"
proof -
  have "foldl (\<lambda>cols (v, c). encode_scalar cols v (col_direction c = Desc)) out es
      = out @ concat (map (\<lambda>(v, c). column_code (col_direction c = Desc) v) es)" for out es
    by (induction es arbitrary: out) (auto simp: encode_scalar_eq)
  from this [of "[]"] show ?thesis by (simp only: encode_columns_def tuple_code_def append_Nil)
qed

lemma tuple_code_Cons: "tuple_code (c # cs) (a # as) = column_code (col_direction c = Desc) a @ tuple_code cs as"
  by (simp add: tuple_code_def)

lemma tuple_precedes:
  "tuple_less cs as bs \<Longrightarrow> precedes (tuple_code cs as) (tuple_code cs bs)"
proof (induction cs as bs rule: tuple_less.induct)
  case (1 c cs a as b bs)
  let ?d = "col_direction c = Desc"
  show ?case
  proof (cases "column_less ?d a b")
    case True
    then show ?thesis using column.code_less precedes_append unfolding tuple_code_Cons by blast
  next
    case False
    then have "column_code ?d a = column_code ?d b" "tuple_less cs as bs" using 1(2) column.code_same by auto
    then show ?thesis using 1(1) False 1(2) unfolding tuple_code_Cons by (simp add: precedes_prefix)
  qed
qed simp_all

lemma tuple_same:
  "length as = length cs \<Longrightarrow> length bs = length cs \<Longrightarrow> \<not> tuple_less cs as bs \<Longrightarrow> \<not> tuple_less cs bs as \<Longrightarrow>
   tuple_code cs as = tuple_code cs bs"
proof (induction cs arbitrary: as bs)
  case (Cons c cs)
  then obtain a as' b bs' where "as = a # as'" "bs = b # bs'" by (metis length_Suc_conv)
  moreover from this have l: "length as' = length cs" "length bs' = length cs" using Cons.prems by simp_all
  moreover have "column_code (col_direction c = Desc) a = column_code (col_direction c = Desc) b"
    "\<not> tuple_less cs as' bs'" "\<not> tuple_less cs bs' as'"
    using Cons.prems(3,4) column.code_same [of "col_direction c = Desc" a b] calculation(1,2) by simp_all
  ultimately show ?case using Cons.IH [OF l] by (simp add: tuple_code_Cons)
qed (simp add: tuple_code_def)

text \<open>Tuples that agree are prefixes of no longer key of another tuple, and a prefix of columns selects
  exactly the tuples that start with it.\<close>

lemma tuple_prefix:
  "length ps \<le> length cs \<Longrightarrow> length vs = length cs \<Longrightarrow>
   (\<exists>t. tuple_code cs vs @ u = tuple_code cs ps @ t) \<longleftrightarrow> list_all2 (\<lambda>p v. scalar_key p = scalar_key v) ps (take (length ps) vs)"
proof (induction cs arbitrary: ps vs)
  case Nil
  then show ?case by (simp add: tuple_code_def)
next
  case (Cons c cs)
  obtain v vs' where v: "vs = v # vs'" using Cons.prems by (metis length_Suc_conv)
  show ?case
  proof (cases ps)
    case Nil
    then show ?thesis by (simp add: tuple_code_def)
  next
    case (Cons p ps')
    let ?d = "col_direction c = Desc"
    have same: "column_code ?d v = column_code ?d p \<longleftrightarrow> scalar_key p = scalar_key v"
      unfolding column.same_iff column_less_def scalar_less_def by (auto simp: not_less_iff_gr_or_eq)
    have "(\<exists>t. column_code ?d v @ tuple_code cs vs' @ u = column_code ?d p @ tuple_code cs ps' @ t) \<longleftrightarrow>
        column_code ?d v = column_code ?d p \<and> (\<exists>t. tuple_code cs vs' @ u = tuple_code cs ps' @ t)"
      using column.prefix_free [of ?d v _ p] by (metis append_same_eq same_append_eq)
    then show ?thesis
      using Cons.IH [of ps' vs'] Cons.prems v \<open>ps = p # ps'\<close> same by (simp add: tuple_code_Cons)
  qed
qed

section \<open>Properties\<close>

text \<open>C21: the order of composite index keys. The column part of an index key sorts, bytewise and whatever
  follows it, as the tuple of its column values does: column by column, each in its direction.\<close>

theorem index_key_order:
  assumes "length as = length (idx_columns d)" "length bs = length (idx_columns d)"
  shows "(encode_columns d as < encode_columns d bs \<longleftrightarrow> tuple_less (idx_columns d) as bs) \<and>
    (tuple_less (idx_columns d) as bs \<longrightarrow> encode_columns d as @ u < encode_columns d bs @ v)"
proof -
  let ?c = "idx_columns d"
  have "tuple_less ?c as bs" if "tuple_code ?c as < tuple_code ?c bs"
  proof (rule ccontr)
    assume "\<not> tuple_less ?c as bs"
    then consider "tuple_less ?c bs as" | "tuple_code ?c as = tuple_code ?c bs" using tuple_same [OF assms] by blast
    then show False using that tuple_precedes precedes_less by cases (fastforce dest: less_not_sym)+
  qed
  then show ?thesis
    using tuple_precedes [of ?c as bs] precedes_less precedes_append unfolding encode_columns_eq by blast
qed

definition sample_def :: index_def where
  "sample_def = \<lparr>idx_name = ''by_age'', idx_pattern = ''users/*'',
     idx_columns = [column_desc [Name ''age''], column_asc [Name ''name'']], idx_unique = False\<rparr>"

theorem index_key_order_witness:
  "encode_columns sample_def [U8 40, Str ''b''] @ [9] < encode_columns sample_def [U8 30, Str ''a''] @ [7]"
proof -
  have "tuple_less (idx_columns sample_def) [U8 40, Str ''b''] [U8 30, Str ''a'']"
    by (simp add: sample_def_def column_desc_def column_asc_def column_less_def scalar_less_def)
  then show ?thesis
    using index_key_order [of "[U8 40, Str ''b'']" sample_def "[U8 30, Str ''a'']" "[9]" "[7]"]
    by (simp add: sample_def_def)
qed

end
