(* ===== verification/Index_Registry.thy ===== *)
theory Index_Registry
  imports Index_Defs Engine
begin

text \<open>
  The registry of secondary indexes (\<open>index/registry/\<close>): one blob in the metadata table holding an
  id allocator and every registered index. Each operation reads, changes and writes back the whole
  registry. Lemmas: the registry survives its encoding; the name-only scan \<open>has\<close> agrees with \<open>lookup\<close>;
  the operations implement a map from table and name to definition; ids are never reused.
\<close>

section \<open>The registry\<close>

record index_entry =
  ent_table :: string
  ent_id :: u32
  ent_def :: index_def

record registry =
  next_id :: u32
  reg_entries :: "index_entry list"

definition registry_default :: registry where
  "registry_default = \<lparr>next_id = 0, reg_entries = []\<rparr>"

definition registry_table :: "reader \<Rightarrow> (string \<times> reader) res" where
  "registry_table r =
     andThen (reader_bytes r) (\<lambda>(bs, r).
     andThen (ok_or (from_utf8 bs) (Corrupt ''invalid utf-8 in index registry'')) (\<lambda>s. Ok (s, r)))"

definition decode_entry :: "reader \<Rightarrow> (index_entry \<times> reader) res" where
  "decode_entry r =
     andThen (registry_table r) (\<lambda>(table, r).
     andThen (reader_u32 r) (\<lambda>(id, r).
     andThen (index_def_decode r) (\<lambda>(d, r).
     Ok (\<lparr>ent_table = table, ent_id = id, ent_def = d\<rparr>, r))))"

definition registry_decode :: "bytes \<Rightarrow> registry res" where
  "registry_decode data =
     andThen (reader_u32 (reader_new data)) (\<lambda>(next, r).
     andThen (reader_u32 r) (\<lambda>(count, r).
     andThen (reader_repeat (unat count) decode_entry r) (\<lambda>(entries, r).
     Ok \<lparr>next_id = next, reg_entries = entries\<rparr>)))"

definition registry_load :: "('m, string, bytes) redb \<Rightarrow> 'm \<Rightarrow> registry res" where
  "registry_load M meta =
     andThen (table_get M meta META_INDEX_REGISTRY_KEY) (\<lambda>g.
       case g of Some data \<Rightarrow> registry_decode data | None \<Rightarrow> Ok registry_default)"

definition registry_encode :: "registry \<Rightarrow> bytes res" where
  "registry_encode reg =
     (if length (reg_entries reg) \<ge> 2 ^ 32 then Err (Corrupt ''index registry exceeds u32::MAX entries'')
      else
        let buf = put_u32 [] (next_id reg);
            buf = put_u32 buf (word_of_nat (length (reg_entries reg)))
        in Ok (foldl (\<lambda>buf e. index_def_encode (put_u32 (put_bytes buf (as_bytes (ent_table e))) (ent_id e)) (ent_def e))
             buf (reg_entries reg)))"

definition registry_store :: "('m, string, bytes) redb \<Rightarrow> registry \<Rightarrow> 'm \<Rightarrow> 'm res" where
  "registry_store M reg meta =
     andThen (registry_encode reg) (\<lambda>data. table_insert M meta META_INDEX_REGISTRY_KEY data)"

definition entry_is :: "string \<Rightarrow> string \<Rightarrow> index_entry \<Rightarrow> bool" where
  "entry_is table name e \<longleftrightarrow> ent_table e = table \<and> idx_name (ent_def e) = name"

definition registry_lookup ::
  "('m, string, bytes) redb \<Rightarrow> 'm \<Rightarrow> string \<Rightarrow> string \<Rightarrow> index_entry option res" where
  "registry_lookup M meta table name =
     andThen (registry_load M meta) (\<lambda>reg. Ok (find (entry_is table name) (reg_entries reg)))"

definition registry_for_table ::
  "('m, string, bytes) redb \<Rightarrow> 'm \<Rightarrow> string \<Rightarrow> index_entry list res" where
  "registry_for_table M meta table =
     andThen (registry_load M meta) (\<lambda>reg. Ok (filter (\<lambda>e. ent_table e = table) (reg_entries reg)))"

text \<open>The loop of \<open>has\<close>: a match returns at once, leaving the rest of the blob unread.\<close>

primrec has_scan :: "nat \<Rightarrow> string \<Rightarrow> string \<Rightarrow> reader \<Rightarrow> bool res" where
  "has_scan 0 table name r = Ok False"
| "has_scan (Suc n) table name r =
     andThen (registry_table r) (\<lambda>(t, r).
     andThen (reader_u32 r) (\<lambda>(_, r).
     andThen (decode_name r) (\<lambda>(entry_name, r).
       if t = table \<and> entry_name = name then Ok True else has_scan n table name r)))"

definition registry_has ::
  "('m, string, bytes) redb \<Rightarrow> 'm \<Rightarrow> string \<Rightarrow> string \<Rightarrow> bool res" where
  "registry_has M meta table name =
     andThen (table_get M meta META_INDEX_REGISTRY_KEY) (\<lambda>g.
       case g of
         None \<Rightarrow> Ok False
       | Some data \<Rightarrow>
           andThen (reader_u32 (reader_new data)) (\<lambda>(_, r).
           andThen (reader_u32 r) (\<lambda>(count, r). has_scan (unat count) table name r)))"

definition registry_any :: "('m, string, bytes) redb \<Rightarrow> 'm \<Rightarrow> bool res" where
  "registry_any M meta =
     andThen (table_get M meta META_INDEX_REGISTRY_KEY) (\<lambda>g.
       case g of
         None \<Rightarrow> Ok False
       | Some data \<Rightarrow>
           andThen (reader_u32 (reader_new data)) (\<lambda>(_, r).
           andThen (reader_u32 r) (\<lambda>(count, r). Ok (count > 0))))"

text \<open>\<open>position\<close>, then \<open>remove(pos)\<close>.\<close>

fun remove_first :: "('a \<Rightarrow> bool) \<Rightarrow> 'a list \<Rightarrow> ('a \<times> 'a list) option" where
  "remove_first P [] = None"
| "remove_first P (x # xs) =
     (if P x then Some (x, xs) else map_option (\<lambda>(y, ys). (y, x # ys)) (remove_first P xs))"

definition registry_delete ::
  "('m, string, bytes) redb \<Rightarrow> 'm \<Rightarrow> string \<Rightarrow> string \<Rightarrow> (index_entry option \<times> 'm) res" where
  "registry_delete M meta table name =
     andThen (registry_load M meta) (\<lambda>reg.
       case remove_first (entry_is table name) (reg_entries reg) of
         None \<Rightarrow> Ok (None, meta)
       | Some (entry, rest) \<Rightarrow>
           andThen (registry_store M (reg\<lparr>reg_entries := rest\<rparr>) meta) (\<lambda>meta. Ok (Some entry, meta)))"

definition registry_create ::
  "('m, string, bytes) redb \<Rightarrow> 'm \<Rightarrow> string \<Rightarrow> index_def \<Rightarrow> (bool \<times> 'm) res" where
  "registry_create M meta table d =
     andThen (registry_load M meta) (\<lambda>reg.
       case find (entry_is table (idx_name d)) (reg_entries reg) of
         Some entry \<Rightarrow>
           if ent_def entry = d then Ok (False, meta)
           else Err (SchemaMismatch (''index '' @ [CHR 0x27] @ idx_name d @ [CHR 0x27] @ '' on table '' @ [CHR 0x27] @ table @
                  [CHR 0x27] @ '' already exists with a different definition''))
       | None \<Rightarrow>
           if next_id reg = 0xFFFFFFFF then Err (Corrupt ''index registry id counter overflow'')
           else
             let entry = \<lparr>ent_table = table, ent_id = next_id reg, ent_def = d\<rparr>;
                 reg = reg\<lparr>next_id := next_id reg + 1, reg_entries := reg_entries reg @ [entry]\<rparr>
             in andThen (registry_store M reg meta) (\<lambda>meta. Ok (True, meta)))"

section \<open>The round trip\<close>

definition entry_ok :: "index_entry \<Rightarrow> bool" where
  "entry_ok e \<longleftrightarrow> text_ok (ent_table e) \<and> index_def_ok (ent_def e)"

definition entry_bytes :: "index_entry \<Rightarrow> bytes" where
  "entry_bytes e = put_bytes [] (as_bytes (ent_table e)) @ put_u32 [] (ent_id e) @ index_def_bytes (ent_def e)"

definition registry_bytes :: "registry \<Rightarrow> bytes" where
  "registry_bytes reg = put_u32 [] (next_id reg) @ put_u32 [] (word_of_nat (length (reg_entries reg))) @
     concat (map entry_bytes (reg_entries reg))"

text \<open>A registry the program can hold: at most \<open>2 ^ 32 - 1\<close> indexes, whose texts fit their length
  prefixes, in a blob that fits memory.\<close>

definition registry_ok :: "registry \<Rightarrow> bool" where
  "registry_ok reg \<longleftrightarrow> length (reg_entries reg) < 2 ^ 32 \<and> (\<forall>e \<in> set (reg_entries reg). entry_ok e) \<and>
     length (registry_bytes reg) < usize_bound"

interpretation table_codec: codec "\<lambda>s. put_bytes [] (as_bytes s)" registry_table text_ok
  using text_codec by (simp add: registry_table_def [abs_def])

lemma entry_head:
  assumes "entry_ok e" "left r (entry_bytes e @ rest)"
  obtains r1 r2 where "reads_off registry_table r (ent_table e) (put_u32 [] (ent_id e) @ index_def_bytes (ent_def e) @ rest) r1"
    "reads_off reader_u32 r1 (ent_id e) (index_def_bytes (ent_def e) @ rest) r2"
proof -
  obtain r1 where r1: "reads_off registry_table r (ent_table e) (put_u32 [] (ent_id e) @ index_def_bytes (ent_def e) @ rest) r1"
    using table_codec.step [of "ent_table e" r] assms by (auto simp: entry_ok_def entry_bytes_def)
  then obtain r2 where "reads_off reader_u32 r1 (ent_id e) (index_def_bytes (ent_def e) @ rest) r2"
    using u32_codec.step [where x = "ent_id e" and r = r1] by (auto simp: reads_off_def)
  then show thesis using that r1 by blast
qed

interpretation entry_codec: codec entry_bytes decode_entry entry_ok
proof (rule codecI)
  fix e r rest assume e: "entry_ok e" "left r (entry_bytes e @ rest)"
  then obtain r1 r2 where h: "reads_off registry_table r (ent_table e) (put_u32 [] (ent_id e) @ index_def_bytes (ent_def e) @ rest) r1"
    "reads_off reader_u32 r1 (ent_id e) (index_def_bytes (ent_def e) @ rest) r2" by (rule entry_head)
  then obtain r3 where "reads_off index_def_decode r2 (ent_def e) rest r3"
    using index_def_codec.step [of "ent_def e" r2 rest] e(1) by (auto simp: entry_ok_def reads_off_def)
  then show "\<exists>r'. reads_off decode_entry r e rest r'" using h by (auto simp: reads_off_def decode_entry_def)
qed

lemma registry_encode_eq: "registry_ok reg \<Longrightarrow> registry_encode reg = Ok (registry_bytes reg)"
proof -
  assume ok: "registry_ok reg"
  have "foldl (\<lambda>buf e. index_def_encode (put_u32 (put_bytes buf (as_bytes (ent_table e))) (ent_id e)) (ent_def e)) buf es
      = buf @ concat (map entry_bytes es)" for buf es
  proof (induction es arbitrary: buf)
    case (Cons e es)
    then show ?case
      using put_bytes_append [of buf "as_bytes (ent_table e)"]
      by (simp add: entry_bytes_def index_def_encode_eq put_u32_def)
  qed simp
  then show ?thesis using ok by (simp add: registry_ok_def registry_encode_def registry_bytes_def Let_def put_u32_def)
qed

lemma registry_head:
  assumes "registry_ok reg"
  obtains r1 r2 where "reads_off reader_u32 (reader_new (registry_bytes reg)) (next_id reg)
      (put_u32 [] (word_of_nat (length (reg_entries reg))) @ concat (map entry_bytes (reg_entries reg))) r1"
    "reads_off reader_u32 r1 (word_of_nat (length (reg_entries reg))) (concat (map entry_bytes (reg_entries reg))) r2"
    "unat (word_of_nat (length (reg_entries reg)) :: u32) = length (reg_entries reg)"
proof -
  let ?es = "concat (map entry_bytes (reg_entries reg))"
  let ?n = "word_of_nat (length (reg_entries reg)) :: u32"
  have "left (reader_new (registry_bytes reg)) (put_u32 [] (next_id reg) @ put_u32 [] ?n @ ?es)"
    using assms left_new [of "registry_bytes reg"] by (simp add: registry_ok_def registry_bytes_def)
  then obtain r1 where r1: "reads_off reader_u32 (reader_new (registry_bytes reg)) (next_id reg) (put_u32 [] ?n @ ?es) r1"
    using u32_codec.step by blast
  then obtain r2 where "reads_off reader_u32 r1 ?n ?es r2"
    using u32_codec.step [where x = ?n and r = r1 and rest = ?es] by (auto simp: reads_off_def)
  then show thesis using that r1 assms by (simp add: registry_ok_def u32_small)
qed

lemma registry_decode_bytes: "registry_ok reg \<Longrightarrow> registry_decode (registry_bytes reg) = Ok reg"
proof -
  assume ok: "registry_ok reg"
  obtain r1 r2 where h: "reads_off reader_u32 (reader_new (registry_bytes reg)) (next_id reg)
      (put_u32 [] (word_of_nat (length (reg_entries reg))) @ concat (map entry_bytes (reg_entries reg))) r1"
    "reads_off reader_u32 r1 (word_of_nat (length (reg_entries reg))) (concat (map entry_bytes (reg_entries reg))) r2"
    "unat (word_of_nat (length (reg_entries reg)) :: u32) = length (reg_entries reg)"
    using ok by (rule registry_head)
  then obtain r3 where "reads_off (reader_repeat (length (reg_entries reg)) decode_entry) r2 (reg_entries reg) [] r3"
    using entry_codec.steps [of "reg_entries reg" r2 "[]"] ok by (auto simp: registry_ok_def reads_off_def)
  then show ?thesis using h by (auto simp: reads_off_def registry_decode_def)
qed

section \<open>What the operations do\<close>

text \<open>The metadata table holds the registry \<open>reg\<close>.\<close>

definition holds_registry :: "('m, string, bytes) redb \<Rightarrow> 'm \<Rightarrow> registry \<Rightarrow> bool" where
  "holds_registry M meta reg \<longleftrightarrow> registry_ok reg \<and>
     (contents M meta META_INDEX_REGISTRY_KEY = Some (registry_bytes reg) \<or>
      contents M meta META_INDEX_REGISTRY_KEY = None \<and> reg = registry_default)"

text \<open>The invariant of a registry: ids come from below the allocator and differ, and a table has one
  index of a name.\<close>

definition registry_inv :: "registry \<Rightarrow> bool" where
  "registry_inv reg \<longleftrightarrow> (\<forall>e \<in> set (reg_entries reg). ent_id e < next_id reg) \<and> distinct (map ent_id (reg_entries reg)) \<and>
     distinct (map (\<lambda>e. (ent_table e, idx_name (ent_def e))) (reg_entries reg))"

lemma registry_load_holds: "redb_ok M \<Longrightarrow> holds_registry M meta reg \<Longrightarrow> registry_load M meta = Ok reg"
  by (auto simp: holds_registry_def registry_load_def redb_get registry_decode_bytes)

lemma registry_store_holds:
  assumes "redb_ok M" "registry_ok reg"
  obtains meta' where "registry_store M reg meta = Ok meta'" "holds_registry M meta' reg"
    "contents M meta' = (contents M meta)(META_INDEX_REGISTRY_KEY := Some (registry_bytes reg))"
proof -
  obtain meta' where "table_insert M meta META_INDEX_REGISTRY_KEY (registry_bytes reg) = Ok meta'"
    "contents M meta' = (contents M meta)(META_INDEX_REGISTRY_KEY := Some (registry_bytes reg))"
    by (rule redb_insert [OF assms(1)])
  then show thesis using that [of meta'] assms(2) by (simp add: registry_store_def registry_encode_eq holds_registry_def)
qed

lemma find_entry: "find (entry_is t n) es = Some e \<Longrightarrow> e \<in> set es \<and> ent_table e = t \<and> idx_name (ent_def e) = n"
  by (auto simp: find_Some_iff entry_is_def)

lemma has_scan_step:
  assumes "\<forall>e \<in> set es. entry_ok e" "left r (concat (map entry_bytes es) @ rest)"
  shows "has_scan (length es) table name r = Ok (find (entry_is table name) es \<noteq> None)"
  using assms
proof (induction es arbitrary: r)
  case (Cons e es)
  let ?rest = "concat (map entry_bytes es) @ rest"
  have ok: "entry_ok e" and l: "left r (entry_bytes e @ ?rest)" using Cons.prems by simp_all
  obtain r1 r2 where h: "reads_off registry_table r (ent_table e) (put_u32 [] (ent_id e) @ index_def_bytes (ent_def e) @ ?rest) r1"
    "reads_off reader_u32 r1 (ent_id e) (index_def_bytes (ent_def e) @ ?rest) r2" using ok l by (rule entry_head)
  then obtain r3 where r3: "reads_off decode_name r2 (idx_name (ent_def e)) ?rest r3"
    using decode_name_step [of "ent_def e" r2 ?rest] ok by (auto simp: entry_ok_def reads_off_def)
  have "has_scan (length es) table name r3 = Ok (find (entry_is table name) es \<noteq> None)"
    using Cons.IH [of r3] Cons.prems(1) r3 by (simp add: reads_off_def)
  then show ?case using h r3 by (auto simp: reads_off_def entry_is_def [of table name e])
qed simp

lemma registry_has_holds:
  assumes "redb_ok M" "holds_registry M meta reg"
  shows "registry_has M meta table name = Ok (find (entry_is table name) (reg_entries reg) \<noteq> None)"
proof (cases "contents M meta META_INDEX_REGISTRY_KEY")
  case None
  then have "reg = registry_default" using assms(2) by (simp add: holds_registry_def)
  then show ?thesis using None by (simp add: registry_has_def redb_get [OF assms(1)] registry_default_def)
next
  case (Some b)
  then have b: "b = registry_bytes reg" and ok: "registry_ok reg" using assms(2) by (auto simp: holds_registry_def)
  obtain r1 r2 where h: "reads_off reader_u32 (reader_new (registry_bytes reg)) (next_id reg)
      (put_u32 [] (word_of_nat (length (reg_entries reg))) @ concat (map entry_bytes (reg_entries reg))) r1"
    "reads_off reader_u32 r1 (word_of_nat (length (reg_entries reg))) (concat (map entry_bytes (reg_entries reg))) r2"
    "unat (word_of_nat (length (reg_entries reg)) :: u32) = length (reg_entries reg)"
    using ok by (rule registry_head)
  then have "has_scan (length (reg_entries reg)) table name r2 = Ok (find (entry_is table name) (reg_entries reg) \<noteq> None)"
    using has_scan_step [of "reg_entries reg" r2 "[]"] ok by (auto simp: registry_ok_def reads_off_def)
  then show ?thesis using h Some b by (auto simp: registry_has_def redb_get [OF assms(1)] reads_off_def)
qed

lemma registry_any_holds:
  assumes "redb_ok M" "holds_registry M meta reg"
  shows "registry_any M meta = Ok (reg_entries reg \<noteq> [])"
proof (cases "contents M meta META_INDEX_REGISTRY_KEY")
  case None
  then show ?thesis using assms(2) by (auto simp: holds_registry_def registry_any_def redb_get [OF assms(1)] registry_default_def)
next
  case (Some b)
  then have b: "b = registry_bytes reg" and ok: "registry_ok reg" using assms(2) by (auto simp: holds_registry_def)
  obtain r1 r2 where h: "reads_off reader_u32 (reader_new (registry_bytes reg)) (next_id reg)
      (put_u32 [] (word_of_nat (length (reg_entries reg))) @ concat (map entry_bytes (reg_entries reg))) r1"
    "reads_off reader_u32 r1 (word_of_nat (length (reg_entries reg))) (concat (map entry_bytes (reg_entries reg))) r2"
    "unat (word_of_nat (length (reg_entries reg)) :: u32) = length (reg_entries reg)"
    using ok by (rule registry_head)
  have "(0 < (word_of_nat (length (reg_entries reg)) :: u32)) \<longleftrightarrow> reg_entries reg \<noteq> []"
    using h(3) by (auto simp: word_less_nat_alt)
  then show ?thesis using h(1,2) Some b by (auto simp: registry_any_def redb_get [OF assms(1)] reads_off_def)
qed

lemma remove_first_find: "remove_first P xs = Some (x, ys) \<Longrightarrow>
  find P xs = Some x \<and> P x \<and> (\<exists>a b. xs = a @ x # b \<and> ys = a @ b \<and> (\<forall>z \<in> set a. \<not> P z))"
proof (induction xs arbitrary: ys)
  case (Cons z zs)
  show ?case
  proof (cases "P z")
    case True
    then show ?thesis using Cons.prems by (auto intro: exI [of _ "[]"])
  next
    case False
    then obtain ws where w: "remove_first P zs = Some (x, ws)" "ys = z # ws" using Cons.prems by auto
    from Cons.IH [OF w(1)] obtain a b where "find P zs = Some x" "P x" "zs = a @ x # b" "ws = a @ b" "\<forall>z \<in> set a. \<not> P z"
      by blast
    then show ?thesis using False w(2) by (intro conjI exI [of _ "z # a"] exI [of _ b]) auto
  qed
qed simp

lemma remove_first_None: "remove_first P xs = None \<longleftrightarrow> find P xs = None"
  by (induction xs) auto

lemma registry_inv_remove:
  assumes "registry_inv reg" "reg_entries reg = a @ x # b"
  shows "registry_inv (reg\<lparr>reg_entries := a @ b\<rparr>)"
  using assms by (auto simp: registry_inv_def)

lemma u32_increment: "x \<noteq> 0xFFFFFFFF \<Longrightarrow> x < x + 1" for x :: u32
proof -
  assume x: "x \<noteq> 0xFFFFFFFF"
  have "unat x \<noteq> 4294967295"
  proof
    assume "unat x = 4294967295"
    then have "word_of_nat (unat x) = (0xFFFFFFFF :: u32)" by simp
    then show False using x by simp
  qed
  moreover have "unat x < 2 ^ LENGTH(32)" by (rule unsigned_less)
  ultimately have "unat x + 1 < 4294967296" by simp
  then show ?thesis by (simp add: word_less_nat_alt unat_word_ariths)
qed

lemma registry_inv_add:
  assumes "registry_inv reg" "find (entry_is t (idx_name d)) (reg_entries reg) = None" "next_id reg \<noteq> 0xFFFFFFFF"
  shows "registry_inv (reg\<lparr>next_id := next_id reg + 1,
    reg_entries := reg_entries reg @ [\<lparr>ent_table = t, ent_id = next_id reg, ent_def = d\<rparr>]\<rparr>)"
proof -
  have "next_id reg < next_id reg + 1" using assms(3) by (rule u32_increment)
  moreover have "(t, idx_name d) \<notin> (\<lambda>e. (ent_table e, idx_name (ent_def e))) ` set (reg_entries reg)"
    using assms(2) by (auto simp: find_None_iff entry_is_def)
  ultimately show ?thesis using assms(1) by (fastforce simp: registry_inv_def)
qed

definition registry_added :: "registry \<Rightarrow> string \<Rightarrow> index_def \<Rightarrow> registry" where
  "registry_added reg table d = reg\<lparr>next_id := next_id reg + 1,
     reg_entries := reg_entries reg @ [\<lparr>ent_table = table, ent_id = next_id reg, ent_def = d\<rparr>]\<rparr>"

lemma registry_ok_remove:
  assumes "registry_ok reg" "reg_entries reg = a @ x # b"
  shows "registry_ok (reg\<lparr>reg_entries := a @ b\<rparr>)"
  using assms by (auto simp: registry_ok_def registry_bytes_def put_u32_def)

lemma create_cases:
  assumes "redb_ok M" "holds_registry M meta reg" "registry_ok (registry_added reg table d)"
  shows "(\<exists>e. find (entry_is table (idx_name d)) (reg_entries reg) = Some e \<and>
      (ent_def e = d \<and> registry_create M meta table d = Ok (False, meta) \<or>
       ent_def e \<noteq> d \<and> (\<exists>m. registry_create M meta table d = Err (SchemaMismatch m)))) \<or>
    find (entry_is table (idx_name d)) (reg_entries reg) = None \<and>
      (next_id reg = 0xFFFFFFFF \<and> (\<exists>m. registry_create M meta table d = Err (Corrupt m)) \<or>
       next_id reg \<noteq> 0xFFFFFFFF \<and> (\<exists>meta'. registry_create M meta table d = Ok (True, meta') \<and>
         holds_registry M meta' (registry_added reg table d) \<and>
         (\<forall>k. k \<noteq> META_INDEX_REGISTRY_KEY \<longrightarrow> contents M meta' k = contents M meta k)))"
proof -
  obtain meta' where s: "registry_store M (registry_added reg table d) meta = Ok meta'"
    "holds_registry M meta' (registry_added reg table d)"
    "contents M meta' = (contents M meta)(META_INDEX_REGISTRY_KEY := Some (registry_bytes (registry_added reg table d)))"
    by (rule registry_store_holds [OF assms(1,3)])
  then show ?thesis
    using registry_load_holds [OF assms(1,2)]
    by (cases "find (entry_is table (idx_name d)) (reg_entries reg)")
      (auto simp: registry_create_def registry_added_def)
qed

lemma delete_cases:
  assumes "redb_ok M" "holds_registry M meta reg"
  shows "find (entry_is table name) (reg_entries reg) = None \<and> registry_delete M meta table name = Ok (None, meta) \<or>
    (\<exists>e a b meta'. find (entry_is table name) (reg_entries reg) = Some e \<and> reg_entries reg = a @ e # b \<and>
      registry_delete M meta table name = Ok (Some e, meta') \<and> holds_registry M meta' (reg\<lparr>reg_entries := a @ b\<rparr>) \<and>
      (\<forall>k. k \<noteq> META_INDEX_REGISTRY_KEY \<longrightarrow> contents M meta' k = contents M meta k))"
proof (cases "remove_first (entry_is table name) (reg_entries reg)")
  case None
  then show ?thesis
    using registry_load_holds [OF assms] by (simp add: registry_delete_def remove_first_None [symmetric])
next
  case (Some er)
  then obtain e rest where er: "remove_first (entry_is table name) (reg_entries reg) = Some (e, rest)" by (cases er) auto
  obtain a b where f: "find (entry_is table name) (reg_entries reg) = Some e" "reg_entries reg = a @ e # b" "rest = a @ b"
    using remove_first_find [OF er] by blast
  have "registry_ok (reg\<lparr>reg_entries := a @ b\<rparr>)"
    using registry_ok_remove [OF _ f(2)] assms(2) by (simp add: holds_registry_def)
  then obtain meta' where "registry_store M (reg\<lparr>reg_entries := a @ b\<rparr>) meta = Ok meta'"
    "holds_registry M meta' (reg\<lparr>reg_entries := a @ b\<rparr>)"
    "contents M meta' = (contents M meta)(META_INDEX_REGISTRY_KEY := Some (registry_bytes (reg\<lparr>reg_entries := a @ b\<rparr>)))"
    by (rule registry_store_holds [OF assms(1)])
  then have "registry_delete M meta table name = Ok (Some e, meta') \<and> holds_registry M meta' (reg\<lparr>reg_entries := a @ b\<rparr>) \<and>
      (\<forall>k. k \<noteq> META_INDEX_REGISTRY_KEY \<longrightarrow> contents M meta' k = contents M meta k)"
    using registry_load_holds [OF assms] er f(3) by (simp add: registry_delete_def)
  then show ?thesis using f by blast
qed

section \<open>Sequences of operations\<close>

text \<open>A registration or removal that succeeds, on a metadata table that holds a registry with room for it.\<close>

inductive registry_step :: "('m, string, bytes) redb \<Rightarrow> 'm \<Rightarrow> 'm \<Rightarrow> bool" for M where
  created: "holds_registry M meta reg \<Longrightarrow> registry_ok (registry_added reg table d) \<Longrightarrow>
     registry_create M meta table d = Ok (b, meta') \<Longrightarrow> registry_step M meta meta'"
| deleted: "registry_delete M meta table name = Ok (e, meta') \<Longrightarrow> registry_step M meta meta'"

text \<open>What one step keeps, of the registry \<open>reg\<close> before and \<open>reg'\<close> after.\<close>

definition registry_grows :: "registry \<Rightarrow> registry \<Rightarrow> bool" where
  "registry_grows reg reg' \<longleftrightarrow> next_id reg \<le> next_id reg' \<and>
     (\<forall>e \<in> set (reg_entries reg'). ent_id e < next_id reg \<longrightarrow> e \<in> set (reg_entries reg))"

lemma registry_grows_refl: "registry_grows reg reg"
  by (simp add: registry_grows_def)

lemma registry_grows_trans: "registry_grows a b \<Longrightarrow> registry_grows b c \<Longrightarrow> registry_grows a c"
  unfolding registry_grows_def by (meson order_less_le_trans order_trans)

lemma registry_step_grows:
  assumes "redb_ok M" "holds_registry M meta reg" "registry_inv reg" "registry_step M meta meta'"
  shows "\<exists>reg'. holds_registry M meta' reg' \<and> registry_inv reg' \<and> registry_grows reg reg'"
  using assms(4)
proof (cases rule: registry_step.cases)
  case (created reg0 table d b)
  have "reg0 = reg" using registry_load_holds [OF assms(1,2)] registry_load_holds [OF assms(1) created(1)] by simp
  with created have room: "registry_ok (registry_added reg table d)" by simp
  consider "meta' = meta" | "find (entry_is table (idx_name d)) (reg_entries reg) = None" "next_id reg \<noteq> 0xFFFFFFFF"
      "holds_registry M meta' (registry_added reg table d)"
    using create_cases [OF assms(1,2) room] created(3) by auto
  then show ?thesis
  proof cases
    case 1
    then show ?thesis using assms(2,3) registry_grows_refl by blast
  next
    case 2
    moreover have "registry_grows reg (registry_added reg table d)"
      using u32_increment [OF 2(2)] by (auto simp: registry_grows_def registry_added_def)
    ultimately show ?thesis using registry_inv_add [OF assms(3) 2(1,2)] unfolding registry_added_def by blast
  qed
next
  case (deleted table name e)
  then show ?thesis
    using delete_cases [OF assms(1,2), of table name] assms(2,3) registry_inv_remove [OF assms(3)] registry_grows_refl
    by (auto simp: registry_grows_def)
qed

lemma registry_steps_grow:
  assumes "(registry_step M)\<^sup>*\<^sup>* meta meta'" "redb_ok M" "holds_registry M meta reg" "registry_inv reg"
  shows "\<exists>reg'. holds_registry M meta' reg' \<and> registry_inv reg' \<and> registry_grows reg reg'"
  using assms
proof (induction rule: rtranclp_induct)
  case base
  then show ?case using registry_grows_refl by blast
next
  case (step y z)
  then obtain ry where y: "holds_registry M y ry" "registry_inv ry" "registry_grows reg ry" by blast
  then show ?case using registry_step_grows [OF step.prems(1) y(1,2) step.hyps(2)] registry_grows_trans [OF y(3)] by blast
qed

section \<open>Properties\<close>

definition sample_entry :: index_entry where
  "sample_entry = \<lparr>ent_table = ''t'', ent_id = 0, ent_def = sample_def\<rparr>"

definition sample_registry :: registry where
  "sample_registry = \<lparr>next_id = 1, reg_entries = [sample_entry]\<rparr>"

lemma sample_def_ok: "index_def_ok sample_def"
proof -
  have "utf8 ''by_age'' \<and> utf8 ''users/*'' \<and> vpath_ok [Name ''age''] \<and> vpath_ok [Name ''name''] \<and>
      utf8 (vpath_display [Name ''age'']) \<and> utf8 (vpath_display [Name ''name''])" by code_simp
  then show ?thesis
    by (simp add: index_def_ok_def sample_def_def column_ok_def text_ok_def column_desc_def column_asc_def vpath_display_def)
qed

lemma usize_large: "n < 2 ^ 32 \<Longrightarrow> n < usize_bound"
  by (rule u32_usize)

lemma sample_registry_ok: "registry_ok sample_registry"
proof -
  have "utf8 ''t''" by code_simp
  moreover have "length (registry_bytes sample_registry) < 2 ^ 32"
    by (simp add: registry_bytes_def sample_registry_def sample_entry_def entry_bytes_def index_def_bytes_def
        column_bytes_def sample_def_def column_desc_def column_asc_def vpath_display_def)
  ultimately show ?thesis
    using sample_def_ok usize_large
    by (simp add: registry_ok_def entry_ok_def sample_registry_def sample_entry_def text_ok_def)
qed

lemma sample_registry_holds: "holds_registry btree_redb [(''index_registry'', registry_bytes sample_registry)] sample_registry"
  using sample_registry_ok by (simp add: holds_registry_def bt_get_Cons)

lemma empty_registry_holds: "holds_registry btree_redb [] registry_default"
  using usize_large [of 8]
  by (simp add: holds_registry_def registry_default_def registry_ok_def registry_bytes_def put_u32_def)

text \<open>The index registry survives storage: every registry the program can hold is encoded without
  error and decodes to itself.\<close>

theorem registry_roundtrip:
  assumes "registry_ok reg"
  shows "andThen (registry_encode reg) registry_decode = Ok reg"
  using assms by (simp add: registry_encode_eq registry_decode_bytes)

theorem registry_roundtrip_witness: "andThen (registry_encode sample_registry) registry_decode = Ok sample_registry"
  by (rule registry_roundtrip [OF sample_registry_ok])

text \<open>The fast checks of the registry agree with the full decoder: \<open>has\<close>, which parses names only, says
  whether \<open>lookup\<close> finds an index, and \<open>any\<close>, which reads the count only, whether any index exists.\<close>

theorem registry_has_agrees:
  assumes "redb_ok M" "holds_registry M meta reg"
  shows "registry_has M meta table name = andThen (registry_lookup M meta table name) (\<lambda>e. Ok (e \<noteq> None)) \<and>
    registry_any M meta = andThen (registry_load M meta) (\<lambda>reg. Ok (reg_entries reg \<noteq> []))"
  using assms by (simp add: registry_has_holds registry_any_holds registry_lookup_def registry_load_holds)

theorem registry_has_agrees_witness:
  "registry_has btree_redb [(''index_registry'', registry_bytes sample_registry)] ''t'' ''by_age'' = Ok True \<and>
   registry_any btree_redb [(''index_registry'', registry_bytes sample_registry)] = Ok True"
  using registry_has_agrees [OF btree_redb_ok sample_registry_holds, of "''t''" "''by_age''"]
    registry_load_holds [OF btree_redb_ok sample_registry_holds]
  by (simp add: registry_lookup_def sample_registry_def sample_entry_def sample_def_def entry_is_def)

text \<open>Registering an index. A new name is registered under the allocator's next id and found
  afterwards, and no other lookup changes; an identical definition is accepted without a change; a
  different one under a taken name is refused.\<close>

theorem registry_create_law:
  assumes "redb_ok M" "holds_registry M meta reg" "registry_ok (registry_added reg table d)" "next_id reg \<noteq> 0xFFFFFFFF"
  shows "(registry_lookup M meta table (idx_name d) = Ok None \<longrightarrow>
      (\<exists>meta'. registry_create M meta table d = Ok (True, meta') \<and>
        registry_lookup M meta' table (idx_name d) = Ok (Some \<lparr>ent_table = table, ent_id = next_id reg, ent_def = d\<rparr>) \<and>
        (\<forall>t n. (t, n) \<noteq> (table, idx_name d) \<longrightarrow> registry_lookup M meta' t n = registry_lookup M meta t n))) \<and>
    (\<forall>e. registry_lookup M meta table (idx_name d) = Ok (Some e) \<longrightarrow>
      (if ent_def e = d then registry_create M meta table d = Ok (False, meta)
       else \<exists>m. registry_create M meta table d = Err (SchemaMismatch m)))"
proof -
  have look: "registry_lookup M m t n = Ok (find (entry_is t n) (reg_entries r))" if "holds_registry M m r" for m r t n
    using registry_load_holds [OF assms(1) that] by (simp add: registry_lookup_def)
  have find_new: "find (entry_is t n) (reg_entries (registry_added reg table d)) =
      (case find (entry_is t n) (reg_entries reg) of Some e \<Rightarrow> Some e
       | None \<Rightarrow> if t = table \<and> n = idx_name d then Some \<lparr>ent_table = table, ent_id = next_id reg, ent_def = d\<rparr> else None)" for t n
    by (auto simp: registry_added_def find_append entry_is_def split: option.split)
  show ?thesis
    using create_cases [OF assms(1-3)] assms(4) look [OF assms(2)] look [of _ "registry_added reg table d"]
    by (fastforce simp: find_new split: option.split)
qed

theorem registry_create_law_witness:
  "\<exists>meta'. registry_create btree_redb [] ''t'' sample_def = Ok (True, meta') \<and>
    registry_lookup btree_redb meta' ''t'' ''by_age'' = Ok (Some sample_entry)"
proof -
  have added: "registry_added registry_default ''t'' sample_def = sample_registry"
    by (simp add: registry_added_def registry_default_def sample_registry_def sample_entry_def)
  have "registry_lookup btree_redb [] ''t'' (idx_name sample_def) = Ok None"
    using registry_load_holds [OF btree_redb_ok empty_registry_holds] by (simp add: registry_lookup_def registry_default_def)
  then have "\<exists>meta'. registry_create btree_redb [] ''t'' sample_def = Ok (True, meta') \<and>
      registry_lookup btree_redb meta' ''t'' (idx_name sample_def) = Ok (Some \<lparr>ent_table = ''t'', ent_id = next_id registry_default, ent_def = sample_def\<rparr>)"
    using registry_create_law [OF btree_redb_ok empty_registry_holds, of "''t''" sample_def] sample_registry_ok
    unfolding added by (auto simp: registry_default_def)
  then show ?thesis by (simp add: sample_entry_def registry_default_def) (simp add: sample_def_def)
qed

text \<open>Removing an index. The entry removed is the one \<open>lookup\<close> found, it is not found afterwards, no
  other lookup changes, and the id allocator stays where it was.\<close>

theorem registry_delete_law:
  assumes "redb_ok M" "holds_registry M meta reg" "registry_inv reg"
  shows "\<exists>e meta'. registry_lookup M meta table name = Ok e \<and> registry_delete M meta table name = Ok (e, meta') \<and>
    registry_lookup M meta' table name = Ok None \<and>
    (\<forall>t n. (t, n) \<noteq> (table, name) \<longrightarrow> registry_lookup M meta' t n = registry_lookup M meta t n) \<and>
    (\<exists>reg'. registry_load M meta' = Ok reg' \<and> next_id reg' = next_id reg)"
proof -
  have look: "registry_lookup M m t n = Ok (find (entry_is t n) (reg_entries r))" if "holds_registry M m r" for m r t n
    using registry_load_holds [OF assms(1) that] by (simp add: registry_lookup_def)
  from delete_cases [OF assms(1,2), of table name] show ?thesis
  proof (elim disjE exE conjE)
    assume "find (entry_is table name) (reg_entries reg) = None" "registry_delete M meta table name = Ok (None, meta)"
    then show ?thesis using look [OF assms(2)] registry_load_holds [OF assms(1,2)] by auto
  next
    fix e a b meta'
    assume d: "find (entry_is table name) (reg_entries reg) = Some e" "reg_entries reg = a @ e # b"
      "registry_delete M meta table name = Ok (Some e, meta')" "holds_registry M meta' (reg\<lparr>reg_entries := a @ b\<rparr>)"
    have e: "entry_is table name e" using d(1) by (auto simp: find_Some_iff)
    have "\<not> entry_is table name x" if "x \<in> set (a @ b)" for x
      using that assms(3) e unfolding registry_inv_def d(2) entry_is_def by (force simp: image_iff)
    then have "find (entry_is table name) (a @ b) = None" unfolding find_None_iff by blast
    moreover have "find (entry_is t n) (a @ b) = find (entry_is t n) (a @ e # b)" if "(t, n) \<noteq> (table, name)" for t n
      using that e by (auto simp: find_append entry_is_def split: option.split)
    ultimately show ?thesis
      using look [OF assms(2)] look [OF d(4)] d registry_load_holds [OF assms(1) d(4)] by simp
  qed
qed

theorem registry_delete_law_witness:
  "\<exists>meta'. registry_delete btree_redb [(''index_registry'', registry_bytes sample_registry)] ''t'' ''by_age'' = Ok (Some sample_entry, meta')"
proof -
  have inv: "registry_inv sample_registry" by (simp add: registry_inv_def sample_registry_def sample_entry_def)
  have "registry_lookup btree_redb [(''index_registry'', registry_bytes sample_registry)] ''t'' ''by_age'' = Ok (Some sample_entry)"
    using registry_load_holds [OF btree_redb_ok sample_registry_holds]
    by (simp add: registry_lookup_def sample_registry_def sample_entry_def sample_def_def entry_is_def)
  then show ?thesis using registry_delete_law [OF btree_redb_ok sample_registry_holds inv, of "''t''" "''by_age''"] by auto
qed

text \<open>Index ids are never reused. However many indexes are registered and removed, the allocator only
  moves up, the ids in the registry stay distinct and below it, and an entry under an id that was
  already allocated is one that was there before: leftover keys of a removed index are never taken for
  those of another.\<close>

theorem index_ids_never_reused:
  assumes "redb_ok M" "holds_registry M meta reg" "registry_inv reg" "(registry_step M)\<^sup>*\<^sup>* meta meta'"
  shows "\<exists>reg'. registry_load M meta' = Ok reg' \<and> registry_inv reg' \<and> next_id reg \<le> next_id reg' \<and>
    (\<forall>e. e \<in> set (reg_entries reg') \<and> ent_id e < next_id reg \<longrightarrow> e \<in> set (reg_entries reg))"
  using registry_steps_grow [OF assms(4,1-3)] registry_load_holds [OF assms(1)] by (fastforce simp: registry_grows_def)

theorem index_ids_never_reused_witness:
  "\<exists>meta' reg'. registry_create btree_redb [] ''t'' sample_def = Ok (True, meta') \<and>
    registry_load btree_redb meta' = Ok reg' \<and> registry_inv reg' \<and> next_id registry_default \<le> next_id reg'"
proof -
  have added: "registry_added registry_default ''t'' sample_def = sample_registry"
    by (simp add: registry_added_def registry_default_def sample_registry_def sample_entry_def)
  obtain meta' where c: "registry_create btree_redb [] ''t'' sample_def = Ok (True, meta')"
    using create_cases [OF btree_redb_ok empty_registry_holds, of "''t''" sample_def] sample_registry_ok
    unfolding added by (auto simp: registry_default_def)
  have "registry_ok (registry_added registry_default ''t'' sample_def)" using sample_registry_ok added by simp
  then have "(registry_step btree_redb)\<^sup>*\<^sup>* [] meta'"
    using registry_step.created [OF empty_registry_holds _ c] by blast
  from index_ids_never_reused [OF btree_redb_ok empty_registry_holds _ this]
  show ?thesis using c by (auto simp: registry_inv_def registry_default_def)
qed

end
