(* ===== verification/Index_Maintenance.thy ===== *)
theory Index_Maintenance
  imports Index_Registry Archived Ops
begin

text \<open>
  Index patterns (\<open>index/pattern.rs\<close>), index keys (\<open>index/key.rs\<close>), prefix scans
  (\<open>index/scan.rs\<close>) and write-time maintenance (\<open>index/maintenance.rs\<close>), over the data table and the
  shared index table, both parameters. Maintenance changes the index table step by step, so its
  operations return the table as they leave it also when they fail.
\<close>

section \<open>Patterns\<close>

datatype pattern_seg = Lit string | Star

type_synonym pattern = "pattern_seg list"

fun pattern_tokens :: "string \<Rightarrow> string list \<Rightarrow> pattern res" where
  "pattern_tokens full [] = Ok []"
| "pattern_tokens full (token # tokens) =
     (if token = [] then Err (InvalidPath (''empty segment in index pattern '' @ [CHR 0x27] @ full @ [CHR 0x27]))
      else andThen (pattern_tokens full tokens) (\<lambda>segs.
             Ok ((if token = ''*'' then Star else Lit token) # segs)))"

definition pattern_parse :: "string \<Rightarrow> pattern res" where
  "pattern_parse pattern = (if pattern = [] then Ok [] else pattern_tokens pattern (split_on (CHR ''/'') pattern))"

definition pattern_depth :: "pattern \<Rightarrow> nat" where
  "pattern_depth segs = length segs"

definition pattern_children :: "('t, akey, bytes) redb \<Rightarrow> 't \<Rightarrow> akey \<Rightarrow> akey list res" where
  "pattern_children R data akey =
     andThen (read_entry R data akey) (\<lambda>entry.
       case entry of
         None \<Rightarrow> Ok []
       | Some entry \<Rightarrow>
           andThen (entry_split entry) (\<lambda>(kind, payload).
             if kind \<noteq> Dir then Ok []
             else andThen (dir_new payload) (\<lambda>d. andThen (dir_entries d) (\<lambda>es. Ok (map snd es)))))"

text \<open>\<open>walk\<close> over the segments from \<open>si\<close> on and the part of the scope from \<open>depth\<close> on; \<open>si\<close> and \<open>depth\<close>
  advance together. The entities pushed to \<open>out\<close> are returned in order.\<close>

fun pattern_walk :: "('t, akey, bytes) redb \<Rightarrow> 't \<Rightarrow> pattern \<Rightarrow> akey \<Rightarrow> string list \<Rightarrow> akey list res" where
  "pattern_walk R data [] cur scope = Ok [cur]"
| "pattern_walk R data (Lit name # segs) cur scope =
     (if scope \<noteq> [] \<and> hd scope \<noteq> name then Ok []
      else andThen (child_of R data cur name) (\<lambda>child.
        case child of
          Some child \<Rightarrow> pattern_walk R data segs child (tl scope)
        | None \<Rightarrow> Ok []))"
| "pattern_walk R data (Star # segs) cur scope =
     (if scope \<noteq> [] then
        andThen (child_of R data cur (hd scope)) (\<lambda>child.
          case child of
            Some child \<Rightarrow> pattern_walk R data segs child (tl scope)
          | None \<Rightarrow> Ok [])
      else andThen (pattern_children R data cur) (\<lambda>children.
        andThen (res_map (\<lambda>child. pattern_walk R data segs child []) children) (\<lambda>outs. Ok (concat outs))))"

definition affected_entities ::
  "('t, akey, bytes) redb \<Rightarrow> 't \<Rightarrow> pattern \<Rightarrow> apath \<Rightarrow> akey list res" where
  "affected_entities R data segs scope = pattern_walk R data segs akey_ROOT scope"

section \<open>Keys and scans\<close>

definition id_prefix :: "u32 \<Rightarrow> bytes" where
  "id_prefix ix = be_bytes ix"

definition entry_key :: "u32 \<Rightarrow> bytes \<Rightarrow> akey option \<Rightarrow> bytes" where
  "entry_key ix cols entity =
     (id_prefix ix @ cols) @ (case entity of Some akey \<Rightarrow> akey_into_bytes akey | None \<Rightarrow> [])"

definition starts_with :: "bytes \<Rightarrow> bytes \<Rightarrow> bool" where
  "starts_with b p \<longleftrightarrow> take (length p) b = p"

fun scan_loop :: "bool \<Rightarrow> bytes \<Rightarrow> (bytes \<times> bytes) list \<Rightarrow> akey list res" where
  "scan_loop unique lower [] = Ok []"
| "scan_loop unique lower ((k, v) # es) =
     (if \<not> starts_with k lower then Ok []
      else andThen (if unique then akey_try_from_bytes v else akey_try_from_bytes (drop (length k - 16) k)) (\<lambda>entity.
           andThen (scan_loop unique lower es) (\<lambda>entities. Ok (entity # entities))))"

definition scan_prefix ::
  "('i, bytes, bytes) redb \<Rightarrow> 'i \<Rightarrow> u32 \<Rightarrow> bytes \<Rightarrow> bool \<Rightarrow> akey list res" where
  "scan_prefix I index ix cols_prefix unique =
     (let lower = id_prefix ix @ cols_prefix
      in andThen (table_range I index lower) (\<lambda>es. scan_loop unique lower es))"

section \<open>Maintenance\<close>

definition column_scalar :: "chrono \<Rightarrow> ('t, akey, bytes) redb \<Rightarrow> 't \<Rightarrow> akey \<Rightarrow> vpath \<Rightarrow> scalar res" where
  "column_scalar C R data entity column =
     andThen (read_entry R data entity) (\<lambda>entry.
       case entry of
         None \<Rightarrow> Ok Null
       | Some entry \<Rightarrow>
           andThen (entry_split entry) (\<lambda>(kind, payload).
             if kind \<noteq> File then Ok Null
             else andThen (archived_new payload) (\<lambda>(blob, root).
               andThen (node_navigate blob root column) (\<lambda>node.
                 case node of
                   None \<Rightarrow> Ok Null
                 | Some off \<Rightarrow>
                     andThen (node_kind_of blob off) (\<lambda>kind.
                       if kind = KLeaf then node_scalar C blob off else Ok Null)))))"

definition index_key ::
  "chrono \<Rightarrow> ('t, akey, bytes) redb \<Rightarrow> 't \<Rightarrow> u32 \<Rightarrow> index_def \<Rightarrow> akey \<Rightarrow> (bytes \<times> bytes) res" where
  "index_key C R data ix d entity =
     andThen (res_map (\<lambda>column. column_scalar C R data entity (col_path column)) (idx_columns d)) (\<lambda>values.
       let cols = encode_columns d values
       in if idx_unique d then Ok (entry_key ix cols None, akey_into_bytes entity)
          else Ok (entry_key ix cols (Some entity), []))"

definition entries_for ::
  "chrono \<Rightarrow> ('t, akey, bytes) redb \<Rightarrow> 't \<Rightarrow> index_entry \<Rightarrow> apath \<Rightarrow> (bytes \<times> bytes) list res" where
  "entries_for C R data entry scope =
     andThen (pattern_parse (idx_pattern (ent_def entry))) (\<lambda>pattern.
     andThen (affected_entities R data pattern scope) (\<lambda>entities.
     res_map (index_key C R data (ent_id entry) (ent_def entry)) entities))"

definition set_index :: "'i res \<Rightarrow> ('i, unit) op" where
  "set_index r index =
     (case r of Ok i \<Rightarrow> (Ok (), i) | Err e \<Rightarrow> (Err e, index) | Panic p \<Rightarrow> (Panic p, index) | Diverge \<Rightarrow> (Diverge, index))"

definition maintenance_delete ::
  "chrono \<Rightarrow> ('t, akey, bytes) redb \<Rightarrow> ('i, bytes, bytes) redb \<Rightarrow> 't \<Rightarrow> index_entry list \<Rightarrow> apath \<Rightarrow> ('i, unit) op" where
  "maintenance_delete C R I data indexes scope =
     forOp indexes (\<lambda>entry.
       bindOp (liftOp (entries_for C R data entry scope)) (\<lambda>kvs.
         forOp kvs (\<lambda>(k, _) index. set_index (table_remove I index k) index)))"

definition guard_unique :: "('i, bytes, bytes) redb \<Rightarrow> 'i \<Rightarrow> bytes \<Rightarrow> bytes \<Rightarrow> string \<Rightarrow> unit res" where
  "guard_unique I index key v name =
     andThen (table_get I index key) (\<lambda>existing.
       case existing of
         Some e \<Rightarrow> if e \<noteq> v then Err (UniqueViolation name) else Ok ()
       | None \<Rightarrow> Ok ())"

definition maintenance_insert ::
  "chrono \<Rightarrow> ('t, akey, bytes) redb \<Rightarrow> ('i, bytes, bytes) redb \<Rightarrow> 't \<Rightarrow> index_entry list \<Rightarrow> apath \<Rightarrow> ('i, unit) op" where
  "maintenance_insert C R I data indexes scope =
     forOp indexes (\<lambda>entry.
       bindOp (liftOp (entries_for C R data entry scope)) (\<lambda>kvs.
         forOp kvs (\<lambda>(k, v).
           seqOp (if idx_unique (ent_def entry)
                  then readOp (\<lambda>index. guard_unique I index k v (idx_name (ent_def entry))) else retOp ())
             (\<lambda>index. set_index (table_insert I index k v) index))))"

definition delete_all_keys :: "bytes \<Rightarrow> (bytes \<times> bytes) list \<Rightarrow> bytes list" where
  "delete_all_keys prefix es = map fst (takeWhile (\<lambda>e. starts_with (fst e) prefix) es)"

definition maintenance_delete_all :: "('i, bytes, bytes) redb \<Rightarrow> index_entry \<Rightarrow> ('i, unit) op" where
  "maintenance_delete_all I entry =
     (let prefix = id_prefix (ent_id entry)
      in bindOp (readOp (\<lambda>index. table_range I index prefix)) (\<lambda>es.
           forOp (delete_all_keys prefix es) (\<lambda>k index. set_index (table_remove I index k) index)))"

section \<open>Prefix scans\<close>

lemma starts_with_iff: "starts_with b p \<longleftrightarrow> (\<exists>t. b = p @ t)"
  unfolding starts_with_def by (metis append_eq_conv_conj append_take_drop_id)

lemma starts_with_ge: "starts_with b p \<Longrightarrow> p \<le> b"
proof -
  have "p \<le> p @ t" for t :: bytes by (induction p) auto
  then show "starts_with b p \<Longrightarrow> p \<le> b" by (auto simp: starts_with_iff)
qed

text \<open>The keys with a given prefix are contiguous: past them nothing has the prefix.\<close>

lemma starts_with_convex: "p \<le> a \<Longrightarrow> a \<le> b \<Longrightarrow> starts_with b p \<Longrightarrow> starts_with a p"
proof -
  have "p \<le> a \<Longrightarrow> a \<le> p @ t \<Longrightarrow> \<exists>s. a = p @ s" for t
  proof (induction p arbitrary: a)
    case (Cons x p)
    then obtain y c where "a = y # c" by (cases a) auto
    then show ?case using Cons by (auto simp: less_le_not_le split: if_splits)
  qed simp
  then show "p \<le> a \<Longrightarrow> a \<le> b \<Longrightarrow> starts_with b p \<Longrightarrow> starts_with a p" by (auto simp: starts_with_iff)
qed

lemma takeWhile_prefix:
  assumes "bt_ok es" "\<And>e. e \<in> set es \<Longrightarrow> p \<le> fst e"
  shows "takeWhile (\<lambda>e. starts_with (fst e) p) es = filter (\<lambda>e. starts_with (fst e) p) es"
  using assms
proof (induction es)
  case (Cons e es)
  have "\<not> starts_with (fst e) p \<Longrightarrow> f \<in> set es \<Longrightarrow> \<not> starts_with (fst f) p" for f
    using Cons.prems starts_with_convex [of p "fst e" "fst f"] by (auto simp: bt_ok_def less_imp_le)
  then have "\<not> starts_with (fst e) p \<Longrightarrow> filter (\<lambda>e. starts_with (fst e) p) es = []" by (auto simp: filter_empty_conv)
  then show ?case using Cons by (auto simp: bt_ok_def)
qed simp

lemma range_prefix:
  assumes "redb_ok I" "table_range I index p = Ok es"
  shows "set (takeWhile (\<lambda>e. starts_with (fst e) p) es) = {e. starts_with (fst e) p \<and> contents I index (fst e) = Some (snd e)}"
    and "bt_ok (takeWhile (\<lambda>e. starts_with (fst e) p) es)"
proof -
  obtain es' where es': "table_range I index p = Ok es'" "bt_ok es'"
    "\<And>j v. (j, v) \<in> set es' \<longleftrightarrow> p \<le> j \<and> contents I index j = Some v"
    using redb_range [OF assms(1), where t = index and k = p] by blast
  have eq: "es' = es" using es'(1) assms(2) by simp
  have tw: "takeWhile (\<lambda>e. starts_with (fst e) p) es = filter (\<lambda>e. starts_with (fst e) p) es"
    by (rule takeWhile_prefix) (use es'(2,3) eq in auto)
  show "set (takeWhile (\<lambda>e. starts_with (fst e) p) es) = {e. starts_with (fst e) p \<and> contents I index (fst e) = Some (snd e)}"
    unfolding tw using es'(3) eq starts_with_ge by auto
  show "bt_ok (takeWhile (\<lambda>e. starts_with (fst e) p) es)"
    unfolding tw using es'(2) eq by (auto simp: bt_ok_def sorted_wrt_map intro: sorted_wrt_filter)
qed

end
