(* ===== verification/Write_Txn.thy ===== *)
theory Write_Txn
  imports Table_Ops Index_Maintenance
begin

text \<open>
  Write transactions (\<open>txn/write.rs\<close>): the guards of the public mutations, the reindexing bracket
  around each of them, the reads a writer makes of its own state, and the cursor that edits one file
  in place (\<open>access/mut_cursor.rs\<close>), in the default build. A transaction owns the
  table's data, the shared index table and the metadata table; opening a table of the transaction
  succeeds. The database's \<open>has_indexes\<close> flag is the field \<open>tx_indexed\<close>.
\<close>

section \<open>State\<close>

text \<open>The engine, the date arithmetic and the recursion depth, fixed for a run.\<close>

record ('t, 'i, 'm) env =
  env_data :: "('t, akey, bytes) redb"
  env_index :: "('i, bytes, bytes) redb"
  env_meta :: "('m, string, bytes) redb"
  env_chrono :: chrono
  env_fuel :: nat

record ('t, 'i, 'm) write_txn =
  tx_ctx :: "'t ctx"
  tx_index :: 'i
  tx_meta :: 'm
  tx_table :: string
  tx_indexed :: bool

definition write_txn_new :: "'t \<Rightarrow> 'i \<Rightarrow> 'm \<Rightarrow> string \<Rightarrow> bool \<Rightarrow> u64 \<Rightarrow> ('t, 'i, 'm) write_txn" where
  "write_txn_new data index meta table has_any_index rng =
     \<lparr>tx_ctx = \<lparr>ctx_data = data, ctx_buf = wb_new (\<not> has_any_index), ctx_rng = rng\<rparr>,
      tx_index = index, tx_meta = meta, tx_table = table, tx_indexed = has_any_index\<rparr>"

definition on_ctx :: "('t ctx, 'a) op \<Rightarrow> (('t, 'i, 'm) write_txn, 'a) op" where
  "on_ctx f s = (let (r, c) = f (tx_ctx s) in (r, s\<lparr>tx_ctx := c\<rparr>))"

definition on_index :: "('t \<Rightarrow> ('i, 'a) op) \<Rightarrow> (('t, 'i, 'm) write_txn, 'a) op" where
  "on_index f s = (let (r, i) = f (ctx_data (tx_ctx s)) (tx_index s) in (r, s\<lparr>tx_index := i\<rparr>))"

section \<open>Reads of the transaction's own state\<close>

fun resolve_buffered_from :: "('t, akey, bytes) redb \<Rightarrow> 't ctx \<Rightarrow> akey \<Rightarrow> apath \<Rightarrow> akey option res" where
  "resolve_buffered_from R c akey [] = Ok (Some akey)"
| "resolve_buffered_from R c akey (name # names) =
     andThen
       (case (if wb_dirty (ctx_buf c) then wb_read (\<lambda>dirs. map_of dirs akey) (ctx_buf c) else None) of
          Some children \<Rightarrow> Ok (bt_get children name)
        | None \<Rightarrow> child_of R (ctx_data c) akey name)
       (\<lambda>next. case next of
          Some child \<Rightarrow> resolve_buffered_from R c child names
        | None \<Rightarrow> Ok None)"

definition resolve_buffered :: "('t, akey, bytes) redb \<Rightarrow> 't ctx \<Rightarrow> apath \<Rightarrow> akey option res" where
  "resolve_buffered R c path = resolve_buffered_from R c akey_ROOT path"

definition resolve_with_kind ::
  "('t, akey, bytes) redb \<Rightarrow> 't ctx \<Rightarrow> apath \<Rightarrow> (akey option \<times> entry_kind option) res" where
  "resolve_with_kind R c path =
     andThen (resolve_buffered R c path) (\<lambda>found.
       case found of
         None \<Rightarrow> Ok (None, None)
       | Some akey \<Rightarrow>
           andThen
             (if wb_dirty (ctx_buf c) \<and> wb_read (\<lambda>dirs. map_of dirs akey \<noteq> None) (ctx_buf c) then Ok (Some Dir)
              else fetch_entry_kind R (ctx_data c) akey)
             (\<lambda>kind. Ok (Some akey, kind)))"

definition load_value_at :: "('t, 'i, 'm) env \<Rightarrow> ('t, 'i, 'm) write_txn \<Rightarrow> apath \<Rightarrow> vnode option res" where
  "load_value_at E s path =
     (let R = env_data E; c = tx_ctx s in
      andThen (resolve_buffered R c path) (\<lambda>found.
        case found of
          None \<Rightarrow> Ok None
        | Some akey \<Rightarrow>
            andThen
              (case wb_file_get akey (ctx_buf c) of
                 Some buffered \<Rightarrow> Ok (Some buffered)
               | None \<Rightarrow> read_entry R (ctx_data c) akey)
              (\<lambda>entry. case entry of
                 None \<Rightarrow> Ok None
               | Some entry \<Rightarrow>
                   andThen (entry_split entry) (\<lambda>(kind, payload).
                     case kind of
                       File \<Rightarrow> andThen (blob_decode (env_chrono E) payload) (\<lambda>v. Ok (Some v))
                     | Dir \<Rightarrow> Err (CannotAccess (quoted (apath_display path) @ '' is a directory, not a file''))))))"

section \<open>Reindexing\<close>

definition txn_indexes :: "('t, 'i, 'm) env \<Rightarrow> ('t, 'i, 'm) write_txn \<Rightarrow> index_entry list res" where
  "txn_indexes E s = registry_for_table (env_meta E) (tx_meta s) (tx_table s)"

text \<open>The write-out of buffered entries before maintenance reads the engine.\<close>

definition flush_and_disable :: "('t, akey, bytes) redb \<Rightarrow> ('t ctx, unit) op" where
  "flush_and_disable R c =
     (let ((ds, fs), wb) = wb_take_and_disable (ctx_buf c); c = c\<lparr>ctx_buf := wb\<rparr>
      in if ds \<noteq> [] \<or> fs \<noteq> [] then flush_buffered R ds fs c else (Ok (), c))"

definition reindex_around ::
  "('t, 'i, 'm) env \<Rightarrow> apath list \<Rightarrow> ('t ctx, 'a) op \<Rightarrow> (('t, 'i, 'm) write_txn, 'a) op" where
  "reindex_around E scopes app =
     bindOp (readOp (\<lambda>s. if tx_indexed s then txn_indexes E s else Ok [])) (\<lambda>indexes.
       if indexes = [] then on_ctx app
       else
         seqOp (on_ctx (flush_and_disable (env_data E)))
           (seqOp (forOp scopes (\<lambda>scope. on_index (\<lambda>data.
                     maintenance_delete (env_chrono E) (env_data E) (env_index E) data indexes scope)))
             (bindOp (on_ctx app) (\<lambda>result.
                seqOp (forOp scopes (\<lambda>scope. on_index (\<lambda>data.
                         maintenance_insert (env_chrono E) (env_data E) (env_index E) data indexes scope)))
                  (retOp result)))))"

section \<open>Mutations\<close>

definition refuse :: "string \<Rightarrow> ('s, 'a) op" where
  "refuse msg = liftOp (Err (CannotAccess msg))"

definition store_value_at ::
  "('t, 'i, 'm) env \<Rightarrow> apath \<Rightarrow> vnode \<Rightarrow> (('t, 'i, 'm) write_txn, unit) op" where
  "store_value_at E path v =
     (if apath_is_root path then refuse ''cannot store a file at the root''
      else reindex_around E [path] (store_value_into (env_fuel E) (env_data E) path v))"

definition store_blob_at ::
  "('t, 'i, 'm) env \<Rightarrow> apath \<Rightarrow> bytes \<Rightarrow> (('t, 'i, 'm) write_txn, unit) op" where
  "store_blob_at E path value_blob =
     (if apath_is_root path then refuse ''cannot store a file at the root''
      else reindex_around E [path] (store_blob_into (env_fuel E) (env_data E) path value_blob))"

definition put_scalar_at ::
  "('t, 'i, 'm) env \<Rightarrow> apath \<Rightarrow> (akey \<times> u64) option \<Rightarrow> vpath \<Rightarrow> scalar
     \<Rightarrow> (('t, 'i, 'm) write_txn, unit) op" where
  "put_scalar_at E path hint at scalar =
     reindex_around E [path] (put_scalar_into (env_fuel E) (env_chrono E) (env_data E) path hint at scalar)"

definition store_value :: "('t, 'i, 'm) env \<Rightarrow> arbor_arg \<Rightarrow> vnode \<Rightarrow> (('t, 'i, 'm) write_txn, unit) op" where
  "store_value E path v = bindOp (liftOp (into_arbor_path path)) (\<lambda>path. store_value_at E path v)"

definition txn_mkdir :: "('t, 'i, 'm) env \<Rightarrow> arbor_arg \<Rightarrow> (('t, 'i, 'm) write_txn, unit) op" where
  "txn_mkdir E path =
     bindOp (liftOp (into_arbor_path path)) (\<lambda>path.
       seqOp (on_ctx (ensure_dir (env_data E) path)) (retOp ()))"

definition txn_rm :: "('t, 'i, 'm) env \<Rightarrow> arbor_arg \<Rightarrow> (('t, 'i, 'm) write_txn, bool) op" where
  "txn_rm E path =
     bindOp (liftOp (into_arbor_path path)) (\<lambda>path.
       if apath_is_root path then refuse ''cannot remove the root''
       else reindex_around E [path] (rm_into (env_fuel E) (env_data E) path))"

definition names_start_with :: "apath \<Rightarrow> apath \<Rightarrow> bool" where
  "names_start_with names p \<longleftrightarrow> take (length p) names = p"

definition txn_mv :: "('t, 'i, 'm) env \<Rightarrow> arbor_arg \<Rightarrow> arbor_arg \<Rightarrow> (('t, 'i, 'm) write_txn, unit) op" where
  "txn_mv E src dst =
     bindOp (liftOp (into_arbor_path src)) (\<lambda>src.
     bindOp (liftOp (into_arbor_path dst)) (\<lambda>dst.
       if names_start_with dst src then refuse ''cannot move an a-node onto itself or into a descendant''
       else if apath_is_root src then refuse ''cannot move the root''
       else if apath_is_root dst then refuse ''cannot move onto the root''
       else reindex_around E [src, dst] (mv_into (env_fuel E) (env_data E) src dst)))"

definition txn_cp :: "('t, 'i, 'm) env \<Rightarrow> arbor_arg \<Rightarrow> arbor_arg \<Rightarrow> (('t, 'i, 'm) write_txn, unit) op" where
  "txn_cp E src dst =
     bindOp (liftOp (into_arbor_path src)) (\<lambda>src.
     bindOp (liftOp (into_arbor_path dst)) (\<lambda>dst.
       if names_start_with dst src then refuse ''cannot copy an a-node onto itself or into a descendant''
       else if apath_is_root dst then refuse ''cannot copy onto the root''
       else reindex_around E [dst] (cp_into (env_fuel E) (env_data E) src dst)))"

section \<open>The mutable cursor\<close>

record mut_cursor =
  cur_path :: apath
  cur_akey :: akey
  cur_epoch :: u64

definition fetch_mut :: "('t, 'i, 'm) env \<Rightarrow> ('t, 'i, 'm) write_txn \<Rightarrow> arbor_arg \<Rightarrow> mut_cursor option res" where
  "fetch_mut E s path =
     andThen (into_arbor_path path) (\<lambda>apath.
     andThen (resolve_with_kind (env_data E) (tx_ctx s) apath) (\<lambda>(resolved, kind).
       case (resolved, kind) of
         (Some akey, Some File) \<Rightarrow>
           Ok (Some \<lparr>cur_path = apath, cur_akey = akey, cur_epoch = wb_structure_epoch (ctx_buf (tx_ctx s))\<rparr>)
       | (Some _, Some Dir) \<Rightarrow> Err (CannotAccess (quoted (apath_display apath) @ '' is a directory, not a file''))
       | _ \<Rightarrow> Ok None))"

definition cursor_value :: "('t, 'i, 'm) env \<Rightarrow> ('t, 'i, 'm) write_txn \<Rightarrow> mut_cursor \<Rightarrow> vnode res" where
  "cursor_value E s cur =
     andThen (load_value_at E s (cur_path cur)) (\<lambda>v. Ok (case v of Some v \<Rightarrow> v | None \<Rightarrow> value_default))"

definition cursor_write :: "('t, 'i, 'm) env \<Rightarrow> mut_cursor \<Rightarrow> vnode \<Rightarrow> (('t, 'i, 'm) write_txn, unit) op" where
  "cursor_write E cur v = store_value_at E (cur_path cur) v"

definition cursor_scalar_at ::
  "('t, 'i, 'm) env \<Rightarrow> ('t, 'i, 'm) write_txn \<Rightarrow> mut_cursor \<Rightarrow> vpath \<Rightarrow> scalar option res" where
  "cursor_scalar_at E s cur at =
     andThen (cursor_value E s cur) (\<lambda>v. Ok (Option.bind (subtree v at) value_leaf))"

definition cursor_kind_at ::
  "('t, 'i, 'm) env \<Rightarrow> ('t, 'i, 'm) write_txn \<Rightarrow> mut_cursor \<Rightarrow> vpath \<Rightarrow> node_kind option res" where
  "cursor_kind_at E s cur at =
     andThen (cursor_value E s cur) (\<lambda>v. Ok (map_option value_node_kind (subtree v at)))"

definition cursor_len_at ::
  "('t, 'i, 'm) env \<Rightarrow> ('t, 'i, 'm) write_txn \<Rightarrow> mut_cursor \<Rightarrow> vpath \<Rightarrow> nat res" where
  "cursor_len_at E s cur at =
     andThen (cursor_value E s cur) (\<lambda>v.
       case subtree v at of
         Some (List l) \<Rightarrow> Ok (length l)
       | Some _ \<Rightarrow> Err (CannotAccess (quoted (vpath_display at) @ '' is not a list''))
       | None \<Rightarrow> Err (PathNotFound at))"

definition cursor_keys_at ::
  "('t, 'i, 'm) env \<Rightarrow> ('t, 'i, 'm) write_txn \<Rightarrow> mut_cursor \<Rightarrow> vpath \<Rightarrow> string list res" where
  "cursor_keys_at E s cur at =
     andThen (cursor_value E s cur) (\<lambda>v.
       case subtree v at of
         Some (Node m) \<Rightarrow> Ok (map fst m)
       | Some _ \<Rightarrow> Err (CannotAccess (quoted (vpath_display at) @ '' is not an object''))
       | None \<Rightarrow> Err (PathNotFound at))"

definition cursor_exists_at ::
  "('t, 'i, 'm) env \<Rightarrow> ('t, 'i, 'm) write_txn \<Rightarrow> mut_cursor \<Rightarrow> vpath \<Rightarrow> bool res" where
  "cursor_exists_at E s cur at = andThen (cursor_value E s cur) (\<lambda>v. Ok (subtree v at \<noteq> None))"

definition cursor_put_scalar ::
  "('t, 'i, 'm) env \<Rightarrow> mut_cursor \<Rightarrow> vpath \<Rightarrow> scalar \<Rightarrow> (('t, 'i, 'm) write_txn, unit) op" where
  "cursor_put_scalar E cur at scalar = put_scalar_at E (cur_path cur) (Some (cur_akey cur, cur_epoch cur)) at scalar"

definition cursor_ensure_container ::
  "('t, 'i, 'm) env \<Rightarrow> mut_cursor \<Rightarrow> vpath \<Rightarrow> bool \<Rightarrow> (('t, 'i, 'm) write_txn, unit) op" where
  "cursor_ensure_container E cur at as_list =
     bindOp (readOp (\<lambda>s. cursor_value E s cur)) (\<lambda>v.
       let fits = (case subtree v at of Some (List _) \<Rightarrow> as_list | Some (Node _) \<Rightarrow> \<not> as_list | _ \<Rightarrow> False);
           v = (if \<not> fits then snd (set_in v at (if as_list then List [] else Node [])) else v)
       in cursor_write E cur v)"

definition cursor_remove ::
  "('t, 'i, 'm) env \<Rightarrow> mut_cursor \<Rightarrow> vpath \<Rightarrow> (('t, 'i, 'm) write_txn, bool) op" where
  "cursor_remove E cur at =
     bindOp (readOp (\<lambda>s. cursor_value E s cur)) (\<lambda>v.
       let (removed, v) = remove_in v at
       in seqOp (cursor_write E cur v) (retOp removed))"

section \<open>Commit\<close>

text \<open>The flush of \<open>commit\<close>; the tables of the transaction after it are what the engine commits.\<close>

definition commit_flush :: "('t, 'i, 'm) env \<Rightarrow> (('t, 'i, 'm) write_txn, unit) op" where
  "commit_flush E s =
     (let ((ds, fs), wb) = wb_take (ctx_buf (tx_ctx s)); c = (tx_ctx s)\<lparr>ctx_buf := wb\<rparr>
      in if ds \<noteq> [] \<or> fs \<noteq> [] then on_ctx (flush_buffered (env_data E) ds fs) (s\<lparr>tx_ctx := c\<rparr>)
         else (Ok (), s\<lparr>tx_ctx := c\<rparr>))"

end
