(* ===== verification/Read_Txn.thy ===== *)
theory Read_Txn
  imports Write_Txn Readers
begin

text \<open>
  The read surface shared by read and write transactions (\<open>txn/grab.rs\<close>, \<open>txn/query.rs\<close>), the primitives
  a read transaction implements it with (\<open>txn/read.rs\<close>) over the per-table caches (\<open>cache.rs\<close>), and those of
  a write transaction (\<open>txn/write.rs\<close>), in the default build.

  The \<open>lru\<close> crate is not part of the repository: a cache is a value of an arbitrary type, and the
  operations on it are the fields of the record \<open>lru\<close>, with the capacity fixed. A lookup may reorder the cache, so it returns
  the cache too. Locks are taken and released within each operation and are never poisoned. The
  handle a read transaction keeps to its data table, opened on first use, is absent when the table
  does not exist in the snapshot.
\<close>

section \<open>Caches\<close>

record ('c, 'k, 'v) lru =
  lru_new :: 'c
  lru_get :: "'c \<Rightarrow> 'k \<Rightarrow> 'v option \<times> 'c"
  lru_put :: "'c \<Rightarrow> 'k \<Rightarrow> 'v \<Rightarrow> 'c"

record ('p, 'b) path_cache =
  paths :: 'p
  blobs :: 'b

record ('p, 'b) cache_ops =
  path_ops :: "('p, apath, u64 \<times> akey) lru"
  blob_ops :: "('b, u64 \<times> akey, bytes) lru"

definition path_cache_new :: "('p, 'b) cache_ops \<Rightarrow> ('p, 'b) path_cache" where
  "path_cache_new L = \<lparr>paths = lru_new (path_ops L), blobs = lru_new (blob_ops L)\<rparr>"

definition get_path :: "('p, 'b) cache_ops \<Rightarrow> u64 \<Rightarrow> apath \<Rightarrow> (('p, 'b) path_cache, akey option) op" where
  "get_path L generation path pc =
     (let (hit, ps) = lru_get (path_ops L) (paths pc) path
      in (Ok (Option.bind hit (\<lambda>(tag, akey). if tag = generation then Some akey else None)), pc\<lparr>paths := ps\<rparr>))"

definition put_path :: "('p, 'b) cache_ops \<Rightarrow> u64 \<Rightarrow> apath \<Rightarrow> akey \<Rightarrow> (('p, 'b) path_cache, unit) op" where
  "put_path L generation path akey pc =
     (Ok (), pc\<lparr>paths := lru_put (path_ops L) (paths pc) path (generation, akey)\<rparr>)"

definition get_blob :: "('p, 'b) cache_ops \<Rightarrow> u64 \<Rightarrow> akey \<Rightarrow> (('p, 'b) path_cache, bytes option) op" where
  "get_blob L generation akey pc =
     (let (hit, bs) = lru_get (blob_ops L) (blobs pc) (generation, akey) in (Ok hit, pc\<lparr>blobs := bs\<rparr>))"

definition put_blob :: "('p, 'b) cache_ops \<Rightarrow> u64 \<Rightarrow> akey \<Rightarrow> bytes \<Rightarrow> (('p, 'b) path_cache, unit) op" where
  "put_blob L generation akey blob pc =
     (Ok (), pc\<lparr>blobs := lru_put (blob_ops L) (blobs pc) (generation, akey) blob\<rparr>)"

section \<open>The primitives of the read surface\<close>

text \<open>The trait \<open>Grab\<close> as the table of its methods.\<close>

record 's grab =
  g_resolve :: "apath \<Rightarrow> ('s, akey option) op"
  g_entry_blob :: "akey \<Rightarrow> ('s, bytes option) op"
  g_lookup_index :: "string \<Rightarrow> ('s, index_entry option) op"
  g_scan_index :: "index_entry \<Rightarrow> bytes \<Rightarrow> ('s, akey list) op"
  g_affected_under :: "pattern \<Rightarrow> apath \<Rightarrow> ('s, akey list) op"

section \<open>Reads\<close>

definition is_a_directory :: "apath \<Rightarrow> adb_error" where
  "is_a_directory path = CannotAccess (quoted (apath_display path) @ '' is a directory, not a file'')"

text \<open>The common start of the reads: resolve, fetch, or answer \<open>none\<close>.\<close>

definition with_blob :: "'s grab \<Rightarrow> arbor_arg \<Rightarrow> 'a res \<Rightarrow> (apath \<Rightarrow> bytes \<Rightarrow> ('s, 'a) op) \<Rightarrow> ('s, 'a) op" where
  "with_blob G path none f =
     bindOp (liftOp (into_arbor_path path)) (\<lambda>path.
     bindOp (g_resolve G path) (\<lambda>akey.
       case akey of
         None \<Rightarrow> liftOp none
       | Some akey \<Rightarrow>
           bindOp (g_entry_blob G akey) (\<lambda>blob.
             case blob of None \<Rightarrow> liftOp none | Some blob \<Rightarrow> f path blob)))"

text \<open>Typed loading runs the value type's own \<open>load\<close> over a reader, here the parameter \<open>recompose\<close>.\<close>

definition grab_load :: "'s grab \<Rightarrow> (archived_reader \<Rightarrow> 'a res) \<Rightarrow> arbor_arg \<Rightarrow> ('s, 'a option) op" where
  "grab_load G recompose path =
     with_blob G path (Ok None) (\<lambda>path blob.
       bindOp (liftOp (get_entry_kind blob)) (\<lambda>kind.
         case kind of
           File \<Rightarrow> bindOp (liftOp (archived_reader_new blob 1)) (\<lambda>reader.
                    bindOp (liftOp (recompose reader)) (\<lambda>v. retOp (Some v)))
         | Dir \<Rightarrow> liftOp (Err (is_a_directory path))))"

definition grab_load_value :: "chrono \<Rightarrow> 's grab \<Rightarrow> arbor_arg \<Rightarrow> ('s, vnode option) op" where
  "grab_load_value C G path =
     with_blob G path (Ok None) (\<lambda>path blob.
       bindOp (liftOp (entry_split blob)) (\<lambda>(kind, payload).
         case kind of
           File \<Rightarrow> bindOp (liftOp (blob_decode C payload)) (\<lambda>v. retOp (Some v))
         | Dir \<Rightarrow> liftOp (Err (is_a_directory path))))"

text \<open>The accessor \<open>fetch\<close> opens is the reader it is opened over.\<close>

definition grab_fetch :: "'s grab \<Rightarrow> arbor_arg \<Rightarrow> ('s, archived_reader option) op" where
  "grab_fetch G path =
     with_blob G path (Ok None) (\<lambda>path blob.
       bindOp (liftOp (get_entry_kind blob)) (\<lambda>kind.
         case kind of
           File \<Rightarrow> bindOp (liftOp (archived_reader_new blob 1)) (\<lambda>reader. retOp (Some reader))
         | Dir \<Rightarrow> liftOp (Err (is_a_directory path))))"

definition grab_get :: "chrono \<Rightarrow> 's grab \<Rightarrow> arbor_arg \<Rightarrow> value_arg \<Rightarrow> ('s, scalar option) op" where
  "grab_get C G path at =
     bindOp (liftOp (andThen (into_arbor_path path) (\<lambda>_. into_value_path at))) (\<lambda>at.
     with_blob G path (Ok None) (\<lambda>_ blob.
       bindOp (liftOp (entry_split blob)) (\<lambda>(kind, payload).
         if kind \<noteq> File then retOp None
         else bindOp (liftOp (archived_new payload)) (\<lambda>(blob, root).
              bindOp (liftOp (node_navigate blob root at)) (\<lambda>node.
                case node of
                  None \<Rightarrow> retOp None
                | Some off \<Rightarrow> liftOp (node_scalar_if_leaf C blob off))))))"

definition grab_kind :: "'s grab \<Rightarrow> arbor_arg \<Rightarrow> ('s, entry_kind option) op" where
  "grab_kind G path =
     with_blob G path (Ok None) (\<lambda>_ blob. bindOp (liftOp (get_entry_kind blob)) (\<lambda>kind. retOp (Some kind)))"

definition grab_exists :: "'s grab \<Rightarrow> arbor_arg \<Rightarrow> ('s, bool) op" where
  "grab_exists G path = bindOp (grab_kind G path) (\<lambda>kind. retOp (kind \<noteq> None))"

definition child_entry :: "'s grab \<Rightarrow> string \<times> akey \<Rightarrow> ('s, entry) op" where
  "child_entry G = (\<lambda>(name, child).
     bindOp (g_entry_blob G child) (\<lambda>child_blob.
     bindOp (liftOp (ok_or child_blob (Corrupt ''a directory entry points at a missing a-node''))) (\<lambda>child_blob.
     bindOp (liftOp (get_entry_kind child_blob)) (\<lambda>kind. retOp (Entry name kind)))))"

definition grab_ls :: "'s grab \<Rightarrow> arbor_arg \<Rightarrow> ('s, entry list) op" where
  "grab_ls G path =
     bindOp (liftOp (into_arbor_path path)) (\<lambda>path.
     bindOp (g_resolve G path) (\<lambda>akey.
     bindOp (liftOp (ok_or akey (ValueNotFound path))) (\<lambda>akey.
     bindOp (g_entry_blob G akey) (\<lambda>blob.
       case blob of
         None \<Rightarrow> retOp []
       | Some blob \<Rightarrow>
           bindOp (liftOp (entry_split blob)) (\<lambda>(kind, payload).
             if kind \<noteq> Dir then liftOp (Err (CannotAccess (quoted (apath_display path) @ '' is a file, not a directory'')))
             else bindOp (liftOp (andThen (dir_new payload) (\<lambda>d. andThen (dir_len d) (\<lambda>_. dir_entries d)))) (\<lambda>es.
               mapOp (child_entry G) es))))))"

section \<open>Index queries\<close>

record index_query =
  q_index :: string
  q_prefix :: "scalar list"
  q_reverse :: bool
  q_root :: apath

definition query_new :: "string \<Rightarrow> index_query" where
  "query_new index = \<lparr>q_index = index, q_prefix = [], q_reverse = False, q_root = apath_root\<rparr>"

definition query_prefixed :: "scalar list \<Rightarrow> index_query \<Rightarrow> index_query" where
  "query_prefixed values q = q\<lparr>q_prefix := values\<rparr>"

definition query_reversed :: "index_query \<Rightarrow> index_query" where
  "query_reversed q = q\<lparr>q_reverse := True\<rparr>"

definition query_under :: "apath \<Rightarrow> index_query \<Rightarrow> index_query" where
  "query_under root q = q\<lparr>q_root := root\<rparr>"

definition load_entity :: "'s grab \<Rightarrow> (archived_reader \<Rightarrow> 'a res) \<Rightarrow> akey \<Rightarrow> ('s, 'a option) op" where
  "load_entity G recompose entity =
     bindOp (g_entry_blob G entity) (\<lambda>blob.
       case blob of
         None \<Rightarrow> retOp None
       | Some blob \<Rightarrow>
           bindOp (liftOp (get_entry_kind blob)) (\<lambda>kind.
             case kind of
               File \<Rightarrow> bindOp (liftOp (archived_reader_new blob 1)) (\<lambda>reader.
                        bindOp (liftOp (recompose reader)) (\<lambda>v. retOp (Some v)))
             | Dir \<Rightarrow> retOp None))"

text \<open>The keys a query selects, in the order it returns them; \<open>None\<close> for the early return of a scope no
  entity can lie in.\<close>

definition query_entities :: "'s grab \<Rightarrow> string \<Rightarrow> scalar list \<Rightarrow> bool \<Rightarrow> apath \<Rightarrow> ('s, akey list option) op" where
  "query_entities G index values reversed root =
     bindOp (g_lookup_index G index) (\<lambda>entry.
     bindOp (liftOp (ok_or entry (IndexNotFound index))) (\<lambda>entry.
       let d = ent_def entry in
       if length values > length (idx_columns d)
       then liftOp (Err (IndexArity index (length (idx_columns d)) (length values)))
       else
         bindOp (g_scan_index G entry (encode_columns d values)) (\<lambda>entities.
         bindOp
           (if root \<noteq> [] then
              bindOp (liftOp (pattern_parse (idx_pattern d))) (\<lambda>pattern.
                if pattern_depth pattern < length root then retOp None
                else bindOp (g_affected_under G pattern root) (\<lambda>under.
                       retOp (Some (filter (\<lambda>entity. entity \<in> set under) entities))))
            else retOp (Some entities))
           (\<lambda>entities. retOp (map_option (\<lambda>es. if reversed then rev es else es) entities)))))"

definition execute_query ::
  "'s grab \<Rightarrow> (archived_reader \<Rightarrow> 'a res) \<Rightarrow> string \<Rightarrow> scalar list \<Rightarrow> bool \<Rightarrow> apath \<Rightarrow> ('s, 'a list) op" where
  "execute_query G recompose index values reversed root =
     bindOp (query_entities G index values reversed root) (\<lambda>entities.
       case entities of
         None \<Rightarrow> retOp []
       | Some entities \<Rightarrow>
           bindOp (mapOp (load_entity G recompose) entities) (\<lambda>vs. retOp (List.map_filter (\<lambda>v. v) vs)))"

definition query_run :: "'s grab \<Rightarrow> (archived_reader \<Rightarrow> 'a res) \<Rightarrow> index_query \<Rightarrow> ('s, 'a list) op" where
  "query_run G recompose q = execute_query G recompose (q_index q) (q_prefix q) (q_reverse q) (q_root q)"

definition grab_find :: "'s grab \<Rightarrow> (archived_reader \<Rightarrow> 'a res) \<Rightarrow> string \<Rightarrow> scalar list \<Rightarrow> ('s, 'a list) op" where
  "grab_find G recompose index values = query_run G recompose (query_prefixed values (query_new index))"

section \<open>The primitives of a read transaction\<close>

record ('t, 'i, 'm, 'p, 'b) read_txn =
  rt_data :: "'t option"
  rt_index :: "'i option"
  rt_meta :: 'm
  rt_table :: string
  rt_cache :: "('p, 'b) path_cache"
  rt_generation :: u64

definition on_cache :: "(('p, 'b) path_cache, 'a) op \<Rightarrow> (('t, 'i, 'm, 'p, 'b) read_txn, 'a) op" where
  "on_cache f s = (let (r, pc) = f (rt_cache s) in (r, s\<lparr>rt_cache := pc\<rparr>))"

definition blob_at ::
  "('t, 'i, 'm) env \<Rightarrow> ('p, 'b) cache_ops \<Rightarrow> 't \<Rightarrow> akey \<Rightarrow> (('t, 'i, 'm, 'p, 'b) read_txn, bytes option) op" where
  "blob_at E L table akey s =
     (let g = rt_generation s in
      bindOp (on_cache (get_blob L g akey)) (\<lambda>hit.
        case hit of
          Some blob \<Rightarrow> retOp (Some blob)
        | None \<Rightarrow>
            bindOp (liftOp (table_get (env_data E) table akey)) (\<lambda>found.
              case found of
                Some blob \<Rightarrow> seqOp (on_cache (put_blob L g akey blob)) (retOp (Some blob))
              | None \<Rightarrow> retOp None)) s)"

fun resolve_walk_from ::
  "('t, 'i, 'm) env \<Rightarrow> ('p, 'b) cache_ops \<Rightarrow> 't \<Rightarrow> akey \<Rightarrow> apath \<Rightarrow> (('t, 'i, 'm, 'p, 'b) read_txn, akey option) op" where
  "resolve_walk_from E L table akey [] = retOp (Some akey)"
| "resolve_walk_from E L table akey (name # names) =
     bindOp (blob_at E L table akey) (\<lambda>blob.
       case blob of
         None \<Rightarrow> retOp None
       | Some blob \<Rightarrow>
           bindOp (liftOp (entry_child blob name)) (\<lambda>child.
             case child of
               Some child \<Rightarrow> resolve_walk_from E L table child names
             | None \<Rightarrow> retOp None))"

definition resolve_walk ::
  "('t, 'i, 'm) env \<Rightarrow> ('p, 'b) cache_ops \<Rightarrow> 't \<Rightarrow> apath \<Rightarrow> (('t, 'i, 'm, 'p, 'b) read_txn, akey option) op" where
  "resolve_walk E L table path =
     bindOp (resolve_walk_from E L table akey_ROOT path) (\<lambda>found.
       case found of
         None \<Rightarrow> retOp None
       | Some akey \<Rightarrow> seqOp (\<lambda>s. on_cache (put_path L (rt_generation s) path akey) s) (retOp (Some akey)))"

definition read_resolve ::
  "('t, 'i, 'm) env \<Rightarrow> ('p, 'b) cache_ops \<Rightarrow> apath \<Rightarrow> (('t, 'i, 'm, 'p, 'b) read_txn, akey option) op" where
  "read_resolve E L path =
     bindOp (\<lambda>s. on_cache (get_path L (rt_generation s) path) s) (\<lambda>hit.
       case hit of
         Some akey \<Rightarrow> retOp (Some akey)
       | None \<Rightarrow> (\<lambda>s. case rt_data s of
             None \<Rightarrow> (Ok (if apath_is_root path then Some akey_ROOT else None), s)
           | Some table \<Rightarrow> resolve_walk E L table path s))"

definition read_entry_blob ::
  "('t, 'i, 'm) env \<Rightarrow> ('p, 'b) cache_ops \<Rightarrow> akey \<Rightarrow> (('t, 'i, 'm, 'p, 'b) read_txn, bytes option) op" where
  "read_entry_blob E L akey =
     bindOp (\<lambda>s. on_cache (get_blob L (rt_generation s) akey) s) (\<lambda>hit.
       case hit of
         Some blob \<Rightarrow> retOp (Some blob)
       | None \<Rightarrow> (\<lambda>s. case rt_data s of
             Some table \<Rightarrow> blob_at E L table akey s
           | None \<Rightarrow> (Ok None, s)))"

definition read_grab ::
  "('t, 'i, 'm) env \<Rightarrow> ('p, 'b) cache_ops \<Rightarrow> ('t, 'i, 'm, 'p, 'b) read_txn grab" where
  "read_grab E L = \<lparr>
     g_resolve = read_resolve E L,
     g_entry_blob = read_entry_blob E L,
     g_lookup_index = (\<lambda>index. readOp (\<lambda>s. registry_lookup (env_meta E) (rt_meta s) (rt_table s) index)),
     g_scan_index = (\<lambda>entry cols. readOp (\<lambda>s.
       case rt_index s of
         Some index_table \<Rightarrow> scan_prefix (env_index E) index_table (ent_id entry) cols (idx_unique (ent_def entry))
       | None \<Rightarrow> Ok [])),
     g_affected_under = (\<lambda>pattern root. readOp (\<lambda>s.
       case rt_data s of
         Some data \<Rightarrow> affected_entities (env_data E) data pattern root
       | None \<Rightarrow> Ok []))\<rparr>"

section \<open>The primitives of a write transaction\<close>

definition write_entry_blob :: "('t, 'i, 'm) env \<Rightarrow> ('t, 'i, 'm) write_txn \<Rightarrow> akey \<Rightarrow> bytes option res" where
  "write_entry_blob E s akey =
     (let c = tx_ctx s in
      case (if wb_dirty (ctx_buf c) then wb_read (\<lambda>dirs. map_of dirs akey) (ctx_buf c) else None) of
        Some children \<Rightarrow> Ok (Some (dir_entry (encode_dir children)))
      | None \<Rightarrow>
          (case wb_file_get akey (ctx_buf c) of
             Some entry \<Rightarrow> Ok (Some entry)
           | None \<Rightarrow> read_entry (env_data E) (ctx_data c) akey))"

definition write_grab :: "('t, 'i, 'm) env \<Rightarrow> ('t, 'i, 'm) write_txn grab" where
  "write_grab E = \<lparr>
     g_resolve = (\<lambda>path. readOp (\<lambda>s. resolve_buffered (env_data E) (tx_ctx s) path)),
     g_entry_blob = (\<lambda>akey. readOp (\<lambda>s. write_entry_blob E s akey)),
     g_lookup_index = (\<lambda>index. readOp (\<lambda>s. registry_lookup (env_meta E) (tx_meta s) (tx_table s) index)),
     g_scan_index = (\<lambda>entry cols. readOp (\<lambda>s.
       scan_prefix (env_index E) (tx_index s) (ent_id entry) cols (idx_unique (ent_def entry)))),
     g_affected_under = (\<lambda>pattern root. readOp (\<lambda>s.
       affected_entities (env_data E) (ctx_data (tx_ctx s)) pattern root))\<rparr>"

end
