(* ===== verification/Cache_Laws.thy ===== *)
theory Cache_Laws
  imports Read_Txn
begin

text \<open>
  The caches never change what a read transaction reads. A cache is coherent with a history of
  table versions, one per generation, if every cached blob is the blob of its generation and every cached
  resolution is what walking the directories of its generation gives. Reads through a coherent
  cache return exactly what the snapshot holds, errors included, and leave the cache coherent.
\<close>

section \<open>LRU caches\<close>

text \<open>What the \<open>lru\<close> crate documents: a lookup returns what is held and does not change what is held; a put
  may evict anything, but nothing is held that was not put. \<open>keeps_new\<close> adds that the entry put is held.\<close>

definition held :: "('c, 'k, 'v) lru \<Rightarrow> 'c \<Rightarrow> 'k \<Rightarrow> 'v option" where
  "held L c k = fst (lru_get L c k)"

definition lru_ok :: "('c, 'k, 'v) lru \<Rightarrow> bool" where
  "lru_ok L \<longleftrightarrow>
     (\<forall>k. held L (lru_new L) k = None) \<and>
     (\<forall>c k k'. held L (snd (lru_get L c k)) k' = held L c k') \<and>
     (\<forall>c k v. held L (lru_put L c k v) k = Some v) \<and>
     (\<forall>c k v k' w. k' \<noteq> k \<longrightarrow> held L (lru_put L c k v) k' = Some w \<longrightarrow> held L c k' = Some w)"

definition caches_ok :: "('p, 'b) cache_ops \<Rightarrow> bool" where
  "caches_ok L \<longleftrightarrow> lru_ok (path_ops L) \<and> lru_ok (blob_ops L)"

lemma lru_okD:
  assumes "lru_ok L"
  shows "held L (lru_new L) k = None" "held L (snd (lru_get L c k)) = held L c" "held L (lru_put L c k v) k = Some v"
    "held L (lru_put L c k v) k' = Some w \<Longrightarrow> k' = k \<and> w = v \<or> held L c k' = Some w"
proof -
  show new: "held L (lru_new L) k = None" and put: "held L (lru_put L c k v) k = Some v"
    using assms unfolding lru_ok_def by blast+
  have "held L (snd (lru_get L c k)) k' = held L c k'" for k' using assms unfolding lru_ok_def by blast
  then show "held L (snd (lru_get L c k)) = held L c" by (rule ext)
  have "k' \<noteq> k \<Longrightarrow> held L (lru_put L c k v) k' = Some w \<Longrightarrow> held L c k' = Some w" using assms unfolding lru_ok_def by blast
  then show "held L (lru_put L c k v) k' = Some w \<Longrightarrow> k' = k \<and> w = v \<or> held L c k' = Some w"
    using put by (cases "k' = k") simp_all
qed

text \<open>A cache of bounded size as a list, most recently used first.\<close>

definition list_lru :: "nat \<Rightarrow> (('k \<times> 'v) list, 'k, 'v) lru" where
  "list_lru n = \<lparr>
     lru_new = [],
     lru_get = (\<lambda>c k. case map_of c k of None \<Rightarrow> (None, c) | Some v \<Rightarrow> (Some v, (k, v) # filter (\<lambda>e. fst e \<noteq> k) c)),
     lru_put = (\<lambda>c k v. (k, v) # take n (filter (\<lambda>e. fst e \<noteq> k) c))\<rparr>"

lemma map_of_filter_neq: "map_of (filter (\<lambda>e. fst e \<noteq> k) c) k' = (if k' = k then None else map_of c k')"
  by (induction c) auto

lemma map_of_take: "map_of (take n c) k = Some v \<Longrightarrow> map_of c k = Some v"
  by (induction c arbitrary: n) (auto simp: take_Cons split: nat.splits if_splits)

lemma list_lru_held: "held (list_lru n) c k = map_of c k"
  by (simp add: held_def list_lru_def split: option.split)

lemma list_lru_ok: "lru_ok (list_lru n :: (('k \<times> 'v) list, 'k, 'v) lru)"
proof -
  have get: "map_of (snd (lru_get (list_lru n) c k)) k' = map_of c k'" for c :: "('k \<times> 'v) list" and k k'
    by (auto simp: list_lru_def map_of_filter_neq split: option.split)
  have put: "k' \<noteq> k \<Longrightarrow> map_of (lru_put (list_lru n) c k v) k' = Some w \<Longrightarrow> map_of c k' = Some w" for c :: "('k \<times> 'v) list" and k k' v w
    by (auto dest!: map_of_take simp: list_lru_def map_of_filter_neq split: if_splits)
  have fresh: "map_of (lru_new (list_lru n :: (('k \<times> 'v) list, 'k, 'v) lru)) k = None" "map_of (lru_put (list_lru n) c k v) k = Some v" for c :: "('k \<times> 'v) list" and k v
    by (simp_all add: list_lru_def)
  show ?thesis unfolding lru_ok_def list_lru_held by (intro conjI allI impI; (rule fresh | rule get | erule (1) put))
qed

section \<open>Coherent caches\<close>

text \<open>The walk over the directories of one version of the table, without caches.\<close>

fun raw_walk :: "(akey \<Rightarrow> bytes option) \<Rightarrow> akey \<Rightarrow> apath \<Rightarrow> akey option res" where
  "raw_walk m k [] = Ok (Some k)"
| "raw_walk m k (name # names) =
     (case m k of
        None \<Rightarrow> Ok None
      | Some blob \<Rightarrow> andThen (entry_child blob name) (\<lambda>child.
          case child of Some child \<Rightarrow> raw_walk m child names | None \<Rightarrow> Ok None))"

definition coherent :: "('p, 'b) cache_ops \<Rightarrow> (u64 \<Rightarrow> akey \<Rightarrow> bytes option) \<Rightarrow> ('p, 'b) path_cache \<Rightarrow> bool" where
  "coherent L hist pc \<longleftrightarrow>
     (\<forall>p g k. held (path_ops L) (paths pc) p = Some (g, k) \<longrightarrow> raw_walk (hist g) akey_ROOT p = Ok (Some k)) \<and>
     (\<forall>g k b. held (blob_ops L) (blobs pc) (g, k) = Some b \<longrightarrow> hist g k = Some b)"

text \<open>The version of the table a read transaction holds; a table that does not exist reads as an empty one.\<close>

definition snapshot :: "('t, 'i, 'm) env \<Rightarrow> ('t, 'i, 'm, 'p, 'b) read_txn \<Rightarrow> akey \<Rightarrow> bytes option" where
  "snapshot E s = (case rt_data s of Some t \<Rightarrow> contents (env_data E) t | None \<Rightarrow> Map.empty)"

definition reading :: "('t, 'i, 'm) env \<Rightarrow> ('p, 'b) cache_ops \<Rightarrow> (u64 \<Rightarrow> akey \<Rightarrow> bytes option) \<Rightarrow>
    ('t, 'i, 'm, 'p, 'b) read_txn \<Rightarrow> bool" where
  "reading E L hist s \<longleftrightarrow> redb_ok (env_data E) \<and> caches_ok L \<and> coherent L hist (rt_cache s) \<and>
     hist (rt_generation s) = snapshot E s"

lemma coherent_new: "caches_ok L \<Longrightarrow> coherent L hist (path_cache_new L)"
  by (simp add: caches_ok_def coherent_def path_cache_new_def lru_okD(1))

text \<open>An operation that answers \<open>r\<close> and changes at most the cache, which stays coherent.\<close>

definition answers :: "('p, 'b) cache_ops \<Rightarrow> (u64 \<Rightarrow> akey \<Rightarrow> bytes option) \<Rightarrow>
    (('t, 'i, 'm, 'p, 'b) read_txn, 'a) op \<Rightarrow> ('t, 'i, 'm, 'p, 'b) read_txn \<Rightarrow> 'a res \<Rightarrow> bool" where
  "answers L hist f s r \<longleftrightarrow> (\<exists>pc. f s = (r, s\<lparr>rt_cache := pc\<rparr>) \<and> coherent L hist pc)"

lemma answersI: "f s = (r, s\<lparr>rt_cache := pc\<rparr>) \<Longrightarrow> coherent L hist pc \<Longrightarrow> answers L hist f s r"
  by (auto simp: answers_def)

lemma answersE:
  assumes "answers L hist f s r" "reading E L hist s"
  obtains s' where "f s = (r, s')" "reading E L hist s'" "snapshot E s' = snapshot E s"
    "rt_generation s' = rt_generation s" "rt_data s' = rt_data s" "\<exists>pc. s' = s\<lparr>rt_cache := pc\<rparr>"
  using assms by (force simp: answers_def reading_def snapshot_def)

lemma answers_bind:
  assumes "answers L hist f s r" "\<And>x pc. r = Ok x \<Longrightarrow> coherent L hist pc \<Longrightarrow> answers L hist (g x) (s\<lparr>rt_cache := pc\<rparr>) (h x)"
  shows "answers L hist (bindOp f g) s (andThen r h)"
proof -
  obtain pc where pc: "f s = (r, s\<lparr>rt_cache := pc\<rparr>)" "coherent L hist pc" using assms(1) by (auto simp: answers_def)
  show ?thesis
  proof (cases r)
    case (Ok x)
    then obtain pc' where "g x (s\<lparr>rt_cache := pc\<rparr>) = (h x, s\<lparr>rt_cache := pc'\<rparr>)" "coherent L hist pc'"
      using assms(2) [OF Ok pc(2)] by (auto simp: answers_def)
    then show ?thesis using pc Ok by (auto simp: answers_def)
  qed (use pc in \<open>auto simp: answers_def\<close>)
qed

lemma answers_pure [simp]: "answers L hist (retOp x) s r \<longleftrightarrow> r = Ok x \<and> coherent L hist (rt_cache s)"
  "answers L hist (liftOp y) s r \<longleftrightarrow> r = y \<and> coherent L hist (rt_cache s)"
proof -
  have own: "(\<exists>pc. s = s\<lparr>rt_cache := pc\<rparr> \<and> coherent L hist pc) \<longleftrightarrow> coherent L hist (rt_cache s)"
  proof
    assume "\<exists>pc. s = s\<lparr>rt_cache := pc\<rparr> \<and> coherent L hist pc"
    then obtain pc where pc: "s = s\<lparr>rt_cache := pc\<rparr>" "coherent L hist pc" by blast
    have "rt_cache s = rt_cache (s\<lparr>rt_cache := pc\<rparr>)" using pc(1) by (rule arg_cong)
    then show "coherent L hist (rt_cache s)" using pc(2) by simp
  next
    assume "coherent L hist (rt_cache s)"
    then show "\<exists>pc. s = s\<lparr>rt_cache := pc\<rparr> \<and> coherent L hist pc" by (intro exI [of _ "rt_cache s"]) simp
  qed
  show "answers L hist (retOp x) s r \<longleftrightarrow> r = Ok x \<and> coherent L hist (rt_cache s)"
    "answers L hist (liftOp y) s r \<longleftrightarrow> r = y \<and> coherent L hist (rt_cache s)"
    using own by (auto simp: answers_def)
qed

section \<open>The cache operations\<close>

lemma get_blob_answers:
  assumes "caches_ok L" "coherent L hist (rt_cache s)"
  shows "answers L hist (on_cache (get_blob L g k)) s (Ok (held (blob_ops L) (blobs (rt_cache s)) (g, k)))"
  using assms
  by (auto simp: answers_def on_cache_def get_blob_def held_def [symmetric] split_beta coherent_def caches_ok_def lru_okD(2))

lemma get_path_answers:
  assumes "caches_ok L" "coherent L hist (rt_cache s)"
  shows "answers L hist (on_cache (get_path L g p)) s
    (Ok (Option.bind (held (path_ops L) (paths (rt_cache s)) p) (\<lambda>(tag, k). if tag = g then Some k else None)))"
  using assms
  by (auto simp: answers_def on_cache_def get_path_def held_def [symmetric] split_beta coherent_def caches_ok_def lru_okD(2))

lemma put_blob_answers:
  assumes "caches_ok L" "coherent L hist (rt_cache s)" "hist g k = Some b"
  shows "answers L hist (on_cache (put_blob L g k b)) s (Ok ())"
proof (rule answersI)
  show "on_cache (put_blob L g k b) s =
      (Ok (), s\<lparr>rt_cache := (rt_cache s)\<lparr>blobs := lru_put (blob_ops L) (blobs (rt_cache s)) (g, k) b\<rparr>\<rparr>)"
    by (simp add: on_cache_def put_blob_def)
qed (use assms in \<open>auto simp: coherent_def caches_ok_def dest: lru_okD(4) [of "blob_ops L"]\<close>)

lemma put_path_answers:
  assumes "caches_ok L" "coherent L hist (rt_cache s)" "raw_walk (hist g) akey_ROOT p = Ok (Some k)"
  shows "answers L hist (on_cache (put_path L g p k)) s (Ok ())"
proof (rule answersI)
  show "on_cache (put_path L g p k) s =
      (Ok (), s\<lparr>rt_cache := (rt_cache s)\<lparr>paths := lru_put (path_ops L) (paths (rt_cache s)) p (g, k)\<rparr>\<rparr>)"
    by (simp add: on_cache_def put_path_def)
qed (use assms in \<open>auto simp: coherent_def caches_ok_def dest: lru_okD(4) [of "path_ops L"]\<close>)

section \<open>The primitives\<close>

lemma readingD:
  assumes "reading E L hist s"
  shows "redb_ok (env_data E)" "caches_ok L" "coherent L hist (rt_cache s)" "hist (rt_generation s) = snapshot E s"
  using assms by (auto simp: reading_def)

lemma reading_cache: "reading E L hist s \<Longrightarrow> coherent L hist pc \<Longrightarrow> reading E L hist (s\<lparr>rt_cache := pc\<rparr>)"
  by (simp add: reading_def snapshot_def)

lemma snapshot_cache [simp]: "snapshot E (s\<lparr>rt_cache := pc\<rparr>) = snapshot E s"
  by (simp add: snapshot_def)

lemma blob_at_answers:
  assumes "reading E L hist s" "rt_data s = Some t"
  shows "answers L hist (blob_at E L t k) s (Ok (snapshot E s k))"
proof -
  note r = readingD [OF assms(1)]
  let ?g = "rt_generation s"
  let ?miss = "\<lambda>hit. case hit of Some blob \<Rightarrow> retOp (Some blob) | None \<Rightarrow>
    bindOp (liftOp (table_get (env_data E) t k)) (\<lambda>found. case found of
      Some blob \<Rightarrow> seqOp (on_cache (put_blob L ?g k blob)) (retOp (Some blob)) | None \<Rightarrow> retOp None)"
  have get: "table_get (env_data E) t k = Ok (snapshot E s k)"
    using assms(2) by (simp add: snapshot_def redb_get [OF r(1)])
  have "answers L hist (bindOp (on_cache (get_blob L ?g k)) ?miss) s
      (andThen (Ok (held (blob_ops L) (blobs (rt_cache s)) (?g, k))) (\<lambda>_. Ok (snapshot E s k)))"
  proof (rule answers_bind [OF get_blob_answers [OF r(2,3)]])
    fix hit pc assume hit: "Ok (held (blob_ops L) (blobs (rt_cache s)) (?g, k)) = Ok hit" and pc: "coherent L hist pc"
    show "answers L hist (?miss hit) (s\<lparr>rt_cache := pc\<rparr>) (Ok (snapshot E s k))"
    proof (cases hit)
      case (Some b)
      then have "snapshot E s k = Some b" using hit r(3) by (auto simp: coherent_def r(4) [symmetric])
      then show ?thesis using Some pc by simp
    next
      case None
      have "answers L hist (bindOp (on_cache (put_blob L ?g k b)) (\<lambda>_. retOp (Some b))) (s\<lparr>rt_cache := pc\<rparr>) (andThen (Ok ()) (\<lambda>_. Ok (Some b)))"
        if "snapshot E s k = Some b" for b
        by (rule answers_bind [OF put_blob_answers [OF r(2)]]) (use pc that r(4) in auto)
      moreover have "answers L hist (?miss None) (s\<lparr>rt_cache := pc\<rparr>) (Ok (snapshot E s k)) \<longleftrightarrow> answers L hist
          (case snapshot E s k of Some b \<Rightarrow> seqOp (on_cache (put_blob L ?g k b)) (retOp (Some b)) | None \<Rightarrow> retOp None) (s\<lparr>rt_cache := pc\<rparr>) (Ok (snapshot E s k))"
        by (simp add: answers_def get bindOp_def)
      ultimately show ?thesis using None pc by (cases "snapshot E s k") (simp_all add: seqOp_def)
    qed
  qed
  then show ?thesis by (simp add: blob_at_def Let_def answers_def)
qed

lemma resolve_walk_from_answers:
  assumes "reading E L hist s" "rt_data s = Some t"
  shows "answers L hist (resolve_walk_from E L t k p) s (raw_walk (snapshot E s) k p)"
  using assms
proof (induction p arbitrary: k s)
  case Nil
  then show ?case by (simp add: readingD del: retOp_apply)
next
  case (Cons n p)
  have "answers L hist (resolve_walk_from E L t k (n # p)) s (andThen (Ok (snapshot E s k)) (\<lambda>blob. case blob of None \<Rightarrow> Ok None
      | Some blob \<Rightarrow> andThen (entry_child blob n) (\<lambda>child. case child of Some child \<Rightarrow> raw_walk (snapshot E s) child p | None \<Rightarrow> Ok None)))"
    unfolding resolve_walk_from.simps
  proof (rule answers_bind [OF blob_at_answers [OF Cons.prems]], goal_cases)
    case (1 blob pc)
    note rd = reading_cache [OF Cons.prems(1) 1(2)]
    show ?case
    proof (cases blob)
      case (Some b)
      have "answers L hist (bindOp (liftOp (entry_child b n)) (\<lambda>child. case child of Some child \<Rightarrow> resolve_walk_from E L t child p | None \<Rightarrow> retOp None))
          (s\<lparr>rt_cache := pc\<rparr>) (andThen (entry_child b n) (\<lambda>child. case child of Some child \<Rightarrow> raw_walk (snapshot E s) child p | None \<Rightarrow> Ok None))"
      proof (rule answers_bind, goal_cases)
        case 1
        then show ?case using readingD(3) [OF rd] by simp
      next
        case (2 child pc')
        then show ?case using Cons.IH [OF reading_cache [OF rd]] Cons.prems(2) by (cases child) simp_all
      qed
      then show ?thesis using Some by simp
    qed (use readingD(3) [OF rd] in simp)
  qed
  then show ?case by simp
qed

lemma read_resolve_answers:
  assumes "reading E L hist s"
  shows "answers L hist (read_resolve E L p) s (raw_walk (snapshot E s) akey_ROOT p)"
proof -
  note r = readingD [OF assms]
  let ?hit = "Option.bind (held (path_ops L) (paths (rt_cache s)) p) (\<lambda>(tag, k). if tag = rt_generation s then Some k else None)"
  let ?go = "\<lambda>hit. case hit of Some akey \<Rightarrow> retOp (Some akey) | None \<Rightarrow> (\<lambda>s. case rt_data s of
      None \<Rightarrow> (Ok (if apath_is_root p then Some akey_ROOT else None), s) | Some table \<Rightarrow> resolve_walk E L table p s)"
  have "answers L hist (bindOp (\<lambda>s. on_cache (get_path L (rt_generation s) p) s) ?go) s
      (andThen (Ok ?hit) (\<lambda>_. raw_walk (snapshot E s) akey_ROOT p))"
  proof (rule answers_bind, goal_cases)
    case 1
    then show ?case using get_path_answers [OF r(2,3)] by (simp add: answers_def)
  next
    case (2 hit pc)
    show ?case
    proof (cases hit)
      case (Some k)
      then have "held (path_ops L) (paths (rt_cache s)) p = Some (rt_generation s, k)"
        using 2(1) by (auto split: if_splits bind_splits)
      then have "raw_walk (hist (rt_generation s)) akey_ROOT p = Ok (Some k)" using r(3) by (simp add: coherent_def)
      then show ?thesis using Some 2(2) r(4) by simp
    next
      case None
      show ?thesis
      proof (cases "rt_data s")
        case None': None
        have "raw_walk Map.empty akey_ROOT p = Ok (if apath_is_root p then Some akey_ROOT else None)"
          by (cases p) (simp_all add: apath_is_root_def)
        then show ?thesis using None None' 2(2) by (auto simp: answers_def snapshot_def)
      next
        case (Some t)
        note rd = reading_cache [OF assms 2(2)]
        have "answers L hist (resolve_walk E L t p) (s\<lparr>rt_cache := pc\<rparr>) (andThen (raw_walk (snapshot E s) akey_ROOT p) Ok)"
          unfolding resolve_walk_def
        proof (rule answers_bind, goal_cases)
          case 1
          then show ?case using resolve_walk_from_answers [OF rd] Some by simp
        next
          case (2 found pc')
          have "answers L hist (on_cache (put_path L (rt_generation s) p k)) (s\<lparr>rt_cache := pc'\<rparr>) (Ok ())" if "found = Some k" for k
            by (rule put_path_answers [OF r(2)]) (use 2 that r(4) in auto)
          then show ?case using 2 by (cases found) (auto simp: answers_def seqOp_def bindOp_def)
        qed
        moreover have "andThen x Ok = x" for x :: "akey option res" by (cases x) simp_all
        ultimately show ?thesis using None Some by (simp add: answers_def)
      qed
    qed
  qed
  then show ?thesis by (simp add: read_resolve_def)
qed

lemma read_entry_blob_answers:
  assumes "reading E L hist s"
  shows "answers L hist (read_entry_blob E L k) s (Ok (snapshot E s k))"
proof -
  note r = readingD [OF assms]
  let ?hit = "held (blob_ops L) (blobs (rt_cache s)) (rt_generation s, k)"
  let ?go = "\<lambda>hit. case hit of Some blob \<Rightarrow> retOp (Some blob) | None \<Rightarrow> (\<lambda>s. case rt_data s of
      Some table \<Rightarrow> blob_at E L table k s | None \<Rightarrow> (Ok None, s))"
  have "answers L hist (bindOp (\<lambda>s. on_cache (get_blob L (rt_generation s) k) s) ?go) s (andThen (Ok ?hit) (\<lambda>_. Ok (snapshot E s k)))"
  proof (rule answers_bind, goal_cases)
    case 1
    then show ?case using get_blob_answers [OF r(2,3)] by (simp add: answers_def)
  next
    case (2 hit pc)
    show ?case
    proof (cases hit)
      case (Some b)
      then have "snapshot E s k = Some b" using 2(1) r(3) by (auto simp: coherent_def r(4) [symmetric])
      then show ?thesis using Some 2(2) by simp
    next
      case None
      then show ?thesis using 2(2) blob_at_answers [OF reading_cache [OF assms 2(2)]]
        by (cases "rt_data s") (auto simp: answers_def snapshot_def)
    qed
  qed
  then show ?thesis by (simp add: read_entry_blob_def)
qed

end
