(* ===== verification/Tree_Heap.thy ===== *)
theory Tree_Heap
  imports Dir_Codec "HOL-Library.Sublist"
begin

text \<open>
  The abstract state of a table. A table stores a-nodes under keys; a directory names its children by
  key. Two abstractions of that state are used by the laws of the table operations:

  \<^item> a \<open>heap\<close> maps keys to directories and files, with the byte encodings removed;
  \<^item> a file system maps paths to what is found there: nothing, a directory, or a document.

  \<open>files_at\<close> is the abstraction from the first to the second. It is well behaved on heaps that are
  \<open>tree\<close>s below the root. The lemmas say what the elementary changes of a heap (attaching a node,
  unlinking one, deleting an unreachable part) do to the paths.
\<close>

section \<open>Heaps and paths\<close>

datatype fnode = DirN "(string, akey) btree" | FileN bytes

type_synonym heap = "akey \<Rightarrow> fnode option"

datatype found = Directory | Document bytes

type_synonym file_system = "apath \<Rightarrow> found option"

definition child_at :: "heap \<Rightarrow> akey \<Rightarrow> string \<Rightarrow> akey option" where
  "child_at H k n = (case H k of Some (DirN m) \<Rightarrow> bt_get m n | _ \<Rightarrow> None)"

fun lookup :: "heap \<Rightarrow> akey \<Rightarrow> apath \<Rightarrow> akey option" where
  "lookup H k [] = Some k"
| "lookup H k (n # ns) = (case child_at H k n of Some c \<Rightarrow> lookup H c ns | None \<Rightarrow> None)"

fun shown :: "fnode \<Rightarrow> found" where
  "shown (DirN m) = Directory"
| "shown (FileN b) = Document b"

definition files_at :: "heap \<Rightarrow> file_system" where
  "files_at H p = (case lookup H akey_ROOT p of Some k \<Rightarrow> map_option shown (H k) | None \<Rightarrow> None)"

text \<open>Every directory fits its format, children exist and have one parent, and the root is a
  directory if it is there at all.\<close>

definition tree :: "heap \<Rightarrow> bool" where
  "tree H \<longleftrightarrow>
     (\<forall>k m. H k = Some (DirN m) \<longrightarrow> dir_ok m) \<and>
     (\<forall>k n c. child_at H k n = Some c \<longrightarrow> c \<noteq> akey_ROOT \<and> H c \<noteq> None) \<and>
     (\<forall>k n c k' n'. child_at H k n = Some c \<longrightarrow> child_at H k' n' = Some c \<longrightarrow> k = k' \<and> n = n') \<and>
     (\<forall>b. H akey_ROOT \<noteq> Some (FileN b))"

text \<open>The a-nodes of a subtree, its top included.\<close>

definition below :: "heap \<Rightarrow> akey \<Rightarrow> akey set" where
  "below H k = {x. \<exists>p. lookup H k p = Some x}"

section \<open>Lookup\<close>

lemma lookup_append: "lookup H k (p @ q) = (case lookup H k p of Some c \<Rightarrow> lookup H c q | None \<Rightarrow> None)"
  by (induction p arbitrary: k) (auto split: option.split)

lemma lookup_snoc: "lookup H k (p @ [n]) = (case lookup H k p of Some c \<Rightarrow> child_at H c n | None \<Rightarrow> None)"
  by (auto simp: lookup_append split: option.split)

lemma lookup_snocE:
  assumes "lookup H k (p @ [n]) = Some x"
  obtains c where "lookup H k p = Some c" "child_at H c n = Some x"
  using assms by (auto simp: lookup_snoc split: option.splits)

lemma lookup_prefix: "lookup H k (p @ q) = Some x \<Longrightarrow> \<exists>c. lookup H k p = Some c \<and> lookup H c q = Some x"
  by (auto simp: lookup_append split: option.splits)

lemma treeD:
  assumes "tree H"
  shows tree_dir_ok: "H k = Some (DirN m) \<Longrightarrow> dir_ok m"
    and tree_child: "child_at H k n = Some c \<Longrightarrow> c \<noteq> akey_ROOT \<and> H c \<noteq> None"
    and tree_parent: "child_at H k n = Some c \<Longrightarrow> child_at H k' n' = Some c \<Longrightarrow> k = k' \<and> n = n'"
    and tree_root: "H akey_ROOT \<noteq> Some (FileN b)"
  using assms by (auto simp: tree_def)

text \<open>In a tree an a-node has one path.\<close>

lemma lookup_inj:
  assumes "tree H" "lookup H akey_ROOT p = Some x" "lookup H akey_ROOT q = Some x"
  shows "p = q"
  using assms(2,3)
proof (induction p arbitrary: x q rule: rev_induct)
  case Nil
  then show ?case
    by (cases q rule: rev_cases) (auto elim!: lookup_snocE dest: tree_child [OF assms(1)])
next
  case (snoc n p)
  from snoc.prems(1) obtain c where c: "lookup H akey_ROOT p = Some c" "child_at H c n = Some x"
    by (rule lookup_snocE)
  show ?case
  proof (cases q rule: rev_cases)
    case Nil
    then show ?thesis using c snoc.prems tree_child [OF assms(1) c(2)] by simp
  next
    case (snoc q' n')
    then obtain c' where c': "lookup H akey_ROOT q' = Some c'" "child_at H c' n' = Some x"
      using snoc.prems(2) by (blast elim: lookup_snocE)
    then have "c = c'" "n = n'" using tree_parent [OF assms(1) c(2) c'(2)] by auto
    then show ?thesis using snoc snoc.IH [OF c(1)] c'(1) by simp
  qed
qed

lemma lookup_present: "tree H \<Longrightarrow> lookup H akey_ROOT p = Some x \<Longrightarrow> p \<noteq> [] \<Longrightarrow> H x \<noteq> None"
  by (cases p rule: rev_cases) (auto elim!: lookup_snocE dest: tree_child)

text \<open>Lookup only reads the a-nodes it passes.\<close>

lemma lookup_cong:
  assumes "\<And>r x. strict_prefix r p \<Longrightarrow> lookup H k r = Some x \<Longrightarrow> H' x = H x"
  shows "lookup H' k p = lookup H k p"
  using assms
proof (induction p arbitrary: k)
  case (Cons n p)
  have "H' k = H k" using Cons.prems [of "[]" k] by simp
  then have eq: "child_at H' k n = child_at H k n" by (simp add: child_at_def)
  have "lookup H' c p = lookup H c p" if "child_at H k n = Some c" for c
  proof (rule Cons.IH)
    fix r x assume "strict_prefix r p" "lookup H c r = Some x"
    then show "H' x = H x" using Cons.prems [of "n # r" x] that by simp
  qed
  then show ?case by (simp add: eq split: option.split)
qed simp

lemma below_refl [simp]: "k \<in> below H k"
  by (auto simp: below_def intro: exI [of _ "[]"])

lemma below_child: "child_at H k n = Some c \<Longrightarrow> below H c \<subseteq> below H k"
  by (auto simp: below_def) (metis lookup.simps(2) option.simps(5))

lemma below_step: "x \<in> below H k \<Longrightarrow> child_at H x n = Some c \<Longrightarrow> c \<in> below H k"
  by (auto simp: below_def) (metis lookup_snoc option.simps(5))

lemma below_lookup: "lookup H k p = Some x \<Longrightarrow> x \<in> below H k"
  by (auto simp: below_def)

lemma below_cases: "below H k = insert k (\<Union>n c. if child_at H k n = Some c then below H c else {})"
proof
  show "below H k \<subseteq> insert k (\<Union>n c. if child_at H k n = Some c then below H c else {})"
  proof
    fix x assume "x \<in> below H k"
    then obtain p where p: "lookup H k p = Some x" by (auto simp: below_def)
    then show "x \<in> insert k (\<Union>n c. if child_at H k n = Some c then below H c else {})"
    proof (cases p)
      case (Cons n q)
      then obtain c where "child_at H k n = Some c" "x \<in> below H c"
        using p by (auto simp: below_def split: option.splits)
      then show ?thesis by auto
    qed auto
  qed
  show "insert k (\<Union>n c. if child_at H k n = Some c then below H c else {}) \<subseteq> below H k"
    using below_child by (fastforce split: if_splits)
qed

text \<open>Below a reachable a-node, entering from outside is possible at its top only.\<close>

lemma below_entry:
  assumes "tree H" "lookup H akey_ROOT q = Some d" "child_at H k n = Some c" "c \<in> below H d" "c \<noteq> d"
  shows "k \<in> below H d"
proof -
  obtain p where p: "lookup H d p = Some c" using assms(4) by (auto simp: below_def)
  then obtain p' n' where "p = p' @ [n']" using assms(5) by (cases p rule: rev_cases) auto
  then obtain k' where k': "lookup H d p' = Some k'" "child_at H k' n' = Some c"
    using p by (blast elim: lookup_snocE)
  then have "k' = k" using tree_parent [OF assms(1)] assms(3) by blast
  then show ?thesis using k' by (auto simp: below_def)
qed

lemma lookup_below:
  assumes "tree H" "lookup H akey_ROOT q = Some d" "lookup H akey_ROOT p = Some x"
  shows "x \<in> below H d \<longleftrightarrow> prefix q p"
proof
  assume "x \<in> below H d"
  then obtain s where "lookup H d s = Some x" by (auto simp: below_def)
  then have "lookup H akey_ROOT (q @ s) = Some x" using assms(2) by (simp add: lookup_append)
  then show "prefix q p" using lookup_inj [OF assms(1) assms(3)] by auto
next
  assume "prefix q p"
  then show "x \<in> below H d" using assms(2,3) by (auto simp: prefix_def lookup_append below_def)
qed

lemma root_not_below: "tree H \<Longrightarrow> lookup H akey_ROOT q = Some d \<Longrightarrow> q \<noteq> [] \<Longrightarrow> akey_ROOT \<notin> below H d"
  using lookup_below [of H q d "[]" akey_ROOT] by simp

section \<open>Elementary changes\<close>

text \<open>Replacing the child map of a reachable directory, when no new child leads back to it.\<close>

definition step_into :: "heap \<Rightarrow> akey option \<Rightarrow> apath \<Rightarrow> akey option" where
  "step_into H c s = (case c of Some c \<Rightarrow> lookup H c s | None \<Rightarrow> None)"

lemma lookup_unreached: "k \<notin> below H c \<Longrightarrow> lookup (H(k := v)) c s = lookup H c s"
  by (rule lookup_cong) (auto dest: below_lookup)

lemma lookup_dir_update:
  assumes "tree H" "lookup H akey_ROOT q = Some k"
    and "\<And>n c. bt_get m' n = Some c \<Longrightarrow> k \<notin> below H c"
  shows "lookup (H(k \<mapsto> DirN m')) akey_ROOT r =
    (if strict_prefix q r then step_into H (bt_get m' (r ! length q)) (drop (Suc (length q)) r)
     else lookup H akey_ROOT r)"
proof (cases "strict_prefix q r")
  case True
  then obtain n s where r: "r = q @ n # s" by (blast elim: strict_prefixE')
  have "lookup (H(k \<mapsto> DirN m')) akey_ROOT q = lookup H akey_ROOT q"
    by (rule lookup_cong) (use lookup_inj [OF assms(1,2)] in \<open>fastforce simp: strict_prefix_def\<close>)
  then have "lookup (H(k \<mapsto> DirN m')) akey_ROOT r = lookup (H(k \<mapsto> DirN m')) k (n # s)"
    using assms(2) by (simp add: r lookup_append)
  also have "\<dots> = step_into H (bt_get m' n) s"
    using lookup_unreached [OF assms(3)] by (auto simp: child_at_def step_into_def split: option.split)
  finally show ?thesis using True by (simp add: r)
next
  case False
  have "lookup (H(k \<mapsto> DirN m')) akey_ROOT r = lookup H akey_ROOT r"
  proof (rule lookup_cong)
    fix p x assume p: "strict_prefix p r" "lookup H akey_ROOT p = Some x"
    then have "x \<noteq> k" using False lookup_inj [OF assms(1) assms(2), of p] by auto
    then show "(H(k \<mapsto> DirN m')) x = H x" by simp
  qed
  then show ?thesis using False by simp
qed

text \<open>An a-node no path leads to can be written freely.\<close>

lemma lookup_fresh:
  assumes "tree H" "H c = None" "c \<noteq> akey_ROOT"
  shows "lookup (H(c := v)) akey_ROOT r = lookup H akey_ROOT r"
proof (rule lookup_cong)
  fix p x assume "lookup H akey_ROOT p = Some x"
  then have "x \<noteq> c" using lookup_present [OF assms(1), of p x] assms(2,3) by (cases "p = []") auto
  then show "(H(c := v)) x = H x" by simp
qed

lemma child_at_fresh:
  assumes "tree H" "H c = None" "v = FileN b \<or> v = DirN []"
  shows "child_at (H(c \<mapsto> v)) k n = child_at H k n"
  using assms by (auto simp: child_at_def)

lemma tree_fresh:
  assumes "tree H" "H c = None" "v = FileN b \<and> c \<noteq> akey_ROOT \<or> v = DirN []"
  shows "tree (H(c \<mapsto> v))"
proof -
  have ch: "child_at (H(c \<mapsto> v)) k n = child_at H k n" for k n
    using child_at_fresh [OF assms(1,2)] assms(3) by blast
  have "dir_ok []" by (simp add: dir_ok_def bt_ok_def names_bytes_def)
  then show ?thesis using assms unfolding tree_def ch by (auto split: if_splits)
qed

lemma below_leaf: "H c = None \<or> (\<exists>b. H c = Some (FileN b)) \<or> H c = Some (DirN []) \<Longrightarrow> below H c = {c}"
  by (subst below_cases) (auto simp: child_at_def)

text \<open>Relinking in one directory: the new child map keeps other children where they were.\<close>

lemma tree_dir_update:
  assumes "tree H" "H k = Some (DirN m)" "dir_ok m'"
    and "\<And>n c. bt_get m' n = Some c \<Longrightarrow> bt_get m n = Some c \<or>
      c \<noteq> akey_ROOT \<and> c \<noteq> k \<and> H c \<noteq> None \<and> (\<forall>k' n'. child_at H k' n' \<noteq> Some c) \<and>
      (\<forall>n'. bt_get m' n' = Some c \<longrightarrow> n' = n)"
  shows "tree (H(k \<mapsto> DirN m'))"
proof -
  let ?H = "H(k \<mapsto> DirN m')"
  have ch: "child_at ?H j n = (if j = k then bt_get m' n else child_at H j n)" for j n
    by (simp add: child_at_def)
  have old: "child_at H k n = bt_get m n" for n using assms(2) by (simp add: child_at_def)
  have cls: "child_at H j n = Some c \<or> j = k \<and> c \<noteq> akey_ROOT \<and> H c \<noteq> None \<and>
      (\<forall>k' n'. child_at H k' n' \<noteq> Some c) \<and> (\<forall>n'. bt_get m' n' = Some c \<longrightarrow> n' = n)"
    if "child_at ?H j n = Some c" for j n c
  proof (cases "j = k")
    case True
    then have "bt_get m' n = Some c" using that by (simp add: ch)
    from assms(4) [OF this] show ?thesis unfolding True old by blast
  qed (use that in \<open>simp add: ch\<close>)
  have "c \<noteq> akey_ROOT \<and> ?H c \<noteq> None" if "child_at ?H j n = Some c" for j n c
  proof -
    have "c \<noteq> akey_ROOT \<and> H c \<noteq> None" using cls [OF that] tree_child [OF assms(1)] by blast
    then show ?thesis by simp
  qed
  moreover have "j = j' \<and> n = n'" if c: "child_at ?H j n = Some c" "child_at ?H j' n' = Some c" for j n c j' n'
  proof -
    have "j = k \<Longrightarrow> bt_get m' n = Some c" "j' = k \<Longrightarrow> bt_get m' n' = Some c" using c by (simp_all add: ch)
    then show ?thesis using cls [OF c(1)] cls [OF c(2)] tree_parent [OF assms(1)] by blast
  qed
  ultimately show ?thesis
    using assms(3) tree_dir_ok [OF assms(1)] tree_root [OF assms(1)] unfolding tree_def
    by (intro conjI allI impI) (auto split: if_splits)
qed

text \<open>Deleting a closed part that nothing links into.\<close>

lemma prune:
  assumes "tree H" "akey_ROOT \<notin> D" "\<And>k n c. child_at H k n = Some c \<Longrightarrow> c \<in> D \<Longrightarrow> k \<in> D"
  shows "tree (H |` (- D))" and "lookup (H |` (- D)) akey_ROOT r = lookup H akey_ROOT r"
    and "files_at (H |` (- D)) = files_at H"
proof -
  have ch: "child_at (H |` (- D)) k n = (if k \<in> D then None else child_at H k n)" for k n
    by (simp add: child_at_def restrict_map_def)
  show "tree (H |` (- D))"
    using assms(1,3) unfolding tree_def ch
    by (auto simp: restrict_map_def split: if_splits)
  have reach: "x \<notin> D" if "lookup H akey_ROOT p = Some x" for p x
    using that
  proof (induction p arbitrary: x rule: rev_induct)
    case (snoc n p)
    then show ?case using assms(3) by (metis lookup_snocE)
  qed (use assms(2) in simp)
  show l: "lookup (H |` (- D)) akey_ROOT r = lookup H akey_ROOT r" for r
    by (rule lookup_cong) (auto simp: restrict_map_def dest: reach)
  show "files_at (H |` (- D)) = files_at H"
    using reach by (auto simp: fun_eq_iff files_at_def l split: option.split)
qed

section \<open>What they do to the paths\<close>

text \<open>The file system in which the path \<open>p\<close> holds \<open>t\<close>, a subtree given by its paths, and the
  directories above it exist.\<close>

definition graft :: "apath \<Rightarrow> file_system \<Rightarrow> file_system \<Rightarrow> file_system" where
  "graft p t F r =
     (if prefix p r then t (drop (length p) r)
      else if strict_prefix r p then Some Directory
      else F r)"

definition prune_at :: "apath \<Rightarrow> file_system \<Rightarrow> file_system" where
  "prune_at p F r = (if prefix p r then None else F r)"

definition single :: "found \<Rightarrow> file_system" where
  "single x r = (if r = [] then Some x else None)"

definition subtree_at :: "apath \<Rightarrow> file_system \<Rightarrow> file_system" where
  "subtree_at p F r = F (p @ r)"

lemma strict_prefix_snocE:
  assumes "strict_prefix r (q @ [n])"
  shows "prefix r q"
  using assms by (metis prefix_snoc strict_prefix_def)

lemma reach_above:
  assumes "lookup H akey_ROOT q = Some k" "H k = Some (DirN m)" "prefix r q"
  shows "files_at H r = Some Directory"
proof -
  obtain s where s: "q = r @ s" using assms(3) by (auto simp: prefix_def)
  with assms(1) obtain x where x: "lookup H akey_ROOT r = Some x" "lookup H x s = Some k"
    using lookup_prefix by blast
  show ?thesis
  proof (cases s)
    case Nil
    then show ?thesis using x assms(2) by (simp add: files_at_def)
  next
    case (Cons n t)
    then have "child_at H x n \<noteq> None" using x(2) by (auto split: option.splits)
    then show ?thesis using x(1) by (auto simp: files_at_def child_at_def split: option.splits fnode.splits)
  qed
qed

lemma strict_prefix_Cons_append: "strict_prefix q r \<Longrightarrow> \<exists>n s. r = q @ n # s"
  by (blast elim: strict_prefixE')

text \<open>Linking the a-node \<open>c\<close>, so far linked nowhere, under a reachable directory.\<close>

lemma files_at_link:
  assumes "tree H" "lookup H akey_ROOT q = Some k" "H k = Some (DirN m)" "k \<notin> below H c"
  shows "files_at (H(k \<mapsto> DirN (bt_insert n c m))) =
    graft (q @ [n]) (\<lambda>s. case lookup H c s of Some x \<Rightarrow> map_option shown (H x) | None \<Rightarrow> None) (files_at H)"
proof
  fix r
  let ?m = "bt_insert n c m" and ?H = "H(k \<mapsto> DirN (bt_insert n c m))"
  have away: "k \<notin> below H d" if "bt_get ?m x = Some d" for x d
  proof (cases "x = n")
    case False
    then have "lookup H akey_ROOT (q @ [x]) = Some d"
      using that assms(2,3) by (simp add: lookup_snoc child_at_def)
    then show ?thesis using lookup_below [OF assms(1) _ assms(2), of "q @ [x]" d] by (auto dest: prefix_length_le)
  qed (use that assms(4) in simp)
  have sh: "map_option shown (?H x) = map_option shown (H x)" for x using assms(3) by simp
  have l: "lookup ?H akey_ROOT r =
      (if strict_prefix q r then step_into H (bt_get ?m (r ! length q)) (drop (Suc (length q)) r)
       else lookup H akey_ROOT r)"
    by (rule lookup_dir_update [OF assms(1,2)]) (rule away)
  show "files_at ?H r = graft (q @ [n])
      (\<lambda>s. case lookup H c s of Some x \<Rightarrow> map_option shown (H x) | None \<Rightarrow> None) (files_at H) r"
  proof (cases "strict_prefix q r")
    case True
    then obtain x s where r: "r = q @ x # s" using strict_prefix_Cons_append by blast
    have "lookup H akey_ROOT r = step_into H (bt_get m x) s"
      using assms(2,3) by (simp add: r lookup_append child_at_def step_into_def)
    moreover have "\<not> strict_prefix r (q @ [n])" by (auto simp: r strict_prefix_def)
    ultimately show ?thesis
      using l True unfolding files_at_def sh
      by (auto simp: r graft_def step_into_def split: option.split)
  next
    case False
    then have "\<not> prefix (q @ [n]) r" by (auto simp: prefix_def strict_prefix_def)
    moreover have "files_at H r = Some Directory" if "strict_prefix r (q @ [n])"
      using reach_above [OF assms(2,3) strict_prefix_snocE [OF that]] .
    moreover have "files_at ?H r = files_at H r" using l False unfolding files_at_def sh by simp
    ultimately show ?thesis by (auto simp: graft_def)
  qed
qed

lemma files_at_unlink:
  assumes "tree H" "lookup H akey_ROOT q = Some k" "H k = Some (DirN m)"
  shows "files_at (H(k \<mapsto> DirN (bt_remove n m))) = prune_at (q @ [n]) (files_at H)"
proof
  fix r
  let ?m = "bt_remove n m" and ?H = "H(k \<mapsto> DirN (bt_remove n m))"
  have away: "k \<notin> below H d" if "bt_get ?m x = Some d" for x d
  proof -
    have "lookup H akey_ROOT (q @ [x]) = Some d"
      using that assms(2,3) by (auto simp: lookup_snoc child_at_def split: if_splits)
    then show ?thesis using lookup_below [OF assms(1) _ assms(2), of "q @ [x]" d] by (auto dest: prefix_length_le)
  qed
  have sh: "map_option shown (?H x) = map_option shown (H x)" for x using assms(3) by simp
  have l: "lookup ?H akey_ROOT r =
      (if strict_prefix q r then step_into H (bt_get ?m (r ! length q)) (drop (Suc (length q)) r)
       else lookup H akey_ROOT r)"
    by (rule lookup_dir_update [OF assms(1,2)]) (rule away)
  show "files_at ?H r = prune_at (q @ [n]) (files_at H) r"
  proof (cases "strict_prefix q r")
    case True
    then obtain x s where r: "r = q @ x # s" using strict_prefix_Cons_append by blast
    have "lookup H akey_ROOT r = step_into H (bt_get m x) s"
      using assms(2,3) by (simp add: r lookup_append child_at_def step_into_def)
    then show ?thesis
      using l True unfolding files_at_def sh by (auto simp: r prune_at_def step_into_def split: option.split)
  next
    case False
    then have "\<not> prefix (q @ [n]) r" by (auto simp: prefix_def strict_prefix_def)
    then show ?thesis using l False unfolding files_at_def sh by (simp add: prune_at_def)
  qed
qed

section \<open>Attaching, detaching and moving\<close>

text \<open>The directories above and at \<open>q\<close> exist.\<close>

definition mkdirs :: "apath \<Rightarrow> file_system \<Rightarrow> file_system" where
  "mkdirs q F r = (if prefix r q then Some Directory else F r)"

lemma graft_mkdirs [simp]: "graft (q @ [n]) t (mkdirs q F) = graft (q @ [n]) t F"
  by (auto simp: fun_eq_iff graft_def mkdirs_def strict_prefix_def)

lemma graft_prune_mkdirs [simp]: "graft (q @ [n]) t (prune_at p (mkdirs q F)) = graft (q @ [n]) t (prune_at p F)"
  by (auto simp: fun_eq_iff graft_def mkdirs_def prune_at_def strict_prefix_def)

lemma subtree_at_mkdirs: "\<not> prefix p q \<Longrightarrow> subtree_at p (mkdirs q F) = subtree_at p F"
  by (auto simp: fun_eq_iff subtree_at_def mkdirs_def dest: append_prefixD)

lemma attach:
  assumes "tree H" "lookup H akey_ROOT q = Some k" "H k = Some (DirN m)" "H c = None" "c \<noteq> akey_ROOT"
    and "dir_ok (bt_insert n c m)" "v = FileN b \<or> v = DirN []"
  shows "tree (H(c \<mapsto> v, k \<mapsto> DirN (bt_insert n c m)))"
    and "files_at (H(c \<mapsto> v, k \<mapsto> DirN (bt_insert n c m))) = graft (q @ [n]) (single (shown v)) (files_at H)"
    and "lookup H akey_ROOT r = Some x \<Longrightarrow> \<not> prefix (q @ [n]) r \<Longrightarrow>
      lookup (H(c \<mapsto> v, k \<mapsto> DirN (bt_insert n c m))) akey_ROOT r = Some x"
proof -
  let ?F = "H(c \<mapsto> v)"
  have ck: "c \<noteq> k" using assms(3,4) by auto
  have F: "tree ?F" using assms(1,4,5,7) by (intro tree_fresh [where b = b]) auto
  have lk: "lookup ?F akey_ROOT r = lookup H akey_ROOT r" for r
    using assms(1,4,5) by (rule lookup_fresh)
  have fk: "?F k = Some (DirN m)" using assms(3) ck by simp
  have leaf: "below ?F c = {c}" using assms(7) by (auto intro!: below_leaf)
  have lf: "lookup ?F akey_ROOT q = Some k" using assms(2) by (simp add: lk)
  have away: "k \<notin> below ?F c" using leaf ck by simp
  have no: "child_at ?F k' n' \<noteq> Some c" for k' n'
    using assms(7) tree_child [OF assms(1), of k' n' c] assms(4) by (auto simp: child_at_def)
  show "tree (H(c \<mapsto> v, k \<mapsto> DirN (bt_insert n c m)))"
  proof (rule tree_dir_update [OF F fk assms(6)])
    fix n' d assume d: "bt_get (bt_insert n c m) n' = Some d"
    show "bt_get m n' = Some d \<or> d \<noteq> akey_ROOT \<and> d \<noteq> k \<and> ?F d \<noteq> None \<and>
        (\<forall>k' n'. child_at ?F k' n' \<noteq> Some d) \<and> (\<forall>n''. bt_get (bt_insert n c m) n'' = Some d \<longrightarrow> n'' = n')"
    proof (cases "n' = n")
      case True
      have "bt_get m n'' \<noteq> Some c" for n'' using no [of k n''] fk by (simp add: child_at_def)
      then show ?thesis using d True ck assms(5) no by auto
    qed (use d in simp)
  qed
  have base: "files_at ?F = files_at H"
    using lookup_present [OF assms(1)] assms(2-5)
    by (fastforce simp: fun_eq_iff files_at_def lk split: option.split)
  have "(\<lambda>s. case lookup ?F c s of Some x \<Rightarrow> map_option shown (?F x) | None \<Rightarrow> None) = single (shown v)"
  proof
    fix s
    show "(case lookup ?F c s of Some x \<Rightarrow> map_option shown (?F x) | None \<Rightarrow> None) = single (shown v) s"
      using assms(7) by (cases s) (auto simp: single_def child_at_def)
  qed
  then show "files_at (H(c \<mapsto> v, k \<mapsto> DirN (bt_insert n c m))) = graft (q @ [n]) (single (shown v)) (files_at H)"
    using files_at_link [OF F lf fk away, of n] unfolding base by (simp only:)
  assume r: "lookup H akey_ROOT r = Some x" "\<not> prefix (q @ [n]) r"
  have "lookup ((?F)(k \<mapsto> DirN (bt_insert n c m))) akey_ROOT r =
      (if strict_prefix q r then step_into ?F (bt_get (bt_insert n c m) (r ! length q)) (drop (Suc (length q)) r)
       else lookup ?F akey_ROOT r)"
  proof (rule lookup_dir_update [OF F])
    show "lookup ?F akey_ROOT q = Some k" using assms(2) by (simp add: lk)
    fix x d assume d: "bt_get (bt_insert n c m) x = Some d"
    show "k \<notin> below ?F d"
    proof (cases "x = n")
      case False
      then have "lookup ?F akey_ROOT (q @ [x]) = Some d"
        using d assms(2) fk by (simp add: lookup_snoc child_at_def lk)
      then show ?thesis
        using lookup_below [OF F _, of "q @ [x]" d q k] assms(2) by (auto simp: lk dest: prefix_length_le)
    qed (use d leaf ck in simp)
  qed
  moreover have "step_into ?F (bt_get (bt_insert n c m) (r ! length q)) (drop (Suc (length q)) r) = Some x"
    if "strict_prefix q r"
  proof -
    obtain y s where ys: "r = q @ y # s" using \<open>strict_prefix q r\<close> strict_prefix_Cons_append by blast
    then have "y \<noteq> n" using r(2) by auto
    moreover have "lookup ?F akey_ROOT r = Some x" using r(1) by (simp add: lk)
    ultimately show ?thesis using assms(2) fk ys
      by (auto simp: lookup_append lk child_at_def step_into_def split: option.splits)
  qed
  ultimately show "lookup (H(c \<mapsto> v, k \<mapsto> DirN (bt_insert n c m))) akey_ROOT r = Some x"
    using r(1) by (simp add: lk)
qed

text \<open>Once the link to the top of a subtree is gone, the subtree can be deleted.\<close>

lemma prune_subtree:
  assumes "tree H" "lookup H akey_ROOT q = Some k" "H k = Some (DirN m)" "bt_get m n = Some d" "tree H1"
    and "\<And>j x y. child_at H1 j x = Some y \<Longrightarrow> y \<in> below H d \<Longrightarrow> child_at H j x = Some y \<and> \<not> (j = k \<and> x = n)"
  shows "tree (H1 |` (- below H d))" and "files_at (H1 |` (- below H d)) = files_at H1"
    and "lookup (H1 |` (- below H d)) akey_ROOT r = lookup H1 akey_ROOT r"
proof -
  have cd: "child_at H k n = Some d" using assms(3,4) by (simp add: child_at_def)
  have ld: "lookup H akey_ROOT (q @ [n]) = Some d" using assms(2) cd by (simp add: lookup_snoc)
  have "akey_ROOT \<notin> below H d" using root_not_below [OF assms(1) ld] by simp
  moreover have "j \<in> below H d" if "child_at H1 j x = Some y" "y \<in> below H d" for j x y
  proof (cases "y = d")
    case True
    then show ?thesis using assms(6) [OF that] tree_parent [OF assms(1) cd] by blast
  next
    case False
    then show ?thesis using assms(6) [OF that] below_entry [OF assms(1) ld] that by blast
  qed
  ultimately show "tree (H1 |` (- below H d))" "files_at (H1 |` (- below H d)) = files_at H1"
    "lookup (H1 |` (- below H d)) akey_ROOT r = lookup H1 akey_ROOT r"
    using prune [OF assms(5)] by blast+
qed

lemma dir_ok_remove: "dir_ok m \<Longrightarrow> dir_ok (bt_remove n m)"
proof -
  assume ok: "dir_ok m"
  have "length (bt_remove n m) * ENTRY + length (concat (names_bytes (bt_remove n m)))
      \<le> length m * ENTRY + length (concat (names_bytes m))"
    unfolding bt_remove_def names_bytes_def by (induction m) auto
  then show ?thesis using ok unfolding dir_ok_def by (auto simp: bt_remove_def [of n m] bt_ok_remove [unfolded bt_remove_def])
qed

lemma unlinked:
  assumes "tree H" "lookup H akey_ROOT q = Some k" "H k = Some (DirN m)"
  shows "tree (H(k \<mapsto> DirN (bt_remove n m)))"
  by (rule tree_dir_update [OF assms(1,3) dir_ok_remove [OF tree_dir_ok [OF assms(1,3)]]]) (simp split: if_splits)

lemma detach:
  assumes "tree H" "lookup H akey_ROOT q = Some k" "H k = Some (DirN m)" "bt_get m n = Some d"
  shows "tree ((H(k \<mapsto> DirN (bt_remove n m))) |` (- below H d))"
    and "files_at ((H(k \<mapsto> DirN (bt_remove n m))) |` (- below H d)) = prune_at (q @ [n]) (files_at H)"
proof -
  let ?H = "H(k \<mapsto> DirN (bt_remove n m))"
  have "child_at H j x = Some y \<and> \<not> (j = k \<and> x = n)" if "child_at ?H j x = Some y" for j x y
    using that assms(3) by (auto simp: child_at_def split: if_splits)
  note * = prune_subtree [OF assms unlinked [OF assms(1-3), of n] this]
  show "tree (?H |` (- below H d))" by (rule *)
  show "files_at (?H |` (- below H d)) = prune_at (q @ [n]) (files_at H)"
    using files_at_unlink [OF assms(1-3)] by (simp only: *)
qed

lemma replace:
  assumes "tree H" "lookup H akey_ROOT q = Some k" "H k = Some (DirN m)" "bt_get m n = Some d"
    and "H c = None" "c \<noteq> akey_ROOT" "dir_ok (bt_insert n c m)" "v = FileN b \<or> v = DirN []"
  shows "tree ((H(c \<mapsto> v, k \<mapsto> DirN (bt_insert n c m))) |` (- below H d))"
    and "files_at ((H(c \<mapsto> v, k \<mapsto> DirN (bt_insert n c m))) |` (- below H d))
      = graft (q @ [n]) (single (shown v)) (files_at H)"
proof -
  let ?H = "H(c \<mapsto> v, k \<mapsto> DirN (bt_insert n c m))"
  have ck: "c \<noteq> k" using assms(3,5) by auto
  have ld: "lookup H akey_ROOT (q @ [n]) = Some d" using assms(2-4) by (simp add: lookup_snoc child_at_def)
  have cD: "c \<notin> below H d"
  proof
    assume "c \<in> below H d"
    then obtain s where "lookup H d s = Some c" by (auto simp: below_def)
    then have "lookup H akey_ROOT ((q @ [n]) @ s) = Some c" using ld unfolding lookup_append by simp
    then show False using lookup_present [OF assms(1)] assms(5) by blast
  qed
  have "child_at H j x = Some y \<and> \<not> (j = k \<and> x = n)" if "child_at ?H j x = Some y" "y \<in> below H d" for j x y
    using that cD ck assms(3,8) by (auto simp: child_at_def split: if_splits)
  note * = prune_subtree [OF assms(1-4) attach(1) [OF assms(1-3,5-8)] this]
  show "tree (?H |` (- below H d))" by (rule *)
  show "files_at (?H |` (- below H d)) = graft (q @ [n]) (single (shown v)) (files_at H)"
    using attach(2) [OF assms(1-3,5-8)] by (simp only: *)
qed

text \<open>Moving the a-node linked as \<open>sn\<close> in \<open>ks\<close> to the name \<open>dn\<close> in \<open>kd\<close>, where it must not be above
  \<open>kd\<close>. The heap after unlinking it first.\<close>

lemma relink:
  assumes "tree H" "lookup H akey_ROOT p = Some ks" "H ks = Some (DirN ms)" "bt_get ms sn = Some c"
    and "lookup H akey_ROOT q = Some kd" "H kd = Some (DirN md)" "\<not> prefix (p @ [sn]) q"
    and H1: "H1 = H(ks \<mapsto> DirN (bt_remove sn ms))" and H2: "H2 = H1(kd \<mapsto> DirN (bt_insert dn c md'))"
    and md': "H1 kd = Some (DirN md')" and "dir_ok (bt_insert dn c md')"
  shows "tree H2" and "files_at H2 = graft (q @ [dn]) (subtree_at (p @ [sn]) (files_at H)) (prune_at (p @ [sn]) (files_at H))"
proof -
  have cs: "child_at H ks sn = Some c" using assms(3,4) by (simp add: child_at_def)
  have lc: "lookup H akey_ROOT (p @ [sn]) = Some c" using assms(2) cs by (simp add: lookup_snoc)
  have t1: "tree H1" unfolding H1 by (rule unlinked [OF assms(1-3)])
  have "ks \<notin> below H c" using lookup_below [OF assms(1) lc assms(2)] by (auto dest: prefix_length_le)
  then have same: "lookup H1 c s = lookup H c s" for s unfolding H1 by (rule lookup_unreached)
  have kdc: "kd \<notin> below H1 c"
    using lookup_below [OF assms(1) lc assms(5)] assms(7) by (simp add: below_def same)
  have sh: "map_option shown (H1 x) = map_option shown (H x)" for x using assms(3) by (simp add: H1)
  have lq: "lookup H1 akey_ROOT q = Some kd"
  proof -
    have away: "ks \<notin> below H d" if "bt_get (bt_remove sn ms) x = Some d" for x d
    proof -
      have "lookup H akey_ROOT (p @ [x]) = Some d"
        using that assms(2,3) by (auto simp: lookup_snoc child_at_def split: if_splits)
      then show ?thesis using lookup_below [OF assms(1) _ assms(2), of "p @ [x]" d] by (auto dest: prefix_length_le)
    qed
    show ?thesis
    proof (cases "strict_prefix p q")
      case True
      then obtain x s where q: "q = p @ x # s" using strict_prefix_Cons_append by blast
      then have "x \<noteq> sn" using assms(7) by auto
      then show ?thesis
        using lookup_dir_update [OF assms(1,2), of "bt_remove sn ms" q] away True assms(2,3,5)
        by (auto simp: H1 q lookup_append child_at_def step_into_def)
    qed (use lookup_dir_update [OF assms(1,2), of "bt_remove sn ms" q] away assms(5) H1 in simp)
  qed
  have free: "child_at H1 k' n' \<noteq> Some c" for k' n'
  proof
    assume a: "child_at H1 k' n' = Some c"
    then have "child_at H k' n' = Some c" "\<not> (k' = ks \<and> n' = sn)"
      using assms(3) by (auto simp: H1 child_at_def split: if_splits)
    then show False using tree_parent [OF assms(1) cs] by blast
  qed
  have cn: "c \<noteq> akey_ROOT" "H1 c \<noteq> None" using tree_child [OF assms(1) cs] by (auto simp: H1)
  have "c \<noteq> kd" using kdc by auto
  moreover have "bt_get md' n' \<noteq> Some c" for n' using free [of kd n'] md' by (simp add: child_at_def)
  ultimately show "tree H2"
    unfolding H2 using cn free by (intro tree_dir_update [OF t1 md' assms(11)]) (auto split: if_splits)
  have sub: "(\<lambda>s. case lookup H1 c s of Some x \<Rightarrow> map_option shown (H1 x) | None \<Rightarrow> None)
      = subtree_at (p @ [sn]) (files_at H)"
    using lc by (auto simp: fun_eq_iff subtree_at_def files_at_def same sh lookup_append [of _ _ "p @ [sn]", simplified]
        lookup_snoc child_at_def split: option.split)
  show "files_at H2 = graft (q @ [dn]) (subtree_at (p @ [sn]) (files_at H)) (prune_at (p @ [sn]) (files_at H))"
    unfolding H2 files_at_link [OF t1 lq md' kdc] sub
    using files_at_unlink [OF assms(1-3)] by (simp add: H1)
qed

section \<open>What keeps its path\<close>

text \<open>Every a-node whose path does not lead into one of \<open>S\<close> keeps it: same path, same key.\<close>

definition keeps :: "apath list \<Rightarrow> heap \<Rightarrow> heap \<Rightarrow> bool" where
  "keeps S H H' \<longleftrightarrow> (\<forall>r x. lookup H akey_ROOT r = Some x \<longrightarrow> (\<forall>s \<in> set S. \<not> prefix s r) \<longrightarrow> lookup H' akey_ROOT r = Some x)"

lemma keepsD: "keeps S H H' \<Longrightarrow> lookup H akey_ROOT r = Some x \<Longrightarrow> (\<And>s. s \<in> set S \<Longrightarrow> \<not> prefix s r) \<Longrightarrow> lookup H' akey_ROOT r = Some x"
  by (auto simp: keeps_def)

lemma keeps_trans: "keeps S H H1 \<Longrightarrow> keeps S H1 H2 \<Longrightarrow> keeps S H H2"
  by (auto simp: keeps_def)

lemma keeps_refl: "keeps S H H"
  by (auto simp: keeps_def)

lemma keeps_mono: "keeps S H H' \<Longrightarrow> set S \<subseteq> set T \<Longrightarrow> keeps T H H'"
  by (auto simp: keeps_def)

lemma keepsI:
  assumes "\<And>p j n c. lookup H akey_ROOT p = Some j \<Longrightarrow> (\<And>s. s \<in> set S \<Longrightarrow> \<not> prefix s (p @ [n])) \<Longrightarrow>
    child_at H j n = Some c \<Longrightarrow> child_at H' j n = Some c"
  shows "keeps S H H'"
proof -
  have "lookup H' akey_ROOT r = Some x" if "lookup H akey_ROOT r = Some x" "\<forall>s \<in> set S. \<not> prefix s r" for r x
    using that
  proof (induction r arbitrary: x rule: rev_induct)
    case (snoc n p)
    then obtain j where j: "lookup H akey_ROOT p = Some j" "child_at H j n = Some x" by (blast elim: lookup_snocE)
    moreover have "\<not> prefix s p" if "s \<in> set S" for s using snoc.prems(2) that by auto
    ultimately show ?case using snoc.IH [OF j(1)] assms [OF j(1) _ j(2)] snoc.prems(2) by (auto simp: lookup_snoc)
  qed simp
  then show ?thesis by (auto simp: keeps_def)
qed

text \<open>A directory at \<open>q\<close> changes one child, and the subtree that was there may go.\<close>

lemma keeps_dir:
  assumes "tree H" "lookup H akey_ROOT q = Some k" "H k = Some (DirN m)" "D = {} \<or> (\<exists>d. D = below H d \<and> bt_get m n = Some d)"
    and "\<And>x. x \<noteq> n \<Longrightarrow> bt_get m' x = bt_get m x" "\<And>j. j \<noteq> k \<Longrightarrow> j \<notin> D \<Longrightarrow> H j \<noteq> None \<Longrightarrow> H' j = H j" "H' k = Some (DirN m')"
  shows "keeps [q @ [n]] H H'"
proof (rule keepsI)
  fix p j x c
  assume p: "lookup H akey_ROOT p = Some j" "\<And>s. s \<in> set [q @ [n]] \<Longrightarrow> \<not> prefix s (p @ [x])" "child_at H j x = Some c"
  show "child_at H' j x = Some c"
  proof (cases "j = k")
    case True
    then have "p = q" using lookup_inj [OF assms(1) p(1)] assms(2) by simp
    then show ?thesis using True p(2,3) assms(3,5,7) by (auto simp: child_at_def)
  next
    case False
    have "j \<notin> D"
    proof
      assume jD: "j \<in> D"
      then obtain d where d: "D = below H d" "bt_get m n = Some d" using assms(4) by auto
      then have "lookup H akey_ROOT (q @ [n]) = Some d" using assms(2,3) by (simp add: lookup_snoc child_at_def)
      from lookup_below [OF assms(1) this p(1)] show False using jD d p(2) by auto
    qed
    then show ?thesis using assms(6) [OF False] p(3) by (auto simp: child_at_def split: option.splits)
  qed
qed

end
