(* ===== verification/Table_Laws.thy ===== *)
theory Table_Laws
  imports Table_Ops Tree_Heap
begin

text \<open>
  What the table operations do. \<open>sees R c H\<close> says that the transaction with context \<open>c\<close> sees the heap
  \<open>H\<close>: its view, buffered or not, is the encoding of \<open>H\<close>. The operations of \<open>txn/context/table.rs\<close> are
  shown to succeed and to change the file system they see (\<open>files_at H\<close>) the way their documentation
  says, for every state of the write buffer.
\<close>

section \<open>The heap a transaction sees\<close>

fun enc_node :: "fnode \<Rightarrow> bytes" where
  "enc_node (DirN m) = dir_entry (encode_dir m)"
| "enc_node (FileN b) = file_entry b"

fun kind_of :: "fnode \<Rightarrow> entry_kind" where
  "kind_of (DirN m) = Dir"
| "kind_of (FileN b) = File"

definition sees :: "('t, akey, bytes) redb \<Rightarrow> 't ctx \<Rightarrow> heap \<Rightarrow> bool" where
  "sees R c H \<longleftrightarrow> ctx_ok R c \<and> (\<forall>k. view R c k = map_option enc_node (H k)) \<and>
     (\<forall>k m. H k = Some (DirN m) \<longrightarrow> dir_ok m)"

lemma dir_file_entry [simp]: "dir_entry a \<noteq> file_entry b" "file_entry b \<noteq> dir_entry a"
  by (simp_all add: dir_entry_def file_entry_def)

lemma enc_node_file [simp]: "enc_node v = file_entry b \<longleftrightarrow> v = FileN b"
  by (cases v) (simp_all add: file_entry_def dir_entry_def)

lemma seesD:
  assumes "sees R c H"
  shows sees_ok: "ctx_ok R c" and sees_view: "view R c k = map_option enc_node (H k)"
    and sees_dir_ok: "H k = Some (DirN m) \<Longrightarrow> dir_ok m"
  using assms by (auto simp: sees_def)

lemma sees_child: "sees R c H \<Longrightarrow> ctx_child R c k n = Ok (child_at H k n)"
  by (auto simp: ctx_child_view sees_ok sees_view child_at_def entry_child_dir sees_dir_ok entry_child_file
      split: option.split fnode.split)

lemma sees_kind: "sees R c H \<Longrightarrow> ctx_kind R c k = Ok (map_option kind_of (H k))"
  by (cases "H k"; cases "the (H k)") (auto simp: ctx_kind_view sees_ok sees_view)

lemma sees_has: "sees R c H \<Longrightarrow> has_entry R c k = Ok (H k \<noteq> None)"
  by (simp add: has_entry_view sees_ok sees_view)

lemma sees_dir: "sees R c H \<Longrightarrow> H k = Some (DirN m) \<Longrightarrow> dir_children R c k = Ok m"
  by (simp add: dir_children_view sees_ok sees_view entry_children_dir sees_dir_ok)

lemma sees_cascade: "sees R c H \<Longrightarrow> cascade_children R c k =
  Ok (case H k of None \<Rightarrow> None | Some (DirN m) \<Rightarrow> Some (map snd m) | Some (FileN b) \<Rightarrow> Some [])"
  by (cases "H k"; cases "the (H k)")
    (auto simp: cascade_children_view sees_ok sees_view entry_cascade_dir sees_dir_ok entry_cascade_def [of "file_entry _"])

lemma sees_resolve: "sees R c H \<Longrightarrow> ctx_resolve R c p = Ok (lookup H akey_ROOT p)"
proof -
  assume s: "sees R c H"
  have "resolve_from R c k p = Ok (lookup H k p)" for k
    by (induction p arbitrary: k) (auto simp: sees_child [OF s] split: option.split)
  then show ?thesis by (simp add: ctx_resolve_def)
qed

lemmas sees_reads = sees_child sees_kind sees_has sees_dir sees_cascade sees_resolve

section \<open>Elementary writes\<close>

definition makes :: "('t, akey, bytes) redb \<Rightarrow> 't ctx \<Rightarrow> ('t ctx, 'a) op \<Rightarrow> 'a \<Rightarrow> heap \<Rightarrow> 't ctx \<Rightarrow> bool" where
  "makes R c f x H c' \<longleftrightarrow> f c = (Ok x, c') \<and> sees R c' H"

lemma dir_makes:
  "sees R c H \<Longrightarrow> dir_ok m \<Longrightarrow> writes R c f x ((view R c)(k := Some (dir_entry (encode_dir m)))) c' \<Longrightarrow>
   makes R c f x (H(k \<mapsto> DirN m)) c'"
  by (auto simp: writes_def makes_def sees_def)

lemma file_makes:
  "sees R c H \<Longrightarrow> writes R c f x ((view R c)(k := Some (file_entry b))) c' \<Longrightarrow> makes R c f x (H(k \<mapsto> FileN b)) c'"
  by (auto simp: writes_def makes_def sees_def)

lemma put_dir_makes:
  assumes "sees R c H" "dir_ok m" "\<And>b. H k \<noteq> Some (FileN b)"
  shows "\<exists>c'. makes R c (put_dir R k m) () (H(k \<mapsto> DirN m)) c' \<and> ctx_rng c' = ctx_rng c"
proof -
  have "view R c k \<noteq> Some (file_entry b)" for b using assms(1,3) by (auto simp: sees_view)
  from put_dir_writes [OF sees_ok [OF assms(1)] assms(2) this]
  show ?thesis using dir_makes [OF assms(1,2), where x = "()"] by blast
qed

lemma link_makes:
  assumes "sees R c H" "H k = Some (DirN m)" "dir_ok (bt_insert n d m)"
  shows "\<exists>c'. makes R c (link_child R k n d) () (H(k \<mapsto> DirN (bt_insert n d m))) c' \<and> ctx_rng c' = ctx_rng c"
proof -
  have "view R c k \<noteq> Some (file_entry b)" for b using assms(1,2) by (auto simp: sees_view)
  from link_child_writes [OF sees_ok [OF assms(1)] sees_dir [OF assms(1,2)] assms(3) this]
  show ?thesis using dir_makes [OF assms(1,3), where x = "()"] by blast
qed

lemma unlink_makes:
  assumes "sees R c H" "H k = Some (DirN m)"
  shows "\<exists>c'. makes R c (unlink_child R k n) () (H(k \<mapsto> DirN (bt_remove n m))) c' \<and> ctx_rng c' = ctx_rng c"
proof -
  have "view R c k \<noteq> Some (file_entry b)" for b using assms(1,2) by (auto simp: sees_view)
  moreover have ok: "dir_ok (bt_remove n m)" using dir_ok_remove [OF sees_dir_ok [OF assms]] .
  ultimately show ?thesis
    using unlink_child_writes [OF sees_ok [OF assms(1)] sees_dir [OF assms], of n]
      dir_makes [OF assms(1) ok, where x = "()"] by blast
qed

lemma not_buffered_dir:
  assumes "sees R c H" "\<And>m. H k \<noteq> Some (DirN m)"
  shows "map_of (dirs (ctx_buf c)) k = None"
proof (cases "map_of (dirs (ctx_buf c)) k")
  case (Some m)
  then have "view R c k = Some (dir_entry (encode_dir m))" by (simp add: view_def)
  then show ?thesis using assms sees_view [OF assms(1), of k] by (cases "H k"; cases "the (H k)") auto
qed

lemma put_file_makes:
  assumes "sees R c H" "\<And>m. H k \<noteq> Some (DirN m)"
  shows "\<exists>c'. makes R c (put_entry R k (file_entry b)) () (H(k \<mapsto> FileN b)) c' \<and> ctx_rng c' = ctx_rng c"
  using put_entry_writes [OF sees_ok [OF assms(1)] not_buffered_dir [OF assms], of "file_entry b"]
    file_makes [OF assms(1), where x = "()"] by blast

lemma put_file_edit_makes:
  assumes "sees R c H" "H k = Some (FileN b0)"
  shows "\<exists>c'. makes R c (put_file_edit R k (file_entry b)) () (H(k \<mapsto> FileN b)) c'"
proof -
  have "map_of (dirs (ctx_buf c)) k = None" using not_buffered_dir [OF assms(1)] assms(2) by auto
  moreover have "view R c k = Some (file_entry b0)" using assms by (simp add: sees_view)
  ultimately show ?thesis
    using put_file_edit_writes [OF sees_ok [OF assms(1)], of k b0 "file_entry b" b]
      file_makes [OF assms(1), where x = "()"] by blast
qed

lemma remove_makes:
  assumes "sees R c H"
  shows "\<exists>c'. makes R c (remove_entry R k) () (H(k := None)) c' \<and> ctx_rng c' = ctx_rng c"
  using remove_entry_writes [OF sees_ok [OF assms], of k] assms
  by (auto simp: writes_def makes_def sees_def)

lemma generate_makes:
  assumes "sees R c H" "akey_generate (ctx_rng c) = (k, s)"
  shows "makes R c generate_key k H (c\<lparr>ctx_rng := s\<rparr>)"
proof -
  have "view R (c\<lparr>ctx_rng := s\<rparr>) = view R c" by (simp add: view_def fun_eq_iff cong: option.case_cong)
  then show ?thesis using assms by (simp add: makes_def generate_key_def sees_def ctx_ok_def)
qed

lemma makes_bind: "makes R c f x H c1 \<Longrightarrow> makes R c1 (g x) y H' c2 \<Longrightarrow> makes R c (bindOp f g) y H' c2"
  by (simp add: makes_def)

lemma makes_seq: "makes R c f x H c1 \<Longrightarrow> makes R c1 g y H' c2 \<Longrightarrow> makes R c (seqOp f g) y H' c2"
  by (simp add: makes_def)

lemma makes_read: "g c = Ok x \<Longrightarrow> makes R c (f x) y H c' \<Longrightarrow> makes R c (bindOp (readOp g) f) y H c'"
  by (simp add: makes_def)

lemma makes_lift: "makes R c (f x) y H c' \<Longrightarrow> makes R c (bindOp (liftOp (Ok x)) f) y H c'"
  by (simp add: makes_def)

lemma makes_ret: "sees R c H \<Longrightarrow> makes R c (retOp x) x H c"
  by (simp add: makes_def)

lemma makes_sees: "makes R c f x H c' \<Longrightarrow> sees R c' H"
  by (simp add: makes_def)

section \<open>Deleting a subtree\<close>

lemma below_disjoint:
  assumes "tree H" "lookup H akey_ROOT q = Some k" "child_at H k n = Some c" "child_at H k n' = Some c'" "n \<noteq> n'"
  shows "below H c \<inter> below H c' = {}"
proof -
  have l: "lookup H akey_ROOT (q @ [n]) = Some c" "lookup H akey_ROOT (q @ [n']) = Some c'"
    using assms(2-4) by (simp_all add: lookup_snoc)
  have False if x: "x \<in> below H c" "x \<in> below H c'" for x
  proof -
    obtain s s' where "lookup H c s = Some x" "lookup H c' s' = Some x" using x by (auto simp: below_def)
    then have "lookup H akey_ROOT ((q @ [n]) @ s) = Some x" "lookup H akey_ROOT ((q @ [n']) @ s') = Some x"
      using l unfolding lookup_append by simp_all
    then have "(q @ [n]) @ s = (q @ [n']) @ s'" by (rule lookup_inj [OF assms(1)])
    then show False using assms(5) by simp
  qed
  then show ?thesis by blast
qed

definition height_below :: "heap \<Rightarrow> akey \<Rightarrow> nat \<Rightarrow> bool" where
  "height_below H k n \<longleftrightarrow> (\<forall>p x. lookup H k p = Some x \<longrightarrow> length p < n)"

lemma height_below_child: "height_below H k (Suc n) \<Longrightarrow> child_at H k x = Some c \<Longrightarrow> height_below H c n"
  unfolding height_below_def by (metis Suc_less_eq length_Cons lookup.simps(2) option.simps(5))

lemma cascade_children_loop:
  assumes "tree H" "lookup H akey_ROOT q = Some k" "\<And>e. e \<in> set es \<Longrightarrow> child_at H k (fst e) = Some (snd e)"
    and "distinct (map fst es)" "sees R c (H |` (- D))" "\<And>e. e \<in> set es \<Longrightarrow> D \<inter> below H (snd e) = {}"
    and step: "\<And>e D c. e \<in> set es \<Longrightarrow> sees R c (H |` (- D)) \<Longrightarrow> D \<inter> below H (snd e) = {} \<Longrightarrow>
      \<exists>c'. makes R c (f (snd e)) () (H |` (- (D \<union> below H (snd e)))) c' \<and> ctx_rng c' = ctx_rng c"
  shows "\<exists>c'. makes R c (forOp (map snd es) f) () (H |` (- (D \<union> (\<Union>e \<in> set es. below H (snd e))))) c' \<and>
    ctx_rng c' = ctx_rng c"
  using assms(3-7)
proof (induction es arbitrary: c D)
  case Nil
  then have "makes R c (retOp ()) () (H |` (- D)) c" by (intro makes_ret)
  then show ?case by (auto simp del: retOp_apply)
next
  case (Cons e es)
  obtain c1 where c1: "makes R c (f (snd e)) () (H |` (- (D \<union> below H (snd e)))) c1" "ctx_rng c1 = ctx_rng c"
    using Cons.prems(5) [of e c D] Cons.prems(3,4) by auto
  have disj: "(D \<union> below H (snd e)) \<inter> below H (snd e') = {}" if "e' \<in> set es" for e'
  proof -
    have "fst e \<noteq> fst e'" using that Cons.prems(2) by auto
    from below_disjoint [OF assms(1,2) _ _ this, of "snd e" "snd e'"]
    show ?thesis using Cons.prems(1) [of e] Cons.prems(1,4) [of e'] that by auto
  qed
  have "\<exists>c2. makes R c1 (forOp (map snd es) f) ()
      (H |` (- ((D \<union> below H (snd e)) \<union> (\<Union>e \<in> set es. below H (snd e))))) c2 \<and> ctx_rng c2 = ctx_rng c1"
    by (rule Cons.IH) (use Cons.prems disj makes_sees [OF c1(1)] in auto)
  then obtain c2 where c2: "makes R c1 (forOp (map snd es) f) ()
      (H |` (- ((D \<union> below H (snd e)) \<union> (\<Union>e \<in> set es. below H (snd e))))) c2" "ctx_rng c2 = ctx_rng c1"
    by blast
  have "(D \<union> below H (snd e)) \<union> (\<Union>e \<in> set es. below H (snd e)) = D \<union> (\<Union>e \<in> set (e # es). below H (snd e))"
    by auto
  then show ?case using makes_seq [OF c1(1) c2(1)] c1(2) c2(2) by auto
qed

lemma cascade_makes:
  assumes "tree H" "lookup H akey_ROOT q = Some k" "height_below H k fuel"
    and "sees R c (H |` (- D))" "D \<inter> below H k = {}"
  shows "\<exists>c'. makes R c (cascade_delete fuel R k) () (H |` (- (D \<union> below H k))) c' \<and> ctx_rng c' = ctx_rng c"
  using assms(2-5)
proof (induction fuel arbitrary: q k D c)
  case 0
  then show ?case by (auto simp: height_below_def dest: spec [of _ "[]"])
next
  case (Suc fuel)
  have kD: "k \<notin> D" using Suc.prems(4) by auto
  then have Hk: "(H |` (- D)) k = H k" by simp
  note casc = sees_cascade [OF Suc.prems(3), of k, unfolded Hk]
  show ?case
  proof (cases "H k")
    case None
    then have "H |` (- (D \<union> below H k)) = H |` (- D)"
      by (auto simp: fun_eq_iff restrict_map_def below_leaf)
    then show ?thesis using makes_ret [OF Suc.prems(3)] casc None by (fastforce simp: intro: makes_read)
  next
    case (Some v)
    define es where "es = (case v of DirN m \<Rightarrow> m | FileN b \<Rightarrow> [])"
    have es: "child_at H k n = bt_get es n" for n
      using Some by (cases v) (auto simp: es_def child_at_def)
    have ok: "bt_ok es" using Some tree_dir_ok [OF assms(1)] by (cases v) (auto simp: es_def dir_ok_def bt_ok_def)
    have mem: "child_at H k (fst e) = Some (snd e)" if "e \<in> set es" for e
      using that ok by (simp add: es bt_get_iff)
    have sub: "below H (snd e) \<subseteq> below H k" if "e \<in> set es" for e using below_child [OF mem [OF that]] .
    have "\<exists>c'. makes R c (forOp (map snd es) (cascade_delete fuel R)) ()
        (H |` (- (D \<union> (\<Union>e \<in> set es. below H (snd e))))) c' \<and> ctx_rng c' = ctx_rng c"
    proof (rule cascade_children_loop [OF assms(1) Suc.prems(1) mem])
      show "distinct (map fst es)" using ok by (rule bt_ok_distinct)
      fix e D' c assume "e \<in> set es" "sees R c (H |` (- D'))" "D' \<inter> below H (snd e) = {}"
      then show "\<exists>c'. makes R c (cascade_delete fuel R (snd e)) () (H |` (- (D' \<union> below H (snd e)))) c' \<and>
          ctx_rng c' = ctx_rng c"
        using Suc.IH [of "q @ [fst e]" "snd e"] Suc.prems(1) mem height_below_child [OF Suc.prems(2) mem]
        by (simp add: lookup_snoc)
    qed (use Suc.prems(3,4) sub in auto)
    then obtain c1 where c1: "makes R c (forOp (map snd es) (cascade_delete fuel R)) ()
        (H |` (- (D \<union> (\<Union>e \<in> set es. below H (snd e))))) c1" "ctx_rng c1 = ctx_rng c" by blast
    obtain c2 where c2: "makes R c1 (remove_entry R k) ()
        ((H |` (- (D \<union> (\<Union>e \<in> set es. below H (snd e)))))(k := None)) c2" "ctx_rng c2 = ctx_rng c1"
      using remove_makes [OF makes_sees [OF c1(1)]] by blast
    have "below H k = insert k (\<Union>e \<in> set es. below H (snd e))"
      unfolding below_cases [of H k] using mem ok
      by (auto simp: es bt_get_iff split: if_splits intro!: bexI)
    then have "(H |` (- (D \<union> (\<Union>e \<in> set es. below H (snd e)))))(k := None) = H |` (- (D \<union> below H k))"
      by (auto simp: fun_eq_iff restrict_map_def)
    moreover have "cascade_children R c k = Ok (Some (map snd es))"
      using casc Some by (cases v) (simp_all add: es_def)
    ultimately show ?thesis
      using makes_seq [OF c1(1) c2(1)] c1(2) c2(2) by (fastforce intro: makes_read)
  qed
qed

lemma cascade_makes_top:
  assumes "tree H" "lookup H akey_ROOT q = Some k" "height_below H akey_ROOT fuel" "sees R c H"
  shows "\<exists>c'. makes R c (cascade_delete fuel R k) () (H |` (- below H k)) c' \<and> ctx_rng c' = ctx_rng c"
proof -
  have "height_below H k fuel"
    using assms(2,3) by (fastforce simp: height_below_def dest: spec [of _ "q @ _"] simp: lookup_append)
  moreover have "H |` (- {}) = H" by (simp add: restrict_map_def)
  then have "sees R c (H |` (- {}))" using assms(4) by (simp only:)
  ultimately show ?thesis using cascade_makes [OF assms(1,2), of fuel R c "{}"] by simp
qed

end
