(* ===== verification/Store_Laws.thy ===== *)
theory Store_Laws
  imports Table_Laws
begin

text \<open>
  Creating directories, storing, removing and moving: each operation of \<open>txn/context/table.rs\<close> succeeds and
  does to the file system what it is meant to. The premises are the ones a caller can meet: the
  names are UTF-8 and the directories stay below the 4 GiB their format can address (\<open>roomy\<close>), the
  generator yields keys not in use (\<open>fresh_keys\<close>), and the fuel exceeds the depth of the tree
  (\<open>depth_ok\<close>), for which \<open>2 ^ 128\<close> always suffices.
\<close>

section \<open>Premises\<close>

definition dir_weight :: "(string, akey) btree \<Rightarrow> nat" where
  "dir_weight m = 4 + length m * ENTRY + length (concat (names_bytes m))"

definition roomy :: "heap \<Rightarrow> string list \<Rightarrow> bool" where
  "roomy H ns \<longleftrightarrow>
     (\<forall>n \<in> set ns. utf8 n \<and> dir_weight [] + ENTRY + length n < 2 ^ 32 \<and>
        (\<forall>k m. H k = Some (DirN m) \<longrightarrow> dir_weight m + ENTRY + length n < 2 ^ 32))"

definition fresh_keys :: "heap \<Rightarrow> nat \<Rightarrow> u64 \<Rightarrow> bool" where
  "fresh_keys H n s \<longleftrightarrow> n \<le> 2 ^ 63 \<and> set (generate_many n s) \<inter> dom H = {}"

definition depth_ok :: "file_system \<Rightarrow> nat \<Rightarrow> bool" where
  "depth_ok F fuel \<longleftrightarrow> 0 < fuel \<and> (\<forall>r. F r \<noteq> None \<longrightarrow> length r < fuel)"

lemma dir_weight_insert: "dir_weight (bt_insert n c m) \<le> dir_weight m + ENTRY + length n"
  by (induction m) (auto simp: dir_weight_def names_bytes_def)

lemma dir_ok_insert:
  assumes "dir_ok m" "utf8 n" "dir_weight m + ENTRY + length n < 2 ^ 32"
  shows "dir_ok (bt_insert n c m)"
proof -
  have "utf8 x" if "x \<in> fst ` set (bt_insert n c m)" for x
    using that assms(1,2) by (auto simp: dir_ok_def)
  then have "\<forall>e \<in> set (bt_insert n c m). utf8 (fst e)" by blast
  then show ?thesis
    using assms(1,3) dir_weight_insert [of n c m] by (auto simp: dir_ok_def dir_weight_def)
qed

lemma dir_ok_Nil [simp]: "dir_ok []"
  by (simp add: dir_ok_def bt_ok_def names_bytes_def)

lemma generate_many_Suc: "akey_generate s = (k, s') \<Longrightarrow> generate_many (Suc n) s = k # generate_many n s'"
  by simp

lemma generate_many_mono: "n \<le> n' \<Longrightarrow> set (generate_many n s) \<subseteq> set (generate_many n' s)"
proof (induction n arbitrary: n' s)
  case (Suc n)
  then obtain n'' where "n' = Suc n''" "n \<le> n''" by (cases n') auto
  then show ?case
    using Suc.IH [of n'' "snd (akey_generate s)"] by (cases "akey_generate s") auto
qed simp

lemma fresh_keys_mono: "fresh_keys H n s \<Longrightarrow> m \<le> n \<Longrightarrow> fresh_keys H m s"
  using generate_many_mono [of m n s] by (auto simp: fresh_keys_def)

lemma fresh_keys_dom: "fresh_keys H n s \<Longrightarrow> dom H' \<subseteq> dom H \<Longrightarrow> fresh_keys H' n s"
  by (auto simp: fresh_keys_def)

lemma fresh_keys_draw:
  assumes "fresh_keys H (Suc n) s" "akey_generate s = (k, s')"
  shows "H k = None" and "k \<noteq> akey_ROOT" and "fresh_keys (H(k \<mapsto> v)) n s'"
proof -
  have "distinct (generate_many (Suc n) s)"
    using assms(1) by (intro generate_many_distinct) (simp add: fresh_keys_def)
  then have "k \<notin> set (generate_many n s')" unfolding generate_many_Suc [OF assms(2)] by simp
  then show "fresh_keys (H(k \<mapsto> v)) n s'"
    using assms(1) unfolding fresh_keys_def generate_many_Suc [OF assms(2)] by auto
  show "H k = None" using assms(1) unfolding fresh_keys_def generate_many_Suc [OF assms(2)] by auto
  show "k \<noteq> akey_ROOT" using akey_generate_not_root [of s] assms(2) by simp
qed

lemma files_at_lookup: "tree H \<Longrightarrow> r \<noteq> [] \<Longrightarrow> files_at H r \<noteq> None \<longleftrightarrow> lookup H akey_ROOT r \<noteq> None"
  using lookup_present [of H r] by (auto simp: files_at_def split: option.split)

lemma depth_ok_height: "tree H \<Longrightarrow> depth_ok (files_at H) fuel \<Longrightarrow> height_below H akey_ROOT fuel"
proof (unfold height_below_def, intro allI impI)
  fix p x assume a: "tree H" "depth_ok (files_at H) fuel" "lookup H akey_ROOT p = Some x"
  then show "length p < fuel" using files_at_lookup [OF a(1), of p] by (cases "p = []") (auto simp: depth_ok_def)
qed

lemma depth_ok_mkdirs: "depth_ok F fuel \<Longrightarrow> length p < fuel \<Longrightarrow> depth_ok (mkdirs p F) fuel"
  by (auto simp: depth_ok_def mkdirs_def dest!: prefix_length_le split: if_splits)

text \<open>Enough fuel for any table: the keys on a path are distinct.\<close>

lemma depth_bound:
  assumes "tree H"
  shows "depth_ok (files_at H) (2 ^ 128)"
proof -
  have "length r < 2 ^ 128" if r: "lookup H akey_ROOT r = Some x" for r x
  proof -
    let ?f = "\<lambda>i. the (lookup H akey_ROOT (take i r))"
    have some: "lookup H akey_ROOT (take i r) = Some (?f i)" for i
      using lookup_prefix [of H akey_ROOT "take i r" "drop i r"] r by auto
    have "inj_on ?f {..length r}"
    proof (rule inj_onI)
      fix i j assume ij: "i \<in> {..length r}" "j \<in> {..length r}" "?f i = ?f j"
      then have "take i r = take j r" using lookup_inj [OF assms some [of i]] some [of j] by simp
      then have "length (take i r) = length (take j r)" by simp
      then show "i = j" using ij by simp
    qed
    then have "card {..length r} \<le> card (UNIV :: akey set)" by (rule card_inj_on_le) auto
    then show ?thesis by (simp add: card_word)
  qed
  then show ?thesis by (auto simp: depth_ok_def files_at_def split: option.splits)
qed

section \<open>Creating directories\<close>

text \<open>The same for the directories of one subtree.\<close>

definition roomy_at :: "heap \<Rightarrow> akey \<Rightarrow> string list \<Rightarrow> bool" where
  "roomy_at H k ns \<longleftrightarrow>
     (\<forall>n \<in> set ns. utf8 n \<and> dir_weight [] + ENTRY + length n < 2 ^ 32 \<and>
        (\<forall>x m. x \<in> below H k \<longrightarrow> H x = Some (DirN m) \<longrightarrow> dir_weight m + ENTRY + length n < 2 ^ 32))"

lemma roomy_roomy_at: "roomy H ns \<Longrightarrow> roomy_at H k ns"
  by (simp add: roomy_def roomy_at_def)

lemma roomy_at_insert: "roomy_at H k ns \<Longrightarrow> n \<in> set ns \<Longrightarrow> H k = Some (DirN m) \<Longrightarrow> dir_ok m \<Longrightarrow>
  dir_ok (bt_insert n c m)"
  unfolding roomy_at_def by (rule dir_ok_insert) (blast intro: below_refl)+

lemma roomy_insert: "roomy H ns \<Longrightarrow> n \<in> set ns \<Longrightarrow> H k = Some (DirN m) \<or> m = [] \<Longrightarrow> dir_ok m \<Longrightarrow>
  dir_ok (bt_insert n c m)"
  by (rule dir_ok_insert) (auto simp: roomy_def)

text \<open>The outcome of a walk that creates what is missing.\<close>

definition reached :: "heap \<Rightarrow> apath \<Rightarrow> heap \<Rightarrow> akey \<Rightarrow> (string, akey) btree \<Rightarrow> bool" where
  "reached H p H' k m \<longleftrightarrow>
     tree H' \<and> lookup H' akey_ROOT p = Some k \<and> H' k = Some (DirN m) \<and> (H k = Some (DirN m) \<or> m = []) \<and>
     files_at H' = mkdirs p (files_at H) \<and>
     (\<forall>r x. lookup H akey_ROOT r = Some x \<longrightarrow> lookup H' akey_ROOT r = Some x) \<and>
     (\<forall>x b. H' x = Some (FileN b) \<longleftrightarrow> H x = Some (FileN b))"

lemma reachedD:
  assumes "reached H p H' k m"
  shows "tree H'" "lookup H' akey_ROOT p = Some k" "H' k = Some (DirN m)" "H k = Some (DirN m) \<or> m = []"
    "files_at H' = mkdirs p (files_at H)" "\<And>r x. lookup H akey_ROOT r = Some x \<Longrightarrow> lookup H' akey_ROOT r = Some x"
    "\<And>x b. H' x = Some (FileN b) \<longleftrightarrow> H x = Some (FileN b)"
  using assms by (auto simp: reached_def)

lemma reached_keeps: "reached H p H' k m \<Longrightarrow> keeps S H H'"
  by (auto simp: reached_def keeps_def)

lemma mkdirs_here: "lookup H akey_ROOT q = Some k \<Longrightarrow> H k = Some (DirN m) \<Longrightarrow> mkdirs q (files_at H) = files_at H"
  by (auto simp: fun_eq_iff mkdirs_def reach_above)

lemma mkdirs_absorb: "mkdirs (q @ n # p) (mkdirs (q @ [n]) F) = mkdirs (q @ n # p) F"
proof -
  have "prefix r (q @ n # p)" if "prefix r (q @ [n])" for r
    using prefix_order.trans [OF that, of "(q @ [n]) @ p"] by simp
  then show ?thesis by (auto simp: fun_eq_iff mkdirs_def)
qed

lemma graft_dir: "mkdirs q F = F \<Longrightarrow> F (q @ [n]) = None \<Longrightarrow> (\<And>s. F (q @ n # s) = None) \<Longrightarrow>
  graft (q @ [n]) (single Directory) F = mkdirs (q @ [n]) F"
  by (auto simp: fun_eq_iff graft_def single_def mkdirs_def prefix_def strict_prefix_def)

lemma ensure_from_makes:
  assumes "tree H" "sees R c H" "lookup H akey_ROOT q = Some k" "H k = Some (DirN m)" "roomy_at H k p"
    and "fresh_keys H (length p + j) (ctx_rng c)"
    and "\<And>r x b. prefix r p \<Longrightarrow> lookup H k r = Some x \<Longrightarrow> H x \<noteq> Some (FileN b)"
  shows "\<exists>c' H' k' m'. makes R c (ensure_dir_from R k p) k' H' c' \<and> reached H (q @ p) H' k' m' \<and>
    fresh_keys H' j (ctx_rng c')"
  using assms
proof (induction p arbitrary: H c q k m)
  case Nil
  then have "reached H q H k m" by (simp add: reached_def mkdirs_here)
  then show ?case using makes_ret [OF Nil(2), of k] Nil(6) by (auto simp del: retOp_apply)
next
  case (Cons n p)
  note t = Cons.prems(1) and s = Cons.prems(2) and lk = Cons.prems(3) and hk = Cons.prems(4)
  show ?case
  proof (cases "child_at H k n")
    case (Some d)
    then have ld: "lookup H akey_ROOT (q @ [n]) = Some d" using lk by (simp add: lookup_snoc)
    obtain md where md: "H d = Some (DirN md)"
      using tree_child [OF t Some] Cons.prems(7) [of "[n]" d] Some by (cases "the (H d)") auto
    have "\<exists>c' H' k' m'. makes R c (ensure_dir_from R d p) k' H' c' \<and> reached H ((q @ [n]) @ p) H' k' m' \<and>
      fresh_keys H' j (ctx_rng c')"
    proof (rule Cons.IH [OF t s ld md])
      show "roomy_at H d p" using Cons.prems(5) below_child [OF Some] by (auto simp: roomy_at_def)
      show "fresh_keys H (length p + j) (ctx_rng c)" using Cons.prems(6) by (auto intro: fresh_keys_mono)
      fix r x b assume "prefix r p" "lookup H d r = Some x"
      then show "H x \<noteq> Some (FileN b)" using Cons.prems(7) [of "n # r" x] Some by simp
    qed
    moreover have "ensure_dir_from R k (n # p) c = ensure_dir_from R d p c"
      using s md Some by (simp add: sees_reads)
    ultimately show ?thesis by (auto simp: makes_def)
  next
    case None
    obtain d s' where gen: "akey_generate (ctx_rng c) = (d, s')" by force
    note draw = fresh_keys_draw [OF _ gen, of H "length p + j"]
    have fr: "fresh_keys H (Suc (length p + j)) (ctx_rng c)" using Cons.prems(6) by simp
    have dk: "d \<noteq> k" using draw(1) [OF fr] hk by auto
    let ?H1 = "H(d \<mapsto> DirN [])" and ?m = "bt_insert n d m"
    let ?H2 = "?H1(k \<mapsto> DirN ?m)"
    have ok: "dir_ok ?m" using roomy_at_insert [OF Cons.prems(5) _ hk tree_dir_ok [OF t hk]] by simp
    have g: "makes R c generate_key d H (c\<lparr>ctx_rng := s'\<rparr>)" by (rule generate_makes [OF s gen])
    obtain c1 where c1: "makes R (c\<lparr>ctx_rng := s'\<rparr>) (put_dir R d []) () ?H1 c1" "ctx_rng c1 = s'"
      using put_dir_makes [OF makes_sees [OF g] dir_ok_Nil, of d] draw(1) [OF fr] by auto
    obtain c2 where c2: "makes R c1 (link_child R k n d) () ?H2 c2" "ctx_rng c2 = s'"
      using link_makes [OF makes_sees [OF c1(1)], of k m n d] hk dk ok c1(2) by auto
    note at = attach [OF t lk hk draw(1) [OF fr] draw(2) [OF fr] ok, of "DirN []" "[]", simplified]
    have ld: "lookup ?H2 akey_ROOT (q @ [n]) = Some d"
      using at(3) [OF lk] by (simp add: lookup_snoc child_at_def)
    have empty: "lookup ?H2 d r = Some x \<longleftrightarrow> r = [] \<and> x = d" for r x
      using dk by (cases r) (auto simp: child_at_def)
    have "\<exists>c' H' k' m'. makes R c2 (ensure_dir_from R d p) k' H' c' \<and> reached ?H2 ((q @ [n]) @ p) H' k' m' \<and>
      fresh_keys H' j (ctx_rng c')"
    proof (rule Cons.IH [OF at(1) makes_sees [OF c2(1)] ld])
      show "?H2 d = Some (DirN [])" using dk by simp
      have "below ?H2 d = {d}" by (auto simp: below_def empty)
      then show "roomy_at ?H2 d p" using Cons.prems(5) dk by (auto simp: roomy_at_def)
      show "fresh_keys ?H2 (length p + j) (ctx_rng c2)"
        unfolding c2(2) by (rule fresh_keys_dom [OF draw(3) [OF fr, of "DirN []"]]) (use hk in auto)
      fix r x b assume "lookup ?H2 d r = Some x"
      then show "?H2 x \<noteq> Some (FileN b)" unfolding empty using dk by simp
    qed
    then obtain c' H' k' m' where f: "makes R c2 (ensure_dir_from R d p) k' H' c'"
      "reached ?H2 ((q @ [n]) @ p) H' k' m'" "fresh_keys H' j (ctx_rng c')" by blast
    have gone: "lookup H akey_ROOT (q @ n # r) = None" for r
      using lk None by (simp add: lookup_append)
    have mk: "files_at ?H2 = mkdirs (q @ [n]) (files_at H)"
      unfolding at(2) by (rule graft_dir [OF mkdirs_here [OF lk hk]]) (simp_all add: files_at_def gone)
    have keep: "lookup H akey_ROOT r = Some x \<Longrightarrow> lookup H' akey_ROOT r = Some x" for r x
      using at(3) [of r x] reachedD(6) [OF f(2)] gone by (cases "prefix (q @ [n]) r") (auto simp: prefix_def)
    have "reached H (q @ n # p) H' k' m'"
      unfolding reached_def
    proof (intro conjI allI impI)
      show "H k' = Some (DirN m') \<or> m' = []"
      proof (cases "k' = k")
        case True
        then have "lookup H' akey_ROOT q = Some k'" using keep [OF lk] by simp
        then have "q = (q @ [n]) @ p" using lookup_inj [OF reachedD(1) [OF f(2)]] reachedD(2) [OF f(2)] by blast
        then show ?thesis by simp
      qed (use reachedD(4) [OF f(2)] in \<open>auto split: if_splits\<close>)
      show "files_at H' = mkdirs (q @ n # p) (files_at H)"
        using reachedD(5) [OF f(2)] by (simp add: mk mkdirs_absorb)
      show "H' x = Some (FileN b) \<longleftrightarrow> H x = Some (FileN b)" for x b
        using reachedD(7) [OF f(2), of x b] draw(1) [OF fr] hk dk by (auto split: if_splits)
    qed (use reachedD [OF f(2)] keep in auto)
    moreover have "ensure_dir_from R k (n # p) c = ensure_dir_from R d p c2"
      using s None g c1(1) c2(1) by (simp add: sees_reads makes_def)
    ultimately show ?thesis using f(1,3) by (auto simp: makes_def)
  qed
qed

lemma ensure_dir_makes:
  assumes "tree H" "sees R c H" "roomy H p" "fresh_keys H (length p + j) (ctx_rng c)"
    and "\<And>r b. prefix r p \<Longrightarrow> files_at H r \<noteq> Some (Document b)"
  shows "\<exists>c' H' k' m'. makes R c (ensure_dir R p) k' H' c' \<and> reached H p H' k' m' \<and>
    fresh_keys H' j (ctx_rng c')"
proof (cases "H akey_ROOT")
  case None
  let ?H = "H(akey_ROOT \<mapsto> DirN [])"
  obtain c1 where c1: "makes R c (put_dir R akey_ROOT []) () ?H c1" "ctx_rng c1 = ctx_rng c"
    using put_dir_makes [OF assms(2) dir_ok_Nil, of akey_ROOT] None by auto
  have t: "tree ?H" by (rule tree_fresh [OF assms(1) None]) simp
  have l: "lookup ?H akey_ROOT r = (if r = [] then Some akey_ROOT else None)"
    "lookup H akey_ROOT r = (if r = [] then Some akey_ROOT else None)" for r
    using None by (cases r; simp add: child_at_def)+
  have "fresh_keys ?H (length p + j) (ctx_rng c1)"
  proof -
    have "akey_ROOT \<notin> set (generate_many (length p + j) (ctx_rng c))"
      by (auto simp: in_set_conv_nth generate_many_nth akey_generate_not_root)
    then show ?thesis using assms(4) c1(2) by (auto simp: fresh_keys_def)
  qed
  moreover have "roomy_at ?H akey_ROOT p"
    using assms(3) by (auto simp: roomy_at_def roomy_def)
  moreover have "?H akey_ROOT = Some (DirN [])" by simp
  ultimately have "\<exists>c' H' k' m'. makes R c1 (ensure_dir_from R akey_ROOT p) k' H' c' \<and> reached ?H ([] @ p) H' k' m' \<and>
    fresh_keys H' j (ctx_rng c')"
    using l(1) by (intro ensure_from_makes [OF t makes_sees [OF c1(1)]]) (auto split: if_splits)
  then obtain c' H' k' m' where f: "makes R c1 (ensure_dir_from R akey_ROOT p) k' H' c'"
    "reached ?H p H' k' m'" "fresh_keys H' j (ctx_rng c')" by auto
  have "files_at H = (\<lambda>_. None)" "files_at ?H = mkdirs [] (files_at H)"
    by (auto simp: fun_eq_iff files_at_def l None mkdirs_def)
  then have "reached H p H' k' m'"
    using f(2) None l unfolding reached_def
    by (auto simp: fun_eq_iff mkdirs_def split: if_splits)
  moreover have "ensure_root R c = (Ok (), c1)"
    using sees_has [OF assms(2), of akey_ROOT] None c1(1) by (simp add: ensure_root_def makes_def bindOp_def)
  then have "ensure_dir R p c = ensure_dir_from R akey_ROOT p c1" by (simp add: ensure_dir_def)
  ultimately show ?thesis using f(1,3) by (auto simp: makes_def)
next
  case (Some v)
  then obtain m where m: "H akey_ROOT = Some (DirN m)" using tree_root [OF assms(1)] by (cases v) auto
  have "H x \<noteq> Some (FileN b)" if "prefix r p" "lookup H akey_ROOT r = Some x" for r x b
    using assms(5) [OF that(1), of b] that(2) by (auto simp: files_at_def)
  then have "\<exists>c' H' k' m'. makes R c (ensure_dir_from R akey_ROOT p) k' H' c' \<and> reached H ([] @ p) H' k' m' \<and>
    fresh_keys H' j (ctx_rng c')"
    using assms m by (intro ensure_from_makes roomy_roomy_at) auto
  moreover have "ensure_dir R p c = ensure_dir_from R akey_ROOT p c"
    using assms(2) m by (simp add: ensure_dir_def ensure_root_def sees_reads)
  ultimately show ?thesis by (auto simp: makes_def)
qed

section \<open>Storing a file\<close>

lemma split_last_snoc [simp]: "split_last_or_panic (q @ [n]) = Ok (q, n)"
  by (simp add: split_last_or_panic_def apath_split_last_def)

lemma overwrite_file:
  assumes "tree H" "lookup H akey_ROOT (q @ [n]) = Some d" "H d = Some (FileN b0)"
  shows "tree (H(d \<mapsto> FileN b))"
    and "files_at (H(d \<mapsto> FileN b)) = graft (q @ [n]) (single (Document b)) (files_at H)"
    and "keeps S H (H(d \<mapsto> FileN b))"
proof -
  let ?H = "H(d \<mapsto> FileN b)"
  have ch: "child_at ?H = child_at H" using assms(3) by (auto simp: fun_eq_iff child_at_def)
  have "d \<noteq> akey_ROOT" using tree_root [OF assms(1)] assms(3) by metis
  then show "tree ?H" using assms(1) unfolding tree_def ch by auto
  have l: "lookup ?H k r = lookup H k r" for k r by (induction r arbitrary: k) (simp_all add: ch split: option.split)
  then show "keeps S H ?H" by (simp add: keeps_def)
  obtain k where k: "lookup H akey_ROOT q = Some k" "child_at H k n = Some d"
    using assms(2) by (rule lookup_snocE)
  then obtain m where m: "H k = Some (DirN m)" by (auto simp: child_at_def split: option.splits fnode.splits)
  show "files_at ?H = graft (q @ [n]) (single (Document b)) (files_at H)"
  proof
    fix r
    consider (at) "r = q @ [n]" | (below) x s where "r = q @ n # x # s"
      | (above) "strict_prefix r (q @ [n])" | (away) "\<not> prefix (q @ [n]) r" "\<not> strict_prefix r (q @ [n])"
      by (cases "prefix (q @ [n]) r") (auto simp: prefix_def neq_Nil_conv, metis neq_Nil_conv)
    then show "files_at ?H r = graft (q @ [n]) (single (Document b)) (files_at H) r"
    proof cases
      case at
      then show ?thesis using assms(2) by (simp add: files_at_def l graft_def single_def)
    next
      case below
      then have "lookup H akey_ROOT r = None" using k assms(3) by (simp add: lookup_append child_at_def [of H d])
      then show ?thesis using below by (simp add: files_at_def l graft_def single_def)
    next
      case above
      then have "files_at H r = Some Directory" using reach_above [OF k(1) m strict_prefix_snocE] by blast
      moreover have "\<not> prefix (q @ [n]) r" using above by (auto dest: prefix_length_le prefix_length_less)
      ultimately show ?thesis
        using above assms(3) by (auto simp: files_at_def l graft_def split: option.splits)
    next
      case away
      then have "lookup H akey_ROOT r \<noteq> Some d" using lookup_inj [OF assms(1,2)] by auto
      then show ?thesis using away by (auto simp: files_at_def l graft_def split: option.split)
    qed
  qed
qed

lemma link_fresh_file:
  assumes "sees R c H" "H k = Some (DirN m)" "H (fst (akey_generate (ctx_rng c))) = None"
    "dir_ok (bt_insert n (fst (akey_generate (ctx_rng c))) m)"
  shows "\<exists>c'. makes R c (bindOp (bindOp generate_key (\<lambda>fresh. seqOp (link_child R k n fresh) (retOp fresh)))
      (\<lambda>akey. put_entry R akey (file_entry b))) ()
    (H(fst (akey_generate (ctx_rng c)) \<mapsto> FileN b, k \<mapsto> DirN (bt_insert n (fst (akey_generate (ctx_rng c))) m))) c'"
proof -
  obtain d s where gen: "akey_generate (ctx_rng c) = (d, s)" by force
  have dk: "d \<noteq> k" using assms(2,3) gen by auto
  have g: "makes R c generate_key d H (c\<lparr>ctx_rng := s\<rparr>)" by (rule generate_makes [OF assms(1) gen])
  obtain c1 where c1: "makes R (c\<lparr>ctx_rng := s\<rparr>) (link_child R k n d) () (H(k \<mapsto> DirN (bt_insert n d m))) c1"
    using link_makes [OF makes_sees [OF g] assms(2), of n d] assms(4) gen by auto
  obtain c2 where c2: "makes R c1 (put_entry R d (file_entry b)) () (H(k \<mapsto> DirN (bt_insert n d m), d \<mapsto> FileN b)) c2"
    using put_file_makes [OF makes_sees [OF c1], of d b] dk assms(3) gen by auto
  have "makes R c (bindOp generate_key (\<lambda>fresh. seqOp (link_child R k n fresh) (retOp fresh))) d
      (H(k \<mapsto> DirN (bt_insert n d m))) c1"
    by (rule makes_bind [OF g], rule makes_seq [OF c1], rule makes_ret [OF makes_sees [OF c1]])
  then have "makes R c (bindOp (bindOp generate_key (\<lambda>fresh. seqOp (link_child R k n fresh) (retOp fresh)))
      (\<lambda>akey. put_entry R akey (file_entry b))) () (H(k \<mapsto> DirN (bt_insert n d m), d \<mapsto> FileN b)) c2"
    by (rule makes_bind) (rule c2)
  then show ?thesis using gen dk by (auto simp: fun_upd_twist)
qed

lemma store_blob_makes:
  assumes "tree H" "sees R c H" "roomy H (q @ [n])" "fresh_keys H (Suc (length q)) (ctx_rng c)"
    and "depth_ok (files_at H) fuel" "length q < fuel"
    and "\<And>r b. prefix r q \<Longrightarrow> files_at H r \<noteq> Some (Document b)"
  shows "\<exists>c' H'. makes R c (store_blob_into fuel R (q @ [n]) b) () H' c' \<and> tree H' \<and>
    files_at H' = graft (q @ [n]) (single (Document b)) (files_at H) \<and> keeps [q @ [n]] H H'"
proof -
  have "roomy H q" "fresh_keys H (length q + 1) (ctx_rng c)" using assms(3,4) by (auto simp: roomy_def)
  from ensure_dir_makes [OF assms(1,2) this assms(7)]
  obtain c1 H1 k m where e: "makes R c (ensure_dir R q) k H1 c1" "reached H q H1 k m" "fresh_keys H1 1 (ctx_rng c1)"
    by blast
  note r = reachedD [OF e(2)] and s1 = makes_sees [OF e(1)]
  let ?d = "fst (akey_generate (ctx_rng c1))"
  have gen: "akey_generate (ctx_rng c1) = (?d, snd (akey_generate (ctx_rng c1)))" by simp
  have fr: "fresh_keys H1 (Suc 0) (ctx_rng c1)" using e(3) by simp
  have fd: "H1 ?d = None" "?d \<noteq> akey_ROOT" using fresh_keys_draw(1,2) [OF fr gen] by auto
  have ok: "dir_ok (bt_insert n ?d m)"
    using roomy_insert [OF assms(3), of n k m] r(4) tree_dir_ok [OF r(1,3)] by simp
  have st: "store_blob_into fuel R (q @ [n]) b c = bindOp (case child_at H1 k n of
      Some node \<Rightarrow> bindOp (readOp (\<lambda>c. ctx_kind R c node)) (\<lambda>kind. if kind = Some File then retOp node
         else seqOp (cascade_delete fuel R node) (bindOp generate_key (\<lambda>fresh. seqOp (link_child R k n fresh) (retOp fresh))))
    | None \<Rightarrow> bindOp generate_key (\<lambda>fresh. seqOp (link_child R k n fresh) (retOp fresh)))
    (\<lambda>akey. put_entry R akey (file_entry b)) c1"
    using e(1) sees_child [OF s1, of k n] by (simp add: store_blob_into_def makes_def bindOp_def)
  have absorb: "graft (q @ [n]) t (files_at H1) = graft (q @ [n]) t (files_at H)" for t by (simp add: r(5))
  have keep: "keeps [q @ [n]] H H'" if "keeps [q @ [n]] H1 H'" for H'
    using keeps_trans [OF reached_keeps [OF e(2)] that] .
  have dk: "?d \<noteq> k" using fd(1) r(3) by auto
  show ?thesis
  proof (cases "child_at H1 k n")
    case None
    have "keeps [q @ [n]] H1 (H1(?d \<mapsto> FileN b, k \<mapsto> DirN (bt_insert n ?d m)))"
      by (rule keeps_dir [OF r(1-3), of "{}"]) (use fd(1) in auto)
    with link_fresh_file [OF s1 r(3) fd(1) ok, of b] attach(1,2) [OF r(1-3) fd ok, of "FileN b" b]
    show ?thesis unfolding makes_def st None using keep by (auto simp: absorb)
  next
    case (Some d)
    then have ld: "lookup H1 akey_ROOT (q @ [n]) = Some d" "bt_get m n = Some d"
      using r(2,3) by (simp_all add: lookup_snoc child_at_def)
    show ?thesis
    proof (cases "\<exists>b0. H1 d = Some (FileN b0)")
      case True
      then obtain b0 where b0: "H1 d = Some (FileN b0)" by blast
      from put_file_makes [OF s1, of d b] b0 overwrite_file [OF r(1) ld(1) b0, where b = b]
      show ?thesis unfolding makes_def st Some using keep by (auto simp: absorb sees_kind [OF s1] bindOp_def)
    next
      case False
      have "height_below H1 akey_ROOT fuel"
        using depth_ok_height [OF r(1)] depth_ok_mkdirs [OF assms(5,6)] r(5) by simp
      from cascade_makes_top [OF r(1) ld(1) this s1]
      obtain c2 where c2: "makes R c1 (cascade_delete fuel R d) () (H1 |` (- below H1 d)) c2" "ctx_rng c2 = ctx_rng c1"
        by blast
      have "k \<notin> below H1 d" using lookup_below [OF r(1) ld(1) r(2)] by (auto dest: prefix_length_le)
      then have hk: "(H1 |` (- below H1 d)) k = Some (DirN m)" using r(3) by simp
      have dn: "(H1 |` (- below H1 d)) ?d = None" using fd(1) by (simp add: restrict_map_def)
      have kd: "?d \<notin> below H1 d"
      proof
        assume "?d \<in> below H1 d"
        then obtain s where "lookup H1 d s = Some ?d" by (auto simp: below_def)
        then have "lookup H1 akey_ROOT ((q @ [n]) @ s) = Some ?d" using ld(1) unfolding lookup_append by simp
        then show False using lookup_present [OF r(1)] fd(1) by blast
      qed
      have "(H1 |` (- below H1 d))(?d \<mapsto> FileN b, k \<mapsto> DirN (bt_insert n ?d m))
          = (H1(?d \<mapsto> FileN b, k \<mapsto> DirN (bt_insert n ?d m))) |` (- below H1 d)"
        using kd \<open>k \<notin> below H1 d\<close> by (auto simp: fun_eq_iff restrict_map_def)
      moreover have kp: "keeps [q @ [n]] H1 ((H1(?d \<mapsto> FileN b, k \<mapsto> DirN (bt_insert n ?d m))) |` (- below H1 d))"
        by (rule keeps_dir [OF r(1-3), of "below H1 d" n "bt_insert n ?d m"])
          (use fd(1) ld(2) \<open>k \<notin> below H1 d\<close> in \<open>auto simp: restrict_map_def\<close>)
      moreover note link_fresh_file [OF makes_sees [OF c2(1)] hk, of n b] c2(2) dn ok
        replace [OF r(1-3) ld(2) fd ok, of "FileN b" b]
      ultimately have "\<exists>c3 H3. makes R c2 (bindOp (bindOp generate_key (\<lambda>fresh. seqOp (link_child R k n fresh) (retOp fresh)))
          (\<lambda>akey. put_entry R akey (file_entry b))) () H3 c3 \<and> tree H3 \<and>
          files_at H3 = graft (q @ [n]) (single (Document b)) (files_at H) \<and> keeps [q @ [n]] H H3"
        using keep [OF kp] by (auto simp: absorb)
      moreover have "map_option kind_of (H1 d) \<noteq> Some File" using False by (cases "H1 d"; cases "the (H1 d)") auto
      ultimately show ?thesis unfolding makes_def st Some
        using c2(1) by (auto simp: sees_kind [OF s1] makes_def bindOp_def seqOp_def)
    qed
  qed
qed

section \<open>Removing\<close>

lemma parent_of:
  assumes "lookup H k (q @ [n]) = Some d"
  obtains x m where "lookup H k q = Some x" "H x = Some (DirN m)" "bt_get m n = Some d"
  using assms by (auto simp: lookup_snoc child_at_def split: option.splits fnode.splits)

lemma rm_makes:
  assumes "tree H" "sees R c H" "depth_ok (files_at H) fuel" "files_at H (q @ [n]) \<noteq> None"
  shows "\<exists>c' H'. makes R c (rm_into fuel R (q @ [n])) True H' c' \<and> tree H' \<and>
    files_at H' = prune_at (q @ [n]) (files_at H) \<and> keeps [q @ [n]] H H'"
proof -
  obtain d where d: "lookup H akey_ROOT (q @ [n]) = Some d" using assms(4) by (auto simp: files_at_def split: option.splits)
  then obtain k m where k: "lookup H akey_ROOT q = Some k" "H k = Some (DirN m)" "bt_get m n = Some d"
    by (rule parent_of)
  obtain c1 where c1: "makes R c (cascade_delete fuel R d) () (H |` (- below H d)) c1"
    using cascade_makes_top [OF assms(1) d depth_ok_height [OF assms(1,3)] assms(2)] by blast
  have kD: "k \<notin> below H d" using lookup_below [OF assms(1) d k(1)] by (auto dest: prefix_length_le)
  then obtain c2 where c2: "makes R c1 (unlink_child R k n) () ((H |` (- below H d))(k \<mapsto> DirN (bt_remove n m))) c2"
    using unlink_makes [OF makes_sees [OF c1], of k m n] k(2) by auto
  have "(H |` (- below H d))(k \<mapsto> DirN (bt_remove n m)) = (H(k \<mapsto> DirN (bt_remove n m))) |` (- below H d)"
    using kD by (auto simp: fun_eq_iff restrict_map_def)
  moreover have "keeps [q @ [n]] H ((H |` (- below H d))(k \<mapsto> DirN (bt_remove n m)))"
    by (rule keeps_dir [OF assms(1) k(1,2), of "below H d" n "bt_remove n m"]) (use k(3) kD in auto)
  moreover have "rm_into fuel R (q @ [n]) c = (Ok True, c2)"
    using sees_resolve [OF assms(2), of q] sees_child [OF assms(2), of k n] k c1 c2
    by (simp add: rm_into_def makes_def bindOp_def seqOp_def child_at_def)
  ultimately show ?thesis using detach [OF assms(1) k] makes_sees [OF c2] by (auto simp: makes_def)
qed

lemma rm_nothing:
  assumes "tree H" "sees R c H" "files_at H (q @ [n]) = None"
  shows "rm_into fuel R (q @ [n]) c = (Ok False, c)"
proof -
  have "lookup H akey_ROOT (q @ [n]) = None" using files_at_lookup [OF assms(1), of "q @ [n]"] assms(3) by simp
  then show ?thesis
    using sees_resolve [OF assms(2), of q] sees_child [OF assms(2)]
    by (auto simp: rm_into_def bindOp_def lookup_snoc split: option.splits)
qed

section \<open>Moving\<close>

lemma bt_insert_remove: "bt_ok m \<Longrightarrow> a \<noteq> b \<Longrightarrow> bt_remove a (bt_insert b v m) = bt_insert b v (bt_remove a m)"
  by (rule bt_ext) (auto simp: bt_ok_remove bt_ok_insert)

lemma clear_makes:
  assumes "tree H" "sees R c H" "lookup H akey_ROOT q = Some k" "H k = Some (DirN m)" "height_below H akey_ROOT fuel"
  shows "\<exists>c'. makes R c (clear_destination fuel R k n) ()
    (H |` (- (case bt_get m n of Some d \<Rightarrow> below H d | None \<Rightarrow> {}))) c' \<and> ctx_rng c' = ctx_rng c"
proof (cases "bt_get m n")
  case None
  have "H |` (- {}) = H" by (simp add: restrict_map_def)
  then show ?thesis
    using assms(2,4) None sees_child [OF assms(2), of k n]
    by (auto simp: clear_destination_def makes_def bindOp_def child_at_def)
next
  case (Some d)
  then have "lookup H akey_ROOT (q @ [n]) = Some d" using assms(3,4) by (simp add: lookup_snoc child_at_def)
  from cascade_makes_top [OF assms(1) this assms(5,2)] show ?thesis
    using Some sees_child [OF assms(2), of k n] assms(4)
    by (auto simp: clear_destination_def makes_def bindOp_def child_at_def)
qed

lemma move_heap:
  assumes "tree H" "lookup H akey_ROOT p = Some ks" "H ks = Some (DirN ms)" "bt_get ms sn = Some c"
    and "lookup H akey_ROOT q = Some kd" "H kd = Some (DirN md)" "dir_ok (bt_insert dn c md)"
    and "\<not> prefix (p @ [sn]) (q @ [dn])" "\<not> prefix (q @ [dn]) (p @ [sn])"
    and D: "D = (case bt_get md dn of Some d \<Rightarrow> below H d | None \<Rightarrow> {})"
    and H3: "H3 = (H |` (- D))(kd \<mapsto> DirN (bt_insert dn c md))"
  shows "kd \<notin> D" and "\<exists>ms3. H3 ks = Some (DirN ms3) \<and> tree (H3(ks \<mapsto> DirN (bt_remove sn ms3))) \<and>
    files_at (H3(ks \<mapsto> DirN (bt_remove sn ms3))) =
      graft (q @ [dn]) (subtree_at (p @ [sn]) (files_at H)) (prune_at (p @ [sn]) (files_at H)) \<and>
    keeps [p @ [sn], q @ [dn]] H (H3(ks \<mapsto> DirN (bt_remove sn ms3)))"
proof -
  define H1 where "H1 = H(ks \<mapsto> DirN (bt_remove sn ms))"
  define md' where "md' = (if kd = ks then bt_remove sn ms else md)"
  define K where "K = H1(kd \<mapsto> DirN (bt_insert dn c md'))"
  have lc: "lookup H akey_ROOT (p @ [sn]) = Some c" using assms(2-4) by (simp add: lookup_snoc child_at_def)
  have same: "ms = md \<and> sn \<noteq> dn" if "kd = ks"
    using that assms(2,3,5,6,8) lookup_inj [OF assms(1,2), of q] by auto
  have okm: "bt_ok md" using tree_dir_ok [OF assms(1,6)] by (simp add: dir_ok_def)
  have ok: "dir_ok (bt_insert dn c md')"
    using assms(7) same dir_ok_remove [OF assms(7), of sn] bt_insert_remove [OF okm, of sn dn c] by (auto simp: md'_def)
  have np: "\<not> prefix (p @ [sn]) q" using assms(8) prefix_order.trans by (metis prefixI)
  have rel: "tree K" "files_at K = graft (q @ [dn]) (subtree_at (p @ [sn]) (files_at H)) (prune_at (p @ [sn]) (files_at H))"
    using relink [OF assms(1-6) np H1_def K_def _ ok] assms(6) by (auto simp: H1_def md'_def)
  have dd: "d \<noteq> akey_ROOT \<and> lookup H akey_ROOT (q @ [dn]) = Some d" if "bt_get md dn = Some d" for d
    using that assms(5,6) tree_child [OF assms(1), of kd dn d] by (simp add: lookup_snoc child_at_def)
  show kdD: "kd \<notin> D"
    using lookup_below [OF assms(1) _ assms(5), of "q @ [dn]"] dd
    by (auto simp: D dest: prefix_length_le split: option.splits)
  have ksD: "ks \<notin> D"
    using lookup_below [OF assms(1) _ assms(2), of "q @ [dn]"] dd assms(9)
    by (auto simp: D dest: append_prefixD split: option.splits)
  have cD: "c \<notin> D"
    using lookup_below [OF assms(1) _ lc, of "q @ [dn]"] dd assms(9) by (auto simp: D split: option.splits)
  have pr: "tree (K |` (- D)) \<and> files_at (K |` (- D)) = files_at K"
  proof (cases "bt_get md dn")
    case None
    then have "K |` (- D) = K" by (simp add: D restrict_map_def)
    then show ?thesis using rel(1) by simp
  next
    case (Some d)
    then have Dd: "D = below H d" by (simp add: D)
    have "child_at H j x = Some y \<and> \<not> (j = kd \<and> x = dn)" if "child_at K j x = Some y" "y \<in> below H d" for j x y
      using that cD assms(3,6) same unfolding Dd
      by (auto simp: K_def H1_def md'_def child_at_def split: if_splits)
    from prune_subtree [OF assms(1,5,6) Some rel(1) this] show ?thesis by (auto simp: Dd)
  qed
  define ms3 where "ms3 = (if ks = kd then bt_insert dn c md else ms)"
  have kp: "keeps [p @ [sn], q @ [dn]] H (K |` (- D))"
  proof (rule keepsI)
    fix r j x y
    assume r: "lookup H akey_ROOT r = Some j" "\<And>s. s \<in> set [p @ [sn], q @ [dn]] \<Longrightarrow> \<not> prefix s (r @ [x])" "child_at H j x = Some y"
    have "j \<notin> D"
      using lookup_below [OF assms(1) _ r(1), of "q @ [dn]"] dd r(2) by (auto simp: D split: option.splits)
    moreover have "j = ks \<Longrightarrow> x \<noteq> sn" "j = kd \<Longrightarrow> x \<noteq> dn"
      using lookup_inj [OF assms(1) r(1)] assms(2,5) r(2) by auto
    ultimately show "child_at (K |` (- D)) j x = Some y"
      using r(3) assms(3,6) same by (auto simp: K_def H1_def md'_def child_at_def restrict_map_def)
  qed
  have "H3 ks = Some (DirN ms3)" using ksD assms(3) by (simp add: H3 ms3_def)
  moreover have "H3(ks \<mapsto> DirN (bt_remove sn ms3)) = K |` (- D)"
    using ksD kdD same bt_insert_remove [OF okm, of sn dn c]
    by (auto simp: fun_eq_iff H3 K_def H1_def ms3_def md'_def restrict_map_def)
  ultimately show "\<exists>ms3. H3 ks = Some (DirN ms3) \<and> tree (H3(ks \<mapsto> DirN (bt_remove sn ms3))) \<and>
    files_at (H3(ks \<mapsto> DirN (bt_remove sn ms3))) =
      graft (q @ [dn]) (subtree_at (p @ [sn]) (files_at H)) (prune_at (p @ [sn]) (files_at H)) \<and>
    keeps [p @ [sn], q @ [dn]] H (H3(ks \<mapsto> DirN (bt_remove sn ms3)))"
    using pr rel(2) kp by auto
qed

lemma mv_makes:
  assumes "tree H" "sees R c H" "files_at H (p @ [sn]) \<noteq> None"
    and "\<not> prefix (p @ [sn]) (q @ [dn])" "\<not> prefix (q @ [dn]) (p @ [sn])"
    and "roomy H (q @ [dn])" "fresh_keys H (length q) (ctx_rng c)"
    and "depth_ok (files_at H) fuel" "length q < fuel"
    and "\<And>r b. prefix r q \<Longrightarrow> files_at H r \<noteq> Some (Document b)"
  shows "\<exists>c' H'. makes R c (mv_into fuel R (p @ [sn]) (q @ [dn])) () H' c' \<and> tree H' \<and>
    files_at H' = graft (q @ [dn]) (subtree_at (p @ [sn]) (files_at H)) (prune_at (p @ [sn]) (files_at H)) \<and>
    keeps [p @ [sn], q @ [dn]] H H'"
proof -
  obtain x where x: "lookup H akey_ROOT (p @ [sn]) = Some x"
    using assms(3) by (auto simp: files_at_def split: option.splits)
  then obtain ks ms0 where k0: "lookup H akey_ROOT p = Some ks" "H ks = Some (DirN ms0)" "bt_get ms0 sn = Some x"
    by (rule parent_of)
  have "roomy H q" "fresh_keys H (length q + 0) (ctx_rng c)" using assms(6,7) by (auto simp: roomy_def)
  from ensure_dir_makes [OF assms(1,2) this assms(10)]
  obtain c1 H1 kd md where e: "makes R c (ensure_dir R q) kd H1 c1" "reached H q H1 kd md" by blast
  note r = reachedD [OF e(2)]
  have l1: "lookup H1 akey_ROOT p = Some ks" "lookup H1 akey_ROOT (p @ [sn]) = Some x" using r(6) k0 x by auto
  then obtain ms where ms: "H1 ks = Some (DirN ms)" "bt_get ms sn = Some x"
    using parent_of [OF l1(2)] l1(1) by (metis option.inject)
  have ok: "dir_ok (bt_insert dn x md)"
    using roomy_insert [OF assms(6), of dn kd md] r(4) tree_dir_ok [OF r(1,3)] by simp
  define D where "D = (case bt_get md dn of Some d \<Rightarrow> below H1 d | None \<Rightarrow> {})"
  note mh = move_heap [OF r(1) l1(1) ms r(2,3) ok assms(4,5) D_def refl]
  have "height_below H1 akey_ROOT fuel"
    using depth_ok_height [OF r(1)] depth_ok_mkdirs [OF assms(8,9)] r(5) by simp
  from clear_makes [OF r(1) makes_sees [OF e(1)] r(2,3) this, of dn]
  obtain c2 where c2: "makes R c1 (clear_destination fuel R kd dn) () (H1 |` (- D)) c2" by (auto simp: D_def)
  obtain c3 where c3: "makes R c2 (link_child R kd dn x) () ((H1 |` (- D))(kd \<mapsto> DirN (bt_insert dn x md))) c3"
    using link_makes [OF makes_sees [OF c2], of kd md dn x] mh(1) r(3) ok by auto
  obtain ms3 where ms3: "((H1 |` (- D))(kd \<mapsto> DirN (bt_insert dn x md))) ks = Some (DirN ms3)"
    "tree ((H1 |` (- D))(kd \<mapsto> DirN (bt_insert dn x md), ks \<mapsto> DirN (bt_remove sn ms3)))"
    "files_at ((H1 |` (- D))(kd \<mapsto> DirN (bt_insert dn x md), ks \<mapsto> DirN (bt_remove sn ms3))) =
      graft (q @ [dn]) (subtree_at (p @ [sn]) (files_at H1)) (prune_at (p @ [sn]) (files_at H1))"
    "keeps [p @ [sn], q @ [dn]] H1 ((H1 |` (- D))(kd \<mapsto> DirN (bt_insert dn x md), ks \<mapsto> DirN (bt_remove sn ms3)))"
    using mh(2) by blast
  obtain c4 where c4: "makes R c3 (unlink_child R ks sn) ()
      ((H1 |` (- D))(kd \<mapsto> DirN (bt_insert dn x md), ks \<mapsto> DirN (bt_remove sn ms3))) c4"
    using unlink_makes [OF makes_sees [OF c3] ms3(1), of sn] by blast
  have "child_at H ks sn = Some x" using k0(2,3) by (simp add: child_at_def)
  then have "mv_into fuel R (p @ [sn]) (q @ [dn]) c = (Ok (), c4)"
    using sees_resolve [OF assms(2), of p] sees_child [OF assms(2), of ks sn] k0(1) e(1) c2 c3 c4
    by (simp add: mv_into_def makes_def bindOp_def seqOp_def)
  moreover have "\<not> prefix (p @ [sn]) q" using assms(4) by (metis prefix_order.trans prefixI)
  ultimately show ?thesis
    using ms3(2,3) keeps_trans [OF reached_keeps [OF e(2)] ms3(4)] makes_sees [OF c4]
    by (auto simp: r(5) makes_def subtree_at_mkdirs)
qed

end
