(* ===== verification/Index_Sync.thy ===== *)
theory Index_Sync
  imports Index_Maintenance Store_Laws
begin

text \<open>
  What index maintenance keeps. The rows an index should have are a function of the file system: one
  row per a-node its pattern matches, made of the scalars found by decoding the document and reading the
  columns. \<open>synced\<close> says the physical entries of an index are exactly those rows. Deleting the
  rows on the path of a change before it, and inserting them after it, keeps every index synced; it
  fails exactly when the changed table violates a unique index.
\<close>

section \<open>Tables that hold a heap\<close>

definition holds_heap :: "('t, akey, bytes) redb \<Rightarrow> 't \<Rightarrow> heap \<Rightarrow> bool" where
  "holds_heap R t H \<longleftrightarrow> redb_ok R \<and> tree H \<and> (\<forall>k. contents R t k = map_option enc_node (H k))"

lemma holds_heapD:
  assumes "holds_heap R t H"
  shows "redb_ok R" "tree H" "table_get R t k = Ok (map_option enc_node (H k))" "contents R t k = map_option enc_node (H k)"
  using assms by (auto simp: holds_heap_def redb_simps)

lemma holds_child: "holds_heap R t H \<Longrightarrow> child_of R t k n = Ok (child_at H k n)"
  by (auto simp: child_of_def holds_heapD(3) child_at_def entry_child_dir entry_child_file tree_dir_ok [OF holds_heapD(2)]
      split: option.split fnode.split)

lemma holds_children: "holds_heap R t H \<Longrightarrow>
  pattern_children R t k = Ok (case H k of Some (DirN m) \<Rightarrow> map snd m | _ \<Rightarrow> [])"
  using entry_cascade_dir [of _] tree_dir_ok [OF holds_heapD(2)]
  by (fastforce simp: pattern_children_def read_entry_def holds_heapD(3) entry_cascade_def split: option.split fnode.split)

section \<open>The a-nodes a pattern matches\<close>

fun seg_matches :: "pattern_seg \<Rightarrow> string \<Rightarrow> bool" where
  "seg_matches (Lit name) n \<longleftrightarrow> n = name"
| "seg_matches Star n \<longleftrightarrow> True"

definition matches :: "pattern \<Rightarrow> apath \<Rightarrow> bool" where
  "matches segs q \<longleftrightarrow> list_all2 seg_matches segs q"

lemma matches_Nil [simp]: "matches [] q \<longleftrightarrow> q = []"
  by (simp add: matches_def)

lemma matches_Cons [simp]: "matches (g # segs) q \<longleftrightarrow> (\<exists>n q'. q = n # q' \<and> seg_matches g n \<and> matches segs q')"
  by (auto simp: matches_def list_all2_Cons1)

text \<open>Two paths on one line from the root.\<close>

definition aligned :: "apath \<Rightarrow> apath \<Rightarrow> bool" where
  "aligned q s \<longleftrightarrow> prefix q s \<or> prefix s q"

lemma aligned_simps [simp]: "aligned [] s" "aligned q []"
  "aligned (a # q) (b # s) \<longleftrightarrow> a = b \<and> aligned q s"
  by (auto simp: aligned_def)

lemma lookup_Cons_iff: "lookup H k (n # q) = Some x \<longleftrightarrow> (\<exists>c. child_at H k n = Some c \<and> lookup H c q = Some x)"
  by (simp split: option.split)

lemma children_of:
  assumes "holds_heap R t H"
  shows "\<exists>cs. pattern_children R t k = Ok cs \<and> set cs = {c. \<exists>n. child_at H k n = Some c}"
proof -
  define m where "m = (case H k of Some (DirN m) \<Rightarrow> m | _ \<Rightarrow> [])"
  have ch: "child_at H k n = bt_get m n" for n by (auto simp: m_def child_at_def split: option.split fnode.split)
  have ok: "bt_ok m" using tree_dir_ok [OF holds_heapD(2) [OF assms], of k]
    by (auto simp: m_def dir_ok_def bt_ok_def split: option.split fnode.split)
  have "pattern_children R t k = Ok (map snd m)"
    using holds_children [OF assms, of k] by (auto simp: m_def split: option.split fnode.split)
  moreover have "snd ` set m = {c. \<exists>n. child_at H k n = Some c}"
    unfolding ch bt_get_iff [OF ok] by force
  ultimately show ?thesis by simp
qed

text \<open>The a-nodes reached by paths that match and lie on the line of \<open>s\<close>.\<close>

definition found_on :: "heap \<Rightarrow> pattern \<Rightarrow> akey \<Rightarrow> apath \<Rightarrow> akey set" where
  "found_on H segs k s = {x. \<exists>q. matches segs q \<and> aligned q s \<and> lookup H k q = Some x}"

lemma found_on_Cons:
  "found_on H (g # segs) k s = {x. \<exists>n c. seg_matches g n \<and> (s = [] \<or> hd s = n) \<and> child_at H k n = Some c \<and> x \<in> found_on H segs c (tl s)}"
proof -
  have al: "aligned (n # q) s \<longleftrightarrow> (s = [] \<or> hd s = n) \<and> aligned q (tl s)" for n q by (cases s) auto
  have "found_on H (g # segs) k s = {x. \<exists>n q. seg_matches g n \<and> matches segs q \<and> aligned (n # q) s \<and> lookup H k (n # q) = Some x}"
    unfolding found_on_def matches_Cons by blast
  then show ?thesis unfolding found_on_def al lookup_Cons_iff by blast
qed

lemma pattern_walk_holds:
  assumes "holds_heap R t H"
  shows "\<exists>es. pattern_walk R t segs k s = Ok es \<and> set es = found_on H segs k s"
proof (induction segs arbitrary: k s)
  case Nil
  then show ?case by (auto simp: found_on_def)
next
  case (Cons g segs)
  have down: "\<exists>es. (case child_at H k n of Some child \<Rightarrow> pattern_walk R t segs child s' | None \<Rightarrow> Ok []) = Ok es \<and>
      set es = {x. \<exists>c. child_at H k n = Some c \<and> x \<in> found_on H segs c s'}" for n s'
    using Cons.IH [of "the (child_at H k n)" s'] by (cases "child_at H k n") simp_all
  have one: "found_on H (g # segs) k s = {x. \<exists>c. child_at H k n = Some c \<and> x \<in> found_on H segs c (tl s)}"
    if "\<And>n'. seg_matches g n' \<and> (s = [] \<or> hd s = n') \<longleftrightarrow> n' = n" for n
  proof -
    have "seg_matches g n' \<and> (s = [] \<or> hd s = n') \<and> Q \<longleftrightarrow> n' = n \<and> Q" for n' Q
      by (simp only: conj_assoc [symmetric] that)
    then show ?thesis by (simp add: found_on_Cons)
  qed
  consider (miss) n where "g = Lit n" "s \<noteq> []" "hd s \<noteq> n" | (lit) n where "g = Lit n" "s = [] \<or> hd s = n"
    | (star) "g = Star" "s \<noteq> []" | (all) "g = Star" "s = []" by (cases g) auto
  then show ?case
  proof cases
    case miss
    then show ?thesis by (auto simp: found_on_Cons)
  next
    case lit
    then have "pattern_walk R t (g # segs) k s =
        (case child_at H k n of Some child \<Rightarrow> pattern_walk R t segs child (tl s) | None \<Rightarrow> Ok [])"
      by (auto simp: holds_child [OF assms])
    moreover have "seg_matches g n' \<and> (s = [] \<or> hd s = n') \<longleftrightarrow> n' = n" for n' using lit by auto
    ultimately show ?thesis using down [where n = n and s' = "tl s"] one by simp
  next
    case star
    then have "pattern_walk R t (g # segs) k s =
        (case child_at H k (hd s) of Some child \<Rightarrow> pattern_walk R t segs child (tl s) | None \<Rightarrow> Ok [])"
      by (simp add: holds_child [OF assms])
    moreover have "seg_matches g n' \<and> (s = [] \<or> hd s = n') \<longleftrightarrow> n' = hd s" for n' using star by auto
    ultimately show ?thesis using down [where n = "hd s" and s' = "tl s"] one by simp
  next
    case all
    have "\<forall>c. \<exists>e. pattern_walk R t segs c [] = Ok e \<and> set e = found_on H segs c []" using Cons.IH by blast
    from choice [OF this] obtain es where es: "\<And>c. pattern_walk R t segs c [] = Ok (es c)"
      "\<And>c. set (es c) = found_on H segs c []" by blast
    obtain cs where cs: "pattern_children R t k = Ok cs" "set cs = {c. \<exists>n. child_at H k n = Some c}"
      using children_of [OF assms] by blast
    have "res_map (\<lambda>c. pattern_walk R t segs c []) cs = Ok (map es cs)" by (rule res_map_map) (rule es(1))
    then have "pattern_walk R t (g # segs) k s = Ok (concat (map es cs))" using all cs(1) by simp
    moreover have "set (concat (map es cs)) = found_on H (g # segs) k s"
      using all by (auto simp: found_on_Cons es(2) cs(2))
    ultimately show ?thesis by blast
  qed
qed

section \<open>The rows of an index\<close>

fun doc_scalar :: "chrono \<Rightarrow> found option \<Rightarrow> vpath \<Rightarrow> scalar" where
  "doc_scalar C (Some (Document b)) p =
     (case blob_decode C b of
        Ok v \<Rightarrow> (case subtree v p of Some (Leaf s) \<Rightarrow> s | _ \<Rightarrow> Null)
      | _ \<Rightarrow> Null)"
| "doc_scalar C _ p = Null"

text \<open>Every file is a well-formed document.\<close>

definition docs_ok :: "chrono \<Rightarrow> file_system \<Rightarrow> bool" where
  "docs_ok C F \<longleftrightarrow> (\<forall>p b. F p = Some (Document b) \<longrightarrow> (\<exists>v. b = blob_encode v \<and> value_ok C v \<and> blob_fits v))"

lemma node_column_stored:
  assumes "value_ok C v" "blob_fits v"
  shows "andThen (node_navigate (blob_encode v) (word_of_nat (head 5 v)) p) (\<lambda>node.
      case node of None \<Rightarrow> Ok Null
      | Some off \<Rightarrow> andThen (node_kind_of (blob_encode v) off) (\<lambda>kind.
          if kind = KLeaf then node_scalar C (blob_encode v) off else Ok Null))
    = Ok (case subtree v p of Some (Leaf s) \<Rightarrow> s | _ \<Rightarrow> Null)"
proof -
  note st = stored_encode [OF assms(2)]
  have nav: "node_navigate (blob_encode v) (word_of_nat (head 5 v)) p
      = Ok (map_option (\<lambda>(k, c). word_of_nat (head k c)) (slot 5 v p))"
    and ok: "\<And>k c. slot 5 v p = Some (k, c) \<Longrightarrow> stored (blob_encode v) k c \<and> value_ok C c"
    using node_navigate_stored [OF st assms(1)] by auto
  show ?thesis
  proof (cases "slot 5 v p")
    case None
    then show ?thesis using nav slot_subtree [of 5 v p] by simp
  next
    case (Some kc)
    obtain k c where kc: "kc = (k, c)" by (cases kc)
    have stc: "stored (blob_encode v) k c" and okc: "value_ok C c" using ok Some kc by auto
    show ?thesis
    proof (cases c)
      case (Leaf s)
      then show ?thesis
        using node_scalar_stored [of "blob_encode v" k s C] stc okc stored_off [OF stc] stored_tag [OF stc] nav Some kc slot_subtree [of 5 v p, symmetric]
        by (auto simp: node_kind_of_def node_scalar_def rest_from_def)
    qed (use nav Some kc slot_subtree [of 5 v p, symmetric] stored_tag [OF stc] stored_off [OF stc] in
        \<open>simp_all add: node_kind_of_def del: head.simps\<close>)
  qed
qed

lemma column_scalar_holds:
  assumes "holds_heap R t H" "\<And>b. H k = Some (FileN b) \<Longrightarrow> \<exists>v. b = blob_encode v \<and> value_ok C v \<and> blob_fits v"
  shows "column_scalar C R t k p = Ok (doc_scalar C (map_option shown (H k)) p)"
proof (cases "H k")
  case None
  then show ?thesis by (simp add: column_scalar_def read_entry_def holds_heapD(3) [OF assms(1)])
next
  case (Some x)
  show ?thesis
  proof (cases x)
    case (DirN m)
    then show ?thesis using Some by (simp add: column_scalar_def read_entry_def holds_heapD(3) [OF assms(1)])
  next
    case (FileN b)
    then obtain v where v: "b = blob_encode v" "value_ok C v" "blob_fits v" using assms(2) Some by auto
    then show ?thesis
      using Some FileN node_column_stored [OF v(2,3), of p] blob_decode_encode [OF v(2,3)]
      by (simp add: column_scalar_def read_entry_def holds_heapD(3) [OF assms(1)] archived_new_encode [OF v(3)])
  qed
qed

definition index_row :: "chrono \<Rightarrow> index_entry \<Rightarrow> found option \<Rightarrow> akey \<Rightarrow> bytes \<times> bytes" where
  "index_row C e f k =
     (let d = ent_def e; cols = encode_columns d (map (\<lambda>c. doc_scalar C f (col_path c)) (idx_columns d))
      in if idx_unique d then (entry_key (ent_id e) cols None, akey_into_bytes k)
         else (entry_key (ent_id e) cols (Some k), []))"

text \<open>The rows of the a-nodes on the paths that satisfy \<open>P\<close>; all rows for \<open>\<lambda>_. True\<close>.\<close>

definition entry_segs :: "index_entry \<Rightarrow> pattern" where
  "entry_segs e = (case pattern_parse (idx_pattern (ent_def e)) of Ok segs \<Rightarrow> segs | _ \<Rightarrow> [])"

definition pattern_ok :: "index_entry \<Rightarrow> bool" where
  "pattern_ok e \<longleftrightarrow> pattern_parse (idx_pattern (ent_def e)) = Ok (entry_segs e)"

definition rows :: "chrono \<Rightarrow> heap \<Rightarrow> (apath \<Rightarrow> bool) \<Rightarrow> index_entry \<Rightarrow> (bytes \<times> bytes) set" where
  "rows C H P e = {index_row C e (files_at H q) k | q k. matches (entry_segs e) q \<and> P q \<and> lookup H akey_ROOT q = Some k}"

abbreviation all_rows :: "chrono \<Rightarrow> heap \<Rightarrow> index_entry \<Rightarrow> (bytes \<times> bytes) set" where
  "all_rows C H e \<equiv> rows C H (\<lambda>_. True) e"

text \<open>The entries of one index in the shared index table.\<close>

definition block :: "('i, bytes, bytes) redb \<Rightarrow> 'i \<Rightarrow> u32 \<Rightarrow> (bytes \<times> bytes) set" where
  "block I ix n = {(k, v). starts_with k (id_prefix n) \<and> contents I ix k = Some v}"

definition synced :: "chrono \<Rightarrow> ('i, bytes, bytes) redb \<Rightarrow> 'i \<Rightarrow> heap \<Rightarrow> index_entry \<Rightarrow> bool" where
  "synced C I ix H e \<longleftrightarrow> block I ix (ent_id e) = all_rows C H e"

lemma index_row_prefix: "starts_with (fst (index_row C e f k)) (id_prefix (ent_id e))"
  by (auto simp: index_row_def entry_key_def starts_with_iff Let_def split: if_split)

lemma starts_with_id: "starts_with b (id_prefix n) \<Longrightarrow> starts_with b (id_prefix m) \<Longrightarrow> n = m"
proof -
  have "be_bytes n @ t = be_bytes m @ u \<Longrightarrow> n = m" for t u
    using append_eq_append_conv [of "be_bytes n" "be_bytes m" t u] by simp
  then show "starts_with b (id_prefix n) \<Longrightarrow> starts_with b (id_prefix m) \<Longrightarrow> n = m"
    by (auto simp: starts_with_iff id_prefix_def)
qed

text \<open>A row determines its a-node.\<close>

lemma index_row_inj: "index_row C e f k = index_row C e g l \<Longrightarrow> k = l"
  by (auto simp: index_row_def entry_key_def Let_def append_eq_append_conv split: if_splits)

lemma rows_single_valued: "\<not> idx_unique (ent_def e) \<Longrightarrow> (k, v) \<in> rows C H P e \<Longrightarrow> v = []"
  by (auto simp: rows_def index_row_def Let_def)

lemma rows_mono: "(\<And>q. P q \<Longrightarrow> Q q) \<Longrightarrow> rows C H P e \<subseteq> rows C H Q e"
  unfolding rows_def by blast

lemma rows_Un: "rows C H P e \<union> rows C H Q e = rows C H (\<lambda>q. P q \<or> Q q) e"
  unfolding rows_def by blast

lemma rows_prefix: "(k, v) \<in> rows C H P e \<Longrightarrow> starts_with k (id_prefix (ent_id e))"
  unfolding rows_def using index_row_prefix [of C e] by (auto simp: prod_eq_iff)

lemma files_at_lookup_eq: "lookup H akey_ROOT q = Some k \<Longrightarrow> files_at H q = map_option shown (H k)"
  by (simp add: files_at_def)

lemma index_key_holds:
  assumes "holds_heap R t H" "docs_ok C (files_at H)" "lookup H akey_ROOT q = Some k"
  shows "index_key C R t (ent_id e) (ent_def e) k = Ok (index_row C e (map_option shown (H k)) k)"
proof -
  have "\<exists>v. b = blob_encode v \<and> value_ok C v \<and> blob_fits v" if "H k = Some (FileN b)" for b
    using assms(2) that files_at_lookup_eq [OF assms(3)] by (auto simp: docs_ok_def)
  then have "column_scalar C R t k p = Ok (doc_scalar C (map_option shown (H k)) p)" for p
    using column_scalar_holds [OF assms(1)] by simp
  then show ?thesis
    by (simp add: index_key_def index_row_def Let_def res_map_map [where g = "\<lambda>c. doc_scalar C (map_option shown (H k)) (col_path c)"])
qed

lemma rows_image:
  "rows C H (\<lambda>q. aligned q s) e = (\<lambda>k. index_row C e (map_option shown (H k)) k) ` found_on H (entry_segs e) akey_ROOT s"
proof -
  have "x = index_row C e (files_at H q) k \<longleftrightarrow> x = index_row C e (map_option shown (H k)) k"
    if "lookup H akey_ROOT q = Some k" for x q k using files_at_lookup_eq [OF that] by simp
  then show ?thesis unfolding rows_def found_on_def image_def by blast
qed

text \<open>What maintenance computes for a scope are the rows on its line.\<close>

lemma entries_for_holds:
  assumes "holds_heap R t H" "docs_ok C (files_at H)" "pattern_ok e"
  shows "\<exists>kvs. entries_for C R t e s = Ok kvs \<and> set kvs = rows C H (\<lambda>q. aligned q s) e"
proof -
  obtain es where es: "pattern_walk R t (entry_segs e) akey_ROOT s = Ok es" "set es = found_on H (entry_segs e) akey_ROOT s"
    using pattern_walk_holds [OF assms(1)] by blast
  have "res_map (index_key C R t (ent_id e) (ent_def e)) es = Ok (map (\<lambda>k. index_row C e (map_option shown (H k)) k) es)"
    by (rule res_map_map) (use index_key_holds [OF assms(1,2)] es(2) in \<open>auto simp: found_on_def\<close>)
  then show ?thesis
    using assms(3) es by (simp add: entries_for_def pattern_ok_def affected_entities_def rows_image)
qed

section \<open>Deleting and inserting rows\<close>

lemma set_index_ok [simp]: "set_index (Ok i) ix = (Ok (), i)"
  by (simp add: set_index_def)

lemma remove_all:
  assumes "redb_ok I"
  shows "\<exists>ix'. forOp ks (\<lambda>k index. set_index (table_remove I index k) index) ix = (Ok (), ix') \<and>
    contents I ix' = (\<lambda>k. if k \<in> set ks then None else contents I ix k)"
proof (induction ks arbitrary: ix)
  case (Cons k ks)
  obtain i where i: "table_remove I ix k = Ok i" "contents I i = (contents I ix)(k := None)"
    using redb_remove [OF assms, where t = ix and k = k] by blast
  then show ?case using Cons.IH [of i] by (auto simp: seqOp_def bindOp_def fun_eq_iff)
qed simp

lemma forOp_map: "forOp (map f xs) g = forOp xs (\<lambda>x. g (f x))"
  by (induction xs) simp_all

lemma maintenance_delete_holds:
  assumes "redb_ok I" "holds_heap R t H" "docs_ok C (files_at H)" "\<And>e. e \<in> set es \<Longrightarrow> pattern_ok e"
  shows "\<exists>ix'. maintenance_delete C R I t es s ix = (Ok (), ix') \<and>
    contents I ix' = (\<lambda>k. if \<exists>e \<in> set es. k \<in> fst ` rows C H (\<lambda>q. aligned q s) e then None else contents I ix k)"
  using assms(4)
proof (induction es arbitrary: ix)
  case Nil
  then show ?case by (simp add: maintenance_delete_def)
next
  case (Cons e es)
  obtain kvs where kvs: "entries_for C R t e s = Ok kvs" "set kvs = rows C H (\<lambda>q. aligned q s) e"
    using entries_for_holds [OF assms(2,3)] Cons.prems by force
  obtain i where i: "forOp (map fst kvs) (\<lambda>k index. set_index (table_remove I index k) index) ix = (Ok (), i)"
    "contents I i = (\<lambda>k. if k \<in> fst ` set kvs then None else contents I ix k)"
    using remove_all [OF assms(1), of "map fst kvs" ix] by auto
  obtain ix' where "maintenance_delete C R I t es s i = (Ok (), ix')"
    "contents I ix' = (\<lambda>k. if \<exists>e \<in> set es. k \<in> fst ` rows C H (\<lambda>q. aligned q s) e then None else contents I i k)"
    using Cons.IH [of i] Cons.prems by auto
  moreover have "forOp kvs (\<lambda>(k, _) index. set_index (table_remove I index k) index) ix = (Ok (), i)"
    using i(1) by (simp add: forOp_map case_prod_beta')
  ultimately show ?case
    using i(2) kvs by (auto simp: maintenance_delete_def seqOp_def fun_eq_iff)
qed

text \<open>Inserting rows that belong to the target set \<open>W\<close> of an index. Either all go in, or two rows of \<open>W\<close>
  collide in a unique index.\<close>

definition collides :: "(bytes \<times> bytes) set \<Rightarrow> bool" where
  "collides W \<longleftrightarrow> (\<exists>k v v'. (k, v) \<in> W \<and> (k, v') \<in> W \<and> v \<noteq> v')"

abbreviation insert_row :: "('i, bytes, bytes) redb \<Rightarrow> bool \<Rightarrow> string \<Rightarrow> bytes \<times> bytes \<Rightarrow> ('i, unit) op" where
  "insert_row I unique name kv \<equiv> (case kv of (k, v) \<Rightarrow>
     seqOp (if unique then readOp (\<lambda>index. guard_unique I index k v name) else retOp ())
       (\<lambda>index. set_index (table_insert I index k v) index))"

lemma insert_row_holds:
  assumes "redb_ok I" "block I ix n \<subseteq> W" "(k, v) \<in> W" "starts_with k (id_prefix n)" "unique \<or> \<not> collides W"
  shows "(\<exists>ix'. insert_row I unique name (k, v) ix = (Ok (), ix') \<and> contents I ix' = (contents I ix)(k \<mapsto> v) \<and>
      block I ix' n = insert (k, v) (block I ix n)) \<or>
    (insert_row I unique name (k, v) ix = (Err (UniqueViolation name), ix) \<and> unique \<and> collides W)"
proof -
  obtain i where i: "table_insert I ix k v = Ok i" "contents I i = (contents I ix)(k \<mapsto> v)"
    using redb_insert [OF assms(1), where t = ix and k = k and v = v] by blast
  have old: "(k, v') \<in> W" if "contents I ix k = Some v'" for v'
    using that assms(2,4) by (auto simp: block_def)
  show ?thesis
  proof (cases "\<exists>v'. contents I ix k = Some v' \<and> v' \<noteq> v")
    case True
    then obtain v' where v': "contents I ix k = Some v'" "v' \<noteq> v" by blast
    then have col: "collides W" using old assms(3) by (auto simp: collides_def)
    then show ?thesis
      using assms(5) v' by (simp add: guard_unique_def redb_get [OF assms(1)] seqOp_def bindOp_def)
  next
    case False
    then have "guard_unique I ix k v name = Ok ()"
      by (auto simp: guard_unique_def redb_get [OF assms(1)] split: option.split)
    moreover have "block I i n = insert (k, v) (block I ix n)"
      using False assms(4) by (auto simp: block_def i(2) split: if_splits)
    ultimately show ?thesis using i by (auto simp: seqOp_def bindOp_def)
  qed
qed

lemma insert_rows_holds:
  assumes "redb_ok I" "block I ix n \<subseteq> W" "set kvs \<subseteq> W" "\<And>x. x \<in> W \<Longrightarrow> starts_with (fst x) (id_prefix n)" "unique \<or> \<not> collides W"
  shows "(\<exists>ix'. forOp kvs (insert_row I unique name) ix = (Ok (), ix') \<and> block I ix' n = block I ix n \<union> set kvs \<and>
      (\<forall>k. \<not> starts_with k (id_prefix n) \<longrightarrow> contents I ix' k = contents I ix k)) \<or>
    (\<exists>ix'. forOp kvs (insert_row I unique name) ix = (Err (UniqueViolation name), ix') \<and> unique \<and> collides W)"
  using assms(2,3)
proof (induction kvs arbitrary: ix)
  case (Cons kv kvs)
  obtain k v where kv: "kv = (k, v)" by force
  have W: "(k, v) \<in> W" "starts_with k (id_prefix n)" using Cons.prems(2) kv assms(4) [of "(k, v)"] by auto
  show ?case
    using insert_row_holds [OF assms(1) Cons.prems(1) W assms(5), of name]
  proof
    assume "\<exists>ix'. insert_row I unique name (k, v) ix = (Ok (), ix') \<and> contents I ix' = (contents I ix)(k \<mapsto> v) \<and>
      block I ix' n = insert (k, v) (block I ix n)"
    then obtain i where i: "insert_row I unique name (k, v) ix = (Ok (), i)" "contents I i = (contents I ix)(k \<mapsto> v)"
      "block I i n = insert (k, v) (block I ix n)" by blast
    have step: "forOp (kv # kvs) (insert_row I unique name) ix = forOp kvs (insert_row I unique name) i"
      unfolding kv forOp.simps(2) using i(1) by (rule seqOp_Ok)
    have "contents I i j = contents I ix j" if "\<not> starts_with j (id_prefix n)" for j using i(2) W(2) that by auto
    moreover have "block I i n \<subseteq> W" "set kvs \<subseteq> W" using i(3) W(1) Cons.prems by auto
    ultimately show ?thesis unfolding step using Cons.IH [of i] i(3) kv by auto
  next
    assume "insert_row I unique name (k, v) ix = (Err (UniqueViolation name), ix) \<and> unique \<and> collides W"
    then show ?thesis unfolding kv forOp.simps(2) seqOp_def by (auto simp: bindOp_def simp del: split_paired_Ex)
  qed
qed simp

lemma maintenance_insert_Cons:
  "maintenance_insert C R I t (e # es) s ix =
     seqOp (bindOp (liftOp (entries_for C R t e s)) (\<lambda>kvs.
       forOp kvs (insert_row I (idx_unique (ent_def e)) (idx_name (ent_def e)))))
     (maintenance_insert C R I t es s) ix"
  by (simp add: maintenance_insert_def)

definition outside :: "index_entry list \<Rightarrow> bytes \<Rightarrow> bool" where
  "outside es k \<longleftrightarrow> (\<forall>e \<in> set es. \<not> starts_with k (id_prefix (ent_id e)))"

lemma block_cong: "(\<And>k. starts_with k (id_prefix n) \<Longrightarrow> contents I ix' k = contents I ix k) \<Longrightarrow> block I ix' n = block I ix n"
  by (auto simp: block_def)

lemma unique_or_single: "idx_unique (ent_def e) \<or> \<not> collides (rows C H P e)"
  using rows_single_valued [of e _ _ C H P] unfolding collides_def by blast

lemma maintenance_insert_holds:
  assumes "redb_ok I" "holds_heap R t H" "docs_ok C (files_at H)" "\<And>e. e \<in> set es \<Longrightarrow> pattern_ok e" "distinct (map ent_id es)"
    and "\<And>e. e \<in> set es \<Longrightarrow> block I ix (ent_id e) \<subseteq> all_rows C H e"
  shows "(\<exists>ix'. maintenance_insert C R I t es s ix = (Ok (), ix') \<and>
      (\<forall>e \<in> set es. block I ix' (ent_id e) = block I ix (ent_id e) \<union> rows C H (\<lambda>q. aligned q s) e) \<and>
      (\<forall>k. outside es k \<longrightarrow> contents I ix' k = contents I ix k)) \<or>
    (\<exists>ix' e. maintenance_insert C R I t es s ix = (Err (UniqueViolation (idx_name (ent_def e))), ix') \<and>
      e \<in> set es \<and> idx_unique (ent_def e) \<and> collides (all_rows C H e))"
  using assms(4-6)
proof (induction es arbitrary: ix)
  case Nil
  then show ?case by (simp add: maintenance_insert_def)
next
  case (Cons e es)
  let ?u = "idx_unique (ent_def e)" and ?n = "idx_name (ent_def e)"
  obtain kvs where kvs: "entries_for C R t e s = Ok kvs" "set kvs = rows C H (\<lambda>q. aligned q s) e"
    using entries_for_holds [OF assms(2,3)] Cons.prems by force
  have sub: "set kvs \<subseteq> all_rows C H e" unfolding kvs(2) by (rule rows_mono) simp
  have first: "maintenance_insert C R I t (e # es) s ix = (case forOp kvs (insert_row I ?u ?n) ix of
      (Ok _, i) \<Rightarrow> maintenance_insert C R I t es s i
    | (Err x, i) \<Rightarrow> (Err x, i) | (Panic x, i) \<Rightarrow> (Panic x, i) | (Diverge, i) \<Rightarrow> (Diverge, i))"
    using kvs(1) by (simp add: maintenance_insert_Cons seqOp_def bindOp_def)
  have pre: "\<And>x. x \<in> all_rows C H e \<Longrightarrow> starts_with (fst x) (id_prefix (ent_id e))" using rows_prefix by fastforce
  have blk: "block I ix (ent_id e) \<subseteq> all_rows C H e" using Cons.prems(3) by simp
  consider (ok) i where "forOp kvs (insert_row I ?u ?n) ix = (Ok (), i)" "block I i (ent_id e) = block I ix (ent_id e) \<union> set kvs"
      "\<forall>k. \<not> starts_with k (id_prefix (ent_id e)) \<longrightarrow> contents I i k = contents I ix k"
    | (bad) i where "forOp kvs (insert_row I ?u ?n) ix = (Err (UniqueViolation ?n), i)" ?u "collides (all_rows C H e)"
    using insert_rows_holds [OF assms(1) blk sub pre unique_or_single, where name = ?n] by blast
  then show ?case
  proof cases
    case ok
    have ne: "ent_id e' \<noteq> ent_id e" if "e' \<in> set es" for e'
      using Cons.prems(2) that by (metis distinct.simps(2) imageI list.simps(9) list.set_map)
    have same: "block I i (ent_id e') = block I ix (ent_id e')" if "e' \<in> set es" for e'
      by (rule block_cong) (use ok(3) starts_with_id ne [OF that] in blast)
    have "\<And>e. e \<in> set es \<Longrightarrow> pattern_ok e" "distinct (map ent_id es)" "\<And>e. e \<in> set es \<Longrightarrow> block I i (ent_id e) \<subseteq> all_rows C H e"
      using Cons.prems same by simp_all
    then consider (fin) ix' where "maintenance_insert C R I t es s i = (Ok (), ix')"
        "\<forall>e \<in> set es. block I ix' (ent_id e) = block I i (ent_id e) \<union> rows C H (\<lambda>q. aligned q s) e"
        "\<forall>k. outside es k \<longrightarrow> contents I ix' k = contents I i k"
      | (stop) ix' e' where "maintenance_insert C R I t es s i = (Err (UniqueViolation (idx_name (ent_def e'))), ix')"
        "e' \<in> set es" "idx_unique (ent_def e')" "collides (all_rows C H e')"
      using Cons.IH [of i] by blast
    then show ?thesis
    proof cases
      case fin
      have "outside es k" if "starts_with k (id_prefix (ent_id e))" for k
        unfolding outside_def using starts_with_id [OF that] ne by metis
      then have "block I ix' (ent_id e) = block I i (ent_id e)" by (intro block_cong) (use fin(3) in blast)
      moreover have "contents I ix' k = contents I ix k" if "outside (e # es) k" for k
        using that fin(3) ok(3) by (auto simp: outside_def)
      ultimately show ?thesis using first ok fin(1,2) same kvs(2) by auto
    qed (use first ok in auto)
  qed (use first in auto)
qed

section \<open>The bracket around a change\<close>

text \<open>A path away from all the scopes of a change.\<close>

definition off :: "apath list \<Rightarrow> apath \<Rightarrow> bool" where
  "off S q \<longleftrightarrow> (\<forall>s \<in> set S. \<not> aligned q s)"

lemma rows_minus:
  assumes "tree H" "\<not> collides (all_rows C H e)"
  shows "{(k, v). (k, v) \<in> rows C H P e \<and> k \<notin> fst ` rows C H Q e} = rows C H (\<lambda>q. P q \<and> \<not> Q q) e"
proof -
  have no: "\<not> Q q" if "lookup H akey_ROOT q = Some x" "(k, v) = index_row C e (files_at H q) x" "matches (entry_segs e) q"
    "k \<notin> fst ` rows C H Q e" for k v q x
    using that unfolding rows_def by (force simp: image_iff prod_eq_iff)
  have yes: "k \<notin> fst ` rows C H Q e" if q: "lookup H akey_ROOT q = Some x" "(k, v) = index_row C e (files_at H q) x"
    "matches (entry_segs e) q" "\<not> Q q" for k v q x
  proof
    assume "k \<in> fst ` rows C H Q e"
    then obtain v' where "(k, v') \<in> rows C H Q e" by force
    then obtain q' x' where q': "(k, v') = index_row C e (files_at H q') x'" "Q q'" "matches (entry_segs e) q'"
      "lookup H akey_ROOT q' = Some x'" unfolding rows_def by blast
    have "(k, v) \<in> all_rows C H e" "(k, v') \<in> all_rows C H e" unfolding rows_def using q q' by blast+
    then have "v = v'" using assms(2) by (auto simp: collides_def)
    then have "x = x'" using q(2) q'(1) index_row_inj [of C e "files_at H q" x "files_at H q'" x'] by simp
    then show False using lookup_inj [OF assms(1) q(1)] q'(2,4) q(4) by simp
  qed
  have "(k, v) \<in> rows C H P e \<and> k \<notin> fst ` rows C H Q e \<longleftrightarrow> (k, v) \<in> rows C H (\<lambda>q. P q \<and> \<not> Q q) e" for k v
    using no yes unfolding rows_def [of C H P] rows_def [of C H "\<lambda>q. P q \<and> \<not> Q q"] mem_Collect_eq by blast
  then show ?thesis by auto
qed

lemma delete_scopes_holds:
  assumes "redb_ok I" "holds_heap R t H" "docs_ok C (files_at H)" "\<And>e. e \<in> set es \<Longrightarrow> pattern_ok e" "distinct (map ent_id es)"
    and "\<And>e. e \<in> set es \<Longrightarrow> \<not> collides (all_rows C H e)"
    and "\<And>e. e \<in> set es \<Longrightarrow> block I ix (ent_id e) = rows C H P e"
  shows "\<exists>ix'. forOp S (maintenance_delete C R I t es) ix = (Ok (), ix') \<and>
    (\<forall>e \<in> set es. block I ix' (ent_id e) = rows C H (\<lambda>q. P q \<and> off S q) e) \<and>
    (\<forall>k. outside es k \<longrightarrow> contents I ix' k = contents I ix k)"
  using assms(7)
proof (induction S arbitrary: ix P)
  case Nil
  then show ?case by (simp add: off_def)
next
  case (Cons s S)
  obtain i where i: "maintenance_delete C R I t es s ix = (Ok (), i)"
    "contents I i = (\<lambda>k. if \<exists>e \<in> set es. k \<in> fst ` rows C H (\<lambda>q. aligned q s) e then None else contents I ix k)"
    using maintenance_delete_holds [OF assms(1-4)] by blast
  have own: "(\<exists>e' \<in> set es. k \<in> fst ` rows C H (\<lambda>q. aligned q s) e') \<longleftrightarrow> k \<in> fst ` rows C H (\<lambda>q. aligned q s) e"
    if "e \<in> set es" "starts_with k (id_prefix (ent_id e))" for e k
  proof
    assume "\<exists>e' \<in> set es. k \<in> fst ` rows C H (\<lambda>q. aligned q s) e'"
    then obtain e' where e': "e' \<in> set es" "k \<in> fst ` rows C H (\<lambda>q. aligned q s) e'" by blast
    then have "starts_with k (id_prefix (ent_id e'))" by (auto dest: rows_prefix)
    then have "ent_id e' = ent_id e" using starts_with_id that(2) by blast
    then have "e' = e" using e'(1) that(1) assms(5) by (auto simp: distinct_map inj_on_def)
    then show "k \<in> fst ` rows C H (\<lambda>q. aligned q s) e" using e'(2) by simp
  qed (use that(1) in blast)
  have "block I i (ent_id e) = rows C H (\<lambda>q. P q \<and> \<not> aligned q s) e" if e: "e \<in> set es" for e
  proof -
    have "(k, v) \<in> block I i (ent_id e) \<longleftrightarrow> (k, v) \<in> block I ix (ent_id e) \<and> k \<notin> fst ` rows C H (\<lambda>q. aligned q s) e" for k v
      by (cases "starts_with k (id_prefix (ent_id e))") (simp_all add: block_def i(2) own [OF e])
    then have "block I i (ent_id e) = {(k, v). (k, v) \<in> block I ix (ent_id e) \<and> k \<notin> fst ` rows C H (\<lambda>q. aligned q s) e}"
      by auto
    then show ?thesis
      unfolding Cons.prems [OF e] using rows_minus [OF holds_heapD(2) [OF assms(2)] assms(6) [OF e]] by simp
  qed
  from Cons.IH [OF this] obtain ix' where ix': "forOp S (maintenance_delete C R I t es) i = (Ok (), ix')"
    "\<forall>e \<in> set es. block I ix' (ent_id e) = rows C H (\<lambda>q. (P q \<and> \<not> aligned q s) \<and> off S q) e"
    "\<forall>k. outside es k \<longrightarrow> contents I ix' k = contents I i k" by blast
  have "(\<lambda>q. (P q \<and> \<not> aligned q s) \<and> off S q) = (\<lambda>q. P q \<and> off (s # S) q)" by (auto simp: off_def fun_eq_iff)
  moreover have "contents I i k = contents I ix k" if "outside es k" for k
    using that rows_prefix unfolding i(2) outside_def by fastforce
  ultimately show ?case using i(1) ix' by (auto simp: seqOp_def bindOp_def)
qed

lemma insert_scopes_holds:
  assumes "redb_ok I" "holds_heap R t H" "docs_ok C (files_at H)" "\<And>e. e \<in> set es \<Longrightarrow> pattern_ok e" "distinct (map ent_id es)"
    and "\<And>e. e \<in> set es \<Longrightarrow> block I ix (ent_id e) \<subseteq> all_rows C H e"
  shows "(\<exists>ix'. forOp S (maintenance_insert C R I t es) ix = (Ok (), ix') \<and>
      (\<forall>e \<in> set es. block I ix' (ent_id e) = block I ix (ent_id e) \<union> rows C H (\<lambda>q. \<not> off S q) e) \<and>
      (\<forall>k. outside es k \<longrightarrow> contents I ix' k = contents I ix k)) \<or>
    (\<exists>ix' e. forOp S (maintenance_insert C R I t es) ix = (Err (UniqueViolation (idx_name (ent_def e))), ix') \<and>
      e \<in> set es \<and> idx_unique (ent_def e) \<and> collides (all_rows C H e))"
  using assms(6)
proof (induction S arbitrary: ix)
  case Nil
  then show ?case by (simp add: off_def rows_def)
next
  case (Cons s S)
  consider (ok) i where "maintenance_insert C R I t es s ix = (Ok (), i)"
      "\<forall>e \<in> set es. block I i (ent_id e) = block I ix (ent_id e) \<union> rows C H (\<lambda>q. aligned q s) e"
      "\<forall>k. outside es k \<longrightarrow> contents I i k = contents I ix k"
    | (bad) i e where "maintenance_insert C R I t es s ix = (Err (UniqueViolation (idx_name (ent_def e))), i)"
      "e \<in> set es" "idx_unique (ent_def e)" "collides (all_rows C H e)"
    using maintenance_insert_holds [OF assms(1-5) Cons.prems] by blast
  then show ?case
  proof cases
    case ok
    have "rows C H (\<lambda>q. aligned q s) e \<subseteq> all_rows C H e" for e by (rule rows_mono) simp
    then have "block I i (ent_id e) \<subseteq> all_rows C H e" if "e \<in> set es" for e using ok(2) Cons.prems that by auto
    moreover have "rows C H (\<lambda>q. aligned q s) e \<union> rows C H (\<lambda>q. \<not> off S q) e = rows C H (\<lambda>q. \<not> off (s # S) q) e" for e
    proof -
      have "(\<lambda>q. \<not> off (s # S) q) = (\<lambda>q. aligned q s \<or> \<not> off S q)" by (auto simp: off_def fun_eq_iff)
      then show ?thesis unfolding rows_Un by simp
    qed
    ultimately show ?thesis
      using Cons.IH [of i] ok by (fastforce simp: seqOp_def bindOp_def)
  qed (auto simp: seqOp_def bindOp_def)
qed

section \<open>The sample index\<close>

lemma sample_segs: "pattern_parse (idx_pattern (ent_def sample_entry)) = Ok [Lit ''users'', Star]"
  by (simp add: sample_entry_def sample_def_def) code_simp

lemma sample_entry_segs: "entry_segs sample_entry = [Lit ''users'', Star]"
  using sample_segs by (simp add: entry_segs_def)

end
