(* ===== verification/Scalar_Patch.thy ===== *)
theory Scalar_Patch
  imports Store_Laws
begin

text \<open>
  Setting one scalar of a stored document (\<open>put_scalar_into\<close>). The fast path overwrites the scalar's
  bytes inside the entry when the new encoding has the length of the old one; otherwise the document
  is decoded, changed and encoded again. Both give the entry of the changed document, so which one
  runs cannot be observed.
\<close>

lemma overwrite_file_entry: "overwrite (file_entry b) (Suc n) e = file_entry (overwrite b n e)"
  by (simp add: overwrite_def file_entry_def)

lemma length_file_entry [simp]: "length (file_entry b) = Suc (length b)"
  by (simp add: file_entry_def)

text \<open>What the attempt to patch does with the entry of a document.\<close>

lemma patch_scalar_encode:
  assumes "value_ok C v" "blob_fits v"
  shows "patch_scalar C (file_entry (blob_encode v)) at s =
      Ok (True, file_entry (blob_encode (snd (set_in v at (Leaf s))))) \<or>
    patch_scalar C (file_entry (blob_encode v)) at s = Ok (False, file_entry (blob_encode v))"
proof (cases "\<exists>k s0. slot 5 v at = Some (k, Leaf s0) \<and> length (scalar_encode [] s) = length (scalar_encode [] s0)")
  case True
  then obtain k s0 where k: "slot 5 v at = Some (k, Leaf s0)" "length (scalar_encode [] s) = length (scalar_encode [] s0)"
    by blast
  note p = blob_patch_encode [OF value_ok_sorted [OF assms(1)] k]
  show ?thesis
    using p(1,3) leaf_scalar_span_encode [OF assms, of at] k
    by (simp add: patch_scalar_def archived_new_encode [OF assms(2)] overwrite_file_entry)
next
  case False
  then show ?thesis
    using leaf_scalar_span_encode [OF assms, of at]
    by (auto simp: patch_scalar_def archived_new_encode [OF assms(2)] split: option.splits vnode.splits)
qed

lemma read_verified_file: "sees R c H \<Longrightarrow> H k = Some (FileN b) \<Longrightarrow> read_verified R c k = Ok (Some (file_entry b))"
  using not_buffered_dir [of R c H k] by (simp add: read_verified_view sees_ok sees_view)

text \<open>A hint is usable when the structure changed since it was taken, or it names the right a-node.\<close>

definition hint_ok :: "'t ctx \<Rightarrow> akey \<Rightarrow> (akey \<times> u64) option \<Rightarrow> bool" where
  "hint_ok c k hint \<longleftrightarrow> (case hint of None \<Rightarrow> True | Some (k', epoch) \<Rightarrow> epoch = ctx_structure_epoch c \<longrightarrow> k' = k)"

lemma resolve_target_file:
  assumes "sees R c H" "lookup H akey_ROOT path = Some k" "H k = Some (FileN b)" "hint_ok c k hint"
  shows "resolve_target R c path hint = Ok (Some k, Some (file_entry b))"
proof -
  have "resolve_and_read R c path = Ok (Some k, Some (file_entry b))"
    using sees_resolve [OF assms(1)] assms(2) read_verified_file [OF assms(1,3)] by (simp add: resolve_and_read_def)
  then show ?thesis
    using assms(4) read_verified_file [OF assms(1,3)]
    by (auto simp: resolve_target_def hint_ok_def split: option.split)
qed

lemma put_scalar_makes:
  assumes "sees R c H" "lookup H akey_ROOT path = Some k" "H k = Some (FileN (blob_encode v))"
    and "value_ok C v" "blob_fits v" "hint_ok c k hint"
  shows "\<exists>c'. makes R c (put_scalar_into fuel C R path hint at s) ()
    (H(k \<mapsto> FileN (blob_encode (snd (set_in v at (Leaf s)))))) c'"
proof -
  let ?w = "snd (set_in v at (Leaf s))"
  obtain c' where c': "makes R c (put_file_edit R k (file_entry (blob_encode ?w))) () (H(k \<mapsto> FileN (blob_encode ?w))) c'"
    using put_file_edit_makes [OF assms(1,3)] by blast
  from patch_scalar_encode [OF assms(4,5), of at s]
  have "put_scalar_into fuel C R path hint at s c = put_file_edit R k (file_entry (blob_encode ?w)) c"
    using resolve_target_file [OF assms(1-3,6)] blob_decode_encode [OF assms(4,5)]
    by (auto simp: put_scalar_into_def bindOp_def)
  then show ?thesis using c' by (auto simp: makes_def)
qed

end
