(* ===== verification/Txn_Laws.thy ===== *)
theory Txn_Laws
  imports Write_Txn Index_Sync Scalar_Patch
begin

text \<open>
  What the operations of a write transaction do: none of them turns buffering back on, so once
  the reindexing bracket has flushed the buffer, the engine's table is the state the transaction sees;
  hence the bracket keeps every index of the table synced, and the writer's own reads return what
  it wrote.
\<close>

section \<open>Operations that leave the buffering mode\<close>

definition leaves :: "(write_buffer \<Rightarrow> 'b) \<Rightarrow> ('t ctx, 'a) op \<Rightarrow> bool" where
  "leaves g f \<longleftrightarrow> (\<forall>c. g (ctx_buf (snd (f c))) = g (ctx_buf c))"

abbreviation steady :: "('t ctx, 'a) op \<Rightarrow> bool" where
  "steady f \<equiv> leaves buffering f"

named_theorems steady_intros \<open>operations that leave a part of the buffer\<close>

lemma leavesD: "leaves g f \<Longrightarrow> f c = (r, c') \<Longrightarrow> g (ctx_buf c') = g (ctx_buf c)"
  unfolding leaves_def by (metis snd_conv)

lemma leaves_pure [steady_intros]: "leaves g (retOp x)" "leaves g (liftOp r)" "leaves g (readOp h)"
  by (simp_all add: leaves_def)

lemma leaves_bind [steady_intros]:
  assumes "leaves g m" "\<And>x. leaves g (f x)"
  shows "leaves g (bindOp m f)"
proof -
  have "g (ctx_buf (snd (bindOp m f c))) = g (ctx_buf c)" for c
    using assms(1) assms(2) [unfolded leaves_def]
    by (cases "m c"; cases "fst (m c)") (auto simp: bindOp_def dest: leavesD)
  then show ?thesis by (simp add: leaves_def)
qed

lemma leaves_seq [steady_intros]: "leaves g m \<Longrightarrow> leaves g n \<Longrightarrow> leaves g (seqOp m n)"
  unfolding seqOp_def by (rule leaves_bind)

lemma leaves_for [steady_intros]: "(\<And>x. leaves g (h x)) \<Longrightarrow> leaves g (forOp xs h)"
  by (induction xs) (auto intro: steady_intros)

lemma leaves_mapOp [steady_intros]: "(\<And>x. leaves g (h x)) \<Longrightarrow> leaves g (mapOp h xs)"
  by (induction xs) (auto intro!: steady_intros)

lemma leaves_set_data [steady_intros]: "leaves g (\<lambda>c. set_data (t c) c)"
  by (auto simp: leaves_def set_data_def split: res.split)

lemma leaves_put_buf [steady_intros]: "(\<And>wb. g (f wb) = g wb) \<Longrightarrow> leaves g (put_buf f)"
  by (simp add: leaves_def put_buf_def)

lemma leaves_generate [steady_intros]: "leaves g generate_key"
  by (simp add: leaves_def generate_key_def split: prod.split)

lemma buffering_simps [simp]:
  "buffering (wb_file_forget k wb) = buffering wb" "buffering (wb_forget k wb) = buffering wb"
  "buffering (wb_file_put k e wb) = buffering wb" "buffering (wb_write g wb) = buffering wb"
  "buffering (wb_bump_structure wb) = buffering wb" "structure_count (wb_file_forget k wb) = structure_count wb"
  by (simp_all add: wb_file_forget_def wb_forget_def wb_file_put_def wb_write_def wb_bump_structure_def Let_def)

lemma leaves_fork [steady_intros]: "leaves g f \<Longrightarrow> leaves g f' \<Longrightarrow> leaves g (\<lambda>c. if b c then f c else f' c)"
  by (simp add: leaves_def)

lemma leaves_case [steady_intros]:
  "leaves g f \<Longrightarrow> (\<And>x. leaves g (h x)) \<Longrightarrow> leaves g (case y of None \<Rightarrow> f | Some x \<Rightarrow> h x)"
  "(\<And>x y. leaves g (h' x y)) \<Longrightarrow> leaves g (case p of (x, y) \<Rightarrow> h' x y)"
  "leaves g f \<Longrightarrow> leaves g f' \<Longrightarrow> leaves g (if b then f else f')"
  "leaves g f \<Longrightarrow> leaves g f' \<Longrightarrow> leaves g (case k of Dir \<Rightarrow> f | File \<Rightarrow> f')"
  by (auto split: option.split prod.split entry_kind.split)

lemma leaves_put_entry [steady_intros]: "steady (put_entry R k e)" "leaves structure_count (put_entry R k e)"
  unfolding put_entry_def by (intro steady_intros; simp)+

lemma steady_remove_entry [steady_intros]: "steady (remove_entry R k)"
  unfolding remove_entry_def by (intro steady_intros) simp

lemma steady_put_file_edit [steady_intros]: "steady (put_file_edit R k e)"
  unfolding put_file_edit_def [abs_def] by (intro steady_intros) simp

lemma steady_put_dir [steady_intros]: "steady (put_dir R k m)"
  unfolding put_dir_def [abs_def] buffer_dir_def by (intro steady_intros) simp

lemma steady_edit_dir [steady_intros]: "steady (edit_dir R k f)"
proof -
  have "buffering (ctx_buf (snd (edit_dir R k f c))) = buffering (ctx_buf c)" for c
    by (auto simp: edit_dir_def Let_def bindOp_def put_buf_def split: res.split option.split)
  then show ?thesis by (simp add: leaves_def)
qed

lemma steady_links [steady_intros]: "steady (link_child R k n c)" "steady (unlink_child R k n)"
  unfolding link_child_def unlink_child_def dir_link_def dir_unlink_def ctx_bump_structure_def
  by (intro steady_intros; simp)+

lemma steady_ensure_dir_from [steady_intros]: "steady (ensure_dir_from R k p)"
  by (induction p arbitrary: k) (auto intro!: steady_intros)

lemma steady_ensure_dir [steady_intros]: "steady (ensure_dir R p)"
  unfolding ensure_dir_def ensure_root_def by (intro steady_intros)

lemma steady_cascade_delete [steady_intros]: "steady (cascade_delete fuel R k)"
  by (induction fuel arbitrary: k) (auto intro!: steady_intros)

lemma steady_deep_copy [steady_intros]: "steady (deep_copy fuel R k)"
  by (induction fuel arbitrary: k) (auto intro!: steady_intros)

lemma leaves_flush [steady_intros]: "steady (flush_buffered R ds fs)" "leaves structure_count (flush_buffered R ds fs)"
  unfolding flush_buffered_def by (intro steady_intros)+

lemma steady_ops:
  "steady (store_blob_into fuel R p b)" "steady (store_value_into fuel R p v)" "steady (rm_into fuel R p)"
  "steady (mv_into fuel R p q)" "steady (cp_into fuel R p q)" "steady (put_scalar_into fuel C R p h a x)"
proof -
  show st: "steady (store_blob_into fuel R p b)" for p b unfolding store_blob_into_def by (intro steady_intros)
  then show sv: "steady (store_value_into fuel R p v)" for p v by (simp add: store_value_into_def)
  show "steady (rm_into fuel R p)" unfolding rm_into_def by (intro steady_intros)
  show "steady (mv_into fuel R p q)" unfolding mv_into_def clear_destination_def by (intro steady_intros)
  show "steady (cp_into fuel R p q)" unfolding cp_into_def clear_destination_def by (intro steady_intros)
  show "steady (put_scalar_into fuel C R p h a x)"
    unfolding put_scalar_into_def Let_def prod.case_eq_if
    by (auto intro!: steady_intros sv split: option.split prod.split)
qed

section \<open>The flush of the reindexing bracket\<close>

lemma flush_and_disable_makes:
  assumes "sees R c H"
  shows "\<exists>c'. makes R c (flush_and_disable R) () H c' \<and> \<not> buffering (ctx_buf c') \<and> ctx_rng c' = ctx_rng c \<and>
    ctx_structure_epoch c' = ctx_structure_epoch c"
proof -
  let ?wb = "(ctx_buf c)\<lparr>buffering := False, dirs_dirty := False, files_dirty := False, dirs := [], files := []\<rparr>"
  let ?c = "c\<lparr>ctx_buf := ?wb\<rparr>" and ?ds = "dirs (ctx_buf c)" and ?fs = "files (ctx_buf c)"
  have run: "flush_and_disable R c = (if ?ds \<noteq> [] \<or> ?fs \<noteq> [] then flush_buffered R ?ds ?fs ?c else (Ok (), ?c))"
    by (simp add: flush_and_disable_def wb_take_and_disable_def wb_take_def Let_def)
  show ?thesis
  proof (cases "?ds \<noteq> [] \<or> ?fs \<noteq> []")
    case True
    obtain c' where c': "writes R ?c (flush_buffered R ?ds ?fs) () (view R c) c'" "ctx_rng c' = ctx_rng c"
      using flush_into_writes [OF sees_ok [OF assms], of ?ds ?fs ?wb] by auto
    then have f: "flush_buffered R ?ds ?fs ?c = (Ok (), c')" by (simp add: writes_def)
    have "sees R c' H" using assms c'(1) by (simp add: sees_def writes_def)
    then show ?thesis
      using leavesD [OF leaves_flush(1) f] leavesD [OF leaves_flush(2) f] True c'(2) f
      by (simp add: makes_def run ctx_structure_epoch_def wb_structure_epoch_def)
  next
    case False
    have "view R ?c = view R c" using False by (auto simp: fun_eq_iff view_def split: option.split)
    then have "sees R ?c H" using assms False by (auto simp: sees_def ctx_ok_def wb_ok_def)
    then show ?thesis using False by (simp add: makes_def run ctx_structure_epoch_def wb_structure_epoch_def)
  qed
qed

lemma holds_unbuffered: "sees R c H \<Longrightarrow> tree H \<Longrightarrow> \<not> buffering (ctx_buf c) \<Longrightarrow> holds_heap R (ctx_data c) H"
  by (fastforce simp: holds_heap_def sees_def ctx_ok_def wb_ok_def view_def)

section \<open>The frame of a change\<close>

text \<open>Away from its scopes a change keeps the a-nodes and what they hold.\<close>

lemma rows_frame:
  assumes "tree H" "tree H'" "keeps S H H'" "\<And>q. off S q \<Longrightarrow> files_at H' q = files_at H q"
  shows "rows C H' (off S) e = rows C H (off S) e"
proof -
  have "lookup H' akey_ROOT q = lookup H akey_ROOT q" if q: "off S q" for q
  proof -
    have np: "\<not> prefix s q" if "s \<in> set S" for s using q that by (auto simp: off_def aligned_def)
    show ?thesis
    proof (cases "lookup H akey_ROOT q")
      case (Some x)
      then show ?thesis using keepsD [OF assms(3) Some np] by simp
    next
      case None
      then have "q \<noteq> []" by auto
      then show ?thesis
        using files_at_lookup [OF assms(1)] files_at_lookup [OF assms(2)] assms(4) [OF q] None by metis
    qed
  qed
  then show ?thesis using assms(4) unfolding rows_def by (metis (no_types, lifting))
qed

section \<open>Reindexing keeps the indexes in step\<close>

text \<open>The invariant of a write transaction over a table with the indexes \<open>es\<close>: it sees the tree \<open>H\<close> of
  well-formed documents, and each of its indexes has exactly the rows \<open>H\<close> gives it.\<close>

definition txn_inv :: "('t, 'i, 'm) env \<Rightarrow> ('t, 'i, 'm) write_txn \<Rightarrow> heap \<Rightarrow> index_entry list \<Rightarrow> bool" where
  "txn_inv E s H es \<longleftrightarrow>
     sees (env_data E) (tx_ctx s) H \<and> tree H \<and> docs_ok (env_chrono E) (files_at H) \<and>
     redb_ok (env_index E) \<and> txn_indexes E s = Ok es \<and> (tx_indexed s \<or> es = []) \<and> distinct (map ent_id es) \<and>
     (\<forall>e \<in> set es. pattern_ok e \<and> synced (env_chrono E) (env_index E) (tx_index s) H e)"

text \<open>A change of the table, from \<open>H\<close> to the file system \<open>F\<close>, whose scopes are \<open>S\<close>.\<close>

definition changes :: "('t, 'i, 'm) env \<Rightarrow> 't ctx \<Rightarrow> ('t ctx, 'a) op \<Rightarrow> 'a \<Rightarrow> heap \<Rightarrow> file_system \<Rightarrow> apath list \<Rightarrow> bool" where
  "changes E c0 app x H F S \<longleftrightarrow>
     steady app \<and> docs_ok (env_chrono E) F \<and> (\<forall>q. off S q \<longrightarrow> F q = files_at H q) \<and>
     (\<forall>c. sees (env_data E) c H \<longrightarrow> ctx_rng c = ctx_rng c0 \<longrightarrow> ctx_structure_epoch c = ctx_structure_epoch c0 \<longrightarrow>
       (\<exists>c' H'. makes (env_data E) c app x H' c' \<and> tree H' \<and> files_at H' = F \<and> keeps S H H'))"

text \<open>The outcome of a bracketed change: done with every index in step, or refused by a unique index
  that two a-nodes of the changed table violate.\<close>

definition reindexed :: "('t, 'i, 'm) env \<Rightarrow> (('t, 'i, 'm) write_txn, 'a) op \<Rightarrow> 'a \<Rightarrow> ('t, 'i, 'm) write_txn \<Rightarrow>
    file_system \<Rightarrow> index_entry list \<Rightarrow> bool" where
  "reindexed E app x s F es \<longleftrightarrow>
     (\<exists>s' H'. sees (env_data E) (tx_ctx s') H' \<and> tree H' \<and> files_at H' = F \<and>
       ((app s = (Ok x, s') \<and> txn_inv E s' H' es) \<or>
        (\<exists>e \<in> set es. app s = (Err (UniqueViolation (idx_name (ent_def e))), s') \<and> idx_unique (ent_def e) \<and>
           collides (all_rows (env_chrono E) H' e))))"

lemma txn_invD:
  assumes "txn_inv E s H es"
  shows "sees (env_data E) (tx_ctx s) H" "tree H" "docs_ok (env_chrono E) (files_at H)" "redb_ok (env_index E)"
    "txn_indexes E s = Ok es" "tx_indexed s \<or> es = []" "distinct (map ent_id es)" "\<And>e. e \<in> set es \<Longrightarrow> pattern_ok e"
    "\<And>e. e \<in> set es \<Longrightarrow> synced (env_chrono E) (env_index E) (tx_index s) H e"
  using assms by (auto simp: txn_inv_def)

lemma changesD:
  assumes "changes E c0 app x H F S"
  shows "steady app" "docs_ok (env_chrono E) F" "\<And>q. off S q \<Longrightarrow> F q = files_at H q"
    "\<And>c. sees (env_data E) c H \<Longrightarrow> ctx_rng c = ctx_rng c0 \<Longrightarrow> ctx_structure_epoch c = ctx_structure_epoch c0 \<Longrightarrow>
       \<exists>c' H'. makes (env_data E) c app x H' c' \<and> tree H' \<and> files_at H' = F \<and> keeps S H H'"
  using assms by (auto simp: changes_def)

lemma synced_single: "synced C I ix H e \<Longrightarrow> \<not> collides (all_rows C H e)"
proof -
  have "\<not> collides (block I ix (ent_id e))" by (auto simp: block_def collides_def)
  then show "synced C I ix H e \<Longrightarrow> \<not> collides (all_rows C H e)" by (simp add: synced_def)
qed

lemma forOp_on_index:
  "forOp S (\<lambda>x. on_index (\<lambda>data. g data x)) s =
     (let (r, i) = forOp S (g (ctx_data (tx_ctx s))) (tx_index s) in (r, s\<lparr>tx_index := i\<rparr>))"
proof (induction S arbitrary: s)
  case (Cons x S)
  obtain r i where g: "g (ctx_data (tx_ctx s)) x (tx_index s) = (r, i)" by force
  then show ?case using Cons.IH [of "s\<lparr>tx_index := i\<rparr>"]
    by (cases r) (simp_all add: on_index_def seqOp_def bindOp_def Let_def)
qed simp

lemma on_ctx_Ok [simp]: "f (tx_ctx s) = (r, c) \<Longrightarrow> on_ctx f s = (r, s\<lparr>tx_ctx := c\<rparr>)"
  by (simp add: on_ctx_def)

lemma reindex_around_law:
  assumes "txn_inv E s H es" "changes E (tx_ctx s) app x H F S"
  shows "reindexed E (reindex_around E S app) x s F es"
proof (cases "es = []")
  case True
  obtain c' H' where c': "makes (env_data E) (tx_ctx s) app x H' c'" "tree H'" "files_at H' = F"
    using changesD(4) [OF assms(2) txn_invD(1) [OF assms(1)]] by blast
  have "reindex_around E S app s = (Ok x, s\<lparr>tx_ctx := c'\<rparr>)"
    using txn_invD(5) [OF assms(1)] True c'(1) by (simp add: reindex_around_def makes_def bindOp_def)
  moreover have "txn_inv E (s\<lparr>tx_ctx := c'\<rparr>) H' es"
    using txn_invD(4,5) [OF assms(1)] changesD(2) [OF assms(2)] True c' by (simp add: txn_inv_def makes_def txn_indexes_def)
  ultimately show ?thesis unfolding reindexed_def using c'
    by (intro exI [of _ "s\<lparr>tx_ctx := c'\<rparr>"] exI [of _ H']) (simp add: makes_def)
next
  case False
  let ?C = "env_chrono E" and ?R = "env_data E" and ?I = "env_index E"
  note inv = txn_invD [OF assms(1)] and ch = changesD [OF assms(2)]
  obtain c1 where c1: "makes ?R (tx_ctx s) (flush_and_disable ?R) () H c1" "\<not> buffering (ctx_buf c1)"
    "ctx_rng c1 = ctx_rng (tx_ctx s)" "ctx_structure_epoch c1 = ctx_structure_epoch (tx_ctx s)"
    using flush_and_disable_makes [OF inv(1)] by blast
  obtain c2 H' where c2: "makes ?R c1 app x H' c2" "tree H'" "files_at H' = F" "keeps S H H'"
    using ch(4) [OF makes_sees [OF c1(1)] c1(3,4)] by blast
  have "\<not> buffering (ctx_buf c2)" using leavesD [OF ch(1), of c1] c1(2) c2(1) by (simp add: makes_def)
  then have holds: "holds_heap ?R (ctx_data c1) H" "holds_heap ?R (ctx_data c2) H'"
    using holds_unbuffered [OF makes_sees [OF c1(1)] inv(2) c1(2)] holds_unbuffered [OF makes_sees [OF c2(1)] c2(2)] by auto
  have blk: "block ?I (tx_index s) (ent_id e) = rows ?C H (\<lambda>_. True) e" if "e \<in> set es" for e
    using inv(9) [OF that] by (simp add: synced_def)
  obtain i1 where i1: "forOp S (maintenance_delete ?C ?R ?I (ctx_data c1) es) (tx_index s) = (Ok (), i1)"
    "\<forall>e \<in> set es. block ?I i1 (ent_id e) = rows ?C H (off S) e"
    using delete_scopes_holds [OF inv(4) holds(1) inv(3,8,7) synced_single [OF inv(9)] blk, of S] by (auto simp only: simp_thms)
  have kept: "rows ?C H (off S) e = rows ?C H' (off S) e" for e
    using rows_frame [OF inv(2) c2(2,4)] ch(3) c2(3) by simp
  have docs: "docs_ok ?C (files_at H')" using ch(2) c2(3) by simp
  have sub: "block ?I i1 (ent_id e) \<subseteq> all_rows ?C H' e" if "e \<in> set es" for e
    using i1(2) that kept rows_mono [of "off S" "\<lambda>_. True"] by simp
  let ?s1 = "s\<lparr>tx_ctx := c1\<rparr>" and ?s2 = "s\<lparr>tx_ctx := c1, tx_index := i1\<rparr>" and ?s3 = "s\<lparr>tx_ctx := c2, tx_index := i1\<rparr>"
  have flush: "on_ctx (flush_and_disable ?R) s = (Ok (), ?s1)" using c1(1) by (simp add: makes_def)
  have del: "forOp S (\<lambda>scope. on_index (\<lambda>data. maintenance_delete ?C ?R ?I data es scope)) ?s1 = (Ok (), ?s2)"
    using i1(1) by (simp add: forOp_on_index)
  have mut: "on_ctx app ?s2 = (Ok x, ?s3)" using c2(1) by (simp add: makes_def)
  have ins: "forOp S (\<lambda>scope. on_index (\<lambda>data. maintenance_insert ?C ?R ?I data es scope)) ?s3 = (r, s\<lparr>tx_ctx := c2, tx_index := i\<rparr>)"
    if "forOp S (maintenance_insert ?C ?R ?I (ctx_data c2) es) i1 = (r, i)" for r i
    using that by (simp add: forOp_on_index)
  have ind: "readOp (\<lambda>s. if tx_indexed s then txn_indexes E s else Ok []) s = (Ok es, s)" using inv(5,6) False by simp
  have run: "reindex_around E S app s = seqOp (forOp S (\<lambda>scope. on_index (\<lambda>data. maintenance_insert ?C ?R ?I data es scope)))
      (retOp x) ?s3"
    by (simp only: reindex_around_def bindOp_Ok seqOp_Ok ind flush del mut False if_False)
  have sees2: "sees ?R c2 H'" by (rule makes_sees [OF c2(1)])
  consider (ok) i where "forOp S (maintenance_insert ?C ?R ?I (ctx_data c2) es) i1 = (Ok (), i)"
      "\<forall>e \<in> set es. block ?I i (ent_id e) = block ?I i1 (ent_id e) \<union> rows ?C H' (\<lambda>q. \<not> off S q) e"
    | (bad) i e where "forOp S (maintenance_insert ?C ?R ?I (ctx_data c2) es) i1 = (Err (UniqueViolation (idx_name (ent_def e))), i)"
      "e \<in> set es" "idx_unique (ent_def e)" "collides (all_rows ?C H' e)"
    using insert_scopes_holds [OF inv(4) holds(2) docs inv(8,7) sub, of S] by blast
  then show ?thesis
  proof cases
    case ok
    have "synced ?C ?I i H' e" if "e \<in> set es" for e
      using ok(2) that i1(2) kept by (simp add: synced_def rows_Un)
    then have "txn_inv E (s\<lparr>tx_ctx := c2, tx_index := i\<rparr>) H' es"
      using inv(4-8) sees2 c2(2) docs by (simp add: txn_inv_def txn_indexes_def)
    moreover have "reindex_around E S app s = (Ok x, s\<lparr>tx_ctx := c2, tx_index := i\<rparr>)"
      by (simp only: run seqOp_Ok ins [OF ok(1)] retOp_apply)
    ultimately show ?thesis unfolding reindexed_def using sees2 c2(2,3)
      by (intro exI [of _ "s\<lparr>tx_ctx := c2, tx_index := i\<rparr>"] exI [of _ H']) simp
  next
    case bad
    then have "reindex_around E S app s = (Err (UniqueViolation (idx_name (ent_def e))), s\<lparr>tx_ctx := c2, tx_index := i\<rparr>)"
      by (simp only: run seqOp_def bindOp_Err ins [OF bad(1)])
    then show ?thesis unfolding reindexed_def using sees2 c2(2,3) bad(2-4)
      by (intro exI [of _ "s\<lparr>tx_ctx := c2, tx_index := i\<rparr>"] exI [of _ H']) auto
  qed
qed

section \<open>The changes the operations make\<close>

lemma off_graft: "off [p] q \<Longrightarrow> graft p t F q = F q" and off_prune: "off [p] q \<Longrightarrow> prune_at p F q = F q"
  by (auto simp: off_def aligned_def graft_def prune_at_def strict_prefix_def)

lemma off_two: "off [p, p'] q \<longleftrightarrow> off [p] q \<and> off [p'] q"
  by (simp add: off_def)

lemma docs_ok_graft: "docs_ok C F \<Longrightarrow> docs_ok C t \<Longrightarrow> docs_ok C (graft p t F)"
  unfolding docs_ok_def graft_def by (metis found.distinct(1) option.inject)

lemma docs_ok_prune: "docs_ok C F \<Longrightarrow> docs_ok C (prune_at p F)"
  unfolding docs_ok_def prune_at_def by (metis option.distinct(1))

lemma docs_ok_single: "value_ok C v \<Longrightarrow> blob_fits v \<Longrightarrow> docs_ok C (single (Document (blob_encode v)))"
  by (auto simp: docs_ok_def single_def)

lemma docs_ok_subtree: "docs_ok C F \<Longrightarrow> docs_ok C (subtree_at p F)"
  by (auto simp: docs_ok_def subtree_at_def)

lemma store_changes:
  assumes "tree H" "docs_ok (env_chrono E) (files_at H)" "roomy H (q @ [n])" "fresh_keys H (Suc (length q)) (ctx_rng c0)"
    and "depth_ok (files_at H) (env_fuel E)" "length q < env_fuel E"
    and "\<And>r b. prefix r q \<Longrightarrow> files_at H r \<noteq> Some (Document b)" "value_ok (env_chrono E) v" "blob_fits v"
  shows "changes E c0 (store_value_into (env_fuel E) (env_data E) (q @ [n]) v) () H
    (graft (q @ [n]) (single (Document (blob_encode v))) (files_at H)) [q @ [n]]"
proof -
  have "\<exists>c' H'. makes (env_data E) c (store_value_into (env_fuel E) (env_data E) (q @ [n]) v) () H' c' \<and> tree H' \<and>
      files_at H' = graft (q @ [n]) (single (Document (blob_encode v))) (files_at H) \<and> keeps [q @ [n]] H H'"
    if "sees (env_data E) c H" "ctx_rng c = ctx_rng c0" for c
    unfolding store_value_into_def using store_blob_makes [OF assms(1) that(1) assms(3) _ assms(5-7)] assms(4) that(2) by simp
  then show ?thesis
    using docs_ok_graft [OF assms(2) docs_ok_single [OF assms(8,9)]] by (simp add: changes_def steady_ops off_graft)
qed

lemma absent_prune:
  assumes "tree H" "files_at H p = None" "p \<noteq> []"
  shows "prune_at p (files_at H) = files_at H"
proof
  fix r
  have "lookup H akey_ROOT p = None" using files_at_lookup [OF assms(1,3)] assms(2) by simp
  then have "lookup H akey_ROOT r = None" if "prefix p r" using that by (auto simp: prefix_def lookup_append)
  then show "prune_at p (files_at H) r = files_at H r" by (auto simp: prune_at_def files_at_def)
qed

lemma rm_changes:
  assumes "tree H" "docs_ok (env_chrono E) (files_at H)" "depth_ok (files_at H) (env_fuel E)"
  shows "changes E c0 (rm_into (env_fuel E) (env_data E) (q @ [n])) (files_at H (q @ [n]) \<noteq> None) H
    (prune_at (q @ [n]) (files_at H)) [q @ [n]]"
proof -
  have "\<exists>c' H'. makes (env_data E) c (rm_into (env_fuel E) (env_data E) (q @ [n])) (files_at H (q @ [n]) \<noteq> None) H' c' \<and> tree H' \<and>
      files_at H' = prune_at (q @ [n]) (files_at H) \<and> keeps [q @ [n]] H H'"
    if c: "sees (env_data E) c H" for c
  proof (cases "files_at H (q @ [n]) = None")
    case True
    then show ?thesis
      using rm_nothing [OF assms(1) c True] absent_prune [OF assms(1) True] assms(1) c keeps_refl by (auto simp: makes_def)
  next
    case False
    then show ?thesis using rm_makes [OF assms(1) c assms(3) False] by simp
  qed
  then show ?thesis using docs_ok_prune [OF assms(2)] by (simp add: changes_def steady_ops off_prune)
qed

lemma mv_changes:
  assumes "tree H" "docs_ok (env_chrono E) (files_at H)" "files_at H (p @ [sn]) \<noteq> None"
    and "\<not> prefix (p @ [sn]) (q @ [dn])" "\<not> prefix (q @ [dn]) (p @ [sn])"
    and "roomy H (q @ [dn])" "fresh_keys H (length q) (ctx_rng c0)"
    and "depth_ok (files_at H) (env_fuel E)" "length q < env_fuel E"
    and "\<And>r b. prefix r q \<Longrightarrow> files_at H r \<noteq> Some (Document b)"
  shows "changes E c0 (mv_into (env_fuel E) (env_data E) (p @ [sn]) (q @ [dn])) () H
    (graft (q @ [dn]) (subtree_at (p @ [sn]) (files_at H)) (prune_at (p @ [sn]) (files_at H))) [p @ [sn], q @ [dn]]"
proof -
  let ?F = "graft (q @ [dn]) (subtree_at (p @ [sn]) (files_at H)) (prune_at (p @ [sn]) (files_at H))"
  have "\<exists>c' H'. makes (env_data E) c (mv_into (env_fuel E) (env_data E) (p @ [sn]) (q @ [dn])) () H' c' \<and> tree H' \<and>
      files_at H' = ?F \<and> keeps [p @ [sn], q @ [dn]] H H'"
    if "sees (env_data E) c H" "ctx_rng c = ctx_rng c0" for c
    using mv_makes [OF assms(1) that(1) assms(3-6) _ assms(8-10)] assms(7) that(2) by simp
  moreover have "?F r = files_at H r" if "off [p @ [sn], q @ [dn]] r" for r
    using that unfolding off_two by (simp add: off_graft off_prune)
  ultimately show ?thesis
    using docs_ok_graft [OF docs_ok_prune [OF assms(2)] docs_ok_subtree [OF assms(2)]] by (simp add: changes_def steady_ops)
qed

lemma put_scalar_changes:
  assumes "tree H" "docs_ok (env_chrono E) (files_at H)" "lookup H akey_ROOT (q @ [n]) = Some k" "H k = Some (FileN (blob_encode v))"
    and "value_ok (env_chrono E) v" "blob_fits v" "hint_ok c0 k hint"
    and "value_ok (env_chrono E) (snd (set_in v at (Leaf x)))" "blob_fits (snd (set_in v at (Leaf x)))"
  shows "changes E c0 (put_scalar_into (env_fuel E) (env_chrono E) (env_data E) (q @ [n]) hint at x) () H
    (graft (q @ [n]) (single (Document (blob_encode (snd (set_in v at (Leaf x)))))) (files_at H)) [q @ [n]]"
proof -
  let ?w = "snd (set_in v at (Leaf x))"
  have "\<exists>c' H'. makes (env_data E) c (put_scalar_into (env_fuel E) (env_chrono E) (env_data E) (q @ [n]) hint at x) () H' c' \<and>
      tree H' \<and> files_at H' = graft (q @ [n]) (single (Document (blob_encode ?w))) (files_at H) \<and> keeps [q @ [n]] H H'"
    if c: "sees (env_data E) c H" "ctx_structure_epoch c = ctx_structure_epoch c0" for c
  proof -
    have "hint_ok c k hint" using assms(7) c(2) by (auto simp: hint_ok_def split: option.split)
    from put_scalar_makes [OF c(1) assms(3-6) this] overwrite_file [OF assms(1,3,4)] show ?thesis by blast
  qed
  then show ?thesis
    using docs_ok_graft [OF assms(2) docs_ok_single [OF assms(8,9)]] by (simp add: changes_def steady_ops off_graft)
qed

end
