(* ===== verification/Index_Scan.thy ===== *)
theory Index_Scan
  imports Index_Sync
begin

text \<open>
  Reading an index that is in step with its table: a prefix scan returns each a-node whose leading columns
  hold the given values, once, in the order of the columns; and dropping an index removes its
  entries and no others.
\<close>

section \<open>The a-node of a row\<close>

definition row_entity :: "bool \<Rightarrow> bytes \<times> bytes \<Rightarrow> akey" where
  "row_entity unique kv = (if unique then akey_from_bytes (snd kv) else akey_from_bytes (drop (length (fst kv) - 16) (fst kv)))"

lemma row_entity_row: "row_entity (idx_unique (ent_def e)) (index_row C e f k) = k"
  by (simp add: row_entity_def index_row_def entry_key_def Let_def)

lemma row_decodes:
  assumes "kv = index_row C e f k"
  shows "(if idx_unique (ent_def e) then akey_try_from_bytes (snd kv) else akey_try_from_bytes (drop (length (fst kv) - 16) (fst kv))) = Ok k"
  by (simp add: assms index_row_def entry_key_def Let_def)

lemma scan_loop_rows:
  assumes "\<And>kv. kv \<in> set (takeWhile (\<lambda>e. starts_with (fst e) lower) kvs) \<Longrightarrow>
    (if unique then akey_try_from_bytes (snd kv) else akey_try_from_bytes (drop (length (fst kv) - 16) (fst kv))) = Ok (g kv)"
  shows "scan_loop unique lower kvs = Ok (map g (takeWhile (\<lambda>e. starts_with (fst e) lower) kvs))"
  using assms
proof (induction kvs)
  case (Cons kv kvs)
  obtain k v where kv: "kv = (k, v)" by force
  show ?case
  proof (cases "starts_with k lower")
    case True
    have "scan_loop unique lower kvs = Ok (map g (takeWhile (\<lambda>e. starts_with (fst e) lower) kvs))"
      using Cons.IH Cons.prems True kv by simp
    then show ?thesis using True Cons.prems [of kv] kv by (cases unique) simp_all
  qed (simp add: kv)
qed simp

section \<open>Scanning an index\<close>

text \<open>The values of an index's columns at an a-node.\<close>

definition column_values :: "chrono \<Rightarrow> heap \<Rightarrow> index_entry \<Rightarrow> akey \<Rightarrow> scalar list" where
  "column_values C H e k = map (\<lambda>c. doc_scalar C (map_option shown (H k)) (col_path c)) (idx_columns (ent_def e))"

text \<open>The a-nodes the index covers, and those whose leading columns hold the values \<open>ps\<close>.\<close>

definition covered :: "heap \<Rightarrow> index_entry \<Rightarrow> akey set" where
  "covered H e = {k. \<exists>q. matches (entry_segs e) q \<and> lookup H akey_ROOT q = Some k}"

definition selected :: "chrono \<Rightarrow> heap \<Rightarrow> index_entry \<Rightarrow> scalar list \<Rightarrow> akey set" where
  "selected C H e ps = {k \<in> covered H e.
     list_all2 (\<lambda>p v. scalar_key p = scalar_key v) ps (take (length ps) (column_values C H e k))}"

lemma length_column_values [simp]: "length (column_values C H e k) = length (idx_columns (ent_def e))"
  by (simp add: column_values_def)

lemma all_rows_covered: "all_rows C H e = (\<lambda>k. index_row C e (map_option shown (H k)) k) ` covered H e"
proof -
  have "x = index_row C e (files_at H q) k \<longleftrightarrow> x = index_row C e (map_option shown (H k)) k"
    if "lookup H akey_ROOT q = Some k" for x q k using files_at_lookup_eq [OF that] by simp
  then show ?thesis unfolding rows_def covered_def image_def by blast
qed

lemma row_key: "fst (index_row C e (map_option shown (H k)) k) =
  id_prefix (ent_id e) @ encode_columns (ent_def e) (column_values C H e k) @
    (if idx_unique (ent_def e) then [] else akey_into_bytes k)"
  by (simp add: index_row_def column_values_def entry_key_def Let_def)

lemma starts_with_same: "starts_with (p @ b) (p @ c) \<longleftrightarrow> starts_with b c"
  by (auto simp: starts_with_iff)

lemma row_selected:
  assumes "length ps \<le> length (idx_columns (ent_def e))"
  shows "starts_with (fst (index_row C e (map_option shown (H k)) k)) (id_prefix (ent_id e) @ encode_columns (ent_def e) ps) \<longleftrightarrow>
    list_all2 (\<lambda>p v. scalar_key p = scalar_key v) ps (take (length ps) (column_values C H e k))"
  unfolding row_key starts_with_same starts_with_iff encode_columns_eq
  using tuple_prefix [OF assms length_column_values] by simp

lemma row_order:
  assumes "fst (index_row C e (map_option shown (H k)) k) < fst (index_row C e (map_option shown (H l)) l)"
  shows "\<not> tuple_less (idx_columns (ent_def e)) (column_values C H e l) (column_values C H e k)"
proof
  assume "tuple_less (idx_columns (ent_def e)) (column_values C H e l) (column_values C H e k)"
  then have "precedes (tuple_code (idx_columns (ent_def e)) (column_values C H e l)) (tuple_code (idx_columns (ent_def e)) (column_values C H e k))"
    by (rule tuple_precedes)
  then have "precedes (tuple_code (idx_columns (ent_def e)) (column_values C H e l) @ u)
      (tuple_code (idx_columns (ent_def e)) (column_values C H e k) @ v)" for u v by (rule precedes_append)
  then have "precedes (id_prefix (ent_id e) @ tuple_code (idx_columns (ent_def e)) (column_values C H e l) @ u)
      (id_prefix (ent_id e) @ tuple_code (idx_columns (ent_def e)) (column_values C H e k) @ v)" for u v
    by (simp add: precedes_prefix)
  then have "fst (index_row C e (map_option shown (H l)) l) < fst (index_row C e (map_option shown (H k)) k)"
    unfolding row_key encode_columns_eq by (rule precedes_less)
  then show False using assms by (simp add: less_not_sym)
qed

lemma image_filter: "{x \<in> f ` A. starts_with (fst x) p} = f ` {k \<in> A. starts_with (fst (f k)) p}"
  by auto

text \<open>The entries of an index that is in step, under the prefix of a scan.\<close>

lemma scan_hits:
  assumes "redb_ok I" "synced C I ix H e" "length ps \<le> length (idx_columns (ent_def e))"
    and "table_range I ix (id_prefix (ent_id e) @ encode_columns (ent_def e) ps) = Ok kvs"
    and hits_def: "hits = takeWhile (\<lambda>x. starts_with (fst x) (id_prefix (ent_id e) @ encode_columns (ent_def e) ps)) kvs"
  shows "set hits = (\<lambda>k. index_row C e (map_option shown (H k)) k) ` selected C H e ps" and "sorted_wrt (\<lambda>x y. fst x < fst y) hits"
proof -
  let ?lower = "id_prefix (ent_id e) @ encode_columns (ent_def e) ps"
  have hits: "set hits = {x. starts_with (fst x) ?lower \<and> contents I ix (fst x) = Some (snd x)}" "bt_ok hits"
    using range_prefix [OF assms(1,4)] by (simp_all add: hits_def)
  have blk: "block I ix (ent_id e) = (\<lambda>k. index_row C e (map_option shown (H k)) k) ` covered H e"
    using assms(2) by (simp only: synced_def all_rows_covered)
  have "starts_with b (id_prefix (ent_id e))" if "starts_with b ?lower" for b using that by (auto simp: starts_with_iff)
  then have "set hits = {x \<in> block I ix (ent_id e). starts_with (fst x) ?lower}" unfolding hits(1) block_def by auto
  then show "set hits = (\<lambda>k. index_row C e (map_option shown (H k)) k) ` selected C H e ps"
    unfolding blk selected_def row_selected [OF assms(3), symmetric] image_filter .
  show "sorted_wrt (\<lambda>x y. fst x < fst y) hits" using hits(2) by (simp add: bt_ok_def sorted_wrt_map)
qed

lemma rows_back:
  assumes "set hits = f ` A" "\<And>k. g (f k) = k" "x \<in> set hits"
  shows "f (g x) = x"
  using assms by auto

lemma scan_prefix_rows:
  assumes "redb_ok I" "synced C I ix H e" "length ps \<le> length (idx_columns (ent_def e))"
  shows "\<exists>ks. scan_prefix I ix (ent_id e) (encode_columns (ent_def e) ps) (idx_unique (ent_def e)) = Ok ks \<and>
    set ks = selected C H e ps \<and> distinct ks \<and>
    sorted_wrt (\<lambda>k l. \<not> tuple_less (idx_columns (ent_def e)) (column_values C H e l) (column_values C H e k)) ks"
proof -
  let ?lower = "id_prefix (ent_id e) @ encode_columns (ent_def e) ps"
  define g where "g = row_entity (idx_unique (ent_def e))"
  define row where "row k = index_row C e (map_option shown (H k)) k" for k
  have inv: "g (row k) = k" for k by (simp add: g_def row_def row_entity_row)
  obtain kvs where kvs: "table_range I ix ?lower = Ok kvs" using redb_range [OF assms(1), where t = ix and k = ?lower] by blast
  define hits where "hits = takeWhile (\<lambda>x. starts_with (fst x) ?lower) kvs"
  have hrows: "set hits = row ` selected C H e ps" and hsort: "sorted_wrt (\<lambda>x y. fst x < fst y) hits"
    using scan_hits [OF assms kvs hits_def] by (simp_all add: row_def [abs_def])
  note bk = rows_back [OF hrows inv]
  have "scan_loop (idx_unique (ent_def e)) ?lower kvs = Ok (map g hits)"
    unfolding hits_def
  proof (rule scan_loop_rows)
    fix kv assume "kv \<in> set (takeWhile (\<lambda>x. starts_with (fst x) ?lower) kvs)"
    then have "kv = row (g kv)" using bk [of kv] by (simp add: hits_def)
    then show "(if idx_unique (ent_def e) then akey_try_from_bytes (snd kv)
        else akey_try_from_bytes (drop (length (fst kv) - 16) (fst kv))) = Ok (g kv)"
      unfolding row_def by (rule row_decodes)
  qed
  then have "scan_prefix I ix (ent_id e) (encode_columns (ent_def e) ps) (idx_unique (ent_def e)) = Ok (map g hits)"
    using kvs by (simp add: scan_prefix_def Let_def)
  moreover have "set (map g hits) = selected C H e ps" by (simp add: hrows image_image inv)
  moreover have "distinct (map g hits)"
  proof -
    have "inj_on g (set hits)" using bk by (metis inj_onI)
    moreover have "distinct hits" using hsort by (induction hits) auto
    ultimately show ?thesis by (simp add: distinct_map)
  qed
  moreover have "sorted_wrt (\<lambda>k l. \<not> tuple_less (idx_columns (ent_def e)) (column_values C H e l) (column_values C H e k)) (map g hits)"
    unfolding sorted_wrt_map
  proof (rule sorted_wrt_mono_rel [OF _ hsort])
    fix x y assume xy: "x \<in> set hits" "y \<in> set hits" "fst x < fst y"
    then have "fst (row (g x)) < fst (row (g y))" by (simp only: bk)
    then show "\<not> tuple_less (idx_columns (ent_def e)) (column_values C H e (g y)) (column_values C H e (g x))"
      unfolding row_def by (rule row_order)
  qed
  ultimately show ?thesis by blast
qed

section \<open>Dropping an index\<close>

lemma delete_all_rows:
  assumes "redb_ok I"
  shows "\<exists>ix'. maintenance_delete_all I e ix = (Ok (), ix') \<and>
    contents I ix' = (\<lambda>k. if starts_with k (id_prefix (ent_id e)) then None else contents I ix k)"
proof -
  let ?p = "id_prefix (ent_id e)"
  obtain kvs where kvs: "table_range I ix ?p = Ok kvs" using redb_range [OF assms, where t = ix and k = ?p] by blast
  have s: "set (takeWhile (\<lambda>e. starts_with (fst e) ?p) kvs) = {x. starts_with (fst x) ?p \<and> contents I ix (fst x) = Some (snd x)}"
    using range_prefix(1) [OF assms kvs] .
  have mem: "k \<in> set (delete_all_keys ?p kvs) \<longleftrightarrow> starts_with k ?p \<and> contents I ix k \<noteq> None" for k
  proof -
    have "k \<in> set (delete_all_keys ?p kvs) \<longleftrightarrow> (\<exists>v. (k, v) \<in> {x. starts_with (fst x) ?p \<and> contents I ix (fst x) = Some (snd x)})"
      unfolding delete_all_keys_def set_map s by (auto simp: image_iff)
    then show ?thesis by auto
  qed
  obtain ix' where "forOp (delete_all_keys ?p kvs) (\<lambda>k index. set_index (table_remove I index k) index) ix = (Ok (), ix')"
    "contents I ix' = (\<lambda>k. if k \<in> set (delete_all_keys ?p kvs) then None else contents I ix k)"
    using remove_all [OF assms] by blast
  then show ?thesis
    using kvs mem by (auto simp: maintenance_delete_all_def Let_def bindOp_def fun_eq_iff)
qed

section \<open>A concrete index\<close>

text \<open>A table with one user, indexed.\<close>

definition users_heap :: heap where
  "users_heap = [0 \<mapsto> DirN [(''users'', 1)], 1 \<mapsto> DirN [(''u'', 2)], 2 \<mapsto> FileN (blob_encode sample_doc)]"

definition users_index :: "(bytes, bytes) btree" where
  "users_index = [index_row calendar sample_entry (Some (Document (blob_encode sample_doc))) 2]"

lemma users_child: "child_at users_heap k n = Some c \<longleftrightarrow> k = 0 \<and> n = ''users'' \<and> c = 1 \<or> k = 1 \<and> n = ''u'' \<and> c = 2"
  by (auto simp: child_at_def users_heap_def split: if_splits)

lemma users_covered: "covered users_heap sample_entry = {2}"
proof -
  have "lookup users_heap akey_ROOT [''users'', n] = Some k \<longleftrightarrow> n = ''u'' \<and> k = 2" for n k
    by (auto simp: lookup_Cons_iff users_child akey_ROOT_def simp del: lookup.simps(2))
  then show ?thesis by (auto simp: covered_def sample_entry_segs simp del: lookup.simps(2))
qed

lemma users_synced: "synced calendar btree_redb users_index users_heap sample_entry"
proof -
  obtain k v where kv: "index_row calendar sample_entry (Some (Document (blob_encode sample_doc))) 2 = (k, v)" by force
  then have "starts_with k (id_prefix (ent_id sample_entry))"
    using row_key [of calendar sample_entry users_heap 2] by (simp add: users_heap_def starts_with_iff)
  then have "block btree_redb users_index (ent_id sample_entry) = {(k, v)}"
    by (auto simp: block_def users_index_def kv bt_get_Cons split: if_splits)
  moreover have "users_heap 2 = Some (FileN (blob_encode sample_doc))" by (simp add: users_heap_def)
  ultimately show ?thesis by (simp add: synced_def all_rows_covered users_covered kv)
qed

section \<open>Properties\<close>

text \<open>An index query is exact. On an index that is in step with its table, a scan for the leading
  columns \<open>ps\<close> succeeds and returns exactly the a-nodes the pattern covers whose columns hold those
  values, each once, ordered by the index columns in their directions.\<close>

theorem index_scan_exact:
  assumes "redb_ok I" "synced C I ix H e" "length ps \<le> length (idx_columns (ent_def e))"
  shows "\<exists>ks. scan_prefix I ix (ent_id e) (encode_columns (ent_def e) ps) (idx_unique (ent_def e)) = Ok ks \<and>
    set ks = selected C H e ps \<and> distinct ks \<and>
    sorted_wrt (\<lambda>k l. \<not> tuple_less (idx_columns (ent_def e)) (column_values C H e l) (column_values C H e k)) ks"
  using assms by (rule scan_prefix_rows)

theorem index_scan_exact_witness: "scan_prefix btree_redb users_index 0 (encode_columns sample_def []) False = Ok [2]"
proof -
  have "selected calendar users_heap sample_entry [] = {2}" by (simp add: selected_def users_covered)
  then obtain ks where "scan_prefix btree_redb users_index 0 (encode_columns sample_def []) False = Ok ks" "set ks = {2}" "distinct ks"
    using index_scan_exact [OF btree_redb_ok users_synced, of "[]"] by (auto simp: sample_entry_def sample_def_def)
  then show ?thesis by (cases ks rule: remdups_adj.cases) auto
qed

text \<open>Dropping an index removes every entry with its id and leaves all other entries of the shared index table
  as they were.\<close>

theorem index_drop_exact:
  assumes "redb_ok I"
  shows "\<exists>ix'. maintenance_delete_all I e ix = (Ok (), ix') \<and> block I ix' (ent_id e) = {} \<and>
    (\<forall>n. n \<noteq> ent_id e \<longrightarrow> block I ix' n = block I ix n)"
proof -
  obtain ix' where ix': "maintenance_delete_all I e ix = (Ok (), ix')"
    "contents I ix' = (\<lambda>k. if starts_with k (id_prefix (ent_id e)) then None else contents I ix k)"
    using delete_all_rows [OF assms] by blast
  have "block I ix' n = block I ix n" if "n \<noteq> ent_id e" for n
    by (rule block_cong) (use ix'(2) starts_with_id that in auto)
  moreover have "block I ix' (ent_id e) = {}" by (simp add: block_def ix'(2))
  ultimately show ?thesis using ix'(1) by blast
qed

theorem index_drop_exact_witness:
  "\<exists>ix'. maintenance_delete_all btree_redb sample_entry users_index = (Ok (), ix') \<and> block btree_redb ix' 0 = {} \<and>
    block btree_redb ix' 1 = block btree_redb users_index 1"
  using index_drop_exact [OF btree_redb_ok, of sample_entry users_index] by (simp add: sample_entry_def) force

end
