(* ===== verification/Grab_Laws.thy ===== *)
theory Grab_Laws
  imports Cache_Laws Txn_Laws Index_Scan
begin

text \<open>
  What the read surface promises, whoever implements its primitives. The locale \<open>grab_source\<close> is the
  contract of the trait \<open>Grab\<close>: resolving a path and fetching an entry answer from one heap. Its lemmas say
  what the reads return, as functions of the file system. Write transactions, buffered or not, and
  read transactions, with whatever coherent caches, are its two interpretations.
\<close>

section \<open>Reads of a file system\<close>

fun found_kind :: "found \<Rightarrow> entry_kind" where
  "found_kind Directory = Dir"
| "found_kind (Document b) = File"

definition doc_of :: "chrono \<Rightarrow> file_system \<Rightarrow> apath \<Rightarrow> vnode option res" where
  "doc_of C F p =
     (case F p of
        None \<Rightarrow> Ok None
      | Some Directory \<Rightarrow> Err (is_a_directory p)
      | Some (Document b) \<Rightarrow> andThen (blob_decode C b) (\<lambda>v. Ok (Some v)))"

definition scalar_of_doc :: "chrono \<Rightarrow> file_system \<Rightarrow> apath \<Rightarrow> vpath \<Rightarrow> scalar option res" where
  "scalar_of_doc C F p at =
     (case F p of
        Some (Document b) \<Rightarrow> andThen (blob_decode C b) (\<lambda>v. Ok (Option.bind (subtree v at) value_leaf))
      | _ \<Rightarrow> Ok None)"

text \<open>A listing: every child once, in the order of the names, with its kind.\<close>

definition listing :: "file_system \<Rightarrow> apath \<Rightarrow> entry list \<Rightarrow> bool" where
  "listing F p es \<longleftrightarrow> sorted_wrt (<) (map ent_name es) \<and>
     (\<forall>n k. Entry n k \<in> set es \<longleftrightarrow> map_option found_kind (F (p @ [n])) = Some k)"

lemma found_kind_shown [simp]: "found_kind (shown x) = kind_of x"
  by (cases x) simp_all

lemma get_kind_enc [simp]: "get_entry_kind (enc_node x) = Ok (kind_of x)"
  by (cases x) (simp_all add: get_entry_kind_split)

section \<open>The contract\<close>

locale grab_source =
  fixes G :: "'s grab"
    and showing :: "'s \<Rightarrow> heap \<Rightarrow> bool"
  assumes resolve_law: "showing s H \<Longrightarrow> \<exists>s'. g_resolve G p s = (Ok (lookup H akey_ROOT p), s') \<and> showing s' H"
    and entry_law: "showing s H \<Longrightarrow> \<exists>s'. g_entry_blob G k s = (Ok (map_option enc_node (H k)), s') \<and> showing s' H"
    and tree_law: "showing s H \<Longrightarrow> tree H"
begin

lemma resolveE:
  assumes "showing s H"
  obtains s' where "g_resolve G p s = (Ok (lookup H akey_ROOT p), s')" "showing s' H"
  using resolve_law [OF assms] by blast

lemma entryE:
  assumes "showing s H"
  obtains s' where "g_entry_blob G k s = (Ok (map_option enc_node (H k)), s')" "showing s' H"
  using entry_law [OF assms] by blast

text \<open>The common start of the reads.\<close>

lemma with_blob_law:
  assumes "showing s H" "into_arbor_path a = Ok p"
    and "\<And>k x s'. lookup H akey_ROOT p = Some k \<Longrightarrow> H k = Some x \<Longrightarrow> showing s' H \<Longrightarrow> f p (enc_node x) s' = (g x, s')"
    and "files_at H p = None \<Longrightarrow> r = none" "\<And>x. files_at H p = Some (shown x) \<Longrightarrow> r = g x"
  shows "\<exists>s'. with_blob G a none f s = (r, s') \<and> showing s' H"
proof -
  obtain s1 where s1: "g_resolve G p s = (Ok (lookup H akey_ROOT p), s1)" "showing s1 H" by (rule resolveE [OF assms(1)])
  have start: "with_blob G a none f s = (case lookup H akey_ROOT p of None \<Rightarrow> liftOp none | Some akey \<Rightarrow>
      bindOp (g_entry_blob G akey) (\<lambda>blob. case blob of None \<Rightarrow> liftOp none | Some blob \<Rightarrow> f p blob)) s1"
    using assms(2) s1(1) by (simp add: with_blob_def)
  show ?thesis
  proof (cases "lookup H akey_ROOT p")
    case None
    then have "files_at H p = None" by (simp add: files_at_def)
    then show ?thesis using start None s1(2) assms(4) by simp
  next
    case (Some k)
    obtain s2 where s2: "g_entry_blob G k s1 = (Ok (map_option enc_node (H k)), s2)" "showing s2 H" by (rule entryE [OF s1(2)])
    have "files_at H p = map_option shown (H k)" using Some by (simp add: files_at_def)
    then show ?thesis using start Some s2 assms(3) [OF Some _ s2(2)] assms(4,5) by (cases "H k") simp_all
  qed
qed

lemma bad_path:
  assumes "into_arbor_path a = Err e"
  shows "with_blob G a none f s = (Err e, s)"
  using assms by (simp add: with_blob_def)

lemma kind_law:
  assumes "showing s H" "into_arbor_path a = Ok p"
  shows "\<exists>s'. grab_kind G a s = (Ok (map_option found_kind (files_at H p)), s') \<and> showing s' H"
  unfolding grab_kind_def
  by (rule with_blob_law [OF assms, where g = "\<lambda>x. Ok (Some (kind_of x))"]) simp_all

lemma exists_law:
  assumes "showing s H" "into_arbor_path a = Ok p"
  shows "\<exists>s'. grab_exists G a s = (Ok (files_at H p \<noteq> None), s') \<and> showing s' H"
  using kind_law [OF assms] by (auto simp: grab_exists_def)

lemma load_value_law:
  assumes "showing s H" "into_arbor_path a = Ok p"
  shows "\<exists>s'. grab_load_value C G a s = (doc_of C (files_at H) p, s') \<and> showing s' H"
  unfolding grab_load_value_def
proof (rule with_blob_law [OF assms, where g = "\<lambda>x. case x of
    DirN m \<Rightarrow> Err (is_a_directory p) | FileN b \<Rightarrow> andThen (blob_decode C b) (\<lambda>v. Ok (Some v))"], goal_cases)
  case (1 k x s')
  show ?case by (cases x) (simp_all add: bindOp_def split: res.split)
next
  case (3 x)
  then show ?case by (cases x) (simp_all add: doc_of_def)
qed (simp add: doc_of_def)

lemma get_law:
  assumes "showing s H" "into_arbor_path a = Ok p" "into_value_path v = Ok at" "docs_ok C (files_at H)"
  shows "\<exists>s'. grab_get C G a v s = (scalar_of_doc C (files_at H) p at, s') \<and> showing s' H"
proof -
  have "\<exists>s'. with_blob G a (Ok None) (\<lambda>_ blob.
       bindOp (liftOp (entry_split blob)) (\<lambda>(kind, payload).
         if kind \<noteq> File then retOp None
         else bindOp (liftOp (archived_new payload)) (\<lambda>(blob, root).
              bindOp (liftOp (node_navigate blob root at)) (\<lambda>node.
                case node of None \<Rightarrow> retOp None | Some pos \<Rightarrow> liftOp (node_scalar_if_leaf C blob pos))))) s =
      (scalar_of_doc C (files_at H) p at, s') \<and> showing s' H"
  proof (rule with_blob_law [OF assms(1,2), where g = "\<lambda>x. scalar_of_doc C (\<lambda>_. Some (shown x)) p at"], goal_cases)
    case (1 k x s')
    show ?case
    proof (cases x)
      case (FileN b)
      then have "files_at H p = Some (Document b)" using 1 by (simp add: files_at_def)
      then obtain d where d: "b = blob_encode d" "value_ok C d" "blob_fits d" using assms(4) by (auto simp: docs_ok_def)
      obtain r where r: "archived_reader_new (0 # blob_encode d) 1 = Ok r" "reads_doc C r d"
        using archived_reader_new_doc [OF d(2,3)] by blast
      have "ar_scalar_at C r at = Ok (Option.bind (subtree d at) value_leaf)" by (rule archived.scalar_law [OF r(2)])
      then have "andThen (node_navigate (blob_encode d) (word_of_nat (head 5 d)) at) (\<lambda>node.
          case node of None \<Rightarrow> Ok None | Some pos \<Rightarrow> node_scalar_if_leaf C (blob_encode d) pos) = Ok (Option.bind (subtree d at) value_leaf)"
        using r(2) by (simp add: ar_scalar_at_def reader_node_def reader_view_def payload_from_def reads_doc_def andThen_assoc cong: option.case_cong)
      then show ?thesis
        using FileN d archived_new_encode [OF d(3)] blob_decode_encode [OF d(2,3)]
        by (auto simp: scalar_of_doc_def bindOp_def split: res.splits option.splits)
    qed (simp add: scalar_of_doc_def)
  next
    case (3 x)
    then show ?case by (simp add: scalar_of_doc_def)
  qed (simp add: scalar_of_doc_def)
  then show ?thesis using assms(2,3) by (simp add: grab_get_def)
qed

lemma mapOp_law:
  assumes "showing s H" "\<And>x s. x \<in> set xs \<Longrightarrow> showing s H \<Longrightarrow> \<exists>s'. f x s = (Ok (g x), s') \<and> showing s' H"
  shows "\<exists>s'. mapOp f xs s = (Ok (map g xs), s') \<and> showing s' H"
  using assms
proof (induction xs arbitrary: s)
  case (Cons x xs)
  obtain s1 where s1: "f x s = (Ok (g x), s1)" "showing s1 H" using Cons.prems(2) [of x s] Cons.prems(1) by auto
  obtain s2 where s2: "mapOp f xs s1 = (Ok (map g xs), s2)" "showing s2 H" using Cons.IH [OF s1(2)] Cons.prems(2) by auto
  then show ?case using s1 by simp
qed simp

lemma children_listing:
  assumes "tree H" "lookup H akey_ROOT p = Some k" "H k = Some (DirN m)"
  shows "listing (files_at H) p (map (\<lambda>(n, c). Entry n (kind_of (the (H c)))) m)"
proof -
  have ok: "bt_ok m" using tree_dir_ok [OF assms(1,3)] by (simp add: dir_ok_def)
  have child: "lookup H akey_ROOT (p @ [n]) = bt_get m n" for n using assms(2,3) by (simp add: lookup_snoc child_at_def)
  have present: "H c \<noteq> None" if "bt_get m n = Some c" for n c
    using tree_child [OF assms(1), of k n c] that assms(3) by (simp add: child_at_def)
  have "Entry n e \<in> set (map (\<lambda>(n, c). Entry n (kind_of (the (H c)))) m) \<longleftrightarrow> (\<exists>c. bt_get m n = Some c \<and> e = kind_of (the (H c)))" for n e
    by (force simp: bt_get_iff [OF ok] image_iff)
  moreover have "map_option found_kind (files_at H (p @ [n])) = Some e \<longleftrightarrow> (\<exists>c. bt_get m n = Some c \<and> e = kind_of (the (H c)))" for n e
    using present by (cases "bt_get m n") (force simp: files_at_def child)+
  moreover have "map ent_name (map (\<lambda>(n, c). Entry n (kind_of (the (H c)))) m) = map fst m" by (induction m) auto
  ultimately show ?thesis using ok by (simp only: listing_def bt_ok_def simp_thms)
qed

lemma child_entry_law:
  assumes "showing s H" "H k = Some (DirN m)" "e \<in> set m"
  shows "\<exists>s'. child_entry G e s = (Ok ((\<lambda>(n, c). Entry n (kind_of (the (H c)))) e), s') \<and> showing s' H"
proof -
  obtain n c where e: "e = (n, c)" by force
  have "dir_ok m" using tree_dir_ok [OF tree_law [OF assms(1)] assms(2)] .
  then have "child_at H k n = Some c" using assms(2,3) e by (simp add: child_at_def dir_ok_def bt_get_iff)
  then obtain y where "H c = Some y" using tree_child [OF tree_law [OF assms(1)]] by blast
  then show ?thesis using entry_law [OF assms(1), of c] e by (auto simp: child_entry_def)
qed

lemma ls_law:
  assumes "showing s H" "into_arbor_path a = Ok p"
  shows "\<exists>r s'. grab_ls G a s = (r, s') \<and> showing s' H \<and>
    (case files_at H p of
       Some Directory \<Rightarrow> \<exists>es. r = Ok es \<and> listing (files_at H) p es
     | Some (Document b) \<Rightarrow> r = Err (CannotAccess (quoted (apath_display p) @ '' is a file, not a directory''))
     | None \<Rightarrow> r = (if p = [] then Ok [] else Err (ValueNotFound p)))"
proof -
  obtain s1 where s1: "g_resolve G p s = (Ok (lookup H akey_ROOT p), s1)" "showing s1 H" by (rule resolveE [OF assms(1)])
  show ?thesis
  proof (cases "lookup H akey_ROOT p")
    case None
    then have "p \<noteq> []" "files_at H p = None" by (auto simp: files_at_def)
    then show ?thesis using assms(2) s1 None by (simp add: grab_ls_def bindOp_def)
  next
    case (Some k)
    obtain s2 where s2: "g_entry_blob G k s1 = (Ok (map_option enc_node (H k)), s2)" "showing s2 H" by (rule entryE [OF s1(2)])
    have at: "files_at H p = map_option shown (H k)" using Some by (simp add: files_at_def)
    show ?thesis
    proof (cases "H k")
      case None
      then have "p = []" using lookup_present [OF tree_law [OF assms(1)] Some] by blast
      then show ?thesis using assms(2) s1 s2 Some None at by (simp add: grab_ls_def)
    next
      case (Some x)
      show ?thesis
      proof (cases x)
        case (FileN b)
        then show ?thesis using assms(2) s1 s2 \<open>lookup H akey_ROOT p = Some k\<close> Some at by (simp add: grab_ls_def bindOp_def)
      next
        case (DirN m)
        have ok: "dir_ok m" using tree_dir_ok [OF tree_law [OF assms(1)]] Some DirN by simp
        obtain s3 where s3: "mapOp (child_entry G) m s2 = (Ok (map (\<lambda>(n, c). Entry n (kind_of (the (H c)))) m), s3)" "showing s3 H"
          using mapOp_law [OF s2(2), of m "child_entry G" "\<lambda>(n, c). Entry n (kind_of (the (H c)))"] child_entry_law [of _ H k m] Some DirN by blast
        have "grab_ls G a s = mapOp (child_entry G) m s2"
          using assms(2) s1(1) s2(1) \<open>lookup H akey_ROOT p = Some k\<close> Some DirN ok
          by (simp add: grab_ls_def dir_new_encode dir_len_encode dir_entries_encode)
        then show ?thesis
          using s3 children_listing [OF tree_law [OF assms(1)] \<open>lookup H akey_ROOT p = Some k\<close>] Some DirN at by simp
      qed
    qed
  qed
qed

end

section \<open>Queries\<close>

text \<open>The order a query promises: by the index columns, in reverse if asked.\<close>

definition in_order :: "chrono \<Rightarrow> heap \<Rightarrow> index_entry \<Rightarrow> bool \<Rightarrow> akey list \<Rightarrow> bool" where
  "in_order C H e reversed ks \<longleftrightarrow>
     sorted_wrt (\<lambda>k l. \<not> tuple_less (idx_columns (ent_def e)) (column_values C H e l) (column_values C H e k))
       (if reversed then rev ks else ks)"

text \<open>The a-nodes at or under \<open>root\<close>.\<close>

definition under :: "heap \<Rightarrow> apath \<Rightarrow> akey set" where
  "under H root = {k. \<exists>q. prefix root q \<and> lookup H akey_ROOT q = Some k}"

text \<open>The document an a-node holds.\<close>

definition doc_at :: "chrono \<Rightarrow> heap \<Rightarrow> akey \<Rightarrow> vnode option" where
  "doc_at C H k =
     (case H k of Some (FileN b) \<Rightarrow> (case blob_decode C b of Ok v \<Rightarrow> Some v | _ \<Rightarrow> None) | _ \<Rightarrow> None)"

lemma matches_length: "matches segs q \<Longrightarrow> length q = length segs"
  by (simp add: matches_def list_all2_lengthD)

lemma found_under:
  assumes "tree H" "length root \<le> length (entry_segs e)"
  shows "covered H e \<inter> found_on H (entry_segs e) akey_ROOT root = covered H e \<inter> under H root"
proof -
  have "aligned q root \<longleftrightarrow> prefix root q" if "matches (entry_segs e) q" for q
    using matches_length [OF that] assms(2) prefix_length_le [of q root] by (auto simp: aligned_def prefix_def)
  then show ?thesis
    using lookup_inj [OF assms(1)] unfolding covered_def found_on_def under_def by blast
qed

lemma nothing_under:
  assumes "tree H" "length (entry_segs e) < length root"
  shows "covered H e \<inter> under H root = {}"
proof -
  have "\<not> prefix root q" if "matches (entry_segs e) q" for q
    using matches_length [OF that] assms(2) by (auto dest: prefix_length_le)
  then show ?thesis using lookup_inj [OF assms(1)] unfolding covered_def under_def by blast
qed

lemma in_order_filter: "in_order C H e False ks \<Longrightarrow> in_order C H e False (filter P ks)"
  by (simp add: in_order_def sorted_wrt_filter)

lemma in_order_rev: "in_order C H e False ks \<Longrightarrow> in_order C H e r (if r then rev ks else ks)"
  by (simp add: in_order_def)

locale indexed_source = grab_source G showing for G :: "'s grab" and showing +
  fixes C :: chrono
    and es :: "index_entry list"
  assumes lookup_law: "showing s H \<Longrightarrow>
      \<exists>s'. g_lookup_index G n s = (Ok (find (\<lambda>e. idx_name (ent_def e) = n) es), s') \<and> showing s' H"
    and scan_law: "showing s H \<Longrightarrow> e \<in> set es \<Longrightarrow> length ps \<le> length (idx_columns (ent_def e)) \<Longrightarrow>
      \<exists>ks s'. g_scan_index G e (encode_columns (ent_def e) ps) s = (Ok ks, s') \<and> showing s' H \<and>
        set ks = selected C H e ps \<and> distinct ks \<and> in_order C H e False ks"
    and under_law: "showing s H \<Longrightarrow> e \<in> set es \<Longrightarrow> root \<noteq> [] \<Longrightarrow> length root \<le> length (entry_segs e) \<Longrightarrow>
      \<exists>ks s'. g_affected_under G (entry_segs e) root s = (Ok ks, s') \<and> showing s' H \<and>
        set ks = found_on H (entry_segs e) akey_ROOT root"
    and pattern_law: "showing s H \<Longrightarrow> e \<in> set es \<Longrightarrow> pattern_ok e"
    and docs_law: "showing s H \<Longrightarrow> docs_ok C (files_at H)"
begin

lemma query_refused:
  assumes "showing s H"
  shows "find (\<lambda>e. idx_name (ent_def e) = n) es = None \<Longrightarrow> \<exists>s'. query_entities G n ps reversed root s = (Err (IndexNotFound n), s') \<and> showing s' H"
    and "find (\<lambda>e. idx_name (ent_def e) = n) es = Some e \<Longrightarrow> length (idx_columns (ent_def e)) < length ps \<Longrightarrow>
      \<exists>s'. query_entities G n ps reversed root s = (Err (IndexArity n (length (idx_columns (ent_def e))) (length ps)), s') \<and> showing s' H"
  using lookup_law [OF assms, of n] by (auto simp: query_entities_def bindOp_def Let_def)

lemma query_law:
  assumes "showing s H" "find (\<lambda>e. idx_name (ent_def e) = n) es = Some e" "length ps \<le> length (idx_columns (ent_def e))"
  shows "\<exists>r s' ks. query_entities G n ps reversed root s = (Ok r, s') \<and> showing s' H \<and> ks = (case r of None \<Rightarrow> [] | Some ks \<Rightarrow> ks) \<and>
    set ks = selected C H e ps \<inter> under H root \<and> distinct ks \<and> in_order C H e reversed ks"
proof -
  have e: "e \<in> set es" using assms(2) by (auto simp: find_Some_iff)
  have segs: "pattern_parse (idx_pattern (ent_def e)) = Ok (entry_segs e)" using pattern_law [OF assms(1) e] by (simp add: pattern_ok_def)
  obtain s1 where s1: "g_lookup_index G n s = (Ok (Some e), s1)" "showing s1 H" using lookup_law [OF assms(1), of n] assms(2) by auto
  obtain ks s2 where s2: "g_scan_index G e (encode_columns (ent_def e) ps) s1 = (Ok ks, s2)" "showing s2 H"
    "set ks = selected C H e ps" "distinct ks" "in_order C H e False ks" using scan_law [OF s1(2) e assms(3)] by blast
  have sel: "selected C H e ps \<subseteq> covered H e" by (auto simp: selected_def)
  note tree = tree_law [OF assms(1)]
  consider (all) "root = []" | (deep) "root \<noteq> []" "length (entry_segs e) < length root" | (scoped) "root \<noteq> []" "length root \<le> length (entry_segs e)"
    by linarith
  then show ?thesis
  proof cases
    case all
    have "selected C H e ps \<subseteq> under H root" using sel all by (auto simp: covered_def under_def)
    moreover have "query_entities G n ps reversed root s = (Ok (Some (if reversed then rev ks else ks)), s2)"
      using s1 s2 assms(3) all by (simp add: query_entities_def Let_def)
    ultimately show ?thesis using s2 in_order_rev [OF s2(5), of reversed] by (auto simp: inf_absorb1)
  next
    case deep
    have "query_entities G n ps reversed root s = (Ok None, s2)"
      using s1 s2 assms(3) deep segs by (simp add: query_entities_def Let_def pattern_depth_def)
    then show ?thesis using s2(2) nothing_under [OF tree deep(2)] sel by (auto simp: in_order_def)
  next
    case scoped
    obtain us s3 where s3: "g_affected_under G (entry_segs e) root s2 = (Ok us, s3)" "showing s3 H" "set us = found_on H (entry_segs e) akey_ROOT root"
      using under_law [OF s2(2) e scoped] by blast
    define hits where "hits = filter (\<lambda>k. k \<in> set us) ks"
    have "query_entities G n ps reversed root s = (Ok (Some (if reversed then rev hits else hits)), s3)"
      using s1 s2 s3 assms(3) scoped segs by (simp add: query_entities_def Let_def pattern_depth_def hits_def)
    moreover have "set hits = selected C H e ps \<inter> under H root"
      using found_under [OF tree scoped(2)] sel s2(3) s3(3) by (auto simp: hits_def)
    moreover have "distinct hits" using s2(4) by (simp add: hits_def)
    moreover have "in_order C H e reversed (if reversed then rev hits else hits)"
      unfolding hits_def by (rule in_order_rev [OF in_order_filter [OF s2(5)]])
    ultimately show ?thesis using s3(2) by auto
  qed
qed

lemma load_entity_law:
  assumes "showing s H" "lookup H akey_ROOT q = Some k" "\<And>r v. reads_doc C r v \<Longrightarrow> recompose r = Ok (f v)"
  shows "\<exists>s'. load_entity G recompose k s = (Ok (map_option f (doc_at C H k)), s') \<and> showing s' H"
proof -
  obtain s1 where s1: "g_entry_blob G k s = (Ok (map_option enc_node (H k)), s1)" "showing s1 H" by (rule entryE [OF assms(1)])
  show ?thesis
  proof (cases "\<exists>b. H k = Some (FileN b)")
    case True
    then obtain b where b: "H k = Some (FileN b)" by blast
    then obtain d where d: "b = blob_encode d" "value_ok C d" "blob_fits d"
      using docs_law [OF assms(1)] files_at_lookup_eq [OF assms(2)] by (auto simp: docs_ok_def)
    obtain r where "archived_reader_new (file_entry b) 1 = Ok r" "reads_doc C r d"
      using archived_reader_new_doc [OF d(2,3)] by (auto simp: file_entry_def d(1))
    then show ?thesis
      using s1 b assms(3) blob_decode_encode [OF d(2,3)] get_kind_enc [of "FileN b"] by (simp add: load_entity_def doc_at_def d(1))
  next
    case False
    then show ?thesis using s1 by (cases "H k"; cases "the (H k)") (auto simp: load_entity_def doc_at_def get_entry_kind_split)
  qed
qed

lemma execute_law:
  assumes "showing s H" "find (\<lambda>e. idx_name (ent_def e) = n) es = Some e" "length ps \<le> length (idx_columns (ent_def e))"
    and "\<And>r v. reads_doc C r v \<Longrightarrow> recompose r = Ok (f v)"
  shows "\<exists>ks s'. execute_query G recompose n ps reversed root s = (Ok (map f (List.map_filter (doc_at C H) ks)), s') \<and> showing s' H \<and>
    set ks = selected C H e ps \<inter> under H root \<and> distinct ks \<and> in_order C H e reversed ks"
proof -
  obtain r s1 ks where s1: "query_entities G n ps reversed root s = (Ok r, s1)" "showing s1 H" "ks = (case r of None \<Rightarrow> [] | Some ks \<Rightarrow> ks)"
    and ks: "set ks = selected C H e ps \<inter> under H root" "distinct ks" "in_order C H e reversed ks"
    using query_law [OF assms(1-3)] by blast
  have one: "\<exists>s'. load_entity G recompose k s = (Ok (map_option f (doc_at C H k)), s') \<and> showing s' H" if "k \<in> set ks" "showing s H" for k s
    using load_entity_law [OF that(2) _ assms(4)] that(1) ks(1) by (auto simp: under_def)
  obtain s2 where "mapOp (load_entity G recompose) ks s1 = (Ok (map (\<lambda>k. map_option f (doc_at C H k)) ks), s2)" "showing s2 H"
    using mapOp_law [OF s1(2), of ks "load_entity G recompose" "\<lambda>k. map_option f (doc_at C H k)"] one by blast
  moreover have "List.map_filter (\<lambda>v. v) (map (\<lambda>k. map_option f (doc_at C H k)) ks) = map f (List.map_filter (doc_at C H) ks)"
    by (induction ks) (auto simp: List.map_filter_def)
  ultimately show ?thesis
    using s1 ks by (cases r) (auto simp: execute_query_def List.map_filter_def)
qed

end

section \<open>Write transactions keep the contract\<close>

lemma resolve_buffered_sees: "sees R c H \<Longrightarrow> resolve_buffered R c p = Ok (lookup H akey_ROOT p)"
proof -
  assume s: "sees R c H"
  have child: "child_of R (ctx_data c) k n = Ok (child_at H k n)" if "map_of (dirs (ctx_buf c)) k = None" for k n
  proof (cases "map_of (files (ctx_buf c)) k")
    case None
    then have "contents R (ctx_data c) k = map_option enc_node (H k)" using that sees_view [OF s, of k] by (simp add: view_def)
    then show ?thesis
      by (cases "H k"; cases "the (H k)") (auto simp: child_of_def redb_get [OF ctx_ok_redb [OF sees_ok [OF s]]] child_at_def entry_child_file
          entry_child_dir sees_dir_ok [OF s])
  next
    case (Some e)
    obtain b where b: "contents R (ctx_data c) k = Some (file_entry b)"
      using sees_ok [OF s] map_of_SomeD [OF Some] by (force simp: ctx_ok_def)
    obtain b' where "e = file_entry b'" using buffered_file [OF sees_ok [OF s] Some] by blast
    then have "child_at H k n = None"
      using that Some sees_view [OF s, of k] by (auto simp: view_def child_at_def split: option.splits fnode.splits)
    then show ?thesis using b by (simp add: child_of_def redb_get [OF ctx_ok_redb [OF sees_ok [OF s]]] entry_child_file)
  qed
  have dir: "child_at H k n = bt_get m n" if "map_of (dirs (ctx_buf c)) k = Some m" for k n m
  proof -
    have "ctx_child R c k n = Ok (bt_get m n)"
      using that by (simp add: ctx_child_def buffered_dir_eq [OF sees_ok [OF s]])
    then show ?thesis using sees_child [OF s, of k n] by simp
  qed
  have "resolve_buffered_from R c k p = Ok (lookup H k p)" for k
  proof (induction p arbitrary: k)
    case (Cons n p)
    then show ?case
      using child dir buffered_dir_eq [OF sees_ok [OF s], of k] unfolding buffered_dir_def
      by (cases "map_of (dirs (ctx_buf c)) k") (auto split: option.split)
  qed simp
  then show ?thesis by (simp add: resolve_buffered_def)
qed

lemma write_entry_blob_sees: "sees (env_data E) (tx_ctx s) H \<Longrightarrow> write_entry_blob E s k = Ok (map_option enc_node (H k))"
proof -
  assume s: "sees (env_data E) (tx_ctx s) H"
  have "write_entry_blob E s k = Ok (view (env_data E) (tx_ctx s) k)"
    using buffered_dir_eq [OF sees_ok [OF s], of k] file_get_eq [OF sees_ok [OF s], of k] redb_get [OF ctx_ok_redb [OF sees_ok [OF s]]]
    unfolding buffered_dir_def
    by (auto simp: write_entry_blob_def Let_def view_def read_entry_def split: option.split)
  then show ?thesis by (simp add: sees_view [OF s])
qed

interpretation writer: grab_source "write_grab E" "\<lambda>s H. sees (env_data E) (tx_ctx s) H \<and> tree H" for E
  by unfold_locales (simp_all add: write_grab_def resolve_buffered_sees write_entry_blob_sees)

text \<open>A write transaction over an indexed table does not buffer.\<close>

definition indexed_writer :: "('t, 'i, 'm) env \<Rightarrow> index_entry list \<Rightarrow> ('t, 'i, 'm) write_txn \<Rightarrow> heap \<Rightarrow> bool" where
  "indexed_writer E es s H \<longleftrightarrow> txn_inv E s H es \<and> \<not> buffering (ctx_buf (tx_ctx s))"

lemma find_filter: "find P (filter Q xs) = find (\<lambda>x. Q x \<and> P x) xs"
  by (induction xs) auto

lemma lookup_for_table:
  assumes "registry_for_table M meta table = Ok es"
  shows "registry_lookup M meta table n = Ok (find (\<lambda>e. idx_name (ent_def e) = n) es)"
  using assms by (auto simp: registry_for_table_def registry_lookup_def find_filter entry_is_def [abs_def])

lemma scan_in_step:
  assumes "redb_ok I" "synced C I ix H e" "length ps \<le> length (idx_columns (ent_def e))"
  shows "\<exists>ks. scan_prefix I ix (ent_id e) (encode_columns (ent_def e) ps) (idx_unique (ent_def e)) = Ok ks \<and>
    set ks = selected C H e ps \<and> distinct ks \<and> in_order C H e False ks"
  using scan_prefix_rows [OF assms] by (simp add: in_order_def)

interpretation writer_queries: indexed_source "write_grab E" "indexed_writer E es" "env_chrono E" es for E es
proof
  fix s H assume w: "indexed_writer E es s H"
  then have inv: "txn_inv E s H es" by (simp add: indexed_writer_def)
  note D = txn_invD [OF inv]
  have data: "holds_heap (env_data E) (ctx_data (tx_ctx s)) H"
    using holds_unbuffered [OF D(1,2)] w by (simp add: indexed_writer_def)
  show "tree H" "docs_ok (env_chrono E) (files_at H)" by (fact D(2), fact D(3))
  show "\<exists>s'. g_resolve (write_grab E) p s = (Ok (lookup H akey_ROOT p), s') \<and> indexed_writer E es s' H" for p
    using w resolve_buffered_sees [OF D(1)] by (simp add: write_grab_def)
  show "\<exists>s'. g_entry_blob (write_grab E) k s = (Ok (map_option enc_node (H k)), s') \<and> indexed_writer E es s' H" for k
    using w write_entry_blob_sees [OF D(1)] by (simp add: write_grab_def)
  show "\<exists>s'. g_lookup_index (write_grab E) n s = (Ok (find (\<lambda>e. idx_name (ent_def e) = n) es), s') \<and> indexed_writer E es s' H" for n
    using w lookup_for_table D(5) by (auto simp: write_grab_def txn_indexes_def)
  fix e assume e: "e \<in> set es"
  show "pattern_ok e" using D(8) [OF e] .
  show "\<exists>ks s'. g_scan_index (write_grab E) e (encode_columns (ent_def e) ps) s = (Ok ks, s') \<and> indexed_writer E es s' H \<and>
      set ks = selected (env_chrono E) H e ps \<and> distinct ks \<and> in_order (env_chrono E) H e False ks"
    if "length ps \<le> length (idx_columns (ent_def e))" for ps
    using w scan_in_step [OF D(4) D(9) [OF e] that] by (simp add: write_grab_def)
  show "\<exists>ks s'. g_affected_under (write_grab E) (entry_segs e) root s = (Ok ks, s') \<and> indexed_writer E es s' H \<and>
      set ks = found_on H (entry_segs e) akey_ROOT root" for root
    using w pattern_walk_holds [OF data] by (simp add: write_grab_def affected_entities_def)
qed

section \<open>Read transactions keep the contract\<close>

definition shows_heap :: "('t, 'i, 'm) env \<Rightarrow> ('p, 'b) cache_ops \<Rightarrow> (u64 \<Rightarrow> akey \<Rightarrow> bytes option) \<Rightarrow>
    ('t, 'i, 'm, 'p, 'b) read_txn \<Rightarrow> heap \<Rightarrow> bool" where
  "shows_heap E L hist s H \<longleftrightarrow> reading E L hist s \<and> tree H \<and> (\<forall>k. snapshot E s k = map_option enc_node (H k))"

lemma raw_walk_heap:
  assumes "tree H" "\<And>k. m k = map_option enc_node (H k)"
  shows "raw_walk m k p = Ok (lookup H k p)"
proof (induction p arbitrary: k)
  case (Cons n p)
  then show ?case
    using tree_dir_ok [OF assms(1), of k]
    by (cases "H k"; cases "the (H k)") (auto simp: assms(2) child_at_def entry_child_dir entry_child_file split: option.split)
qed simp

lemma answers_shows:
  assumes "answers L hist f s r" "shows_heap E L hist s H"
  shows "\<exists>s'. f s = (r, s') \<and> shows_heap E L hist s' H \<and> (\<exists>pc. s' = s\<lparr>rt_cache := pc\<rparr>)"
  using assms by (auto simp: shows_heap_def elim!: answersE)

lemma read_resolve_shows: "shows_heap E L hist s H \<Longrightarrow> answers L hist (read_resolve E L p) s (Ok (lookup H akey_ROOT p))"
  using read_resolve_answers [of E L hist s p] raw_walk_heap [of H "snapshot E s"] by (simp add: shows_heap_def)

lemma read_entry_shows: "shows_heap E L hist s H \<Longrightarrow> answers L hist (read_entry_blob E L k) s (Ok (map_option enc_node (H k)))"
  using read_entry_blob_answers [of E L hist s k] by (simp add: shows_heap_def)

lemma read_grab_simps [simp]: "g_resolve (read_grab E L) = read_resolve E L" "g_entry_blob (read_grab E L) = read_entry_blob E L"
  by (simp_all add: read_grab_def)

interpretation snapshots: grab_source "read_grab E L" "shows_heap E L hist" for E L hist
proof
  fix s H assume sh: "shows_heap E L hist s H"
  show "tree H" using sh by (simp add: shows_heap_def)
  show "\<exists>s'. g_resolve (read_grab E L) p s = (Ok (lookup H akey_ROOT p), s') \<and> shows_heap E L hist s' H" for p
    using answers_shows [OF read_resolve_shows [OF sh] sh] by auto
  show "\<exists>s'. g_entry_blob (read_grab E L) k s = (Ok (map_option enc_node (H k)), s') \<and> shows_heap E L hist s' H" for k
    using answers_shows [OF read_entry_shows [OF sh] sh] by auto
qed

text \<open>A snapshot whose indexes are in step; an index table that does not exist has no rows.\<close>

definition indexed_reader :: "('t, 'i, 'm) env \<Rightarrow> ('p, 'b) cache_ops \<Rightarrow> (u64 \<Rightarrow> akey \<Rightarrow> bytes option) \<Rightarrow> index_entry list \<Rightarrow>
    ('t, 'i, 'm, 'p, 'b) read_txn \<Rightarrow> heap \<Rightarrow> bool" where
  "indexed_reader E L hist es s H \<longleftrightarrow> shows_heap E L hist s H \<and> docs_ok (env_chrono E) (files_at H) \<and> redb_ok (env_index E) \<and>
     registry_for_table (env_meta E) (rt_meta s) (rt_table s) = Ok es \<and>
     (\<forall>e \<in> set es. pattern_ok e \<and>
       (case rt_index s of Some ix \<Rightarrow> synced (env_chrono E) (env_index E) ix H e | None \<Rightarrow> covered H e = {}))"

lemma indexed_reader_cache:
  "indexed_reader E L hist es s H \<Longrightarrow> shows_heap E L hist (s\<lparr>rt_cache := pc\<rparr>) H \<Longrightarrow> indexed_reader E L hist es (s\<lparr>rt_cache := pc\<rparr>) H"
  by (simp add: indexed_reader_def)

lemma indexed_reader_answers:
  assumes "indexed_reader E L hist es s H" "answers L hist f s r"
  shows "\<exists>s'. f s = (r, s') \<and> indexed_reader E L hist es s' H"
  using answers_shows [OF assms(2), of E H] assms(1) indexed_reader_cache [OF assms(1)] by (auto simp: indexed_reader_def)

interpretation snapshot_queries: indexed_source "read_grab E L" "indexed_reader E L hist es" "env_chrono E" es for E L hist es
proof
  fix s H assume r: "indexed_reader E L hist es s H"
  then have sh: "shows_heap E L hist s H" by (simp add: indexed_reader_def)
  show "tree H" "docs_ok (env_chrono E) (files_at H)" using r by (simp_all add: indexed_reader_def shows_heap_def)
  show "\<exists>s'. g_resolve (read_grab E L) p s = (Ok (lookup H akey_ROOT p), s') \<and> indexed_reader E L hist es s' H" for p
    using indexed_reader_answers [OF r read_resolve_shows [OF sh]] by simp
  show "\<exists>s'. g_entry_blob (read_grab E L) k s = (Ok (map_option enc_node (H k)), s') \<and> indexed_reader E L hist es s' H" for k
    using indexed_reader_answers [OF r read_entry_shows [OF sh]] by simp
  show "\<exists>s'. g_lookup_index (read_grab E L) n s = (Ok (find (\<lambda>e. idx_name (ent_def e) = n) es), s') \<and> indexed_reader E L hist es s' H" for n
    using r lookup_for_table by (auto simp: read_grab_def indexed_reader_def)
  fix e assume e: "e \<in> set es"
  show "pattern_ok e" using r e by (simp add: indexed_reader_def)
  show "\<exists>ks s'. g_scan_index (read_grab E L) e (encode_columns (ent_def e) ps) s = (Ok ks, s') \<and> indexed_reader E L hist es s' H \<and>
      set ks = selected (env_chrono E) H e ps \<and> distinct ks \<and> in_order (env_chrono E) H e False ks"
    if "length ps \<le> length (idx_columns (ent_def e))" for ps
  proof (cases "rt_index s")
    case None
    then have "covered H e = {}" using r e by (auto simp: indexed_reader_def)
    then show ?thesis using None r by (simp add: read_grab_def selected_def in_order_def)
  next
    case (Some ix)
    have "redb_ok (env_index E)" "synced (env_chrono E) (env_index E) ix H e" using r e Some by (auto simp: indexed_reader_def)
    from scan_in_step [OF this that] show ?thesis using Some r by (simp add: read_grab_def)
  qed
  show "\<exists>ks s'. g_affected_under (read_grab E L) (entry_segs e) root s = (Ok ks, s') \<and> indexed_reader E L hist es s' H \<and>
      set ks = found_on H (entry_segs e) akey_ROOT root"
    if "root \<noteq> []" "length root \<le> length (entry_segs e)" for root
  proof (cases "rt_data s")
    case None
    then have "H k = None" for k using sh by (simp add: shows_heap_def snapshot_def)
    then have "child_at H k n = None" for k n by (simp add: child_at_def)
    then have "found_on H (entry_segs e) akey_ROOT root = {}" using that by (cases "entry_segs e") (auto simp: found_on_Cons)
    then show ?thesis using None r by (simp add: read_grab_def)
  next
    case (Some t)
    have "holds_heap (env_data E) t H" using sh Some by (simp add: shows_heap_def snapshot_def holds_heap_def reading_def)
    from pattern_walk_holds [OF this] show ?thesis using Some r by (simp add: read_grab_def affected_entities_def)
  qed
qed

end
