(* ===== verification/Database.thy ===== *)
theory Database
  imports Read_Txn
begin

text \<open>
  The database handle, the shared state behind it and the table handle
  (\<open>db/database.rs\<close>, \<open>db/inner.rs\<close>, \<open>table.rs\<close>), in the default build: opening, starting and committing
  transactions, and the index administration. \<open>store\<close> is what the storage engine has committed: the
  data tables by name, the shared index table and the metadata table. A snapshot is a copy of it, and an
  engine transaction that is dropped without a commit leaves it alone. A write transaction that
  opens a table the engine does not have starts from an empty one, which the record \<open>blank\<close> supplies.

  The functions of this theory run to their end without interruption; \<open>Concurrency\<close> splits them where other threads can
  act in between.
\<close>

section \<open>State\<close>

record ('t, 'i, 'm) store =
  st_data :: "string \<Rightarrow> 't option"
  st_index :: "'i option"
  st_meta :: 'm

record ('t, 'i) blank =
  blank_data :: 't
  blank_index :: 'i

record ('t, 'i, 'm, 'p, 'b) db_inner =
  db_store :: "('t, 'i, 'm) store"
  db_generation :: u64
  db_caches :: "string \<Rightarrow> ('p, 'b) path_cache option"
  db_has_indexes :: bool

definition data_or_blank :: "('t, 'i) blank \<Rightarrow> ('t, 'i, 'm) store \<Rightarrow> string \<Rightarrow> 't" where
  "data_or_blank B st name = (case st_data st name of Some t \<Rightarrow> t | None \<Rightarrow> blank_data B)"

definition index_or_blank :: "('t, 'i) blank \<Rightarrow> ('t, 'i, 'm) store \<Rightarrow> 'i" where
  "index_or_blank B st = (case st_index st of Some i \<Rightarrow> i | None \<Rightarrow> blank_index B)"

section \<open>The shared state\<close>

definition db_inner_new :: "('t, 'i, 'm) store \<Rightarrow> bool \<Rightarrow> ('t, 'i, 'm, 'p, 'b) db_inner" where
  "db_inner_new st has_indexes =
     \<lparr>db_store = st, db_generation = 0, db_caches = Map.empty, db_has_indexes = has_indexes\<rparr>"

definition bump_generation :: "('t, 'i, 'm, 'p, 'b) db_inner \<Rightarrow> ('t, 'i, 'm, 'p, 'b) db_inner" where
  "bump_generation d = d\<lparr>db_generation := db_generation d + 1\<rparr>"

definition mark_has_index :: "('t, 'i, 'm, 'p, 'b) db_inner \<Rightarrow> ('t, 'i, 'm, 'p, 'b) db_inner" where
  "mark_has_index d = d\<lparr>db_has_indexes := True\<rparr>"

text \<open>The cache of a table, created on first use.\<close>

definition inner_cache :: "('p, 'b) cache_ops \<Rightarrow> string \<Rightarrow> ('t, 'i, 'm, 'p, 'b) db_inner \<Rightarrow>
    ('p, 'b) path_cache \<times> ('t, 'i, 'm, 'p, 'b) db_inner" where
  "inner_cache L name d =
     (case db_caches d name of
        Some pc \<Rightarrow> (pc, d)
      | None \<Rightarrow> (path_cache_new L, d\<lparr>db_caches := (db_caches d)(name \<mapsto> path_cache_new L)\<rparr>))"

section \<open>Opening\<close>

definition db_wrap :: "build \<Rightarrow> ('t, 'i, 'm) env \<Rightarrow> ('t, 'i, 'm) store \<Rightarrow> ('t, 'i, 'm, 'p, 'b) db_inner res" where
  "db_wrap F E st =
     andThen (bootstrap_metadata F (env_meta E) (st_meta st)) (\<lambda>meta.
     andThen (registry_any (env_meta E) meta) (\<lambda>has_indexes.
       Ok (db_inner_new (st\<lparr>st_meta := meta\<rparr>) has_indexes)))"

text \<open>A table handle is its name; the handle's cache is the one of that name.\<close>

definition open_table :: "('p, 'b) cache_ops \<Rightarrow> string \<Rightarrow> (('t, 'i, 'm, 'p, 'b) db_inner, string) op" where
  "open_table L name d =
     (if name = [] then (Err (InvalidTableName ''a table name cannot be empty''), d)
      else if is_reserved_table_name name
      then (Err (InvalidTableName (quoted name @ '' is reserved (a table name cannot start with '' @ quoted ''$'' @ '')'')), d)
      else (Ok name, snd (inner_cache L name d)))"

text \<open>The names the engine lists, without its own tables.\<close>

definition list_tables :: "string list \<Rightarrow> string list" where
  "list_tables names = sort (filter (\<lambda>name. \<not> is_reserved_table_name name) names)"

section \<open>Starting and committing transactions\<close>

definition read_txn_new :: "('t, 'i, 'm) store \<Rightarrow> string \<Rightarrow> ('p, 'b) path_cache \<Rightarrow> u64 \<Rightarrow> ('t, 'i, 'm, 'p, 'b) read_txn" where
  "read_txn_new st name cache generation =
     \<lparr>rt_data = st_data st name, rt_index = st_index st, rt_meta = st_meta st, rt_table = name, rt_cache = cache,
      rt_generation = generation\<rparr>"

definition table_read :: "('p, 'b) cache_ops \<Rightarrow> string \<Rightarrow> ('t, 'i, 'm, 'p, 'b) db_inner \<Rightarrow> ('t, 'i, 'm, 'p, 'b) read_txn" where
  "table_read L name d = read_txn_new (db_store d) name (fst (inner_cache L name d)) (db_generation d)"

definition table_write :: "('t, 'i) blank \<Rightarrow> string \<Rightarrow> u64 \<Rightarrow> ('t, 'i, 'm, 'p, 'b) db_inner \<Rightarrow> ('t, 'i, 'm) write_txn" where
  "table_write B name rng d =
     write_txn_new (data_or_blank B (db_store d) name) (index_or_blank B (db_store d)) (st_meta (db_store d)) name
       (db_has_indexes d) rng"

text \<open>What an engine commit makes of the tables of a write transaction. The index table is published in any case: the engine creates it only when it is opened, but a table that was never
  opened reads as an empty one.\<close>

definition publish :: "('t, 'i, 'm) write_txn \<Rightarrow> ('t, 'i, 'm) store \<Rightarrow> ('t, 'i, 'm) store" where
  "publish tx st = \<lparr>st_data = (st_data st)(tx_table tx \<mapsto> ctx_data (tx_ctx tx)), st_index = Some (tx_index tx), st_meta = tx_meta tx\<rparr>"

definition commit :: "('t, 'i, 'm) env \<Rightarrow> ('t, 'i, 'm) write_txn \<Rightarrow> (('t, 'i, 'm, 'p, 'b) db_inner, unit) op" where
  "commit E tx d =
     (case commit_flush E tx of
        (Ok _, tx) \<Rightarrow> (Ok (), bump_generation (d\<lparr>db_store := publish tx (db_store d)\<rparr>))
      | (Err e, _) \<Rightarrow> (Err e, d)
      | (Panic m, _) \<Rightarrow> (Panic m, d)
      | (Diverge, _) \<Rightarrow> (Diverge, d))"

section \<open>Index administration\<close>

definition backfill :: "('t, 'i, 'm) env \<Rightarrow> ('t, 'i) blank \<Rightarrow> string \<Rightarrow> index_entry option \<Rightarrow> ('t, 'i, 'm) store \<Rightarrow> ('t, 'i, 'm) store res" where
  "backfill E B name entry st =
     (case entry of
        None \<Rightarrow> Ok st
      | Some entry \<Rightarrow>
          let data = data_or_blank B st name;
              (r, index) = maintenance_insert (env_chrono E) (env_data E) (env_index E) data [entry] apath_root (index_or_blank B st)
          in andThen r (\<lambda>_. Ok (st\<lparr>st_data := (st_data st)(name \<mapsto> data), st_index := Some index\<rparr>)))"

text \<open>The engine transactions of \<open>create_index\<close>, \<open>ensure_index\<close> and \<open>delete_index\<close>, from \<open>begin_write\<close> to \<open>commit\<close>.\<close>

definition create_index_txn :: "('t, 'i, 'm) env \<Rightarrow> ('t, 'i) blank \<Rightarrow> string \<Rightarrow> index_def \<Rightarrow> ('t, 'i, 'm) store \<Rightarrow> ('t, 'i, 'm) store res" where
  "create_index_txn E B name d st =
     andThen (registry_create (env_meta E) (st_meta st) name d) (\<lambda>(created, meta).
     andThen (if created then registry_lookup (env_meta E) meta name (idx_name d) else Ok None) (\<lambda>entry.
       backfill E B name entry (st\<lparr>st_meta := meta\<rparr>)))"

definition ensure_index_txn :: "('t, 'i, 'm) env \<Rightarrow> ('t, 'i) blank \<Rightarrow> string \<Rightarrow> index_def \<Rightarrow> ('t, 'i, 'm) store \<Rightarrow> ('t, 'i, 'm) store res" where
  "ensure_index_txn E B name d st =
     andThen (registry_has (env_meta E) (st_meta st) name (idx_name d)) (\<lambda>present.
     andThen
       (if present then Ok (None, st_meta st)
        else andThen (registry_create (env_meta E) (st_meta st) name d) (\<lambda>(_, meta).
             andThen (registry_lookup (env_meta E) meta name (idx_name d)) (\<lambda>entry. Ok (entry, meta))))
       (\<lambda>(entry, meta). backfill E B name entry (st\<lparr>st_meta := meta\<rparr>)))"

definition delete_index_txn :: "('t, 'i, 'm) env \<Rightarrow> ('t, 'i) blank \<Rightarrow> string \<Rightarrow> string \<Rightarrow> ('t, 'i, 'm) store \<Rightarrow> (bool \<times> ('t, 'i, 'm) store) res" where
  "delete_index_txn E B name index st =
     andThen (registry_delete (env_meta E) (st_meta st) name index) (\<lambda>(removed, meta).
       case removed of
         None \<Rightarrow> Ok (False, st\<lparr>st_meta := meta\<rparr>)
       | Some entry \<Rightarrow>
           let (r, ix) = maintenance_delete_all (env_index E) entry (index_or_blank B st)
           in andThen r (\<lambda>_. Ok (True, st\<lparr>st_meta := meta, st_index := Some ix\<rparr>)))"

definition create_index :: "('t, 'i, 'm) env \<Rightarrow> ('t, 'i) blank \<Rightarrow> string \<Rightarrow> index_def \<Rightarrow> (('t, 'i, 'm, 'p, 'b) db_inner, unit) op" where
  "create_index E B name def =
     bindOp (readOp (\<lambda>d. create_index_txn E B name def (db_store d)))
       (\<lambda>st d. (Ok (), mark_has_index (d\<lparr>db_store := st\<rparr>)))"

definition ensure_index :: "('t, 'i, 'm) env \<Rightarrow> ('t, 'i) blank \<Rightarrow> string \<Rightarrow> index_def \<Rightarrow> (('t, 'i, 'm, 'p, 'b) db_inner, unit) op" where
  "ensure_index E B name def =
     bindOp (readOp (\<lambda>d. ensure_index_txn E B name def (db_store d)))
       (\<lambda>st d. (Ok (), mark_has_index (d\<lparr>db_store := st\<rparr>)))"

definition delete_index :: "('t, 'i, 'm) env \<Rightarrow> ('t, 'i) blank \<Rightarrow> string \<Rightarrow> string \<Rightarrow> (('t, 'i, 'm, 'p, 'b) db_inner, bool) op" where
  "delete_index E B name index =
     bindOp (readOp (\<lambda>d. delete_index_txn E B name index (db_store d)))
       (\<lambda>(found, st) d. (Ok found, d\<lparr>db_store := st\<rparr>))"

text \<open>The shorthands over the definitions \<open>T::index_defs\<close> gives.\<close>

definition create_indexes :: "('t, 'i, 'm) env \<Rightarrow> ('t, 'i) blank \<Rightarrow> string \<Rightarrow> index_def list \<Rightarrow> (('t, 'i, 'm, 'p, 'b) db_inner, unit) op" where
  "create_indexes E B name defs = forOp defs (create_index E B name)"

definition ensure_indexes :: "('t, 'i, 'm) env \<Rightarrow> ('t, 'i) blank \<Rightarrow> string \<Rightarrow> index_def list \<Rightarrow> (('t, 'i, 'm, 'p, 'b) db_inner, unit) op" where
  "ensure_indexes E B name defs = forOp defs (ensure_index E B name)"

definition delete_indexes :: "('t, 'i, 'm) env \<Rightarrow> ('t, 'i) blank \<Rightarrow> string \<Rightarrow> index_def list \<Rightarrow> (('t, 'i, 'm, 'p, 'b) db_inner, nat) op" where
  "delete_indexes E B name defs =
     bindOp (mapOp (\<lambda>def. delete_index E B name (idx_name def)) defs) (\<lambda>found. retOp (length (filter (\<lambda>x. x) found)))"

definition table_index_def :: "('t, 'i, 'm) env \<Rightarrow> string \<Rightarrow> string \<Rightarrow> ('t, 'i, 'm, 'p, 'b) db_inner \<Rightarrow> index_def option res" where
  "table_index_def E name index d =
     andThen (registry_lookup (env_meta E) (st_meta (db_store d)) name index) (\<lambda>entry. Ok (map_option ent_def entry))"

definition table_has_index :: "('t, 'i, 'm) env \<Rightarrow> string \<Rightarrow> string \<Rightarrow> ('t, 'i, 'm, 'p, 'b) db_inner \<Rightarrow> bool res" where
  "table_has_index E name index d = registry_has (env_meta E) (st_meta (db_store d)) name index"

end
