(* ===== verification/Concurrency.thy ===== *)
theory Concurrency
  imports Database Cache_Laws
begin

text \<open>
  Threads sharing a database. The functions of \<open>Database\<close> are split where the code releases a lock or reads an atomic, and
  the steps of any number of threads interleave. A thread's state says where in the code it is and which
  guards it holds; the version lock is a reader-writer lock, so it is free for a reader when no thread holds
  it for writing, and for a writer when no thread holds it at all. The engine admits one write
  transaction at a time. The reads of a transaction interleave at the primitives of \<open>Grab\<close>; a primitive
  acts on the cache of its table atomically.

  The invariant relates the shared caches to a history of table versions, one per generation.
\<close>

section \<open>Threads\<close>

datatype ('t, 'i, 'm) thread =
    Idle
  | Guarded string                                    \<comment> \<open>\<open>Table::read\<close>, version lock held for reading\<close>
  | Snapped string "('t, 'i, 'm) store"               \<comment> \<open>the same, snapshot taken\<close>
  | Tagged string "('t, 'i, 'm) store" u64            \<comment> \<open>the same, generation loaded\<close>
  | Reading string "('t, 'i, 'm) store" u64           \<comment> \<open>a read transaction\<close>
  | Writing "('t, 'i, 'm) write_txn"                  \<comment> \<open>a write transaction\<close>
  | Sealed "('t, 'i, 'm) write_txn"                   \<comment> \<open>\<open>commit\<close>, buffer flushed\<close>
  | Locked "('t, 'i, 'm) write_txn"                   \<comment> \<open>the same, version lock held for writing\<close>
  | Published                                         \<comment> \<open>the same, engine committed\<close>
  | Bumped                                            \<comment> \<open>the same, generation bumped\<close>
  | Created                                           \<comment> \<open>\<open>create_index\<close>, engine committed\<close>

fun read_guard :: "('t, 'i, 'm) thread \<Rightarrow> bool" where
  "read_guard (Guarded n) = True"
| "read_guard (Snapped n st) = True"
| "read_guard (Tagged n st g) = True"
| "read_guard _ = False"

fun write_guard :: "('t, 'i, 'm) thread \<Rightarrow> bool" where
  "write_guard (Locked tx) = True"
| "write_guard Published = True"
| "write_guard Bumped = True"
| "write_guard _ = False"

fun engine_writer :: "('t, 'i, 'm) thread \<Rightarrow> bool" where
  "engine_writer (Writing tx) = True"
| "engine_writer (Sealed tx) = True"
| "engine_writer (Locked tx) = True"
| "engine_writer _ = False"

text \<open>The calls a thread can make on a write transaction.\<close>

datatype action =
    Do_store arbor_arg vnode
  | Do_mkdir arbor_arg
  | Do_rm arbor_arg
  | Do_mv arbor_arg arbor_arg
  | Do_cp arbor_arg arbor_arg
  | Do_put_scalar mut_cursor vpath scalar
  | Do_ensure_container mut_cursor vpath bool
  | Do_remove mut_cursor vpath

definition forget_result :: "('s, 'a) op \<Rightarrow> 's \<Rightarrow> 's" where
  "forget_result f s = snd (f s)"

fun act :: "('t, 'i, 'm) env \<Rightarrow> action \<Rightarrow> ('t, 'i, 'm) write_txn \<Rightarrow> ('t, 'i, 'm) write_txn" where
  "act E (Do_store p v) = forget_result (store_value E p v)"
| "act E (Do_mkdir p) = forget_result (txn_mkdir E p)"
| "act E (Do_rm p) = forget_result (txn_rm E p)"
| "act E (Do_mv p q) = forget_result (txn_mv E p q)"
| "act E (Do_cp p q) = forget_result (txn_cp E p q)"
| "act E (Do_put_scalar cur at sc) = forget_result (cursor_put_scalar E cur at sc)"
| "act E (Do_ensure_container cur at l) = forget_result (cursor_ensure_container E cur at l)"
| "act E (Do_remove cur at) = forget_result (cursor_remove E cur at)"

record ('t, 'i, 'm, 'p, 'b) sys =
  inner :: "('t, 'i, 'm, 'p, 'b) db_inner"
  threads :: "nat \<Rightarrow> ('t, 'i, 'm) thread"

definition goto :: "nat \<Rightarrow> ('t, 'i, 'm) thread \<Rightarrow> ('t, 'i, 'm, 'p, 'b) sys \<Rightarrow> ('t, 'i, 'm, 'p, 'b) sys" where
  "goto i th s = s\<lparr>threads := (threads s)(i := th)\<rparr>"

text \<open>A read transaction together with the cache its table shares.\<close>

definition txn_of :: "('p, 'b) cache_ops \<Rightarrow> string \<Rightarrow> ('t, 'i, 'm) store \<Rightarrow> u64 \<Rightarrow> ('t, 'i, 'm, 'p, 'b) db_inner \<Rightarrow> ('t, 'i, 'm, 'p, 'b) read_txn" where
  "txn_of L name st g d = read_txn_new st name (fst (inner_cache L name d)) g"

definition set_cache :: "string \<Rightarrow> ('p, 'b) path_cache \<Rightarrow> ('t, 'i, 'm, 'p, 'b) db_inner \<Rightarrow> ('t, 'i, 'm, 'p, 'b) db_inner" where
  "set_cache name pc d = d\<lparr>db_caches := (db_caches d)(name \<mapsto> pc)\<rparr>"

section \<open>Steps\<close>

inductive step_of :: "('t, 'i, 'm) env \<Rightarrow> ('p, 'b) cache_ops \<Rightarrow> ('t, 'i) blank \<Rightarrow> nat \<Rightarrow>
    ('t, 'i, 'm, 'p, 'b) sys \<Rightarrow> ('t, 'i, 'm, 'p, 'b) sys \<Rightarrow> bool" for E L B where
  read_lock: "threads s i = Idle \<Longrightarrow> \<forall>j. \<not> write_guard (threads s j) \<Longrightarrow> step_of E L B i s (goto i (Guarded name) s)"
| begin_read: "threads s i = Guarded name \<Longrightarrow> step_of E L B i s (goto i (Snapped name (db_store (inner s))) s)"
| load_generation: "threads s i = Snapped name st \<Longrightarrow> step_of E L B i s (goto i (Tagged name st (db_generation (inner s))) s)"
| read_unlock: "threads s i = Tagged name st g \<Longrightarrow> step_of E L B i s (goto i (Reading name st g) s)"
| resolve: "threads s i = Reading name st g \<Longrightarrow>
    step_of E L B i s (s\<lparr>inner := set_cache name (rt_cache (snd (read_resolve E L p (txn_of L name st g (inner s))))) (inner s)\<rparr>)"
| entry_blob: "threads s i = Reading name st g \<Longrightarrow>
    step_of E L B i s (s\<lparr>inner := set_cache name (rt_cache (snd (read_entry_blob E L k (txn_of L name st g (inner s))))) (inner s)\<rparr>)"
| end_read: "threads s i = Reading name st g \<Longrightarrow> step_of E L B i s (goto i Idle s)"
| begin_write: "threads s i = Idle \<Longrightarrow> \<forall>j. \<not> engine_writer (threads s j) \<Longrightarrow>
    step_of E L B i s (goto i (Writing (table_write B name rng (inner s))) s)"
| mutate: "threads s i = Writing tx \<Longrightarrow>
    step_of E L B i s (goto i (Writing (act E a (tx\<lparr>tx_indexed := db_has_indexes (inner s)\<rparr>))) s)"
| abort: "threads s i = Writing tx \<Longrightarrow> step_of E L B i s (goto i Idle s)"
| flush: "threads s i = Writing tx \<Longrightarrow> commit_flush E tx = (Ok (), tx') \<Longrightarrow> step_of E L B i s (goto i (Sealed tx') s)"
| write_lock: "threads s i = Sealed tx \<Longrightarrow> \<forall>j. \<not> read_guard (threads s j) \<and> \<not> write_guard (threads s j) \<Longrightarrow>
    step_of E L B i s (goto i (Locked tx) s)"
| engine_commit: "threads s i = Locked tx \<Longrightarrow>
    step_of E L B i s (goto i Published (s\<lparr>inner := (inner s)\<lparr>db_store := publish tx (db_store (inner s))\<rparr>\<rparr>))"
| bump: "threads s i = Published \<Longrightarrow> step_of E L B i s (goto i Bumped (s\<lparr>inner := bump_generation (inner s)\<rparr>))"
| write_unlock: "threads s i = Bumped \<Longrightarrow> step_of E L B i s (goto i Idle s)"
| index_create: "threads s i = Idle \<Longrightarrow> \<forall>j. \<not> engine_writer (threads s j) \<Longrightarrow> create_index_txn E B name def (db_store (inner s)) = Ok st \<Longrightarrow>
    step_of E L B i s (goto i Created (s\<lparr>inner := (inner s)\<lparr>db_store := st\<rparr>\<rparr>))"
| index_ensure: "threads s i = Idle \<Longrightarrow> \<forall>j. \<not> engine_writer (threads s j) \<Longrightarrow> ensure_index_txn E B name def (db_store (inner s)) = Ok st \<Longrightarrow>
    step_of E L B i s (goto i Created (s\<lparr>inner := (inner s)\<lparr>db_store := st\<rparr>\<rparr>))"
| index_mark: "threads s i = Created \<Longrightarrow> step_of E L B i s (goto i Idle (s\<lparr>inner := mark_has_index (inner s)\<rparr>))"
| index_delete: "threads s i = Idle \<Longrightarrow> \<forall>j. \<not> engine_writer (threads s j) \<Longrightarrow> delete_index_txn E B name ix (db_store (inner s)) = Ok (r, st) \<Longrightarrow>
    step_of E L B i s (s\<lparr>inner := (inner s)\<lparr>db_store := st\<rparr>\<rparr>)"

inductive_cases step_of_cases: "step_of E L B i s s'"

text \<open>The states reached from a freshly opened database, with the number of engine commits of write transactions.\<close>

definition started :: "('t, 'i, 'm) store \<Rightarrow> bool \<Rightarrow> ('t, 'i, 'm, 'p, 'b) sys" where
  "started st has_indexes = \<lparr>inner = db_inner_new st has_indexes, threads = (\<lambda>_. Idle)\<rparr>"

inductive reach :: "('t, 'i, 'm) env \<Rightarrow> ('p, 'b) cache_ops \<Rightarrow> ('t, 'i) blank \<Rightarrow> ('t, 'i, 'm, 'p, 'b) sys \<Rightarrow> nat \<Rightarrow>
    ('t, 'i, 'm, 'p, 'b) sys \<Rightarrow> bool" for E L B s0 where
  reach_start: "reach E L B s0 0 s0"
| reach_step: "reach E L B s0 n s \<Longrightarrow> step_of E L B i s s' \<Longrightarrow>
    reach E L B s0 (if \<exists>tx. threads s i = Locked tx then Suc n else n) s'"

section \<open>The invariant\<close>

definition blank_ok :: "('t, 'i, 'm) env \<Rightarrow> ('t, 'i) blank \<Rightarrow> bool" where
  "blank_ok E B \<longleftrightarrow> contents (env_data E) (blank_data B) = Map.empty \<and> contents (env_index E) (blank_index B) = Map.empty"

text \<open>What the tables of a store hold; a table that is not there reads as empty.\<close>

definition version :: "('t, 'i, 'm) env \<Rightarrow> ('t, 'i, 'm) store \<Rightarrow> string \<Rightarrow> akey \<Rightarrow> bytes option" where
  "version E st name = (case st_data st name of Some t \<Rightarrow> contents (env_data E) t | None \<Rightarrow> Map.empty)"

text \<open>Where a thread is, against the history and the generation.\<close>

fun placed :: "('t, 'i, 'm) env \<Rightarrow> (u64 \<Rightarrow> string \<Rightarrow> akey \<Rightarrow> bytes option) \<Rightarrow> u64 \<Rightarrow> ('t, 'i, 'm) thread \<Rightarrow> bool" where
  "placed E hist g (Snapped n st) \<longleftrightarrow> version E st = hist g"
| "placed E hist g (Tagged n st h) \<longleftrightarrow> h \<le> g \<and> version E st = hist h"
| "placed E hist g (Reading n st h) \<longleftrightarrow> h \<le> g \<and> version E st = hist h"
| "placed E hist g _ \<longleftrightarrow> True"

abbreviation pending :: "('t, 'i, 'm, 'p, 'b) sys \<Rightarrow> bool" where
  "pending s \<equiv> \<exists>i. threads s i = Published"

text \<open>The generation the current store belongs to: the next one while a commit is between its engine commit and its bump.\<close>

definition latest :: "('t, 'i, 'm, 'p, 'b) sys \<Rightarrow> u64" where
  "latest s = (if pending s then db_generation (inner s) + 1 else db_generation (inner s))"

text \<open>The guards exclude each other; the current store is the version of the latest generation; generations to come have no
  version yet; threads and caches agree with the history.\<close>

definition sys_inv :: "('t, 'i, 'm) env \<Rightarrow> ('p, 'b) cache_ops \<Rightarrow> (u64 \<Rightarrow> string \<Rightarrow> akey \<Rightarrow> bytes option) \<Rightarrow> nat \<Rightarrow>
    ('t, 'i, 'm, 'p, 'b) sys \<Rightarrow> bool" where
  "sys_inv E L hist n s \<longleftrightarrow>
     (\<forall>i j. write_guard (threads s i) \<longrightarrow> write_guard (threads s j) \<longrightarrow> i = j) \<and>
     (\<forall>i j. write_guard (threads s i) \<longrightarrow> \<not> read_guard (threads s j)) \<and>
     unat (latest s) = n \<and> (pending s \<longrightarrow> n \<noteq> 0) \<and>
     version E (db_store (inner s)) = hist (latest s) \<and>
     (\<forall>h. h > latest s \<longrightarrow> hist h = (\<lambda>_. Map.empty)) \<and>
     (\<forall>i. placed E hist (db_generation (inner s)) (threads s i)) \<and>
     (\<forall>name pc. db_caches (inner s) name = Some pc \<longrightarrow> coherent L (\<lambda>h. hist h name) pc)"

lemma sys_invI:
  assumes "\<And>i j. write_guard (threads s i) \<Longrightarrow> write_guard (threads s j) \<Longrightarrow> i = j"
    and "\<And>i j. write_guard (threads s i) \<Longrightarrow> \<not> read_guard (threads s j)"
    and "unat (latest s) = n" "pending s \<Longrightarrow> n \<noteq> 0" "version E (db_store (inner s)) = hist (latest s)"
    and "\<And>h. h > latest s \<Longrightarrow> hist h = (\<lambda>_. Map.empty)"
    and "\<And>i. placed E hist (db_generation (inner s)) (threads s i)"
    and "\<And>name pc. db_caches (inner s) name = Some pc \<Longrightarrow> coherent L (\<lambda>h. hist h name) pc"
  shows "sys_inv E L hist n s"
  unfolding sys_inv_def using assms by blast

lemma sys_invD:
  assumes "sys_inv E L hist n s"
  shows "write_guard (threads s i) \<Longrightarrow> write_guard (threads s j) \<Longrightarrow> i = j"
    and "write_guard (threads s i) \<Longrightarrow> \<not> read_guard (threads s j)"
    and "unat (latest s) = n" "pending s \<Longrightarrow> n \<noteq> 0" "version E (db_store (inner s)) = hist (latest s)"
    and "h > latest s \<Longrightarrow> hist h = (\<lambda>_. Map.empty)"
    and "placed E hist (db_generation (inner s)) (threads s i)"
    and "db_caches (inner s) name = Some pc \<Longrightarrow> coherent L (\<lambda>h. hist h name) pc"
  using assms unfolding sys_inv_def by blast+

lemma goto_simps [simp]: "threads (goto i th s) = (threads s)(i := th)" "inner (goto i th s) = inner s"
  by (simp_all add: goto_def)

text \<open>A step that moves one thread and touches neither the store, the generation nor the caches.\<close>

lemma move_inv:
  assumes "sys_inv E L hist n s" "threads s i \<noteq> Published" "th \<noteq> Published" "placed E hist (db_generation (inner s)) th"
    and "\<And>j. write_guard th \<Longrightarrow> j \<noteq> i \<Longrightarrow> \<not> write_guard (threads s j) \<and> \<not> read_guard (threads s j)"
    and "\<And>j. read_guard th \<Longrightarrow> j \<noteq> i \<Longrightarrow> \<not> write_guard (threads s j)" "\<not> (write_guard th \<and> read_guard th)"
  shows "sys_inv E L hist n (goto i th s)"
proof -
  note D = sys_invD [OF assms(1)]
  have pend: "pending (goto i th s) \<longleftrightarrow> pending s" using assms(2,3) by (auto simp: fun_upd_apply)
  then have late: "latest (goto i th s) = latest s" by (simp only: latest_def goto_simps)
  show ?thesis
  proof (rule sys_invI, unfold pend late)
    show "j = k" if "write_guard (threads (goto i th s) j)" "write_guard (threads (goto i th s) k)" for j k
      using that D(1) assms(5) by (auto split: if_splits)
    show "\<not> read_guard (threads (goto i th s) k)" if "write_guard (threads (goto i th s) j)" for j k
      using that D(2) assms(5-7) by (auto split: if_splits)
    show "placed E hist (db_generation (inner (goto i th s))) (threads (goto i th s) j)" for j
      using D(7) assms(4) by simp
  qed (use D(3) D(4) D(5) D(6) D(8) in \<open>simp_all only: goto_simps simp_thms\<close>)
qed

text \<open>A step that changes the inner state but neither what the tables hold nor the generation, and keeps the caches coherent.\<close>

lemma inner_inv:
  assumes "sys_inv E L hist n s" "version E (db_store d) = version E (db_store (inner s))" "db_generation d = db_generation (inner s)"
    and "\<And>name pc. db_caches d name = Some pc \<Longrightarrow> coherent L (\<lambda>h. hist h name) pc"
  shows "sys_inv E L hist n (s\<lparr>inner := d\<rparr>)"
proof -
  note D = sys_invD [OF assms(1)]
  have late: "latest (s\<lparr>inner := d\<rparr>) = latest s" using assms(3) by (simp add: latest_def)
  show ?thesis
  proof (rule sys_invI, unfold late)
    show "db_caches (inner (s\<lparr>inner := d\<rparr>)) name = Some pc \<Longrightarrow> coherent L (\<lambda>h. hist h name) pc" for name pc
      using assms(4) by simp
  qed (simp_all add: assms(2,3) D)
qed

lemma coherent_extend:
  assumes "coherent L hist pc" "hist g = Map.empty"
  shows "coherent L (hist(g := m)) pc"
proof -
  have walk: "raw_walk m akey_ROOT p = Ok (Some k)" if "raw_walk Map.empty akey_ROOT p = Ok (Some k)" for p k
    using that by (cases p) simp_all
  have "raw_walk ((hist(g := m)) h) akey_ROOT p = Ok (Some k)" if "held (path_ops L) (paths pc) p = Some (h, k)" for h p k
  proof -
    have "raw_walk (hist h) akey_ROOT p = Ok (Some k)" using assms(1) that by (simp add: coherent_def)
    then show ?thesis using walk assms(2) by (cases "h = g") simp_all
  qed
  moreover have "(hist(g := m)) h k = Some b" if "held (blob_ops L) (blobs pc) (h, k) = Some b" for h k b
  proof -
    have "hist h k = Some b" using assms(1) that by (simp add: coherent_def)
    then show ?thesis using assms(2) by (cases "h = g") simp_all
  qed
  ultimately show ?thesis unfolding coherent_def by blast
qed

text \<open>Index administration does not change what the tables hold.\<close>

lemma backfill_version: "blank_ok E B \<Longrightarrow> backfill E B name e st = Ok st' \<Longrightarrow> version E st' = version E st"
  by (auto simp: backfill_def data_or_blank_def version_def blank_ok_def fun_eq_iff Let_def split: option.splits prod.splits res.splits if_splits)

lemma version_meta [simp]: "version E (st\<lparr>st_meta := m\<rparr>) = version E st" "version E (st\<lparr>st_index := ix\<rparr>) = version E st"
  by (simp_all add: version_def fun_eq_iff)

lemma create_version: "blank_ok E B \<Longrightarrow> create_index_txn E B name d st = Ok st' \<Longrightarrow> version E st' = version E st"
  by (auto simp: create_index_txn_def andThen_Ok_iff dest!: backfill_version)

lemma ensure_version: "blank_ok E B \<Longrightarrow> ensure_index_txn E B name d st = Ok st' \<Longrightarrow> version E st' = version E st"
  by (force simp: ensure_index_txn_def andThen_Ok_iff dest: backfill_version split: if_splits)

lemma delete_version: "delete_index_txn E B name ix st = Ok (r, st') \<Longrightarrow> version E st' = version E st"
  by (cases "registry_delete (env_meta E) (st_meta st) name ix")
    (auto simp: delete_index_txn_def andThen_Ok_iff Let_def split_beta split: option.splits)

section \<open>Preservation\<close>

lemma reading_inv:
  assumes "sys_inv E L hist n s" "threads s i = Reading name st g" "redb_ok (env_data E)" "caches_ok L"
  shows "reading E L (\<lambda>h. hist h name) (txn_of L name st g (inner s))" "snapshot E (txn_of L name st g (inner s)) = version E st name"
proof -
  note D = sys_invD [OF assms(1)]
  have "version E st = hist g" using D(7) [of i] assms(2) by simp
  moreover have "coherent L (\<lambda>h. hist h name) (fst (inner_cache L name (inner s)))"
    using D(8) [of name] coherent_new [OF assms(4)] by (cases "db_caches (inner s) name") (simp_all add: inner_cache_def)
  moreover show snap: "snapshot E (txn_of L name st g (inner s)) = version E st name"
    by (simp add: snapshot_def version_def txn_of_def read_txn_new_def)
  ultimately show "reading E L (\<lambda>h. hist h name) (txn_of L name st g (inner s))"
    using assms(3,4) unfolding reading_def snap by (simp add: txn_of_def read_txn_new_def)
qed

lemma answers_coherent: "answers L hist f s r \<Longrightarrow> coherent L hist (rt_cache (snd (f s)))"
  by (auto simp: answers_def)

lemma set_cache_inv:
  assumes "sys_inv E L hist n s" "coherent L (\<lambda>h. hist h name) pc"
  shows "sys_inv E L hist n (s\<lparr>inner := set_cache name pc (inner s)\<rparr>)"
  by (rule inner_inv [OF assms(1)])
    (use assms(2) sys_invD(8) [OF assms(1)] in \<open>auto simp: set_cache_def split: if_splits\<close>)

lemma store_inv:
  assumes "sys_inv E L hist n s" "version E st = version E (db_store (inner s))"
  shows "sys_inv E L hist n (s\<lparr>inner := (inner s)\<lparr>db_store := st\<rparr>\<rparr>)"
  by (rule inner_inv [OF assms(1)]) (use assms(2) sys_invD(8) [OF assms(1)] in auto)

lemma commit_inv:
  assumes "sys_inv E L hist n s" "threads s i = Locked tx" "Suc n < 2 ^ 64"
  shows "\<exists>hist'. sys_inv E L hist' (Suc n) (goto i Published (s\<lparr>inner := (inner s)\<lparr>db_store := publish tx (db_store (inner s))\<rparr>\<rparr>))"
proof -
  note D = sys_invD [OF assms(1)]
  define g where "g = db_generation (inner s)"
  define st where "st = publish tx (db_store (inner s))"
  define s' where "s' = goto i Published (s\<lparr>inner := (inner s)\<lparr>db_store := st\<rparr>\<rparr>)"
  define hist' where "hist' = hist(g + 1 := version E st)"
  have alone: "\<not> write_guard (threads s j)" if "j \<noteq> i" for j using D(1) [of i j] that assms(2) by auto
  have noread: "\<not> read_guard (threads s j)" for j using D(2) [of i j] assms(2) by simp
  have "threads s j \<noteq> Published" for j using alone [of j] assms(2) by (cases "j = i") auto
  then have late: "latest s = g" by (simp add: latest_def g_def)
  have late': "latest s' = g + 1" by (auto simp: latest_def s'_def g_def)
  have nxt: "unat (g + 1) = Suc n" using D(3) assms(3) late by (simp add: unat_word_ariths)
  then have up: "g < g + 1" using D(3) late by (simp add: word_less_nat_alt)
  have old: "hist' h = hist h" if "h \<le> g" for h using that up by (auto simp: hist'_def)
  have "sys_inv E L hist' (Suc n) s'"
  proof (rule sys_invI, unfold late', goal_cases)
    case (1 j k)
    then show ?case using alone by (auto simp: s'_def split: if_splits)
  next
    case (2 j k)
    then show ?case using noread by (auto simp: s'_def)
  next
    case (6 h)
    then have "latest s < h" "h \<noteq> g + 1" using up late by auto
    then show ?case using D(6) [of h] by (simp add: hist'_def)
  next
    case (7 j)
    then show ?case using D(7) [of j] old noread [of j] by (cases "threads s j") (auto simp: s'_def g_def)
  next
    case (8 name pc)
    have "hist (g + 1) = (\<lambda>_. Map.empty)" using D(6) up late by simp
    then have "coherent L ((\<lambda>h. hist h name)(g + 1 := version E st name)) pc"
      using coherent_extend [OF D(8) [of name pc]] 8 by (simp add: s'_def)
    moreover have "(\<lambda>h. hist h name)(g + 1 := version E st name) = (\<lambda>h. hist' h name)" by (auto simp: hist'_def fun_eq_iff)
    ultimately show ?case by simp
  qed (use nxt in \<open>simp_all add: s'_def hist'_def\<close>)
  then show ?thesis unfolding s'_def st_def by blast
qed

lemma bump_inv:
  assumes "sys_inv E L hist n s" "threads s i = Published"
  shows "sys_inv E L hist n (goto i Bumped (s\<lparr>inner := bump_generation (inner s)\<rparr>))"
proof -
  note D = sys_invD [OF assms(1)]
  define g where "g = db_generation (inner s)"
  define s' where "s' = goto i Bumped (s\<lparr>inner := bump_generation (inner s)\<rparr>)"
  have alone: "\<not> write_guard (threads s j)" if "j \<noteq> i" for j using D(1) [of i j] that assms(2) by auto
  have noread: "\<not> read_guard (threads s j)" for j using D(2) [of i j] assms(2) by simp
  have "threads s' j \<noteq> Published" for j using alone [of j] by (cases "j = i") (auto simp: s'_def)
  then have np: "\<not> pending s'" by blast
  have late: "latest s = g + 1" using assms(2) by (auto simp: latest_def g_def)
  have late': "latest s' = g + 1" using np by (simp add: latest_def s'_def bump_generation_def g_def)
  have "unat (g + 1) \<noteq> 0" using D(3,4) assms(2) late by auto
  then have unat_plus_one: "unat (g + 1) = unat g + 1" using unsigned_less [where 'a = nat and w = g] by (simp add: unat_word_ariths mod_Suc split: if_splits)
  have up: "h \<le> g + 1" if "h \<le> g" for h
    using that unat_plus_one by (simp add: word_le_nat_alt)
  show ?thesis
    unfolding s'_def [symmetric]
  proof (rule sys_invI, unfold late', goal_cases)
    case (1 j k)
    then show ?case using alone by (auto simp: s'_def split: if_splits)
  next
    case (2 j k)
    then show ?case using noread by (auto simp: s'_def)
  next
    case 3
    then show ?case using D(3) late by simp
  next
    case 4
    then show ?case using np by blast
  next
    case 5
    then show ?case using D(5) late by (simp add: s'_def bump_generation_def)
  next
    case (6 h)
    then show ?case using D(6) [of h] late by simp
  next
    case (7 j)
    then show ?case using D(7) [of j] noread [of j] up by (cases "threads s j") (auto simp: s'_def bump_generation_def g_def)
  next
    case (8 name pc)
    then show ?case using D(8) [of name pc] by (simp add: s'_def bump_generation_def)
  qed
qed

lemma step_inv:
  assumes "sys_inv E L hist n s" "step_of E L B i s s'" "redb_ok (env_data E)" "caches_ok L" "blank_ok E B"
    and "(if \<exists>tx. threads s i = Locked tx then Suc n else n) < 2 ^ 64"
  shows "\<exists>hist'. sys_inv E L hist' (if \<exists>tx. threads s i = Locked tx then Suc n else n) s'"
  using assms(2)
proof cases
  case (read_lock name)
  then have "sys_inv E L hist n s'" using move_inv [OF assms(1), of i "Guarded name"] by simp
  then show ?thesis using read_lock by auto
next
  case (begin_read name)
  have "\<not> write_guard (threads s j)" for j using sys_invD(2) [OF assms(1), of j i] begin_read(2) by auto
  then have "\<not> pending s" by (metis write_guard.simps(2))
  then have "placed E hist (db_generation (inner s)) (Snapped name (db_store (inner s)))"
    using sys_invD(5) [OF assms(1)] by (simp add: latest_def)
  then have "sys_inv E L hist n s'"
    using begin_read move_inv [OF assms(1), of i "Snapped name (db_store (inner s))"] \<open>\<And>j. \<not> write_guard (threads s j)\<close> by simp
  then show ?thesis using begin_read by auto
next
  case (load_generation name st)
  have "\<not> write_guard (threads s j)" for j using sys_invD(2) [OF assms(1), of j i] load_generation(2) by auto
  moreover have "placed E hist (db_generation (inner s)) (Tagged name st (db_generation (inner s)))"
    using sys_invD(7) [OF assms(1), of i] load_generation(2) by simp
  ultimately have "sys_inv E L hist n s'" using load_generation move_inv [OF assms(1), of i "Tagged name st (db_generation (inner s))"] by simp
  then show ?thesis using load_generation by auto
next
  case (read_unlock name st g)
  have "placed E hist (db_generation (inner s)) (Reading name st g)" using sys_invD(7) [OF assms(1), of i] read_unlock(2) by simp
  then have "sys_inv E L hist n s'" using read_unlock move_inv [OF assms(1), of i "Reading name st g"] by simp
  then show ?thesis using read_unlock by auto
next
  case (resolve name st g p)
  have "coherent L (\<lambda>h. hist h name) (rt_cache (snd (read_resolve E L p (txn_of L name st g (inner s)))))"
    by (rule answers_coherent [OF read_resolve_answers [OF reading_inv(1) [OF assms(1) resolve(2) assms(3,4)]]])
  then show ?thesis using resolve set_cache_inv [OF assms(1)] by auto
next
  case (entry_blob name st g k)
  have "coherent L (\<lambda>h. hist h name) (rt_cache (snd (read_entry_blob E L k (txn_of L name st g (inner s)))))"
    by (rule answers_coherent [OF read_entry_blob_answers [OF reading_inv(1) [OF assms(1) entry_blob(2) assms(3,4)]]])
  then show ?thesis using entry_blob set_cache_inv [OF assms(1)] by auto
next
  case (end_read name st g)
  then show ?thesis using move_inv [OF assms(1), of i Idle] by auto
next
  case (begin_write name rng)
  then show ?thesis using move_inv [OF assms(1), of i "Writing (table_write B name rng (inner s))"] by auto
next
  case (mutate tx a)
  then show ?thesis using move_inv [OF assms(1), of i "Writing (act E a (tx\<lparr>tx_indexed := db_has_indexes (inner s)\<rparr>))"] by auto
next
  case (abort tx)
  then show ?thesis using move_inv [OF assms(1), of i Idle] by auto
next
  case (flush tx tx')
  then show ?thesis using move_inv [OF assms(1), of i "Sealed tx'"] by auto
next
  case (write_lock tx)
  then show ?thesis using move_inv [OF assms(1), of i "Locked tx"] by auto
next
  case (engine_commit tx)
  then show ?thesis using commit_inv [OF assms(1), of i tx] assms(6) by auto
next
  case bump
  then show ?thesis using bump_inv [OF assms(1), of i] by auto
next
  case write_unlock
  then show ?thesis using move_inv [OF assms(1), of i Idle] by auto
next
  case (index_create name d st)
  then show ?thesis using move_inv [OF store_inv [OF assms(1) create_version [OF assms(5)]], of name d st i Created] by auto
next
  case (index_ensure name d st)
  then show ?thesis using move_inv [OF store_inv [OF assms(1) ensure_version [OF assms(5)]], of name d st i Created] by auto
next
  case index_mark
  have "sys_inv E L hist n (s\<lparr>inner := mark_has_index (inner s)\<rparr>)"
    by (rule inner_inv [OF assms(1)]) (use sys_invD(8) [OF assms(1)] in \<open>auto simp: mark_has_index_def\<close>)
  from move_inv [OF this, of i Idle] show ?thesis using index_mark by auto
next
  case (index_delete name ix r st)
  then show ?thesis using store_inv [OF assms(1) delete_version [OF index_delete(4)]] by auto
qed

lemma started_inv: "sys_inv E L (\<lambda>h. if h = 0 then version E st else (\<lambda>_. Map.empty)) 0 (started st has)"
proof -
  have "latest (started st has) = 0" by (simp add: latest_def started_def db_inner_new_def)
  then show ?thesis by (intro sys_invI) (auto simp: started_def db_inner_new_def)
qed

lemma reach_inv:
  assumes "reach E L B (started st0 has) n s" "n < 2 ^ 64" "redb_ok (env_data E)" "caches_ok L" "blank_ok E B"
  shows "\<exists>hist. sys_inv E L hist n s"
  using assms(1,2)
proof (induction rule: reach.induct)
  case reach_start
  then show ?case using started_inv by blast
next
  case (reach_step n s i s')
  then have "n < 2 ^ 64" by (auto split: if_splits)
  then obtain hist where "sys_inv E L hist n s" using reach_step.IH by blast
  then show ?case using step_inv [OF _ reach_step.hyps(2) assms(3-5)] reach_step.prems by blast
qed

section \<open>Progress\<close>

abbreviation steps :: "('t, 'i, 'm) env \<Rightarrow> ('p, 'b) cache_ops \<Rightarrow> ('t, 'i) blank \<Rightarrow>
    ('t, 'i, 'm, 'p, 'b) sys \<Rightarrow> ('t, 'i, 'm, 'p, 'b) sys \<Rightarrow> bool" where
  "steps E L B \<equiv> (\<lambda>s s'. \<exists>i. step_of E L B i s s')\<^sup>*\<^sup>*"

lemma steps_step: "step_of E L B i s s1 \<Longrightarrow> steps E L B s1 s2 \<Longrightarrow> steps E L B s s2"
  by (rule converse_rtranclp_into_rtranclp) blast+

text \<open>How many steps a thread is from giving up the guard it holds.\<close>

fun weight :: "('t, 'i, 'm) thread \<Rightarrow> nat" where
  "weight (Guarded n) = 3"
| "weight (Snapped n st) = 2"
| "weight (Tagged n st g) = 1"
| "weight (Locked tx) = 3"
| "weight Published = 2"
| "weight Bumped = 1"
| "weight _ = 0"

lemma weight_guard: "weight th = 0 \<longleftrightarrow> \<not> read_guard th \<and> \<not> write_guard th"
  by (cases th) simp_all

text \<open>A thread that holds a guard is never blocked.\<close>

lemma guard_step:
  assumes "weight (threads s i) \<noteq> 0"
  shows "\<exists>s'. step_of E L B i s s' \<and> weight (threads s' i) < weight (threads s i) \<and> (\<forall>j. j \<noteq> i \<longrightarrow> threads s' j = threads s j)"
proof (cases "threads s i")
  case (Guarded x)
  then show ?thesis using begin_read [OF Guarded] by fastforce
next
  case (Snapped x st)
  then show ?thesis using load_generation [OF Snapped] by fastforce
next
  case (Tagged x st g)
  then show ?thesis using read_unlock [OF Tagged] by fastforce
next
  case (Locked tx)
  then show ?thesis using engine_commit [OF Locked] by fastforce
next
  case Published
  then show ?thesis using bump [OF Published] by fastforce
next
  case Bumped
  then show ?thesis using write_unlock [OF Bumped] by fastforce
qed (use assms in simp_all)

lemma drain:
  assumes "finite {j. threads s j \<noteq> Idle}"
  shows "\<exists>s'. steps E L B s s' \<and> (\<forall>j. weight (threads s' j) = 0) \<and> (\<forall>j. weight (threads s j) = 0 \<longrightarrow> threads s' j = threads s j)"
  using assms
proof (induction "\<Sum>j | threads s j \<noteq> Idle. weight (threads s j)" arbitrary: s rule: less_induct)
  case less
  show ?case
  proof (cases "\<forall>j. weight (threads s j) = 0")
    case False
    then obtain i where i: "weight (threads s i) \<noteq> 0" by blast
    obtain s1 where s1: "step_of E L B i s s1" "weight (threads s1 i) < weight (threads s i)" "\<And>j. j \<noteq> i \<Longrightarrow> threads s1 j = threads s j"
      using guard_step [OF i] by blast
    let ?A = "{j. threads s j \<noteq> Idle}" and ?A1 = "{j. threads s1 j \<noteq> Idle}"
    have iA: "i \<in> ?A" using i by (cases "threads s i") auto
    have sub: "?A1 \<subseteq> ?A" using iA s1(3) by (metis (mono_tags, lifting) mem_Collect_eq subsetI)
    have "(\<Sum>j\<in>?A1. weight (threads s1 j)) \<le> (\<Sum>j\<in>?A. weight (threads s1 j))" using sub less.prems by (intro sum_mono2) auto
    also have "\<dots> < (\<Sum>j\<in>?A. weight (threads s j))"
    proof (rule sum_strict_mono_ex1 [OF less.prems])
      show "\<forall>j\<in>?A. weight (threads s1 j) \<le> weight (threads s j)" using s1(2,3) by (metis less_imp_le order_refl)
      show "\<exists>j\<in>?A. weight (threads s1 j) < weight (threads s j)" using iA s1(2) by blast
    qed
    finally obtain s2 where s2: "steps E L B s1 s2" "\<forall>j. weight (threads s2 j) = 0" "\<forall>j. weight (threads s1 j) = 0 \<longrightarrow> threads s2 j = threads s1 j"
      using less.hyps finite_subset [OF sub less.prems] by blast
    have "steps E L B s s2" using s1(1) s2(1) by (rule steps_step)
    moreover have "threads s2 j = threads s j" if "weight (threads s j) = 0" for j using that i s1(3) [of j] s2(3) by metis
    ultimately show ?thesis using s2(2) by blast
  qed blast
qed

lemma step_finite: "step_of E L B i s s' \<Longrightarrow> finite {j. threads s j \<noteq> Idle} \<Longrightarrow> finite {j. threads s' j \<noteq> Idle}"
proof -
  assume a: "step_of E L B i s s'" "finite {j. threads s j \<noteq> Idle}"
  have "threads s' j = threads s j" if "j \<noteq> i" for j using a(1) that by cases auto
  then have "{j. threads s' j \<noteq> Idle} \<subseteq> insert i {j. threads s j \<noteq> Idle}" by auto
  then show ?thesis using a(2) finite_subset by blast
qed

lemma reach_finite: "reach E L B (started st0 has) n s \<Longrightarrow> finite {j. threads s j \<noteq> Idle}"
  by (induction rule: reach.induct) (simp add: started_def, erule (1) step_finite)

lemma reach_steps: "steps E L B s s' \<Longrightarrow> reach E L B s0 n s \<Longrightarrow> \<exists>n'. reach E L B s0 n' s'"
  by (induction rule: rtranclp_induct) (blast intro: reach_step)+

section \<open>A concrete system\<close>

definition list_caches :: "((apath \<times> u64 \<times> akey) list, ((u64 \<times> akey) \<times> bytes) list) cache_ops" where
  "list_caches = \<lparr>path_ops = list_lru 1024, blob_ops = list_lru 1024\<rparr>"

definition list_blank :: "((akey, bytes) btree, (bytes, bytes) btree) blank" where
  "list_blank = \<lparr>blank_data = [], blank_index = []\<rparr>"

definition list_env :: "((akey, bytes) btree, (bytes, bytes) btree, (string, bytes) btree) env" where
  "list_env = \<lparr>env_data = btree_redb, env_index = btree_redb, env_meta = btree_redb, env_chrono = calendar, env_fuel = 2 ^ 128\<rparr>"

definition empty_store :: "((akey, bytes) btree, (bytes, bytes) btree, (string, bytes) btree) store" where
  "empty_store = \<lparr>st_data = Map.empty, st_index = None, st_meta = []\<rparr>"

lemma list_caches_ok: "caches_ok list_caches"
  by (simp add: caches_ok_def list_caches_def list_lru_ok)

lemma list_env_simps [simp]: "env_data list_env = btree_redb" "env_index list_env = btree_redb" "env_meta list_env = btree_redb"
  "env_chrono list_env = calendar" "env_fuel list_env = 2 ^ 128"
  by (simp_all add: list_env_def)

lemma list_blank_ok: "blank_ok list_env list_blank"
  by (simp add: blank_ok_def list_blank_def fun_eq_iff)

section \<open>Properties\<close>

text \<open>C3: a read transaction reads its snapshot. Whatever the other threads do, and whatever they leave in the
  caches the transactions of a table share, resolving a path answers as walking the directories of the transaction's own
  snapshot does, and fetching an entry answers what that snapshot holds. Versions are told apart by a 64-bit generation, so
  the statement is for fewer than 2 ^ 64 commits since the database was opened.\<close>

theorem snapshot_isolation:
  assumes "reach E L B (started st0 has) n s" "n < 2 ^ 64" "redb_ok (env_data E)" "caches_ok L" "blank_ok E B"
    and "threads s i = Reading name st g"
  shows "fst (read_resolve E L p (txn_of L name st g (inner s))) = raw_walk (version E st name) akey_ROOT p \<and>
    fst (read_entry_blob E L k (txn_of L name st g (inner s))) = Ok (version E st name k)"
proof -
  obtain hist where "sys_inv E L hist n s" using reach_inv [OF assms(1-5)] by blast
  note r = reading_inv [OF this assms(6,3,4)]
  show ?thesis
    using read_resolve_answers [OF r(1), of p] read_entry_blob_answers [OF r(1), of k] r(2) by (auto simp: answers_def)
qed

lemma reading_reached: "\<exists>s st. reach list_env list_caches list_blank (started empty_store False) 0 s \<and> threads s 0 = Reading ''t'' st 0 \<and>
  st = empty_store"
proof -
  let ?R = "reach list_env list_caches list_blank (started empty_store False) 0" and ?s = "started empty_store False"
  have s0: "?R ?s" by (rule reach_start)
  have s1: "?R (goto 0 (Guarded ''t'') ?s)"
    using reach_step [OF s0 read_lock [of ?s 0]] by (simp add: started_def)
  have s2: "?R (goto 0 (Snapped ''t'' empty_store) (goto 0 (Guarded ''t'') ?s))"
    using reach_step [OF s1 begin_read [of _ 0 "''t''"]] by (simp add: started_def db_inner_new_def)
  have s3: "?R (goto 0 (Tagged ''t'' empty_store 0) (goto 0 (Snapped ''t'' empty_store) (goto 0 (Guarded ''t'') ?s)))"
    using reach_step [OF s2 load_generation [of _ 0 "''t''" empty_store]] by (simp add: started_def db_inner_new_def)
  have "?R (goto 0 (Reading ''t'' empty_store 0) (goto 0 (Tagged ''t'' empty_store 0) (goto 0 (Snapped ''t'' empty_store) (goto 0 (Guarded ''t'') ?s))))"
    using reach_step [OF s3 read_unlock [of _ 0 "''t''" empty_store 0]] by (simp add: started_def db_inner_new_def)
  then show ?thesis by (intro exI conjI) (assumption, simp_all)
qed

theorem snapshot_isolation_witness:
  "\<exists>s. reach list_env list_caches list_blank (started empty_store False) 0 s \<and>
    fst (read_resolve list_env list_caches [''a''] (txn_of list_caches ''t'' empty_store 0 (inner s))) = Ok None"
proof -
  obtain s where s: "reach list_env list_caches list_blank (started empty_store False) 0 s" "threads s 0 = Reading ''t'' empty_store 0"
    using reading_reached by blast
  have "version list_env empty_store ''t'' = Map.empty" by (simp add: version_def empty_store_def)
  then show ?thesis
    using s snapshot_isolation [OF s(1) _ _ list_caches_ok list_blank_ok s(2), of "[''a'']"] btree_redb_ok by auto
qed

text \<open>C8: a commit is never blocked for good. From every reachable state in which a thread has flushed its transaction and waits
  for the version lock, the threads that hold the lock can step until they have given it up, without anyone else
  acting, and the commit can then finish: its tables become the store, the generation moves up by one and the thread is done.\<close>

theorem commit_can_finish:
  assumes "reach E L B (started st0 has) n s" "threads s i = Sealed tx"
  shows "\<exists>s1 s'. steps E L B s s1 \<and> steps E L B s1 s' \<and> threads s1 i = Sealed tx \<and> threads s' i = Idle \<and>
    db_store (inner s') = publish tx (db_store (inner s1)) \<and> db_generation (inner s') = db_generation (inner s1) + 1"
proof -
  obtain s1 where s1: "steps E L B s s1" "\<And>j. weight (threads s1 j) = 0" "\<And>j. weight (threads s j) = 0 \<Longrightarrow> threads s1 j = threads s j"
    using drain [OF reach_finite [OF assms(1)]] by blast
  have th: "threads s1 i = Sealed tx" using s1(3) [of i] assms(2) by simp
  have l: "step_of E L B i s1 (goto i (Locked tx) s1)" using write_lock [OF th] s1(2) by (simp add: weight_guard)
  let ?s2 = "goto i Published (goto i (Locked tx) s1\<lparr>inner := (inner s1)\<lparr>db_store := publish tx (db_store (inner s1))\<rparr>\<rparr>)"
  have c: "step_of E L B i (goto i (Locked tx) s1) ?s2" using engine_commit [of "goto i (Locked tx) s1" i tx] by simp
  let ?s3 = "goto i Bumped (?s2\<lparr>inner := bump_generation (inner ?s2)\<rparr>)"
  have b: "step_of E L B i ?s2 ?s3" using bump [of ?s2 i] by simp
  have u: "step_of E L B i ?s3 (goto i Idle ?s3)" using write_unlock [of ?s3 i] by simp
  have "steps E L B s1 (goto i Idle ?s3)" by (intro steps_step [OF l] steps_step [OF c] steps_step [OF b] steps_step [OF u] rtranclp.rtrancl_refl)
  then show ?thesis using s1(1) th by (intro exI conjI) (assumption+, simp_all add: bump_generation_def)
qed

theorem commit_can_finish_witness:
  "\<exists>s tx s1 s'. reach list_env list_caches list_blank (started empty_store False) 0 s \<and> steps list_env list_caches list_blank s s1 \<and>
    steps list_env list_caches list_blank s1 s' \<and> db_store (inner s') = publish tx (db_store (inner s1))"
proof -
  let ?R = "reach list_env list_caches list_blank (started empty_store False) 0" and ?s = "started empty_store False"
  define tx where "tx = table_write list_blank ''t'' 1
    (inner (started empty_store False :: (_, _, _, (apath \<times> u64 \<times> akey) list, ((u64 \<times> akey) \<times> bytes) list) sys))"
  have s0: "?R ?s" by (rule reach_start)
  have s1: "?R (goto 0 (Writing tx) ?s)"
    using reach_step [OF s0 begin_write [of ?s 0]] by (simp add: started_def tx_def)
  have "commit_flush list_env tx = (Ok (), tx\<lparr>tx_ctx := (tx_ctx tx)\<lparr>ctx_buf := snd (wb_take (ctx_buf (tx_ctx tx)))\<rparr>\<rparr>)"
    by (simp add: commit_flush_def tx_def table_write_def write_txn_new_def wb_new_def wb_take_def Let_def split_beta)
  then obtain tx' where "commit_flush list_env tx = (Ok (), tx')" by blast
  then have "?R (goto 0 (Sealed tx') (goto 0 (Writing tx) ?s))"
    using reach_step [OF s1 flush [of _ 0 tx list_env tx']] by simp
  then show ?thesis using commit_can_finish [of list_env list_caches list_blank empty_store False 0 _ 0 tx'] by fastforce
qed

end
