(* ===== verification/Db_Laws.thy ===== *)
theory Db_Laws
  imports Grab_Laws Concurrency
begin

text \<open>
  The database as a whole. \<open>db_inv\<close> says that every table holds a tree of well-formed documents, that the registry is sound and
  that every index of every table has exactly the rows of its table. Index administration and committed write
  transactions keep it: a write transaction starts with the invariant of its table, touches only the rows of that
  table's indexes, and its commit installs the table it leaves.
\<close>

section \<open>What a transaction leaves alone\<close>

text \<open>An operation on the index table that changes only keys of the indexes \<open>es\<close>.\<close>

definition confined :: "('i, bytes, bytes) redb \<Rightarrow> index_entry list \<Rightarrow> ('i, 'a) op \<Rightarrow> bool" where
  "confined I es f \<longleftrightarrow> (\<forall>ix k. outside es k \<longrightarrow> contents I (snd (f ix)) k = contents I ix k)"

lemma confined_pure [simp]: "confined I es (retOp x)" "confined I es (liftOp r)" "confined I es (readOp h)"
  by (simp_all add: confined_def)

lemma confined_bind:
  assumes "confined I es f" "\<And>x ix ix'. f ix = (Ok x, ix') \<Longrightarrow> confined I es (g x)"
  shows "confined I es (bindOp f g)"
  unfolding confined_def
proof (intro allI impI)
  fix ix k assume k: "outside es k"
  obtain r ix1 where f: "f ix = (r, ix1)" by force
  then have "contents I ix1 k = contents I ix k" using assms(1) k by (metis confined_def snd_conv)
  then show "contents I (snd (bindOp f g ix)) k = contents I ix k"
    using f assms(2) [of ix] k by (cases r) (auto simp: confined_def bindOp_def)
qed

lemma confined_seq: "confined I es f \<Longrightarrow> confined I es g \<Longrightarrow> confined I es (seqOp f g)"
  by (auto simp: seqOp_def intro: confined_bind)

lemma confined_for: "(\<And>x. x \<in> set xs \<Longrightarrow> confined I es (f x)) \<Longrightarrow> confined I es (forOp xs f)"
  by (induction xs) (auto intro: confined_seq)

lemma confined_set:
  assumes "\<And>ix. \<exists>ix'. r ix = Ok ix' \<and> (\<forall>k. outside es k \<longrightarrow> contents I ix' k = contents I ix k)"
  shows "confined I es (\<lambda>ix. set_index (r ix) ix)"
  unfolding confined_def using assms by (metis set_index_ok snd_conv)

lemma entries_for_prefix:
  assumes "entries_for C R t e s = Ok kvs" "(k, v) \<in> set kvs"
  shows "starts_with k (id_prefix (ent_id e))"
proof -
  have "starts_with (fst kv) (id_prefix (ent_id e))" if "index_key C R t (ent_id e) (ent_def e) x = Ok kv" for x kv
    using that by (auto simp: index_key_def andThen_Ok_iff Let_def entry_key_def starts_with_iff split: if_splits)
  then show ?thesis using assms by (fastforce simp: entries_for_def andThen_Ok_iff res_map_Ok list_all2_conv_all_nth in_set_conv_nth)
qed

lemma own_key: "e \<in> set es \<Longrightarrow> starts_with k (id_prefix (ent_id e)) \<Longrightarrow> outside es l \<Longrightarrow> l \<noteq> k"
  by (auto simp: outside_def)

lemma confined_delete:
  assumes "redb_ok I"
  shows "confined I es (maintenance_delete C R I t es s)"
  unfolding maintenance_delete_def
proof (intro confined_for confined_bind confined_pure)
  fix e kvs ix ix' kv assume e: "e \<in> set es" "liftOp (entries_for C R t e s) ix = (Ok kvs, ix')" "kv \<in> set kvs"
  then have pre: "starts_with (fst kv) (id_prefix (ent_id e))" using entries_for_prefix [of C R t e s kvs "fst kv" "snd kv"] by simp
  show "confined I es (case kv of (k, _) \<Rightarrow> \<lambda>index. set_index (table_remove I index k) index)"
    unfolding split_beta
    by (rule confined_set) (rule redb_remove [OF assms], use own_key [OF e(1) pre] in auto)
qed

lemma confined_insert:
  assumes "redb_ok I"
  shows "confined I es (maintenance_insert C R I t es s)"
  unfolding maintenance_insert_def
proof (intro confined_for confined_bind confined_pure)
  fix e kvs ix ix' kv assume e: "e \<in> set es" "liftOp (entries_for C R t e s) ix = (Ok kvs, ix')" "kv \<in> set kvs"
  then have pre: "starts_with (fst kv) (id_prefix (ent_id e))" using entries_for_prefix [of C R t e s kvs "fst kv" "snd kv"] by simp
  have "confined I es (\<lambda>index. set_index (table_insert I index (fst kv) (snd kv)) index)"
    by (rule confined_set) (rule redb_insert [OF assms], use own_key [OF e(1) pre] in auto)
  then show "confined I es (case kv of (k, v) \<Rightarrow> seqOp (if idx_unique (ent_def e)
        then readOp (\<lambda>index. guard_unique I index k v (idx_name (ent_def e))) else retOp ())
      (\<lambda>index. set_index (table_insert I index k v) index))"
    unfolding split_beta by (intro confined_seq) (auto split: if_split)
qed

text \<open>What every step of a write transaction keeps: the table it is on, the metadata, and the entries of other
  tables' indexes.\<close>

definition frames :: "('t, 'i, 'm) env \<Rightarrow> ('t, 'i, 'm) write_txn \<Rightarrow> ('t, 'i, 'm) write_txn \<Rightarrow> bool" where
  "frames E s s' \<longleftrightarrow> tx_meta s' = tx_meta s \<and> tx_table s' = tx_table s \<and> tx_indexed s' = tx_indexed s \<and>
     (\<forall>es k. txn_indexes E s = Ok es \<longrightarrow> outside es k \<longrightarrow>
        contents (env_index E) (tx_index s') k = contents (env_index E) (tx_index s) k)"

lemma frames_refl: "frames E s s"
  by (simp add: frames_def)

lemma frames_trans: "frames E s s' \<Longrightarrow> frames E s' s'' \<Longrightarrow> frames E s s''"
  by (simp add: frames_def txn_indexes_def)

definition framed :: "('t, 'i, 'm) env \<Rightarrow> index_entry list \<Rightarrow> (('t, 'i, 'm) write_txn, 'a) op \<Rightarrow> bool" where
  "framed E es f \<longleftrightarrow> (\<forall>s. txn_indexes E s = Ok es \<longrightarrow> frames E s (snd (f s)))"

lemma frames_indexes: "frames E s s' \<Longrightarrow> txn_indexes E s' = txn_indexes E s"
  by (simp add: frames_def txn_indexes_def)

lemma framed_bind:
  assumes "framed E es f" "\<And>x. framed E es (g x)"
  shows "framed E es (bindOp f g)"
  unfolding framed_def
proof (intro allI impI)
  fix s assume s: "txn_indexes E s = Ok es"
  obtain r s1 where f: "f s = (r, s1)" by force
  then have s1: "frames E s s1" using assms(1) s by (metis framed_def snd_conv)
  then have "frames E s1 (snd (g x s1))" for x using assms(2) s frames_indexes by (metis framed_def)
  then show "frames E s (snd (bindOp f g s))" using f s1 frames_trans [OF s1] by (cases r) (auto simp: bindOp_def)
qed

lemma framed_seq: "framed E es f \<Longrightarrow> framed E es g \<Longrightarrow> framed E es (seqOp f g)"
  by (auto simp: seqOp_def intro: framed_bind)

lemma framed_for: "(\<And>x. framed E es (f x)) \<Longrightarrow> framed E es (forOp xs f)"
  by (induction xs) (auto simp: framed_def frames_refl intro: framed_seq [unfolded framed_def, rule_format])

lemma framed_ctx: "framed E es (on_ctx f)"
  by (auto simp: framed_def frames_def on_ctx_def split_beta Let_def)

lemma framed_index: "(\<And>t. confined (env_index E) es (f t)) \<Longrightarrow> framed E es (on_index f)"
  by (auto simp: framed_def frames_def on_index_def split_beta Let_def confined_def)

lemma framed_ret: "framed E es (retOp x)"
  by (simp add: framed_def frames_refl)

lemma reindex_around_framed:
  assumes "redb_ok (env_index E)" "txn_indexes E s = Ok es"
  shows "frames E s (snd (reindex_around E S app s))"
proof (cases "tx_indexed s \<and> es \<noteq> []")
  case True
  then have "reindex_around E S app s = seqOp (on_ctx (flush_and_disable (env_data E)))
      (seqOp (forOp S (\<lambda>scope. on_index (\<lambda>data. maintenance_delete (env_chrono E) (env_data E) (env_index E) data es scope)))
        (bindOp (on_ctx app) (\<lambda>result. seqOp (forOp S (\<lambda>scope. on_index (\<lambda>data.
           maintenance_insert (env_chrono E) (env_data E) (env_index E) data es scope))) (retOp result)))) s"
    using assms(2) by (simp add: reindex_around_def bindOp_def)
  moreover have "framed E es (seqOp (on_ctx (flush_and_disable (env_data E)))
      (seqOp (forOp S (\<lambda>scope. on_index (\<lambda>data. maintenance_delete (env_chrono E) (env_data E) (env_index E) data es scope)))
        (bindOp (on_ctx app) (\<lambda>result. seqOp (forOp S (\<lambda>scope. on_index (\<lambda>data.
           maintenance_insert (env_chrono E) (env_data E) (env_index E) data es scope))) (retOp result)))))"
    by (intro framed_seq framed_bind framed_for framed_ctx framed_index framed_ret confined_delete confined_insert assms(1))
  ultimately show ?thesis using assms(2) by (simp add: framed_def)
next
  case False
  then have "reindex_around E S app s = on_ctx app s" using assms(2) by (auto simp: reindex_around_def bindOp_def)
  then show ?thesis using framed_ctx [of E es app] assms(2) by (simp add: framed_def)
qed

section \<open>The invariant of the database\<close>

definition db_inv :: "('t, 'i, 'm) env \<Rightarrow> ('t, 'i) blank \<Rightarrow> registry \<Rightarrow> (string \<Rightarrow> heap) \<Rightarrow> ('t, 'i, 'm) store \<Rightarrow> bool" where
  "db_inv E B reg Hs st \<longleftrightarrow>
     redb_ok (env_index E) \<and> redb_ok (env_meta E) \<and> blank_ok E B \<and>
     holds_registry (env_meta E) (st_meta st) reg \<and> registry_inv reg \<and>
     (\<forall>name. holds_heap (env_data E) (data_or_blank B st name) (Hs name) \<and> docs_ok (env_chrono E) (files_at (Hs name))) \<and>
     (\<forall>e \<in> set (reg_entries reg). pattern_ok e \<and>
        synced (env_chrono E) (env_index E) (index_or_blank B st) (Hs (ent_table e)) e) \<and>
     (\<forall>n. next_id reg \<le> n \<longrightarrow> block (env_index E) (index_or_blank B st) n = {})"

lemma db_invD:
  assumes "db_inv E B reg Hs st"
  shows "redb_ok (env_index E)" "redb_ok (env_meta E)" "blank_ok E B" "holds_registry (env_meta E) (st_meta st) reg"
    "registry_inv reg" "holds_heap (env_data E) (data_or_blank B st name) (Hs name)" "docs_ok (env_chrono E) (files_at (Hs name))"
    "e \<in> set (reg_entries reg) \<Longrightarrow> pattern_ok e"
    "e \<in> set (reg_entries reg) \<Longrightarrow> synced (env_chrono E) (env_index E) (index_or_blank B st) (Hs (ent_table e)) e"
    "next_id reg \<le> n \<Longrightarrow> block (env_index E) (index_or_blank B st) n = {}"
  using assms unfolding db_inv_def by blast+

abbreviation indexes_of :: "registry \<Rightarrow> string \<Rightarrow> index_entry list" where
  "indexes_of reg name \<equiv> filter (\<lambda>e. ent_table e = name) (reg_entries reg)"

lemma indexes_of_db:
  assumes "db_inv E B reg Hs st"
  shows "registry_for_table (env_meta E) (st_meta st) name = Ok (indexes_of reg name)"
  using registry_load_holds [OF db_invD(2) [OF assms] db_invD(4) [OF assms]] by (simp add: registry_for_table_def)

section \<open>Write transactions\<close>

lemma write_begins:
  assumes "db_inv E B reg Hs (db_store d)" "db_has_indexes d \<or> reg_entries reg = []"
  shows "txn_inv E (table_write B name rng d) (Hs name) (indexes_of reg name)"
proof -
  note D = db_invD [OF assms(1)]
  let ?s = "table_write B name rng d"
  have "sees (env_data E) (tx_ctx ?s) (Hs name)"
    using D(6) [of name] tree_dir_ok [OF holds_heapD(2) [OF D(6) [of name]]]
    by (auto simp: sees_def ctx_ok_def wb_ok_def view_def holds_heap_def table_write_def write_txn_new_def wb_new_def)
  moreover have "txn_indexes E ?s = Ok (indexes_of reg name)"
    using indexes_of_db [OF assms(1)] by (simp add: txn_indexes_def table_write_def write_txn_new_def)
  moreover have "distinct (map ent_id (indexes_of reg name))"
    using D(5) by (auto simp: registry_inv_def intro: distinct_map_filter)
  moreover have "tx_index ?s = index_or_blank B (db_store d)" "tx_indexed ?s = db_has_indexes d"
    by (simp_all add: table_write_def write_txn_new_def)
  ultimately show ?thesis
    using D(1,7,8,9) holds_heapD(2) [OF D(6)] assms(2) by (auto simp: txn_inv_def)
qed

lemma commit_flush_sees:
  assumes "sees (env_data E) (tx_ctx s) H"
  shows "\<exists>s'. commit_flush E s = (Ok (), s') \<and> contents (env_data E) (ctx_data (tx_ctx s')) = (\<lambda>k. map_option enc_node (H k)) \<and>
    tx_index s' = tx_index s \<and> tx_meta s' = tx_meta s \<and> tx_table s' = tx_table s"
proof -
  obtain ds fs wb where t: "wb_take (ctx_buf (tx_ctx s)) = ((ds, fs), wb)" by (metis prod.exhaust)
  obtain c' where c': "flush_buffered (env_data E) ds fs ((tx_ctx s)\<lparr>ctx_buf := wb\<rparr>) = (Ok (), c')"
    "contents (env_data E) (ctx_data c') = view (env_data E) (tx_ctx s)"
    using flush_writes [OF sees_ok [OF assms] t] by (auto simp: writes_def)
  have v: "view (env_data E) (tx_ctx s) = (\<lambda>k. map_option enc_node (H k))" using sees_view [OF assms] by auto
  show ?thesis
  proof (cases "ds \<noteq> [] \<or> fs \<noteq> []")
    case True
    then show ?thesis using t c' v by (auto simp: commit_flush_def Let_def on_ctx_def)
  next
    case False
    then have "dirs (ctx_buf (tx_ctx s)) = []" "files (ctx_buf (tx_ctx s)) = []" using t by (auto simp: wb_take_def)
    then have "view (env_data E) (tx_ctx s) = contents (env_data E) (ctx_data (tx_ctx s))" by (auto simp: view_def fun_eq_iff)
    then show ?thesis using t False v by (auto simp: commit_flush_def Let_def)
  qed
qed

lemma commit_keeps:
  assumes "db_inv E B reg Hs (db_store d)" "frames E (table_write B name rng d) s" "txn_inv E s H (indexes_of reg name)"
  shows "\<exists>d'. commit E s d = (Ok (), d') \<and> db_inv E B reg (Hs(name := H)) (db_store d') \<and> db_has_indexes d' = db_has_indexes d \<and>
    db_generation d' = db_generation d + 1 \<and> db_caches d' = db_caches d \<and>
    (\<forall>other. other \<noteq> name \<longrightarrow> st_data (db_store d') other = st_data (db_store d) other)"
proof -
  note D = db_invD [OF assms(1)] and T = txn_invD [OF assms(3)]
  obtain s' where s': "commit_flush E s = (Ok (), s')" "contents (env_data E) (ctx_data (tx_ctx s')) = (\<lambda>k. map_option enc_node (H k))"
    "tx_index s' = tx_index s" "tx_meta s' = tx_meta s" "tx_table s' = tx_table s" using commit_flush_sees [OF T(1)] by blast
  let ?st = "publish s' (db_store d)"
  have same: "tx_table s = name" "tx_meta s = st_meta (db_store d)" using assms(2) by (auto simp: frames_def table_write_def write_txn_new_def)
  have data: "data_or_blank B ?st n = (if n = name then ctx_data (tx_ctx s') else data_or_blank B (db_store d) n)" for n
    using same s' by (simp add: data_or_blank_def publish_def)
  have index: "index_or_blank B ?st = tx_index s" using s' by (simp add: index_or_blank_def publish_def)
  have out: "contents (env_index E) (tx_index s) k = contents (env_index E) (index_or_blank B (db_store d)) k" if "outside (indexes_of reg name) k" for k
    using assms(2) that indexes_of_db [OF assms(1), of name]
    by (auto simp: frames_def txn_indexes_def table_write_def write_txn_new_def)
  have blk: "block (env_index E) (tx_index s) n = block (env_index E) (index_or_blank B (db_store d)) n"
    if "n \<notin> ent_id ` set (indexes_of reg name)" for n
    by (rule block_cong, rule out) (use that starts_with_id in \<open>auto simp: outside_def\<close>)
  have own: "e \<in> set (indexes_of reg name)" if "e \<in> set (reg_entries reg)" "ent_id e \<in> ent_id ` set (indexes_of reg name)" for e
    using that D(5) by (auto simp: registry_inv_def distinct_map inj_on_def)
  have sync: "synced (env_chrono E) (env_index E) (tx_index s) ((Hs(name := H)) (ent_table e)) e" if e: "e \<in> set (reg_entries reg)" for e
  proof (cases "ent_table e = name")
    case True
    then show ?thesis using T(9) [of e] e by simp
  next
    case False
    then show ?thesis using D(9) [OF e] blk own [OF e] by (auto simp: synced_def)
  qed
  have fresh: "block (env_index E) (tx_index s) n = {}" if "next_id reg \<le> n" for n
    using D(5) that by (subst blk) (auto simp: D(10) registry_inv_def)
  have "db_inv E B reg (Hs(name := H)) ?st"
    unfolding db_inv_def index data
    using D(1-8) T(2,3) sync fresh s'(2,4) same(2) by (auto simp: holds_heap_def publish_def)
  then show ?thesis using s' same by (auto simp: commit_def bump_generation_def publish_def)
qed

section \<open>Index administration\<close>

lemma data_after_backfill: "data_or_blank B (st\<lparr>st_data := (st_data st)(name \<mapsto> data_or_blank B st name), st_index := ix\<rparr>) n = data_or_blank B st n"
  by (simp add: data_or_blank_def)

lemma added_entries: "reg_entries (registry_added reg t d) = reg_entries reg @ [\<lparr>ent_table = t, ent_id = next_id reg, ent_def = d\<rparr>]"
  "next_id (registry_added reg t d) = next_id reg + 1"
  by (simp_all add: registry_added_def)

lemma find_append_new: "find P xs = None \<Longrightarrow> P x \<Longrightarrow> find P (xs @ [x]) = Some x"
  by (induction xs) (auto split: if_splits)

lemma backfill_keeps:
  assumes "db_inv E B reg Hs st" "find (entry_is name (idx_name d)) (reg_entries reg) = None" "next_id reg \<noteq> 0xFFFFFFFF"
    and "holds_registry (env_meta E) meta (registry_added reg name d)" "e = \<lparr>ent_table = name, ent_id = next_id reg, ent_def = d\<rparr>" "pattern_ok e"
  shows "(\<exists>st'. backfill E B name (Some e) (st\<lparr>st_meta := meta\<rparr>) = Ok st' \<and> db_inv E B (registry_added reg name d) Hs st') \<or>
    (backfill E B name (Some e) (st\<lparr>st_meta := meta\<rparr>) = Err (UniqueViolation (idx_name d)) \<and> idx_unique d \<and>
      collides (all_rows (env_chrono E) (Hs name) e))"
proof -
  note D = db_invD [OF assms(1)]
  let ?ix = "index_or_blank B st" and ?t = "data_or_blank B st name" and ?C = "env_chrono E" and ?I = "env_index E"
  have b: "block ?I ?ix (next_id reg) = {}" using D(10) by simp
  have id: "ent_id e = next_id reg" "ent_def e = d" "ent_table e = name" using assms(5) by simp_all
  have whole: "(\<lambda>q. aligned q []) = (\<lambda>q. True)" by simp
  have meta: "data_or_blank B (st\<lparr>st_meta := meta\<rparr>) n = data_or_blank B st n" "index_or_blank B (st\<lparr>st_meta := meta\<rparr>) = ?ix" for n
    by (simp_all add: data_or_blank_def index_or_blank_def)
  consider (ok) ix' where "maintenance_insert ?C (env_data E) ?I ?t [e] [] ?ix = (Ok (), ix')"
      "block ?I ix' (ent_id e) = all_rows ?C (Hs name) e" "\<And>k. outside [e] k \<Longrightarrow> contents ?I ix' k = contents ?I ?ix k"
    | (bad) ix' where "maintenance_insert ?C (env_data E) ?I ?t [e] [] ?ix = (Err (UniqueViolation (idx_name d)), ix')" "idx_unique d"
      "collides (all_rows ?C (Hs name) e)"
    using maintenance_insert_holds [OF D(1) D(6) [of name] D(7) [of name], of "[e]" ?ix "[]"] assms(6) b id whole by auto
  then show ?thesis
  proof cases
    case ok
    define st' where "st' = st\<lparr>st_meta := meta, st_data := (st_data st)(name \<mapsto> ?t), st_index := Some ix'\<rparr>"
    have run: "backfill E B name (Some e) (st\<lparr>st_meta := meta\<rparr>) = Ok st'"
      using ok(1) by (simp add: backfill_def meta Let_def apath_root_def st'_def)
    have blk: "block ?I ix' n = block ?I ?ix n" if "n \<noteq> next_id reg" for n
      by (rule block_cong, rule ok(3)) (use that id starts_with_id in \<open>auto simp: outside_def\<close>)
    have old: "ent_id x \<noteq> next_id reg" if "x \<in> set (reg_entries reg)" for x using D(5) that by (auto simp: registry_inv_def)
    have "synced ?C ?I ix' (Hs (ent_table x)) x" if "x \<in> set (reg_entries (registry_added reg name d))" for x
      using that ok(2) id assms(5) D(9) [of x] blk [OF old, of x] by (auto simp: added_entries synced_def)
    moreover have "block ?I ix' n = {}" if "next_id reg + 1 \<le> n" for n
      using that D(10) [of n] blk [of n] u32_increment [OF assms(3)] by force
    moreover have "index_or_blank B st' = ix'" "data_or_blank B st' n = data_or_blank B st n" for n
      by (simp_all add: st'_def index_or_blank_def data_or_blank_def)
    moreover have "registry_inv (registry_added reg name d)" using registry_inv_add [OF D(5) assms(2,3)] by (simp add: registry_added_def)
    ultimately have "db_inv E B (registry_added reg name d) Hs st'"
      unfolding db_inv_def using D(1-3,6-8) assms(4-6) by (auto simp: added_entries st'_def)
    then show ?thesis using run by blast
  next
    case bad
    then show ?thesis by (simp add: backfill_def meta Let_def apath_root_def)
  qed
qed

lemma create_index_keeps:
  assumes "db_inv E B reg Hs st" "registry_ok (registry_added reg name d)" "next_id reg \<noteq> 0xFFFFFFFF"
    and "find (entry_is name (idx_name d)) (reg_entries reg) = None"
    and "e = \<lparr>ent_table = name, ent_id = next_id reg, ent_def = d\<rparr>" "pattern_ok e"
  shows "(\<exists>st'. create_index_txn E B name d st = Ok st' \<and> db_inv E B (registry_added reg name d) Hs st') \<or>
    (create_index_txn E B name d st = Err (UniqueViolation (idx_name d)) \<and> idx_unique d \<and> collides (all_rows (env_chrono E) (Hs name) e))"
proof -
  note D = db_invD [OF assms(1)]
  obtain meta where meta: "registry_create (env_meta E) (st_meta st) name d = Ok (True, meta)"
    "holds_registry (env_meta E) meta (registry_added reg name d)"
    using create_cases [OF D(2,4) assms(2)] assms(3,4) by auto
  have "registry_lookup (env_meta E) meta name (idx_name d) = Ok (Some e)"
    using registry_load_holds [OF D(2) meta(2)] find_append_new [OF assms(4), of e] assms(5)
    by (simp add: registry_lookup_def added_entries entry_is_def)
  then have "create_index_txn E B name d st = backfill E B name (Some e) (st\<lparr>st_meta := meta\<rparr>)"
    using meta(1) by (simp add: create_index_txn_def)
  then show ?thesis using backfill_keeps [OF assms(1,4,3) meta(2) assms(5,6)] by simp
qed

lemma distinct_key_neq: "distinct (map f (a @ e # b)) \<Longrightarrow> x \<in> set (a @ b) \<Longrightarrow> f x \<noteq> f e"
  by (auto simp: image_iff)

lemma delete_index_keeps:
  assumes "db_inv E B reg Hs st"
  shows "\<exists>st' reg'. delete_index_txn E B name ix st = Ok (find (entry_is name ix) (reg_entries reg) \<noteq> None, st') \<and> db_inv E B reg' Hs st' \<and>
    next_id reg' = next_id reg \<and> set (reg_entries reg') = {e \<in> set (reg_entries reg). \<not> entry_is name ix e}"
proof -
  note D = db_invD [OF assms]
  let ?i = "index_or_blank B st" and ?C = "env_chrono E" and ?I = "env_index E"
  from delete_cases [OF D(2,4), of name ix] show ?thesis
  proof (elim disjE exE conjE)
    assume "find (entry_is name ix) (reg_entries reg) = None" "registry_delete (env_meta E) (st_meta st) name ix = Ok (None, st_meta st)"
    then show ?thesis using assms by (auto simp: delete_index_txn_def find_None_iff intro!: exI [of _ reg])
  next
    fix e a b meta assume e: "find (entry_is name ix) (reg_entries reg) = Some e" "reg_entries reg = a @ e # b"
      "registry_delete (env_meta E) (st_meta st) name ix = Ok (Some e, meta)" "holds_registry (env_meta E) meta (reg\<lparr>reg_entries := a @ b\<rparr>)"
    obtain ix' where ix': "maintenance_delete_all ?I e ?i = (Ok (), ix')"
      "contents ?I ix' = (\<lambda>k. if starts_with k (id_prefix (ent_id e)) then None else contents ?I ?i k)"
      using delete_all_rows [OF D(1)] by blast
    define st' where "st' = st\<lparr>st_meta := meta, st_index := Some ix'\<rparr>"
    have blk: "block ?I ix' n = block ?I ?i n" if "n \<noteq> ent_id e" for n
      by (rule block_cong) (use ix'(2) starts_with_id that in auto)
    have ids: "ent_id x \<noteq> ent_id e" if "x \<in> set (a @ b)" for x
      using D(5) unfolding registry_inv_def e(2) by (intro distinct_key_neq [OF _ that, where f = ent_id]) blast
    have "synced ?C ?I ix' (Hs (ent_table x)) x" if "x \<in> set (a @ b)" for x
      using D(9) [of x] blk [OF ids [OF that]] that e(2) by (auto simp: synced_def)
    moreover have "block ?I ix' n = {}" if "next_id reg \<le> n" for n
      using D(10) [OF that] blk [of n] ix'(2) by (cases "n = ent_id e") (auto simp: block_def)
    moreover have "index_or_blank B st' = ix'" "data_or_blank B st' n = data_or_blank B st n" for n
      by (simp_all add: st'_def index_or_blank_def data_or_blank_def)
    ultimately have "db_inv E B (reg\<lparr>reg_entries := a @ b\<rparr>) Hs st'"
      unfolding db_inv_def using D(1-3,6-8) e(2,4) registry_inv_remove [OF D(5) e(2)] by (auto simp: st'_def)
    moreover have "delete_index_txn E B name ix st = Ok (True, st')" using e(3) ix'(1) by (simp add: delete_index_txn_def st'_def)
    moreover have "set (a @ b) = {x \<in> set (reg_entries reg). \<not> entry_is name ix x}"
    proof -
      have "entry_is name ix e" using e(1) by (auto simp: find_Some_iff)
      moreover have "\<not> entry_is name ix x" if "x \<in> set (a @ b)" for x
      proof -
        have "(ent_table x, idx_name (ent_def x)) \<noteq> (ent_table e, idx_name (ent_def e))"
          using D(5) unfolding registry_inv_def e(2)
          by (intro distinct_key_neq [OF _ that, where f = "\<lambda>e. (ent_table e, idx_name (ent_def e))"]) blast
        then show ?thesis using \<open>entry_is name ix e\<close> by (auto simp: entry_is_def)
      qed
      ultimately show ?thesis unfolding e(2) by auto
    qed
    ultimately show ?thesis using e(1) by (intro exI [of _ st'] exI [of _ "reg\<lparr>reg_entries := a @ b\<rparr>"]) auto
  qed
qed

end
