(* ===== verification/Table_Properties.thy ===== *)
theory Table_Properties
  imports Scalar_Patch
begin

text \<open>
  The properties of the table operations, with a small concrete table on which each applies, and the
  cases in which an operation does not do what its documentation says.
\<close>

section \<open>A concrete table\<close>

text \<open>The file \<open>a/b\<close>, in a buffering transaction.\<close>

definition sample_heap :: heap where
  "sample_heap = [0 \<mapsto> DirN [(''a'', 1)], 1 \<mapsto> DirN [(''b'', 2)], 2 \<mapsto> FileN (blob_encode sample_doc)]"

definition sample_ctx :: "(akey, bytes) btree ctx" where
  "sample_ctx = \<lparr>ctx_data = [(0, dir_entry (encode_dir [(''a'', 1)])), (1, dir_entry (encode_dir [(''b'', 2)])),
     (2, file_entry (blob_encode sample_doc))], ctx_buf = wb_new True, ctx_rng = 1\<rparr>"

definition empty_ctx :: "(akey, bytes) btree ctx" where
  "empty_ctx = \<lparr>ctx_data = [], ctx_buf = wb_new True, ctx_rng = 1\<rparr>"

lemma short_names_utf8: "utf8 ''a'' \<and> utf8 ''b'' \<and> utf8 ''c'' \<and> utf8 ''d''"
  by code_simp

lemma sample_dirs_ok: "dir_ok [(''a'', 1)]" "dir_ok [(''b'', 2)]"
  using short_names_utf8 by (simp_all add: dir_ok_def bt_ok_def names_bytes_def ENTRY_def)

lemma sample_sees: "sees btree_redb sample_ctx sample_heap"
proof -
  have "ctx_ok btree_redb sample_ctx"
    by (simp add: ctx_ok_def btree_redb_ok wb_ok_def sample_ctx_def wb_new_def)
  moreover have "view btree_redb sample_ctx k = map_option enc_node (sample_heap k)" for k
    by (simp add: view_def sample_ctx_def wb_new_def sample_heap_def bt_get_Cons)
  ultimately show ?thesis using sample_dirs_ok by (auto simp: sees_def sample_heap_def split: if_splits)
qed

lemma sample_child: "child_at sample_heap k n = Some c \<longleftrightarrow> k = 0 \<and> n = ''a'' \<and> c = 1 \<or> k = 1 \<and> n = ''b'' \<and> c = 2"
  by (auto simp: child_at_def sample_heap_def split: if_splits)

lemma sample_tree: "tree sample_heap"
  unfolding tree_def sample_child
  using sample_dirs_ok by (auto simp: sample_heap_def akey_ROOT_def split: if_splits)

lemma sample_lookup: "lookup sample_heap 0 [''a'', ''b''] = Some 2" "lookup sample_heap 0 [''a''] = Some 1"
  by (simp_all add: sample_heap_def child_at_def)

lemma sample_files: "files_at sample_heap [] = Some Directory" "files_at sample_heap [''a''] = Some Directory"
  "files_at sample_heap [''a'', ''b''] = Some (Document (blob_encode sample_doc))"
  by (simp_all add: files_at_def akey_ROOT_def sample_heap_def child_at_def)

text \<open>A generated key below \<open>2 ^ 64\<close> comes from one state only.\<close>

lemma akey_generate_small:
  fixes d :: u64
  assumes "fst (akey_generate s) = ucast d"
  shows "s + gamma = 0"
proof -
  have "(push_bit 64 (ucast (mix64 (s + gamma))) OR ucast (mix64 (s + 2 * gamma)) :: u128)
      = push_bit 64 (ucast (0 :: u64)) OR ucast d"
    using assms by (simp add: akey_generate_eq)
  then have "mix64 (s + gamma) = mix64 0" using join_halves_eq [of "mix64 (s + gamma)"] by (simp add: mix64_def)
  then show ?thesis by (rule mix64_inj)
qed

lemma sample_fresh: "n \<le> 2 \<Longrightarrow> fresh_keys sample_heap n 1"
proof -
  assume n: "n \<le> 2"
  have big: "fst (akey_generate s) \<notin> {0, 1, 2}" if "s = 1 \<or> s = 1 + 2 * gamma" for s
  proof
    assume "fst (akey_generate s) \<in> {0, 1, 2}"
    then have "\<exists>d :: u64. fst (akey_generate s) = ucast d"
      by (auto intro: exI [of _ 0] exI [of _ 1] exI [of _ 2])
    then have "s + gamma = 0" using akey_generate_small by blast
    then show False using that by (auto simp: gamma_def)
  qed
  have "set (generate_many 2 1) \<inter> {0, 1, 2} = {}"
    using big [of 1] big [of "1 + 2 * gamma"]
    by (simp add: numeral_2_eq_2 split_beta akey_generate_eq)
  then have "fresh_keys sample_heap 2 1"
    by (auto simp: fresh_keys_def sample_heap_def split: if_splits)
  then show ?thesis using n by (rule fresh_keys_mono)
qed

lemma sample_roomy: "set ns \<subseteq> {''a'', ''b'', ''c'', ''d''} \<Longrightarrow> roomy sample_heap ns"
  using short_names_utf8
  by (auto simp: roomy_def sample_heap_def dir_weight_def ENTRY_def names_bytes_def split: if_splits)

lemma prefix_single: "prefix r [x] \<longleftrightarrow> r = [] \<or> r = [x]"
  by (cases r) auto

section \<open>Properties\<close>

text \<open>Storing a file. Provided no file lies on the way, \<open>store_value_into\<close> succeeds; afterwards the
  path holds exactly the encoded document, the directories above it exist, what was below the path
  is gone, and every other path holds what it held. The table is still a tree, so the next operation
  finds the same conditions.\<close>

theorem store_value_law:
  assumes "tree H" "sees R c H" "roomy H (q @ [n])" "fresh_keys H (Suc (length q)) (ctx_rng c)"
    and "depth_ok (files_at H) fuel" "length q < fuel"
    and "\<And>r b. prefix r q \<Longrightarrow> files_at H r \<noteq> Some (Document b)"
  shows "\<exists>c' H'. store_value_into fuel R (q @ [n]) v c = (Ok (), c') \<and> sees R c' H' \<and> tree H' \<and>
    files_at H' = graft (q @ [n]) (single (Document (blob_encode v))) (files_at H)"
  using store_blob_makes [OF assms, of "blob_encode v"] by (auto simp: makes_def store_value_into_def)

theorem store_value_law_witness:
  "\<exists>c' H'. store_value_into (2 ^ 128) btree_redb ([''a''] @ [''c'']) sample_doc sample_ctx = (Ok (), c') \<and>
    sees btree_redb c' H' \<and> tree H' \<and>
    files_at H' = graft ([''a''] @ [''c'']) (single (Document (blob_encode sample_doc))) (files_at sample_heap)"
proof (rule store_value_law [OF sample_tree sample_sees sample_roomy _ depth_bound [OF sample_tree]])
  show "fresh_keys sample_heap (Suc (length [''a''])) (ctx_rng sample_ctx)"
    using sample_fresh by (simp add: sample_ctx_def)
  show "prefix r [''a''] \<Longrightarrow> files_at sample_heap r \<noteq> Some (Document b)" for r b
    using sample_files by (auto simp: prefix_single)
qed simp_all

text \<open>Removing. When something is at the path, \<open>rm_into\<close> removes it with everything below it, reports
  \<open>true\<close> and touches no other path; when nothing is there it reports \<open>false\<close> and leaves the transaction
  as it was.\<close>

theorem rm_law:
  assumes "tree H" "sees R c H" "depth_ok (files_at H) fuel"
  shows "(files_at H (q @ [n]) = None \<longrightarrow> rm_into fuel R (q @ [n]) c = (Ok False, c)) \<and>
    (files_at H (q @ [n]) \<noteq> None \<longrightarrow> (\<exists>c' H'. rm_into fuel R (q @ [n]) c = (Ok True, c') \<and> sees R c' H' \<and> tree H' \<and>
       files_at H' = prune_at (q @ [n]) (files_at H)))"
  using rm_nothing [OF assms(1,2)] rm_makes [OF assms, of q n] by (auto simp: makes_def)

theorem rm_law_witness:
  "\<exists>c' H'. rm_into (2 ^ 128) btree_redb ([] @ [''a'']) sample_ctx = (Ok True, c') \<and> sees btree_redb c' H' \<and>
    tree H' \<and> files_at H' = prune_at ([] @ [''a'']) (files_at sample_heap)"
  using rm_law [OF sample_tree sample_sees depth_bound [OF sample_tree], of "[]" "''a''"] sample_files(2)
  by (simp only: append_Nil option.distinct simp_thms)

text \<open>Moving. When neither path lies above the other, \<open>mv_into\<close> succeeds; the destination then holds
  what the source held, all of it, nothing is left at the source, what was at the destination before
  is gone, and every other path holds what it held.\<close>

theorem mv_law:
  assumes "tree H" "sees R c H" "files_at H (p @ [sn]) \<noteq> None"
    and "\<not> prefix (p @ [sn]) (q @ [dn])" "\<not> prefix (q @ [dn]) (p @ [sn])"
    and "roomy H (q @ [dn])" "fresh_keys H (length q) (ctx_rng c)"
    and "depth_ok (files_at H) fuel" "length q < fuel"
    and "\<And>r b. prefix r q \<Longrightarrow> files_at H r \<noteq> Some (Document b)"
  shows "\<exists>c' H'. mv_into fuel R (p @ [sn]) (q @ [dn]) c = (Ok (), c') \<and> sees R c' H' \<and> tree H' \<and>
    files_at H' = graft (q @ [dn]) (subtree_at (p @ [sn]) (files_at H)) (prune_at (p @ [sn]) (files_at H))"
  using mv_makes [OF assms] by (auto simp: makes_def)

theorem mv_law_witness:
  "\<exists>c' H'. mv_into (2 ^ 128) btree_redb ([''a''] @ [''b'']) ([''d''] @ [''c'']) sample_ctx = (Ok (), c') \<and>
    sees btree_redb c' H' \<and> tree H' \<and>
    files_at H' = graft ([''d''] @ [''c'']) (subtree_at ([''a''] @ [''b'']) (files_at sample_heap))
      (prune_at ([''a''] @ [''b'']) (files_at sample_heap))"
proof (rule mv_law [OF sample_tree sample_sees _ _ _ sample_roomy _ depth_bound [OF sample_tree]])
  show "files_at sample_heap ([''a''] @ [''b'']) \<noteq> None" using sample_files(3) by simp
  show "fresh_keys sample_heap (length [''d'']) (ctx_rng sample_ctx)"
    using sample_fresh by (simp add: sample_ctx_def)
  have "files_at sample_heap [''d''] = None"
    by (simp add: files_at_def akey_ROOT_def sample_heap_def child_at_def)
  then show "prefix r [''d''] \<Longrightarrow> files_at sample_heap r \<noteq> Some (Document b)" for r b
    using sample_files by (auto simp: prefix_single)
qed simp_all

text \<open>C20: setting a scalar. In a stored document, \<open>put_scalar_into\<close> leaves exactly the document \<open>set_value\<close>
  makes of it, whether the bytes were patched in place or the document was encoded again, buffered
  or not, and with any hint that is stale by its epoch or names the file.\<close>

theorem put_scalar_law:
  assumes "tree H" "sees R c H" "lookup H akey_ROOT (q @ [n]) = Some k" "H k = Some (FileN (blob_encode v))"
    and "value_ok C v" "blob_fits v" "hint_ok c k hint"
  shows "\<exists>c' H'. put_scalar_into fuel C R (q @ [n]) hint at s c = (Ok (), c') \<and> sees R c' H' \<and> tree H' \<and>
    files_at H' = graft (q @ [n]) (single (Document (blob_encode (snd (set_in v at (Leaf s)))))) (files_at H)"
  using put_scalar_makes [OF assms(2-7), of fuel at s] overwrite_file [OF assms(1,3,4)] by (auto simp: makes_def)

theorem put_scalar_law_witness:
  "\<exists>c' H'. put_scalar_into 0 calendar btree_redb ([''a''] @ [''b'']) (Some (2, 0)) [Name ''tags'', Index 0] (U8 9) sample_ctx
      = (Ok (), c') \<and> sees btree_redb c' H' \<and> tree H' \<and>
    files_at H' = graft ([''a''] @ [''b'']) (single (Document (blob_encode
      (snd (set_in sample_doc [Name ''tags'', Index 0] (Leaf (U8 9))))))) (files_at sample_heap)"
proof (rule put_scalar_law [OF sample_tree sample_sees _ _ sample_doc_ok sample_doc_fits])
  show "lookup sample_heap akey_ROOT ([''a''] @ [''b'']) = Some 2" using sample_lookup by (simp add: akey_ROOT_def)
  show "sample_heap 2 = Some (FileN (blob_encode sample_doc))" by (simp add: sample_heap_def)
  show "hint_ok sample_ctx 2 (Some (2, 0))" by (simp add: hint_ok_def)
qed

text \<open>The flush. Taking the write buffer and writing it out succeeds, leaves the buffer empty, and
  makes the engine's table hold exactly what the transaction saw before, entry for entry.\<close>

theorem flush_persists:
  assumes "ctx_ok R c" "wb_take (ctx_buf c) = ((ds, fs), wb)"
  shows "\<exists>c'. flush_buffered R ds fs (c\<lparr>ctx_buf := wb\<rparr>) = (Ok (), c') \<and> ctx_ok R c' \<and>
    contents R (ctx_data c') = view R c \<and> view R c' = view R c"
  using flush_writes [OF assms] by (auto simp: writes_def)

theorem flush_persists_witness:
  "\<exists>c'. flush_buffered btree_redb [] [(2, file_entry [])]
      (sample_ctx\<lparr>ctx_buf := (wb_file_put 2 (file_entry []) (wb_new True))\<lparr>dirs_dirty := False, files_dirty := False, dirs := [], files := []\<rparr>\<rparr>) = (Ok (), c') \<and>
    ctx_ok btree_redb c' \<and>
    contents btree_redb (ctx_data c') = view btree_redb (sample_ctx\<lparr>ctx_buf := wb_file_put 2 (file_entry []) (wb_new True)\<rparr>) \<and>
    view btree_redb c' = view btree_redb (sample_ctx\<lparr>ctx_buf := wb_file_put 2 (file_entry []) (wb_new True)\<rparr>)"
proof -
  let ?c = "sample_ctx\<lparr>ctx_buf := wb_file_put 2 (file_entry []) (wb_new True)\<rparr>"
  have "ctx_ok btree_redb ?c"
    by (auto simp: ctx_ok_def btree_redb_ok wb_ok_def sample_ctx_def wb_new_def wb_file_put_def bt_get_Cons)
  moreover have "wb_take (ctx_buf ?c) = (([], [(2, file_entry [])]),
      (wb_file_put 2 (file_entry []) (wb_new True))\<lparr>dirs_dirty := False, files_dirty := False, dirs := [], files := []\<rparr>)"
    by (simp add: wb_take_def wb_file_put_def wb_new_def)
  ultimately show ?thesis using flush_persists [of btree_redb ?c] by simp
qed

section \<open>Error paths and defects\<close>

lemma ensure_from_blocked:
  assumes "sees R c H" "lookup H k (r @ [n]) = Some x" "H x = Some (FileN b)"
  shows "ensure_dir_from R k (r @ n # s) c = (Err (CannotAccess (quoted n @ '' is a file, not a directory'')), c)"
  using assms(2)
proof (induction r arbitrary: k)
  case Nil
  then show ?case
    using sees_child [OF assms(1), of k n] sees_kind [OF assms(1), of x] assms(3)
    by (simp add: bindOp_def split: option.splits)
next
  case (Cons y r)
  then obtain d where d: "child_at H k y = Some d" "lookup H d (r @ [n]) = Some x" by (auto split: option.splits)
  then have "child_at H d (hd (r @ [n])) \<noteq> None" by (cases r) (auto split: option.splits)
  then have "map_option kind_of (H d) = Some Dir" by (auto simp: child_at_def split: option.splits fnode.splits)
  then show ?case
    using Cons.IH [OF d(2)] sees_child [OF assms(1), of k y] sees_kind [OF assms(1), of d] d(1)
    by (simp add: bindOp_def)
qed

text \<open>A path through a file is refused. When a strict prefix of the path is a file, storing fails with
  \<open>CannotAccess\<close> naming the offending component, and the transaction is exactly as before.\<close>

theorem store_through_file_fails:
  assumes "tree H" "sees R c H" "files_at H (r @ [x]) = Some (Document b)"
  shows "store_value_into fuel R (r @ x # s @ [n]) v c =
    (Err (CannotAccess (quoted x @ '' is a file, not a directory'')), c)"
proof -
  obtain d where d: "lookup H akey_ROOT (r @ [x]) = Some d" "H d = Some (FileN b)"
    using assms(3) by (auto simp: files_at_def split: option.splits elim: shown.elims)
  then have "child_at H akey_ROOT (hd (r @ [x])) \<noteq> None" by (cases r) (auto split: option.splits)
  then have "H akey_ROOT \<noteq> None" by (auto simp: child_at_def split: option.splits)
  then have "ensure_dir R (r @ x # s) c = (Err (CannotAccess (quoted x @ '' is a file, not a directory'')), c)"
    using sees_has [OF assms(2), of akey_ROOT] ensure_from_blocked [OF assms(2) d]
    by (simp add: ensure_dir_def ensure_root_def bindOp_def seqOp_def)
  then show ?thesis
    using split_last_snoc [of "r @ x # s" n] by (simp add: store_value_into_def store_blob_into_def bindOp_def)
qed

theorem store_through_file_fails_witness:
  "store_value_into 0 btree_redb ([''a''] @ ''b'' # [] @ [''c'']) sample_doc sample_ctx =
    (Err (CannotAccess (quoted ''b'' @ '' is a file, not a directory'')), sample_ctx)"
  by (rule store_through_file_fails [OF sample_tree sample_sees]) (use sample_files(3) in simp)

lemma lookup_restrict_top:
  assumes "tree H" "lookup H akey_ROOT q = Some d" "q \<noteq> []" "prefix q r"
  shows "files_at (H |` (- below H d)) r = None"
proof -
  let ?H = "H |` (- below H d)"
  have q: "lookup ?H akey_ROOT q = lookup H akey_ROOT q"
  proof (rule lookup_cong)
    fix p x assume "strict_prefix p q" "lookup H akey_ROOT p = Some x"
    then have "x \<notin> below H d" using lookup_below [OF assms(1,2)] prefix_order.leD by blast
    then show "?H x = H x" by simp
  qed
  obtain s where r: "r = q @ s" using assms(4) by (auto simp: prefix_def)
  have "?H d = None" by (simp add: restrict_map_def)
  then have "lookup ?H d s = (if s = [] then Some d else None)" by (cases s) (simp_all add: child_at_def)
  then show ?thesis using q assms(2) \<open>?H d = None\<close> by (simp add: files_at_def r lookup_append)
qed

text \<open>Copying onto an ancestor destroys the source. When the destination lies above the source,
  \<open>cp_into\<close> deletes the destination subtree, the source with it, and only then fails to copy it: it
  returns an error with the deletion staged in the transaction.\<close>

theorem cp_onto_ancestor_destroys:
  assumes "tree H" "sees R c H" "files_at H (q @ dn # s @ [sn]) \<noteq> None"
    and "roomy H q" "fresh_keys H (length q) (ctx_rng c)" "depth_ok (files_at H) fuel" "length q < fuel" "0 < fuel"
  shows "\<exists>c' H'. cp_into fuel R (q @ dn # s @ [sn]) (q @ [dn]) c =
      (Err (Corrupt ''copying a missing a-node''), c') \<and> sees R c' H' \<and>
    (\<forall>r. prefix (q @ [dn]) r \<longrightarrow> files_at H' r = None)"
proof -
  obtain x where x: "lookup H akey_ROOT ((q @ [dn]) @ s @ [sn]) = Some x"
    using assms(3) by (auto simp: files_at_def split: option.splits)
  then obtain d where d: "lookup H akey_ROOT (q @ [dn]) = Some d" "lookup H d (s @ [sn]) = Some x"
    using lookup_prefix by blast
  then obtain k m where k: "lookup H akey_ROOT q = Some k" "H k = Some (DirN m)" "bt_get m dn = Some d"
    by (blast elim: parent_of)
  have nodoc: "files_at H r \<noteq> Some (Document b)" if "prefix r q" for r b
    using reach_above [OF k(1,2) that] by simp
  have "fresh_keys H (length q + 0) (ctx_rng c)" using assms(5) by simp
  from ensure_dir_makes [OF assms(1,2,4) this nodoc]
  obtain c1 H1 k1 m1 where e: "makes R c (ensure_dir R q) k1 H1 c1" "reached H q H1 k1 m1" by blast
  note r = reachedD [OF e(2)] and s1 = makes_sees [OF e(1)]
  have l1: "lookup H1 akey_ROOT (q @ [dn]) = Some d" "lookup H1 akey_ROOT ((q @ [dn]) @ s @ [sn]) = Some x"
    using r(6) d x by auto
  have bd: "bt_get m1 dn = Some d" using l1(1) r(2,3) by (simp add: lookup_snoc child_at_def)
  have "height_below H1 akey_ROOT fuel"
    using depth_ok_height [OF r(1)] depth_ok_mkdirs [OF assms(6,7)] r(5) by simp
  from clear_makes [OF r(1) s1 r(2,3) this, of dn]
  obtain c2 where c2: "makes R c1 (clear_destination fuel R k1 dn) () (H1 |` (- below H1 d)) c2" by (auto simp: bd)
  obtain key st where gen: "akey_generate (ctx_rng c2) = (key, st)" by force
  let ?c3 = "c2\<lparr>ctx_rng := st\<rparr>"
  have g: "makes R c2 generate_key key (H1 |` (- below H1 d)) ?c3" by (rule generate_makes [OF makes_sees [OF c2] gen])
  have "x \<in> below H1 d" using lookup_below [OF r(1) l1(1,2)] by simp
  then have "ctx_kind R ?c3 x = Ok None" using sees_kind [OF makes_sees [OF g], of x] by (simp add: restrict_map_def)
  then have "deep_copy fuel R x c2 = (Err (Corrupt ''copying a missing a-node''), ?c3)"
    using g assms(8) by (cases fuel) (simp_all add: bindOp_def makes_def)
  then have "cp_into fuel R (q @ dn # s @ [sn]) (q @ [dn]) c = (Err (Corrupt ''copying a missing a-node''), ?c3)"
    using sees_resolve [OF assms(2), of "q @ dn # s @ [sn]"] x e(1) c2
    by (simp add: cp_into_def makes_def bindOp_def seqOp_def)
  then show ?thesis using makes_sees [OF g] lookup_restrict_top [OF r(1) l1(1)] by blast
qed

theorem cp_onto_ancestor_destroys_witness:
  "\<exists>c' H'. cp_into (2 ^ 128) btree_redb ([] @ ''a'' # [] @ [''b'']) ([] @ [''a'']) sample_ctx =
      (Err (Corrupt ''copying a missing a-node''), c') \<and> sees btree_redb c' H' \<and> files_at H' [''a''] = None"
proof -
  have "\<exists>c' H'. cp_into (2 ^ 128) btree_redb ([] @ ''a'' # [] @ [''b'']) ([] @ [''a'']) sample_ctx =
      (Err (Corrupt ''copying a missing a-node''), c') \<and> sees btree_redb c' H' \<and>
      (\<forall>r. prefix ([] @ [''a'']) r \<longrightarrow> files_at H' r = None)"
    by (rule cp_onto_ancestor_destroys [OF sample_tree sample_sees _ sample_roomy _ depth_bound [OF sample_tree]])
      (use sample_files(3) sample_fresh in \<open>simp_all add: sample_ctx_def\<close>)
  then show ?thesis by auto
qed

lemma unlink_absent_makes:
  assumes "sees R c H" "H k = None"
  shows "\<exists>c'. makes R c (unlink_child R k n) () (H(k \<mapsto> DirN [])) c'"
proof -
  have "view R c k \<noteq> Some (file_entry b)" for b using assms by (simp add: sees_view)
  moreover have "dir_children R c k = Ok []" using assms by (simp add: dir_children_view sees_ok sees_view)
  moreover have e: "bt_remove n [] = []" by (simp add: bt_remove_def)
  ultimately show ?thesis
    using unlink_child_writes [OF sees_ok [OF assms(1)], of k "[]" n, unfolded e] dir_ok_Nil
      dir_makes [OF assms(1) dir_ok_Nil, where x = "()"] by blast
qed

text \<open>Moving onto an ancestor loses the moved subtree. When the destination lies above the source,
  \<open>mv_into\<close> deletes the destination subtree, and the source with it, links the destination to the a-node
  it just deleted, and reports success: nothing is left at either path.\<close>

theorem mv_onto_ancestor_loses:
  assumes "tree H" "sees R c H" "files_at H (q @ dn # s @ [sn]) \<noteq> None"
    and "roomy H (q @ [dn])" "fresh_keys H (length q) (ctx_rng c)" "depth_ok (files_at H) fuel" "length q < fuel"
  shows "\<exists>c' H'. mv_into fuel R (q @ dn # s @ [sn]) (q @ [dn]) c = (Ok (), c') \<and> sees R c' H' \<and>
    (\<forall>r. prefix (q @ [dn]) r \<longrightarrow> files_at H' r = None)"
proof -
  obtain x where x: "lookup H akey_ROOT (((q @ [dn]) @ s) @ [sn]) = Some x"
    using assms(3) by (auto simp: files_at_def split: option.splits)
  then obtain ks ms where ks: "lookup H akey_ROOT ((q @ [dn]) @ s) = Some ks" "H ks = Some (DirN ms)" "bt_get ms sn = Some x"
    by (rule parent_of)
  then obtain d where d: "lookup H akey_ROOT (q @ [dn]) = Some d" using lookup_prefix by blast
  then obtain k m where k: "lookup H akey_ROOT q = Some k" "H k = Some (DirN m)" by (blast elim: parent_of)
  have nodoc: "files_at H r \<noteq> Some (Document b)" if "prefix r q" for r b
    using reach_above [OF k that] by simp
  have "roomy H q" "fresh_keys H (length q + 0) (ctx_rng c)" using assms(4,5) by (simp_all add: roomy_def)
  from ensure_dir_makes [OF assms(1,2) this nodoc]
  obtain c1 H1 k1 m1 where e: "makes R c (ensure_dir R q) k1 H1 c1" "reached H q H1 k1 m1" by blast
  note r = reachedD [OF e(2)] and s1 = makes_sees [OF e(1)]
  have l1: "lookup H1 akey_ROOT (q @ [dn]) = Some d" "lookup H1 akey_ROOT ((q @ [dn]) @ s) = Some ks"
    "lookup H1 akey_ROOT (((q @ [dn]) @ s) @ [sn]) = Some x" using r(6) d ks(1) x by blast+
  have bd: "bt_get m1 dn = Some d" using l1(1) r(2,3) by (simp add: lookup_snoc child_at_def)
  let ?D = "below H1 d"
  have D: "ks \<in> ?D" "x \<in> ?D" "k1 \<notin> ?D"
    using lookup_below [OF r(1) l1(1) l1(2)] lookup_below [OF r(1) l1(1) l1(3)] lookup_below [OF r(1) l1(1) r(2)]
    by (auto dest: prefix_length_le)
  have xks: "x \<noteq> ks" using lookup_inj [OF r(1) l1(2)] l1(3) by (metis append_self_conv list.discI)
  have "height_below H1 akey_ROOT fuel"
    using depth_ok_height [OF r(1)] depth_ok_mkdirs [OF assms(6,7)] r(5) by simp
  from clear_makes [OF r(1) s1 r(2,3) this, of dn]
  obtain c2 where c2: "makes R c1 (clear_destination fuel R k1 dn) () (H1 |` (- ?D)) c2" by (auto simp: bd)
  have ok: "dir_ok (bt_insert dn x m1)"
    using roomy_insert [OF assms(4), of dn k1 m1] r(4) tree_dir_ok [OF r(1,3)] by simp
  obtain c3 where c3: "makes R c2 (link_child R k1 dn x) () ((H1 |` (- ?D))(k1 \<mapsto> DirN (bt_insert dn x m1))) c3"
    using link_makes [OF makes_sees [OF c2], of k1 m1 dn x] D(3) r(3) ok by auto
  let ?H = "(H1 |` (- ?D))(k1 \<mapsto> DirN (bt_insert dn x m1), ks \<mapsto> DirN [])"
  have "ks \<noteq> k1" using D by auto
  then obtain c4 where c4: "makes R c3 (unlink_child R ks sn) () ?H c4"
    using unlink_absent_makes [OF makes_sees [OF c3], of ks sn] D(1) by (auto simp: restrict_map_def)
  have "child_at H ks sn = Some x" using ks(2,3) by (simp add: child_at_def)
  then have "mv_into fuel R (((q @ [dn]) @ s) @ [sn]) (q @ [dn]) c = (Ok (), c4)"
    using sees_resolve [OF assms(2), of "(q @ [dn]) @ s"] sees_child [OF assms(2), of ks sn] ks(1) e(1) c2 c3 c4
    unfolding mv_into_def split_last_snoc by (simp add: makes_def bindOp_def seqOp_def)
  moreover have "files_at ?H r = None" if pre: "prefix (q @ [dn]) r" for r
  proof -
    have "lookup ?H akey_ROOT q = lookup H1 akey_ROOT q"
    proof (rule lookup_cong)
      fix p y assume p: "strict_prefix p q" "lookup H1 akey_ROOT p = Some y"
      then have "y \<notin> ?D" "y \<noteq> k1"
        using lookup_below [OF r(1) l1(1) p(2)] lookup_inj [OF r(1) r(2), of p] p(2)
          prefix_length_less [OF p(1)] prefix_length_le [of "q @ [dn]" p] by auto
      then show "?H y = H1 y" using D(1) by auto
    qed
    moreover obtain t where t: "r = q @ dn # t" using pre by (auto simp: prefix_def)
    moreover have "child_at ?H k1 dn = Some x" using \<open>ks \<noteq> k1\<close> by (simp add: child_at_def)
    moreover have "?H x = None" using D xks by (auto simp: restrict_map_def)
    moreover from this have "lookup ?H x t = (if t = [] then Some x else None)" by (cases t) (simp_all add: child_at_def)
    ultimately show ?thesis using r(2) by (simp add: files_at_def lookup_append)
  qed
  ultimately show ?thesis using makes_sees [OF c4] by auto
qed

theorem mv_onto_ancestor_loses_witness:
  "\<exists>c' H'. mv_into (2 ^ 128) btree_redb ([] @ ''a'' # [] @ [''b'']) ([] @ [''a'']) sample_ctx = (Ok (), c') \<and>
    sees btree_redb c' H' \<and> files_at H' [''a''] = None"
proof -
  have "\<exists>c' H'. mv_into (2 ^ 128) btree_redb ([] @ ''a'' # [] @ [''b'']) ([] @ [''a'']) sample_ctx = (Ok (), c') \<and>
      sees btree_redb c' H' \<and> (\<forall>r. prefix ([] @ [''a'']) r \<longrightarrow> files_at H' r = None)"
    by (rule mv_onto_ancestor_loses [OF sample_tree sample_sees _ sample_roomy _ depth_bound [OF sample_tree]])
      (use sample_files(3) sample_fresh in \<open>simp_all add: sample_ctx_def\<close>)
  then show ?thesis by auto
qed

text \<open>Where nothing readable is at the path, \<open>put_scalar_into\<close> stores a new document.\<close>

lemma put_scalar_stores:
  assumes "resolve_target R c path hint = Ok (akey, None)"
  shows "put_scalar_into fuel C R path hint at s c = store_value_into fuel R path (snd (set_in value_default at (Leaf s))) c"
  using assms by (simp add: put_scalar_into_def bindOp_def split: option.split)

lemma set_in_default: "snd (set_in value_default at v) = (if at = [] then v else Leaf Null)"
  by (cases at) (simp_all add: value_default_def)

text \<open>Setting a scalar in a file that does not exist creates it, but the scalar reaches it only when the
  path inside the document is the root; at any other path the new file holds \<open>null\<close>, the scalar is
  dropped, and the operation reports success.\<close>

theorem put_scalar_absent_file:
  assumes "tree H" "sees R c H" "roomy H (q @ [n])" "fresh_keys H (Suc (length q)) (ctx_rng c)"
    and "depth_ok (files_at H) fuel" "length q < fuel"
    and "\<And>r b. prefix r q \<Longrightarrow> files_at H r \<noteq> Some (Document b)" "files_at H (q @ [n]) = None"
  shows "\<exists>c' H'. put_scalar_into fuel C R (q @ [n]) None at s c = (Ok (), c') \<and> sees R c' H' \<and> tree H' \<and>
    files_at H' = graft (q @ [n]) (single (Document (blob_encode (if at = [] then Leaf s else Leaf Null)))) (files_at H)"
proof -
  have "lookup H akey_ROOT (q @ [n]) = None" using files_at_lookup [OF assms(1), of "q @ [n]"] assms(8) by simp
  then have "resolve_target R c (q @ [n]) None = Ok (None, None)"
    using sees_resolve [OF assms(2), of "q @ [n]"] by (simp add: resolve_target_def resolve_and_read_def)
  from put_scalar_stores [OF this] show ?thesis
    using store_blob_makes [OF assms(1-7), of "blob_encode (if at = [] then Leaf s else Leaf Null)"]
    by (auto simp: makes_def store_value_into_def set_in_default)
qed

theorem put_scalar_absent_file_witness:
  "\<exists>c' H'. put_scalar_into (2 ^ 128) calendar btree_redb ([''a''] @ [''c'']) None [Name ''x''] (U8 9) sample_ctx = (Ok (), c') \<and>
    sees btree_redb c' H' \<and> tree H' \<and> files_at H' = graft ([''a''] @ [''c''])
      (single (Document (blob_encode (if [Name ''x''] = [] then Leaf (U8 9) else Leaf Null)))) (files_at sample_heap)"
proof (rule put_scalar_absent_file [OF sample_tree sample_sees sample_roomy _ depth_bound [OF sample_tree]])
  show "fresh_keys sample_heap (Suc (length [''a''])) (ctx_rng sample_ctx)"
    using sample_fresh by (simp add: sample_ctx_def)
  show "prefix r [''a''] \<Longrightarrow> files_at sample_heap r \<noteq> Some (Document b)" for r b
    using sample_files by (auto simp: prefix_single)
  show "files_at sample_heap ([''a''] @ [''c'']) = None"
    by (simp add: files_at_def akey_ROOT_def sample_heap_def child_at_def)
qed simp_all

text \<open>Setting a scalar on a directory depends on whether the directory is already in the engine. If it
  is, the operation is refused and changes nothing; if it was created in this transaction and is still
  only in the write buffer, the operation deletes the directory with everything in it, puts a file in its place,
  and reports success.\<close>

theorem put_scalar_on_directory:
  assumes "tree H" "sees R c H" "lookup H akey_ROOT (q @ [n]) = Some k" "H k = Some (DirN m)"
    and "roomy H (q @ [n])" "fresh_keys H (Suc (length q)) (ctx_rng c)" "depth_ok (files_at H) fuel" "length q < fuel"
  shows "(contents R (ctx_data c) k = Some (dir_entry e) \<longrightarrow>
      put_scalar_into fuel C R (q @ [n]) None at s c =
        (Err (CannotAccess (quoted (apath_display (q @ [n])) @ '' is a directory, not a file'')), c)) \<and>
    (contents R (ctx_data c) k = None \<longrightarrow>
      (\<exists>c' H'. put_scalar_into fuel C R (q @ [n]) None at s c = (Ok (), c') \<and> sees R c' H' \<and> tree H' \<and>
        files_at H' = graft (q @ [n]) (single (Document (blob_encode (if at = [] then Leaf s else Leaf Null)))) (files_at H)))"
proof -
  have "map_of (files (ctx_buf c)) k = None"
    using not_buffered_file' [OF sees_ok [OF assms(2)], of k] assms(2,4) by (simp add: sees_view)
  then have rv: "read_verified R c k = Ok (contents R (ctx_data c) k)"
    using sees_ok [OF assms(2)]
    by (simp add: read_verified_def file_get_eq read_entry_def redb_get [OF ctx_ok_redb])
  have target: "resolve_target R c (q @ [n]) None = Ok (Some k, contents R (ctx_data c) k)"
    using sees_resolve [OF assms(2), of "q @ [n]"] assms(3) rv by (simp add: resolve_target_def resolve_and_read_def)
  have "put_scalar_into fuel C R (q @ [n]) None at s c =
        (Err (CannotAccess (quoted (apath_display (q @ [n])) @ '' is a directory, not a file'')), c)"
    if "contents R (ctx_data c) k = Some (dir_entry e)"
    using target that by (simp add: put_scalar_into_def bindOp_def patch_scalar_def)
  moreover obtain x m' where x: "lookup H akey_ROOT q = Some x" "H x = Some (DirN m')"
    using assms(3) by (rule parent_of)
  have "files_at H r \<noteq> Some (Document b)" if "prefix r q" for r b using reach_above [OF x that] by simp
  note store = store_blob_makes [OF assms(1,2,5-8) this, of "blob_encode (if at = [] then Leaf s else Leaf Null)"]
  have "\<exists>c' H'. put_scalar_into fuel C R (q @ [n]) None at s c = (Ok (), c') \<and> sees R c' H' \<and> tree H' \<and>
      files_at H' = graft (q @ [n]) (single (Document (blob_encode (if at = [] then Leaf s else Leaf Null)))) (files_at H)"
    if "contents R (ctx_data c) k = None"
    using store put_scalar_stores [of R c "q @ [n]" None "Some k"] target that
    by (auto simp: makes_def store_value_into_def set_in_default)
  ultimately show ?thesis by blast
qed

text \<open>The sample table again, with both directories new in this transaction.\<close>

definition fresh_dirs_ctx :: "(akey, bytes) btree ctx" where
  "fresh_dirs_ctx = \<lparr>ctx_data = [(2, file_entry (blob_encode sample_doc))],
     ctx_buf = (wb_new True)\<lparr>dirs_dirty := True, dirs := [(0, [(''a'', 1)]), (1, [(''b'', 2)])]\<rparr>, ctx_rng = 1\<rparr>"

lemma fresh_dirs_sees: "sees btree_redb fresh_dirs_ctx sample_heap"
proof -
  have "ctx_ok btree_redb fresh_dirs_ctx"
    using sample_dirs_ok by (simp add: ctx_ok_def btree_redb_ok wb_ok_def fresh_dirs_ctx_def wb_new_def)
  moreover have "view btree_redb fresh_dirs_ctx k = map_option enc_node (sample_heap k)" for k
    by (simp add: view_def fresh_dirs_ctx_def wb_new_def sample_heap_def bt_get_Cons)
  ultimately show ?thesis using sample_dirs_ok by (auto simp: sees_def sample_heap_def split: if_splits)
qed

theorem put_scalar_on_directory_witness:
  "\<exists>c' H'. put_scalar_into (2 ^ 128) calendar btree_redb ([] @ [''a'']) None [] (U8 9) fresh_dirs_ctx = (Ok (), c') \<and>
    sees btree_redb c' H' \<and> tree H' \<and>
    files_at H' = graft ([] @ [''a'']) (single (Document (blob_encode (if [] = ([] :: vpath) then Leaf (U8 9) else Leaf Null)))) (files_at sample_heap)"
proof -
  have "contents btree_redb (ctx_data fresh_dirs_ctx) 1 = None" by (simp add: fresh_dirs_ctx_def)
  moreover have "lookup sample_heap akey_ROOT ([] @ [''a'']) = Some 1" using sample_lookup(2) by (simp add: akey_ROOT_def)
  moreover have "sample_heap 1 = Some (DirN [(''b'', 2)])" by (simp add: sample_heap_def)
  moreover have "roomy sample_heap ([] @ [''a''])" by (rule sample_roomy) simp
  moreover have "fresh_keys sample_heap (Suc (length ([] :: apath))) (ctx_rng fresh_dirs_ctx)"
    using sample_fresh by (simp add: fresh_dirs_ctx_def)
  moreover have "length ([] :: apath) < 2 ^ 128" by simp
  ultimately show ?thesis
    using put_scalar_on_directory [OF sample_tree fresh_dirs_sees, of "[]" "''a''" 1 "[(''b'', 2)]" "2 ^ 128" "[]"
      calendar "[]" "U8 9"] depth_bound [OF sample_tree] by blast
qed

end
