(* ===== verification/Txn_Properties.thy ===== *)
theory Txn_Properties
  imports Txn_Laws Table_Properties
begin

text \<open>
  The properties of write transactions: every bracketed mutation keeps all indexes of its table in
  step with the documents, or is refused by a unique index; and the mutation that is not bracketed does
  not.
\<close>

section \<open>A concrete indexed transaction\<close>

text \<open>The sample table with the sample index on \<open>users/*\<close>, which matches nothing yet.\<close>

definition sample_env :: "((akey, bytes) btree, (bytes, bytes) btree, (string, bytes) btree) env" where
  "sample_env = \<lparr>env_data = btree_redb, env_index = btree_redb, env_meta = btree_redb, env_chrono = calendar,
     env_fuel = 2 ^ 128\<rparr>"

definition sample_txn :: "((akey, bytes) btree, (bytes, bytes) btree, (string, bytes) btree) write_txn" where
  "sample_txn = write_txn_new (ctx_data sample_ctx) [] [(''index_registry'', registry_bytes sample_registry)] ''t'' True 1"

lemma sample_env_simps [simp]: "env_data sample_env = btree_redb" "env_index sample_env = btree_redb"
  "env_meta sample_env = btree_redb" "env_chrono sample_env = calendar" "env_fuel sample_env = 2 ^ 128"
  by (simp_all add: sample_env_def)

lemma sample_txn_sees: "sees btree_redb (tx_ctx sample_txn) sample_heap"
proof -
  have "ctx_ok btree_redb (tx_ctx sample_txn)"
    by (simp add: ctx_ok_def btree_redb_ok wb_ok_def sample_txn_def write_txn_new_def wb_new_def)
  moreover have "view btree_redb (tx_ctx sample_txn) k = map_option enc_node (sample_heap k)" for k
    using sees_view [OF sample_sees, of k] by (simp add: view_def sample_txn_def write_txn_new_def sample_ctx_def wb_new_def)
  ultimately show ?thesis using sees_dir_ok [OF sample_sees] by (auto simp: sees_def)
qed

lemma sample_docs: "docs_ok calendar (files_at sample_heap)"
  using sample_doc_ok sample_doc_fits
  by (auto simp: docs_ok_def files_at_def sample_heap_def split: option.splits if_splits)

lemma sample_rows: "all_rows calendar sample_heap sample_entry = {}"
proof -
  have "lookup sample_heap akey_ROOT q \<noteq> Some k" if "matches (entry_segs sample_entry) q" for q k
    using that by (auto simp: sample_entry_segs sample_child akey_ROOT_def split: option.splits)
  then show ?thesis by (auto simp: rows_def)
qed

lemma sample_inv: "txn_inv sample_env sample_txn sample_heap [sample_entry]"
proof -
  have "txn_indexes sample_env sample_txn = Ok [sample_entry]"
    using registry_load_holds [OF btree_redb_ok sample_registry_holds]
    by (simp add: txn_indexes_def registry_for_table_def sample_txn_def write_txn_new_def sample_registry_def sample_entry_def)
  moreover have "synced calendar btree_redb (tx_index sample_txn) sample_heap sample_entry"
    by (simp add: synced_def sample_rows block_def sample_txn_def write_txn_new_def)
  moreover have "pattern_ok sample_entry" using sample_segs by (simp add: pattern_ok_def sample_entry_segs)
  moreover have "tx_indexed sample_txn" by (simp add: sample_txn_def write_txn_new_def)
  ultimately show ?thesis
    using sample_txn_sees sample_tree sample_docs btree_redb_ok by (simp add: txn_inv_def)
qed

lemma sample_txn_rng: "ctx_rng (tx_ctx sample_txn) = 1"
  by (simp add: sample_txn_def write_txn_new_def)

lemma sample_not_unique: "\<not> idx_unique (ent_def sample_entry)"
  by (simp add: sample_entry_def sample_def_def)

lemma sample_users_roomy: "roomy sample_heap [''users'', ''u'']"
proof -
  have "utf8 ''users'' \<and> utf8 ''u''" by code_simp
  then show ?thesis
    by (auto simp: roomy_def sample_heap_def dir_weight_def ENTRY_def names_bytes_def split: if_splits)
qed

lemma sample_users_absent: "prefix r [''users''] \<Longrightarrow> files_at sample_heap r \<noteq> Some (Document b)"
proof -
  have "files_at sample_heap [''users''] = None"
    by (simp add: files_at_def akey_ROOT_def sample_heap_def child_at_def)
  then show "prefix r [''users''] \<Longrightarrow> files_at sample_heap r \<noteq> Some (Document b)"
    using sample_files(1) by (auto simp: prefix_single)
qed

lemma reindexed_nonunique:
  assumes "reindexed E app x s F es" "\<And>e. e \<in> set es \<Longrightarrow> \<not> idx_unique (ent_def e)"
  shows "\<exists>s' H'. app s = (Ok x, s') \<and> txn_inv E s' H' es \<and> files_at H' = F"
  using assms unfolding reindexed_def by blast

section \<open>Properties\<close>

text \<open>Storing keeps the indexes in step. In a transaction whose indexes have exactly the rows of the
  documents, \<open>store_value_at\<close> either stores the document and leaves every index with exactly the rows of
  the new state, reading only what lies on the path, or reports \<open>UniqueViolation\<close>, naming an index whose
  columns two a-nodes of the new state share. A state that violates no unique index is never
  refused.\<close>

theorem store_value_synced:
  assumes "txn_inv E s H es" "roomy H (q @ [n])" "fresh_keys H (Suc (length q)) (ctx_rng (tx_ctx s))"
    and "depth_ok (files_at H) (env_fuel E)" "length q < env_fuel E"
    and "\<And>r b. prefix r q \<Longrightarrow> files_at H r \<noteq> Some (Document b)" "value_ok (env_chrono E) v" "blob_fits v"
  shows "reindexed E (store_value_at E (q @ [n]) v) () s
    (graft (q @ [n]) (single (Document (blob_encode v))) (files_at H)) es"
proof -
  note ch = store_changes [OF txn_invD(2,3) [OF assms(1)] assms(2-8)]
  show ?thesis using reindex_around_law [OF assms(1) ch] by (simp add: store_value_at_def apath_is_root_def)
qed

theorem store_value_synced_witness:
  "\<exists>s' H'. store_value_at sample_env ([''users''] @ [''u'']) sample_doc sample_txn = (Ok (), s') \<and>
    txn_inv sample_env s' H' [sample_entry] \<and>
    files_at H' = graft ([''users''] @ [''u'']) (single (Document (blob_encode sample_doc))) (files_at sample_heap)"
proof (rule reindexed_nonunique [OF store_value_synced [OF sample_inv]])
  show "roomy sample_heap ([''users''] @ [''u''])" using sample_users_roomy by simp
  show "fresh_keys sample_heap (Suc (length [''users''])) (ctx_rng (tx_ctx sample_txn))"
    using sample_fresh by (simp add: sample_txn_rng)
  show "depth_ok (files_at sample_heap) (env_fuel sample_env)" using depth_bound [OF sample_tree] by simp
qed (use sample_users_absent sample_doc_ok sample_doc_fits sample_not_unique in auto)

text \<open>Removing keeps the indexes in step, and always succeeds or is refused by a unique index that the
  table violated before; it reports whether something was there.\<close>

theorem rm_synced:
  assumes "txn_inv E s H es" "depth_ok (files_at H) (env_fuel E)"
  shows "reindexed E (txn_rm E (ABuilt (q @ [n]))) (files_at H (q @ [n]) \<noteq> None) s (prune_at (q @ [n]) (files_at H)) es"
proof -
  note ch = rm_changes [OF txn_invD(2,3) [OF assms(1)] assms(2)]
  have "txn_rm E (ABuilt (q @ [n])) = reindex_around E [q @ [n]] (rm_into (env_fuel E) (env_data E) (q @ [n]))"
    by (simp add: txn_rm_def apath_is_root_def fun_eq_iff bindOp_def)
  then show ?thesis using reindex_around_law [OF assms(1) ch] by simp
qed

theorem rm_synced_witness:
  "\<exists>s' H'. txn_rm sample_env (ABuilt ([''a''] @ [''b''])) sample_txn = (Ok (files_at sample_heap ([''a''] @ [''b'']) \<noteq> None), s') \<and>
    txn_inv sample_env s' H' [sample_entry] \<and> files_at H' = prune_at ([''a''] @ [''b'']) (files_at sample_heap)"
  by (rule reindexed_nonunique [OF rm_synced [OF sample_inv]]) (use depth_bound [OF sample_tree] sample_not_unique in auto)

text \<open>Moving keeps the indexes in step. Both the path an a-node leaves and the one it reaches are
  reindexed, and nothing else needs to be.\<close>

theorem mv_synced:
  assumes "txn_inv E s H es" "files_at H (p @ [sn]) \<noteq> None"
    and "\<not> prefix (p @ [sn]) (q @ [dn])" "\<not> prefix (q @ [dn]) (p @ [sn])"
    and "roomy H (q @ [dn])" "fresh_keys H (length q) (ctx_rng (tx_ctx s))"
    and "depth_ok (files_at H) (env_fuel E)" "length q < env_fuel E"
    and "\<And>r b. prefix r q \<Longrightarrow> files_at H r \<noteq> Some (Document b)"
  shows "reindexed E (txn_mv E (ABuilt (p @ [sn])) (ABuilt (q @ [dn]))) () s
    (graft (q @ [dn]) (subtree_at (p @ [sn]) (files_at H)) (prune_at (p @ [sn]) (files_at H))) es"
proof -
  note ch = mv_changes [OF txn_invD(2,3) [OF assms(1)] assms(2-9)]
  have "\<not> names_start_with (q @ [dn]) (p @ [sn])"
    using assms(3) unfolding names_start_with_def by (metis take_is_prefix)
  then have "txn_mv E (ABuilt (p @ [sn])) (ABuilt (q @ [dn])) =
      reindex_around E [p @ [sn], q @ [dn]] (mv_into (env_fuel E) (env_data E) (p @ [sn]) (q @ [dn]))"
    by (simp add: txn_mv_def apath_is_root_def fun_eq_iff bindOp_def)
  then show ?thesis using reindex_around_law [OF assms(1) ch] by simp
qed

theorem mv_synced_witness:
  "\<exists>s' H'. txn_mv sample_env (ABuilt ([''a''] @ [''b''])) (ABuilt ([''users''] @ [''u''])) sample_txn = (Ok (), s') \<and>
    txn_inv sample_env s' H' [sample_entry] \<and>
    files_at H' = graft ([''users''] @ [''u'']) (subtree_at ([''a''] @ [''b'']) (files_at sample_heap))
      (prune_at ([''a''] @ [''b'']) (files_at sample_heap))"
proof (rule reindexed_nonunique [OF mv_synced [OF sample_inv]])
  show "files_at sample_heap ([''a''] @ [''b'']) \<noteq> None" using sample_files(3) by simp
  show "roomy sample_heap ([''users''] @ [''u''])" using sample_users_roomy by simp
  show "fresh_keys sample_heap (length [''users'']) (ctx_rng (tx_ctx sample_txn))"
    using sample_fresh by (simp add: sample_txn_rng)
  show "depth_ok (files_at sample_heap) (env_fuel sample_env)" using depth_bound [OF sample_tree] by simp
qed (use sample_users_absent sample_not_unique in auto)

text \<open>Setting a scalar keeps the indexes in step, patched in place or not, and through a cursor whose key
  hint is still current or already stale.\<close>

theorem put_scalar_synced:
  assumes "txn_inv E s H es" "lookup H akey_ROOT (q @ [n]) = Some k" "H k = Some (FileN (blob_encode v))"
    and "value_ok (env_chrono E) v" "blob_fits v" "hint_ok (tx_ctx s) k hint"
    and "value_ok (env_chrono E) (snd (set_in v at (Leaf x)))" "blob_fits (snd (set_in v at (Leaf x)))"
  shows "reindexed E (put_scalar_at E (q @ [n]) hint at x) () s
    (graft (q @ [n]) (single (Document (blob_encode (snd (set_in v at (Leaf x)))))) (files_at H)) es"
  using reindex_around_law [OF assms(1) put_scalar_changes [OF txn_invD(2,3) [OF assms(1)] assms(2-8)]]
  by (simp add: put_scalar_at_def)

theorem put_scalar_synced_witness:
  "\<exists>s' H'. put_scalar_at sample_env ([''a''] @ [''b'']) (Some (2, 0)) [] Null sample_txn = (Ok (), s') \<and>
    txn_inv sample_env s' H' [sample_entry] \<and>
    files_at H' = graft ([''a''] @ [''b'']) (single (Document (blob_encode (snd (set_in sample_doc [] (Leaf Null)))))) (files_at sample_heap)"
proof (rule reindexed_nonunique [OF put_scalar_synced [OF sample_inv]])
  show "lookup sample_heap akey_ROOT ([''a''] @ [''b'']) = Some 2" using sample_lookup by (simp add: akey_ROOT_def)
  show "sample_heap 2 = Some (FileN (blob_encode sample_doc))" by (simp add: sample_heap_def)
  show "hint_ok (tx_ctx sample_txn) 2 (Some (2, 0))" by (simp add: hint_ok_def)
  show "blob_fits (snd (set_in sample_doc [] (Leaf Null)))"
    by (simp add: blob_fits_def blob_encode_eq)
qed (use sample_doc_ok sample_doc_fits sample_not_unique in auto)

text \<open>C36: creating a directory is not bracketed. When an index pattern matches the new directory, \<open>mkdir\<close> leaves that
  index without the row that storing a file below it would have given it: the index is out of step
  with the table until the directory is next reindexed.\<close>

theorem mkdir_leaves_index_behind:
  assumes "txn_inv E s H es" "e \<in> set es" "matches (entry_segs e) p" "files_at H p = None" "p \<noteq> []"
    and "roomy H p" "fresh_keys H (length p) (ctx_rng (tx_ctx s))"
    and "\<And>r b. prefix r p \<Longrightarrow> files_at H r \<noteq> Some (Document b)"
  shows "\<exists>s' H'. txn_mkdir E (ABuilt p) s = (Ok (), s') \<and> sees (env_data E) (tx_ctx s') H' \<and> tree H' \<and>
    files_at H' = mkdirs p (files_at H) \<and> \<not> synced (env_chrono E) (env_index E) (tx_index s') H' e"
proof -
  let ?C = "env_chrono E"
  note inv = txn_invD [OF assms(1)]
  have "fresh_keys H (length p + 0) (ctx_rng (tx_ctx s))" using assms(7) by simp
  from ensure_dir_makes [OF inv(2,1) assms(6) this assms(8)]
  obtain c' H' k m where e: "makes (env_data E) (tx_ctx s) (ensure_dir (env_data E) p) k H' c'" "reached H p H' k m"
    by blast
  note r = reachedD [OF e(2)]
  let ?s = "s\<lparr>tx_ctx := c'\<rparr>"
  have "\<not> synced ?C (env_index E) (tx_index ?s) H' e"
  proof
    assume "synced ?C (env_index E) (tx_index ?s) H' e"
    then have "all_rows ?C H' e = all_rows ?C H e" using inv(9) [OF assms(2)] by (simp add: synced_def)
    moreover have "index_row ?C e (files_at H' p) k \<in> all_rows ?C H' e" unfolding rows_def using assms(3) r(2) by blast
    ultimately obtain q x where q: "index_row ?C e (files_at H' p) k = index_row ?C e (files_at H q) x" "lookup H akey_ROOT q = Some x"
      unfolding rows_def by blast
    then have "lookup H' akey_ROOT q = Some k" using r(6) index_row_inj by blast
    then have "q = p" using lookup_inj [OF r(1) _ r(2)] by blast
    then show False using q(2) files_at_lookup [OF inv(2) assms(5)] assms(4) by simp
  qed
  moreover have "txn_mkdir E (ABuilt p) s = (Ok (), ?s)"
    using e(1) by (simp add: txn_mkdir_def makes_def bindOp_def seqOp_def)
  ultimately show ?thesis using makes_sees [OF e(1)] r(1,5) by (intro exI [of _ ?s] exI [of _ H']) simp
qed

theorem mkdir_leaves_index_behind_witness:
  "\<exists>s' H'. txn_mkdir sample_env (ABuilt [''users'', ''u'']) sample_txn = (Ok (), s') \<and>
    sees (env_data sample_env) (tx_ctx s') H' \<and> tree H' \<and> files_at H' = mkdirs [''users'', ''u''] (files_at sample_heap) \<and>
    \<not> synced (env_chrono sample_env) (env_index sample_env) (tx_index s') H' sample_entry"
proof (rule mkdir_leaves_index_behind [OF sample_inv])
  show abs: "files_at sample_heap [''users'', ''u''] = None"
    by (simp add: files_at_def akey_ROOT_def sample_heap_def child_at_def)
  show "fresh_keys sample_heap (length [''users'', ''u'']) (ctx_rng (tx_ctx sample_txn))"
    using sample_fresh by (simp add: sample_txn_rng)
  have two: "prefix r [''users'', ''u''] \<longleftrightarrow> prefix r [''users''] \<or> r = [''users'', ''u'']" for r
    using prefix_snoc [of r "[''users'']" "''u''"] by auto
  show "prefix r [''users'', ''u''] \<Longrightarrow> files_at sample_heap r \<noteq> Some (Document b)" for r b
    using sample_users_absent abs unfolding two by auto
qed (use sample_users_roomy in \<open>simp_all add: sample_entry_segs\<close>)

end
