(* ===== verification/Db_Properties.thy ===== *)
theory Db_Properties
  imports Db_Laws Txn_Properties
begin

text \<open>
  The properties of the database as a whole: what a committed transaction leaves for the readers that start after it, what
  queries return, and what index administration keeps. The last section is a run of two threads that leaves a new
  index behind its table.
\<close>

section \<open>Reading after a commit\<close>

text \<open>Between operations, the caches agree with a history that ends in the current store.\<close>

definition db_coherent :: "('t, 'i, 'm) env \<Rightarrow> ('p, 'b) cache_ops \<Rightarrow> ('t, 'i, 'm, 'p, 'b) db_inner \<Rightarrow> bool" where
  "db_coherent E L d \<longleftrightarrow> (\<exists>hist. version E (db_store d) = hist (db_generation d) \<and>
     (\<forall>h. h > db_generation d \<longrightarrow> hist h = (\<lambda>_. Map.empty)) \<and>
     (\<forall>name pc. db_caches d name = Some pc \<longrightarrow> coherent L (\<lambda>h. hist h name) pc))"

lemma db_coherent_new: "db_coherent E L (db_inner_new st has)"
  unfolding db_coherent_def
  by (intro exI [of _ "\<lambda>h. if h = 0 then version E st else (\<lambda>_. Map.empty)"]) (simp add: db_inner_new_def)

lemma next_generation: "g \<noteq> - 1 \<Longrightarrow> g < g + (1 :: u64)"
proof -
  assume "g \<noteq> - 1"
  have "unat g \<noteq> 18446744073709551615"
  proof
    assume "unat g = 18446744073709551615"
    then have "word_of_nat (unat g) = (- 1 :: u64)" by simp
    then show False using \<open>g \<noteq> - 1\<close> by simp
  qed
  then show ?thesis using unsigned_less [where 'a = nat and w = g] by (simp add: word_less_nat_alt unat_word_ariths)
qed

lemma db_coherent_commit:
  assumes "db_coherent E L d" "db_generation d \<noteq> - 1" "db_generation d' = db_generation d + 1" "db_caches d' = db_caches d"
  shows "db_coherent E L d'"
proof -
  obtain hist where hist: "version E (db_store d) = hist (db_generation d)" "\<And>h. h > db_generation d \<Longrightarrow> hist h = (\<lambda>_. Map.empty)"
    "\<And>name pc. db_caches d name = Some pc \<Longrightarrow> coherent L (\<lambda>h. hist h name) pc"
    using assms(1) by (auto simp: db_coherent_def)
  let ?g = "db_generation d + 1"
  have up: "db_generation d < ?g" using next_generation [OF assms(2)] .
  define hist' where "hist' = hist(?g := version E (db_store d'))"
  have "coherent L (\<lambda>h. hist' h name) pc" if "db_caches d' name = Some pc" for name pc
  proof -
    have "coherent L ((\<lambda>h. hist h name)(?g := version E (db_store d') name)) pc"
      using coherent_extend [OF hist(3) [of name pc]] that hist(2) [OF up] assms(4) by simp
    moreover have "(\<lambda>h. hist h name)(?g := version E (db_store d') name) = (\<lambda>h. hist' h name)" by (auto simp: hist'_def fun_eq_iff)
    ultimately show ?thesis by simp
  qed
  moreover have "hist' h = (\<lambda>_. Map.empty)" if "h > ?g" for h using hist(2) [of h] that up by (auto simp: hist'_def)
  ultimately show ?thesis unfolding db_coherent_def assms(3) by (intro exI [of _ hist']) (simp add: hist'_def)
qed

lemma version_db:
  assumes "db_inv E B reg Hs st"
  shows "version E st name = (\<lambda>k. map_option enc_node (Hs name k))"
  using holds_heapD(4) [OF db_invD(6) [OF assms, of name]] db_invD(3) [OF assms]
  by (auto simp: version_def data_or_blank_def blank_ok_def fun_eq_iff split: option.splits)

lemma read_begins:
  assumes "db_inv E B reg Hs (db_store d)" "db_coherent E L d" "caches_ok L"
  shows "\<exists>hist. indexed_reader E L hist (indexes_of reg name) (table_read L name d) (Hs name)"
proof -
  note D = db_invD [OF assms(1)]
  obtain hist where hist: "version E (db_store d) = hist (db_generation d)"
    "\<And>name pc. db_caches d name = Some pc \<Longrightarrow> coherent L (\<lambda>h. hist h name) pc"
    using assms(2) by (auto simp: db_coherent_def)
  let ?s = "table_read L name d" and ?h = "\<lambda>h. hist h name"
  have snap: "snapshot E ?s = version E (db_store d) name" by (simp add: snapshot_def version_def table_read_def read_txn_new_def)
  have "coherent L ?h (rt_cache ?s)"
    using hist(2) [of name] coherent_new [OF assms(3)]
    by (cases "db_caches d name") (simp_all add: table_read_def read_txn_new_def inner_cache_def)
  then have "shows_heap E L ?h ?s (Hs name)"
    using snap version_db [OF assms(1)] hist(1) assms(3) holds_heapD(1,2) [OF D(6) [of name]]
    by (simp add: shows_heap_def reading_def) (simp add: table_read_def read_txn_new_def)
  moreover have "case rt_index ?s of Some ix \<Rightarrow> synced (env_chrono E) (env_index E) ix (Hs name) e | None \<Rightarrow> covered (Hs name) e = {}"
    if e: "e \<in> set (indexes_of reg name)" for e
  proof (cases "st_index (db_store d)")
    case None
    then have "block (env_index E) (index_or_blank B (db_store d)) (ent_id e) = {}"
      using D(3) by (simp add: index_or_blank_def block_def blank_ok_def)
    then have "all_rows (env_chrono E) (Hs name) e = {}" using D(9) [of e] e by (simp add: synced_def)
    then have "covered (Hs name) e = {}" by (simp only: all_rows_covered image_is_empty)
    then show ?thesis using None by (simp add: table_read_def read_txn_new_def)
  next
    case (Some ix)
    then show ?thesis using D(9) [of e] e by (simp add: index_or_blank_def table_read_def read_txn_new_def)
  qed
  moreover have "registry_for_table (env_meta E) (rt_meta ?s) (rt_table ?s) = Ok (indexes_of reg name)"
    using indexes_of_db [OF assms(1)] by (simp add: table_read_def read_txn_new_def)
  ultimately show ?thesis using D(1,7,8) by (intro exI [of _ ?h]) (simp add: indexed_reader_def)
qed

lemma load_after:
  assumes "db_inv E B reg Hs (db_store d)" "db_coherent E L d" "caches_ok L"
  shows "fst (grab_load_value C (read_grab E L) (ABuilt p) (table_read L name d)) = doc_of C (files_at (Hs name)) p"
proof -
  obtain hist where "indexed_reader E L hist (indexes_of reg name) (table_read L name d) (Hs name)" using read_begins [OF assms] by blast
  then have "shows_heap E L hist (table_read L name d) (Hs name)" by (simp add: indexed_reader_def)
  from snapshots.load_value_law [OF this, of "ABuilt p" p C] show ?thesis by auto
qed

lemma store_frames:
  assumes "redb_ok (env_index E)" "txn_indexes E s = Ok es" "q \<noteq> []"
  shows "frames E s (snd (store_value_at E q v s))"
  using reindex_around_framed [OF assms(1,2), of "[q]"] assms(3) by (simp add: store_value_at_def apath_is_root_def)

text \<open>A store and its commit, without the read that follows.\<close>

lemma store_committed:
  assumes "db_inv E B reg Hs (db_store d)" "db_has_indexes d \<or> reg_entries reg = []" "db_coherent E L d" "caches_ok L"
    and "db_generation d \<noteq> - 1" "roomy (Hs name) (q @ [n])" "fresh_keys (Hs name) (Suc (length q)) rng"
    and "depth_ok (files_at (Hs name)) (env_fuel E)" "length q < env_fuel E"
    and "\<And>r b. prefix r q \<Longrightarrow> files_at (Hs name) r \<noteq> Some (Document b)" "value_ok (env_chrono E) v" "blob_fits v"
  shows "(\<exists>s d' H. store_value_at E (q @ [n]) v (table_write B name rng d) = (Ok (), s) \<and> commit E s d = (Ok (), d') \<and>
      db_inv E B reg (Hs(name := H)) (db_store d') \<and> files_at H = graft (q @ [n]) (single (Document (blob_encode v))) (files_at (Hs name)) \<and>
      db_coherent E L d') \<or>
    (\<exists>e \<in> set (reg_entries reg). ent_table e = name \<and> idx_unique (ent_def e) \<and>
      fst (store_value_at E (q @ [n]) v (table_write B name rng d)) = Err (UniqueViolation (idx_name (ent_def e))))"
proof -
  let ?s = "table_write B name rng d" and ?F = "graft (q @ [n]) (single (Document (blob_encode v))) (files_at (Hs name))"
  note inv = write_begins [OF assms(1,2), of name rng]
  have rng: "ctx_rng (tx_ctx ?s) = rng" by (simp add: table_write_def write_txn_new_def)
  note ch = store_changes [where ?c0.0 = "tx_ctx ?s", OF txn_invD(2,3) [OF inv] assms(6) _ assms(8-12), unfolded rng, OF assms(7)]
  have "reindexed E (store_value_at E (q @ [n]) v) () ?s ?F (indexes_of reg name)"
    using reindex_around_law [OF inv ch] by (simp add: store_value_at_def apath_is_root_def)
  then consider (ok) s H where "store_value_at E (q @ [n]) v ?s = (Ok (), s)" "txn_inv E s H (indexes_of reg name)" "files_at H = ?F"
    | (refused) e s where "e \<in> set (indexes_of reg name)" "store_value_at E (q @ [n]) v ?s = (Err (UniqueViolation (idx_name (ent_def e))), s)"
      "idx_unique (ent_def e)"
    unfolding reindexed_def by blast
  then show ?thesis
  proof cases
    case ok
    have fr: "frames E ?s s" using store_frames [OF txn_invD(4,5) [OF inv], of "q @ [n]" v] ok(1) by simp
    obtain d' where d': "commit E s d = (Ok (), d')" "db_inv E B reg (Hs(name := H)) (db_store d')"
      "db_generation d' = db_generation d + 1" "db_caches d' = db_caches d"
      using commit_keeps [OF assms(1) fr ok(2)] by blast
    have coh: "db_coherent E L d'" using db_coherent_commit [OF assms(3,5) d'(3,4)] .
    then show ?thesis using ok d' by auto
  next
    case refused
    then show ?thesis by auto
  qed
qed

section \<open>An empty database\<close>

lemma empty_tree: "tree Map.empty"
  by (simp add: tree_def child_at_def)

lemma empty_files [simp]: "files_at Map.empty = Map.empty"
  by (auto simp: files_at_def fun_eq_iff split: option.splits)

lemma empty_db_inv: "db_inv list_env list_blank registry_default (\<lambda>_. Map.empty) empty_store"
proof -
  have "holds_registry btree_redb [] registry_default" "registry_inv registry_default"
    using empty_registry_holds by (simp_all add: registry_inv_def registry_default_def)
  moreover have "holds_heap btree_redb [] Map.empty" using empty_tree by (simp add: holds_heap_def btree_redb_ok)
  ultimately show ?thesis
    using list_blank_ok
    by (auto simp: btree_redb_ok db_inv_def empty_store_def data_or_blank_def index_or_blank_def list_blank_def docs_ok_def block_def registry_default_def)
qed

lemma empty_roomy: "roomy Map.empty [''users'', ''u'']"
proof -
  have "utf8 ''users'' \<and> utf8 ''u''" by code_simp
  then show ?thesis by (auto simp: roomy_def dir_weight_def ENTRY_def names_bytes_def)
qed

lemma empty_fresh: "n \<le> 2 ^ 63 \<Longrightarrow> fresh_keys Map.empty n rng"
  by (simp add: fresh_keys_def)

section \<open>Properties\<close>

text \<open>C1: a committed write is what later readers read. In a database whose tables are trees of documents and whose indexes
  are in step, storing a document through a write transaction and committing it leaves such a database again, with the
  document at its path, everything else as it was and every index of every table in step; a read transaction
  that starts afterwards loads exactly the document, whatever the caches held before. The only other outcome is the
  refusal by a unique index of the table.\<close>

theorem store_commit_read:
  assumes "db_inv E B reg Hs (db_store d)" "db_has_indexes d \<or> reg_entries reg = []" "db_coherent E L d" "caches_ok L"
    and "db_generation d \<noteq> - 1" "roomy (Hs name) (q @ [n])" "fresh_keys (Hs name) (Suc (length q)) rng"
    and "depth_ok (files_at (Hs name)) (env_fuel E)" "length q < env_fuel E"
    and "\<And>r b. prefix r q \<Longrightarrow> files_at (Hs name) r \<noteq> Some (Document b)" "value_ok (env_chrono E) v" "blob_fits v"
  shows "(\<exists>s d' H. store_value_at E (q @ [n]) v (table_write B name rng d) = (Ok (), s) \<and> commit E s d = (Ok (), d') \<and>
      db_inv E B reg (Hs(name := H)) (db_store d') \<and> files_at H = graft (q @ [n]) (single (Document (blob_encode v))) (files_at (Hs name)) \<and>
      db_coherent E L d' \<and>
      fst (grab_load_value (env_chrono E) (read_grab E L) (ABuilt (q @ [n])) (table_read L name d')) = Ok (Some v)) \<or>
    (\<exists>e \<in> set (reg_entries reg). ent_table e = name \<and> idx_unique (ent_def e) \<and>
      fst (store_value_at E (q @ [n]) v (table_write B name rng d)) = Err (UniqueViolation (idx_name (ent_def e))))"
proof -
  have "fst (grab_load_value (env_chrono E) (read_grab E L) (ABuilt (q @ [n])) (table_read L name d')) = Ok (Some v)"
    if H: "db_inv E B reg (Hs(name := H)) (db_store d')" "db_coherent E L d'" "files_at H = graft (q @ [n]) (single (Document (blob_encode v))) (files_at (Hs name))" for d' H
    using load_after [OF H(1,2) assms(4), of "env_chrono E" "q @ [n]" name] H(3) blob_decode_encode [OF assms(11,12)]
    by (simp add: doc_of_def graft_def single_def)
  then show ?thesis using store_committed [OF assms] by blast
qed

theorem store_commit_read_witness:
  "\<exists>s d'. store_value_at list_env ([''users''] @ [''u'']) sample_doc (table_write list_blank ''t'' 1 (db_inner_new empty_store False
      :: (_, _, _, (apath \<times> u64 \<times> akey) list, ((u64 \<times> akey) \<times> bytes) list) db_inner)) = (Ok (), s) \<and>
    commit list_env s (db_inner_new empty_store False) = (Ok (), d') \<and>
    fst (grab_load_value calendar (read_grab list_env list_caches) (ABuilt ([''users''] @ [''u''])) (table_read list_caches ''t'' d')) = Ok (Some sample_doc)"
proof -
  let ?d = "db_inner_new empty_store False :: (_, _, _, (apath \<times> u64 \<times> akey) list, ((u64 \<times> akey) \<times> bytes) list) db_inner"
  have "db_inv list_env list_blank registry_default (\<lambda>_. Map.empty) (db_store ?d)" using empty_db_inv by (simp add: db_inner_new_def)
  note S = store_commit_read [OF this _ db_coherent_new list_caches_ok, where name = "''t''" and q = "[''users'']" and n = "''u''" and rng = 1 and v = sample_doc]
  show ?thesis
    using S empty_roomy empty_fresh [of "Suc (Suc 0)" 1] sample_doc_ok sample_doc_fits
    by (auto simp: registry_default_def db_inner_new_def depth_ok_def)
qed

text \<open>C4: queries are exact. On a database whose indexes are in step, a query of an index with values for its leading
  columns, restricted to a root and possibly reversed, returns the documents of exactly those a-nodes at or under the root
  that the index pattern matches and whose columns hold the values, each once and in the order of the columns. An
  unknown index and too many values are refused.\<close>

theorem query_exact:
  assumes "db_inv E B reg Hs (db_store d)" "db_coherent E L d" "caches_ok L" "\<And>r v. reads_doc (env_chrono E) r v \<Longrightarrow> recompose r = Ok (f v)"
  shows "case find (\<lambda>e. idx_name (ent_def e) = ix) (indexes_of reg name) of
      None \<Rightarrow> fst (execute_query (read_grab E L) recompose ix ps reversed root (table_read L name d)) = Err (IndexNotFound ix)
    | Some e \<Rightarrow>
        if length (idx_columns (ent_def e)) < length ps
        then fst (execute_query (read_grab E L) recompose ix ps reversed root (table_read L name d)) =
          Err (IndexArity ix (length (idx_columns (ent_def e))) (length ps))
        else \<exists>ks. fst (execute_query (read_grab E L) recompose ix ps reversed root (table_read L name d)) =
            Ok (map f (List.map_filter (doc_at (env_chrono E) (Hs name)) ks)) \<and>
          set ks = selected (env_chrono E) (Hs name) e ps \<inter> under (Hs name) root \<and> distinct ks \<and> in_order (env_chrono E) (Hs name) e reversed ks"
proof -
  obtain hist where r: "indexed_reader E L hist (indexes_of reg name) (table_read L name d) (Hs name)" using read_begins [OF assms(1-3)] by blast
  show ?thesis
  proof (cases "find (\<lambda>e. idx_name (ent_def e) = ix) (indexes_of reg name)")
    case None
    then show ?thesis using snapshot_queries.query_refused(1) [OF r None, of ps reversed root] by (auto simp: execute_query_def)
  next
    case (Some e)
    show ?thesis
    proof (cases "length (idx_columns (ent_def e)) < length ps")
      case True
      then show ?thesis using Some snapshot_queries.query_refused(2) [OF r Some, of ps reversed root] by (auto simp: execute_query_def)
    next
      case False
      then have "length ps \<le> length (idx_columns (ent_def e))" by simp
      from snapshot_queries.execute_law [OF r Some this assms(4), where reversed = reversed and root = root] show ?thesis using Some False by fastforce
    qed
  qed
qed

theorem query_exact_witness:
  "fst (execute_query (read_grab list_env list_caches) (\<lambda>r. Ok ()) ''by_age'' [] False [] (table_read list_caches ''t'' (db_inner_new empty_store False))) =
    Err (IndexNotFound ''by_age'')"
proof -
  let ?d = "db_inner_new empty_store False :: (_, _, _, (apath \<times> u64 \<times> akey) list, ((u64 \<times> akey) \<times> bytes) list) db_inner"
  have "db_inv list_env list_blank registry_default (\<lambda>_. Map.empty) (db_store ?d)" using empty_db_inv by (simp add: db_inner_new_def)
  from query_exact [OF this db_coherent_new list_caches_ok, where f = "\<lambda>v. ()" and recompose = "\<lambda>r. Ok ()" and ix = "''by_age''" and name = "''t''"]
  show ?thesis by (simp add: registry_default_def)
qed

text \<open>C5: creating an index keeps the database sound. On a database whose indexes are in step, registering an index of a
  new name whose pattern parses indexes the documents already there: the new index has exactly their rows, the other
  indexes and the tables are untouched. It is refused only if the index is unique and two a-nodes share their columns, and
  then nothing is changed.\<close>

theorem create_index_backfills:
  assumes "db_inv E B reg Hs (db_store d)" "registry_ok (registry_added reg name def)" "next_id reg \<noteq> 0xFFFFFFFF"
    and "find (entry_is name (idx_name def)) (reg_entries reg) = None" "pattern_ok \<lparr>ent_table = name, ent_id = next_id reg, ent_def = def\<rparr>"
  shows "(\<exists>d'. create_index E B name def d = (Ok (), d') \<and> db_inv E B (registry_added reg name def) Hs (db_store d') \<and>
      db_has_indexes d' \<and> version E (db_store d') = version E (db_store d)) \<or>
    (create_index E B name def d = (Err (UniqueViolation (idx_name def)), d) \<and> idx_unique def \<and>
      collides (all_rows (env_chrono E) (Hs name) \<lparr>ent_table = name, ent_id = next_id reg, ent_def = def\<rparr>))"
  using create_index_keeps [OF assms(1-4) refl assms(5)]
proof (elim disjE exE conjE)
  fix st' assume st': "create_index_txn E B name def (db_store d) = Ok st'" "db_inv E B (registry_added reg name def) Hs st'"
  then show ?thesis
    using create_version [OF db_invD(3) [OF assms(1)] st'(1)] by (simp add: create_index_def bindOp_def mark_has_index_def)
qed (simp add: create_index_def bindOp_def)

theorem create_index_backfills_witness:
  "\<exists>d'. create_index list_env list_blank ''t'' sample_def (db_inner_new empty_store False) = (Ok (), d') \<and>
    db_inv list_env list_blank sample_registry (\<lambda>_. Map.empty) (db_store d') \<and> db_has_indexes d'"
proof -
  have added: "registry_added registry_default ''t'' sample_def = sample_registry"
    by (simp add: registry_added_def registry_default_def sample_registry_def sample_entry_def)
  have e: "\<lparr>ent_table = ''t'', ent_id = next_id registry_default, ent_def = sample_def\<rparr> = sample_entry"
    by (simp add: registry_default_def sample_entry_def)
  have "pattern_ok sample_entry" using sample_segs by (simp add: pattern_ok_def sample_entry_segs)
  then show ?thesis
    using create_index_backfills [of list_env list_blank registry_default "\<lambda>_. Map.empty" "db_inner_new empty_store False" "''t''" sample_def]
      empty_db_inv sample_registry_ok sample_not_unique unfolding added e
    by (auto simp: db_inner_new_def registry_default_def sample_entry_def)
qed



section \<open>A race between creating an index and writing\<close>

text \<open>Between the engine commit of \<open>create_index\<close> and its \<open>mark_has_index\<close>, another thread writes.\<close>

lemma unindexed_store:
  assumes "sees (env_data E) (tx_ctx s) H" "tree H" "\<not> tx_indexed s" "roomy H (q @ [n])" "fresh_keys H (Suc (length q)) (ctx_rng (tx_ctx s))"
    and "depth_ok (files_at H) (env_fuel E)" "length q < env_fuel E" "\<And>r b. prefix r q \<Longrightarrow> files_at H r \<noteq> Some (Document b)"
  shows "\<exists>s' H'. act E (Do_store (ABuilt (q @ [n])) v) s = s' \<and> sees (env_data E) (tx_ctx s') H' \<and> tree H' \<and>
    files_at H' = graft (q @ [n]) (single (Document (blob_encode v))) (files_at H) \<and>
    tx_index s' = tx_index s \<and> tx_meta s' = tx_meta s \<and> tx_table s' = tx_table s"
proof -
  obtain c' H' where c': "makes (env_data E) (tx_ctx s) (store_blob_into (env_fuel E) (env_data E) (q @ [n]) (blob_encode v)) () H' c'" "tree H'"
    "files_at H' = graft (q @ [n]) (single (Document (blob_encode v))) (files_at H)"
    using store_blob_makes [OF assms(2,1,4,5,6,7,8)] by blast
  have "store_value E (ABuilt (q @ [n])) v s = (Ok (), s\<lparr>tx_ctx := c'\<rparr>)"
    using c'(1) assms(3)
    by (simp add: store_value_def store_value_at_def apath_is_root_def reindex_around_def store_value_into_def makes_def bindOp_def on_ctx_def)
  then show ?thesis using c' by (auto simp: forget_result_def makes_def)
qed

lemma started_idle [simp]: "threads (started st has) = (\<lambda>_. Idle)" "inner (started st has) = db_inner_new st has"
  by (simp_all add: started_def)

lemma created_state:
  "\<exists>s st. reach list_env list_caches list_blank (started empty_store False) 0 s \<and> threads s = (\<lambda>_. Idle)(0 := Created) \<and>
    db_store (inner s) = st \<and> \<not> db_has_indexes (inner s) \<and> db_inv list_env list_blank sample_registry (\<lambda>_. Map.empty) st"
proof -
  have added: "registry_added registry_default ''t'' sample_def = sample_registry"
    by (simp add: registry_added_def registry_default_def sample_registry_def sample_entry_def)
  have e: "sample_entry = \<lparr>ent_table = ''t'', ent_id = next_id registry_default, ent_def = sample_def\<rparr>"
    by (simp add: registry_default_def sample_entry_def)
  have p: "pattern_ok sample_entry" using sample_segs by (simp add: pattern_ok_def sample_entry_segs)
  have "registry_ok (registry_added registry_default ''t'' sample_def)" unfolding added by (rule sample_registry_ok)
  moreover have "next_id registry_default \<noteq> 0xFFFFFFFF" "find (entry_is ''t'' (idx_name sample_def)) (reg_entries registry_default) = None"
    by (simp_all add: registry_default_def)
  ultimately obtain st where st: "create_index_txn list_env list_blank ''t'' sample_def empty_store = Ok st"
    "db_inv list_env list_blank sample_registry (\<lambda>_. Map.empty) st"
    using create_index_keeps [OF empty_db_inv _ _ _ e p] sample_not_unique added by (auto simp: sample_entry_def)
  let ?R = "reach list_env list_caches list_blank (started empty_store False) 0"
  have s0: "?R (started empty_store False)" by (rule reach_start)
  have "?R (goto 0 Created ((started empty_store False)\<lparr>inner := (db_inner_new empty_store False)\<lparr>db_store := st\<rparr>\<rparr>))"
    using reach_step [OF s0 index_create [of _ 0 list_env list_blank "''t''" sample_def st]] st(1) by (simp add: db_inner_new_def)
  then show ?thesis using st(2) by (intro exI conjI) (assumption | simp add: db_inner_new_def)+
qed

lemma commit_runs:
  assumes "reach E L B s0 n s" "threads s i = Sealed tx" "\<And>j. weight (threads s j) = 0"
  shows "\<exists>n' s'. reach E L B s0 n' s' \<and> threads s' = (threads s)(i := Idle) \<and>
    db_store (inner s') = publish tx (db_store (inner s)) \<and> db_has_indexes (inner s') = db_has_indexes (inner s)"
proof -
  let ?s1 = "goto i (Locked tx) s"
  have s1: "reach E L B s0 n ?s1" using reach_step [OF assms(1) write_lock [OF assms(2)]] assms(2,3) by (simp add: weight_guard)
  let ?s2 = "goto i Published (?s1\<lparr>inner := (inner ?s1)\<lparr>db_store := publish tx (db_store (inner ?s1))\<rparr>\<rparr>)"
  have s2: "reach E L B s0 (Suc n) ?s2" using reach_step [OF s1 engine_commit [of ?s1 i tx]] by simp
  let ?s3 = "goto i Bumped (?s2\<lparr>inner := bump_generation (inner ?s2)\<rparr>)"
  have s3: "reach E L B s0 (Suc n) ?s3" using reach_step [OF s2 bump [of ?s2 i]] by simp
  have "reach E L B s0 (Suc n) (goto i Idle ?s3)" using reach_step [OF s3 write_unlock [of ?s3 i]] by simp
  then show ?thesis by (intro exI conjI) (assumption, simp_all add: bump_generation_def)
qed

lemma racing_write:
  "\<exists>n s tx H st. reach list_env list_caches list_blank (started empty_store False) n s \<and>
    threads s = (\<lambda>_. Idle)(0 := Created, 1 := Sealed tx) \<and> db_store (inner s) = st \<and>
    db_inv list_env list_blank sample_registry (\<lambda>_. Map.empty) st \<and> tree H \<and>
    contents btree_redb (ctx_data (tx_ctx tx)) = (\<lambda>k. map_option enc_node (H k)) \<and>
    files_at H [''users'', ''u''] = Some (Document (blob_encode sample_doc)) \<and>
    tx_table tx = ''t'' \<and> tx_meta tx = st_meta st \<and> tx_index tx = index_or_blank list_blank st"
proof -
  let ?R = "reach list_env list_caches list_blank (started empty_store False)"
  obtain s1 st where s1: "?R 0 s1" "threads s1 = (\<lambda>_. Idle)(0 := Created)" "db_store (inner s1) = st" "\<not> db_has_indexes (inner s1)"
    and st: "db_inv list_env list_blank sample_registry (\<lambda>_. Map.empty) st" using created_state by blast
  define tx where "tx = table_write list_blank ''t'' 1 (inner s1)"
  define s2 where "s2 = goto 1 (Writing tx) s1"
  have s2: "?R 0 s2" using reach_step [OF s1(1) begin_write [of s1 1]] s1(2) by (simp add: s2_def tx_def)
  have tx: "ctx_rng (tx_ctx tx) = 1" "tx_index tx = index_or_blank list_blank st" "tx_meta tx = st_meta st" "tx_table tx = ''t''"
    using s1(3) by (simp_all add: tx_def table_write_def write_txn_new_def)
  have "holds_heap btree_redb (data_or_blank list_blank st ''t'') Map.empty" using db_invD(6) [OF st, of "''t''"] by simp
  then have sees: "sees btree_redb (tx_ctx tx) Map.empty"
    using s1(3,4) by (auto simp: sees_def ctx_ok_def wb_ok_def view_def holds_heap_def tx_def table_write_def write_txn_new_def wb_new_def)
  obtain tx1 H where tx1: "act list_env (Do_store (ABuilt ([''users''] @ [''u''])) sample_doc) (tx\<lparr>tx_indexed := False\<rparr>) = tx1"
    "sees btree_redb (tx_ctx tx1) H" "tree H" "files_at H = graft ([''users''] @ [''u'']) (single (Document (blob_encode sample_doc))) Map.empty"
    "tx_index tx1 = tx_index tx" "tx_meta tx1 = tx_meta tx" "tx_table tx1 = tx_table tx"
    using unindexed_store [of list_env "tx\<lparr>tx_indexed := False\<rparr>" Map.empty "[''users'']" "''u''" sample_doc] sees empty_tree empty_roomy
      empty_fresh [of "Suc (Suc 0)" 1] tx(1) by (auto simp: depth_ok_def)
  define s3 where "s3 = goto 1 (Writing tx1) s2"
  have s3: "?R 0 s3"
    using reach_step [OF s2 mutate [of s2 1 tx list_env list_caches list_blank "Do_store (ABuilt ([''users''] @ [''u''])) sample_doc"]] s1(4) tx1(1)
    by (simp add: s3_def s2_def)
  obtain tx2 where tx2: "commit_flush list_env tx1 = (Ok (), tx2)" "contents btree_redb (ctx_data (tx_ctx tx2)) = (\<lambda>k. map_option enc_node (H k))"
    "tx_index tx2 = tx_index tx1" "tx_meta tx2 = tx_meta tx1" "tx_table tx2 = tx_table tx1"
    using commit_flush_sees [of list_env tx1 H] tx1(2) by auto
  have s4: "?R 0 (goto 1 (Sealed tx2) s3)" using reach_step [OF s3 flush [of s3 1 tx1 list_env tx2]] tx2(1) by (simp add: s3_def)
  have "threads (goto 1 (Sealed tx2) s3) = (\<lambda>_. Idle)(0 := Created, 1 := Sealed tx2)" "db_store (inner (goto 1 (Sealed tx2) s3)) = st"
    using s1(2,3) by (simp_all add: s3_def s2_def)
  moreover have "files_at H [''users'', ''u''] = Some (Document (blob_encode sample_doc))" using tx1(4) by (simp add: graft_def single_def)
  ultimately show ?thesis using s4 st tx1(3,5-7) tx2 tx by (intro exI conjI) (assumption | simp)+
qed

text \<open>C39: an index can start out of step. There is a run of two threads, one creating an index and one storing a document,
  after which both are done, the index is registered and flagged, the stored document is one its pattern matches,
  and the index does not have it: scanning the whole index returns nothing. The writer acted between the
  engine commit of \<open>create_index\<close> and its \<open>mark_has_index\<close>, when the flag still said that no index exists.\<close>

theorem index_creation_race:
  "\<exists>n s H. reach list_env list_caches list_blank (started empty_store False) n s \<and> (\<forall>i. threads s i = Idle) \<and> db_has_indexes (inner s) \<and>
    registry_lookup btree_redb (st_meta (db_store (inner s))) ''t'' ''by_age'' = Ok (Some sample_entry) \<and>
    version list_env (db_store (inner s)) ''t'' = (\<lambda>k. map_option enc_node (H k)) \<and>
    files_at H [''users'', ''u''] = Some (Document (blob_encode sample_doc)) \<and> covered H sample_entry \<noteq> {} \<and>
    scan_prefix btree_redb (index_or_blank list_blank (db_store (inner s))) 0 (encode_columns sample_def []) False = Ok []"
proof -
  obtain n s tx H st where s: "reach list_env list_caches list_blank (started empty_store False) n s"
    "threads s = (\<lambda>_. Idle)(0 := Created, 1 := Sealed tx)" "db_store (inner s) = st"
    and st: "db_inv list_env list_blank sample_registry (\<lambda>_. Map.empty) st" and H: "tree H"
    "contents btree_redb (ctx_data (tx_ctx tx)) = (\<lambda>k. map_option enc_node (H k))"
    "files_at H [''users'', ''u''] = Some (Document (blob_encode sample_doc))"
    and tx: "tx_table tx = ''t''" "tx_meta tx = st_meta st" "tx_index tx = index_or_blank list_blank st"
    using racing_write by blast
  obtain n' s' where s': "reach list_env list_caches list_blank (started empty_store False) n' s'" "threads s' = (threads s)(1 := Idle)"
    "db_store (inner s') = publish tx st"
  proof -
    have "weight (threads s j) = 0" for j using s(2) by simp
    then show thesis using that commit_runs [OF s(1), of 1 tx] s(2,3) by auto
  qed
  let ?t = "goto 0 Idle (s'\<lparr>inner := mark_has_index (inner s')\<rparr>)"
  have t: "reach list_env list_caches list_blank (started empty_store False) n' ?t"
    using reach_step [OF s'(1) index_mark [of s' 0]] s'(2) s(2) by simp
  have idle: "threads ?t i = Idle" for i using s'(2) s(2) by simp
  have store: "db_store (inner ?t) = publish tx st" using s'(3) by (simp add: mark_has_index_def)
  have "registry_lookup btree_redb (st_meta st) ''t'' ''by_age'' = Ok (Some sample_entry)"
    using registry_load_holds [OF btree_redb_ok, of "st_meta st" sample_registry] db_invD(4) [OF st]
    by (simp add: registry_lookup_def sample_registry_def sample_entry_def sample_def_def entry_is_def)
  then have look: "registry_lookup btree_redb (st_meta (publish tx st)) ''t'' ''by_age'' = Ok (Some sample_entry)" using tx by (simp add: publish_def)
  have index: "index_or_blank list_blank (publish tx st) = index_or_blank list_blank st" using tx by (simp add: index_or_blank_def publish_def)
  obtain k where k: "lookup H akey_ROOT [''users'', ''u''] = Some k" using H(3) by (auto simp: files_at_def split: option.splits)
  then have cov: "covered H sample_entry \<noteq> {}" by (auto simp: covered_def sample_entry_segs simp del: lookup.simps)
  have "covered Map.empty sample_entry = {}"
    by (auto simp: covered_def sample_entry_segs child_at_def)
  then have "selected calendar Map.empty sample_entry [] = {}" by (simp add: selected_def)
  moreover have "synced calendar btree_redb (index_or_blank list_blank st) Map.empty sample_entry"
    using db_invD(9) [OF st, of sample_entry] by (simp add: sample_registry_def)
  ultimately have scan: "scan_prefix btree_redb (index_or_blank list_blank st) 0 (encode_columns sample_def []) False = Ok []"
    using scan_prefix_rows [OF btree_redb_ok, of calendar "index_or_blank list_blank st" Map.empty sample_entry "[]"]
    by (auto simp: sample_entry_def sample_def_def)
  have ver: "version list_env (publish tx st) ''t'' = (\<lambda>k. map_option enc_node (H k))" using H(2) tx by (simp add: version_def publish_def)
  have "db_has_indexes (inner ?t)" by (simp add: mark_has_index_def)
  then show ?thesis
    using t idle look index cov H(3) scan ver store by (intro exI [of _ n'] exI [of _ ?t] exI [of _ H]) (simp del: goto_simps)
qed

end
