(* ===== verification/Typed_Store.thy ===== *)
theory Typed_Store
  imports Typed_Laws Serde_Laws Db_Properties
begin

text \<open>
  Typed and Serde values through transactions: \<open>WriteTxn::store\<close> and \<open>store_serde_value\<close>, which encode the value directly and store the blob, \<open>load\<close> of a read transaction at the
  value's type, and \<open>load_serde_value\<close>, where deserializing is a parameter.
\<close>

definition txn_store :: "('t, 'i, 'm) env \<Rightarrow> arbor_arg \<Rightarrow> adata \<Rightarrow> (('t, 'i, 'm) write_txn, unit) op" where
  "txn_store E path d = bindOp (liftOp (into_arbor_path path)) (\<lambda>path. store_blob_at E path (encode_data d))"

definition txn_load :: "chrono \<Rightarrow> 's grab \<Rightarrow> atype \<Rightarrow> arbor_arg \<Rightarrow> ('s, adata option) op" where
  "txn_load C G T = grab_load G (\<lambda>reader. adata_load (archived_source C reader) T vpath_root)"

definition store_serde_value :: "('t, 'i, 'm) env \<Rightarrow> texts \<Rightarrow> arbor_arg \<Rightarrow> sval \<Rightarrow> (('t, 'i, 'm) write_txn, unit) op" where
  "store_serde_value E X path v =
     bindOp (liftOp (into_arbor_path path)) (\<lambda>path. bindOp (liftOp (to_blob X v)) (\<lambda>blob. store_blob_at E path blob))"

definition load_serde_value :: "'s grab \<Rightarrow> (bytes \<Rightarrow> 'a res) \<Rightarrow> arbor_arg \<Rightarrow> ('s, 'a option) op" where
  "load_serde_value G from_blob path =
     with_blob G path (Ok None) (\<lambda>path blob.
       bindOp (liftOp (entry_split blob)) (\<lambda>(kind, payload).
         case kind of
           File \<Rightarrow> bindOp (liftOp (from_blob payload)) (\<lambda>v. retOp (Some v))
         | Dir \<Rightarrow> liftOp (Err (is_a_directory path))))"

lemma store_built: "txn_store E (ABuilt p) d = store_value_at E p (data_doc d)"
  by (rule ext) (simp add: txn_store_def store_value_at_def store_blob_at_def store_value_into_def encode_data_eq)

text \<open>Typed loading from whatever source shows a file with the blob of a typed value.\<close>

context grab_source
begin

lemma typed_load_law:
  assumes "showing s H" "into_arbor_path a = Ok p" "files_at H p = Some (Document (encode_data d))"
    and "has_type d T" "adata_ok d" "definite d" "value_ok C (data_doc d)" "blob_fits (data_doc d)"
  shows "\<exists>s'. txn_load C G T a s = (Ok (Some d), s') \<and> showing s' H"
  unfolding txn_load_def grab_load_def
proof (rule with_blob_law [OF assms(1,2), where g = "\<lambda>x. case x of DirN m \<Rightarrow> Err (is_a_directory p)
    | FileN b \<Rightarrow> andThen (archived_reader_new (enc_node (FileN b)) 1) (\<lambda>r. andThen (adata_load (archived_source C r) T vpath_root) (\<lambda>v. Ok (Some v)))"], goal_cases)
  case (1 k x s')
  show ?case by (cases x) (simp_all add: bindOp_def del: enc_node.simps split: res.split)
next
  case (3 x)
  then have "x = FileN (encode_data d)" using assms(3) by (cases x) simp_all
  then show ?case using typed_entry_loads [OF assms(4-8), of tag_FILE] by (auto simp: file_entry_def)
qed (simp add: assms(3))

lemma serde_load_law:
  assumes "showing s H" "into_arbor_path a = Ok p"
  shows "\<exists>s'. load_serde_value G from_blob a s = (case files_at H p of
      None \<Rightarrow> Ok None | Some Directory \<Rightarrow> Err (is_a_directory p) | Some (Document b) \<Rightarrow> andThen (from_blob b) (\<lambda>v. Ok (Some v)), s') \<and> showing s' H"
  unfolding load_serde_value_def
proof (rule with_blob_law [OF assms, where g = "\<lambda>x. case x of DirN m \<Rightarrow> Err (is_a_directory p) | FileN b \<Rightarrow> andThen (from_blob b) (\<lambda>v. Ok (Some v))"], goal_cases)
  case (1 k x s')
  show ?case by (cases x) (simp_all add: bindOp_def split: res.split)
next
  case (3 x)
  then show ?case by (cases x) simp_all
qed simp

end

text \<open>C2: a typed value that is stored and committed is what a later read transaction loads at its type, provided that no map in it has the key \<open>.\<close> or \<open>..\<close> (such an entry is lost),
  that it has no \<open>Some\<close> of a value stored as null (of \<open>Some(None)\<close> only \<open>None\<close> comes back), and that its sequences have fewer than 2^64 elements, its scalars are well formed and its blob has less than
  4 GiB. Where there is room, fresh keys and a way free of files to its path, the database stays sound, the value's document is at the path, nothing else changed and every index is in step; or a
  unique index of the table refused the store.\<close>

theorem typed_commit_load:
  assumes "db_inv E B reg Hs (db_store d)" "db_has_indexes d \<or> reg_entries reg = []" "db_coherent E L d" "caches_ok L"
    and "db_generation d \<noteq> - 1" "roomy (Hs name) (q @ [n])" "fresh_keys (Hs name) (Suc (length q)) rng"
    and "depth_ok (files_at (Hs name)) (env_fuel E)" "length q < env_fuel E"
    and "\<And>r b. prefix r q \<Longrightarrow> files_at (Hs name) r \<noteq> Some (Document b)" "value_ok (env_chrono E) (data_doc x)" "blob_fits (data_doc x)"
    and "has_type x T" "adata_ok x" "definite x"
  shows "(\<exists>s d' H. txn_store E (ABuilt (q @ [n])) x (table_write B name rng d) = (Ok (), s) \<and> commit E s d = (Ok (), d') \<and>
      db_inv E B reg (Hs(name := H)) (db_store d') \<and> files_at H = graft (q @ [n]) (single (Document (encode_data x))) (files_at (Hs name)) \<and>
      fst (txn_load (env_chrono E) (read_grab E L) T (ABuilt (q @ [n])) (table_read L name d')) = Ok (Some x)) \<or>
    (\<exists>e \<in> set (reg_entries reg). ent_table e = name \<and> idx_unique (ent_def e) \<and>
      fst (txn_store E (ABuilt (q @ [n])) x (table_write B name rng d)) = Err (UniqueViolation (idx_name (ent_def e))))"
proof -
  have "fst (txn_load (env_chrono E) (read_grab E L) T (ABuilt (q @ [n])) (table_read L name d')) = Ok (Some x)"
    if H: "db_inv E B reg (Hs(name := H)) (db_store d')" "db_coherent E L d'" "files_at H = graft (q @ [n]) (single (Document (encode_data x))) (files_at (Hs name))" for d' H
  proof -
    obtain hist where "indexed_reader E L hist (indexes_of reg name) (table_read L name d') ((Hs(name := H)) name)" using read_begins [OF H(1,2) assms(4)] by blast
    then have "shows_heap E L hist (table_read L name d') H" by (simp add: indexed_reader_def)
    moreover have "files_at H (q @ [n]) = Some (Document (encode_data x))" using H(3) by (simp add: graft_def single_def)
    ultimately show ?thesis using snapshots.typed_load_law [OF _ _ _ assms(13-15,11,12), where a = "ABuilt (q @ [n])" and p = "q @ [n]"] by fastforce
  qed
  then show ?thesis using store_committed [OF assms(1-12), folded encode_data_eq store_built] by blast
qed

theorem typed_commit_load_witness:
  "\<exists>s d'. txn_store list_env (ABuilt [''users'', ''u'']) sample_data (table_write list_blank ''t'' 1 (db_inner_new empty_store False
      :: (_, _, _, (apath \<times> u64 \<times> akey) list, ((u64 \<times> akey) \<times> bytes) list) db_inner)) = (Ok (), s) \<and>
    commit list_env s (db_inner_new empty_store False) = (Ok (), d') \<and>
    fst (txn_load calendar (read_grab list_env list_caches) sample_type (ABuilt [''users'', ''u'']) (table_read list_caches ''t'' d')) = Ok (Some sample_data)"
proof -
  let ?d = "db_inner_new empty_store False :: (_, _, _, (apath \<times> u64 \<times> akey) list, ((u64 \<times> akey) \<times> bytes) list) db_inner"
  have "db_inv list_env list_blank registry_default (\<lambda>_. Map.empty) (db_store ?d)" using empty_db_inv by (simp add: db_inner_new_def)
  note S = typed_commit_load [OF this _ db_coherent_new list_caches_ok, where name = "''t''" and q = "[''users'']" and n = "''u''" and rng = 1 and x = sample_data and T = sample_type]
  show ?thesis
    using S empty_roomy empty_fresh [of "Suc (Suc 0)" 1] sample_data_ok sample_data_fits
    by (auto simp: registry_default_def db_inner_new_def depth_ok_def)
qed

end
