(* ===== verification/Export.thy ===== *)
theory Export
  imports Serde Read_Txn
begin

text \<open>
  Rendering a document as JSON or YAML (\<open>export/\<close>): Base64 for bytes, quoting, the text of a scalar, the two JSON layouts, YAML block style, and the exporters of a transaction and of
  a value. Every writer only appends to its output, so it is the text it appends. The texts of floats, UUIDs and calendar values are those of the parameter \<open>texts\<close>.
\<close>

unbundle bit_operations_syntax

section \<open>Base64\<close>

definition ALPHABET :: string where
  "ALPHABET = ''ABCDEFGHIJKLMNOPQRSTUVWXYZabcdefghijklmnopqrstuvwxyz0123456789+/''"

definition sextet :: "u32 \<Rightarrow> nat \<Rightarrow> char" where
  "sextet triple shift = ALPHABET ! unat (drop_bit shift triple AND 0x3F)"

definition triple_of :: "u8 \<Rightarrow> u8 option \<Rightarrow> u8 option \<Rightarrow> u32" where
  "triple_of b0 b1 b2 =
     push_bit 16 (ucast b0) OR push_bit 8 (ucast (case b1 of Some b \<Rightarrow> b | None \<Rightarrow> 0)) OR ucast (case b2 of Some b \<Rightarrow> b | None \<Rightarrow> 0)"

definition encode_chunk :: "u8 \<Rightarrow> u8 option \<Rightarrow> u8 option \<Rightarrow> string" where
  "encode_chunk b0 b1 b2 =
     (let triple = triple_of b0 b1 b2
      in [sextet triple 18, sextet triple 12,
          case b1 of Some _ \<Rightarrow> sextet triple 6 | None \<Rightarrow> CHR ''='',
          case b2 of Some _ \<Rightarrow> sextet triple 0 | None \<Rightarrow> CHR ''=''])"

text \<open>The chunks of three.\<close>

fun base64_encode :: "bytes \<Rightarrow> string" where
  "base64_encode [] = []"
| "base64_encode [b0] = encode_chunk b0 None None"
| "base64_encode [b0, b1] = encode_chunk b0 (Some b1) None"
| "base64_encode (b0 # b1 # b2 # rest) = encode_chunk b0 (Some b1) (Some b2) @ base64_encode rest"

section \<open>Strings\<close>

definition hex_digit :: "nat \<Rightarrow> char" where
  "hex_digit d = (if d < 10 then char_of (48 + d) else char_of (87 + d))"

text \<open>A character beyond ASCII is several bytes, all of them kept.\<close>

definition escaped :: "char \<Rightarrow> string" where
  "escaped c =
     (if c = CHR 0x22 then [CHR 0x5C, CHR 0x22]
      else if c = CHR 0x5C then [CHR 0x5C, CHR 0x5C]
      else if c = CHR 0x0A then [CHR 0x5C, CHR ''n'']
      else if c = CHR 0x0D then [CHR 0x5C, CHR ''r'']
      else if c = CHR 0x09 then [CHR 0x5C, CHR ''t'']
      else if c = CHR 0x08 then [CHR 0x5C, CHR ''b'']
      else if c = CHR 0x0C then [CHR 0x5C, CHR ''f'']
      else if of_char c < (0x20 :: nat) then [CHR 0x5C, CHR ''u'', CHR ''0'', CHR ''0'', hex_digit (of_char c div 16), hex_digit (of_char c mod 16)]
      else [c])"

definition quote :: "string \<Rightarrow> string" where
  "quote s = CHR 0x22 # concat (map escaped s) @ [CHR 0x22]"

section \<open>Scalars\<close>

definition f32_finite :: "u32 \<Rightarrow> bool" where
  "f32_finite v \<longleftrightarrow> drop_bit 23 v AND 0xFF \<noteq> 0xFF"

definition f64_finite :: "u64 \<Rightarrow> bool" where
  "f64_finite v \<longleftrightarrow> drop_bit 52 v AND 0x7FF \<noteq> 0x7FF"

text \<open>\<open>{:09}\<close> and \<open>trim_end_matches('0')\<close>.\<close>

definition pad_zeros :: "nat \<Rightarrow> string \<Rightarrow> string" where
  "pad_zeros width s = replicate (width - length s) (CHR ''0'') @ s"

definition trim_zeros :: "string \<Rightarrow> string" where
  "trim_zeros s = rev (dropWhile (\<lambda>c. c = CHR ''0'') (rev s))"

definition duration_seconds :: "time_delta \<Rightarrow> string" where
  "duration_seconds d =
     (let secs = sint (num_seconds d); nanos = sint (subsec_nanos d)
      in if nanos = 0 then show_int secs
         else (if secs < 0 \<or> nanos < 0 then ''-'' else '''') @ show_nat (nat \<bar>secs\<bar>) @ ''.'' @ trim_zeros (pad_zeros 9 (show_nat (nat \<bar>nanos\<bar>))))"

definition write_scalar :: "texts \<Rightarrow> scalar \<Rightarrow> string" where
  "write_scalar X s =
     (case s of
        Null \<Rightarrow> ''null''
      | Bool v \<Rightarrow> show_bool v
      | I8 v \<Rightarrow> show_int (sint v)
      | I16 v \<Rightarrow> show_int (sint v)
      | I32 v \<Rightarrow> show_int (sint v)
      | I64 v \<Rightarrow> show_int (sint v)
      | I128 v \<Rightarrow> show_int (sint v)
      | U8 v \<Rightarrow> show_nat (unat v)
      | U16 v \<Rightarrow> show_nat (unat v)
      | U32 v \<Rightarrow> show_nat (unat v)
      | U64 v \<Rightarrow> show_nat (unat v)
      | U128 v \<Rightarrow> show_nat (unat v)
      | F32 v \<Rightarrow> if f32_finite v then text_f32 X v else ''null''
      | F64 v \<Rightarrow> if f64_finite v then text_f64 X v else ''null''
      | Str v \<Rightarrow> quote v
      | Bytes v \<Rightarrow> quote (base64_encode v)
      | Uuid v \<Rightarrow> quote (text_uuid X v)
      | Date v \<Rightarrow> quote (text_date X v)
      | Time v \<Rightarrow> quote (text_time X v)
      | DateTime d t \<Rightarrow> quote (text_datetime X d t)
      | Duration v \<Rightarrow> duration_seconds v)"

section \<open>JSON\<close>

text \<open>The items of a container, with a separator before every one but the first.\<close>

fun separated :: "'a list \<Rightarrow> 'a list list \<Rightarrow> 'a list" where
  "separated sep [] = []"
| "separated sep [x] = x"
| "separated sep (x # y # xs) = x @ sep @ separated sep (y # xs)"

definition pad :: "nat \<Rightarrow> string" where
  "pad count = replicate count (CHR '' '')"

fun compact :: "texts \<Rightarrow> vnode \<Rightarrow> string" where
  "compact X (Leaf s) = write_scalar X s"
| "compact X (List items) = ''['' @ separated '','' (map (compact X) items) @ '']''"
| "compact X (Node entries) = ''{'' @ separated '','' (map (\<lambda>e. quote (fst e) @ '':'' @ compact X (snd e)) entries) @ ''}''"

fun pretty :: "texts \<Rightarrow> vnode \<Rightarrow> nat \<Rightarrow> nat \<Rightarrow> string" where
  "pretty X (List items) indent depth =
     (if items = [] then ''[]''
      else CHR ''['' # CHR 0x0A # separated [CHR '','', CHR 0x0A] (map (\<lambda>item. pad (indent * (depth + 1)) @ pretty X item indent (depth + 1)) items)
        @ [CHR 0x0A] @ pad (indent * depth) @ '']'')"
| "pretty X (Node entries) indent depth =
     (if entries = [] then ''{}''
      else CHR ''{'' # CHR 0x0A # separated [CHR '','', CHR 0x0A]
          (map (\<lambda>e. pad (indent * (depth + 1)) @ quote (fst e) @ '': '' @ pretty X (snd e) indent (depth + 1)) entries)
        @ [CHR 0x0A] @ pad (indent * depth) @ ''}'')"
| "pretty X (Leaf s) indent depth = write_scalar X s"

definition to_json :: "texts \<Rightarrow> vnode \<Rightarrow> nat option \<Rightarrow> string" where
  "to_json X v indent = (case indent of Some n \<Rightarrow> pretty X v n 0 | None \<Rightarrow> compact X v)"

section \<open>YAML\<close>

definition yaml_inline :: "texts \<Rightarrow> vnode \<Rightarrow> string" where
  "yaml_inline X v = (case v of Leaf s \<Rightarrow> write_scalar X s | List _ \<Rightarrow> ''[]'' | Node _ \<Rightarrow> ''{}'')"

text \<open>\<open>child\<close> with \<open>object\<close> and \<open>list\<close>, whose entries are written at an indentation.\<close>

fun yaml_child :: "texts \<Rightarrow> vnode \<Rightarrow> nat \<Rightarrow> string" where
  "yaml_child X (Node entries) indent =
     (if entries \<noteq> [] then CHR 0x0A # concat (map (\<lambda>e. pad (indent + 2) @ quote (fst e) @ '':'' @ yaml_child X (snd e) (indent + 2)) entries)
      else '' '' @ yaml_inline X (Node entries) @ [CHR 0x0A])"
| "yaml_child X (List items) indent =
     (if items \<noteq> [] then CHR 0x0A # concat (map (\<lambda>item. pad (indent + 2) @ ''-'' @ yaml_child X item (indent + 2)) items)
      else '' '' @ yaml_inline X (List items) @ [CHR 0x0A])"
| "yaml_child X (Leaf s) indent = '' '' @ yaml_inline X (Leaf s) @ [CHR 0x0A]"

definition yaml_object :: "texts \<Rightarrow> (string, vnode) btree \<Rightarrow> nat \<Rightarrow> string" where
  "yaml_object X entries indent = concat (map (\<lambda>e. pad indent @ quote (fst e) @ '':'' @ yaml_child X (snd e) indent) entries)"

definition yaml_list :: "texts \<Rightarrow> vnode list \<Rightarrow> nat \<Rightarrow> string" where
  "yaml_list X items indent = concat (map (\<lambda>item. pad indent @ ''-'' @ yaml_child X item indent) items)"

definition to_yaml :: "texts \<Rightarrow> vnode \<Rightarrow> string" where
  "to_yaml X v =
     (case v of
        Node (e # entries) \<Rightarrow> yaml_object X (e # entries) 0
      | List (item # items) \<Rightarrow> yaml_list X (item # items) 0
      | other \<Rightarrow> yaml_inline X other @ [CHR 0x0A])"

section \<open>Exporters\<close>

definition txn_value :: "chrono \<Rightarrow> 's grab \<Rightarrow> apath \<Rightarrow> ('s, vnode) op" where
  "txn_value C G path =
     bindOp (grab_kind G (ABuilt path)) (\<lambda>kind.
       case kind of
         Some File \<Rightarrow> bindOp (grab_load_value C G (ABuilt path)) (\<lambda>v. liftOp (ok_or v (ValueNotFound path)))
       | Some Dir \<Rightarrow> liftOp (Err (CannotAccess (quoted (apath_display path) @ '' is a directory and cannot be exported'')))
       | None \<Rightarrow> liftOp (Err (ValueNotFound path)))"

definition navigate :: "vnode \<Rightarrow> vpath \<Rightarrow> vnode res" where
  "navigate v base = ok_or (subtree v base) (PathNotFound base)"

definition txn_export_to_json :: "texts \<Rightarrow> chrono \<Rightarrow> 's grab \<Rightarrow> arbor_arg \<Rightarrow> nat option \<Rightarrow> ('s, string) op" where
  "txn_export_to_json X C G path indent =
     bindOp (liftOp (into_arbor_path path)) (\<lambda>path. bindOp (txn_value C G path) (\<lambda>v. retOp (to_json X v indent)))"

definition txn_export_to_yaml :: "texts \<Rightarrow> chrono \<Rightarrow> 's grab \<Rightarrow> arbor_arg \<Rightarrow> ('s, string) op" where
  "txn_export_to_yaml X C G path =
     bindOp (liftOp (into_arbor_path path)) (\<lambda>path. bindOp (txn_value C G path) (\<lambda>v. retOp (to_yaml X v)))"

definition value_export_to_json :: "texts \<Rightarrow> vnode \<Rightarrow> value_arg \<Rightarrow> nat option \<Rightarrow> string res" where
  "value_export_to_json X v path indent = andThen (into_value_path path) (\<lambda>path. andThen (navigate v path) (\<lambda>v. Ok (to_json X v indent)))"

definition value_export_to_yaml :: "texts \<Rightarrow> vnode \<Rightarrow> value_arg \<Rightarrow> string res" where
  "value_export_to_yaml X v path = andThen (into_value_path path) (\<lambda>path. andThen (navigate v path) (\<lambda>v. Ok (to_yaml X v)))"

end
