(* ===== verification/Export_Laws.thy ===== *)
theory Export_Laws
  imports Export Grab_Laws
begin

text \<open>
  What an export promises: Base64 text decodes to the bytes, a quoted string reads back as the string, a JSON rendering has, in every layout, exactly the tokens of the document, and
  an exporter renders what is at the path or says that nothing, or a directory, is.
\<close>

section \<open>Base64\<close>

text \<open>Decoding, from the standard: four characters for three bytes, the last ones possibly padding.\<close>

definition sextet_val :: "char \<Rightarrow> nat" where
  "sextet_val c = length (takeWhile (\<lambda>a. a \<noteq> c) ALPHABET)"

fun base64_decode :: "string \<Rightarrow> nat list option" where
  "base64_decode [] = Some []"
| "base64_decode (c0 # c1 # c2 # c3 # rest) =
     (let s0 = sextet_val c0; s1 = sextet_val c1; s2 = sextet_val c2; s3 = sextet_val c3
      in if c3 = CHR ''='' \<and> rest = [] then
           (if c2 = CHR ''='' then Some [s0 * 4 + s1 div 16] else Some [s0 * 4 + s1 div 16, s1 mod 16 * 16 + s2 div 4])
         else map_option (\<lambda>bs. (s0 * 4 + s1 div 16) # (s1 mod 16 * 16 + s2 div 4) # (s2 mod 4 * 64 + s3) # bs) (base64_decode rest))"
| "base64_decode _ = None"

lemma alphabet_facts: "length ALPHABET = 64" "distinct ALPHABET" "CHR ''='' \<notin> set ALPHABET"
  by (simp_all add: ALPHABET_def)

lemma sextet_val_nth: "i < 64 \<Longrightarrow> sextet_val (ALPHABET ! i) = i \<and> ALPHABET ! i \<noteq> CHR ''=''"
proof -
  assume i: "i < 64"
  then have "ALPHABET ! j \<noteq> ALPHABET ! i" if "j < i" for j using that alphabet_facts(1,2) by (simp add: nth_eq_iff_index_eq)
  then have "takeWhile (\<lambda>a. a \<noteq> ALPHABET ! i) ALPHABET = take i ALPHABET" using i alphabet_facts(1) by (intro takeWhile_eq_take_P_nth) auto
  moreover have "ALPHABET ! i \<noteq> CHR ''=''" using i alphabet_facts(1,3) by (metis nth_mem)
  ultimately show ?thesis using i alphabet_facts(1) by (simp add: sextet_val_def)
qed

lemma triple_of_val:
  fixes b0 b1 b2 :: u8
  shows "unat (push_bit 16 (ucast b0) OR push_bit 8 (ucast b1) OR ucast b2 :: u32) = unat b0 * 65536 + unat b1 * 256 + unat b2"
proof -
  have "push_bit 8 (ucast b1) OR ucast b2 = push_bit 8 (ucast b1) + (ucast b2 :: u32)"
    by (rule disjunctive_add [symmetric]) (auto simp: bit_push_bit_iff bit_ucast_iff dest: bit_imp_le_length)
  moreover have "push_bit 16 (ucast b0) OR (push_bit 8 (ucast b1) OR ucast b2) = push_bit 16 (ucast b0) + (push_bit 8 (ucast b1) OR ucast b2 :: u32)"
    by (rule disjunctive_add [symmetric]) (auto simp: bit_push_bit_iff bit_or_iff bit_ucast_iff dest: bit_imp_le_length)
  ultimately have "push_bit 16 (ucast b0) OR push_bit 8 (ucast b1) OR ucast b2 = (word_of_nat (unat b0 * 65536 + unat b1 * 256 + unat b2) :: u32)"
    by (simp add: push_bit_eq_mult or.assoc)
  moreover have "unat b0 \<le> 255" "unat b1 \<le> 255" "unat b2 \<le> 255" using unat_u8_less [of b0] unat_u8_less [of b1] unat_u8_less [of b2] by linarith+
  then have "unat b0 * 65536 + unat b1 * 256 + unat b2 < 2 ^ 32" by simp
  ultimately show ?thesis by (simp add: u32_small del: of_nat_add of_nat_mult)
qed

lemma sextet_index: "unat (drop_bit k w AND 0x3F :: u32) = unat w div 2 ^ k mod 64"
proof -
  have "drop_bit k w AND 0x3F = take_bit 6 (drop_bit k w)" by (simp add: take_bit_eq_mask mask_eq_exp_minus_1)
  then have "unat (drop_bit k w AND 0x3F) = take_bit 6 (drop_bit k (unat w))" by (simp only: unsigned_take_bit_eq unat_drop_bit_eq)
  then show ?thesis by (simp add: take_bit_eq_mod drop_bit_eq_div)
qed

lemma sextet_val_of: "sextet_val (sextet w k) = unat w div 2 ^ k mod 64" "sextet w k \<noteq> CHR ''=''"
  using sextet_val_nth [of "unat w div 2 ^ k mod 64"] by (simp_all add: sextet_def sextet_index)

text \<open>The three bytes from the four sextets.\<close>

lemma sextet_digits: "(4 * s + p) * 65536 + (16 * q + r) * 256 + (64 * u + v) = ((s * 64 + (p * 16 + q)) * 64 + (r * 4 + u)) * 64 + (v :: nat)"
  by (simp add: algebra_simps)

lemma sextets_bytes:
  assumes "a < 256" "b < 256" "c < (256 :: nat)"
  defines "t \<equiv> a * 65536 + b * 256 + c"
  shows "t div 262144 mod 64 * 4 + t div 4096 mod 64 div 16 = a" "t div 4096 mod 64 mod 16 * 16 + t div 64 mod 64 div 4 = b" "t div 64 mod 64 mod 4 * 64 + t mod 64 = c"
proof -
  define s0 s1 s2 s3 where s: "s0 = a div 4" "s1 = a mod 4 * 16 + b div 16" "s2 = b mod 16 * 4 + c div 64" "s3 = c mod 64"
  have small: "s0 < 64" "s1 < 64" "s2 < 64" "s3 < 64" using assms(1-3) unfolding s by linarith+
  have t: "t = ((s0 * 64 + s1) * 64 + s2) * 64 + s3"
    using sextet_digits [of "a div 4" "a mod 4" "b div 16" "b mod 16" "c div 64" "c mod 64"] by (simp only: t_def s mult_div_mod_eq)
  have d0: "t div 64 = (s0 * 64 + s1) * 64 + s2" "t mod 64 = s3" unfolding t using small(4) by (simp_all only: mod_mult_self3 mod_less div_mult_self3 div_less)
  have d1: "t div 4096 = s0 * 64 + s1" using div_mult2_eq [of t 64 64] d0 small(3) by simp
  have d2: "t div 262144 = s0" using div_mult2_eq [of t 4096 64] d1 small(2) by simp
  have d: "t div 262144 mod 64 = s0" "t div 4096 mod 64 = s1" "t div 64 mod 64 = s2" "t mod 64 = s3"
    by (simp_all only: d0 d1 d2 mod_mult_self3 mod_less small)
  have "s1 div 16 = a mod 4" "s1 mod 16 = b div 16" "s2 div 4 = b mod 16" "s2 mod 4 = c div 64" using assms(2,3) unfolding s by simp_all
  then show "t div 262144 mod 64 * 4 + t div 4096 mod 64 div 16 = a" "t div 4096 mod 64 mod 16 * 16 + t div 64 mod 64 div 4 = b" "t div 64 mod 64 mod 4 * 64 + t mod 64 = c"
    unfolding d s by simp_all
qed

abbreviation (input) byte_or_zero :: "u8 option \<Rightarrow> u8" where
  "byte_or_zero b \<equiv> (case b of Some b \<Rightarrow> b | None \<Rightarrow> 0)"

lemma chunk_bytes:
  fixes b0 b1 b2
  defines "s \<equiv> \<lambda>k. sextet_val (sextet (triple_of b0 b1 b2) k)"
  shows "s 18 * 4 + s 12 div 16 = unat b0" "s 12 mod 16 * 16 + s 6 div 4 = unat (byte_or_zero b1)" "s 6 mod 4 * 64 + s 0 = unat (byte_or_zero b2)"
proof -
  have t: "unat (triple_of b0 b1 b2) = unat b0 * 65536 + unat (byte_or_zero b1) * 256 + unat (byte_or_zero b2)" unfolding triple_of_def by (rule triple_of_val)
  have p: "(2::nat) ^ 18 = 262144" "(2::nat) ^ 12 = 4096" "(2::nat) ^ 6 = 64" "(2::nat) ^ 0 = 1" by simp_all
  note b = sextets_bytes [OF unat_u8_less unat_u8_less unat_u8_less, of b0 "byte_or_zero b1" "byte_or_zero b2", folded t]
  show "s 18 * 4 + s 12 div 16 = unat b0" "s 12 mod 16 * 16 + s 6 div 4 = unat (byte_or_zero b1)" "s 6 mod 4 * 64 + s 0 = unat (byte_or_zero b2)"
    unfolding s_def sextet_val_of p div_by_1 by (rule b)+
qed

text \<open>Bytes are exported without loss. The Base64 text of any byte string, decoded as the standard says, is that byte string, whatever its length leaves of the last group.\<close>

theorem base64_roundtrip: "base64_decode (base64_encode bs) = Some (map unat bs)"
proof (induction bs rule: base64_encode.induct)
  case (2 b0)
  then show ?case using chunk_bytes(1) [of b0 None None] by (simp add: encode_chunk_def Let_def)
next
  case (3 b0 b1)
  then show ?case using chunk_bytes(1,2) [of b0 "Some b1" None] sextet_val_of(2) by (simp add: encode_chunk_def Let_def)
next
  case (4 b0 b1 b2 rest)
  then show ?case using chunk_bytes [of b0 "Some b1" "Some b2"] sextet_val_of(2) by (simp add: encode_chunk_def Let_def)
qed simp

section \<open>Reading a string back\<close>

text \<open>The part of a JSON string after a backslash, and the string up to its closing quote.\<close>

definition hex_val :: "char \<Rightarrow> nat" where
  "hex_val c = (if is_digit c then digit_val c else of_char c - 87)"

definition unescape :: "string \<Rightarrow> (char \<times> string) option" where
  "unescape s =
     (case s of
        [] \<Rightarrow> None
      | c # r \<Rightarrow>
          if c = CHR 0x22 \<or> c = CHR 0x5C \<or> c = CHR ''/'' then Some (c, r)
          else if c = CHR ''n'' then Some (CHR 0x0A, r)
          else if c = CHR ''r'' then Some (CHR 0x0D, r)
          else if c = CHR ''t'' then Some (CHR 0x09, r)
          else if c = CHR ''b'' then Some (CHR 0x08, r)
          else if c = CHR ''f'' then Some (CHR 0x0C, r)
          else if c = CHR ''u'' \<and> length r \<ge> 4 \<and> take 2 r = ''00'' then Some (char_of (hex_val (r ! 2) * 16 + hex_val (r ! 3)), drop 4 r)
          else None)"

lemma unescape_shrinks: "unescape s = Some (c, r) \<Longrightarrow> length r < length s"
  by (auto simp: unescape_def split: list.splits if_splits)

function read_string :: "string \<Rightarrow> (string \<times> string) option" where
  "read_string s =
     (case s of
        [] \<Rightarrow> None
      | c # r \<Rightarrow>
          if c = CHR 0x22 then Some ([], r)
          else if c = CHR 0x5C then
            (case unescape r of Some (d, r') \<Rightarrow> map_option (\<lambda>(x, rest). (d # x, rest)) (read_string r') | None \<Rightarrow> None)
          else map_option (\<lambda>(x, rest). (c # x, rest)) (read_string r))"
  by pat_completeness auto
termination
  by (relation "measure length") (auto dest: unescape_shrinks)

declare read_string.simps [simp del]

lemma read_string_shrinks: "read_string s = Some (x, r) \<Longrightarrow> length r < length s"
proof (induction s arbitrary: x r rule: read_string.induct)
  case (1 s)
  then show ?case
    by (subst (asm) (3) read_string.simps) (auto split: list.splits if_splits option.splits dest!: unescape_shrinks, fastforce+)
qed

lemma hex_val_digit: "d < 16 \<Longrightarrow> hex_val (hex_digit d) = d"
  by (auto simp: hex_val_def hex_digit_def is_digit_def digit_val_def)

lemma read_escaped: "read_string (escaped c @ s) = map_option (\<lambda>(x, rest). (c # x, rest)) (read_string s)"
proof -
  have "of_char c div 16 < (16 :: nat)" using nat_of_char_less_256 [of c] by (simp add: div_less_iff_less_mult)
  then have "hex_val (hex_digit (of_char c div 16)) * 16 + hex_val (hex_digit (of_char c mod 16)) = (of_char c :: nat)"
    using hex_val_digit [of "of_char c div 16"] hex_val_digit [of "of_char c mod 16"] by simp
  then have u: "unescape (CHR ''u'' # CHR ''0'' # CHR ''0'' # hex_digit (of_char c div 16) # hex_digit (of_char c mod 16) # s) = Some (c, s)"
    by (simp add: unescape_def)
  show ?thesis unfolding escaped_def by (subst read_string.simps) (simp add: u, simp add: unescape_def)
qed

lemma read_quoted: "read_string (concat (map escaped x) @ CHR 0x22 # rest) = Some (x, rest)"
proof (induction x)
  case Nil
  show ?case by (subst read_string.simps) simp
next
  case (Cons c x)
  then show ?case by (simp add: read_escaped)
qed

section \<open>Tokens\<close>

datatype jtoken = J_open_list | J_close_list | J_open_object | J_close_object | J_comma | J_colon | J_string string | J_atom string

definition space :: "char \<Rightarrow> bool" where
  "space c \<longleftrightarrow> c = CHR '' '' \<or> c = CHR 0x0A"

definition punctuation :: "char \<Rightarrow> jtoken option" where
  "punctuation c =
     (if c = CHR ''['' then Some J_open_list
      else if c = CHR '']'' then Some J_close_list
      else if c = CHR ''{'' then Some J_open_object
      else if c = CHR ''}'' then Some J_close_object
      else if c = CHR '','' then Some J_comma
      else if c = CHR '':'' then Some J_colon
      else None)"

definition delimiter :: "char \<Rightarrow> bool" where
  "delimiter c \<longleftrightarrow> space c \<or> punctuation c \<noteq> None \<or> c = CHR 0x22"

text \<open>The tokens of a JSON text: punctuation, strings with their escapes resolved, and atoms, which are numbers and the literals.\<close>

function json_lex :: "string \<Rightarrow> jtoken list option" where
  "json_lex s =
     (case s of
        [] \<Rightarrow> Some []
      | c # r \<Rightarrow>
          if space c then json_lex r
          else (case punctuation c of
                  Some t \<Rightarrow> map_option ((#) t) (json_lex r)
                | None \<Rightarrow>
                    if c = CHR 0x22 then (case read_string r of Some (x, r') \<Rightarrow> map_option ((#) (J_string x)) (json_lex r') | None \<Rightarrow> None)
                    else map_option ((#) (J_atom (c # takeWhile (\<lambda>c. \<not> delimiter c) r))) (json_lex (dropWhile (\<lambda>c. \<not> delimiter c) r))))"
  by pat_completeness auto
termination
  by (relation "measure length") (auto dest: read_string_shrinks intro: le_imp_less_Suc length_dropWhile_le)

declare json_lex.simps [simp del]

lemma json_lex_step:
  "json_lex [] = Some []"
  "space c \<Longrightarrow> json_lex (c # r) = json_lex r"
  "punctuation c = Some t \<Longrightarrow> json_lex (c # r) = map_option ((#) t) (json_lex r)"
  "json_lex (quote x @ r) = map_option ((#) (J_string x)) (json_lex r)"
proof -
  show "json_lex [] = Some []" by (subst json_lex.simps) simp
  show "space c \<Longrightarrow> json_lex (c # r) = json_lex r" by (subst json_lex.simps) simp
  assume "punctuation c = Some t"
  moreover from this have "\<not> space c" by (auto simp: space_def punctuation_def split: if_splits)
  ultimately show "json_lex (c # r) = map_option ((#) t) (json_lex r)" by (subst json_lex.simps) simp
next
  have "read_string (concat (map escaped x) @ CHR 0x22 # r) = Some (x, r)" by (rule read_quoted)
  then show "json_lex (quote x @ r) = map_option ((#) (J_string x)) (json_lex r)"
    unfolding quote_def append_Cons append_assoc append_Nil by (subst json_lex.simps) (simp add: space_def punctuation_def)
qed

text \<open>A text lexes to tokens wherever a delimiter, or nothing, follows it.\<close>

definition follows :: "string \<Rightarrow> bool" where
  "follows rest \<longleftrightarrow> rest = [] \<or> delimiter (hd rest)"

definition lexes :: "string \<Rightarrow> jtoken list \<Rightarrow> bool" where
  "lexes s ts \<longleftrightarrow> (\<forall>rest. follows rest \<longrightarrow> json_lex (s @ rest) = map_option ((@) ts) (json_lex rest))"

lemma lexesD: "lexes s ts \<Longrightarrow> follows rest \<Longrightarrow> json_lex (s @ rest) = map_option ((@) ts) (json_lex rest)"
  by (simp add: lexes_def)

lemma lexes_Nil: "lexes [] []"
proof -
  have "x = map_option ((@) []) x" for x :: "jtoken list option" by (cases x) simp_all
  then show ?thesis by (simp add: lexes_def)
qed

lemma lexes_append:
  assumes "lexes s ts" "lexes s' ts'" "follows s'"
  shows "lexes (s @ s') (ts @ ts')"
  unfolding lexes_def
proof (intro allI impI)
  fix rest
  assume rest: "follows rest"
  then have "follows (s' @ rest)" using assms(3) by (cases s') (auto simp: follows_def)
  then show "json_lex ((s @ s') @ rest) = map_option ((@) (ts @ ts')) (json_lex rest)"
    using lexesD [OF assms(1)] lexesD [OF assms(2) rest] by (cases "json_lex rest") simp_all
qed

lemma lexes_space: "space c \<Longrightarrow> lexes s ts \<Longrightarrow> lexes (c # s) ts"
  by (simp add: lexes_def json_lex_step)

lemma lexes_spaces: "\<forall>c \<in> set w. space c \<Longrightarrow> lexes s ts \<Longrightarrow> lexes (w @ s) ts"
  by (induction w) (auto intro: lexes_space)

lemma lexes_punctuation:
  assumes "punctuation c = Some t" "lexes s ts"
  shows "lexes (c # s) (t # ts)"
  unfolding lexes_def
proof (intro allI impI)
  fix rest
  assume "follows rest"
  then show "json_lex ((c # s) @ rest) = map_option ((@) (t # ts)) (json_lex rest)"
    using lexesD [OF assms(2)] json_lex_step(3) [OF assms(1)] by (cases "json_lex rest") simp_all
qed

lemma lexes_quote:
  assumes "lexes s ts"
  shows "lexes (quote x @ s) (J_string x # ts)"
  unfolding lexes_def
proof (intro allI impI)
  fix rest
  assume "follows rest"
  then show "json_lex ((quote x @ s) @ rest) = map_option ((@) (J_string x # ts)) (json_lex rest)"
    using lexesD [OF assms] json_lex_step(4) [of x "s @ rest"] by (cases "json_lex rest") simp_all
qed

lemma lexes_atom:
  assumes "a \<noteq> []" "\<forall>c \<in> set a. \<not> delimiter c"
  shows "lexes a [J_atom a]"
  unfolding lexes_def
proof (intro allI impI)
  fix rest
  assume rest: "follows rest"
  obtain c r where a: "a = c # r" using assms(1) by (cases a) auto
  have "takeWhile (\<lambda>c. \<not> delimiter c) (r @ rest) = r" "dropWhile (\<lambda>c. \<not> delimiter c) (r @ rest) = rest"
    using assms(2) rest a by (cases rest; simp add: follows_def)+
  moreover have "\<not> space c" "punctuation c = None" "c \<noteq> CHR 0x22" using assms(2) a by (simp_all add: delimiter_def)
  ultimately have "json_lex (a @ rest) = map_option ((#) (J_atom a)) (json_lex rest)" unfolding a append_Cons by (subst json_lex.simps) simp
  then show "json_lex (a @ rest) = map_option ((@) [J_atom a]) (json_lex rest)" by (cases "json_lex rest") simp_all
qed

text \<open>The items of a container.\<close>

lemma lexes_separated:
  assumes "\<And>x. x \<in> set xs \<Longrightarrow> lexes (f x) (g x)" "\<forall>c \<in> set w. space c"
  shows "lexes (separated (CHR '','' # w) (map f xs)) (separated [J_comma] (map g xs))"
  using assms(1)
proof (induction xs rule: induct_list012)
  case (3 x y xs)
  have "lexes (f x @ CHR '','' # w @ separated (CHR '','' # w) (map f (y # xs))) (g x @ J_comma # separated [J_comma] (map g (y # xs)))"
    using 3 assms(2) by (intro lexes_append lexes_punctuation lexes_spaces) (auto simp: punctuation_def delimiter_def follows_def)
  then show ?case by simp
qed (simp_all add: lexes_Nil)

section \<open>JSON\<close>

text \<open>The JSON document a value stands for.\<close>

datatype json = Json_String string | Json_Atom string | Json_List "json list" | Json_Object "(string \<times> json) list"

definition scalar_json :: "texts \<Rightarrow> scalar \<Rightarrow> json" where
  "scalar_json X s =
     (case s of
        Str v \<Rightarrow> Json_String v
      | Bytes v \<Rightarrow> Json_String (base64_encode v)
      | Uuid v \<Rightarrow> Json_String (text_uuid X v)
      | Date v \<Rightarrow> Json_String (text_date X v)
      | Time v \<Rightarrow> Json_String (text_time X v)
      | DateTime d t \<Rightarrow> Json_String (text_datetime X d t)
      | _ \<Rightarrow> Json_Atom (write_scalar X s))"

fun json_of :: "texts \<Rightarrow> vnode \<Rightarrow> json" where
  "json_of X (Leaf s) = scalar_json X s"
| "json_of X (List items) = Json_List (map (json_of X) items)"
| "json_of X (Node entries) = Json_Object (map (\<lambda>e. (fst e, json_of X (snd e))) entries)"

fun tokens :: "json \<Rightarrow> jtoken list" where
  "tokens (Json_String x) = [J_string x]"
| "tokens (Json_Atom a) = [J_atom a]"
| "tokens (Json_List js) = J_open_list # separated [J_comma] (map tokens js) @ [J_close_list]"
| "tokens (Json_Object es) = J_open_object # separated [J_comma] (map (\<lambda>e. J_string (fst e) # J_colon # tokens (snd e)) es) @ [J_close_object]"

text \<open>What is relied on of the text of a finite float: it is not empty and has no character that ends an atom.\<close>

definition plain_texts :: "texts \<Rightarrow> bool" where
  "plain_texts X \<longleftrightarrow> (\<forall>v. f32_finite v \<longrightarrow> text_f32 X v \<noteq> [] \<and> (\<forall>c \<in> set (text_f32 X v). \<not> delimiter c)) \<and>
     (\<forall>v. f64_finite v \<longrightarrow> text_f64 X v \<noteq> [] \<and> (\<forall>c \<in> set (text_f64 X v). \<not> delimiter c))"

lemma delimiter_iff: "delimiter c \<longleftrightarrow> c \<in> set ('' []{},:'' @ [CHR 0x0A, CHR 0x22])"
  by (simp add: delimiter_def space_def punctuation_def)

lemma digit_plain: "is_digit c \<Longrightarrow> \<not> delimiter c"
  by (auto simp: is_digit_def delimiter_iff)

lemma show_nat_plain: "\<forall>c \<in> set (show_nat n). \<not> delimiter c"
  using show_nat_digits [of n] digit_plain by (auto simp: list_all_iff)

lemma sign_plain: "\<not> delimiter (CHR ''-'')" "\<not> delimiter (CHR ''.'')" "\<not> delimiter (CHR ''0'')"
  by (simp_all add: delimiter_iff)

lemma show_int_plain: "show_int n \<noteq> []" "\<forall>c \<in> set (show_int n). \<not> delimiter c"
  using show_nat_plain sign_plain(1) by (auto simp: show_int_def)

lemma duration_plain: "duration_seconds d \<noteq> []" "\<forall>c \<in> set (duration_seconds d). \<not> delimiter c"
proof -
  have "c \<in> set s" if "c \<in> set (trim_zeros s)" for c s using that by (auto simp: trim_zeros_def dest: set_dropWhileD)
  then have "\<forall>c \<in> set (trim_zeros (pad_zeros 9 (show_nat n))). \<not> delimiter c" for n
    using show_nat_plain [of n] sign_plain(3) by (fastforce simp: pad_zeros_def)
  then show "duration_seconds d \<noteq> []" "\<forall>c \<in> set (duration_seconds d). \<not> delimiter c"
    using show_int_plain show_nat_plain sign_plain by (auto simp: duration_seconds_def Let_def)
qed

lemma literal_plain: "\<forall>c \<in> set ''null''. \<not> delimiter c" "\<forall>c \<in> set (show_bool b). \<not> delimiter c"
  by (auto simp: delimiter_iff show_bool_def)

lemma lexes_scalar:
  assumes "plain_texts X"
  shows "lexes (write_scalar X s) (tokens (scalar_json X s))"
proof -
  have q: "lexes (quote x) [J_string x]" for x using lexes_quote [OF lexes_Nil, of x] by simp
  note plain = lexes_atom [OF _ show_nat_plain] lexes_atom [OF show_int_plain] lexes_atom [OF duration_plain] lexes_atom [OF _ literal_plain(1)] lexes_atom [OF _ literal_plain(2)]
  have b: "show_bool b \<noteq> []" for b by (simp add: show_bool_def)
  show ?thesis
    using assms by (cases s) (auto simp: write_scalar_def scalar_json_def plain_texts_def q b intro!: plain lexes_atom [of "text_f32 X _"] lexes_atom [of "text_f64 X _"])
qed

lemma punctuation_simps [simp]: "punctuation (CHR ''['') = Some J_open_list" "punctuation (CHR '']'') = Some J_close_list" "punctuation (CHR ''{'') = Some J_open_object"
  "punctuation (CHR ''}'') = Some J_close_object" "punctuation (CHR '','') = Some J_comma" "punctuation (CHR '':'') = Some J_colon"
  by (simp_all add: punctuation_def)

lemma space_simps [simp]: "space (CHR '' '')" "space (CHR 0x0A)" "c \<in> set (pad n) \<Longrightarrow> space c"
  by (simp_all add: space_def pad_def)

lemma follows_simps [simp]: "follows []" "follows (CHR '']'' # s)" "follows (CHR ''}'' # s)" "follows (CHR 0x0A # s)"
  by (simp_all add: follows_def delimiter_iff)

text \<open>A container between its brackets, with white space anywhere around its items.\<close>

lemma lexes_container:
  assumes "punctuation a = Some ta" "punctuation b = Some tb" "follows (w' @ [b])" "\<forall>c \<in> set v. space c" "\<forall>c \<in> set w. space c" "\<forall>c \<in> set w'. space c"
    and "\<And>x. x \<in> set xs \<Longrightarrow> lexes (f x) (g x)"
  shows "lexes (a # v @ separated (CHR '','' # w) (map f xs) @ w' @ [b]) (ta # separated [J_comma] (map g xs) @ [tb])"
  using assms by (intro lexes_punctuation lexes_spaces lexes_append lexes_separated lexes_Nil) auto

lemma lexes_compact: "plain_texts X \<Longrightarrow> lexes (compact X v) (tokens (json_of X v))"
proof (induction v rule: compact.induct)
  case (1 X s)
  then show ?case by (simp add: lexes_scalar)
next
  case (2 X items)
  then show ?case using lexes_container [of "CHR ''[''" J_open_list "CHR '']''" J_close_list "[]" "[]" "[]" items "compact X" "\<lambda>v. tokens (json_of X v)"] by (simp add: comp_def)
next
  case (3 X entries)
  have "lexes (quote (fst e) @ '':'' @ compact X (snd e)) (J_string (fst e) # J_colon # tokens (json_of X (snd e)))" if "e \<in> set entries" for e
    using 3(1) [OF that 3(2)] by (auto intro!: lexes_quote lexes_punctuation)
  then show ?case
    using lexes_container [of "CHR ''{''" J_open_object "CHR ''}''" J_close_object "[]" "[]" "[]" entries "\<lambda>e. quote (fst e) @ '':'' @ compact X (snd e)"
        "\<lambda>e. J_string (fst e) # J_colon # tokens (json_of X (snd e))"] by (simp add: comp_def)
qed

lemma lexes_pretty: "plain_texts X \<Longrightarrow> lexes (pretty X v indent depth) (tokens (json_of X v))"
proof (induction X v indent depth rule: pretty.induct)
  case (1 X items indent depth)
  have "lexes (pad (indent * (depth + 1)) @ pretty X v indent (depth + 1)) (tokens (json_of X v))" if "v \<in> set items" "items \<noteq> []" for v
    using 1 that by (auto intro!: lexes_spaces)
  then have "items \<noteq> [] \<Longrightarrow> ?case"
    using lexes_container [of "CHR ''[''" J_open_list "CHR '']''" J_close_list "CHR 0x0A # pad (indent * depth)" "[CHR 0x0A]" "[CHR 0x0A]" items
        "\<lambda>v. pad (indent * (depth + 1)) @ pretty X v indent (depth + 1)" "\<lambda>v. tokens (json_of X v)"] by (simp add: comp_def)
  moreover have "lexes ''[]'' [J_open_list, J_close_list]" by (auto intro!: lexes_punctuation lexes_Nil)
  ultimately show ?case by (cases "items = []") simp_all
next
  case (2 X entries indent depth)
  have "lexes (pad (indent * (depth + 1)) @ quote (fst e) @ '': '' @ pretty X (snd e) indent (depth + 1)) (J_string (fst e) # J_colon # tokens (json_of X (snd e)))"
    if "e \<in> set entries" "entries \<noteq> []" for e
  proof -
    have "lexes ('': '' @ pretty X (snd e) indent (depth + 1)) (J_colon # tokens (json_of X (snd e)))"
      using 2 that lexes_punctuation [OF _ lexes_space, of "CHR '':''" J_colon "CHR '' ''"] by simp
    then show ?thesis by (auto intro!: lexes_spaces lexes_quote)
  qed
  then have "entries \<noteq> [] \<Longrightarrow> ?case"
    using lexes_container [of "CHR ''{''" J_open_object "CHR ''}''" J_close_object "CHR 0x0A # pad (indent * depth)" "[CHR 0x0A]" "[CHR 0x0A]" entries
        "\<lambda>e. pad (indent * (depth + 1)) @ quote (fst e) @ '': '' @ pretty X (snd e) indent (depth + 1)" "\<lambda>e. J_string (fst e) # J_colon # tokens (json_of X (snd e))"]
    by (simp add: comp_def)
  moreover have "lexes ''{}'' [J_open_object, J_close_object]" by (auto intro!: lexes_punctuation lexes_Nil)
  ultimately show ?case by (cases "entries = []") simp_all
next
  case (3 X s indent depth)
  then show ?case by (simp add: lexes_scalar)
qed

section \<open>The tokens determine the document\<close>

lemma tokens_head: "\<exists>t ts. tokens j = t # ts \<and> t \<noteq> J_comma \<and> t \<noteq> J_close_list"
  by (cases j) auto

lemma separated_Cons: "separated sep (x # xs) = x @ (if xs = [] then [] else sep @ separated sep xs)"
  by (cases xs) simp_all

text \<open>Two lists of items that start alike have the same items, when an item is determined by the tokens it starts.\<close>

lemma separated_inj:
  assumes "\<And>x y r r'. x \<in> set xs \<Longrightarrow> g x @ r = g y @ r' \<Longrightarrow> x = y \<and> r = r'" "\<And>x. \<exists>t ts. g x = t # ts \<and> t \<noteq> J_comma \<and> t \<noteq> e" "e \<noteq> J_comma"
    and "separated [J_comma] (map g xs) @ e # r = separated [J_comma] (map g ys) @ e # r'"
  shows "xs = ys \<and> r = r'"
  using assms(1,4)
proof (induction xs arbitrary: ys)
  case Nil
  then show ?case using assms(2) [of "hd ys"] by (cases ys) (auto simp: separated_Cons split: if_splits)
next
  case (Cons x xs)
  show ?case
  proof (cases ys)
    case Nil
    then show ?thesis using Cons.prems(2) assms(2) [of x] by (auto simp: separated_Cons split: if_splits)
  next
    case (Cons y ys')
    let ?tail = "\<lambda>zs r. (if zs = [] then [] else J_comma # separated [J_comma] (map g zs)) @ e # r"
    have "g x @ ?tail xs r = g y @ ?tail ys' r'" using Cons.prems(2) Cons by (simp add: separated_Cons split: if_splits)
    then have xy: "x = y" "?tail xs r = ?tail ys' r'" using Cons.prems(1) [of x "?tail xs r" y "?tail ys' r'"] by simp_all
    then have "separated [J_comma] (map g xs) @ e # r = separated [J_comma] (map g ys') @ e # r'" using assms(3) by (auto split: if_splits)
    from Cons.IH [OF Cons.prems(1) [OF list.set_intros(2)] this] show ?thesis using xy(1) Cons by simp
  qed
qed

lemma tokens_inj: "tokens j @ r = tokens k @ r' \<Longrightarrow> j = k \<and> r = r'"
proof (induction j arbitrary: k r r' rule: tokens.induct)
  case (1 x)
  then show ?case by (cases k) auto
next
  case (2 a)
  then show ?case by (cases k) auto
next
  case (3 js)
  then obtain ks where k: "k = Json_List ks" by (cases k) auto
  then have "js = ks \<and> r = r'"
    using 3 tokens_head by (intro separated_inj [where g = tokens and e = J_close_list]) (auto simp: comp_def)
  then show ?case using k by simp
next
  case (4 es)
  then obtain ks where k: "k = Json_Object ks" by (cases k) auto
  let ?g = "\<lambda>e. J_string (fst e) # J_colon # tokens (snd e)"
  have "x = y \<and> r = r'" if "x \<in> set es" "?g x @ r = ?g y @ r'" for x y r r'
    using 4(1) [OF that(1), of _ "snd y"] that(2) by (auto simp: prod_eq_iff)
  then have "es = ks \<and> r = r'"
    using 4(2) k by (intro separated_inj [where g = ?g and e = J_close_object]) auto
  then show ?case using k by simp
qed

text \<open>C28: a JSON export says what the document is, in every layout. The compact text and the indented one, whatever the indentation, lex to the same tokens, those of the JSON document of the
  value, every string as it was before escaping; and those tokens are no other document's, so that two values with the same export have the same JSON document. A duration is a bare number
  of seconds, as the code and its tests have it; the comment at the top of \<open>export/scalar.rs\<close> lists it among the quoted scalars.\<close>

theorem json_export_faithful:
  assumes "plain_texts X"
  shows "json_lex (to_json X v indent) = Some (tokens (json_of X v)) \<and> (\<forall>w indent'. to_json X w indent' = to_json X v indent \<longrightarrow> json_of X w = json_of X v)"
proof -
  have "lexes (to_json X v indent) (tokens (json_of X v))" for v indent using lexes_compact [OF assms] lexes_pretty [OF assms] by (simp add: to_json_def split: option.split)
  from lexesD [OF this, of "[]"] have lexed: "json_lex (to_json X v indent) = Some (tokens (json_of X v))" for v indent by (simp add: json_lex_step)
  have "json_of X w = json_of X v" if same: "to_json X w indent' = to_json X v indent" for w indent'
  proof -
    have "tokens (json_of X w) @ [] = tokens (json_of X v) @ []" using lexed [of w indent'] lexed [of v indent] same by simp
    then show ?thesis using tokens_inj by blast
  qed
  then show ?thesis using lexed by blast
qed

theorem json_export_faithful_witness:
  "json_lex (to_json sample_texts (List [Leaf (Str [CHR 0x22, CHR 0x0A]), Leaf Null]) (Some 2)) =
     Some [J_open_list, J_string [CHR 0x22, CHR 0x0A], J_comma, J_atom ''null'', J_close_list]"
proof -
  have "plain_texts sample_texts" by (simp add: plain_texts_def sample_texts_def delimiter_iff)
  from json_export_faithful [OF this, of "List [Leaf (Str [CHR 0x22, CHR 0x0A]), Leaf Null]" "Some 2"] show ?thesis by (simp add: scalar_json_def write_scalar_def)
qed

section \<open>Exporting from a transaction\<close>

context grab_source
begin

lemma txn_value_law:
  assumes "showing s H"
  shows "\<exists>s'. txn_value C G p s = (case files_at H p of
      None \<Rightarrow> Err (ValueNotFound p)
    | Some Directory \<Rightarrow> Err (CannotAccess (quoted (apath_display p) @ '' is a directory and cannot be exported''))
    | Some (Document b) \<Rightarrow> blob_decode C b, s') \<and> showing s' H"
proof -
  obtain s1 where s1: "grab_kind G (ABuilt p) s = (Ok (map_option found_kind (files_at H p)), s1)" "showing s1 H" using kind_law [OF assms, of "ABuilt p" p] by auto
  obtain s2 where s2: "grab_load_value C G (ABuilt p) s1 = (doc_of C (files_at H) p, s2)" "showing s2 H" using load_value_law [OF s1(2), of "ABuilt p" p C] by auto
  show ?thesis
  proof (cases "files_at H p")
    case None
    then show ?thesis using s1 by (simp add: txn_value_def bindOp_def)
  next
    case (Some x)
    show ?thesis
    proof (cases x)
      case (Document b)
      then show ?thesis using Some s1 s2 by (cases "blob_decode C b") (simp_all add: txn_value_def bindOp_def doc_of_def)
    qed (use Some s1 in \<open>simp add: txn_value_def bindOp_def\<close>)
  qed
qed

end

end
