(* ===== verification/Rooted.thy ===== *)
theory Rooted
  imports Typed_Store Export_Laws
begin

text \<open>
  Rooted views (\<open>txn/rooted/read.rs\<close>, \<open>txn/rooted/write.rs\<close>): a transaction whose access paths are taken relative to a fixed root. A view is
  its root together with the transaction every call is forwarded to; the read calls are stated once, over the primitives both
  kinds of transaction share.
\<close>

section \<open>Views\<close>

definition rooted_at :: "apath \<Rightarrow> arbor_arg \<Rightarrow> (arbor_arg \<Rightarrow> ('s, 'a) op) \<Rightarrow> ('s, 'a) op" where
  "rooted_at root path f = bindOp (liftOp (rooted_absolute root path)) (\<lambda>p. f (ABuilt p))"

text \<open>\<open>ReadTxn::rooted\<close> and \<open>WriteTxn::rooted\<close>.\<close>

definition txn_rooted :: "arbor_arg \<Rightarrow> apath res" where
  "txn_rooted root = into_arbor_path root"

section \<open>Reads\<close>

definition rooted_load :: "'s grab \<Rightarrow> (archived_reader \<Rightarrow> 'a res) \<Rightarrow> apath \<Rightarrow> arbor_arg \<Rightarrow> ('s, 'a option) op" where
  "rooted_load G recompose root path = rooted_at root path (grab_load G recompose)"

definition rooted_load_value :: "chrono \<Rightarrow> 's grab \<Rightarrow> apath \<Rightarrow> arbor_arg \<Rightarrow> ('s, vnode option) op" where
  "rooted_load_value C G root path = rooted_at root path (grab_load_value C G)"

definition rooted_load_serde_value :: "'s grab \<Rightarrow> (bytes \<Rightarrow> 'a res) \<Rightarrow> apath \<Rightarrow> arbor_arg \<Rightarrow> ('s, 'a option) op" where
  "rooted_load_serde_value G from_blob root path = rooted_at root path (load_serde_value G from_blob)"

definition rooted_fetch :: "'s grab \<Rightarrow> apath \<Rightarrow> arbor_arg \<Rightarrow> ('s, archived_reader option) op" where
  "rooted_fetch G root path = rooted_at root path (grab_fetch G)"

definition rooted_get :: "chrono \<Rightarrow> 's grab \<Rightarrow> apath \<Rightarrow> arbor_arg \<Rightarrow> value_arg \<Rightarrow> ('s, scalar option) op" where
  "rooted_get C G root path at = rooted_at root path (\<lambda>p. grab_get C G p at)"

definition rooted_kind :: "'s grab \<Rightarrow> apath \<Rightarrow> arbor_arg \<Rightarrow> ('s, entry_kind option) op" where
  "rooted_kind G root path = rooted_at root path (grab_kind G)"

definition rooted_exists :: "'s grab \<Rightarrow> apath \<Rightarrow> arbor_arg \<Rightarrow> ('s, bool) op" where
  "rooted_exists G root path = rooted_at root path (grab_exists G)"

definition rooted_ls :: "'s grab \<Rightarrow> apath \<Rightarrow> arbor_arg \<Rightarrow> ('s, entry list) op" where
  "rooted_ls G root path = rooted_at root path (grab_ls G)"

definition rooted_query :: "apath \<Rightarrow> string \<Rightarrow> index_query" where
  "rooted_query root index = query_under root (query_new index)"

definition rooted_find :: "'s grab \<Rightarrow> (archived_reader \<Rightarrow> 'a res) \<Rightarrow> apath \<Rightarrow> string \<Rightarrow> scalar list \<Rightarrow> ('s, 'a list) op" where
  "rooted_find G recompose root index values = query_run G recompose (query_prefixed values (rooted_query root index))"

definition rooted_export_to_json :: "texts \<Rightarrow> chrono \<Rightarrow> 's grab \<Rightarrow> apath \<Rightarrow> arbor_arg \<Rightarrow> nat option \<Rightarrow> ('s, string) op" where
  "rooted_export_to_json X C G root path indent = rooted_at root path (\<lambda>p. txn_export_to_json X C G p indent)"

definition rooted_export_to_yaml :: "texts \<Rightarrow> chrono \<Rightarrow> 's grab \<Rightarrow> apath \<Rightarrow> arbor_arg \<Rightarrow> ('s, string) op" where
  "rooted_export_to_yaml X C G root path = rooted_at root path (txn_export_to_yaml X C G)"

section \<open>Writes\<close>

definition rooted_store :: "('t, 'i, 'm) env \<Rightarrow> apath \<Rightarrow> arbor_arg \<Rightarrow> adata \<Rightarrow> (('t, 'i, 'm) write_txn, unit) op" where
  "rooted_store E root path x = rooted_at root path (\<lambda>p. txn_store E p x)"

definition rooted_store_serde_value :: "('t, 'i, 'm) env \<Rightarrow> texts \<Rightarrow> apath \<Rightarrow> arbor_arg \<Rightarrow> sval \<Rightarrow> (('t, 'i, 'm) write_txn, unit) op" where
  "rooted_store_serde_value E X root path v = rooted_at root path (\<lambda>p. store_serde_value E X p v)"

definition rooted_store_value :: "('t, 'i, 'm) env \<Rightarrow> apath \<Rightarrow> arbor_arg \<Rightarrow> vnode \<Rightarrow> (('t, 'i, 'm) write_txn, unit) op" where
  "rooted_store_value E root path v = rooted_at root path (\<lambda>p. store_value E p v)"

definition rooted_mkdir :: "('t, 'i, 'm) env \<Rightarrow> apath \<Rightarrow> arbor_arg \<Rightarrow> (('t, 'i, 'm) write_txn, unit) op" where
  "rooted_mkdir E root path = rooted_at root path (txn_mkdir E)"

definition rooted_rm :: "('t, 'i, 'm) env \<Rightarrow> apath \<Rightarrow> arbor_arg \<Rightarrow> (('t, 'i, 'm) write_txn, bool) op" where
  "rooted_rm E root path = rooted_at root path (txn_rm E)"

definition rooted_mv :: "('t, 'i, 'm) env \<Rightarrow> apath \<Rightarrow> arbor_arg \<Rightarrow> arbor_arg \<Rightarrow> (('t, 'i, 'm) write_txn, unit) op" where
  "rooted_mv E root src dst = rooted_at root src (\<lambda>s. rooted_at root dst (txn_mv E s))"

definition rooted_cp :: "('t, 'i, 'm) env \<Rightarrow> apath \<Rightarrow> arbor_arg \<Rightarrow> arbor_arg \<Rightarrow> (('t, 'i, 'm) write_txn, unit) op" where
  "rooted_cp E root src dst = rooted_at root src (\<lambda>s. rooted_at root dst (txn_cp E s))"

definition rooted_fetch_mut :: "('t, 'i, 'm) env \<Rightarrow> ('t, 'i, 'm) write_txn \<Rightarrow> apath \<Rightarrow> arbor_arg \<Rightarrow> mut_cursor option res" where
  "rooted_fetch_mut E s root path = andThen (rooted_absolute root path) (\<lambda>p. fetch_mut E s (ABuilt p))"

section \<open>Lemmas\<close>

lemma rooted_at_Ok: "into_arbor_path a = Ok p \<Longrightarrow> rooted_at root a f s = f (ABuilt (root @ p)) s"
  by (simp add: rooted_at_def rooted_absolute_def apath_join_def)

lemmas rooted_defs = rooted_load_def rooted_load_value_def rooted_load_serde_value_def rooted_fetch_def rooted_get_def rooted_kind_def rooted_exists_def rooted_ls_def
  rooted_export_to_json_def rooted_export_to_yaml_def

text \<open>The answer of a read by path that looks at nothing but the kind of the entry and the blob of a file.\<close>

fun answer :: "'a \<Rightarrow> 'a \<Rightarrow> (bytes \<Rightarrow> 'a) \<Rightarrow> found option \<Rightarrow> 'a" where
  "answer none dir file None = none"
| "answer none dir file (Some Directory) = dir"
| "answer none dir file (Some (Document b)) = file b"

lemma found_cases: obtains "x = None" | "x = Some Directory" | b where "x = Some (Document b)"
  by (metis found.exhaust not_None_eq)

definition leaf_of_blob :: "chrono \<Rightarrow> vpath \<Rightarrow> bytes \<Rightarrow> scalar option res" where
  "leaf_of_blob C at b = andThen (archived_new b) (\<lambda>(blob, root). andThen (node_navigate blob root at) (\<lambda>node.
     case node of None \<Rightarrow> Ok None | Some pos \<Rightarrow> node_scalar_if_leaf C blob pos))"

text \<open>Two listings of the same children are the same.\<close>

lemma listing_unique:
  assumes "listing F p es" "listing F' p' es'" "\<And>n. F (p @ [n]) = F' (p' @ [n])"
  shows "es = es'"
proof -
  have "x \<in> set es \<longleftrightarrow> x \<in> set es'" for x using assms by (cases x) (simp add: listing_def)
  then have same: "set es = set es'" by blast
  have "inj_on ent_name (set es)"
  proof (rule inj_onI)
    fix x y assume "x \<in> set es" "y \<in> set es" "ent_name x = ent_name y"
    moreover obtain n k m l where "x = Entry n k" "y = Entry m l" by (cases x; cases y)
    ultimately show "x = y" using assms(1) by (auto simp: listing_def)
  qed
  moreover have "map ent_name es = map ent_name es'"
    using assms(1,2) same by (intro strict_sorted_equal) (auto simp: listing_def)
  ultimately show ?thesis using same by (simp add: map_inj_on)
qed

context grab_source
begin

lemma with_blob_answer:
  assumes "showing s H" "into_arbor_path a = Ok p"
    and "\<And>m s. f p (dir_entry (encode_dir m)) s = (dir, s)" "\<And>b s. f p (file_entry b) s = (file b, s)"
  shows "fst (with_blob G a none f s) = answer none dir file (files_at H p)"
proof -
  have "\<exists>s'. with_blob G a none f s = (answer none dir file (files_at H p), s') \<and> showing s' H"
  proof (rule with_blob_law [OF assms(1,2), where g = "\<lambda>x. case x of DirN m \<Rightarrow> dir | FileN b \<Rightarrow> file b"], goal_cases)
    case (1 k x s')
    then show ?case using assms(3,4) by (cases x) simp_all
  next
    case (3 x)
    then show ?case by (cases x) simp_all
  qed simp
  then show ?thesis by auto
qed

lemma path_answers:
  assumes "showing s H" "into_arbor_path a = Ok p"
  shows "fst (grab_load G recompose a s) = answer (Ok None) (Err (is_a_directory p))
      (\<lambda>b. andThen (archived_reader_new (file_entry b) 1) (\<lambda>r. andThen (recompose r) (\<lambda>v. Ok (Some v)))) (files_at H p)"
    and "fst (grab_load_value C G a s) = answer (Ok None) (Err (is_a_directory p)) (\<lambda>b. andThen (blob_decode C b) (\<lambda>v. Ok (Some v))) (files_at H p)"
    and "fst (load_serde_value G from_blob a s) = answer (Ok None) (Err (is_a_directory p)) (\<lambda>b. andThen (from_blob b) (\<lambda>v. Ok (Some v))) (files_at H p)"
    and "fst (grab_fetch G a s) = answer (Ok None) (Err (is_a_directory p))
      (\<lambda>b. andThen (archived_reader_new (file_entry b) 1) (\<lambda>r. Ok (Some r))) (files_at H p)"
    and "fst (grab_kind G a s) = answer (Ok None) (Ok (Some Dir)) (\<lambda>_. Ok (Some File)) (files_at H p)"
  unfolding grab_load_def grab_load_value_def load_serde_value_def grab_fetch_def grab_kind_def
  by (rule with_blob_answer [OF assms]; simp add: get_entry_kind_split bindOp_def split: res.split)+

lemma get_answer:
  assumes "showing s H" "into_arbor_path a = Ok p"
  shows "fst (grab_get C G a at s) = andThen (into_value_path at) (\<lambda>at. answer (Ok None) (Ok None) (leaf_of_blob C at) (files_at H p))"
proof (cases "into_value_path at")
  case (Ok v)
  have "fst (grab_get C G a at s) = answer (Ok None) (Ok None) (leaf_of_blob C v) (files_at H p)"
    unfolding grab_get_def assms(2) Ok
    by (simp, rule with_blob_answer [OF assms]) (auto simp: leaf_of_blob_def bindOp_def split: res.split option.split)
  then show ?thesis using Ok by simp
qed (simp_all add: grab_get_def assms(2) bindOp_def)

lemma export_answer:
  assumes "showing s H"
  shows "fst (txn_value C G p s) = answer (Err (ValueNotFound p))
    (Err (CannotAccess (quoted (apath_display p) @ '' is a directory and cannot be exported''))) (blob_decode C) (files_at H p)"
  using txn_value_law [OF assms, of C p] by (cases "files_at H p" rule: found_cases) auto

end

text \<open>The two snapshots of a comparison.\<close>

lemma ls_same:
  assumes "shows_heap E L hist s H" "shows_heap E' L' hist' s' H'" "into_arbor_path a = Ok p"
    and "\<And>q. prefix p q \<Longrightarrow> files_at H q = files_at H' q"
  shows "fst (grab_ls (read_grab E L) a s) = fst (grab_ls (read_grab E' L') a s')"
proof -
  have at: "files_at H p = files_at H' p" "\<And>n. files_at H (p @ [n]) = files_at H' (p @ [n])" using assms(4) by auto
  show ?thesis
    using snapshots.ls_law [OF assms(1,3)] snapshots.ls_law [OF assms(2,3)] listing_unique [where F = "files_at H" and p = p and F' = "files_at H'" and p' = p, OF _ _ at(2)]
    by (cases "files_at H p" rule: found_cases) (auto simp: at(1) [symmetric])
qed

section \<open>Properties\<close>

text \<open>C7: the reads by path of a rooted view see only what is at and under its root. Take two read transactions whose snapshots agree at and under the root, whatever else they hold and
  whatever their coherent caches hold. For every path, each of \<open>load\<close>, \<open>load_value\<close>, \<open>load_serde_value\<close>, \<open>fetch\<close>, \<open>get\<close>, \<open>kind\<close>, \<open>exists\<close>, \<open>ls\<close> and the two exporters, called on views at that root, gives the same
  answer in both, errors included. (\<open>get_as\<close> converts the answer of \<open>get\<close>.) Not claimed for \<open>query\<close> and \<open>find\<close>: they depend on the index registry as well, which belongs to the whole database.\<close>

theorem rooted_reads_confined:
  assumes "shows_heap E L hist s H" "shows_heap E' L' hist' s' H'" "subtree_at root (files_at H) = subtree_at root (files_at H')"
  shows "fst (rooted_load (read_grab E L) recompose root a s) = fst (rooted_load (read_grab E' L') recompose root a s') \<and>
    fst (rooted_load_value C (read_grab E L) root a s) = fst (rooted_load_value C (read_grab E' L') root a s') \<and>
    fst (rooted_load_serde_value (read_grab E L) from_blob root a s) = fst (rooted_load_serde_value (read_grab E' L') from_blob root a s') \<and>
    fst (rooted_fetch (read_grab E L) root a s) = fst (rooted_fetch (read_grab E' L') root a s') \<and>
    fst (rooted_get C (read_grab E L) root a at s) = fst (rooted_get C (read_grab E' L') root a at s') \<and>
    fst (rooted_kind (read_grab E L) root a s) = fst (rooted_kind (read_grab E' L') root a s') \<and>
    fst (rooted_exists (read_grab E L) root a s) = fst (rooted_exists (read_grab E' L') root a s') \<and>
    fst (rooted_ls (read_grab E L) root a s) = fst (rooted_ls (read_grab E' L') root a s') \<and>
    fst (rooted_export_to_json X C (read_grab E L) root a indent s) = fst (rooted_export_to_json X C (read_grab E' L') root a indent s') \<and>
    fst (rooted_export_to_yaml X C (read_grab E L) root a s) = fst (rooted_export_to_yaml X C (read_grab E' L') root a s')"
proof (cases "into_arbor_path a")
  case (Ok p)
  let ?p = "root @ p"
  have at: "files_at H q = files_at H' q" if "prefix ?p q" for q
    using that fun_cong [OF assms(3)] by (auto simp: subtree_at_def prefix_def)
  have path: "into_arbor_path (ABuilt ?p) = Ok ?p" by simp
  note A = snapshots.path_answers [OF assms(1) path] snapshots.get_answer [OF assms(1) path]
    snapshots.path_answers [OF assms(2) path] snapshots.get_answer [OF assms(2) path]
  have exported: "fst (txn_value C (read_grab E L) ?p s) = fst (txn_value C (read_grab E' L') ?p s')"
    using snapshots.export_answer [OF assms(1), of C ?p] snapshots.export_answer [OF assms(2), of C ?p] at by simp
  show ?thesis
    unfolding rooted_defs rooted_at_Ok [OF Ok]
    by (intro conjI) (use at ls_same [OF assms(1,2) path at] exported in \<open>simp_all add: A grab_exists_def txn_export_to_json_def txn_export_to_yaml_def fst_bind_ret\<close>)
qed (simp_all add: rooted_defs rooted_at_def rooted_absolute_def bindOp_def)

text \<open>Two snapshots that differ: an empty table and the sample table, which has nothing under \<open>users\<close>.\<close>

definition snapshot_of :: "(akey, bytes) btree \<Rightarrow>
    (_, _, _, (apath \<times> u64 \<times> akey) list, ((u64 \<times> akey) \<times> bytes) list) read_txn" where
  "snapshot_of t = read_txn_new \<lparr>st_data = [''t'' \<mapsto> t], st_index = None :: (bytes, bytes) btree option,
     st_meta = [] :: (string, bytes) btree\<rparr> ''t'' (path_cache_new list_caches) 0"

lemma snapshot_of_shows:
  assumes "tree H" "\<And>k. bt_get t k = map_option enc_node (H k)"
  shows "\<exists>hist. shows_heap list_env list_caches hist (snapshot_of t) H"
proof (intro exI [of _ "\<lambda>_. bt_get t"])
  have "snapshot list_env (snapshot_of t) = bt_get t" by (simp add: snapshot_def snapshot_of_def read_txn_new_def)
  moreover have "coherent list_caches hist (rt_cache (snapshot_of t))" for hist
    using coherent_new [OF list_caches_ok] by (simp add: snapshot_of_def read_txn_new_def)
  ultimately show "shows_heap list_env list_caches (\<lambda>_. bt_get t) (snapshot_of t) H"
    using assms list_caches_ok by (simp add: shows_heap_def reading_def btree_redb_ok)
qed

lemma sample_under_users: "subtree_at [''users''] (files_at Map.empty) = subtree_at [''users''] (files_at sample_heap)"
  by (auto simp: subtree_at_def fun_eq_iff files_at_def akey_ROOT_def sample_heap_def child_at_def)

theorem rooted_reads_confined_witness:
  "files_at Map.empty \<noteq> files_at sample_heap \<and>
   fst (rooted_exists (read_grab list_env list_caches) [''users''] (ABuilt [''u'']) (snapshot_of [])) =
     fst (rooted_exists (read_grab list_env list_caches) [''users''] (ABuilt [''u'']) (snapshot_of (ctx_data sample_ctx))) \<and>
   fst (rooted_ls (read_grab list_env list_caches) [''users''] (ABuilt [''u'']) (snapshot_of [])) =
     fst (rooted_ls (read_grab list_env list_caches) [''users''] (ABuilt [''u'']) (snapshot_of (ctx_data sample_ctx)))"
proof -
  have "bt_get (ctx_data sample_ctx) k = map_option enc_node (sample_heap k)" for k
    using sees_view [OF sample_sees, of k] by (simp add: view_def sample_ctx_def wb_new_def)
  then obtain hist' where s': "shows_heap list_env list_caches hist' (snapshot_of (ctx_data sample_ctx)) sample_heap"
    using snapshot_of_shows [OF sample_tree] by blast
  obtain hist where s: "shows_heap list_env list_caches hist (snapshot_of []) Map.empty"
    using snapshot_of_shows [OF empty_tree, of "[]"] by auto
  have "files_at Map.empty [] \<noteq> files_at sample_heap []" using sample_files(1) by simp
  then have "files_at Map.empty \<noteq> files_at sample_heap" by metis
  with rooted_reads_confined [OF s s' sample_under_users, where a = "ABuilt [''u'']" and recompose = "\<lambda>r. Ok ()"
    and from_blob = "\<lambda>b. Ok ()" and C = calendar and X = sample_texts and indent = None and at = "VBuilt []"] show ?thesis by (elim conjE) (intro conjI)
qed

section \<open>Writes stay under the root\<close>

text \<open>Outside the root nothing changes, but that missing directories above the root are made.\<close>

definition within_root :: "apath \<Rightarrow> file_system \<Rightarrow> file_system \<Rightarrow> bool" where
  "within_root root F F' \<longleftrightarrow>
     (\<forall>r. \<not> prefix root r \<longrightarrow> F' r = F r \<or> (strict_prefix r root \<and> F r = None \<and> F' r = Some Directory))"

lemma within_prune: "within_root root F (prune_at (root @ p) F)"
  by (auto simp: within_root_def prune_at_def dest: append_prefixD)

lemma within_made:
  assumes "\<And>r b. prefix r (root @ q) \<Longrightarrow> F r \<noteq> Some (Document b)" "\<And>r. \<not> prefix root r \<Longrightarrow> F' r = (if prefix r root then Some Directory else F r)"
  shows "within_root root F F'"
  unfolding within_root_def
proof (intro allI impI)
  fix r assume r: "\<not> prefix root r"
  show "F' r = F r \<or> (strict_prefix r root \<and> F r = None \<and> F' r = Some Directory)"
  proof (cases "prefix r root")
    case True
    then have "strict_prefix r root" using r by (auto simp: strict_prefix_def)
    moreover have "F r \<noteq> Some (Document b)" for b by (rule assms(1)) (use True in simp)
    ultimately show ?thesis using assms(2) [OF r] True by (cases "F r" rule: found_cases) auto
  qed (use assms(2) [OF r] in simp)
qed

lemma outside_target:
  assumes "\<not> prefix root r"
  shows "prefix r (root @ p) \<longleftrightarrow> prefix r root" "\<not> prefix (root @ p) r"
  using assms by (auto dest: append_prefixD intro: prefix_order.trans simp: prefix_append)

lemma graft_outside: "\<not> prefix root r \<Longrightarrow> graft (root @ p) t F r = (if prefix r root then Some Directory else F r)"
  using outside_target [of root r p] by (auto simp: graft_def strict_prefix_def)

lemma within_graft:
  assumes "\<And>r b. prefix r (root @ q) \<Longrightarrow> F r \<noteq> Some (Document b)"
  shows "within_root root F (graft (root @ q @ [n]) t F)" "within_root root F (graft (root @ q @ [n]) t (prune_at (root @ p) F))" "within_root root F (mkdirs (root @ q @ [n]) F)"
  by (rule within_made [OF assms]; auto simp: graft_outside mkdirs_def prune_at_def outside_target)+

lemma mkdir_makes:
  assumes "sees (env_data E) (tx_ctx s) H" "tree H" "roomy H p" "fresh_keys H (length p) (ctx_rng (tx_ctx s))"
    and "\<And>r b. prefix r p \<Longrightarrow> files_at H r \<noteq> Some (Document b)"
  shows "\<exists>s' H'. txn_mkdir E (ABuilt p) s = (Ok (), s') \<and> sees (env_data E) (tx_ctx s') H' \<and> tree H' \<and> files_at H' = mkdirs p (files_at H)"
proof -
  have "fresh_keys H (length p + 0) (ctx_rng (tx_ctx s))" using assms(4) by simp
  from ensure_dir_makes [OF assms(2,1,3) this assms(5)]
  obtain c' H' k m where e: "makes (env_data E) (tx_ctx s) (ensure_dir (env_data E) p) k H' c'" "reached H p H' k m" by blast
  then have "txn_mkdir E (ABuilt p) s = (Ok (), s\<lparr>tx_ctx := c'\<rparr>)" by (simp add: txn_mkdir_def makes_def seqOp_def bindOp_def)
  then show ?thesis using makes_sees [OF e(1)] reachedD(1,5) [OF e(2)] by (intro exI [of _ "s\<lparr>tx_ctx := c'\<rparr>"] exI [of _ H']) simp
qed

text \<open>C6: what a rooted view stores, removes, moves or makes stays under its root. In a transaction whose indexes are in step, let a path of the view name a place below the root that can be written: the names
  fit, fresh keys can be drawn, and no file is in the way. Storing a document there, which is what storing a typed value with that document does, removing what is there, moving an entry of the
  view there, and making it a directory all take place at the root followed by the path, and every path that is not at or under the root keeps what it held, but for the missing directories
  above the root, which a store, a move or a \<open>mkdir\<close> creates. The first three keep the indexes in step or are refused by a unique index. Not claimed for \<open>cp\<close>, the Serde store and cursors.\<close>

theorem rooted_writes_confined:
  assumes "txn_inv E s H es" "into_arbor_path a = Ok (q @ [n])" "roomy H (root @ q @ [n])" "fresh_keys H (Suc (length root + length q)) (ctx_rng (tx_ctx s))"
    and "depth_ok (files_at H) (env_fuel E)" "length root + length q < env_fuel E"
    and "\<forall>r b. prefix r (root @ q) \<longrightarrow> files_at H r \<noteq> Some (Document b)" "value_ok (env_chrono E) v" "blob_fits v"
  shows "(\<exists>F. reindexed E (rooted_store_value E root a v) () s F es \<and> F (root @ q @ [n]) = Some (Document (blob_encode v)) \<and> within_root root (files_at H) F) \<and>
    (\<forall>x. data_doc x = v \<longrightarrow> rooted_store E root a x s = rooted_store_value E root a v s) \<and>
    (\<exists>F. reindexed E (rooted_rm E root a) (files_at H (root @ q @ [n]) \<noteq> None) s F es \<and> F (root @ q @ [n]) = None \<and> within_root root (files_at H) F) \<and>
    (\<forall>b p m. into_arbor_path b = Ok (p @ [m]) \<longrightarrow> files_at H (root @ p @ [m]) \<noteq> None \<longrightarrow> \<not> prefix (p @ [m]) (q @ [n]) \<longrightarrow> \<not> prefix (q @ [n]) (p @ [m]) \<longrightarrow>
      (\<exists>F. reindexed E (rooted_mv E root b a) () s F es \<and> subtree_at (root @ q @ [n]) F = subtree_at (root @ p @ [m]) (files_at H) \<and>
        F (root @ p @ [m]) = None \<and> within_root root (files_at H) F)) \<and>
    ((\<forall>b. files_at H (root @ q @ [n]) \<noteq> Some (Document b)) \<longrightarrow>
      (\<exists>s' H'. rooted_mkdir E root a s = (Ok (), s') \<and> sees (env_data E) (tx_ctx s') H' \<and> tree H' \<and>
        files_at H' (root @ q @ [n]) = Some Directory \<and> within_root root (files_at H) (files_at H')))"
proof (intro conjI allI impI)
  note inv = txn_invD [OF assms(1)] and at = rooted_at_Ok [OF assms(2)] and way = assms(7) [rule_format]
  let ?p = "(root @ q) @ [n]" and ?F = "files_at H"
  show "\<exists>F. reindexed E (rooted_store_value E root a v) () s F es \<and> F (root @ q @ [n]) = Some (Document (blob_encode v)) \<and> within_root root ?F F"
  proof (intro exI conjI)
    have "changes E (tx_ctx s) (store_value_into (env_fuel E) (env_data E) ?p v) () H (graft ?p (single (Document (blob_encode v))) ?F) [?p]"
      by (rule store_changes [OF inv(2,3)]) (use assms(3-6,8,9) way in simp_all)
    from reindex_around_law [OF assms(1) this]
    show "reindexed E (rooted_store_value E root a v) () s (graft (root @ q @ [n]) (single (Document (blob_encode v))) ?F) es"
      by (simp add: rooted_store_value_def at store_value_def store_value_at_def apath_is_root_def reindexed_def)
  qed (simp_all add: graft_def single_def within_graft [OF way])
  show "rooted_store E root a x s = rooted_store_value E root a v s" if "data_doc x = v" for x
    using that by (simp add: rooted_store_def rooted_store_value_def at store_built store_value_def)
  show "\<exists>F. reindexed E (rooted_rm E root a) (?F (root @ q @ [n]) \<noteq> None) s F es \<and> F (root @ q @ [n]) = None \<and> within_root root ?F F"
  proof (intro exI conjI)
    from reindex_around_law [OF assms(1) rm_changes [OF inv(2,3) assms(5), of "tx_ctx s" "root @ q" n]]
    show "reindexed E (rooted_rm E root a) (?F (root @ q @ [n]) \<noteq> None) s (prune_at (root @ q @ [n]) ?F) es"
      by (simp add: rooted_rm_def at txn_rm_def apath_is_root_def reindexed_def)
  qed (simp_all add: prune_at_def [of "root @ q @ [n]" _ "root @ q @ [n]"] within_prune)
  show "\<exists>F. reindexed E (rooted_mv E root b a) () s F es \<and> subtree_at (root @ q @ [n]) F = subtree_at (root @ p @ [m]) ?F \<and>
        F (root @ p @ [m]) = None \<and> within_root root ?F F"
    if b: "into_arbor_path b = Ok (p @ [m])" "?F (root @ p @ [m]) \<noteq> None" "\<not> prefix (p @ [m]) (q @ [n])" "\<not> prefix (q @ [n]) (p @ [m])" for b p m
  proof (intro exI conjI)
    have start: "\<not> names_start_with (root @ q @ [n]) (root @ p @ [m])"
      using b(3) unfolding names_start_with_def by (metis append_Nil2 same_prefix_prefix take_is_prefix)
    have "changes E (tx_ctx s) (mv_into (env_fuel E) (env_data E) ((root @ p) @ [m]) ?p) () H
        (graft ?p (subtree_at ((root @ p) @ [m]) ?F) (prune_at ((root @ p) @ [m]) ?F)) [(root @ p) @ [m], ?p]"
      by (rule mv_changes [OF inv(2,3)]) (use assms(3-6) way b fresh_keys_mono in simp_all)
    from reindex_around_law [OF assms(1) this]
    show "reindexed E (rooted_mv E root b a) () s (graft (root @ q @ [n]) (subtree_at (root @ p @ [m]) ?F) (prune_at (root @ p @ [m]) ?F)) es"
      using start by (simp add: rooted_mv_def at rooted_at_Ok [OF b(1)] txn_mv_def apath_is_root_def reindexed_def)
    show "within_root root ?F (graft (root @ q @ [n]) (subtree_at (root @ p @ [m]) ?F) (prune_at (root @ p @ [m]) ?F))"
      by (rule within_graft(2) [OF way])
  qed (use b in \<open>auto simp: graft_def prune_at_def subtree_at_def strict_prefix_def\<close>)
  show "\<exists>s' H'. rooted_mkdir E root a s = (Ok (), s') \<and> sees (env_data E) (tx_ctx s') H' \<and> tree H' \<and>
        files_at H' (root @ q @ [n]) = Some Directory \<and> within_root root ?F (files_at H')"
    if "\<forall>b. ?F (root @ q @ [n]) \<noteq> Some (Document b)"
  proof -
    have "files_at H r \<noteq> Some (Document b)" if "prefix r (root @ q @ [n])" for r b
      using that way \<open>\<forall>b. ?F (root @ q @ [n]) \<noteq> Some (Document b)\<close> prefix_snoc [of r "root @ q" n] by auto
    from mkdir_makes [OF inv(1,2) assms(3) _ this]
    obtain s' H' where "txn_mkdir E (ABuilt (root @ q @ [n])) s = (Ok (), s')" "sees (env_data E) (tx_ctx s') H'" "tree H'" "files_at H' = mkdirs (root @ q @ [n]) ?F"
      using assms(4) by auto
    moreover have "within_root root ?F (mkdirs (root @ q @ [n]) ?F)" by (rule within_graft(3) [OF way])
    ultimately show ?thesis by (intro exI [of _ s'] exI [of _ H']) (simp add: rooted_mkdir_def at mkdirs_def)
  qed
qed

theorem rooted_writes_confined_witness:
  "(\<exists>F s'. rooted_store_value sample_env [''a''] (ABuilt [''c'']) sample_doc sample_txn = (Ok (), s') \<and>
      F [''a'', ''c''] = Some (Document (blob_encode sample_doc)) \<and> within_root [''a''] (files_at sample_heap) F) \<and>
   (\<exists>F s'. rooted_mv sample_env [''a''] (ABuilt [''b'']) (ABuilt [''c'']) sample_txn = (Ok (), s') \<and>
      F [''a'', ''b''] = None \<and> within_root [''a''] (files_at sample_heap) F) \<and>
   (\<exists>s'. rooted_mkdir sample_env [''a''] (ABuilt [''c'']) sample_txn = (Ok (), s'))"
proof -
  let ?H = sample_heap and ?a = "ABuilt [''c'']"
  have depth: "depth_ok (files_at ?H) (env_fuel sample_env)" using depth_bound [OF sample_tree] by simp
  have way: "\<forall>r b. prefix r ([''a''] @ []) \<longrightarrow> files_at ?H r \<noteq> Some (Document b)"
    using sample_files(1,2) by (auto simp: prefix_single)
  have absent: "files_at ?H [''a'', ''c''] = None" by (simp add: files_at_def akey_ROOT_def sample_heap_def child_at_def)
  have room: "roomy ?H ([''a''] @ [] @ [''c''])" by (rule sample_roomy) simp
  have keys: "fresh_keys ?H (Suc (length [''a''] + length [])) (ctx_rng (tx_ctx sample_txn))" using sample_fresh by (simp add: sample_txn_rng)
  have arg: "into_arbor_path ?a = Ok ([] @ [''c''])" by simp
  have fuel: "length [''a''] + length [] < env_fuel sample_env" and val: "value_ok (env_chrono sample_env) sample_doc" using sample_doc_ok by simp_all
  note C = rooted_writes_confined [OF sample_inv arg room keys depth fuel way val sample_doc_fits]
  obtain F where F: "reindexed sample_env (rooted_store_value sample_env [''a''] ?a sample_doc) () sample_txn F [sample_entry]"
    "F [''a'', ''c''] = Some (Document (blob_encode sample_doc))" "within_root [''a''] (files_at ?H) F"
    using C by (elim conjE exE) simp
  obtain F' where F': "reindexed sample_env (rooted_mv sample_env [''a''] (ABuilt [''b'']) ?a) () sample_txn F' [sample_entry]"
    "F' [''a'', ''b''] = None" "within_root [''a''] (files_at ?H) F'"
    using conjunct1 [OF conjunct2 [OF conjunct2 [OF conjunct2 [OF C]]], rule_format, of "ABuilt [''b'']" "[]" "''b''"] sample_files(3) by auto
  obtain s' where "rooted_mkdir sample_env [''a''] ?a sample_txn = (Ok (), s')"
    using conjunct2 [OF conjunct2 [OF conjunct2 [OF conjunct2 [OF C]]]] absent by auto
  then show ?thesis
    using F(2,3) F'(2,3) reindexed_nonunique [OF F(1)] reindexed_nonunique [OF F'(1)] sample_not_unique by auto
qed

end
