(* ===== verification/Acl.thy ===== *)
theory Acl
  imports Keys Codec
begin

text \<open>
  Access control (\<open>acl.rs\<close>, \<open>inode/acl.rs\<close>, \<open>perm/constants.rs\<close>, \<open>perm/principal.rs\<close>, \<open>perm/access.rs\<close>), which exists under the
  permissions feature: graded rights, the access-control list of an a-node with its byte format, the identity a handle
  acts as, and the decision whether an identity may exercise a right. Lemmas: an access-control list survives its
  encoding, and the decision compares the needed right with the one grade an identity is granted on an a-node.
\<close>

unbundle bit_operations_syntax

section \<open>Rights\<close>

datatype rights = Rights_None | Access | Modify | Delete

fun to_bits :: "rights \<Rightarrow> u8" where
  "to_bits Rights_None = 0"
| "to_bits Access = 1"
| "to_bits Modify = 3"
| "to_bits Delete = 7"

definition from_bits :: "u8 \<Rightarrow> rights" where
  "from_bits bits =
     (if bits AND 7 = 7 then Delete
      else if bits AND 3 = 3 then Modify
      else if bits AND 1 = 1 then Access
      else Rights_None)"

text \<open>The derived order follows the declaration.\<close>

fun grade_rank :: "rights \<Rightarrow> nat" where
  "grade_rank Rights_None = 0"
| "grade_rank Access = 1"
| "grade_rank Modify = 2"
| "grade_rank Delete = 3"

lemma grade_rank_inject [simp]: "grade_rank r = grade_rank s \<longleftrightarrow> r = s"
  by (cases r; cases s) auto

instantiation rights :: linorder
begin

definition less_eq_rights :: "rights \<Rightarrow> rights \<Rightarrow> bool" where
  "less_eq_rights r s \<longleftrightarrow> grade_rank r \<le> grade_rank s"

definition less_rights :: "rights \<Rightarrow> rights \<Rightarrow> bool" where
  "less_rights r s \<longleftrightarrow> grade_rank r < grade_rank s"

instance
  by standard (auto simp: less_eq_rights_def less_rights_def)

end

definition rights_includes :: "rights \<Rightarrow> rights \<Rightarrow> bool" where
  "rights_includes self needed \<longleftrightarrow> needed \<le> self"

text \<open>The \<open>Debug\<close> form of a grade.\<close>

fun rights_debug :: "rights \<Rightarrow> string" where
  "rights_debug Rights_None = ''None''"
| "rights_debug Access = ''Access''"
| "rights_debug Modify = ''Modify''"
| "rights_debug Delete = ''Delete''"

section \<open>Access-control lists\<close>

record acl =
  owner_uid :: u32
  owner_rights :: rights
  group_map :: "(u32, rights) btree"
  other_rights :: rights

definition acl_default_for :: "u32 \<Rightarrow> acl" where
  "acl_default_for uid = \<lparr>owner_uid = uid, owner_rights = Delete, group_map = [], other_rights = Access\<rparr>"

definition acl_set_owner_uid :: "u32 \<Rightarrow> acl \<Rightarrow> acl" where
  "acl_set_owner_uid uid a = a\<lparr>owner_uid := uid\<rparr>"

definition acl_set_owner_rights :: "rights \<Rightarrow> acl \<Rightarrow> acl" where
  "acl_set_owner_rights r a = a\<lparr>owner_rights := r\<rparr>"

definition acl_set_other_rights :: "rights \<Rightarrow> acl \<Rightarrow> acl" where
  "acl_set_other_rights r a = a\<lparr>other_rights := r\<rparr>"

definition acl_group_rights :: "acl \<Rightarrow> u32 \<Rightarrow> rights" where
  "acl_group_rights a gid = (case bt_get (group_map a) gid of Some r \<Rightarrow> r | None \<Rightarrow> Rights_None)"

definition acl_set_group_rights :: "u32 \<Rightarrow> rights \<Rightarrow> acl \<Rightarrow> acl" where
  "acl_set_group_rights gid r a =
     (if r = Rights_None then a\<lparr>group_map := bt_remove gid (group_map a)\<rparr>
      else a\<lparr>group_map := bt_insert gid r (group_map a)\<rparr>)"

definition acl_add_group :: "u32 \<Rightarrow> acl \<Rightarrow> acl" where
  "acl_add_group gid a =
     (case bt_get (group_map a) gid of Some _ \<Rightarrow> a | None \<Rightarrow> a\<lparr>group_map := bt_insert gid Access (group_map a)\<rparr>)"

definition acl_remove_group :: "u32 \<Rightarrow> acl \<Rightarrow> acl" where
  "acl_remove_group gid a = a\<lparr>group_map := bt_remove gid (group_map a)\<rparr>"

definition acl_has_group :: "acl \<Rightarrow> u32 \<Rightarrow> bool" where
  "acl_has_group a gid \<longleftrightarrow> bt_get (group_map a) gid \<noteq> None"

definition acl_group_ids :: "acl \<Rightarrow> u32 list" where
  "acl_group_ids a = map fst (group_map a)"

text \<open>\<open>Iterator::max\<close>.\<close>

fun iter_max :: "'a::linorder list \<Rightarrow> 'a option" where
  "iter_max [] = None"
| "iter_max (x # xs) = Some (foldl max x xs)"

definition effective_rights :: "acl \<Rightarrow> u32 \<Rightarrow> u32 list \<Rightarrow> rights" where
  "effective_rights a uid gids =
     (if uid = owner_uid a then owner_rights a
      else (case iter_max (List.map_filter (bt_get (group_map a)) gids) of Some r \<Rightarrow> r | None \<Rightarrow> other_rights a))"

definition acl_encode :: "acl \<Rightarrow> bytes" where
  "acl_encode a =
     be_bytes (owner_uid a) @ [to_bits (owner_rights a), to_bits (other_rights a)] @
     be_bytes (word_of_nat (length (group_map a)) :: u32) @
     concat (map (\<lambda>(gid, r). be_bytes gid @ [to_bits r]) (group_map a))"

definition acl_group_pair :: "reader \<Rightarrow> ((u32 \<times> rights) \<times> reader) res" where
  "acl_group_pair r =
     andThen (reader_u32 r) (\<lambda>(gid, r).
     andThen (reader_u8 r) (\<lambda>(b, r). Ok ((gid, from_bits b), r)))"

definition acl_decode :: "bytes \<Rightarrow> acl res" where
  "acl_decode data =
     andThen (reader_u32 (reader_new data)) (\<lambda>(uid, r).
     andThen (reader_u8 r) (\<lambda>(owner, r).
     andThen (reader_u8 r) (\<lambda>(other, r).
     andThen (reader_u32 r) (\<lambda>(count, r).
     andThen (reader_repeat (unat count) acl_group_pair r) (\<lambda>(pairs, r).
       Ok \<lparr>owner_uid = uid, owner_rights = from_bits owner,
           group_map = foldl (\<lambda>m (gid, g). bt_insert gid g m) [] pairs, other_rights = from_bits other\<rparr>)))))"

section \<open>Principals\<close>

abbreviation (input) MASTER_UID :: u32 where "MASTER_UID \<equiv> 0"
abbreviation (input) GUEST_UID :: u32 where "GUEST_UID \<equiv> 1"
abbreviation (input) MASTER_GID :: u32 where "MASTER_GID \<equiv> 0"
abbreviation (input) SUPER_GID :: u32 where "SUPER_GID \<equiv> 1"
abbreviation (input) MASTER_USER :: string where "MASTER_USER \<equiv> ''master''"
abbreviation (input) GUEST_USER :: string where "GUEST_USER \<equiv> ''guest''"
abbreviation (input) MASTER_GROUP :: string where "MASTER_GROUP \<equiv> ''master''"
abbreviation (input) SUPER_GROUP :: string where "SUPER_GROUP \<equiv> ''super''"

text \<open>The expanded signer of a session is a function of its seed, so it is not kept apart.\<close>

record session =
  ses_name :: string
  ses_uid :: u32
  ses_gids :: "u32 list"
  ses_key :: bytes
  ses_sign_seed :: bytes

datatype principal = Unrestricted | Guest (guest_pubkey: bytes) | User session

definition is_master :: "session \<Rightarrow> bool" where
  "is_master s \<longleftrightarrow> ses_uid s = MASTER_UID"

definition in_master_group :: "session \<Rightarrow> bool" where
  "in_master_group s \<longleftrightarrow> MASTER_GID \<in> set (ses_gids s)"

definition in_super_group :: "session \<Rightarrow> bool" where
  "in_super_group s \<longleftrightarrow> SUPER_GID \<in> set (ses_gids s)"

definition is_guest :: "principal \<Rightarrow> bool" where
  "is_guest p \<longleftrightarrow> (case p of Guest _ \<Rightarrow> True | _ \<Rightarrow> False)"

section \<open>The decision\<close>

definition access_denied :: "rights \<Rightarrow> adb_error" where
  "access_denied needed = PermissionDenied (rights_debug needed @ '' access is not permitted here'')"

definition authorize :: "principal \<Rightarrow> akey \<Rightarrow> acl option \<Rightarrow> rights \<Rightarrow> unit res" where
  "authorize p akey acl needed =
     (if is_guest p \<and> needed > Access then Err (access_denied needed)
      else if akey = akey_ROOT then Ok ()
      else if (case p of Unrestricted \<Rightarrow> True | User s \<Rightarrow> is_master s | Guest _ \<Rightarrow> False) then Ok ()
      else
        (case acl of
           None \<Rightarrow>
             if (case p of User s \<Rightarrow> in_master_group s | _ \<Rightarrow> False) then Ok () else Err (access_denied needed)
         | Some a \<Rightarrow>
             (case p of
                Unrestricted \<Rightarrow> Ok ()
              | Guest _ \<Rightarrow> if rights_includes (effective_rights a GUEST_UID []) needed then Ok () else Err (access_denied needed)
              | User s \<Rightarrow>
                  if rights_includes (effective_rights a (ses_uid s) (ses_gids s)) needed then Ok ()
                  else Err (access_denied needed))))"

definition authorize_chown :: "principal \<Rightarrow> acl \<Rightarrow> unit res" where
  "authorize_chown p a =
     (if (case p of
            Unrestricted \<Rightarrow> True
          | User s \<Rightarrow> is_master s \<or> in_master_group s \<or> ses_uid s = owner_uid a
          | Guest _ \<Rightarrow> False)
      then Ok ()
      else Err (PermissionDenied ''changing the owner requires ownership or administration''))"

section \<open>Lemmas on rights\<close>

lemma rights_bounds [simp]: "Rights_None \<le> r" "r \<le> Delete"
  by (cases r; simp add: less_eq_rights_def)+

lemma rights_le_simps [simp]:
  "Access \<le> Rights_None \<longleftrightarrow> False" "Modify \<le> Rights_None \<longleftrightarrow> False" "Delete \<le> Rights_None \<longleftrightarrow> False"
  "Modify \<le> Access \<longleftrightarrow> False" "Delete \<le> Access \<longleftrightarrow> False" "Delete \<le> Modify \<longleftrightarrow> False" "Access \<le> Modify"
  "r > Access \<longleftrightarrow> r = Modify \<or> r = Delete"
  by (simp_all add: less_eq_rights_def less_rights_def) (cases r; simp)

lemma from_bits_to_bits [simp]: "from_bits (to_bits r) = r"
  by (cases r) (simp_all add: from_bits_def)

text \<open>A pattern of bits no grade is written as is read as a weaker grade: every bit of the grade read is there.\<close>

lemma from_bits_degrades: "bits AND to_bits (from_bits bits) = to_bits (from_bits bits)"
  by (simp add: from_bits_def)

lemma iter_max_eq: "iter_max xs = (if xs = [] then None else Some (Max (set xs)))"
proof (cases xs)
  case (Cons y ys)
  have "foldl max y ys = Max (set (y # ys))"
    by (induction ys arbitrary: y rule: rev_induct) (auto simp: max.commute insert_commute Max_insert2)
  then show ?thesis using Cons by simp
qed simp

lemma map_filter_set: "set (List.map_filter f xs) = {y. \<exists>x \<in> set xs. f x = Some y}"
  by (induction xs) (auto simp: List.map_filter_simps split: option.splits)

section \<open>The byte format\<close>

text \<open>An access-control list the program can hold: its group map is a map and its encoding fits a section.\<close>

definition acl_ok :: "acl \<Rightarrow> bool" where
  "acl_ok a \<longleftrightarrow> bt_ok (group_map a) \<and> length (acl_encode a) < 2 ^ 32"

lemma length_acl_encode: "length (acl_encode a) = 10 + 5 * length (group_map a)"
proof -
  have "length (concat (map (\<lambda>(gid :: u32, r). be_bytes gid @ [to_bits r]) m)) = 5 * length m" for m
    by (induction m) auto
  then show ?thesis by (simp add: acl_encode_def)
qed

interpretation pair_codec: codec "\<lambda>(gid :: u32, r). be_bytes gid @ [to_bits r]" acl_group_pair "\<lambda>_. True"
proof (rule codecI, clarify)
  fix gid :: u32 and g r rest
  assume l: "left r ((be_bytes gid @ [to_bits g]) @ rest)"
  then obtain r1 where r1: "reads_off reader_u32 r gid ([to_bits g] @ rest) r1"
    using u32_codec.step [where x = gid and r = r] by (auto simp: put_u32_def)
  then obtain r2 where "reads_off reader_u8 r1 (to_bits g) rest r2"
    using u8_codec.step [where x = "to_bits g" and r = r1] by (auto simp: reads_off_def)
  then show "\<exists>r'. reads_off acl_group_pair r (gid, g) rest r'"
    using r1 by (auto simp: reads_off_def acl_group_pair_def)
qed

lemma acl_decode_encode:
  assumes "acl_ok a"
  shows "acl_decode (acl_encode a) = Ok a"
proof -
  let ?gs = "concat (map (\<lambda>(gid, r). be_bytes gid @ [to_bits r]) (group_map a))"
  let ?n = "word_of_nat (length (group_map a)) :: u32"
  have "left (reader_new (acl_encode a)) (put_u32 [] (owner_uid a) @ [to_bits (owner_rights a)] @ [to_bits (other_rights a)] @ put_u32 [] ?n @ ?gs)"
    using assms left_new [of "acl_encode a"] by (simp add: acl_ok_def acl_encode_def put_u32_def usize_bound_def)
  then obtain r1 where r1: "reads_off reader_u32 (reader_new (acl_encode a)) (owner_uid a)
      ([to_bits (owner_rights a)] @ [to_bits (other_rights a)] @ put_u32 [] ?n @ ?gs) r1"
    using u32_codec.step by blast
  then obtain r2 where r2: "reads_off reader_u8 r1 (to_bits (owner_rights a)) ([to_bits (other_rights a)] @ put_u32 [] ?n @ ?gs) r2"
    using u8_codec.step [OF TrueI, of r1 "to_bits (owner_rights a)"] unfolding reads_off_def by blast
  then obtain r3 where r3: "reads_off reader_u8 r2 (to_bits (other_rights a)) (put_u32 [] ?n @ ?gs) r3"
    using u8_codec.step [OF TrueI, of r2 "to_bits (other_rights a)"] unfolding reads_off_def by blast
  then obtain r4 where r4: "reads_off reader_u32 r3 ?n ?gs r4"
    using u32_codec.step [OF TrueI, of r3 ?n ?gs] unfolding reads_off_def by blast
  then obtain r5 where r5: "reads_off (reader_repeat (length (group_map a)) acl_group_pair) r4 (group_map a) [] r5"
    using pair_codec.steps [of "group_map a" r4 "[]"] by (auto simp: reads_off_def)
  have "unat ?n = length (group_map a)" using assms by (simp add: acl_ok_def length_acl_encode unat_of_nat take_bit_nat_eq_self)
  moreover have "foldl (\<lambda>m (gid, g). bt_insert gid g m) [] (group_map a) = group_map a"
    using foldl_bt_insert [of "[]" "group_map a"] assms by (simp add: acl_ok_def case_prod_beta')
  ultimately show ?thesis using r1 r2 r3 r4 r5 by (simp add: reads_off_def acl_decode_def)
qed

section \<open>What a principal is granted\<close>

text \<open>The one grade a principal has on an a-node.\<close>

definition granted :: "principal \<Rightarrow> akey \<Rightarrow> acl option \<Rightarrow> rights" where
  "granted p akey acl =
     (case p of
        Unrestricted \<Rightarrow> Delete
      | Guest _ \<Rightarrow>
          if akey = akey_ROOT then Access
          else (case acl of None \<Rightarrow> Rights_None | Some a \<Rightarrow> min Access (effective_rights a GUEST_UID []))
      | User s \<Rightarrow>
          if akey = akey_ROOT \<or> is_master s then Delete
          else (case acl of
                  None \<Rightarrow> if in_master_group s then Delete else Rights_None
                | Some a \<Rightarrow> effective_rights a (ses_uid s) (ses_gids s)))"

lemma authorize_granted:
  assumes "needed \<noteq> Rights_None"
  shows "authorize p akey acl needed = (if needed \<le> granted p akey acl then Ok () else Err (access_denied needed))"
  using assms
  by (cases p; cases acl; cases needed) (auto simp: authorize_def granted_def is_guest_def rights_includes_def)

section \<open>Properties\<close>

text \<open>The policy, by the clauses of the access rules: an unrestricted handle and the master user may do everything; everyone may access the
  root, and all but the guest may do more with it; the guest may only access; without an access-control list only a member of the master
  group may pass; otherwise the owner has the owner's grade, a member of one of the groups of the a-node the
  strongest grade of the groups they share, and everyone else the grade for others.\<close>

definition acl_permits :: "acl \<Rightarrow> u32 \<Rightarrow> u32 list \<Rightarrow> rights \<Rightarrow> bool" where
  "acl_permits a uid gids needed \<longleftrightarrow>
     (if uid = owner_uid a then needed \<le> owner_rights a
      else if \<exists>gid \<in> set gids. acl_has_group a gid
      then \<exists>gid \<in> set gids. \<exists>r. bt_get (group_map a) gid = Some r \<and> needed \<le> r
      else needed \<le> other_rights a)"

definition permitted :: "principal \<Rightarrow> akey \<Rightarrow> acl option \<Rightarrow> rights \<Rightarrow> bool" where
  "permitted p akey acl needed \<longleftrightarrow>
     (case p of
        Unrestricted \<Rightarrow> True
      | Guest _ \<Rightarrow> needed = Access \<and> (akey = akey_ROOT \<or> (\<exists>a. acl = Some a \<and> acl_permits a GUEST_UID [] needed))
      | User s \<Rightarrow> akey = akey_ROOT \<or> is_master s \<or> (acl = None \<and> in_master_group s) \<or>
          (\<exists>a. acl = Some a \<and> acl_permits a (ses_uid s) (ses_gids s) needed))"

lemma effective_rights_permits: "needed \<le> effective_rights a uid gids \<longleftrightarrow> acl_permits a uid gids needed"
proof -
  let ?rs = "List.map_filter (bt_get (group_map a)) gids"
  have "?rs = [] \<longleftrightarrow> \<not> (\<exists>gid \<in> set gids. acl_has_group a gid)"
    using map_filter_set [of "bt_get (group_map a)" gids] by (auto simp: acl_has_group_def simp flip: set_empty)
  moreover have "needed \<le> Max (set ?rs) \<longleftrightarrow> (\<exists>gid \<in> set gids. \<exists>r. bt_get (group_map a) gid = Some r \<and> needed \<le> r)" if "?rs \<noteq> []"
  proof -
    have "needed \<le> Max (set ?rs) \<longleftrightarrow> (\<exists>r \<in> set ?rs. needed \<le> r)" using that by (intro Max_ge_iff) auto
    then show ?thesis by (auto simp: map_filter_set)
  qed
  ultimately show ?thesis by (auto simp: effective_rights_def acl_permits_def iter_max_eq)
qed

lemma authorize_permitted:
  assumes "needed \<noteq> Rights_None"
  shows "authorize p akey acl needed = (if permitted p akey acl needed then Ok () else Err (access_denied needed))"
proof -
  have "needed \<le> granted p akey acl \<longleftrightarrow> permitted p akey acl needed"
    using assms by (cases p; cases acl; cases needed) (auto simp: granted_def permitted_def effective_rights_permits)
  then show ?thesis using authorize_granted [OF assms] by simp
qed

text \<open>C16: the access decision is the policy. For every principal, a-node, access-control list and right asked for, \<open>authorize\<close> lets pass
  exactly what the documented rules permit and answers everything else with \<open>PermissionDenied\<close>.\<close>

theorem authorize_policy:
  assumes "needed \<noteq> Rights_None"
  shows "authorize p akey acl needed = (if permitted p akey acl needed then Ok () else Err (access_denied needed))"
  using assms by (rule authorize_permitted)

definition shared_acl :: acl where
  "shared_acl = \<lparr>owner_uid = 2, owner_rights = Delete, group_map = [(7, Access), (8, Modify)], other_rights = Rights_None\<rparr>"

definition member_session :: session where
  "member_session = \<lparr>ses_name = ''m'', ses_uid = 3, ses_gids = [7, 8], ses_key = [], ses_sign_seed = []\<rparr>"

theorem authorize_policy_witness:
  "authorize (User member_session) 5 (Some shared_acl) Modify = Ok () \<and>
   authorize (User member_session) 5 (Some shared_acl) Delete = Err (access_denied Delete) \<and>
   authorize (Guest []) 5 (Some shared_acl) Access = Err (access_denied Access)"
  using authorize_policy [of Modify "User member_session" 5 "Some shared_acl"]
    authorize_policy [of Delete "User member_session" 5 "Some shared_acl"] authorize_policy [of Access "Guest []" 5 "Some shared_acl"]
  by (simp add: permitted_def acl_permits_def shared_acl_def member_session_def acl_has_group_def bt_get_Cons is_master_def akey_ROOT_def)

text \<open>An access-control list survives its encoding.\<close>

theorem acl_roundtrip:
  assumes "acl_ok a"
  shows "acl_decode (acl_encode a) = Ok a"
  using assms by (rule acl_decode_encode)

theorem acl_roundtrip_witness: "acl_decode (acl_encode shared_acl) = Ok shared_acl"
  by (rule acl_roundtrip) (simp add: acl_ok_def length_acl_encode shared_acl_def bt_ok_def)

end
