(* ===== verification/Inodes.thy ===== *)
theory Inodes
  imports Acl Engine Ops
begin

text \<open>
  Per-a-node metadata (\<open>inode/\<close>): the section-tagged inode blob with the timestamps, the access-control list and the two
  integrity tags, and the operations on the \<open>$inodes\<close> table. The build is an argument: a build with timestamps only keeps the
  sections of the permission system as unrecognised ones. Lemmas: an inode survives its encoding, in either build, and
  a rewrite by one build keeps what the other stores.
\<close>

section \<open>Inodes\<close>

record timestamps =
  ts_created :: i64
  ts_modified :: i64
  ts_accessed :: i64

definition timestamps_decode :: "bytes \<Rightarrow> timestamps res" where
  "timestamps_decode data =
     andThen (reader_u64 (reader_new data)) (\<lambda>(created, r).
     andThen (reader_u64 r) (\<lambda>(modified, r).
     andThen (reader_u64 r) (\<lambda>(accessed, r).
       Ok \<lparr>ts_created = created, ts_modified = modified, ts_accessed = accessed\<rparr>)))"

definition timestamps_encode :: "timestamps \<Rightarrow> bytes" where
  "timestamps_encode t = be_bytes (ts_created t) @ be_bytes (ts_modified t) @ be_bytes (ts_accessed t)"

abbreviation (input) SECTION_TIMESTAMPS :: u8 where "SECTION_TIMESTAMPS \<equiv> 0"
abbreviation (input) SECTION_ACL :: u8 where "SECTION_ACL \<equiv> 1"
abbreviation (input) SECTION_MAC :: u8 where "SECTION_MAC \<equiv> 2"
abbreviation (input) SECTION_SIG :: u8 where "SECTION_SIG \<equiv> 3"

text \<open>The tags of a value: a MAC of 32 bytes and a signature of 64.\<close>

record inode =
  ino_times :: "timestamps option"
  ino_acl :: "acl option"
  ino_mac :: "bytes option"
  ino_sig :: "bytes option"
  ino_extra :: "(u8 \<times> bytes) list"

definition inode_default :: inode where
  "inode_default = \<lparr>ino_times = None, ino_acl = None, ino_mac = None, ino_sig = None, ino_extra = []\<rparr>"

definition section_into :: "build \<Rightarrow> inode \<Rightarrow> u8 \<times> bytes \<Rightarrow> inode res" where
  "section_into B i s =
     (case s of (tag, data) \<Rightarrow>
        if tag = SECTION_TIMESTAMPS then andThen (timestamps_decode data) (\<lambda>t. Ok (i\<lparr>ino_times := Some t\<rparr>))
        else if permissions B \<and> tag = SECTION_ACL then andThen (acl_decode data) (\<lambda>a. Ok (i\<lparr>ino_acl := Some a\<rparr>))
        else if permissions B \<and> tag = SECTION_MAC then
          (if length data = 32 then Ok (i\<lparr>ino_mac := Some data\<rparr>) else Err (Corrupt ''inode MAC section has a bad length''))
        else if permissions B \<and> tag = SECTION_SIG then
          (if length data = 64 then Ok (i\<lparr>ino_sig := Some data\<rparr>) else Err (Corrupt ''inode signature section has a bad length''))
        else Ok (i\<lparr>ino_extra := ino_extra i @ [(tag, data)]\<rparr>))"

primrec inode_sections :: "build \<Rightarrow> nat \<Rightarrow> inode \<Rightarrow> reader \<Rightarrow> inode res" where
  "inode_sections B 0 i r = Ok i"
| "inode_sections B (Suc n) i r =
     andThen (reader_u8 r) (\<lambda>(tag, r).
     andThen (reader_bytes r) (\<lambda>(data, r).
     andThen (section_into B i (tag, data)) (\<lambda>i. inode_sections B n i r)))"

definition inode_decode :: "build \<Rightarrow> bytes \<Rightarrow> inode res" where
  "inode_decode B data =
     andThen (reader_u8 (reader_new data)) (\<lambda>(count, r). inode_sections B (unat count) inode_default r)"

definition known_sections :: "inode \<Rightarrow> (u8 \<times> bytes) list" where
  "known_sections i =
     (case ino_times i of Some t \<Rightarrow> [(SECTION_TIMESTAMPS, timestamps_encode t)] | None \<Rightarrow> []) @
     (case ino_acl i of Some a \<Rightarrow> [(SECTION_ACL, acl_encode a)] | None \<Rightarrow> []) @
     (case ino_mac i of Some m \<Rightarrow> [(SECTION_MAC, m)] | None \<Rightarrow> []) @
     (case ino_sig i of Some s \<Rightarrow> [(SECTION_SIG, s)] | None \<Rightarrow> [])"

text \<open>A build without the permission system has no access-control list and no tags; there these fields are \<open>None\<close>.\<close>

definition inode_encode :: "inode \<Rightarrow> bytes" where
  "inode_encode i =
     (let sections = known_sections i @ ino_extra i
      in foldl (\<lambda>out (tag, data). put_bytes (out @ [tag]) data) [word_of_nat (length sections)] sections)"

section \<open>The table\<close>

definition inode_key :: "string \<Rightarrow> akey \<Rightarrow> bytes" where
  "inode_key table akey = put_bytes [] (as_bytes table) @ akey_into_bytes akey"

text \<open>The inode of a key, the default one when there is none; and writing it back.\<close>

definition inode_or_default :: "build \<Rightarrow> ('n, bytes, bytes) redb \<Rightarrow> bytes \<Rightarrow> 'n \<Rightarrow> inode res" where
  "inode_or_default B N key inodes =
     andThen (table_get N inodes key) (\<lambda>g. case g of Some data \<Rightarrow> inode_decode B data | None \<Rightarrow> Ok inode_default)"

definition inode_put :: "('n, bytes, bytes) redb \<Rightarrow> bytes \<Rightarrow> inode \<Rightarrow> ('n, unit) op" where
  "inode_put N key i inodes =
     (case table_insert N inodes key (inode_encode i) of
        Ok inodes' \<Rightarrow> (Ok (), inodes')
      | Err e \<Rightarrow> (Err e, inodes)
      | Panic m \<Rightarrow> (Panic m, inodes)
      | Diverge \<Rightarrow> (Diverge, inodes))"

definition stamped :: "i64 \<Rightarrow> inode \<Rightarrow> inode" where
  "stamped now i =
     (let (created, accessed) =
        (case ino_times i of Some t \<Rightarrow> (ts_created t, ts_accessed t) | None \<Rightarrow> (now, now))
      in i\<lparr>ino_times := Some \<lparr>ts_created = created, ts_modified = now, ts_accessed = accessed\<rparr>\<rparr>)"

definition inode_touch :: "build \<Rightarrow> ('n, bytes, bytes) redb \<Rightarrow> string \<Rightarrow> akey \<Rightarrow> i64 \<Rightarrow> ('n, unit) op" where
  "inode_touch B N table akey now =
     (let key = inode_key table akey
      in bindOp (readOp (inode_or_default B N key)) (\<lambda>i. inode_put N key (stamped now i)))"

definition stamp_and_seal ::
  "build \<Rightarrow> ('n, bytes, bytes) redb \<Rightarrow> string \<Rightarrow> akey \<Rightarrow> i64 \<Rightarrow> u32 option \<Rightarrow> (bytes \<Rightarrow> bytes \<times> bytes) \<Rightarrow> ('n, unit) op" where
  "stamp_and_seal B N table akey now owner seal =
     (let key = inode_key table akey
      in bindOp (readOp (inode_or_default B N key)) (\<lambda>i.
           let i = stamped now i;
               i = (case owner of
                      Some uid \<Rightarrow> if ino_acl i = None then i\<lparr>ino_acl := Some (acl_default_for uid)\<rparr> else i
                    | None \<Rightarrow> i);
               acl = (case ino_acl i of Some a \<Rightarrow> acl_encode a | None \<Rightarrow> []);
               (mac, sig) = seal acl
           in inode_put N key (i\<lparr>ino_mac := Some mac, ino_sig := Some sig\<rparr>)))"

definition inode_forget :: "('n, bytes, bytes) redb \<Rightarrow> string \<Rightarrow> akey \<Rightarrow> ('n, unit) op" where
  "inode_forget N table akey inodes =
     (case table_remove N inodes (inode_key table akey) of
        Ok inodes' \<Rightarrow> (Ok (), inodes')
      | Err e \<Rightarrow> (Err e, inodes)
      | Panic m \<Rightarrow> (Panic m, inodes)
      | Diverge \<Rightarrow> (Diverge, inodes))"

definition bump_access :: "build \<Rightarrow> ('n, bytes, bytes) redb \<Rightarrow> string \<Rightarrow> akey \<Rightarrow> i64 \<Rightarrow> ('n, unit) op" where
  "bump_access B N table akey when_at =
     (let key = inode_key table akey
      in bindOp (readOp (\<lambda>inodes. table_get N inodes key)) (\<lambda>g.
           case g of
             None \<Rightarrow> retOp ()
           | Some data \<Rightarrow>
               bindOp (liftOp (inode_decode B data)) (\<lambda>i.
                 case ino_times i of
                   Some t \<Rightarrow>
                     if sint (ts_accessed t) < sint when_at then inode_put N key (i\<lparr>ino_times := Some (t\<lparr>ts_accessed := when_at\<rparr>)\<rparr>)
                     else retOp ()
                 | None \<Rightarrow>
                     inode_put N key (i\<lparr>ino_times := Some \<lparr>ts_created = when_at, ts_modified = when_at, ts_accessed = when_at\<rparr>\<rparr>))))"

text \<open>\<open>DateTime::from_timestamp_millis\<close> of the \<open>chrono\<close> crate is an argument.\<close>

definition into_node_times :: "(i64 \<Rightarrow> 'd option) \<Rightarrow> timestamps \<Rightarrow> ('d \<times> 'd \<times> 'd) res" where
  "into_node_times from_millis t =
     (let to_dt = (\<lambda>m. ok_or (from_millis m) (Corrupt ''out-of-range inode timestamp''))
      in andThen (to_dt (ts_created t)) (\<lambda>c.
         andThen (to_dt (ts_modified t)) (\<lambda>m.
         andThen (to_dt (ts_accessed t)) (\<lambda>a. Ok (c, m, a)))))"

definition read_timestamps ::
  "build \<Rightarrow> ('n, bytes, bytes) redb \<Rightarrow> (i64 \<Rightarrow> 'd option) \<Rightarrow> 'n \<Rightarrow> string \<Rightarrow> akey \<Rightarrow> ('d \<times> 'd \<times> 'd) option res" where
  "read_timestamps B N from_millis inodes table akey =
     andThen (table_get N inodes (inode_key table akey)) (\<lambda>g.
       case g of
         None \<Rightarrow> Ok None
       | Some data \<Rightarrow>
           andThen (inode_decode B data) (\<lambda>i.
             case ino_times i of
               Some t \<Rightarrow> andThen (into_node_times from_millis t) (\<lambda>d. Ok (Some d))
             | None \<Rightarrow> Ok None))"

type_synonym meta_tags = "acl option \<times> bytes option \<times> bytes option"

definition decode_meta :: "build \<Rightarrow> bytes \<Rightarrow> meta_tags res" where
  "decode_meta B data = andThen (inode_decode B data) (\<lambda>i. Ok (ino_acl i, ino_mac i, ino_sig i))"

definition read_acl :: "build \<Rightarrow> ('n, bytes, bytes) redb \<Rightarrow> 'n \<Rightarrow> string \<Rightarrow> akey \<Rightarrow> acl option res" where
  "read_acl B N inodes table akey =
     andThen (table_get N inodes (inode_key table akey)) (\<lambda>g.
       case g of None \<Rightarrow> Ok None | Some data \<Rightarrow> andThen (inode_decode B data) (\<lambda>i. Ok (ino_acl i)))"

definition read_meta :: "build \<Rightarrow> ('n, bytes, bytes) redb \<Rightarrow> 'n \<Rightarrow> string \<Rightarrow> akey \<Rightarrow> meta_tags res" where
  "read_meta B N inodes table akey =
     andThen (table_get N inodes (inode_key table akey)) (\<lambda>g.
       case g of None \<Rightarrow> Ok (None, None, None) | Some data \<Rightarrow> andThen (inode_decode B data) (\<lambda>i. Ok (ino_acl i, ino_mac i, ino_sig i)))"

definition read_inode_bytes :: "('n, bytes, bytes) redb \<Rightarrow> 'n \<Rightarrow> string \<Rightarrow> akey \<Rightarrow> bytes option res" where
  "read_inode_bytes N inodes table akey = table_get N inodes (inode_key table akey)"

definition set_default_acl :: "build \<Rightarrow> ('n, bytes, bytes) redb \<Rightarrow> string \<Rightarrow> akey \<Rightarrow> u32 \<Rightarrow> ('n, unit) op" where
  "set_default_acl B N table akey owner =
     (let key = inode_key table akey
      in bindOp (readOp (inode_or_default B N key)) (\<lambda>i.
           if ino_acl i \<noteq> None then retOp ()
           else inode_put N key (i\<lparr>ino_acl := Some (acl_default_for owner)\<rparr>)))"

definition inode_set_acl :: "build \<Rightarrow> ('n, bytes, bytes) redb \<Rightarrow> string \<Rightarrow> akey \<Rightarrow> acl \<Rightarrow> ('n, unit) op" where
  "inode_set_acl B N table akey a =
     (let key = inode_key table akey
      in bindOp (readOp (inode_or_default B N key)) (\<lambda>i. inode_put N key (i\<lparr>ino_acl := Some a\<rparr>)))"

definition seal_mac :: "build \<Rightarrow> ('n, bytes, bytes) redb \<Rightarrow> string \<Rightarrow> akey \<Rightarrow> bytes \<Rightarrow> ('n, unit) op" where
  "seal_mac B N table akey mac =
     (let key = inode_key table akey
      in bindOp (readOp (inode_or_default B N key)) (\<lambda>i. inode_put N key (i\<lparr>ino_mac := Some mac\<rparr>)))"

definition seal_sig :: "build \<Rightarrow> ('n, bytes, bytes) redb \<Rightarrow> string \<Rightarrow> akey \<Rightarrow> bytes \<Rightarrow> ('n, unit) op" where
  "seal_sig B N table akey sig =
     (let key = inode_key table akey
      in bindOp (readOp (inode_or_default B N key)) (\<lambda>i. inode_put N key (i\<lparr>ino_sig := Some sig\<rparr>)))"

definition strip_update :: "build \<Rightarrow> u32 \<Rightarrow> bytes \<times> bytes \<Rightarrow> (bytes \<times> inode) option res" where
  "strip_update B gid row =
     andThen (inode_decode B (snd row)) (\<lambda>i.
       Ok (case ino_acl i of
             Some a \<Rightarrow> if acl_has_group a gid then Some (fst row, i\<lparr>ino_acl := Some (acl_remove_group gid a)\<rparr>) else None
           | None \<Rightarrow> None))"

definition strip_group :: "build \<Rightarrow> ('n, bytes, bytes) redb \<Rightarrow> u32 \<Rightarrow> ('n, unit) op" where
  "strip_group B N gid =
     bindOp (readOp (\<lambda>inodes. table_range N inodes [])) (\<lambda>rows.
     bindOp (liftOp (res_map (strip_update B gid) rows)) (\<lambda>updates.
       forOp (List.map_filter (\<lambda>u. u) updates) (\<lambda>(key, i). inode_put N key i)))"

section \<open>The round trip\<close>

definition section_bytes :: "u8 \<times> bytes \<Rightarrow> bytes" where
  "section_bytes s = fst s # put_bytes [] (snd s)"

primrec fold_sections :: "build \<Rightarrow> inode \<Rightarrow> (u8 \<times> bytes) list \<Rightarrow> inode res" where
  "fold_sections B i [] = Ok i"
| "fold_sections B i (s # ss) = andThen (section_into B i s) (\<lambda>i. fold_sections B i ss)"

definition all_sections :: "inode \<Rightarrow> (u8 \<times> bytes) list" where
  "all_sections i = known_sections i @ ino_extra i"

text \<open>An inode a build can hold: the sections fit their count and lengths, the tags have their size, and the sections kept
  verbatim are ones the build does not recognise.\<close>

definition recognised :: "build \<Rightarrow> u8 \<Rightarrow> bool" where
  "recognised B tag \<longleftrightarrow> tag = SECTION_TIMESTAMPS \<or> permissions B \<and> tag \<in> {SECTION_ACL, SECTION_MAC, SECTION_SIG}"

definition inode_ok :: "build \<Rightarrow> inode \<Rightarrow> bool" where
  "inode_ok B i \<longleftrightarrow>
     length (ino_extra i) < 252 \<and> (\<forall>s \<in> set (ino_extra i). length (snd s) < 2 ^ 32 \<and> \<not> recognised B (fst s)) \<and>
     (\<forall>a. ino_acl i = Some a \<longrightarrow> acl_ok a) \<and> (\<forall>m. ino_mac i = Some m \<longrightarrow> length m = 32) \<and>
     (\<forall>s. ino_sig i = Some s \<longrightarrow> length s = 64) \<and>
     (\<not> permissions B \<longrightarrow> ino_acl i = None \<and> ino_mac i = None \<and> ino_sig i = None)"

lemma inode_default_ok [simp]: "inode_ok B inode_default"
  by (simp add: inode_ok_def inode_default_def)

lemma length_known_sections: "length (known_sections i) \<le> 4"
  by (simp add: known_sections_def split: option.splits)

lemma all_sections_small:
  assumes "inode_ok B i"
  shows "length (all_sections i) < 256" "\<forall>s \<in> set (all_sections i). length (snd s) < 2 ^ 32"
proof -
  show "length (all_sections i) < 256" using assms length_known_sections [of i] by (simp add: all_sections_def inode_ok_def)
  have "length (snd s) < 2 ^ 32" if "s \<in> set (known_sections i)" for s
    using assms that by (auto simp: known_sections_def inode_ok_def acl_ok_def timestamps_encode_def split: option.splits)
  then show "\<forall>s \<in> set (all_sections i). length (snd s) < 2 ^ 32" using assms by (auto simp: all_sections_def inode_ok_def)
qed

lemma fold_sections_append: "fold_sections B i (ss @ ts) = andThen (fold_sections B i ss) (\<lambda>i. fold_sections B i ts)"
  by (induction ss arbitrary: i) (simp_all add: andThen_assoc)

lemma inode_encode_eq: "inode_encode i = word_of_nat (length (all_sections i)) # concat (map section_bytes (all_sections i))"
proof -
  have "foldl (\<lambda>out (tag, data). put_bytes (out @ [tag]) data) out ss = out @ concat (map section_bytes ss)" for out ss
  proof (induction ss arbitrary: out)
    case (Cons s ss)
    then show ?case using put_bytes_append [of "out @ [fst s]" "snd s"] by (simp add: section_bytes_def split_beta)
  qed simp
  then show ?thesis by (simp add: inode_encode_def all_sections_def Let_def)
qed

lemma inode_encode_fits:
  assumes "inode_ok B i"
  shows "length (inode_encode i) < usize_bound"
proof -
  note small = all_sections_small [OF assms]
  have "length (concat (map section_bytes ss)) \<le> length ss * (2 ^ 32 + 5)" if "\<forall>s \<in> set ss. length (snd s) < 2 ^ 32" for ss
    using that by (induction ss) (auto simp: section_bytes_def)
  from this [OF small(2)] have "length (inode_encode i) \<le> 1 + length (all_sections i) * (2 ^ 32 + 5)" by (simp add: inode_encode_eq)
  also have "\<dots> \<le> 1 + 255 * (2 ^ 32 + 5)" using small(1) by simp
  finally show ?thesis by (simp add: usize_bound_def)
qed

lemma inode_sections_left:
  assumes "\<forall>s \<in> set ss. length (snd s) < 2 ^ 32" "left r (concat (map section_bytes ss) @ rest)"
  shows "inode_sections B (length ss) i r = fold_sections B i ss"
  using assms
proof (induction ss arbitrary: i r)
  case (Cons s ss)
  let ?rest = "concat (map section_bytes ss) @ rest"
  obtain tag data where s: "s = (tag, data)" by (cases s)
  have "left r ([tag] @ put_bytes [] data @ ?rest)" using Cons.prems(2) s by (simp add: section_bytes_def [of "(tag, data)"])
  then obtain r1 where r1: "reads_off reader_u8 r tag (put_bytes [] data @ ?rest) r1" using u8_codec.step by blast
  then obtain r2 where r2: "reads_off reader_bytes r1 data ?rest r2"
    using bytes_codec.step [of data r1 ?rest] Cons.prems(1) s by (auto simp: reads_off_def)
  have "inode_sections B (length ss) i' r2 = fold_sections B i' ss" for i'
    using Cons.IH [of r2 i'] Cons.prems(1) r2 by (simp add: reads_off_def)
  then show ?case using r1 r2 s by (simp add: reads_off_def)
qed simp

lemma timestamps_decode_encode: "timestamps_decode (timestamps_encode t) = Ok t"
proof -
  have "left (reader_new (timestamps_encode t)) (be_bytes (ts_created t) @ be_bytes (ts_modified t) @ be_bytes (ts_accessed t) @ [])"
    using left_new [of "timestamps_encode t"] by (simp add: timestamps_encode_def usize_bound_def)
  then obtain r1 where r1: "reads_off reader_u64 (reader_new (timestamps_encode t)) (ts_created t) (be_bytes (ts_modified t) @ be_bytes (ts_accessed t) @ []) r1"
    using u64_codec.step by blast
  then obtain r2 where r2: "reads_off reader_u64 r1 (ts_modified t) (be_bytes (ts_accessed t) @ []) r2"
    using u64_codec.step [OF TrueI, of r1 "ts_modified t"] unfolding reads_off_def by blast
  then obtain r3 where "reads_off reader_u64 r2 (ts_accessed t) [] r3"
    using u64_codec.step [OF TrueI, of r2 "ts_accessed t"] unfolding reads_off_def by blast
  then show ?thesis using r1 r2 by (simp add: reads_off_def timestamps_decode_def)
qed

lemma fold_extra:
  assumes "\<forall>s \<in> set ss. \<not> recognised B (fst s)"
  shows "fold_sections B i ss = Ok (i\<lparr>ino_extra := ino_extra i @ ss\<rparr>)"
  using assms
proof (induction ss arbitrary: i)
  case (Cons s ss)
  then show ?case by (cases s) (auto simp: section_into_def recognised_def)
qed simp

lemma fold_known:
  assumes "inode_ok B i"
  shows "fold_sections B inode_default (known_sections i) = Ok (i\<lparr>ino_extra := []\<rparr>)"
proof -
  have "acl_decode (acl_encode a) = Ok a" if "ino_acl i = Some a" for a
    using assms that by (intro acl_decode_encode) (simp add: inode_ok_def)
  then show ?thesis
    using assms
    by (cases i; cases "ino_times i"; cases "ino_acl i"; cases "ino_mac i"; cases "ino_sig i")
      (simp_all add: inode_ok_def known_sections_def section_into_def inode_default_def timestamps_decode_encode)
qed

lemma inode_decode_encode:
  assumes "inode_ok B i"
  shows "inode_decode B (inode_encode i) = Ok i"
proof -
  let ?ss = "all_sections i" and ?n = "word_of_nat (length (all_sections i)) :: u8"
  have "left (reader_new (inode_encode i)) ([?n] @ concat (map section_bytes ?ss) @ [])"
    using inode_encode_fits [OF assms] left_new [of "inode_encode i"] by (simp add: inode_encode_eq)
  then obtain r1 where r1: "reads_off reader_u8 (reader_new (inode_encode i)) ?n (concat (map section_bytes ?ss) @ []) r1"
    using u8_codec.step by blast
  have "unat ?n = length ?ss" using all_sections_small(1) [OF assms] by (simp add: unat_of_nat take_bit_nat_eq_self)
  then have "inode_decode B (inode_encode i) = fold_sections B inode_default ?ss"
    using r1 inode_sections_left [of ?ss r1 "[]" B inode_default] all_sections_small(2) [OF assms] by (simp add: inode_decode_def reads_off_def)
  also have "\<dots> = Ok i"
    using fold_known [OF assms] fold_extra [of "ino_extra i" B "i\<lparr>ino_extra := []\<rparr>"] assms
    by (simp add: all_sections_def fold_sections_append inode_ok_def)
  finally show ?thesis .
qed

section \<open>What the operations do\<close>

lemma inode_key_inject [simp]: "inode_key t k = inode_key t' k' \<longleftrightarrow> t = t' \<and> k = k'"
proof -
  have "t = t'" if "put_bytes [] (as_bytes t) = put_bytes [] (as_bytes t')"
    using that by (simp add: put_bytes_def put_u32_def)
  then show ?thesis by (auto simp: inode_key_def akey_into_bytes_def append_eq_append_conv)
qed

text \<open>The metadata table holds the inodes \<open>I\<close>, by table name and a-node, and nothing else.\<close>

type_synonym inode_map = "string \<Rightarrow> akey \<Rightarrow> inode option"

definition holds_inodes :: "build \<Rightarrow> ('n, bytes, bytes) redb \<Rightarrow> 'n \<Rightarrow> inode_map \<Rightarrow> bool" where
  "holds_inodes B N n I \<longleftrightarrow> redb_ok N \<and> (\<forall>t k. contents N n (inode_key t k) = map_option inode_encode (I t k)) \<and>
     (\<forall>t k i. I t k = Some i \<longrightarrow> inode_ok B i) \<and> (\<forall>key. contents N n key \<noteq> None \<longrightarrow> (\<exists>t k. key = inode_key t k))"

definition with_inode :: "string \<Rightarrow> akey \<Rightarrow> inode option \<Rightarrow> inode_map \<Rightarrow> inode_map" where
  "with_inode t k i I = I(t := (I t)(k := i))"

abbreviation inode_of :: "inode_map \<Rightarrow> string \<Rightarrow> akey \<Rightarrow> inode" where
  "inode_of I t k \<equiv> case I t k of Some i \<Rightarrow> i | None \<Rightarrow> inode_default"

lemma with_inode_apply [simp]: "with_inode t k i I t' k' = (if t' = t \<and> k' = k then i else I t' k')"
  by (simp add: with_inode_def)

lemma holds_inodesD:
  assumes "holds_inodes B N n I"
  shows "redb_ok N" "contents N n (inode_key t k) = map_option inode_encode (I t k)" "I t k = Some i \<Longrightarrow> inode_ok B i"
    "contents N n key = Some y \<Longrightarrow> \<exists>t k. key = inode_key t k"
  using assms unfolding holds_inodes_def by blast+

lemma inode_of_ok: "holds_inodes B N n I \<Longrightarrow> inode_ok B (inode_of I t k)"
  by (auto dest: holds_inodesD(3) split: option.splits)

lemma inode_get [simp]: "holds_inodes B N n I \<Longrightarrow> table_get N n (inode_key t k) = Ok (map_option inode_encode (I t k))"
  by (simp add: redb_get [OF holds_inodesD(1)] holds_inodesD(2))

lemma inode_or_default_holds: "holds_inodes B N n I \<Longrightarrow> inode_or_default B N (inode_key t k) n = Ok (inode_of I t k)"
  by (auto simp: inode_or_default_def inode_decode_encode dest: holds_inodesD(3) split: option.splits)

lemma inode_put_holds:
  assumes "holds_inodes B N n I" "inode_ok B i"
  shows "\<exists>n'. inode_put N (inode_key t k) i n = (Ok (), n') \<and> holds_inodes B N n' (with_inode t k (Some i) I)"
proof -
  note D = holds_inodesD [OF assms(1)]
  obtain n' where n': "table_insert N n (inode_key t k) (inode_encode i) = Ok n'"
    "contents N n' = (contents N n)(inode_key t k := Some (inode_encode i))"
    by (rule redb_insert [OF D(1)])
  moreover have "holds_inodes B N n' (with_inode t k (Some i) I)"
    using D(1-3) assms(2) unfolding holds_inodes_def n'(2) by (auto dest: D(4))
  ultimately show ?thesis by (simp add: inode_put_def)
qed

lemma inode_forget_holds:
  assumes "holds_inodes B N n I"
  shows "\<exists>n'. inode_forget N t k n = (Ok (), n') \<and> holds_inodes B N n' (with_inode t k None I)"
proof -
  note D = holds_inodesD [OF assms]
  obtain n' where n': "table_remove N n (inode_key t k) = Ok n'" "contents N n' = (contents N n)(inode_key t k := None)"
    by (rule redb_remove [OF D(1)])
  moreover have "holds_inodes B N n' (with_inode t k None I)"
    using D(1-3) unfolding holds_inodes_def n'(2) by (auto dest: D(4))
  ultimately show ?thesis by (simp add: inode_forget_def)
qed

text \<open>An update of one inode: every operation but \<open>strip_group\<close> is one.\<close>

definition updates :: "build \<Rightarrow> ('n, bytes, bytes) redb \<Rightarrow> inode_map \<Rightarrow> string \<Rightarrow> akey \<Rightarrow> ('n, unit) op \<Rightarrow> inode option \<Rightarrow> bool" where
  "updates B N I t k f i \<longleftrightarrow> (\<forall>n. holds_inodes B N n I \<longrightarrow>
     (\<exists>n'. f n = (Ok (), n') \<and> holds_inodes B N n' (with_inode t k i I)))"

lemma modify_updates:
  assumes "inode_ok B (f (inode_of I t k))"
  shows "updates B N I t k (bindOp (readOp (inode_or_default B N (inode_key t k))) (\<lambda>i. inode_put N (inode_key t k) (f i)))
    (Some (f (inode_of I t k)))"
  unfolding updates_def using inode_put_holds [OF _ assms, of N _ I t k] by (auto simp: inode_or_default_holds)

lemma stamped_ok [simp]: "inode_ok B (stamped now i) \<longleftrightarrow> inode_ok B i"
  by (simp add: stamped_def inode_ok_def Let_def split_beta)

lemma stamped_same [simp]: "ino_acl (stamped now i) = ino_acl i" "ino_mac (stamped now i) = ino_mac i" "ino_sig (stamped now i) = ino_sig i"
  "ino_extra (stamped now i) = ino_extra i"
  by (simp_all add: stamped_def Let_def split_beta)

lemma touch_updates:
  assumes "holds_inodes B N n I"
  shows "updates B N I t k (inode_touch B N t k now) (Some (stamped now (inode_of I t k)))"
  using modify_updates [of B "stamped now" I t k N] inode_of_ok [OF assms, of t k] by (simp add: inode_touch_def Let_def)

text \<open>The inode \<open>stamp_and_seal\<close> writes.\<close>

definition sealed_inode :: "i64 \<Rightarrow> u32 option \<Rightarrow> (bytes \<Rightarrow> bytes \<times> bytes) \<Rightarrow> inode \<Rightarrow> inode" where
  "sealed_inode now owner seal i =
     (let a = (if ino_acl i = None then map_option acl_default_for owner else ino_acl i);
          tags = seal (case a of Some a \<Rightarrow> acl_encode a | None \<Rightarrow> [])
      in (stamped now i)\<lparr>ino_acl := a, ino_mac := Some (fst tags), ino_sig := Some (snd tags)\<rparr>)"

lemma default_acl_ok [simp]: "acl_ok (acl_default_for uid)"
  by (simp add: acl_ok_def acl_default_for_def length_acl_encode)

lemma sealed_inode_ok:
  assumes "inode_ok B i" "permissions B" "\<And>a. length (fst (seal a)) = 32 \<and> length (snd (seal a)) = 64"
  shows "inode_ok B (sealed_inode now owner seal i)"
  using assms by (auto simp: sealed_inode_def inode_ok_def Let_def stamped_def split_beta)

lemma stamp_and_seal_updates:
  assumes "holds_inodes B N n I" "permissions B" "\<And>a. length (fst (seal a)) = 32 \<and> length (snd (seal a)) = 64"
  shows "updates B N I t k (stamp_and_seal B N t k now owner seal) (Some (sealed_inode now owner seal (inode_of I t k)))"
proof -
  have "stamp_and_seal B N t k now owner seal =
      bindOp (readOp (inode_or_default B N (inode_key t k))) (\<lambda>i. inode_put N (inode_key t k) (sealed_inode now owner seal i))"
  proof -
    have "(let i = stamped now i; i = (case owner of Some uid \<Rightarrow> if ino_acl i = None then i\<lparr>ino_acl := Some (acl_default_for uid)\<rparr> else i | None \<Rightarrow> i);
          acl = (case ino_acl i of Some a \<Rightarrow> acl_encode a | None \<Rightarrow> []); (mac, sig) = seal acl
        in inode_put N (inode_key t k) (i\<lparr>ino_mac := Some mac, ino_sig := Some sig\<rparr>)) = inode_put N (inode_key t k) (sealed_inode now owner seal i)" for i
      by (cases owner; cases i) (auto simp: sealed_inode_def Let_def split_beta stamped_def)
    then show ?thesis by (simp add: stamp_and_seal_def Let_def)
  qed
  then show ?thesis
    using modify_updates [of B "sealed_inode now owner seal" I t k N] sealed_inode_ok [OF inode_of_ok [OF assms(1)] assms(2,3)] by simp
qed

lemma set_default_acl_updates:
  assumes "holds_inodes B N n I" "permissions B"
  shows "\<exists>n'. set_default_acl B N t k uid n = (Ok (), n') \<and>
    holds_inodes B N n' (if ino_acl (inode_of I t k) = None then with_inode t k (Some ((inode_of I t k)\<lparr>ino_acl := Some (acl_default_for uid)\<rparr>)) I else I)"
proof -
  have "inode_ok B ((inode_of I t k)\<lparr>ino_acl := Some (acl_default_for uid)\<rparr>)"
    using inode_of_ok [OF assms(1), of t k] assms(2) by (simp add: inode_ok_def)
  from inode_put_holds [OF assms(1) this, of t k] show ?thesis
    using assms(1) inode_or_default_holds [OF assms(1), of t k] by (auto simp: set_default_acl_def Let_def)
qed

lemma set_acl_updates:
  assumes "holds_inodes B N n I" "permissions B" "acl_ok a"
  shows "updates B N I t k (inode_set_acl B N t k a) (Some ((inode_of I t k)\<lparr>ino_acl := Some a\<rparr>))"
  using modify_updates [of B "\<lambda>i. i\<lparr>ino_acl := Some a\<rparr>" I t k N] inode_of_ok [OF assms(1), of t k] assms(2,3)
  by (simp add: inode_set_acl_def Let_def inode_ok_def)

lemma seal_mac_updates:
  assumes "holds_inodes B N n I" "permissions B" "length mac = 32"
  shows "updates B N I t k (seal_mac B N t k mac) (Some ((inode_of I t k)\<lparr>ino_mac := Some mac\<rparr>))"
  using modify_updates [of B "\<lambda>i. i\<lparr>ino_mac := Some mac\<rparr>" I t k N] inode_of_ok [OF assms(1), of t k] assms(2,3)
  by (simp add: seal_mac_def Let_def inode_ok_def)

lemma seal_sig_updates:
  assumes "holds_inodes B N n I" "permissions B" "length sig = 64"
  shows "updates B N I t k (seal_sig B N t k sig) (Some ((inode_of I t k)\<lparr>ino_sig := Some sig\<rparr>))"
  using modify_updates [of B "\<lambda>i. i\<lparr>ino_sig := Some sig\<rparr>" I t k N] inode_of_ok [OF assms(1), of t k] assms(2,3)
  by (simp add: seal_sig_def Let_def inode_ok_def)

lemma read_meta_holds: "holds_inodes B N n I \<Longrightarrow>
  read_meta B N n t k = Ok (ino_acl (inode_of I t k), ino_mac (inode_of I t k), ino_sig (inode_of I t k))"
  by (auto simp: read_meta_def inode_decode_encode inode_default_def dest: holds_inodesD(3) split: option.splits)

lemma read_acl_holds: "holds_inodes B N n I \<Longrightarrow> read_acl B N n t k = Ok (ino_acl (inode_of I t k))"
  by (auto simp: read_acl_def inode_decode_encode inode_default_def dest: holds_inodesD(3) split: option.splits)

text \<open>The access time after a bump: never earlier than before, and the latest of the two when the inode has times.\<close>

definition bumped :: "i64 \<Rightarrow> inode \<Rightarrow> inode" where
  "bumped at i =
     (case ino_times i of
        Some t \<Rightarrow> if sint (ts_accessed t) < sint at then i\<lparr>ino_times := Some (t\<lparr>ts_accessed := at\<rparr>)\<rparr> else i
      | None \<Rightarrow> i\<lparr>ino_times := Some \<lparr>ts_created = at, ts_modified = at, ts_accessed = at\<rparr>\<rparr>)"

lemma bumped_ok: "inode_ok B i \<Longrightarrow> inode_ok B (bumped at i)"
  by (simp add: bumped_def inode_ok_def split: option.splits)

lemma with_inode_same: "I t k = i \<Longrightarrow> with_inode t k i I = I"
  by (auto simp: with_inode_def)

lemma bump_access_updates:
  assumes "holds_inodes B N n I"
  shows "updates B N I t k (bump_access B N t k at) (map_option (bumped at) (I t k))"
proof (cases "I t k")
  case None
  then show ?thesis unfolding updates_def by (auto simp: bump_access_def Let_def with_inode_same)
next
  case (Some i)
  note ok = holds_inodesD(3) [OF assms Some]
  have "\<exists>n'. bump_access B N t k at n = (Ok (), n') \<and> holds_inodes B N n' (with_inode t k (Some (bumped at i)) I)" if "holds_inodes B N n I" for n
  proof (cases "bumped at i = i")
    case True
    have "bump_access B N t k at n = (Ok (), n) \<or> bump_access B N t k at n = inode_put N (inode_key t k) (bumped at i) n"
      using Some that ok by (auto simp: bump_access_def Let_def inode_decode_encode bumped_def split: option.splits)
    then show ?thesis
      using that True Some inode_put_holds [OF that bumped_ok [OF ok, of at], of t k] by (auto simp: with_inode_same)
  next
    case False
    then have "bump_access B N t k at n = inode_put N (inode_key t k) (bumped at i) n"
      using Some that ok by (auto simp: bump_access_def Let_def inode_decode_encode bumped_def split: option.splits)
    then show ?thesis using inode_put_holds [OF that bumped_ok [OF ok], of t k] by simp
  qed
  then show ?thesis using Some unfolding updates_def by simp
qed

section \<open>Dropping a group\<close>

definition strip_acl :: "u32 \<Rightarrow> inode \<Rightarrow> inode" where
  "strip_acl gid i = i\<lparr>ino_acl := map_option (acl_remove_group gid) (ino_acl i)\<rparr>"

lemma bt_remove_absent: "bt_get m k = None \<Longrightarrow> bt_remove k m = m"
  by (induction m) (auto simp: bt_remove_def bt_get_Cons split: if_splits)

lemma acl_remove_absent: "\<not> acl_has_group a gid \<Longrightarrow> acl_remove_group gid a = a"
  by (simp add: acl_has_group_def acl_remove_group_def bt_remove_absent)

lemma strip_acl_ok: "inode_ok B i \<Longrightarrow> inode_ok B (strip_acl gid i)"
proof -
  have "acl_ok a \<Longrightarrow> acl_ok (acl_remove_group gid a)" for a
  proof -
    have "length (bt_remove gid (group_map a)) \<le> length (group_map a)" by (simp add: bt_remove_def)
    then show "acl_ok a \<Longrightarrow> acl_ok (acl_remove_group gid a)" by (simp add: acl_ok_def length_acl_encode acl_remove_group_def)
  qed
  then show "inode_ok B i \<Longrightarrow> inode_ok B (strip_acl gid i)" by (auto simp: inode_ok_def strip_acl_def)
qed

lemma strip_update_eq:
  assumes "inode_ok B i"
  shows "strip_update B gid (key, inode_encode i) =
    Ok (if \<exists>a. ino_acl i = Some a \<and> acl_has_group a gid then Some (key, strip_acl gid i) else None)"
  using assms by (auto simp: strip_update_def inode_decode_encode strip_acl_def split: option.splits)

lemma strip_unchanged: "\<not> (\<exists>a. ino_acl i = Some a \<and> acl_has_group a gid) \<Longrightarrow> strip_acl gid i = i"
  by (cases "ino_acl i") (auto simp: strip_acl_def acl_remove_absent)

lemma strip_puts:
  assumes "holds_inodes B N n I" "\<And>key i. (key, i) \<in> set us \<Longrightarrow> \<exists>t k j. key = inode_key t k \<and> I t k = Some j \<and> i = strip_acl gid j"
    "distinct (map fst us)"
  shows "\<exists>n'. forOp us (\<lambda>(key, i). inode_put N key i) n = (Ok (), n') \<and>
    holds_inodes B N n' (\<lambda>t k. if inode_key t k \<in> fst ` set us then map_option (strip_acl gid) (I t k) else I t k)"
  using assms
proof (induction us arbitrary: n I)
  case Nil
  then show ?case by simp
next
  case (Cons u us)
  obtain t k j where u: "u = (inode_key t k, strip_acl gid j)" "I t k = Some j" using Cons.prems(2) [of "fst u" "snd u"] by (cases u) auto
  obtain n1 where n1: "inode_put N (inode_key t k) (strip_acl gid j) n = (Ok (), n1)" "holds_inodes B N n1 (with_inode t k (Some (strip_acl gid j)) I)"
    using inode_put_holds [OF Cons.prems(1) strip_acl_ok [OF holds_inodesD(3) [OF Cons.prems(1) u(2)]]] by blast
  let ?I = "with_inode t k (Some (strip_acl gid j)) I"
  have "\<exists>t' k' j'. key = inode_key t' k' \<and> ?I t' k' = Some j' \<and> i = strip_acl gid j'" if "(key, i) \<in> set us" for key i
    using Cons.prems(2) [of key i] Cons.prems(3) that u by (force simp: image_iff)
  from Cons.IH [OF n1(2) this] obtain n2 where n2: "forOp us (\<lambda>(key, i). inode_put N key i) n1 = (Ok (), n2)"
    "holds_inodes B N n2 (\<lambda>t' k'. if inode_key t' k' \<in> fst ` set us then map_option (strip_acl gid) (?I t' k') else ?I t' k')"
    using Cons.prems(3) by auto
  have "(\<lambda>t' k'. if inode_key t' k' \<in> fst ` set us then map_option (strip_acl gid) (?I t' k') else ?I t' k') =
      (\<lambda>t' k'. if inode_key t' k' \<in> fst ` set (u # us) then map_option (strip_acl gid) (I t' k') else I t' k')"
    using Cons.prems(3) u by (auto simp: fun_eq_iff)
  then show ?case using n1(1) n2 u(1) by simp
qed

definition strip_row :: "build \<Rightarrow> u32 \<Rightarrow> bytes \<times> bytes \<Rightarrow> (bytes \<times> inode) option" where
  "strip_row B gid r = (case strip_update B gid r of Ok u \<Rightarrow> u | _ \<Rightarrow> None)"

lemma strip_row_eq:
  assumes "inode_ok B i"
  shows "strip_row B gid (key, inode_encode i) = (if \<exists>a. ino_acl i = Some a \<and> acl_has_group a gid then Some (key, strip_acl gid i) else None)"
    and "strip_update B gid (key, inode_encode i) = Ok (strip_row B gid (key, inode_encode i))"
  using assms by (simp_all add: strip_row_def strip_update_eq)

lemma strip_row_key: "strip_row B gid r = Some u \<Longrightarrow> fst u = fst r"
  by (auto simp: strip_row_def strip_update_def split: res.splits option.splits if_splits)

lemma strip_rows_keys:
  "map fst (List.map_filter (\<lambda>u. u) (map (strip_row B gid) rs)) = map fst (filter (\<lambda>r. strip_row B gid r \<noteq> None) rs)"
proof (induction rs)
  case (Cons r rs)
  then show ?case using strip_row_key [of B gid r] by (cases "strip_row B gid r") (simp_all add: List.map_filter_simps)
qed (simp add: List.map_filter_simps)

lemma inode_rows:
  assumes "holds_inodes B N n I"
  obtains es where "table_range N n [] = Ok es" "bt_ok es" "\<And>key v. (key, v) \<in> set es \<longleftrightarrow> (\<exists>t k i. key = inode_key t k \<and> I t k = Some i \<and> v = inode_encode i)"
proof -
  note D = holds_inodesD [OF assms]
  obtain es where es: "table_range N n [] = Ok es" "bt_ok es" "\<And>j v. (j, v) \<in> set es \<longleftrightarrow> [] \<le> j \<and> contents N n j = Some v"
    using redb_range [OF D(1), of n "[]"] by blast
  have "(key, v) \<in> set es \<longleftrightarrow> (\<exists>t k i. key = inode_key t k \<and> I t k = Some i \<and> v = inode_encode i)" for key v
  proof
    assume "(key, v) \<in> set es"
    then have c: "contents N n key = Some v" using es(3) by blast
    from D(4) [OF this] obtain t k where "key = inode_key t k" by blast
    then show "\<exists>t k i. key = inode_key t k \<and> I t k = Some i \<and> v = inode_encode i" using c D(2) [of t k] by auto
  next
    assume "\<exists>t k i. key = inode_key t k \<and> I t k = Some i \<and> v = inode_encode i"
    then show "(key, v) \<in> set es" using es(3) D(2) by fastforce
  qed
  then show thesis using that es(1,2) by blast
qed

lemma strip_group_holds:
  assumes "holds_inodes B N n I"
  shows "\<exists>n'. strip_group B N gid n = (Ok (), n') \<and> holds_inodes B N n' (\<lambda>t k. map_option (strip_acl gid) (I t k))"
proof -
  obtain es where es: "table_range N n [] = Ok es" "bt_ok es"
    "\<And>key v. (key, v) \<in> set es \<longleftrightarrow> (\<exists>t k i. key = inode_key t k \<and> I t k = Some i \<and> v = inode_encode i)" using inode_rows [OF assms] by blast
  let ?g = "strip_row B gid" and ?us = "List.map_filter (\<lambda>u. u) (map (strip_row B gid) es)"
  have ok: "inode_ok B i" if "I t k = Some i" for t k i using holds_inodesD(3) [OF assms that] .
  have "strip_update B gid r = Ok (?g r)" if "r \<in> set es" for r
    using that es(3) [of "fst r" "snd r"] strip_row_eq(2) [OF ok] by (metis prod.collapse)
  then have res: "res_map (strip_update B gid) es = Ok (map ?g es)" by (rule res_map_map)
  have us: "\<exists>t k j. key = inode_key t k \<and> I t k = Some j \<and> i = strip_acl gid j" if m: "(key, i) \<in> set ?us" for key i
  proof -
    obtain r where r: "r \<in> set es" "?g r = Some (key, i)" using m by (auto simp: map_filter_set)
    then obtain t k j where tkj: "r = (inode_key t k, inode_encode j)" "I t k = Some j" using es(3) [of "fst r" "snd r"] by (metis prod.collapse)
    have "key = inode_key t k \<and> i = strip_acl gid j" using r(2) tkj strip_row_eq(1) [OF ok [OF tkj(2)]] by (simp split: if_splits)
    then show ?thesis using tkj(2) by blast
  qed
  have "distinct (map fst ?us)" unfolding strip_rows_keys using bt_ok_distinct [OF bt_ok_filter [OF es(2)]] .
  from strip_puts [OF assms us this] obtain n' where n': "forOp ?us (\<lambda>(key, i). inode_put N key i) n = (Ok (), n')"
    "holds_inodes B N n' (\<lambda>t k. if inode_key t k \<in> fst ` set ?us then map_option (strip_acl gid) (I t k) else I t k)" by blast
  have keys: "fst ` set ?us = fst ` set (filter (\<lambda>r. ?g r \<noteq> None) es)" using strip_rows_keys [of B gid es] by (metis set_map)
  have "strip_acl gid i = i" if i: "I t k = Some i" "inode_key t k \<notin> fst ` set ?us" for t k i
  proof -
    have "(inode_key t k, inode_encode i) \<in> set es" using es(3) i(1) by blast
    then have "?g (inode_key t k, inode_encode i) = None" using i(2) unfolding keys by force
    then show ?thesis using strip_row_eq(1) [OF ok [OF i(1)]] strip_unchanged [of i gid] by (auto split: if_splits)
  qed
  then have "(if inode_key t k \<in> fst ` set ?us then map_option (strip_acl gid) (I t k) else I t k) = map_option (strip_acl gid) (I t k)" for t k
    by (cases "I t k") auto
  then have "holds_inodes B N n' (\<lambda>t k. map_option (strip_acl gid) (I t k))" using n'(2) by simp
  then show ?thesis using n'(1) es(1) res by (simp add: strip_group_def)
qed

section \<open>Builds that share a table\<close>

lemma all_sections_stamped: "all_sections (stamped now i) =
  (SECTION_TIMESTAMPS, timestamps_encode (the (ino_times (stamped now i)))) # all_sections (i\<lparr>ino_times := None\<rparr>)"
  by (simp add: all_sections_def known_sections_def stamped_def Let_def split_beta)

lemma unaware_decode:
  assumes "inode_ok B i" "permissions B" "\<not> permissions B'"
  shows "inode_decode B' (inode_encode i) =
    Ok (inode_default\<lparr>ino_times := ino_times i, ino_extra := all_sections (i\<lparr>ino_times := None\<rparr>)\<rparr>)"
proof -
  let ?ss = "all_sections i" and ?n = "word_of_nat (length (all_sections i)) :: u8"
  have "left (reader_new (inode_encode i)) ([?n] @ concat (map section_bytes ?ss) @ [])"
    using inode_encode_fits [OF assms(1)] left_new [of "inode_encode i"] by (simp add: inode_encode_eq)
  then obtain r1 where r1: "reads_off reader_u8 (reader_new (inode_encode i)) ?n (concat (map section_bytes ?ss) @ []) r1"
    using u8_codec.step by blast
  have "unat ?n = length ?ss" using all_sections_small(1) [OF assms(1)] by (simp add: unat_of_nat take_bit_nat_eq_self)
  then have dec: "inode_decode B' (inode_encode i) = fold_sections B' inode_default ?ss"
    using r1 inode_sections_left [of ?ss r1 "[]" B' inode_default] all_sections_small(2) [OF assms(1)] by (simp add: inode_decode_def reads_off_def)
  have "\<not> recognised B' (fst s)" if "s \<in> set (all_sections (i\<lparr>ino_times := None\<rparr>))" for s
    using that assms by (auto simp: all_sections_def known_sections_def recognised_def inode_ok_def split: option.splits)
  note rest = fold_extra [of "all_sections (i\<lparr>ino_times := None\<rparr>)" B', OF ballI, OF this]
  show ?thesis
  proof (cases "ino_times i")
    case None
    then have "all_sections (i\<lparr>ino_times := None\<rparr>) = ?ss" by (simp add: all_sections_def known_sections_def)
    then show ?thesis using dec rest [of inode_default] None by (simp add: inode_default_def)
  next
    case (Some t)
    then have "?ss = (SECTION_TIMESTAMPS, timestamps_encode t) # all_sections (i\<lparr>ino_times := None\<rparr>)"
      by (simp add: all_sections_def known_sections_def)
    then show ?thesis
      using dec rest [of "inode_default\<lparr>ino_times := Some t\<rparr>"] Some
      by (simp add: section_into_def timestamps_decode_encode inode_default_def)
  qed
qed

section \<open>Properties\<close>

text \<open>A rewrite keeps another build's metadata. Recording a write of an a-node does the same to the metadata table in a build that
  knows only timestamps as in a build with the permission system: the access-control lists and integrity tags such a build does
  not recognise are carried through byte for byte.\<close>

theorem touch_keeps_unknown_sections:
  assumes "holds_inodes B N n I" "permissions B" "\<not> permissions B'"
  shows "inode_touch B' N t k now n = inode_touch B N t k now n"
proof -
  have "inode_encode (stamped now j) = inode_encode (stamped now i)"
    if "j = inode_default\<lparr>ino_times := ino_times i, ino_extra := all_sections (i\<lparr>ino_times := None\<rparr>)\<rparr>" for i j
    using that
    by (simp add: inode_encode_eq all_sections_stamped) (simp add: all_sections_def known_sections_def stamped_def inode_default_def split_beta)
  then have "inode_put N key (stamped now j) = inode_put N key (stamped now i)"
    if "j = inode_default\<lparr>ino_times := ino_times i, ino_extra := all_sections (i\<lparr>ino_times := None\<rparr>)\<rparr>" for i j key
    using that by (simp add: inode_put_def fun_eq_iff)
  then have same: "inode_put N key (stamped now (inode_default\<lparr>ino_times := ino_times i, ino_extra := all_sections (i\<lparr>ino_times := None\<rparr>)\<rparr>))
      = inode_put N key (stamped now i)" for i key by blast
  show ?thesis
  proof (cases "I t k")
    case (Some i)
    note ok = holds_inodesD(3) [OF assms(1) Some]
    show ?thesis
      using unaware_decode [OF ok assms(2,3)] inode_decode_encode [OF ok] Some assms(1)
      by (simp add: inode_touch_def inode_or_default_def Let_def same)
  qed (use assms(1) in \<open>simp add: inode_touch_def inode_or_default_def Let_def\<close>)
qed

definition full_build :: build where
  "full_build = \<lparr>permissions = True, entry_timestamps = True\<rparr>"

definition times_build :: build where
  "times_build = \<lparr>permissions = False, entry_timestamps = True\<rparr>"

definition owned_inode :: inode where
  "owned_inode = inode_default\<lparr>ino_acl := Some (acl_default_for 2), ino_mac := Some (replicate 32 1)\<rparr>"

lemma owned_inode_ok: "inode_ok full_build owned_inode"
  by (simp add: inode_ok_def owned_inode_def inode_default_def full_build_def)

lemma no_inodes_hold: "holds_inodes B btree_redb [] (\<lambda>_ _. None)"
  by (simp add: holds_inodes_def btree_redb_ok)

lemma owned_inode_holds:
  "holds_inodes full_build btree_redb [(inode_key ''t'' 5, inode_encode owned_inode)] (with_inode ''t'' 5 (Some owned_inode) (\<lambda>_ _. None))"
  using inode_put_holds [OF no_inodes_hold owned_inode_ok, of "''t''" 5] by (auto simp: inode_put_def)

theorem touch_keeps_unknown_sections_witness:
  "inode_touch times_build btree_redb ''t'' 5 9 [(inode_key ''t'' 5, inode_encode owned_inode)] =
   inode_touch full_build btree_redb ''t'' 5 9 [(inode_key ''t'' 5, inode_encode owned_inode)]"
  by (rule touch_keeps_unknown_sections [OF owned_inode_holds]) (simp_all add: full_build_def times_build_def)

end
