(* ===== verification/Integrity.thy ===== *)
theory Integrity
  imports Inodes
begin

text \<open>
  Cryptography and integrity tags (\<open>crypto.rs\<close>, \<open>perm/integrity.rs\<close>). The primitives are third-party crates: they are the
  fields of the record \<open>crypto\<close>, and \<open>crypto_ok\<close> is what the program relies on of them: what was encrypted decrypts, a ciphertext
  is longer by its tag, a signature verifies under its public key, and digests and signatures have their size. Random bytes are arguments. Hashing a
  sequence of updates is hashing their concatenation, so the bytes a tag covers are one message.

  Lemmas: the message of a value tag determines the table, the a-node, the entry and the access-control list it
  covers, and is never the message of a control tag; the constant-time comparison is equality.
\<close>

section \<open>Primitives\<close>

record crypto =
  argon2id :: "bytes \<Rightarrow> bytes \<Rightarrow> string + bytes"
  aead_encrypt :: "bytes \<Rightarrow> bytes \<Rightarrow> bytes \<Rightarrow> bytes option"
  aead_decrypt :: "bytes \<Rightarrow> bytes \<Rightarrow> bytes \<Rightarrow> bytes option"
  blake3_keyed :: "bytes \<Rightarrow> bytes \<Rightarrow> bytes"
  blake3 :: "bytes \<Rightarrow> bytes"
  ed_public :: "bytes \<Rightarrow> bytes"
  ed_sign :: "bytes \<Rightarrow> bytes \<Rightarrow> bytes"
  ed_verify :: "bytes \<Rightarrow> bytes \<Rightarrow> bytes \<Rightarrow> bool"

definition crypto_ok :: "crypto \<Rightarrow> bool" where
  "crypto_ok C \<longleftrightarrow>
     (\<forall>k n p c. aead_encrypt C k n p = Some c \<longrightarrow> aead_decrypt C k n c = Some p \<and> length c = length p + 16) \<and>
     (\<forall>k m. length (blake3_keyed C k m) = 32) \<and> (\<forall>seed. length (ed_public C seed) = 32) \<and>
     (\<forall>seed m. length (ed_sign C seed m) = 64 \<and> ed_verify C (ed_public C seed) m (ed_sign C seed m))"

abbreviation (input) KEY_LEN :: nat where "KEY_LEN \<equiv> 32"
abbreviation (input) SEED_LEN :: nat where "SEED_LEN \<equiv> 32"
abbreviation (input) PUBKEY_LEN :: nat where "PUBKEY_LEN \<equiv> 32"
abbreviation (input) SALT_LEN :: nat where "SALT_LEN \<equiv> 16"
abbreviation (input) NONCE_LEN :: nat where "NONCE_LEN \<equiv> 24"

section \<open>Wrapping keys under a password\<close>

definition derive_kek :: "crypto \<Rightarrow> string \<Rightarrow> bytes \<Rightarrow> bytes res" where
  "derive_kek C password salt =
     (case argon2id C (as_bytes password) salt of
        Inr kek \<Rightarrow> Ok kek
      | Inl e \<Rightarrow> Err (CannotAccess (''key derivation failed: '' @ e)))"

text \<open>The salt and the nonce are the random bytes drawn.\<close>

definition wrap_key :: "crypto \<Rightarrow> bytes \<Rightarrow> bytes \<Rightarrow> string \<Rightarrow> bytes \<Rightarrow> (bytes \<times> bytes \<times> bytes) res" where
  "wrap_key C salt nonce password key =
     andThen (derive_kek C password salt) (\<lambda>kek.
     andThen (ok_or (aead_encrypt C kek nonce key) (CannotAccess ''wrapping the integrity key failed'')) (\<lambda>ciphertext.
       Ok (salt, nonce, ciphertext)))"

definition unwrap_key :: "crypto \<Rightarrow> string \<Rightarrow> bytes \<Rightarrow> bytes \<Rightarrow> bytes \<Rightarrow> bytes res" where
  "unwrap_key C password salt nonce ciphertext =
     andThen (derive_kek C password salt) (\<lambda>kek. ok_or (aead_decrypt C kek nonce ciphertext) AuthenticationFailed)"

section \<open>Tags\<close>

abbreviation (input) DOMAIN_VALUE :: u8 where "DOMAIN_VALUE \<equiv> 1"
abbreviation (input) DOMAIN_CONTROL :: u8 where "DOMAIN_CONTROL \<equiv> 2"

definition field :: "bytes \<Rightarrow> bytes" where
  "field bs = be_bytes (word_of_nat (length bs) :: u64) @ bs"

definition absorb_value :: "string \<Rightarrow> akey \<Rightarrow> bytes \<Rightarrow> bytes \<Rightarrow> bytes" where
  "absorb_value table akey blob acl =
     [DOMAIN_VALUE] @ field (as_bytes table) @ akey_into_bytes akey @ field blob @ field acl"

definition mac_value :: "crypto \<Rightarrow> bytes \<Rightarrow> string \<Rightarrow> akey \<Rightarrow> bytes \<Rightarrow> bytes \<Rightarrow> bytes" where
  "mac_value C key table akey blob acl = blake3_keyed C key (absorb_value table akey blob acl)"

definition value_digest :: "crypto \<Rightarrow> string \<Rightarrow> akey \<Rightarrow> bytes \<Rightarrow> bytes \<Rightarrow> bytes" where
  "value_digest C table akey blob acl = blake3 C (absorb_value table akey blob acl)"

definition sign_value :: "crypto \<Rightarrow> bytes \<Rightarrow> string \<Rightarrow> akey \<Rightarrow> bytes \<Rightarrow> bytes \<Rightarrow> bytes" where
  "sign_value C seed table akey blob acl = ed_sign C seed (value_digest C table akey blob acl)"

definition verify_value :: "crypto \<Rightarrow> bytes \<Rightarrow> string \<Rightarrow> akey \<Rightarrow> bytes \<Rightarrow> bytes \<Rightarrow> bytes \<Rightarrow> bool" where
  "verify_value C pubkey table akey blob acl sig = ed_verify C pubkey (value_digest C table akey blob acl) sig"

definition control_message :: "u64 \<Rightarrow> bytes \<Rightarrow> bytes \<Rightarrow> bytes \<Rightarrow> bytes" where
  "control_message epoch users groups pubkey =
     [DOMAIN_CONTROL] @ be_bytes epoch @ field users @ field groups @ field pubkey"

definition mac_control :: "crypto \<Rightarrow> bytes \<Rightarrow> u64 \<Rightarrow> bytes \<Rightarrow> bytes \<Rightarrow> bytes \<Rightarrow> bytes" where
  "mac_control C key epoch users groups pubkey = blake3_keyed C key (control_message epoch users groups pubkey)"

definition ct_eq :: "bytes \<Rightarrow> bytes \<Rightarrow> bool" where
  "ct_eq a b =
     (if length a \<noteq> length b then False
      else foldl (\<lambda>diff (x, y). diff OR (x XOR y)) 0 (zip a b) = 0)"

section \<open>Lemmas\<close>

lemma crypto_okD:
  assumes "crypto_ok C"
  shows "aead_encrypt C k n p = Some c \<Longrightarrow> aead_decrypt C k n c = Some p \<and> length c = length p + 16" "length (blake3_keyed C k m) = 32"
    "length (ed_public C seed) = 32" "length (ed_sign C seed m) = 64" "ed_verify C (ed_public C seed) m (ed_sign C seed m)"
  using assms unfolding crypto_ok_def by blast+

lemma unwrap_wrap:
  assumes "crypto_ok C" "wrap_key C salt nonce password key = Ok (s, n, c)"
  shows "s = salt" "n = nonce" "unwrap_key C password s n c = Ok key" "length c = length key + 16"
  using assms by (auto simp: wrap_key_def unwrap_key_def dest: crypto_okD(1))

lemma xor_zero: "x XOR y = 0 \<longleftrightarrow> x = (y :: 'a::len word)"
  by (metis bit.xor_self bit.xor_left_self xor.right_neutral)

lemma or_zero: "x OR y = 0 \<longleftrightarrow> x = 0 \<and> y = (0 :: 'a::len word)"
  by (auto simp: bit_eq_iff bit_simps)

lemma ct_fold: "length a = length b \<Longrightarrow> foldl (\<lambda>diff (x, y). diff OR (x XOR y)) d (zip a b) = (0 :: u8) \<longleftrightarrow> d = 0 \<and> a = b"
  by (induction a b arbitrary: d rule: list_induct2) (auto simp: or_zero xor_zero)

lemma ct_eq_eq [simp]: "ct_eq a b \<longleftrightarrow> a = b"
  using ct_fold [of a b 0] by (auto simp: ct_eq_def)

lemma field_inject:
  assumes "field a @ r = field b @ s" "length a < 2 ^ 64" "length b < 2 ^ 64"
  shows "a = b \<and> r = s"
proof -
  have w: "(word_of_nat (length a) :: u64) = word_of_nat (length b)" and r: "a @ r = b @ s"
    using assms(1) by (simp_all add: field_def)
  have small: "unat (word_of_nat n :: u64) = n" if "n < 2 ^ 64" for n using that by (simp add: unat_of_nat take_bit_nat_eq_self)
  have "length a = length b" using arg_cong [OF w, of unat] small [OF assms(2)] small [OF assms(3)] by (simp only:)
  then show ?thesis using r by simp
qed

lemma absorb_value_inject:
  assumes "absorb_value t k b a = absorb_value t' k' b' a'" "length t < 2 ^ 64" "length t' < 2 ^ 64"
    and "length b < 2 ^ 64" "length b' < 2 ^ 64" "length a < 2 ^ 64" "length a' < 2 ^ 64"
  shows "t = t' \<and> k = k' \<and> b = b' \<and> a = a'"
proof -
  have "field (as_bytes t) @ akey_into_bytes k @ field b @ field a = field (as_bytes t') @ akey_into_bytes k' @ field b' @ field a'"
    using assms(1) by (simp add: absorb_value_def)
  then have t: "t = t'" and "akey_into_bytes k @ field b @ field a = akey_into_bytes k' @ field b' @ field a'"
    using field_inject [of "as_bytes t" _ "as_bytes t'"] assms(2,3) by simp_all
  then have k: "k = k'" and "field b @ field a @ [] = field b' @ field a' @ []" by (simp_all add: akey_into_bytes_def)
  then have "b = b'" "field a @ [] = field a' @ []" using field_inject [of b "field a @ []" b' "field a' @ []"] assms(4,5) by simp_all
  then show ?thesis using t k field_inject [of a "[]" a' "[]"] assms(6,7) by simp
qed

lemma control_message_inject:
  assumes "control_message e u g p = control_message e' u' g' p'" "length u < 2 ^ 64" "length u' < 2 ^ 64"
    and "length g < 2 ^ 64" "length g' < 2 ^ 64" "length p < 2 ^ 64" "length p' < 2 ^ 64"
  shows "e = e' \<and> u = u' \<and> g = g' \<and> p = p'"
proof -
  have e: "e = e'" and "field u @ field g @ field p @ [] = field u' @ field g' @ field p' @ []"
    using assms(1) by (simp_all add: control_message_def)
  then have u: "u = u'" and "field g @ field p @ [] = field g' @ field p' @ []"
    using field_inject [of u "field g @ field p @ []" u'] assms(2,3) by simp_all
  then have "g = g'" "field p @ [] = field p' @ []" using field_inject [of g "field p @ []" g' "field p' @ []"] assms(4,5) by simp_all
  then show ?thesis using e u field_inject [of p "[]" p' "[]"] assms(6,7) by simp
qed

section \<open>Properties\<close>

text \<open>C17: a value tag binds what it covers. Of two values sealed under the same key, equal tags mean the same table, the same a-node, the same
  entry bytes and the same access-control list, unless the two sealed messages collide in the hash itself: no two values
  share a message, and no value has the message of a control tag.\<close>

theorem value_tag_binds:
  assumes "length t < 2 ^ 64" "length t' < 2 ^ 64" "length b < 2 ^ 64" "length b' < 2 ^ 64" "length a < 2 ^ 64" "length a' < 2 ^ 64"
    and "blake3_keyed C key (absorb_value t k b a) = blake3_keyed C key (absorb_value t' k' b' a') \<longrightarrow> absorb_value t k b a = absorb_value t' k' b' a'"
  shows "(mac_value C key t k b a = mac_value C key t' k' b' a' \<longleftrightarrow> t = t' \<and> k = k' \<and> b = b' \<and> a = a') \<and>
    absorb_value t k b a \<noteq> control_message e u g p"
proof -
  have "absorb_value t k b a \<noteq> control_message e u g p" by (simp add: absorb_value_def control_message_def)
  then show ?thesis using absorb_value_inject [of t k b a t' k' b' a'] assms unfolding mac_value_def by blast
qed

text \<open>Primitives for concrete inputs: the key derivation returns the password followed by the salt, the cipher prefixes the key, and
  a signature is the padded seed.\<close>

definition pad :: "nat \<Rightarrow> bytes \<Rightarrow> bytes" where
  "pad n bs = take n (bs @ replicate n 0)"

definition clear_crypto :: crypto where
  "clear_crypto = \<lparr>argon2id = (\<lambda>p s. Inr (p @ s)), aead_encrypt = (\<lambda>k n p. Some (pad 16 k @ p)),
     aead_decrypt = (\<lambda>k n c. if take 16 c = pad 16 k then Some (drop 16 c) else None),
     blake3_keyed = (\<lambda>k m. pad 32 (rev m)), blake3 = (\<lambda>m. m), ed_public = pad 32, ed_sign = (\<lambda>s m. pad 64 (pad 32 s)),
     ed_verify = (\<lambda>p m s. s = pad 64 p)\<rparr>"

lemma clear_crypto_ok: "crypto_ok clear_crypto"
  by (auto simp: crypto_ok_def clear_crypto_def pad_def)

theorem value_tag_binds_witness:
  "mac_value clear_crypto [] ''t'' 5 [1] [2] \<noteq> mac_value clear_crypto [] ''t'' 5 [1] [3]"
  using value_tag_binds [of "''t''" "''t''" "[1]" "[1]" "[2]" "[3]" clear_crypto "[]" 5 5]
  by (simp add: clear_crypto_def pad_def absorb_value_def field_def)

end
