(* ===== verification/Perm_Store.thy ===== *)
theory Perm_Store
  imports Integrity
begin

text \<open>
  The users, groups and keyring of a protected database (\<open>perm/store.rs\<close>): two blobs in the metadata table, the epoch and the control
  tag over them, authentication, and the administrative operations. An operation is one engine transaction on the metadata
  table: it returns the committed table, or an error and then nothing is committed. Random bytes (salt and nonce) are
  arguments. Arithmetic on the id allocators and on the epoch is that of a release build, which wraps.
\<close>

abbreviation (input) META_USERS_KEY :: string where "META_USERS_KEY \<equiv> ''users''"
abbreviation (input) META_GROUPS_KEY :: string where "META_GROUPS_KEY \<equiv> ''groups''"
abbreviation (input) META_EPOCH_KEY :: string where "META_EPOCH_KEY \<equiv> ''epoch''"
abbreviation (input) META_CONTROL_MAC_KEY :: string where "META_CONTROL_MAC_KEY \<equiv> ''control_mac''"
abbreviation (input) META_PUBKEY_KEY :: string where "META_PUBKEY_KEY \<equiv> ''pubkey''"

section \<open>Users and groups\<close>

record keyring_entry =
  kr_salt :: bytes
  kr_nonce :: bytes
  kr_wrapped :: bytes

record user_record =
  usr_name :: string
  usr_uid :: u32
  usr_frozen :: bool
  usr_gids :: "u32 list"
  usr_keyring :: "keyring_entry option"

record users =
  next_uid :: u32
  users_list :: "user_record list"

record group_record =
  grp_name :: string
  grp_gid :: u32

record groups =
  next_gid :: u32
  groups_list :: "group_record list"

definition perm_utf8 :: "reader \<Rightarrow> (string \<times> reader) res" where
  "perm_utf8 r =
     andThen (reader_bytes r) (\<lambda>(bs, r).
     andThen (ok_or (from_utf8 bs) (Corrupt ''invalid utf-8 in the permission store'')) (\<lambda>s. Ok (s, r)))"

definition keyring_decode :: "reader \<Rightarrow> (keyring_entry option \<times> reader) res" where
  "keyring_decode r =
     andThen (reader_u8 r) (\<lambda>(tag, r).
       if tag = 0 then Ok (None, r)
       else
         andThen (reader_array SALT_LEN r) (\<lambda>(salt, r).
         andThen (reader_array NONCE_LEN r) (\<lambda>(nonce, r).
         andThen (reader_bytes r) (\<lambda>(wrapped, r).
           Ok (Some \<lparr>kr_salt = salt, kr_nonce = nonce, kr_wrapped = wrapped\<rparr>, r)))))"

definition user_decode :: "reader \<Rightarrow> (user_record \<times> reader) res" where
  "user_decode r =
     andThen (perm_utf8 r) (\<lambda>(name, r).
     andThen (reader_u32 r) (\<lambda>(uid, r).
     andThen (reader_u8 r) (\<lambda>(frozen, r).
     andThen (reader_u32 r) (\<lambda>(gid_count, r).
     andThen (reader_repeat (unat gid_count) reader_u32 r) (\<lambda>(gids, r).
     andThen (keyring_decode r) (\<lambda>(keyring, r).
       Ok (\<lparr>usr_name = name, usr_uid = uid, usr_frozen = (frozen \<noteq> 0), usr_gids = gids, usr_keyring = keyring\<rparr>, r)))))))"

definition users_decode :: "bytes \<Rightarrow> users res" where
  "users_decode data =
     andThen (reader_u32 (reader_new data)) (\<lambda>(next, r).
     andThen (reader_u32 r) (\<lambda>(count, r).
     andThen (reader_repeat (unat count) user_decode r) (\<lambda>(us, r). Ok \<lparr>next_uid = next, users_list = us\<rparr>)))"

definition user_encode :: "bytes \<Rightarrow> user_record \<Rightarrow> bytes" where
  "user_encode buf u =
     (let buf = put_bytes buf (as_bytes (usr_name u));
          buf = put_u32 buf (usr_uid u);
          buf = buf @ [if usr_frozen u then 1 else 0];
          buf = put_u32 buf (word_of_nat (length (usr_gids u)));
          buf = foldl put_u32 buf (usr_gids u)
      in (case usr_keyring u of
            None \<Rightarrow> buf @ [0]
          | Some e \<Rightarrow> put_bytes (buf @ [1] @ kr_salt e @ kr_nonce e) (kr_wrapped e)))"

definition users_encode :: "users \<Rightarrow> bytes" where
  "users_encode us =
     (let buf = put_u32 [] (next_uid us);
          buf = put_u32 buf (word_of_nat (length (users_list us)))
      in foldl user_encode buf (users_list us))"

definition users_load :: "('m, string, bytes) redb \<Rightarrow> 'm \<Rightarrow> users res" where
  "users_load M meta =
     andThen (table_get M meta META_USERS_KEY) (\<lambda>g.
       case g of Some data \<Rightarrow> users_decode data | None \<Rightarrow> Ok \<lparr>next_uid = 2, users_list = []\<rparr>)"

definition users_store :: "('m, string, bytes) redb \<Rightarrow> users \<Rightarrow> 'm \<Rightarrow> 'm res" where
  "users_store M us meta = table_insert M meta META_USERS_KEY (users_encode us)"

definition group_decode :: "reader \<Rightarrow> (group_record \<times> reader) res" where
  "group_decode r =
     andThen (perm_utf8 r) (\<lambda>(name, r).
     andThen (reader_u32 r) (\<lambda>(gid, r). Ok (\<lparr>grp_name = name, grp_gid = gid\<rparr>, r)))"

definition groups_decode :: "bytes \<Rightarrow> groups res" where
  "groups_decode data =
     andThen (reader_u32 (reader_new data)) (\<lambda>(next, r).
     andThen (reader_u32 r) (\<lambda>(count, r).
     andThen (reader_repeat (unat count) group_decode r) (\<lambda>(gs, r). Ok \<lparr>next_gid = next, groups_list = gs\<rparr>)))"

definition groups_encode :: "groups \<Rightarrow> bytes" where
  "groups_encode gs =
     (let buf = put_u32 [] (next_gid gs);
          buf = put_u32 buf (word_of_nat (length (groups_list gs)))
      in foldl (\<lambda>buf g. put_u32 (put_bytes buf (as_bytes (grp_name g))) (grp_gid g)) buf (groups_list gs))"

definition groups_load :: "('m, string, bytes) redb \<Rightarrow> 'm \<Rightarrow> groups res" where
  "groups_load M meta =
     andThen (table_get M meta META_GROUPS_KEY) (\<lambda>g.
       case g of Some data \<Rightarrow> groups_decode data | None \<Rightarrow> Ok \<lparr>next_gid = 2, groups_list = []\<rparr>)"

definition groups_store :: "('m, string, bytes) redb \<Rightarrow> groups \<Rightarrow> 'm \<Rightarrow> 'm res" where
  "groups_store M gs meta = table_insert M meta META_GROUPS_KEY (groups_encode gs)"

section \<open>Secrets and the control plane\<close>

abbreviation (input) SECRET_LEN :: nat where "SECRET_LEN \<equiv> KEY_LEN + SEED_LEN"

text \<open>\<open>copy_from_slice\<close> panics when the lengths differ.\<close>

definition wrap_secrets :: "crypto \<Rightarrow> bytes \<Rightarrow> bytes \<Rightarrow> string \<Rightarrow> bytes \<Rightarrow> bytes \<Rightarrow> (bytes \<times> bytes \<times> bytes) res" where
  "wrap_secrets C salt nonce password key seed =
     (if length key \<noteq> KEY_LEN \<or> length seed \<noteq> SEED_LEN then Panic ''source slice length does not match destination slice length''
      else wrap_key C salt nonce password (key @ seed))"

definition split_secrets :: "bytes \<Rightarrow> (bytes \<times> bytes) res" where
  "split_secrets plaintext =
     (if length plaintext \<noteq> SECRET_LEN then Err (Corrupt ''the wrapped secrets have the wrong length'')
      else Ok (take KEY_LEN plaintext, drop KEY_LEN plaintext))"

definition blob_or_empty :: "('m, string, bytes) redb \<Rightarrow> 'm \<Rightarrow> string \<Rightarrow> bytes res" where
  "blob_or_empty M meta key = andThen (table_get M meta key) (\<lambda>g. Ok (case g of Some b \<Rightarrow> b | None \<Rightarrow> []))"

definition read_pubkey_bytes :: "('m, string, bytes) redb \<Rightarrow> 'm \<Rightarrow> bytes res" where
  "read_pubkey_bytes M meta = blob_or_empty M meta META_PUBKEY_KEY"

definition load_pubkey :: "('m, string, bytes) redb \<Rightarrow> 'm \<Rightarrow> bytes res" where
  "load_pubkey M meta =
     andThen (read_pubkey_bytes M meta) (\<lambda>b.
       if length b = PUBKEY_LEN then Ok b else Err (Corrupt ''the public verification key is missing or malformed''))"

definition read_epoch :: "('m, string, bytes) redb \<Rightarrow> 'm \<Rightarrow> u64 res" where
  "read_epoch M meta =
     andThen (table_get M meta META_EPOCH_KEY) (\<lambda>g.
       case g of
         Some b \<Rightarrow> if length b = 8 then Ok (from_be_bytes b) else Err (Corrupt ''the control epoch has the wrong length'')
       | None \<Rightarrow> Ok 0)"

definition seal_control :: "crypto \<Rightarrow> ('m, string, bytes) redb \<Rightarrow> bytes \<Rightarrow> 'm \<Rightarrow> 'm res" where
  "seal_control C M key meta =
     andThen (blob_or_empty M meta META_USERS_KEY) (\<lambda>us.
     andThen (blob_or_empty M meta META_GROUPS_KEY) (\<lambda>gs.
     andThen (read_pubkey_bytes M meta) (\<lambda>pubkey.
     andThen (read_epoch M meta) (\<lambda>old.
       let epoch = old + 1 in
       andThen (table_insert M meta META_EPOCH_KEY (be_bytes epoch)) (\<lambda>meta.
         table_insert M meta META_CONTROL_MAC_KEY (mac_control C key epoch us gs pubkey))))))"

definition verify_control :: "crypto \<Rightarrow> ('m, string, bytes) redb \<Rightarrow> bytes \<Rightarrow> 'm \<Rightarrow> unit res" where
  "verify_control C M key meta =
     andThen (blob_or_empty M meta META_USERS_KEY) (\<lambda>us.
     andThen (blob_or_empty M meta META_GROUPS_KEY) (\<lambda>gs.
     andThen (read_pubkey_bytes M meta) (\<lambda>pubkey.
     andThen (read_epoch M meta) (\<lambda>epoch.
     andThen (table_get M meta META_CONTROL_MAC_KEY) (\<lambda>g.
       if (case g of Some tag \<Rightarrow> ct_eq tag (mac_control C key epoch us gs pubkey) | None \<Rightarrow> False) then Ok ()
       else Err (Tampered ''the permission store failed its integrity check''))))))"

definition is_protected :: "('m, string, bytes) redb \<Rightarrow> 'm \<Rightarrow> bool res" where
  "is_protected M meta = andThen (features_list M meta) (\<lambda>names. Ok (''permissions'' \<in> set names))"

section \<open>Authentication\<close>

definition find_user :: "string \<Rightarrow> users \<Rightarrow> user_record option" where
  "find_user name us = find (\<lambda>u. usr_name u = name) (users_list us)"

definition find_group :: "string \<Rightarrow> groups \<Rightarrow> group_record option" where
  "find_group name gs = find (\<lambda>g. grp_name g = name) (groups_list gs)"

definition authenticate :: "crypto \<Rightarrow> ('m, string, bytes) redb \<Rightarrow> string \<Rightarrow> string \<Rightarrow> 'm \<Rightarrow> session res" where
  "authenticate C M user password meta =
     andThen (users_load M meta) (\<lambda>us.
     andThen (ok_or (find_user user us) AuthenticationFailed) (\<lambda>u.
     andThen (ok_or (usr_keyring u) AuthenticationFailed) (\<lambda>kr.
     andThen (unwrap_key C password (kr_salt kr) (kr_nonce kr) (kr_wrapped kr)) (\<lambda>secret.
     andThen (split_secrets secret) (\<lambda>(key, seed).
     andThen (verify_control C M key meta) (\<lambda>_.
       Ok \<lparr>ses_name = usr_name u, ses_uid = usr_uid u, ses_gids = usr_gids u, ses_key = key, ses_sign_seed = seed\<rparr>))))))"

text \<open>\<open>iter_mut().find(..)\<close> and an update of what it finds.\<close>

fun update_first :: "('a \<Rightarrow> bool) \<Rightarrow> ('a \<Rightarrow> 'a) \<Rightarrow> 'a list \<Rightarrow> 'a list" where
  "update_first P f [] = []"
| "update_first P f (x # xs) = (if P x then f x # xs else x # update_first P f xs)"

definition change_user_password ::
  "crypto \<Rightarrow> ('m, string, bytes) redb \<Rightarrow> bytes \<Rightarrow> bytes \<Rightarrow> session \<Rightarrow> string \<Rightarrow> 'm \<Rightarrow> 'm res" where
  "change_user_password C M salt nonce s new_password meta =
     andThen (wrap_secrets C salt nonce new_password (ses_key s) (ses_sign_seed s)) (\<lambda>(salt, nonce, wrapped).
     andThen (users_load M meta) (\<lambda>us.
     andThen (ok_or (find (\<lambda>u. usr_uid u = ses_uid s) (users_list us)) (Corrupt ''the authenticated user is missing from the store'')) (\<lambda>_.
       let kr = \<lparr>kr_salt = salt, kr_nonce = nonce, kr_wrapped = wrapped\<rparr>;
           us = us\<lparr>users_list := update_first (\<lambda>u. usr_uid u = ses_uid s) (\<lambda>u. u\<lparr>usr_keyring := Some kr\<rparr>) (users_list us)\<rparr>
       in andThen (users_store M us meta) (seal_control C M (ses_key s)))))"

section \<open>Administration\<close>

definition is_protected_user :: "u32 \<Rightarrow> bool" where
  "is_protected_user uid \<longleftrightarrow> uid = MASTER_UID \<or> uid = GUEST_UID"

definition is_protected_group :: "u32 \<Rightarrow> bool" where
  "is_protected_group gid \<longleftrightarrow> gid = MASTER_GID \<or> gid = SUPER_GID"

definition user_exists_error :: "string \<Rightarrow> adb_error" where
  "user_exists_error name = CannotAccess (''a user named '' @ quoted name @ '' already exists'')"

definition group_exists_error :: "string \<Rightarrow> adb_error" where
  "group_exists_error name = CannotAccess (''a group named '' @ quoted name @ '' already exists'')"

definition no_user_error :: "string \<Rightarrow> adb_error" where
  "no_user_error name = CannotAccess (''no user named '' @ quoted name)"

definition no_group_error :: "string \<Rightarrow> adb_error" where
  "no_group_error name = CannotAccess (''no group named '' @ quoted name)"

definition push_group :: "string \<Rightarrow> groups \<Rightarrow> groups" where
  "push_group name gs =
     gs\<lparr>next_gid := next_gid gs + 1, groups_list := groups_list gs @ [\<lparr>grp_name = name, grp_gid = next_gid gs\<rparr>]\<rparr>"

definition add_user ::
  "crypto \<Rightarrow> ('m, string, bytes) redb \<Rightarrow> bytes \<Rightarrow> bytes \<Rightarrow> bytes \<Rightarrow> bytes \<Rightarrow> string \<Rightarrow> string \<Rightarrow> bool \<Rightarrow> 'm \<Rightarrow> 'm res" where
  "add_user C M salt nonce key seed name password create_group meta =
     andThen (wrap_secrets C salt nonce password key seed) (\<lambda>(salt, nonce, wrapped).
     andThen (users_load M meta) (\<lambda>us.
       if find_user name us \<noteq> None then Err (user_exists_error name)
       else
         andThen
           (if create_group then
              andThen (groups_load M meta) (\<lambda>gs.
                if find_group name gs \<noteq> None then Err (group_exists_error name)
                else andThen (groups_store M (push_group name gs) meta) (\<lambda>meta. Ok ([next_gid gs], meta)))
            else Ok ([], meta))
           (\<lambda>(gids, meta).
             let u = \<lparr>usr_name = name, usr_uid = next_uid us, usr_frozen = False, usr_gids = gids,
                      usr_keyring = Some \<lparr>kr_salt = salt, kr_nonce = nonce, kr_wrapped = wrapped\<rparr>\<rparr>;
                 us = us\<lparr>next_uid := next_uid us + 1, users_list := users_list us @ [u]\<rparr>
             in andThen (users_store M us meta) (seal_control C M key))))"

definition add_group :: "crypto \<Rightarrow> ('m, string, bytes) redb \<Rightarrow> bytes \<Rightarrow> string \<Rightarrow> 'm \<Rightarrow> 'm res" where
  "add_group C M key name meta =
     andThen (groups_load M meta) (\<lambda>gs.
       if find_group name gs \<noteq> None then Err (group_exists_error name)
       else andThen (groups_store M (push_group name gs) meta) (seal_control C M key))"

definition rename_user :: "crypto \<Rightarrow> ('m, string, bytes) redb \<Rightarrow> bytes \<Rightarrow> string \<Rightarrow> string \<Rightarrow> 'm \<Rightarrow> 'm res" where
  "rename_user C M key old new meta =
     andThen (users_load M meta) (\<lambda>us.
       if find_user new us \<noteq> None then Err (user_exists_error new)
       else
         andThen (ok_or (find_user old us) (no_user_error old)) (\<lambda>u.
           if is_protected_user (usr_uid u)
           then Err (PermissionDenied (''the built-in user '' @ quoted old @ '' cannot be renamed''))
           else
             andThen (users_store M (us\<lparr>users_list := update_first (\<lambda>u. usr_name u = old) (\<lambda>u. u\<lparr>usr_name := new\<rparr>) (users_list us)\<rparr>) meta)
               (seal_control C M key)))"

definition rename_group :: "crypto \<Rightarrow> ('m, string, bytes) redb \<Rightarrow> bytes \<Rightarrow> string \<Rightarrow> string \<Rightarrow> 'm \<Rightarrow> 'm res" where
  "rename_group C M key old new meta =
     andThen (groups_load M meta) (\<lambda>gs.
       if find_group new gs \<noteq> None then Err (group_exists_error new)
       else
         andThen (ok_or (find_group old gs) (no_group_error old)) (\<lambda>g.
           if is_protected_group (grp_gid g)
           then Err (PermissionDenied (''the built-in group '' @ quoted old @ '' cannot be renamed''))
           else
             andThen (groups_store M (gs\<lparr>groups_list := update_first (\<lambda>g. grp_name g = old) (\<lambda>g. g\<lparr>grp_name := new\<rparr>) (groups_list gs)\<rparr>) meta)
               (seal_control C M key)))"

definition assign :: "crypto \<Rightarrow> ('m, string, bytes) redb \<Rightarrow> bytes \<Rightarrow> string \<Rightarrow> string \<Rightarrow> 'm \<Rightarrow> 'm res" where
  "assign C M key user grp meta =
     andThen (users_load M meta) (\<lambda>us.
     andThen (groups_load M meta) (\<lambda>gs.
     andThen (ok_or (find_group grp gs) (no_group_error grp)) (\<lambda>g.
     andThen (ok_or (find_user user us) (no_user_error user)) (\<lambda>u.
       if usr_frozen u then Err (Frozen user)
       else if grp_gid g \<in> set (usr_gids u) then Ok meta
       else
         andThen (users_store M (us\<lparr>users_list := update_first (\<lambda>u. usr_name u = user) (\<lambda>u. u\<lparr>usr_gids := usr_gids u @ [grp_gid g]\<rparr>) (users_list us)\<rparr>) meta)
           (seal_control C M key)))))"

definition unassign :: "crypto \<Rightarrow> ('m, string, bytes) redb \<Rightarrow> bytes \<Rightarrow> string \<Rightarrow> string \<Rightarrow> 'm \<Rightarrow> 'm res" where
  "unassign C M key user grp meta =
     andThen (users_load M meta) (\<lambda>us.
     andThen (groups_load M meta) (\<lambda>gs.
     andThen (ok_or (find_group grp gs) (no_group_error grp)) (\<lambda>g.
     andThen (ok_or (find_user user us) (no_user_error user)) (\<lambda>u.
       if grp_gid g \<in> set (usr_gids u) then
         andThen (users_store M (us\<lparr>users_list := update_first (\<lambda>u. usr_name u = user)
             (\<lambda>u. u\<lparr>usr_gids := filter (\<lambda>c. c \<noteq> grp_gid g) (usr_gids u)\<rparr>) (users_list us)\<rparr>) meta)
           (seal_control C M key)
       else Ok meta))))"

definition list_users :: "('m, string, bytes) redb \<Rightarrow> 'm \<Rightarrow> string list res" where
  "list_users M meta = andThen (users_load M meta) (\<lambda>us. Ok (sort (map usr_name (users_list us))))"

definition list_groups :: "('m, string, bytes) redb \<Rightarrow> 'm \<Rightarrow> string list res" where
  "list_groups M meta = andThen (groups_load M meta) (\<lambda>gs. Ok (sort (map grp_name (groups_list gs))))"

definition user_groups :: "('m, string, bytes) redb \<Rightarrow> string \<Rightarrow> 'm \<Rightarrow> string list res" where
  "user_groups M user meta =
     andThen (users_load M meta) (\<lambda>us.
     andThen (groups_load M meta) (\<lambda>gs.
     andThen (ok_or (find_user user us) (no_user_error user)) (\<lambda>u.
       Ok (sort (map grp_name (filter (\<lambda>g. grp_gid g \<in> set (usr_gids u)) (groups_list gs)))))))"

definition uid_of :: "('m, string, bytes) redb \<Rightarrow> 'm \<Rightarrow> string \<Rightarrow> u32 option res" where
  "uid_of M meta name = andThen (users_load M meta) (\<lambda>us. Ok (map_option usr_uid (find_user name us)))"

definition gid_of :: "('m, string, bytes) redb \<Rightarrow> 'm \<Rightarrow> string \<Rightarrow> u32 option res" where
  "gid_of M meta name = andThen (groups_load M meta) (\<lambda>gs. Ok (map_option grp_gid (find_group name gs)))"

definition name_of_user :: "('m, string, bytes) redb \<Rightarrow> 'm \<Rightarrow> u32 \<Rightarrow> string option res" where
  "name_of_user M meta uid =
     andThen (users_load M meta) (\<lambda>us. Ok (map_option usr_name (find (\<lambda>u. usr_uid u = uid) (users_list us))))"

definition name_of_group :: "('m, string, bytes) redb \<Rightarrow> 'm \<Rightarrow> u32 \<Rightarrow> string option res" where
  "name_of_group M meta gid =
     andThen (groups_load M meta) (\<lambda>gs. Ok (map_option grp_name (find (\<lambda>g. grp_gid g = gid) (groups_list gs))))"

definition group_members :: "('m, string, bytes) redb \<Rightarrow> string \<Rightarrow> 'm \<Rightarrow> string list res" where
  "group_members M grp meta =
     andThen (users_load M meta) (\<lambda>us.
     andThen (groups_load M meta) (\<lambda>gs.
     andThen (ok_or (find_group grp gs) (no_group_error grp)) (\<lambda>g.
       Ok (sort (map usr_name (filter (\<lambda>u. grp_gid g \<in> set (usr_gids u)) (users_list us)))))))"

text \<open>The metadata part of \<open>remove_group\<close>, which yields the id to strip from the access-control lists.\<close>

definition remove_group_meta :: "crypto \<Rightarrow> ('m, string, bytes) redb \<Rightarrow> bytes \<Rightarrow> string \<Rightarrow> 'm \<Rightarrow> (u32 \<times> 'm) res" where
  "remove_group_meta C M key name meta =
     andThen (groups_load M meta) (\<lambda>gs.
     andThen (ok_or (find_group name gs) (no_group_error name)) (\<lambda>g.
       let gid = grp_gid g in
       if is_protected_group gid
       then Err (PermissionDenied (''the built-in group '' @ quoted name @ '' cannot be removed''))
       else
         andThen (users_load M meta) (\<lambda>us.
         andThen (users_store M (us\<lparr>users_list := map (\<lambda>u. u\<lparr>usr_gids := filter (\<lambda>c. c \<noteq> gid) (usr_gids u)\<rparr>) (users_list us)\<rparr>) meta) (\<lambda>meta.
         andThen (groups_store M (gs\<lparr>groups_list := filter (\<lambda>g. grp_gid g \<noteq> gid) (groups_list gs)\<rparr>) meta) (\<lambda>meta.
         andThen (seal_control C M key meta) (\<lambda>meta. Ok (gid, meta)))))))"

text \<open>\<open>remove_group\<close> on both tables.\<close>

definition remove_group :: "build \<Rightarrow> crypto \<Rightarrow> ('m, string, bytes) redb \<Rightarrow> ('n, bytes, bytes) redb \<Rightarrow> bytes \<Rightarrow> string \<Rightarrow> 'm \<times> 'n \<Rightarrow> ('m \<times> 'n) res" where
  "remove_group B C M N key name st =
     andThen (remove_group_meta C M key name (fst st)) (\<lambda>(gid, meta).
       let (r, inodes) = strip_group B N gid (snd st)
       in andThen r (\<lambda>_. Ok (meta, inodes)))"

definition forget_user :: "crypto \<Rightarrow> ('m, string, bytes) redb \<Rightarrow> bytes \<Rightarrow> u32 \<Rightarrow> 'm \<Rightarrow> 'm res" where
  "forget_user C M key uid meta =
     andThen (users_load M meta) (\<lambda>us.
     andThen (users_store M (us\<lparr>users_list := filter (\<lambda>u. usr_uid u \<noteq> uid) (users_list us)\<rparr>) meta)
       (seal_control C M key))"

section \<open>The round trips\<close>

definition keyring_bytes :: "keyring_entry option \<Rightarrow> bytes" where
  "keyring_bytes kr = (case kr of None \<Rightarrow> [0] | Some e \<Rightarrow> [1] @ kr_salt e @ kr_nonce e @ put_bytes [] (kr_wrapped e))"

definition keyring_ok :: "keyring_entry option \<Rightarrow> bool" where
  "keyring_ok kr \<longleftrightarrow> (\<forall>e. kr = Some e \<longrightarrow> length (kr_salt e) = SALT_LEN \<and> length (kr_nonce e) = NONCE_LEN \<and> length (kr_wrapped e) < 2 ^ 32)"

definition user_bytes :: "user_record \<Rightarrow> bytes" where
  "user_bytes u = put_bytes [] (as_bytes (usr_name u)) @ put_u32 [] (usr_uid u) @ [if usr_frozen u then 1 else 0] @
     put_u32 [] (word_of_nat (length (usr_gids u))) @ concat (map (put_u32 []) (usr_gids u)) @ keyring_bytes (usr_keyring u)"

definition user_ok :: "user_record \<Rightarrow> bool" where
  "user_ok u \<longleftrightarrow> text_ok (usr_name u) \<and> length (usr_gids u) < 2 ^ 32 \<and> keyring_ok (usr_keyring u)"

definition users_bytes :: "users \<Rightarrow> bytes" where
  "users_bytes us = put_u32 [] (next_uid us) @ put_u32 [] (word_of_nat (length (users_list us))) @ concat (map user_bytes (users_list us))"

definition users_ok :: "users \<Rightarrow> bool" where
  "users_ok us \<longleftrightarrow> length (users_list us) < 2 ^ 32 \<and> (\<forall>u \<in> set (users_list us). user_ok u) \<and> length (users_bytes us) < usize_bound"

definition group_bytes :: "group_record \<Rightarrow> bytes" where
  "group_bytes g = put_bytes [] (as_bytes (grp_name g)) @ put_u32 [] (grp_gid g)"

definition groups_bytes :: "groups \<Rightarrow> bytes" where
  "groups_bytes gs = put_u32 [] (next_gid gs) @ put_u32 [] (word_of_nat (length (groups_list gs))) @ concat (map group_bytes (groups_list gs))"

definition groups_ok :: "groups \<Rightarrow> bool" where
  "groups_ok gs \<longleftrightarrow> length (groups_list gs) < 2 ^ 32 \<and> (\<forall>g \<in> set (groups_list gs). text_ok (grp_name g)) \<and> length (groups_bytes gs) < usize_bound"

lemma foldl_append_map: "(\<And>b x. f b x = b @ g x) \<Longrightarrow> foldl f b xs = b @ concat (map g xs)"
  by (induction xs arbitrary: b) auto

lemma user_encode_eq: "user_encode buf u = buf @ user_bytes u"
proof -
  have "put_bytes buf bs = buf @ put_bytes [] bs" for buf bs using put_bytes_append [of buf bs] .
  then show ?thesis
    by (simp add: user_encode_def user_bytes_def keyring_bytes_def put_u32_def foldl_append_map [of put_u32 "put_u32 []"] put_bytes_def split: option.splits)
qed

lemma users_encode_eq: "users_encode us = users_bytes us"
  using foldl_append_map [of user_encode user_bytes, OF user_encode_eq] by (simp add: users_encode_def users_bytes_def put_u32_def)

lemma groups_encode_eq: "groups_encode gs = groups_bytes gs"
proof -
  have "put_u32 (put_bytes b (as_bytes (grp_name g))) (grp_gid g) = b @ group_bytes g" for b g
    using put_bytes_append [of b "as_bytes (grp_name g)"] by (simp add: group_bytes_def put_u32_def)
  then show ?thesis by (simp add: groups_encode_def groups_bytes_def put_u32_def foldl_append_map [where g = group_bytes])
qed

interpretation perm_text: codec "\<lambda>s. put_bytes [] (as_bytes s)" perm_utf8 text_ok
  using text_codec by (simp add: perm_utf8_def [abs_def])

lemma array_codec: "codec (\<lambda>b. b) (reader_array n) (\<lambda>b. length b = n)"
  by unfold_locales (simp add: reader_array_def reader_take_unread)

interpretation keyring_codec: codec keyring_bytes keyring_decode keyring_ok
proof (rule codecI)
  fix kr r rest assume kr: "keyring_ok kr" and l: "left r (keyring_bytes kr @ rest)"
  show "\<exists>r'. reads_off keyring_decode r kr rest r'"
  proof (cases kr)
    case None
    then obtain r1 where "reads_off reader_u8 r 0 rest r1" using u8_codec.step [OF TrueI, of r 0 rest] l by (auto simp: keyring_bytes_def)
    then show ?thesis using None by (auto simp: reads_off_def keyring_decode_def)
  next
    case (Some e)
    then have ok: "length (kr_salt e) = SALT_LEN" "length (kr_nonce e) = NONCE_LEN" "length (kr_wrapped e) < 2 ^ 32"
      using kr by (simp_all add: keyring_ok_def)
    obtain r1 where r1: "reads_off reader_u8 r 1 (kr_salt e @ kr_nonce e @ put_bytes [] (kr_wrapped e) @ rest) r1"
      using u8_codec.step [OF TrueI, of r 1] l Some by (auto simp: keyring_bytes_def)
    obtain r2 where r2: "reads_off (reader_array SALT_LEN) r1 (kr_salt e) (kr_nonce e @ put_bytes [] (kr_wrapped e) @ rest) r2"
      using codec.step [OF array_codec ok(1)] r1 unfolding reads_off_def by blast
    obtain r3 where r3: "reads_off (reader_array NONCE_LEN) r2 (kr_nonce e) (put_bytes [] (kr_wrapped e) @ rest) r3"
      using codec.step [OF array_codec ok(2)] r2 unfolding reads_off_def by blast
    obtain r4 where "reads_off reader_bytes r3 (kr_wrapped e) rest r4" using bytes_codec.step [OF ok(3)] r3 unfolding reads_off_def by blast
    then show ?thesis using r1 r2 r3 Some by (auto simp: reads_off_def keyring_decode_def)
  qed
qed

interpretation user_codec: codec user_bytes user_decode user_ok
proof (rule codecI)
  fix u r rest assume u: "user_ok u" and l: "left r (user_bytes u @ rest)"
  let ?f = "(if usr_frozen u then 1 else 0) :: u8" and ?n = "word_of_nat (length (usr_gids u)) :: u32"
  let ?gs = "concat (map (put_u32 []) (usr_gids u)) @ keyring_bytes (usr_keyring u) @ rest"
  have ok: "text_ok (usr_name u)" "keyring_ok (usr_keyring u)" "unat ?n = length (usr_gids u)"
    using u by (simp_all add: user_ok_def unat_of_nat take_bit_nat_eq_self)
  obtain r1 where r1: "reads_off perm_utf8 r (usr_name u) (put_u32 [] (usr_uid u) @ [?f] @ put_u32 [] ?n @ ?gs) r1"
    using perm_text.step [OF ok(1)] l by (auto simp: user_bytes_def)
  obtain r2 where r2: "reads_off reader_u32 r1 (usr_uid u) ([?f] @ put_u32 [] ?n @ ?gs) r2"
    using u32_codec.step [OF TrueI] r1 unfolding reads_off_def by blast
  obtain r3 where r3: "reads_off reader_u8 r2 ?f (put_u32 [] ?n @ ?gs) r3"
    using u8_codec.step [OF TrueI] r2 unfolding reads_off_def by blast
  obtain r4 where r4: "reads_off reader_u32 r3 ?n ?gs r4" using u32_codec.step [OF TrueI] r3 unfolding reads_off_def by blast
  obtain r5 where r5: "reads_off (reader_repeat (length (usr_gids u)) reader_u32) r4 (usr_gids u) (keyring_bytes (usr_keyring u) @ rest) r5"
    using u32_codec.steps [of "usr_gids u" r4] r4 unfolding reads_off_def by blast
  obtain r6 where "reads_off keyring_decode r5 (usr_keyring u) rest r6" using keyring_codec.step [OF ok(2)] r5 unfolding reads_off_def by blast
  then show "\<exists>r'. reads_off user_decode r u rest r'"
    using r1 r2 r3 r4 r5 ok(3) by (auto simp: reads_off_def user_decode_def)
qed

interpretation group_codec: codec group_bytes group_decode "\<lambda>g. text_ok (grp_name g)"
proof (rule codecI)
  fix g r rest assume g: "text_ok (grp_name g)" and l: "left r (group_bytes g @ rest)"
  obtain r1 where r1: "reads_off perm_utf8 r (grp_name g) (put_u32 [] (grp_gid g) @ rest) r1"
    using perm_text.step [OF g] l by (auto simp: group_bytes_def)
  obtain r2 where "reads_off reader_u32 r1 (grp_gid g) rest r2" using u32_codec.step [OF TrueI] r1 unfolding reads_off_def by blast
  then show "\<exists>r'. reads_off group_decode r g rest r'" using r1 by (auto simp: reads_off_def group_decode_def)
qed

text \<open>A count-prefixed table of records with an allocator in front, as both blobs are.\<close>

context codec
begin

lemma counted_table:
  assumes "length xs < 2 ^ 32" "\<forall>x \<in> set xs. valid x"
    and "length (put_u32 [] nxt @ put_u32 [] (word_of_nat (length xs)) @ concat (map enc xs)) < usize_bound"
  shows "andThen (reader_u32 (reader_new (put_u32 [] nxt @ put_u32 [] (word_of_nat (length xs)) @ concat (map enc xs)))) (\<lambda>(next, r).
    andThen (reader_u32 r) (\<lambda>(count, r). andThen (reader_repeat (unat count) dec r) (\<lambda>(ys, r). f next ys))) = f nxt xs"
proof -
  let ?n = "word_of_nat (length xs) :: u32" and ?b = "put_u32 [] nxt @ put_u32 [] (word_of_nat (length xs)) @ concat (map enc xs)"
  have n: "unat ?n = length xs" using assms(1) by (simp add: unat_of_nat take_bit_nat_eq_self)
  have "left (reader_new ?b) (put_u32 [] nxt @ put_u32 [] ?n @ concat (map enc xs) @ [])" using assms(3) by (simp add: left_def)
  then obtain r1 where r1: "reads_off reader_u32 (reader_new ?b) nxt (put_u32 [] ?n @ concat (map enc xs) @ []) r1"
    using u32_codec.step [OF TrueI] by blast
  then obtain r2 where r2: "reads_off reader_u32 r1 ?n (concat (map enc xs) @ []) r2" using u32_codec.step [OF TrueI] unfolding reads_off_def by blast
  then obtain r3 where "reads_off (reader_repeat (length xs) dec) r2 xs [] r3" using steps [OF assms(2)] unfolding reads_off_def by blast
  then show ?thesis using r1 r2 n by (auto simp: reads_off_def)
qed

end

lemma users_decode_bytes: "users_ok us \<Longrightarrow> users_decode (users_bytes us) = Ok us"
  using user_codec.counted_table [of "users_list us" "next_uid us" "\<lambda>next us. Ok \<lparr>next_uid = next, users_list = us\<rparr>"]
  by (simp del: andThen_Ok_iff add: users_ok_def users_decode_def users_bytes_def)

lemma groups_decode_bytes: "groups_ok gs \<Longrightarrow> groups_decode (groups_bytes gs) = Ok gs"
  using group_codec.counted_table [of "groups_list gs" "next_gid gs" "\<lambda>next gs. Ok \<lparr>next_gid = next, groups_list = gs\<rparr>"]
  by (simp del: andThen_Ok_iff add: groups_ok_def groups_decode_def groups_bytes_def)

end
