(* ===== verification/Protected.thy ===== *)
theory Protected
  imports Table_Ops Perm_Store
begin

text \<open>
  The write context and the mutations of a table in the build with the permission system (\<open>txn/context/ctx.rs\<close>, \<open>txn/context/table.rs\<close>
  under \<open>feature = "permissions"\<close>). The context of the default build is extended by the metadata table and by the a-nodes already
  verified in this mutation; what does not change during a mutation (the tables' operations, the table name, the time, the principal)
  is the record \<open>penv\<close>. A read may verify an integrity tag and remember that it did, so reads are operations here. A definition
  \<open>p_f\<close> is the function \<open>f\<close> of the source in this build; its counterpart in the default build is \<open>f\<close> or \<open>ctx_f\<close>.
\<close>

section \<open>State\<close>

record ('t, 'n) penv =
  pe_data :: "('t, akey, bytes) redb"
  pe_inodes :: "('n, bytes, bytes) redb"
  pe_build :: build
  pe_crypto :: crypto
  pe_table :: string
  pe_now :: i64
  pe_principal :: principal

record ('t, 'n) pctx =
  pc_ctx :: "'t ctx"
  pc_inodes :: 'n
  pc_verified :: "akey set"

text \<open>An operation of the default context, or of the metadata table, on the whole.\<close>

definition onCtx :: "('t ctx, 'a) op \<Rightarrow> (('t, 'n) pctx, 'a) op" where
  "onCtx f p = (let (r, c) = f (pc_ctx p) in (r, p\<lparr>pc_ctx := c\<rparr>))"

definition onInodes :: "('n, 'a) op \<Rightarrow> (('t, 'n) pctx, 'a) op" where
  "onInodes f p = (let (r, n) = f (pc_inodes p) in (r, p\<lparr>pc_inodes := n\<rparr>))"

definition invalidate_verified :: "akey \<Rightarrow> (('t, 'n) pctx, unit) op" where
  "invalidate_verified akey p = (Ok (), p\<lparr>pc_verified := pc_verified p - {akey}\<rparr>)"

definition mark_verified :: "akey \<Rightarrow> (('t, 'n) pctx, unit) op" where
  "mark_verified akey p = (Ok (), p\<lparr>pc_verified := insert akey (pc_verified p)\<rparr>)"

definition acl_bytes :: "acl option \<Rightarrow> bytes" where
  "acl_bytes a = (case a of Some a \<Rightarrow> acl_encode a | None \<Rightarrow> [])"

section \<open>Integrity and access\<close>

definition value_tags :: "('t, 'n) penv \<Rightarrow> session \<Rightarrow> akey \<Rightarrow> bytes \<Rightarrow> bytes \<Rightarrow> bytes \<times> bytes" where
  "value_tags E s akey entry acl =
     (mac_value (pe_crypto E) (ses_key s) (pe_table E) akey entry acl,
      sign_value (pe_crypto E) (ses_sign_seed s) (pe_table E) akey entry acl)"

definition ctx_verify_integrity :: "('t, 'n) penv \<Rightarrow> akey \<Rightarrow> bytes \<Rightarrow> (('t, 'n) pctx, unit) op" where
  "ctx_verify_integrity E akey entry p =
     (case pe_principal E of
        User s \<Rightarrow>
          if akey \<in> pc_verified p then (Ok (), p)
          else
            bindOp (readOp (\<lambda>p. read_meta (pe_build E) (pe_inodes E) (pc_inodes p) (pe_table E) akey)) (\<lambda>(acl, mac, _).
              let expected = mac_value (pe_crypto E) (ses_key s) (pe_table E) akey entry (acl_bytes acl) in
              if (case mac of Some mac \<Rightarrow> ct_eq mac expected | None \<Rightarrow> False) then mark_verified akey
              else liftOp (Err (Tampered (''integrity check failed for an a-node in table '' @ quoted (pe_table E))))) p
      | _ \<Rightarrow> (Ok (), p))"

definition ctx_check :: "('t, 'n) penv \<Rightarrow> akey \<Rightarrow> rights \<Rightarrow> (('t, 'n) pctx, unit) op" where
  "ctx_check E akey needed =
     readOp (\<lambda>p. andThen (read_acl (pe_build E) (pe_inodes E) (pc_inodes p) (pe_table E) akey) (\<lambda>acl.
       authorize (pe_principal E) akey acl needed))"

definition p_put_entry :: "('t, 'n) penv \<Rightarrow> akey \<Rightarrow> bytes \<Rightarrow> (('t, 'n) pctx, unit) op" where
  "p_put_entry E akey entry =
     seqOp (onCtx (put_entry (pe_data E) akey entry))
       (seqOp (invalidate_verified akey)
         (case pe_principal E of
            User s \<Rightarrow>
              onInodes (stamp_and_seal (pe_build E) (pe_inodes E) (pe_table E) akey (pe_now E)
                (if akey \<noteq> akey_ROOT then Some (ses_uid s) else None) (value_tags E s akey entry))
          | _ \<Rightarrow> onInodes (inode_touch (pe_build E) (pe_inodes E) (pe_table E) akey (pe_now E))))"

definition p_put_file_edit :: "('t, 'n) penv \<Rightarrow> akey \<Rightarrow> bytes \<Rightarrow> (('t, 'n) pctx, unit) op" where
  "p_put_file_edit E akey entry p =
     (if ctx_buffering (pc_ctx p)
      then seqOp (invalidate_verified akey) (onCtx (put_buf (wb_file_put akey entry))) p
      else p_put_entry E akey entry p)"

definition p_remove_entry :: "('t, 'n) penv \<Rightarrow> akey \<Rightarrow> (('t, 'n) pctx, unit) op" where
  "p_remove_entry E akey =
     seqOp (onCtx (\<lambda>c. set_data (table_remove (pe_data E) (ctx_data c) akey) c))
       (seqOp (invalidate_verified akey)
         (seqOp (onInodes (inode_forget (pe_inodes E) (pe_table E) akey))
           (onCtx (put_buf (wb_forget akey)))))"

definition p_read_verified :: "('t, 'n) penv \<Rightarrow> akey \<Rightarrow> (('t, 'n) pctx, bytes option) op" where
  "p_read_verified E akey p =
     (case wb_file_get akey (ctx_buf (pc_ctx p)) of
        Some entry \<Rightarrow> (Ok (Some entry), p)
      | None \<Rightarrow>
          bindOp (readOp (\<lambda>p. read_entry (pe_data E) (ctx_data (pc_ctx p)) akey)) (\<lambda>entry.
            case entry of
              Some bs \<Rightarrow> seqOp (ctx_verify_integrity E akey bs) (retOp (Some bs))
            | None \<Rightarrow> retOp None) p)"

definition p_with_entry :: "('t, 'n) penv \<Rightarrow> akey \<Rightarrow> (bytes \<Rightarrow> 'r res) \<Rightarrow> (('t, 'n) pctx, 'r option) op" where
  "p_with_entry E akey f p =
     (case wb_file_get akey (ctx_buf (pc_ctx p)) of
        Some entry \<Rightarrow> (andThen (f entry) (\<lambda>r. Ok (Some r)), p)
      | None \<Rightarrow>
          bindOp (readOp (\<lambda>p. table_get (pe_data E) (ctx_data (pc_ctx p)) akey)) (\<lambda>g.
            case g of
              None \<Rightarrow> retOp None
            | Some entry \<Rightarrow> seqOp (ctx_verify_integrity E akey entry) (liftOp (andThen (f entry) (\<lambda>r. Ok (Some r))))) p)"

definition p_child :: "('t, 'n) penv \<Rightarrow> akey \<Rightarrow> string \<Rightarrow> (('t, 'n) pctx, akey option) op" where
  "p_child E parent name p =
     (case buffered_dir (pc_ctx p) parent of
        Some children \<Rightarrow> (Ok (bt_get children name), p)
      | None \<Rightarrow>
          bindOp (p_with_entry E parent (\<lambda>entry. entry_child entry name)) (\<lambda>r. retOp (Option.bind r (\<lambda>x. x))) p)"

definition p_kind :: "('t, 'n) penv \<Rightarrow> akey \<Rightarrow> (('t, 'n) pctx, entry_kind option) op" where
  "p_kind E akey p =
     (if buffered_dir (pc_ctx p) akey \<noteq> None then (Ok (Some Dir), p)
      else p_with_entry E akey (\<lambda>entry. andThen (entry_split entry) (\<lambda>(kind, _). Ok kind)) p)"

definition p_dir_children :: "('t, 'n) penv \<Rightarrow> akey \<Rightarrow> (('t, 'n) pctx, children) op" where
  "p_dir_children E akey p =
     (case buffered_dir (pc_ctx p) akey of
        Some children \<Rightarrow> (Ok children, p)
      | None \<Rightarrow>
          bindOp (p_with_entry E akey entry_children) (\<lambda>r.
            retOp (case r of Some children \<Rightarrow> children | None \<Rightarrow> [])) p)"

definition p_cascade_children :: "('t, 'n) penv \<Rightarrow> akey \<Rightarrow> (('t, 'n) pctx, akey list option) op" where
  "p_cascade_children E akey p =
     (case buffered_dir (pc_ctx p) akey of
        Some children \<Rightarrow> (Ok (Some (map snd children)), p)
      | None \<Rightarrow> p_with_entry E akey entry_cascade p)"

definition p_edit_dir :: "('t, 'n) penv \<Rightarrow> akey \<Rightarrow> (children \<Rightarrow> children) \<Rightarrow> (('t, 'n) pctx, unit) op" where
  "p_edit_dir E parent f p =
     bindOp
       (if buffered_dir (pc_ctx p) parent \<noteq> None then retOp None
        else bindOp (p_dir_children E parent) (\<lambda>m. retOp (Some m)))
       (\<lambda>seed. onCtx (\<lambda>c.
           let existing = map_of (dirs (ctx_buf c)) parent in
           case (seed, existing) of
             (None, None) \<Rightarrow> (Panic ''the parent is buffered'', c)
           | (_, Some children) \<Rightarrow> put_buf (wb_write (AList.update parent (f children))) c
           | (Some loaded, None) \<Rightarrow> put_buf (wb_write (AList.update parent (f loaded))) c)) p"

definition p_dir_link :: "('t, 'n) penv \<Rightarrow> akey \<Rightarrow> string \<Rightarrow> akey \<Rightarrow> (('t, 'n) pctx, unit) op" where
  "p_dir_link E parent name child = p_edit_dir E parent (bt_insert name child)"

definition p_dir_unlink :: "('t, 'n) penv \<Rightarrow> akey \<Rightarrow> string \<Rightarrow> (('t, 'n) pctx, unit) op" where
  "p_dir_unlink E parent name = p_edit_dir E parent (bt_remove name)"

definition stamp_new_dir_acl :: "('t, 'n) penv \<Rightarrow> akey \<Rightarrow> (('t, 'n) pctx, unit) op" where
  "stamp_new_dir_acl E akey =
     (case pe_principal E of
        User s \<Rightarrow>
          if akey \<noteq> akey_ROOT
          then onInodes (set_default_acl (pe_build E) (pe_inodes E) (pe_table E) akey (ses_uid s))
          else retOp ()
      | _ \<Rightarrow> retOp ())"

text \<open>The subtree is walked along stored child keys, as in \<open>cascade_delete\<close>, so it takes fuel.\<close>

primrec check_deletable :: "nat \<Rightarrow> ('t, 'n) penv \<Rightarrow> akey \<Rightarrow> (('t, 'n) pctx, unit) op" where
  "check_deletable 0 E akey = liftOp Diverge"
| "check_deletable (Suc fuel) E akey =
     seqOp (ctx_check E akey Delete)
       (bindOp (p_kind E akey) (\<lambda>kind.
          if kind = Some Dir
          then bindOp (p_dir_children E akey) (\<lambda>children. forOp children (\<lambda>e. check_deletable fuel E (snd e)))
          else retOp ()))"

fun p_resolve_from :: "('t, 'n) penv \<Rightarrow> akey \<Rightarrow> apath \<Rightarrow> (('t, 'n) pctx, akey option) op" where
  "p_resolve_from E akey [] = retOp (Some akey)"
| "p_resolve_from E akey (name # names) =
     seqOp (ctx_check E akey Access)
       (bindOp (p_child E akey name) (\<lambda>next.
          case next of
            Some child \<Rightarrow> p_resolve_from E child names
          | None \<Rightarrow> retOp None))"

definition p_resolve :: "('t, 'n) penv \<Rightarrow> apath \<Rightarrow> (('t, 'n) pctx, akey option) op" where
  "p_resolve E path = p_resolve_from E akey_ROOT path"

definition ctx_acl :: "('t, 'n) penv \<Rightarrow> akey \<Rightarrow> (('t, 'n) pctx, acl option) op" where
  "ctx_acl E akey = readOp (\<lambda>p. read_acl (pe_build E) (pe_inodes E) (pc_inodes p) (pe_table E) akey)"

definition write_acl :: "('t, 'n) penv \<Rightarrow> akey \<Rightarrow> acl \<Rightarrow> (('t, 'n) pctx, unit) op" where
  "write_acl E akey a =
     seqOp (invalidate_verified akey) (onInodes (inode_set_acl (pe_build E) (pe_inodes E) (pe_table E) akey a))"

definition reseal_integrity :: "('t, 'n) penv \<Rightarrow> akey \<Rightarrow> (('t, 'n) pctx, unit) op" where
  "reseal_integrity E akey =
     (case pe_principal E of
        User s \<Rightarrow>
          bindOp (readOp (\<lambda>p. case wb_file_get akey (ctx_buf (pc_ctx p)) of
              Some buffered \<Rightarrow> Ok (Some buffered)
            | None \<Rightarrow> read_entry (pe_data E) (ctx_data (pc_ctx p)) akey)) (\<lambda>entry.
            case entry of
              None \<Rightarrow> retOp ()
            | Some entry \<Rightarrow>
                bindOp (ctx_acl E akey) (\<lambda>acl.
                  let (mac, sig) = value_tags E s akey entry (acl_bytes acl)
                  in seqOp (onInodes (seal_mac (pe_build E) (pe_inodes E) (pe_table E) akey mac))
                       (onInodes (seal_sig (pe_build E) (pe_inodes E) (pe_table E) akey sig))))
      | _ \<Rightarrow> retOp ())"

section \<open>Directories\<close>

definition p_put_dir :: "('t, 'n) penv \<Rightarrow> akey \<Rightarrow> children \<Rightarrow> (('t, 'n) pctx, unit) op" where
  "p_put_dir E akey m p =
     (if ctx_buffering (pc_ctx p) then seqOp (stamp_new_dir_acl E akey) (onCtx (buffer_dir akey m)) p
      else p_put_entry E akey (dir_entry (encode_dir m)) p)"

definition p_flush_buffered :: "('t, 'n) penv \<Rightarrow> (akey \<times> children) list \<Rightarrow> (akey \<times> bytes) list \<Rightarrow> (('t, 'n) pctx, unit) op" where
  "p_flush_buffered E ds fs =
     seqOp (forOp ds (\<lambda>(akey, m). p_put_entry E akey (dir_entry (encode_dir m))))
       (forOp fs (\<lambda>(akey, entry). p_put_entry E akey entry))"

definition p_link_child :: "('t, 'n) penv \<Rightarrow> akey \<Rightarrow> string \<Rightarrow> akey \<Rightarrow> (('t, 'n) pctx, unit) op" where
  "p_link_child E parent name child =
     seqOp (onCtx ctx_bump_structure) (\<lambda>p.
       if ctx_buffering (pc_ctx p) then p_dir_link E parent name child p
       else bindOp (p_dir_children E parent) (\<lambda>m. p_put_dir E parent (bt_insert name child m)) p)"

definition p_unlink_child :: "('t, 'n) penv \<Rightarrow> akey \<Rightarrow> string \<Rightarrow> (('t, 'n) pctx, unit) op" where
  "p_unlink_child E parent name =
     seqOp (onCtx ctx_bump_structure) (\<lambda>p.
       if ctx_buffering (pc_ctx p) then p_dir_unlink E parent name p
       else bindOp (p_dir_children E parent) (\<lambda>m. p_put_dir E parent (bt_remove name m)) p)"

definition p_ensure_root :: "('t, 'n) penv \<Rightarrow> (('t, 'n) pctx, unit) op" where
  "p_ensure_root E =
     bindOp (onCtx (readOp (\<lambda>c. has_entry (pe_data E) c akey_ROOT))) (\<lambda>present.
       if \<not> present then p_put_dir E akey_ROOT [] else retOp ())"

fun p_ensure_dir_from :: "('t, 'n) penv \<Rightarrow> akey \<Rightarrow> apath \<Rightarrow> (('t, 'n) pctx, akey) op" where
  "p_ensure_dir_from E akey [] = retOp akey"
| "p_ensure_dir_from E akey (name # names) =
     seqOp (ctx_check E akey Access)
       (bindOp (p_child E akey name) (\<lambda>found.
          case found of
            Some child \<Rightarrow>
              bindOp (p_kind E child) (\<lambda>kind.
                if kind \<noteq> Some Dir then
                  liftOp (Err (CannotAccess (quoted name @ '' is a file, not a directory'')))
                else p_ensure_dir_from E child names)
          | None \<Rightarrow>
              seqOp (ctx_check E akey Modify)
                (bindOp (onCtx generate_key) (\<lambda>child.
                 seqOp (p_put_dir E child [])
                   (seqOp (p_link_child E akey name child) (p_ensure_dir_from E child names))))))"

definition p_ensure_dir :: "('t, 'n) penv \<Rightarrow> apath \<Rightarrow> (('t, 'n) pctx, akey) op" where
  "p_ensure_dir E path = seqOp (p_ensure_root E) (p_ensure_dir_from E akey_ROOT path)"

section \<open>Subtrees\<close>

primrec p_cascade_delete :: "nat \<Rightarrow> ('t, 'n) penv \<Rightarrow> akey \<Rightarrow> (('t, 'n) pctx, unit) op" where
  "p_cascade_delete 0 E akey = liftOp Diverge"
| "p_cascade_delete (Suc fuel) E akey =
     bindOp (p_cascade_children E akey) (\<lambda>children.
       case children of
         None \<Rightarrow> retOp ()
       | Some children \<Rightarrow> seqOp (forOp children (p_cascade_delete fuel E)) (p_remove_entry E akey))"

primrec p_deep_copy :: "nat \<Rightarrow> ('t, 'n) penv \<Rightarrow> akey \<Rightarrow> (('t, 'n) pctx, akey) op" where
  "p_deep_copy 0 E akey = liftOp Diverge"
| "p_deep_copy (Suc fuel) E akey =
     seqOp (ctx_check E akey Access)
       (bindOp (onCtx generate_key) (\<lambda>fresh.
        bindOp (p_kind E akey) (\<lambda>kind.
        bindOp (liftOp (ok_or kind (Corrupt ''copying a missing a-node''))) (\<lambda>kind.
        seqOp
          (case kind of
             File \<Rightarrow>
               bindOp (p_read_verified E akey) (\<lambda>entry.
               bindOp (liftOp (ok_or entry (Corrupt ''copying a missing a-node''))) (\<lambda>entry.
               p_put_entry E fresh entry))
           | Dir \<Rightarrow>
               bindOp (p_dir_children E akey) (\<lambda>children.
               bindOp (mapOp (\<lambda>e. bindOp (p_deep_copy fuel E (snd e)) (\<lambda>k. retOp (fst e, k))) children)
                 (\<lambda>copied. p_put_dir E fresh (foldl (\<lambda>m e. bt_insert (fst e) (snd e) m) [] copied))))
          (retOp fresh)))))"

section \<open>Files\<close>

definition p_store_blob_into :: "nat \<Rightarrow> ('t, 'n) penv \<Rightarrow> apath \<Rightarrow> bytes \<Rightarrow> (('t, 'n) pctx, unit) op" where
  "p_store_blob_into fuel E path value_blob =
     bindOp (liftOp (split_last_or_panic path)) (\<lambda>(parent_path, name).
     bindOp (p_ensure_dir E parent_path) (\<lambda>parent.
     seqOp (ctx_check E parent Access)
       (bindOp (p_child E parent name) (\<lambda>found.
        bindOp
          (case found of
             Some node \<Rightarrow>
               bindOp (p_kind E node) (\<lambda>kind.
                 if kind = Some File then seqOp (ctx_check E node Modify) (retOp node)
                 else
                   seqOp (check_deletable fuel E node)
                     (seqOp (ctx_check E parent Modify)
                       (seqOp (p_cascade_delete fuel E node)
                         (bindOp (onCtx generate_key) (\<lambda>fresh. seqOp (p_link_child E parent name fresh) (retOp fresh))))))
           | None \<Rightarrow>
               seqOp (ctx_check E parent Modify)
                 (bindOp (onCtx generate_key) (\<lambda>fresh. seqOp (p_link_child E parent name fresh) (retOp fresh))))
          (\<lambda>akey. p_put_entry E akey (file_entry value_blob))))))"

definition p_store_value_into :: "nat \<Rightarrow> ('t, 'n) penv \<Rightarrow> apath \<Rightarrow> vnode \<Rightarrow> (('t, 'n) pctx, unit) op" where
  "p_store_value_into fuel E path v = p_store_blob_into fuel E path (blob_encode v)"

definition p_resolve_and_read :: "('t, 'n) penv \<Rightarrow> apath \<Rightarrow> (('t, 'n) pctx, akey option \<times> bytes option) op" where
  "p_resolve_and_read E path =
     bindOp (p_resolve E path) (\<lambda>akey.
     bindOp (case akey of Some k \<Rightarrow> p_read_verified E k | None \<Rightarrow> retOp None) (\<lambda>entry.
     retOp (akey, entry)))"

text \<open>A caller's key hint is ignored here, so \<open>resolve_target\<close> is \<open>p_resolve_and_read\<close>.\<close>

definition p_put_scalar_into :: "nat \<Rightarrow> chrono \<Rightarrow> ('t, 'n) penv \<Rightarrow> apath \<Rightarrow> vpath \<Rightarrow> scalar \<Rightarrow> (('t, 'n) pctx, unit) op" where
  "p_put_scalar_into fuel C E path at scalar =
     bindOp (p_resolve_and_read E path) (\<lambda>(akey, entry).
       case (akey, entry) of
         (Some akey, Some entry) \<Rightarrow>
           seqOp (ctx_check E akey Modify)
             (bindOp (liftOp (patch_scalar C entry at scalar)) (\<lambda>(patched, entry).
               if patched then p_put_file_edit E akey entry
               else
                 bindOp (liftOp (entry_split entry)) (\<lambda>(kind, payload).
                 bindOp
                   (case kind of
                      File \<Rightarrow> liftOp (blob_decode C payload)
                    | Dir \<Rightarrow> liftOp (Err (CannotAccess
                        (quoted (apath_display path) @ '' is a directory, not a file''))))
                   (\<lambda>v. let v = snd (set_in v at (Leaf scalar))
                        in p_put_file_edit E akey (file_entry (blob_encode v))))))
       | _ \<Rightarrow> p_store_value_into fuel E path (snd (set_in value_default at (Leaf scalar))))"

definition p_rm_into :: "nat \<Rightarrow> ('t, 'n) penv \<Rightarrow> apath \<Rightarrow> (('t, 'n) pctx, bool) op" where
  "p_rm_into fuel E path =
     bindOp (liftOp (split_last_or_panic path)) (\<lambda>(parent_path, name).
     bindOp (p_resolve E parent_path) (\<lambda>parent.
       case parent of
         None \<Rightarrow> retOp False
       | Some parent \<Rightarrow>
           seqOp (ctx_check E parent Access)
             (bindOp (p_child E parent name) (\<lambda>akey.
               case akey of
                 None \<Rightarrow> retOp False
               | Some akey \<Rightarrow>
                   seqOp (check_deletable fuel E akey)
                     (seqOp (p_cascade_delete fuel E akey)
                       (seqOp (p_unlink_child E parent name) (retOp True)))))))"

definition p_clear_destination :: "nat \<Rightarrow> ('t, 'n) penv \<Rightarrow> akey \<Rightarrow> string \<Rightarrow> (('t, 'n) pctx, unit) op" where
  "p_clear_destination fuel E dst_parent dst_name =
     bindOp (p_child E dst_parent dst_name) (\<lambda>existing.
       case existing of
         Some existing \<Rightarrow> seqOp (check_deletable fuel E existing) (p_cascade_delete fuel E existing)
       | None \<Rightarrow> retOp ())"

definition p_mv_into :: "nat \<Rightarrow> ('t, 'n) penv \<Rightarrow> apath \<Rightarrow> apath \<Rightarrow> (('t, 'n) pctx, unit) op" where
  "p_mv_into fuel E src dst =
     bindOp (liftOp (split_last_or_panic src)) (\<lambda>(src_parent_path, src_name).
     bindOp (liftOp (split_last_or_panic dst)) (\<lambda>(dst_parent_path, dst_name).
     bindOp (p_resolve E src_parent_path) (\<lambda>src_parent.
     bindOp (liftOp (ok_or src_parent (ValueNotFound src))) (\<lambda>src_parent.
     seqOp (ctx_check E src_parent Access)
       (bindOp (p_child E src_parent src_name) (\<lambda>akey.
        bindOp (liftOp (ok_or akey (ValueNotFound src))) (\<lambda>akey.
        seqOp (ctx_check E akey Delete)
          (bindOp (p_ensure_dir E dst_parent_path) (\<lambda>dst_parent.
           seqOp (ctx_check E dst_parent Modify)
             (seqOp (p_clear_destination fuel E dst_parent dst_name)
               (seqOp (p_link_child E dst_parent dst_name akey)
                 (p_unlink_child E src_parent src_name))))))))))))"

definition p_cp_into :: "nat \<Rightarrow> ('t, 'n) penv \<Rightarrow> apath \<Rightarrow> apath \<Rightarrow> (('t, 'n) pctx, unit) op" where
  "p_cp_into fuel E src dst =
     bindOp (liftOp (split_last_or_panic dst)) (\<lambda>(dst_parent_path, dst_name).
     bindOp (p_resolve E src) (\<lambda>src_akey.
     bindOp (liftOp (ok_or src_akey (ValueNotFound src))) (\<lambda>src_akey.
     bindOp (p_ensure_dir E dst_parent_path) (\<lambda>dst_parent.
     seqOp (ctx_check E dst_parent Modify)
       (seqOp (p_clear_destination fuel E dst_parent dst_name)
         (bindOp (p_deep_copy fuel E src_akey) (\<lambda>copy.
            p_link_child E dst_parent dst_name copy)))))))"

section \<open>Access-control lists and owners\<close>

text \<open>The common start of \<open>chown_into\<close> and \<open>set_acl_into\<close>: the a-node, verified, and its list.\<close>

definition acl_target :: "('t, 'n) penv \<Rightarrow> apath \<Rightarrow> (('t, 'n) pctx, akey \<times> acl) op" where
  "acl_target E path =
     bindOp (p_resolve E path) (\<lambda>akey.
     bindOp (liftOp (ok_or akey (ValueNotFound path))) (\<lambda>akey.
       if akey = akey_ROOT then liftOp (Err (PermissionDenied ''the root ACL cannot be changed''))
       else
         seqOp (p_read_verified E akey)
           (bindOp (ctx_acl E akey) (\<lambda>acl.
            bindOp (liftOp (ok_or acl (CannotAccess ''this a-node has no ACL''))) (\<lambda>acl. retOp (akey, acl))))))"

definition chown_into :: "('t, 'n) penv \<Rightarrow> apath \<Rightarrow> u32 \<Rightarrow> (('t, 'n) pctx, unit) op" where
  "chown_into E path new_uid =
     bindOp (acl_target E path) (\<lambda>(akey, acl).
       seqOp (liftOp (authorize_chown (pe_principal E) acl))
         (seqOp (write_acl E akey (acl_set_owner_uid new_uid acl)) (reseal_integrity E akey)))"

definition set_acl_into :: "('t, 'n) penv \<Rightarrow> apath \<Rightarrow> (acl \<Rightarrow> acl) \<Rightarrow> (('t, 'n) pctx, unit) op" where
  "set_acl_into E path f =
     bindOp (acl_target E path) (\<lambda>(akey, acl).
       seqOp (liftOp (authorize (pe_principal E) akey (Some acl) Modify))
         (seqOp (write_acl E akey (f acl)) (reseal_integrity E akey)))"

text \<open>The victims in the order found; \<open>out\<close> is what was collected so far.\<close>

primrec collect_owned :: "nat \<Rightarrow> ('t, 'n) penv \<Rightarrow> akey \<Rightarrow> u32 \<Rightarrow> (akey \<times> string) list \<Rightarrow> (('t, 'n) pctx, (akey \<times> string) list) op" where
  "collect_owned 0 E d uid out = liftOp Diverge"
| "collect_owned (Suc fuel) E d uid out =
     bindOp (p_dir_children E d) (\<lambda>children.
       foldl (\<lambda>m e. bindOp m (\<lambda>out.
           bindOp (ctx_acl E (snd e)) (\<lambda>acl.
             if map_option owner_uid acl = Some uid then retOp (out @ [(d, fst e)])
             else
               bindOp (p_kind E (snd e)) (\<lambda>kind.
                 if kind = Some Dir then collect_owned fuel E (snd e) uid out else retOp out))))
         (retOp out) children)"

definition reap_owned :: "nat \<Rightarrow> ('t, 'n) penv \<Rightarrow> u32 \<Rightarrow> (('t, 'n) pctx, unit) op" where
  "reap_owned fuel E uid =
     bindOp (collect_owned fuel E akey_ROOT uid []) (\<lambda>victims.
       forOp victims (\<lambda>(parent, name).
         bindOp (p_child E parent name) (\<lambda>child.
           case child of
             Some child \<Rightarrow> seqOp (p_cascade_delete fuel E child) (p_unlink_child E parent name)
           | None \<Rightarrow> retOp ())))"

section \<open>A transaction\<close>

text \<open>Every mutation runs in a context of its own, which has verified nothing yet. The databases are those without indexes.\<close>

datatype mutation = Store_Value apath vnode | Put_Scalar apath vpath scalar | Rm apath | Mv apath apath | Cp apath apath

definition new_context :: "(('t, 'n) pctx, unit) op" where
  "new_context p = (Ok (), p\<lparr>pc_verified := {}\<rparr>)"

definition p_mutate :: "nat \<Rightarrow> chrono \<Rightarrow> ('t, 'n) penv \<Rightarrow> mutation \<Rightarrow> (('t, 'n) pctx, unit) op" where
  "p_mutate fuel C E m =
     seqOp new_context
       (case m of
          Store_Value path v \<Rightarrow> p_store_value_into fuel E path v
        | Put_Scalar path at x \<Rightarrow> p_put_scalar_into fuel C E path at x
        | Rm path \<Rightarrow> seqOp (p_rm_into fuel E path) (retOp ())
        | Mv src dst \<Rightarrow> p_mv_into fuel E src dst
        | Cp src dst \<Rightarrow> p_cp_into fuel E src dst)"

text \<open>The flush of \<open>commit\<close>.\<close>

definition p_flush :: "('t, 'n) penv \<Rightarrow> (('t, 'n) pctx, unit) op" where
  "p_flush E p =
     (let ((ds, fs), wb) = wb_take (ctx_buf (pc_ctx p));
          p = p\<lparr>pc_ctx := (pc_ctx p)\<lparr>ctx_buf := wb\<rparr>\<rparr>
      in if ds \<noteq> [] \<or> fs \<noteq> [] then seqOp new_context (p_flush_buffered E ds fs) p else (Ok (), p))"

text \<open>The same transaction in the default build.\<close>

definition mutate :: "nat \<Rightarrow> chrono \<Rightarrow> ('t, akey, bytes) redb \<Rightarrow> mutation \<Rightarrow> ('t ctx, unit) op" where
  "mutate fuel C R m =
     (case m of
        Store_Value path v \<Rightarrow> store_value_into fuel R path v
      | Put_Scalar path at x \<Rightarrow> put_scalar_into fuel C R path None at x
      | Rm path \<Rightarrow> seqOp (rm_into fuel R path) (retOp ())
      | Mv src dst \<Rightarrow> mv_into fuel R src dst
      | Cp src dst \<Rightarrow> cp_into fuel R src dst)"

definition ctx_flush :: "('t, akey, bytes) redb \<Rightarrow> ('t ctx, unit) op" where
  "ctx_flush R c =
     (let ((ds, fs), wb) = wb_take (ctx_buf c); c = c\<lparr>ctx_buf := wb\<rparr>
      in if ds \<noteq> [] \<or> fs \<noteq> [] then flush_buffered R ds fs c else (Ok (), c))"

end
