(* ===== verification/Simulation.thy ===== *)
theory Simulation
  imports Ops
begin

text \<open>
  Refinement between operations on two states: a detailed state with an invariant, and what the abstract program has of it. One operation simulates another when it
  keeps the invariant, whether or not it succeeds, and, when it succeeds, is the other on the abstract states. The detailed program may refuse more. The rules go along
  the combinators of the operations.
\<close>

definition simulates :: "('s \<Rightarrow> bool) \<Rightarrow> ('s \<Rightarrow> 'c) \<Rightarrow> ('s, 'a) op \<Rightarrow> ('c, 'a) op \<Rightarrow> bool" where
  "simulates I a f g \<longleftrightarrow> (\<forall>p r p'. I p \<longrightarrow> f p = (r, p') \<longrightarrow> I p' \<and> (\<forall>x. r = Ok x \<longrightarrow> g (a p) = (Ok x, a p')))"

text \<open>An operation that is a mere check: it leaves the abstract state alone.\<close>

definition silent :: "('s \<Rightarrow> bool) \<Rightarrow> ('s \<Rightarrow> 'c) \<Rightarrow> ('s, 'a) op \<Rightarrow> bool" where
  "silent I a f \<longleftrightarrow> (\<forall>p r p'. I p \<longrightarrow> f p = (r, p') \<longrightarrow> I p' \<and> (\<forall>x. r = Ok x \<longrightarrow> a p' = a p))"

named_theorems refine_intros \<open>refinement, operation by operation\<close>

lemma simulatesI:
  assumes "\<And>p. I p \<Longrightarrow> I (snd (f p)) \<and> (\<forall>x. fst (f p) = Ok x \<longrightarrow> g (a p) = (Ok x, a (snd (f p))))"
  shows "simulates I a f g"
  using assms unfolding simulates_def by fastforce

lemma simulatesD:
  assumes "simulates I a f g" "I p" "f p = (r, p')"
  shows "I p'" "r = Ok x \<Longrightarrow> g (a p) = (Ok x, a p')"
  using assms unfolding simulates_def by blast+

lemma silentD:
  assumes "silent I a f" "I p" "f p = (r, p')"
  shows "I p'" "r = Ok x \<Longrightarrow> a p' = a p"
  using assms unfolding silent_def by blast+

lemma simulates_ret [refine_intros]: "simulates I a (retOp x) (retOp x)"
  by (rule simulatesI) simp

lemma simulates_lift [refine_intros]: "simulates I a (liftOp r) (liftOp r)"
  by (rule simulatesI) simp

lemma simulates_bind [refine_intros]:
  assumes "simulates I a f g" "\<And>x. simulates I a (f' x) (g' x)"
  shows "simulates I a (bindOp f f') (bindOp g g')"
proof (rule simulatesI)
  fix p assume p: "I p"
  obtain r p1 where f: "f p = (r, p1)" by (cases "f p")
  note D = simulatesD [OF assms(1) p f]
  show "I (snd (bindOp f f' p)) \<and> (\<forall>x. fst (bindOp f f' p) = Ok x \<longrightarrow> bindOp g g' (a p) = (Ok x, a (snd (bindOp f f' p))))"
  proof (cases r)
    case (Ok x)
    obtain r2 p2 where f': "f' x p1 = (r2, p2)" by (cases "f' x p1")
    note D' = simulatesD [OF assms(2) D(1) f']
    show ?thesis using f f' Ok D(2) [OF Ok] D' by (cases r2) simp_all
  qed (use f D(1) in simp_all)
qed

lemma simulates_seq [refine_intros]: "simulates I a f g \<Longrightarrow> simulates I a f' g' \<Longrightarrow> simulates I a (seqOp f f') (seqOp g g')"
  unfolding seqOp_def by (rule simulates_bind)

lemma simulates_for [refine_intros]: "(\<And>x. simulates I a (f x) (g x)) \<Longrightarrow> simulates I a (forOp xs f) (forOp xs g)"
  by (induction xs) (simp_all add: refine_intros)

lemma simulates_map [refine_intros]: "(\<And>x. simulates I a (f x) (g x)) \<Longrightarrow> simulates I a (mapOp f xs) (mapOp g xs)"
  by (induction xs) (simp_all add: refine_intros)

lemma simulates_option [refine_intros]: "simulates I a f g \<Longrightarrow> (\<And>x. simulates I a (f' x) (g' x)) \<Longrightarrow>
    simulates I a (case v of None \<Rightarrow> f | Some x \<Rightarrow> f' x) (case v of None \<Rightarrow> g | Some x \<Rightarrow> g' x)"
  by (cases v) simp_all

lemma simulates_prod [refine_intros]: "(\<And>x y. simulates I a (f x y) (g x y)) \<Longrightarrow> simulates I a (case v of (x, y) \<Rightarrow> f x y) (case v of (x, y) \<Rightarrow> g x y)"
  by (cases v) simp

lemma simulates_cond [refine_intros]: "simulates I a f g \<Longrightarrow> simulates I a f' g' \<Longrightarrow> simulates I a (if b then f else f') (if b then g else g')"
  by simp

lemma simulates_if: "simulates I a f g \<Longrightarrow> simulates I a f' g' \<Longrightarrow>
    simulates I a (\<lambda>p. if b (a p) then f p else f' p) (\<lambda>c. if b c then g c else g' c)"
  unfolding simulates_def by (metis)

lemma simulates_guard [refine_intros]: "silent I a c \<Longrightarrow> simulates I a f g \<Longrightarrow> simulates I a (seqOp c f) g"
proof (rule simulatesI)
  fix p assume q: "silent I a c" and f: "simulates I a f g" and p: "I p"
  obtain r p1 where c: "c p = (r, p1)" by (cases "c p")
  note D = silentD [OF q p c]
  show "I (snd (seqOp c f p)) \<and> (\<forall>x. fst (seqOp c f p) = Ok x \<longrightarrow> g (a p) = (Ok x, a (snd (seqOp c f p))))"
  proof (cases r)
    case (Ok x)
    obtain r2 p2 where f2: "f p1 = (r2, p2)" by (cases "f p1")
    show ?thesis using c f2 Ok D(2) [OF Ok] simulatesD [OF f D(1) f2] by simp
  qed (use c D(1) in \<open>simp_all add: seqOp_def\<close>)
qed

lemma silent_bind:
  assumes "silent I a f" "\<And>x. silent I a (f' x)"
  shows "silent I a (bindOp f f')"
  unfolding silent_def
proof (intro allI impI)
  fix p r p' assume p: "I p" and b: "bindOp f f' p = (r, p')"
  obtain r1 p1 where f: "f p = (r1, p1)" by (cases "f p")
  note D = silentD [OF assms(1) p f]
  show "I p' \<and> (\<forall>x. r = Ok x \<longrightarrow> a p' = a p)"
  proof (cases r1)
    case (Ok x)
    then show ?thesis using b f D silentD [OF assms(2) D(1), of x r p'] by simp
  qed (use b f D(1) in auto)
qed

lemma silent_seq: "silent I a f \<Longrightarrow> silent I a f' \<Longrightarrow> silent I a (seqOp f f')"
  unfolding seqOp_def by (rule silent_bind)

lemma silent_ret: "silent I a (retOp x)" "silent I a (liftOp r)" "silent I a (readOp h)"
  by (simp_all add: silent_def)

lemma silent_for: "(\<And>x. silent I a (f x)) \<Longrightarrow> silent I a (forOp xs f)"
  by (induction xs) (simp_all add: silent_ret silent_seq)

lemma silent_read:
  assumes "simulates I a f (readOp g)"
  shows "silent I a f"
  unfolding silent_def
proof (intro allI impI)
  fix p r p' assume p: "I p" and f: "f p = (r, p')"
  note D = simulatesD [OF assms p f]
  show "I p' \<and> (\<forall>x. r = Ok x \<longrightarrow> a p' = a p)" using D(1) D(2) by auto
qed

end
