(* ===== verification/Protected_Laws.thy ===== *)
theory Protected_Laws
  imports Protected Simulation
begin

text \<open>
  What access control and integrity tags do to the mutations. A table is sealed for a session when every entry of the engine carries the
  two tags of its bytes and its access-control list. On a sealed table reads never report tampering, a mutation that
  succeeds has the effect of the same mutation in the default build, and the table is sealed after it, also when it fails.
\<close>

section \<open>Sealed tables\<close>

definition node_sealed :: "('t, 'n) penv \<Rightarrow> session \<Rightarrow> inode_map \<Rightarrow> akey \<Rightarrow> bytes \<Rightarrow> bool" where
  "node_sealed E s I k e \<longleftrightarrow> (\<exists>i. I (pe_table E) k = Some i \<and> (k \<noteq> akey_ROOT \<longrightarrow> ino_acl i \<noteq> None) \<and>
     (ino_mac i, ino_sig i) = map_prod Some Some (value_tags E s k e (acl_bytes (ino_acl i))))"

definition penv_ok :: "('t, 'n) penv \<Rightarrow> session \<Rightarrow> bool" where
  "penv_ok E s \<longleftrightarrow> pe_principal E = User s \<and> permissions (pe_build E) \<and> crypto_ok (pe_crypto E) \<and> redb_ok (pe_data E)"

text \<open>
  A file edited in this transaction waits in the write buffer, and its tags may already be those of the waiting bytes; \<open>X\<close> are further a-nodes
  that are about to be written.
\<close>

abbreviation waiting :: "akey \<Rightarrow> ('t, 'n) pctx \<Rightarrow> bool" where
  "waiting k p \<equiv> wb_file_get k (ctx_buf (pc_ctx p)) \<noteq> None"

definition sealed_but :: "akey set \<Rightarrow> ('t, 'n) penv \<Rightarrow> session \<Rightarrow> ('t, 'n) pctx \<Rightarrow> bool" where
  "sealed_but X E s p \<longleftrightarrow> penv_ok E s \<and> (\<exists>I. holds_inodes (pe_build E) (pe_inodes E) (pc_inodes p) I \<and>
     (\<forall>k e. contents (pe_data E) (ctx_data (pc_ctx p)) k = Some e \<longrightarrow> k \<notin> X \<longrightarrow> \<not> waiting k p \<longrightarrow> node_sealed E s I k e))"

abbreviation psealed :: "('t, 'n) penv \<Rightarrow> session \<Rightarrow> ('t, 'n) pctx \<Rightarrow> bool" where
  "psealed \<equiv> sealed_but {}"

lemma sealed_butE:
  assumes "sealed_but X E s p"
  obtains I where "penv_ok E s" "holds_inodes (pe_build E) (pe_inodes E) (pc_inodes p) I"
    "\<And>k e. contents (pe_data E) (ctx_data (pc_ctx p)) k = Some e \<Longrightarrow> k \<notin> X \<Longrightarrow> \<not> waiting k p \<Longrightarrow> node_sealed E s I k e"
  using assms unfolding sealed_but_def by blast

lemma sealed_butI:
  assumes "penv_ok E s" "holds_inodes (pe_build E) (pe_inodes E) (pc_inodes p) I"
    "\<And>k e. contents (pe_data E) (ctx_data (pc_ctx p)) k = Some e \<Longrightarrow> k \<notin> X \<Longrightarrow> \<not> waiting k p \<Longrightarrow> node_sealed E s I k e"
  shows "sealed_but X E s p"
  using assms unfolding sealed_but_def by blast

lemma penv_okD:
  assumes "penv_ok E s"
  shows "pe_principal E = User s" "permissions (pe_build E)" "crypto_ok (pe_crypto E)" "redb_ok (pe_data E)"
  using assms by (simp_all add: penv_ok_def)

lemma sealed_env: "sealed_but X E s p \<Longrightarrow> penv_ok E s"
  by (simp add: sealed_but_def)

lemma psealed_memo [simp]: "sealed_but X E s (p\<lparr>pc_verified := V\<rparr>) \<longleftrightarrow> sealed_but X E s p"
  by (simp add: sealed_but_def)

text \<open>A change of the buffer that drops no file.\<close>

definition keeps_files :: "'t ctx \<Rightarrow> 't ctx \<Rightarrow> bool" where
  "keeps_files c c' \<longleftrightarrow> ctx_data c' = ctx_data c \<and> (\<forall>k. wb_file_get k (ctx_buf c) \<noteq> None \<longrightarrow> wb_file_get k (ctx_buf c') \<noteq> None)"

lemma psealed_buf:
  assumes "sealed_but X E s p" "keeps_files (pc_ctx p) c"
  shows "sealed_but X E s (p\<lparr>pc_ctx := c\<rparr>)"
proof -
  obtain I where P: "penv_ok E s" "holds_inodes (pe_build E) (pe_inodes E) (pc_inodes p) I"
    "\<And>k e. contents (pe_data E) (ctx_data (pc_ctx p)) k = Some e \<Longrightarrow> k \<notin> X \<Longrightarrow> \<not> waiting k p \<Longrightarrow> node_sealed E s I k e"
    by (rule sealed_butE [OF assms(1)]) blast
  show ?thesis
  proof (rule sealed_butI [OF P(1)])
    show "holds_inodes (pe_build E) (pe_inodes E) (pc_inodes (p\<lparr>pc_ctx := c\<rparr>)) I" using P(2) by simp
    show "node_sealed E s I k e" if "contents (pe_data E) (ctx_data (pc_ctx (p\<lparr>pc_ctx := c\<rparr>))) k = Some e" "k \<notin> X" "\<not> waiting k (p\<lparr>pc_ctx := c\<rparr>)" for k e
      using P(3) [of k e] that assms(2) by (cases "wb_file_get k (ctx_buf (pc_ctx p))") (auto simp: keeps_files_def)
  qed
qed

section \<open>Refinement\<close>

text \<open>An operation of the protected context against one of the default context.\<close>

abbreviation refines :: "('t, 'n) penv \<Rightarrow> session \<Rightarrow> (('t, 'n) pctx, 'a) op \<Rightarrow> ('t ctx, 'a) op \<Rightarrow> bool" where
  "refines E s \<equiv> simulates (psealed E s) pc_ctx"

abbreviation quiet :: "('t, 'n) penv \<Rightarrow> session \<Rightarrow> (('t, 'n) pctx, 'a) op \<Rightarrow> bool" where
  "quiet E s \<equiv> silent (psealed E s) pc_ctx"

lemma simulates_entry_kind [refine_intros]: "simulates I a f g \<Longrightarrow> simulates I a f' g' \<Longrightarrow>
    simulates I a (case v of Dir \<Rightarrow> f | File \<Rightarrow> f') (case v of Dir \<Rightarrow> g | File \<Rightarrow> g')"
  by (cases v) simp_all

lemma refines_onCtx:
  assumes "\<And>c. keeps_files c (snd (g c))"
  shows "refines E s (onCtx g) g"
proof (rule simulatesI)
  fix p assume p: "psealed E s p"
  obtain r c where g: "g (pc_ctx p) = (r, c)" by (cases "g (pc_ctx p)")
  then show "psealed E s (snd (onCtx g p)) \<and> (\<forall>x. fst (onCtx g p) = Ok x \<longrightarrow> g (pc_ctx p) = (Ok x, pc_ctx (snd (onCtx g p))))"
    using psealed_buf [OF p, of c] assms [of "pc_ctx p"] by (simp add: onCtx_def)
qed

section \<open>Reading\<close>

lemma verify_sealed:
  assumes "psealed E s p" "contents (pe_data E) (ctx_data (pc_ctx p)) k = Some e" "\<not> waiting k p"
  shows "\<exists>V. ctx_verify_integrity E k e p = (Ok (), p\<lparr>pc_verified := V\<rparr>)"
proof -
  obtain I where E: "penv_ok E s" and H: "holds_inodes (pe_build E) (pe_inodes E) (pc_inodes p) I" and S: "node_sealed E s I k e"
    using assms by (blast elim: sealed_butE)
  obtain i where i: "I (pe_table E) k = Some i" "ino_mac i = Some (mac_value (pe_crypto E) (ses_key s) (pe_table E) k e (acl_bytes (ino_acl i)))"
    using S by (auto simp: node_sealed_def value_tags_def)
  show ?thesis
  proof (cases "k \<in> pc_verified p")
    case True
    then show ?thesis using penv_okD(1) [OF E] by (auto simp: ctx_verify_integrity_def intro!: exI [where x = "pc_verified p"])
  next
    case False
    then show ?thesis using penv_okD(1) [OF E] i read_meta_holds [OF H, of "pe_table E" k]
      by (auto simp: ctx_verify_integrity_def mark_verified_def Let_def intro!: exI [where x = "insert k (pc_verified p)"])
  qed
qed

lemma refines_with_entry: "refines E s (p_with_entry E k f) (readOp (\<lambda>c. with_entry (pe_data E) c k f))"
proof (rule simulatesI)
  fix p assume p: "psealed E s p"
  note get = redb_get [OF penv_okD(4) [OF sealed_env [OF p]]]
  show "psealed E s (snd (p_with_entry E k f p)) \<and> (\<forall>x. fst (p_with_entry E k f p) = Ok x \<longrightarrow>
      readOp (\<lambda>c. with_entry (pe_data E) c k f) (pc_ctx p) = (Ok x, pc_ctx (snd (p_with_entry E k f p))))"
  proof (cases "wb_file_get k (ctx_buf (pc_ctx p))")
    case None
    show ?thesis
    proof (cases "contents (pe_data E) (ctx_data (pc_ctx p)) k")
      case (Some e)
      obtain V where "ctx_verify_integrity E k e p = (Ok (), p\<lparr>pc_verified := V\<rparr>)" using verify_sealed [OF p Some] None by blast
      then show ?thesis using None Some p by (simp add: p_with_entry_def with_entry_def get)
    qed (use None p in \<open>simp add: p_with_entry_def with_entry_def get\<close>)
  qed (use p in \<open>simp add: p_with_entry_def with_entry_def\<close>)
qed

lemma refines_read_verified [refine_intros]: "refines E s (p_read_verified E k) (readOp (\<lambda>c. read_verified (pe_data E) c k))"
proof (rule simulatesI)
  fix p assume p: "psealed E s p"
  note get = redb_get [OF penv_okD(4) [OF sealed_env [OF p]]]
  show "psealed E s (snd (p_read_verified E k p)) \<and> (\<forall>x. fst (p_read_verified E k p) = Ok x \<longrightarrow>
      readOp (\<lambda>c. read_verified (pe_data E) c k) (pc_ctx p) = (Ok x, pc_ctx (snd (p_read_verified E k p))))"
  proof (cases "wb_file_get k (ctx_buf (pc_ctx p))")
    case None
    show ?thesis
    proof (cases "contents (pe_data E) (ctx_data (pc_ctx p)) k")
      case (Some e)
      obtain V where "ctx_verify_integrity E k e p = (Ok (), p\<lparr>pc_verified := V\<rparr>)" using verify_sealed [OF p Some] None by blast
      then show ?thesis using None Some p by (simp add: p_read_verified_def read_verified_def read_entry_def get)
    qed (use None p in \<open>simp add: p_read_verified_def read_verified_def read_entry_def get\<close>)
  qed (use p in \<open>simp add: p_read_verified_def read_verified_def\<close>)
qed

text \<open>A read that looks into the buffer first, then through \<open>with_entry\<close>.\<close>

lemma refines_buffered:
  assumes "\<And>p. f p = (case buffered_dir (pc_ctx p) k of Some m \<Rightarrow> (Ok (a m), p) | None \<Rightarrow> bindOp (p_with_entry E k h) (\<lambda>r. retOp (b r)) p)"
    and "\<And>c. g c = (case buffered_dir c k of Some m \<Rightarrow> Ok (a m) | None \<Rightarrow> andThen (with_entry (pe_data E) c k h) (\<lambda>r. Ok (b r)))"
  shows "refines E s f (readOp g)"
proof (rule simulatesI)
  fix p assume p: "psealed E s p"
  obtain r p1 where w: "p_with_entry E k h p = (r, p1)" by (cases "p_with_entry E k h p")
  note D = simulatesD [OF refines_with_entry p w]
  show "psealed E s (snd (f p)) \<and> (\<forall>x. fst (f p) = Ok x \<longrightarrow> readOp g (pc_ctx p) = (Ok x, pc_ctx (snd (f p))))"
  proof (cases "buffered_dir (pc_ctx p) k")
    case None
    show ?thesis
    proof (cases r)
      case (Ok x)
      then have "with_entry (pe_data E) (pc_ctx p) k h = Ok x" "pc_ctx p1 = pc_ctx p" using D(2) [OF Ok] unfolding readOp_apply prod.inject by metis+
      then show ?thesis using None w D(1) Ok unfolding assms by simp
    qed (use None w D(1) in \<open>simp_all add: assms(1)\<close>)
  qed (use p in \<open>simp add: assms\<close>)
qed

lemma refines_child [refine_intros]: "refines E s (p_child E k name) (readOp (\<lambda>c. ctx_child (pe_data E) c k name))"
  by (rule refines_buffered [where k = k and a = "\<lambda>m. bt_get m name" and b = "\<lambda>r. Option.bind r (\<lambda>x. x)" and h = "\<lambda>entry. entry_child entry name"])
    (simp_all add: p_child_def ctx_child_def)

lemma refines_dir_children [refine_intros]: "refines E s (p_dir_children E k) (readOp (\<lambda>c. dir_children (pe_data E) c k))"
  by (rule refines_buffered [where k = k and a = "\<lambda>m. m" and b = "\<lambda>r. case r of Some m \<Rightarrow> m | None \<Rightarrow> []" and h = entry_children])
    (simp_all add: p_dir_children_def dir_children_def)

lemma bind_ret: "bindOp f retOp = f"
  by (auto simp: fun_eq_iff bindOp_def split: prod.splits res.splits)

lemma andThen_Ok: "andThen r Ok = r"
  by (cases r) simp_all

lemma refines_cascade_children [refine_intros]: "refines E s (p_cascade_children E k) (readOp (\<lambda>c. cascade_children (pe_data E) c k))"
  by (rule refines_buffered [where k = k and a = "\<lambda>m. Some (map snd m)" and b = "\<lambda>r. r" and h = entry_cascade])
    (simp_all add: p_cascade_children_def cascade_children_def bind_ret andThen_Ok split: option.split)

lemma refines_kind [refine_intros]: "refines E s (p_kind E k) (readOp (\<lambda>c. ctx_kind (pe_data E) c k))"
  by (rule refines_buffered [where k = k and a = "\<lambda>m. Some Dir" and b = "\<lambda>r. r" and h = "\<lambda>entry. andThen (entry_split entry) (\<lambda>(kind, _). Ok kind)"])
    (simp_all add: p_kind_def ctx_kind_def bind_ret andThen_Ok split: option.splits)

lemma quiet_check [refine_intros]: "quiet E s (ctx_check E k needed)"
  unfolding ctx_check_def by (rule silent_ret)

lemma quiet_check_deletable [refine_intros]: "quiet E s (check_deletable fuel E k)"
proof (induction fuel arbitrary: k)
  case (Suc fuel)
  show ?case unfolding check_deletable.simps
    by (intro silent_seq quiet_check silent_bind silent_read [OF refines_kind])
      (simp add: silent_ret silent_bind [OF silent_read [OF refines_dir_children]] silent_for Suc)
qed (simp add: silent_ret)

lemma refines_resolve_from: "refines E s (p_resolve_from E k path) (readOp (\<lambda>c. resolve_from (pe_data E) c k path))"
proof (induction path arbitrary: k)
  case (Cons name names)
  have "refines E s (p_resolve_from E k (name # names))
    (bindOp (readOp (\<lambda>c. ctx_child (pe_data E) c k name)) (\<lambda>next. case next of Some child \<Rightarrow> readOp (\<lambda>c. resolve_from (pe_data E) c child names) | None \<Rightarrow> retOp None))"
    unfolding p_resolve_from.simps by (intro refine_intros Cons)
  moreover have "bindOp (readOp (\<lambda>c. ctx_child (pe_data E) c k name)) (\<lambda>next. case next of Some child \<Rightarrow> readOp (\<lambda>c. resolve_from (pe_data E) c child names) | None \<Rightarrow> retOp None)
    = readOp (\<lambda>c. resolve_from (pe_data E) c k (name # names))"
    by (auto simp: fun_eq_iff bindOp_def split: res.splits option.splits)
  ultimately show ?case by (simp only:)
qed (simp add: simulates_def)

lemma refines_resolve [refine_intros]: "refines E s (p_resolve E path) (readOp (\<lambda>c. ctx_resolve (pe_data E) c path))"
  unfolding p_resolve_def ctx_resolve_def by (rule refines_resolve_from)

section \<open>Writing\<close>

lemma value_tags_length: "crypto_ok (pe_crypto E) \<Longrightarrow> length (fst (value_tags E s k e a)) = 32 \<and> length (snd (value_tags E s k e a)) = 64"
  by (simp add: value_tags_def mac_value_def sign_value_def crypto_okD)

text \<open>Sealing an a-node anew, and changing its entry to what was sealed.\<close>

lemma sealed_update:
  assumes p: "penv_ok E s" "holds_inodes (pe_build E) (pe_inodes E) (pc_inodes p) I"
    and old: "\<And>j e. contents (pe_data E) (ctx_data (pc_ctx p)) j = Some e \<Longrightarrow> j \<notin> X \<Longrightarrow> \<not> waiting j p \<Longrightarrow> node_sealed E s I j e"
    and new: "holds_inodes (pe_build E) (pe_inodes E) (pc_inodes p') (with_inode (pe_table E) k i I)"
    and data: "contents (pe_data E) (ctx_data (pc_ctx p')) = (contents (pe_data E) (ctx_data (pc_ctx p)))(k := v)"
    and buf: "\<And>j. j \<noteq> k \<Longrightarrow> waiting j p \<Longrightarrow> waiting j p'"
    and seal: "\<And>e. v = Some e \<Longrightarrow> \<not> waiting k p' \<Longrightarrow> node_sealed E s (with_inode (pe_table E) k i I) k e"
  shows "sealed_but (X - {k}) E s p'"
proof (rule sealed_butI [OF p(1) new])
  fix j e assume "contents (pe_data E) (ctx_data (pc_ctx p')) j = Some e" "j \<notin> X - {k}" "\<not> waiting j p'"
  then show "node_sealed E s (with_inode (pe_table E) k i I) j e"
    using old [of j e] seal [of e] buf [of j] unfolding data
    by (cases "j = k"; cases "wb_file_get j (ctx_buf (pc_ctx p))") (simp_all add: node_sealed_def)
qed

lemma file_get_forget: "j \<noteq> k \<Longrightarrow> wb_file_get j (wb_file_forget k wb) = wb_file_get j wb" "j \<noteq> k \<Longrightarrow> wb_file_get j (wb_forget k wb) = wb_file_get j wb"
  by (simp_all add: wb_file_get_def wb_file_forget_def wb_forget_def wb_files_dirty_def delete_conv' Let_def)

lemma put_entry_eq:
  assumes "redb_ok R"
  obtains t where "put_entry R k e c = (Ok (), c\<lparr>ctx_data := t, ctx_buf := wb_file_forget k (ctx_buf c)\<rparr>)" "contents R t = (contents R (ctx_data c))(k := Some e)"
proof -
  obtain t where "table_insert R (ctx_data c) k e = Ok t" "contents R t = (contents R (ctx_data c))(k := Some e)" by (rule redb_insert [OF assms])
  then show thesis using that by (simp add: put_entry_def set_data_def put_buf_def)
qed

lemma sealed_inode_sealed:
  assumes "k \<noteq> akey_ROOT \<Longrightarrow> ow \<noteq> None"
  shows "node_sealed E s (with_inode (pe_table E) k (Some (sealed_inode now ow (value_tags E s k e) i)) I) k e"
  using assms by (auto simp: node_sealed_def sealed_inode_def Let_def acl_bytes_def map_prod_def case_prod_beta)

lemma put_entry_sealed:
  assumes "sealed_but X E s p"
  shows "\<exists>p'. p_put_entry E k e p = (Ok (), p') \<and> sealed_but (X - {k}) E s p' \<and> put_entry (pe_data E) k e (pc_ctx p) = (Ok (), pc_ctx p')"
proof -
  obtain I where P: "penv_ok E s" "holds_inodes (pe_build E) (pe_inodes E) (pc_inodes p) I"
    "\<And>k e. contents (pe_data E) (ctx_data (pc_ctx p)) k = Some e \<Longrightarrow> k \<notin> X \<Longrightarrow> \<not> waiting k p \<Longrightarrow> node_sealed E s I k e"
    by (rule sealed_butE [OF assms]) blast
  note E = penv_okD [OF P(1)]
  obtain t where t: "put_entry (pe_data E) k e (pc_ctx p) = (Ok (), (pc_ctx p)\<lparr>ctx_data := t, ctx_buf := wb_file_forget k (ctx_buf (pc_ctx p))\<rparr>)"
    "contents (pe_data E) t = (contents (pe_data E) (ctx_data (pc_ctx p)))(k := Some e)" by (rule put_entry_eq [OF E(4)])
  let ?o = "if k \<noteq> akey_ROOT then Some (ses_uid s) else None"
  let ?i = "Some (sealed_inode (pe_now E) ?o (value_tags E s k e) (inode_of I (pe_table E) k))"
  obtain n where n: "stamp_and_seal (pe_build E) (pe_inodes E) (pe_table E) k (pe_now E) ?o (value_tags E s k e) (pc_inodes p) = (Ok (), n)"
    "holds_inodes (pe_build E) (pe_inodes E) n (with_inode (pe_table E) k ?i I)"
    using stamp_and_seal_updates [OF P(2) E(2), of "value_tags E s k e" "pe_table E" k "pe_now E" ?o] value_tags_length [OF E(3)] P(2) unfolding updates_def by blast
  have "sealed_but (X - {k}) E s p'" if "ctx_data (pc_ctx p') = t" "pc_inodes p' = n" "ctx_buf (pc_ctx p') = wb_file_forget k (ctx_buf (pc_ctx p))" for p'
    by (rule sealed_update [OF P, where k = k and i = ?i and v = "Some e"]) (simp_all add: that n(2) t(2) sealed_inode_sealed file_get_forget)
  then show ?thesis using t(1) n(1) E(1) by (simp add: p_put_entry_def onCtx_def onInodes_def invalidate_verified_def)
qed

lemma refines_put_entry [refine_intros]: "refines E s (p_put_entry E k e) (put_entry (pe_data E) k e)"
proof (rule simulatesI)
  fix p assume "psealed E s p"
  from put_entry_sealed [OF this, of k e] obtain p' where "p_put_entry E k e p = (Ok (), p')" "psealed E s p'" "put_entry (pe_data E) k e (pc_ctx p) = (Ok (), pc_ctx p')"
    by auto
  then show "psealed E s (snd (p_put_entry E k e p)) \<and> (\<forall>x. fst (p_put_entry E k e p) = Ok x \<longrightarrow>
      put_entry (pe_data E) k e (pc_ctx p) = (Ok x, pc_ctx (snd (p_put_entry E k e p))))" by simp
qed

lemma refines_remove_entry [refine_intros]: "refines E s (p_remove_entry E k) (remove_entry (pe_data E) k)"
proof (rule simulatesI)
  fix p assume "psealed E s p"
  then obtain I where P: "penv_ok E s" "holds_inodes (pe_build E) (pe_inodes E) (pc_inodes p) I"
    "\<And>k e. contents (pe_data E) (ctx_data (pc_ctx p)) k = Some e \<Longrightarrow> k \<notin> {} \<Longrightarrow> \<not> waiting k p \<Longrightarrow> node_sealed E s I k e" by (rule sealed_butE) blast
  note E = penv_okD [OF P(1)]
  obtain t where t: "table_remove (pe_data E) (ctx_data (pc_ctx p)) k = Ok t"
    "contents (pe_data E) t = (contents (pe_data E) (ctx_data (pc_ctx p)))(k := None)" by (rule redb_remove [OF E(4)])
  obtain n where n: "inode_forget (pe_inodes E) (pe_table E) k (pc_inodes p) = (Ok (), n)"
    "holds_inodes (pe_build E) (pe_inodes E) n (with_inode (pe_table E) k None I)" using inode_forget_holds [OF P(2)] by blast
  have "psealed E s p'" if "ctx_data (pc_ctx p') = t" "pc_inodes p' = n" "ctx_buf (pc_ctx p') = wb_forget k (ctx_buf (pc_ctx p))" for p'
    using sealed_update [OF P, where X = "{}" and p' = p' and k = k and i = None and v = None] by (simp add: that n(2) t(2) file_get_forget)
  then show "psealed E s (snd (p_remove_entry E k p)) \<and> (\<forall>x. fst (p_remove_entry E k p) = Ok x \<longrightarrow>
      remove_entry (pe_data E) k (pc_ctx p) = (Ok x, pc_ctx (snd (p_remove_entry E k p))))"
    using t(1) n(1) by (simp add: p_remove_entry_def remove_entry_def onCtx_def onInodes_def invalidate_verified_def set_data_def put_buf_def)
qed

lemma quiet_invalidate [refine_intros]: "quiet E s (invalidate_verified k)"
  by (simp add: silent_def invalidate_verified_def)

lemma keeps_files_write: "keeps_files c (snd (put_buf (wb_write f) c))" "keeps_files c (snd (put_buf wb_bump_structure c))" "keeps_files c (snd (put_buf (wb_file_put k e) c))"
  "keeps_files c c"
  by (simp_all add: keeps_files_def put_buf_def wb_file_get_def wb_files_dirty_def wb_write_def wb_bump_structure_def wb_file_put_def update_conv')

lemmas refines_put_buf [refine_intros] =
  refines_onCtx [of "put_buf (wb_write f)" for f, OF keeps_files_write(1)] refines_onCtx [of "put_buf wb_bump_structure", OF keeps_files_write(2)]
  refines_onCtx [of "put_buf (wb_file_put k e)" for k e, OF keeps_files_write(3)]

lemma refines_put_file_edit [refine_intros]: "refines E s (p_put_file_edit E k e) (put_file_edit (pe_data E) k e)"
  unfolding p_put_file_edit_def [abs_def] put_file_edit_def [abs_def] by (intro simulates_if refine_intros)

text \<open>A default access-control list is only stamped on an a-node that has none, so never on one the engine holds.\<close>

lemma quiet_stamp [refine_intros]: "quiet E s (stamp_new_dir_acl E k)"
  unfolding silent_def
proof (intro allI impI)
  fix p r p' assume "psealed E s p" and f: "stamp_new_dir_acl E k p = (r, p')"
  then obtain I where P: "penv_ok E s" "holds_inodes (pe_build E) (pe_inodes E) (pc_inodes p) I"
    "\<And>k e. contents (pe_data E) (ctx_data (pc_ctx p)) k = Some e \<Longrightarrow> \<not> waiting k p \<Longrightarrow> node_sealed E s I k e" by (metis sealed_butE empty_iff)
  note E = penv_okD [OF P(1)]
  let ?i = "inode_of I (pe_table E) k"
  let ?J = "if ino_acl ?i = None then with_inode (pe_table E) k (Some (?i\<lparr>ino_acl := Some (acl_default_for (ses_uid s))\<rparr>)) I else I"
  show "psealed E s p' \<and> (\<forall>x. r = Ok x \<longrightarrow> pc_ctx p' = pc_ctx p)"
  proof (cases "k = akey_ROOT")
    case True
    then have "p' = p" using f E(1) by (simp add: stamp_new_dir_acl_def)
    then show ?thesis using \<open>psealed E s p\<close> by simp
  next
    case False
    obtain n where n: "set_default_acl (pe_build E) (pe_inodes E) (pe_table E) k (ses_uid s) (pc_inodes p) = (Ok (), n)"
      "holds_inodes (pe_build E) (pe_inodes E) n ?J" using set_default_acl_updates [OF P(2) E(2)] by blast
    have "node_sealed E s ?J j e" if "contents (pe_data E) (ctx_data (pc_ctx p)) j = Some e" "\<not> waiting j p" for j e
      using P(3) [OF that] False by (auto simp: node_sealed_def)
    then have "psealed E s (p\<lparr>pc_inodes := n\<rparr>)" using P(1) n(2) by (intro sealed_butI [where I = ?J]) simp_all
    then show ?thesis using f False n(1) E(1) by (auto simp: stamp_new_dir_acl_def onInodes_def)
  qed
qed

section \<open>The mutations\<close>

lemma refines_edit_dir [refine_intros]: "refines E s (p_edit_dir E k f) (edit_dir (pe_data E) k f)"
proof -
  let ?put = "\<lambda>seed c. let existing = map_of (dirs (ctx_buf c)) k in case (seed, existing) of
      (None, None) \<Rightarrow> (Panic ''the parent is buffered'', c)
    | (_, Some children) \<Rightarrow> put_buf (wb_write (AList.update k (f children))) c
    | (Some loaded, None) \<Rightarrow> put_buf (wb_write (AList.update k (f loaded))) c"
  let ?seed = "\<lambda>p. if buffered_dir (pc_ctx p) k \<noteq> None then retOp None p else bindOp (p_dir_children E k) (\<lambda>m. retOp (Some m)) p"
  let ?seed' = "\<lambda>c. if buffered_dir c k \<noteq> None then retOp None c else bindOp (readOp (\<lambda>c. dir_children (pe_data E) c k)) (\<lambda>m. retOp (Some m)) c"
  have "refines E s ?seed ?seed'" by (intro simulates_if refine_intros)
  moreover have "refines E s (onCtx (?put seed)) (?put seed)" for seed
    by (rule refines_onCtx) (simp add: Let_def keeps_files_write split: option.split)
  ultimately have "refines E s (bindOp ?seed (\<lambda>seed. onCtx (?put seed))) (bindOp ?seed' ?put)" by (rule simulates_bind)
  moreover have "p_edit_dir E k f = bindOp ?seed (\<lambda>seed. onCtx (?put seed))"
    by (simp add: fun_eq_iff p_edit_dir_def bindOp_def)
  moreover have "edit_dir (pe_data E) k f = bindOp ?seed' ?put"
  proof
    fix c show "edit_dir (pe_data E) k f c = bindOp ?seed' ?put c"
      by (cases "buffered_dir c k"; cases "dir_children (pe_data E) c k") (simp_all add: edit_dir_def Let_def bindOp_def)
  qed
  ultimately show ?thesis by (simp only:)
qed

lemma refines_put_dir [refine_intros]: "refines E s (p_put_dir E k m) (put_dir (pe_data E) k m)"
  unfolding p_put_dir_def [abs_def] put_dir_def [abs_def] buffer_dir_def by (intro simulates_if refine_intros)

lemma refines_bump [refine_intros]: "refines E s (onCtx ctx_bump_structure) ctx_bump_structure"
  unfolding ctx_bump_structure_def by (rule refines_put_buf(2))

lemma refines_generate [refine_intros]: "refines E s (onCtx generate_key) generate_key"
  by (rule refines_onCtx) (simp add: generate_key_def case_prod_beta Let_def keeps_files_def)

lemma refines_link_child [refine_intros]: "refines E s (p_link_child E k name child) (link_child (pe_data E) k name child)"
  unfolding p_link_child_def link_child_def p_dir_link_def dir_link_def by (intro refine_intros simulates_if)

lemma refines_unlink_child [refine_intros]: "refines E s (p_unlink_child E k name) (unlink_child (pe_data E) k name)"
  unfolding p_unlink_child_def unlink_child_def p_dir_unlink_def dir_unlink_def by (intro refine_intros simulates_if)

lemma refines_ensure_root [refine_intros]: "refines E s (p_ensure_root E) (ensure_root (pe_data E))"
  unfolding p_ensure_root_def ensure_root_def by (intro refine_intros refines_onCtx) (simp add: keeps_files_write)

lemma refines_ensure_dir_from: "refines E s (p_ensure_dir_from E k path) (ensure_dir_from (pe_data E) k path)"
proof (induction path arbitrary: k)
  case (Cons name names)
  show ?case unfolding p_ensure_dir_from.simps ensure_dir_from.simps by (intro refine_intros Cons)
qed (simp add: refine_intros)

lemma refines_ensure_dir [refine_intros]: "refines E s (p_ensure_dir E path) (ensure_dir (pe_data E) path)"
  unfolding p_ensure_dir_def ensure_dir_def by (intro refine_intros refines_ensure_dir_from)

lemma refines_cascade_delete [refine_intros]: "refines E s (p_cascade_delete fuel E k) (cascade_delete fuel (pe_data E) k)"
proof (induction fuel arbitrary: k)
  case (Suc fuel)
  show ?case unfolding p_cascade_delete.simps cascade_delete.simps by (intro refine_intros Suc)
qed (simp add: refine_intros)

lemma refines_deep_copy [refine_intros]: "refines E s (p_deep_copy fuel E k) (deep_copy fuel (pe_data E) k)"
proof (induction fuel arbitrary: k)
  case (Suc fuel)
  show ?case unfolding p_deep_copy.simps deep_copy.simps by (intro refine_intros Suc)
qed (simp add: refine_intros)

lemma refines_store_blob [refine_intros]: "refines E s (p_store_blob_into fuel E path b) (store_blob_into fuel (pe_data E) path b)"
  unfolding p_store_blob_into_def store_blob_into_def by (intro refine_intros)

lemma refines_resolve_and_read [refine_intros]: "refines E s (p_resolve_and_read E path) (readOp (\<lambda>c. resolve_and_read (pe_data E) c path))"
proof -
  let ?g = "bindOp (readOp (\<lambda>c. ctx_resolve (pe_data E) c path)) (\<lambda>akey.
    bindOp (case akey of Some k \<Rightarrow> readOp (\<lambda>c. read_verified (pe_data E) c k) | None \<Rightarrow> retOp None) (\<lambda>entry. retOp (akey, entry)))"
  have "refines E s (p_resolve_and_read E path) ?g" unfolding p_resolve_and_read_def by (intro refine_intros)
  moreover have "?g = readOp (\<lambda>c. resolve_and_read (pe_data E) c path)"
    by (auto simp: fun_eq_iff resolve_and_read_def bindOp_def split: res.splits option.splits)
  ultimately show ?thesis by (simp only:)
qed

lemma refines_put_scalar: "refines E s (p_put_scalar_into fuel C E path at x) (put_scalar_into fuel C (pe_data E) path None at x)"
  unfolding p_put_scalar_into_def put_scalar_into_def resolve_target_def option.case p_store_value_into_def store_value_into_def Let_def
  by (intro refine_intros)

lemma refines_rm: "refines E s (p_rm_into fuel E path) (rm_into fuel (pe_data E) path)"
  unfolding p_rm_into_def rm_into_def by (intro refine_intros)

lemma refines_clear_destination [refine_intros]: "refines E s (p_clear_destination fuel E k name) (clear_destination fuel (pe_data E) k name)"
  unfolding p_clear_destination_def clear_destination_def by (intro refine_intros)

lemma refines_mv: "refines E s (p_mv_into fuel E src dst) (mv_into fuel (pe_data E) src dst)"
  unfolding p_mv_into_def mv_into_def by (intro refine_intros)

lemma refines_cp: "refines E s (p_cp_into fuel E src dst) (cp_into fuel (pe_data E) src dst)"
  unfolding p_cp_into_def cp_into_def by (intro refine_intros)

section \<open>The flush\<close>

text \<open>Writing back what waits seals it, whatever its tags were before.\<close>

lemma for_put_entry_sealed:
  assumes "sealed_but X E s p"
  shows "\<exists>p'. forOp kes (\<lambda>x. p_put_entry E (key x) (e x)) p = (Ok (), p') \<and> sealed_but (X - key ` set kes) E s p' \<and>
    forOp kes (\<lambda>x. put_entry (pe_data E) (key x) (e x)) (pc_ctx p) = (Ok (), pc_ctx p')"
  using assms
proof (induction kes arbitrary: X p)
  case (Cons x kes)
  obtain p1 where p1: "p_put_entry E (key x) (e x) p = (Ok (), p1)" "sealed_but (X - {key x}) E s p1" "put_entry (pe_data E) (key x) (e x) (pc_ctx p) = (Ok (), pc_ctx p1)"
    using put_entry_sealed [OF Cons.prems] by blast
  obtain p2 where p2: "forOp kes (\<lambda>x. p_put_entry E (key x) (e x)) p1 = (Ok (), p2)" "sealed_but (X - {key x} - key ` set kes) E s p2"
    "forOp kes (\<lambda>x. put_entry (pe_data E) (key x) (e x)) (pc_ctx p1) = (Ok (), pc_ctx p2)" using Cons.IH [OF p1(2)] by blast
  have "X - {key x} - key ` set kes = X - key ` set (x # kes)" by auto
  then show ?case using p1 p2 by simp
qed simp

lemma flush_buffered_sealed:
  fixes wb :: write_buffer and V :: "akey set"
  assumes "psealed E s p"
  defines "q \<equiv> p\<lparr>pc_ctx := (pc_ctx p)\<lparr>ctx_buf := wb\<rparr>, pc_verified := V\<rparr>" and "ds \<equiv> dirs (ctx_buf (pc_ctx p))" and "fs \<equiv> files (ctx_buf (pc_ctx p))"
  shows "\<exists>p'. p_flush_buffered E ds fs q = (Ok (), p') \<and> psealed E s p' \<and> flush_buffered (pe_data E) ds fs (pc_ctx q) = (Ok (), pc_ctx p')"
proof -
  obtain I where P: "penv_ok E s" "holds_inodes (pe_build E) (pe_inodes E) (pc_inodes p) I"
    "\<And>k e. contents (pe_data E) (ctx_data (pc_ctx p)) k = Some e \<Longrightarrow> k \<notin> {} \<Longrightarrow> \<not> waiting k p \<Longrightarrow> node_sealed E s I k e"
    by (rule sealed_butE [OF assms(1)]) blast
  have "\<not> waiting k p" if "k \<notin> fst ` set fs" for k
    using that by (auto simp: fs_def wb_file_get_def map_of_eq_None_iff)
  then have "sealed_but (fst ` set fs) E s q" using P unfolding q_def by (intro sealed_butI [where I = I]) auto
  from for_put_entry_sealed [OF this, of ds fst "\<lambda>x. dir_entry (encode_dir (snd x))"]
  obtain p1 where p1: "forOp ds (\<lambda>x. p_put_entry E (fst x) (dir_entry (encode_dir (snd x)))) q = (Ok (), p1)"
    "sealed_but (fst ` set fs - fst ` set ds) E s p1"
    "forOp ds (\<lambda>x. put_entry (pe_data E) (fst x) (dir_entry (encode_dir (snd x)))) (pc_ctx q) = (Ok (), pc_ctx p1)" by auto
  from for_put_entry_sealed [OF p1(2), of fs fst snd]
  obtain p2 where p2: "forOp fs (\<lambda>x. p_put_entry E (fst x) (snd x)) p1 = (Ok (), p2)" "sealed_but (fst ` set fs - fst ` set ds - fst ` set fs) E s p2"
    "forOp fs (\<lambda>x. put_entry (pe_data E) (fst x) (snd x)) (pc_ctx p1) = (Ok (), pc_ctx p2)" by auto
  have "psealed E s p2" using p2(2) by (simp add: Diff_eq_empty_iff [THEN iffD2] Diff_subset)
  then show ?thesis using p1(1,3) p2(1,3) by (simp add: p_flush_buffered_def flush_buffered_def case_prod_beta')
qed

lemma flush_sealed:
  assumes "psealed E s p"
  shows "\<exists>p'. p_flush E p = (Ok (), p') \<and> psealed E s p' \<and> ctx_flush (pe_data E) (pc_ctx p) = (Ok (), pc_ctx p')"
  using flush_buffered_sealed [OF assms, where wb = "snd (wb_take (ctx_buf (pc_ctx p)))" and V = "{}"]
    flush_buffered_sealed [OF assms, where wb = "snd (wb_take (ctx_buf (pc_ctx p)))" and V = "pc_verified p"]
  by (cases "dirs (ctx_buf (pc_ctx p)) = [] \<and> files (ctx_buf (pc_ctx p)) = []")
    (auto simp: p_flush_def ctx_flush_def wb_take_def p_flush_buffered_def flush_buffered_def new_context_def)

lemma quiet_new_context [refine_intros]: "quiet E s new_context"
  by (simp add: silent_def new_context_def)

lemma refines_mutate: "refines E s (p_mutate fuel C E m) (mutate fuel C (pe_data E) m)"
  unfolding p_mutate_def mutate_def p_store_value_into_def store_value_into_def
  by (cases m) (simp_all add: simulates_guard quiet_new_context refines_store_blob refines_put_scalar refines_rm refines_mv refines_cp simulates_seq simulates_ret)

lemma waiting_after_flush:
  assumes "ctx_flush R c = (Ok (), c')" "redb_ok R"
  shows "wb_file_get k (ctx_buf c') = None"
proof -
  have put: "files (ctx_buf c2) = []" if "forOp kes (\<lambda>x. put_entry R (key x) (e x)) c1 = (Ok (), c2)" "files (ctx_buf c1) = []" for kes c1 c2 and key :: "'x \<Rightarrow> akey" and e
    using that
  proof (induction kes arbitrary: c1)
    case (Cons x kes)
    obtain t where "put_entry R (key x) (e x) c1 = (Ok (), c1\<lparr>ctx_data := t, ctx_buf := wb_file_forget (key x) (ctx_buf c1)\<rparr>)" by (rule put_entry_eq [OF assms(2)])
    then show ?case using Cons.IH [of "c1\<lparr>ctx_data := t, ctx_buf := wb_file_forget (key x) (ctx_buf c1)\<rparr>"] Cons.prems by (simp add: wb_file_forget_def)
  qed simp
  let ?c = "c\<lparr>ctx_buf := snd (wb_take (ctx_buf c))\<rparr>"
  have "files (ctx_buf c') = []"
  proof (cases "dirs (ctx_buf c) \<noteq> [] \<or> files (ctx_buf c) \<noteq> []")
    case True
    then have "flush_buffered R (dirs (ctx_buf c)) (files (ctx_buf c)) ?c = (Ok (), c')" using assms(1) by (auto simp: ctx_flush_def wb_take_def)
    then obtain c1 where c1: "forOp (dirs (ctx_buf c)) (\<lambda>x. put_entry R (fst x) (dir_entry (encode_dir (snd x)))) ?c = (Ok (), c1)"
      "forOp (files (ctx_buf c)) (\<lambda>x. put_entry R (fst x) (snd x)) c1 = (Ok (), c')"
      unfolding flush_buffered_def seqOp_def case_prod_beta' by (auto elim: bindOp_OkE)
    have "files (ctx_buf ?c) = []" by (simp add: wb_take_def)
    from put [OF c1(2) put [OF c1(1) this]] show ?thesis .
  next
    case False
    then show ?thesis using assms(1) by (auto simp: ctx_flush_def wb_take_def)
  qed
  then show ?thesis by (simp add: wb_file_get_def)
qed

end
