(* ===== verification/Protected_Properties.thy ===== *)
theory Protected_Properties
  imports Protected_Laws
begin

text \<open>
  The transactions of a protected table against those of the default build.
\<close>

section \<open>Transactions\<close>

definition p_transaction :: "nat \<Rightarrow> chrono \<Rightarrow> ('t, 'n) penv \<Rightarrow> mutation list \<Rightarrow> (('t, 'n) pctx, unit) op" where
  "p_transaction fuel C E ms = seqOp (forOp ms (p_mutate fuel C E)) (p_flush E)"

definition transaction :: "nat \<Rightarrow> chrono \<Rightarrow> ('t, akey, bytes) redb \<Rightarrow> mutation list \<Rightarrow> ('t ctx, unit) op" where
  "transaction fuel C R ms = seqOp (forOp ms (mutate fuel C R)) (ctx_flush R)"

text \<open>After a transaction that succeeded the buffer is empty and the table is sealed.\<close>

lemma transaction_sealed:
  assumes "psealed E s p" "p_transaction fuel C E ms p = (Ok (), p')"
  shows "psealed E s p' \<and> (\<forall>k. wb_file_get k (ctx_buf (pc_ctx p')) = None) \<and> transaction fuel C (pe_data E) ms (pc_ctx p) = (Ok (), pc_ctx p')"
proof -
  obtain p1 where p1: "forOp ms (p_mutate fuel C E) p = (Ok (), p1)" "p_flush E p1 = (Ok (), p')"
    using assms(2) unfolding p_transaction_def seqOp_def by (rule bindOp_OkE) simp
  note D = simulatesD [OF simulates_for [OF refines_mutate] assms(1) p1(1)]
  obtain p2 where p2: "p_flush E p1 = (Ok (), p2)" "psealed E s p2" "ctx_flush (pe_data E) (pc_ctx p1) = (Ok (), pc_ctx p2)"
    using flush_sealed [OF D(1)] by blast
  have eq: "p' = p2" using p1(2) p2(1) by simp
  show ?thesis using p2 eq D(2) waiting_after_flush [OF p2(3) penv_okD(4) [OF sealed_env [OF p2(2)]]] by (simp add: transaction_def)
qed

text \<open>Access control refines the default build and keeps every seal. Let a user with the database's keys run any transaction on a sealed
  table. Whether or not it succeeds, no entry is left without the tags of its bytes and its access-control list. If it
  succeeds, its effect on the data is that of the same transaction in the default build, and every entry of the table
  carries both tags.\<close>

theorem protected_transaction:
  assumes "psealed E s p" "p_transaction fuel C E ms p = (r, p')"
  shows "psealed E s p' \<and> (r = Ok () \<longrightarrow> transaction fuel C (pe_data E) ms (pc_ctx p) = (Ok (), pc_ctx p') \<and>
    (\<forall>k e. contents (pe_data E) (ctx_data (pc_ctx p')) k = Some e \<longrightarrow>
      (\<exists>a sig. read_meta (pe_build E) (pe_inodes E) (pc_inodes p') (pe_table E) k =
         Ok (a, Some (mac_value (pe_crypto E) (ses_key s) (pe_table E) k e (acl_bytes a)), Some sig) \<and>
       verify_value (pe_crypto E) (ed_public (pe_crypto E) (ses_sign_seed s)) (pe_table E) k e (acl_bytes a) sig)))"
proof -
  obtain r1 p1 where m: "forOp ms (p_mutate fuel C E) p = (r1, p1)" by (cases "forOp ms (p_mutate fuel C E) p")
  note D = simulatesD [OF simulates_for [OF refines_mutate] assms(1) m]
  obtain p2 where p2: "p_flush E p1 = (Ok (), p2)" "psealed E s p2" using flush_sealed [OF D(1)] by blast
  have sealed: "psealed E s p'" using assms(2) m D(1) p2 by (cases r1) (auto simp: p_transaction_def seqOp_def)
  obtain I where P: "penv_ok E s" "holds_inodes (pe_build E) (pe_inodes E) (pc_inodes p') I"
    "\<And>k e. contents (pe_data E) (ctx_data (pc_ctx p')) k = Some e \<Longrightarrow> k \<notin> {} \<Longrightarrow> \<not> waiting k p' \<Longrightarrow> node_sealed E s I k e"
    by (rule sealed_butE [OF sealed]) blast
  have "\<exists>a sig. read_meta (pe_build E) (pe_inodes E) (pc_inodes p') (pe_table E) k =
       Ok (a, Some (mac_value (pe_crypto E) (ses_key s) (pe_table E) k e (acl_bytes a)), Some sig) \<and>
     verify_value (pe_crypto E) (ed_public (pe_crypto E) (ses_sign_seed s)) (pe_table E) k e (acl_bytes a) sig"
    if "r = Ok ()" "contents (pe_data E) (ctx_data (pc_ctx p')) k = Some e" for k e
  proof -
    have "node_sealed E s I k e" using P(3) [of k e] that transaction_sealed [OF assms(1), of fuel C ms p'] assms(2) by simp
    then obtain i where "I (pe_table E) k = Some i" "(ino_mac i, ino_sig i) = map_prod Some Some (value_tags E s k e (acl_bytes (ino_acl i)))"
      unfolding node_sealed_def by blast
    then show ?thesis using read_meta_holds [OF P(2), of "pe_table E" k] crypto_okD(5) [OF penv_okD(3) [OF P(1)]]
      by (simp add: value_tags_def verify_value_def sign_value_def)
  qed
  then show ?thesis using sealed transaction_sealed [OF assms(1), of fuel C ms p'] assms(2) by blast
qed

text \<open>A user and an empty table for concrete inputs.\<close>

definition keyed_session :: session where
  "keyed_session = \<lparr>ses_name = ''ann'', ses_uid = 2, ses_gids = [], ses_key = replicate 32 7, ses_sign_seed = replicate 32 9\<rparr>"
definition sample_penv :: "session \<Rightarrow> ((akey, bytes) btree, (bytes, bytes) btree) penv" where
  "sample_penv s = \<lparr>pe_data = btree_redb, pe_inodes = btree_redb, pe_build = full_build, pe_crypto = clear_crypto, pe_table = ''t'', pe_now = 1000,
     pe_principal = User s\<rparr>"
definition empty_pctx :: "((akey, bytes) btree, (bytes, bytes) btree) pctx" where
  "empty_pctx = \<lparr>pc_ctx = \<lparr>ctx_data = [], ctx_buf = wb_new True, ctx_rng = 0\<rparr>, pc_inodes = [], pc_verified = {}\<rparr>"

lemma sample_penv_ok: "penv_ok (sample_penv s) s"
  by (simp add: penv_ok_def sample_penv_def full_build_def clear_crypto_ok btree_redb_ok)

lemma blank_sealed: "pc_inodes p = [] \<Longrightarrow> ctx_data (pc_ctx p) = [] \<Longrightarrow> psealed (sample_penv s) s p"
  using no_inodes_hold [of full_build] by (intro sealed_butI [OF sample_penv_ok]) (simp_all add: sample_penv_def contents_def btree_redb_def bt_get_def)

lemma root_checked: "pc_inodes p = [] \<Longrightarrow> ctx_check (sample_penv s) akey_ROOT needed p = (Ok (), p)"
  by (simp add: ctx_check_def sample_penv_def read_acl_def btree_redb_def bt_get_def authorize_def is_guest_def)

lemma sample_store: "\<exists>p'. p_mutate 1 calendar (sample_penv keyed_session) (Store_Value [''a''] v) empty_pctx = (Ok (), p')"
proof -
  obtain k rng where g: "akey_generate 0 = (k, rng)" by (cases "akey_generate 0")
  let ?wb = "\<lambda>m n. \<lparr>buffering = True, dirs_dirty = True, dirs = [(akey_ROOT, m)], files_dirty = False, files = [], structure_count = n\<rparr>"
  let ?p = "\<lambda>m n rng. \<lparr>pc_ctx = \<lparr>ctx_data = [], ctx_buf = ?wb m n, ctx_rng = rng\<rparr>, pc_inodes = [], pc_verified = {}\<rparr> :: ((akey, bytes) btree, (bytes, bytes) btree) pctx"
  have absent: "onCtx (readOp (\<lambda>c. has_entry (pe_data (sample_penv keyed_session)) c akey_ROOT)) empty_pctx = (Ok False, empty_pctx)"
    by (simp add: onCtx_def has_entry_def empty_pctx_def buffered_dir_def wb_dirty_def wb_new_def sample_penv_def btree_redb_def bt_get_def)
  have mk: "p_put_dir (sample_penv keyed_session) akey_ROOT [] empty_pctx = (Ok (), ?p [] 0 0)"
    by (simp add: p_put_dir_def empty_pctx_def ctx_buffering_def wb_active_def wb_new_def stamp_new_dir_acl_def sample_penv_def onCtx_def buffer_dir_def put_buf_def wb_write_def)
  have root: "p_ensure_dir (sample_penv keyed_session) [] empty_pctx = (Ok akey_ROOT, ?p [] 0 0)" using absent mk by (simp add: p_ensure_dir_def p_ensure_root_def seqOp_def bindOp_def)
  have link: "p_link_child (sample_penv keyed_session) akey_ROOT ''a'' k (?p [] 0 rng) = (Ok (), ?p [(''a'', k)] 1 rng)"
    by (simp add: p_link_child_def onCtx_def ctx_bump_structure_def put_buf_def wb_bump_structure_def ctx_buffering_def wb_active_def p_dir_link_def p_edit_dir_def
      buffered_dir_def wb_dirty_def wb_read_def wb_write_def Let_def)
  obtain p' where p': "p_put_entry (sample_penv keyed_session) k (file_entry (blob_encode v)) (?p [(''a'', k)] 1 rng) = (Ok (), p')"
    using put_entry_sealed [OF blank_sealed, of "?p [(''a'', k)] 1 rng" keyed_session k "file_entry (blob_encode v)"] by auto
  have same: "empty_pctx\<lparr>pc_verified := {}\<rparr> = empty_pctx" by (simp add: empty_pctx_def)
  have "p_mutate 1 calendar (sample_penv keyed_session) (Store_Value [''a''] v) empty_pctx = (Ok (), p')"
    using g root link p' by (simp add: same seqOp_def bindOp_def p_mutate_def new_context_def p_store_value_into_def p_store_blob_into_def split_last_or_panic_def apath_split_last_def
      root_checked p_child_def buffered_dir_def wb_dirty_def wb_read_def bt_get_def onCtx_def generate_key_def) 
  then show ?thesis by blast
qed

lemma empty_sealed: "psealed (sample_penv keyed_session) keyed_session empty_pctx"
  by (rule blank_sealed) (simp_all add: empty_pctx_def)

lemma sample_transaction: "\<exists>p'. p_transaction 1 calendar (sample_penv keyed_session) [Store_Value [''a''] v] empty_pctx = (Ok (), p')"
proof -
  obtain p1 where p1: "p_mutate 1 calendar (sample_penv keyed_session) (Store_Value [''a''] v) empty_pctx = (Ok (), p1)" using sample_store by blast
  obtain p' where "p_flush (sample_penv keyed_session) p1 = (Ok (), p')" using flush_sealed [OF simulatesD(1) [OF refines_mutate empty_sealed p1]] by blast
  then show ?thesis using p1 by (simp add: p_transaction_def seqOp_def bindOp_def)
qed

theorem protected_transaction_witness:
  "\<exists>p'. p_transaction 1 calendar (sample_penv keyed_session) [Store_Value [''a''] (Leaf (U8 1))] empty_pctx = (Ok (), p') \<and> psealed (sample_penv keyed_session) keyed_session p' \<and>
    transaction 1 calendar btree_redb [Store_Value [''a''] (Leaf (U8 1))] (pc_ctx empty_pctx) = (Ok (), pc_ctx p')"
proof -
  obtain p' where run: "p_transaction 1 calendar (sample_penv keyed_session) [Store_Value [''a''] (Leaf (U8 1))] empty_pctx = (Ok (), p')"
    using sample_transaction by blast
  then show ?thesis using protected_transaction [OF empty_sealed run] by (simp add: sample_penv_def)
qed

end
