(* ===== verification/Permitted.thy ===== *)
theory Permitted
  imports Protected_Properties
begin

text \<open>
  What a mutation that succeeded was permitted to do, and what a change of an access-control list does to the tags.
\<close>

section \<open>Operations that only look\<close>

definition looks :: "(('t, 'n) pctx, 'a) op \<Rightarrow> bool" where
  "looks f \<longleftrightarrow> (\<forall>p. \<exists>V. snd (f p) = p\<lparr>pc_verified := V\<rparr>)"

named_theorems look_intros \<open>operations that only look\<close>

lemma looksD: "looks f \<Longrightarrow> f p = (r, p') \<Longrightarrow> pc_ctx p' = pc_ctx p \<and> pc_inodes p' = pc_inodes p"
  unfolding looks_def by (metis pctx.select_convs(1,2) pctx.surjective pctx.update_convs(3) snd_conv)

lemma same_memo: "\<exists>V. (p :: ('t, 'n) pctx) = p\<lparr>pc_verified := V\<rparr>"
  by (rule exI [where x = "pc_verified p"]) simp

lemma looks_same [look_intros]: "looks (retOp x)" "looks (liftOp r)" "looks (readOp g)" "looks new_context" "looks (mark_verified k)" "looks (ctx_check E k needed)"
proof -
  show "looks (retOp x)" "looks (liftOp r)" "looks (readOp g)" "looks (ctx_check E k needed)" unfolding looks_def ctx_check_def using same_memo by auto
  show "looks new_context" "looks (mark_verified k)" by (auto simp: looks_def new_context_def mark_verified_def)
qed

lemma looks_bind [look_intros]:
  assumes "looks f" "\<And>x. looks (g x)"
  shows "looks (bindOp f g)"
  unfolding looks_def
proof
  fix p
  obtain r p1 where f: "f p = (r, p1)" by (cases "f p")
  then obtain V where V: "p1 = p\<lparr>pc_verified := V\<rparr>" using assms(1) unfolding looks_def by (metis snd_conv)
  show "\<exists>V. snd (bindOp f g p) = p\<lparr>pc_verified := V\<rparr>"
  proof (cases r)
    case (Ok x)
    obtain W where "snd (g x p1) = p1\<lparr>pc_verified := W\<rparr>" using assms(2) unfolding looks_def by blast
    then show ?thesis using f Ok V by auto
  qed (use f V in auto)
qed

lemma looks_seq [look_intros]: "looks f \<Longrightarrow> looks g \<Longrightarrow> looks (seqOp f g)"
  unfolding seqOp_def by (rule looks_bind)

lemma looks_for [look_intros]: "(\<And>x. looks (f x)) \<Longrightarrow> looks (forOp xs f)"
  by (induction xs) (simp_all add: look_intros)

lemma looks_cases [look_intros]:
  "looks f \<Longrightarrow> looks g \<Longrightarrow> looks (if b then f else g)"
  "looks f \<Longrightarrow> (\<And>x. looks (h x)) \<Longrightarrow> looks (case v of None \<Rightarrow> f | Some x \<Rightarrow> h x)"
  unfolding looks_def by (auto split: option.split)

lemma looks_verify [look_intros]: "looks (ctx_verify_integrity E k e)"
proof -
  have "looks (bindOp (readOp (\<lambda>p. read_meta (pe_build E) (pe_inodes E) (pc_inodes p) (pe_table E) k)) (\<lambda>(acl, mac, _).
      let expected = mac_value (pe_crypto E) key (pe_table E) k e (acl_bytes acl) in
      if (case mac of Some mac \<Rightarrow> ct_eq mac expected | None \<Rightarrow> False) then mark_verified k
      else liftOp (Err (Tampered (''integrity check failed for an a-node in table '' @ quoted (pe_table E))))))" for key
    unfolding case_prod_beta' Let_def by (intro look_intros)
  then show ?thesis unfolding looks_def ctx_verify_integrity_def using same_memo by (auto split: principal.split)
qed

lemma looks_with_entry [look_intros]: "looks (p_with_entry E k f)"
proof -
  have "looks (bindOp (readOp (\<lambda>p. table_get (pe_data E) (ctx_data (pc_ctx p)) k)) (\<lambda>g. case g of None \<Rightarrow> retOp None
    | Some entry \<Rightarrow> seqOp (ctx_verify_integrity E k entry) (liftOp (andThen (f entry) (\<lambda>r. Ok (Some r))))))"
    by (intro look_intros)
  then show ?thesis unfolding looks_def p_with_entry_def using same_memo by (auto split: option.split)
qed

lemma looks_read_verified [look_intros]: "looks (p_read_verified E k)"
proof -
  have "looks (bindOp (readOp (\<lambda>p. read_entry (pe_data E) (ctx_data (pc_ctx p)) k)) (\<lambda>entry.
    case entry of None \<Rightarrow> retOp None | Some bs \<Rightarrow> seqOp (ctx_verify_integrity E k bs) (retOp (Some bs))))" by (intro look_intros)
  then show ?thesis unfolding looks_def p_read_verified_def using same_memo by (auto split: option.split)
qed

lemma looks_reads [look_intros]: "looks (p_child E k name)" "looks (p_dir_children E k)" "looks (p_kind E k)"
proof -
  have "looks (bindOp (p_with_entry E k (\<lambda>entry. entry_child entry name)) (\<lambda>r. retOp (Option.bind r (\<lambda>x. x))))" by (intro look_intros)
  then show "looks (p_child E k name)" unfolding looks_def p_child_def using same_memo by (auto split: option.split)
  have "looks (bindOp (p_with_entry E k entry_children) (\<lambda>r. retOp (case r of None \<Rightarrow> [] | Some children \<Rightarrow> children)))" by (intro look_intros)
  then show "looks (p_dir_children E k)" unfolding looks_def p_dir_children_def using same_memo by (auto split: option.split)
  have "looks (p_with_entry E k (\<lambda>entry. andThen (entry_split entry) (\<lambda>(kind, _). Ok kind)))" by (intro look_intros)
  then show "looks (p_kind E k)" unfolding looks_def p_kind_def using same_memo by auto
qed

lemma looks_resolve_from [look_intros]: "looks (p_resolve_from E k path)"
proof (induction path arbitrary: k)
  case (Cons name names)
  then show ?case unfolding p_resolve_from.simps by (intro look_intros)
qed (simp add: look_intros)

section \<open>Permissions\<close>

definition may :: "('t, 'n) penv \<Rightarrow> ('t, 'n) pctx \<Rightarrow> akey \<Rightarrow> rights \<Rightarrow> bool" where
  "may E p k needed \<longleftrightarrow> (\<exists>acl. read_acl (pe_build E) (pe_inodes E) (pc_inodes p) (pe_table E) k = Ok acl \<and> permitted (pe_principal E) k acl needed)"

lemma check_may: "needed \<noteq> Rights_None \<Longrightarrow> ctx_check E k needed p = (Ok (), p') \<longleftrightarrow> may E p k needed \<and> p' = p"
  using authorize_permitted [of needed "pe_principal E" k] by (auto simp: ctx_check_def may_def)

lemma may_looks: "looks f \<Longrightarrow> f p = (r, p') \<Longrightarrow> may E p' k needed = may E p k needed"
  using looksD [of f p r p'] by (simp add: may_def)

text \<open>The a-nodes at or below \<open>k\<close>, as the default build's reads show them.\<close>

inductive below :: "('t, akey, bytes) redb \<Rightarrow> 't ctx \<Rightarrow> akey \<Rightarrow> akey \<Rightarrow> bool" for R c where
  below_self: "below R c k k"
| below_child: "ctx_kind R c k = Ok (Some Dir) \<Longrightarrow> dir_children R c k = Ok m \<Longrightarrow> (name, i) \<in> set m \<Longrightarrow> below R c i j \<Longrightarrow> below R c k j"

lemma looks_check_deletable [look_intros]: "looks (check_deletable fuel E k)"
proof (induction fuel arbitrary: k)
  case (Suc fuel)
  show ?case unfolding check_deletable.simps by (intro look_intros Suc)
qed (simp add: look_intros)

lemma seqOp_OkE:
  assumes "seqOp f g p = (Ok y, p')"
  obtains x p1 where "f p = (Ok x, p1)" "g p1 = (Ok y, p')"
  using assms unfolding seqOp_def by (rule bindOp_OkE)

text \<open>Every step of a loop of checks ran on the state the loop started from, as far as checks can see.\<close>

lemma for_each:
  assumes "\<And>x. looks (f x)" "\<And>x. quiet E s (f x)" "psealed E s p" "forOp xs f p = (Ok (), p')" "x \<in> set xs"
  shows "\<exists>q q'. f x q = (Ok (), q') \<and> psealed E s q \<and> pc_ctx q = pc_ctx p \<and> pc_inodes q = pc_inodes p"
  using assms(3-)
proof (induction xs arbitrary: p)
  case (Cons y ys)
  obtain p1 where p1: "f y p = (Ok (), p1)" "forOp ys f p1 = (Ok (), p')" using Cons.prems(2) by (auto elim: seqOp_OkE)
  show ?case
  proof (cases "x = y")
    case True
    then show ?thesis using p1(1) Cons.prems(1) by blast
  next
    case False
    have "psealed E s p1" "pc_ctx p1 = pc_ctx p" "pc_inodes p1 = pc_inodes p"
      using silentD(1) [OF assms(2) Cons.prems(1) p1(1)] looksD [OF assms(1) p1(1)] by auto
    then show ?thesis using Cons.IH [OF _ p1(2)] False Cons.prems(3) by auto
  qed
qed simp

lemma check_deletable_may:
  assumes "below R c k j" "R = pe_data E" "psealed E s p" "pc_ctx p = c" "check_deletable fuel E k p = (Ok (), p')"
  shows "may E p j Delete"
  using assms
proof (induction arbitrary: fuel p p' rule: below.induct)
  case (below_self k)
  then show ?case by (cases fuel) (auto simp: check_may elim: seqOp_OkE)
next
  case (below_child k m name i j)
  note sealed = below_child.prems(2)
  obtain f where f: "fuel = Suc f" using below_child.prems(4) by (cases fuel) auto
  let ?walk = "\<lambda>kind. if kind = Some Dir then bindOp (p_dir_children E k) (\<lambda>children. forOp children (\<lambda>e. check_deletable f E (snd e))) else retOp ()"
  have "seqOp (ctx_check E k Delete) (bindOp (p_kind E k) ?walk) p = (Ok (), p')" using below_child.prems(4) unfolding f check_deletable.simps .
  then obtain p0 where "ctx_check E k Delete p = (Ok (), p0)" "bindOp (p_kind E k) ?walk p0 = (Ok (), p')" by (auto elim: seqOp_OkE)
  then have "bindOp (p_kind E k) ?walk p = (Ok (), p')" by (simp add: check_may)
  then obtain kind p1 where p1: "p_kind E k p = (Ok kind, p1)" "?walk kind p1 = (Ok (), p')" by (rule bindOp_OkE)
  have "ctx_kind R c k = Ok kind" "psealed E s p1" using simulatesD [OF refines_kind sealed p1(1)] below_child.prems(1,3) by auto
  then have dir: "kind = Some Dir" using below_child.hyps(1) by simp
  obtain ch p2 where p2: "p_dir_children E k p1 = (Ok ch, p2)" "forOp ch (\<lambda>e. check_deletable f E (snd e)) p2 = (Ok (), p')"
    using p1(2) unfolding dir by (auto elim: bindOp_OkE)
  have same: "pc_ctx p2 = c" "pc_inodes p2 = pc_inodes p" using looksD [OF looks_reads(3) p1(1)] looksD [OF looks_reads(2) p2(1)] below_child.prems(3) by auto
  have ch: "dir_children R c k = Ok ch" "psealed E s p2"
    using simulatesD [OF refines_dir_children \<open>psealed E s p1\<close> p2(1)] looksD [OF looks_reads(3) p1(1)] below_child.prems(1,3) by auto
  then have "(name, i) \<in> set ch" using below_child.hyps(2,3) by simp
  from for_each [OF looks_check_deletable quiet_check_deletable ch(2) p2(2) this]
  obtain q q' where q: "check_deletable f E i q = (Ok (), q')" "psealed E s q" "pc_ctx q = c" "pc_inodes q = pc_inodes p" using same by auto
  have "may E q j Delete" by (rule below_child.IH [OF below_child.prems(1) q(2,3,1)])
  then show ?case using q(4) by (simp add: may_def)
qed

text \<open>A path that was resolved was accessible: every directory on the way, the last a-node excepted.\<close>

lemma resolve_may:
  assumes "psealed E s p" "p_resolve_from E k path p = (Ok (Some t), p')" "path = front @ name # rear" "resolve_from (pe_data E) (pc_ctx p) k front = Ok (Some d)"
  shows "may E p d Access"
  using assms
proof (induction front arbitrary: k path p)
  case Nil
  then have "d = k" by simp
  then show ?case using Nil.prems(2,3) by (auto simp: check_may elim: seqOp_OkE)
next
  case (Cons n front)
  obtain p0 where "ctx_check E k Access p = (Ok (), p0)" "bindOp (p_child E k n) (\<lambda>next. case next of Some child \<Rightarrow> p_resolve_from E child (front @ name # rear) | None \<Rightarrow> retOp None) p0 = (Ok (Some t), p')"
    using Cons.prems(2,3) by (auto elim: seqOp_OkE)
  then have "bindOp (p_child E k n) (\<lambda>next. case next of Some child \<Rightarrow> p_resolve_from E child (front @ name # rear) | None \<Rightarrow> retOp None) p = (Ok (Some t), p')"
    by (simp add: check_may)
  then obtain ch p1 where p1: "p_child E k n p = (Ok ch, p1)" "(case ch of Some child \<Rightarrow> p_resolve_from E child (front @ name # rear) | None \<Rightarrow> retOp None) p1 = (Ok (Some t), p')"
    by (rule bindOp_OkE)
  then obtain child where child: "ch = Some child" "p_resolve_from E child (front @ name # rear) p1 = (Ok (Some t), p')" by (cases ch) auto
  note D = simulatesD [OF refines_child Cons.prems(1) p1(1)] and L = looksD [OF looks_reads(1) p1(1)]
  have "ctx_child (pe_data E) (pc_ctx p) k n = Ok (Some child)" using D(2) child(1) by auto
  then have "resolve_from (pe_data E) (pc_ctx p1) child front = Ok (Some d)" using Cons.prems(4) L by simp
  from Cons.IH [OF D(1) child(2) refl this] show ?case using L by (simp add: may_def)
qed

text \<open>C14: nothing is removed without the right to delete it. When the removal of a path succeeds and removed something, the user may access every
  directory on the way and may delete the a-node removed and every a-node below it.\<close>

theorem rm_permitted:
  assumes "psealed E s p" "p_rm_into fuel E path p = (Ok True, p')" "apath_split_last path = Some (pp, name)"
    and "ctx_resolve (pe_data E) (pc_ctx p) pp = Ok (Some parent)" "ctx_child (pe_data E) (pc_ctx p) parent name = Ok (Some k)"
  shows "may E p parent Access \<and>
    (\<forall>front n rear d. pp = front @ n # rear \<longrightarrow> ctx_resolve (pe_data E) (pc_ctx p) front = Ok (Some d) \<longrightarrow> may E p d Access) \<and>
    (\<forall>j. below (pe_data E) (pc_ctx p) k j \<longrightarrow> may E p j Delete)"
proof -
  let ?rest = "\<lambda>akey. case akey of None \<Rightarrow> retOp False
    | Some akey \<Rightarrow> seqOp (check_deletable fuel E akey) (seqOp (p_cascade_delete fuel E akey) (seqOp (p_unlink_child E parent name) (retOp True)))"
  have "bindOp (p_resolve E pp) (\<lambda>parent. case parent of None \<Rightarrow> retOp False
      | Some parent \<Rightarrow> seqOp (ctx_check E parent Access) (bindOp (p_child E parent name) (\<lambda>akey. case akey of None \<Rightarrow> retOp False
    | Some akey \<Rightarrow> seqOp (check_deletable fuel E akey) (seqOp (p_cascade_delete fuel E akey) (seqOp (p_unlink_child E parent name) (retOp True)))))) p = (Ok True, p')"
    using assms(2,3) by (simp add: p_rm_into_def split_last_or_panic_def)
  then obtain x p1 where p1: "p_resolve E pp p = (Ok x, p1)" and rest: "(case x of None \<Rightarrow> retOp False
      | Some parent \<Rightarrow> seqOp (ctx_check E parent Access) (bindOp (p_child E parent name) (\<lambda>akey. case akey of None \<Rightarrow> retOp False
    | Some akey \<Rightarrow> seqOp (check_deletable fuel E akey) (seqOp (p_cascade_delete fuel E akey) (seqOp (p_unlink_child E parent name) (retOp True)))))) p1 = (Ok True, p')"
    by (rule bindOp_OkE)
  note D = simulatesD [OF refines_resolve assms(1) p1] and L = looksD [OF looks_resolve_from p1 [unfolded p_resolve_def]]
  have x: "x = Some parent" using D(2) [OF refl] assms(4) by simp
  have "seqOp (ctx_check E parent Access) (bindOp (p_child E parent name) ?rest) p1 = (Ok True, p')" using rest x by simp
  then obtain p2 where "ctx_check E parent Access p1 = (Ok (), p2)" "bindOp (p_child E parent name) ?rest p2 = (Ok True, p')" by (auto elim: seqOp_OkE)
  then have access: "may E p1 parent Access" and "bindOp (p_child E parent name) ?rest p1 = (Ok True, p')" by (simp_all add: check_may)
  then obtain y p3 where p3: "p_child E parent name p1 = (Ok y, p3)" "?rest y p3 = (Ok True, p')" by (auto elim: bindOp_OkE)
  note D3 = simulatesD [OF refines_child D(1) p3(1)] and L3 = looksD [OF looks_reads(1) p3(1)]
  have "y = Some k" using D3(2) [OF refl] assms(5) L by simp
  then obtain p4 where "check_deletable fuel E k p3 = (Ok (), p4)" using p3(2) by (auto elim: seqOp_OkE)
  then have "may E p3 j Delete" if "below (pe_data E) (pc_ctx p) k j" for j
    using check_deletable_may [OF that refl D3(1)] L L3 by simp
  moreover have "may E p d Access" if "pp = front @ n # rear" "ctx_resolve (pe_data E) (pc_ctx p) front = Ok (Some d)" for front n rear d
    using resolve_may [OF assms(1) p1 [unfolded p_resolve_def x] that(1)] that(2) by (simp add: ctx_resolve_def)
  ultimately show ?thesis using access L L3 by (simp add: may_def)
qed

text \<open>A subdirectory that the master user removes, for a concrete input.\<close>

definition master_session :: session where
  "master_session = \<lparr>ses_name = ''master'', ses_uid = 0, ses_gids = [0], ses_key = replicate 32 7, ses_sign_seed = replicate 32 9\<rparr>"

definition one_dir_pctx :: "((akey, bytes) btree, (bytes, bytes) btree) pctx" where
  "one_dir_pctx = \<lparr>pc_ctx = \<lparr>ctx_data = [], ctx_buf = \<lparr>buffering = True, dirs_dirty = True, dirs = [(akey_ROOT, [(''a'', 5)]), (5, [])], files_dirty = False,
     files = [], structure_count = 0\<rparr>, ctx_rng = 0\<rparr>, pc_inodes = [], pc_verified = {}\<rparr>"

lemma master_checked: "pc_inodes p = [] \<Longrightarrow> ctx_check (sample_penv master_session) k needed p = (Ok (), p)"
  by (simp add: ctx_check_def sample_penv_def read_acl_def btree_redb_def bt_get_def authorize_def is_guest_def is_master_def master_session_def)

theorem rm_permitted_witness:
  "may (sample_penv master_session) one_dir_pctx 5 Delete"
proof -
  let ?E = "sample_penv master_session"
  have sealed: "psealed ?E master_session one_dir_pctx" by (rule blank_sealed) (simp_all add: one_dir_pctx_def)
  have looks: "p_child ?E akey_ROOT ''a'' one_dir_pctx = (Ok (Some 5), one_dir_pctx)" "check_deletable 1 ?E 5 one_dir_pctx = (Ok (), one_dir_pctx)"
    "ctx_check ?E k needed one_dir_pctx = (Ok (), one_dir_pctx)" for k needed
    by (simp_all add: p_child_def p_kind_def p_dir_children_def one_dir_pctx_def buffered_dir_def wb_dirty_def wb_read_def bt_get_def master_checked akey_ROOT_def seqOp_def bindOp_def)
  let ?p = "\<lambda>m n. one_dir_pctx\<lparr>pc_ctx := \<lparr>ctx_data = [], ctx_buf = \<lparr>buffering = True, dirs_dirty = True, dirs = [(akey_ROOT, m)], files_dirty = False,
     files = [], structure_count = n\<rparr>, ctx_rng = 0\<rparr>\<rparr>"
  have del: "p_cascade_delete 1 ?E 5 one_dir_pctx = (Ok (), ?p [(''a'', 5)] 0)"
    by (simp add: p_cascade_children_def one_dir_pctx_def buffered_dir_def wb_dirty_def wb_read_def akey_ROOT_def seqOp_def bindOp_def p_remove_entry_def onCtx_def onInodes_def
      set_data_def sample_penv_def btree_redb_def bt_remove_def invalidate_verified_def inode_forget_def put_buf_def wb_forget_def wb_files_dirty_def)
  have unlink: "p_unlink_child ?E akey_ROOT ''a'' (?p [(''a'', 5)] 0) = (Ok (), ?p [] 1)"
    by (simp add: p_unlink_child_def seqOp_def bindOp_def onCtx_def ctx_bump_structure_def put_buf_def wb_bump_structure_def ctx_buffering_def wb_active_def p_dir_unlink_def p_edit_dir_def
      buffered_dir_def wb_dirty_def wb_read_def wb_write_def Let_def bt_remove_def)
  have run: "p_rm_into 1 ?E [''a''] one_dir_pctx = (Ok True, ?p [] 1)"
    using looks del unlink
    by (simp add: p_rm_into_def split_last_or_panic_def apath_split_last_def p_resolve_def seqOp_def bindOp_def del: One_nat_def)
  have "ctx_child (pe_data ?E) (pc_ctx one_dir_pctx) akey_ROOT ''a'' = Ok (Some 5)"
    by (simp add: ctx_child_def one_dir_pctx_def buffered_dir_def wb_dirty_def wb_read_def bt_get_def)
  then show ?thesis using rm_permitted [OF sealed run, of "[]" "''a''" akey_ROOT 5] below_self [of "pe_data ?E" "pc_ctx one_dir_pctx" 5]
    by (simp add: apath_split_last_def ctx_resolve_def)
qed

section \<open>Changing access-control lists\<close>

lemma holds_inodes_unique:
  assumes "holds_inodes B N n I" "holds_inodes B N n J"
  shows "I = J"
proof (intro ext)
  fix t k
  have "map_option inode_encode (I t k) = map_option inode_encode (J t k)" using holds_inodesD(2) [OF assms(1)] holds_inodesD(2) [OF assms(2)] by metis
  then show "I t k = J t k" using holds_inodesD(3) [OF assms(1), of t k] holds_inodesD(3) [OF assms(2), of t k] inode_decode_encode
    by (cases "I t k"; cases "J t k") (auto, metis res.inject(1))
qed

lemma reacl_sealed:
  assumes "psealed E s p" "holds_inodes (pe_build E) (pe_inodes E) (pc_inodes p) I" "acl_ok a"
  shows "\<exists>p' i. seqOp (write_acl E k a) (reseal_integrity E k) p = (Ok (), p') \<and> psealed E s p' \<and> pc_ctx p' = pc_ctx p \<and>
    holds_inodes (pe_build E) (pe_inodes E) (pc_inodes p') (with_inode (pe_table E) k (Some i) I) \<and> ino_acl i = Some a"
proof -
  obtain I' where P: "penv_ok E s" "holds_inodes (pe_build E) (pe_inodes E) (pc_inodes p) I'"
    "\<And>k e. contents (pe_data E) (ctx_data (pc_ctx p)) k = Some e \<Longrightarrow> k \<notin> {} \<Longrightarrow> \<not> waiting k p \<Longrightarrow> node_sealed E s I' k e" by (rule sealed_butE [OF assms(1)]) blast
  have "I' = I" by (rule holds_inodes_unique [OF P(2) assms(2)])
  note old = P(3) [unfolded this] and E = penv_okD [OF P(1)]
  let ?t = "pe_table E" and ?B = "pe_build E" and ?N = "pe_inodes E"
  let ?i = "(inode_of I ?t k)\<lparr>ino_acl := Some a\<rparr>"
  obtain n1 where n1: "inode_set_acl ?B ?N ?t k a (pc_inodes p) = (Ok (), n1)" "holds_inodes ?B ?N n1 (with_inode ?t k (Some ?i) I)"
    using set_acl_updates [OF assms(2) E(2) assms(3)] assms(2) unfolding updates_def by blast
  let ?p1 = "p\<lparr>pc_verified := pc_verified p - {k}, pc_inodes := n1\<rparr>"
  have w: "write_acl E k a p = (Ok (), ?p1)" using n1(1) by (simp add: write_acl_def seqOp_def bindOp_def invalidate_verified_def onInodes_def)
  define en where "en = (case wb_file_get k (ctx_buf (pc_ctx p)) of Some b \<Rightarrow> Some b | None \<Rightarrow> contents (pe_data E) (ctx_data (pc_ctx p)) k)"
  have en: "readOp (\<lambda>p. case wb_file_get k (ctx_buf (pc_ctx p)) of Some buffered \<Rightarrow> Ok (Some buffered) | None \<Rightarrow> read_entry (pe_data E) (ctx_data (pc_ctx p)) k) ?p1 = (Ok en, ?p1)"
    by (simp add: en_def read_entry_def redb_get [OF E(4)] split: option.split)
  have b: "bindOp (readOp (\<lambda>p. case wb_file_get k (ctx_buf (pc_ctx p)) of Some buffered \<Rightarrow> Ok (Some buffered) | None \<Rightarrow> read_entry (pe_data E) (ctx_data (pc_ctx p)) k)) g ?p1 = g en ?p1"
    for g :: "bytes option \<Rightarrow> (('a, 'b) pctx, unit) op" using en by (rule bindOp_Ok)
  show ?thesis
  proof (cases en)
    case None
    then have absent: "contents (pe_data E) (ctx_data (pc_ctx p)) k = None" by (simp add: en_def split: option.splits)
    have "contents (pe_data E) (ctx_data (pc_ctx p)) = (contents (pe_data E) (ctx_data (pc_ctx p)))(k := None)" using fun_upd_idem [of "contents (pe_data E) (ctx_data (pc_ctx p))", OF absent] by simp
    then have "psealed E s ?p1" using sealed_update [OF P(1) assms(2) old, where X = "{}" and p' = ?p1 and k = k and i = "Some ?i" and v = None] n1(2) by simp
    moreover have "reseal_integrity E k ?p1 = (Ok (), ?p1)" unfolding reseal_integrity_def E(1) principal.case b None option.case by (rule retOp_apply)
    ultimately show ?thesis using w n1(2) by (intro exI [where x = ?p1] exI [where x = ?i]) (simp add: seqOp_def bindOp_def)
  next
    case (Some e)
    let ?tags = "value_tags E s k e (acl_encode a)"
    have len: "length (fst ?tags) = 32" "length (snd ?tags) = 64" using value_tags_length [OF E(3)] by blast+
    obtain n2 where n2: "seal_mac ?B ?N ?t k (fst ?tags) n1 = (Ok (), n2)" "holds_inodes ?B ?N n2 (with_inode ?t k (Some (?i\<lparr>ino_mac := Some (fst ?tags)\<rparr>)) (with_inode ?t k (Some ?i) I))"
      using seal_mac_updates [OF n1(2) E(2) len(1), of ?t k] n1(2) unfolding updates_def by auto
    let ?j = "?i\<lparr>ino_mac := Some (fst ?tags), ino_sig := Some (snd ?tags)\<rparr>"
    have twice: "with_inode ?t k x (with_inode ?t k y I) = with_inode ?t k x I" for x y by (simp add: with_inode_def)
    obtain n3 where n3: "seal_sig ?B ?N ?t k (snd ?tags) n2 = (Ok (), n3)" "holds_inodes ?B ?N n3 (with_inode ?t k (Some ?j) I)"
      using seal_sig_updates [OF n2(2) E(2) len(2), of ?t k] n2(2) unfolding updates_def twice by auto
    let ?p3 = "p\<lparr>pc_verified := pc_verified p - {k}, pc_inodes := n3\<rparr>"
    have r: "reseal_integrity E k ?p1 = (Ok (), ?p3)"
    proof -
      have "bindOp (ctx_acl E k) (\<lambda>acl. let (mac, sig) = value_tags E s k e (acl_bytes acl)
          in seqOp (onInodes (seal_mac ?B ?N ?t k mac)) (onInodes (seal_sig ?B ?N ?t k sig))) ?p1 = (Ok (), ?p3)"
        using read_acl_holds [OF n1(2), of ?t k] n2(1) n3(1) by (simp add: ctx_acl_def seqOp_def bindOp_def onInodes_def acl_bytes_def case_prod_beta)
      then show ?thesis unfolding reseal_integrity_def E(1) principal.case b Some option.case .
    qed
    have seal: "node_sealed E s (with_inode ?t k (Some ?j) I) k e" by (simp add: node_sealed_def acl_bytes_def map_prod_def case_prod_beta)
    have "contents (pe_data E) (ctx_data (pc_ctx p)) k = Some e" if "\<not> waiting k p" using that Some by (simp add: en_def)
    then have "psealed E s ?p3"
      using sealed_update [OF P(1) assms(2) old, where X = "{}" and p' = ?p3 and k = k and i = "Some ?j" and v = "contents (pe_data E) (ctx_data (pc_ctx p)) k"] n3(2) seal by auto
    then show ?thesis using w r n3(2) by (intro exI [where x = ?p3] exI [where x = ?j]) (simp add: seqOp_def bindOp_def)
  qed
qed

lemma looks_acl_target: "looks (acl_target E path)"
  unfolding acl_target_def ctx_acl_def p_resolve_def by (intro look_intros)

lemma looks_sealed:
  assumes "looks f" "psealed E s p" "f p = (r, p')"
  shows "psealed E s p'"
proof -
  obtain V where "snd (f p) = p\<lparr>pc_verified := V\<rparr>" using assms(1) unfolding looks_def by blast
  then show ?thesis using assms(2,3) by simp
qed

lemma acl_targetD:
  assumes "psealed E s p" "acl_target E path p = (Ok (k, a), p')"
  shows "ctx_resolve (pe_data E) (pc_ctx p) path = Ok (Some k)" "k \<noteq> akey_ROOT" "read_acl (pe_build E) (pe_inodes E) (pc_inodes p) (pe_table E) k = Ok (Some a)"
proof -
  obtain x p1 where p1: "p_resolve E path p = (Ok x, p1)" and rest: "bindOp (liftOp (ok_or x (ValueNotFound path))) (\<lambda>akey.
       if akey = akey_ROOT then liftOp (Err (PermissionDenied ''the root ACL cannot be changed''))
       else seqOp (p_read_verified E akey) (bindOp (ctx_acl E akey) (\<lambda>acl.
            bindOp (liftOp (ok_or acl (CannotAccess ''this a-node has no ACL''))) (\<lambda>acl. retOp (akey, acl))))) p1 = (Ok (k, a), p')"
    using assms(2) unfolding acl_target_def by (rule bindOp_OkE)
  obtain j where x: "x = Some j" using rest by (cases x) (simp_all add: bindOp_def)
  have j: "j \<noteq> akey_ROOT" and rest2: "seqOp (p_read_verified E j) (bindOp (ctx_acl E j) (\<lambda>acl.
            bindOp (liftOp (ok_or acl (CannotAccess ''this a-node has no ACL''))) (\<lambda>acl. retOp (j, acl)))) p1 = (Ok (k, a), p')"
    using rest x by (simp_all add: bindOp_def split: if_splits)
  from rest2 obtain e p2 where p2: "p_read_verified E j p1 = (Ok e, p2)" "bindOp (ctx_acl E j) (\<lambda>acl.
            bindOp (liftOp (ok_or acl (CannotAccess ''this a-node has no ACL''))) (\<lambda>acl. retOp (j, acl))) p2 = (Ok (k, a), p')" by (rule seqOp_OkE)
  from p2(2) obtain acl where acl: "read_acl (pe_build E) (pe_inodes E) (pc_inodes p2) (pe_table E) j = Ok acl" "acl = Some a" "j = k"
    by (auto simp: ctx_acl_def elim!: bindOp_OkE split: option.splits)
  have same: "pc_inodes p2 = pc_inodes p" using looksD [OF looks_resolve_from p1 [unfolded p_resolve_def]] looksD [OF looks_read_verified p2(1)] by simp
  show "ctx_resolve (pe_data E) (pc_ctx p) path = Ok (Some k)" using simulatesD(2) [OF refines_resolve assms(1) p1 refl] x acl(3) unfolding readOp_apply prod.inject by blast
  show "k \<noteq> akey_ROOT" "read_acl (pe_build E) (pe_inodes E) (pc_inodes p) (pe_table E) k = Ok (Some a)" using j acl same by simp_all
qed

end
