(* ===== verification/Perm_Laws.thy ===== *)
theory Perm_Laws
  imports Perm_Store
begin

text \<open>
  What the operations on the permission store do. The metadata table of a protected database holds an encoded user and group store, the
  public key and the epoch, and a control tag over them (\<open>holds_perm\<close>). Every administrative operation that commits leaves such a
  table again, and keeps the invariant of the stores: names and ids are unique, members belong to groups that exist, and the
  built-in users and groups stay as they are.
\<close>

section \<open>The control plane\<close>

definition holds_perm ::
  "crypto \<Rightarrow> ('m, string, bytes) redb \<Rightarrow> bytes \<Rightarrow> bytes \<Rightarrow> u64 \<Rightarrow> users \<Rightarrow> groups \<Rightarrow> 'm \<Rightarrow> bool" where
  "holds_perm C M key pk epoch us gs meta \<longleftrightarrow> redb_ok M \<and> users_ok us \<and> groups_ok gs \<and>
     contents M meta META_USERS_KEY = Some (users_bytes us) \<and> contents M meta META_GROUPS_KEY = Some (groups_bytes gs) \<and>
     contents M meta META_PUBKEY_KEY = Some pk \<and> contents M meta META_EPOCH_KEY = Some (be_bytes epoch) \<and>
     contents M meta META_CONTROL_MAC_KEY = Some (mac_control C key epoch (users_bytes us) (groups_bytes gs) pk)"

lemma holds_permD:
  assumes "holds_perm C M key pk epoch us gs meta"
  shows "redb_ok M" "users_ok us" "groups_ok gs" "contents M meta META_USERS_KEY = Some (users_bytes us)"
    "contents M meta META_GROUPS_KEY = Some (groups_bytes gs)" "contents M meta META_PUBKEY_KEY = Some pk"
    "contents M meta META_EPOCH_KEY = Some (be_bytes epoch)"
    "contents M meta META_CONTROL_MAC_KEY = Some (mac_control C key epoch (users_bytes us) (groups_bytes gs) pk)"
  using assms by (simp_all add: holds_perm_def)

lemma blob_or_empty_contents: "redb_ok M \<Longrightarrow> contents M meta k = Some b \<Longrightarrow> blob_or_empty M meta k = Ok b"
  by (simp add: blob_or_empty_def redb_get)

lemma read_epoch_contents: "redb_ok M \<Longrightarrow> contents M meta META_EPOCH_KEY = Some (be_bytes e) \<Longrightarrow> read_epoch M meta = Ok e"
  by (simp add: read_epoch_def redb_get from_be_be_bytes)

lemma users_load_holds: "holds_perm C M key pk epoch us gs meta \<Longrightarrow> users_load M meta = Ok us"
  using holds_permD(1,2,4) [of C M key pk epoch us gs meta] by (simp add: users_load_def redb_get users_decode_bytes)

lemma groups_load_holds: "holds_perm C M key pk epoch us gs meta \<Longrightarrow> groups_load M meta = Ok gs"
  using holds_permD(1,3,5) [of C M key pk epoch us gs meta] by (simp add: groups_load_def redb_get groups_decode_bytes)

lemma verify_control_holds: "holds_perm C M key pk epoch us gs meta \<Longrightarrow> verify_control C M key meta = Ok ()"
  using holds_permD [of C M key pk epoch us gs meta]
  by (simp add: verify_control_def blob_or_empty_contents read_pubkey_bytes_def read_epoch_contents redb_get)

text \<open>What \<open>seal_control\<close> leaves: the stores as they are written, one epoch later, under a fresh tag.\<close>

lemma seal_control_holds:
  assumes "redb_ok M" "users_ok us" "groups_ok gs" "contents M meta META_USERS_KEY = Some (users_bytes us)"
    and "contents M meta META_GROUPS_KEY = Some (groups_bytes gs)" "contents M meta META_PUBKEY_KEY = Some pk"
    and "read_epoch M meta = Ok epoch"
  shows "\<exists>meta'. seal_control C M key meta = Ok meta' \<and> holds_perm C M key pk (epoch + 1) us gs meta' \<and>
    (\<forall>k. k \<notin> {META_EPOCH_KEY, META_CONTROL_MAC_KEY} \<longrightarrow> contents M meta' k = contents M meta k)"
proof -
  obtain m1 where m1: "table_insert M meta META_EPOCH_KEY (be_bytes (epoch + 1)) = Ok m1"
    "contents M m1 = (contents M meta)(META_EPOCH_KEY := Some (be_bytes (epoch + 1)))" by (rule redb_insert [OF assms(1)])
  obtain m2 where m2: "table_insert M m1 META_CONTROL_MAC_KEY (mac_control C key (epoch + 1) (users_bytes us) (groups_bytes gs) pk) = Ok m2"
    "contents M m2 = (contents M m1)(META_CONTROL_MAC_KEY := Some (mac_control C key (epoch + 1) (users_bytes us) (groups_bytes gs) pk))"
    by (rule redb_insert [OF assms(1)])
  have "seal_control C M key meta = Ok m2"
    using m1(1) m2(1) assms by (simp add: seal_control_def blob_or_empty_contents read_pubkey_bytes_def Let_def)
  moreover have "holds_perm C M key pk (epoch + 1) us gs m2" using assms m1(2) m2(2) by (simp add: holds_perm_def)
  ultimately show ?thesis using m1(2) m2(2) by simp
qed

text \<open>The two shapes an operation ends in: storing the users, or the groups, and sealing.\<close>

definition committed :: "crypto \<Rightarrow> ('m, string, bytes) redb \<Rightarrow> bytes \<Rightarrow> bytes \<Rightarrow> u64 \<Rightarrow> users \<Rightarrow> groups \<Rightarrow> 'm res \<Rightarrow> bool" where
  "committed C M key pk epoch us gs r \<longleftrightarrow> (\<exists>meta'. r = Ok meta' \<and> holds_perm C M key pk epoch us gs meta')"

lemma store_both_seal:
  assumes "holds_perm C M key pk epoch us gs meta" "users_ok us'" "groups_ok gs'"
  shows "committed C M key pk (epoch + 1) us' gs (andThen (users_store M us' meta) (seal_control C M key))"
    and "committed C M key pk (epoch + 1) us gs' (andThen (groups_store M gs' meta) (seal_control C M key))"
    and "committed C M key pk (epoch + 1) us' gs' (andThen (groups_store M gs' meta) (\<lambda>meta. andThen (users_store M us' meta) (seal_control C M key)))"
    and "committed C M key pk (epoch + 1) us' gs' (andThen (users_store M us' meta) (\<lambda>meta. andThen (groups_store M gs' meta) (seal_control C M key)))"
proof -
  note D = holds_permD [OF assms(1)] and ep = read_epoch_contents [OF holds_permD(1) [OF assms(1)]]
  note ins = redb_insert [OF D(1)]
  obtain m1 where m1: "table_insert M meta META_USERS_KEY (users_bytes us') = Ok m1"
    "contents M m1 = (contents M meta)(META_USERS_KEY := Some (users_bytes us'))" by (rule ins)
  obtain m2 where m2: "table_insert M meta META_GROUPS_KEY (groups_bytes gs') = Ok m2"
    "contents M m2 = (contents M meta)(META_GROUPS_KEY := Some (groups_bytes gs'))" by (rule ins)
  obtain m3 where m3: "table_insert M m2 META_USERS_KEY (users_bytes us') = Ok m3"
    "contents M m3 = (contents M m2)(META_USERS_KEY := Some (users_bytes us'))" by (rule ins)
  obtain m4 where m4: "table_insert M m1 META_GROUPS_KEY (groups_bytes gs') = Ok m4"
    "contents M m4 = (contents M m1)(META_GROUPS_KEY := Some (groups_bytes gs'))" by (rule ins)
  show "committed C M key pk (epoch + 1) us' gs (andThen (users_store M us' meta) (seal_control C M key))"
    using seal_control_holds [OF D(1) assms(2) D(3), of m1 pk epoch C key] ep [of m1 epoch] m1 D(5-7) by (auto simp: committed_def users_store_def users_encode_eq)
  show "committed C M key pk (epoch + 1) us gs' (andThen (groups_store M gs' meta) (seal_control C M key))"
    using seal_control_holds [OF D(1) D(2) assms(3), of m2 pk epoch C key] ep [of m2 epoch] m2 D(4,6,7) by (auto simp: committed_def groups_store_def groups_encode_eq)
  show "committed C M key pk (epoch + 1) us' gs' (andThen (groups_store M gs' meta) (\<lambda>meta. andThen (users_store M us' meta) (seal_control C M key)))"
    using seal_control_holds [OF D(1) assms(2,3), of m3 pk epoch C key] ep [of m3 epoch] m2 m3 D(6,7)
    by (auto simp: committed_def groups_store_def groups_encode_eq users_store_def users_encode_eq)
  show "committed C M key pk (epoch + 1) us' gs' (andThen (users_store M us' meta) (\<lambda>meta. andThen (groups_store M gs' meta) (seal_control C M key)))"
    using seal_control_holds [OF D(1) assms(2,3), of m4 pk epoch C key] ep [of m4 epoch] m1 m4 D(6,7)
    by (auto simp: committed_def groups_store_def groups_encode_eq users_store_def users_encode_eq)
qed

section \<open>The invariant\<close>

definition groups_inv :: "groups \<Rightarrow> bool" where
  "groups_inv gs \<longleftrightarrow>
     distinct (map grp_name (groups_list gs)) \<and> distinct (map grp_gid (groups_list gs)) \<and>
     (\<forall>g \<in> set (groups_list gs). grp_gid g < next_gid gs) \<and>
     (\<exists>g \<in> set (groups_list gs). grp_gid g = MASTER_GID \<and> grp_name g = MASTER_GROUP) \<and>
     (\<exists>g \<in> set (groups_list gs). grp_gid g = SUPER_GID \<and> grp_name g = SUPER_GROUP)"

definition users_inv :: "u32 set \<Rightarrow> users \<Rightarrow> bool" where
  "users_inv G us \<longleftrightarrow>
     distinct (map usr_name (users_list us)) \<and> distinct (map usr_uid (users_list us)) \<and>
     (\<forall>u \<in> set (users_list us). usr_uid u < next_uid us) \<and>
     (\<forall>u \<in> set (users_list us). distinct (usr_gids u) \<and> set (usr_gids u) \<subseteq> G) \<and>
     (\<exists>u \<in> set (users_list us). usr_uid u = MASTER_UID \<and> usr_name u = MASTER_USER \<and> usr_keyring u \<noteq> None) \<and>
     (\<exists>u \<in> set (users_list us). usr_uid u = GUEST_UID \<and> usr_name u = GUEST_USER \<and> usr_frozen u \<and> usr_gids u = [] \<and> usr_keyring u = None)"

definition perm_inv :: "users \<Rightarrow> groups \<Rightarrow> bool" where
  "perm_inv us gs \<longleftrightarrow> groups_inv gs \<and> users_inv (grp_gid ` set (groups_list gs)) us"

lemma groups_invD:
  assumes "groups_inv gs"
  shows "distinct (map grp_name (groups_list gs))" "distinct (map grp_gid (groups_list gs))" "\<forall>g \<in> set (groups_list gs). grp_gid g < next_gid gs"
    "\<exists>g \<in> set (groups_list gs). grp_gid g = MASTER_GID \<and> grp_name g = MASTER_GROUP"
    "\<exists>g \<in> set (groups_list gs). grp_gid g = SUPER_GID \<and> grp_name g = SUPER_GROUP"
  using assms unfolding groups_inv_def by blast+

lemma users_invD:
  assumes "users_inv G us"
  shows "distinct (map usr_name (users_list us))" "distinct (map usr_uid (users_list us))" "\<forall>u \<in> set (users_list us). usr_uid u < next_uid us"
    "\<forall>u \<in> set (users_list us). distinct (usr_gids u) \<and> set (usr_gids u) \<subseteq> G"
    "\<exists>u \<in> set (users_list us). usr_uid u = MASTER_UID \<and> usr_name u = MASTER_USER \<and> usr_keyring u \<noteq> None"
    "\<exists>u \<in> set (users_list us). usr_uid u = GUEST_UID \<and> usr_name u = GUEST_USER \<and> usr_frozen u \<and> usr_gids u = [] \<and> usr_keyring u = None"
  using assms unfolding users_inv_def by blast+

lemma users_inv_mono: "users_inv G us \<Longrightarrow> G \<subseteq> H \<Longrightarrow> users_inv H us"
  unfolding users_inv_def by blast

text \<open>Room for \<open>n\<close> more operations below the limits of the format and of the id allocators.\<close>

definition room :: "nat \<Rightarrow> users \<Rightarrow> groups \<Rightarrow> bool" where
  "room n us gs \<longleftrightarrow> length (users_list us) + n < 2 ^ 31 \<and> length (groups_list gs) + n < 2 ^ 31 \<and>
     unat (next_uid us) + n < 2 ^ 32 \<and> unat (next_gid gs) + n < 2 ^ 32 \<and>
     length (users_bytes us) + n * 2 ^ 34 < 2 ^ 63 \<and> length (groups_bytes gs) + n * 2 ^ 34 < 2 ^ 63"

lemma succ_id: "unat (x :: u32) + n < 2 ^ 32 \<Longrightarrow> 0 < n \<Longrightarrow> unat (x + 1) = unat x + 1"
  by (simp add: unat_word_ariths)

lemma less_succ_id: "unat (x :: u32) + n < 2 ^ 32 \<Longrightarrow> 0 < n \<Longrightarrow> y \<le> x \<Longrightarrow> y < x + 1"
  by (simp add: word_less_nat_alt word_le_nat_alt succ_id)

section \<open>Updates of the lists\<close>

lemma update_first_map:
  "distinct (map key xs) \<Longrightarrow> update_first (\<lambda>x. key x = k) f xs = map (\<lambda>x. if key x = k then f x else x) xs"
proof (induction xs)
  case (Cons x xs)
  then show ?case by (auto simp: image_iff intro!: map_idI [symmetric])
qed simp

lemma length_update_first [simp]: "length (update_first P f xs) = length xs"
  by (induction xs) auto

lemma update_first_all: "(\<And>x. x \<in> set xs \<Longrightarrow> Q x) \<Longrightarrow> (\<And>x. x \<in> set xs \<Longrightarrow> P x \<Longrightarrow> Q (f x)) \<Longrightarrow> \<forall>x \<in> set (update_first P f xs). Q x"
  by (induction xs) auto

lemma length_concat_update_first:
  "(\<And>x. x \<in> set xs \<Longrightarrow> P x \<Longrightarrow> length (h (f x)) \<le> length (h x) + K) \<Longrightarrow>
   length (concat (map h (update_first P f xs))) \<le> length (concat (map h xs)) + K"
proof (induction xs)
  case (Cons x xs)
  have "length (concat (map h (update_first P f xs))) \<le> length (concat (map h xs)) + K" using Cons.prems by (intro Cons.IH) simp
  moreover have "P x \<Longrightarrow> length (h (f x)) \<le> length (h x) + K" using Cons.prems by simp
  ultimately show ?case by (cases "P x") simp_all
qed simp

lemma length_concat_le: "(\<And>x. x \<in> set xs \<Longrightarrow> length (h (f x)) \<le> length (h x)) \<Longrightarrow> length (concat (map h (map f xs))) \<le> length (concat (map h xs))"
  by (induction xs) (auto intro: add_mono)

lemma length_concat_filter: "length (concat (map h (filter P xs))) \<le> length (concat (map h xs))"
  by (induction xs) auto

lemma length_user_bytes: "length (user_bytes u) = 13 + length (usr_name u) + 4 * length (usr_gids u) + length (keyring_bytes (usr_keyring u))"
proof -
  have "length (concat (map (put_u32 []) gids)) = 4 * length gids" for gids :: "u32 list" by (induction gids) auto
  then show ?thesis by (simp add: user_bytes_def)
qed

lemma length_users_bytes: "length (users_bytes us) = 8 + length (concat (map user_bytes (users_list us)))"
  by (simp add: users_bytes_def)

lemma length_groups_bytes: "length (groups_bytes gs) = 8 + length (concat (map group_bytes (groups_list gs)))"
  by (simp add: groups_bytes_def)

text \<open>A change of at most one record, which the format still holds.\<close>

lemma users_ok_update:
  assumes "users_ok us" "room (Suc n) us gs"
    and "\<And>u. u \<in> set (users_list us) \<Longrightarrow> P u \<Longrightarrow> user_ok (f u) \<and> length (user_bytes (f u)) \<le> length (user_bytes u) + 2 ^ 34"
  shows "users_ok (us\<lparr>users_list := update_first P f (users_list us)\<rparr>)" "room n (us\<lparr>users_list := update_first P f (users_list us)\<rparr>) gs"
proof -
  have "length (concat (map user_bytes (update_first P f (users_list us)))) \<le> length (concat (map user_bytes (users_list us))) + 2 ^ 34"
    using assms(3) by (intro length_concat_update_first) blast
  then have len: "length (users_bytes (us\<lparr>users_list := update_first P f (users_list us)\<rparr>)) \<le> length (users_bytes us) + 2 ^ 34"
    by (simp add: length_users_bytes)
  moreover have "\<forall>u \<in> set (update_first P f (users_list us)). user_ok u"
    using assms(1,3) by (intro update_first_all) (auto simp: users_ok_def)
  ultimately show "users_ok (us\<lparr>users_list := update_first P f (users_list us)\<rparr>)" using assms(2) by (simp add: users_ok_def room_def usize_bound_def)
  show "room n (us\<lparr>users_list := update_first P f (users_list us)\<rparr>) gs" using len assms(2) by (simp add: room_def)
qed

lemma groups_ok_update:
  assumes "groups_ok gs" "room (Suc n) us gs" "\<And>g. text_ok (grp_name (f g))"
  shows "groups_ok (gs\<lparr>groups_list := update_first P f (groups_list gs)\<rparr>)" "room n us (gs\<lparr>groups_list := update_first P f (groups_list gs)\<rparr>)"
proof -
  have "length (concat (map group_bytes (update_first P f (groups_list gs)))) \<le> length (concat (map group_bytes (groups_list gs))) + 2 ^ 34"
  proof (rule length_concat_update_first)
    fix g show "length (group_bytes (f g)) \<le> length (group_bytes g) + 2 ^ 34" using assms(3) [of g] by (simp add: group_bytes_def text_ok_def)
  qed
  then have len: "length (groups_bytes (gs\<lparr>groups_list := update_first P f (groups_list gs)\<rparr>)) \<le> length (groups_bytes gs) + 2 ^ 34"
    by (simp add: length_groups_bytes)
  moreover have "\<forall>g \<in> set (update_first P f (groups_list gs)). text_ok (grp_name g)"
    using assms(1,3) by (intro update_first_all) (auto simp: groups_ok_def)
  ultimately show "groups_ok (gs\<lparr>groups_list := update_first P f (groups_list gs)\<rparr>)" using assms(2) by (simp add: groups_ok_def room_def usize_bound_def)
  show "room n us (gs\<lparr>groups_list := update_first P f (groups_list gs)\<rparr>)" using len assms(2) by (simp add: room_def)
qed

text \<open>A new record at the end.\<close>

lemma users_ok_push:
  assumes "users_ok us" "room (Suc n) us gs" "user_ok u" "length (user_bytes u) \<le> 2 ^ 34"
  defines "us' \<equiv> us\<lparr>next_uid := next_uid us + 1, users_list := users_list us @ [u]\<rparr>"
  shows "users_ok us'" "room n us' gs"
proof -
  have len: "length (users_bytes us') \<le> length (users_bytes us) + 2 ^ 34" using assms(4) by (simp add: us'_def length_users_bytes)
  then show "users_ok us'" using assms(1-3) by (simp add: us'_def users_ok_def room_def usize_bound_def)
  have "unat (next_uid us + 1) = unat (next_uid us) + 1" using assms(2) by (intro succ_id [of _ "Suc n"]) (simp_all add: room_def)
  then show "room n us' gs" using len assms(2) by (simp add: us'_def room_def)
qed

lemma groups_ok_push:
  assumes "groups_ok gs" "room (Suc n) us gs" "text_ok name"
  shows "groups_ok (push_group name gs)" "room n us (push_group name gs)"
proof -
  have len: "length (groups_bytes (push_group name gs)) \<le> length (groups_bytes gs) + 2 ^ 34"
    using assms(3) by (simp add: push_group_def length_groups_bytes group_bytes_def text_ok_def)
  then show "groups_ok (push_group name gs)" using assms by (simp add: push_group_def groups_ok_def room_def usize_bound_def)
  have "unat (next_gid gs + 1) = unat (next_gid gs) + 1" using assms(2) by (intro succ_id [of _ "Suc n"]) (simp_all add: room_def)
  then show "room n us (push_group name gs)" using len assms(2) by (simp add: push_group_def room_def)
qed

lemma find_user_None: "find_user name us = None \<longleftrightarrow> name \<notin> usr_name ` set (users_list us)"
  by (auto simp: find_user_def find_None_iff)

lemma find_user_Some: "find_user name us = Some u \<Longrightarrow> u \<in> set (users_list us) \<and> usr_name u = name"
  by (auto simp: find_user_def find_Some_iff)

lemma find_group_None: "find_group name gs = None \<longleftrightarrow> name \<notin> grp_name ` set (groups_list gs)"
  by (auto simp: find_group_def find_None_iff)

lemma find_group_Some: "find_group name gs = Some g \<Longrightarrow> g \<in> set (groups_list gs) \<and> grp_name g = name"
  by (auto simp: find_group_def find_Some_iff)

section \<open>The invariant of the lists\<close>

lemma users_inv_map:
  assumes inv: "users_inv G us" and uid: "\<And>u. usr_uid (g u) = usr_uid u"
    and names: "distinct (map usr_name (map g (users_list us)))"
    and gids: "\<And>u. u \<in> set (users_list us) \<Longrightarrow> distinct (usr_gids (g u)) \<and> set (usr_gids (g u)) \<subseteq> H"
    and master: "\<And>u. u \<in> set (users_list us) \<Longrightarrow> usr_uid u = MASTER_UID \<Longrightarrow> usr_name (g u) = usr_name u \<and> (usr_keyring u \<noteq> None \<longrightarrow> usr_keyring (g u) \<noteq> None)"
    and guest: "\<And>u. u \<in> set (users_list us) \<Longrightarrow> usr_uid u = GUEST_UID \<Longrightarrow> usr_gids u = [] \<Longrightarrow> usr_frozen u \<Longrightarrow> g u = u"
  shows "users_inv H (us\<lparr>users_list := map g (users_list us)\<rparr>)"
proof -
  note D = users_invD [OF inv]
  obtain m where m: "m \<in> set (users_list us)" "usr_uid m = MASTER_UID" "usr_name m = MASTER_USER" "usr_keyring m \<noteq> None" using D(5) by blast
  have gm: "g m \<in> set (map g (users_list us))" "usr_uid (g m) = MASTER_UID" "usr_name (g m) = MASTER_USER" "usr_keyring (g m) \<noteq> None"
    using m master [OF m(1,2)] uid [of m] by simp_all
  obtain w where w: "w \<in> set (users_list us)" "usr_uid w = GUEST_UID" "usr_name w = GUEST_USER" "usr_frozen w" "usr_gids w = []" "usr_keyring w = None"
    using D(6) by blast
  have gw: "w \<in> set (map g (users_list us))" using imageI [OF w(1), of g] guest [OF w(1,2,5,4)] by simp
  have bound: "\<forall>u \<in> set (map g (users_list us)). usr_uid u < next_uid us" using D(3) uid by auto
  have member: "\<forall>u \<in> set (map g (users_list us)). distinct (usr_gids u) \<and> set (usr_gids u) \<subseteq> H" using gids by simp
  have uids: "map usr_uid (map g (users_list us)) = map usr_uid (users_list us)" using uid by simp
  have m': "\<exists>u \<in> set (map g (users_list us)). usr_uid u = MASTER_UID \<and> usr_name u = MASTER_USER \<and> usr_keyring u \<noteq> None" using gm by blast
  have w': "\<exists>u \<in> set (map g (users_list us)). usr_uid u = GUEST_UID \<and> usr_name u = GUEST_USER \<and> usr_frozen u \<and> usr_gids u = [] \<and> usr_keyring u = None"
    using gw w(2-6) by blast
  have upd: "users_list (us\<lparr>users_list := map g (users_list us)\<rparr>) = map g (users_list us)" "next_uid (us\<lparr>users_list := map g (users_list us)\<rparr>) = next_uid us"
    by simp_all
  show ?thesis unfolding users_inv_def upd uids
    using names D(2) bound member m' w' by (intro conjI)
qed

lemma distinct_rename:
  assumes "distinct (map key xs)" "new \<notin> key ` set xs" "\<And>x. key (f x) = (if key x = old then new else key x)"
  shows "distinct (map key (map f xs))"
  using assms by (auto simp: distinct_map inj_on_def comp_def split: if_splits)

lemma users_inv_update:
  assumes inv: "users_inv G us" and key: "distinct (map key (users_list us))" and uid: "\<And>u. usr_uid (f u) = usr_uid u"
    and name: "\<And>u. usr_name (f u) = usr_name u"
    and gids: "\<And>u. u \<in> set (users_list us) \<Longrightarrow> key u = n \<Longrightarrow> distinct (usr_gids (f u)) \<and> set (usr_gids (f u)) \<subseteq> G"
    and master: "\<And>u. usr_keyring u \<noteq> None \<Longrightarrow> usr_keyring (f u) \<noteq> None"
    and guest: "\<And>u. u \<in> set (users_list us) \<Longrightarrow> usr_uid u = GUEST_UID \<Longrightarrow> usr_gids u = [] \<Longrightarrow> usr_frozen u \<Longrightarrow> key u = n \<Longrightarrow> f u = u"
  shows "users_inv G (us\<lparr>users_list := update_first (\<lambda>u. key u = n) f (users_list us)\<rparr>)"
  unfolding update_first_map [OF key]
proof (rule users_inv_map [OF inv])
  show "distinct (map usr_name (map (\<lambda>u. if key u = n then f u else u) (users_list us)))"
  proof -
    have "map usr_name (map (\<lambda>u. if key u = n then f u else u) (users_list us)) = map usr_name (users_list us)" using name by simp
    then show ?thesis using users_invD(1) [OF inv] by (simp only:)
  qed
next
  fix u assume u: "u \<in> set (users_list us)"
  then show "distinct (usr_gids (if key u = n then f u else u)) \<and> set (usr_gids (if key u = n then f u else u)) \<subseteq> G"
    using gids users_invD(4) [OF inv] by (cases "key u = n") simp_all
qed (use uid name master guest in simp_all)

lemma users_inv_push:
  assumes inv: "users_inv G us" and "usr_name u \<notin> usr_name ` set (users_list us)" "usr_uid u = next_uid us" "distinct (usr_gids u)" "set (usr_gids u) \<subseteq> G"
    and room: "room (Suc n) us gs"
  shows "users_inv G (us\<lparr>next_uid := next_uid us + 1, users_list := users_list us @ [u]\<rparr>)"
proof -
  note D = users_invD [OF inv]
  have less: "y \<le> next_uid us \<Longrightarrow> y < next_uid us + 1" for y using room by (intro less_succ_id [of _ "Suc n"]) (simp_all add: room_def)
  have fresh: "usr_uid u \<notin> usr_uid ` set (users_list us)" using D(3) assms(3) by auto
  have bound: "\<forall>v \<in> set (users_list us @ [u]). usr_uid v < next_uid us + 1" using D(3) assms(3) less by (auto simp: less_imp_le)
  have upd: "users_list (us\<lparr>next_uid := next_uid us + 1, users_list := users_list us @ [u]\<rparr>) = users_list us @ [u]"
    "next_uid (us\<lparr>next_uid := next_uid us + 1, users_list := users_list us @ [u]\<rparr>) = next_uid us + 1" by simp_all
  have member: "\<forall>v \<in> set (users_list us @ [u]). distinct (usr_gids v) \<and> set (usr_gids v) \<subseteq> G" using D(4) assms(4,5) by simp
  have dist: "distinct (map usr_name (users_list us @ [u]))" "distinct (map usr_uid (users_list us @ [u]))" using D(1,2) assms(2) fresh by simp_all
  show ?thesis unfolding users_inv_def upd using dist bound member D(5,6) by (intro conjI) (assumption | simp)+
qed

lemma users_inv_filter:
  assumes inv: "users_inv G us" and "\<And>u. usr_uid u = MASTER_UID \<or> usr_uid u = GUEST_UID \<Longrightarrow> P u"
  shows "users_inv G (us\<lparr>users_list := filter P (users_list us)\<rparr>)"
proof -
  note D = users_invD [OF inv]
  have upd: "users_list (us\<lparr>users_list := filter P (users_list us)\<rparr>) = filter P (users_list us)" "next_uid (us\<lparr>users_list := filter P (users_list us)\<rparr>) = next_uid us"
    by simp_all
  show ?thesis unfolding users_inv_def upd
    using distinct_map_filter [OF D(1)] distinct_map_filter [OF D(2)] D(3,4,5,6) assms(2) by (intro conjI) (assumption | auto)+
qed

lemma groups_inv_push:
  assumes inv: "groups_inv gs" and "name \<notin> grp_name ` set (groups_list gs)" and room: "room (Suc n) us gs"
  shows "groups_inv (push_group name gs)" "grp_gid ` set (groups_list (push_group name gs)) = insert (next_gid gs) (grp_gid ` set (groups_list gs))"
proof -
  note D = groups_invD [OF inv]
  have less: "y \<le> next_gid gs \<Longrightarrow> y < next_gid gs + 1" for y using room by (intro less_succ_id [of _ "Suc n"]) (simp_all add: room_def)
  have "next_gid gs \<notin> grp_gid ` set (groups_list gs)" using D(3) by auto
  then show "groups_inv (push_group name gs)"
    using D assms(2) less by (auto simp: groups_inv_def push_group_def less_imp_le)
  show "grp_gid ` set (groups_list (push_group name gs)) = insert (next_gid gs) (grp_gid ` set (groups_list gs))" by (simp add: push_group_def)
qed

lemma groups_inv_rename:
  assumes inv: "groups_inv gs" and "new \<notin> grp_name ` set (groups_list gs)"
    and old: "\<And>g. g \<in> set (groups_list gs) \<Longrightarrow> grp_name g = old \<Longrightarrow> grp_gid g \<noteq> MASTER_GID \<and> grp_gid g \<noteq> SUPER_GID"
  shows "groups_inv (gs\<lparr>groups_list := update_first (\<lambda>g. grp_name g = old) (\<lambda>g. g\<lparr>grp_name := new\<rparr>) (groups_list gs)\<rparr>)"
    "grp_gid ` set (update_first (\<lambda>g. grp_name g = old) (\<lambda>g. g\<lparr>grp_name := new\<rparr>) (groups_list gs)) = grp_gid ` set (groups_list gs)"
proof -
  note D = groups_invD [OF inv]
  let ?r = "\<lambda>g. if grp_name g = old then g\<lparr>grp_name := new\<rparr> else g"
  have eq: "update_first (\<lambda>g. grp_name g = old) (\<lambda>g. g\<lparr>grp_name := new\<rparr>) (groups_list gs) = map ?r (groups_list gs)" by (rule update_first_map [OF D(1)])
  have gid: "grp_gid (?r g) = grp_gid g" for g :: group_record by simp
  have gids: "map grp_gid (map ?r (groups_list gs)) = map grp_gid (groups_list gs)" by simp
  have names: "distinct (map grp_name (map ?r (groups_list gs)))" using D(1) assms(2) by (rule distinct_rename [where old = old]) simp
  have keep: "\<exists>g \<in> set (map ?r (groups_list gs)). grp_gid g = i \<and> grp_name g = n"
    if ex: "\<exists>g \<in> set (groups_list gs). grp_gid g = i \<and> grp_name g = n" and i: "i = MASTER_GID \<or> i = SUPER_GID" for i n
  proof -
    obtain g where g: "g \<in> set (groups_list gs)" "grp_gid g = i" "grp_name g = n" using ex by blast
    then have "?r g = g" using old [OF g(1)] i by auto
    then show ?thesis using imageI [OF g(1), of ?r] g(2,3) by auto
  qed
  have upd: "groups_list (gs\<lparr>groups_list := map ?r (groups_list gs)\<rparr>) = map ?r (groups_list gs)" "next_gid (gs\<lparr>groups_list := map ?r (groups_list gs)\<rparr>) = next_gid gs"
    by simp_all
  have bound: "\<forall>g \<in> set (map ?r (groups_list gs)). grp_gid g < next_gid gs" using D(3) by auto
  show "groups_inv (gs\<lparr>groups_list := update_first (\<lambda>g. grp_name g = old) (\<lambda>g. g\<lparr>grp_name := new\<rparr>) (groups_list gs)\<rparr>)"
    unfolding eq groups_inv_def upd gids using names D(2) bound keep [OF D(4)] keep [OF D(5)] by (intro conjI) blast+
  show "grp_gid ` set (update_first (\<lambda>g. grp_name g = old) (\<lambda>g. g\<lparr>grp_name := new\<rparr>) (groups_list gs)) = grp_gid ` set (groups_list gs)"
    unfolding eq using arg_cong [OF gids, of set] by (simp only: set_map)
qed

lemma groups_inv_filter:
  assumes inv: "groups_inv gs" and "gid \<noteq> MASTER_GID" "gid \<noteq> SUPER_GID"
  shows "groups_inv (gs\<lparr>groups_list := filter (\<lambda>g. grp_gid g \<noteq> gid) (groups_list gs)\<rparr>)"
    "grp_gid ` set (filter (\<lambda>g. grp_gid g \<noteq> gid) (groups_list gs)) = grp_gid ` set (groups_list gs) - {gid}"
proof -
  note D = groups_invD [OF inv]
  show "groups_inv (gs\<lparr>groups_list := filter (\<lambda>g. grp_gid g \<noteq> gid) (groups_list gs)\<rparr>)"
    unfolding groups_inv_def using distinct_map_filter [OF D(1)] distinct_map_filter [OF D(2)] D(3-5) assms(2,3) by auto
  show "grp_gid ` set (filter (\<lambda>g. grp_gid g \<noteq> gid) (groups_list gs)) = grp_gid ` set (groups_list gs) - {gid}" by auto
qed

section \<open>The operations keep the invariant\<close>

definition sealed :: "crypto \<Rightarrow> ('m, string, bytes) redb \<Rightarrow> bytes \<Rightarrow> bytes \<Rightarrow> nat \<Rightarrow> 'm \<Rightarrow> bool" where
  "sealed C M key pk n meta \<longleftrightarrow> (\<exists>us gs e. holds_perm C M key pk e us gs meta \<and> perm_inv us gs \<and> room n us gs)"

definition keeps :: "crypto \<Rightarrow> ('m, string, bytes) redb \<Rightarrow> bytes \<Rightarrow> bytes \<Rightarrow> nat \<Rightarrow> 'm res \<Rightarrow> bool" where
  "keeps C M key pk n r \<longleftrightarrow> (\<forall>meta'. r = Ok meta' \<longrightarrow> sealed C M key pk n meta')"

lemma keeps_simps [simp]: "keeps C M key pk n (Err e)" "keeps C M key pk n (Panic p)" "keeps C M key pk n Diverge" "keeps C M key pk n (Ok meta) \<longleftrightarrow> sealed C M key pk n meta"
  by (simp_all add: keeps_def)

lemma keeps_committed: "committed C M key pk e us gs r \<Longrightarrow> perm_inv us gs \<Longrightarrow> room n us gs \<Longrightarrow> keeps C M key pk n r"
  by (auto simp: keeps_def committed_def sealed_def)

lemma room_Suc: "room (Suc n) us gs \<Longrightarrow> room n us gs"
  by (simp add: room_def)

lemma sealed_Suc: "sealed C M key pk (Suc n) meta \<Longrightarrow> sealed C M key pk n meta"
  unfolding sealed_def using room_Suc by blast

lemma wrapped_ok:
  assumes "crypto_ok C" "length salt = SALT_LEN" "length nonce = NONCE_LEN" "wrap_secrets C salt nonce password key seed = Ok (s, n, w)"
  shows "keyring_ok (Some \<lparr>kr_salt = s, kr_nonce = n, kr_wrapped = w\<rparr>)" "length (keyring_bytes (Some \<lparr>kr_salt = s, kr_nonce = n, kr_wrapped = w\<rparr>)) = 125"
proof -
  obtain kek where e: "length key = KEY_LEN" "length seed = SEED_LEN" "aead_encrypt C kek nonce (key @ seed) = Some w" "s = salt" "n = nonce"
    using assms(4) by (auto simp: wrap_secrets_def wrap_key_def split: if_splits option.splits)
  then have "length w = 80" using assms(1) by (simp add: crypto_ok_def)
  then show "keyring_ok (Some \<lparr>kr_salt = s, kr_nonce = n, kr_wrapped = w\<rparr>)" "length (keyring_bytes (Some \<lparr>kr_salt = s, kr_nonce = n, kr_wrapped = w\<rparr>)) = 125"
    using assms(2,3) e(4,5) by (simp_all add: keyring_ok_def keyring_bytes_def)
qed

text \<open>The length of a user's membership list is bounded by the number of groups.\<close>

lemma gids_bound:
  assumes "perm_inv us gs" "u \<in> set (users_list us)"
  shows "length (usr_gids u) \<le> length (groups_list gs)"
proof -
  have "distinct (usr_gids u)" "set (usr_gids u) \<subseteq> grp_gid ` set (groups_list gs)" using assms users_invD(4) unfolding perm_inv_def by blast+
  then have "length (usr_gids u) \<le> card (grp_gid ` set (groups_list gs))" by (metis List.finite_set card_mono distinct_card finite_imageI)
  also have "\<dots> \<le> length (groups_list gs)" using card_image_le [of "set (groups_list gs)" grp_gid] card_length [of "groups_list gs"] by simp
  finally show ?thesis .
qed

text \<open>What each operation needs of its store: a bundle of the assumptions, for users and for groups.\<close>

definition perm_state :: "crypto \<Rightarrow> ('m, string, bytes) redb \<Rightarrow> bytes \<Rightarrow> bytes \<Rightarrow> nat \<Rightarrow> users \<Rightarrow> groups \<Rightarrow> 'm \<Rightarrow> bool" where
  "perm_state C M key pk n us gs meta \<longleftrightarrow> (\<exists>e. holds_perm C M key pk e us gs meta) \<and> perm_inv us gs \<and> room n us gs"

lemma sealed_state: "sealed C M key pk n meta \<longleftrightarrow> (\<exists>us gs. perm_state C M key pk n us gs meta)"
  unfolding sealed_def perm_state_def by blast

lemma perm_stateE:
  assumes "perm_state C M key pk n us gs meta"
  obtains e where "holds_perm C M key pk e us gs meta" "groups_inv gs" "users_inv (grp_gid ` set (groups_list gs)) us" "room n us gs"
  using assms unfolding perm_state_def perm_inv_def by blast

lemma perm_stateD:
  assumes "perm_state C M key pk n us gs meta"
  shows "users_load M meta = Ok us" "groups_load M meta = Ok gs" "users_ok us" "groups_ok gs" "groups_inv gs"
    "users_inv (grp_gid ` set (groups_list gs)) us" "room n us gs" "perm_inv us gs" "verify_control C M key meta = Ok ()"
proof -
  obtain e where H: "holds_perm C M key pk e us gs meta" and I: "groups_inv gs" "users_inv (grp_gid ` set (groups_list gs)) us" "room n us gs"
    by (rule perm_stateE [OF assms])
  show "users_load M meta = Ok us" "groups_load M meta = Ok gs" "users_ok us" "groups_ok gs" "verify_control C M key meta = Ok ()"
    using users_load_holds [OF H] groups_load_holds [OF H] holds_permD(2,3) [OF H] verify_control_holds [OF H] by auto
  show "groups_inv gs" "users_inv (grp_gid ` set (groups_list gs)) us" "room n us gs" "perm_inv us gs" using I by (simp_all add: perm_inv_def)
qed

lemma keeps_both:
  assumes "perm_state C M key pk m us gs meta" "users_ok us'" "groups_ok gs'" "groups_inv gs'" "users_inv (grp_gid ` set (groups_list gs')) us'" "room n us' gs'"
  shows "keeps C M key pk n (andThen (groups_store M gs' meta) (\<lambda>meta. andThen (users_store M us' meta) (seal_control C M key)))"
    and "keeps C M key pk n (andThen (users_store M us' meta) (\<lambda>meta. andThen (groups_store M gs' meta) (seal_control C M key)))"
proof -
  obtain e where H: "holds_perm C M key pk e us gs meta" by (rule perm_stateE [OF assms(1)])
  have I: "perm_inv us' gs'" using assms(4,5) by (simp add: perm_inv_def)
  show "keeps C M key pk n (andThen (groups_store M gs' meta) (\<lambda>meta. andThen (users_store M us' meta) (seal_control C M key)))"
    by (rule keeps_committed [OF store_both_seal(3) [OF H assms(2,3)] I assms(6)])
  show "keeps C M key pk n (andThen (users_store M us' meta) (\<lambda>meta. andThen (groups_store M gs' meta) (seal_control C M key)))"
    by (rule keeps_committed [OF store_both_seal(4) [OF H assms(2,3)] I assms(6)])
qed

lemma keeps_users:
  assumes "perm_state C M key pk m us gs meta" "users_ok us'" "users_inv (grp_gid ` set (groups_list gs)) us'" "room n us' gs"
  shows "keeps C M key pk n (andThen (users_store M us' meta) (seal_control C M key))"
proof -
  obtain e where H: "holds_perm C M key pk e us gs meta" by (rule perm_stateE [OF assms(1)])
  have I: "perm_inv us' gs" using assms(3) perm_stateD(5) [OF assms(1)] by (simp add: perm_inv_def)
  show ?thesis by (rule keeps_committed [OF store_both_seal(1) [OF H assms(2) holds_permD(3) [OF H]] I assms(4)])
qed

lemma keeps_groups:
  assumes "perm_state C M key pk m us gs meta" "groups_ok gs'" "groups_inv gs'" "users_inv (grp_gid ` set (groups_list gs')) us" "room n us gs'"
  shows "keeps C M key pk n (andThen (groups_store M gs' meta) (seal_control C M key))"
proof -
  obtain e where H: "holds_perm C M key pk e us gs meta" by (rule perm_stateE [OF assms(1)])
  have I: "perm_inv us gs'" using assms(3,4) by (simp add: perm_inv_def)
  show ?thesis by (rule keeps_committed [OF store_both_seal(2) [OF H holds_permD(2) [OF H] assms(2)] I assms(5)])
qed

text \<open>Each operation.\<close>

lemma change_user_password_keeps:
  assumes st: "perm_state C M (ses_key s) pk (Suc n) us gs meta" and C: "crypto_ok C" "length salt = SALT_LEN" "length nonce = NONCE_LEN"
    and s: "ses_uid s \<noteq> GUEST_UID"
  shows "keeps C M (ses_key s) pk n (change_user_password C M salt nonce s new_password meta)"
proof (cases "wrap_secrets C salt nonce new_password (ses_key s) (ses_sign_seed s)")
  case (Ok w)
  obtain sa no wr where w: "w = (sa, no, wr)" by (cases w)
  note D = perm_stateD [OF st] and W = wrapped_ok [OF C Ok [unfolded w]]
  let ?kr = "\<lparr>kr_salt = sa, kr_nonce = no, kr_wrapped = wr\<rparr>"
  let ?f = "\<lambda>u. u\<lparr>usr_keyring := Some ?kr\<rparr>" and ?P = "\<lambda>u. usr_uid u = ses_uid s"
  let ?us = "us\<lparr>users_list := update_first ?P ?f (users_list us)\<rparr>"
  have f: "user_ok (?f u) \<and> length (user_bytes (?f u)) \<le> length (user_bytes u) + 2 ^ 34" if "u \<in> set (users_list us)" for u
    using D(3) that W by (simp add: users_ok_def user_ok_def length_user_bytes)
  have ok: "users_ok ?us" "room n ?us gs" using users_ok_update [OF D(3) D(7), of ?P ?f] f by blast+
  have "users_inv (grp_gid ` set (groups_list gs)) ?us"
    using users_invD(2,4) [OF D(6)] s by (intro users_inv_update [OF D(6)]) auto
  then have "keeps C M (ses_key s) pk n (andThen (users_store M ?us meta) (seal_control C M (ses_key s)))" by (rule keeps_users [OF st ok(1) _ ok(2)])
  then show ?thesis using Ok w D(1) by (cases "find ?P (users_list us)") (simp_all add: change_user_password_def Let_def)
qed (simp_all add: change_user_password_def)

lemma add_group_keeps:
  assumes st: "perm_state C M key pk (Suc n) us gs meta" and "text_ok name"
  shows "keeps C M key pk n (add_group C M key name meta)"
proof (cases "find_group name gs")
  case None
  note D = perm_stateD [OF st]
  note G = groups_inv_push [OF D(5) None [unfolded find_group_None] D(7)] and ok = groups_ok_push [OF D(4,7) assms(2)]
  have "users_inv (grp_gid ` set (groups_list (push_group name gs))) us" by (rule users_inv_mono [OF D(6)]) (auto simp: G(2))
  then show ?thesis using None D(2) keeps_groups [OF st ok(1) G(1) _ ok(2)] by (simp add: add_group_def)
qed (use perm_stateD(2) [OF st] in \<open>simp add: add_group_def\<close>)

text \<open>What adding a user leaves, exactly.\<close>

lemma committed_state: "committed C M key pk e us gs r \<Longrightarrow> r = Ok meta' \<Longrightarrow> perm_inv us gs \<Longrightarrow> room n us gs \<Longrightarrow> perm_state C M key pk n us gs meta'"
  by (auto simp: committed_def perm_state_def)

definition pushed_user :: "string \<Rightarrow> u32 list \<Rightarrow> bytes \<times> bytes \<times> bytes \<Rightarrow> users \<Rightarrow> users" where
  "pushed_user name gids w us =
     us\<lparr>next_uid := next_uid us + 1, users_list := users_list us @ [\<lparr>usr_name = name, usr_uid = next_uid us, usr_frozen = False, usr_gids = gids,
        usr_keyring = Some \<lparr>kr_salt = fst w, kr_nonce = fst (snd w), kr_wrapped = snd (snd w)\<rparr>\<rparr>]\<rparr>"

lemma pushed_user_ok:
  assumes st: "perm_state C M key pk (Suc n) us gs meta" and C: "crypto_ok C" "length salt = SALT_LEN" "length nonce = NONCE_LEN" and name: "text_ok name"
    and w: "wrap_secrets C salt nonce password key seed = Ok w" and gids: "length gids \<le> 1" and fresh: "find_user name us = None"
  shows "users_ok (pushed_user name gids w us)" "room n (pushed_user name gids w us) gs"
    "users_inv G us \<Longrightarrow> set gids \<subseteq> G \<Longrightarrow> users_inv G (pushed_user name gids w us)"
proof -
  note D = perm_stateD [OF st]
  obtain sa no wr where w': "w = (sa, no, wr)" by (cases w)
  note W = wrapped_ok [OF C w [unfolded w']]
  let ?u = "\<lparr>usr_name = name, usr_uid = next_uid us, usr_frozen = False, usr_gids = gids,
    usr_keyring = Some \<lparr>kr_salt = fst w, kr_nonce = fst (snd w), kr_wrapped = snd (snd w)\<rparr>\<rparr>"
  have u: "user_ok ?u" "length (user_bytes ?u) \<le> 2 ^ 34" using gids W name w' by (simp_all add: user_ok_def length_user_bytes text_ok_def)
  show "users_ok (pushed_user name gids w us)" "room n (pushed_user name gids w us) gs" unfolding pushed_user_def using users_ok_push [OF D(3,7) u] by blast+
  have "distinct gids" using gids by (cases gids) auto
  then show "users_inv G us \<Longrightarrow> set gids \<subseteq> G \<Longrightarrow> users_inv G (pushed_user name gids w us)"
    unfolding pushed_user_def using users_inv_push [OF _ _ _ _ _ D(7), of G ?u] fresh [unfolded find_user_None] by simp
qed

lemma add_user_state:
  assumes st: "perm_state C M key pk (Suc n) us gs meta" and C: "crypto_ok C" "length salt = SALT_LEN" "length nonce = NONCE_LEN" and name: "text_ok name"
    and run: "add_user C M salt nonce key seed name password create_group meta = Ok meta'"
  shows "\<exists>w gids gs'. wrap_secrets C salt nonce password key seed = Ok w \<and> find_user name us = None \<and> perm_state C M key pk n (pushed_user name gids w us) gs' meta'"
proof -
  note D = perm_stateD [OF st]
  obtain e where H: "holds_perm C M key pk e us gs meta" by (rule perm_stateE [OF st])
  obtain sa no wr where w: "wrap_secrets C salt nonce password key seed = Ok (sa, no, wr)" using run by (auto simp: add_user_def)
  have fresh: "find_user name us = None" using run w D(1) by (auto simp: add_user_def split: if_splits)
  let ?us = "\<lambda>gids. pushed_user name gids (sa, no, wr) us"
  note ok = pushed_user_ok [OF st C name w _ fresh]
  show ?thesis
  proof (cases create_group)
    case False
    have "andThen (users_store M (?us []) meta) (seal_control C M key) = Ok meta'" using run w fresh False D(1) by (simp add: add_user_def Let_def pushed_user_def)
    moreover have "perm_inv (?us []) gs" using D(5,6) ok(3) [of "[]"] by (simp add: perm_inv_def)
    ultimately have "perm_state C M key pk n (?us []) gs meta'"
      using committed_state [OF store_both_seal(1) [OF H ok(1) D(4)]] ok(2) [of "[]"] by simp
    then show ?thesis using w fresh by blast
  next
    case True
    have none: "find_group name gs = None" using run w fresh True D(1,2) by (auto simp: add_user_def split: if_splits)
    note G = groups_inv_push [OF D(5) none [unfolded find_group_None] D(7)] and gok = groups_ok_push [OF D(4,7) name]
    let ?gs = "push_group name gs" and ?u = "?us [next_gid gs]"
    have "users_inv (grp_gid ` set (groups_list ?gs)) us" by (rule users_inv_mono [OF D(6)]) (auto simp: G(2))
    then have inv: "perm_inv ?u ?gs" using G ok(3) [of "[next_gid gs]" "grp_gid ` set (groups_list ?gs)"] by (simp add: perm_inv_def)
    have "andThen (groups_store M ?gs meta) (\<lambda>meta. andThen (users_store M ?u meta) (seal_control C M key)) = Ok meta'"
      using run w fresh True none D(1,2) by (simp add: add_user_def Let_def andThen_assoc pushed_user_def)
    moreover have "room n ?u ?gs" using ok(2) [of "[next_gid gs]"] gok(2) by (simp add: room_def)
    ultimately have "perm_state C M key pk n ?u ?gs meta'" using committed_state [OF store_both_seal(3) [OF H ok(1) gok(1)] _ inv] by simp
    then show ?thesis using w fresh by blast
  qed
qed

lemma add_user_keeps:
  assumes "perm_state C M key pk (Suc n) us gs meta" "crypto_ok C" "length salt = SALT_LEN" "length nonce = NONCE_LEN" "text_ok name"
  shows "keeps C M key pk n (add_user C M salt nonce key seed name password create_group meta)"
  unfolding keeps_def sealed_state using add_user_state [OF assms] by blast

lemma rename_user_keeps:
  assumes st: "perm_state C M key pk (Suc n) us gs meta" and new: "text_ok new"
  shows "keeps C M key pk n (rename_user C M key old new meta)"
proof -
  note D = perm_stateD [OF st]
  let ?f = "\<lambda>u. u\<lparr>usr_name := new\<rparr>" and ?P = "\<lambda>u. usr_name u = old"
  let ?us = "us\<lparr>users_list := update_first ?P ?f (users_list us)\<rparr>"
  have f: "user_ok (?f u) \<and> length (user_bytes (?f u)) \<le> length (user_bytes u) + 2 ^ 34" if "u \<in> set (users_list us)" for u
    using D(3) that new by (simp add: users_ok_def user_ok_def length_user_bytes text_ok_def)
  have ok: "users_ok ?us" "room n ?us gs" using users_ok_update [OF D(3) D(7), of ?P ?f] f by blast+
  have "users_inv (grp_gid ` set (groups_list gs)) ?us"
    if fresh: "find_user new us = None" and found: "find_user old us = Some u" and builtin: "\<not> is_protected_user (usr_uid u)" for u
  proof -
    have u: "u \<in> set (users_list us)" "usr_name u = old" using find_user_Some [OF found] by blast+
    have only: "v = u" if "v \<in> set (users_list us)" "usr_name v = old" for v
      using users_invD(1) [OF D(6)] u that by (simp add: distinct_map inj_on_def)
    show ?thesis unfolding update_first_map [OF users_invD(1) [OF D(6)]]
    proof (rule users_inv_map [OF D(6)])
      show "distinct (map usr_name (map (\<lambda>u. if usr_name u = old then ?f u else u) (users_list us)))"
        using users_invD(1) [OF D(6)] fresh [unfolded find_user_None] by (rule distinct_rename [where old = old]) simp
    qed (use users_invD(4) [OF D(6)] only builtin in \<open>auto simp: is_protected_user_def\<close>)
  qed
  then show ?thesis using D(1) keeps_users [OF st ok(1) _ ok(2)]
    by (cases "find_user new us"; cases "find_user old us") (simp_all add: rename_user_def)
qed

lemma rename_group_keeps:
  assumes st: "perm_state C M key pk (Suc n) us gs meta" and new: "text_ok new"
  shows "keeps C M key pk n (rename_group C M key old new meta)"
proof -
  note D = perm_stateD [OF st]
  let ?gs = "gs\<lparr>groups_list := update_first (\<lambda>g. grp_name g = old) (\<lambda>g. g\<lparr>grp_name := new\<rparr>) (groups_list gs)\<rparr>"
  note ok = groups_ok_update [OF D(4,7), of "\<lambda>g. g\<lparr>grp_name := new\<rparr>" "\<lambda>g. grp_name g = old"]
  have "groups_inv ?gs \<and> grp_gid ` set (groups_list ?gs) = grp_gid ` set (groups_list gs)"
    if fresh: "find_group new gs = None" and found: "find_group old gs = Some g" and builtin: "\<not> is_protected_group (grp_gid g)" for g
  proof -
    have g: "g \<in> set (groups_list gs)" "grp_name g = old" using find_group_Some [OF found] by blast+
    have only: "h = g" if "h \<in> set (groups_list gs)" "grp_name h = old" for h
      using groups_invD(1) [OF D(5)] g that by (simp add: distinct_map inj_on_def)
    have "grp_gid h \<noteq> MASTER_GID \<and> grp_gid h \<noteq> SUPER_GID" if "h \<in> set (groups_list gs)" "grp_name h = old" for h
      using only [OF that] builtin by (simp add: is_protected_group_def)
    then show ?thesis using groups_inv_rename [OF D(5) fresh [unfolded find_group_None]] by simp
  qed
  then show ?thesis using D(2,6) keeps_groups [OF st ok(1) _ _ ok(2)] new
    by (cases "find_group new gs"; cases "find_group old gs") (simp_all add: rename_group_def)
qed

text \<open>A change of one user's memberships, by name.\<close>

lemma regroup_keeps:
  assumes st: "perm_state C M key pk (Suc n) us gs meta" and found: "find_user user us = Some u"
    and gids: "distinct (f (usr_gids u))" "set (f (usr_gids u)) \<subseteq> grp_gid ` set (groups_list gs)" "length (f (usr_gids u)) \<le> length (usr_gids u) + 1"
    and guest: "usr_uid u = GUEST_UID \<Longrightarrow> usr_frozen u \<Longrightarrow> usr_gids u = [] \<Longrightarrow> f [] = []"
  shows "keeps C M key pk n (andThen (users_store M (us\<lparr>users_list := update_first (\<lambda>u. usr_name u = user) (\<lambda>u. u\<lparr>usr_gids := f (usr_gids u)\<rparr>) (users_list us)\<rparr>) meta)
    (seal_control C M key))"
proof -
  note D = perm_stateD [OF st]
  let ?f = "\<lambda>u. u\<lparr>usr_gids := f (usr_gids u)\<rparr>" and ?P = "\<lambda>u. usr_name u = user"
  let ?us = "us\<lparr>users_list := update_first ?P ?f (users_list us)\<rparr>"
  have u: "u \<in> set (users_list us)" "usr_name u = user" using find_user_Some [OF found] by blast+
  have only: "v = u" if "v \<in> set (users_list us)" "usr_name v = user" for v
    using users_invD(1) [OF D(6)] u that by (simp add: distinct_map inj_on_def)
  have small: "length (usr_gids u) + 1 < 2 ^ 32" using gids_bound [OF D(8) u(1)] D(7) by (simp add: room_def)
  have f: "user_ok (?f v) \<and> length (user_bytes (?f v)) \<le> length (user_bytes v) + 2 ^ 34" if "v \<in> set (users_list us)" "?P v" for v
    using D(3) that(1) small gids(3) unfolding only [OF that] by (simp add: users_ok_def user_ok_def length_user_bytes)
  have ok: "users_ok ?us" "room n ?us gs" using users_ok_update [OF D(3) D(7), of ?P ?f] f by blast+
  have "users_inv (grp_gid ` set (groups_list gs)) ?us"
  proof (rule users_inv_update [OF D(6) users_invD(1) [OF D(6)]])
    fix v assume v: "v \<in> set (users_list us)" "usr_name v = user"
    show "distinct (usr_gids (?f v)) \<and> set (usr_gids (?f v)) \<subseteq> grp_gid ` set (groups_list gs)" using gids(1,2) unfolding only [OF v] by simp
    assume "usr_uid v = GUEST_UID" "usr_gids v = []" "usr_frozen v"
    then show "?f v = v" using guest unfolding only [OF v] by (cases u) simp
  qed simp_all
  then show ?thesis by (rule keeps_users [OF st ok(1) _ ok(2)])
qed

lemma assign_keeps:
  assumes st: "perm_state C M key pk (Suc n) us gs meta"
  shows "keeps C M key pk n (assign C M key user grp meta)"
proof (cases "find_group grp gs")
  case g: (Some g)
  show ?thesis
  proof (cases "find_user user us")
    case u: (Some u)
    note D = perm_stateD [OF st]
    have mem: "distinct (usr_gids u)" "set (usr_gids u) \<subseteq> grp_gid ` set (groups_list gs)" "grp_gid g \<in> grp_gid ` set (groups_list gs)"
      using users_invD(4) [OF D(6)] find_user_Some [OF u] find_group_Some [OF g] by blast+
    have same: "keeps C M key pk n (Ok meta)" using st sealed_Suc [of C M key pk n meta] unfolding keeps_simps sealed_state by blast
    have "keeps C M key pk n (andThen (users_store M (us\<lparr>users_list := update_first (\<lambda>u. usr_name u = user) (\<lambda>u. u\<lparr>usr_gids := usr_gids u @ [grp_gid g]\<rparr>) (users_list us)\<rparr>) meta)
      (seal_control C M key))" if "\<not> usr_frozen u" "grp_gid g \<notin> set (usr_gids u)"
      using regroup_keeps [OF st u, of "\<lambda>gids. gids @ [grp_gid g]"] mem that by simp
    then show ?thesis using D(1,2) g u same by (simp add: assign_def)
  qed (use perm_stateD(1,2) [OF st] g in \<open>simp add: assign_def\<close>)
qed (use perm_stateD(1,2) [OF st] in \<open>simp add: assign_def\<close>)

lemma unassign_keeps:
  assumes st: "perm_state C M key pk (Suc n) us gs meta"
  shows "keeps C M key pk n (unassign C M key user grp meta)"
proof (cases "find_group grp gs")
  case g: (Some g)
  show ?thesis
  proof (cases "find_user user us")
    case u: (Some u)
    note D = perm_stateD [OF st]
    have mem: "distinct (usr_gids u)" "set (usr_gids u) \<subseteq> grp_gid ` set (groups_list gs)"
      using users_invD(4) [OF D(6)] find_user_Some [OF u] by blast+
    have same: "keeps C M key pk n (Ok meta)" using st sealed_Suc [of C M key pk n meta] unfolding keeps_simps sealed_state by blast
    have "keeps C M key pk n (andThen (users_store M (us\<lparr>users_list := update_first (\<lambda>u. usr_name u = user)
        (\<lambda>u. u\<lparr>usr_gids := filter (\<lambda>c. c \<noteq> grp_gid g) (usr_gids u)\<rparr>) (users_list us)\<rparr>) meta) (seal_control C M key))"
      using regroup_keeps [OF st u, of "filter (\<lambda>c. c \<noteq> grp_gid g)"] mem by (auto simp: le_SucI)
    then show ?thesis using D(1,2) g u same by (simp add: unassign_def)
  qed (use perm_stateD(1,2) [OF st] g in \<open>simp add: unassign_def\<close>)
qed (use perm_stateD(1,2) [OF st] in \<open>simp add: unassign_def\<close>)

lemma users_ok_map:
  assumes "users_ok us" "room (Suc n) us gs" "\<And>u. u \<in> set (users_list us) \<Longrightarrow> user_ok (f u) \<and> length (user_bytes (f u)) \<le> length (user_bytes u)"
  shows "users_ok (us\<lparr>users_list := map f (users_list us)\<rparr>)" "room n (us\<lparr>users_list := map f (users_list us)\<rparr>) gs"
proof -
  have len: "length (users_bytes (us\<lparr>users_list := map f (users_list us)\<rparr>)) \<le> length (users_bytes us)"
    using length_concat_le [of "users_list us" user_bytes f] assms(3) by (simp add: length_users_bytes)
  show "users_ok (us\<lparr>users_list := map f (users_list us)\<rparr>)" "room n (us\<lparr>users_list := map f (users_list us)\<rparr>) gs"
    using len assms by (simp_all add: users_ok_def room_def)
qed

lemma length_filter_less: "length xs < n \<Longrightarrow> length (filter P xs) < n" "length xs + k < n \<Longrightarrow> length (filter P xs) + k < n"
  using length_filter_le [of P xs] by (linarith, linarith)

lemma users_ok_filter:
  assumes "users_ok us" "room (Suc n) us gs"
  shows "users_ok (us\<lparr>users_list := filter P (users_list us)\<rparr>)" "room n (us\<lparr>users_list := filter P (users_list us)\<rparr>) gs"
  using assms length_concat_filter [of user_bytes P "users_list us"]
  by (simp_all add: length_filter_less users_ok_def room_def length_users_bytes)

lemma groups_ok_filter:
  assumes "groups_ok gs" "room n us gs"
  shows "groups_ok (gs\<lparr>groups_list := filter P (groups_list gs)\<rparr>)" "room n us (gs\<lparr>groups_list := filter P (groups_list gs)\<rparr>)"
  using assms length_concat_filter [of group_bytes P "groups_list gs"]
  by (simp_all add: length_filter_less groups_ok_def room_def length_groups_bytes)

lemma remove_group_keeps:
  assumes st: "perm_state C M key pk (Suc n) us gs meta"
  shows "keeps C M key pk n (andThen (remove_group_meta C M key name meta) (\<lambda>(_, meta). Ok meta))"
proof (cases "find_group name gs")
  case g: (Some g)
  note D = perm_stateD [OF st]
  let ?f = "\<lambda>u. u\<lparr>usr_gids := filter (\<lambda>c. c \<noteq> grp_gid g) (usr_gids u)\<rparr>"
  let ?us = "us\<lparr>users_list := map ?f (users_list us)\<rparr>" and ?gs = "gs\<lparr>groups_list := filter (\<lambda>h. grp_gid h \<noteq> grp_gid g) (groups_list gs)\<rparr>"
  have f: "user_ok (?f u) \<and> length (user_bytes (?f u)) \<le> length (user_bytes u)" if "u \<in> set (users_list us)" for u
    using D(3) that by (simp add: users_ok_def user_ok_def length_user_bytes length_filter_less)
  note uok = users_ok_map [OF D(3,7), of ?f, OF f]
  note gok = groups_ok_filter [OF D(4) uok(2)]
  have "keeps C M key pk n (andThen (users_store M ?us meta) (\<lambda>meta. andThen (groups_store M ?gs meta) (seal_control C M key)))" if b: "\<not> is_protected_group (grp_gid g)"
  proof -
    have "grp_gid g \<noteq> MASTER_GID" "grp_gid g \<noteq> SUPER_GID" using b by (simp_all add: is_protected_group_def)
    note G = groups_inv_filter [OF D(5) this]
    have "users_inv (grp_gid ` set (groups_list gs) - {grp_gid g}) ?us"
    proof (rule users_inv_map [OF D(6)])
      fix u assume u: "u \<in> set (users_list us)"
      show "distinct (usr_gids (?f u)) \<and> set (usr_gids (?f u)) \<subseteq> grp_gid ` set (groups_list gs) - {grp_gid g}"
        using users_invD(4) [OF D(6)] u by auto
    qed (use users_invD(1) [OF D(6)] in \<open>simp_all add: comp_def\<close>)
    then have "users_inv (grp_gid ` set (groups_list ?gs)) ?us" using G(2) by simp
    then show ?thesis using keeps_both(2) [OF st uok(1) gok(1) G(1) _ gok(2)] by simp
  qed
  moreover have "andThen (andThen r (\<lambda>meta. Ok (gid, meta))) (\<lambda>(_, meta). Ok meta) = r" for r :: "'a res" and gid :: u32 by (cases r) simp_all
  ultimately show ?thesis using g D(1,2) by (simp add: remove_group_meta_def Let_def andThen_assoc del: andThen_Ok_iff)
qed (use perm_stateD(2) [OF st] in \<open>simp add: remove_group_meta_def\<close>)

lemma forget_user_keeps:
  assumes st: "perm_state C M key pk (Suc n) us gs meta" and "uid \<noteq> MASTER_UID" "uid \<noteq> GUEST_UID"
  shows "keeps C M key pk n (forget_user C M key uid meta)"
proof -
  note D = perm_stateD [OF st]
  have "users_inv (grp_gid ` set (groups_list gs)) (us\<lparr>users_list := filter (\<lambda>u. usr_uid u \<noteq> uid) (users_list us)\<rparr>)"
    using assms(2,3) by (intro users_inv_filter [OF D(6)]) auto
  then show ?thesis using D(1) keeps_users [OF st users_ok_filter(1) [OF D(3,7)] _ users_ok_filter(2) [OF D(3,7)]] by (simp add: forget_user_def)
qed

end
