(* ===== verification/Perm_Admin.thy ===== *)
theory Perm_Admin
  imports Protected Perm_Laws
begin

text \<open>
  The handle of a protected database (\<open>db/database.rs\<close> under \<open>feature = "permissions"\<close>): opening, authenticating, promoting a database to a
  protected one, and the administration of users and groups. The state is what the engine has committed: the data tables by name, in the order the engine lists
  them, the metadata of the a-nodes and the metadata of the database. Every operation is one engine transaction, so an
  operation that fails leaves the state alone. The handle itself is its principal.
\<close>

section \<open>State\<close>

record ('t, 'n, 'm) pdb =
  pd_tables :: "(string \<times> 't) list"
  pd_inodes :: 'n
  pd_meta :: 'm

text \<open>What does not change: the operations of the tables, the primitives, the features compiled in, the time.\<close>

record ('t, 'n, 'm) padmin =
  pa_data :: "('t, akey, bytes) redb"
  pa_inodes :: "('n, bytes, bytes) redb"
  pa_meta :: "('m, string, bytes) redb"
  pa_build :: build
  pa_crypto :: crypto
  pa_now :: i64

definition on_meta :: "('m \<Rightarrow> 'm res) \<Rightarrow> (('t, 'n, 'm) pdb, unit) op" where
  "on_meta f d = (case f (pd_meta d) of Ok m \<Rightarrow> (Ok (), d\<lparr>pd_meta := m\<rparr>) | Err e \<Rightarrow> (Err e, d) | Panic s \<Rightarrow> (Panic s, d) | Diverge \<Rightarrow> (Diverge, d))"

text \<open>An engine transaction: nothing of it remains unless it commits.\<close>

definition engine_txn :: "('s, 'a) op \<Rightarrow> ('s, 'a) op" where
  "engine_txn f s = (case f s of (Ok x, s') \<Rightarrow> (Ok x, s') | (r, _) \<Rightarrow> (r, s))"

section \<open>Handles\<close>

definition open_principal :: "('m, string, bytes) redb \<Rightarrow> 'm \<Rightarrow> principal res" where
  "open_principal M meta =
     andThen (is_protected M meta) (\<lambda>protected.
       if protected then andThen (load_pubkey M meta) (\<lambda>pk. Ok (Guest pk)) else Ok Unrestricted)"

definition is_readonly :: "principal \<Rightarrow> bool" where
  "is_readonly h = (case h of Guest _ \<Rightarrow> True | _ \<Rightarrow> False)"

definition with_authentication :: "crypto \<Rightarrow> ('m, string, bytes) redb \<Rightarrow> principal \<Rightarrow> string \<Rightarrow> string \<Rightarrow> 'm \<Rightarrow> principal res" where
  "with_authentication C M h user password meta =
     (if h = Unrestricted then Err NoPermissions
      else andThen (authenticate C M user password meta) (\<lambda>s. Ok (User s)))"

definition current_user :: "principal \<Rightarrow> string option" where
  "current_user h = (case h of Unrestricted \<Rightarrow> None | Guest _ \<Rightarrow> Some GUEST_USER | User s \<Rightarrow> Some (ses_name s))"

definition db_pubkey :: "('m, string, bytes) redb \<Rightarrow> 'm \<Rightarrow> bytes res" where
  "db_pubkey M meta =
     andThen (is_protected M meta) (\<lambda>protected. if \<not> protected then Err NoPermissions else load_pubkey M meta)"

definition with_pubkey :: "principal \<Rightarrow> bytes \<Rightarrow> principal res" where
  "with_pubkey h pubkey =
     (case h of
        Guest _ \<Rightarrow> Ok (Guest pubkey)
      | User _ \<Rightarrow> Err (PermissionDenied ''an authenticated handle already verifies via its own key; pin only on a guest handle'')
      | Unrestricted \<Rightarrow> Err NoPermissions)"

definition is_admin :: "session \<Rightarrow> bool" where
  "is_admin s \<longleftrightarrow> is_master s \<or> in_master_group s"

definition admin_error :: adb_error where
  "admin_error = PermissionDenied ''administration requires the master user or a master-group member''"

definition admin_key :: "principal \<Rightarrow> bytes res" where
  "admin_key h = (case h of User s \<Rightarrow> if is_admin s then Ok (ses_key s) else Err admin_error | _ \<Rightarrow> Err admin_error)"

definition admin_creds :: "principal \<Rightarrow> (bytes \<times> bytes) res" where
  "admin_creds h = (case h of User s \<Rightarrow> if is_admin s then Ok (ses_key s, ses_sign_seed s) else Err admin_error | _ \<Rightarrow> Err admin_error)"

definition require_lister :: "principal \<Rightarrow> unit res" where
  "require_lister h =
     (let denied = Err (PermissionDenied ''listing users and groups requires an administrator or a super-group member'') in
      case h of User s \<Rightarrow> if is_admin s \<or> in_super_group s then Ok () else denied | _ \<Rightarrow> denied)"

section \<open>Promotion\<close>

definition initial_users :: "bytes \<Rightarrow> bytes \<Rightarrow> bytes \<Rightarrow> users" where
  "initial_users salt nonce wrapped =
     \<lparr>next_uid = 2, users_list =
        [\<lparr>usr_name = MASTER_USER, usr_uid = MASTER_UID, usr_frozen = False, usr_gids = [MASTER_GID],
          usr_keyring = Some \<lparr>kr_salt = salt, kr_nonce = nonce, kr_wrapped = wrapped\<rparr>\<rparr>,
         \<lparr>usr_name = GUEST_USER, usr_uid = GUEST_UID, usr_frozen = True, usr_gids = [], usr_keyring = None\<rparr>]\<rparr>"

definition initial_groups :: groups where
  "initial_groups =
     \<lparr>next_gid = 2, groups_list = [\<lparr>grp_name = MASTER_GROUP, grp_gid = MASTER_GID\<rparr>, \<lparr>grp_name = SUPER_GROUP, grp_gid = SUPER_GID\<rparr>]\<rparr>"

definition promote_meta :: "crypto \<Rightarrow> ('m, string, bytes) redb \<Rightarrow> bytes \<Rightarrow> bytes \<Rightarrow> users \<Rightarrow> 'm \<Rightarrow> 'm res" where
  "promote_meta C M key pubkey us meta =
     andThen (table_get M meta META_USERS_KEY) (\<lambda>g.
       if g \<noteq> None then Err (CannotAccess ''the database is already protected'')
       else
         andThen (users_store M us meta) (\<lambda>meta.
         andThen (groups_store M initial_groups meta) (\<lambda>meta.
         andThen (features_require M meta ''permissions'') (\<lambda>meta.
         andThen (table_insert M meta META_PUBKEY_KEY pubkey) (\<lambda>meta.
           seal_control C M key meta)))))"

text \<open>The back-fill of one a-node that was there before.\<close>

definition promote_node :: "build \<Rightarrow> crypto \<Rightarrow> ('n, bytes, bytes) redb \<Rightarrow> bytes \<Rightarrow> bytes \<Rightarrow> string \<Rightarrow> akey \<times> bytes \<Rightarrow> ('n, unit) op" where
  "promote_node B C N key seed table row =
     (case row of (akey, entry) \<Rightarrow>
        seqOp (if akey \<noteq> akey_ROOT then set_default_acl B N table akey MASTER_UID else retOp ())
          (bindOp (readOp (\<lambda>n. read_acl B N n table akey)) (\<lambda>a.
             let acl = (case a of Some a \<Rightarrow> acl_encode a | None \<Rightarrow> []) in
             seqOp (seal_mac B N table akey (mac_value C key table akey entry acl))
               (seal_sig B N table akey (sign_value C seed table akey entry acl)))))"

definition promote_table :: "build \<Rightarrow> crypto \<Rightarrow> ('n, bytes, bytes) redb \<Rightarrow> ('t, akey, bytes) redb \<Rightarrow> bytes \<Rightarrow> bytes \<Rightarrow> string \<times> 't \<Rightarrow> ('n, unit) op" where
  "promote_table B C N R key seed tbl =
     bindOp (liftOp (table_range R (snd tbl) 0)) (\<lambda>rows. forOp rows (promote_node B C N key seed (fst tbl)))"

definition promote_to_master ::
  "('t, 'n, 'm) padmin \<Rightarrow> bytes \<Rightarrow> bytes \<Rightarrow> bytes \<Rightarrow> bytes \<Rightarrow> string \<Rightarrow> (('t, 'n, 'm) pdb, session) op" where
  "promote_to_master A key seed salt nonce password =
     bindOp (liftOp (wrap_secrets (pa_crypto A) salt nonce password key seed)) (\<lambda>(salt, nonce, wrapped).
     engine_txn (
       seqOp (on_meta (promote_meta (pa_crypto A) (pa_meta A) key (ed_public (pa_crypto A) seed) (initial_users salt nonce wrapped)))
         (seqOp (\<lambda>d. let (r, n) = forOp (filter (\<lambda>t. \<not> is_reserved_table_name (fst t)) (pd_tables d))
                        (promote_table (pa_build A) (pa_crypto A) (pa_inodes A) (pa_data A) key seed) (pd_inodes d)
                    in (r, d\<lparr>pd_inodes := n\<rparr>))
           (retOp \<lparr>ses_name = MASTER_USER, ses_uid = MASTER_UID, ses_gids = [MASTER_GID], ses_key = key, ses_sign_seed = seed\<rparr>))))"

text \<open>The random bytes a promotion draws are \<open>key\<close> and \<open>seed\<close>.\<close>

definition change_password ::
  "('t, 'n, 'm) padmin \<Rightarrow> bytes \<Rightarrow> bytes \<Rightarrow> bytes \<Rightarrow> bytes \<Rightarrow> principal \<Rightarrow> string \<Rightarrow> (('t, 'n, 'm) pdb, principal) op" where
  "change_password A key seed salt nonce h new_password =
     (case h of
        Guest _ \<Rightarrow> liftOp (Err (PermissionDenied ''the guest user has no password to change''))
      | Unrestricted \<Rightarrow> bindOp (promote_to_master A key seed salt nonce new_password) (\<lambda>s. retOp (User s))
      | User s \<Rightarrow> seqOp (on_meta (change_user_password (pa_crypto A) (pa_meta A) salt nonce s new_password)) (retOp (User s)))"

section \<open>Administration\<close>

definition db_add_user :: "('t, 'n, 'm) padmin \<Rightarrow> bytes \<Rightarrow> bytes \<Rightarrow> principal \<Rightarrow> string \<Rightarrow> string \<Rightarrow> bool \<Rightarrow> (('t, 'n, 'm) pdb, unit) op" where
  "db_add_user A salt nonce h name password create_group =
     bindOp (liftOp (admin_creds h)) (\<lambda>(key, seed).
       on_meta (add_user (pa_crypto A) (pa_meta A) salt nonce key seed name password create_group))"

definition db_add_group :: "('t, 'n, 'm) padmin \<Rightarrow> principal \<Rightarrow> string \<Rightarrow> (('t, 'n, 'm) pdb, unit) op" where
  "db_add_group A h name = bindOp (liftOp (admin_key h)) (\<lambda>key. on_meta (add_group (pa_crypto A) (pa_meta A) key name))"

definition db_rename_user :: "('t, 'n, 'm) padmin \<Rightarrow> principal \<Rightarrow> string \<Rightarrow> string \<Rightarrow> (('t, 'n, 'm) pdb, unit) op" where
  "db_rename_user A h old new = bindOp (liftOp (admin_key h)) (\<lambda>key. on_meta (rename_user (pa_crypto A) (pa_meta A) key old new))"

definition db_rename_group :: "('t, 'n, 'm) padmin \<Rightarrow> principal \<Rightarrow> string \<Rightarrow> string \<Rightarrow> (('t, 'n, 'm) pdb, unit) op" where
  "db_rename_group A h old new = bindOp (liftOp (admin_key h)) (\<lambda>key. on_meta (rename_group (pa_crypto A) (pa_meta A) key old new))"

definition assign_user_to_group :: "('t, 'n, 'm) padmin \<Rightarrow> principal \<Rightarrow> string \<Rightarrow> string \<Rightarrow> (('t, 'n, 'm) pdb, unit) op" where
  "assign_user_to_group A h user grp = bindOp (liftOp (admin_key h)) (\<lambda>key. on_meta (assign (pa_crypto A) (pa_meta A) key user grp))"

definition remove_user_from_group :: "('t, 'n, 'm) padmin \<Rightarrow> principal \<Rightarrow> string \<Rightarrow> string \<Rightarrow> (('t, 'n, 'm) pdb, unit) op" where
  "remove_user_from_group A h user grp = bindOp (liftOp (admin_key h)) (\<lambda>key. on_meta (unassign (pa_crypto A) (pa_meta A) key user grp))"

definition db_list_users :: "('t, 'n, 'm) padmin \<Rightarrow> principal \<Rightarrow> ('t, 'n, 'm) pdb \<Rightarrow> string list res" where
  "db_list_users A h d = andThen (require_lister h) (\<lambda>_. list_users (pa_meta A) (pd_meta d))"

definition db_list_groups :: "('t, 'n, 'm) padmin \<Rightarrow> principal \<Rightarrow> ('t, 'n, 'm) pdb \<Rightarrow> string list res" where
  "db_list_groups A h d = andThen (require_lister h) (\<lambda>_. list_groups (pa_meta A) (pd_meta d))"

definition db_user_groups :: "('t, 'n, 'm) padmin \<Rightarrow> principal \<Rightarrow> string \<Rightarrow> ('t, 'n, 'm) pdb \<Rightarrow> string list res" where
  "db_user_groups A h user d = andThen (require_lister h) (\<lambda>_. user_groups (pa_meta A) user (pd_meta d))"

definition db_group_members :: "('t, 'n, 'm) padmin \<Rightarrow> principal \<Rightarrow> string \<Rightarrow> ('t, 'n, 'm) pdb \<Rightarrow> string list res" where
  "db_group_members A h grp d = andThen (require_lister h) (\<lambda>_. group_members (pa_meta A) grp (pd_meta d))"

definition db_remove_group :: "('t, 'n, 'm) padmin \<Rightarrow> principal \<Rightarrow> string \<Rightarrow> (('t, 'n, 'm) pdb, unit) op" where
  "db_remove_group A h name =
     bindOp (liftOp (admin_key h)) (\<lambda>key d.
       case remove_group (pa_build A) (pa_crypto A) (pa_meta A) (pa_inodes A) key name (pd_meta d, pd_inodes d) of
         Ok (m, n) \<Rightarrow> (Ok (), d\<lparr>pd_meta := m, pd_inodes := n\<rparr>)
       | Err e \<Rightarrow> (Err e, d) | Panic s \<Rightarrow> (Panic s, d) | Diverge \<Rightarrow> (Diverge, d))"

text \<open>The sweep of one table, through a context without write buffer.\<close>

definition reap_owned_in :: "nat \<Rightarrow> ('t, 'n, 'm) padmin \<Rightarrow> principal \<Rightarrow> u32 \<Rightarrow> string \<times> 't \<Rightarrow> ('n, string \<times> 't) op" where
  "reap_owned_in fuel A h uid tbl n =
     (let E = \<lparr>pe_data = pa_data A, pe_inodes = pa_inodes A, pe_build = pa_build A, pe_crypto = pa_crypto A, pe_table = fst tbl,
               pe_now = pa_now A, pe_principal = h\<rparr>;
          (r, p) = reap_owned fuel E uid \<lparr>pc_ctx = \<lparr>ctx_data = snd tbl, ctx_buf = wb_new False, ctx_rng = 0\<rparr>, pc_inodes = n, pc_verified = {}\<rparr>
      in (andThen r (\<lambda>_. Ok (fst tbl, ctx_data (pc_ctx p))), pc_inodes p))"

definition remove_user :: "nat \<Rightarrow> ('t, 'n, 'm) padmin \<Rightarrow> principal \<Rightarrow> string \<Rightarrow> (('t, 'n, 'm) pdb, unit) op" where
  "remove_user fuel A h name =
     bindOp (liftOp (admin_key h)) (\<lambda>key.
     bindOp (readOp (\<lambda>d. uid_of (pa_meta A) (pd_meta d) name)) (\<lambda>uid.
     bindOp (liftOp (ok_or uid (no_user_error name))) (\<lambda>uid.
       if is_protected_user uid then liftOp (Err (PermissionDenied (''the built-in user '' @ quoted name @ '' cannot be removed'')))
       else
         engine_txn (
           seqOp (\<lambda>d. let (r, n) = mapOp (\<lambda>t. if is_reserved_table_name (fst t) then retOp t else reap_owned_in fuel A h uid t) (pd_tables d) (pd_inodes d)
                     in case r of
                          Ok ts \<Rightarrow> (Ok (), d\<lparr>pd_tables := ts, pd_inodes := n\<rparr>)
                        | Err e \<Rightarrow> (Err e, d\<lparr>pd_inodes := n\<rparr>) | Panic s \<Rightarrow> (Panic s, d) | Diverge \<Rightarrow> (Diverge, d))
             (on_meta (forget_user (pa_crypto A) (pa_meta A) key uid))))))"

end
