(* ===== verification/Admin_Laws.thy ===== *)
theory Admin_Laws
  imports Perm_Admin
begin

text \<open>
  Every administrative operation, called on any handle of a protected database, keeps the permission store sealed.
\<close>

section \<open>Calls\<close>

datatype admin_op =
    Add_User bytes bytes string string bool
  | Add_Group string
  | Rename_User string string
  | Rename_Group string string
  | Assign_User string string
  | Unassign_User string string
  | Remove_Group string
  | Remove_User string
  | Change_Password bytes bytes string

definition run_admin :: "nat \<Rightarrow> ('t, 'n, 'm) padmin \<Rightarrow> principal \<Rightarrow> admin_op \<Rightarrow> (('t, 'n, 'm) pdb, unit) op" where
  "run_admin fuel A h a =
     (case a of
        Add_User salt nonce name password create_group \<Rightarrow> db_add_user A salt nonce h name password create_group
      | Add_Group name \<Rightarrow> db_add_group A h name
      | Rename_User old new \<Rightarrow> db_rename_user A h old new
      | Rename_Group old new \<Rightarrow> db_rename_group A h old new
      | Assign_User user grp \<Rightarrow> assign_user_to_group A h user grp
      | Unassign_User user grp \<Rightarrow> remove_user_from_group A h user grp
      | Remove_Group name \<Rightarrow> db_remove_group A h name
      | Remove_User name \<Rightarrow> remove_user fuel A h name
      | Change_Password salt nonce password \<Rightarrow> seqOp (change_password A [] [] salt nonce h password) (retOp ()))"

text \<open>A handle of the protected database: a guest, or a user holding the database's key.\<close>

definition handle_ok :: "bytes \<Rightarrow> principal \<Rightarrow> bool" where
  "handle_ok key h \<longleftrightarrow> (case h of Unrestricted \<Rightarrow> False | Guest _ \<Rightarrow> True | User s \<Rightarrow> ses_key s = key \<and> ses_uid s \<noteq> GUEST_UID)"

definition admin_op_ok :: "admin_op \<Rightarrow> bool" where
  "admin_op_ok a =
     (case a of
        Add_User salt nonce name password create_group \<Rightarrow> length salt = SALT_LEN \<and> length nonce = NONCE_LEN \<and> text_ok name
      | Add_Group name \<Rightarrow> text_ok name
      | Rename_User old new \<Rightarrow> text_ok new
      | Rename_Group old new \<Rightarrow> text_ok new
      | Change_Password salt nonce password \<Rightarrow> length salt = SALT_LEN \<and> length nonce = NONCE_LEN
      | _ \<Rightarrow> True)"

definition padmin_ok :: "('t, 'n, 'm) padmin \<Rightarrow> bool" where
  "padmin_ok A \<longleftrightarrow> crypto_ok (pa_crypto A) \<and> permissions (pa_build A)"

lemma admin_key_ok: "admin_key h = Ok k \<Longrightarrow> handle_ok key h \<Longrightarrow> k = key"
  by (auto simp: admin_key_def handle_ok_def split: principal.splits if_splits)

lemma admin_creds_ok: "admin_creds h = Ok (k, sd) \<Longrightarrow> handle_ok key h \<Longrightarrow> k = key"
  by (auto simp: admin_creds_def handle_ok_def split: principal.splits if_splits)

lemma on_meta_sealed:
  assumes "sealed C M key pk (Suc n) (pd_meta d)" "keeps C M key pk n (f (pd_meta d))"
  shows "sealed C M key pk n (pd_meta (snd (on_meta f d)))"
  using assms sealed_Suc [OF assms(1)] by (cases "f (pd_meta d)") (simp_all add: on_meta_def keeps_def)

lemma keyed_on_meta_sealed:
  assumes "sealed C M key pk (Suc n) (pd_meta d)" "handle_ok key h" "keeps C M key pk n (f key (pd_meta d))"
  shows "sealed C M key pk n (pd_meta (snd (bindOp (liftOp (admin_key h)) (\<lambda>key. on_meta (f key)) d)))"
proof (cases "admin_key h")
  case (Ok k)
  then show ?thesis using admin_key_ok [OF Ok assms(2)] on_meta_sealed [of C M key pk n d "f key"] assms(1,3) by (simp add: bindOp_def)
qed (use sealed_Suc [OF assms(1)] in \<open>simp_all add: bindOp_def\<close>)

lemma remove_group_sealed:
  assumes "sealed C M key pk (Suc n) (pd_meta d)" "handle_ok key h" "C = pa_crypto A" "M = pa_meta A"
  shows "sealed C M key pk n (pd_meta (snd (db_remove_group A h name d)))"
proof -
  note same = sealed_Suc [OF assms(1)]
  obtain us gs where st: "perm_state C M key pk (Suc n) us gs (pd_meta d)" using assms(1) by (auto simp: sealed_state)
  show ?thesis
  proof (cases "admin_key h")
    case (Ok k)
    have k: "k = key" by (rule admin_key_ok [OF Ok assms(2)])
    show ?thesis
    proof (cases "remove_group (pa_build A) C M (pa_inodes A) key name (pd_meta d, pd_inodes d)")
      case r: (Ok mn)
      obtain m i where mn: "mn = (m, i)" by (cases mn)
      obtain gid where "remove_group_meta C M key name (pd_meta d) = Ok (gid, m)" using r mn by (auto simp: remove_group_def case_prod_beta)
      then have "sealed C M key pk n m" using remove_group_keeps [OF st, of name] by (simp add: keeps_def)
      then show ?thesis using Ok k r mn assms(3,4) by (simp add: db_remove_group_def bindOp_def)
    qed (use Ok k same assms(3,4) in \<open>simp_all add: db_remove_group_def bindOp_def\<close>)
  qed (use same in \<open>simp_all add: db_remove_group_def bindOp_def\<close>)
qed

lemma remove_user_sealed:
  fixes A :: "('t, 'n, 'm) padmin" and d :: "('t, 'n, 'm) pdb"
  assumes "sealed C M key pk (Suc n) (pd_meta d)" "handle_ok key h" "C = pa_crypto A" "M = pa_meta A"
  shows "sealed C M key pk n (pd_meta (snd (remove_user fuel A h name d)))"
proof -
  note same = sealed_Suc [OF assms(1)]
  obtain us gs where st: "perm_state C M key pk (Suc n) us gs (pd_meta d)" using assms(1) by (auto simp: sealed_state)
  have forget: "sealed C M key pk n (pd_meta (snd (on_meta (forget_user C M key uid) d')))" if "pd_meta d' = pd_meta d" "\<not> is_protected_user uid" for d' :: "('t, 'n, 'm) pdb" and uid
    using on_meta_sealed [of C M key pk n d' "forget_user C M key uid"] forget_user_keeps [OF st, of uid] assms(1) that by (simp add: is_protected_user_def)
  show ?thesis
  proof (cases "admin_key h")
    case (Ok k)
    have k: "k = key" by (rule admin_key_ok [OF Ok assms(2)])
    let ?sweep = "\<lambda>uid (d :: ('t, 'n, 'm) pdb). let (r, n) = mapOp (\<lambda>t. if is_reserved_table_name (fst t) then retOp t else reap_owned_in fuel A h uid t) (pd_tables d) (pd_inodes d)
       in case r of Ok ts \<Rightarrow> (Ok (), d\<lparr>pd_tables := ts, pd_inodes := n\<rparr>) | Err e \<Rightarrow> (Err e, d\<lparr>pd_inodes := n\<rparr>) | Panic s \<Rightarrow> (Panic s, d) | Diverge \<Rightarrow> (Diverge, d)"
    have sweep: "pd_meta (snd (?sweep uid d)) = pd_meta d" for uid by (simp add: Let_def case_prod_beta split: res.split)
    have txn: "sealed C M key pk n (pd_meta (snd (engine_txn (seqOp (?sweep uid) (on_meta (forget_user C M key uid))) d)))" if "\<not> is_protected_user uid" for uid
    proof -
      obtain r d1 where s: "?sweep uid d = (r, d1)" by (cases "?sweep uid d")
      have meta: "pd_meta d1 = pd_meta d" using sweep [of uid] s by simp
      obtain r2 d2 where f: "on_meta (forget_user C M key uid) d1 = (r2, d2)" by (cases "on_meta (forget_user C M key uid) d1")
      have "sealed C M key pk n (pd_meta d2)" using forget [OF meta that] f by simp
      then show ?thesis using s f same unfolding engine_txn_def seqOp_def bindOp_def by (cases r; cases r2) simp_all
    qed
    obtain x where x: "uid_of M (pd_meta d) name = x" by blast
    show ?thesis
    proof (cases x)
      case o: (Ok v)
      show ?thesis
      proof (cases v)
        case (Some uid)
        then show ?thesis using Ok k x o txn [of uid] same assms(3,4)
          by (simp add: remove_user_def bindOp_def [of "liftOp _"] bindOp_def [of "readOp _"])
      qed (use Ok x o same assms(4) in \<open>simp add: remove_user_def bindOp_def\<close>)
    qed (use Ok x same assms(4) in \<open>simp_all add: remove_user_def bindOp_def\<close>)
  qed (use same in \<open>simp_all add: remove_user_def bindOp_def\<close>)
qed

lemma run_admin_sealed:
  assumes d: "sealed C M key pk (Suc n) (pd_meta d)" and h: "handle_ok key h" and a: "admin_op_ok a" and A: "padmin_ok A" "C = pa_crypto A" "M = pa_meta A"
  shows "sealed C M key pk n (pd_meta (snd (run_admin fuel A h a d)))"
proof -
  note same = sealed_Suc [OF d]
  obtain us gs where st: "perm_state C M key pk (Suc n) us gs (pd_meta d)" using d by (auto simp: sealed_state)
  have C: "crypto_ok C" using A by (simp add: padmin_ok_def)
  note keyed = keyed_on_meta_sealed [OF d h]
  show ?thesis
  proof (cases a)
    case (Add_User salt nonce name password create_group)
    show ?thesis
    proof (cases "admin_creds h")
      case (Ok ks)
      obtain k sd where ks: "ks = (k, sd)" by (cases ks)
      have "k = key" using admin_creds_ok [OF Ok [unfolded ks] h] .
      then show ?thesis
        using Ok ks Add_User a A(2,3) on_meta_sealed [OF d, of "add_user C M salt nonce key sd name password create_group"] add_user_keeps [OF st C, of salt nonce name sd password create_group]
        by (simp add: run_admin_def db_add_user_def bindOp_def admin_op_ok_def)
    qed (use Add_User same in \<open>simp_all add: run_admin_def db_add_user_def bindOp_def\<close>)
  next
    case (Change_Password salt nonce password)
    show ?thesis
    proof (cases h)
      case (User s)
      let ?f = "change_user_password C M salt nonce s password"
      have "keeps C M key pk n (?f (pd_meta d))"
        using change_user_password_keeps [of C M s pk n us gs "pd_meta d" salt nonce password] st C a h User Change_Password by (simp add: handle_ok_def admin_op_ok_def)
      with on_meta_sealed [OF d, of ?f] show ?thesis
        using User Change_Password A(2,3) by (cases "fst (on_meta ?f d)") (auto simp: run_admin_def change_password_def seqOp_def bindOp_def case_prod_beta split: prod.splits res.splits)
    qed (use Change_Password same h in \<open>simp_all add: run_admin_def change_password_def seqOp_def bindOp_def handle_ok_def\<close>)
  qed (use a h d A keyed same add_group_keeps [OF st] rename_user_keeps [OF st] rename_group_keeps [OF st] assign_keeps [OF st] unassign_keeps [OF st]
      remove_group_sealed [OF d h] remove_user_sealed [OF d h] in
      \<open>simp_all add: run_admin_def admin_op_ok_def db_add_group_def db_rename_user_def db_rename_group_def assign_user_to_group_def remove_user_from_group_def\<close>)
qed

end
