(* ===== verification/Promotion.thy ===== *)
theory Promotion
  imports Admin_Laws Protected_Laws
begin

text \<open>
  Promoting a database to a protected one: the first users and groups, the control plane, and the tags of the a-nodes that were there
  before. A promoted database is one the other theories start from: its permission store is sealed, and so is every table.
\<close>

section \<open>The metadata\<close>

lemma initial_ok:
  assumes "crypto_ok C" "length salt = SALT_LEN" "length nonce = NONCE_LEN" "wrap_secrets C salt nonce password key seed = Ok (s, n, w)"
  shows "users_ok (initial_users s n w)" "groups_ok initial_groups" "perm_inv (initial_users s n w) initial_groups"
    "m < 2 ^ 20 \<Longrightarrow> room m (initial_users s n w) initial_groups"
proof -
  have utf: "utf8 MASTER_USER \<and> utf8 GUEST_USER \<and> utf8 SUPER_GROUP" by code_simp
  note W = wrapped_ok [OF assms]
  show "users_ok (initial_users s n w)" using W utf
    by (simp add: users_ok_def initial_users_def user_ok_def text_ok_def length_users_bytes length_user_bytes usize_bound_def keyring_ok_def [of None] keyring_bytes_def [of None])
  show "groups_ok initial_groups" using utf by (simp add: groups_ok_def initial_groups_def text_ok_def length_groups_bytes group_bytes_def usize_bound_def)
  show "perm_inv (initial_users s n w) initial_groups"
    by (simp add: perm_inv_def groups_inv_def users_inv_def initial_users_def initial_groups_def)
  assume "m < 2 ^ 20"
  then show "room m (initial_users s n w) initial_groups" using W
    by (simp add: room_def initial_users_def initial_groups_def length_users_bytes length_user_bytes length_groups_bytes group_bytes_def keyring_bytes_def [of None])
qed

lemma promote_meta_holds:
  assumes "redb_ok M" "users_ok us" "contents M meta META_USERS_KEY = None" "contents M meta META_EPOCH_KEY = None" "contents M meta META_REQUIRED_FEATURES_KEY = None"
  shows "\<exists>meta'. promote_meta C M key pk us meta = Ok meta' \<and> holds_perm C M key pk 1 us initial_groups meta' \<and> is_protected M meta' = Ok True"
proof -
  note ins = redb_insert [OF assms(1)]
  obtain m1 where m1: "table_insert M meta META_USERS_KEY (users_bytes us) = Ok m1" "contents M m1 = (contents M meta)(META_USERS_KEY := Some (users_bytes us))" by (rule ins)
  obtain m2 where m2: "table_insert M m1 META_GROUPS_KEY (groups_bytes initial_groups) = Ok m2" "contents M m2 = (contents M m1)(META_GROUPS_KEY := Some (groups_bytes initial_groups))" by (rule ins)
  have "utf8 ''permissions''" by code_simp
  then have ok: "text_ok ''permissions''" by (simp add: text_ok_def)
  have none: "features_list M m2 = Ok []" using assms(5) m1(2) m2(2) by (simp add: features_list_def redb_get [OF assms(1)])
  obtain m3 where m3: "features_require M m2 ''permissions'' = Ok m3" "features_list M m3 = Ok [''permissions'']"
    "contents M m3 = (contents M m2)(META_REQUIRED_FEATURES_KEY := Some (features_bytes [''permissions'']))"
    using features_require_lists [OF assms(1) none, of "''permissions''"] ok by (auto simp: features_bytes_def usize_bound_def)
  obtain m4 where m4: "table_insert M m3 META_PUBKEY_KEY pk = Ok m4" "contents M m4 = (contents M m3)(META_PUBKEY_KEY := Some pk)" by (rule ins)
  have "utf8 MASTER_USER \<and> utf8 SUPER_GROUP" by code_simp
  then have g: "groups_ok initial_groups" by (simp add: groups_ok_def initial_groups_def text_ok_def length_groups_bytes group_bytes_def usize_bound_def)
  have "read_epoch M m4 = Ok 0" using assms(4) m1(2) m2(2) m3(3) m4(2) by (simp add: read_epoch_def redb_get [OF assms(1)])
  from seal_control_holds [OF assms(1,2) g _ _ _ this, of pk C key] obtain m5 where m5: "seal_control C M key m4 = Ok m5" "holds_perm C M key pk 1 us initial_groups m5"
    "\<And>k. k \<notin> {META_EPOCH_KEY, META_CONTROL_MAC_KEY} \<Longrightarrow> contents M m5 k = contents M m4 k" using m1(2) m2(2) m3(3) m4(2) by auto
  have "contents M m5 META_REQUIRED_FEATURES_KEY = contents M m3 META_REQUIRED_FEATURES_KEY" using m5(3) [of META_REQUIRED_FEATURES_KEY] m4(2) by simp
  then have "features_list M m5 = Ok [''permissions'']" using m3(2) by (simp add: features_list_def redb_get [OF assms(1)])
  then have "is_protected M m5 = Ok True" by (simp add: is_protected_def)
  moreover have "promote_meta C M key pk us meta = Ok m5"
    using assms(3) m1(1) m2(1) m3(1) m4(1) m5(1)
    by (simp add: promote_meta_def redb_get [OF assms(1)] users_store_def users_encode_eq groups_store_def groups_encode_eq)
  ultimately show ?thesis using m5(2) by blast
qed

section \<open>The back-fill\<close>

definition tagged :: "crypto \<Rightarrow> bytes \<Rightarrow> bytes \<Rightarrow> string \<Rightarrow> akey \<Rightarrow> bytes \<Rightarrow> inode option \<Rightarrow> bool" where
  "tagged C key seed t k e v \<longleftrightarrow> (\<exists>i. v = Some i \<and> (k \<noteq> akey_ROOT \<longrightarrow> ino_acl i \<noteq> None) \<and>
     ino_mac i = Some (mac_value C key t k e (acl_bytes (ino_acl i))) \<and> ino_sig i = Some (sign_value C seed t k e (acl_bytes (ino_acl i))))"

lemma promote_node_holds:
  assumes "holds_inodes B N n I" "permissions B" "crypto_ok C"
  shows "\<exists>n' v. promote_node B C N key seed t (k, e) n = (Ok (), n') \<and> holds_inodes B N n' (with_inode t k v I) \<and> tagged C key seed t k e v"
proof -
  obtain n1 J where n1: "(if k \<noteq> akey_ROOT then set_default_acl B N t k MASTER_UID else retOp ()) n = (Ok (), n1)" "holds_inodes B N n1 J"
    and J: "\<And>v. with_inode t k v J = with_inode t k v I" "k \<noteq> akey_ROOT \<Longrightarrow> ino_acl (inode_of J t k) \<noteq> None"
  proof (cases "k = akey_ROOT \<or> ino_acl (inode_of I t k) \<noteq> None")
    case True
    then show thesis using set_default_acl_updates [OF assms(1,2), of t k MASTER_UID] assms(1) that [of _ I] by (cases "k = akey_ROOT") auto
  next
    case False
    let ?J = "with_inode t k (Some ((inode_of I t k)\<lparr>ino_acl := Some (acl_default_for MASTER_UID)\<rparr>)) I"
    have "with_inode t k v ?J = with_inode t k v I" for v by (simp add: with_inode_def)
    then show thesis using set_default_acl_updates [OF assms(1,2), of t k MASTER_UID] False that [of _ ?J] by auto
  qed
  define i where "i = inode_of J t k"
  let ?mac = "mac_value C key t k e (acl_bytes (ino_acl i))" and ?sig = "sign_value C seed t k e (acl_bytes (ino_acl i))"
  have len: "length ?mac = 32" "length ?sig = 64" using crypto_okD(2,4) [OF assms(3)] by (simp_all add: mac_value_def sign_value_def)
  obtain n2 where n2: "seal_mac B N t k ?mac n1 = (Ok (), n2)" "holds_inodes B N n2 (with_inode t k (Some (i\<lparr>ino_mac := Some ?mac\<rparr>)) I)"
    using seal_mac_updates [OF n1(2) assms(2) len(1), of t k] n1(2) J(1) unfolding updates_def i_def [symmetric] by auto
  let ?v = "Some (i\<lparr>ino_mac := Some ?mac, ino_sig := Some ?sig\<rparr>)"
  have twice: "with_inode t k x (with_inode t k y I) = with_inode t k x I" for x y by (simp add: with_inode_def)
  obtain n3 where n3: "seal_sig B N t k ?sig n2 = (Ok (), n3)" "holds_inodes B N n3 (with_inode t k ?v I)"
    using seal_sig_updates [OF n2(2) assms(2) len(2), of t k] n2(2) unfolding updates_def twice by auto
  have "tagged C key seed t k e ?v" using J(2) by (simp add: tagged_def i_def)
  moreover have "promote_node B C N key seed t (k, e) n = (Ok (), n3)"
  proof -
    have "bindOp (readOp (\<lambda>n. read_acl B N n t k)) (\<lambda>a. let acl = (case a of Some a \<Rightarrow> acl_encode a | None \<Rightarrow> []) in
       seqOp (seal_mac B N t k (mac_value C key t k e acl)) (seal_sig B N t k (sign_value C seed t k e acl))) n1 = (Ok (), n3)"
      using read_acl_holds [OF n1(2), of t k, folded i_def] n2(1) n3(1) by (simp add: bindOp_def seqOp_def acl_bytes_def Let_def)
    moreover have "seqOp (if k \<noteq> akey_ROOT then set_default_acl B N t k MASTER_UID else retOp ()) g n = g n1" for g :: "('a, unit) op" using n1(1) by (rule seqOp_Ok)
    ultimately show ?thesis unfolding promote_node_def prod.case by (simp only:)
  qed
  ultimately show ?thesis using n3(2) by blast
qed

text \<open>All rows of a table, then all tables; what is not visited stays as it is.\<close>

lemma promote_rows_hold:
  assumes "holds_inodes B N n I" "permissions B" "crypto_ok C" "distinct (map fst rows)"
  shows "\<exists>n' J. forOp rows (promote_node B C N key seed t) n = (Ok (), n') \<and> holds_inodes B N n' J \<and>
    (\<forall>k e. (k, e) \<in> set rows \<longrightarrow> tagged C key seed t k e (J t k)) \<and> (\<forall>t' k. t' \<noteq> t \<or> k \<notin> fst ` set rows \<longrightarrow> J t' k = I t' k)"
  using assms(1,4)
proof (induction rows arbitrary: n I)
  case (Cons r rows)
  obtain k e where r: "r = (k, e)" by (cases r)
  obtain n1 v where n1: "promote_node B C N key seed t (k, e) n = (Ok (), n1)" "holds_inodes B N n1 (with_inode t k v I)" "tagged C key seed t k e v"
    using promote_node_holds [OF Cons.prems(1) assms(2,3)] by blast
  have "distinct (map fst rows)" using Cons.prems(2) by simp
  from Cons.IH [OF n1(2) this] obtain n2 J where n2: "forOp rows (promote_node B C N key seed t) n1 = (Ok (), n2)" "holds_inodes B N n2 J"
    "\<forall>k e. (k, e) \<in> set rows \<longrightarrow> tagged C key seed t k e (J t k)" "\<forall>t' j. t' \<noteq> t \<or> j \<notin> fst ` set rows \<longrightarrow> J t' j = with_inode t k v I t' j" by blast
  have "J t k = v" using n2(4) Cons.prems(2) r by (simp add: image_iff)
  then have "\<forall>j f. (j, f) \<in> set (r # rows) \<longrightarrow> tagged C key seed t j f (J t j)" using n2(3) n1(3) r by auto
  moreover have "\<forall>t' j. t' \<noteq> t \<or> j \<notin> fst ` set (r # rows) \<longrightarrow> J t' j = I t' j" using n2(4) r by auto
  moreover have "forOp (r # rows) (promote_node B C N key seed t) n = (Ok (), n2)" using n1(1) n2(1) r by (simp add: seqOp_def bindOp_def)
  ultimately show ?case using n2(2) by blast
qed auto

lemma promote_tables_hold:
  assumes "holds_inodes B N n I" "permissions B" "crypto_ok C" "redb_ok R" "distinct (map fst tables)"
  shows "\<exists>n' J. forOp tables (promote_table B C N R key seed) n = (Ok (), n') \<and> holds_inodes B N n' J \<and>
    (\<forall>t tb k e. (t, tb) \<in> set tables \<longrightarrow> contents R tb k = Some e \<longrightarrow> tagged C key seed t k e (J t k)) \<and> (\<forall>t k. t \<notin> fst ` set tables \<longrightarrow> J t k = I t k)"
  using assms(1,5)
proof (induction tables arbitrary: n I)
  case (Cons x tables)
  obtain t tb where x: "x = (t, tb)" by (cases x)
  obtain es where es: "table_range R tb 0 = Ok es" "bt_ok es" "\<And>j v. (j, v) \<in> set es \<longleftrightarrow> 0 \<le> j \<and> contents R tb j = Some v"
    using redb_range [OF assms(4), of tb 0] by blast
  obtain n1 I1 where n1: "forOp es (promote_node B C N key seed t) n = (Ok (), n1)" "holds_inodes B N n1 I1"
    "\<forall>k e. (k, e) \<in> set es \<longrightarrow> tagged C key seed t k e (I1 t k)" "\<forall>t' k. t' \<noteq> t \<or> k \<notin> fst ` set es \<longrightarrow> I1 t' k = I t' k"
    using promote_rows_hold [OF Cons.prems(1) assms(2,3) bt_ok_distinct [OF es(2)]] by blast
  have "distinct (map fst tables)" using Cons.prems(2) by simp
  from Cons.IH [OF n1(2) this] obtain n2 J where n2: "forOp tables (promote_table B C N R key seed) n1 = (Ok (), n2)" "holds_inodes B N n2 J"
    "\<forall>t tb k e. (t, tb) \<in> set tables \<longrightarrow> contents R tb k = Some e \<longrightarrow> tagged C key seed t k e (J t k)" "\<forall>t k. t \<notin> fst ` set tables \<longrightarrow> J t k = I1 t k" by blast
  have "J t k = I1 t k" for k using n2(4) Cons.prems(2) x by (simp add: image_iff)
  then have "\<forall>u ub k e. (u, ub) \<in> set (x # tables) \<longrightarrow> contents R ub k = Some e \<longrightarrow> tagged C key seed u k e (J u k)" using n2(3) n1(3) es(3) x by auto
  moreover have "\<forall>u k. u \<notin> fst ` set (x # tables) \<longrightarrow> J u k = I u k" using n2(4) n1(4) x by auto
  moreover have "forOp (x # tables) (promote_table B C N R key seed) n = (Ok (), n2)"
    using n1(1) n2(1) x es(1) by (simp add: seqOp_def bindOp_def promote_table_def)
  ultimately show ?case using n2(2) by blast
qed auto

section \<open>Authentication\<close>

lemma authenticate_record:
  assumes "perm_state C M key pk n us gs meta" "crypto_ok C" "find_user name us = Some u" "usr_keyring u = Some \<lparr>kr_salt = sa, kr_nonce = no, kr_wrapped = w\<rparr>"
    and "wrap_secrets C salt nonce password key seed = Ok (sa, no, w)"
  shows "authenticate C M name password meta =
    Ok \<lparr>ses_name = usr_name u, ses_uid = usr_uid u, ses_gids = usr_gids u, ses_key = key, ses_sign_seed = seed\<rparr>"
proof -
  have len: "length key = KEY_LEN" "length seed = SEED_LEN" and w: "wrap_key C salt nonce password (key @ seed) = Ok (sa, no, w)"
    using assms(5) by (simp_all add: wrap_secrets_def split: if_splits)
  have "unwrap_key C password sa no w = Ok (key @ seed)" using unwrap_wrap(3) [OF assms(2) w] .
  moreover have "split_secrets (key @ seed) = Ok (key, seed)" using len by (simp add: split_secrets_def)
  ultimately show ?thesis using perm_stateD(1,9) [OF assms(1)] assms(3,4) by (simp add: authenticate_def)
qed

text \<open>Nobody authenticates as the guest, whatever the password.\<close>

lemma guest_refused:
  assumes "perm_state C M key pk n us gs meta"
  shows "authenticate C M GUEST_USER password meta = Err AuthenticationFailed"
proof -
  note D = perm_stateD [OF assms]
  obtain g where g: "g \<in> set (users_list us)" "usr_name g = GUEST_USER" "usr_keyring g = None" using users_invD(6) [OF D(6)] by blast
  obtain u where u: "find_user GUEST_USER us = Some u" using g find_user_None [of GUEST_USER us] by (cases "find_user GUEST_USER us") force+
  have "u = g" using find_user_Some [OF u] g users_invD(1) [OF D(6)] by (auto simp: distinct_map inj_on_def)
  then show ?thesis using u g(3) D(1) by (simp add: authenticate_def)
qed

section \<open>Properties\<close>

text \<open>The context in which a session first opens a table.\<close>

definition session_env :: "('t, 'n, 'm) padmin \<Rightarrow> session \<Rightarrow> string \<Rightarrow> ('t, 'n) penv" where
  "session_env A s t = \<lparr>pe_data = pa_data A, pe_inodes = pa_inodes A, pe_build = pa_build A, pe_crypto = pa_crypto A, pe_table = t, pe_now = pa_now A,
     pe_principal = User s\<rparr>"

definition session_ctx :: "('t, 'n, 'm) pdb \<Rightarrow> bool \<Rightarrow> u64 \<Rightarrow> 't \<Rightarrow> ('t, 'n) pctx" where
  "session_ctx d b rng tb = \<lparr>pc_ctx = \<lparr>ctx_data = tb, ctx_buf = wb_new b, ctx_rng = rng\<rparr>, pc_inodes = pd_inodes d, pc_verified = {}\<rparr>"


text \<open>C13: the permission store survives every sequence of administrative calls. Let any handles of a protected database, guests and users alike, call any of
  the administrative operations in any order, some of them failing. Afterwards the control tag still verifies under the database's key, user names and
  ids and group names and ids are unique and below their allocators, every member of a user's group list exists, the master user still has
  a password, and the guest is frozen, in no group and without a password.\<close>

theorem admin_sequence:
  assumes "sealed (pa_crypto A) (pa_meta A) key pk (length calls) (pd_meta d)" "padmin_ok A"
    and "\<And>h a. (h, a) \<in> set calls \<Longrightarrow> handle_ok key h \<and> admin_op_ok a"
  shows "\<exists>us gs. users_load (pa_meta A) (pd_meta (fold (\<lambda>(h, a) d. snd (run_admin fuel A h a d)) calls d)) = Ok us \<and>
    groups_load (pa_meta A) (pd_meta (fold (\<lambda>(h, a) d. snd (run_admin fuel A h a d)) calls d)) = Ok gs \<and> perm_inv us gs \<and>
    verify_control (pa_crypto A) (pa_meta A) key (pd_meta (fold (\<lambda>(h, a) d. snd (run_admin fuel A h a d)) calls d)) = Ok ()"
proof -
  have "sealed (pa_crypto A) (pa_meta A) key pk 0 (pd_meta (fold (\<lambda>(h, a) d. snd (run_admin fuel A h a d)) calls d))"
    using assms(1,3)
  proof (induction calls arbitrary: d)
    case (Cons c calls)
    obtain h a where c: "c = (h, a)" by (cases c)
    have "sealed (pa_crypto A) (pa_meta A) key pk (length calls) (pd_meta (snd (run_admin fuel A h a d)))"
      using Cons.prems(1) Cons.prems(2) [of h a] assms(2) by (intro run_admin_sealed) (simp_all add: c)
    from Cons.IH [OF this] show ?case using Cons.prems(2) by (simp add: c) blast
  qed simp
  then obtain us gs where "perm_state (pa_crypto A) (pa_meta A) key pk 0 us gs (pd_meta (fold (\<lambda>(h, a) d. snd (run_admin fuel A h a d)) calls d))" by (auto simp: sealed_state)
  from perm_stateD(1,2,8,9) [OF this] show ?thesis by blast
qed

text \<open>A user who was added can authenticate. After \<open>add_user\<close> succeeds, authentication with that name and password yields a session that carries
  the name, an id no earlier user had and the database's key and signing seed; the guest still cannot authenticate.\<close>

theorem added_user_authenticates:
  assumes "sealed C M key pk 1 meta" "crypto_ok C" "length salt = SALT_LEN" "length nonce = NONCE_LEN" "text_ok name"
    and "add_user C M salt nonce key seed name password create_group meta = Ok meta'"
  shows "\<exists>us s. users_load M meta = Ok us \<and> authenticate C M name password meta' = Ok s \<and> ses_name s = name \<and> ses_key s = key \<and> ses_sign_seed s = seed \<and>
    ses_uid s \<notin> usr_uid ` set (users_list us) \<and> authenticate C M GUEST_USER any_password meta' = Err AuthenticationFailed"
proof -
  obtain us gs where st: "perm_state C M key pk (Suc 0) us gs meta" using assms(1) by (auto simp: sealed_state)
  note D = perm_stateD [OF st]
  obtain w gids gs' where w: "wrap_secrets C salt nonce password key seed = Ok w" "find_user name us = None" "perm_state C M key pk 0 (pushed_user name gids w us) gs' meta'"
    using add_user_state [OF st assms(2-6)] by blast
  obtain sa no wr where w': "w = (sa, no, wr)" by (cases w)
  let ?u = "last (users_list (pushed_user name gids w us))"
  have "find_user name (pushed_user name gids w us) = Some ?u"
    using w(2) by (auto simp: find_user_def pushed_user_def find_append)
  from authenticate_record [OF w(3) assms(2) this _ w(1) [unfolded w']]
  have "authenticate C M name password meta' = Ok \<lparr>ses_name = name, ses_uid = next_uid us, ses_gids = gids, ses_key = key, ses_sign_seed = seed\<rparr>"
    by (simp add: pushed_user_def w')
  moreover have "next_uid us \<notin> usr_uid ` set (users_list us)" using users_invD(3) [OF D(6)] by auto
  ultimately show ?thesis using D(1) guest_refused [OF w(3)] by auto
qed

section \<open>A sample database\<close>

definition sample_admin :: "((akey, bytes) btree, (bytes, bytes) btree, (string, bytes) btree) padmin" where
  "sample_admin = \<lparr>pa_data = btree_redb, pa_inodes = btree_redb, pa_meta = btree_redb, pa_build = full_build, pa_crypto = clear_crypto, pa_now = 1000\<rparr>"

definition plain_db :: "((akey, bytes) btree, (bytes, bytes) btree, (string, bytes) btree) pdb" where
  "plain_db = \<lparr>pd_tables = [(''t'', [(akey_ROOT, [0]), (5, [1, 2])])], pd_inodes = [], pd_meta = []\<rparr>"

abbreviation (input) sample_key :: bytes where "sample_key \<equiv> replicate 32 7"
abbreviation (input) sample_seed :: bytes where "sample_seed \<equiv> replicate 32 9"
abbreviation (input) sample_salt :: bytes where "sample_salt \<equiv> replicate 16 1"
abbreviation (input) sample_nonce :: bytes where "sample_nonce \<equiv> replicate 24 2"

definition sample_master :: session where
  "sample_master = \<lparr>ses_name = MASTER_USER, ses_uid = MASTER_UID, ses_gids = [MASTER_GID], ses_key = sample_key, ses_sign_seed = sample_seed\<rparr>"

lemma sample_wrap: "wrap_secrets clear_crypto sample_salt sample_nonce password sample_key sample_seed =
    Ok (sample_salt, sample_nonce, pad 16 (as_bytes password @ sample_salt) @ sample_key @ sample_seed)"
  by (simp add: wrap_secrets_def wrap_key_def derive_kek_def clear_crypto_def)

definition sample_users :: users where
  "sample_users = initial_users sample_salt sample_nonce (pad 16 (as_bytes ''pw'' @ sample_salt) @ sample_key @ sample_seed)"

lemma sample_meta:
  obtains m where "perm_state clear_crypto btree_redb sample_key (pad 32 sample_seed) 3 sample_users initial_groups (m :: (string, bytes) btree)"
proof -
  note init = initial_ok [OF clear_crypto_ok _ _ sample_wrap [of "''pw''"], folded sample_users_def]
  obtain m :: "(string, bytes) btree" where "holds_perm clear_crypto btree_redb sample_key (pad 32 sample_seed) 1 sample_users initial_groups m"
    using promote_meta_holds [OF btree_redb_ok init(1), of "[]" clear_crypto sample_key "pad 32 sample_seed"] by (auto simp: contents_def btree_redb_def bt_get_def)
  then have "perm_state clear_crypto btree_redb sample_key (pad 32 sample_seed) 3 sample_users initial_groups m" unfolding perm_state_def using init(3) init(4) [of 3] by auto
  then show thesis by (rule that)
qed


theorem admin_sequence_witness:
  "\<exists>m us. users_load btree_redb (pd_meta (fold (\<lambda>(h, a) d. snd (run_admin 1 sample_admin h a d))
     [(User sample_master, Add_User sample_salt sample_nonce ''ann'' ''secret'' True), (Guest [], Remove_User ''ann''), (User sample_master, Assign_User ''guest'' ''ann'')]
     (plain_db\<lparr>pd_meta := m\<rparr>))) = Ok us"
proof -
  let ?calls = "[(User sample_master, Add_User sample_salt sample_nonce ''ann'' ''secret'' True), (Guest [], Remove_User ''ann''), (User sample_master, Assign_User ''guest'' ''ann'')]"
  obtain m :: "(string, bytes) btree" where m: "sealed clear_crypto btree_redb sample_key (pad 32 sample_seed) 3 m"
    using sample_meta by (metis sealed_state)
  have "utf8 ''ann''" by code_simp
  then have "text_ok ''ann''" by (simp add: text_ok_def)
  then have "handle_ok sample_key h \<and> admin_op_ok a" if "(h, a) \<in> set ?calls" for h a
    using that by (auto simp: handle_ok_def admin_op_ok_def sample_master_def)
  then show ?thesis
    using m admin_sequence [of sample_admin sample_key "pad 32 sample_seed" ?calls "plain_db\<lparr>pd_meta := m\<rparr>" 1] clear_crypto_ok
    by (auto simp: sample_admin_def plain_db_def padmin_ok_def full_build_def eval_nat_numeral)
qed

theorem added_user_authenticates_witness:
  "\<exists>meta meta' s. add_user clear_crypto btree_redb sample_salt sample_nonce sample_key sample_seed ''ann'' ''secret'' False (meta :: (string, bytes) btree) = Ok meta' \<and>
    authenticate clear_crypto btree_redb ''ann'' ''secret'' meta' = Ok s \<and> ses_name s = ''ann'' \<and> ses_key s = sample_key"
proof -
  have "utf8 ''ann''" by code_simp
  then have ok: "text_ok ''ann''" by (simp add: text_ok_def)
  obtain m :: "(string, bytes) btree" where st: "perm_state clear_crypto btree_redb sample_key (pad 32 sample_seed) (Suc 0) sample_users initial_groups m"
    using sample_meta by (metis perm_state_def room_Suc eval_nat_numeral(3) numeral_2_eq_2)
  note D = perm_stateD [OF st]
  obtain e where H: "holds_perm clear_crypto btree_redb sample_key (pad 32 sample_seed) e sample_users initial_groups m" by (rule perm_stateE [OF st])
  have fresh: "find_user ''ann'' sample_users = None" by (simp add: find_user_def sample_users_def initial_users_def)
  note w = sample_wrap [of "''secret''"]
  have "users_ok (pushed_user ''ann'' [] (sample_salt, sample_nonce, pad 16 (as_bytes ''secret'' @ sample_salt) @ sample_key @ sample_seed) sample_users)"
    by (rule pushed_user_ok(1) [OF st clear_crypto_ok _ _ ok w _ fresh]) simp_all
  from store_both_seal(1) [OF H this D(4)]
  obtain m' where run: "add_user clear_crypto btree_redb sample_salt sample_nonce sample_key sample_seed ''ann'' ''secret'' False m = Ok m'"
    using D(1) fresh w by (auto simp: committed_def add_user_def pushed_user_def)
  have "sealed clear_crypto btree_redb sample_key (pad 32 sample_seed) 1 m" using st by (auto simp: sealed_state)
  from added_user_authenticates [OF this clear_crypto_ok _ _ ok run, of "''x''"] show ?thesis using run by auto
qed

end
