(* ===== verification/Acl_Changes.thy ===== *)
theory Acl_Changes
  imports Permitted Promotion
begin

text \<open>
  Changes of access-control lists. A change by \<open>set_acl_into\<close> seals its a-node anew. Removing a group takes it out of the access-control lists but does not seal the a-nodes anew (\<open>strip_group\<close>, called by
  \<open>remove_group\<close>): their tags still cover the old lists.
\<close>

text \<open>C15: an access-control list changes only by permission, and its a-node stays readable. When \<open>set_acl_into\<close> succeeds, the a-node at the path is not the root, its
  list permitted the user to modify it, the list is now the changed one, every other list and all data are as before, and
  the table is sealed again: no later read reports tampering. When it fails, nothing changed.\<close>

theorem set_acl_reseals:
  assumes "psealed E s p" "set_acl_into E path f p = (r, p')"
    and "\<And>k a. read_acl (pe_build E) (pe_inodes E) (pc_inodes p) (pe_table E) k = Ok (Some a) \<Longrightarrow> acl_ok (f a)"
  shows "psealed E s p' \<and> pc_ctx p' = pc_ctx p \<and> (r \<noteq> Ok () \<longrightarrow> pc_inodes p' = pc_inodes p) \<and>
    (r = Ok () \<longrightarrow> (\<exists>k a. ctx_resolve (pe_data E) (pc_ctx p) path = Ok (Some k) \<and> k \<noteq> akey_ROOT \<and>
       read_acl (pe_build E) (pe_inodes E) (pc_inodes p) (pe_table E) k = Ok (Some a) \<and> permitted (pe_principal E) k (Some a) Modify \<and>
       (\<forall>j. read_acl (pe_build E) (pe_inodes E) (pc_inodes p') (pe_table E) j =
          (if j = k then Ok (Some (f a)) else read_acl (pe_build E) (pe_inodes E) (pc_inodes p) (pe_table E) j))))"
proof -
  obtain r1 p1 where t: "acl_target E path p = (r1, p1)" by (cases "acl_target E path p")
  note L = looksD [OF looks_acl_target t] and S = looks_sealed [OF looks_acl_target assms(1) t]
  show ?thesis
  proof (cases r1)
    case (Ok ka)
    obtain k a where ka: "ka = (k, a)" by (cases ka)
    note T = acl_targetD [OF assms(1) t [unfolded Ok ka]]
    show ?thesis
    proof (cases "permitted (pe_principal E) k (Some a) Modify")
      case True
      obtain I where H: "holds_inodes (pe_build E) (pe_inodes E) (pc_inodes p1) I" using S by (auto elim: sealed_butE)
      from reacl_sealed [OF S H assms(3) [OF T(3)], of k] obtain q i where q: "seqOp (write_acl E k (f a)) (reseal_integrity E k) p1 = (Ok (), q)" "psealed E s q"
        "pc_ctx q = pc_ctx p1" "holds_inodes (pe_build E) (pe_inodes E) (pc_inodes q) (with_inode (pe_table E) k (Some i) I)" "ino_acl i = Some (f a)" by blast
      have "set_acl_into E path f p = (Ok (), q)"
        using t Ok ka True authorize_permitted [of Modify "pe_principal E" k "Some a"] q(1) by (simp add: set_acl_into_def seqOp_def bindOp_def)
      then have eq: "r = Ok ()" "p' = q" using assms(2) by simp_all
      have "read_acl (pe_build E) (pe_inodes E) (pc_inodes q) (pe_table E) j =
          (if j = k then Ok (Some (f a)) else read_acl (pe_build E) (pe_inodes E) (pc_inodes p) (pe_table E) j)" for j
        using read_acl_holds [OF q(4), of "pe_table E" j] read_acl_holds [OF H, of "pe_table E" j] q(5) L by simp
      then show ?thesis using eq q(2,3) L T True by auto
    next
      case False
      then have "set_acl_into E path f p = (Err (access_denied Modify), p1)"
        using t Ok ka authorize_permitted [of Modify "pe_principal E" k "Some a"] by (simp add: set_acl_into_def seqOp_def bindOp_def)
      then show ?thesis using assms(2) S L by auto
    qed
  qed (use assms(2) t S L in \<open>auto simp: set_acl_into_def bindOp_def\<close>)
qed

section \<open>Removing a group\<close>

lemma remove_group_strips:
  assumes "remove_group B C M N key name (meta, n) = Ok (meta', n')" "gid_of M meta name = Ok (Some gid)"
  shows "strip_group B N gid n = (Ok (), n')"
proof -
  obtain g m where g: "remove_group_meta C M key name meta = Ok (g, m)" "strip_group B N g n = (Ok (), n')"
    using assms(1) by (auto simp: remove_group_def case_prod_beta prod_eq_iff)
  have "g = gid" using g(1) assms(2) by (auto simp: remove_group_meta_def gid_of_def Let_def split: if_splits option.splits)
  then show ?thesis using g(2) by simp
qed

text \<open>C18: an a-node whose group was removed reads as tampered with. Take a sealed table and an entry whose access-control list names a group. After \<open>remove_group\<close>
  of that group succeeds, the next verified read of that entry by a user of the database fails with \<open>Tampered\<close>, although
  nothing outside the library touched it, provided the keyed hash tells the two lists apart.\<close>

theorem removed_group_reads_tampered:
  assumes "psealed E s p" "contents (pe_data E) (ctx_data (pc_ctx p)) k = Some e" "\<not> waiting k p" "pc_verified p = {}"
    and acl: "read_acl (pe_build E) (pe_inodes E) (pc_inodes p) (pe_table E) k = Ok (Some a)"
    and gid: "gid_of M meta name = Ok (Some gid)"
    and run: "remove_group (pe_build E) (pe_crypto E) M (pe_inodes E) (ses_key s) name (meta, pc_inodes p) = Ok (meta', n)"
    and mac: "mac_value (pe_crypto E) (ses_key s) (pe_table E) k e (acl_encode (acl_remove_group gid a)) \<noteq>
      mac_value (pe_crypto E) (ses_key s) (pe_table E) k e (acl_encode a)"
  shows "fst (p_read_verified E k (p\<lparr>pc_inodes := n\<rparr>)) = Err (Tampered (''integrity check failed for an a-node in table '' @ quoted (pe_table E)))"
proof -
  obtain I where P: "penv_ok E s" "holds_inodes (pe_build E) (pe_inodes E) (pc_inodes p) I"
    "\<And>k e. contents (pe_data E) (ctx_data (pc_ctx p)) k = Some e \<Longrightarrow> k \<notin> {} \<Longrightarrow> \<not> waiting k p \<Longrightarrow> node_sealed E s I k e" by (rule sealed_butE [OF assms(1)]) blast
  note E = penv_okD [OF P(1)]
  have "node_sealed E s I k e" using P(3) assms(2,3) by blast
  then obtain i where i: "I (pe_table E) k = Some i" "ino_mac i = Some (mac_value (pe_crypto E) (ses_key s) (pe_table E) k e (acl_bytes (ino_acl i)))"
    by (auto simp: node_sealed_def value_tags_def)
  have a: "ino_acl i = Some a" using acl read_acl_holds [OF P(2), of "pe_table E" k] i(1) by simp
  have n: "holds_inodes (pe_build E) (pe_inodes E) n (\<lambda>t k. map_option (strip_acl gid) (I t k))"
    using strip_group_holds [OF P(2), of gid] remove_group_strips [OF run gid] by simp
  have "read_meta (pe_build E) (pe_inodes E) n (pe_table E) k =
      Ok (Some (acl_remove_group gid a), Some (mac_value (pe_crypto E) (ses_key s) (pe_table E) k e (acl_encode a)), ino_sig i)"
    using read_meta_holds [OF n, of "pe_table E" k] i a by (simp add: strip_acl_def acl_bytes_def)
  then have "ctx_verify_integrity E k e (p\<lparr>pc_inodes := n\<rparr>) =
      (Err (Tampered (''integrity check failed for an a-node in table '' @ quoted (pe_table E))), p\<lparr>pc_inodes := n\<rparr>)"
    using mac assms(4) E(1) by (auto simp: ctx_verify_integrity_def bindOp_def acl_bytes_def Let_def)
  then show ?thesis using assms(2,3) by (simp add: p_read_verified_def read_entry_def redb_get [OF E(4)] bindOp_def seqOp_def)
qed

section \<open>A file of a group\<close>

definition grouped_acl :: acl where
  "grouped_acl = \<lparr>owner_uid = 0, owner_rights = Delete, group_map = [(2, Access)], other_rights = Rights_None\<rparr>"

definition grouped_inode :: inode where
  "grouped_inode = inode_default\<lparr>ino_acl := Some grouped_acl, ino_mac := Some (mac_value clear_crypto sample_key ''t'' 5 [1, 2] (acl_encode grouped_acl)),
     ino_sig := Some (sign_value clear_crypto sample_seed ''t'' 5 [1, 2] (acl_encode grouped_acl))\<rparr>"

definition grouped_inodes :: "(bytes, bytes) btree" where
  "grouped_inodes = [(inode_key ''t'' 5, inode_encode grouped_inode)]"

definition grouped_pctx :: "((akey, bytes) btree, (bytes, bytes) btree) pctx" where
  "grouped_pctx = \<lparr>pc_ctx = \<lparr>ctx_data = [(5, [1, 2])], ctx_buf = \<lparr>buffering = True, dirs_dirty = True, dirs = [(akey_ROOT, [(''f'', 5)])], files_dirty = False,
     files = [], structure_count = 0\<rparr>, ctx_rng = 0\<rparr>, pc_inodes = grouped_inodes, pc_verified = {}\<rparr>"

lemma grouped_hold: "holds_inodes full_build btree_redb grouped_inodes (with_inode ''t'' 5 (Some grouped_inode) (\<lambda>_ _. None))"
proof -
  have "acl_ok grouped_acl" by (simp add: acl_ok_def length_acl_encode grouped_acl_def bt_ok_def)
  then have "inode_ok full_build grouped_inode"
    using crypto_okD(2,4) [OF clear_crypto_ok] by (simp add: inode_ok_def grouped_inode_def inode_default_def full_build_def mac_value_def sign_value_def)
  from inode_put_holds [OF no_inodes_hold this, of "''t''" 5] show ?thesis by (auto simp: inode_put_def grouped_inodes_def)
qed

lemma grouped_sealed: "psealed (session_env sample_admin sample_master ''t'') sample_master grouped_pctx"
proof (rule sealed_butI)
  show "penv_ok (session_env sample_admin sample_master ''t'') sample_master"
    by (simp add: penv_ok_def session_env_def sample_admin_def full_build_def clear_crypto_ok btree_redb_ok)
  show "holds_inodes (pe_build (session_env sample_admin sample_master ''t'')) (pe_inodes (session_env sample_admin sample_master ''t'')) (pc_inodes grouped_pctx)
      (with_inode ''t'' 5 (Some grouped_inode) (\<lambda>_ _. None))" using grouped_hold by (simp add: session_env_def sample_admin_def grouped_pctx_def)
  fix k e assume "contents (pe_data (session_env sample_admin sample_master ''t'')) (ctx_data (pc_ctx grouped_pctx)) k = Some e"
  then have "k = 5" "e = [1, 2]" by (simp_all add: session_env_def sample_admin_def grouped_pctx_def contents_def btree_redb_def bt_get_Cons split: if_splits)
  then show "node_sealed (session_env sample_admin sample_master ''t'') sample_master (with_inode ''t'' 5 (Some grouped_inode) (\<lambda>_ _. None)) k e"
    by (simp add: node_sealed_def grouped_inode_def session_env_def sample_admin_def value_tags_def sample_master_def acl_bytes_def)
qed

lemma grouped_meta:
  obtains m m' :: "(string, bytes) btree" and n where "gid_of btree_redb m ''staff'' = Ok (Some 2)"
    "remove_group full_build clear_crypto btree_redb btree_redb sample_key ''staff'' (m, grouped_inodes) = Ok (m', n)"
proof -
  obtain m0 :: "(string, bytes) btree" where st: "perm_state clear_crypto btree_redb sample_key (pad 32 sample_seed) (Suc (Suc (Suc 0))) sample_users initial_groups m0"
    using sample_meta by (metis eval_nat_numeral(3) numeral_2_eq_2)
  note D = perm_stateD [OF st]
  obtain e where H: "holds_perm clear_crypto btree_redb sample_key (pad 32 sample_seed) e sample_users initial_groups m0" by (rule perm_stateE [OF st])
  have "utf8 ''staff''" by code_simp
  then have ok: "text_ok ''staff''" by (simp add: text_ok_def)
  let ?gs = "push_group ''staff'' initial_groups"
  note gok = groups_ok_push [OF D(4,7) ok]
  obtain m where H1: "holds_perm clear_crypto btree_redb sample_key (pad 32 sample_seed) (e + 1) sample_users ?gs m"
    using store_both_seal(2) [OF H D(3) gok(1)] by (auto simp: committed_def)
  note load = users_load_holds [OF H1] groups_load_holds [OF H1]
  have g: "find_group ''staff'' ?gs = Some \<lparr>grp_name = ''staff'', grp_gid = 2\<rparr>" by (simp add: find_group_def push_group_def initial_groups_def)
  let ?us = "sample_users\<lparr>users_list := map (\<lambda>u. u\<lparr>usr_gids := filter (\<lambda>c. c \<noteq> 2) (usr_gids u)\<rparr>) (users_list sample_users)\<rparr>"
  let ?gs' = "?gs\<lparr>groups_list := filter (\<lambda>g. grp_gid g \<noteq> 2) (groups_list ?gs)\<rparr>"
  have us: "?us = sample_users" by (simp add: sample_users_def initial_users_def)
  obtain m' where m': "andThen (users_store btree_redb sample_users m) (\<lambda>meta. andThen (groups_store btree_redb ?gs' meta) (seal_control clear_crypto btree_redb sample_key)) = Ok m'"
    using store_both_seal(4) [OF H1 D(3) groups_ok_filter(1) [OF gok]] unfolding committed_def by blast
  have meta: "remove_group_meta clear_crypto btree_redb sample_key ''staff'' m = Ok (2, m')"
    using load g m' by (auto simp: remove_group_meta_def is_protected_group_def us)
  obtain n where "strip_group full_build btree_redb 2 grouped_inodes = (Ok (), n)" using strip_group_holds [OF grouped_hold] by blast
  then have "remove_group full_build clear_crypto btree_redb btree_redb sample_key ''staff'' (m, grouped_inodes) = Ok (m', n)" using meta by (simp add: remove_group_def)
  moreover have "gid_of btree_redb m ''staff'' = Ok (Some 2)" using load(2) g by (simp add: gid_of_def)
  ultimately show thesis using that by blast
qed

theorem removed_group_reads_tampered_witness:
  "\<exists>m m' n. remove_group full_build clear_crypto btree_redb btree_redb sample_key ''staff'' ((m :: (string, bytes) btree), grouped_inodes) = Ok (m', n) \<and>
    fst (p_read_verified (session_env sample_admin sample_master ''t'') 5 (grouped_pctx\<lparr>pc_inodes := n\<rparr>)) =
      Err (Tampered (''integrity check failed for an a-node in table '' @ quoted ''t''))"
proof -
  let ?E = "session_env sample_admin sample_master ''t''"
  obtain m m' :: "(string, bytes) btree" and n where g: "gid_of btree_redb m ''staff'' = Ok (Some 2)"
    and r: "remove_group full_build clear_crypto btree_redb btree_redb sample_key ''staff'' (m, grouped_inodes) = Ok (m', n)" by (rule grouped_meta)
  have acl: "read_acl (pe_build ?E) (pe_inodes ?E) (pc_inodes grouped_pctx) (pe_table ?E) 5 = Ok (Some grouped_acl)"
    using read_acl_holds [OF grouped_hold, of "''t''" 5] by (simp add: session_env_def sample_admin_def grouped_pctx_def grouped_inode_def)
  have "mac_value clear_crypto sample_key ''t'' 5 [1, 2] (acl_encode (acl_remove_group 2 grouped_acl)) \<noteq> mac_value clear_crypto sample_key ''t'' 5 [1, 2] (acl_encode grouped_acl)"
    by code_simp
  moreover have "contents (pe_data ?E) (ctx_data (pc_ctx grouped_pctx)) 5 = Some [1, 2]" "\<not> waiting 5 grouped_pctx" "pc_verified grouped_pctx = {}"
    by (simp_all add: session_env_def sample_admin_def grouped_pctx_def contents_def btree_redb_def bt_get_Cons wb_new_def wb_file_get_def wb_files_dirty_def)
  ultimately show ?thesis
    using removed_group_reads_tampered [OF grouped_sealed _ _ _ acl, of "[1, 2]" btree_redb m "''staff''" 2 m' n] g r
    by (auto simp: session_env_def sample_admin_def sample_master_def grouped_pctx_def)
qed

theorem set_acl_reseals_witness:
  "\<exists>p'. set_acl_into (session_env sample_admin sample_master ''t'') [''f''] (acl_set_group_rights 2 Modify) grouped_pctx = (Ok (), p') \<and>
    psealed (session_env sample_admin sample_master ''t'') sample_master p' \<and>
    read_acl full_build btree_redb (pc_inodes p') ''t'' 5 = Ok (Some (acl_set_group_rights 2 Modify grouped_acl))"
proof -
  let ?E = "session_env sample_admin sample_master ''t''" and ?f = "acl_set_group_rights 2 Modify"
  note H = grouped_hold
  have acl: "read_acl full_build btree_redb grouped_inodes ''t'' k = Ok (if k = 5 then Some grouped_acl else None)" for k
    using read_acl_holds [OF H, of "''t''" k] by (simp add: grouped_inode_def inode_default_def)
  have env: "pe_build ?E = full_build" "pe_inodes ?E = btree_redb" "pe_table ?E = ''t''" "pe_principal ?E = User sample_master" "pe_data ?E = btree_redb"
    by (simp_all add: session_env_def sample_admin_def)
  have ok: "acl_ok (?f grouped_acl)"
    by (simp add: acl_ok_def length_acl_encode grouped_acl_def acl_set_group_rights_def bt_ok_def)
  have auth: "authorize (User sample_master) k a needed = Ok ()" for k a needed
    by (simp add: authorize_def is_guest_def is_master_def sample_master_def)
  have check: "ctx_check ?E k needed p = (Ok (), p)" if "pc_inodes p = grouped_inodes" for k needed p
    using acl [of k] that by (simp add: ctx_check_def env auth)
  have child: "p_child ?E akey_ROOT ''f'' grouped_pctx = (Ok (Some 5), grouped_pctx)"
    by (simp add: p_child_def grouped_pctx_def buffered_dir_def wb_dirty_def wb_read_def bt_get_Cons)
  have contents: "contents (pe_data ?E) (ctx_data (pc_ctx grouped_pctx)) 5 = Some [1, 2]" "wb_file_get 5 (ctx_buf (pc_ctx grouped_pctx)) = None"
    by (simp_all add: env grouped_pctx_def contents_def btree_redb_def bt_get_Cons wb_file_get_def wb_files_dirty_def)
  obtain V where V: "ctx_verify_integrity ?E 5 [1, 2] grouped_pctx = (Ok (), grouped_pctx\<lparr>pc_verified := V\<rparr>)"
    using verify_sealed [OF grouped_sealed contents(1)] contents(2) by auto
  have inodes: "pc_inodes grouped_pctx = grouped_inodes" by (simp add: grouped_pctx_def)
  have target: "acl_target ?E [''f''] grouped_pctx = (Ok (5, grouped_acl), grouped_pctx\<lparr>pc_verified := V\<rparr>)"
    using check [OF inodes] child V contents acl [of 5] inodes
    by (simp add: acl_target_def p_resolve_def seqOp_def bindOp_def p_read_verified_def read_entry_def redb_get [OF btree_redb_ok] env ctx_acl_def akey_ROOT_def)
  have "psealed ?E sample_master (grouped_pctx\<lparr>pc_verified := V\<rparr>)" using grouped_sealed by simp
  from reacl_sealed [OF this _ ok, of "with_inode ''t'' 5 (Some grouped_inode) (\<lambda>_ _. None)" 5] obtain q where
    q: "seqOp (write_acl ?E 5 (?f grouped_acl)) (reseal_integrity ?E 5) (grouped_pctx\<lparr>pc_verified := V\<rparr>) = (Ok (), q)" using H by (auto simp: env inodes)
  have run: "set_acl_into ?E [''f''] ?f grouped_pctx = (Ok (), q)"
    using target q by (simp add: set_acl_into_def seqOp_def bindOp_def auth env)
  have fok: "acl_ok (?f a)" if "read_acl (pe_build ?E) (pe_inodes ?E) (pc_inodes grouped_pctx) (pe_table ?E) k = Ok (Some a)" for k a
    using that acl [of k] ok by (simp add: env inodes split: if_splits)
  have R: "psealed ?E sample_master q \<and> (\<exists>k a. read_acl full_build btree_redb grouped_inodes ''t'' k = Ok (Some a) \<and>
      (\<forall>j. read_acl full_build btree_redb (pc_inodes q) ''t'' j =
        (if j = k then Ok (Some (?f a)) else read_acl full_build btree_redb grouped_inodes ''t'' j)))"
    using set_acl_reseals [OF grouped_sealed run fok, of "\<lambda>k a. k", OF asm_rl] unfolding env inodes by blast
  then obtain k a where k: "read_acl full_build btree_redb grouped_inodes ''t'' k = Ok (Some a)"
    and j: "\<And>j. read_acl full_build btree_redb (pc_inodes q) ''t'' j =
      (if j = k then Ok (Some (?f a)) else read_acl full_build btree_redb grouped_inodes ''t'' j)"
    by blast
  have "k = 5 \<and> a = grouped_acl" using k acl [of k] by (simp split: if_splits)
  then show ?thesis using R run j [of 5] by simp
qed

end
