(* ===== verification/Protected_Read.thy ===== *)
theory Protected_Read
  imports Read_Txn Protected
begin

text \<open>
  Reads in the build with the permission system: the primitives of a read transaction (\<open>txn/read.rs\<close>) over the two further caches of
  a table (\<open>cache.rs\<close>), and the read surface (\<open>txn/grab.rs\<close>). An operation that the default build has too is called \<open>p_f\<close> where the default build's is \<open>f\<close>.

  The handle to the metadata table, opened on first use, is absent when the table does not exist in the snapshot. The time an access
  is recorded with is part of the environment.
\<close>

section \<open>State\<close>

record ('t, 'i, 'm, 'n, 'p, 'b, 'q, 'v) renv =
  re_env :: "('t, 'i, 'm) env"
  re_caches :: "('p, 'b) cache_ops"
  re_inode_ops :: "('q, u64 \<times> akey, bytes) lru"
  re_mac_ops :: "('v, u64 \<times> akey, unit) lru"
  re_inodes :: "('n, bytes, bytes) redb"
  re_build :: build
  re_crypto :: crypto
  re_principal :: principal
  re_now :: i64

record ('t, 'i, 'm, 'n, 'p, 'b, 'q, 'v) pread_txn =
  rp_txn :: "('t, 'i, 'm, 'p, 'b) read_txn"
  rp_inodes :: "'n option"
  rp_inode_cache :: 'q
  rp_verified_macs :: 'v
  rp_enforced_paths :: "apath \<rightharpoonup> akey"
  rp_access_ok :: "akey set"
  rp_verified :: "akey set"
  rp_access_log :: "akey \<rightharpoonup> i64"

type_synonym ('t, 'i, 'm, 'n, 'p, 'b, 'q, 'v, 'a) rop = "(('t, 'i, 'm, 'n, 'p, 'b, 'q, 'v) pread_txn, 'a) op"

definition on_txn :: "(('t, 'i, 'm, 'p, 'b) read_txn, 'a) op \<Rightarrow> ('t, 'i, 'm, 'n, 'p, 'b, 'q, 'v, 'a) rop" where
  "on_txn f s = (let (r, t) = f (rp_txn s) in (r, s\<lparr>rp_txn := t\<rparr>))"

abbreviation rp_generation :: "('t, 'i, 'm, 'n, 'p, 'b, 'q, 'v) pread_txn \<Rightarrow> u64" where
  "rp_generation s \<equiv> rt_generation (rp_txn s)"

abbreviation rp_table :: "('t, 'i, 'm, 'n, 'p, 'b, 'q, 'v) pread_txn \<Rightarrow> string" where
  "rp_table s \<equiv> rt_table (rp_txn s)"

section \<open>The further caches of a table\<close>

definition get_inode :: "('t, 'i, 'm, 'n, 'p, 'b, 'q, 'v) renv \<Rightarrow> akey \<Rightarrow> ('t, 'i, 'm, 'n, 'p, 'b, 'q, 'v, bytes option) rop" where
  "get_inode E akey s =
     (let (hit, c) = lru_get (re_inode_ops E) (rp_inode_cache s) (rp_generation s, akey) in (Ok hit, s\<lparr>rp_inode_cache := c\<rparr>))"

definition put_inode :: "('t, 'i, 'm, 'n, 'p, 'b, 'q, 'v) renv \<Rightarrow> akey \<Rightarrow> bytes \<Rightarrow> ('t, 'i, 'm, 'n, 'p, 'b, 'q, 'v, unit) rop" where
  "put_inode E akey data s =
     (Ok (), s\<lparr>rp_inode_cache := lru_put (re_inode_ops E) (rp_inode_cache s) (rp_generation s, akey) data\<rparr>)"

definition get_mac_verified :: "('t, 'i, 'm, 'n, 'p, 'b, 'q, 'v) renv \<Rightarrow> akey \<Rightarrow> ('t, 'i, 'm, 'n, 'p, 'b, 'q, 'v, bool) rop" where
  "get_mac_verified E akey s =
     (let (hit, c) = lru_get (re_mac_ops E) (rp_verified_macs s) (rp_generation s, akey) in (Ok (hit \<noteq> None), s\<lparr>rp_verified_macs := c\<rparr>))"

definition put_mac_verified :: "('t, 'i, 'm, 'n, 'p, 'b, 'q, 'v) renv \<Rightarrow> akey \<Rightarrow> ('t, 'i, 'm, 'n, 'p, 'b, 'q, 'v, unit) rop" where
  "put_mac_verified E akey s =
     (Ok (), s\<lparr>rp_verified_macs := lru_put (re_mac_ops E) (rp_verified_macs s) (rp_generation s, akey) ()\<rparr>)"

section \<open>The memos of a snapshot\<close>

definition memo_access :: "akey \<Rightarrow> ('t, 'i, 'm, 'n, 'p, 'b, 'q, 'v, unit) rop" where
  "memo_access akey s = (Ok (), s\<lparr>rp_access_ok := insert akey (rp_access_ok s)\<rparr>)"

definition memo_verified :: "akey \<Rightarrow> ('t, 'i, 'm, 'n, 'p, 'b, 'q, 'v, unit) rop" where
  "memo_verified akey s = (Ok (), s\<lparr>rp_verified := insert akey (rp_verified s)\<rparr>)"

definition memo_path :: "apath \<Rightarrow> akey \<Rightarrow> ('t, 'i, 'm, 'n, 'p, 'b, 'q, 'v, unit) rop" where
  "memo_path path akey s = (Ok (), s\<lparr>rp_enforced_paths := (rp_enforced_paths s)(path \<mapsto> akey)\<rparr>)"

definition buffer_access :: "('t, 'i, 'm, 'n, 'p, 'b, 'q, 'v) renv \<Rightarrow> akey \<Rightarrow> ('t, 'i, 'm, 'n, 'p, 'b, 'q, 'v, unit) rop" where
  "buffer_access E akey s = (Ok (), s\<lparr>rp_access_log := (rp_access_log s)(akey \<mapsto> re_now E)\<rparr>)"

section \<open>Access and integrity\<close>

definition enforced :: "('t, 'i, 'm, 'n, 'p, 'b, 'q, 'v) renv \<Rightarrow> bool" where
  "enforced E \<longleftrightarrow> re_principal E \<noteq> Unrestricted"

definition p_meta :: "('t, 'i, 'm, 'n, 'p, 'b, 'q, 'v) renv \<Rightarrow> akey \<Rightarrow> ('t, 'i, 'm, 'n, 'p, 'b, 'q, 'v, meta_tags) rop" where
  "p_meta E akey =
     bindOp (get_inode E akey) (\<lambda>hit.
       case hit of
         Some data \<Rightarrow> liftOp (decode_meta (re_build E) data)
       | None \<Rightarrow> (\<lambda>s. case rp_inodes s of
             None \<Rightarrow> (Ok (None, None, None), s)
           | Some inodes \<Rightarrow>
               bindOp (liftOp (read_inode_bytes (re_inodes E) inodes (rp_table s) akey)) (\<lambda>found.
                 case found of
                   Some data \<Rightarrow> seqOp (put_inode E akey data) (liftOp (decode_meta (re_build E) data))
                 | None \<Rightarrow> retOp (None, None, None)) s))"

definition authorize_target :: "('t, 'i, 'm, 'n, 'p, 'b, 'q, 'v) renv \<Rightarrow> akey \<Rightarrow> rights \<Rightarrow> ('t, 'i, 'm, 'n, 'p, 'b, 'q, 'v, unit) rop" where
  "authorize_target E akey needed =
     (if \<not> enforced E then retOp ()
      else bindOp (p_meta E akey) (\<lambda>(acl, _, _). liftOp (authorize (re_principal E) akey acl needed)))"

definition tampered :: "string \<Rightarrow> adb_error" where
  "tampered table = Tampered (''integrity check failed for an a-node in table '' @ quoted table)"

definition check_tag ::
  "('t, 'i, 'm, 'n, 'p, 'b, 'q, 'v) renv \<Rightarrow> akey \<Rightarrow> bytes \<Rightarrow> acl option \<Rightarrow> bytes option \<Rightarrow> bytes option \<Rightarrow> ('t, 'i, 'm, 'n, 'p, 'b, 'q, 'v, unit) rop" where
  "check_tag E akey blob acl mac sig =
     (case re_principal E of
        User session \<Rightarrow>
          bindOp (get_mac_verified E akey) (\<lambda>done_before.
            if done_before then retOp ()
            else (\<lambda>s.
              let expected = mac_value (re_crypto E) (ses_key session) (rp_table s) akey blob (acl_bytes acl) in
              (case mac of
                 Some mac \<Rightarrow> if ct_eq mac expected then put_mac_verified E akey s else (Err (tampered (rp_table s)), s)
               | None \<Rightarrow> (Err (tampered (rp_table s)), s))))
      | Guest pubkey \<Rightarrow> (\<lambda>s.
          (case sig of
             Some sig \<Rightarrow>
               if verify_value (re_crypto E) pubkey (rp_table s) akey blob (acl_bytes acl) sig then (Ok (), s) else (Err (tampered (rp_table s)), s)
           | None \<Rightarrow> (Err (tampered (rp_table s)), s)))
      | Unrestricted \<Rightarrow> retOp ())"

definition p_verify_integrity :: "('t, 'i, 'm, 'n, 'p, 'b, 'q, 'v) renv \<Rightarrow> akey \<Rightarrow> bytes \<Rightarrow> ('t, 'i, 'm, 'n, 'p, 'b, 'q, 'v, unit) rop" where
  "p_verify_integrity E akey blob =
     (if re_principal E = Unrestricted then retOp ()
      else bindOp (p_meta E akey) (\<lambda>(acl, mac, sig). check_tag E akey blob acl mac sig))"

fun resolve_enforced_from ::
  "('t, 'i, 'm, 'n, 'p, 'b, 'q, 'v) renv \<Rightarrow> 't \<Rightarrow> akey \<Rightarrow> apath \<Rightarrow> ('t, 'i, 'm, 'n, 'p, 'b, 'q, 'v, akey option) rop" where
  "resolve_enforced_from E table akey [] = retOp (Some akey)"
| "resolve_enforced_from E table akey (name # names) =
     bindOp (p_meta E akey) (\<lambda>(acl, mac, sig).
     seqOp (liftOp (authorize (re_principal E) akey acl Access))
       (bindOp (on_txn (blob_at (re_env E) (re_caches E) table akey)) (\<lambda>blob.
          case blob of
            None \<Rightarrow> retOp None
          | Some blob \<Rightarrow>
              seqOp (check_tag E akey blob acl mac sig)
                (bindOp (liftOp (entry_child blob name)) (\<lambda>child.
                   case child of
                     Some child \<Rightarrow> resolve_enforced_from E table child names
                   | None \<Rightarrow> retOp None)))))"

definition resolve_enforced ::
  "('t, 'i, 'm, 'n, 'p, 'b, 'q, 'v) renv \<Rightarrow> 't \<Rightarrow> apath \<Rightarrow> ('t, 'i, 'm, 'n, 'p, 'b, 'q, 'v, akey option) rop" where
  "resolve_enforced E table path = resolve_enforced_from E table akey_ROOT path"

section \<open>The primitives of the read surface\<close>

text \<open>The trait \<open>Grab\<close> with the methods it has under the permission feature.\<close>

record 's pgrab = "'s grab" +
  g_authorize :: "akey \<Rightarrow> rights \<Rightarrow> ('s, unit) op"
  g_verify :: "akey \<Rightarrow> bytes \<Rightarrow> ('s, unit) op"
  g_acl_of :: "akey \<Rightarrow> ('s, acl option) op"
  g_gid_of :: "string \<Rightarrow> ('s, u32 option) op"
  g_user_name :: "u32 \<Rightarrow> ('s, string option) op"
  g_group_name :: "u32 \<Rightarrow> ('s, string option) op"
  g_record_access :: "akey \<Rightarrow> ('s, unit) op"

definition p_read_resolve :: "('t, 'i, 'm, 'n, 'p, 'b, 'q, 'v) renv \<Rightarrow> apath \<Rightarrow> ('t, 'i, 'm, 'n, 'p, 'b, 'q, 'v, akey option) rop" where
  "p_read_resolve E path s =
     (if enforced E then
        (case rp_enforced_paths s path of
           Some akey \<Rightarrow> (Ok (Some akey), s)
         | None \<Rightarrow>
             (case rt_data (rp_txn s) of
                None \<Rightarrow> (Ok (if apath_is_root path then Some akey_ROOT else None), s)
              | Some table \<Rightarrow>
                  bindOp (resolve_enforced E table path) (\<lambda>resolved.
                    case resolved of
                      Some akey \<Rightarrow> seqOp (memo_path path akey) (retOp resolved)
                    | None \<Rightarrow> retOp resolved) s))
      else on_txn (read_resolve (re_env E) (re_caches E) path) s)"

definition p_read_authorize :: "('t, 'i, 'm, 'n, 'p, 'b, 'q, 'v) renv \<Rightarrow> akey \<Rightarrow> rights \<Rightarrow> ('t, 'i, 'm, 'n, 'p, 'b, 'q, 'v, unit) rop" where
  "p_read_authorize E akey needed s =
     (if \<not> enforced E then (Ok (), s)
      else if needed = Access then
        if akey \<in> rp_access_ok s then (Ok (), s) else seqOp (authorize_target E akey needed) (memo_access akey) s
      else authorize_target E akey needed s)"

definition p_read_verify :: "('t, 'i, 'm, 'n, 'p, 'b, 'q, 'v) renv \<Rightarrow> akey \<Rightarrow> bytes \<Rightarrow> ('t, 'i, 'm, 'n, 'p, 'b, 'q, 'v, unit) rop" where
  "p_read_verify E akey blob s =
     (if re_principal E = Unrestricted then (Ok (), s)
      else if akey \<in> rp_verified s then (Ok (), s)
      else seqOp (p_verify_integrity E akey blob) (memo_verified akey) s)"

definition pread_grab :: "('t, 'i, 'm, 'n, 'p, 'b, 'q, 'v) renv \<Rightarrow> ('t, 'i, 'm, 'n, 'p, 'b, 'q, 'v) pread_txn pgrab" where
  "pread_grab E =
     (let G = read_grab (re_env E) (re_caches E) in \<lparr>
     g_resolve = p_read_resolve E,
     g_entry_blob = (\<lambda>akey. on_txn (g_entry_blob G akey)),
     g_lookup_index = (\<lambda>index. on_txn (g_lookup_index G index)),
     g_scan_index = (\<lambda>entry cols. on_txn (g_scan_index G entry cols)),
     g_affected_under = (\<lambda>pattern root. on_txn (g_affected_under G pattern root)),
     g_authorize = p_read_authorize E,
     g_verify = p_read_verify E,
     g_acl_of = (\<lambda>akey. bindOp (p_meta E akey) (\<lambda>(acl, _, _). retOp acl)),
     g_gid_of = (\<lambda>group. readOp (\<lambda>s. gid_of (env_meta (re_env E)) (rt_meta (rp_txn s)) group)),
     g_user_name = (\<lambda>uid. readOp (\<lambda>s. name_of_user (env_meta (re_env E)) (rt_meta (rp_txn s)) uid)),
     g_group_name = (\<lambda>gid. readOp (\<lambda>s. name_of_group (env_meta (re_env E)) (rt_meta (rp_txn s)) gid)),
     g_record_access = buffer_access E\<rparr>)"

section \<open>Reads\<close>

text \<open>The common start of the reads. All but \<open>kind\<close> record the access.\<close>

definition p_with_blob :: "bool \<Rightarrow> 's pgrab \<Rightarrow> arbor_arg \<Rightarrow> 'a res \<Rightarrow> (apath \<Rightarrow> bytes \<Rightarrow> ('s, 'a) op) \<Rightarrow> ('s, 'a) op" where
  "p_with_blob recorded G path none f =
     bindOp (liftOp (into_arbor_path path)) (\<lambda>path.
     bindOp (g_resolve G path) (\<lambda>akey.
       case akey of
         None \<Rightarrow> liftOp none
       | Some akey \<Rightarrow>
           seqOp (g_authorize G akey Access)
             (seqOp (if recorded then g_record_access G akey else retOp ())
               (bindOp (g_entry_blob G akey) (\<lambda>blob.
                  case blob of
                    None \<Rightarrow> liftOp none
                  | Some blob \<Rightarrow> seqOp (g_verify G akey blob) (f path blob))))))"

definition p_grab_load :: "'s pgrab \<Rightarrow> (archived_reader \<Rightarrow> 'a res) \<Rightarrow> arbor_arg \<Rightarrow> ('s, 'a option) op" where
  "p_grab_load G recompose path =
     p_with_blob True G path (Ok None) (\<lambda>path blob.
       bindOp (liftOp (get_entry_kind blob)) (\<lambda>kind.
         case kind of
           File \<Rightarrow> bindOp (liftOp (archived_reader_new blob 1)) (\<lambda>reader.
                    bindOp (liftOp (recompose reader)) (\<lambda>v. retOp (Some v)))
         | Dir \<Rightarrow> liftOp (Err (is_a_directory path))))"

definition p_grab_load_value :: "chrono \<Rightarrow> 's pgrab \<Rightarrow> arbor_arg \<Rightarrow> ('s, vnode option) op" where
  "p_grab_load_value C G path =
     p_with_blob True G path (Ok None) (\<lambda>path blob.
       bindOp (liftOp (entry_split blob)) (\<lambda>(kind, payload).
         case kind of
           File \<Rightarrow> bindOp (liftOp (blob_decode C payload)) (\<lambda>v. retOp (Some v))
         | Dir \<Rightarrow> liftOp (Err (is_a_directory path))))"

definition p_grab_fetch :: "'s pgrab \<Rightarrow> arbor_arg \<Rightarrow> ('s, archived_reader option) op" where
  "p_grab_fetch G path =
     p_with_blob True G path (Ok None) (\<lambda>path blob.
       bindOp (liftOp (get_entry_kind blob)) (\<lambda>kind.
         case kind of
           File \<Rightarrow> bindOp (liftOp (archived_reader_new blob 1)) (\<lambda>reader. retOp (Some reader))
         | Dir \<Rightarrow> liftOp (Err (is_a_directory path))))"

definition p_grab_get :: "chrono \<Rightarrow> 's pgrab \<Rightarrow> arbor_arg \<Rightarrow> value_arg \<Rightarrow> ('s, scalar option) op" where
  "p_grab_get C G path at =
     bindOp (liftOp (andThen (into_arbor_path path) (\<lambda>_. into_value_path at))) (\<lambda>at.
     p_with_blob True G path (Ok None) (\<lambda>_ blob.
       bindOp (liftOp (entry_split blob)) (\<lambda>(kind, payload).
         if kind \<noteq> File then retOp None
         else bindOp (liftOp (archived_new payload)) (\<lambda>(blob, root).
              bindOp (liftOp (node_navigate blob root at)) (\<lambda>node.
                case node of
                  None \<Rightarrow> retOp None
                | Some off \<Rightarrow> liftOp (node_scalar_if_leaf C blob off))))))"

definition p_grab_kind :: "'s pgrab \<Rightarrow> arbor_arg \<Rightarrow> ('s, entry_kind option) op" where
  "p_grab_kind G path =
     p_with_blob False G path (Ok None) (\<lambda>_ blob. bindOp (liftOp (get_entry_kind blob)) (\<lambda>kind. retOp (Some kind)))"

definition p_grab_exists :: "'s pgrab \<Rightarrow> arbor_arg \<Rightarrow> ('s, bool) op" where
  "p_grab_exists G path = bindOp (p_grab_kind G path) (\<lambda>kind. retOp (kind \<noteq> None))"

definition p_grab_ls :: "'s pgrab \<Rightarrow> arbor_arg \<Rightarrow> ('s, entry list) op" where
  "p_grab_ls G path =
     bindOp (liftOp (into_arbor_path path)) (\<lambda>path.
     bindOp (g_resolve G path) (\<lambda>akey.
     bindOp (liftOp (ok_or akey (ValueNotFound path))) (\<lambda>akey.
     seqOp (g_authorize G akey Access)
       (seqOp (g_record_access G akey)
         (bindOp (g_entry_blob G akey) (\<lambda>blob.
            case blob of
              None \<Rightarrow> retOp []
            | Some blob \<Rightarrow>
                seqOp (g_verify G akey blob)
                  (bindOp (liftOp (entry_split blob)) (\<lambda>(kind, payload).
                     if kind \<noteq> Dir then liftOp (Err (CannotAccess (quoted (apath_display path) @ '' is a file, not a directory'')))
                     else bindOp (liftOp (andThen (dir_new payload) (\<lambda>d. andThen (dir_len d) (\<lambda>_. dir_entries d)))) (\<lambda>es.
                       mapOp (child_entry (grab.truncate G)) es)))))))))"

section \<open>Access-control lists\<close>

datatype acl_class = Class_User | Class_Group string | Class_Other

definition grab_get_acl :: "'s pgrab \<Rightarrow> arbor_arg \<Rightarrow> acl_class \<Rightarrow> ('s, rights) op" where
  "grab_get_acl G path class_of =
     bindOp (liftOp (into_arbor_path path)) (\<lambda>path.
     bindOp (g_resolve G path) (\<lambda>akey.
     bindOp (liftOp (ok_or akey (ValueNotFound path))) (\<lambda>akey.
     bindOp (g_acl_of G akey) (\<lambda>acl.
       case acl of
         None \<Rightarrow> retOp Rights_None
       | Some acl \<Rightarrow>
           (case class_of of
              Class_User \<Rightarrow> retOp (owner_rights acl)
            | Class_Other \<Rightarrow> retOp (other_rights acl)
            | Class_Group name \<Rightarrow>
                bindOp (g_gid_of G name) (\<lambda>gid. retOp (case gid of Some gid \<Rightarrow> acl_group_rights acl gid | None \<Rightarrow> Rights_None)))))))"

text \<open>Falling back to the decimal id of an owner who is gone.\<close>

definition grab_owner :: "'s pgrab \<Rightarrow> arbor_arg \<Rightarrow> ('s, string option) op" where
  "grab_owner G path =
     bindOp (liftOp (into_arbor_path path)) (\<lambda>path.
     bindOp (g_resolve G path) (\<lambda>akey.
       case akey of
         None \<Rightarrow> retOp None
       | Some akey \<Rightarrow>
           bindOp (g_acl_of G akey) (\<lambda>acl.
             case acl of
               None \<Rightarrow> retOp None
             | Some acl \<Rightarrow>
                 bindOp (g_user_name G (owner_uid acl)) (\<lambda>name.
                   retOp (Some (case name of Some name \<Rightarrow> name | None \<Rightarrow> show_nat (unat (owner_uid acl))))))))"

definition grab_groups :: "'s pgrab \<Rightarrow> arbor_arg \<Rightarrow> ('s, string list) op" where
  "grab_groups G path =
     bindOp (liftOp (into_arbor_path path)) (\<lambda>path.
     bindOp (g_resolve G path) (\<lambda>akey.
       case akey of
         None \<Rightarrow> retOp []
       | Some akey \<Rightarrow>
           bindOp (g_acl_of G akey) (\<lambda>acl.
             case acl of
               None \<Rightarrow> retOp []
             | Some acl \<Rightarrow>
                 bindOp (mapOp (g_group_name G) (acl_group_ids acl)) (\<lambda>names.
                   retOp (sort (List.map_filter (\<lambda>n. n) names))))))"

section \<open>Index queries\<close>

text \<open>A query skips the entities its principal may not read.\<close>

definition p_load_entity :: "'s pgrab \<Rightarrow> (archived_reader \<Rightarrow> 'a res) \<Rightarrow> akey \<Rightarrow> ('s, 'a option) op" where
  "p_load_entity G recompose entity s =
     (case g_authorize G entity Access s of
        (Err (PermissionDenied _), s) \<Rightarrow> (Ok None, s)
      | (Err e, s) \<Rightarrow> (Err e, s)
      | (Panic m, s) \<Rightarrow> (Panic m, s)
      | (Diverge, s) \<Rightarrow> (Diverge, s)
      | (Ok _, s) \<Rightarrow>
          bindOp (g_entry_blob G entity) (\<lambda>blob.
            case blob of
              None \<Rightarrow> retOp None
            | Some blob \<Rightarrow>
                seqOp (g_verify G entity blob)
                  (bindOp (liftOp (get_entry_kind blob)) (\<lambda>kind.
                     case kind of
                       File \<Rightarrow> bindOp (liftOp (archived_reader_new blob 1)) (\<lambda>reader.
                                bindOp (liftOp (recompose reader)) (\<lambda>v. retOp (Some v)))
                     | Dir \<Rightarrow> retOp None))) s)"

definition p_execute_query ::
  "'s pgrab \<Rightarrow> (archived_reader \<Rightarrow> 'a res) \<Rightarrow> string \<Rightarrow> scalar list \<Rightarrow> bool \<Rightarrow> apath \<Rightarrow> ('s, 'a list) op" where
  "p_execute_query G recompose index values reversed root =
     bindOp (query_entities (grab.truncate G) index values reversed root) (\<lambda>entities.
       case entities of
         None \<Rightarrow> retOp []
       | Some entities \<Rightarrow>
           bindOp (mapOp (p_load_entity G recompose) entities) (\<lambda>vs. retOp (List.map_filter (\<lambda>v. v) vs)))"

end
