(* ===== verification/Protected_Write.thy ===== *)
theory Protected_Write
  imports Protected_Read
begin

text \<open>
  Write transactions in the build with the permission system (\<open>txn/write.rs\<close>): the public mutations with their reindexing bracket, ownership and access-control
  lists, the reads a writer makes of its own state, and the flush of \<open>commit\<close> with the access log (\<open>db/inner.rs\<close>). Every mutation builds a context of its own, which
  has verified nothing yet.
\<close>

section \<open>State\<close>

record ('t, 'i, 'm, 'n) pwenv =
  pw_env :: "('t, 'i, 'm) env"
  pw_node_ops :: "('n, bytes, bytes) redb"
  pw_build :: build
  pw_crypto :: crypto
  pw_principal :: principal
  pw_now :: i64

text \<open>The access log is part of the state the transactions of a database share.\<close>

record ('t, 'i, 'm, 'n) pwrite_txn =
  pw_txn :: "('t, 'i, 'm) write_txn"
  pw_inodes :: 'n
  pw_access_log :: "string \<times> akey \<rightharpoonup> i64"

type_synonym ('t, 'i, 'm, 'n, 'a) wop = "(('t, 'i, 'm, 'n) pwrite_txn, 'a) op"

definition penv_of :: "('t, 'i, 'm, 'n) pwenv \<Rightarrow> string \<Rightarrow> ('t, 'n) penv" where
  "penv_of W table = \<lparr>pe_data = env_data (pw_env W), pe_inodes = pw_node_ops W, pe_build = pw_build W, pe_crypto = pw_crypto W, pe_table = table,
     pe_now = pw_now W, pe_principal = pw_principal W\<rparr>"

definition context_of :: "('t, 'i, 'm, 'n) pwrite_txn \<Rightarrow> ('t, 'n) pctx" where
  "context_of s = \<lparr>pc_ctx = tx_ctx (pw_txn s), pc_inodes = pw_inodes s, pc_verified = {}\<rparr>"

definition in_context :: "('t, 'i, 'm, 'n) pwenv \<Rightarrow> (('t, 'n) penv \<Rightarrow> (('t, 'n) pctx, 'a) op) \<Rightarrow> ('t, 'i, 'm, 'n, 'a) wop" where
  "in_context W f s =
     (let (r, p) = f (penv_of W (tx_table (pw_txn s))) (context_of s)
      in (r, s\<lparr>pw_txn := (pw_txn s)\<lparr>tx_ctx := pc_ctx p\<rparr>, pw_inodes := pc_inodes p\<rparr>))"

definition on_wtxn :: "(('t, 'i, 'm) write_txn, 'a) op \<Rightarrow> ('t, 'i, 'm, 'n, 'a) wop" where
  "on_wtxn f s = (let (r, t) = f (pw_txn s) in (r, s\<lparr>pw_txn := t\<rparr>))"

section \<open>Reindexing\<close>

definition p_flush_and_disable :: "('t, 'n) penv \<Rightarrow> (('t, 'n) pctx, unit) op" where
  "p_flush_and_disable E p =
     (let ((ds, fs), wb) = wb_take_and_disable (ctx_buf (pc_ctx p));
          p = p\<lparr>pc_ctx := (pc_ctx p)\<lparr>ctx_buf := wb\<rparr>\<rparr>
      in if ds \<noteq> [] \<or> fs \<noteq> [] then p_flush_buffered E ds fs p else (Ok (), p))"

definition p_reindex_around ::
  "('t, 'i, 'm, 'n) pwenv \<Rightarrow> apath list \<Rightarrow> (('t, 'n) penv \<Rightarrow> (('t, 'n) pctx, 'a) op) \<Rightarrow> ('t, 'i, 'm, 'n, 'a) wop" where
  "p_reindex_around W scopes app =
     (let E = pw_env W in
      bindOp (readOp (\<lambda>s. if tx_indexed (pw_txn s) then txn_indexes E (pw_txn s) else Ok [])) (\<lambda>indexes.
        if indexes = [] then in_context W app
        else
          seqOp (in_context W p_flush_and_disable)
            (seqOp (forOp scopes (\<lambda>scope. on_wtxn (on_index (\<lambda>data.
                      maintenance_delete (env_chrono E) (env_data E) (env_index E) data indexes scope))))
              (bindOp (in_context W app) (\<lambda>result.
                 seqOp (forOp scopes (\<lambda>scope. on_wtxn (on_index (\<lambda>data.
                          maintenance_insert (env_chrono E) (env_data E) (env_index E) data indexes scope))))
                   (retOp result))))))"

section \<open>Mutations\<close>

definition p_store_value_at :: "('t, 'i, 'm, 'n) pwenv \<Rightarrow> apath \<Rightarrow> vnode \<Rightarrow> ('t, 'i, 'm, 'n, unit) wop" where
  "p_store_value_at W path v =
     (if apath_is_root path then refuse ''cannot store a file at the root''
      else p_reindex_around W [path] (\<lambda>E. p_store_value_into (env_fuel (pw_env W)) E path v))"

definition p_store_blob_at :: "('t, 'i, 'm, 'n) pwenv \<Rightarrow> apath \<Rightarrow> bytes \<Rightarrow> ('t, 'i, 'm, 'n, unit) wop" where
  "p_store_blob_at W path value_blob =
     (if apath_is_root path then refuse ''cannot store a file at the root''
      else p_reindex_around W [path] (\<lambda>E. p_store_blob_into (env_fuel (pw_env W)) E path value_blob))"

text \<open>The hint of a cursor is ignored in this build.\<close>

definition p_put_scalar_at :: "('t, 'i, 'm, 'n) pwenv \<Rightarrow> apath \<Rightarrow> (akey \<times> u64) option \<Rightarrow> vpath \<Rightarrow> scalar \<Rightarrow> ('t, 'i, 'm, 'n, unit) wop" where
  "p_put_scalar_at W path hint at scalar =
     p_reindex_around W [path] (\<lambda>E. p_put_scalar_into (env_fuel (pw_env W)) (env_chrono (pw_env W)) E path at scalar)"

definition p_store_value :: "('t, 'i, 'm, 'n) pwenv \<Rightarrow> arbor_arg \<Rightarrow> vnode \<Rightarrow> ('t, 'i, 'm, 'n, unit) wop" where
  "p_store_value W path v = bindOp (liftOp (into_arbor_path path)) (\<lambda>path. p_store_value_at W path v)"

definition p_txn_mkdir :: "('t, 'i, 'm, 'n) pwenv \<Rightarrow> arbor_arg \<Rightarrow> ('t, 'i, 'm, 'n, unit) wop" where
  "p_txn_mkdir W path =
     bindOp (liftOp (into_arbor_path path)) (\<lambda>path. seqOp (in_context W (\<lambda>E. p_ensure_dir E path)) (retOp ()))"

definition p_txn_rm :: "('t, 'i, 'm, 'n) pwenv \<Rightarrow> arbor_arg \<Rightarrow> ('t, 'i, 'm, 'n, bool) wop" where
  "p_txn_rm W path =
     bindOp (liftOp (into_arbor_path path)) (\<lambda>path.
       if apath_is_root path then refuse ''cannot remove the root''
       else p_reindex_around W [path] (\<lambda>E. p_rm_into (env_fuel (pw_env W)) E path))"

definition p_txn_mv :: "('t, 'i, 'm, 'n) pwenv \<Rightarrow> arbor_arg \<Rightarrow> arbor_arg \<Rightarrow> ('t, 'i, 'm, 'n, unit) wop" where
  "p_txn_mv W src dst =
     bindOp (liftOp (into_arbor_path src)) (\<lambda>src.
     bindOp (liftOp (into_arbor_path dst)) (\<lambda>dst.
       if names_start_with dst src then refuse ''cannot move an a-node onto itself or into a descendant''
       else if apath_is_root src then refuse ''cannot move the root''
       else if apath_is_root dst then refuse ''cannot move onto the root''
       else p_reindex_around W [src, dst] (\<lambda>E. p_mv_into (env_fuel (pw_env W)) E src dst)))"

definition p_txn_cp :: "('t, 'i, 'm, 'n) pwenv \<Rightarrow> arbor_arg \<Rightarrow> arbor_arg \<Rightarrow> ('t, 'i, 'm, 'n, unit) wop" where
  "p_txn_cp W src dst =
     bindOp (liftOp (into_arbor_path src)) (\<lambda>src.
     bindOp (liftOp (into_arbor_path dst)) (\<lambda>dst.
       if names_start_with dst src then refuse ''cannot copy an a-node onto itself or into a descendant''
       else if apath_is_root dst then refuse ''cannot copy onto the root''
       else p_reindex_around W [dst] (\<lambda>E. p_cp_into (env_fuel (pw_env W)) E src dst)))"

section \<open>Owners and access-control lists\<close>

definition txn_chown :: "('t, 'i, 'm, 'n) pwenv \<Rightarrow> arbor_arg \<Rightarrow> string \<Rightarrow> ('t, 'i, 'm, 'n, unit) wop" where
  "txn_chown W path owner =
     bindOp (liftOp (into_arbor_path path)) (\<lambda>path.
     bindOp (readOp (\<lambda>s. uid_of (env_meta (pw_env W)) (tx_meta (pw_txn s)) owner)) (\<lambda>uid.
     bindOp (liftOp (ok_or uid (no_user_error owner))) (\<lambda>new_uid.
       in_context W (\<lambda>E. chown_into E path new_uid))))"

definition require_gid :: "('t, 'i, 'm, 'n) pwenv \<Rightarrow> string \<Rightarrow> ('t, 'i, 'm, 'n, u32) wop" where
  "require_gid W name =
     bindOp (readOp (\<lambda>s. gid_of (env_meta (pw_env W)) (tx_meta (pw_txn s)) name)) (\<lambda>gid. liftOp (ok_or gid (no_group_error name)))"

definition txn_set_acl :: "('t, 'i, 'm, 'n) pwenv \<Rightarrow> arbor_arg \<Rightarrow> acl_class \<Rightarrow> rights \<Rightarrow> ('t, 'i, 'm, 'n, unit) wop" where
  "txn_set_acl W path class_of r =
     bindOp (liftOp (into_arbor_path path)) (\<lambda>path.
     bindOp (case class_of of Class_Group name \<Rightarrow> bindOp (require_gid W name) (\<lambda>gid. retOp (Some gid)) | _ \<Rightarrow> retOp None) (\<lambda>gid.
       in_context W (\<lambda>E. set_acl_into E path (\<lambda>acl.
         case class_of of
           Class_User \<Rightarrow> acl_set_owner_rights r acl
         | Class_Other \<Rightarrow> acl_set_other_rights r acl
         | Class_Group _ \<Rightarrow> (case gid of Some gid \<Rightarrow> acl_set_group_rights gid r acl | None \<Rightarrow> acl)))))"

definition txn_add_group :: "('t, 'i, 'm, 'n) pwenv \<Rightarrow> arbor_arg \<Rightarrow> string \<Rightarrow> ('t, 'i, 'm, 'n, unit) wop" where
  "txn_add_group W path name =
     bindOp (liftOp (into_arbor_path path)) (\<lambda>path.
     bindOp (require_gid W name) (\<lambda>gid. in_context W (\<lambda>E. set_acl_into E path (acl_add_group gid))))"

definition txn_del_group :: "('t, 'i, 'm, 'n) pwenv \<Rightarrow> arbor_arg \<Rightarrow> string \<Rightarrow> ('t, 'i, 'm, 'n, unit) wop" where
  "txn_del_group W path name =
     bindOp (liftOp (into_arbor_path path)) (\<lambda>path.
     bindOp (require_gid W name) (\<lambda>gid. in_context W (\<lambda>E. set_acl_into E path (acl_remove_group gid))))"

section \<open>Reads of the transaction's own state\<close>

definition check_mac :: "('t, 'i, 'm, 'n) pwenv \<Rightarrow> string \<Rightarrow> akey \<Rightarrow> bytes \<Rightarrow> acl option \<Rightarrow> bytes option \<Rightarrow> unit res" where
  "check_mac W table akey entry acl mac =
     (case pw_principal W of
        User session \<Rightarrow>
          (case mac of
             Some mac \<Rightarrow>
               if ct_eq mac (mac_value (pw_crypto W) (ses_key session) table akey entry (acl_bytes acl)) then Ok () else Err (tampered table)
           | None \<Rightarrow> Err (tampered table))
      | _ \<Rightarrow> Ok ())"

definition verify_entry :: "('t, 'i, 'm, 'n) pwenv \<Rightarrow> ('t, 'i, 'm, 'n) pwrite_txn \<Rightarrow> akey \<Rightarrow> bytes \<Rightarrow> unit res" where
  "verify_entry W s akey entry =
     (case pw_principal W of
        User _ \<Rightarrow>
          andThen (read_meta (pw_build W) (pw_node_ops W) (pw_inodes s) (tx_table (pw_txn s)) akey) (\<lambda>(acl, mac, _).
            check_mac W (tx_table (pw_txn s)) akey entry acl mac)
      | _ \<Rightarrow> Ok ())"

definition buffered_children :: "('t, 'i, 'm, 'n) pwrite_txn \<Rightarrow> akey \<Rightarrow> children option" where
  "buffered_children s akey =
     (let wb = ctx_buf (tx_ctx (pw_txn s)) in if wb_dirty wb then wb_read (\<lambda>dirs. map_of dirs akey) wb else None)"

fun write_resolve_enforced_from :: "('t, 'i, 'm, 'n) pwenv \<Rightarrow> ('t, 'i, 'm, 'n) pwrite_txn \<Rightarrow> akey \<Rightarrow> apath \<Rightarrow> akey option res" where
  "write_resolve_enforced_from W s akey [] = Ok (Some akey)"
| "write_resolve_enforced_from W s akey (name # names) =
     andThen (read_meta (pw_build W) (pw_node_ops W) (pw_inodes s) (tx_table (pw_txn s)) akey) (\<lambda>(acl, mac, _).
     andThen (authorize (pw_principal W) akey acl Access) (\<lambda>_.
       case buffered_children s akey of
         Some children \<Rightarrow>
           (case bt_get children name of Some child \<Rightarrow> write_resolve_enforced_from W s child names | None \<Rightarrow> Ok None)
       | None \<Rightarrow>
           andThen (read_entry (env_data (pw_env W)) (ctx_data (tx_ctx (pw_txn s))) akey) (\<lambda>entry.
             case entry of
               None \<Rightarrow> Ok None
             | Some entry \<Rightarrow>
                 andThen (check_mac W (tx_table (pw_txn s)) akey entry acl mac) (\<lambda>_.
                 andThen (entry_child entry name) (\<lambda>child.
                   case child of Some child \<Rightarrow> write_resolve_enforced_from W s child names | None \<Rightarrow> Ok None)))))"

definition write_resolve :: "('t, 'i, 'm, 'n) pwenv \<Rightarrow> ('t, 'i, 'm, 'n) pwrite_txn \<Rightarrow> apath \<Rightarrow> akey option res" where
  "write_resolve W s path =
     (if pw_principal W \<noteq> Unrestricted then write_resolve_enforced_from W s akey_ROOT path
      else resolve_buffered (env_data (pw_env W)) (tx_ctx (pw_txn s)) path)"

definition write_authorize :: "('t, 'i, 'm, 'n) pwenv \<Rightarrow> ('t, 'i, 'm, 'n) pwrite_txn \<Rightarrow> akey \<Rightarrow> rights \<Rightarrow> unit res" where
  "write_authorize W s akey needed =
     (if pw_principal W = Unrestricted then Ok ()
      else andThen (read_acl (pw_build W) (pw_node_ops W) (pw_inodes s) (tx_table (pw_txn s)) akey) (\<lambda>acl.
        authorize (pw_principal W) akey acl needed))"

definition write_verify :: "('t, 'i, 'm, 'n) pwenv \<Rightarrow> ('t, 'i, 'm, 'n) pwrite_txn \<Rightarrow> akey \<Rightarrow> bytes \<Rightarrow> unit res" where
  "write_verify W s akey blob =
     (if buffered_children s akey \<noteq> None then Ok ()
      else if wb_file_get akey (ctx_buf (tx_ctx (pw_txn s))) \<noteq> None then Ok ()
      else verify_entry W s akey blob)"

definition deposit_access :: "string \<Rightarrow> (akey \<times> i64) list \<Rightarrow> (string \<times> akey \<rightharpoonup> i64) \<Rightarrow> (string \<times> akey \<rightharpoonup> i64)" where
  "deposit_access table entries log =
     fold (\<lambda>(akey, when_at) log. log((table, akey) \<mapsto>
       (case log (table, akey) of Some current \<Rightarrow> if sint current < sint when_at then when_at else current | None \<Rightarrow> when_at))) entries log"

definition pwrite_grab :: "('t, 'i, 'm, 'n) pwenv \<Rightarrow> ('t, 'i, 'm, 'n) pwrite_txn pgrab" where
  "pwrite_grab W =
     (let G = write_grab (pw_env W) in \<lparr>
     g_resolve = (\<lambda>path. readOp (\<lambda>s. write_resolve W s path)),
     g_entry_blob = (\<lambda>akey. on_wtxn (g_entry_blob G akey)),
     g_lookup_index = (\<lambda>index. on_wtxn (g_lookup_index G index)),
     g_scan_index = (\<lambda>entry cols. on_wtxn (g_scan_index G entry cols)),
     g_affected_under = (\<lambda>pattern root. on_wtxn (g_affected_under G pattern root)),
     g_authorize = (\<lambda>akey needed. readOp (\<lambda>s. write_authorize W s akey needed)),
     g_verify = (\<lambda>akey blob. readOp (\<lambda>s. write_verify W s akey blob)),
     g_acl_of = (\<lambda>akey. readOp (\<lambda>s. read_acl (pw_build W) (pw_node_ops W) (pw_inodes s) (tx_table (pw_txn s)) akey)),
     g_gid_of = (\<lambda>name. readOp (\<lambda>s. gid_of (env_meta (pw_env W)) (tx_meta (pw_txn s)) name)),
     g_user_name = (\<lambda>uid. readOp (\<lambda>s. name_of_user (env_meta (pw_env W)) (tx_meta (pw_txn s)) uid)),
     g_group_name = (\<lambda>gid. readOp (\<lambda>s. name_of_group (env_meta (pw_env W)) (tx_meta (pw_txn s)) gid)),
     g_record_access = (\<lambda>akey s. (Ok (), s\<lparr>pw_access_log := deposit_access (tx_table (pw_txn s)) [(akey, pw_now W)] (pw_access_log s)\<rparr>))\<rparr>)"

section \<open>The mutable cursor\<close>

text \<open>The read behind a cursor. It resolves without access checks.\<close>

definition p_load_value_at :: "('t, 'i, 'm, 'n) pwenv \<Rightarrow> ('t, 'i, 'm, 'n) pwrite_txn \<Rightarrow> apath \<Rightarrow> vnode option res" where
  "p_load_value_at W s path =
     (let R = env_data (pw_env W); c = tx_ctx (pw_txn s) in
      andThen (resolve_buffered R c path) (\<lambda>found.
        case found of
          None \<Rightarrow> Ok None
        | Some akey \<Rightarrow>
            andThen
              (case wb_file_get akey (ctx_buf c) of
                 Some buffered \<Rightarrow> Ok (Some buffered)
               | None \<Rightarrow>
                   andThen (read_entry R (ctx_data c) akey) (\<lambda>entry.
                     case entry of
                       None \<Rightarrow> Ok None
                     | Some entry \<Rightarrow> andThen (verify_entry W s akey entry) (\<lambda>_. Ok (Some entry))))
              (\<lambda>entry. case entry of
                 None \<Rightarrow> Ok None
               | Some entry \<Rightarrow>
                   andThen (entry_split entry) (\<lambda>(kind, payload).
                     case kind of
                       File \<Rightarrow> andThen (blob_decode (env_chrono (pw_env W)) payload) (\<lambda>v. Ok (Some v))
                     | Dir \<Rightarrow> Err (is_a_directory path)))))"

definition p_fetch_mut :: "('t, 'i, 'm, 'n) pwenv \<Rightarrow> ('t, 'i, 'm, 'n) pwrite_txn \<Rightarrow> arbor_arg \<Rightarrow> mut_cursor option res" where
  "p_fetch_mut W s path = fetch_mut (pw_env W) (pw_txn s) path"

definition p_cursor_value :: "('t, 'i, 'm, 'n) pwenv \<Rightarrow> ('t, 'i, 'm, 'n) pwrite_txn \<Rightarrow> mut_cursor \<Rightarrow> vnode res" where
  "p_cursor_value W s cur = andThen (p_load_value_at W s (cur_path cur)) (\<lambda>v. Ok (case v of Some v \<Rightarrow> v | None \<Rightarrow> value_default))"

section \<open>Commit\<close>

text \<open>The flush and the access log of \<open>commit\<close>; the order in which the log is drained is a parameter.\<close>

definition drain_access_log :: "((string \<times> akey \<rightharpoonup> i64) \<Rightarrow> ((string \<times> akey) \<times> i64) list) \<Rightarrow> ('t, 'i, 'm, 'n, ((string \<times> akey) \<times> i64) list) wop" where
  "drain_access_log drain s = (Ok (drain (pw_access_log s)), s\<lparr>pw_access_log := Map.empty\<rparr>)"

definition on_inodes :: "('n, 'a) op \<Rightarrow> ('t, 'i, 'm, 'n, 'a) wop" where
  "on_inodes f s = (let (r, n) = f (pw_inodes s) in (r, s\<lparr>pw_inodes := n\<rparr>))"

definition p_commit_flush ::
  "((string \<times> akey \<rightharpoonup> i64) \<Rightarrow> ((string \<times> akey) \<times> i64) list) \<Rightarrow> ('t, 'i, 'm, 'n) pwenv \<Rightarrow> ('t, 'i, 'm, 'n, unit) wop" where
  "p_commit_flush drain W =
     seqOp (in_context W p_flush)
       (bindOp (drain_access_log drain) (\<lambda>batch.
          forOp batch (\<lambda>((table, akey), when_at). on_inodes (bump_access (pw_build W) (pw_node_ops W) table akey when_at))))"

end
