(* ===== verification/Protected_Read_Laws.thy ===== *)
theory Protected_Read_Laws
  imports Protected_Read Cache_Laws
begin

text \<open>
  What a protected read answers, with the caches and memos taken away. The table and its metadata have one version per generation; the
  caches are coherent with these histories, a tag is marked as verified only if it verifies, and the memos of a snapshot hold only what the
  snapshot decides. Under this invariant every primitive answers what the snapshot alone says, errors included, also when the stored bytes
  were altered by another program, and keeps the invariant.
\<close>

section \<open>The answers without caches\<close>

type_synonym version = "akey \<Rightarrow> bytes option"

definition meta_of :: "build \<Rightarrow> version \<Rightarrow> akey \<Rightarrow> meta_tags res" where
  "meta_of B M k = (case M k of None \<Rightarrow> Ok (None, None, None) | Some data \<Rightarrow> decode_meta B data)"

definition tag_ok :: "crypto \<Rightarrow> principal \<Rightarrow> string \<Rightarrow> akey \<Rightarrow> bytes \<Rightarrow> meta_tags \<Rightarrow> bool" where
  "tag_ok C P t k blob m =
     (case (P, m) of
        (User s, (acl, mac, sig)) \<Rightarrow> mac = Some (mac_value C (ses_key s) t k blob (acl_bytes acl))
      | (Guest pk, (acl, mac, sig)) \<Rightarrow> (\<exists>g. sig = Some g \<and> verify_value C pk t k blob (acl_bytes acl) g)
      | (Unrestricted, _) \<Rightarrow> True)"

definition tag_res :: "crypto \<Rightarrow> principal \<Rightarrow> string \<Rightarrow> akey \<Rightarrow> bytes \<Rightarrow> meta_tags \<Rightarrow> unit res" where
  "tag_res C P t k blob m = (if tag_ok C P t k blob m then Ok () else Err (tampered t))"

definition may_read :: "build \<Rightarrow> principal \<Rightarrow> version \<Rightarrow> akey \<Rightarrow> unit res" where
  "may_read B P M k = andThen (meta_of B M k) (\<lambda>(acl, _, _). authorize P k acl Access)"

fun guarded_walk :: "build \<Rightarrow> crypto \<Rightarrow> principal \<Rightarrow> string \<Rightarrow> version \<Rightarrow> version \<Rightarrow> akey \<Rightarrow> apath \<Rightarrow> akey option res" where
  "guarded_walk B C P t D M k [] = Ok (Some k)"
| "guarded_walk B C P t D M k (name # names) =
     andThen (meta_of B M k) (\<lambda>m. andThen (authorize P k (fst m) Access) (\<lambda>_.
       case D k of
         None \<Rightarrow> Ok None
       | Some blob \<Rightarrow> andThen (tag_res C P t k blob m) (\<lambda>_. andThen (entry_child blob name) (\<lambda>child.
           case child of Some child \<Rightarrow> guarded_walk B C P t D M child names | None \<Rightarrow> Ok None))))"

section \<open>The invariant\<close>

text \<open>The metadata the snapshot holds of the a-nodes of its table.\<close>

definition snap_meta :: "('t, 'i, 'm, 'n, 'p, 'b, 'q, 'v) renv \<Rightarrow> ('t, 'i, 'm, 'n, 'p, 'b, 'q, 'v) pread_txn \<Rightarrow> version" where
  "snap_meta E s k = (case rp_inodes s of None \<Rightarrow> None | Some n \<Rightarrow> contents (re_inodes E) n (inode_key (rp_table s) k))"

definition snap_data :: "('t, 'i, 'm, 'n, 'p, 'b, 'q, 'v) renv \<Rightarrow> ('t, 'i, 'm, 'n, 'p, 'b, 'q, 'v) pread_txn \<Rightarrow> version" where
  "snap_data E s = snapshot (re_env E) (rp_txn s)"

definition renv_ok :: "('t, 'i, 'm, 'n, 'p, 'b, 'q, 'v) renv \<Rightarrow> bool" where
  "renv_ok E \<longleftrightarrow> lru_ok (re_inode_ops E) \<and> lru_ok (re_mac_ops E) \<and> redb_ok (re_inodes E)"

text \<open>The shared caches. The tags that were verified are those of the database's key.\<close>

definition shared_ok :: "('t, 'i, 'm, 'n, 'p, 'b, 'q, 'v) renv \<Rightarrow> bytes \<Rightarrow> string \<Rightarrow> (u64 \<Rightarrow> version) \<Rightarrow> (u64 \<Rightarrow> version) \<Rightarrow> 'q \<Rightarrow> 'v \<Rightarrow> bool" where
  "shared_ok E key t hist mhist q v \<longleftrightarrow>
     (\<forall>g k b. held (re_inode_ops E) q (g, k) = Some b \<longrightarrow> mhist g k = Some b) \<and>
     (\<forall>g k e m. held (re_mac_ops E) v (g, k) \<noteq> None \<longrightarrow> hist g k = Some e \<longrightarrow> meta_of (re_build E) (mhist g) k = Ok m \<longrightarrow>
        fst (snd m) = Some (mac_value (re_crypto E) key t k e (acl_bytes (fst m))))"

definition memos_ok :: "('t, 'i, 'm, 'n, 'p, 'b, 'q, 'v) renv \<Rightarrow> ('t, 'i, 'm, 'n, 'p, 'b, 'q, 'v) pread_txn \<Rightarrow> bool" where
  "memos_ok E s \<longleftrightarrow>
     (\<forall>p k. rp_enforced_paths s p = Some k \<longrightarrow>
        guarded_walk (re_build E) (re_crypto E) (re_principal E) (rp_table s) (snap_data E s) (snap_meta E s) akey_ROOT p = Ok (Some k)) \<and>
     (\<forall>k\<in>rp_access_ok s. may_read (re_build E) (re_principal E) (snap_meta E s) k = Ok ()) \<and>
     (\<forall>k\<in>rp_verified s. \<forall>e. snap_data E s k = Some e \<longrightarrow>
        (\<exists>m. meta_of (re_build E) (snap_meta E s) k = Ok m \<and> tag_ok (re_crypto E) (re_principal E) (rp_table s) k e m))"

definition preading :: "('t, 'i, 'm, 'n, 'p, 'b, 'q, 'v) renv \<Rightarrow> bytes \<Rightarrow> (u64 \<Rightarrow> version) \<Rightarrow> (u64 \<Rightarrow> version) \<Rightarrow> ('t, 'i, 'm, 'n, 'p, 'b, 'q, 'v) pread_txn \<Rightarrow> bool" where
  "preading E key hist mhist s \<longleftrightarrow>
     renv_ok E \<and> reading (re_env E) (re_caches E) hist (rp_txn s) \<and> mhist (rp_generation s) = snap_meta E s \<and>
     (\<forall>session. re_principal E = User session \<longrightarrow> ses_key session = key) \<and>
     shared_ok E key (rp_table s) hist mhist (rp_inode_cache s) (rp_verified_macs s) \<and> memos_ok E s"

text \<open>The same snapshot, with other caches and memos.\<close>

definition same_snapshot :: "('t, 'i, 'm, 'n, 'p, 'b, 'q, 'v) pread_txn \<Rightarrow> ('t, 'i, 'm, 'n, 'p, 'b, 'q, 'v) pread_txn \<Rightarrow> bool" where
  "same_snapshot s s' \<longleftrightarrow> rp_inodes s' = rp_inodes s \<and> (\<exists>pc. rp_txn s' = (rp_txn s)\<lparr>rt_cache := pc\<rparr>)"

definition replies ::
  "('t, 'i, 'm, 'n, 'p, 'b, 'q, 'v) renv \<Rightarrow> bytes \<Rightarrow> (u64 \<Rightarrow> version) \<Rightarrow> (u64 \<Rightarrow> version) \<Rightarrow> ('t, 'i, 'm, 'n, 'p, 'b, 'q, 'v, 'a) rop \<Rightarrow>
    ('t, 'i, 'm, 'n, 'p, 'b, 'q, 'v) pread_txn \<Rightarrow> 'a res \<Rightarrow> bool" where
  "replies E key hist mhist f s r \<longleftrightarrow> (\<exists>s'. f s = (r, s') \<and> preading E key hist mhist s' \<and> same_snapshot s s')"

lemma same_snapshotD:
  assumes "same_snapshot s s'"
  shows "rp_inodes s' = rp_inodes s" "rp_table s' = rp_table s" "rp_generation s' = rp_generation s" "rt_data (rp_txn s') = rt_data (rp_txn s)"
    "rt_index (rp_txn s') = rt_index (rp_txn s)" "rt_meta (rp_txn s') = rt_meta (rp_txn s)" "snap_meta E s' = snap_meta E s" "snap_data E s' = snap_data E s"
  using assms by (auto simp: same_snapshot_def snap_meta_def snap_data_def fun_eq_iff split: option.split)

lemma same_snapshot_refl [simp]: "same_snapshot s s"
  by (auto simp: same_snapshot_def intro: exI [of _ "rt_cache (rp_txn s)"])

lemma same_snapshot_trans: "same_snapshot s s' \<Longrightarrow> same_snapshot s' s'' \<Longrightarrow> same_snapshot s s''"
  by (auto simp: same_snapshot_def)

lemma same_snapshot_memos [simp]:
  "same_snapshot s (s\<lparr>rp_inode_cache := q\<rparr>)" "same_snapshot s (s\<lparr>rp_verified_macs := v\<rparr>)" "same_snapshot s (s\<lparr>rp_enforced_paths := ps\<rparr>)"
  "same_snapshot s (s\<lparr>rp_access_ok := a\<rparr>)" "same_snapshot s (s\<lparr>rp_verified := w\<rparr>)" "same_snapshot s (s\<lparr>rp_access_log := l\<rparr>)"
  "same_snapshot s (s\<lparr>rp_txn := (rp_txn s)\<lparr>rt_cache := pc\<rparr>\<rparr>)"
  using exI [of "\<lambda>pc. rp_txn s = (rp_txn s)\<lparr>rt_cache := pc\<rparr>" "rt_cache (rp_txn s)"] by (auto simp: same_snapshot_def)

lemmas snap_memos [simp] = same_snapshotD(7) [OF same_snapshot_memos(1)] same_snapshotD(7) [OF same_snapshot_memos(2)] same_snapshotD(7) [OF same_snapshot_memos(3)]
  same_snapshotD(7) [OF same_snapshot_memos(4)] same_snapshotD(7) [OF same_snapshot_memos(5)] same_snapshotD(7) [OF same_snapshot_memos(6)]
  same_snapshotD(8) [OF same_snapshot_memos(1)] same_snapshotD(8) [OF same_snapshot_memos(2)] same_snapshotD(8) [OF same_snapshot_memos(3)]
  same_snapshotD(8) [OF same_snapshot_memos(4)] same_snapshotD(8) [OF same_snapshot_memos(5)] same_snapshotD(8) [OF same_snapshot_memos(6)]

lemma repliesI: "f s = (r, s') \<Longrightarrow> preading E key hist mhist s' \<Longrightarrow> same_snapshot s s' \<Longrightarrow> replies E key hist mhist f s r"
  by (auto simp: replies_def)

lemma replies_pure:
  assumes "preading E key hist mhist s"
  shows "replies E key hist mhist (retOp x) s (Ok x)" "replies E key hist mhist (liftOp y) s y"
  using assms by (auto simp: replies_def)

lemma replies_bind:
  assumes "replies E key hist mhist f s r"
    and "\<And>x s'. r = Ok x \<Longrightarrow> preading E key hist mhist s' \<Longrightarrow> same_snapshot s s' \<Longrightarrow> replies E key hist mhist (g x) s' (h x)"
  shows "replies E key hist mhist (bindOp f g) s (andThen r h)"
proof -
  obtain s1 where s1: "f s = (r, s1)" "preading E key hist mhist s1" "same_snapshot s s1" using assms(1) by (auto simp: replies_def)
  show ?thesis
  proof (cases r)
    case (Ok x)
    then obtain s2 where "g x s1 = (h x, s2)" "preading E key hist mhist s2" "same_snapshot s1 s2"
      using assms(2) [OF Ok s1(2,3)] by (auto simp: replies_def)
    then show ?thesis using s1 Ok same_snapshot_trans by (auto simp: replies_def)
  qed (use s1 in \<open>auto simp: replies_def\<close>)
qed

lemma replies_seq:
  assumes "replies E key hist mhist f s r"
    and "\<And>s'. r = Ok () \<Longrightarrow> preading E key hist mhist s' \<Longrightarrow> same_snapshot s s' \<Longrightarrow> replies E key hist mhist g s' r'"
  shows "replies E key hist mhist (seqOp f g) s (andThen r (\<lambda>_. r'))"
  unfolding seqOp_def by (rule replies_bind [OF assms(1)]) (use assms(2) in auto)

lemma preadingD:
  assumes "preading E key hist mhist s"
  shows "lru_ok (re_inode_ops E)" "lru_ok (re_mac_ops E)" "redb_ok (re_inodes E)" "reading (re_env E) (re_caches E) hist (rp_txn s)"
    "hist (rp_generation s) = snap_data E s" "mhist (rp_generation s) = snap_meta E s" "re_principal E = User session \<Longrightarrow> ses_key session = key"
    "shared_ok E key (rp_table s) hist mhist (rp_inode_cache s) (rp_verified_macs s)" "memos_ok E s"
  using assms by (auto simp: preading_def renv_ok_def snap_data_def readingD)

section \<open>The caches and memos\<close>

lemma preading_same:
  assumes "preading E key hist mhist s" "same_snapshot s s'" "reading (re_env E) (re_caches E) hist (rp_txn s')"
    and "shared_ok E key (rp_table s) hist mhist (rp_inode_cache s') (rp_verified_macs s')" "memos_ok E s'"
  shows "preading E key hist mhist s'"
  using assms by (auto simp: preading_def same_snapshotD)

lemma memos_same:
  assumes "memos_ok E s" "same_snapshot s s'" "rp_enforced_paths s' = rp_enforced_paths s" "rp_access_ok s' = rp_access_ok s" "rp_verified s' = rp_verified s"
  shows "memos_ok E s'"
  using assms(1) unfolding memos_ok_def by (simp add: same_snapshotD [OF assms(2)] assms(3-5))

lemma get_inode_replies:
  assumes "preading E key hist mhist s"
  shows "\<exists>s'. get_inode E k s = (Ok (held (re_inode_ops E) (rp_inode_cache s) (rp_generation s, k)), s') \<and> preading E key hist mhist s' \<and> same_snapshot s s'"
proof -
  note D = preadingD [OF assms]
  let ?c = "snd (lru_get (re_inode_ops E) (rp_inode_cache s) (rp_generation s, k))"
  have "get_inode E k s = (Ok (held (re_inode_ops E) (rp_inode_cache s) (rp_generation s, k)), s\<lparr>rp_inode_cache := ?c\<rparr>)"
    by (simp add: get_inode_def held_def split_beta)
  moreover have "preading E key hist mhist (s\<lparr>rp_inode_cache := ?c\<rparr>)"
    using D(8,9) by (intro preading_same [OF assms]) (auto simp: D(4) shared_ok_def lru_okD(2) [OF D(1)] intro: memos_same)
  ultimately show ?thesis by auto
qed

lemma put_inode_replies:
  assumes "preading E key hist mhist s" "snap_meta E s k = Some data"
  shows "replies E key hist mhist (put_inode E k data) s (Ok ())"
proof -
  note D = preadingD [OF assms(1)]
  have "shared_ok E key (rp_table s) hist mhist (lru_put (re_inode_ops E) (rp_inode_cache s) (rp_generation s, k) data) (rp_verified_macs s)"
    using D(8) assms(2) unfolding shared_ok_def by (auto dest!: lru_okD(4) [OF D(1)] simp: D(6))
  then show ?thesis
    by (intro repliesI) (auto simp: put_inode_def D(4) intro!: preading_same [OF assms(1)] memos_same [OF D(9)])
qed

lemma p_meta_replies:
  assumes "preading E key hist mhist s"
  shows "replies E key hist mhist (p_meta E k) s (meta_of (re_build E) (snap_meta E s) k)"
proof -
  note D = preadingD [OF assms]
  obtain s1 where s1: "get_inode E k s = (Ok (held (re_inode_ops E) (rp_inode_cache s) (rp_generation s, k)), s1)"
    "preading E key hist mhist s1" "same_snapshot s s1" using get_inode_replies [OF assms] by blast
  note S = same_snapshotD [OF s1(3)]
  show ?thesis
  proof (cases "held (re_inode_ops E) (rp_inode_cache s) (rp_generation s, k)")
    case (Some b)
    then have "snap_meta E s k = Some b" using D(8) unfolding shared_ok_def D(6) [symmetric] by blast
    then show ?thesis using s1 Some by (intro repliesI [of _ _ _ s1]) (simp_all add: p_meta_def meta_of_def)
  next
    case None
    show ?thesis
    proof (cases "rp_inodes s")
      case (Some n)
      have get: "read_inode_bytes (re_inodes E) n (rp_table s1) k = Ok (snap_meta E s k)"
        using Some S(2) by (simp add: read_inode_bytes_def redb_get [OF D(3)] snap_meta_def)
      have run: "p_meta E k s = (case snap_meta E s k of Some data \<Rightarrow> seqOp (put_inode E k data) (liftOp (decode_meta (re_build E) data))
          | None \<Rightarrow> retOp (None, None, None)) s1"
        using s1(1) None Some S(1) get by (simp add: p_meta_def)
      show ?thesis
      proof (cases "snap_meta E s k")
        case (Some data)
        then have "snap_meta E s1 k = Some data" by (simp add: S(7))
        from replies_seq [OF put_inode_replies [OF s1(2) this], of "liftOp (decode_meta (re_build E) data)" "decode_meta (re_build E) data"]
        obtain s2 where "seqOp (put_inode E k data) (liftOp (decode_meta (re_build E) data)) s1 = (decode_meta (re_build E) data, s2)"
          "preading E key hist mhist s2" "same_snapshot s1 s2" using replies_pure(2) by (auto simp: replies_def)
        then show ?thesis using run Some same_snapshot_trans [OF s1(3)] by (intro repliesI [of _ _ _ s2]) (simp_all add: meta_of_def)
      qed (use run s1 in \<open>auto intro!: repliesI simp: meta_of_def\<close>)
    qed (use s1 None S(1) in \<open>auto intro!: repliesI simp: meta_of_def p_meta_def snap_meta_def\<close>)
  qed
qed

lemma get_mac_verified_replies:
  assumes "preading E key hist mhist s"
  shows "\<exists>s'. get_mac_verified E k s = (Ok (held (re_mac_ops E) (rp_verified_macs s) (rp_generation s, k) \<noteq> None), s') \<and> preading E key hist mhist s' \<and> same_snapshot s s'"
proof -
  note D = preadingD [OF assms]
  let ?c = "snd (lru_get (re_mac_ops E) (rp_verified_macs s) (rp_generation s, k))"
  have "get_mac_verified E k s = (Ok (held (re_mac_ops E) (rp_verified_macs s) (rp_generation s, k) \<noteq> None), s\<lparr>rp_verified_macs := ?c\<rparr>)"
    by (simp add: get_mac_verified_def held_def split_beta)
  moreover have "preading E key hist mhist (s\<lparr>rp_verified_macs := ?c\<rparr>)"
    using D(8,9) by (intro preading_same [OF assms]) (auto simp: D(4) shared_ok_def lru_okD(2) [OF D(2)] intro: memos_same)
  ultimately show ?thesis by auto
qed

lemma put_mac_verified_replies:
  assumes "preading E key hist mhist s" "snap_data E s k = Some e" "meta_of (re_build E) (snap_meta E s) k = Ok (acl, Some (mac_value (re_crypto E) key (rp_table s) k e (acl_bytes acl)), sig)"
  shows "replies E key hist mhist (put_mac_verified E k) s (Ok ())"
proof -
  note D = preadingD [OF assms(1)]
  have "shared_ok E key (rp_table s) hist mhist (rp_inode_cache s) (lru_put (re_mac_ops E) (rp_verified_macs s) (rp_generation s, k) ())"
    using D(8) assms(2,3) unfolding shared_ok_def by (fastforce dest: lru_okD(4) [OF D(2)] simp: D(5,6))
  then show ?thesis
    by (intro repliesI) (auto simp: put_mac_verified_def D(4) intro!: preading_same [OF assms(1)] memos_same [OF D(9)])
qed

lemma check_tag_replies:
  assumes "preading E key hist mhist s" "snap_data E s k = Some e" "meta_of (re_build E) (snap_meta E s) k = Ok (acl, mac, sig)"
  shows "replies E key hist mhist (check_tag E k e acl mac sig) s (tag_res (re_crypto E) (re_principal E) (rp_table s) k e (acl, mac, sig))"
proof (cases "re_principal E")
  case (User session)
  note D = preadingD [OF assms(1)]
  have key: "ses_key session = key" by (rule D(7) [OF User])
  obtain s1 where s1: "get_mac_verified E k s = (Ok (held (re_mac_ops E) (rp_verified_macs s) (rp_generation s, k) \<noteq> None), s1)"
    "preading E key hist mhist s1" "same_snapshot s s1" using get_mac_verified_replies [OF assms(1)] by blast
  note S = same_snapshotD [OF s1(3)]
  let ?x = "mac_value (re_crypto E) key (rp_table s) k e (acl_bytes acl)"
  show ?thesis
  proof (cases "held (re_mac_ops E) (rp_verified_macs s) (rp_generation s, k) = None")
    case False
    then have "mac = Some ?x" using D(5,6,8) assms(2,3) unfolding shared_ok_def by (metis fst_conv snd_conv)
    then show ?thesis using s1 User False key by (intro repliesI [of _ _ _ s1]) (auto simp: check_tag_def tag_res_def tag_ok_def)
  next
    case True
    show ?thesis
    proof (cases "mac = Some ?x")
      case mac: True
      have "replies E key hist mhist (put_mac_verified E k) s1 (Ok ())"
        using put_mac_verified_replies [OF s1(2), of k e acl sig] assms(2,3) mac by (simp add: S)
      then obtain s2 where "put_mac_verified E k s1 = (Ok (), s2)" "preading E key hist mhist s2" "same_snapshot s1 s2" by (auto simp: replies_def)
      moreover have "check_tag E k e acl mac sig s = put_mac_verified E k s1"
        unfolding check_tag_def User principal.case by (subst bindOp_Ok [of "get_mac_verified E k" s, OF s1(1)]) (simp add: True mac key S(2))
      ultimately show ?thesis using User mac key same_snapshot_trans [OF s1(3)]
        by (intro repliesI [of _ _ _ s2]) (simp_all add: tag_res_def tag_ok_def)
    next
      case mac: False
      then show ?thesis using s1 User True key S(2)
        by (intro repliesI [of _ _ _ s1]) (auto simp: check_tag_def tag_res_def tag_ok_def split: option.split)
    qed
  qed
qed (use assms(1) in \<open>auto intro!: repliesI simp: check_tag_def tag_res_def tag_ok_def split: option.split\<close>)

section \<open>The primitives\<close>

lemma on_txn_replies:
  assumes "preading E key hist mhist s" "answers (re_caches E) hist f (rp_txn s) r"
  shows "replies E key hist mhist (on_txn f) s r"
proof -
  note D = preadingD [OF assms(1)]
  obtain pc where pc: "f (rp_txn s) = (r, (rp_txn s)\<lparr>rt_cache := pc\<rparr>)" "coherent (re_caches E) hist pc" using assms(2) by (auto simp: answers_def)
  show ?thesis
    using pc D(8) reading_cache [OF D(4) pc(2)]
    by (intro repliesI) (auto simp: on_txn_def intro!: preading_same [OF assms(1)] memos_same [OF D(9)])
qed

text \<open>One directory of the walk: its entry, its tag, and the child \<open>f\<close> goes on with.\<close>

lemma directory_step_replies:
  assumes "preading E key hist mhist s" "rt_data (rp_txn s) = Some t" "meta_of (re_build E) (snap_meta E s) k = Ok (acl, mac, sig)"
    and cont: "\<And>c s'. preading E key hist mhist s' \<Longrightarrow> same_snapshot s s' \<Longrightarrow> replies E key hist mhist (f c) s' (g c)"
  shows "replies E key hist mhist (bindOp (on_txn (blob_at (re_env E) (re_caches E) t k)) (\<lambda>blob. case blob of None \<Rightarrow> retOp None
      | Some blob \<Rightarrow> seqOp (check_tag E k blob acl mac sig) (bindOp (liftOp (entry_child blob n)) (\<lambda>child.
          case child of Some child \<Rightarrow> f child | None \<Rightarrow> retOp None)))) s
    (case snap_data E s k of None \<Rightarrow> Ok None
      | Some blob \<Rightarrow> andThen (tag_res (re_crypto E) (re_principal E) (rp_table s) k blob (acl, mac, sig)) (\<lambda>_. andThen (entry_child blob n) (\<lambda>child.
          case child of Some child \<Rightarrow> g child | None \<Rightarrow> Ok None)))"
proof -
  let ?rest = "\<lambda>blob. case blob of None \<Rightarrow> Ok None
    | Some blob \<Rightarrow> andThen (tag_res (re_crypto E) (re_principal E) (rp_table s) k blob (acl, mac, sig)) (\<lambda>_. andThen (entry_child blob n) (\<lambda>child.
        case child of Some child \<Rightarrow> g child | None \<Rightarrow> Ok None))"
  have "replies E key hist mhist (on_txn (blob_at (re_env E) (re_caches E) t k)) s (Ok (snap_data E s k))"
    unfolding snap_data_def by (rule on_txn_replies [OF assms(1) blob_at_answers [OF preadingD(4) [OF assms(1)] assms(2)]])
  then have "replies E key hist mhist (bindOp (on_txn (blob_at (re_env E) (re_caches E) t k)) (\<lambda>blob. case blob of None \<Rightarrow> retOp None
      | Some blob \<Rightarrow> seqOp (check_tag E k blob acl mac sig) (bindOp (liftOp (entry_child blob n)) (\<lambda>child.
          case child of Some child \<Rightarrow> f child | None \<Rightarrow> retOp None)))) s (andThen (Ok (snap_data E s k)) ?rest)"
  proof (rule replies_bind, goal_cases)
    case (1 blob s1)
    note S = same_snapshotD [OF 1(3)]
    show ?case
    proof (cases blob)
      case (Some e)
      have e: "snap_data E s1 k = Some e" "meta_of (re_build E) (snap_meta E s1) k = Ok (acl, mac, sig)" using 1(1) Some assms(3) S by simp_all
      show ?thesis
        unfolding Some option.case S(2) [symmetric]
      proof (rule replies_seq [OF check_tag_replies [OF 1(2) e]], rule replies_bind [OF replies_pure(2)], goal_cases)
        case (2 s2 child s3)
        from 1(3) 2(3,6) have "same_snapshot s s3" using same_snapshot_trans by blast
        then show ?case using 2(5) cont replies_pure(1) [OF 2(5)] by (cases child) simp_all
      qed
    qed (use replies_pure(1) [OF 1(2)] in simp)
  qed
  then show ?thesis by simp
qed

lemma resolve_enforced_from_replies:
  assumes "preading E key hist mhist s" "rt_data (rp_txn s) = Some t"
  shows "replies E key hist mhist (resolve_enforced_from E t k p) s
    (guarded_walk (re_build E) (re_crypto E) (re_principal E) (rp_table s) (snap_data E s) (snap_meta E s) k p)"
  using assms
proof (induction p arbitrary: k s)
  case Nil
  then show ?case by (simp add: replies_pure del: retOp_apply)
next
  case (Cons n p)
  show ?case
    unfolding resolve_enforced_from.simps guarded_walk.simps
  proof (rule replies_bind [OF p_meta_replies [OF Cons.prems(1)]], goal_cases)
    case (1 m s1)
    obtain acl mac sig where m: "m = (acl, mac, sig)" by (cases m)
    note S1 = same_snapshotD [OF 1(3)]
    have m1: "meta_of (re_build E) (snap_meta E s1) k = Ok (acl, mac, sig)" using 1(1) m S1 by simp
    show ?case
      unfolding m prod.case fst_conv S1(2,7,8) [symmetric]
    proof (rule replies_seq [OF replies_pure(2) [OF 1(2)]], goal_cases)
      case (1 s2)
      note S2 = same_snapshotD [OF 1(3)]
      show ?case
        unfolding S2(2,7,8) [symmetric]
      proof (rule directory_step_replies [OF 1(2)], goal_cases)
        case (3 c s3)
        note S3 = same_snapshotD [OF 3(2)]
        show ?case using Cons.IH [OF 3(1), of c] Cons.prems(2) S1 S2 S3 by simp
      qed (use Cons.prems(2) m1 S1 S2 in simp_all)
    qed
  qed
qed

lemma p_read_resolve_replies:
  assumes "preading E key hist mhist s" "enforced E"
  shows "replies E key hist mhist (p_read_resolve E p) s
    (if rt_data (rp_txn s) = None then Ok (if p = [] then Some akey_ROOT else None)
     else guarded_walk (re_build E) (re_crypto E) (re_principal E) (rp_table s) (snap_data E s) (snap_meta E s) akey_ROOT p)"
proof -
  note D = preadingD [OF assms(1)]
  let ?w = "guarded_walk (re_build E) (re_crypto E) (re_principal E) (rp_table s) (snap_data E s) (snap_meta E s) akey_ROOT p"
  show ?thesis
  proof (cases "rp_enforced_paths s p")
    case (Some k)
    then have w: "?w = Ok (Some k)" using D(9) by (simp add: memos_ok_def)
    have "k = akey_ROOT \<and> p = []" if "rt_data (rp_txn s) = None"
      using w that by (cases p) (auto simp: snap_data_def snapshot_def)
    then show ?thesis using w Some assms by (intro repliesI [of _ _ _ s]) (auto simp: p_read_resolve_def)
  next
    case None
    show ?thesis
    proof (cases "rt_data (rp_txn s)")
      case data: None
      then show ?thesis using None assms by (intro repliesI [of _ _ _ s]) (auto simp: p_read_resolve_def apath_is_root_def)
    next
      case (Some t)
      have memo: "replies E key hist mhist (case r of Some akey \<Rightarrow> seqOp (memo_path p akey) (retOp r) | None \<Rightarrow> retOp r) s' (Ok r)"
        if "preading E key hist mhist s'" "same_snapshot s s'" "?w = Ok r" for r s'
      proof (cases r)
        case (Some k)
        have "memos_ok E (s'\<lparr>rp_enforced_paths := (rp_enforced_paths s')(p \<mapsto> k)\<rparr>)"
          using preadingD(9) [OF that(1)] that(3) Some same_snapshotD [OF that(2)]
          unfolding memos_ok_def by simp
        then have "preading E key hist mhist (s'\<lparr>rp_enforced_paths := (rp_enforced_paths s')(p \<mapsto> k)\<rparr>)"
          using preadingD(4,8) [OF that(1)] by (intro preading_same [OF that(1)]) simp_all
        then show ?thesis using Some by (intro repliesI) (auto simp: memo_path_def seqOp_def bindOp_def)
      qed (use replies_pure(1) [OF that(1)] in simp)
      have "replies E key hist mhist (bindOp (resolve_enforced E t p) (\<lambda>resolved. case resolved of
          Some akey \<Rightarrow> seqOp (memo_path p akey) (retOp resolved) | None \<Rightarrow> retOp resolved)) s (andThen ?w Ok)"
        unfolding resolve_enforced_def
        by (rule replies_bind [OF resolve_enforced_from_replies [OF assms(1) Some]]) (rule memo)
      moreover have "andThen ?w Ok = ?w" by (cases ?w) simp_all
      ultimately show ?thesis using None Some assms(2) by (simp add: replies_def p_read_resolve_def)
    qed
  qed
qed

lemma p_read_authorize_replies:
  assumes "preading E key hist mhist s" "enforced E"
  shows "replies E key hist mhist (p_read_authorize E k Access) s (may_read (re_build E) (re_principal E) (snap_meta E s) k)"
proof (cases "k \<in> rp_access_ok s")
  case True
  then have "may_read (re_build E) (re_principal E) (snap_meta E s) k = Ok ()" using preadingD(9) [OF assms(1)] by (simp add: memos_ok_def)
  then show ?thesis using True assms by (intro repliesI [of _ _ _ s]) (auto simp: p_read_authorize_def)
next
  case False
  have target: "replies E key hist mhist (authorize_target E k Access) s (may_read (re_build E) (re_principal E) (snap_meta E s) k)"
    unfolding authorize_target_def may_read_def using assms(2)
    by simp (rule replies_bind [OF p_meta_replies [OF assms(1)]], auto intro: replies_pure split: prod.split simp del: liftOp_apply)
  have "replies E key hist mhist (seqOp (authorize_target E k Access) (memo_access k)) s (andThen (may_read (re_build E) (re_principal E) (snap_meta E s) k) (\<lambda>_. Ok ()))"
  proof (rule replies_seq [OF target], goal_cases)
    case (1 s')
    have "memos_ok E (s'\<lparr>rp_access_ok := insert k (rp_access_ok s')\<rparr>)"
      using preadingD(9) [OF 1(2)] 1(1) same_snapshotD [OF 1(3)] unfolding memos_ok_def by simp
    then have "preading E key hist mhist (s'\<lparr>rp_access_ok := insert k (rp_access_ok s')\<rparr>)"
      using preadingD(4,8) [OF 1(2)] by (intro preading_same [OF 1(2)]) simp_all
    then show ?case by (intro repliesI) (auto simp: memo_access_def)
  qed
  moreover have "andThen r (\<lambda>_. Ok ()) = r" for r :: "unit res" by (cases r) simp_all
  ultimately show ?thesis using False assms(2) by (simp add: replies_def p_read_authorize_def)
qed

lemma p_read_verify_replies:
  assumes "preading E key hist mhist s" "enforced E" "snap_data E s k = Some e"
  shows "replies E key hist mhist (p_read_verify E k e) s
    (andThen (meta_of (re_build E) (snap_meta E s) k) (tag_res (re_crypto E) (re_principal E) (rp_table s) k e))"
proof (cases "k \<in> rp_verified s")
  case True
  then obtain m where "meta_of (re_build E) (snap_meta E s) k = Ok m" "tag_ok (re_crypto E) (re_principal E) (rp_table s) k e m"
    using preadingD(9) [OF assms(1)] assms(3) unfolding memos_ok_def by blast
  then show ?thesis using True assms by (intro repliesI [of _ _ _ s]) (auto simp: p_read_verify_def tag_res_def enforced_def)
next
  case False
  let ?r = "andThen (meta_of (re_build E) (snap_meta E s) k) (tag_res (re_crypto E) (re_principal E) (rp_table s) k e)"
  have int: "replies E key hist mhist (p_verify_integrity E k e) s ?r"
    unfolding p_verify_integrity_def if_not_P [OF assms(2) [unfolded enforced_def]]
  proof (rule replies_bind [OF p_meta_replies [OF assms(1)]], goal_cases)
    case (1 m s')
    obtain acl mac sig where m: "m = (acl, mac, sig)" by (cases m)
    show ?case using check_tag_replies [OF 1(2), of k e acl mac sig] 1(1) m assms(3) same_snapshotD [OF 1(3)] by simp
  qed
  have "replies E key hist mhist (seqOp (p_verify_integrity E k e) (memo_verified k)) s (andThen ?r (\<lambda>_. Ok ()))"
  proof (rule replies_seq [OF int], goal_cases)
    case (1 s')
    obtain m where m: "meta_of (re_build E) (snap_meta E s) k = Ok m" "tag_ok (re_crypto E) (re_principal E) (rp_table s) k e m"
      using 1(1) by (auto simp: tag_res_def split: if_splits)
    have "memos_ok E (s'\<lparr>rp_verified := insert k (rp_verified s')\<rparr>)"
      using preadingD(9) [OF 1(2)] m assms(3) same_snapshotD [OF 1(3)] unfolding memos_ok_def by (cases m) simp
    then have "preading E key hist mhist (s'\<lparr>rp_verified := insert k (rp_verified s')\<rparr>)"
      using preadingD(4,8) [OF 1(2)] by (intro preading_same [OF 1(2)]) simp_all
    then show ?case by (intro repliesI) (auto simp: memo_verified_def)
  qed
  moreover have "andThen r (\<lambda>_. Ok ()) = r" for r :: "unit res" by (cases r) simp_all
  ultimately show ?thesis using False assms(2) by (simp add: replies_def p_read_verify_def enforced_def)
qed

lemma buffer_access_replies:
  assumes "preading E key hist mhist s"
  shows "replies E key hist mhist (buffer_access E k) s (Ok ())"
proof -
  note D = preadingD [OF assms]
  let ?s = "s\<lparr>rp_access_log := (rp_access_log s)(k \<mapsto> re_now E)\<rparr>"
  have "memos_ok E ?s" by (rule memos_same [OF D(9)]) simp_all
  then have "preading E key hist mhist ?s" using D(4,8) by (intro preading_same [OF assms]) simp_all
  then show ?thesis by (intro repliesI) (auto simp: buffer_access_def)
qed

lemma entry_blob_replies:
  assumes "preading E key hist mhist s"
  shows "replies E key hist mhist (on_txn (read_entry_blob (re_env E) (re_caches E) k)) s (Ok (snap_data E s k))"
  unfolding snap_data_def by (rule on_txn_replies [OF assms read_entry_blob_answers [OF preadingD(4) [OF assms]]])

end
