(* ===== verification/Protected_Reads.thy ===== *)
theory Protected_Reads
  imports Protected_Read_Laws Permitted
begin

text \<open>
  What a protected read gives away, and to whom. The first section removes the caches from the reads; the properties say that a read over coherent caches that
  returns a document was permitted along the whole path and met no altered entry, whatever is stored, and that on a table the library wrote
  itself the permission system changes nothing but refusals.
\<close>

section \<open>Reads without caches\<close>

abbreviation walk_of :: "('t, 'i, 'm, 'n, 'p, 'b, 'q, 'v) renv \<Rightarrow> ('t, 'i, 'm, 'n, 'p, 'b, 'q, 'v) pread_txn \<Rightarrow> akey \<Rightarrow> apath \<Rightarrow> akey option res" where
  "walk_of E s \<equiv> raw_walk (snap_data E s)"

definition resolved :: "('t, 'i, 'm, 'n, 'p, 'b, 'q, 'v) renv \<Rightarrow> ('t, 'i, 'm, 'n, 'p, 'b, 'q, 'v) pread_txn \<Rightarrow> apath \<Rightarrow> akey option res" where
  "resolved E s p = (if rt_data (rp_txn s) = None then walk_of E s akey_ROOT p
     else guarded_walk (re_build E) (re_crypto E) (re_principal E) (rp_table s) (snap_data E s) (snap_meta E s) akey_ROOT p)"

definition guarded_read ::
  "('t, 'i, 'm, 'n, 'p, 'b, 'q, 'v) renv \<Rightarrow> ('t, 'i, 'm, 'n, 'p, 'b, 'q, 'v) pread_txn \<Rightarrow> 'a res \<Rightarrow> (bytes \<Rightarrow> 'a res) \<Rightarrow> apath \<Rightarrow> 'a res" where
  "guarded_read E s none f p = andThen (resolved E s p) (\<lambda>k. case k of None \<Rightarrow> none
     | Some k \<Rightarrow> andThen (may_read (re_build E) (re_principal E) (snap_meta E s) k) (\<lambda>_. case snap_data E s k of None \<Rightarrow> none
         | Some e \<Rightarrow> andThen (andThen (meta_of (re_build E) (snap_meta E s) k) (tag_res (re_crypto E) (re_principal E) (rp_table s) k e)) (\<lambda>_. f e)))"

lemma p_read_resolve_resolved:
  assumes "preading E key hist mhist s" "enforced E"
  shows "replies E key hist mhist (p_read_resolve E p) s (resolved E s p)"
proof -
  have "walk_of E s akey_ROOT p = Ok (if p = [] then Some akey_ROOT else None)" if "rt_data (rp_txn s) = None"
    using that by (cases p) (simp_all add: snap_data_def snapshot_def)
  then show ?thesis using p_read_resolve_replies [OF assms, of p] by (cases "rt_data (rp_txn s)") (simp_all add: resolved_def)
qed

lemma resolved_same: "same_snapshot s s' \<Longrightarrow> resolved E s' p = resolved E s p"
  by (simp add: resolved_def same_snapshotD)

lemma p_with_blob_replies:
  assumes "preading E key hist mhist s" "enforced E" "into_arbor_path a = Ok p" "\<And>e. f p e = liftOp (g e)"
  shows "replies E key hist mhist (p_with_blob recorded (pread_grab E) a none f) s (guarded_read E s none g p)"
proof -
  let ?G = "pread_grab E"
  have G: "g_resolve ?G = p_read_resolve E" "g_authorize ?G = p_read_authorize E" "g_verify ?G = p_read_verify E" "g_record_access ?G = buffer_access E"
    "g_entry_blob ?G = (\<lambda>k. on_txn (read_entry_blob (re_env E) (re_caches E) k))" by (simp_all add: pread_grab_def read_grab_def)
  have run: "replies E key hist mhist (seqOp (p_read_authorize E k Access) (seqOp (if recorded then buffer_access E k else retOp ())
      (bindOp (on_txn (read_entry_blob (re_env E) (re_caches E) k)) (\<lambda>blob. case blob of None \<Rightarrow> liftOp none
        | Some blob \<Rightarrow> seqOp (p_read_verify E k blob) (f p blob))))) s1
    (andThen (may_read (re_build E) (re_principal E) (snap_meta E s) k) (\<lambda>_. andThen (Ok ()) (\<lambda>_. andThen (Ok (snap_data E s k)) (\<lambda>e. case e of None \<Rightarrow> none
      | Some e \<Rightarrow> andThen (andThen (meta_of (re_build E) (snap_meta E s) k) (tag_res (re_crypto E) (re_principal E) (rp_table s) k e)) (\<lambda>_. g e)))))"
    if s1: "preading E key hist mhist s1" "same_snapshot s s1" for k s1
  proof -
    note S1 = same_snapshotD [OF s1(2)]
    show ?thesis
      unfolding S1(2,7,8) [symmetric]
    proof (rule replies_seq [OF p_read_authorize_replies [OF s1(1) assms(2)]], rule replies_seq, goal_cases)
      case (1 s2)
      then show ?case using buffer_access_replies [OF 1(2), of k] replies_pure(1) [OF 1(2), of "()"] by (cases recorded) (simp_all del: retOp_apply)
    next
      case (2 s2 s3)
      note S3 = same_snapshotD [OF same_snapshot_trans [OF 2(3,6)]]
      show ?case
        unfolding S3(2,7,8) [symmetric]
      proof (rule replies_bind [OF entry_blob_replies [OF 2(5)]], goal_cases)
        case (1 e s4)
        note S4 = same_snapshotD [OF 1(3)]
        show ?case
        proof (cases e)
          case (Some e)
          have "snap_data E s4 k = Some e" using 1(1) Some S4 by simp
          then have v: "replies E key hist mhist (p_read_verify E k e) s4
            (andThen (meta_of (re_build E) (snap_meta E s3) k) (tag_res (re_crypto E) (re_principal E) (rp_table s3) k e))"
            using p_read_verify_replies [OF 1(2) assms(2)] S4 by simp
          show ?thesis unfolding Some option.case assms(4) by (rule replies_seq [OF v replies_pure(2)])
        qed (use replies_pure(2) [OF 1(2)] in simp)
      qed
    qed
  qed
  have "replies E key hist mhist (p_with_blob recorded ?G a none f) s (andThen (Ok p) (\<lambda>p. guarded_read E s none g p))"
    unfolding p_with_blob_def assms(3) G guarded_read_def
  proof (rule replies_bind [OF replies_pure(2) [OF assms(1)]], goal_cases)
    case (1 p' s1)
    note first = 1
    have p': "p' = p" using 1(1) by simp
    have "replies E key hist mhist (p_read_resolve E p) s1 (resolved E s p)"
      using p_read_resolve_resolved [OF 1(2) assms(2)] resolved_same [OF 1(3)] by simp
    then show ?case
      unfolding p'
    proof (rule replies_bind, goal_cases)
      case (1 k s2)
      from run [OF 1(2) same_snapshot_trans [OF first(3) 1(3)]] show ?case using replies_pure(2) [OF 1(2), of none] by (cases k) simp_all
    qed
  qed
  then show ?thesis by simp
qed

section \<open>Permission along a path\<close>

text \<open>The principal may read the a-node, and its entry, if there is one, carries the tag the principal checks.\<close>

definition readable :: "('t, 'i, 'm, 'n, 'p, 'b, 'q, 'v) renv \<Rightarrow> ('t, 'i, 'm, 'n, 'p, 'b, 'q, 'v) pread_txn \<Rightarrow> akey \<Rightarrow> bool" where
  "readable E s k \<longleftrightarrow> (\<exists>m. meta_of (re_build E) (snap_meta E s) k = Ok m \<and> permitted (re_principal E) k (fst m) Access \<and>
     (\<forall>e. snap_data E s k = Some e \<longrightarrow> tag_ok (re_crypto E) (re_principal E) (rp_table s) k e m))"

definition may_see :: "('t, 'i, 'm, 'n, 'p, 'b, 'q, 'v) renv \<Rightarrow> ('t, 'i, 'm, 'n, 'p, 'b, 'q, 'v) pread_txn \<Rightarrow> akey \<Rightarrow> bool" where
  "may_see E s k \<longleftrightarrow> (\<exists>m. meta_of (re_build E) (snap_meta E s) k = Ok m \<and> permitted (re_principal E) k (fst m) Access)"

lemmas authorize_access = authorize_permitted [of Access, simplified]

lemma may_read_Ok: "may_read B P M k = Ok () \<longleftrightarrow> (\<exists>m. meta_of B M k = Ok m \<and> permitted P k (fst m) Access)"
  by (auto simp: may_read_def authorize_access split: if_splits)

lemma permitted_root [simp]: "permitted P akey_ROOT acl Access"
  by (simp add: permitted_def split: principal.split)

lemma guarded_walk_readable:
  assumes "guarded_walk B C P t D M k p = Ok (Some j)"
  shows "raw_walk D k p = Ok (Some j) \<and> (\<forall>front n rear d. p = front @ n # rear \<longrightarrow> raw_walk D k front = Ok (Some d) \<longrightarrow>
    (\<exists>m e. meta_of B M d = Ok m \<and> permitted P d (fst m) Access \<and> D d = Some e \<and> tag_ok C P t d e m))"
  using assms
proof (induction p arbitrary: k)
  case (Cons x p)
  from Cons.prems obtain m e c where step: "meta_of B M k = Ok m" "permitted P k (fst m) Access" "D k = Some e" "tag_ok C P t k e m"
    "entry_child e x = Ok (Some c)" "guarded_walk B C P t D M c p = Ok (Some j)"
    by (auto simp: authorize_access tag_res_def split: if_splits option.splits)
  note IH = Cons.IH [OF step(6)]
  have "\<exists>m e. meta_of B M d = Ok m \<and> permitted P d (fst m) Access \<and> D d = Some e \<and> tag_ok C P t d e m"
    if "x # p = front @ n # rear" "raw_walk D k front = Ok (Some d)" for front n rear d
  proof (cases front)
    case Nil
    then show ?thesis using that(2) step by auto
  next
    case (Cons y ys)
    then have raw: "p = ys @ n # rear" "raw_walk D c ys = Ok (Some d)" using that step(3,5) by auto
    from conjunct2 [OF IH, rule_format, OF raw] show ?thesis .
  qed
  then show ?case using IH step(3,5) by simp
qed simp

lemma resolved_readable:
  assumes "resolved E s p = Ok (Some j)"
  shows "walk_of E s akey_ROOT p = Ok (Some j) \<and>
    (\<forall>front n rear d. p = front @ n # rear \<longrightarrow> walk_of E s akey_ROOT front = Ok (Some d) \<longrightarrow> readable E s d \<and> snap_data E s d \<noteq> None)"
proof (cases "rt_data (rp_txn s)")
  case None
  then have "p = []" using assms by (cases p) (auto simp: resolved_def snap_data_def snapshot_def)
  then show ?thesis using assms None by (simp add: resolved_def)
next
  case (Some t)
  then have "guarded_walk (re_build E) (re_crypto E) (re_principal E) (rp_table s) (snap_data E s) (snap_meta E s) akey_ROOT p = Ok (Some j)"
    using assms by (simp add: resolved_def)
  from guarded_walk_readable [OF this] show ?thesis unfolding readable_def by force
qed

lemma guarded_read_SomeE:
  assumes "guarded_read E s (Ok None) f p = Ok (Some v)"
  obtains k e where "resolved E s p = Ok (Some k)" "readable E s k" "snap_data E s k = Some e" "f e = Ok (Some v)"
proof -
  obtain k where k: "resolved E s p = Ok (Some k)" using assms by (auto simp: guarded_read_def split: option.splits)
  then obtain e where e: "may_read (re_build E) (re_principal E) (snap_meta E s) k = Ok ()" "snap_data E s k = Some e"
    "andThen (meta_of (re_build E) (snap_meta E s) k) (tag_res (re_crypto E) (re_principal E) (rp_table s) k e) = Ok ()" "f e = Ok (Some v)"
    using assms by (auto simp: guarded_read_def split: option.splits)
  then have "readable E s k" by (auto simp: readable_def may_read_Ok tag_res_def split: if_splits)
  then show thesis using that k e by blast
qed

section \<open>Properties\<close>

definition document_of :: "chrono \<Rightarrow> apath \<Rightarrow> bytes \<Rightarrow> vnode option res" where
  "document_of C p e = andThen (entry_split e) (\<lambda>(kind, payload).
     case kind of File \<Rightarrow> andThen (blob_decode C payload) (\<lambda>v. Ok (Some v)) | Dir \<Rightarrow> Err (is_a_directory p))"

lemma liftOp_bind: "bindOp (liftOp r) (\<lambda>x. liftOp (g x)) = liftOp (andThen r g)"
  by (rule ext) (cases r; simp)

lemma retOp_lift: "retOp x = liftOp (Ok x)"
  by (rule ext) simp

lemma load_value_lift: "bindOp (liftOp (entry_split e)) (\<lambda>(kind, payload). case kind of
    File \<Rightarrow> bindOp (liftOp (blob_decode C payload)) (\<lambda>v. retOp (Some v)) | Dir \<Rightarrow> liftOp (Err (is_a_directory p))) = liftOp (document_of C p e)"
  by (rule ext) (auto simp: document_of_def bindOp_def split: res.splits entry_kind.splits)

lemma load_value_replies:
  assumes "preading E key hist mhist s" "enforced E" "into_arbor_path a = Ok p"
  shows "replies E key hist mhist (p_grab_load_value C (pread_grab E) a) s (guarded_read E s (Ok None) (document_of C p) p)"
  unfolding p_grab_load_value_def by (rule p_with_blob_replies [OF assms]) (rule load_value_lift)

text \<open>A snapshot that only the library wrote: the metadata can be decoded, and every entry carries the tag the principal checks.\<close>

definition sound_snapshot :: "('t, 'i, 'm, 'n, 'p, 'b, 'q, 'v) renv \<Rightarrow> ('t, 'i, 'm, 'n, 'p, 'b, 'q, 'v) pread_txn \<Rightarrow> bool" where
  "sound_snapshot E s \<longleftrightarrow> (\<forall>k. \<exists>m. meta_of (re_build E) (snap_meta E s) k = Ok m \<and>
     (\<forall>e. snap_data E s k = Some e \<longrightarrow> tag_ok (re_crypto E) (re_principal E) (rp_table s) k e m))"

text \<open>Every directory on the way, and every a-node on the way including the last, may be read.\<close>

definition open_dirs :: "(akey \<Rightarrow> bool) \<Rightarrow> version \<Rightarrow> akey \<Rightarrow> apath \<Rightarrow> bool" where
  "open_dirs vis D k p \<longleftrightarrow> (\<forall>front n rear d. p = front @ n # rear \<longrightarrow> raw_walk D k front = Ok (Some d) \<longrightarrow> vis d)"

definition open_path :: "(akey \<Rightarrow> bool) \<Rightarrow> version \<Rightarrow> akey \<Rightarrow> apath \<Rightarrow> bool" where
  "open_path vis D k p \<longleftrightarrow> (\<forall>front rear d. p = front @ rear \<longrightarrow> raw_walk D k front = Ok (Some d) \<longrightarrow> vis d)"

lemma open_dirs_Nil [simp]: "open_dirs vis D k []"
  by (simp add: open_dirs_def)

lemma open_dirs_Cons: "open_dirs vis D k (x # p) \<longleftrightarrow> vis k \<and> (\<forall>e c. D k = Some e \<longrightarrow> entry_child e x = Ok (Some c) \<longrightarrow> open_dirs vis D c p)"
  unfolding open_dirs_def
proof (intro iffI conjI allI impI, goal_cases)
  case 1
  then show ?case by (elim allE [of _ "[]"] allE [of _ x] allE [of _ p] allE [of _ k]) simp
next
  case (2 e c front n rear d)
  from 2(1) have "x # p = (x # front) @ n # rear \<longrightarrow> raw_walk D k (x # front) = Ok (Some d) \<longrightarrow> vis d" by blast
  then show ?case using 2(2-5) by simp
next
  case (3 front n rear d)
  show ?case
  proof (cases front)
    case Nil
    then show ?thesis using 3 by simp
  next
    case (Cons y ys)
    then obtain e c where "D k = Some e" "entry_child e x = Ok (Some c)" "raw_walk D c ys = Ok (Some d)" "p = ys @ n # rear"
      using 3(2,3) by (auto split: option.splits)
    then show ?thesis using 3(1) by blast
  qed
qed

lemma open_path_dirs: "open_path vis D k p \<longleftrightarrow> open_dirs vis D k p \<and> (\<forall>j. raw_walk D k p = Ok (Some j) \<longrightarrow> vis j)"
  unfolding open_path_def open_dirs_def
proof (intro iffI conjI allI impI, goal_cases)
  case (3 front rear d)
  then show ?case by (cases rear) auto
qed (metis append_Nil2)+

lemma guarded_walk_sound:
  assumes "\<And>k. \<exists>m. meta_of B M k = Ok m \<and> (\<forall>e. D k = Some e \<longrightarrow> tag_ok C P t k e m)"
    and vis: "\<And>d m. meta_of B M d = Ok m \<Longrightarrow> vis d \<longleftrightarrow> permitted P d (fst m) Access"
  shows "guarded_walk B C P t D M k p = (if open_dirs vis D k p then raw_walk D k p else Err (access_denied Access))"
proof (induction p arbitrary: k)
  case (Cons x p)
  obtain m where m: "meta_of B M k = Ok m" "\<And>e. D k = Some e \<Longrightarrow> tag_ok C P t k e m" using assms(1) by blast
  note split = open_dirs_Cons [of vis D k x p, unfolded vis [OF m(1)]]
  show ?case
  proof (cases "permitted P k (fst m) Access")
    case True
    show ?thesis
    proof (cases "D k")
      case None
      then show ?thesis using True m(1) by (simp add: authorize_access split)
    next
      case (Some e)
      then show ?thesis using True m Cons.IH
        by (cases "entry_child e x") (auto simp: authorize_access tag_res_def split split: option.split)
    qed
  qed (use m(1) in \<open>simp add: authorize_access split\<close>)
qed simp

lemma resolved_sound:
  assumes "sound_snapshot E s"
  shows "resolved E s p = (if open_dirs (may_see E s) (snap_data E s) akey_ROOT p then walk_of E s akey_ROOT p else Err (access_denied Access))"
proof (cases "rt_data (rp_txn s)")
  case None
  obtain m where m: "meta_of (re_build E) (snap_meta E s) akey_ROOT = Ok m" using assms unfolding sound_snapshot_def by blast
  then have "may_see E s akey_ROOT" by (cases m) (simp add: may_see_def)
  then have "open_dirs (may_see E s) (snap_data E s) akey_ROOT p" using None by (cases p) (simp_all add: open_dirs_Cons snap_data_def snapshot_def)
  then show ?thesis using None by (simp add: resolved_def)
next
  case (Some t)
  have "may_see E s d \<longleftrightarrow> permitted (re_principal E) d (fst m) Access" if "meta_of (re_build E) (snap_meta E s) d = Ok m" for d m
    using that by (cases m) (simp add: may_see_def)
  then show ?thesis
    using guarded_walk_sound [of "re_build E" "snap_meta E s" "snap_data E s" "re_crypto E" "re_principal E" "rp_table s" "may_see E s" akey_ROOT p] assms Some
    unfolding resolved_def sound_snapshot_def by simp
qed

lemma guarded_read_sound:
  assumes "sound_snapshot E s"
  shows "guarded_read E s none f p =
    (if open_path (may_see E s) (snap_data E s) akey_ROOT p
     then andThen (walk_of E s akey_ROOT p) (\<lambda>k. case k of None \<Rightarrow> none | Some k \<Rightarrow> (case snap_data E s k of None \<Rightarrow> none | Some e \<Rightarrow> f e))
     else Err (access_denied Access))"
proof -
  have target: "andThen (may_read (re_build E) (re_principal E) (snap_meta E s) k) (\<lambda>_. case snap_data E s k of None \<Rightarrow> none
      | Some e \<Rightarrow> andThen (andThen (meta_of (re_build E) (snap_meta E s) k) (tag_res (re_crypto E) (re_principal E) (rp_table s) k e)) (\<lambda>_. f e)) =
    (if may_see E s k then (case snap_data E s k of None \<Rightarrow> none | Some e \<Rightarrow> f e) else Err (access_denied Access))" for k
  proof -
    obtain m where m: "meta_of (re_build E) (snap_meta E s) k = Ok m" "\<And>e. snap_data E s k = Some e \<Longrightarrow> tag_ok (re_crypto E) (re_principal E) (rp_table s) k e m"
      using assms unfolding sound_snapshot_def by blast
    then show ?thesis by (cases m) (auto simp: may_read_def may_see_def authorize_access tag_res_def split: option.split)
  qed
  show ?thesis
    unfolding guarded_read_def resolved_sound [OF assms] open_path_dirs target
    by (cases "walk_of E s akey_ROOT p") (auto split: option.split)
qed

text \<open>C10: a protected read gives away nothing it should not, as long as its caches are coherent. Let the shared caches of the table hold only what was stored in the version of the data and of the
  metadata their generation stands for, and let the memos come from earlier reads of the same transaction; what is stored may have been written by any program. When a guest or a user loads a
  document, it is the one stored at the path in the snapshot, and for the a-node read and every directory on the way the access-control list permits the principal to read it and the tag
  the principal can check (the keyed tag of a user, the signature of a guest) verifies over the stored bytes and that list. Committed transactions keep the caches coherent by starting a new
  generation; removing a group and promotion rewrite metadata without doing so, and after them a list cached before the change can still be used.\<close>

theorem protected_read_safe:
  assumes "preading E key hist mhist s" "enforced E" "into_arbor_path a = Ok p"
    and "p_grab_load_value C (pread_grab E) a s = (Ok (Some v), s')"
  shows "\<exists>k e. walk_of E s akey_ROOT p = Ok (Some k) \<and> snap_data E s k = Some e \<and> document_of C p e = Ok (Some v) \<and>
    (\<forall>front rear d. p = front @ rear \<longrightarrow> walk_of E s akey_ROOT front = Ok (Some d) \<longrightarrow> readable E s d \<and> snap_data E s d \<noteq> None)"
proof -
  have "guarded_read E s (Ok None) (document_of C p) p = Ok (Some v)"
    using load_value_replies [OF assms(1-3), of C] assms(4) by (auto simp: replies_def)
  then obtain k e where k: "resolved E s p = Ok (Some k)" "readable E s k" "snap_data E s k = Some e" "document_of C p e = Ok (Some v)" by (rule guarded_read_SomeE)
  note R = resolved_readable [OF k(1)]
  have "readable E s d \<and> snap_data E s d \<noteq> None" if "p = front @ rear" "walk_of E s akey_ROOT front = Ok (Some d)" for front rear d
    using that R k by (cases rear) auto
  then show ?thesis using R k by blast
qed

text \<open>The same read in the default build.\<close>

lemma default_load_value:
  assumes "reading F L hist t" "into_arbor_path a = Ok p"
  shows "fst (grab_load_value C (read_grab F L) a t) =
    andThen (raw_walk (snapshot F t) akey_ROOT p) (\<lambda>k. case k of None \<Rightarrow> Ok None | Some k \<Rightarrow> (case snapshot F t k of None \<Rightarrow> Ok None | Some e \<Rightarrow> document_of C p e))"
proof -
  have "answers L hist (bindOp (read_resolve F L p) (\<lambda>akey. case akey of None \<Rightarrow> liftOp (Ok None)
      | Some akey \<Rightarrow> bindOp (read_entry_blob F L akey) (\<lambda>blob. case blob of None \<Rightarrow> liftOp (Ok None) | Some blob \<Rightarrow> liftOp (document_of C p blob)))) t
    (andThen (raw_walk (snapshot F t) akey_ROOT p) (\<lambda>k. case k of None \<Rightarrow> Ok None
      | Some k \<Rightarrow> andThen (Ok (snapshot F t k)) (\<lambda>e. case e of None \<Rightarrow> Ok None | Some e \<Rightarrow> document_of C p e)))"
  proof (rule answers_bind [OF read_resolve_answers [OF assms(1)]], goal_cases)
    case (1 k pc)
    show ?case
    proof (cases k)
      case (Some k)
      have "answers L hist (read_entry_blob F L k) (t\<lparr>rt_cache := pc\<rparr>) (Ok (snapshot F t k))"
        using read_entry_blob_answers [OF reading_cache [OF assms(1) 1(2)], of k] by simp
      then show ?thesis
        unfolding Some option.case
      proof (rule answers_bind, goal_cases)
        case (1 e pc')
        then show ?case by (cases e) simp_all
      qed
    qed (use 1(2) in simp)
  qed
  moreover have "grab_load_value C (read_grab F L) a t = bindOp (read_resolve F L p) (\<lambda>akey. case akey of None \<Rightarrow> liftOp (Ok None)
      | Some akey \<Rightarrow> bindOp (read_entry_blob F L akey) (\<lambda>blob. case blob of None \<Rightarrow> liftOp (Ok None) | Some blob \<Rightarrow> liftOp (document_of C p blob))) t"
    unfolding grab_load_value_def with_blob_def load_value_lift by (simp add: assms(2) read_grab_def)
  ultimately show ?thesis by (auto simp: answers_def cong: option.case_cong)
qed

text \<open>A read transaction over what a write transaction left: the same table, its metadata, the same build and primitives.\<close>

definition opened_on :: "('t, 'i, 'm, 'n, 'p, 'b, 'q, 'v) renv \<Rightarrow> ('t, 'i, 'm, 'n, 'p, 'b, 'q, 'v) pread_txn \<Rightarrow> ('t, 'n) penv \<Rightarrow> ('t, 'n) pctx \<Rightarrow> bool" where
  "opened_on R r E p \<longleftrightarrow> env_data (re_env R) = pe_data E \<and> re_inodes R = pe_inodes E \<and> re_build R = pe_build E \<and> re_crypto R = pe_crypto E \<and>
     rp_table r = pe_table E \<and> rt_data (rp_txn r) = Some (ctx_data (pc_ctx p)) \<and> rp_inodes r = Some (pc_inodes p)"

text \<open>A guest with the database's public key, or a user with its integrity key.\<close>

definition reads_as :: "crypto \<Rightarrow> session \<Rightarrow> principal \<Rightarrow> bool" where
  "reads_as C s P \<longleftrightarrow> (case P of User u \<Rightarrow> ses_key u = ses_key s | Guest pk \<Rightarrow> pk = ed_public C (ses_sign_seed s) | Unrestricted \<Rightarrow> False)"

lemma sealed_sound:
  assumes "psealed E s p" "\<And>k. wb_file_get k (ctx_buf (pc_ctx p)) = None" "opened_on R r E p" "reads_as (pe_crypto E) s (re_principal R)"
  shows "sound_snapshot R r"
proof -
  obtain I where P: "penv_ok E s" "holds_inodes (pe_build E) (pe_inodes E) (pc_inodes p) I"
    "\<And>k e. contents (pe_data E) (ctx_data (pc_ctx p)) k = Some e \<Longrightarrow> k \<notin> {} \<Longrightarrow> \<not> waiting k p \<Longrightarrow> node_sealed E s I k e"
    by (rule sealed_butE [OF assms(1)]) blast
  note E = penv_okD [OF P(1)]
  have "\<exists>m. meta_of (re_build R) (snap_meta R r) k = Ok m \<and> (\<forall>e. snap_data R r k = Some e \<longrightarrow> tag_ok (re_crypto R) (re_principal R) (rp_table r) k e m)" for k
  proof -
    let ?i = "inode_of I (pe_table E) k"
    have meta: "meta_of (re_build R) (snap_meta R r) k = Ok (ino_acl ?i, ino_mac ?i, ino_sig ?i)"
      using read_meta_holds [OF P(2), of "pe_table E" k] assms(3)
      by (simp add: opened_on_def meta_of_def snap_meta_def read_meta_def redb_get [OF holds_inodesD(1) [OF P(2)]] decode_meta_def cong: option.case_cong)
    have "tag_ok (re_crypto R) (re_principal R) (rp_table r) k e (ino_acl ?i, ino_mac ?i, ino_sig ?i)" if "snap_data R r k = Some e" for e
    proof -
      have "node_sealed E s I k e" using P(3) [of k e] that assms(2,3) by (simp add: opened_on_def snap_data_def snapshot_def)
      then show ?thesis using assms(3,4) crypto_okD(5) [OF E(3)]
        by (auto simp: node_sealed_def tag_ok_def opened_on_def reads_as_def value_tags_def verify_value_def sign_value_def split: principal.splits)
    qed
    then show ?thesis using meta by blast
  qed
  then show ?thesis by (simp add: sound_snapshot_def)
qed


section \<open>Queries\<close>

definition recomposed :: "(archived_reader \<Rightarrow> 'a res) \<Rightarrow> 'a option res \<Rightarrow> bytes \<Rightarrow> 'a option res" where
  "recomposed recompose dir e = andThen (get_entry_kind e) (\<lambda>kind. case kind of
     File \<Rightarrow> andThen (archived_reader_new e 1) (\<lambda>reader. andThen (recompose reader) (\<lambda>v. Ok (Some v))) | Dir \<Rightarrow> dir)"

lemma recomposed_lift: "bindOp (liftOp (get_entry_kind e)) (\<lambda>kind. case kind of
    File \<Rightarrow> bindOp (liftOp (archived_reader_new e 1)) (\<lambda>reader. bindOp (liftOp (recompose reader)) (\<lambda>v. retOp (Some v)))
  | Dir \<Rightarrow> liftOp dir) = liftOp (recomposed recompose dir e)"
  by (rule ext) (auto simp: recomposed_def bindOp_def split: res.splits entry_kind.splits)

lemma load_replies:
  assumes "preading E key hist mhist s" "enforced E" "into_arbor_path a = Ok p"
  shows "replies E key hist mhist (p_grab_load (pread_grab E) recompose a) s (guarded_read E s (Ok None) (recomposed recompose (Err (is_a_directory p))) p)"
  unfolding p_grab_load_def by (rule p_with_blob_replies [OF assms]) (rule recomposed_lift)

text \<open>One hit of a query: nothing but the a-node itself decides.\<close>

lemma load_entity_permitted:
  assumes "preading E key hist mhist s" "enforced E" "sound_snapshot E s" "may_see E s k"
  shows "replies E key hist mhist (p_load_entity (pread_grab E) recompose k) s
    (case snap_data E s k of None \<Rightarrow> Ok None | Some e \<Rightarrow> recomposed recompose (Ok None) e)"
proof -
  have auth: "may_read (re_build E) (re_principal E) (snap_meta E s) k = Ok ()" using assms(4) by (simp add: may_read_Ok may_see_def)
  obtain s1 where s1: "p_read_authorize E k Access s = (Ok (), s1)" "preading E key hist mhist s1" "same_snapshot s s1"
    using p_read_authorize_replies [OF assms(1,2), of k] unfolding replies_def auth by blast
  obtain s2 where s2: "on_txn (read_entry_blob (re_env E) (re_caches E) k) s1 = (Ok (snap_data E s k), s2)" "preading E key hist mhist s2" "same_snapshot s1 s2"
    using entry_blob_replies [OF s1(2), of k] same_snapshotD(8) [OF s1(3), of E] by (auto simp: replies_def)
  note S = same_snapshotD [OF same_snapshot_trans [OF s1(3) s2(3)]]
  have run: "p_load_entity (pread_grab E) recompose k s = (case snap_data E s k of None \<Rightarrow> retOp None
      | Some blob \<Rightarrow> seqOp (p_read_verify E k blob) (liftOp (recomposed recompose (Ok None) blob))) s2"
    using s1(1) s2(1) unfolding p_load_entity_def retOp_lift [of None] recomposed_lift by (simp add: pread_grab_def read_grab_def)
  show ?thesis
  proof (cases "snap_data E s k")
    case (Some e)
    obtain m where "meta_of (re_build E) (snap_meta E s) k = Ok m" "tag_ok (re_crypto E) (re_principal E) (rp_table s) k e m"
      using assms(3) Some unfolding sound_snapshot_def by blast
    then obtain s3 where "p_read_verify E k e s2 = (Ok (), s3)" "preading E key hist mhist s3" "same_snapshot s2 s3"
      using p_read_verify_replies [OF s2(2) assms(2), of k e] Some S by (auto simp: replies_def tag_res_def)
    then show ?thesis using run Some same_snapshot_trans [OF same_snapshot_trans [OF s1(3) s2(3)]] by (auto simp: replies_def seqOp_def)
  qed (use run s2 same_snapshot_trans [OF s1(3) s2(3)] in \<open>auto simp: replies_def\<close>)
qed

text \<open>The hits of a query come from the index and the registry of the snapshot, and no permission is asked for.\<close>

lemma on_txn_readOp: "on_txn (readOp f) = readOp (\<lambda>s. f (rp_txn s))"
  by (rule ext) (simp add: on_txn_def)

lemma query_hits:
  fixes E :: "('t, 'i, 'm, 'n, 'p, 'b, 'q, 'v) renv"
  defines "G \<equiv> read_grab (re_env E) (re_caches E)"
  shows "query_entities G index values reversed root t = (fst (query_entities G index values reversed root t), t)"
    and "query_entities (grab.truncate (pread_grab E)) index values reversed root s = (fst (query_entities G index values reversed root (rp_txn s)), s)"
  unfolding G_def query_entities_def
  by (auto simp: read_grab_def pread_grab_def grab.defs on_txn_readOp bindOp_def Let_def split: res.splits)

lemma load_entity_answers:
  assumes "reading F L hist t"
  shows "answers L hist (load_entity (read_grab F L) recompose k) t (case snapshot F t k of None \<Rightarrow> Ok None | Some e \<Rightarrow> recomposed recompose (Ok None) e)"
proof -
  have "answers L hist (load_entity (read_grab F L) recompose k) t (andThen (Ok (snapshot F t k)) (\<lambda>e. case e of None \<Rightarrow> Ok None | Some e \<Rightarrow> recomposed recompose (Ok None) e))"
    unfolding load_entity_def retOp_lift [of None] recomposed_lift read_grab_def grab.simps
  proof (rule answers_bind [OF read_entry_blob_answers [OF assms]], goal_cases)
    case (1 e pc)
    then show ?case by (cases e) simp_all
  qed
  then show ?thesis by simp
qed

lemma hits_loaded:
  assumes "preading E key hist mhist s" "enforced E" "sound_snapshot E s" "\<forall>k \<in> set ks. may_see E s k"
    and "reading (re_env E) (re_caches E) hist t" "snapshot (re_env E) t = snap_data E s"
  shows "fst (mapOp (p_load_entity (pread_grab E) recompose) ks s) = fst (mapOp (load_entity (read_grab (re_env E) (re_caches E)) recompose) ks t)"
  using assms
proof (induction ks arbitrary: s t)
  case (Cons k ks)
  let ?r = "case snap_data E s k of None \<Rightarrow> Ok None | Some e \<Rightarrow> recomposed recompose (Ok None) e"
  obtain s1 where s1: "p_load_entity (pread_grab E) recompose k s = (?r, s1)" "preading E key hist mhist s1" "same_snapshot s s1"
    using load_entity_permitted [OF Cons.prems(1-3)] Cons.prems(4) unfolding replies_def by fastforce
  obtain pc where t1: "load_entity (read_grab (re_env E) (re_caches E)) recompose k t = (?r, t\<lparr>rt_cache := pc\<rparr>)" "coherent (re_caches E) hist pc"
    using load_entity_answers [OF Cons.prems(5), of recompose k] Cons.prems(6) by (auto simp: answers_def)
  note S = same_snapshotD [OF s1(3)]
  have "fst (mapOp (p_load_entity (pread_grab E) recompose) ks s1) = fst (mapOp (load_entity (read_grab (re_env E) (re_caches E)) recompose) ks (t\<lparr>rt_cache := pc\<rparr>))"
    using Cons.prems S by (intro Cons.IH [OF s1(2) Cons.prems(2) _ _ reading_cache [OF Cons.prems(5) t1(2)]]) (simp_all add: sound_snapshot_def may_see_def)
  then show ?case using s1(1) t1(1) by (cases ?r) (simp_all add: fst_bind_ret)
qed simp

text \<open>C34: an index query passes directories that are closed to its principal. On a table only the library wrote, let a query of the default build hit a-nodes each of which the principal may read,
  and let one of them be at a path below a directory it may not access. Loading that path is refused, as the documentation says (a directory that cannot be traversed walls off everything
  beneath), but the same query run by the principal returns exactly what it returns in the default build, the walled-off document included.\<close>

theorem query_passes_closed_directory:
  assumes "preading E key hist mhist s" "enforced E" "sound_snapshot E s"
    and "fst (query_entities (read_grab (re_env E) (re_caches E)) index values reversed root (rp_txn s)) = Ok (Some ks)" "\<forall>k \<in> set ks. may_see E s k"
    and "into_arbor_path a = Ok p" "walk_of E s akey_ROOT p = Ok (Some k)" "k \<in> set ks" "\<not> open_dirs (may_see E s) (snap_data E s) akey_ROOT p"
  shows "fst (p_grab_load (pread_grab E) recompose a s) = Err (access_denied Access) \<and>
    fst (p_execute_query (pread_grab E) recompose index values reversed root s) =
      fst (execute_query (read_grab (re_env E) (re_caches E)) recompose index values reversed root (rp_txn s))"
proof
  have "\<not> open_path (may_see E s) (snap_data E s) akey_ROOT p" using assms(9) by (simp add: open_path_dirs)
  then show "fst (p_grab_load (pread_grab E) recompose a s) = Err (access_denied Access)"
    using load_replies [OF assms(1,2,6), of recompose] guarded_read_sound [OF assms(3), of "Ok None" "recomposed recompose (Err (is_a_directory p))" p]
    by (auto simp: replies_def)
  have hits: "query_entities (read_grab (re_env E) (re_caches E)) index values reversed root (rp_txn s) = (Ok (Some ks), rp_txn s)"
    "query_entities (grab.truncate (pread_grab E)) index values reversed root s = (Ok (Some ks), s)"
    using query_hits(1) [of E index "values" reversed root "rp_txn s"] query_hits(2) [of E index "values" reversed root s] assms(4) by metis+
  show "fst (p_execute_query (pread_grab E) recompose index values reversed root s) =
      fst (execute_query (read_grab (re_env E) (re_caches E)) recompose index values reversed root (rp_txn s))"
    using hits_loaded [OF assms(1-3,5) preadingD(4) [OF assms(1)], of recompose] hits
    by (simp add: p_execute_query_def execute_query_def fst_bind_ret snap_data_def)
qed

section \<open>Concrete tables\<close>

text \<open>A read transaction that has just been opened.\<close>

lemma fresh_preading:
  assumes "renv_ok E" "caches_ok (re_caches E)" "redb_ok (env_data (re_env E))" "rt_cache (rp_txn s) = path_cache_new (re_caches E)"
    and "rp_inode_cache s = lru_new (re_inode_ops E)" "rp_verified_macs s = lru_new (re_mac_ops E)" "rp_enforced_paths s = Map.empty" "rp_access_ok s = {}" "rp_verified s = {}"
    and "\<And>u. re_principal E = User u \<Longrightarrow> ses_key u = key"
  shows "preading E key (\<lambda>_. snap_data E s) (\<lambda>_. snap_meta E s) s"
proof -
  have "lru_ok (re_inode_ops E)" "lru_ok (re_mac_ops E)" using assms(1) by (simp_all add: renv_ok_def)
  then show ?thesis using assms coherent_new [OF assms(2), of "\<lambda>_. snap_data E s"]
    by (simp add: preading_def reading_def snap_data_def shared_ok_def memos_ok_def lru_okD(1))
qed

text \<open>A file \<open>f\<close> in a directory \<open>d\<close>, both of another user; \<open>others\<close> is what the directory grants to others.\<close>

definition wall_acl :: "rights \<Rightarrow> acl" where
  "wall_acl others = \<lparr>owner_uid = 3, owner_rights = Delete, group_map = [], other_rights = others\<rparr>"

definition wall_data :: "(akey, bytes) btree" where
  "wall_data = [(akey_ROOT, dir_entry (encode_dir [(''d'', 7)])), (5, file_entry (blob_encode (Leaf (U8 1)))), (7, dir_entry (encode_dir [(''f'', 5)]))]"

definition wall_inode :: "akey \<Rightarrow> acl option \<Rightarrow> inode" where
  "wall_inode k acl = (let e = the (bt_get wall_data k) in inode_default\<lparr>ino_acl := acl,
     ino_mac := Some (mac_value clear_crypto (ses_key keyed_session) ''t'' k e (acl_bytes acl)),
     ino_sig := Some (sign_value clear_crypto (ses_sign_seed keyed_session) ''t'' k e (acl_bytes acl))\<rparr>)"

definition wall_put :: "akey \<Rightarrow> acl option \<Rightarrow> (bytes, bytes) btree \<Rightarrow> (bytes, bytes) btree" where
  "wall_put k acl = bt_insert (inode_key ''t'' k) (inode_encode (wall_inode k acl))"

definition wall_inodes :: "rights \<Rightarrow> (bytes, bytes) btree" where
  "wall_inodes others = wall_put 7 (Some (wall_acl others)) (wall_put 5 (Some (wall_acl Access)) (wall_put akey_ROOT None []))"

definition wall_map :: "rights \<Rightarrow> inode_map" where
  "wall_map others = with_inode ''t'' 7 (Some (wall_inode 7 (Some (wall_acl others)))) (with_inode ''t'' 5 (Some (wall_inode 5 (Some (wall_acl Access))))
     (with_inode ''t'' akey_ROOT (Some (wall_inode akey_ROOT None)) (\<lambda>_ _. None)))"

definition wall_ctx :: "rights \<Rightarrow> ((akey, bytes) btree, (bytes, bytes) btree) pctx" where
  "wall_ctx others = \<lparr>pc_ctx = \<lparr>ctx_data = wall_data, ctx_buf = wb_new True, ctx_rng = 0\<rparr>, pc_inodes = wall_inodes others, pc_verified = {}\<rparr>"

type_synonym sample_renv = "((akey, bytes) btree, (bytes, bytes) btree, (string, bytes) btree, (bytes, bytes) btree,
  (apath \<times> u64 \<times> akey) list, ((u64 \<times> akey) \<times> bytes) list, ((u64 \<times> akey) \<times> bytes) list, ((u64 \<times> akey) \<times> unit) list) renv"

type_synonym sample_read = "((akey, bytes) btree, (bytes, bytes) btree, (string, bytes) btree, (bytes, bytes) btree,
  (apath \<times> u64 \<times> akey) list, ((u64 \<times> akey) \<times> bytes) list, ((u64 \<times> akey) \<times> bytes) list, ((u64 \<times> akey) \<times> unit) list) pread_txn"

definition wall_env :: "principal \<Rightarrow> sample_renv" where
  "wall_env P = \<lparr>re_env = \<lparr>env_data = btree_redb, env_index = btree_redb, env_meta = btree_redb, env_chrono = calendar, env_fuel = 1\<rparr>,
     re_caches = \<lparr>path_ops = list_lru 9, blob_ops = list_lru 9\<rparr>, re_inode_ops = list_lru 9, re_mac_ops = list_lru 9, re_inodes = btree_redb,
     re_build = full_build, re_crypto = clear_crypto, re_principal = P, re_now = 1000\<rparr>"

definition indexed_read :: "(bytes, bytes) btree option \<Rightarrow> (string, bytes) btree \<Rightarrow> (akey, bytes) btree \<Rightarrow> (bytes, bytes) btree \<Rightarrow> sample_read" where
  "indexed_read index meta data inodes = \<lparr>rp_txn = \<lparr>rt_data = Some data, rt_index = index, rt_meta = meta, rt_table = ''t'', rt_cache = \<lparr>paths = [], blobs = []\<rparr>, rt_generation = 0\<rparr>,
     rp_inodes = Some inodes, rp_inode_cache = [], rp_verified_macs = [], rp_enforced_paths = Map.empty, rp_access_ok = {}, rp_verified = {}, rp_access_log = Map.empty\<rparr>"

abbreviation fresh_read :: "(akey, bytes) btree \<Rightarrow> (bytes, bytes) btree \<Rightarrow> sample_read" where
  "fresh_read \<equiv> indexed_read None []"

lemma wall_env_ok: "renv_ok (wall_env P)" "caches_ok (re_caches (wall_env P))"
  by (simp_all add: wall_env_def renv_ok_def caches_ok_def list_lru_ok btree_redb_ok)

lemma fresh_read_reading:
  assumes "\<And>u. P = User u \<Longrightarrow> ses_key u = key"
  shows "preading (wall_env P) key (\<lambda>_. snap_data (wall_env P) (indexed_read ix meta data inodes)) (\<lambda>_. snap_meta (wall_env P) (indexed_read ix meta data inodes)) (indexed_read ix meta data inodes)"
  using assms by (intro fresh_preading [OF wall_env_ok]) (simp_all add: wall_env_def indexed_read_def path_cache_new_def list_lru_def btree_redb_ok)

lemma wall_inode_ok: "acl_ok a \<Longrightarrow> inode_ok full_build (wall_inode k (Some a))" "inode_ok full_build (wall_inode k None)"
  using crypto_okD(2,4) [OF clear_crypto_ok] by (simp_all add: inode_ok_def wall_inode_def inode_default_def full_build_def mac_value_def sign_value_def Let_def)

lemma wall_put_holds:
  assumes "holds_inodes full_build btree_redb n I" "inode_ok full_build (wall_inode k acl)"
  shows "holds_inodes full_build btree_redb (wall_put k acl n) (with_inode ''t'' k (Some (wall_inode k acl)) I)"
  using inode_put_holds [OF assms, of "''t''" k] by (auto simp: inode_put_def wall_put_def)

lemma wall_acl_ok: "acl_ok (wall_acl others)"
  by (simp add: acl_ok_def length_acl_encode wall_acl_def bt_ok_def)

lemma wall_hold: "holds_inodes full_build btree_redb (wall_inodes others) (wall_map others)"
  unfolding wall_inodes_def wall_map_def
  by (intro wall_put_holds no_inodes_hold wall_inode_ok wall_acl_ok)

lemma wall_lookup [simp]: "bt_get wall_data akey_ROOT = Some (dir_entry (encode_dir [(''d'', 7)]))" "bt_get wall_data 0 = Some (dir_entry (encode_dir [(''d'', 7)]))"
  "bt_get wall_data 5 = Some (file_entry (blob_encode (Leaf (U8 1))))" "bt_get wall_data 7 = Some (dir_entry (encode_dir [(''f'', 5)]))"
  by (simp_all add: wall_data_def bt_get_Cons akey_ROOT_def)

lemma wall_entry: "contents btree_redb wall_data k = Some e \<Longrightarrow> (k = akey_ROOT \<or> k = 5 \<or> k = 7) \<and> the (bt_get wall_data k) = e"
  by (auto simp: contents_def btree_redb_def wall_data_def bt_get_Cons split: if_splits)

lemma wall_sealed: "psealed (sample_penv keyed_session) keyed_session (wall_ctx others)"
proof (rule sealed_butI [OF sample_penv_ok, where I = "wall_map others"])
  fix k e assume "contents (pe_data (sample_penv keyed_session)) (ctx_data (pc_ctx (wall_ctx others))) k = Some e"
  then have "(k = akey_ROOT \<or> k = 5 \<or> k = 7) \<and> the (bt_get wall_data k) = e" using wall_entry by (simp add: sample_penv_def wall_ctx_def)
  then show "node_sealed (sample_penv keyed_session) keyed_session (wall_map others) k e"
    by (auto simp: node_sealed_def sample_penv_def wall_map_def wall_inode_def value_tags_def akey_ROOT_def with_inode_def Let_def)
qed (use wall_hold in \<open>simp add: sample_penv_def wall_ctx_def\<close>)

lemma wall_opened: "opened_on (wall_env P) (indexed_read ix meta wall_data (wall_inodes others)) (sample_penv keyed_session) (wall_ctx others)"
  by (simp add: opened_on_def wall_env_def indexed_read_def sample_penv_def wall_ctx_def)

lemma wall_sound: "sound_snapshot (wall_env (User keyed_session)) (indexed_read ix meta wall_data (wall_inodes others))"
  by (rule sealed_sound [OF wall_sealed _ wall_opened])
    (simp_all add: wall_ctx_def wb_new_def wb_file_get_def wb_files_dirty_def reads_as_def wall_env_def)

lemma wall_snap: "snap_data (wall_env P) (indexed_read ix meta wall_data inodes) = bt_get wall_data"
  by (simp add: snap_data_def snapshot_def wall_env_def indexed_read_def)

lemma wall_steps: "entry_child (dir_entry (encode_dir [(''d'', 7)])) ''d'' = Ok (Some 7)" "entry_child (dir_entry (encode_dir [(''f'', 5)])) ''f'' = Ok (Some 5)"
  "document_of calendar [''d'', ''f''] (file_entry (blob_encode (Leaf (U8 1)))) = Ok (Some (Leaf (U8 1)))"
  by code_simp+

lemma wall_may_see: "may_see (wall_env (User keyed_session)) (indexed_read ix meta wall_data (wall_inodes others)) k \<longleftrightarrow>
    permitted (User keyed_session) k (ino_acl (inode_of (wall_map others) ''t'' k)) Access"
proof -
  have "meta_of full_build (\<lambda>k. contents btree_redb (wall_inodes others) (inode_key ''t'' k)) k =
      Ok (ino_acl (inode_of (wall_map others) ''t'' k), ino_mac (inode_of (wall_map others) ''t'' k), ino_sig (inode_of (wall_map others) ''t'' k))"
    using read_meta_holds [OF wall_hold, of others "''t''" k] by (simp add: meta_of_def read_meta_def redb_get [OF btree_redb_ok] decode_meta_def cong: option.case_cong)
  moreover have "snap_meta (wall_env (User keyed_session)) (indexed_read ix meta wall_data (wall_inodes others)) = (\<lambda>k. contents btree_redb (wall_inodes others) (inode_key ''t'' k))"
    by (rule ext) (simp add: snap_meta_def wall_env_def indexed_read_def)
  ultimately show ?thesis by (simp add: may_see_def wall_env_def)
qed

lemma wall_grants: "permitted (User keyed_session) 7 (ino_acl (inode_of (wall_map others) ''t'' 7)) Access \<longleftrightarrow> others \<noteq> Rights_None"
  "permitted (User keyed_session) 5 (ino_acl (inode_of (wall_map others) ''t'' 5)) Access"
  by (cases others; simp add: permitted_def wall_map_def wall_inode_def with_inode_def Let_def akey_ROOT_def is_master_def acl_permits_def wall_acl_def keyed_session_def)+

lemma wall_open: "open_dirs (may_see (wall_env (User keyed_session)) (indexed_read ix meta wall_data (wall_inodes others))) (bt_get wall_data) akey_ROOT [''d'', ''f''] \<longleftrightarrow> others \<noteq> Rights_None"
  by (simp add: open_dirs_Cons wall_may_see wall_steps wall_grants)

theorem protected_read_safe_witness:
  "fst (p_grab_load_value calendar (pread_grab (wall_env (User keyed_session))) (ABuilt [''d'', ''f'']) (fresh_read wall_data (wall_inodes Access))) = Ok (Some (Leaf (U8 1))) \<and>
    readable (wall_env (User keyed_session)) (fresh_read wall_data (wall_inodes Access)) 7"
proof -
  let ?E = "wall_env (User keyed_session)" and ?s = "fresh_read wall_data (wall_inodes Access)" and ?p = "[''d'', ''f'']"
  have rd: "preading ?E (ses_key keyed_session) (\<lambda>_. snap_data ?E ?s) (\<lambda>_. snap_meta ?E ?s) ?s" by (rule fresh_read_reading) simp
  have enf: "enforced ?E" by (simp add: enforced_def wall_env_def)
  have arg: "into_arbor_path (ABuilt ?p) = Ok ?p" by simp
  have "open_path (may_see ?E ?s) (bt_get wall_data) akey_ROOT ?p"
    by (simp add: open_path_dirs wall_open wall_steps wall_may_see wall_grants)
  then have "guarded_read ?E ?s (Ok None) (document_of calendar ?p) ?p = Ok (Some (Leaf (U8 1)))"
    using guarded_read_sound [OF wall_sound, where none = "Ok None" and f = "document_of calendar ?p" and p = ?p] by (simp add: wall_snap wall_steps)
  then obtain s' where run: "p_grab_load_value calendar (pread_grab ?E) (ABuilt ?p) ?s = (Ok (Some (Leaf (U8 1))), s')"
    using load_value_replies [OF rd enf arg, of calendar] by (auto simp: replies_def)
  have "walk_of ?E ?s akey_ROOT [''d''] = Ok (Some 7)" by (simp add: wall_snap wall_steps)
  moreover have "?p = [''d''] @ [''f'']" by simp
  ultimately have "readable ?E ?s 7" using protected_read_safe [OF rd enf arg run] by blast
  then show ?thesis using run by simp
qed


text \<open>An index over the files of \<open>d\<close>, with the row of \<open>d/f\<close>, which has neither column.\<close>

definition wall_def :: index_def where
  "wall_def = sample_def\<lparr>idx_pattern := ''d/*''\<rparr>"

definition wall_registry :: registry where
  "wall_registry = \<lparr>next_id = 1, reg_entries = [sample_entry\<lparr>ent_def := wall_def\<rparr>]\<rparr>"

definition wall_index :: "(bytes, bytes) btree" where
  "wall_index = [(entry_key 0 (encode_columns wall_def [Null, Null]) (Some 5), [])]"

definition wall_read :: "rights \<Rightarrow> sample_read" where
  "wall_read others = indexed_read (Some wall_index) [(''index_registry'', registry_bytes wall_registry)] wall_data (wall_inodes others)"

lemma wall_registry_holds: "holds_registry btree_redb [(''index_registry'', registry_bytes wall_registry)] wall_registry"
proof -
  have "utf8 ''t'' \<and> utf8 ''by_age'' \<and> utf8 ''d/*'' \<and> vpath_ok [Name ''age''] \<and> vpath_ok [Name ''name''] \<and>
      utf8 (vpath_display [Name ''age'']) \<and> utf8 (vpath_display [Name ''name''])" by code_simp
  moreover have "length (registry_bytes wall_registry) < 2 ^ 32"
    by (simp add: registry_bytes_def wall_registry_def sample_entry_def entry_bytes_def index_def_bytes_def
        column_bytes_def wall_def_def sample_def_def column_desc_def column_asc_def vpath_display_def)
  ultimately have "registry_ok wall_registry"
    using usize_large
    by (simp add: registry_ok_def entry_ok_def wall_registry_def sample_entry_def text_ok_def index_def_ok_def wall_def_def sample_def_def column_ok_def
        column_desc_def column_asc_def vpath_display_def)
  then show ?thesis by (simp add: holds_registry_def bt_get_Cons)
qed

lemma wall_hits: "fst (query_entities (read_grab (re_env (wall_env P)) (re_caches (wall_env P))) ''by_age'' [] False [] (rp_txn (wall_read others))) = Ok (Some [5])"
proof -
  have "registry_lookup btree_redb [(''index_registry'', registry_bytes wall_registry)] ''t'' ''by_age'' = Ok (Some (sample_entry\<lparr>ent_def := wall_def\<rparr>))"
    using registry_load_holds [OF btree_redb_ok wall_registry_holds]
    by (simp add: registry_lookup_def wall_registry_def sample_entry_def wall_def_def sample_def_def entry_is_def)
  moreover have "scan_prefix btree_redb wall_index 0 (encode_columns wall_def []) (idx_unique wall_def) = Ok [5]" by code_simp
  ultimately show ?thesis
    by (simp add: query_entities_def read_grab_def wall_env_def wall_read_def indexed_read_def bindOp_def Let_def sample_entry_def)
qed

theorem query_passes_closed_directory_witness:
  "fst (p_grab_load (pread_grab (wall_env (User keyed_session))) (\<lambda>reader. Ok ()) (ABuilt [''d'', ''f'']) (wall_read Rights_None)) = Err (access_denied Access) \<and>
   fst (p_execute_query (pread_grab (wall_env (User keyed_session))) (\<lambda>reader. Ok ()) ''by_age'' [] False [] (wall_read Rights_None)) = Ok [()]"
proof -
  let ?E = "wall_env (User keyed_session)" and ?s = "wall_read Rights_None" and ?p = "[''d'', ''f'']" and ?load = "\<lambda>reader. Ok ()"
  have rd: "preading ?E (ses_key keyed_session) (\<lambda>_. snap_data ?E ?s) (\<lambda>_. snap_meta ?E ?s) ?s" unfolding wall_read_def by (rule fresh_read_reading) simp
  have enf: "enforced ?E" by (simp add: enforced_def wall_env_def)
  have sound: "sound_snapshot ?E ?s" unfolding wall_read_def by (rule wall_sound)
  have see: "\<forall>k \<in> set [5]. may_see ?E ?s k" by (simp add: wall_read_def wall_may_see wall_grants)
  have walk: "walk_of ?E ?s akey_ROOT ?p = Ok (Some 5)" by (simp add: wall_read_def wall_snap wall_steps)
  have closed: "\<not> open_dirs (may_see ?E ?s) (snap_data ?E ?s) akey_ROOT ?p" by (simp add: wall_read_def wall_snap wall_open)
  have doc: "recomposed ?load (Ok None) (file_entry (blob_encode (Leaf (U8 1)))) = Ok (Some ())" by code_simp
  have "snapshot (re_env ?E) (rp_txn ?s) 5 = Some (file_entry (blob_encode (Leaf (U8 1))))"
    using wall_snap [of "User keyed_session"] by (simp add: snap_data_def wall_read_def)
  then obtain t where "load_entity (read_grab (re_env ?E) (re_caches ?E)) ?load 5 (rp_txn ?s) = (Ok (Some ()), t)"
    using load_entity_answers [OF preadingD(4) [OF rd], of ?load 5] doc by (auto simp: answers_def)
  moreover have "query_entities (read_grab (re_env ?E) (re_caches ?E)) ''by_age'' [] False [] (rp_txn ?s) = (Ok (Some [5]), rp_txn ?s)"
    using query_hits(1) [of ?E] wall_hits by metis
  ultimately have "fst (execute_query (read_grab (re_env ?E) (re_caches ?E)) ?load ''by_age'' [] False [] (rp_txn ?s)) = Ok [()]"
    by (simp add: execute_query_def fst_bind_ret List.map_filter_def)
  then show ?thesis
    using query_passes_closed_directory [OF rd enf sound wall_hits see _ walk _ closed, of "ABuilt ?p" ?load] by simp
qed

end
