(* ===== verification/Protected_Writes.thy ===== *)
theory Protected_Writes
  imports Protected_Write Protected_Reads
begin

text \<open>
  Write transactions of a protected database against those of the default build: the same data and the same indexes, and every seal kept through the reindexing bracket
  and the access log of \<open>commit\<close>. The last section is about the reads behind a mutable accessor, which no access-control list restricts.
\<close>

section \<open>Refinement\<close>

definition txn_sealed :: "('t, 'i, 'm, 'n) pwenv \<Rightarrow> session \<Rightarrow> string \<Rightarrow> ('t, 'i, 'm, 'n) pwrite_txn \<Rightarrow> bool" where
  "txn_sealed W s t w \<longleftrightarrow> tx_table (pw_txn w) = t \<and> psealed (penv_of W t) s (context_of w)"

abbreviation wrefines :: "('t, 'i, 'm, 'n) pwenv \<Rightarrow> session \<Rightarrow> string \<Rightarrow> ('t, 'i, 'm, 'n, 'a) wop \<Rightarrow> (('t, 'i, 'm) write_txn, 'a) op \<Rightarrow> bool" where
  "wrefines W s t \<equiv> simulates (txn_sealed W s t) pw_txn"

lemma penv_of_simps [simp]: "pe_data (penv_of W t) = env_data (pw_env W)" "pe_inodes (penv_of W t) = pw_node_ops W" "pe_build (penv_of W t) = pw_build W"
  "pe_crypto (penv_of W t) = pw_crypto W" "pe_table (penv_of W t) = t" "pe_principal (penv_of W t) = pw_principal W"
  by (simp_all add: penv_of_def)

lemma context_of_simps [simp]: "pc_ctx (context_of w) = tx_ctx (pw_txn w)" "pc_inodes (context_of w) = pw_inodes w"
  by (simp_all add: context_of_def)

text \<open>Every mutation runs in a context of its own.\<close>

lemma wrefines_in_context [refine_intros]:
  assumes "refines (penv_of W t) s (f (penv_of W t)) g"
  shows "wrefines W s t (in_context W f) (on_ctx g)"
proof (rule simulatesI)
  fix w assume w: "txn_sealed W s t w"
  obtain r p where f: "f (penv_of W t) (context_of w) = (r, p)" by (cases "f (penv_of W t) (context_of w)")
  have c: "context_of (w\<lparr>pw_txn := (pw_txn w)\<lparr>tx_ctx := pc_ctx p\<rparr>, pw_inodes := pc_inodes p\<rparr>) = p\<lparr>pc_verified := {}\<rparr>"
    by (cases p) (simp add: context_of_def)
  have w': "tx_table (pw_txn w) = t" "psealed (penv_of W t) s (context_of w)" using w by (simp_all add: txn_sealed_def)
  note D = simulatesD [OF assms w'(2) f]
  have "in_context W f w = (r, w\<lparr>pw_txn := (pw_txn w)\<lparr>tx_ctx := pc_ctx p\<rparr>, pw_inodes := pc_inodes p\<rparr>)" using f w'(1) by (simp add: in_context_def)
  then show "txn_sealed W s t (snd (in_context W f w)) \<and>
      (\<forall>x. fst (in_context W f w) = Ok x \<longrightarrow> on_ctx g (pw_txn w) = (Ok x, pw_txn (snd (in_context W f w))))"
    using D w'(1) c by (simp add: txn_sealed_def on_ctx_def)
qed

lemma txn_sealed_index [simp]: "txn_sealed W s t (w\<lparr>pw_txn := (pw_txn w)\<lparr>tx_index := i\<rparr>\<rparr>) \<longleftrightarrow> txn_sealed W s t w"
  by (simp add: txn_sealed_def context_of_def)

lemma wrefines_on_index [refine_intros]: "wrefines W s t (on_wtxn (on_index h)) (on_index h)"
  by (rule simulatesI) (auto simp: on_wtxn_def on_index_def split_beta Let_def)

lemma wrefines_read [refine_intros]: "wrefines W s t (readOp (\<lambda>w. h (pw_txn w))) (readOp h)"
  by (rule simulatesI) simp

lemma refines_flush_and_disable [refine_intros]: "refines (penv_of W t) s (p_flush_and_disable (penv_of W t)) (flush_and_disable (env_data (pw_env W)))"
proof (rule simulatesI)
  fix p assume p: "psealed (penv_of W t) s p"
  show "psealed (penv_of W t) s (snd (p_flush_and_disable (penv_of W t) p)) \<and> (\<forall>x. fst (p_flush_and_disable (penv_of W t) p) = Ok x \<longrightarrow>
      flush_and_disable (env_data (pw_env W)) (pc_ctx p) = (Ok x, pc_ctx (snd (p_flush_and_disable (penv_of W t) p))))"
    using flush_buffered_sealed [OF p, where wb = "snd (wb_take_and_disable (ctx_buf (pc_ctx p)))" and V = "pc_verified p"]
    by (cases "dirs (ctx_buf (pc_ctx p)) = [] \<and> files (ctx_buf (pc_ctx p)) = []")
      (auto simp: p_flush_and_disable_def flush_and_disable_def wb_take_and_disable_def wb_take_def p_flush_buffered_def flush_buffered_def)
qed

lemma wrefines_reindex [refine_intros]:
  assumes "refines (penv_of W t) s (app (penv_of W t)) g"
  shows "wrefines W s t (p_reindex_around W S app) (reindex_around (pw_env W) S g)"
  unfolding p_reindex_around_def reindex_around_def Let_def by (intro refine_intros assms)

section \<open>Requests\<close>

text \<open>The public mutations of a transaction.\<close>

datatype request = Store_At arbor_arg vnode | Put_At apath "(akey \<times> u64) option" vpath scalar | Mkdir_At arbor_arg | Rm_At arbor_arg | Mv_At arbor_arg arbor_arg | Cp_At arbor_arg arbor_arg

definition p_request :: "('t, 'i, 'm, 'n) pwenv \<Rightarrow> request \<Rightarrow> ('t, 'i, 'm, 'n, unit) wop" where
  "p_request W q =
     (case q of
        Store_At path v \<Rightarrow> p_store_value W path v
      | Put_At path hint at x \<Rightarrow> p_put_scalar_at W path hint at x
      | Mkdir_At path \<Rightarrow> p_txn_mkdir W path
      | Rm_At path \<Rightarrow> seqOp (p_txn_rm W path) (retOp ())
      | Mv_At src dst \<Rightarrow> p_txn_mv W src dst
      | Cp_At src dst \<Rightarrow> p_txn_cp W src dst)"

definition request_of :: "('t, 'i, 'm) env \<Rightarrow> request \<Rightarrow> (('t, 'i, 'm) write_txn, unit) op" where
  "request_of E q =
     (case q of
        Store_At path v \<Rightarrow> store_value E path v
      | Put_At path hint at x \<Rightarrow> put_scalar_at E path None at x
      | Mkdir_At path \<Rightarrow> txn_mkdir E path
      | Rm_At path \<Rightarrow> seqOp (txn_rm E path) (retOp ())
      | Mv_At src dst \<Rightarrow> txn_mv E src dst
      | Cp_At src dst \<Rightarrow> txn_cp E src dst)"

lemma refines_on_penv [refine_intros]:
  "refines (penv_of W t) s (p_store_blob_into fuel (penv_of W t) path b) (store_blob_into fuel (env_data (pw_env W)) path b)"
  "refines (penv_of W t) s (p_put_scalar_into fuel C (penv_of W t) path at x) (put_scalar_into fuel C (env_data (pw_env W)) path None at x)"
  "refines (penv_of W t) s (p_ensure_dir (penv_of W t) path) (ensure_dir (env_data (pw_env W)) path)"
  "refines (penv_of W t) s (p_rm_into fuel (penv_of W t) path) (rm_into fuel (env_data (pw_env W)) path)"
  "refines (penv_of W t) s (p_mv_into fuel (penv_of W t) src dst) (mv_into fuel (env_data (pw_env W)) src dst)"
  "refines (penv_of W t) s (p_cp_into fuel (penv_of W t) src dst) (cp_into fuel (env_data (pw_env W)) src dst)"
  using refines_store_blob [where E = "penv_of W t"] refines_put_scalar [where E = "penv_of W t"] refines_ensure_dir [where E = "penv_of W t"]
    refines_rm [where E = "penv_of W t"] refines_mv [where E = "penv_of W t"] refines_cp [where E = "penv_of W t"] by simp_all

lemma wrefines_request: "wrefines W s t (p_request W q) (request_of (pw_env W) q)"
  unfolding p_request_def request_of_def p_store_value_def store_value_def p_store_value_at_def store_value_at_def p_put_scalar_at_def put_scalar_at_def
    p_txn_mkdir_def txn_mkdir_def p_txn_rm_def txn_rm_def p_txn_mv_def txn_mv_def p_txn_cp_def txn_cp_def refuse_def p_store_value_into_def store_value_into_def
  by (cases q; simp only: request.case) (intro refine_intros)+

section \<open>Commit\<close>

text \<open>Access times are not under the tags.\<close>

lemma bump_sealed:
  assumes "txn_sealed W s t w"
  shows "\<exists>w'. on_inodes (bump_access (pw_build W) (pw_node_ops W) table k at) w = (Ok (), w') \<and> txn_sealed W s t w' \<and> pw_txn w' = pw_txn w"
proof -
  have w: "tx_table (pw_txn w) = t" "psealed (penv_of W t) s (context_of w)" using assms by (simp_all add: txn_sealed_def)
  obtain I where P: "penv_ok (penv_of W t) s" "holds_inodes (pw_build W) (pw_node_ops W) (pw_inodes w) I"
    "\<And>k e. contents (env_data (pw_env W)) (ctx_data (tx_ctx (pw_txn w))) k = Some e \<Longrightarrow> k \<notin> {} \<Longrightarrow> \<not> waiting k (context_of w) \<Longrightarrow> node_sealed (penv_of W t) s I k e"
    by (rule sealed_butE [OF w(2)]) simp
  let ?J = "with_inode table k (map_option (bumped at) (I table k)) I"
  obtain n where n: "bump_access (pw_build W) (pw_node_ops W) table k at (pw_inodes w) = (Ok (), n)" "holds_inodes (pw_build W) (pw_node_ops W) n ?J"
    using bump_access_updates [OF P(2), of table k at] P(2) unfolding updates_def by blast
  have same: "ino_acl (bumped at i) = ino_acl i" "ino_mac (bumped at i) = ino_mac i" "ino_sig (bumped at i) = ino_sig i" for i
    by (simp_all add: bumped_def split: option.split)
  have "psealed (penv_of W t) s (context_of (w\<lparr>pw_inodes := n\<rparr>))"
  proof (rule sealed_butI [OF P(1), where I = ?J])
    fix j e assume "contents (pe_data (penv_of W t)) (ctx_data (pc_ctx (context_of (w\<lparr>pw_inodes := n\<rparr>)))) j = Some e" "\<not> waiting j (context_of (w\<lparr>pw_inodes := n\<rparr>))"
    then have "node_sealed (penv_of W t) s I j e" using P(3) by simp
    then show "node_sealed (penv_of W t) s ?J j e" by (auto simp: node_sealed_def same)
  qed (use n(2) in simp)
  then show ?thesis using n(1) w(1) by (simp add: on_inodes_def txn_sealed_def)
qed

lemma bumps_sealed:
  assumes "txn_sealed W s t w"
  shows "\<exists>w'. forOp batch (\<lambda>((table, akey), at). on_inodes (bump_access (pw_build W) (pw_node_ops W) table akey at)) w = (Ok (), w') \<and>
    txn_sealed W s t w' \<and> pw_txn w' = pw_txn w"
  using assms
proof (induction batch arbitrary: w)
  case (Cons b batch)
  obtain table k at where b: "b = ((table, k), at)" by (cases b) auto
  obtain w1 where w1: "on_inodes (bump_access (pw_build W) (pw_node_ops W) table k at) w = (Ok (), w1)" "txn_sealed W s t w1" "pw_txn w1 = pw_txn w"
    using bump_sealed [OF Cons.prems] by blast
  then show ?case using Cons.IH [OF w1(2)] b by auto
qed simp

lemma commit_flush_on_ctx: "commit_flush E s = on_ctx (ctx_flush (env_data E)) s"
  by (simp add: commit_flush_def ctx_flush_def on_ctx_def wb_take_def Let_def split_beta)

lemma p_commit_flush_sealed:
  assumes "txn_sealed W s t w"
  shows "\<exists>w'. p_commit_flush drain W w = (Ok (), w') \<and> txn_sealed W s t w' \<and> commit_flush (pw_env W) (pw_txn w) = (Ok (), pw_txn w')"
proof -
  have w: "tx_table (pw_txn w) = t" "psealed (penv_of W t) s (context_of w)" using assms by (simp_all add: txn_sealed_def)
  obtain p where p: "p_flush (penv_of W t) (context_of w) = (Ok (), p)" using flush_sealed [OF w(2)] by blast
  have F: "refines (penv_of W t) s (p_flush (penv_of W t)) (ctx_flush (env_data (pw_env W)))"
    using flush_sealed [where E = "penv_of W t" and s = s] by (intro simulatesI) (metis fst_conv penv_of_simps(1) snd_conv res.inject(1))
  obtain w1 where w1: "in_context W p_flush w = (Ok (), w1)" using p w(1) by (simp add: in_context_def)
  note D = simulatesD [OF wrefines_in_context [where f = p_flush, OF F] assms w1]
  let ?w2 = "w1\<lparr>pw_access_log := Map.empty\<rparr>"
  have "txn_sealed W s t ?w2" using D(1) by (simp add: txn_sealed_def context_of_def)
  from bumps_sealed [OF this, of "drain (pw_access_log w1)"] show ?thesis
    using w1 D(2) [OF refl] by (auto simp: p_commit_flush_def drain_access_log_def commit_flush_on_ctx)
qed

definition p_run :: "((string \<times> akey \<rightharpoonup> i64) \<Rightarrow> ((string \<times> akey) \<times> i64) list) \<Rightarrow> ('t, 'i, 'm, 'n) pwenv \<Rightarrow> request list \<Rightarrow> ('t, 'i, 'm, 'n, unit) wop" where
  "p_run drain W qs = seqOp (forOp qs (p_request W)) (p_commit_flush drain W)"

definition run_of :: "('t, 'i, 'm) env \<Rightarrow> request list \<Rightarrow> (('t, 'i, 'm) write_txn, unit) op" where
  "run_of E qs = seqOp (forOp qs (request_of E)) (commit_flush E)"

text \<open>C12: a write transaction of a protected database, with its indexes, is one of the default build that may refuse more. Let a user run requests on a sealed table and
  commit. At every end, failed ones too, the table is sealed. If the commit is reached it succeeds whatever access times wait in the log, and the data, the
  index table and the registry are those of the same requests in the default build, in which a mutable accessor resolves its path anew.\<close>

theorem protected_write_refines:
  assumes "txn_sealed W s t w" "p_run drain W qs w = (r, w')"
  shows "txn_sealed W s t w' \<and> (fst (forOp qs (p_request W) w) = Ok () \<longrightarrow> r = Ok ()) \<and>
    (r = Ok () \<longrightarrow> run_of (pw_env W) qs (pw_txn w) = (Ok (), pw_txn w'))"
proof -
  obtain r1 w1 where m: "forOp qs (p_request W) w = (r1, w1)" by (cases "forOp qs (p_request W) w")
  note D = simulatesD [OF simulates_for [OF wrefines_request] assms(1) m]
  obtain w2 where w2: "p_commit_flush drain W w1 = (Ok (), w2)" "txn_sealed W s t w2" "commit_flush (pw_env W) (pw_txn w1) = (Ok (), pw_txn w2)"
    using p_commit_flush_sealed [OF D(1)] by blast
  show ?thesis
  proof (cases r1)
    case (Ok u)
    then show ?thesis using assms(2) m w2 D(2) [OF Ok] by (auto simp: p_run_def run_of_def seqOp_def)
  qed (use assms(2) m D(1) in \<open>auto simp: p_run_def seqOp_def\<close>)
qed

section \<open>The mutable accessor\<close>

lemma txn_sealedD:
  assumes "txn_sealed W s t w"
  shows "tx_table (pw_txn w) = t" "pw_principal W = User s" "redb_ok (env_data (pw_env W))"
  using assms penv_okD [OF sealed_env, of "{}" "penv_of W t" s "context_of w"] by (simp_all add: txn_sealed_def)

lemma txn_sealed_meta:
  assumes "txn_sealed W s t w"
  obtains acl mac sig where "read_meta (pw_build W) (pw_node_ops W) (pw_inodes w) t k = Ok (acl, mac, sig)" "read_acl (pw_build W) (pw_node_ops W) (pw_inodes w) t k = Ok acl"
    "\<And>e. contents (env_data (pw_env W)) (ctx_data (tx_ctx (pw_txn w))) k = Some e \<Longrightarrow> wb_file_get k (ctx_buf (tx_ctx (pw_txn w))) = None \<Longrightarrow>
      check_mac W t k e acl mac = Ok ()"
proof -
  have w: "psealed (penv_of W t) s (context_of w)" using assms by (simp add: txn_sealed_def)
  obtain I where P: "holds_inodes (pw_build W) (pw_node_ops W) (pw_inodes w) I"
    "\<And>k e. contents (env_data (pw_env W)) (ctx_data (tx_ctx (pw_txn w))) k = Some e \<Longrightarrow> k \<notin> {} \<Longrightarrow> \<not> waiting k (context_of w) \<Longrightarrow> node_sealed (penv_of W t) s I k e"
    by (rule sealed_butE [OF w]) simp
  have "check_mac W t k e (ino_acl (inode_of I t k)) (ino_mac (inode_of I t k)) = Ok ()"
    if "contents (env_data (pw_env W)) (ctx_data (tx_ctx (pw_txn w))) k = Some e" "wb_file_get k (ctx_buf (tx_ctx (pw_txn w))) = None" for e
    using P(2) [of k e] that txn_sealedD(2) [OF assms] by (auto simp: node_sealed_def value_tags_def check_mac_def)
  then show thesis using that read_meta_holds [OF P(1), of t k] read_acl_holds [OF P(1), of t k] by blast
qed

text \<open>A transaction that has edited no file yet.\<close>

abbreviation no_edits :: "('t, 'i, 'm, 'n) pwrite_txn \<Rightarrow> bool" where
  "no_edits w \<equiv> \<forall>k. wb_file_get k (ctx_buf (tx_ctx (pw_txn w))) = None"

lemma closed_walk:
  assumes "txn_sealed W s t w" "no_edits w" "resolve_buffered_from (env_data (pw_env W)) (tx_ctx (pw_txn w)) k0 pre = Ok (Some k)"
    and "read_acl (pw_build W) (pw_node_ops W) (pw_inodes w) t k = Ok acl" "\<not> permitted (User s) k acl Access"
  shows "write_resolve_enforced_from W w k0 (pre @ name # rest) = Err (access_denied Access)"
  using assms(3)
proof (induction pre arbitrary: k0)
  case Nil
  obtain mac sig where m: "read_meta (pw_build W) (pw_node_ops W) (pw_inodes w) t k = Ok (acl, mac, sig)"
    by (rule txn_sealed_meta [OF assms(1), of k]) (use assms(4) in auto)
  then show ?case using Nil assms(5) txn_sealedD [OF assms(1)] by (simp add: authorize_permitted)
next
  case (Cons n pre)
  obtain acl0 mac sig where m: "read_meta (pw_build W) (pw_node_ops W) (pw_inodes w) t k0 = Ok (acl0, mac, sig)"
    "\<And>e. contents (env_data (pw_env W)) (ctx_data (tx_ctx (pw_txn w))) k0 = Some e \<Longrightarrow> check_mac W t k0 e acl0 mac = Ok ()"
    by (rule txn_sealed_meta [OF assms(1), of k0]) (use assms(2) in blast)
  note D = txn_sealedD [OF assms(1)] and get = redb_get [OF txn_sealedD(3) [OF assms(1)]]
  show ?case
  proof (cases "permitted (User s) k0 acl0 Access")
    case True
    then show ?thesis
    proof (cases "buffered_children w k0")
      case None
      then obtain e k1 where e: "contents (env_data (pw_env W)) (ctx_data (tx_ctx (pw_txn w))) k0 = Some e" "entry_child e n = Ok (Some k1)"
        "resolve_buffered_from (env_data (pw_env W)) (tx_ctx (pw_txn w)) k1 pre = Ok (Some k)"
        using Cons.prems by (auto simp: buffered_children_def Let_def child_of_def get split: option.splits)
      then show ?thesis using m D True None Cons.IH by (simp add: authorize_permitted read_entry_def get)
    next
      case (Some m')
      then obtain k1 where "bt_get m' n = Some k1" "resolve_buffered_from (env_data (pw_env W)) (tx_ctx (pw_txn w)) k1 pre = Ok (Some k)"
        using Cons.prems by (auto simp: buffered_children_def Let_def split: option.splits)
      then show ?thesis using m D True Some Cons.IH by (simp add: authorize_permitted)
    qed
  qed (use m D in \<open>simp add: authorize_permitted\<close>)
qed

lemma load_value_at_sealed:
  assumes "txn_sealed W s t w"
  shows "p_load_value_at W w path = load_value_at (pw_env W) (pw_txn w) path"
proof -
  have "andThen (read_entry (env_data (pw_env W)) (ctx_data (tx_ctx (pw_txn w))) k) (\<lambda>entry.
      case entry of None \<Rightarrow> Ok None | Some entry \<Rightarrow> andThen (verify_entry W w k entry) (\<lambda>_. Ok (Some entry))) =
    read_entry (env_data (pw_env W)) (ctx_data (tx_ctx (pw_txn w))) k" if unedited: "wb_file_get k (ctx_buf (tx_ctx (pw_txn w))) = None" for k
  proof -
    obtain acl mac sig where m: "read_meta (pw_build W) (pw_node_ops W) (pw_inodes w) t k = Ok (acl, mac, sig)"
      "\<And>e. contents (env_data (pw_env W)) (ctx_data (tx_ctx (pw_txn w))) k = Some e \<Longrightarrow> check_mac W t k e acl mac = Ok ()"
      by (rule txn_sealed_meta [OF assms, of k]) (use unedited in blast)
    show ?thesis using m txn_sealedD [OF assms]
      by (cases "contents (env_data (pw_env W)) (ctx_data (tx_ctx (pw_txn w))) k") (simp_all add: verify_entry_def read_entry_def redb_get)
  qed
  then show ?thesis
    unfolding p_load_value_at_def load_value_at_def is_a_directory_def Let_def by (simp cong: option.case_cong)
qed

text \<open>C35: a mutable accessor reads past every access-control list. Take a sealed table on which a directory of a path grants the user nothing. Reading the path in a
  write transaction is refused, yet the document behind an accessor that \<open>fetch_mut\<close> opens on it is the one a database without permissions would return.\<close>

theorem cursor_reads_unchecked:
  assumes "txn_sealed W s t w" "no_edits w" "resolve_buffered (env_data (pw_env W)) (tx_ctx (pw_txn w)) pre = Ok (Some k)"
    and "read_acl (pw_build W) (pw_node_ops W) (pw_inodes w) t k = Ok acl" "\<not> permitted (User s) k acl Access"
    and "p_fetch_mut W w (ABuilt (pre @ name # rest)) = Ok (Some cur)"
  shows "fst (p_grab_load_value C (pwrite_grab W) (ABuilt (pre @ name # rest)) w) = Err (access_denied Access) \<and>
    p_cursor_value W w cur = cursor_value (pw_env W) (pw_txn w) cur \<and> cur_path cur = pre @ name # rest"
proof -
  have "write_resolve W w (pre @ name # rest) = Err (access_denied Access)"
    using closed_walk [OF assms(1,2) assms(3) [unfolded resolve_buffered_def] assms(4,5)] txn_sealedD(2) [OF assms(1)] by (simp add: write_resolve_def)
  moreover have "cur_path cur = pre @ name # rest" using assms(6)
    by (cases "resolve_with_kind (env_data (pw_env W)) (tx_ctx (pw_txn w)) (pre @ name # rest)")
      (auto simp: p_fetch_mut_def fetch_mut_def simp del: andThen_Ok_iff split: option.splits entry_kind.splits)
  ultimately show ?thesis
    using load_value_at_sealed [OF assms(1)] by (simp add: p_grab_load_value_def p_with_blob_def pwrite_grab_def Let_def p_cursor_value_def cursor_value_def)
qed

section \<open>Samples\<close>

definition sample_pwenv :: "((akey, bytes) btree, (bytes, bytes) btree, (string, bytes) btree, (bytes, bytes) btree) pwenv" where
  "sample_pwenv = \<lparr>pw_env = \<lparr>env_data = btree_redb, env_index = btree_redb, env_meta = btree_redb, env_chrono = calendar, env_fuel = 1\<rparr>, pw_node_ops = btree_redb,
     pw_build = full_build, pw_crypto = clear_crypto, pw_principal = User keyed_session, pw_now = 1000\<rparr>"

text \<open>A transaction of an unindexed database with one access time in the log.\<close>

definition sample_pwrite :: "((akey, bytes) btree, (bytes, bytes) btree) pctx \<Rightarrow> ((akey, bytes) btree, (bytes, bytes) btree, (string, bytes) btree, (bytes, bytes) btree) pwrite_txn" where
  "sample_pwrite p = \<lparr>pw_txn = \<lparr>tx_ctx = pc_ctx p, tx_index = [], tx_meta = [], tx_table = ''t'', tx_indexed = False\<rparr>, pw_inodes = pc_inodes p, pw_access_log = [(''t'', 5) \<mapsto> 7]\<rparr>"

definition sample_drain :: "(string \<times> akey \<rightharpoonup> i64) \<Rightarrow> ((string \<times> akey) \<times> i64) list" where
  "sample_drain log = (case log (''t'', 5) of Some at \<Rightarrow> [((''t'', 5), at)] | None \<Rightarrow> [])"

lemma sample_penv_of: "penv_of sample_pwenv ''t'' = sample_penv keyed_session"
  by (simp add: penv_of_def sample_pwenv_def sample_penv_def)

lemma sample_context_of: "context_of (sample_pwrite p) = p\<lparr>pc_verified := {}\<rparr>"
  by (cases p) (simp add: context_of_def sample_pwrite_def)

lemma sample_pwrite_sealed: "psealed (sample_penv keyed_session) keyed_session p \<Longrightarrow> txn_sealed sample_pwenv keyed_session ''t'' (sample_pwrite p)"
  by (simp add: txn_sealed_def sample_penv_of sample_context_of) (simp add: sample_pwrite_def)

theorem protected_write_refines_witness:
  "\<exists>w'. p_run sample_drain sample_pwenv [Store_At (ABuilt [''a'']) (Leaf (U8 1))] (sample_pwrite empty_pctx) = (Ok (), w') \<and> txn_sealed sample_pwenv keyed_session ''t'' w' \<and>
    run_of (pw_env sample_pwenv) [Store_At (ABuilt [''a'']) (Leaf (U8 1))] (pw_txn (sample_pwrite empty_pctx)) = (Ok (), pw_txn w')"
proof -
  let ?q = "Store_At (ABuilt [''a'']) (Leaf (U8 1))" and ?E = "sample_penv keyed_session"
  obtain p1 where "p_mutate 1 calendar ?E (Store_Value [''a''] (Leaf (U8 1))) empty_pctx = (Ok (), p1)" using sample_store by blast
  then have "p_store_value_into 1 ?E [''a''] (Leaf (U8 1)) (empty_pctx\<lparr>pc_verified := {}\<rparr>) = (Ok (), p1)" by (simp add: p_mutate_def new_context_def seqOp_def bindOp_def)
  then have "fst (p_request sample_pwenv ?q (sample_pwrite empty_pctx)) = Ok ()"
    using sample_penv_of sample_context_of [of empty_pctx]
    by (simp add: p_request_def p_store_value_def p_store_value_at_def apath_is_root_def p_reindex_around_def in_context_def sample_pwrite_def sample_pwenv_def Let_def bindOp_def)
  then have "fst (forOp [?q] (p_request sample_pwenv) (sample_pwrite empty_pctx)) = Ok ()"
    by (cases "p_request sample_pwenv ?q (sample_pwrite empty_pctx)") simp
  moreover obtain r w' where run: "p_run sample_drain sample_pwenv [?q] (sample_pwrite empty_pctx) = (r, w')" by (cases "p_run sample_drain sample_pwenv [?q] (sample_pwrite empty_pctx)")
  ultimately show ?thesis using protected_write_refines [OF sample_pwrite_sealed [OF empty_sealed] run] by auto
qed

theorem cursor_reads_unchecked_witness:
  "\<exists>cur. p_fetch_mut sample_pwenv (sample_pwrite (wall_ctx Rights_None)) (ABuilt [''d'', ''f'']) = Ok (Some cur) \<and>
    fst (p_grab_load_value calendar (pwrite_grab sample_pwenv) (ABuilt [''d'', ''f'']) (sample_pwrite (wall_ctx Rights_None))) = Err (access_denied Access) \<and>
    p_cursor_value sample_pwenv (sample_pwrite (wall_ctx Rights_None)) cur = Ok (Leaf (U8 1))"
proof -
  let ?W = sample_pwenv and ?w = "sample_pwrite (wall_ctx Rights_None)"
  let ?cur = "\<lparr>cur_path = [''d'', ''f''], cur_akey = 5, cur_epoch = 0\<rparr>"
  have walk: "resolve_buffered btree_redb (tx_ctx (pw_txn ?w)) [''d''] = Ok (Some 7)" "resolve_buffered btree_redb (tx_ctx (pw_txn ?w)) [''d'', ''f''] = Ok (Some 5)"
    by (simp_all add: resolve_buffered_def sample_pwrite_def wall_ctx_def wb_new_def wb_dirty_def child_of_def redb_get [OF btree_redb_ok] wall_steps)
  have kind: "fetch_entry_kind btree_redb wall_data 5 = Ok (Some File)" by code_simp
  have fetch: "p_fetch_mut ?W ?w (ABuilt ([''d''] @ ''f'' # [])) = Ok (Some ?cur)"
    using walk(2) kind by (simp add: p_fetch_mut_def fetch_mut_def resolve_with_kind_def sample_pwenv_def sample_pwrite_def wall_ctx_def wb_new_def wb_dirty_def wb_structure_epoch_def)
  have acl: "read_acl (pw_build ?W) (pw_node_ops ?W) (pw_inodes ?w) ''t'' 7 = Ok (ino_acl (inode_of (wall_map Rights_None) ''t'' 7))"
    using read_acl_holds [OF wall_hold, of Rights_None "''t''" 7] by (simp add: sample_pwenv_def sample_pwrite_def wall_ctx_def)
  have "no_edits ?w" by (simp add: sample_pwrite_def wall_ctx_def wb_new_def wb_file_get_def wb_files_dirty_def)
  from cursor_reads_unchecked [OF sample_pwrite_sealed [OF wall_sealed] this _ acl _ fetch, of calendar]
  have "fst (p_grab_load_value calendar (pwrite_grab ?W) (ABuilt [''d'', ''f'']) ?w) = Err (access_denied Access) \<and> p_cursor_value ?W ?w ?cur = cursor_value (pw_env ?W) (pw_txn ?w) ?cur"
    using walk(1) wall_grants(1) [of Rights_None] by (simp add: sample_pwenv_def)
  moreover have "cursor_value (pw_env ?W) (pw_txn ?w) ?cur = Ok (Leaf (U8 1))"
    using walk(2) wall_steps(3) by (simp add: cursor_value_def load_value_at_def sample_pwenv_def sample_pwrite_def wall_ctx_def wb_new_def wb_file_get_def wb_files_dirty_def
      read_entry_def redb_get [OF btree_redb_ok] document_of_def)
  ultimately show ?thesis using fetch by auto
qed

end
