(* ===== verification/Access_Times.thy ===== *)
theory Access_Times
  imports Protected_Write
begin

text \<open>
  Timestamps of a-nodes and the log of access times (\<open>txn/grab.rs\<close>, \<open>txn/read.rs\<close>, \<open>db/inner.rs\<close>, \<open>db/database.rs\<close>, under \<open>feature = "entry-timestamps"\<close>): a read transaction collects
  the a-nodes it reads, deposits them in the log of the database when it ends, and \<open>flush_access_times\<close> writes the log to the metadata table. The order in which a hash map is drained is a
  parameter.
\<close>

section \<open>Reading timestamps\<close>

definition read_timestamps_of ::
  "('t, 'i, 'm, 'n, 'p, 'b, 'q, 'v) renv \<Rightarrow> (i64 \<Rightarrow> 'd option) \<Rightarrow> akey \<Rightarrow> ('t, 'i, 'm, 'n, 'p, 'b, 'q, 'v, ('d \<times> 'd \<times> 'd) option) rop" where
  "read_timestamps_of E from_millis akey =
     readOp (\<lambda>s. case rp_inodes s of None \<Rightarrow> Ok None | Some inodes \<Rightarrow> read_timestamps (re_build E) (re_inodes E) from_millis inodes (rp_table s) akey)"

definition write_timestamps_of ::
  "('t, 'i, 'm, 'n) pwenv \<Rightarrow> (i64 \<Rightarrow> 'd option) \<Rightarrow> akey \<Rightarrow> ('t, 'i, 'm, 'n, ('d \<times> 'd \<times> 'd) option) wop" where
  "write_timestamps_of W from_millis akey =
     readOp (\<lambda>s. read_timestamps (pw_build W) (pw_node_ops W) from_millis (pw_inodes s) (tx_table (pw_txn s)) akey)"

definition grab_times :: "'s pgrab \<Rightarrow> (akey \<Rightarrow> ('s, 'd option) op) \<Rightarrow> arbor_arg \<Rightarrow> ('s, 'd option) op" where
  "grab_times G timestamps_of path =
     bindOp (liftOp (into_arbor_path path)) (\<lambda>path.
     bindOp (g_resolve G path) (\<lambda>akey. case akey of None \<Rightarrow> retOp None | Some akey \<Rightarrow> timestamps_of akey))"

section \<open>The access log\<close>

type_synonym access_log = "string \<times> akey \<rightharpoonup> i64"

text \<open>The end of a read transaction.\<close>

definition read_drop :: "((akey \<rightharpoonup> i64) \<Rightarrow> (akey \<times> i64) list) \<Rightarrow> ('t, 'i, 'm, 'n, 'p, 'b, 'q, 'v) pread_txn \<Rightarrow> access_log \<Rightarrow> access_log" where
  "read_drop drain s log = deposit_access (rp_table s) (drain (rp_access_log s)) log"

text \<open>The shared state that a flush uses.\<close>

record 'n access_state =
  acc_log :: access_log
  acc_inodes :: 'n
  acc_generation :: u64

definition flush_access_times ::
  "build \<Rightarrow> ('n, bytes, bytes) redb \<Rightarrow> (access_log \<Rightarrow> ((string \<times> akey) \<times> i64) list) \<Rightarrow> ('n access_state, unit) op" where
  "flush_access_times B N drain s =
     (let batch = drain (acc_log s); s = s\<lparr>acc_log := Map.empty\<rparr>
      in if batch = [] then (Ok (), s)
         else
           (case forOp batch (\<lambda>((table, akey), when_at). bump_access B N table akey when_at) (acc_inodes s) of
              (Ok _, inodes) \<Rightarrow> (Ok (), s\<lparr>acc_inodes := inodes, acc_generation := acc_generation s + 1\<rparr>)
            | (Err e, _) \<Rightarrow> (Err e, s)
            | (Panic m, _) \<Rightarrow> (Panic m, s)
            | (Diverge, _) \<Rightarrow> (Diverge, s)))"

section \<open>What a flush writes\<close>

text \<open>A drain lists the map, each key once.\<close>

definition drains :: "(('k \<rightharpoonup> 'v) \<Rightarrow> ('k \<times> 'v) list) \<Rightarrow> ('k \<rightharpoonup> 'v) \<Rightarrow> bool" where
  "drains drain m \<longleftrightarrow> distinct (map fst (drain m)) \<and> map_of (drain m) = m"

definition later :: "i64 option \<Rightarrow> i64 option \<Rightarrow> i64 option" where
  "later a b = (case (a, b) of (Some a, Some b) \<Rightarrow> Some (if sint a < sint b then b else a) | (None, b) \<Rightarrow> b | (a, None) \<Rightarrow> a)"

lemma later_simps [simp]: "later None b = b" "later a None = a" "later (Some x) (Some y) = Some (if sint x < sint y then y else x)"
  by (simp_all add: later_def split: option.split)

lemma deposit_access_later:
  assumes "distinct (map fst es)"
  shows "deposit_access table es log (t, k) = (if t = table then later (log (t, k)) (map_of es k) else log (t, k))"
  using assms
proof (induction es arbitrary: log)
  case (Cons e es)
  obtain j w where e: "e = (j, w)" by (cases e)
  define log1 where "log1 = log((table, j) \<mapsto> (case log (table, j) of Some current \<Rightarrow> if sint current < sint w then w else current | None \<Rightarrow> w))"
  have "deposit_access table (e # es) log = deposit_access table es log1" by (simp add: deposit_access_def e log1_def)
  moreover have "map_of es j = None" using Cons.prems e by (simp add: map_of_eq_None_iff)
  moreover have "log1 (table, j) = later (log (table, j)) (Some w)" by (simp add: log1_def split: option.split)
  moreover have "log1 (t, k) = log (t, k)" if "t \<noteq> table \<or> k \<noteq> j" using that by (auto simp: log1_def)
  ultimately show ?case using Cons.IH [of log1] Cons.prems e by auto
qed (simp add: deposit_access_def)

definition bumped_map :: "access_log \<Rightarrow> inode_map \<Rightarrow> inode_map" where
  "bumped_map log I t k = (case log (t, k) of None \<Rightarrow> I t k | Some at \<Rightarrow> map_option (bumped at) (I t k))"

lemma bumps_hold:
  assumes "holds_inodes B N n I" "distinct (map fst batch)"
  shows "\<exists>n'. forOp batch (\<lambda>((table, akey), at). bump_access B N table akey at) n = (Ok (), n') \<and> holds_inodes B N n' (bumped_map (map_of batch) I)"
  using assms
proof (induction batch arbitrary: n I)
  case Nil
  have "bumped_map (map_of []) I = I" by (simp add: fun_eq_iff bumped_map_def)
  then show ?case using Nil by simp
next
  case (Cons b batch)
  obtain table k at where b: "b = ((table, k), at)" by (cases b) auto
  let ?J = "with_inode table k (map_option (bumped at) (I table k)) I"
  obtain n1 where n1: "bump_access B N table k at n = (Ok (), n1)" "holds_inodes B N n1 ?J"
    using bump_access_updates [OF Cons.prems(1), of table k at] Cons.prems(1) unfolding updates_def by blast
  have new: "map_of batch (table, k) = None" using Cons.prems(2) b by (simp add: map_of_eq_None_iff)
  have "bumped_map (map_of batch) ?J t j = bumped_map (map_of (b # batch)) I t j" for t j
    using new by (cases "map_of batch (t, j)") (auto simp: bumped_map_def b)
  then have eq: "bumped_map (map_of batch) ?J = bumped_map (map_of (b # batch)) I" by (intro ext)
  obtain n2 where "forOp batch (\<lambda>((table, akey), at). bump_access B N table akey at) n1 = (Ok (), n2)" "holds_inodes B N n2 (bumped_map (map_of batch) ?J)"
    using Cons.IH [OF n1(2)] Cons.prems(2) unfolding list.map distinct.simps by blast
  then show ?case using n1(1) b unfolding eq by (simp add: fun_upd_def)
qed

text \<open>C33: access times reach the metadata table. After a read transaction ends and the log is flushed, the flush has succeeded, the log is empty, the access time of every a-node is the
  latest of its old time, the time already in the log and the time of the transaction's read, in whatever order the maps are drained, and nothing else of any inode has changed; an a-node
  without an inode gets none. The generation advances exactly when something was written back.\<close>

theorem flushed_access_times:
  assumes "holds_inodes B N (acc_inodes s) I" "drains drain (rp_access_log r)" "drains drain_all (read_drop drain r (acc_log s))"
  shows "\<exists>n'. flush_access_times B N drain_all (s\<lparr>acc_log := read_drop drain r (acc_log s)\<rparr>) =
      (Ok (), \<lparr>acc_log = Map.empty, acc_inodes = n', acc_generation = acc_generation s + (if rp_access_log r = Map.empty \<and> acc_log s = Map.empty then 0 else 1)\<rparr>) \<and>
    holds_inodes B N n' (\<lambda>t k. case later (acc_log s (t, k)) (if t = rp_table r then rp_access_log r k else None) of
      None \<Rightarrow> I t k | Some at \<Rightarrow> map_option (bumped at) (I t k))"
proof -
  let ?es = "drain (rp_access_log r)" and ?log = "read_drop drain r (acc_log s)"
  have es: "distinct (map fst ?es)" "map_of ?es = rp_access_log r" using assms(2) by (simp_all add: drains_def)
  have log: "?log (t, k) = later (acc_log s (t, k)) (if t = rp_table r then rp_access_log r k else None)" for t k
    using deposit_access_later [OF es(1), of "rp_table r" "acc_log s" t k] es(2) by (simp add: read_drop_def)
  have batch: "distinct (map fst (drain_all ?log))" "map_of (drain_all ?log) = ?log" using assms(3) by (simp_all add: drains_def)
  obtain n' where n': "forOp (drain_all ?log) (\<lambda>((table, akey), at). bump_access B N table akey at) (acc_inodes s) = (Ok (), n')" "holds_inodes B N n' (bumped_map ?log I)"
    using bumps_hold [OF assms(1) batch(1)] batch(2) by auto
  have empty: "drain_all ?log = [] \<longleftrightarrow> rp_access_log r = Map.empty \<and> acc_log s = Map.empty"
  proof
    assume "drain_all ?log = []"
    then have none: "?log x = None" for x using batch(2) by (metis map_of.simps(1))
    have "acc_log s (t, k) = None" for t k using none [of "(t, k)"] log [of t k] by (cases "acc_log s (t, k)"; cases "rp_access_log r k") (auto split: if_splits)
    moreover have "rp_access_log r k = None" for k using none [of "(rp_table r, k)"] log [of "rp_table r" k] calculation by simp
    ultimately show "rp_access_log r = Map.empty \<and> acc_log s = Map.empty" by (auto simp: fun_eq_iff)
  next
    assume "rp_access_log r = Map.empty \<and> acc_log s = Map.empty"
    then have "?log = Map.empty" using log by (auto simp: fun_eq_iff)
    then show "drain_all ?log = []" using batch(2) by (metis map_of_eq_empty_iff)
  qed
  have "bumped_map ?log I = (\<lambda>t k. case later (acc_log s (t, k)) (if t = rp_table r then rp_access_log r k else None) of
      None \<Rightarrow> I t k | Some at \<Rightarrow> map_option (bumped at) (I t k))" by (intro ext) (simp only: bumped_map_def log)
  then show ?thesis using n' empty by (cases s) (auto simp: flush_access_times_def Let_def)
qed

section \<open>A sample\<close>

definition sample_times :: inode where
  "sample_times = inode_default\<lparr>ino_times := Some \<lparr>ts_created = 1, ts_modified = 1, ts_accessed = 1\<rparr>\<rparr>"

definition sample_access :: "(bytes, bytes) btree access_state" where
  "sample_access = \<lparr>acc_log = [(''t'', 5) \<mapsto> 3], acc_inodes = [(inode_key ''t'' 5, inode_encode sample_times)], acc_generation = 7\<rparr>"

definition reader_of :: "(akey \<rightharpoonup> i64) \<Rightarrow> (unit, unit, unit, unit, unit, unit, unit, unit) pread_txn" where
  "reader_of log = \<lparr>rp_txn = \<lparr>rt_data = None, rt_index = None, rt_meta = (), rt_table = ''t'', rt_cache = \<lparr>paths = (), blobs = ()\<rparr>, rt_generation = 0\<rparr>,
     rp_inodes = None, rp_inode_cache = (), rp_verified_macs = (), rp_enforced_paths = Map.empty, rp_access_ok = {}, rp_verified = {}, rp_access_log = log\<rparr>"

theorem flushed_access_times_witness:
  "\<exists>n'. flush_access_times full_build btree_redb (\<lambda>_. [((''t'', 5), 9)]) (sample_access\<lparr>acc_log := read_drop (\<lambda>_. [(5, 9)]) (reader_of [5 \<mapsto> 9]) [(''t'', 5) \<mapsto> 3]\<rparr>) =
      (Ok (), \<lparr>acc_log = Map.empty, acc_inodes = n', acc_generation = 8\<rparr>) \<and>
    read_timestamps full_build btree_redb Some n' ''t'' 5 = Ok (Some (1, 1, 9))"
proof -
  have ok: "inode_ok full_build sample_times" by (simp add: inode_ok_def sample_times_def inode_default_def full_build_def)
  let ?I = "with_inode ''t'' 5 (Some sample_times) (\<lambda>_ _. None)"
  have H: "holds_inodes full_build btree_redb (acc_inodes sample_access) ?I"
    using inode_put_holds [OF no_inodes_hold ok, of "''t''" 5] by (auto simp: inode_put_def sample_access_def)
  have "drains (\<lambda>_. [(5, 9)]) (rp_access_log (reader_of [5 \<mapsto> 9]))" by (simp add: drains_def reader_of_def)
  moreover have "read_drop (\<lambda>_. [(5, 9)]) (reader_of [5 \<mapsto> 9]) (acc_log sample_access) = [(''t'', 5) \<mapsto> 9]"
    by (auto simp: read_drop_def deposit_access_def reader_of_def sample_access_def)
  then have "drains (\<lambda>_. [((''t'', 5), 9)]) (read_drop (\<lambda>_. [(5, 9)]) (reader_of [5 \<mapsto> 9]) (acc_log sample_access))" by (simp add: drains_def)
  ultimately
  obtain n' where n': "flush_access_times full_build btree_redb (\<lambda>_. [((''t'', 5), 9)]) (sample_access\<lparr>acc_log := read_drop (\<lambda>_. [(5, 9)]) (reader_of [5 \<mapsto> 9]) (acc_log sample_access)\<rparr>) =
      (Ok (), \<lparr>acc_log = Map.empty, acc_inodes = n', acc_generation = acc_generation sample_access + (if False then 0 else 1)\<rparr>)"
    "holds_inodes full_build btree_redb n' (\<lambda>t k. case later (acc_log sample_access (t, k)) (if t = rp_table (reader_of [5 \<mapsto> 9]) then rp_access_log (reader_of [5 \<mapsto> 9]) k else None) of
      None \<Rightarrow> ?I t k | Some at \<Rightarrow> map_option (bumped at) (?I t k))" using flushed_access_times [OF H, of "\<lambda>_. [(5, 9)]" "reader_of [5 \<mapsto> 9]" "\<lambda>_. [((''t'', 5), 9)]"]
    by (auto simp: sample_access_def reader_of_def)
  have "inode_ok full_build (bumped 9 sample_times)" by (rule bumped_ok [OF ok])
  then have "read_timestamps full_build btree_redb Some n' ''t'' 5 = Ok (Some (1, 1, 9))"
    using inode_get [OF n'(2), of "''t''" 5] by (simp add: read_timestamps_def sample_access_def reader_of_def inode_decode_encode)
      (simp add: bumped_def sample_times_def into_node_times_def)
  then show ?thesis using n'(1) by (auto simp: sample_access_def)
qed

end
