(* ===== verification/Export_Store.thy ===== *)
theory Export_Store
  imports Export_Laws Db_Properties
begin

text \<open>
  Exports from a committed database: what a read transaction renders, in terms of the file system its snapshot shows.
\<close>

text \<open>An export renders the file at the path and nothing else. On a sound database, whatever its caches hold, exporting a path from a read transaction gives the JSON text of exactly the
  document stored there; a directory is refused and a path with nothing at it is reported missing.\<close>

theorem export_reads_snapshot:
  assumes "db_inv E B reg Hs (db_store d)" "db_coherent E L d" "caches_ok L"
  shows "fst (txn_export_to_json X C (read_grab E L) (ABuilt p) indent (table_read L name d)) =
    (case files_at (Hs name) p of
       None \<Rightarrow> Err (ValueNotFound p)
     | Some Directory \<Rightarrow> Err (CannotAccess (quoted (apath_display p) @ '' is a directory and cannot be exported''))
     | Some (Document b) \<Rightarrow> andThen (blob_decode C b) (\<lambda>v. Ok (to_json X v indent)))"
proof -
  obtain hist where "indexed_reader E L hist (indexes_of reg name) (table_read L name d) (Hs name)" using read_begins [OF assms] by blast
  then have "shows_heap E L hist (table_read L name d) (Hs name)" by (simp add: indexed_reader_def)
  from snapshots.txn_value_law [OF this, of C p] show ?thesis
    by (auto simp: txn_export_to_json_def bindOp_def split: option.splits found.splits res.splits)
qed

theorem export_reads_snapshot_witness:
  "fst (txn_export_to_json sample_texts calendar (read_grab list_env list_caches) (ABuilt [''u'']) None (table_read list_caches ''t'' (db_inner_new empty_store False
      :: (_, _, _, (apath \<times> u64 \<times> akey) list, ((u64 \<times> akey) \<times> bytes) list) db_inner))) = Err (ValueNotFound [''u''])"
proof -
  let ?d = "db_inner_new empty_store False :: (_, _, _, (apath \<times> u64 \<times> akey) list, ((u64 \<times> akey) \<times> bytes) list) db_inner"
  have "db_inv list_env list_blank registry_default (\<lambda>_. Map.empty) (db_store ?d)" using empty_db_inv by (simp add: db_inner_new_def)
  from export_reads_snapshot [OF this db_coherent_new list_caches_ok] show ?thesis by simp
qed

end
