(* ===== verification/Spec2Isabelle.thy ===== *)
theory Spec2Isabelle
  imports Rooted Acl_Changes Protected_Writes Access_Times Typed_Store Export_Store
begin

text \<open>
  A verification library for ArborDB, an embedded document database in Rust (\<open>crates/arbordb\<close>). All source files named below and in the
  other theories are under \<open>src/crates/arbordb/src/\<close>.

  \<^bold>\<open>The program.\<close> A database file holds named tables. A table is a virtual file system of arbor nodes (a-nodes): directories, which name their
  children by 128-bit keys, and files, each of which is one document, a tree of scalars, lists and objects. Documents and directories are stored
  as byte blobs of the program's own formats in tables of the \<open>redb\<close> storage engine. Secondary indexes cover the a-nodes a path pattern matches; their rows are byte
  strings, in one table shared by all indexes, whose order is the order of the indexed values. One write transaction at a time changes a table through a write-back buffer and
  brackets each change by the maintenance of the indexes; read transactions run on snapshots and share caches keyed by a generation counter that every
  commit advances. Values are stored and loaded dynamically, by Rust type, through Serde, or exported as JSON and YAML. A build with the permission system adds
  access-control lists, keyed tags and signatures on every entry, users, groups and their administration; a build with timestamps adds access times.

  \<^bold>\<open>How code is modelled.\<close> A function of the source is a definition of the same name, prefixed by the type or module where two have the same name; a
  function that the permission build has too is \<open>p_f\<close> there. A fallible function returns a \<^typ>\<open>'a res\<close>: \<^term>\<open>Ok x\<close> or \<^term>\<open>Err e\<close> as in \<open>AdbResult\<close>, \<open>Panic\<close> for a Rust panic, and
  \<open>Diverge\<close> for a recursion that did not end within its fuel. A method that mutates state is an operation (\<open>Ops\<close>): it returns its result and the state as
  it leaves it, in the error case too. Integers have their width, and their arithmetic wraps as in a release build; strings are their UTF-8 bytes; a
  \<open>BTreeMap\<close> is a key-sorted association list. Code outside the repository is a parameter with its documented behaviour as a hypothesis: the storage engine (\<open>redb\<close>,
  \<open>redb_ok\<close>), the caches (\<open>lru\<close>, \<open>caches_ok\<close>), the calendar types (\<open>chrono\<close>), the texts other crates print (\<open>texts\<close>), the cryptographic primitives (\<open>crypto\<close>,
  \<open>crypto_ok\<close>). Each is instantiated by a concrete function in the witnesses. Random bytes, clocks and the seeds of key generators are arguments.

  \<^bold>\<open>The theories, from the bottom.\<close>

  \<^item> \<open>Prelude\<close>, \<open>Errors\<close>, \<open>Ops\<close>, \<open>Simulation\<close>: integers, bytes, strings and sorted maps; errors and results (\<open>error.rs\<close>); operations on a state; refinement between
    operations.

  \<^item> \<open>Paths\<close> (\<open>path/\<close>), \<open>Keys\<close> (\<open>key.rs\<close>), \<open>Scalars\<close> (\<open>data/scalar.rs\<close>, \<open>time.rs\<close>), \<open>Values\<close> (\<open>value.rs\<close>): parsing inverts printing on well-formed paths, generated keys do not repeat, scalars
    survive their encoding, and writing into a document obeys the laws of path-addressed updates.

  \<^item> \<open>Codec\<close> (\<open>codec/putters.rs\<close>, \<open>codec/read.rs\<close>, \<open>codec/reader.rs\<close>), \<open>Name_Table\<close>, \<open>Dir_Codec\<close> (\<open>codec/dir.rs\<close>), \<open>Archived\<close>, \<open>Archived_Layout\<close>, \<open>Blob_Nodes\<close> (\<open>codec/archived.rs\<close>), \<open>Readers\<close>
    (\<open>access/\<close>): round trips of all formats, navigation inside a blob agrees with navigation inside the document, in-place overwriting of a scalar is re-encoding,
    the two readers agree. A blob whose offsets form a cycle is never decoded, which is proved as a defect.

  \<^item> \<open>Ordered\<close> (\<open>index/ordered.rs\<close>), \<open>Index_Defs\<close> (\<open>index/definitions/\<close>), \<open>Index_Registry\<close> (\<open>index/registry/\<close>), \<open>Index_Maintenance\<close> (\<open>index/pattern.rs\<close>, \<open>key.rs\<close>, \<open>scan.rs\<close>, \<open>maintenance.rs\<close>): byte order
    is value order, column by column and in each direction; the registry is a map of names to definitions that never reuses an id.

  \<^item> \<open>Engine\<close> (\<open>engine/\<close>), \<open>Write_Context\<close> (\<open>txn/context/write_buffer.rs\<close>, \<open>ctx.rs\<close>), \<open>Table_Ops\<close> (\<open>txn/context/table.rs\<close>), with the abstract states \<open>heap\<close> and \<open>file_system\<close> of \<open>Tree_Heap\<close> and the laws
    in \<open>Table_Laws\<close>, \<open>Store_Laws\<close>, \<open>Scalar_Patch\<close>, \<open>Table_Properties\<close>: every operation succeeds where it should and does to the file system what it says, whatever is buffered.

  \<^item> \<open>Write_Txn\<close> (\<open>txn/write.rs\<close>, \<open>access/mut_cursor.rs\<close>), \<open>Index_Sync\<close>, \<open>Index_Scan\<close>, \<open>Txn_Laws\<close>, \<open>Txn_Properties\<close>: the reindexing bracket keeps every index with exactly the rows of its table, or
    reports a violation of a unique index; \<open>mkdir\<close>, which is not bracketed, does not.

  \<^item> \<open>Read_Txn\<close> (\<open>txn/read.rs\<close>, \<open>grab.rs\<close>, \<open>query.rs\<close>, \<open>cache.rs\<close>), \<open>Cache_Laws\<close>, \<open>Grab_Laws\<close>: coherent caches do not change what is read; reads and queries as functions of the file system, once for
    both kinds of transaction (locale \<open>grab_source\<close>).

  \<^item> \<open>Database\<close> (\<open>db/\<close>, \<open>table.rs\<close>), \<open>Concurrency\<close>, \<open>Db_Laws\<close>, \<open>Db_Properties\<close>: what is committed is what later readers read; snapshots are isolated and commits can finish under every
    interleaving of threads; index administration keeps the database sound, but for a race in which a new index misses rows.

  \<^item> \<open>Typed_Data\<close>, \<open>Typed_Laws\<close> (\<open>data/\<close>), \<open>Serde\<close>, \<open>Serde_Laws\<close> (\<open>serde/\<close>), \<open>Typed_Store\<close>, \<open>Export\<close>, \<open>Export_Laws\<close>, \<open>Export_Store\<close> (\<open>export/\<close>): the direct encoders write the documents they stand for, typed and Serde
    values come back, loads are type safe, JSON texts have exactly the tokens of their documents; two defects of options in lists and of the map keys \<open>.\<close> and \<open>..\<close>.

  \<^item> \<open>Rooted\<close> (\<open>txn/rooted/\<close>): what is read by path through a view depends only on what is at and under its root, and what is written through it stays there, but for missing
    directories above the root.

  \<^item> \<open>Acl\<close> (\<open>acl.rs\<close>, \<open>perm/access.rs\<close>), \<open>Inodes\<close> (\<open>inode/\<close>), \<open>Integrity\<close> (\<open>crypto.rs\<close>, \<open>perm/integrity.rs\<close>), \<open>Perm_Store\<close>, \<open>Perm_Laws\<close> (\<open>perm/store.rs\<close>), \<open>Perm_Admin\<close>, \<open>Admin_Laws\<close>, \<open>Promotion\<close> (\<open>db/database.rs\<close>): the authorization
    decision is a declarative policy, tags bind what they cover, every administrative call keeps the permission store well formed and sealed, promotion seals what was there.

  \<^item> \<open>Protected\<close>, \<open>Protected_Laws\<close>, \<open>Protected_Properties\<close>, \<open>Permitted\<close>, \<open>Acl_Changes\<close>, \<open>Protected_Write\<close>, \<open>Protected_Writes\<close> (the write side under \<open>feature = "permissions"\<close>) and \<open>Protected_Read\<close>, \<open>Protected_Read_Laws\<close>,
    \<open>Protected_Reads\<close> (the read side): the protected build does what the default build does or refuses, keeps every entry sealed, removes only what it may, and, with caches coherent with the versions of data and
    metadata, reads only what it may; with the defects found (groups removed without a new seal, queries and cursors that pass closed directories).

  \<^item> \<open>Access_Times\<close> (\<open>feature = "entry-timestamps"\<close>): flushing the access log leaves the latest access of every a-node.

  \<^bold>\<open>Interfaces.\<close> The contracts are locales, interpreted on the model's definitions where these are provided: \<open>codec\<close> (an encoder and its reader), \<open>name_table\<close> (binary search), \<open>order_code\<close>
  (order-preserving encodings), \<open>value_reader\<close> (the \<open>Reader\<close> trait), \<open>grab_source\<close> and its extension \<open>indexed_source\<close> (the \<open>Grab\<close> trait).

  \<^bold>\<open>Bounds and fuel.\<close> Deleting and copying a subtree recurse along stored keys and take fuel; a tree of a-nodes with 128-bit keys is less than \<open>2 ^ 128\<close> deep (lemma
  \<open>depth_bound\<close>), so the fuel \<open>2 ^ 128\<close> of the sample environments is always enough, and the laws ask for \<open>depth_ok\<close> only. Decoding a blob takes the length of the blob as fuel, which is enough for
  every blob the encoders write. Blobs and directories are limited to 4 GiB by their 32-bit offsets (\<open>blob_fits\<close>, \<open>roomy\<close>). The generation counter has 64 bits; where a property needs that a commit's
  generation is new, it assumes that the counter has not reached its maximum. Fresh keys are assumed not to collide with stored ones (\<open>fresh_keys\<close>); within one generator that is proved.

  \<^bold>\<open>Not modelled.\<close> The derive macros (\<open>crates/arbordb-derive\<close>), which produce code at compile time; the arbitrary-precision scalars of optional features; file handling, durability options and errors of
  the storage engine; poisoned locks; the files of public keys; re-exports and module glue.
\<close>

end
